(* ===== verification/Mpy_Types.thy ===== *)
theory Mpy_Types
  imports Mpy_Prelude
begin

text \<open>
  The type objects of the compiler (\<^verbatim>\<open>src/mpy_types.py\<close>): every type kind with the
  fields that decide reference counting and layout, and the questions
  \<^verbatim>\<open>is_rc\<close>, \<^verbatim>\<open>is_rc_pointer\<close>, \<^verbatim>\<open>rc_leaves\<close>, \<^verbatim>\<open>leaves\<close>,
  \<^verbatim>\<open>is_result_type\<close>, \<^verbatim>\<open>has_object_header\<close> and \<^verbatim>\<open>has_vtable\<close> each
  kind answers.  Type objects are interned in the source and compared by
  identity; here each carries an object identity \<open>oid\<close>.
\<close>

subsection \<open>Names, variables and types\<close>

record name_hdr =
  oid :: nat
  stem :: string
  qualname :: string

text \<open>
  A \<^verbatim>\<open>Variable\<close>: a parameter, local, global, class attribute or union member.  Its
  \<open>v_oid\<close> is the identity the source compares with \<^verbatim>\<open>is\<close>; \<open>v_unresolved\<close> says its
  lazy \<^verbatim>\<open>resolve\<close> callback has not run yet.
\<close>

datatype 't variable = Variable
  (v_oid: nat) (v_stem: string) (v_qualname: string) (v_type: 't) (v_is_global: bool)
  (v_unresolved: bool)

datatype mtype =
    Scalar name_hdr (sizeof: nat)
  | TypeVar name_hdr (tv_bound: "mtype option")
  | Specialization name_hdr (spec_base: mtype) (spec_args: "mtype list") (spec_monomorphized: mtype)
  | CallableType name_hdr "mtype list" mtype
  | FixedArrayType name_hdr mtype nat
  | TupleType name_hdr "mtype list"
  | GeneratorType name_hdr mtype "mtype option" "mtype option"
  | Protocol name_hdr
  | RCClass name_hdr
  | ClosureType name_hdr "mtype list" "mtype option"
  | CStruct name_hdr bool
  | CUnion name_hdr
  | TaggedUnion name_hdr (tu_type_params: "mtype list") (tu_attributes: "mtype variable list")
  | CEnum name_hdr
  | CType name_hdr

type_synonym var = "mtype variable"

fun type_hdr :: "mtype \<Rightarrow> name_hdr" where
  "type_hdr (Scalar h _) = h"
| "type_hdr (TypeVar h _) = h"
| "type_hdr (Specialization h _ _ _) = h"
| "type_hdr (CallableType h _ _) = h"
| "type_hdr (FixedArrayType h _ _) = h"
| "type_hdr (TupleType h _) = h"
| "type_hdr (GeneratorType h _ _ _) = h"
| "type_hdr (Protocol h) = h"
| "type_hdr (RCClass h) = h"
| "type_hdr (ClosureType h _ _) = h"
| "type_hdr (CStruct h _) = h"
| "type_hdr (CUnion h) = h"
| "type_hdr (TaggedUnion h _ _) = h"
| "type_hdr (CEnum h) = h"
| "type_hdr (CType h) = h"

abbreviation type_id :: "mtype \<Rightarrow> nat" where
  "type_id t \<equiv> oid (type_hdr t)"

abbreviation same_type :: "mtype \<Rightarrow> mtype \<Rightarrow> bool" where
  "same_type a b \<equiv> type_id a = type_id b"

lemma size_v_type: "x \<in> set xs \<Longrightarrow> size (v_type x) < size_list (size_variable size) xs"
proof (induction xs)
  case (Cons a xs)
  then show ?case by (cases a; cases "x = a") auto
qed simp

subsection \<open>Leaves and reference-counting questions\<close>

fun is_tagged_union :: "mtype \<Rightarrow> bool" where
  "is_tagged_union (TaggedUnion _ _ _) = True"
| "is_tagged_union _ = False"

fun is_typevar :: "mtype \<Rightarrow> bool" where
  "is_typevar (TypeVar _ _) = True"
| "is_typevar _ = False"

text \<open>\<^verbatim>\<open>Type.leaves\<close>: a plain type is its own only leaf, a union has one leaf per member.\<close>

fun leaves :: "mtype \<Rightarrow> mtype list" where
  "leaves (TaggedUnion _ _ attrs) = map v_type attrs"
| "leaves t = [t]"

text \<open>
  The one-level substitution a \<^verbatim>\<open>Specialization\<close> of a generic union applies to the union's
  declared leaves: a leaf that is (by identity) one of the type parameters is replaced by its
  argument.  A Python dict comprehension keeps the last binding of a repeated key.
\<close>

definition subst_leaf :: "mtype list \<Rightarrow> mtype list \<Rightarrow> mtype \<Rightarrow> mtype" where
  "subst_leaf params args leaf =
     (case map_of (rev (zip (map type_id params) args)) (type_id leaf) of
        Some arg \<Rightarrow> arg | None \<Rightarrow> leaf)"

lemma subst_leaf_size:
  assumes "m \<in> set attrs"
  shows "size (subst_leaf params args (v_type m)) <
    Suc (size_list size args + size_list (size_variable size) attrs)"
proof (cases "map_of (rev (zip (map type_id params) args)) (type_id (v_type m))")
  case None
  with size_v_type [OF assms] show ?thesis by (simp add: subst_leaf_def)
next
  case (Some a)
  then have "a \<in> set args" by (auto dest!: map_of_SomeD set_zip_rightD)
  then have "size a < Suc (size_list size args)"
    by (metis le_imp_less_Suc order_refl size_list_estimation')
  with Some show ?thesis by (simp add: subst_leaf_def)
qed

text \<open>
  \<^verbatim>\<open>is_rc\<close>: a tuple, an \<^verbatim>\<open>RCClass\<close> and a closure are reference counted; a union is when one of
  its leaves is; a \<^verbatim>\<open>Specialization\<close> of a union asks its substituted leaves, of anything else its
  base.
\<close>

function (sequential) is_rc :: "mtype \<Rightarrow> bool" where
  "is_rc (TupleType _ _) = True"
| "is_rc (RCClass _) = True"
| "is_rc (ClosureType _ _ _) = True"
| "is_rc (TaggedUnion _ _ attrs) = list_ex (\<lambda>m. is_rc (v_type m)) attrs"
| "is_rc (Specialization _ (TaggedUnion _ params attrs) args _) =
     list_ex (\<lambda>m. is_rc (subst_leaf params args (v_type m))) attrs"
| "is_rc (Specialization _ base _ _) = is_rc base"
| "is_rc _ = False"
  by pat_completeness auto
termination
proof (relation "measure size", goal_cases)
  case (3 h h' params attrs args m x)
  then show ?case using subst_leaf_size [of x attrs params args] by simp
qed (auto dest: size_v_type)

text \<open>\<^verbatim>\<open>rc_leaves\<close>: the leaves that need reference counting, after the substitution.\<close>

fun rc_leaves :: "mtype \<Rightarrow> mtype list" where
  "rc_leaves (TaggedUnion h params attrs) = filter is_rc (leaves (TaggedUnion h params attrs))"
| "rc_leaves (Specialization h (TaggedUnion h' params attrs) args m) =
     filter is_rc (map (subst_leaf params args) (leaves (TaggedUnion h' params attrs)))"
| "rc_leaves t = (if is_rc t then [t] else [])"

fun is_rc_pointer :: "mtype \<Rightarrow> bool" where
  "is_rc_pointer (TupleType _ _) = True"
| "is_rc_pointer (RCClass _) = True"
| "is_rc_pointer (ClosureType _ _ _) = True"
| "is_rc_pointer (Specialization _ base _ _) = is_rc_pointer base"
| "is_rc_pointer _ = False"

fun is_result_type :: "mtype \<Rightarrow> bool" where
  "is_result_type (TaggedUnion h _ _) = (stem h = ''Result'')"
| "is_result_type (Specialization _ base _ _) = is_result_type base"
| "is_result_type _ = False"

fun has_object_header :: "mtype \<Rightarrow> bool" where
  "has_object_header (RCClass _) = True"
| "has_object_header (ClosureType _ _ _) = True"
| "has_object_header (Specialization _ base _ _) = has_object_header base"
| "has_object_header _ = False"

fun has_vtable :: "mtype \<Rightarrow> bool" where
  "has_vtable (RCClass _) = True"
| "has_vtable (ClosureType _ _ _) = True"
| "has_vtable (CStruct _ is_interface) = is_interface"
| "has_vtable (Specialization _ base _ _) = has_vtable base"
| "has_vtable _ = False"

fun pointer_stem :: "mtype \<Rightarrow> string option" where
  "pointer_stem (Specialization _ (Scalar h _) _ _) =
     (if stem h = ''Ptr'' \<or> stem h = ''ConstPtr'' then Some (stem h) else None)"
| "pointer_stem _ = None"

text \<open>
  \<^verbatim>\<open>by_value_dependency\<close>: the struct or union type a field embeds by value, after the
  \<^verbatim>\<open>Specialization\<close> is unwrapped to its base.
\<close>

definition by_value_dependency :: "mtype option \<Rightarrow> mtype option" where
  "by_value_dependency t =
     (let base = (case t of Some (Specialization _ b _ _) \<Rightarrow> Some b | _ \<Rightarrow> t) in
      case base of
        Some (CStruct h i) \<Rightarrow> Some (CStruct h i)
      | Some (CUnion h) \<Rightarrow> Some (CUnion h)
      | Some (TaggedUnion h ps as) \<Rightarrow> Some (TaggedUnion h ps as)
      | _ \<Rightarrow> None)"

subsection \<open>Ownership annotations\<close>

text \<open>
  \<^verbatim>\<open>move[T]\<close> and \<^verbatim>\<open>copy[T]\<close> are ownership statuses of a parameter, not runtime types: they
  unwrap to \<open>T\<close>, and asking one a reference-counting or layout question is an assertion failure.
\<close>

datatype annotation = Move mtype | Copy mtype | Plain mtype

datatype assertion_error = OwnershipAnnotationError string

fun unwrap_ownership :: "annotation \<Rightarrow> mtype" where
  "unwrap_ownership (Move inner) = inner"
| "unwrap_ownership (Copy inner) = inner"
| "unwrap_ownership (Plain t) = t"

fun annotation_question :: "string \<Rightarrow> (mtype \<Rightarrow> 'a) \<Rightarrow> annotation \<Rightarrow> assertion_error + 'a" where
  "annotation_question q f (Move _) = Inl (OwnershipAnnotationError q)"
| "annotation_question q f (Copy _) = Inl (OwnershipAnnotationError q)"
| "annotation_question q f (Plain t) = Inr (f t)"

subsection \<open>Integer scalars\<close>

definition SIGNED_INT_STEMS :: "string list" where
  "SIGNED_INT_STEMS = [''i8'', ''i16'', ''i32'', ''i64'', ''i128'', ''isize'']"

fun is_float_scalar :: "mtype option \<Rightarrow> bool" where
  "is_float_scalar (Some (Scalar h _)) = (stem h = ''f32'' \<or> stem h = ''f64'')"
| "is_float_scalar _ = False"

fun is_signed_scalar :: "mtype option \<Rightarrow> bool" where
  "is_signed_scalar (Some (Scalar h _)) = (stem h \<in> set SIGNED_INT_STEMS)"
| "is_signed_scalar _ = False"

text \<open>
  \<^verbatim>\<open>int_stem_range\<close>: the inclusive range of an integer scalar, its sign read off the first letter
  of the stem.  The subscript of an empty stem fails.
\<close>

definition int_stem_range :: "string \<Rightarrow> nat \<Rightarrow> (int \<times> int) option" where
  "int_stem_range st size_of =
     (let bits = size_of * 8 in
      case st of
        [] \<Rightarrow> None
      | c # _ \<Rightarrow>
          if c = CHR ''i'' then Some (- (2 ^ (bits - 1)), 2 ^ (bits - 1) - 1)
          else Some (0, 2 ^ bits - 1))"

subsection \<open>Monomorphized types\<close>

text \<open>
  The refcount emitter first swaps a \<^verbatim>\<open>Specialization\<close> for the class the monomorphizer built for
  it (the \<^verbatim>\<open>resolve_type\<close> callback, memoized on \<^verbatim>\<open>Specialization.monomorphized\<close>).
\<close>

fun resolve_type :: "mtype \<Rightarrow> mtype" where
  "resolve_type (Specialization _ _ _ m) = m"
| "resolve_type t = t"

text \<open>
  Well-formed types.  The members of a union have distinct names.  What the monomorphizer
  guarantees of the class it builds: it is not itself a \<^verbatim>\<open>Specialization\<close>, and it answers the
  reference-counting questions the way the \<^verbatim>\<open>Specialization\<close> does.
\<close>

function (sequential) wf_type :: "mtype \<Rightarrow> bool" where
  "wf_type (TaggedUnion _ _ attrs) =
     (distinct (map v_stem attrs) \<and> list_all (\<lambda>m. wf_type (v_type m)) attrs)"
| "wf_type (Specialization h b args m) =
     (\<not> is_Specialization m \<and> wf_type m
      \<and> is_rc m = is_rc (Specialization h b args m)
      \<and> is_rc_pointer m = is_rc_pointer b)"
| "wf_type _ = True"
  by pat_completeness auto
termination
  by (relation "measure size") (auto dest: size_v_type)

lemma rc_leaves_iff_is_rc: "rc_leaves t \<noteq> [] \<longleftrightarrow> is_rc t"
  by (cases t rule: rc_leaves.cases)
    (auto simp: filter_empty_conv list_ex_iff comp_def)

lemma is_rc_pointer_is_rc: "is_rc_pointer t \<Longrightarrow> is_rc t"
proof (induction t)
  case (Specialization h b args m)
  then show ?case by (cases b) auto
qed auto

lemma resolve_type_is_rc [simp]: "wf_type t \<Longrightarrow> is_rc (resolve_type t) = is_rc t"
  by (cases t) auto

lemma wf_resolve_type [simp]: "wf_type t \<Longrightarrow> wf_type (resolve_type t)"
  by (cases t) auto

lemma size_resolve_type: "size (resolve_type t) \<le> size t"
  by (cases t) auto

lemma not_Specialization_resolve [simp]: "wf_type t \<Longrightarrow> \<not> is_Specialization (resolve_type t)"
  by (cases t) auto

end
