(* ===== verification/Mpy_IR.thy ===== *)
theory Mpy_IR
  imports Mpy_Types
begin

text \<open>
  The intermediate representation (\<^verbatim>\<open>src/ir.py\<close>) as far as the ownership state machine builds
  it or carries it in a deferred body, the two name supplies of the lowering pass
  (\<^verbatim>\<open>src/lowering_stmt.py\<close>: \<^verbatim>\<open>_new_temp\<close>, \<^verbatim>\<open>_new_label\<close>), and a small machine
  that runs such instruction lists.  The machine records the references an execution retains and
  releases; the component theories state the correctness of emitted code with it.
\<close>

subsection \<open>Operands and instructions\<close>

type_synonym label = "string \<times> nat"

text \<open>
  A label is the pair of the prefix and the number it is minted with; \<open>label_text\<close> is the string
  \<^verbatim>\<open>__<prefix>_<number>__\<close> the source uses, which determines the pair's number.
\<close>

datatype temp = Temp (temp_type: mtype) (temp_id: nat)

datatype const_value =
  CBool bool | CInt int | CStr string | CBytes "nat list" | CFloat string | CNone

datatype operand =
    OTemp temp
  | OConst mtype const_value
  | OVar var
  | OFunctionRef mtype string

datatype cmp_op = EQ | NE | LT | LE | GT | GE

datatype instr =
    DeclareTemp temp
  | DeleteTemp temp
  | Assign operand operand
  | GetAttr temp operand string
  | SetAttr operand string operand
  | Cmp temp cmp_op operand operand
  | Label label
  | Jump label
  | JumpIfFalse operand label
  | Call "temp option" string "operand option" "operand list"
  | Incref operand
  | Decref operand
  | AcquireGlobalLock var bool
  | ReleaseGlobalLock var bool
  | Return "operand option"

text \<open>The identity test \<^verbatim>\<open>a is b\<close> between a tracked variable and an operand.\<close>

fun is_var :: "var \<Rightarrow> operand option \<Rightarrow> bool" where
  "is_var v (Some (OVar w)) = (v_oid v = v_oid w)"
| "is_var v _ = False"

subsection \<open>Name supplies\<close>

record gen =
  next_temp :: nat
  next_label :: nat

definition new_temp :: "mtype \<Rightarrow> gen \<Rightarrow> temp \<times> gen" where
  "new_temp t g = (Temp t (next_temp g), g\<lparr>next_temp := Suc (next_temp g)\<rparr>)"

definition new_label :: "string \<Rightarrow> gen \<Rightarrow> label \<times> gen" where
  "new_label pre g = ((pre, next_label g), g\<lparr>next_label := Suc (next_label g)\<rparr>)"

fun digits :: "nat \<Rightarrow> string" where
  "digits n = (if n < 10 then [char_of (48 + n)] else digits (n div 10) @ [char_of (48 + n mod 10)])"

declare digits.simps [simp del]

definition label_text :: "label \<Rightarrow> string" where
  "label_text l = ''__'' @ fst l @ ''_'' @ digits (snd l) @ ''__''"

lemma digit_char: "n < 10 \<Longrightarrow> of_char (char_of (48 + n) :: char) = (48 + n :: nat)"
  by (simp add: of_char_of)

lemma digits_foldl: "foldl (\<lambda>a c. a * 10 + (of_char c - 48)) 0 (digits n) = n"
proof (induction n rule: digits.induct)
  case (1 n)
  show ?case
  proof (cases "n < 10")
    case True
    then show ?thesis by (simp add: digits.simps [of n] digit_char)
  next
    case False
    then have "foldl (\<lambda>a c. a * 10 + (of_char c - 48)) 0 (digits (n div 10)) = n div 10"
      by (rule 1)
    with False show ?thesis by (simp add: digits.simps [of n] digit_char)
  qed
qed

lemma digits_no_underscore: "CHR ''_'' \<notin> set (digits n)"
proof (induction n rule: digits.induct)
  case (1 n)
  have "CHR ''_'' \<noteq> char_of (48 + k)" if "k < 10" for k :: nat
  proof
    assume "CHR ''_'' = char_of (48 + k)"
    then have "of_char (CHR ''_'') = (48 + k :: nat)" using digit_char [OF that] by metis
    with that show False by simp
  qed
  from this [of n] this [of "n mod 10"] 1 show ?case by (auto simp: digits.simps [of n])
qed

lemma takeWhile_digits_rev:
  "takeWhile (\<lambda>c. c \<noteq> CHR ''_'') (rev (digits n) @ CHR ''_'' # r) = rev (digits n)"
proof -
  have "\<forall>c\<in>set (rev (digits n)). c \<noteq> CHR ''_''" using digits_no_underscore [of n] by auto
  then show ?thesis by (simp add: takeWhile_append)
qed

text \<open>Two labels with the same text carry the same number: fresh numbers give fresh strings.\<close>

lemma label_text_inj: "label_text l = label_text l' \<Longrightarrow> snd l = snd l'"
proof -
  assume "label_text l = label_text l'"
  then have "rev (fst l @ ''_'' @ digits (snd l)) = rev (fst l' @ ''_'' @ digits (snd l'))"
    by (simp add: label_text_def)
  then have "rev (digits (snd l)) @ CHR ''_'' # rev (fst l) =
    rev (digits (snd l')) @ CHR ''_'' # rev (fst l')" by simp
  then have "takeWhile (\<lambda>c. c \<noteq> CHR ''_'') (rev (digits (snd l)) @ CHR ''_'' # rev (fst l)) =
    takeWhile (\<lambda>c. c \<noteq> CHR ''_'') (rev (digits (snd l')) @ CHR ''_'' # rev (fst l'))"
    by (rule arg_cong)
  then have "digits (snd l) = digits (snd l')"
    unfolding takeWhile_digits_rev by (rule injD [OF inj_on_rev])
  then have "foldl (\<lambda>a c. a * 10 + (of_char c - 48)) 0 (digits (snd l)) =
    foldl (\<lambda>a c. a * 10 + (of_char c - 48)) (0::nat) (digits (snd l'))"
    by (rule arg_cong)
  then show ?thesis unfolding digits_foldl .
qed

subsection \<open>The machine\<close>

text \<open>
  A union value is its tag and the payload its data holds; reading any \<^verbatim>\<open>v_\<close>-accessor of the
  payload reads the same memory.  \<open>VRef a\<close> is a pointer to the reference-counted object \<open>a\<close>;
  retaining or releasing a null pointer does nothing (\<^verbatim>\<open>retain_object\<close> and
  \<^verbatim>\<open>release_object\<close> check for it).
\<close>

datatype rval = VBool bool | VInt int | VRef nat | VNull | VUnion nat rval | VPayload rval | VOther

datatype loc = LVar nat | LTemp nat

type_synonym env = "loc \<Rightarrow> rval"

datatype event = ERetain nat | ERelease nat | ECall string | ELock nat bool | EUnlock nat bool

fun const_rval :: "const_value \<Rightarrow> rval" where
  "const_rval (CBool b) = VBool b"
| "const_rval (CInt i) = VInt i"
| "const_rval CNone = VNull"
| "const_rval _ = VOther"

fun value_of :: "env \<Rightarrow> operand \<Rightarrow> rval" where
  "value_of \<rho> (OTemp t) = \<rho> (LTemp (temp_id t))"
| "value_of \<rho> (OVar v) = \<rho> (LVar (v_oid v))"
| "value_of \<rho> (OConst _ c) = const_rval c"
| "value_of \<rho> (OFunctionRef _ _) = VOther"

fun truth :: "rval \<Rightarrow> bool" where
  "truth (VBool b) = b"
| "truth (VInt i) = (i \<noteq> 0)"
| "truth VNull = False"
| "truth _ = True"

fun get_field :: "rval \<Rightarrow> string \<Rightarrow> rval" where
  "get_field (VUnion k p) a =
     (if a = ''tag'' then VInt (int k) else if a = ''data'' then VPayload p else VOther)"
| "get_field (VPayload p) a = p"
| "get_field _ a = VOther"

fun compare_vals :: "cmp_op \<Rightarrow> rval \<Rightarrow> rval \<Rightarrow> bool" where
  "compare_vals EQ a b = (a = b)"
| "compare_vals NE a b = (a \<noteq> b)"
| "compare_vals LT (VInt a) (VInt b) = (a < b)"
| "compare_vals LE (VInt a) (VInt b) = (a \<le> b)"
| "compare_vals GT (VInt a) (VInt b) = (a > b)"
| "compare_vals GE (VInt a) (VInt b) = (a \<ge> b)"
| "compare_vals _ _ _ = False"

fun store :: "operand \<Rightarrow> rval \<Rightarrow> env \<Rightarrow> env" where
  "store (OTemp t) x \<rho> = \<rho>(LTemp (temp_id t) := x)"
| "store (OVar v) x \<rho> = \<rho>(LVar (v_oid v) := x)"
| "store _ x \<rho> = \<rho>"

fun ref_events :: "(nat \<Rightarrow> event) \<Rightarrow> rval \<Rightarrow> event list" where
  "ref_events f (VRef a) = [f a]"
| "ref_events f _ = []"

text \<open>One straight-line instruction; \<open>R\<close> gives the value a call of a function returns.\<close>

fun step :: "(string \<Rightarrow> rval) \<Rightarrow> instr \<Rightarrow> env \<Rightarrow> event list \<times> env" where
  "step R (Assign d s) \<rho> = ([], store d (value_of \<rho> s) \<rho>)"
| "step R (GetAttr t ob a) \<rho> = ([], store (OTemp t) (get_field (value_of \<rho> ob) a) \<rho>)"
| "step R (Cmp t op l r) \<rho> =
     ([], store (OTemp t) (VBool (compare_vals op (value_of \<rho> l) (value_of \<rho> r))) \<rho>)"
| "step R (Call d f _ _) \<rho> =
     ([ECall f], case d of None \<Rightarrow> \<rho> | Some t \<Rightarrow> store (OTemp t) (R f) \<rho>)"
| "step R (Incref x) \<rho> = (ref_events ERetain (value_of \<rho> x), \<rho>)"
| "step R (Decref x) \<rho> = (ref_events ERelease (value_of \<rho> x), \<rho>)"
| "step R (AcquireGlobalLock v b) \<rho> = ([ELock (v_oid v) b], \<rho>)"
| "step R (ReleaseGlobalLock v b) \<rho> = ([EUnlock (v_oid v) b], \<rho>)"
| "step R _ \<rho> = ([], \<rho>)"

text \<open>Every jump the modelled code emits goes forward: \<open>after_label\<close> is the code behind a label.\<close>

fun after_label :: "label \<Rightarrow> instr list \<Rightarrow> instr list option" where
  "after_label l [] = None"
| "after_label l (i # is) = (if i = Label l then Some is else after_label l is)"

lemma after_label_length: "after_label l is = Some is' \<Longrightarrow> length is' < length is"
  by (induction "is") (auto split: if_splits simp: less_SucI)

text \<open>
  Running a list of instructions: \<open>None\<close> when a jump finds no label to land on, otherwise the
  events in order and the final store.
\<close>

function (sequential) exec ::
  "(string \<Rightarrow> rval) \<Rightarrow> instr list \<Rightarrow> env \<Rightarrow> (event list \<times> env) option" where
  "exec R [] \<rho> = Some ([], \<rho>)"
| "exec R (Jump l # is) \<rho> =
     (case after_label l is of None \<Rightarrow> None | Some is' \<Rightarrow> exec R is' \<rho>)"
| "exec R (JumpIfFalse c l # is) \<rho> =
     (if truth (value_of \<rho> c) then exec R is \<rho>
      else case after_label l is of None \<Rightarrow> None | Some is' \<Rightarrow> exec R is' \<rho>)"
| "exec R (Return x # is) \<rho> = Some ([], \<rho>)"
| "exec R (i # is) \<rho> =
     map_option (\<lambda>(es, \<rho>'). (fst (step R i \<rho>) @ es, \<rho>')) (exec R is (snd (step R i \<rho>)))"
  by pat_completeness auto
termination
  by (relation "measure (\<lambda>(R, is, \<rho>). length is)")
    (auto dest: after_label_length split: option.splits)

subsection \<open>Composing instruction lists\<close>

definition labels_of :: "instr list \<Rightarrow> label set" where
  "labels_of is = {l. Label l \<in> set is}"

definition no_return :: "instr list \<Rightarrow> bool" where
  "no_return is \<longleftrightarrow> (\<forall>x. Return x \<notin> set is)"

lemma labels_of_simps [simp]:
  "labels_of [] = {}"
  "labels_of (xs @ ys) = labels_of xs \<union> labels_of ys"
  "labels_of (Label l # is) = insert l (labels_of is)"
  by (auto simp: labels_of_def)

lemma labels_of_Cons_other [simp]: "(\<And>l. i \<noteq> Label l) \<Longrightarrow> labels_of (i # is) = labels_of is"
  by (auto simp: labels_of_def)

lemma no_return_simps [simp]:
  "no_return []"
  "no_return (xs @ ys) \<longleftrightarrow> no_return xs \<and> no_return ys"
  "no_return (i # is) \<longleftrightarrow> (\<forall>x. i \<noteq> Return x) \<and> no_return is"
  by (auto simp: no_return_def)

lemma after_label_None [simp]: "l \<notin> labels_of xs \<Longrightarrow> after_label l (xs @ ys) = after_label l ys"
  by (induction xs) (auto simp: labels_of_def)

lemma after_label_Some:
  "after_label l xs = Some xs' \<Longrightarrow> after_label l (xs @ ys) = Some (xs' @ ys)"
  by (induction xs) (auto split: if_splits)

lemma after_label_no_return: "after_label l xs = Some xs' \<Longrightarrow> no_return xs \<Longrightarrow> no_return xs'"
  by (induction xs) (auto split: if_splits)

lemma exec_append:
  assumes "exec R xs \<rho> = Some (es, \<rho>')" and "no_return xs"
  shows "exec R (xs @ ys) \<rho> = map_option (\<lambda>(es', \<rho>''). (es @ es', \<rho>'')) (exec R ys \<rho>')"
  using assms
proof (induction R xs \<rho> arbitrary: es \<rho>' rule: exec.induct)
  case (2 R l "is" \<rho>)
  then obtain is' where is': "after_label l is = Some is'" by (auto split: option.splits)
  from 2(1) [OF is'] 2(2,3) is' after_label_no_return [OF is'] show ?case
    by (simp add: after_label_Some [OF is'])
next
  case (3 R c l "is" \<rho>)
  show ?case
  proof (cases "truth (value_of \<rho> c)")
    case True
    with 3(1,3,4) show ?thesis by simp
  next
    case False
    with 3(3) obtain is' where is': "after_label l is = Some is'" by (auto split: option.splits)
    from False 3(2) [OF False is'] 3(3,4) is' after_label_no_return [OF is'] show ?thesis
      by (simp add: after_label_Some [OF is'])
  qed
qed (fastforce simp: map_option_case split: option.splits)+

corollary exec_append_Some:
  "exec R xs \<rho> = Some (es, \<rho>') \<Longrightarrow> no_return xs \<Longrightarrow> exec R ys \<rho>' = Some (es', \<rho>'') \<Longrightarrow>
   exec R (xs @ ys) \<rho> = Some (es @ es', \<rho>'')"
  by (simp add: exec_append)

end
