(* ===== verification/Cfg_Refcount.thy ===== *)
theory Cfg_Refcount
  imports Mpy_IR
begin

text \<open>
  Emission of retains and releases (\<^verbatim>\<open>src/cfg.py\<close>: \<^verbatim>\<open>_refcount_instructions\<close>,
  \<^verbatim>\<open>_extract_payload\<close>, \<^verbatim>\<open>_tag_gated_refcount_instructions\<close>) over the storage
  layout of tagged unions (\<^verbatim>\<open>src/union_storage.py\<close>: \<^verbatim>\<open>UnionStorage.get\<close>), and the
  theorem that the emitted code retains or releases exactly the references the value carries.
\<close>

subsection \<open>Layout of tagged unions\<close>

record union_layout =
  tag_attr :: var
  data_attr :: var
  payload_cls :: mtype
  tags :: "(string, nat) dict"

text \<open>The callbacks and constants a \<^verbatim>\<open>CFGState\<close> is built with.\<close>

record cenv =
  bool_type :: mtype
  u8_type :: mtype
  fn_qualname :: "string option"

text \<open>
  \<^verbatim>\<open>UnionStorage.get\<close>: a tag field, a data field whose type is a synthesized C union, and each
  member's ordinal as its tag.  The synthesized objects are memoized per union; their identities are
  derived from the union's own.
\<close>

definition union_storage :: "cenv \<Rightarrow> mtype \<Rightarrow> union_layout" where
  "union_storage E u =
     (let h = type_hdr u;
          pc = CUnion \<lparr>oid = oid h, stem = stem h @ ''$data'', qualname = qualname h @ ''$data''\<rparr> in
      \<lparr>tag_attr = Variable (oid h) ''tag'' (qualname h @ ''.tag'') (u8_type E) False False,
       data_attr = Variable (oid h) ''data'' (qualname h @ ''.data'') pc False False,
       payload_cls = pc,
       tags = zip (map v_stem (tu_attributes u)) [0..<length (tu_attributes u)]\<rparr>)"

subsection \<open>Emission\<close>

datatype rc_op = OpIncref | OpDecref

fun rc_instr :: "rc_op \<Rightarrow> operand \<Rightarrow> instr" where
  "rc_instr OpIncref x = Incref x"
| "rc_instr OpDecref x = Decref x"

definition extract_payload :: "cenv \<Rightarrow> mtype \<Rightarrow> operand \<Rightarrow> var \<Rightarrow> gen \<Rightarrow> (instr list \<times> temp) \<times> gen" where
  "extract_payload E u x m g =
     (let L = union_storage E u;
          (payload_dest, g1) = new_temp (payload_cls L) g;
          (leaf_dest, g2) = new_temp (v_type m) g1 in
      (([GetAttr payload_dest x (v_stem (data_attr L)),
         GetAttr leaf_dest (OTemp payload_dest) (''v_'' @ v_stem m)], leaf_dest), g2))"

definition rc_members :: "mtype \<Rightarrow> mtype list \<Rightarrow> var list" where
  "rc_members u ls = filter (\<lambda>m. list_ex (\<lambda>leaf. same_type (v_type m) leaf) ls) (tu_attributes u)"

lemma size_list_filter_le: "size_list f (filter P xs) \<le> size_list f xs"
  by (induction xs) auto

lemma size_rc_members:
  "is_TaggedUnion u \<Longrightarrow> size_list (size_variable size) (rc_members u ls) < size u"
proof -
  assume "is_TaggedUnion u"
  then obtain h ps as where u: "u = TaggedUnion h ps as" by (cases u) auto
  have "size_list (size_variable size) (rc_members u ls) \<le> size_list (size_variable size) as"
    by (simp add: rc_members_def u size_list_filter_le)
  then show ?thesis by (simp add: u)
qed

function refcount_instructions ::
    "cenv \<Rightarrow> rc_op \<Rightarrow> mtype \<Rightarrow> operand \<Rightarrow> gen \<Rightarrow> instr list \<times> gen"
  and tag_gated_members ::
    "cenv \<Rightarrow> rc_op \<Rightarrow> mtype \<Rightarrow> operand \<Rightarrow> label \<Rightarrow> var list \<Rightarrow> gen \<Rightarrow> instr list \<times> gen" where
  "refcount_instructions E op t0 x g =
     (let t = resolve_type t0; ls = rc_leaves t in
      if ls = [] then ([], g)
      else if \<not> is_TaggedUnion t then ([rc_instr op x], g)
      else if length ls = length (leaves t) \<and> list_all is_rc_pointer ls then
        (let ((is, payload), g1) = extract_payload E t x (tu_attributes t ! 0) g in
         (is @ [rc_instr op (OTemp payload)], g1))
      else
        (let (end_label, g1) = new_label ''rc_end'' g;
             (is, g2) = tag_gated_members E op t x end_label (rc_members t ls) g1 in
         (is @ [Label end_label], g2)))"
| "tag_gated_members E op t x end_label [] g = ([], g)"
| "tag_gated_members E op t x end_label (m # ms) g =
     (let L = union_storage E t;
          u8_cls = v_type (tag_attr L);
          (next_label, g1) = new_label ''rc_next'' g;
          (tag_dest, g2) = new_temp u8_cls g1;
          (cmp_dest, g3) = new_temp (bool_type E) g2;
          tag = (case dict_get (tags L) (v_stem m) of Some k \<Rightarrow> int k | None \<Rightarrow> -1);
          test = [GetAttr tag_dest x (v_stem (tag_attr L)),
                  Cmp cmp_dest EQ (OTemp tag_dest) (OConst u8_cls (CInt tag)),
                  JumpIfFalse (OTemp cmp_dest) next_label];
          ((extract, payload), g4) = extract_payload E t x m g3;
          (inner, g5) = refcount_instructions E op (v_type m) (OTemp payload) g4;
          (rest, g6) = tag_gated_members E op t x end_label ms g5 in
      (test @ extract @ inner @ [Jump end_label, Label next_label] @ rest, g6))"
  by pat_completeness auto
termination
proof (relation "measure (\<lambda>a. case a of Inl (E, op, t, x, g) \<Rightarrow> size t
    | Inr (E, op, t, x, l, ms, g) \<Rightarrow> size_list (size_variable size) ms)", goal_cases)
  case (2 E op t0 x g t ls a b)
  then have "is_TaggedUnion (resolve_type t0)" by simp
  from size_rc_members [OF this, of ls] size_resolve_type [of t0] 2 show ?case by simp
next
  case (3 E op t x l m)
  then show ?case by (cases m) simp
next
  case (4 E op t x l m)
  then show ?case by (cases m) simp
qed auto

declare refcount_instructions.simps [simp del] tag_gated_members.simps [simp del]

abbreviation incref_instructions :: "cenv \<Rightarrow> mtype \<Rightarrow> operand \<Rightarrow> gen \<Rightarrow> instr list \<times> gen" where
  "incref_instructions E \<equiv> refcount_instructions E OpIncref"

abbreviation decref_instructions :: "cenv \<Rightarrow> mtype \<Rightarrow> operand \<Rightarrow> gen \<Rightarrow> instr list \<times> gen" where
  "decref_instructions E \<equiv> refcount_instructions E OpDecref"

lemma size_rc_member:
  "is_TaggedUnion u \<Longrightarrow> m \<in> set (rc_members u ls) \<Longrightarrow> size (v_type m) < size u"
  using size_rc_members [of u ls] size_v_type [of m "rc_members u ls"] by simp

text \<open>The four shapes of emitted code.\<close>

definition shared_pointer_layout :: "mtype \<Rightarrow> bool" where
  "shared_pointer_layout t \<longleftrightarrow>
     length (rc_leaves t) = length (leaves t) \<and> list_all is_rc_pointer (rc_leaves t)"

lemma refcount_none:
  "rc_leaves (resolve_type t) = [] \<Longrightarrow> refcount_instructions E op t x g = ([], g)"
  by (simp add: refcount_instructions.simps)

lemma refcount_plain:
  "rc_leaves (resolve_type t) \<noteq> [] \<Longrightarrow> \<not> is_TaggedUnion (resolve_type t) \<Longrightarrow>
   refcount_instructions E op t x g = ([rc_instr op x], g)"
  by (simp add: refcount_instructions.simps)

lemma refcount_shared:
  "u = resolve_type t \<Longrightarrow> rc_leaves u \<noteq> [] \<Longrightarrow> is_TaggedUnion u \<Longrightarrow> shared_pointer_layout u \<Longrightarrow>
   extract_payload E u x (tu_attributes u ! 0) g = ((is, p), g') \<Longrightarrow>
   refcount_instructions E op t x g = (is @ [rc_instr op (OTemp p)], g')"
  by (simp add: refcount_instructions.simps shared_pointer_layout_def)

lemma refcount_gated:
  "u = resolve_type t \<Longrightarrow> rc_leaves u \<noteq> [] \<Longrightarrow> is_TaggedUnion u \<Longrightarrow> \<not> shared_pointer_layout u \<Longrightarrow>
   tag_gated_members E op u x (''rc_end'', next_label g) (rc_members u (rc_leaves u))
     (g\<lparr>next_label := Suc (next_label g)\<rparr>) = (is, g') \<Longrightarrow>
   refcount_instructions E op t x g = (is @ [Label (''rc_end'', next_label g)], g')"
  by (auto simp: refcount_instructions.simps shared_pointer_layout_def new_label_def)

lemma tag_gated_Cons:
  assumes "extract_payload E u x m
      (g\<lparr>next_label := Suc (next_label g), next_temp := Suc (Suc (next_temp g))\<rparr>) = ((ex, p), g4)"
    and "refcount_instructions E op (v_type m) (OTemp p) g4 = (inner, g5)"
    and "tag_gated_members E op u x end_label ms g5 = (rest, g6)"
    and "L = union_storage E u"
    and "tag_temp = Temp (v_type (tag_attr L)) (next_temp g)"
    and "cmp_temp = Temp (bool_type E) (Suc (next_temp g))"
    and "nl = (''rc_next'', next_label g)"
  shows "tag_gated_members E op u x end_label (m # ms) g =
    ([GetAttr tag_temp x (v_stem (tag_attr L)),
      Cmp cmp_temp EQ (OTemp tag_temp) (OConst (v_type (tag_attr L))
        (CInt (case dict_get (tags L) (v_stem m) of Some k \<Rightarrow> int k | None \<Rightarrow> -1))),
      JumpIfFalse (OTemp cmp_temp) nl] @ ex @ inner @ [Jump end_label, Label nl] @ rest, g6)"
  using assms by (simp add: tag_gated_members.simps(2) new_label_def new_temp_def Let_def)

subsection \<open>What emission uses of the name supplies\<close>

definition gen_le :: "gen \<Rightarrow> gen \<Rightarrow> bool" where
  "gen_le g g' \<longleftrightarrow> next_temp g \<le> next_temp g' \<and> next_label g \<le> next_label g'"

lemma gen_le_refl [simp]: "gen_le g g"
  by (simp add: gen_le_def)

lemma gen_le_trans [trans]: "gen_le a b \<Longrightarrow> gen_le b c \<Longrightarrow> gen_le a c"
  by (simp add: gen_le_def)

text \<open>
  Code emitted between two states of the supplies declares only labels minted in between and
  contains no return.
\<close>

definition emits :: "instr list \<Rightarrow> gen \<Rightarrow> gen \<Rightarrow> bool" where
  "emits is g g' \<longleftrightarrow> gen_le g g' \<and> no_return is \<and>
     (\<forall>l\<in>labels_of is. next_label g \<le> snd l \<and> snd l < next_label g')"

lemma emits_Nil [simp]: "emits [] g g"
  by (simp add: emits_def)

lemma emits_append: "emits xs g g1 \<Longrightarrow> emits ys g1 g2 \<Longrightarrow> emits (xs @ ys) g g2"
  by (fastforce simp: emits_def gen_le_def)

lemma emits_weaken: "emits is g g' \<Longrightarrow> gen_le g0 g \<Longrightarrow> emits is g0 g'"
  by (fastforce simp: emits_def gen_le_def)

lemma emits_Label: "emits is g g' \<Longrightarrow> next_label g \<le> snd l \<Longrightarrow> snd l < next_label g' \<Longrightarrow> emits (Label l # is) g g'"
  by (simp add: emits_def)

lemma emits_Cons: "emits is g g' \<Longrightarrow> (\<And>l. i \<noteq> Label l) \<Longrightarrow> (\<And>x. i \<noteq> Return x) \<Longrightarrow> emits (i # is) g g'"
  by (simp add: emits_def)

lemma emits_label_lt: "emits is g g' \<Longrightarrow> l \<in> labels_of is \<Longrightarrow> next_label g \<le> snd l"
  by (simp add: emits_def)

lemma emits_label_notin: "emits is g g' \<Longrightarrow> snd l < next_label g \<Longrightarrow> l \<notin> labels_of is"
  by (auto simp: emits_def)

lemma emits_no_return: "emits is g g' \<Longrightarrow> no_return is"
  by (simp add: emits_def)

lemma emits_gen_le: "emits is g g' \<Longrightarrow> gen_le g g'"
  by (simp add: emits_def)

lemma emits_rc_instr [simp]: "emits [rc_instr op x] g g"
  by (cases op) (auto simp: emits_def labels_of_def)

lemma emits_extract_payload:
  "extract_payload E u x m g = ((is, p), g') \<Longrightarrow> emits is g g'"
  by (auto simp: extract_payload_def new_temp_def Let_def emits_def gen_le_def labels_of_def)

lemma tag_gated_emits_from:
  assumes "\<And>m x g is g'. m \<in> set ms \<Longrightarrow> refcount_instructions E op (v_type m) x g = (is, g') \<Longrightarrow>
      emits is g g'"
    and "tag_gated_members E op u x l ms g = (is, g')"
  shows "emits is g g'"
  using assms
proof (induction ms arbitrary: g "is" g')
  case Nil
  then show ?case by (simp add: tag_gated_members.simps)
next
  case (Cons m ms)
  obtain ex p g4 where ex: "extract_payload E u x m
      (g\<lparr>next_label := Suc (next_label g), next_temp := Suc (Suc (next_temp g))\<rparr>) = ((ex, p), g4)"
    by (metis surj_pair)
  obtain inner g5 where inner: "refcount_instructions E op (v_type m) (OTemp p) g4 = (inner, g5)"
    by (metis surj_pair)
  obtain rest g6 where rest: "tag_gated_members E op u x l ms g5 = (rest, g6)"
    by (metis surj_pair)
  have "emits inner g4 g5" by (rule Cons.prems(1) [OF _ inner]) simp
  moreover have "emits rest g5 g6" by (rule Cons.IH [OF _ rest], rule Cons.prems(1)) auto
  moreover note emits_extract_payload [OF ex]
  ultimately show ?case
    using Cons.prems(2) unfolding tag_gated_Cons [OF ex inner rest refl refl refl refl]
    by (fastforce simp: emits_def gen_le_def)
qed

text \<open>How a proof about emitted code splits: by the shape of the resolved type.\<close>

lemma refcount_cases:
  obtains (none) "rc_leaves (resolve_type t) = []"
    | (plain) "rc_leaves (resolve_type t) \<noteq> []" "\<not> is_TaggedUnion (resolve_type t)"
    | (shared) "rc_leaves (resolve_type t) \<noteq> []" "is_TaggedUnion (resolve_type t)"
        "shared_pointer_layout (resolve_type t)"
    | (gated) "rc_leaves (resolve_type t) \<noteq> []" "is_TaggedUnion (resolve_type t)"
        "\<not> shared_pointer_layout (resolve_type t)"
  by blast

lemma refcount_emits: "refcount_instructions E op t x g = (is, g') \<Longrightarrow> emits is g g'"
proof (induction "size t" arbitrary: t x g "is" g' rule: less_induct)
  case less
  let ?u = "resolve_type t"
  show ?case
  proof (cases t rule: refcount_cases)
    case none
    with less.prems show ?thesis by (simp add: refcount_none)
  next
    case plain
    with less.prems show ?thesis by (auto simp: refcount_plain)
  next
    case shared
    obtain ex p g1 where ex: "extract_payload E ?u x (tu_attributes ?u ! 0) g = ((ex, p), g1)"
      by (metis surj_pair)
    from less.prems show ?thesis
      using emits_append [OF emits_extract_payload [OF ex] emits_rc_instr]
      by (auto simp: refcount_shared [OF refl shared ex])
  next
    case gated
    obtain is' g1 where T: "tag_gated_members E op ?u x (''rc_end'', next_label g)
        (rc_members ?u (rc_leaves ?u)) (g\<lparr>next_label := Suc (next_label g)\<rparr>) = (is', g1)"
      by (metis surj_pair)
    have "emits is' (g\<lparr>next_label := Suc (next_label g)\<rparr>) g1"
      using tag_gated_emits_from [OF _ T] less.hyps size_rc_member [OF gated(2)] size_resolve_type [of t]
      by (meson less_le_trans)
    with less.prems show ?thesis
      by (fastforce simp: refcount_gated [OF refl gated T] emits_def gen_le_def)
  qed
qed

lemma tag_gated_emits: "tag_gated_members E op u x l ms g = (is, g') \<Longrightarrow> emits is g g'"
  by (rule tag_gated_emits_from [OF refcount_emits])

subsection \<open>What a value carries\<close>

fun rc_event :: "rc_op \<Rightarrow> nat \<Rightarrow> event" where
  "rc_event OpIncref a = ERetain a"
| "rc_event OpDecref a = ERelease a"

text \<open>
  The references a value of a type holds: the pointer itself for a reference-counted pointer, the
  references of the active member for a union, none for anything else.
\<close>

function refs_of :: "mtype \<Rightarrow> rval \<Rightarrow> nat list" where
  "refs_of t v =
     (let u = resolve_type t in
      if is_TaggedUnion u then
        (case v of VUnion k p \<Rightarrow>
           (if k < length (tu_attributes u) then refs_of (v_type (tu_attributes u ! k)) p else [])
         | _ \<Rightarrow> [])
      else if is_rc u then (case v of VRef a \<Rightarrow> [a] | _ \<Rightarrow> [])
      else [])"
  by pat_completeness auto

lemma size_attr_resolve:
  "is_TaggedUnion (resolve_type t) \<Longrightarrow> m \<in> set (tu_attributes (resolve_type t)) \<Longrightarrow>
   size (v_type m) < size t"
  using size_resolve_type [of t] size_v_type [of m "tu_attributes (resolve_type t)"]
  by (cases "resolve_type t") auto

termination refs_of
  by (relation "measure (\<lambda>(t, v). size t)") (auto intro!: size_attr_resolve)

declare refs_of.simps [simp del]

text \<open>A value has the shape its type prescribes: a union value names one of the members.\<close>

function val_ok :: "mtype \<Rightarrow> rval \<Rightarrow> bool" where
  "val_ok t v =
     (let u = resolve_type t in
      if is_TaggedUnion u then
        (case v of VUnion k p \<Rightarrow>
           k < length (tu_attributes u) \<and>
           (if k < length (tu_attributes u) then val_ok (v_type (tu_attributes u ! k)) p else False)
         | _ \<Rightarrow> False)
      else True)"
  by pat_completeness auto

termination val_ok
  by (relation "measure (\<lambda>(t, v). size t)") (auto intro!: size_attr_resolve)

declare val_ok.simps [simp del]

lemma val_ok_union:
  "is_TaggedUnion (resolve_type t) \<Longrightarrow> val_ok t v \<Longrightarrow>
   \<exists>k p. v = VUnion k p \<and> k < length (tu_attributes (resolve_type t)) \<and>
     val_ok (v_type (tu_attributes (resolve_type t) ! k)) p"
  by (auto simp: val_ok.simps [of t v] Let_def split: rval.splits if_splits)

lemma refs_of_union:
  "is_TaggedUnion (resolve_type t) \<Longrightarrow> k < length (tu_attributes (resolve_type t)) \<Longrightarrow>
   refs_of t (VUnion k p) = refs_of (v_type (tu_attributes (resolve_type t) ! k)) p"
  by (simp add: refs_of.simps [of t])

lemma refs_of_pointer:
  "\<not> is_TaggedUnion (resolve_type t) \<Longrightarrow> is_rc (resolve_type t) \<Longrightarrow>
   map f (refs_of t v) = ref_events f v"
  by (cases v) (simp_all add: refs_of.simps [of t])

lemma rc_pointer_not_union: "wf_type t \<Longrightarrow> is_rc_pointer t \<Longrightarrow> \<not> is_TaggedUnion (resolve_type t)"
proof (cases t)
  case (Specialization h b args m)
  assume "wf_type t" "is_rc_pointer t"
  with Specialization show ?thesis by (cases m) auto
qed auto

lemma attr_wf: "is_TaggedUnion u \<Longrightarrow> wf_type u \<Longrightarrow> m \<in> set (tu_attributes u) \<Longrightarrow> wf_type (v_type m)"
  by (cases u) (auto simp: list_all_iff)

lemma attr_is_rc: "is_TaggedUnion u \<Longrightarrow> m \<in> set (tu_attributes u) \<Longrightarrow> is_rc (v_type m) \<Longrightarrow> is_rc u"
  by (cases u) (auto simp: list_ex_iff)

lemma refs_of_not_rc: "wf_type t \<Longrightarrow> \<not> is_rc t \<Longrightarrow> refs_of t v = []"
proof (induction t v rule: refs_of.induct)
  case (1 t v)
  let ?u = "resolve_type t"
  show ?case
  proof (cases "is_TaggedUnion ?u")
    case False
    with 1(2,3) show ?thesis by (simp add: refs_of.simps [of t])
  next
    case True
    have "refs_of (v_type (tu_attributes ?u ! k)) p = []"
      if "v = VUnion k p" "k < length (tu_attributes ?u)" for k p
    proof (rule 1(1) [OF refl True that])
      have m: "tu_attributes ?u ! k \<in> set (tu_attributes ?u)" using that by simp
      show "wf_type (v_type (tu_attributes ?u ! k))"
        using attr_wf [OF True _ m] 1(2) by simp
      show "\<not> is_rc (v_type (tu_attributes ?u ! k))"
        using attr_is_rc [OF True m] 1(2,3) by auto
    qed
    with True show ?thesis by (auto simp: refs_of.simps [of t] Let_def split: rval.splits)
  qed
qed

subsection \<open>Emitted code retains or releases exactly what the value carries\<close>

definition below :: "gen \<Rightarrow> operand \<Rightarrow> bool" where
  "below g x \<longleftrightarrow> (case x of OTemp t \<Rightarrow> temp_id t < next_temp g | _ \<Rightarrow> True)"

definition agree :: "gen \<Rightarrow> env \<Rightarrow> env \<Rightarrow> bool" where
  "agree g \<rho> \<rho>' \<longleftrightarrow> (\<forall>v. \<rho>' (LVar v) = \<rho> (LVar v)) \<and> (\<forall>i<next_temp g. \<rho>' (LTemp i) = \<rho> (LTemp i))"

lemma agree_refl [simp]: "agree g \<rho> \<rho>"
  by (simp add: agree_def)

lemma agree_trans: "agree g \<rho> \<rho>1 \<Longrightarrow> agree g1 \<rho>1 \<rho>2 \<Longrightarrow> gen_le g g1 \<Longrightarrow> agree g \<rho> \<rho>2"
  by (simp add: agree_def gen_le_def)

lemma agree_value: "agree g \<rho> \<rho>' \<Longrightarrow> below g x \<Longrightarrow> value_of \<rho>' x = value_of \<rho> x"
  by (cases x) (auto simp: agree_def below_def)

lemma below_mono: "below g x \<Longrightarrow> gen_le g g' \<Longrightarrow> below g' x"
  by (cases x) (auto simp: below_def gen_le_def)

lemma exec_rc_instr:
  "exec R [rc_instr op x] \<rho> = Some (ref_events (rc_event op) (value_of \<rho> x), \<rho>)"
  by (cases op; cases "value_of \<rho> x") simp_all

lemma exec_extract_payload:
  assumes "extract_payload E u x m g = ((is, p), g')" and "value_of \<rho> x = VUnion k q"
  obtains \<rho>' where "exec R is \<rho> = Some ([], \<rho>')" and "value_of \<rho>' (OTemp p) = q"
    and "agree g \<rho> \<rho>'" and "below g' (OTemp p)"
proof
  let ?\<rho>1 = "\<rho>(LTemp (next_temp g) := VPayload q)"
  let ?\<rho>2 = "?\<rho>1(LTemp (Suc (next_temp g)) := q)"
  show "exec R is \<rho> = Some ([], ?\<rho>2)" "value_of ?\<rho>2 (OTemp p) = q" "below g' (OTemp p)"
    using assms by (auto simp: extract_payload_def new_temp_def union_storage_def Let_def below_def)
  show "agree g \<rho> ?\<rho>2" by (simp add: agree_def)
qed

text \<open>The statement for one type, and its lifting over the members of a union.\<close>

definition rc_correct :: "(string \<Rightarrow> rval) \<Rightarrow> cenv \<Rightarrow> rc_op \<Rightarrow> mtype \<Rightarrow> bool" where
  "rc_correct R E op t \<longleftrightarrow>
     (\<forall>x g \<rho> is g'. refcount_instructions E op t x g = (is, g') \<longrightarrow> below g x \<longrightarrow>
        val_ok t (value_of \<rho> x) \<longrightarrow>
        (\<exists>\<rho>'. exec R is \<rho> = Some (map (rc_event op) (refs_of t (value_of \<rho> x)), \<rho>') \<and> agree g \<rho> \<rho>'))"

lemma tags_nth:
  assumes "is_TaggedUnion u" and "wf_type u" and "j < length (tu_attributes u)"
  shows "dict_get (tags (union_storage E u)) (v_stem (tu_attributes u ! j)) = Some j"
proof -
  have "distinct (map v_stem (tu_attributes u))" using assms(1,2) by (cases u) auto
  then show ?thesis
    using assms(3) map_of_zip_nth [of "map v_stem (tu_attributes u)" "[0..<length (tu_attributes u)]" j]
    by (simp add: union_storage_def Let_def)
qed

lemma nth_attr_eq:
  assumes "is_TaggedUnion u" and "wf_type u" and "j < length (tu_attributes u)"
    and "k < length (tu_attributes u)"
  shows "tu_attributes u ! j = tu_attributes u ! k \<longleftrightarrow> j = k"
proof -
  have "distinct (tu_attributes u)" using assms(1,2) by (cases u) (auto simp: distinct_map)
  with assms(3,4) show ?thesis by (simp add: nth_eq_iff_index_eq)
qed

lemma tag_gated_exec:
  assumes "is_TaggedUnion u" and "wf_type u" and "k < length (tu_attributes u)"
    and "val_ok (v_type (tu_attributes u ! k)) q"
  shows "tag_gated_members E op u x l ms g = (is, g') \<Longrightarrow> value_of \<rho> x = VUnion k q \<Longrightarrow>
    below g x \<Longrightarrow> snd l < next_label g \<Longrightarrow> set ms \<subseteq> set (tu_attributes u) \<Longrightarrow>
    (\<And>m. m \<in> set ms \<Longrightarrow> rc_correct R E op (v_type m)) \<Longrightarrow>
    \<exists>\<rho>'. exec R (is @ [Label l]) \<rho> =
      Some (if tu_attributes u ! k \<in> set ms
            then map (rc_event op) (refs_of (v_type (tu_attributes u ! k)) q) else [], \<rho>') \<and>
      agree g \<rho> \<rho>'"
proof (induction ms arbitrary: g \<rho> "is" g')
  case Nil
  then show ?case by (auto simp: tag_gated_members.simps)
next
  case (Cons m ms)
  let ?g3 = "g\<lparr>next_label := Suc (next_label g), next_temp := Suc (Suc (next_temp g))\<rparr>"
  obtain ex p g4 where ex: "extract_payload E u x m ?g3 = ((ex, p), g4)" by (metis surj_pair)
  obtain inner g5 where inner: "refcount_instructions E op (v_type m) (OTemp p) g4 = (inner, g5)"
    by (metis surj_pair)
  obtain rest g6 where rest: "tag_gated_members E op u x l ms g5 = (rest, g6)" by (metis surj_pair)
  note em = emits_extract_payload [OF ex] refcount_emits [OF inner] tag_gated_emits [OF rest]
  note le = em [THEN emits_gen_le]
  let ?nl = "(''rc_next'', next_label g)"
  have g45: "gen_le g g5" "gen_le g ?g3" "gen_le ?g3 g5" using le by (auto simp: gen_le_def)
  from Cons.prems(5) obtain j where j: "j < length (tu_attributes u)" "m = tu_attributes u ! j"
    by (metis in_set_conv_nth list.set_intros(1) subset_code(1))
  define \<rho>1 where "\<rho>1 = \<rho>(LTemp (next_temp g) := VInt (int k), LTemp (Suc (next_temp g)) := VBool (k = j))"
  have a1: "agree g \<rho> \<rho>1" by (simp add: agree_def \<rho>1_def)
  have x1: "value_of \<rho>1 x = VUnion k q"
    using agree_value [OF a1 Cons.prems(3)] Cons.prems(2) by simp
  let ?body = "ex @ inner @ [Jump l, Label ?nl] @ rest @ [Label l]"
  have run: "exec R (is @ [Label l]) \<rho> =
      exec R (JumpIfFalse (OTemp (Temp (bool_type E) (Suc (next_temp g)))) ?nl # ?body) \<rho>1"
    using Cons.prems(1,2) tags_nth [OF assms(1,2) j(1), of E] j(2)
    unfolding tag_gated_Cons [OF ex inner rest refl refl refl refl]
    by (auto simp: union_storage_def Let_def \<rho>1_def map_option_case fun_upd_twist split: option.splits)
  show ?case
  proof (cases "k = j")
    case False
    have "?nl \<notin> labels_of (ex @ inner)"
      using emits_label_notin [OF em(1), of ?nl] emits_label_notin [OF em(2), of ?nl] le
      by (auto simp: gen_le_def)
    then have "after_label ?nl ?body = Some (rest @ [Label l])"
      using after_label_None [of ?nl "ex @ inner" "[Jump l, Label ?nl] @ rest @ [Label l]"] by simp
    with False have "exec R (is @ [Label l]) \<rho> = exec R (rest @ [Label l]) \<rho>1"
      by (simp add: run \<rho>1_def)
    moreover have "\<exists>\<rho>'. exec R (rest @ [Label l]) \<rho>1 =
      Some (if tu_attributes u ! k \<in> set ms
            then map (rc_event op) (refs_of (v_type (tu_attributes u ! k)) q) else [], \<rho>') \<and>
      agree g5 \<rho>1 \<rho>'"
      by (rule Cons.IH [OF rest x1]) (use Cons.prems below_mono [OF _ g45(1)] g45 in \<open>auto simp: gen_le_def\<close>)
    moreover have "tu_attributes u ! k \<noteq> m"
      using False nth_attr_eq [OF assms(1,2) j(1) assms(3)] j(2) by auto
    ultimately show ?thesis using agree_trans [OF a1 _ g45(1)] by auto
  next
    case True
    obtain \<rho>2 where \<rho>2: "exec R ex \<rho>1 = Some ([], \<rho>2)" "value_of \<rho>2 (OTemp p) = q"
      "agree ?g3 \<rho>1 \<rho>2" "below g4 (OTemp p)"
      by (rule exec_extract_payload [OF ex x1])
    obtain \<rho>3 where \<rho>3: "exec R inner \<rho>2 = Some (map (rc_event op) (refs_of (v_type m) q), \<rho>3)"
      "agree g4 \<rho>2 \<rho>3"
      using Cons.prems(6) [of m] inner \<rho>2(2,4) assms(4) True j(2) unfolding rc_correct_def
      by (metis list.set_intros(1))
    have "l \<notin> labels_of ([Label ?nl] @ rest)"
      using emits_label_notin [OF em(3), of l] Cons.prems(4) g45(1) by (auto simp: gen_le_def)
    then have "after_label l ([Label ?nl] @ rest @ [Label l]) = Some []"
      using after_label_None [of l "[Label ?nl] @ rest" "[Label l]"] by simp
    then have "exec R ([Jump l, Label ?nl] @ rest @ [Label l]) \<rho>3 = Some ([], \<rho>3)" by simp
    then have "exec R ?body \<rho>1 = Some (map (rc_event op) (refs_of (v_type m) q), \<rho>3)"
      using exec_append_Some [OF \<rho>2(1) emits_no_return [OF em(1)]
          exec_append_Some [OF \<rho>3(1) emits_no_return [OF em(2)]]] by simp
    with True have "exec R (is @ [Label l]) \<rho> = Some (map (rc_event op) (refs_of (v_type m) q), \<rho>3)"
      by (simp add: run \<rho>1_def)
    moreover have "agree g \<rho> \<rho>3"
      using a1 \<rho>2(3) \<rho>3(2) le by (auto simp: agree_def gen_le_def)
    ultimately show ?thesis using True j(2) by auto
  qed
qed

lemma filter_length_eq: "length (filter P xs) = length xs \<Longrightarrow> filter P xs = xs"
  by (metis filter_True length_filter_less less_irrefl)

lemma shared_attr_pointer:
  assumes "is_TaggedUnion u" and "shared_pointer_layout u" and "m \<in> set (tu_attributes u)"
  shows "is_rc_pointer (v_type m)"
proof -
  obtain h ps as where u: "u = TaggedUnion h ps as" using assms(1) by (cases u) auto
  with assms(2) have "filter is_rc (map v_type as) = map v_type as"
    by (intro filter_length_eq) (simp add: shared_pointer_layout_def)
  with assms(2,3) show ?thesis by (simp add: u shared_pointer_layout_def list_all_iff)
qed

lemma rc_members_mem:
  assumes "is_TaggedUnion u" and "m \<in> set (tu_attributes u)" and "is_rc (v_type m)"
  shows "m \<in> set (rc_members u (rc_leaves u))"
  using assms by (cases u) (auto simp: rc_members_def list_ex_iff)

lemma rc_correct_all: "wf_type t \<Longrightarrow> rc_correct R E op t"
proof (induction "size t" arbitrary: t rule: less_induct)
  case less
  let ?u = "resolve_type t"
  have u: "wf_type ?u" "is_rc ?u = is_rc t" using less.prems by simp_all
  show ?case unfolding rc_correct_def
  proof (intro allI impI)
    fix x g \<rho> "is" g'
    assume "is": "refcount_instructions E op t x g = (is, g')" and b: "below g x"
      and v: "val_ok t (value_of \<rho> x)"
    show "\<exists>\<rho>'. exec R is \<rho> = Some (map (rc_event op) (refs_of t (value_of \<rho> x)), \<rho>') \<and> agree g \<rho> \<rho>'"
    proof (cases t rule: refcount_cases)
      case none
      then have "\<not> is_rc t" using rc_leaves_iff_is_rc [of ?u] u by simp
      with "is" none less.prems show ?thesis by (auto simp: refcount_none refs_of_not_rc)
    next
      case plain
      then have "is_rc ?u" using rc_leaves_iff_is_rc by simp
      with plain "is" show ?thesis
        by (auto simp: refcount_plain exec_rc_instr refs_of_pointer)
    next
      case shared
      obtain ex p g1 where ex: "extract_payload E ?u x (tu_attributes ?u ! 0) g = ((ex, p), g1)"
        by (metis surj_pair)
      obtain k q where q: "value_of \<rho> x = VUnion k q" "k < length (tu_attributes ?u)"
        using val_ok_union [OF shared(2) v] by blast
      obtain \<rho>2 where \<rho>2: "exec R ex \<rho> = Some ([], \<rho>2)" "value_of \<rho>2 (OTemp p) = q" "agree g \<rho> \<rho>2"
        by (rule exec_extract_payload [OF ex q(1)])
      let ?m = "tu_attributes ?u ! k"
      have m: "wf_type (v_type ?m)" "is_rc_pointer (v_type ?m)"
        using shared q(2) attr_wf [OF shared(2) u(1), of ?m]
        shared_attr_pointer [OF shared(2,3), of ?m] by auto
      have "exec R is \<rho> = Some (ref_events (rc_event op) q, \<rho>2)"
        using "is" exec_append_Some [OF \<rho>2(1) emits_no_return [OF emits_extract_payload [OF ex]] exec_rc_instr, of op "OTemp p"] \<rho>2(2)
        by (auto simp: refcount_shared [OF refl shared ex])
      moreover have "map (rc_event op) (refs_of t (value_of \<rho> x)) = ref_events (rc_event op) q"
        using refs_of_pointer [OF rc_pointer_not_union [OF m]] is_rc_pointer_is_rc [OF m(2)] m(1)
        by (simp add: refs_of_union [OF shared(2) q(2)] q(1))
      ultimately show ?thesis using \<rho>2(3) by auto
    next
      case gated
      obtain is' g1 where T: "tag_gated_members E op ?u x (''rc_end'', next_label g)
          (rc_members ?u (rc_leaves ?u)) (g\<lparr>next_label := Suc (next_label g)\<rparr>) = (is', g1)"
        by (metis surj_pair)
      obtain k q where q: "value_of \<rho> x = VUnion k q" "k < length (tu_attributes ?u)"
        "val_ok (v_type (tu_attributes ?u ! k)) q"
        using val_ok_union [OF gated(2) v] by blast
      have sub: "set (rc_members ?u (rc_leaves ?u)) \<subseteq> set (tu_attributes ?u)"
        by (auto simp: rc_members_def)
      have IH: "rc_correct R E op (v_type m)" if "m \<in> set (rc_members ?u (rc_leaves ?u))" for m
        by (rule less.hyps) (use size_rc_member [OF gated(2) that] size_resolve_type [of t]
            attr_wf [OF gated(2) u(1)] sub that in auto)
      obtain \<rho>' where \<rho>': "exec R is \<rho> = Some (if tu_attributes ?u ! k \<in> set (rc_members ?u (rc_leaves ?u))
            then map (rc_event op) (refs_of (v_type (tu_attributes ?u ! k)) q) else [], \<rho>')"
        "agree g \<rho> \<rho>'"
        using tag_gated_exec [OF gated(2) u(1) q(2,3) T q(1) _ _ sub IH] "is" b
        by (auto simp: refcount_gated [OF refl gated T] below_def agree_def split: operand.splits)
      have "refs_of (v_type (tu_attributes ?u ! k)) q = []"
        if "tu_attributes ?u ! k \<notin> set (rc_members ?u (rc_leaves ?u))"
        using that rc_members_mem [OF gated(2)] q(2) attr_wf [OF gated(2) u(1)] refs_of_not_rc
        by (metis nth_mem)
      with \<rho>' show ?thesis by (auto simp: q(1) refs_of_union [OF gated(2) q(2)])
    qed
  qed
qed

subsection \<open>Properties\<close>

text \<open>
  C1. Running the code that \<^verbatim>\<open>_refcount_instructions\<close> emits for a value of a well-formed type
  ends normally, retains (or releases) exactly the references the value carries -- each once, those
  of the active member only for a tagged union, by way of the single unconditional access when every
  member is a reference-counted pointer -- and changes no variable and no earlier temporary.
\<close>

theorem refcount_exact:
  assumes "wf_type t" and "refcount_instructions E op t x g = (is, g')"
    and "below g x" and "val_ok t (value_of \<rho> x)"
  shows "\<exists>\<rho>'. exec R is \<rho> = Some (map (rc_event op) (refs_of t (value_of \<rho> x)), \<rho>') \<and> agree g \<rho> \<rho>'"
  using rc_correct_all [OF assms(1), of R E op] assms(2-4) unfolding rc_correct_def by blast

text \<open>A union of an object pointer and a byte, holding the object 7.\<close>

definition demo_env :: cenv where
  "demo_env = \<lparr>bool_type = Scalar \<lparr>oid = 1, stem = ''bool'', qualname = ''bool''\<rparr> 1,
     u8_type = Scalar \<lparr>oid = 2, stem = ''u8'', qualname = ''u8''\<rparr> 1, fn_qualname = Some ''m.f''\<rparr>"

definition demo_class :: mtype where
  "demo_class = RCClass \<lparr>oid = 3, stem = ''A'', qualname = ''m.A''\<rparr>"

definition demo_union :: mtype where
  "demo_union = TaggedUnion \<lparr>oid = 4, stem = ''U'', qualname = ''m.U''\<rparr> []
     [Variable 5 ''a'' ''m.U.a'' demo_class False False,
      Variable 6 ''b'' ''m.U.b'' (u8_type demo_env) False False]"

definition demo_var :: var where
  "demo_var = Variable 10 ''x'' ''m.f.x'' demo_union False False"

lemmas demo_defs = demo_env_def demo_class_def demo_union_def demo_var_def

theorem refcount_exact_witness:
  "\<exists>\<rho>'. exec (\<lambda>_. VNull) (fst (decref_instructions demo_env demo_union (OVar demo_var)
      \<lparr>next_temp = 0, next_label = 0\<rparr>)) (\<lambda>_. VUnion 0 (VRef 7)) = Some ([ERelease 7], \<rho>')"
proof -
  have "refs_of demo_union (VUnion 0 (VRef 7)) = [7]" "val_ok demo_union (VUnion 0 (VRef 7))"
    by (simp_all add: demo_defs refs_of.simps val_ok.simps)
  moreover have "wf_type demo_union" by (simp add: demo_defs)
  ultimately show ?thesis
    using refcount_exact [OF _ surjective_pairing, of demo_union "\<lparr>next_temp = 0, next_label = 0\<rparr>"
        "OVar demo_var" "\<lambda>_. VUnion 0 (VRef 7)" "\<lambda>_. VNull" demo_env OpDecref]
    by (auto simp: below_def)
qed

end
