(* ===== verification/Cfg_State.thy ===== *)
theory Cfg_State
  imports Cfg_Refcount
begin

text \<open>
  The ownership state machine of one function (\<^verbatim>\<open>src/cfg.py\<close>, class \<^verbatim>\<open>CFGState\<close>): its data,
  and the operations that set it up and keep its books -- prologue, the epilogue stack, cancellation,
  inline scopes, union narrowing, definite assignment, unchecked results and temporaries.

  \<^verbatim>\<open>Epilogue\<close> objects are shared by reference between the stack, the bindings and snapshots and
  are mutated in place, so they live in a store: an \<open>ep_ref\<close> is an object identity, \<open>heap\<close> the
  store, and the source's \<^verbatim>\<open>is\<close> is equality of references.  \<^verbatim>\<open>_Binding\<close> values are
  never mutated and are plain records.  The inline-scope, confinement and break stacks have their
  top at the head of the list; the epilogue stack has its top at the end, as its indices are stored
  in snapshots.
\<close>

subsection \<open>Data\<close>

datatype own_state = OWNED | BORROWED | MOVED

record epilogue =
  ep_instructions :: "instr list"
  ep_name :: label
  ep_operand :: "var option"
  ep_type :: "mtype option"
  ep_flag :: "var option"
  ep_is_err_only :: bool
  ep_cancelled :: bool
  ep_is_construction_attr :: bool
  ep_survives_loop_restore :: bool

type_synonym ep_ref = nat

definition is_flag_guarded :: "epilogue \<Rightarrow> bool" where
  "is_flag_guarded e \<longleftrightarrow> ep_flag e \<noteq> None"

record binding =
  b_operand :: var
  b_type :: mtype
  b_state :: own_state
  b_entry :: "ep_ref option"

type_synonym bindings = "(string, binding) dict"

type_synonym narrowing = "(string, var list) dict"

record inline_scope =
  boundary_depth :: nat
  scope_label :: label
  captured :: bool
  merge_captured :: bool

record snapshot =
  sn_bindings :: bindings
  sn_stack_depth :: nat
  sn_results :: "string set"
  sn_narrowed :: narrowing
  sn_live :: "string set"
  sn_entry_cancelled :: "bool list"
  sn_entry_flag :: "var option list"
  sn_entry_objects :: "ep_ref list"

record cfg_state =
  heap :: "epilogue list"
  stack :: "ep_ref list"
  captured_labels :: "label set"
  any_shared_label_used :: bool
  cancel_flags :: "var list"
  confinement_depths :: "nat list"
  inline_scopes :: "inline_scope list"
  break_narrowed :: "narrowing list list"
  break_live :: "string set list list"
  bindings :: bindings
  live :: "string set"
  unchecked_results :: "string set"
  narrowed :: narrowing
  temp_states :: "(nat, mtype) dict"
  prologue_instructions :: "instr list"
  construction_self :: "var option"
  construction_required :: "var list"
  possibly_retained :: "string set"
  reassigned_outside_init :: "nat set"
  gen :: gen
  next_oid :: nat

text \<open>
  A \<^verbatim>\<open>CompileError\<close> (one constructor per raise site, with what its message names), a failed
  assertion, or the Python exception of a missing key, a pop from an empty list or an index out of
  range.
\<close>

datatype cfg_error =
    ResultsNeverInspected "string set"
  | ResultDiscarded string
  | ResultDiscardedByDel string
  | NotInitialized string
  | IndeterminateAfterIf string own_state own_state
  | OnlyOnOneBranch string
  | ResultInspectedOnOneBranch string
  | ResultNotInspectedInBranch string
  | IndeterminateAcrossLoop string own_state own_state
  | NotConsistentAcrossLoop string
  | ResultFreshEveryIteration "string set"
  | ResultsNotInspectedAtLoopExit "string set"
  | CannotMove string own_state
  | SelfCannotEscape "string list"
  | MustInitialize "string list"
  | AssertionFailed
  | KeyMissing string
  | PopFromEmpty
  | IndexError

record param =
  p_var :: var
  p_is_move :: bool
  p_is_copy :: bool

definition entry_at :: "cfg_state \<Rightarrow> ep_ref \<Rightarrow> epilogue" where
  "entry_at s r = heap s ! r"

definition has_rc :: "mtype \<Rightarrow> bool" where
  "has_rc t \<longleftrightarrow> rc_leaves t \<noteq> []"

text \<open>The \<^verbatim>\<open>incref\<close>/\<^verbatim>\<open>decref\<close> methods: emission with the state's own name supplies.\<close>

definition incref :: "cenv \<Rightarrow> mtype \<Rightarrow> operand \<Rightarrow> cfg_state \<Rightarrow> instr list \<times> cfg_state" where
  "incref E t x s = (let (is, g) = incref_instructions E t x (gen s) in (is, s\<lparr>gen := g\<rparr>))"

definition decref :: "cenv \<Rightarrow> mtype \<Rightarrow> operand \<Rightarrow> cfg_state \<Rightarrow> instr list \<times> cfg_state" where
  "decref E t x s = (let (is, g) = decref_instructions E t x (gen s) in (is, s\<lparr>gen := g\<rparr>))"

subsection \<open>The epilogue stack\<close>

definition push ::
  "var \<Rightarrow> mtype \<Rightarrow> own_state \<Rightarrow> string \<Rightarrow> bool \<Rightarrow> bool \<Rightarrow> cfg_state \<Rightarrow> ep_ref \<times> cfg_state" where
  "push operand t st key is_attr survives s =
     (let (name, g) = new_label ''epilogue'' (gen s);
          r = length (heap s);
          e = \<lparr>ep_instructions = [], ep_name = name, ep_operand = Some operand, ep_type = Some t,
               ep_flag = None, ep_is_err_only = False, ep_cancelled = False,
               ep_is_construction_attr = is_attr, ep_survives_loop_restore = survives\<rparr> in
      (r, s\<lparr>heap := heap s @ [e], stack := stack s @ [r], gen := g,
            bindings := dict_set key \<lparr>b_operand = operand, b_type = t, b_state = st, b_entry = Some r\<rparr>
              (bindings s)\<rparr>))"

definition push_defer :: "instr list \<Rightarrow> var \<Rightarrow> bool \<Rightarrow> cfg_state \<Rightarrow> ep_ref \<times> cfg_state" where
  "push_defer instructions flag is_err_only s =
     (let (name, g) = new_label ''epilogue'' (gen s);
          r = length (heap s);
          e = \<lparr>ep_instructions = instructions, ep_name = name, ep_operand = None, ep_type = None,
               ep_flag = Some flag, ep_is_err_only = is_err_only, ep_cancelled = False,
               ep_is_construction_attr = False, ep_survives_loop_restore = False\<rparr> in
      (r, s\<lparr>heap := heap s @ [e], stack := stack s @ [r], gen := g\<rparr>))"

subsection \<open>Cancelling an entry\<close>

definition mint_cancel_flag :: "cenv \<Rightarrow> cfg_state \<Rightarrow> var \<times> cfg_state" where
  "mint_cancel_flag E s =
     (let index = length (cancel_flags s);
          st = ''__cancel_flag_'' @ digits index;
          qn = (case fn_qualname E of Some q \<Rightarrow> q @ ''.'' @ st | None \<Rightarrow> st);
          flag = Variable (next_oid s) st qn (bool_type E) False False in
      (flag, s\<lparr>cancel_flags := cancel_flags s @ [flag], next_oid := Suc (next_oid s)\<rparr>))"

text \<open>\<^verbatim>\<open>for i, e in enumerate(stack): if e is entry: stack[i] = new_entry; break\<close>\<close>

fun replace_first :: "'a \<Rightarrow> 'a \<Rightarrow> 'a list \<Rightarrow> 'a list" where
  "replace_first a b [] = []"
| "replace_first a b (x # xs) = (if x = a then b # xs else x # replace_first a b xs)"

definition disarm_instr :: "var \<Rightarrow> instr" where
  "disarm_instr flag = Assign (OVar flag) (OConst (v_type flag) (CBool False))"

definition neutralize :: "cenv \<Rightarrow> ep_ref \<Rightarrow> cfg_state \<Rightarrow> (ep_ref \<times> instr list) \<times> cfg_state" where
  "neutralize E r s =
     (let e = entry_at s r in
      if ep_name e \<notin> captured_labels s then
        (let r' = length (heap s) in
         ((r', []), s\<lparr>heap := heap s @ [e\<lparr>ep_cancelled := True\<rparr>],
                      stack := replace_first r r' (stack s)\<rparr>))
      else case ep_flag e of
        Some flag \<Rightarrow> ((r, [disarm_instr flag]), s)
      | None \<Rightarrow>
          (let (flag, s1) = mint_cancel_flag E s in
           ((r, [disarm_instr flag]), s1\<lparr>heap := (heap s1)[r := e\<lparr>ep_flag := Some flag\<rparr>]\<rparr>)))"

definition disarm_defer :: "cenv \<Rightarrow> ep_ref \<Rightarrow> cfg_state \<Rightarrow> instr list \<times> cfg_state" where
  "disarm_defer E r s = (let ((_, is), s') = neutralize E r s in (is, s'))"

definition cancel_flag_count :: "cfg_state \<Rightarrow> nat" where
  "cancel_flag_count s = length (cancel_flags s)"

definition truncate_cancel_flags :: "nat \<Rightarrow> cfg_state \<Rightarrow> cfg_state" where
  "truncate_cancel_flags n s = s\<lparr>cancel_flags := take n (cancel_flags s)\<rparr>"

definition mark_possibly_retained :: "operand \<Rightarrow> cfg_state \<Rightarrow> cfg_state" where
  "mark_possibly_retained x s =
     (case x of OVar v \<Rightarrow> s\<lparr>possibly_retained := insert (v_stem v) (possibly_retained s)\<rparr> | _ \<Rightarrow> s)"

subsection \<open>Prologue\<close>

definition borrowed_binding :: "var \<Rightarrow> binding" where
  "borrowed_binding v = \<lparr>b_operand = v, b_type = v_type v, b_state = BORROWED, b_entry = None\<rparr>"

definition enter_parameter :: "cenv \<Rightarrow> param \<Rightarrow> cfg_state \<Rightarrow> cfg_state" where
  "enter_parameter E p s0 =
     (let v = p_var p; t = v_type v;
          s = s0\<lparr>live := insert (v_stem v) (live s0)\<rparr> in
      if p_is_move p then
        (if has_rc t then snd (push v t OWNED (v_stem v) False False s) else s)
      else if p_is_copy p then
        (if has_rc t then
           (let (is, s1) = incref E t (OVar v) s;
                s2 = s1\<lparr>prologue_instructions := prologue_instructions s1 @ is\<rparr> in
            snd (push v t OWNED (v_stem v) False False s2))
         else s)
      else if has_rc t then s\<lparr>bindings := dict_set (v_stem v) (borrowed_binding v) (bindings s)\<rparr>
      else s)"

definition empty_state :: "gen \<Rightarrow> nat \<Rightarrow> cfg_state" where
  "empty_state g n =
     \<lparr>heap = [], stack = [], captured_labels = {}, any_shared_label_used = False, cancel_flags = [],
      confinement_depths = [], inline_scopes = [], break_narrowed = [], break_live = [],
      bindings = [], live = {}, unchecked_results = {}, narrowed = [], temp_states = [],
      prologue_instructions = [], construction_self = None, construction_required = [],
      possibly_retained = {}, reassigned_outside_init = {}, gen = g, next_oid = n\<rparr>"

text \<open>\<^verbatim>\<open>CFGState.__init__\<close>: an empty state, then every parameter in order.\<close>

definition init_state :: "cenv \<Rightarrow> param list \<Rightarrow> gen \<Rightarrow> nat \<Rightarrow> cfg_state" where
  "init_state E params g n = fold (enter_parameter E) params (empty_state g n)"

definition enter_self :: "var \<Rightarrow> bool \<Rightarrow> cfg_state \<Rightarrow> cfg_state" where
  "enter_self v is_move s0 =
     (let s = s0\<lparr>live := insert (v_stem v) (live s0)\<rparr> in
      if \<not> has_rc (v_type v) then s
      else if is_move then snd (push v (v_type v) OWNED (v_stem v) False False s)
      else s\<lparr>bindings := dict_set (v_stem v) (borrowed_binding v) (bindings s)\<rparr>)"

definition enter_construction :: "var \<Rightarrow> var list \<Rightarrow> cfg_state \<Rightarrow> cfg_state" where
  "enter_construction v required s =
     (enter_self v False s)\<lparr>construction_self := Some v, construction_required := required\<rparr>"

subsection \<open>Inline scopes\<close>

definition push_inline_scope :: "cfg_state \<Rightarrow> label \<times> cfg_state" where
  "push_inline_scope s =
     (let (l, g) = new_label ''inline_epilogue'' (gen s) in
      (l, s\<lparr>gen := g,
            inline_scopes := \<lparr>boundary_depth = length (stack s), scope_label = l, captured = False,
                              merge_captured = False\<rparr> # inline_scopes s\<rparr>))"

definition inline_scope_captured :: "cfg_state \<Rightarrow> cfg_error + bool" where
  "inline_scope_captured s =
     (case inline_scopes s of [] \<Rightarrow> Inl PopFromEmpty | sc # _ \<Rightarrow> Inr (captured sc))"

definition mark_inline_scope_captured :: "cfg_state \<Rightarrow> (cfg_error + unit) \<times> cfg_state" where
  "mark_inline_scope_captured s =
     (case inline_scopes s of [] \<Rightarrow> (Inl PopFromEmpty, s)
      | sc # rest \<Rightarrow> (Inr (), s\<lparr>inline_scopes := sc\<lparr>merge_captured := True\<rparr> # rest\<rparr>))"

definition pop_inline_scope :: "cfg_state \<Rightarrow> (cfg_error + bool) \<times> cfg_state" where
  "pop_inline_scope s =
     (case inline_scopes s of [] \<Rightarrow> (Inl PopFromEmpty, s)
      | sc # rest \<Rightarrow> (Inr (merge_captured sc), s\<lparr>inline_scopes := rest\<rparr>))"

subsection \<open>Union narrowing\<close>

definition narrow :: "string \<Rightarrow> var \<Rightarrow> cfg_state \<Rightarrow> cfg_state" where
  "narrow name member s = s\<lparr>narrowed := dict_set name [member] (narrowed s)\<rparr>"

definition narrow_many :: "string \<Rightarrow> var list \<Rightarrow> cfg_state \<Rightarrow> (cfg_error + unit) \<times> cfg_state" where
  "narrow_many name members s =
     (if members = [] then (Inl AssertionFailed, s)
      else (Inr (), s\<lparr>narrowed := dict_set name members (narrowed s)\<rparr>))"

definition narrowed_members :: "string \<Rightarrow> cfg_state \<Rightarrow> var list option" where
  "narrowed_members name s = dict_get (narrowed s) name"

text \<open>Reassigning a name also drops every longer \<^verbatim>\<open>::\<close>-chain that starts with it.\<close>

definition unnarrow :: "string \<Rightarrow> cfg_state \<Rightarrow> cfg_state" where
  "unnarrow name s =
     s\<lparr>narrowed := filter (\<lambda>(k, _). \<not> prefix (name @ ''::'') k) (dict_pop name (narrowed s))\<rparr>"

definition narrowed_member :: "string \<Rightarrow> cfg_state \<Rightarrow> var option" where
  "narrowed_member name s =
     (case dict_get (narrowed s) name of Some [m] \<Rightarrow> Some m | _ \<Rightarrow> None)"

subsection \<open>Definite assignment and unchecked results\<close>

definition is_live :: "string \<Rightarrow> cfg_state \<Rightarrow> bool" where
  "is_live name s \<longleftrightarrow> name \<in> live s"

definition mark_live :: "string \<Rightarrow> cfg_state \<Rightarrow> cfg_state" where
  "mark_live name s = s\<lparr>live := insert name (live s)\<rparr>"

definition unmark_live :: "string \<Rightarrow> cfg_state \<Rightarrow> cfg_state" where
  "unmark_live name s = s\<lparr>live := live s - {name}\<rparr>"

definition set_live :: "string set \<Rightarrow> cfg_state \<Rightarrow> cfg_state" where
  "set_live L s = s\<lparr>live := L\<rparr>"

definition declare_exception_bind :: "var \<Rightarrow> cfg_state \<Rightarrow> cfg_state" where
  "declare_exception_bind dest s0 =
     (let s = mark_live (v_stem dest) s0 in
      if has_rc (v_type dest) then snd (push dest (v_type dest) OWNED (v_stem dest) False False s)
      else s)"

definition track_result :: "string \<Rightarrow> cfg_state \<Rightarrow> cfg_state" where
  "track_result name s = s\<lparr>unchecked_results := insert name (unchecked_results s)\<rparr>"

definition clear_result :: "string \<Rightarrow> cfg_state \<Rightarrow> cfg_state" where
  "clear_result name s = s\<lparr>unchecked_results := unchecked_results s - {name}\<rparr>"

definition is_unchecked :: "string \<Rightarrow> cfg_state \<Rightarrow> bool" where
  "is_unchecked name s \<longleftrightarrow> name \<in> unchecked_results s"

definition check_unchecked_results :: "operand option \<Rightarrow> cfg_state \<Rightarrow> (cfg_error + unit) \<times> cfg_state" where
  "check_unchecked_results returned s =
     (let remaining = unchecked_results s - (case returned of Some (OVar v) \<Rightarrow> {v_stem v} | _ \<Rightarrow> {});
          s' = s\<lparr>unchecked_results := {}\<rparr> in
      if remaining \<noteq> {} then (Inl (ResultsNeverInspected remaining), s') else (Inr (), s'))"

subsection \<open>Temporaries\<close>

definition fresh_temp :: "temp \<Rightarrow> mtype \<Rightarrow> cfg_state \<Rightarrow> cfg_state" where
  "fresh_temp t ty s =
     (if has_rc ty then s\<lparr>temp_states := dict_set (temp_id t) ty (temp_states s)\<rparr> else s)"

definition is_fresh_temp :: "operand \<Rightarrow> cfg_state \<Rightarrow> bool" where
  "is_fresh_temp x s \<longleftrightarrow> (case x of OTemp t \<Rightarrow> dict_has (temp_states s) (temp_id t) | _ \<Rightarrow> False)"

definition untrack_temp :: "operand option \<Rightarrow> cfg_state \<Rightarrow> cfg_state" where
  "untrack_temp x s =
     (case x of Some (OTemp t) \<Rightarrow> s\<lparr>temp_states := dict_pop (temp_id t) (temp_states s)\<rparr> | _ \<Rightarrow> s)"

definition delete_temp :: "cenv \<Rightarrow> temp \<Rightarrow> cfg_state \<Rightarrow> instr list \<times> cfg_state" where
  "delete_temp E t s =
     (let s' = s\<lparr>temp_states := dict_pop (temp_id t) (temp_states s)\<rparr> in
      case dict_get (temp_states s) (temp_id t) of
        None \<Rightarrow> ([], s')
      | Some ty \<Rightarrow> decref E ty (OTemp t) s')"

definition restore_temp_states :: "(nat, mtype) dict \<Rightarrow> cfg_state \<Rightarrow> cfg_state" where
  "restore_temp_states ts s = s\<lparr>temp_states := ts\<rparr>"

end
