(* ===== verification/Cfg_Assign.thy ===== *)
theory Cfg_Assign
  imports Cfg_State
begin

text \<open>
  The operations of \<^verbatim>\<open>src/cfg.py\<close> that change who owns a value: assignment to a local, a
  global or an attribute, moves, \<^verbatim>\<open>del\<close>, \<^verbatim>\<open>compiler.decref\<close>, struct fields, and the
  construction of \<^verbatim>\<open>self\<close> in \<^verbatim>\<open>__init__\<close>.
\<close>

subsection \<open>Assignment\<close>

text \<open>
  The source operand's side of \<^verbatim>\<open>assign\<close>: an aliasing read is retained (inside a shared lock
  section when it reads a global), a fresh temporary hands its reference over, anything else keeps
  its own.
\<close>

definition assign_source ::
  "cenv \<Rightarrow> var \<Rightarrow> operand \<Rightarrow> bool \<Rightarrow> cfg_state \<Rightarrow> instr list \<times> cfg_state" where
  "assign_source E dest src is_alias s =
     (if is_alias then
        if is_fresh_temp src s then ([], untrack_temp (Some src) s)
        else
          (let lock = (case src of OVar v \<Rightarrow> if v_is_global v then [AcquireGlobalLock v False] else []
                       | _ \<Rightarrow> []);
               (is, s1) = incref E (v_type dest) src s in
           (lock @ is, s1))
      else ([], untrack_temp (Some src) s))"

text \<open>A global's current value is released inside an exclusive lock section; nothing is tracked.\<close>

definition assign_global :: "cenv \<Rightarrow> var \<Rightarrow> cfg_state \<Rightarrow> instr list \<times> cfg_state" where
  "assign_global E dest s =
     (let (is, s1) = decref E (v_type dest) (OVar dest)
            (s\<lparr>reassigned_outside_init := insert (v_oid dest) (reassigned_outside_init s)\<rparr>) in
      (AcquireGlobalLock dest True # is, s1))"

text \<open>
  A tracked local is replaced: its current value is released when it owns one, and its entry is
  live again; an untracked one gets an entry of its own.
\<close>

definition replace_binding ::
  "cenv \<Rightarrow> string \<Rightarrow> var \<Rightarrow> bool \<Rightarrow> binding \<Rightarrow> ep_ref \<Rightarrow> cfg_state \<Rightarrow> instr list \<times> cfg_state" where
  "replace_binding E key v rc existing r s =
     (let (is, s1) = (if rc \<and> b_state existing = OWNED then decref E (v_type v) (OVar v) s
                      else ([], s)) in
      (is, s1\<lparr>heap := (heap s1)[r := (entry_at s1 r)\<lparr>ep_cancelled := False\<rparr>],
              bindings := dict_set key \<lparr>b_operand = v, b_type = v_type v, b_state = OWNED,
                b_entry = Some r\<rparr> (bindings s1)\<rparr>))"

definition assign_local :: "cenv \<Rightarrow> var \<Rightarrow> cfg_state \<Rightarrow> instr list \<times> cfg_state" where
  "assign_local E dest s =
     (case dict_get (bindings s) (v_stem dest) of
        Some b \<Rightarrow>
          (case b_entry b of
             Some r \<Rightarrow> replace_binding E (v_stem dest) dest True b r s
           | None \<Rightarrow> ([], snd (push dest (v_type dest) OWNED (v_stem dest) False False s)))
      | None \<Rightarrow> ([], snd (push dest (v_type dest) OWNED (v_stem dest) False False s)))"

definition assign ::
  "cenv \<Rightarrow> var \<Rightarrow> operand \<Rightarrow> bool \<Rightarrow> bool \<Rightarrow> bool \<Rightarrow> cfg_state \<Rightarrow> (cfg_error + instr list) \<times> cfg_state" where
  "assign E dest src is_alias track borrow s0 =
     (let s = mark_live (v_stem dest) s0 in
      if v_stem dest \<in> unchecked_results s then (Inl (ResultDiscarded (v_stem dest)), s)
      else
        (let s1 = (if track \<and> is_result_type (v_type dest) then track_result (v_stem dest) s
                   else clear_result (v_stem dest) s) in
         if borrow then
           (Inr [], s1\<lparr>bindings := dict_set (v_stem dest) (borrowed_binding dest) (bindings s1)\<rparr>)
         else if \<not> has_rc (v_type dest) then (Inr [], s1)
         else
           (let (is1, s2) = assign_source E dest src is_alias s1;
                (is2, s3) = (if v_is_global dest then assign_global E dest s2
                             else assign_local E dest s2) in
            (Inr (is1 @ is2), s3))))"

definition assign_global_initializer :: "cenv \<Rightarrow> var \<Rightarrow> cfg_state \<Rightarrow> instr list \<times> cfg_state" where
  "assign_global_initializer E dest s =
     (if \<not> has_rc (v_type dest) then ([], s)
      else (let (is, s1) = decref E (v_type dest) (OVar dest) s in
            (AcquireGlobalLock dest True # is, s1)))"

subsection \<open>Attributes and fields\<close>

abbreviation self_key :: "var \<Rightarrow> string" where
  "self_key attr \<equiv> ''self.'' @ v_stem attr"

definition attr_assign ::
  "cenv \<Rightarrow> var \<Rightarrow> operand \<Rightarrow> bool \<Rightarrow> cfg_state \<Rightarrow> instr list \<times> cfg_state" where
  "attr_assign E attr src is_alias s =
     (let key = self_key attr;
          rc = has_rc (v_type attr);
          (is1, s1) = (if \<not> rc then ([], s)
                       else if is_alias then incref E (v_type attr) src s
                       else ([], untrack_temp (Some src) s)) in
      case (case dict_get (bindings s1) key of Some b \<Rightarrow> map_option (Pair b) (b_entry b) | None \<Rightarrow> None) of
        Some (b, r) \<Rightarrow> (let (is2, s2) = replace_binding E key attr rc b r s1 in (is1 @ is2, s2))
      | None \<Rightarrow>
          if rc then (is1, snd (push attr (v_type attr) OWNED key True False s1))
          else (is1, s1\<lparr>bindings := dict_set key \<lparr>b_operand = attr, b_type = v_type attr,
                           b_state = OWNED, b_entry = None\<rparr> (bindings s1)\<rparr>))"

definition attr_replace ::
  "cenv \<Rightarrow> mtype \<Rightarrow> operand \<Rightarrow> operand \<Rightarrow> bool \<Rightarrow> cfg_state \<Rightarrow> instr list \<times> cfg_state" where
  "attr_replace E t old new is_alias s =
     (let (is1, s1) = (if is_alias then incref E t new s else ([], untrack_temp (Some new) s));
          (is2, s2) = decref E t old s1 in
      (is1 @ is2, s2))"

definition field_value ::
  "cenv \<Rightarrow> mtype \<Rightarrow> operand \<Rightarrow> bool \<Rightarrow> cfg_state \<Rightarrow> instr list \<times> cfg_state" where
  "field_value E t x is_alias s =
     (if is_alias then incref E t x s else ([], untrack_temp (Some x) s))"

subsection \<open>Moves, deletion and manual release\<close>

text \<open>A fresh \<^verbatim>\<open>_Binding\<close> in state \<^verbatim>\<open>MOVED\<close> for the same variable.\<close>

definition set_moved :: "string \<Rightarrow> binding \<Rightarrow> ep_ref option \<Rightarrow> cfg_state \<Rightarrow> cfg_state" where
  "set_moved key b e s =
     s\<lparr>bindings := dict_set key \<lparr>b_operand = b_operand b, b_type = b_type b, b_state = MOVED,
        b_entry = e\<rparr> (bindings s)\<rparr>"

definition move :: "cenv \<Rightarrow> operand \<Rightarrow> cfg_state \<Rightarrow> (cfg_error + instr list) \<times> cfg_state" where
  "move E x s =
     (case x of
        OVar v \<Rightarrow>
          (case dict_get (bindings s) (v_stem v) of
             None \<Rightarrow> (Inr [], s)
           | Some b \<Rightarrow>
               if b_state b \<noteq> OWNED then (Inl (CannotMove (v_stem v) (b_state b)), s)
               else case b_entry b of
                 Some r \<Rightarrow>
                   (let ((r', is), s1) = neutralize E r s in
                    (Inr is, set_moved (v_stem v) b (Some r') s1))
               | None \<Rightarrow> (Inr [], set_moved (v_stem v) b None s))
      | _ \<Rightarrow> (Inr [], untrack_temp (Some x) s))"

definition deleted :: "cenv \<Rightarrow> var \<Rightarrow> cfg_state \<Rightarrow> (cfg_error + instr list) \<times> cfg_state" where
  "deleted E v s =
     (if v_stem v \<in> unchecked_results s then (Inl (ResultDiscardedByDel (v_stem v)), s)
      else if v_stem v \<notin> live s then (Inl (NotInitialized (v_stem v)), s)
      else
        (let s1 = s\<lparr>live := live s - {v_stem v}, bindings := dict_pop (v_stem v) (bindings s)\<rparr> in
         case (case dict_get (bindings s) (v_stem v) of Some b \<Rightarrow> map_option (Pair b) (b_entry b)
               | None \<Rightarrow> None) of
           None \<Rightarrow> (Inr [], s1)
         | Some (b, r) \<Rightarrow>
             (let (is1, s2) = (if b_state b = OWNED then decref E (b_type b) (OVar v) s1 else ([], s1));
                  ((_, is2), s3) = neutralize E r s2 in
              (Inr (is1 @ is2), s3))))"

definition manually_decreffed :: "cenv \<Rightarrow> operand \<Rightarrow> cfg_state \<Rightarrow> instr list \<times> cfg_state" where
  "manually_decreffed E x s =
     (case x of
        OVar v \<Rightarrow>
          (case (case dict_get (bindings s) (v_stem v) of Some b \<Rightarrow> map_option (Pair b) (b_entry b)
                 | None \<Rightarrow> None) of
             None \<Rightarrow> ([], s)
           | Some (b, r) \<Rightarrow>
               if b_state b \<noteq> OWNED then ([], s)
               else if v_stem v \<in> possibly_retained s then ([], set_moved (v_stem v) b (Some r) s)
               else (let ((r', is), s1) = neutralize E r s in
                     (is, set_moved (v_stem v) b (Some r') s1)))
      | _ \<Rightarrow> ([], untrack_temp (Some x) s))"

subsection \<open>Construction of self\<close>

definition missing_attrs :: "cfg_state \<Rightarrow> string list" where
  "missing_attrs s =
     map v_stem (filter (\<lambda>attr. \<not> dict_has (bindings s) (self_key attr)) (construction_required s))"

definition check_self_escape :: "operand \<Rightarrow> cfg_state \<Rightarrow> cfg_error + unit" where
  "check_self_escape x s =
     (case construction_self s of
        None \<Rightarrow> Inr ()
      | Some self \<Rightarrow>
          if \<not> is_var self (Some x) then Inr ()
          else if missing_attrs s \<noteq> [] then Inl (SelfCannotEscape (missing_attrs s))
          else Inr ())"

definition cancel_attr :: "var \<Rightarrow> cfg_state \<Rightarrow> cfg_state" where
  "cancel_attr attr s =
     (case (case dict_get (bindings s) (self_key attr) of Some b \<Rightarrow> b_entry b | None \<Rightarrow> None) of
        Some r \<Rightarrow> s\<lparr>heap := (heap s)[r := (entry_at s r)\<lparr>ep_cancelled := True\<rparr>]\<rparr>
      | None \<Rightarrow> s)"

definition complete_construction :: "cfg_state \<Rightarrow> (cfg_error + unit) \<times> cfg_state" where
  "complete_construction s =
     (if missing_attrs s \<noteq> [] then (Inl (MustInitialize (missing_attrs s)), s)
      else (Inr (), fold cancel_attr (construction_required s) s))"

text \<open>
  \<^verbatim>\<open>complete_base_construction\<close>: an attribute whose lazy type resolution had not run must not
  turn out to be reference counted.
\<close>

fun complete_base_construction :: "var list \<Rightarrow> cfg_state \<Rightarrow> (cfg_error + unit) \<times> cfg_state" where
  "complete_base_construction [] s = (Inr (), s)"
| "complete_base_construction (attr # attrs) s =
     (if v_unresolved attr \<and> is_rc (v_type attr) then (Inl AssertionFailed, s)
      else
        (let key = self_key attr;
             s1 = (if has_rc (v_type attr) then snd (push attr (v_type attr) OWNED key True False s)
                   else s\<lparr>bindings := dict_set key \<lparr>b_operand = attr, b_type = v_type attr,
                            b_state = OWNED, b_entry = None\<rparr> (bindings s)\<rparr>) in
         complete_base_construction attrs
           (s1\<lparr>construction_required := construction_required s1 @ [attr]\<rparr>)))"

end
