(* ===== verification/Cfg_Epilogue.thy ===== *)
theory Cfg_Epilogue
  imports Cfg_Assign
begin

text \<open>
  Leaving a scope (\<^verbatim>\<open>src/cfg.py\<close>): the inline unwind of a \<^verbatim>\<open>return\<close>, \<^verbatim>\<open>break\<close>,
  \<^verbatim>\<open>continue\<close> or \<^verbatim>\<open>raise\<close>, the shared epilogue label a return may jump to instead, and the
  ladder of labels and releases that the label belongs to.  The lowering pass hands in the code that
  tests whether the function is returning an error; it is the parameter \<open>C\<close> of these definitions.
\<close>

type_synonym err_check = "gen \<Rightarrow> (instr list \<times> operand) \<times> gen"

subsection \<open>Replaying one entry\<close>

definition release_entry :: "cenv \<Rightarrow> epilogue \<Rightarrow> cfg_state \<Rightarrow> instr list \<times> cfg_state" where
  "release_entry E e s =
     (case (ep_type e, ep_operand e) of
        (Some t, Some v) \<Rightarrow> decref E t (OVar v) s
      | _ \<Rightarrow> ([], s))"

definition replay :: "cenv \<Rightarrow> err_check \<Rightarrow> ep_ref \<Rightarrow> cfg_state \<Rightarrow> instr list \<times> cfg_state" where
  "replay E C r s =
     (let e = entry_at s r in
      case ep_flag e of
        None \<Rightarrow> release_entry E e s
      | Some flag \<Rightarrow>
          (let (skip, g1) = new_label ''defer_skip'' (gen s);
               ((err_is, err_x), g2) = (if ep_is_err_only e then C g1 else (([], OVar flag), g1));
               guard = [JumpIfFalse (OVar flag) skip] @
                 (if ep_is_err_only e then err_is @ [JumpIfFalse err_x skip] else []);
               (body, s2) = (if ep_type e \<noteq> None then release_entry E e (s\<lparr>gen := g2\<rparr>)
                             else (ep_instructions e, s\<lparr>gen := g2\<rparr>)) in
           (guard @ body @ [Label skip], s2)))"

fun replay_all :: "cenv \<Rightarrow> err_check \<Rightarrow> ep_ref list \<Rightarrow> cfg_state \<Rightarrow> instr list \<times> cfg_state" where
  "replay_all E C [] s = ([], s)"
| "replay_all E C (r # rs) s =
     (let (is1, s1) = replay E C r s; (is2, s2) = replay_all E C rs s1 in (is1 @ is2, s2))"

fun release_all :: "cenv \<Rightarrow> ep_ref list \<Rightarrow> cfg_state \<Rightarrow> instr list \<times> cfg_state" where
  "release_all E [] s = ([], s)"
| "release_all E (r # rs) s =
     (let (is1, s1) = release_entry E (entry_at s r) s; (is2, s2) = release_all E rs s1 in
      (is1 @ is2, s2))"

subsection \<open>Inline unwinding\<close>

definition scope_floor :: "cfg_state \<Rightarrow> nat" where
  "scope_floor s = (case inline_scopes s of [] \<Rightarrow> 0 | sc # _ \<Rightarrow> boundary_depth sc)"

definition returns_entry :: "operand option \<Rightarrow> epilogue \<Rightarrow> bool" where
  "returns_entry x e \<longleftrightarrow> (case ep_operand e of Some v \<Rightarrow> is_var v x | None \<Rightarrow> False)"

text \<open>\<^verbatim>\<open>return_\<close>: every entry of the current scope that is not cancelled and not the returned value.\<close>

definition cfg_return :: "cenv \<Rightarrow> err_check \<Rightarrow> operand option \<Rightarrow> cfg_state \<Rightarrow> instr list \<times> cfg_state" where
  "cfg_return E C returned s0 =
     (let s = untrack_temp returned s0 in
      replay_all E C
        (filter (\<lambda>r. \<not> ep_cancelled (entry_at s r) \<and> \<not> returns_entry returned (entry_at s r))
           (rev (drop (scope_floor s) (stack s)))) s)"

text \<open>\<^verbatim>\<open>unwind_to\<close> and \<^verbatim>\<open>unwind_confined\<close>: plain entries above a depth, deepest first.\<close>

definition unwind_confined :: "cenv \<Rightarrow> nat \<Rightarrow> operand option \<Rightarrow> cfg_state \<Rightarrow> instr list \<times> cfg_state" where
  "unwind_confined E floor exclude s =
     release_all E
       (filter (\<lambda>r. \<not> ep_cancelled (entry_at s r) \<and> \<not> is_flag_guarded (entry_at s r)
                    \<and> \<not> returns_entry exclude (entry_at s r))
          (rev (drop floor (stack s)))) s"

definition unwind_to :: "cenv \<Rightarrow> snapshot \<Rightarrow> cfg_state \<Rightarrow> instr list \<times> cfg_state" where
  "unwind_to E snap s =
     release_all E
       (filter (\<lambda>r. \<not> ep_cancelled (entry_at s r) \<and> \<not> is_flag_guarded (entry_at s r))
          (rev (drop (sn_stack_depth snap) (stack s)))) s"

definition has_live_entry :: "operand option \<Rightarrow> cfg_state \<Rightarrow> bool" where
  "has_live_entry x s \<longleftrightarrow>
     (\<exists>r\<in>set (stack s). \<not> ep_cancelled (entry_at s r) \<and> returns_entry x (entry_at s r))"

subsection \<open>The shared epilogue label\<close>

definition confinement_floor :: "cfg_state \<Rightarrow> nat option" where
  "confinement_floor s =
     (case confinement_depths s of [] \<Rightarrow> None | d # ds \<Rightarrow> Some (fold min ds d))"

definition plain_active :: "cfg_state \<Rightarrow> ep_ref \<Rightarrow> bool" where
  "plain_active s r \<longleftrightarrow> \<not> ep_cancelled (entry_at s r) \<and> \<not> is_flag_guarded (entry_at s r)"

definition capture_scope :: "bool \<Rightarrow> cfg_state \<Rightarrow> cfg_state" where
  "capture_scope mark s =
     (case inline_scopes s of
        sc # rest \<Rightarrow> if mark then s\<lparr>inline_scopes := sc\<lparr>captured := True\<rparr> # rest\<rparr> else s
      | [] \<Rightarrow> s)"

definition capture_label :: "bool \<Rightarrow> label \<Rightarrow> cfg_state \<Rightarrow> cfg_state" where
  "capture_label mark l s =
     (if mark then
        s\<lparr>any_shared_label_used := any_shared_label_used s \<or> inline_scopes s = [],
          captured_labels := insert l (captured_labels s)\<rparr>
      else s)"

text \<open>The walk from the top of the stack, over (index, entry) pairs.\<close>

fun label_walk :: "nat option \<Rightarrow> bool \<Rightarrow> (nat \<times> ep_ref) list \<Rightarrow> cfg_state \<Rightarrow> label option \<times> cfg_state" where
  "label_walk floor mark [] s =
     (case inline_scopes s of
        sc # _ \<Rightarrow> (Some (scope_label sc), capture_scope mark s)
      | [] \<Rightarrow> (None, s))"
| "label_walk floor mark ((i, r) # rest) s =
     (if inline_scopes s \<noteq> [] \<and> i < scope_floor s
      then (Some (scope_label (hd (inline_scopes s))), capture_scope mark s)
      else if ep_cancelled (entry_at s r) then label_walk floor mark rest s
      else if (case floor of Some f \<Rightarrow> \<not> is_flag_guarded (entry_at s r) \<and> f \<le> i | None \<Rightarrow> False)
      then (None, s)
      else (Some (ep_name (entry_at s r)), capture_label mark (ep_name (entry_at s r)) s))"

definition current_epilogue_label ::
  "operand option \<Rightarrow> bool \<Rightarrow> cfg_state \<Rightarrow> label option \<times> cfg_state" where
  "current_epilogue_label returned mark s =
     (if has_live_entry returned s then (None, s)
      else
        (let floor = confinement_floor s in
         if (case floor of
               Some f \<Rightarrow> list_ex (plain_active s) (drop (max f (scope_floor s)) (stack s))
             | None \<Rightarrow> False)
         then (None, s)
         else label_walk floor mark (rev (enumerate 0 (stack s))) s))"

text \<open>
  The Err path of a fallible \<^verbatim>\<open>__init__\<close>: attribute entries are released inline, the topmost
  other entry is the shared target.  The first pass only classifies; \<open>None\<close> is its bail-out.
\<close>

fun construction_walk ::
  "nat option \<Rightarrow> nat \<Rightarrow> cfg_state \<Rightarrow> (nat \<times> ep_ref) list \<Rightarrow> ep_ref list \<Rightarrow> ep_ref option
    \<Rightarrow> (ep_ref list \<times> ep_ref option) option" where
  "construction_walk cf floor s [] attrs cand = Some (attrs, cand)"
| "construction_walk cf floor s ((i, r) # rest) attrs cand =
     (if i < floor then Some (attrs, cand)
      else if ep_cancelled (entry_at s r) then construction_walk cf floor s rest attrs cand
      else if (case cf of Some f \<Rightarrow> \<not> is_flag_guarded (entry_at s r) \<and> f \<le> i | None \<Rightarrow> False)
      then None
      else if ep_is_construction_attr (entry_at s r)
      then construction_walk cf floor s rest (attrs @ [r]) cand
      else construction_walk cf floor s rest attrs (if cand = None then Some r else cand))"

definition current_epilogue_label_for_construction_err ::
  "cenv \<Rightarrow> operand option \<Rightarrow> cfg_state \<Rightarrow> (label option \<times> instr list) \<times> cfg_state" where
  "current_epilogue_label_for_construction_err E returned s =
     (if has_live_entry returned s then ((None, []), s)
      else
        case construction_walk (confinement_floor s) (scope_floor s) s (rev (enumerate 0 (stack s))) [] None of
          None \<Rightarrow> ((None, []), s)
        | Some (attrs, cand) \<Rightarrow>
            (let (is, s1) = release_all E attrs s in
             case cand of
               None \<Rightarrow>
                 (case inline_scopes s1 of
                    sc # _ \<Rightarrow> ((Some (scope_label sc), is), capture_scope True s1)
                  | [] \<Rightarrow> ((None, is), s1))
             | Some r \<Rightarrow> ((Some (ep_name (entry_at s1 r)), is), capture_label True (ep_name (entry_at s1 r)) s1)))"

definition used_shared_epilogue_label :: "cfg_state \<Rightarrow> bool" where
  "used_shared_epilogue_label s = any_shared_label_used s"

subsection \<open>The ladder\<close>

fun ladder :: "cenv \<Rightarrow> err_check \<Rightarrow> ep_ref list \<Rightarrow> cfg_state \<Rightarrow> instr list \<times> cfg_state" where
  "ladder E C [] s = ([], s)"
| "ladder E C (r # rs) s =
     (let e = entry_at s r;
          lab = (if ep_name e \<in> captured_labels s then [Label (ep_name e)] else []);
          (is1, s1) = (if \<not> ep_cancelled e \<and> \<not> ep_is_construction_attr e then replay E C r s else ([], s));
          (is2, s2) = ladder E C rs s1 in
      (lab @ is1 @ is2, s2))"

definition build_epilogue_ladder :: "cenv \<Rightarrow> err_check \<Rightarrow> cfg_state \<Rightarrow> instr list \<times> cfg_state" where
  "build_epilogue_ladder E C s = ladder E C (rev (stack s)) s"

definition build_inline_scope_ladder ::
  "cenv \<Rightarrow> err_check \<Rightarrow> cfg_state \<Rightarrow> (cfg_error + instr list) \<times> cfg_state" where
  "build_inline_scope_ladder E C s =
     (case inline_scopes s of
        [] \<Rightarrow> (Inl PopFromEmpty, s)
      | sc # _ \<Rightarrow>
          (let (is, s1) = ladder E C (rev (drop (boundary_depth sc) (stack s))) s in
           (Inr is, s1\<lparr>stack := take (boundary_depth sc) (stack s1)\<rparr>)))"

end
