(* ===== verification/Cfg_Control.thy ===== *)
theory Cfg_Control
  imports Cfg_Epilogue
begin

text \<open>
  Control flow (\<^verbatim>\<open>src/cfg.py\<close>): snapshots and their restoration, loops and branches, the
  reconciliation of the two ends of an \<^verbatim>\<open>if\<close> (\<^verbatim>\<open>merge_if\<close>), of the exits of a loop
  (\<^verbatim>\<open>merge_loop_exits\<close>) and of its back edge (\<^verbatim>\<open>loop_back_edge\<close>), and the rollback of a
  loop body that is lowered a second time (\<^verbatim>\<open>hard_restore\<close>).

  The source iterates over Python sets of names in three places, in an order the language leaves
  open; that order is an argument (\<open>names\<close>) of the definitions.
\<close>

subsection \<open>Snapshots\<close>

definition take_snapshot :: "cfg_state \<Rightarrow> snapshot" where
  "take_snapshot s =
     \<lparr>sn_bindings = bindings s, sn_stack_depth = length (stack s), sn_results = unchecked_results s,
      sn_narrowed = narrowed s, sn_live = live s,
      sn_entry_cancelled = map (\<lambda>r. ep_cancelled (entry_at s r)) (stack s),
      sn_entry_flag = map (\<lambda>r. ep_flag (entry_at s r)) (stack s),
      sn_entry_objects = stack s\<rparr>"

definition restore_sets :: "snapshot \<Rightarrow> cfg_state \<Rightarrow> cfg_state" where
  "restore_sets snap s =
     s\<lparr>bindings := sn_bindings snap, unchecked_results := sn_results snap, narrowed := sn_narrowed snap,
       live := sn_live snap\<rparr>"

text \<open>\<open>swap_back keep origs xs\<close>: slot by slot the original object, where the present one is not kept.\<close>

fun swap_back :: "('a \<Rightarrow> bool) \<Rightarrow> 'a list \<Rightarrow> 'a list \<Rightarrow> 'a list" where
  "swap_back keep (orig # origs) (x # xs) = (if keep x then x else orig) # swap_back keep origs xs"
| "swap_back keep _ xs = xs"

definition survives_restore :: "cfg_state \<Rightarrow> ep_ref \<Rightarrow> bool" where
  "survives_restore s r \<longleftrightarrow>
     is_flag_guarded (entry_at s r) \<or> ep_name (entry_at s r) \<in> captured_labels s
     \<or> ep_survives_loop_restore (entry_at s r)"

definition restore :: "snapshot \<Rightarrow> cfg_state \<Rightarrow> (cfg_error + unit) \<times> cfg_state" where
  "restore snap s =
     (let slots = swap_back (\<lambda>r. is_flag_guarded (entry_at s r)) (sn_entry_objects snap) (stack s);
          s1 = (restore_sets snap s)\<lparr>stack := slots\<rparr> in
      if length (stack s) < length (sn_entry_objects snap) then (Inl IndexError, s1)
      else (Inr (), s1\<lparr>stack := take (sn_stack_depth snap) slots @
                         filter (survives_restore s) (drop (sn_stack_depth snap) slots)\<rparr>))"

definition reset_entry :: "ep_ref \<times> bool \<times> var option \<Rightarrow> cfg_state \<Rightarrow> cfg_state" where
  "reset_entry slot s =
     (case slot of (r, cancelled, flag) \<Rightarrow>
        s\<lparr>heap := (heap s)[r := (entry_at s r)\<lparr>ep_cancelled := cancelled, ep_flag := flag\<rparr>]\<rparr>)"

text \<open>
  On a stack shorter than the snapshot, the loop fails at the first missing slot, after it has reset
  that slot's entry.
\<close>

definition hard_restore :: "snapshot \<Rightarrow> cfg_state \<Rightarrow> (cfg_error + unit) \<times> cfg_state" where
  "hard_restore snap s =
     (let slots = zip (sn_entry_objects snap) (zip (sn_entry_cancelled snap) (sn_entry_flag snap));
          n = length (stack s);
          s1 = fold reset_entry (take (Suc n) slots) (restore_sets snap s);
          s2 = s1\<lparr>stack := swap_back (\<lambda>r. False) (map fst slots) (stack s)\<rparr> in
      if n < length slots then (Inl IndexError, s2)
      else (Inr (), s2\<lparr>stack := take (sn_stack_depth snap) (stack s2)\<rparr>))"

subsection \<open>Entering and leaving loops and branches\<close>

definition enter_loop :: "nat \<Rightarrow> cfg_state \<Rightarrow> cfg_state" where
  "enter_loop depth s =
     s\<lparr>confinement_depths := depth # confinement_depths s, break_narrowed := [] # break_narrowed s,
       break_live := [] # break_live s\<rparr>"

definition exit_loop :: "cfg_state \<Rightarrow> (cfg_error + narrowing list \<times> string set list) \<times> cfg_state" where
  "exit_loop s =
     (case (confinement_depths s, break_narrowed s, break_live s) of
        (_ # ds, bn # bns, bl # bls) \<Rightarrow>
          (Inr (bn, bl), s\<lparr>confinement_depths := ds, break_narrowed := bns, break_live := bls\<rparr>)
      | ([], _, _) \<Rightarrow> (Inl PopFromEmpty, s)
      | (_ # ds, [], _) \<Rightarrow> (Inl PopFromEmpty, s\<lparr>confinement_depths := ds\<rparr>)
      | (_ # ds, bn # bns, []) \<Rightarrow>
          (Inl PopFromEmpty, s\<lparr>confinement_depths := ds, break_narrowed := bns\<rparr>))"

definition enter_branch :: "nat \<Rightarrow> cfg_state \<Rightarrow> cfg_state" where
  "enter_branch depth s = s\<lparr>confinement_depths := depth # confinement_depths s\<rparr>"

definition exit_branch :: "cfg_state \<Rightarrow> (cfg_error + unit) \<times> cfg_state" where
  "exit_branch s =
     (case confinement_depths s of [] \<Rightarrow> (Inl PopFromEmpty, s)
      | _ # ds \<Rightarrow> (Inr (), s\<lparr>confinement_depths := ds\<rparr>))"

text \<open>The lists a \<^verbatim>\<open>break\<close> appends to belong to the innermost loop; outside a loop nothing happens.\<close>

definition record_break_narrowed :: "cfg_state \<Rightarrow> cfg_state" where
  "record_break_narrowed s =
     (case break_narrowed s of [] \<Rightarrow> s | bn # bns \<Rightarrow> s\<lparr>break_narrowed := (bn @ [narrowed s]) # bns\<rparr>)"

definition record_break_live :: "cfg_state \<Rightarrow> cfg_state" where
  "record_break_live s =
     (case break_live s of [] \<Rightarrow> s | bl # bls \<Rightarrow> s\<lparr>break_live := (bl @ [live s]) # bls\<rparr>)"

subsection \<open>Merging narrowings, definite assignment and unchecked results\<close>

text \<open>The members of two branches together, each object once.\<close>

fun combine_members :: "var list \<Rightarrow> var list \<Rightarrow> var list" where
  "combine_members combined [] = combined"
| "combine_members combined (m # ms) =
     combine_members (if list_ex (\<lambda>existing. v_oid m = v_oid existing) combined then combined
                      else combined @ [m]) ms"

fun merge_narrowings :: "narrowing \<Rightarrow> narrowing \<Rightarrow> narrowing" where
  "merge_narrowings [] other = []"
| "merge_narrowings ((name, members) # rest) other =
     (case dict_get other name of
        None \<Rightarrow> merge_narrowings rest other
      | Some ms \<Rightarrow> (name, combine_members members ms) # merge_narrowings rest other)"

definition merge_loop_exits ::
  "narrowing option \<Rightarrow> narrowing list \<Rightarrow> string set option \<Rightarrow> string set list \<Rightarrow> cfg_state \<Rightarrow> cfg_state" where
  "merge_loop_exits natural_narrowed break_nar natural_live break_liv s =
     (let candidates = break_nar @ (case natural_narrowed of None \<Rightarrow> [] | Some n \<Rightarrow> [n]);
          live_candidates = break_liv @ (case natural_live of None \<Rightarrow> [] | Some l \<Rightarrow> [l]);
          merged = (case candidates of [] \<Rightarrow> [] | c # cs \<Rightarrow> fold (\<lambda>other m. merge_narrowings m other) cs c);
          live' = (case live_candidates of [] \<Rightarrow> live s | l # ls \<Rightarrow> fold (\<lambda>other m. m \<inter> other) ls l) in
      s\<lparr>narrowed := merged, live := live'\<rparr>)"

definition or_empty :: "narrowing option \<Rightarrow> narrowing" where
  "or_empty n = (case n of None \<Rightarrow> [] | Some d \<Rightarrow> d)"

definition merge_narrowed_soft :: "narrowing option \<Rightarrow> narrowing option \<Rightarrow> cfg_state \<Rightarrow> cfg_state" where
  "merge_narrowed_soft tn fn s = s\<lparr>narrowed := merge_narrowings (or_empty tn) (or_empty fn)\<rparr>"

definition merge_live_soft :: "string set \<Rightarrow> string set \<Rightarrow> cfg_state \<Rightarrow> cfg_state" where
  "merge_live_soft tlive flive s = s\<lparr>live := tlive \<inter> flive\<rparr>"

definition merge_results ::
  "string list \<Rightarrow> string set \<Rightarrow> string set \<Rightarrow> string set \<Rightarrow> cfg_state \<Rightarrow> (cfg_error + unit) \<times> cfg_state" where
  "merge_results names entry tr fr s =
     (case find (\<lambda>n. \<not> (n \<in> tr \<and> n \<in> fr)) names of
        Some n \<Rightarrow> (Inl (if n \<in> entry then ResultInspectedOnOneBranch n else ResultNotInspectedInBranch n), s)
      | None \<Rightarrow> (Inr (), s\<lparr>unchecked_results := set names\<rparr>))"

subsection \<open>The join of an if\<close>

text \<open>What the lowering pass records at the end of one branch.\<close>

record branch_end =
  be_bindings :: bindings
  be_results :: "string set"
  be_narrowed :: "narrowing option"
  be_live :: "string set"
  be_terminates :: bool

definition reestablish :: "string \<Rightarrow> binding \<Rightarrow> bool \<Rightarrow> cfg_state \<Rightarrow> cfg_state" where
  "reestablish name b already_live s =
     (if b_state b = OWNED then
        if already_live then s\<lparr>bindings := dict_set name b (bindings s)\<rparr>
        else snd (push (b_operand b) (b_type b) (b_state b) name False False s)
      else s\<lparr>bindings := dict_set name (b\<lparr>b_entry := None\<rparr>) (bindings s)\<rparr>)"

definition on_stack :: "ep_ref option \<Rightarrow> cfg_state \<Rightarrow> bool" where
  "on_stack r s = (case r of Some r' \<Rightarrow> r' \<in> set (stack s) | None \<Rightarrow> False)"

text \<open>
  The entry of a binding that was owned before the \<^verbatim>\<open>if\<close> and is not any more, but whose slot
  \<^verbatim>\<open>restore\<close> has put back: it is neutralized.
\<close>

definition stale_entry :: "bindings \<Rightarrow> string \<Rightarrow> binding \<Rightarrow> bool \<Rightarrow> cfg_state \<Rightarrow> ep_ref option" where
  "stale_entry entry name b already_live s =
     (if already_live \<or> b_state b = OWNED then None
      else case dict_get entry name of
        None \<Rightarrow> None
      | Some prior \<Rightarrow> if b_state prior = OWNED \<and> on_stack (b_entry prior) s then b_entry prior else None)"

definition neutralize_stale :: "cenv \<Rightarrow> ep_ref option \<Rightarrow> cfg_state \<Rightarrow> instr list \<times> cfg_state" where
  "neutralize_stale E r s =
     (case r of None \<Rightarrow> ([], s) | Some r' \<Rightarrow> (let ((_, is), s') = neutralize E r' s in (is, s')))"

definition survivor_already_live :: "bindings \<Rightarrow> string \<Rightarrow> binding \<Rightarrow> cfg_state \<Rightarrow> bool" where
  "survivor_already_live entry name b s \<longleftrightarrow>
     (case dict_get entry name of Some prior \<Rightarrow> b_entry prior = b_entry b | None \<Rightarrow> False)
     \<or> on_stack (b_entry b) s"

fun merge_survivor :: "cenv \<Rightarrow> bindings \<Rightarrow> (string \<times> binding) list \<Rightarrow> cfg_state \<Rightarrow> instr list \<times> cfg_state" where
  "merge_survivor E entry [] s = ([], s)"
| "merge_survivor E entry ((name, b) # rest) s =
     (let al = survivor_already_live entry name b s;
          (is1, s1) = neutralize_stale E (stale_entry entry name b al s) s;
          (is2, s2) = merge_survivor E entry rest (reestablish name b al s1) in
      (is1 @ is2, s2))"

text \<open>A name of the entry state that the surviving branch deleted loses its restored entry.\<close>

fun drop_deleted ::
  "cenv \<Rightarrow> bindings \<Rightarrow> (string \<times> binding) list \<Rightarrow> cfg_state \<Rightarrow> instr list \<times> cfg_state" where
  "drop_deleted E survivor [] s = ([], s)"
| "drop_deleted E survivor ((name, prior) # rest) s =
     (let (is1, s1) =
        (if dict_has survivor name then ([], s)
         else case (b_entry prior, dict_get (bindings s) name) of
           (Some r, Some current) \<Rightarrow>
             if b_entry current = Some r
             then (let ((_, is), s') = neutralize E r s in
                   (is, s'\<lparr>bindings := dict_pop name (bindings s')\<rparr>))
             else ([], s)
         | _ \<Rightarrow> ([], s));
          (is2, s2) = drop_deleted E survivor rest s1 in
      (is1 @ is2, s2))"

definition merge_terminating ::
  "cenv \<Rightarrow> bindings \<Rightarrow> branch_end option \<Rightarrow> cfg_state \<Rightarrow> instr list \<times> cfg_state" where
  "merge_terminating E entry survivor s =
     (case survivor of
        None \<Rightarrow> ([], s\<lparr>unchecked_results := {}, narrowed := [], live := {}\<rparr>)
      | Some be \<Rightarrow>
          (let (is1, s1) = merge_survivor E entry (be_bindings be) s;
               (is2, s2) = drop_deleted E (be_bindings be) entry s1 in
           (is1 @ is2, s2\<lparr>unchecked_results := be_results be, narrowed := or_empty (be_narrowed be),
                          live := be_live be\<rparr>)))"

type_synonym if_code = "instr list \<times> instr list \<times> string list"

text \<open>A value owned on one branch and borrowed on the other is released under a runtime flag.\<close>

definition reconcile_owned_borrowed ::
  "cenv \<Rightarrow> string \<Rightarrow> binding \<Rightarrow> binding \<Rightarrow> cfg_state \<Rightarrow> (cfg_error + if_code) \<times> cfg_state" where
  "reconcile_owned_borrowed E name tb fb s =
     (let (owning, borrowed) = (if b_state tb = OWNED then (tb, fb) else (fb, tb)) in
      if \<not> (b_state owning = OWNED \<and> b_state borrowed = BORROWED)
      then (Inl (IndeterminateAfterIf name (b_state tb) (b_state fb)), s)
      else
        (let (flag, s1) = mint_cancel_flag E s;
             disarm = [disarm_instr flag];
             (r, s2) = push (b_operand owning) (b_type owning) (b_state owning)
                         (v_stem (b_operand owning)) False False s1;
             s3 = s2\<lparr>heap := (heap s2)[r := (entry_at s2 r)\<lparr>ep_flag := Some flag\<rparr>]\<rparr> in
         (Inr (if b_state tb \<noteq> OWNED then (disarm, [], []) else ([], disarm, [])), s3)))"

definition both_already_live :: "bindings \<Rightarrow> string \<Rightarrow> binding \<Rightarrow> binding \<Rightarrow> cfg_state \<Rightarrow> bool" where
  "both_already_live entry name tb fb s \<longleftrightarrow>
     (case dict_get entry name of
        Some prior \<Rightarrow> b_entry prior = b_entry tb \<and> b_entry prior = b_entry fb | None \<Rightarrow> False)
     \<or> (b_entry tb = b_entry fb \<and> on_stack (b_entry tb) s)"

definition merge_name ::
  "cenv \<Rightarrow> bindings \<Rightarrow> bindings \<Rightarrow> bindings \<Rightarrow> string \<Rightarrow> cfg_state \<Rightarrow> (cfg_error + if_code) \<times> cfg_state" where
  "merge_name E entry te fe name s =
     (case (dict_get te name, dict_get fe name) of
        (Some tb, Some fb) \<Rightarrow>
          if b_state tb \<noteq> b_state fb then reconcile_owned_borrowed E name tb fb s
          else
            (let al = both_already_live entry name tb fb s;
                 (is, s1) = neutralize_stale E (stale_entry entry name tb al s) s in
             (Inr (is, is, []), reestablish name tb al s1))
      | (Some b, None) \<Rightarrow>
          if dict_has entry name then (Inl (OnlyOnOneBranch name), s)
          else (let (is, s1) = (if b_state b = OWNED then decref E (b_type b) (OVar (b_operand b)) s
                                else ([], s)) in
                (Inr (is, [], [name]), s1))
      | (None, Some b) \<Rightarrow>
          if dict_has entry name then (Inl (OnlyOnOneBranch name), s)
          else (let (is, s1) = (if b_state b = OWNED then decref E (b_type b) (OVar (b_operand b)) s
                                else ([], s)) in
                (Inr ([], is, [name]), s1))
      | (None, None) \<Rightarrow> (Inr ([], [], []), s))"

fun merge_names ::
  "cenv \<Rightarrow> bindings \<Rightarrow> bindings \<Rightarrow> bindings \<Rightarrow> string list \<Rightarrow> cfg_state \<Rightarrow> (cfg_error + if_code) \<times> cfg_state" where
  "merge_names E entry te fe [] s = (Inr ([], [], []), s)"
| "merge_names E entry te fe (name # names) s =
     (case merge_name E entry te fe name s of
        (Inl e, s1) \<Rightarrow> (Inl e, s1)
      | (Inr (t1, f1, r1), s1) \<Rightarrow>
          (case merge_names E entry te fe names s1 of
             (Inl e, s2) \<Rightarrow> (Inl e, s2)
           | (Inr (t2, f2, r2), s2) \<Rightarrow> (Inr (t1 @ t2, f1 @ f2, r1 @ r2), s2)))"

definition merge_if ::
  "cenv \<Rightarrow> string list \<Rightarrow> string list \<Rightarrow> bindings \<Rightarrow> string set \<Rightarrow> branch_end \<Rightarrow> branch_end \<Rightarrow> cfg_state
    \<Rightarrow> (cfg_error + if_code) \<times> cfg_state" where
  "merge_if E names rnames entry entry_results te fe s =
     (if be_terminates te \<and> be_terminates fe then
        (let (_, s1) = merge_terminating E entry None s in (Inr ([], [], []), s1))
      else if be_terminates te then
        (let (is, s1) = merge_terminating E entry (Some fe) s in (Inr ([], is, []), s1))
      else if be_terminates fe then
        (let (is, s1) = merge_terminating E entry (Some te) s in (Inr (is, [], []), s1))
      else
        case merge_names E entry (be_bindings te) (be_bindings fe) names s of
          (Inl e, s1) \<Rightarrow> (Inl e, s1)
        | (Inr code, s1) \<Rightarrow>
            (case merge_results rnames entry_results (be_results te) (be_results fe) s1 of
               (Inl e, s2) \<Rightarrow> (Inl e, s2)
             | (Inr _, s2) \<Rightarrow>
                 (Inr code, merge_live_soft (be_live te) (be_live fe)
                    (merge_narrowed_soft (be_narrowed te) (be_narrowed fe) s2))))"

subsection \<open>The back edge of a loop\<close>

fun back_edge_names ::
  "cenv \<Rightarrow> bindings \<Rightarrow> string list \<Rightarrow> cfg_state \<Rightarrow> (cfg_error + instr list) \<times> cfg_state" where
  "back_edge_names E entry [] s = (Inr [], s)"
| "back_edge_names E entry (name # names) s =
     (case (dict_get entry name, dict_get (bindings s) name) of
        (Some a, Some b) \<Rightarrow>
          if b_state a \<noteq> b_state b then (Inl (IndeterminateAcrossLoop name (b_state a) (b_state b)), s)
          else back_edge_names E entry names s
      | (Some _, None) \<Rightarrow> (Inl (NotConsistentAcrossLoop name), s)
      | (None, Some b) \<Rightarrow>
          (let (is1, s1) = (if b_state b = OWNED then decref E (b_type b) (OVar (b_operand b)) s
                            else ([], s)) in
           case back_edge_names E entry names s1 of
             (Inl e, s2) \<Rightarrow> (Inl e, s2)
           | (Inr is2, s2) \<Rightarrow> (Inr (is1 @ is2), s2))
      | (None, None) \<Rightarrow> back_edge_names E entry names s)"

definition loop_back_edge ::
  "cenv \<Rightarrow> string list \<Rightarrow> bindings \<Rightarrow> string set option \<Rightarrow> cfg_state \<Rightarrow> (cfg_error + instr list) \<times> cfg_state" where
  "loop_back_edge E names entry entry_results s =
     (case back_edge_names E entry names s of
        (Inl e, s1) \<Rightarrow> (Inl e, s1)
      | (Inr is, s1) \<Rightarrow>
          (case entry_results of
             Some er \<Rightarrow>
               if unchecked_results s1 - er \<noteq> {}
               then (Inl (ResultFreshEveryIteration (unchecked_results s1 - er)), s1)
               else (Inr is, s1)
           | None \<Rightarrow> (Inr is, s1)))"

definition find_promotable_loop_mismatches :: "bindings \<Rightarrow> cfg_state \<Rightarrow> string set" where
  "find_promotable_loop_mismatches entry s =
     set (map fst (filter (\<lambda>(name, eb).
       case dict_get (bindings s) name of
         None \<Rightarrow> False
       | Some bb \<Rightarrow> b_state eb \<noteq> b_state bb \<and> b_state eb = BORROWED \<and> b_state bb = OWNED) entry))"

definition promote_borrowed_for_loop ::
  "cenv \<Rightarrow> string \<Rightarrow> cfg_state \<Rightarrow> (cfg_error + instr list) \<times> cfg_state" where
  "promote_borrowed_for_loop E name s =
     (case dict_get (bindings s) name of
        None \<Rightarrow> (Inl (KeyMissing name), s)
      | Some b \<Rightarrow>
          if b_state b \<noteq> BORROWED then (Inl AssertionFailed, s)
          else (let (is, s1) = incref E (b_type b) (OVar (b_operand b)) s in
                (Inr is, snd (push (b_operand b) (b_type b) OWNED name False True s1))))"

definition check_loop_exit_unchecked_results ::
  "string set \<Rightarrow> cfg_state \<Rightarrow> (cfg_error + unit) \<times> cfg_state" where
  "check_loop_exit_unchecked_results entry_results s =
     (let confined = unchecked_results s - entry_results;
          s' = s\<lparr>unchecked_results := unchecked_results s - confined\<rparr> in
      if confined \<noteq> {} then (Inl (ResultsNotInspectedAtLoopExit confined), s') else (Inr (), s'))"

end
