(* ===== verification/Cfg_Exec.thy ===== *)
theory Cfg_Exec
  imports Cfg_Control
begin

text \<open>
  What the code of \<^verbatim>\<open>return_\<close>, of the unwinds and of the shared ladder does when it runs: each
  replays its entries, last pushed first, and a jump to the shared label handed out by
  \<^verbatim>\<open>current_epilogue_label\<close> has the effect of the inline unwind.
\<close>

subsection \<open>The error check of errdefer\<close>

text \<open>
  \<^verbatim>\<open>_build_is_err_check\<close> (\<^verbatim>\<open>src/lowering_epilogue.py\<close>): a fresh temporary and the call of
  \<^verbatim>\<open>is_err\<close> on the variable that holds the value about to be returned.  Which function
  \<^verbatim>\<open>is_err\<close> resolves to is found by the resolver; its name is an argument.
\<close>

definition build_is_err_check :: "mtype \<Rightarrow> string \<Rightarrow> var \<Rightarrow> err_check" where
  "build_is_err_check bool_cls is_err_fn return_value_var g =
     (let (temp, g1) = new_temp bool_cls g in
      (([DeclareTemp temp, Call (Some temp) is_err_fn (Some (OVar return_value_var)) []], OTemp temp), g1))"

definition vars_same :: "env \<Rightarrow> env \<Rightarrow> bool" where
  "vars_same \<rho> \<rho>' \<longleftrightarrow> (\<forall>v. \<rho>' (LVar v) = \<rho> (LVar v))"

lemma vars_same_refl [simp]: "vars_same \<rho> \<rho>"
  by (simp add: vars_same_def)

lemma vars_same_trans: "vars_same \<rho> \<rho>1 \<Longrightarrow> vars_same \<rho>1 \<rho>2 \<Longrightarrow> vars_same \<rho> \<rho>2"
  by (simp add: vars_same_def)

lemma vars_same_sym: "vars_same \<rho> \<rho>1 \<Longrightarrow> vars_same \<rho>1 \<rho>"
  by (simp add: vars_same_def)

lemma agree_vars_same: "agree g \<rho> \<rho>' \<Longrightarrow> vars_same \<rho> \<rho>'"
  by (simp add: agree_def vars_same_def)

text \<open>A piece of code that runs to its end without touching a variable.\<close>

definition runs :: "(string \<Rightarrow> rval) \<Rightarrow> instr list \<Rightarrow> env \<Rightarrow> event list \<Rightarrow> bool" where
  "runs R is \<rho> es \<longleftrightarrow> no_return is \<and> (\<exists>\<rho>'. exec R is \<rho> = Some (es, \<rho>') \<and> vars_same \<rho> \<rho>')"

lemma runs_Nil [simp]: "runs R [] \<rho> es \<longleftrightarrow> es = []"
  by (auto simp: runs_def)

lemma runs_append:
  assumes "runs R xs \<rho> es" and "\<And>\<rho>'. vars_same \<rho> \<rho>' \<Longrightarrow> runs R ys \<rho>' es'"
  shows "runs R (xs @ ys) \<rho> (es @ es')"
proof -
  obtain \<rho>1 where x: "exec R xs \<rho> = Some (es, \<rho>1)" "vars_same \<rho> \<rho>1" "no_return xs"
    using assms(1) by (auto simp: runs_def)
  moreover obtain \<rho>2 where "exec R ys \<rho>1 = Some (es', \<rho>2)" "vars_same \<rho>1 \<rho>2" "no_return ys"
    using assms(2) [OF x(2)] by (auto simp: runs_def)
  ultimately show ?thesis
    by (auto simp: runs_def exec_append_Some intro: vars_same_trans)
qed

lemma runs_Label_iff: "runs R (Label l # is) \<rho> es \<longleftrightarrow> runs R is \<rho> es"
  by (auto simp: runs_def)

lemmas runs_Label = runs_Label_iff [THEN iffD2]

text \<open>
  What the state machine relies on from the error check it is handed: it declares only labels it
  mints, and every run of it reports the same events and the same verdict.
\<close>

locale err_check_contract =
  fixes R :: "string \<Rightarrow> rval" and C :: err_check and check_events :: "event list" and is_err :: bool
  assumes check_emits: "C g = ((is, x), g') \<Longrightarrow> emits is g g'"
    and check_runs: "C g = ((is, x), g') \<Longrightarrow>
      \<exists>\<rho>'. exec R is \<rho> = Some (check_events, \<rho>') \<and> vars_same \<rho> \<rho>' \<and> truth (value_of \<rho>' x) = is_err"

text \<open>\<^verbatim>\<open>is_err\<close> returns what the run's \<open>R\<close> says it returns.\<close>

lemma build_is_err_check_contract:
  "err_check_contract R (build_is_err_check b f v) [ECall f] (truth (R f))"
  by unfold_locales
    (auto simp: build_is_err_check_def new_temp_def Let_def emits_def gen_le_def labels_of_def vars_same_def)

subsection \<open>The effect of one entry\<close>

definition body_events :: "(string \<Rightarrow> rval) \<Rightarrow> instr list \<Rightarrow> env \<Rightarrow> event list" where
  "body_events R is \<rho> = (case exec R is \<rho> of Some (es, _) \<Rightarrow> es | None \<Rightarrow> [])"

definition release_events :: "epilogue \<Rightarrow> env \<Rightarrow> event list" where
  "release_events e \<rho> =
     (case (ep_type e, ep_operand e) of
        (Some t, Some v) \<Rightarrow> map ERelease (refs_of t (\<rho> (LVar (v_oid v))))
      | _ \<Rightarrow> [])"

text \<open>
  An entry can be replayed: its value has the shape of its type, and a deferred body runs to its end
  with events that depend on the variables only, using labels minted before it was registered.
\<close>

definition entry_ok :: "(string \<Rightarrow> rval) \<Rightarrow> gen \<Rightarrow> epilogue \<Rightarrow> env \<Rightarrow> bool" where
  "entry_ok R g e \<rho> \<longleftrightarrow>
     (\<forall>t. ep_type e = Some t \<longrightarrow> wf_type t \<and>
        (\<forall>v. ep_operand e = Some v \<longrightarrow> val_ok t (\<rho> (LVar (v_oid v))))) \<and>
     (ep_flag e = None \<longrightarrow> ep_type e \<noteq> None) \<and>
     (ep_type e = None \<longrightarrow> (\<forall>\<rho>'. vars_same \<rho> \<rho>' \<longrightarrow>
        runs R (ep_instructions e) \<rho>' (body_events R (ep_instructions e) \<rho>))) \<and>
     (\<forall>l\<in>labels_of (ep_instructions e). snd l < next_label g)"

lemma entry_ok_mono: "entry_ok R g e \<rho> \<Longrightarrow> gen_le g g' \<Longrightarrow> entry_ok R g' e \<rho>"
  by (fastforce simp: entry_ok_def gen_le_def)

lemma body_events_vars_same:
  assumes "entry_ok R g e \<rho>" and "vars_same \<rho> \<rho>'" and "ep_type e = None"
  shows "body_events R (ep_instructions e) \<rho>' = body_events R (ep_instructions e) \<rho>"
  using assms by (auto simp: entry_ok_def runs_def body_events_def [of R _ \<rho>'])

lemma entry_ok_vars_same:
  assumes "entry_ok R g e \<rho>" and "vars_same \<rho> \<rho>'"
  shows "entry_ok R g e \<rho>'"
proof -
  have "runs R (ep_instructions e) \<rho>'' (body_events R (ep_instructions e) \<rho>')"
    if "vars_same \<rho>' \<rho>''" "ep_type e = None" for \<rho>''
    using assms(1) vars_same_trans [OF assms(2) that(1)] that(2)
    unfolding body_events_vars_same [OF assms that(2)] by (simp add: entry_ok_def)
  with assms show ?thesis by (auto simp: entry_ok_def vars_same_def)
qed

lemma release_events_vars_same: "vars_same \<rho> \<rho>' \<Longrightarrow> release_events e \<rho>' = release_events e \<rho>"
  by (simp add: release_events_def vars_same_def split: option.splits)

lemma decref_runs:
  assumes "decref E t (OVar v) s = (is, s')" and "wf_type t" and "val_ok t (\<rho> (LVar (v_oid v)))"
  shows "runs R is \<rho> (map ERelease (refs_of t (\<rho> (LVar (v_oid v)))))"
    and "emits is (gen s) (gen s')" and "s' = s\<lparr>gen := gen s'\<rparr>"
proof -
  obtain g where g: "decref_instructions E t (OVar v) (gen s) = (is, g)" "s' = s\<lparr>gen := g\<rparr>"
    using assms(1) by (auto simp: decref_def split: prod.splits)
  show em: "emits is (gen s) (gen s')" using refcount_emits [OF g(1)] g(2) by simp
  show "s' = s\<lparr>gen := gen s'\<rparr>" using g(2) by simp
  have "rc_event OpDecref = ERelease" by (rule ext) simp
  then show "runs R is \<rho> (map ERelease (refs_of t (\<rho> (LVar (v_oid v)))))"
    using rc_correct_all [OF assms(2), of R E OpDecref] g(1) assms(3) emits_no_return [OF em]
    by (fastforce simp: rc_correct_def runs_def below_def intro: agree_vars_same)
qed

lemma release_entry_runs:
  assumes "release_entry E e s = (is, s')" and "entry_ok R g e \<rho>"
  shows "runs R is \<rho> (release_events e \<rho>)" and "emits is (gen s) (gen s')"
    and "s' = s\<lparr>gen := gen s'\<rparr>"
  using assms decref_runs
  by (auto simp: release_entry_def release_events_def entry_ok_def split: option.splits)

lemma entry_at_gen [simp, cfg_frame]: "entry_at (s\<lparr>gen := g\<rparr>) r = entry_at s r"
  by (simp add: entry_at_def)

lemma guard_runs:
  assumes "runs R body \<rho> es" and "skip \<notin> labels_of body"
  shows "runs R (JumpIfFalse c skip # body @ [Label skip]) \<rho> (if truth (value_of \<rho> c) then es else [])"
proof -
  have "runs R (body @ [Label skip]) \<rho> (es @ [])"
    by (rule runs_append [OF assms(1)]) (simp add: runs_def)
  moreover have "after_label skip (body @ [Label skip]) = Some []" using assms(2) by simp
  ultimately show ?thesis by (auto simp: runs_def)
qed

text \<open>
  The events of replaying an entry, given the events \<open>ce\<close> and the verdict \<open>err\<close> of the error check.
\<close>

definition entry_events :: "(string \<Rightarrow> rval) \<Rightarrow> event list \<Rightarrow> bool \<Rightarrow> epilogue \<Rightarrow> env \<Rightarrow> event list" where
  "entry_events R ce err e \<rho> =
     (let body = (if ep_type e \<noteq> None then release_events e \<rho> else body_events R (ep_instructions e) \<rho>) in
      case ep_flag e of
        None \<Rightarrow> release_events e \<rho>
      | Some f \<Rightarrow>
          if truth (\<rho> (LVar (v_oid f))) then
            (if ep_is_err_only e then ce @ (if err then body else []) else body)
          else [])"

lemma entry_events_vars_same:
  assumes "entry_ok R g e \<rho>" and "vars_same \<rho> \<rho>'"
  shows "entry_events R ce err e \<rho>' = entry_events R ce err e \<rho>"
proof -
  have "\<rho>' (LVar v) = \<rho> (LVar v)" for v using assms(2) by (simp add: vars_same_def)
  with body_events_vars_same [OF assms] release_events_vars_same [OF assms(2)] show ?thesis
    by (cases "ep_flag e"; cases "ep_type e") (simp_all add: entry_events_def Let_def)
qed

text \<open>The events of the ladder over the entries \<open>rs\<close>.\<close>

definition ladder_events ::
  "(string \<Rightarrow> rval) \<Rightarrow> event list \<Rightarrow> bool \<Rightarrow> cfg_state \<Rightarrow> ep_ref list \<Rightarrow> env \<Rightarrow> event list" where
  "ladder_events R ce err s rs \<rho> =
     concat (map (\<lambda>r. entry_events R ce err (entry_at s r) \<rho>)
       (filter (\<lambda>r. \<not> ep_cancelled (entry_at s r) \<and> \<not> ep_is_construction_attr (entry_at s r)) rs))"

lemma ladder_events_gen [simp, cfg_frame]:
  "ladder_events R ce err (s\<lparr>gen := g\<rparr>) rs \<rho> = ladder_events R ce err s rs \<rho>"
  by (simp add: ladder_events_def)

lemma ladder_events_Cons:
  "ladder_events R ce err s (r # rs) \<rho> =
     (if \<not> ep_cancelled (entry_at s r) \<and> \<not> ep_is_construction_attr (entry_at s r)
      then entry_events R ce err (entry_at s r) \<rho> else []) @ ladder_events R ce err s rs \<rho>"
  by (simp add: ladder_events_def)

lemma ladder_events_Nil [simp]: "ladder_events R ce err s [] \<rho> = []"
  by (simp add: ladder_events_def)

lemma ladder_events_cong:
  "(\<And>q. q \<in> set rs \<Longrightarrow> entry_at s q = entry_at s' q) \<Longrightarrow>
   ladder_events R ce err s rs \<rho> = ladder_events R ce err s' rs \<rho>"
  by (induction rs) (auto simp: ladder_events_Cons)

lemma ladder_events_vars_same:
  assumes "\<And>r. r \<in> set rs \<Longrightarrow> entry_ok R g (entry_at s r) \<rho>" and "vars_same \<rho> \<rho>'"
  shows "ladder_events R ce err s rs \<rho>' = ladder_events R ce err s rs \<rho>"
proof -
  have "entry_events R ce err (entry_at s r) \<rho>' = entry_events R ce err (entry_at s r) \<rho>"
    if "r \<in> set rs" for r
    using entry_events_vars_same [OF assms(1) assms(2)] that .
  then show ?thesis unfolding ladder_events_def by (intro arg_cong [where f = concat] map_cong) auto
qed

context err_check_contract
begin

lemma err_guard_runs:
  assumes "C g = ((ci, cx), g')" and "\<And>\<rho>'. vars_same \<rho> \<rho>' \<Longrightarrow> runs R body \<rho>' es"
    and "skip \<notin> labels_of body"
  shows "runs R (ci @ JumpIfFalse cx skip # body @ [Label skip]) \<rho>
    (check_events @ (if is_err then es else []))"
proof -
  obtain \<rho>1 where c: "exec R ci \<rho> = Some (check_events, \<rho>1)" "vars_same \<rho> \<rho>1"
    "truth (value_of \<rho>1 cx) = is_err"
    using check_runs [OF assms(1)] by blast
  have "runs R (JumpIfFalse cx skip # body @ [Label skip]) \<rho>1 (if is_err then es else [])"
    using guard_runs [OF assms(2) [OF c(2)] assms(3), of cx] c(3) by simp
  with c emits_no_return [OF check_emits [OF assms(1)]] show ?thesis
    by (auto simp: runs_def exec_append_Some intro: vars_same_trans)
qed

lemma replay_runs:
  assumes "replay E C r s = (is, s')" and ok: "entry_ok R (gen s) (entry_at s r) \<rho>"
  shows "runs R is \<rho> (entry_events R check_events is_err (entry_at s r) \<rho>)" and "gen_le (gen s) (gen s')"
    and "s' = s\<lparr>gen := gen s'\<rparr>"
    and "\<forall>l\<in>labels_of is. next_label (gen s) \<le> snd l \<or> l \<in> labels_of (ep_instructions (entry_at s r))"
proof -
  let ?e = "entry_at s r"
  let ?P = "runs R is \<rho> (entry_events R check_events is_err ?e \<rho>) \<and> gen_le (gen s) (gen s') \<and> s' = s\<lparr>gen := gen s'\<rparr> \<and>
    (\<forall>l\<in>labels_of is. next_label (gen s) \<le> snd l \<or> l \<in> labels_of (ep_instructions ?e))"
  have ?P
  proof (cases "ep_flag ?e")
    case None
    with assms have rel: "release_entry E ?e s = (is, s')" by (simp add: replay_def Let_def)
    from release_entry_runs [OF rel ok] None show ?thesis
      by (auto simp: entry_events_def emits_def)
  next
    case (Some f)
    obtain g1 skip where l: "new_label ''defer_skip'' (gen s) = (skip, g1)" by (metis surj_pair)
    then have skip: "snd skip = next_label (gen s)" "next_label g1 = Suc (next_label (gen s))"
      "gen_le (gen s) g1" by (auto simp: new_label_def gen_le_def)
    obtain ci cx g2 where c: "(if ep_is_err_only ?e then C g1 else (([], OVar f), g1)) = ((ci, cx), g2)"
      by (metis surj_pair)
    have g2: "emits ci g1 g2" using c check_emits by (auto split: if_splits)
    obtain body s2 where b: "(if ep_type ?e \<noteq> None then release_entry E ?e (s\<lparr>gen := g2\<rparr>)
        else (ep_instructions ?e, s\<lparr>gen := g2\<rparr>)) = (body, s2)" by (metis surj_pair)
    let ?es = "if ep_type ?e \<noteq> None then release_events ?e \<rho> else body_events R (ep_instructions ?e) \<rho>"
    have run: "runs R body \<rho>' ?es" if "vars_same \<rho> \<rho>'" for \<rho>'
    proof (cases "ep_type ?e = None")
      case True
      with b ok that show ?thesis by (auto simp: entry_ok_def)
    next
      case False
      with b release_entry_runs(1) [OF _ entry_ok_vars_same [OF ok that]] that show ?thesis
        by (auto simp: release_events_vars_same)
    qed
    have s2: "s2 = s\<lparr>gen := gen s2\<rparr>" "gen_le g2 (gen s2)"
      "\<forall>l\<in>labels_of body. next_label g2 \<le> snd l \<or> l \<in> labels_of (ep_instructions ?e)"
      using b release_entry_runs(2,3) [OF _ ok, of E "s\<lparr>gen := g2\<rparr>" body s2]
      by (auto simp: emits_def split: if_splits)
    have le: "gen_le g1 g2" using emits_gen_le [OF g2] .
    have "next_label (gen s) < next_label g2" using skip le by (simp add: gen_le_def)
    with skip(1) s2(3) ok have nl: "skip \<notin> labels_of body" by (fastforce simp: entry_ok_def)
    have is_eq: "is = JumpIfFalse (OVar f) skip #
        ((if ep_is_err_only ?e then ci @ [JumpIfFalse cx skip] else []) @ body) @ [Label skip]"
      and s': "s' = s2"
      using assms(1) Some l c b by (auto simp: replay_def Let_def split: prod.splits)
    have body: "runs R (((if ep_is_err_only ?e then ci @ [JumpIfFalse cx skip] else []) @ body) @ [Label skip]) \<rho>
        (if ep_is_err_only ?e then check_events @ (if is_err then ?es else []) else ?es)"
      using err_guard_runs [of g1 ci cx g2 \<rho> body ?es skip] c run nl
        runs_append [OF run [of \<rho>], of "[Label skip]" "[]"]
      by (auto simp: runs_def)
    have nl': "skip \<notin> labels_of ((if ep_is_err_only ?e then ci @ [JumpIfFalse cx skip] else []) @ body)"
      using nl emits_label_notin [OF g2, of skip] skip by auto
    have "runs R is \<rho> (entry_events R check_events is_err ?e \<rho>)"
    proof -
      have "after_label skip (((if ep_is_err_only ?e then ci @ [JumpIfFalse cx skip] else []) @ body) @ [Label skip]) = Some []"
        using after_label_None [OF nl', of "[Label skip]"] by simp
      with body show ?thesis
        unfolding is_eq by (auto simp: runs_def entry_events_def Some)
    qed
    moreover have "gen_le (gen s) (gen s2)"
      using skip(3) le s2(2) gen_le_trans by blast
    moreover have "\<forall>l\<in>labels_of is. next_label (gen s) \<le> snd l \<or> l \<in> labels_of (ep_instructions ?e)"
      using s2(3) g2 skip le unfolding is_eq
      by (cases "ep_is_err_only ?e") (auto simp: emits_def gen_le_def)
    ultimately show ?thesis using s2(1) s' by simp
  qed
  then show "runs R is \<rho> (entry_events R check_events is_err ?e \<rho>)" "gen_le (gen s) (gen s')" "s' = s\<lparr>gen := gen s'\<rparr>"
    "\<forall>l\<in>labels_of is. next_label (gen s) \<le> snd l \<or> l \<in> labels_of (ep_instructions ?e)"
    by blast+
qed

lemma replay_all_runs:
  assumes "replay_all E C rs s = (is, s')" and "\<And>r. r \<in> set rs \<Longrightarrow> entry_ok R (gen s) (entry_at s r) \<rho>"
  shows "runs R is \<rho> (concat (map (\<lambda>r. entry_events R check_events is_err (entry_at s r) \<rho>) rs))"
  using assms
proof (induction rs arbitrary: s "is" s' \<rho>)
  case (Cons r rs)
  obtain is1 s1 where r: "replay E C r s = (is1, s1)" by (metis surj_pair)
  obtain is2 s2 where rs: "replay_all E C rs s1 = (is2, s2)" by (metis surj_pair)
  have ok: "entry_ok R (gen s) (entry_at s r) \<rho>" by (rule Cons.prems(2)) simp
  note R = replay_runs [OF r ok]
  obtain g1 where s1: "s1 = s\<lparr>gen := g1\<rparr>" using R(3) by blast
  have "runs R is2 \<rho>' (concat (map (\<lambda>r. entry_events R check_events is_err (entry_at s r) \<rho>) rs))"
    if v: "vars_same \<rho> \<rho>'" for \<rho>'
  proof -
    have "entry_ok R (gen s1) (entry_at s1 q) \<rho>'" if "q \<in> set rs" for q
      using entry_ok_mono [OF entry_ok_vars_same [OF Cons.prems(2) v] R(2)] that by (simp add: s1)
    note Cons.IH [OF rs this]
    moreover have "entry_events R check_events is_err (entry_at s1 q) \<rho>' =
        entry_events R check_events is_err (entry_at s q) \<rho>" if "q \<in> set rs" for q
      using entry_events_vars_same [OF Cons.prems(2) v, of q] that by (simp add: s1)
    ultimately show ?thesis by (simp cong: map_cong)
  qed
  from runs_append [OF R(1) this] r rs Cons.prems(1) show ?case by simp
qed simp

lemma ladder_runs:
  assumes "ladder E C rs s = (is, s')" and "\<And>r. r \<in> set rs \<Longrightarrow> entry_ok R (gen s) (entry_at s r) \<rho>"
  shows "runs R is \<rho> (ladder_events R check_events is_err s rs \<rho>) \<and> gen_le (gen s) (gen s') \<and> s' = s\<lparr>gen := gen s'\<rparr> \<and>
    (\<forall>l\<in>labels_of is. next_label (gen s) \<le> snd l \<or>
       (\<exists>r\<in>set rs. l = ep_name (entry_at s r) \<or> l \<in> labels_of (ep_instructions (entry_at s r))))"
  using assms
proof (induction rs arbitrary: s "is" s' \<rho>)
  case (Cons r rs)
  let ?e = "entry_at s r"
  let ?act = "\<not> ep_cancelled ?e \<and> \<not> ep_is_construction_attr ?e"
  let ?lab = "if ep_name ?e \<in> captured_labels s then [Label (ep_name ?e)] else []"
  obtain is1 s1 where r: "(if ?act then replay E C r s else ([], s)) = (is1, s1)" by (metis surj_pair)
  obtain is2 s2 where rs: "ladder E C rs s1 = (is2, s2)" by (metis surj_pair)
  have ok: "entry_ok R (gen s) ?e \<rho>" by (rule Cons.prems(2)) simp
  have R: "runs R is1 \<rho> (if ?act then entry_events R check_events is_err ?e \<rho> else [])"
    "gen_le (gen s) (gen s1)" "s1 = s\<lparr>gen := gen s1\<rparr>"
    "\<forall>l\<in>labels_of is1. next_label (gen s) \<le> snd l \<or> l \<in> labels_of (ep_instructions ?e)"
    using r replay_runs [OF _ ok, of E is1 s1] by (auto split: if_splits)
  obtain g1 where s1: "s1 = s\<lparr>gen := g1\<rparr>" using R(3) by blast
  have IH: "runs R is2 \<rho>' (ladder_events R check_events is_err s1 rs \<rho>') \<and> gen_le (gen s1) (gen s2) \<and> s2 = s1\<lparr>gen := gen s2\<rparr> \<and>
    (\<forall>l\<in>labels_of is2. next_label (gen s1) \<le> snd l \<or>
       (\<exists>r\<in>set rs. l = ep_name (entry_at s1 r) \<or> l \<in> labels_of (ep_instructions (entry_at s1 r))))"
    if v: "vars_same \<rho> \<rho>'" for \<rho>'
    by (rule Cons.IH [OF rs])
      (use entry_ok_mono [OF entry_ok_vars_same [OF Cons.prems(2) v] R(2)] s1 in simp)
  have "runs R is2 \<rho>' (ladder_events R check_events is_err s rs \<rho>)" if v: "vars_same \<rho> \<rho>'" for \<rho>'
    using IH [OF v] ladder_events_vars_same [OF Cons.prems(2) v, of rs] by (simp add: s1)
  from runs_append [OF R(1) this]
  have run: "runs R (is1 @ is2) \<rho> (ladder_events R check_events is_err s (r # rs) \<rho>)"
    by (simp add: ladder_events_Cons)
  have "is = ?lab @ is1 @ is2" "s' = s2" using Cons.prems(1) r rs by (auto simp: Let_def)
  moreover have "runs R (?lab @ is1 @ is2) \<rho> (ladder_events R check_events is_err s (r # rs) \<rho>)"
    using run runs_Label [OF run, of "ep_name ?e"] by simp
  moreover have "\<forall>l\<in>labels_of (?lab @ is1 @ is2). next_label (gen s) \<le> snd l \<or>
       (\<exists>r\<in>set (r # rs). l = ep_name (entry_at s r) \<or> l \<in> labels_of (ep_instructions (entry_at s r)))"
    using R(4) IH [OF vars_same_refl] R(2) by (fastforce simp: s1 gen_le_def split: if_splits)
  ultimately show ?case using IH [OF vars_same_refl] R(2) s1 gen_le_trans
    by (auto simp: gen_le_def)
qed simp

end

lemma ladder_append:
  "ladder E C (xs @ ys) s =
     (let (is1, s1) = ladder E C xs s; (is2, s2) = ladder E C ys s1 in (is1 @ is2, s2))"
  by (induction xs arbitrary: s) (auto simp: Let_def split: prod.splits)

subsection \<open>A jump to the shared label\<close>

text \<open>
  From the moment a label is handed out until the ladder is built, the entries up to it are as they
  were; more may have been pushed on top.
\<close>

definition kept_until :: "cfg_state \<Rightarrow> cfg_state \<Rightarrow> bool" where
  "kept_until s s' \<longleftrightarrow>
     prefix (stack s) (stack s') \<and> (\<forall>r\<in>set (stack s). entry_at s' r = entry_at s r) \<and>
     captured_labels s \<subseteq> captured_labels s'"

text \<open>Every entry has a name of its own, older than the next label, and no deferred body declares it.\<close>

definition names_ok :: "cfg_state \<Rightarrow> bool" where
  "names_ok s \<longleftrightarrow>
     distinct (map (\<lambda>r. ep_name (entry_at s r)) (stack s)) \<and>
     (\<forall>r\<in>set (stack s). snd (ep_name (entry_at s r)) < next_label (gen s) \<and>
        (\<forall>q\<in>set (stack s). ep_name (entry_at s r) \<notin> labels_of (ep_instructions (entry_at s q))))"

lemma label_walk_found:
  assumes "label_walk fl mark xs s = (Some l, s')" and "inline_scopes s = []"
  shows "\<exists>pre i r post. xs = pre @ (i, r) # post \<and> (\<forall>q\<in>set (map snd pre). ep_cancelled (entry_at s q)) \<and>
    \<not> ep_cancelled (entry_at s r) \<and> l = ep_name (entry_at s r) \<and> s' = capture_label mark l s"
  using assms(1)
proof (induction xs)
  case (Cons x xs)
  obtain i r where x: "x = (i, r)" by (cases x)
  show ?case
  proof (cases "ep_cancelled (entry_at s r)")
    case True
    with Cons.prems assms(2) x have "label_walk fl mark xs s = (Some l, s')" by simp
    from Cons.IH [OF this] obtain pre j q post where
      "xs = pre @ (j, q) # post \<and> (\<forall>q\<in>set (map snd pre). ep_cancelled (entry_at s q)) \<and>
       \<not> ep_cancelled (entry_at s q) \<and> l = ep_name (entry_at s q) \<and> s' = capture_label mark l s"
      by blast
    with True x show ?thesis by (intro exI [of _ "x # pre"]) auto
  next
    case False
    with Cons.prems assms(2) x show ?thesis
      by (intro exI [of _ "[]"]) (auto split: option.splits if_splits)
  qed
qed (use assms(2) in simp)

lemma current_epilogue_label_found:
  assumes "current_epilogue_label x mark s = (Some l, s')" and "inline_scopes s = []"
  obtains pre r post where "rev (stack s) = pre @ r # post"
    and "\<forall>q\<in>set pre. ep_cancelled (entry_at s q)" and "\<not> ep_cancelled (entry_at s r)"
    and "l = ep_name (entry_at s r)" and "s' = capture_label mark l s" and "\<not> has_live_entry x s"
proof -
  have walk: "label_walk (confinement_floor s) mark (rev (enumerate 0 (stack s))) s = (Some l, s')"
    and live: "\<not> has_live_entry x s"
    using assms(1) by (auto simp: current_epilogue_label_def Let_def split: if_splits)
  obtain pre i r post where p: "rev (enumerate 0 (stack s)) = pre @ (i, r) # post"
    "\<forall>q\<in>set (map snd pre). ep_cancelled (entry_at s q)" "\<not> ep_cancelled (entry_at s r)"
    "l = ep_name (entry_at s r)" "s' = capture_label mark l s"
    using label_walk_found [OF walk assms(2)] by blast
  have "map snd (rev (enumerate 0 (stack s))) = rev (stack s)"
    by (simp add: rev_map [symmetric])
  then have "rev (stack s) = map snd pre @ r # map snd post" using p(1) by simp
  with p live that show ?thesis by blast
qed

context err_check_contract
begin

lemma ladder_jump_runs:
  assumes L: "ladder E C (xs @ r # ys) s = (L, s')"
    and ok: "\<And>q. q \<in> set (xs @ r # ys) \<Longrightarrow> entry_ok R (gen s) (entry_at s q) \<rho>"
    and cap: "ep_name (entry_at s r) \<in> captured_labels s"
    and num: "snd (ep_name (entry_at s r)) < next_label (gen s)"
    and new: "\<And>q. q \<in> set xs \<Longrightarrow> ep_name (entry_at s q) \<noteq> ep_name (entry_at s r) \<and>
      ep_name (entry_at s r) \<notin> labels_of (ep_instructions (entry_at s q))"
  shows "\<exists>L'. after_label (ep_name (entry_at s r)) L = Some L' \<and>
    runs R L' \<rho> (ladder_events R check_events is_err s (r # ys) \<rho>)"
proof -
  let ?l = "ep_name (entry_at s r)"
  obtain is1 s1 where x: "ladder E C xs s = (is1, s1)" by (metis surj_pair)
  obtain is2 s2 where y: "ladder E C (r # ys) s1 = (is2, s2)" by (metis surj_pair)
  have X: "gen_le (gen s) (gen s1)" "s1 = s\<lparr>gen := gen s1\<rparr>"
    "\<forall>l\<in>labels_of is1. next_label (gen s) \<le> snd l \<or>
       (\<exists>r\<in>set xs. l = ep_name (entry_at s r) \<or> l \<in> labels_of (ep_instructions (entry_at s r)))"
    using ladder_runs [OF x ok] by auto
  obtain g1 where s1: "s1 = s\<lparr>gen := g1\<rparr>" using X(2) by blast
  have "runs R is2 \<rho> (ladder_events R check_events is_err s1 (r # ys) \<rho>)"
    using ladder_runs [OF y, of \<rho>] entry_ok_mono [OF ok X(1)] by (auto simp: s1)
  moreover obtain rest where rest: "is2 = Label ?l # rest"
    using y cap by (auto simp: s1 Let_def split: prod.splits)
  ultimately have "runs R rest \<rho> (ladder_events R check_events is_err s (r # ys) \<rho>)"
    by (simp add: s1 runs_Label_iff)
  moreover have "?l \<notin> labels_of is1" using X(3) num new by fastforce
  then have "after_label ?l L = Some rest"
    using L x y rest by (auto simp: ladder_append Let_def)
  ultimately show ?thesis by blast
qed

lemma shared_jump_runs:
  assumes lab: "current_epilogue_label x True s = (Some l, s1)" and "inline_scopes s = []"
    and kept: "kept_until s1 s2" and names: "names_ok s2"
    and ok: "\<And>r. r \<in> set (stack s2) \<Longrightarrow> entry_ok R (gen s2) (entry_at s2 r) \<rho>"
    and L: "build_epilogue_ladder E C s2 = (L, s3)"
  shows "\<exists>L'. after_label l L = Some L' \<and>
    runs R L' \<rho> (ladder_events R check_events is_err s (rev (stack s)) \<rho>)"
proof -
  obtain pre r post where p: "rev (stack s) = pre @ r # post"
    "\<forall>q\<in>set pre. ep_cancelled (entry_at s q)" "\<not> ep_cancelled (entry_at s r)"
    "l = ep_name (entry_at s r)" "s1 = capture_label True l s"
    by (rule current_epilogue_label_found [OF lab assms(2)])
  have s1: "stack s1 = stack s" "entry_at s1 = entry_at s" "l \<in> captured_labels s1"
    using p(5) by (auto simp: capture_label_def entry_at_def)
  obtain news where st: "stack s2 = stack s @ news"
    using kept s1(1) by (auto simp: kept_until_def prefix_def)
  have same: "entry_at s2 q = entry_at s q" if "q \<in> set (stack s)" for q
    using kept that s1 by (auto simp: kept_until_def)
  have mem: "set (pre @ r # post) = set (stack s)" using p(1) by (metis set_rev)
  then have r: "entry_at s2 r = entry_at s r" using same by auto
  let ?xs = "rev news @ pre"
  have rs2: "rev (stack s2) = ?xs @ r # post" using st p(1) by simp
  have mem2: "set (?xs @ r # post) = set (stack s2)" using rs2 by (metis set_rev)
  have L': "ladder E C (?xs @ r # post) s2 = (L, s3)"
    using L rs2 by (simp add: build_epilogue_ladder_def)
  have d: "distinct (map (\<lambda>r. ep_name (entry_at s2 r)) (?xs @ r # post))"
    using names by (metis distinct_rev names_ok_def rev_map rs2)
  have "\<exists>L'. after_label (ep_name (entry_at s2 r)) L = Some L' \<and>
    runs R L' \<rho> (ladder_events R check_events is_err s2 (r # post) \<rho>)"
  proof (rule ladder_jump_runs [OF L'])
    show "ep_name (entry_at s2 r) \<in> captured_labels s2"
      using kept s1(3) p(4) r by (auto simp: kept_until_def)
    have rmem: "r \<in> set (stack s2)" using mem2 by auto
    with names show "snd (ep_name (entry_at s2 r)) < next_label (gen s2)" by (simp add: names_ok_def)
    show "ep_name (entry_at s2 q) \<noteq> ep_name (entry_at s2 r) \<and>
      ep_name (entry_at s2 r) \<notin> labels_of (ep_instructions (entry_at s2 q))" if "q \<in> set ?xs" for q
    proof -
      have "ep_name (entry_at s2 r) \<notin> (\<lambda>r. ep_name (entry_at s2 r)) ` set ?xs" using d by auto
      with that have "ep_name (entry_at s2 q) \<noteq> ep_name (entry_at s2 r)" by (metis imageI)
      moreover have "q \<in> set (stack s2)" using that mem2 by auto
      ultimately show ?thesis using names rmem by (simp add: names_ok_def)
    qed
  qed (use ok mem2 in auto)
  moreover have "ladder_events R check_events is_err s2 (r # post) \<rho> =
      ladder_events R check_events is_err s (rev (stack s)) \<rho>"
  proof -
    have "ladder_events R check_events is_err s2 (r # post) \<rho> =
        ladder_events R check_events is_err s (r # post) \<rho>"
      by (rule ladder_events_cong) (use same mem in auto)
    also have "\<dots> = ladder_events R check_events is_err s (pre @ r # post) \<rho>"
      using p(2) by (simp add: ladder_events_def)
    finally show ?thesis by (simp add: p(1))
  qed
  ultimately show ?thesis by (simp add: r p(4))
qed

lemma return_runs:
  assumes U: "cfg_return E C x s = (U, s')"
    and ok: "\<And>r. r \<in> set (stack s) \<Longrightarrow> \<not> ep_cancelled (entry_at s r) \<Longrightarrow> entry_ok R (gen s) (entry_at s r) \<rho>"
  shows "runs R U \<rho> (concat (map (\<lambda>r. entry_events R check_events is_err (entry_at s r) \<rho>)
    (filter (\<lambda>r. \<not> ep_cancelled (entry_at s r) \<and> \<not> returns_entry x (entry_at s r))
      (rev (drop (scope_floor s) (stack s))))))"
proof -
  let ?s = "untrack_temp x s"
  have same: "entry_at ?s = entry_at s" "stack ?s = stack s" "gen ?s = gen s" "scope_floor ?s = scope_floor s"
    by (auto simp: untrack_temp_def entry_at_def scope_floor_def split: option.splits operand.splits)
  from U have "replay_all E C (filter (\<lambda>r. \<not> ep_cancelled (entry_at s r) \<and>
      \<not> returns_entry x (entry_at s r)) (rev (drop (scope_floor s) (stack s)))) ?s = (U, s')"
    by (simp add: cfg_return_def Let_def same)
  from replay_all_runs [OF this, of \<rho>] ok show ?thesis by (auto simp: same dest: in_set_dropD)
qed

end

interpretation rec_check: err_check_contract R "build_is_err_check b f v" "[ECall f]" "truth (R f)"
  for R b f v
  by (rule build_is_err_check_contract)

subsection \<open>Properties\<close>

text \<open>
  C2. The inline unwind of a \<^verbatim>\<open>return\<close> replays exactly the entries of the current scope that are
  neither cancelled nor the returned value itself, last pushed first: each releases the references its
  variable holds, a flag-guarded one only when its flag is set, an \<^verbatim>\<open>errdefer\<close> only when
  \<^verbatim>\<open>is_err\<close> says so, a \<^verbatim>\<open>defer\<close> by running its body.
\<close>

theorem return_replays_live_entries:
  assumes "cfg_return E (build_is_err_check b f v) x s = (U, s')"
    and "\<forall>r\<in>set (stack s). \<not> ep_cancelled (entry_at s r) \<longrightarrow> entry_ok R (gen s) (entry_at s r) \<rho>"
  shows "\<exists>\<rho>'. exec R U \<rho> = Some (concat (map (\<lambda>r. entry_events R [ECall f] (truth (R f)) (entry_at s r) \<rho>)
      (filter (\<lambda>r. \<not> ep_cancelled (entry_at s r) \<and> \<not> returns_entry x (entry_at s r))
        (rev (drop (scope_floor s) (stack s))))), \<rho>')"
  using rec_check.return_runs [OF assms(1), of R \<rho>] assms(2) by (auto simp: runs_def)


text \<open>A function with two owned parameters that returns early.\<close>

definition demo_params :: "param list" where
  "demo_params =
     [\<lparr>p_var = Variable 20 ''p'' ''m.f.p'' demo_class False False, p_is_move = True, p_is_copy = False\<rparr>,
      \<lparr>p_var = Variable 21 ''q'' ''m.f.q'' demo_class False False, p_is_move = True, p_is_copy = False\<rparr>]"

definition demo_state :: cfg_state where
  "demo_state = init_state demo_env demo_params \<lparr>next_temp = 0, next_label = 0\<rparr> 100"

lemmas demo_state_defs = demo_state_def init_state_def empty_state_def enter_parameter_def
  demo_params_def push_def new_label_def has_rc_def Let_def demo_defs

lemma demo_state_simps:
  "stack demo_state = [0, 1]" "inline_scopes demo_state = []" "confinement_depths demo_state = []"
  "captured_labels demo_state = {}" "gen demo_state = \<lparr>next_temp = 0, next_label = 2\<rparr>"
  "entry_at demo_state 0 = \<lparr>ep_instructions = [], ep_name = (''epilogue'', 0),
     ep_operand = Some (p_var (demo_params ! 0)), ep_type = Some demo_class, ep_flag = None,
     ep_is_err_only = False, ep_cancelled = False, ep_is_construction_attr = False,
     ep_survives_loop_restore = False\<rparr>"
  "entry_at demo_state (Suc 0) = \<lparr>ep_instructions = [], ep_name = (''epilogue'', 1),
     ep_operand = Some (p_var (demo_params ! 1)), ep_type = Some demo_class, ep_flag = None,
     ep_is_err_only = False, ep_cancelled = False, ep_is_construction_attr = False,
     ep_survives_loop_restore = False\<rparr>"
  by (simp_all add: demo_state_defs entry_at_def)

definition demo_run :: env where
  "demo_run l = (if l = LVar 20 then VRef 7 else if l = LVar 21 then VRef 8 else VOther)"

lemma demo_live_entry_ok: "\<forall>r\<in>set (stack demo_state). \<not> ep_cancelled (entry_at demo_state r) \<longrightarrow>
    entry_ok R (gen demo_state) (entry_at demo_state r) \<rho>"
  by (auto simp: demo_state_simps entry_ok_def demo_class_def val_ok.simps)

lemma demo_entry_ok: "\<forall>r\<in>set (stack demo_state). entry_ok R (gen demo_state) (entry_at demo_state r) \<rho>"
  by (auto simp: demo_state_simps entry_ok_def demo_class_def val_ok.simps)

theorem return_replays_live_entries_witness:
  "\<exists>\<rho>'. exec (\<lambda>_. VNull) (fst (cfg_return demo_env (build_is_err_check demo_class ''is_err'' demo_var) None demo_state))
     demo_run = Some ([ERelease 8, ERelease 7], \<rho>')"
  using return_replays_live_entries [OF surjective_pairing demo_live_entry_ok, where R = "\<lambda>_. VNull" and \<rho> = demo_run
      and E = demo_env and b = demo_class and f = "''is_err''" and v = demo_var and x = None]
  by (simp add: demo_state_simps scope_floor_def returns_entry_def entry_events_def release_events_def
      refs_of.simps demo_run_def demo_params_def demo_class_def Let_def)

lemma demo_label:
  "current_epilogue_label None True demo_state =
     (Some (''epilogue'', 1), capture_label True (''epilogue'', 1) demo_state)"
  by (simp add: current_epilogue_label_def has_live_entry_def demo_state_simps returns_entry_def
      confinement_floor_def enumerate_eq_zip upt_rec Let_def)

lemma capture_label_simps [simp]:
  "stack (capture_label m l s) = stack s" "entry_at (capture_label m l s) r = entry_at s r"
  "gen (capture_label m l s) = gen s"
  by (auto simp: capture_label_def entry_at_def)


end
