(* ===== verification/Cfg_Wf.thy ===== *)
theory Cfg_Wf
  imports Cfg_Exec
begin

text \<open>
  The well-formedness invariant of the ownership state machine, the way its state may evolve
  (entries are never forgotten and never change what they release), and the contract every operation
  keeps: the invariant and the evolution.  The interpretations at the end discharge the contract
  for the operations of \<^verbatim>\<open>CFGState\<close>.
\<close>

subsection \<open>Well-formed states and their evolution\<close>

text \<open>What of an entry never changes after it is pushed.\<close>

definition static :: "epilogue \<Rightarrow> epilogue" where
  "static e = e\<lparr>ep_flag := None, ep_cancelled := False\<rparr>"

definition binds_ok :: "bindings \<Rightarrow> nat \<Rightarrow> bool" where
  "binds_ok bs n \<longleftrightarrow> (\<forall>(k, b)\<in>set bs. case b_entry b of Some r \<Rightarrow> r < n | None \<Rightarrow> True)"

definition wf_state :: "cfg_state \<Rightarrow> bool" where
  "wf_state s \<longleftrightarrow>
     distinct (map (\<lambda>r. ep_name (entry_at s r)) (stack s)) \<and>
     (\<forall>r\<in>set (stack s). r < length (heap s)) \<and>
     (\<forall>e\<in>set (heap s). snd (ep_name e) < next_label (gen s)) \<and>
     binds_ok (bindings s) (length (heap s))"

definition scopes_le :: "inline_scope list \<Rightarrow> inline_scope list \<Rightarrow> bool" where
  "scopes_le xs ys \<longleftrightarrow>
     (\<exists>news olds. ys = news @ olds \<and>
        list_all2 (\<lambda>a b. scope_label a = scope_label b \<and> (captured a \<longrightarrow> captured b)) xs olds)"

definition evolves :: "cfg_state \<Rightarrow> cfg_state \<Rightarrow> bool" where
  "evolves s s' \<longleftrightarrow>
     length (heap s) \<le> length (heap s') \<and>
     (\<forall>r<length (heap s). static (entry_at s' r) = static (entry_at s r)) \<and>
     length (stack s) \<le> length (stack s') \<and>
     (\<forall>i<length (stack s). static (entry_at s' (stack s' ! i)) = static (entry_at s (stack s ! i))) \<and>
     captured_labels s \<subseteq> captured_labels s' \<and> gen_le (gen s) (gen s') \<and>
     scopes_le (inline_scopes s) (inline_scopes s')"

lemma static_name: "static a = static b \<Longrightarrow> ep_name a = ep_name b"
  unfolding static_def by (metis epilogue.select_convs(2) epilogue.surjective epilogue.update_convs(5) epilogue.update_convs(7))

lemma static_upd [simp]:
  "static (e\<lparr>ep_flag := f\<rparr>) = static e" "static (e\<lparr>ep_cancelled := c\<rparr>) = static e"
  by (simp_all add: static_def)

lemma ep_name_static [simp]: "ep_name (static e) = ep_name e"
  by (simp add: static_def)

lemma scopes_le_refl [simp]: "scopes_le xs xs"
  unfolding scopes_le_def by (rule exI [of _ "[]"], rule exI [of _ xs]) (simp add: list_all2_refl)

lemma scopes_le_Cons: "scopes_le xs ys \<Longrightarrow> scopes_le xs (y # ys)"
  unfolding scopes_le_def by (elim exE conjE, rule exI [of _ "y # _"]) auto

lemma scopes_le_trans:
  assumes "scopes_le xs ys" and "scopes_le ys zs"
  shows "scopes_le xs zs"
proof -
  let ?P = "\<lambda>a b. scope_label a = scope_label b \<and> (captured a \<longrightarrow> captured b)"
  obtain n1 o1 where 1: "ys = n1 @ o1" "list_all2 ?P xs o1" using assms(1) by (auto simp: scopes_le_def)
  obtain n2 o2 where 2: "zs = n2 @ o2" "list_all2 ?P ys o2" using assms(2) by (auto simp: scopes_le_def)
  from 1(1) 2(2) obtain a b where ab: "o2 = a @ b" "list_all2 ?P o1 b"
    by (auto simp: list_all2_append1)
  have "list_all2 ?P xs b" by (rule list_all2_trans [OF _ 1(2) ab(2)]) auto
  with 2(1) ab(1) have "zs = (n2 @ a) @ b \<and> list_all2 ?P xs b" by simp
  then show ?thesis unfolding scopes_le_def by blast
qed

lemma evolves_refl [simp]: "evolves s s"
  by (simp add: evolves_def)

lemma evolves_trans: "evolves a b \<Longrightarrow> evolves b c \<Longrightarrow> evolves a c"
  unfolding evolves_def by (auto intro: scopes_le_trans gen_le_trans)

lemma binds_ok_mono: "binds_ok bs n \<Longrightarrow> n \<le> m \<Longrightarrow> binds_ok bs m"
  by (fastforce simp: binds_ok_def split: option.splits)

lemma set_dict_set: "(k, b) \<in> set (dict_set k' v bs) \<Longrightarrow> (k, b) = (k', v) \<or> (k, b) \<in> set bs"
  by (induction bs) (auto split: if_splits)

lemma binds_ok_set:
  "binds_ok bs n \<Longrightarrow> (\<And>r. b_entry b = Some r \<Longrightarrow> r < n) \<Longrightarrow> binds_ok (dict_set k b bs) n"
  by (auto simp: binds_ok_def dest!: set_dict_set split: option.splits)

lemma binds_ok_pop: "binds_ok bs n \<Longrightarrow> binds_ok (dict_pop k bs) n"
  by (auto simp: binds_ok_def AList.delete_eq)

lemma binds_ok_get: "binds_ok bs n \<Longrightarrow> dict_get bs k = Some b \<Longrightarrow> b_entry b = Some r \<Longrightarrow> r < n"
  by (fastforce simp: binds_ok_def dest: map_of_SomeD)

lemma wf_entry_lt:
  "wf_state s \<Longrightarrow> dict_get (bindings s) k = Some b \<Longrightarrow> b_entry b = Some r \<Longrightarrow> r < length (heap s)"
  by (auto simp: wf_state_def intro: binds_ok_get)

lemma wf_name_lt:
  "wf_state s \<Longrightarrow> r < length (heap s) \<Longrightarrow> snd (ep_name (entry_at s r)) < next_label (gen s)"
  by (simp add: wf_state_def entry_at_def)

lemma wf_stack_lt: "wf_state s \<Longrightarrow> r \<in> set (stack s) \<Longrightarrow> r < length (heap s)"
  by (simp add: wf_state_def)

subsection \<open>The contract of an operation\<close>

definition ok_step :: "cfg_state \<Rightarrow> cfg_state \<Rightarrow> bool" where
  "ok_step s s' \<longleftrightarrow> (wf_state s \<longrightarrow> wf_state s' \<and> evolves s s')"

lemma ok_step_refl [simp]: "ok_step s s"
  by (simp add: ok_step_def)

lemma ok_step_trans [trans]: "ok_step a b \<Longrightarrow> ok_step b c \<Longrightarrow> ok_step a c"
  by (auto simp: ok_step_def intro: evolves_trans)

lemma ok_stepI: "(wf_state s \<Longrightarrow> ok_step s s') \<Longrightarrow> ok_step s s'"
  by (auto simp: ok_step_def)

text \<open>An operation that leaves the entries, the labels and the scopes alone.\<close>

definition quiet :: "cfg_state \<Rightarrow> cfg_state \<Rightarrow> bool" where
  "quiet s s' \<longleftrightarrow>
     heap s' = heap s \<and> stack s' = stack s \<and> captured_labels s' = captured_labels s \<and>
     inline_scopes s' = inline_scopes s \<and> gen_le (gen s) (gen s') \<and>
     (wf_state s \<longrightarrow> binds_ok (bindings s') (length (heap s)))"

lemma quiet_ok: "quiet s s' \<Longrightarrow> ok_step s s'"
  by (auto simp: quiet_def ok_step_def wf_state_def evolves_def entry_at_def gen_le_def)

lemma quiet_refl [simp]: "quiet s s"
  by (simp add: quiet_def wf_state_def)

lemma ok_pushed_entry:
  assumes "heap s' = heap s @ [e]" and "stack s' = stack s @ [length (heap s)]"
    and "snd (ep_name e) = next_label (gen s)" and "next_label (gen s') = Suc (next_label (gen s))"
    and "next_temp (gen s') = next_temp (gen s)"
    and "captured_labels s' = captured_labels s" and "inline_scopes s' = inline_scopes s"
    and "wf_state s \<Longrightarrow> binds_ok (bindings s') (length (heap s'))"
  shows "ok_step s s'"
  unfolding ok_step_def
proof (intro impI conjI)
  assume wf: "wf_state s"
  have ent: "entry_at s' r = entry_at s r" if "r < length (heap s)" for r
    using that assms(1) by (simp add: entry_at_def nth_append)
  have new: "entry_at s' (length (heap s)) = e" using assms(1) by (simp add: entry_at_def)
  have names: "map (\<lambda>r. ep_name (entry_at s' r)) (stack s) = map (\<lambda>r. ep_name (entry_at s r)) (stack s)"
    using ent wf_stack_lt [OF wf] by simp
  have "ep_name e \<notin> set (map (\<lambda>r. ep_name (entry_at s r)) (stack s))"
  proof
    assume "ep_name e \<in> set (map (\<lambda>r. ep_name (entry_at s r)) (stack s))"
    then obtain r where "r \<in> set (stack s)" "ep_name e = ep_name (entry_at s r)" by auto
    with wf_name_lt [OF wf wf_stack_lt [OF wf]] assms(3) show False by (metis less_irrefl)
  qed
  moreover have "map (\<lambda>r. ep_name (entry_at s' r)) (stack s') =
      map (\<lambda>r. ep_name (entry_at s r)) (stack s) @ [ep_name e]"
    unfolding assms(2) map_append names by (simp add: new)
  ultimately have "distinct (map (\<lambda>r. ep_name (entry_at s' r)) (stack s'))"
    using wf by (simp add: wf_state_def)
  moreover have "\<forall>x\<in>set (heap s'). snd (ep_name x) < next_label (gen s')"
    using wf by (auto simp: assms wf_state_def less_SucI)
  moreover have "\<forall>r\<in>set (stack s'). r < length (heap s')"
    using wf_stack_lt [OF wf] by (auto simp: assms(1,2) less_SucI)
  ultimately show "wf_state s'" using assms(8) [OF wf] by (simp add: wf_state_def)
  show "evolves s s'"
    using ent wf_stack_lt [OF wf] by (auto simp: evolves_def assms nth_append gen_le_def)
qed

lemma ok_push: "ok_step s (snd (push v t st k a l s))"
  by (rule ok_pushed_entry)
    (auto simp: push_def Let_def new_label_def wf_state_def intro!: binds_ok_set elim: binds_ok_mono)

lemma ok_push_defer: "ok_step s (snd (push_defer is f eo s))"
  by (rule ok_pushed_entry) (auto simp: push_defer_def Let_def new_label_def wf_state_def elim: binds_ok_mono)

text \<open>Flags and cancellation of an existing entry may change in place.\<close>

lemma ok_entry_update:
  assumes "heap s' = (heap s)[r := e]" and "static e = static (entry_at s r)" and "stack s' = stack s"
    and "gen_le (gen s) (gen s')" and "captured_labels s' = captured_labels s"
    and "inline_scopes s' = inline_scopes s"
    and "wf_state s \<Longrightarrow> binds_ok (bindings s') (length (heap s))"
  shows "ok_step s s'"
  unfolding ok_step_def
proof (intro impI conjI)
  assume wf: "wf_state s"
  have ent: "static (entry_at s' q) = static (entry_at s q)" if "q < length (heap s)" for q
    using that assms(1,2) by (cases "q = r") (simp_all add: entry_at_def)
  then have name: "ep_name (entry_at s' q) = ep_name (entry_at s q)" if "q < length (heap s)" for q
    using that static_name by blast
  have names: "map (\<lambda>r. ep_name (entry_at s' r)) (stack s') = map (\<lambda>r. ep_name (entry_at s r)) (stack s)"
    using name wf_stack_lt [OF wf] by (simp add: assms(3))
  have "distinct (map (\<lambda>r. ep_name (entry_at s' r)) (stack s'))"
    unfolding names using wf by (simp add: wf_state_def)
  moreover have "snd (ep_name x) < next_label (gen s')" if "x \<in> set (heap s')" for x
  proof -
    from that obtain q where q: "q < length (heap s)" "x = entry_at s' q"
      by (metis assms(1) entry_at_def in_set_conv_nth length_list_update)
    with wf_name_lt [OF wf q(1)] name assms(4) show ?thesis by (simp add: gen_le_def)
  qed
  ultimately show "wf_state s'" using wf assms(1,3,7) by (simp add: wf_state_def)
  show "evolves s s'" using ent wf_stack_lt [OF wf] assms by (simp add: evolves_def)
qed

lemma replace_first_same: "a \<notin> set xs \<Longrightarrow> replace_first a b xs = xs"
  by (induction xs) auto

lemma length_replace_first [simp]: "length (replace_first a b xs) = length xs"
  by (induction xs) auto

lemma map_replace_first: "f a = f b \<Longrightarrow> map f (replace_first a b xs) = map f xs"
  by (induction xs) auto

lemma set_replace_first: "set (replace_first a b xs) \<subseteq> insert b (set xs)"
  by (induction xs) auto

lemma ok_replaced_entry:
  assumes "r < length (heap s)" and "heap s' = heap s @ [e]" and "static e = static (entry_at s r)"
    and "stack s' = replace_first r (length (heap s)) (stack s)" and "gen s' = gen s"
    and "captured_labels s' = captured_labels s" and "inline_scopes s' = inline_scopes s"
    and "bindings s' = bindings s"
  shows "ok_step s s'"
  unfolding ok_step_def
proof (intro impI conjI)
  assume wf: "wf_state s"
  have ent: "entry_at s' q = entry_at s q" if "q < length (heap s)" for q
    using that assms(2) by (simp add: entry_at_def nth_append)
  have new: "entry_at s' (length (heap s)) = e" using assms(2) by (simp add: entry_at_def)
  have st: "map (\<lambda>q. static (entry_at s' q)) (stack s') = map (\<lambda>q. static (entry_at s q)) (stack s)"
    using map_replace_first [of "\<lambda>q. static (entry_at s' q)" r "length (heap s)" "stack s"] ent new
      wf_stack_lt [OF wf] assms(1,3,4) by (simp add: entry_at_def cong: map_cong)
  then have "map ep_name (map (\<lambda>q. static (entry_at s' q)) (stack s')) =
      map ep_name (map (\<lambda>q. static (entry_at s q)) (stack s))" by simp
  then have "map (\<lambda>q. ep_name (entry_at s' q)) (stack s') = map (\<lambda>q. ep_name (entry_at s q)) (stack s)"
    by (simp add: comp_def)
  moreover have "\<forall>q\<in>set (stack s'). q < length (heap s')"
    using set_replace_first [of r "length (heap s)" "stack s"] wf_stack_lt [OF wf] assms(2,4)
    by (auto simp: less_SucI)
  moreover have "snd (ep_name e) < next_label (gen s)"
    using wf_name_lt [OF wf assms(1)] static_name [OF assms(3)] by simp
  ultimately show "wf_state s'" using wf assms
    by (auto simp: wf_state_def elim: binds_ok_mono)
  have "static (entry_at s' (stack s' ! i)) = static (entry_at s (stack s ! i))"
    if "i < length (stack s)" for i
    using st that assms(4) by (metis (no_types, lifting) length_map length_replace_first nth_map)
  then show "evolves s s'" using ent assms by (simp add: evolves_def)
qed

lemma ok_mint [simp]: "quiet s (snd (mint_cancel_flag E s))"
  by (simp add: quiet_def mint_cancel_flag_def Let_def wf_state_def)

lemma ok_neutralize: "r < length (heap s) \<Longrightarrow> ok_step s (snd (neutralize E r s))"
proof -
  assume r: "r < length (heap s)"
  show ?thesis
  proof (cases "ep_name (entry_at s r) \<in> captured_labels s")
    case False
    then show ?thesis
      by (intro ok_replaced_entry [OF r, where e = "(entry_at s r)\<lparr>ep_cancelled := True\<rparr>"])
        (simp_all add: neutralize_def Let_def)
  next
    case True
    show ?thesis
    proof (cases "ep_flag (entry_at s r)")
      case None
      obtain f s1 where m: "mint_cancel_flag E s = (f, s1)" by (metis surj_pair)
      then have "quiet s s1" using ok_mint [of s E] by simp
      with True None m show ?thesis
        by (intro ok_entry_update [where r = r and e = "(entry_at s r)\<lparr>ep_flag := Some f\<rparr>"])
          (auto simp: neutralize_def Let_def quiet_def)
    qed (use True in \<open>simp add: neutralize_def Let_def\<close>)
  qed
qed

text \<open>The reference \<^verbatim>\<open>_neutralize\<close> returns is one of the store.\<close>

lemma neutralize_ref_lt:
  "neutralize E r s = ((r', is), s') \<Longrightarrow> r < length (heap s) \<Longrightarrow> r' < length (heap s')"
  by (auto simp: neutralize_def Let_def mint_cancel_flag_def split: if_splits option.splits)

lemma quiet_refcount: "quiet s (snd (incref E t x s))" "quiet s (snd (decref E t x s))"
  using emits_gen_le [OF refcount_emits]
  by (auto simp: quiet_def incref_def decref_def wf_state_def split: prod.splits)

lemma ok_refcount: "ok_step s (snd (incref E t x s))" "ok_step s (snd (decref E t x s))"
  by (simp_all add: quiet_refcount quiet_ok)

lemma ok_binding:
  assumes "\<And>r. wf_state s \<Longrightarrow> b_entry b = Some r \<Longrightarrow> r < length (heap s)"
  shows "ok_step s (s\<lparr>bindings := dict_set k b (bindings s)\<rparr>)"
  using assms by (intro quiet_ok) (auto simp: quiet_def wf_state_def intro!: binds_ok_set)

lemma ok_replace_binding:
  assumes "r < length (heap s)"
  shows "ok_step s (snd (replace_binding E k v rc b r s))"
proof -
  obtain is1 s1 where d: "(if rc \<and> b_state b = OWNED then decref E (v_type v) (OVar v) s else ([], s)) = (is1, s1)"
    by (metis surj_pair)
  then have q: "quiet s s1" using quiet_refcount(2) [of s E "v_type v" "OVar v"] by (auto split: if_splits)
  let ?b = "\<lparr>b_operand = v, b_type = v_type v, b_state = OWNED, b_entry = Some r\<rparr>"
  have s': "snd (replace_binding E k v rc b r s) =
      s1\<lparr>heap := (heap s1)[r := (entry_at s1 r)\<lparr>ep_cancelled := False\<rparr>],
         bindings := dict_set k ?b (bindings s1)\<rparr>"
    by (simp add: replace_binding_def d)
  have h: "heap s1 = heap s" using q by (simp add: quiet_def)
  have "ok_step s1 (snd (replace_binding E k v rc b r s))"
    unfolding s'
    by (rule ok_entry_update [where r = r and e = "(entry_at s1 r)\<lparr>ep_cancelled := False\<rparr>"])
      (use h assms in \<open>auto simp: wf_state_def intro!: binds_ok_set\<close>)
  with quiet_ok [OF q] show ?thesis by (rule ok_step_trans)
qed

subsection \<open>Bookkeeping operations\<close>

text \<open>Updates of fields the invariant does not look at.\<close>

lemma quiet_fields [simp]:
  "quiet s (s\<lparr>live := L\<rparr>)" "quiet s (s\<lparr>unchecked_results := U\<rparr>)" "quiet s (s\<lparr>narrowed := N\<rparr>)"
  "quiet s (s\<lparr>temp_states := T\<rparr>)" "quiet s (s\<lparr>prologue_instructions := P\<rparr>)"
  "quiet s (s\<lparr>possibly_retained := Q\<rparr>)" "quiet s (s\<lparr>reassigned_outside_init := Z\<rparr>)"
  "quiet s (s\<lparr>construction_self := cs\<rparr>)" "quiet s (s\<lparr>construction_required := cr\<rparr>)"
  "quiet s (s\<lparr>cancel_flags := cf\<rparr>)" "quiet s (s\<lparr>confinement_depths := cd\<rparr>)"
  "quiet s (s\<lparr>break_narrowed := bn\<rparr>)" "quiet s (s\<lparr>break_live := bl\<rparr>)"
  "quiet s (s\<lparr>any_shared_label_used := au\<rparr>)"
  by (simp_all add: quiet_def wf_state_def)

lemma quiet_trans:
  assumes "quiet a b" and "quiet b c"
  shows "quiet a c"
proof -
  have "wf_state a \<Longrightarrow> wf_state b" using quiet_ok [OF assms(1)] by (simp add: ok_step_def)
  with assms show ?thesis by (auto simp: quiet_def gen_le_def)
qed

lemma quiet_untrack_temp [simp]: "quiet s (untrack_temp x s)"
  by (simp add: untrack_temp_def split: option.splits operand.splits)

lemma quiet_borrowed [simp]: "quiet s (s\<lparr>bindings := dict_set k (borrowed_binding v) (bindings s)\<rparr>)"
  by (auto simp: quiet_def wf_state_def borrowed_binding_def intro!: binds_ok_set)

lemma quiet_no_entry [simp]:
  "b_entry b = None \<Longrightarrow> quiet s (s\<lparr>bindings := dict_set k b (bindings s)\<rparr>)"
  by (auto simp: quiet_def wf_state_def intro!: binds_ok_set)

lemma quiet_dict_pop [simp]: "quiet s (s\<lparr>bindings := dict_pop k (bindings s)\<rparr>)"
  by (auto simp: quiet_def wf_state_def intro!: binds_ok_pop)

lemma quiet_mark_live [simp]: "quiet s (mark_live n s)"
  by (simp add: mark_live_def)

lemma quiet_results [simp]: "quiet s (track_result n s)" "quiet s (clear_result n s)"
  by (simp_all add: track_result_def clear_result_def)

subsection \<open>Operations that change ownership\<close>

lemma ok_assign_source: "ok_step s (snd (assign_source E d x a s))"
  by (auto simp: assign_source_def Let_def quiet_ok ok_refcount split: prod.splits)
    (metis ok_refcount(1) snd_conv)+

lemma ok_assign_global: "ok_step s (snd (assign_global E d s))"
proof -
  let ?s = "s\<lparr>reassigned_outside_init := insert (v_oid d) (reassigned_outside_init s)\<rparr>"
  have "ok_step s ?s" by (simp add: quiet_ok)
  moreover have "ok_step ?s (snd (assign_global E d s))"
    by (simp add: assign_global_def Let_def split_beta ok_refcount)
  ultimately show ?thesis by (rule ok_step_trans)
qed

lemma ok_assign_local: "ok_step s (snd (assign_local E d s))"
proof (rule ok_stepI)
  assume wf: "wf_state s"
  show ?thesis
    using wf_entry_lt [OF wf]
    by (auto simp: assign_local_def ok_push ok_replace_binding split: option.splits)
qed

lemma ok_assign: "ok_step s (snd (assign E d x a t b s))"
proof -
  let ?s = "mark_live (v_stem d) s"
  let ?s1 = "if t \<and> is_result_type (v_type d) then track_result (v_stem d) ?s else clear_result (v_stem d) ?s"
  have 1: "ok_step s ?s" by (simp add: quiet_ok)
  have 2: "ok_step ?s ?s1" by (simp add: quiet_ok)
  let ?s2 = "snd (assign_source E d x a ?s1)"
  have 3: "ok_step ?s1 ?s2" by (rule ok_assign_source)
  have 4: "ok_step ?s2 (snd (if v_is_global d then assign_global E d ?s2 else assign_local E d ?s2))"
    by (simp add: ok_assign_global ok_assign_local)
  note ok = ok_step_trans [OF 1 ok_step_trans [OF 2]]
  have "snd (assign E d x a t b s) \<in> {?s, ?s1\<lparr>bindings := dict_set (v_stem d) (borrowed_binding d) (bindings ?s1)\<rparr>,
      ?s1, snd (if v_is_global d then assign_global E d ?s2 else assign_local E d ?s2)}"
    by (simp add: assign_def Let_def split_beta)
  then show ?thesis
    using 1 ok [OF ok_step_refl] ok [OF ok_step_trans [OF 3 4]] ok [OF quiet_ok [OF quiet_borrowed]]
    by auto
qed

lemma ok_assign_global_initializer: "ok_step s (snd (assign_global_initializer E d s))"
  by (simp add: assign_global_initializer_def split_beta ok_refcount)

lemma ok_attr_assign: "ok_step s (snd (attr_assign E a x al s))"
proof -
  let ?k = "self_key a"
  obtain is1 s1 where r: "(if \<not> has_rc (v_type a) then ([], s) else if al then incref E (v_type a) x s
      else ([], untrack_temp (Some x) s)) = (is1, s1)" by (metis surj_pair)
  have 1: "ok_step s s1"
    using r ok_refcount(1) [of s E "v_type a" x] quiet_ok [OF quiet_untrack_temp, of s "Some x"]
    by (auto split: if_splits)
  have "ok_step s1 (snd (attr_assign E a x al s))"
  proof (rule ok_stepI)
    assume "wf_state s1"
    then have lt: "q < length (heap s1)" if "dict_get (bindings s1) ?k = Some b" "b_entry b = Some q" for b q
      using that wf_entry_lt by blast
    show ?thesis
      using lt unfolding attr_assign_def Let_def r prod.case
      by (auto simp: ok_push quiet_ok split_beta intro: ok_replace_binding split: option.splits)
  qed
  with 1 show ?thesis by (rule ok_step_trans)
qed

lemma ok_field_value: "ok_step s (snd (field_value E t x al s))"
  by (simp add: field_value_def ok_refcount quiet_ok)

lemma ok_attr_replace: "ok_step s (snd (attr_replace E t x y al s))"
proof -
  let ?s1 = "snd (if al then incref E t y s else ([], untrack_temp (Some y) s))"
  have "ok_step s ?s1" by (simp add: ok_refcount quiet_ok)
  moreover have "ok_step ?s1 (snd (attr_replace E t x y al s))"
    by (simp add: attr_replace_def Let_def split_beta ok_refcount)
  ultimately show ?thesis by (rule ok_step_trans)
qed

lemma ok_set_moved:
  "(\<And>r. e = Some r \<Longrightarrow> r < length (heap s)) \<Longrightarrow> ok_step s (set_moved k b e s)"
  unfolding set_moved_def by (rule ok_binding) simp

lemma ok_neutralize_moved:
  assumes "r < length (heap s)" and "neutralize E r s = ((r', is), s1)"
  shows "ok_step s (set_moved k b (Some r') s1)"
proof -
  have "ok_step s s1" using ok_neutralize [OF assms(1), of E] assms(2) by simp
  also have "ok_step s1 (set_moved k b (Some r') s1)"
    using neutralize_ref_lt [OF assms(2,1)] by (auto intro: ok_set_moved)
  finally show ?thesis .
qed

lemma ok_move: "ok_step s (snd (move E x s))"
proof (rule ok_stepI)
  assume "wf_state s"
  note lt = wf_entry_lt [OF this]
  show ?thesis
    unfolding move_def
    by (auto simp: quiet_ok split: operand.splits option.splits prod.splits
        intro!: ok_set_moved intro: ok_neutralize_moved lt)
qed

lemma ok_manually_decreffed: "ok_step s (snd (manually_decreffed E x s))"
proof (rule ok_stepI)
  assume "wf_state s"
  note lt = wf_entry_lt [OF this]
  show ?thesis
    unfolding manually_decreffed_def
    by (auto simp: quiet_ok split: operand.splits option.splits prod.splits
        intro!: ok_set_moved intro: ok_neutralize_moved lt)
qed

lemma ok_disarm_defer: "r < length (heap s) \<Longrightarrow> ok_step s (snd (disarm_defer E r s))"
  using ok_neutralize [of r s E] by (simp add: disarm_defer_def split_beta)

lemma ok_deleted: "ok_step s (snd (deleted E v s))"
proof (rule ok_stepI)
  assume "wf_state s"
  note lt = wf_entry_lt [OF this]
  let ?s1 = "s\<lparr>live := live s - {v_stem v}, bindings := dict_pop (v_stem v) (bindings s)\<rparr>"
  have "quiet s ?s1" by (auto simp: quiet_def wf_state_def intro!: binds_ok_pop)
  note 1 = quiet_ok [OF this]
  have 2: "ok_step s (snd (neutralize E r s2))" if "quiet ?s1 s2" "r < length (heap s)" for s2 r
  proof -
    have "r < length (heap s2)" using that by (simp add: quiet_def)
    with 1 that(1) show ?thesis using ok_neutralize ok_step_trans quiet_ok by blast
  qed
  have 3: "quiet ?s1 (snd (decref E t (OVar v) ?s1))" for t by (rule quiet_refcount)
  show ?thesis
    using 1 2 [OF 3 lt] 2 [OF quiet_refl lt]
    by (auto simp: deleted_def Let_def split_beta split: option.splits)
qed

subsection \<open>Prologue, construction and temporaries\<close>

lemma ok_enter_self: "ok_step s (enter_self v m s)"
proof -
  let ?s = "s\<lparr>live := insert (v_stem v) (live s)\<rparr>"
  have "ok_step s ?s" by (simp add: quiet_ok)
  moreover have "ok_step ?s (enter_self v m s)"
    using quiet_ok [OF quiet_borrowed, of ?s "v_stem v" v] by (simp add: enter_self_def Let_def ok_push)
  ultimately show ?thesis by (rule ok_step_trans)
qed

lemma ok_enter_construction: "ok_step s (enter_construction v req s)"
proof -
  have "ok_step (enter_self v False s) ((enter_self v False s)\<lparr>construction_self := Some v\<rparr>)"
    by (simp add: quiet_ok)
  moreover have "ok_step ((enter_self v False s)\<lparr>construction_self := Some v\<rparr>) (enter_construction v req s)"
    by (simp add: quiet_ok enter_construction_def)
  ultimately show ?thesis using ok_enter_self ok_step_trans by blast
qed

lemma ok_declare_exception_bind: "ok_step s (declare_exception_bind v s)"
  using ok_step_trans [OF quiet_ok [OF quiet_mark_live] ok_push]
  by (simp add: declare_exception_bind_def Let_def quiet_ok)

lemma ok_delete_temp: "ok_step s (snd (delete_temp E t s))"
  using ok_step_trans [OF quiet_ok [OF quiet_fields(4)] ok_refcount(2)]
  by (simp add: delete_temp_def Let_def quiet_ok split: option.splits)

lemma ok_cancel_attr: "ok_step s (cancel_attr a s)"
proof (cases "case dict_get (bindings s) (self_key a) of Some b \<Rightarrow> b_entry b | None \<Rightarrow> None")
  case None
  then show ?thesis by (simp add: cancel_attr_def)
next
  case (Some r)
  then show ?thesis
    by (intro ok_entry_update [where r = r and e = "(entry_at s r)\<lparr>ep_cancelled := True\<rparr>"])
      (auto simp: cancel_attr_def wf_state_def)
qed

lemma ok_fold: "(\<And>x s. ok_step s (f x s)) \<Longrightarrow> ok_step s (fold f xs s)"
  by (induction xs arbitrary: s) (auto intro: ok_step_trans)

lemma ok_complete_construction: "ok_step s (snd (complete_construction s))"
  by (simp add: complete_construction_def ok_fold [OF ok_cancel_attr])

lemma ok_complete_base_construction: "ok_step s (snd (complete_base_construction as s))"
proof (induction as s rule: complete_base_construction.induct)
  case (2 attr attrs s)
  let ?s1 = "if has_rc (v_type attr) then snd (push attr (v_type attr) OWNED (self_key attr) True False s)
    else s\<lparr>bindings := dict_set (self_key attr) \<lparr>b_operand = attr, b_type = v_type attr,
                            b_state = OWNED, b_entry = None\<rparr> (bindings s)\<rparr>"
  have "ok_step s ?s1" by (simp add: ok_push quiet_ok)
  then have "ok_step s (?s1\<lparr>construction_required := construction_required ?s1 @ [attr]\<rparr>)"
    using ok_step_trans quiet_ok [OF quiet_fields(9)] by blast
  note step = ok_step_trans [OF this]
  show ?case
  proof (cases "v_unresolved attr \<and> is_rc (v_type attr)")
    case False
    from step [OF 2 [OF False refl refl]] False show ?thesis
      by (cases "has_rc (v_type attr)") (simp_all add: Let_def)
  qed simp
qed simp

lemma ok_enter_parameter: "ok_step s (enter_parameter E p s)"
proof -
  let ?v = "p_var p"
  let ?s = "s\<lparr>live := insert (v_stem ?v) (live s)\<rparr>"
  let ?s1 = "snd (incref E (v_type ?v) (OVar ?v) ?s)"
  let ?s2 = "?s1\<lparr>prologue_instructions := prologue_instructions ?s1 @ fst (incref E (v_type ?v) (OVar ?v) ?s)\<rparr>"
  have 0: "ok_step s ?s" by (simp add: quiet_ok)
  have "ok_step ?s ?s1" by (rule ok_refcount)
  also have "ok_step ?s1 ?s2" by (simp add: quiet_ok)
  also have "ok_step ?s2 (snd (push ?v (v_type ?v) OWNED (v_stem ?v) False False ?s2))" by (rule ok_push)
  finally have copy: "ok_step ?s (snd (push ?v (v_type ?v) OWNED (v_stem ?v) False False ?s2))" .
  have "ok_step ?s (enter_parameter E p s)"
    using copy quiet_ok [OF quiet_borrowed, of ?s "v_stem ?v" ?v] ok_push [where s = ?s]
    by (simp add: enter_parameter_def Let_def split_beta)
  with 0 show ?thesis by (rule ok_step_trans)
qed

lemma empty_state_wf: "wf_state (empty_state g n)"
  by (simp add: wf_state_def empty_state_def binds_ok_def)

lemma init_state_wf: "wf_state (init_state E ps g n)"
  using ok_fold [of "enter_parameter E" "empty_state g n" ps, OF ok_enter_parameter] empty_state_wf [of g n]
  by (simp add: ok_step_def init_state_def)

subsection \<open>Leaving scopes\<close>

lemma quiet_release_entry: "quiet s (snd (release_entry E e s))"
  by (auto simp: release_entry_def quiet_refcount split: option.splits)

lemma quiet_release_all: "quiet s (snd (release_all E rs s))"
proof (induction rs arbitrary: s)
  case (Cons r rs)
  have "quiet s (snd (release_entry E (entry_at s r) s))" by (rule quiet_release_entry)
  with Cons show ?case by (auto simp: Let_def split_beta intro: quiet_trans)
qed simp

lemma quiet_gen: "gen_le (gen s) g \<Longrightarrow> quiet s (s\<lparr>gen := g\<rparr>)"
  by (simp add: quiet_def wf_state_def)

lemma quiet_replay:
  assumes "\<And>g. gen_le g (snd (C g))"
  shows "quiet s (snd (replay E C r s))"
proof (cases "ep_flag (entry_at s r)")
  case None
  then show ?thesis by (simp add: replay_def quiet_release_entry)
next
  case (Some f)
  obtain skip g1 where l: "new_label ''defer_skip'' (gen s) = (skip, g1)" by (metis surj_pair)
  obtain ci cx g2 where c: "(if ep_is_err_only (entry_at s r) then C g1 else (([], OVar f), g1)) = ((ci, cx), g2)"
    by (metis surj_pair)
  have "gen_le (gen s) g1" using l by (auto simp: new_label_def gen_le_def)
  moreover have "gen_le g1 g2" using c assms [of g1] by (auto split: if_splits)
  ultimately have q: "quiet s (s\<lparr>gen := g2\<rparr>)" by (intro quiet_gen) (rule gen_le_trans)
  with quiet_trans [OF q quiet_release_entry] Some l c show ?thesis
    by (auto simp: replay_def Let_def split_beta)
qed

lemma quiet_replay_all:
  assumes "\<And>g. gen_le g (snd (C g))"
  shows "quiet s (snd (replay_all E C rs s))"
proof (induction rs arbitrary: s)
  case (Cons r rs)
  from quiet_trans [OF quiet_replay [OF assms] Cons] show ?case by (simp add: Let_def split_beta)
qed simp

lemma quiet_ladder:
  assumes "\<And>g. gen_le g (snd (C g))"
  shows "quiet s (snd (ladder E C rs s))"
proof (induction rs arbitrary: s)
  case (Cons r rs)
  let ?s1 = "snd (if \<not> ep_cancelled (entry_at s r) \<and> \<not> ep_is_construction_attr (entry_at s r)
    then replay E C r s else ([], s))"
  have "quiet s ?s1" using quiet_replay [OF assms] by simp
  from quiet_trans [OF this Cons] show ?case by (simp add: Let_def split_beta)
qed simp

lemma err_check_gen_le: "gen_le g (snd (build_is_err_check b f v g))"
  by (simp add: build_is_err_check_def new_temp_def gen_le_def)

lemma ok_return: "(\<And>g. gen_le g (snd (C g))) \<Longrightarrow> ok_step s (snd (cfg_return E C x s))"
  using ok_step_trans [OF quiet_ok [OF quiet_untrack_temp] quiet_ok [OF quiet_replay_all]]
  by (simp add: cfg_return_def Let_def)

lemma ok_unwind: "ok_step s (snd (unwind_to E sn s))" "ok_step s (snd (unwind_confined E fl x s))"
  by (simp_all add: unwind_to_def unwind_confined_def quiet_ok quiet_release_all)

text \<open>A captured label is marked, nothing else changes.\<close>

lemma ok_captured:
  assumes "heap s' = heap s" and "stack s' = stack s" and "captured_labels s \<subseteq> captured_labels s'"
    and "gen s' = gen s" and "scopes_le (inline_scopes s) (inline_scopes s')" and "bindings s' = bindings s"
  shows "ok_step s s'"
  using assms by (auto simp: ok_step_def wf_state_def evolves_def entry_at_def)

lemma ok_capture_label: "ok_step s (capture_label m l s)"
  by (rule ok_captured) (auto simp: capture_label_def)

lemma scopes_le_captured: "scopes_le (sc # rest) (sc\<lparr>captured := True\<rparr> # rest)"
  unfolding scopes_le_def
  by (rule exI [of _ "[]"], rule exI [of _ "sc\<lparr>captured := True\<rparr> # rest"]) (simp add: list_all2_refl)

lemma scopes_le_merge_captured: "scopes_le (sc # rest) (sc\<lparr>merge_captured := True\<rparr> # rest)"
  unfolding scopes_le_def
  by (rule exI [of _ "[]"], rule exI [of _ "sc\<lparr>merge_captured := True\<rparr> # rest"]) (simp add: list_all2_refl)

lemma ok_capture_scope: "ok_step s (capture_scope m s)"
  by (rule ok_captured) (auto simp: capture_scope_def scopes_le_captured split: list.splits)

lemma ok_mark_inline_scope_captured: "ok_step s (snd (mark_inline_scope_captured s))"
  by (rule ok_captured)
    (auto simp: mark_inline_scope_captured_def scopes_le_merge_captured split: list.splits)

lemma ok_label_walk: "ok_step s (snd (label_walk fl m xs s))"
  by (induction fl m xs s rule: label_walk.induct)
    (auto simp: ok_capture_scope ok_capture_label split: list.splits option.splits)

lemma ok_current_epilogue_label: "ok_step s (snd (current_epilogue_label x m s))"
  by (auto simp: current_epilogue_label_def Let_def ok_label_walk)

lemma ok_construction_err: "ok_step s (snd (current_epilogue_label_for_construction_err E x s))"
proof -
  have "ok_step s (snd (case c of None \<Rightarrow> (case inline_scopes s1 of
            sc # _ \<Rightarrow> ((Some (scope_label sc), is), capture_scope True s1) | [] \<Rightarrow> ((None, is), s1))
          | Some r \<Rightarrow> ((Some (ep_name (entry_at s1 r)), is), capture_label True (ep_name (entry_at s1 r)) s1)))"
    if "release_all E as s = (is, s1)" for as c "is" s1
  proof -
    have "ok_step s s1" using that quiet_ok [OF quiet_release_all, of s E as] by simp
    then show ?thesis
      using ok_step_trans ok_capture_scope ok_capture_label by (auto split: option.splits list.splits)
  qed
  then show ?thesis
    by (auto simp: current_epilogue_label_for_construction_err_def Let_def split_beta split: option.splits)
qed

subsection \<open>Control flow\<close>

lemma ok_control:
  "ok_step s (enter_loop d s)" "ok_step s (snd (exit_loop s))" "ok_step s (enter_branch d s)"
  "ok_step s (snd (exit_branch s))" "ok_step s (record_break_narrowed s)" "ok_step s (record_break_live s)"
  "ok_step s (merge_loop_exits nn bn nl bl s)" "ok_step s (snd (check_loop_exit_unchecked_results er s))"
  "ok_step s (snd (check_unchecked_results x s))"
  by (rule quiet_ok, (auto simp: quiet_def wf_state_def enter_loop_def exit_loop_def enter_branch_def
      exit_branch_def record_break_narrowed_def record_break_live_def merge_loop_exits_def Let_def
      check_loop_exit_unchecked_results_def check_unchecked_results_def split: list.splits)[1])+

lemma ok_back_edge_names: "ok_step s (snd (back_edge_names E entry names s))"
proof (induction names arbitrary: s)
  case (Cons n ns)
  have step: "ok_step s (snd (case p of (is1, s1) \<Rightarrow> (case back_edge_names E entry ns s1 of
      (Inl e, s2) \<Rightarrow> (Inl e, s2) | (Inr is2, s2) \<Rightarrow> (Inr (is1 @ is2), s2))))"
    if "ok_step s (snd p)" for p :: "instr list \<times> cfg_state"
    using that ok_step_trans [OF _ Cons [of "snd p"]] by (auto split: prod.splits sum.splits)
  from Cons [of s] step ok_refcount(2) [of s E] show ?case
    by (auto simp: Let_def split: option.splits)
qed simp

lemma ok_loop_back_edge: "ok_step s (snd (loop_back_edge E names entry er s))"
  using ok_back_edge_names [of s E entry names]
  by (auto simp: loop_back_edge_def split: prod.splits sum.splits option.splits)

lemma ok_promote: "ok_step s (snd (promote_borrowed_for_loop E n s))"
  using ok_step_trans [OF ok_refcount(1) ok_push]
  by (auto simp: promote_borrowed_for_loop_def Let_def split_beta split: option.splits)

lemma ok_reestablish:
  assumes "\<And>r. b_entry b = Some r \<Longrightarrow> r < length (heap s)"
  shows "ok_step s (reestablish n b al s)"
proof -
  have "ok_step s (s\<lparr>bindings := dict_set n b (bindings s)\<rparr>)" by (rule ok_binding) (rule assms)
  moreover have "quiet s (s\<lparr>bindings := dict_set n (b\<lparr>b_entry := None\<rparr>) (bindings s)\<rparr>)" by simp
  ultimately show ?thesis by (simp add: reestablish_def ok_push quiet_ok)
qed

lemma ok_neutralize_stale:
  "(\<And>r'. r = Some r' \<Longrightarrow> r' < length (heap s)) \<Longrightarrow> ok_step s (snd (neutralize_stale E r s))"
  using ok_neutralize by (auto simp: neutralize_stale_def split_beta split: option.splits)

lemma stale_entry_lt:
  "wf_state s \<Longrightarrow> stale_entry entry n b al s = Some r \<Longrightarrow> r < length (heap s)"
  by (auto simp: stale_entry_def on_stack_def wf_stack_lt split: if_splits option.splits)

lemma evolves_heap: "evolves s s' \<Longrightarrow> length (heap s) \<le> length (heap s')"
  by (simp add: evolves_def)

text \<open>The two steps \<^verbatim>\<open>merge_if\<close> makes for a surviving name.\<close>

lemma ok_merge_step:
  assumes "\<And>r. b_entry b = Some r \<Longrightarrow> r < length (heap s)"
  shows "ok_step s (reestablish n b al (snd (neutralize_stale E (stale_entry entry n b' al' s) s)))"
proof (rule ok_stepI)
  assume wf: "wf_state s"
  let ?s1 = "snd (neutralize_stale E (stale_entry entry n b' al' s) s)"
  have 1: "ok_step s ?s1" by (rule ok_neutralize_stale) (rule stale_entry_lt [OF wf])
  with wf have "length (heap s) \<le> length (heap ?s1)" by (simp add: ok_step_def evolves_heap)
  with assms have "r < length (heap ?s1)" if "b_entry b = Some r" for r using that less_le_trans by blast
  then have "ok_step ?s1 (reestablish n b al ?s1)" by (rule ok_reestablish)
  with 1 show ?thesis by (rule ok_step_trans)
qed

lemma ok_merge_survivor: "binds_ok bs (length (heap s)) \<Longrightarrow> ok_step s (snd (merge_survivor E entry bs s))"
proof (induction bs arbitrary: s)
  case (Cons x bs)
  obtain n b where x: "x = (n, b)" by (cases x)
  let ?al = "survivor_already_live entry n b s"
  let ?s1 = "reestablish n b ?al (snd (neutralize_stale E (stale_entry entry n b ?al s) s))"
  have lt: "r < length (heap s)" if "b_entry b = Some r" for r
    using Cons.prems that by (auto simp: x binds_ok_def)
  show ?case
  proof (rule ok_stepI)
    assume wf: "wf_state s"
    have 1: "ok_step s ?s1" using lt by (rule ok_merge_step)
    then have "length (heap s) \<le> length (heap ?s1)" using wf by (simp add: ok_step_def evolves_heap)
    then have "binds_ok bs (length (heap ?s1))"
      using Cons.prems by (auto simp: binds_ok_def split: option.splits)
    from ok_step_trans [OF 1 Cons.IH [OF this]] show ?thesis by (simp add: x Let_def split_beta)
  qed
qed simp

lemma ok_drop_deleted: "binds_ok ps (length (heap s)) \<Longrightarrow> ok_step s (snd (drop_deleted E surv ps s))"
proof (induction ps arbitrary: s)
  case (Cons x ps)
  obtain n b where x: "x = (n, b)" by (cases x)
  let ?step = "if dict_has surv n then ([], s) else case (b_entry b, dict_get (bindings s) n) of
      (Some r, Some current) \<Rightarrow> if b_entry current = Some r
        then (let ((_, is), s') = neutralize E r s in (is, s'\<lparr>bindings := dict_pop n (bindings s')\<rparr>))
        else ([], s)
    | _ \<Rightarrow> ([], s)"
  have lt: "r < length (heap s)" if "b_entry b = Some r" for r
    using Cons.prems that by (auto simp: x binds_ok_def)
  have n: "ok_step s ((snd (neutralize E r s))\<lparr>bindings := dict_pop n (bindings (snd (neutralize E r s)))\<rparr>)"
    if "b_entry b = Some r" for r
    using ok_step_trans [OF ok_neutralize [OF lt [OF that]] quiet_ok [OF quiet_dict_pop]] .
  have 1: "ok_step s (snd ?step)"
    using n by (auto simp: Let_def split_beta split: option.splits)
  show ?case
  proof (rule ok_stepI)
    assume wf: "wf_state s"
    have "length (heap s) \<le> length (heap (snd ?step))" using wf 1 by (simp add: ok_step_def evolves_heap)
    then have "binds_ok ps (length (heap (snd ?step)))"
      using Cons.prems by (auto simp: binds_ok_def split: option.splits)
    from ok_step_trans [OF 1 Cons.IH [OF this]] show ?thesis
      unfolding x drop_deleted.simps by (simp only: Let_def split_beta snd_conv)
  qed
qed simp

lemma ok_merge_terminating:
  assumes "\<And>be. survivor = Some be \<Longrightarrow> binds_ok (be_bindings be) (length (heap s))"
    and "binds_ok entry (length (heap s))"
  shows "ok_step s (snd (merge_terminating E entry survivor s))"
proof (cases survivor)
  case None
  then show ?thesis
    by (auto simp: merge_terminating_def quiet_def wf_state_def intro!: quiet_ok)
next
  case (Some be)
  let ?s1 = "snd (merge_survivor E entry (be_bindings be) s)"
  let ?s2 = "snd (drop_deleted E (be_bindings be) entry ?s1)"
  have 1: "ok_step s ?s1" using ok_merge_survivor assms(1) [OF Some] .
  show ?thesis
  proof (rule ok_stepI)
    assume "wf_state s"
    with 1 have "length (heap s) \<le> length (heap ?s1)" by (simp add: ok_step_def evolves_heap)
    then have 2: "ok_step ?s1 ?s2" by (rule ok_drop_deleted [OF binds_ok_mono [OF assms(2)]])
    have "ok_step ?s2 (snd (merge_terminating E entry survivor s))"
      by (rule quiet_ok) (simp add: Some merge_terminating_def Let_def split_beta quiet_def wf_state_def)
    with 1 2 show ?thesis using ok_step_trans by blast
  qed
qed

lemma ok_reconcile: "ok_step s (snd (reconcile_owned_borrowed E n tb fb s))"
proof -
  have "ok_step s (s2\<lparr>heap := (heap s2)[r := (entry_at s2 r)\<lparr>ep_flag := Some flag\<rparr>]\<rparr>)"
    if m: "mint_cancel_flag E s = (flag, s1)" and p: "push v t st k False False s1 = (r, s2)"
    for v t st k flag s1 r s2
  proof -
    have "ok_step s s1" using quiet_ok [OF ok_mint, of s E] m by simp
    moreover have "ok_step s1 s2" using ok_push [of s1 v t st k False False] p by simp
    moreover have "ok_step s2 (s2\<lparr>heap := (heap s2)[r := (entry_at s2 r)\<lparr>ep_flag := Some flag\<rparr>]\<rparr>)"
      by (rule ok_entry_update [where r = r and e = "(entry_at s2 r)\<lparr>ep_flag := Some flag\<rparr>"])
        (auto simp: wf_state_def)
    ultimately show ?thesis using ok_step_trans by blast
  qed
  from this [OF surjective_pairing surjective_pairing] show ?thesis
    by (auto simp: reconcile_owned_borrowed_def Let_def split_beta)
qed

lemma ok_merge_name:
  assumes "binds_ok te (length (heap s))"
  shows "ok_step s (snd (merge_name E entry te fe n s))"
proof -
  have d: "ok_step s (snd (if b_state b = OWNED then decref E (b_type b) (OVar (b_operand b)) s else ([], s)))" for b
    by (simp add: ok_refcount)
  show ?thesis
    using ok_merge_step [OF binds_ok_get [OF assms]] ok_reconcile d
    by (auto simp: merge_name_def Let_def split_beta ok_refcount split: option.splits)
qed

lemma ok_merge_names:
  "binds_ok te (length (heap s)) \<Longrightarrow> ok_step s (snd (merge_names E entry te fe ns s))"
proof (induction ns arbitrary: s)
  case (Cons n ns)
  obtain res s1 where 1: "merge_name E entry te fe n s = (res, s1)" by (metis surj_pair)
  have ok1: "ok_step s s1" using ok_merge_name [OF Cons.prems, of E entry fe n] 1 by simp
  show ?case
  proof (rule ok_stepI)
    assume "wf_state s"
    with ok1 have "length (heap s) \<le> length (heap s1)" by (simp add: ok_step_def evolves_heap)
    from ok_step_trans [OF ok1 Cons.IH [OF binds_ok_mono [OF Cons.prems this]]] ok1 show ?thesis
      by (auto simp: 1 split: sum.splits prod.splits)
  qed
qed simp

lemma ok_merge_if:
  assumes "binds_ok entry (length (heap s))" and "binds_ok (be_bindings te) (length (heap s))"
    and "binds_ok (be_bindings fe) (length (heap s))"
  shows "ok_step s (snd (merge_if E names rnames entry er te fe s))"
proof -
  have T: "ok_step s (snd (merge_terminating E entry sv s))" if "sv \<in> {None, Some te, Some fe}" for sv
    by (rule ok_merge_terminating) (use that assms in auto)
  obtain res s1 where 1: "merge_names E entry (be_bindings te) (be_bindings fe) names s = (res, s1)"
    by (metis surj_pair)
  have ok1: "ok_step s s1" using ok_merge_names [OF assms(2), of E entry "be_bindings fe" names] 1 by simp
  obtain res2 s2 where 2: "merge_results rnames er (be_results te) (be_results fe) s1 = (res2, s2)"
    by (metis surj_pair)
  have "quiet s1 s2" using 2 by (auto simp: merge_results_def split: option.splits)
  then have ok2: "ok_step s s2" using ok1 ok_step_trans quiet_ok by blast
  have "quiet s2 (merge_live_soft a b (merge_narrowed_soft c d s2))" for a b c d
    by (simp add: merge_live_soft_def merge_narrowed_soft_def quiet_def wf_state_def)
  then have "ok_step s (merge_live_soft a b (merge_narrowed_soft c d s2))" for a b c d
    using ok2 ok_step_trans quiet_ok by blast
  with T ok1 ok2 1 2 show ?thesis
    by (auto simp: merge_if_def Let_def split_beta split: sum.splits)
qed

subsection \<open>Returning to a snapshot\<close>

lemma length_swap_back [simp]: "length (swap_back keep os xs) = length xs"
  by (induction keep os xs rule: swap_back.induct) auto

lemma swap_back_nth:
  "i < length xs \<Longrightarrow> swap_back keep os xs ! i = (if i < length os \<and> \<not> keep (xs ! i) then os ! i else xs ! i)"
proof (induction keep os xs arbitrary: i rule: swap_back.induct)
  case (1 keep orig origs x xs)
  then show ?case by (cases i) auto
qed auto

lemma restore_stack:
  assumes "evolves s0 s"
  shows "fst (restore (take_snapshot s0) s) = Inr ()"
    and "stack (snd (restore (take_snapshot s0) s)) =
      (let slots = swap_back (\<lambda>r. is_flag_guarded (entry_at s r)) (stack s0) (stack s) in
       take (length (stack s0)) slots @ filter (survives_restore s) (drop (length (stack s0)) slots))"
    and "heap (snd (restore (take_snapshot s0) s)) = heap s" and "gen (snd (restore (take_snapshot s0) s)) = gen s"
    and "captured_labels (snd (restore (take_snapshot s0) s)) = captured_labels s"
    and "inline_scopes (snd (restore (take_snapshot s0) s)) = inline_scopes s"
    and "bindings (snd (restore (take_snapshot s0) s)) = bindings s0"
  using assms by (simp_all add: restore_def take_snapshot_def restore_sets_def evolves_def Let_def)

text \<open>Slot by slot, the restored stack names the entries the present stack names.\<close>

lemma restore_slots:
  assumes "evolves s0 s" and "wf_state s0" and "i < length (stack s)"
  shows "static (entry_at s (swap_back keep (stack s0) (stack s) ! i)) = static (entry_at s (stack s ! i))"
  using assms by (auto simp: swap_back_nth evolves_def wf_stack_lt)

lemma map_static_swap_back:
  assumes "evolves s0 s" and "wf_state s0"
  shows "map (\<lambda>r. static (entry_at s r)) (swap_back keep (stack s0) (stack s)) =
    map (\<lambda>r. static (entry_at s r)) (stack s)"
  by (rule nth_equalityI) (auto simp: restore_slots [OF assms])

lemma distinct_map_append_filter: "distinct (map f (xs @ ys)) \<Longrightarrow> distinct (map f (xs @ filter P ys))"
  by (auto simp: distinct_map_filter)

lemma restore_evolves:
  assumes "evolves s0 s" and "wf_state s0" and "wf_state s"
  shows "wf_state (snd (restore (take_snapshot s0) s))" and "evolves s0 (snd (restore (take_snapshot s0) s))"
proof -
  let ?s' = "snd (restore (take_snapshot s0) s)"
  let ?slots = "swap_back (\<lambda>r. is_flag_guarded (entry_at s r)) (stack s0) (stack s)"
  let ?n = "length (stack s0)"
  note R = restore_stack [OF assms(1)]
  have ent: "entry_at ?s' = entry_at s" by (rule ext) (simp add: entry_at_def R(3))
  have st: "stack ?s' = take ?n ?slots @ filter (survives_restore s) (drop ?n ?slots)"
    using R(2) by (simp add: Let_def)
  have "map ep_name (map (\<lambda>r. static (entry_at s r)) ?slots) =
      map ep_name (map (\<lambda>r. static (entry_at s r)) (stack s))"
    by (simp only: map_static_swap_back [OF assms(1,2)])
  then have names: "map (\<lambda>r. ep_name (entry_at s r)) ?slots = map (\<lambda>r. ep_name (entry_at s r)) (stack s)"
    by (simp add: comp_def)
  then have d: "distinct (map (\<lambda>r. ep_name (entry_at s r)) ?slots)"
    using assms(3) by (simp add: wf_state_def)
  have "distinct (map (\<lambda>r. ep_name (entry_at s r)) (stack ?s'))"
    unfolding st by (rule distinct_map_append_filter) (simp add: d)
  moreover have "set ?slots \<subseteq> set (stack s0) \<union> set (stack s)"
  proof
    fix r assume "r \<in> set ?slots"
    then obtain i where "i < length (stack s)" "r = ?slots ! i" by (metis in_set_conv_nth length_swap_back)
    then show "r \<in> set (stack s0) \<union> set (stack s)" by (auto simp: swap_back_nth)
  qed
  then have lt: "r < length (heap s)" if "r \<in> set ?slots" for r
    using that wf_stack_lt [OF assms(2), of r] wf_stack_lt [OF assms(3), of r] evolves_heap [OF assms(1)]
    by (meson UnE less_le_trans subsetD)
  have "r < length (heap s)" if "r \<in> set (stack ?s')" for r
    using that lt unfolding st by (auto dest: in_set_takeD in_set_dropD)
  moreover have "binds_ok (bindings s0) (length (heap s))"
    using assms(2) evolves_heap [OF assms(1)] by (auto simp: wf_state_def elim: binds_ok_mono)
  ultimately show "wf_state ?s'" using assms(3) by (simp add: wf_state_def R ent)
  have "static (entry_at s (stack ?s' ! i)) = static (entry_at s0 (stack s0 ! i))" if "i < ?n" for i
  proof -
    have "stack ?s' ! i = ?slots ! i" "i < length (stack s)"
      using that assms(1) unfolding st by (simp_all add: nth_append evolves_def)
    with restore_slots [OF assms(1,2)] that assms(1) show ?thesis by (simp add: evolves_def)
  qed
  moreover have "?n \<le> length (stack ?s')" using assms(1) unfolding st by (simp add: evolves_def)
  ultimately show "evolves s0 ?s'" using assms(1) by (simp add: evolves_def R ent)
qed

lemma reset_entries:
  "heap (fold reset_entry slots s) = fold (\<lambda>(r, c, f) h. h[r := (h ! r)\<lparr>ep_cancelled := c, ep_flag := f\<rparr>]) slots (heap s)
   \<and> stack (fold reset_entry slots s) = stack s \<and> gen (fold reset_entry slots s) = gen s \<and>
   captured_labels (fold reset_entry slots s) = captured_labels s \<and>
   inline_scopes (fold reset_entry slots s) = inline_scopes s \<and>
   bindings (fold reset_entry slots s) = bindings s \<and> live (fold reset_entry slots s) = live s \<and>
   narrowed (fold reset_entry slots s) = narrowed s \<and>
   unchecked_results (fold reset_entry slots s) = unchecked_results s"
  by (induction slots arbitrary: s) (auto simp: reset_entry_def entry_at_def)

lemma ok_reset_entries: "ok_step s (fold reset_entry slots s)"
proof (rule ok_fold)
  show "ok_step s (reset_entry x s)" for x s
    by (cases x) (auto simp: reset_entry_def wf_state_def intro!: ok_entry_update simp: static_def)
qed

lemma swap_back_all: "length os \<le> length xs \<Longrightarrow> swap_back (\<lambda>r. False) os xs = os @ drop (length os) xs"
  by (induction "\<lambda>r :: 'a. False" os xs rule: swap_back.induct) auto

text \<open>
  \<^verbatim>\<open>hard_restore\<close> brings back the stack, the sets and the entries' own cancellation and flags.
\<close>

lemma hard_restore_fields:
  assumes "evolves s0 s"
  defines "s' \<equiv> snd (hard_restore (take_snapshot s0) s)"
  shows "fst (hard_restore (take_snapshot s0) s) = Inr ()" and "stack s' = stack s0"
    and "bindings s' = bindings s0" and "live s' = live s0" and "narrowed s' = narrowed s0"
    and "unchecked_results s' = unchecked_results s0" and "gen s' = gen s"
    and "captured_labels s' = captured_labels s" and "inline_scopes s' = inline_scopes s"
    and "heap s' = fold (\<lambda>(r, c, f) h. h[r := (h ! r)\<lparr>ep_cancelled := c, ep_flag := f\<rparr>])
      (map (\<lambda>r. (r, ep_cancelled (entry_at s0 r), ep_flag (entry_at s0 r))) (stack s0)) (heap s)"
proof -
  have le: "length (stack s0) \<le> length (stack s)" using assms(1) by (simp add: evolves_def)
  have z: "zip (stack s0) (zip (map (\<lambda>r. ep_cancelled (entry_at s0 r)) (stack s0))
      (map (\<lambda>r. ep_flag (entry_at s0 r)) (stack s0))) =
    map (\<lambda>r. (r, ep_cancelled (entry_at s0 r), ep_flag (entry_at s0 r))) (stack s0)"
    by (rule nth_equalityI) auto
  show "fst (hard_restore (take_snapshot s0) s) = Inr ()" "stack s' = stack s0"
    "bindings s' = bindings s0" "live s' = live s0" "narrowed s' = narrowed s0"
    "unchecked_results s' = unchecked_results s0" "gen s' = gen s"
    "captured_labels s' = captured_labels s" "inline_scopes s' = inline_scopes s"
    "heap s' = fold (\<lambda>(r, c, f) h. h[r := (h ! r)\<lparr>ep_cancelled := c, ep_flag := f\<rparr>])
      (map (\<lambda>r. (r, ep_cancelled (entry_at s0 r), ep_flag (entry_at s0 r))) (stack s0)) (heap s)"
    using le unfolding s'_def
    by (simp_all add: hard_restore_def take_snapshot_def z Let_def reset_entries restore_sets_def swap_back_all
        comp_def)
qed

lemma hard_restore_evolves:
  assumes "evolves s0 s" and "wf_state s0" and "wf_state s"
  shows "wf_state (snd (hard_restore (take_snapshot s0) s))"
    and "evolves s0 (snd (hard_restore (take_snapshot s0) s))"
proof -
  let ?s' = "snd (hard_restore (take_snapshot s0) s)"
  let ?slots = "map (\<lambda>r. (r, ep_cancelled (entry_at s0 r), ep_flag (entry_at s0 r))) (stack s0)"
  let ?t = "fold reset_entry ?slots s"
  note H = hard_restore_fields [OF assms(1)]
  have heap: "heap ?s' = heap ?t" by (simp add: H(10) reset_entries)
  have t: "wf_state ?t" "evolves s ?t" using ok_reset_entries [of s ?slots] assms(3) by (auto simp: ok_step_def)
  have ent: "entry_at ?s' = entry_at ?t" by (rule ext) (simp add: entry_at_def heap)
  have st: "static (entry_at ?s' r) = static (entry_at s0 r)" if "r < length (heap s0)" for r
    using that assms(1) t(2) ent by (simp add: evolves_def)
  have "map ep_name (map (\<lambda>r. static (entry_at ?s' r)) (stack s0)) =
      map ep_name (map (\<lambda>r. static (entry_at s0 r)) (stack s0))"
    using st wf_stack_lt [OF assms(2)] by (intro arg_cong [where f = "map ep_name"] map_cong) auto
  then have "map (\<lambda>r. ep_name (entry_at ?s' r)) (stack s0) = map (\<lambda>r. ep_name (entry_at s0 r)) (stack s0)"
    by (simp add: comp_def)
  then have "distinct (map (\<lambda>r. ep_name (entry_at ?s' r)) (stack s0))"
    using assms(2) by (metis wf_state_def)
  moreover have le: "length (heap s0) \<le> length (heap ?s')"
    using evolves_heap [OF assms(1)] evolves_heap [OF t(2)] heap by simp
  moreover have "binds_ok (bindings s0) (length (heap ?s'))" "\<forall>r\<in>set (stack s0). r < length (heap ?s')"
    using le assms(2) by (auto simp: wf_state_def elim: binds_ok_mono)
  moreover have "gen ?t = gen s" by (simp add: reset_entries)
  ultimately show "wf_state ?s'" using t(1) H heap by (simp add: wf_state_def)
  show "evolves s0 ?s'" using st le wf_stack_lt [OF assms(2)] H assms(1) by (simp add: evolves_def)
qed

end
