(* ===== verification/Cfg_Run.thy ===== *)
theory Cfg_Run
  imports Cfg_Wf
begin

text \<open>
  Lowering one function as a sequence of calls to the ownership state machine: the contract of an
  operation as a locale with an interpretation per operation of \<^verbatim>\<open>CFGState\<close>, the step relation
  of a lowering run (operations, committed jumps, snapshots, restores, retried loops and inline
  splices), and what holds in every run: the state stays well formed, and every committed jump finds
  its label in the code that is finally emitted.
\<close>

subsection \<open>The contract of an operation\<close>

locale cfg_operation =
  fixes f :: "cfg_state \<Rightarrow> cfg_state"
  assumes keeps_wf: "wf_state s \<Longrightarrow> wf_state (f s)"
    and extends: "wf_state s \<Longrightarrow> evolves s (f s)"
begin

lemma step: "ok_step s (f s)"
  using keeps_wf extends by (simp add: ok_step_def)

lemma snapshot_stays_valid: "wf_state s \<Longrightarrow> evolves s0 s \<Longrightarrow> evolves s0 (f s)"
  using extends evolves_trans by blast

lemma iterate: "wf_state s \<Longrightarrow> wf_state ((f ^^ n) s) \<and> evolves s ((f ^^ n) s)"
  by (induction n) (auto intro: keeps_wf evolves_trans extends)

lemma restore_succeeds:
  "wf_state s \<Longrightarrow> fst (restore (take_snapshot s) (f s)) = Inr () \<and>
     wf_state (snd (restore (take_snapshot s) (f s))) \<and> bindings (snd (restore (take_snapshot s) (f s))) = bindings s"
  using restore_stack [OF extends] restore_evolves(1) [OF extends] keeps_wf by blast

end

text \<open>A stronger contract: the operation does not touch the entries at all.\<close>

locale quiet_operation =
  fixes f :: "cfg_state \<Rightarrow> cfg_state"
  assumes is_quiet: "quiet s (f s)"
begin

lemma ladder_same: "ladder_events R ce err (f s) (rev (stack (f s))) \<rho> = ladder_events R ce err s (rev (stack s)) \<rho>"
  using is_quiet [of s] by (simp add: quiet_def ladder_events_def entry_at_def)

lemma live_entries_same: "has_live_entry x (f s) = has_live_entry x s"
  using is_quiet [of s] by (simp add: quiet_def has_live_entry_def entry_at_def)

end

sublocale quiet_operation \<subseteq> cfg_operation f
  using quiet_ok [OF is_quiet] by unfold_locales (auto simp: ok_step_def)

lemma cfg_operationI: "(\<And>s. ok_step s (f s)) \<Longrightarrow> cfg_operation f"
  by unfold_locales (auto simp: ok_step_def)

interpretation incref_op: quiet_operation "\<lambda>s. snd (incref E t x s)" for E t x
  by unfold_locales (rule quiet_refcount)

interpretation decref_op: quiet_operation "\<lambda>s. snd (decref E t x s)" for E t x
  by unfold_locales (rule quiet_refcount)

interpretation untrack_temp_op: quiet_operation "untrack_temp x" for x
  by unfold_locales simp

interpretation unwind_to_op: quiet_operation "\<lambda>s. snd (unwind_to E sn s)" for E sn
  by unfold_locales (simp add: unwind_to_def quiet_release_all)

interpretation unwind_confined_op: quiet_operation "\<lambda>s. snd (unwind_confined E fl x s)" for E fl x
  by unfold_locales (simp add: unwind_confined_def quiet_release_all)

interpretation check_unchecked_op: quiet_operation "\<lambda>s. snd (check_unchecked_results x s)" for x
  by unfold_locales (auto simp: check_unchecked_results_def Let_def quiet_def wf_state_def)

interpretation merge_loop_exits_op: quiet_operation "merge_loop_exits nn bn nl bl" for nn bn nl bl
  by unfold_locales (auto simp: merge_loop_exits_def Let_def quiet_def wf_state_def)

interpretation assign_op: cfg_operation "\<lambda>s. snd (assign E d x a t b s)" for E d x a t b
  by (rule cfg_operationI) (rule ok_assign)

interpretation attr_assign_op: cfg_operation "\<lambda>s. snd (attr_assign E v x a s)" for E v x a
  by (rule cfg_operationI) (rule ok_attr_assign)

interpretation move_op: cfg_operation "\<lambda>s. snd (move E x s)" for E x
  by (rule cfg_operationI) (rule ok_move)

interpretation deleted_op: cfg_operation "\<lambda>s. snd (deleted E v s)" for E v
  by (rule cfg_operationI) (rule ok_deleted)

interpretation manually_decreffed_op: cfg_operation "\<lambda>s. snd (manually_decreffed E x s)" for E x
  by (rule cfg_operationI) (rule ok_manually_decreffed)

interpretation push_defer_op: cfg_operation "\<lambda>s. snd (push_defer is fl eo s)" for "is" fl eo
  by (rule cfg_operationI) (rule ok_push_defer)

interpretation enter_parameter_op: cfg_operation "enter_parameter E p" for E p
  by (rule cfg_operationI) (rule ok_enter_parameter)

interpretation complete_construction_op: cfg_operation "\<lambda>s. snd (complete_construction s)"
  by (rule cfg_operationI) (rule ok_complete_construction)

interpretation promote_op: cfg_operation "\<lambda>s. snd (promote_borrowed_for_loop E n s)" for E n
  by (rule cfg_operationI) (rule ok_promote)

interpretation label_op: cfg_operation "\<lambda>s. snd (current_epilogue_label x m s)" for x m
  by (rule cfg_operationI) (rule ok_current_epilogue_label)

interpretation loop_back_edge_op: cfg_operation "\<lambda>s. snd (loop_back_edge E ns en er s)" for E ns en er
  by (rule cfg_operationI) (rule ok_loop_back_edge)

subsection \<open>One call of the state machine\<close>

text \<open>The calls that leave the unchecked results alone.\<close>

inductive plain_op :: "cenv \<Rightarrow> cfg_state \<Rightarrow> cfg_state \<Rightarrow> bool" for E where
  op_assign_global_initializer: "plain_op E s (snd (assign_global_initializer E d s))"
| op_attr_assign: "plain_op E s (snd (attr_assign E v x a s))"
| op_attr_replace: "plain_op E s (snd (attr_replace E t x y a s))"
| op_field_value: "plain_op E s (snd (field_value E t x a s))"
| op_move: "plain_op E s (snd (move E x s))"
| op_manually_decreffed: "plain_op E s (snd (manually_decreffed E x s))"
| op_incref: "plain_op E s (snd (incref E t x s))"
| op_decref: "plain_op E s (snd (decref E t x s))"
| op_push_defer: "plain_op E s (snd (push_defer is fl eo s))"
| op_disarm_defer: "r < length (heap s) \<Longrightarrow> plain_op E s (snd (disarm_defer E r s))"
| op_enter_self: "plain_op E s (enter_self v m s)"
| op_enter_construction: "plain_op E s (enter_construction v req s)"
| op_complete_construction: "plain_op E s (snd (complete_construction s))"
| op_complete_base_construction: "plain_op E s (snd (complete_base_construction attrs s))"
| op_declare_exception_bind: "plain_op E s (declare_exception_bind v s)"
| op_mark_possibly_retained: "plain_op E s (mark_possibly_retained x s)"
| op_mark_inline_scope_captured: "plain_op E s (snd (mark_inline_scope_captured s))"
| op_narrow: "plain_op E s (narrow n m s)"
| op_narrow_many: "plain_op E s (snd (narrow_many n ms s))"
| op_unnarrow: "plain_op E s (unnarrow n s)"
| op_mark_live: "plain_op E s (mark_live n s)"
| op_unmark_live: "plain_op E s (unmark_live n s)"
| op_set_live: "plain_op E s (set_live L s)"
| op_fresh_temp: "plain_op E s (fresh_temp tm t s)"
| op_untrack_temp: "plain_op E s (untrack_temp x' s)"
| op_delete_temp: "plain_op E s (snd (delete_temp E tm s))"
| op_restore_temp_states: "plain_op E s (restore_temp_states ts s)"
| op_enter_loop: "plain_op E s (enter_loop n' s)"
| op_exit_loop: "plain_op E s (snd (exit_loop s))"
| op_enter_branch: "plain_op E s (enter_branch n' s)"
| op_exit_branch: "plain_op E s (snd (exit_branch s))"
| op_record_break_narrowed: "plain_op E s (record_break_narrowed s)"
| op_record_break_live: "plain_op E s (record_break_live s)"
| op_merge_loop_exits: "plain_op E s (merge_loop_exits nn bn nl bl s)"
| op_loop_back_edge: "plain_op E s (snd (loop_back_edge E names entry er' s))"
| op_promote: "plain_op E s (snd (promote_borrowed_for_loop E n s))"
| op_return: "plain_op E s (snd (cfg_return E (build_is_err_check bc f rv) x' s))"
| op_unwind_to: "plain_op E s (snd (unwind_to E sn s))"
| op_unwind_confined: "plain_op E s (snd (unwind_confined E fl' x' s))"
| op_probe_label: "plain_op E s (snd (current_epilogue_label x' False s))"
| op_construction_err: "current_epilogue_label_for_construction_err E x' s = ((None, is), s') \<Longrightarrow> plain_op E s s'"
| op_truncate_cancel_flags: "plain_op E s (truncate_cancel_flags n' s)"

inductive op_step :: "cenv \<Rightarrow> cfg_state \<Rightarrow> cfg_state \<Rightarrow> bool" for E where
  op_plain: "plain_op E s s' \<Longrightarrow> op_step E s s'"
| op_assign: "op_step E s (snd (assign E d x a t b s))"
| op_deleted: "op_step E s (snd (deleted E v s))"
| op_track_result: "op_step E s (track_result n s)"
| op_clear_result: "op_step E s (clear_result n s)"
| op_check_unchecked_results: "op_step E s (snd (check_unchecked_results x' s))"
| op_check_loop_exit: "op_step E s (snd (check_loop_exit_unchecked_results er s))"
| op_merge_if:
    "binds_ok entry (length (heap s)) \<Longrightarrow> binds_ok (be_bindings te) (length (heap s)) \<Longrightarrow>
     binds_ok (be_bindings fe) (length (heap s)) \<Longrightarrow>
     op_step E s (snd (merge_if E names rnames entry er te fe s))"

lemma ok_bookkeeping:
  "ok_step s (mark_possibly_retained x s)" "ok_step s (narrow n m s)" "ok_step s (snd (narrow_many n ms s))"
  "ok_step s (unnarrow n s)" "ok_step s (unmark_live n s)" "ok_step s (set_live L s)"
  "ok_step s (fresh_temp tm t s)" "ok_step s (restore_temp_states ts s)"
  by (auto simp: mark_possibly_retained_def narrow_def narrow_many_def unnarrow_def unmark_live_def
      set_live_def fresh_temp_def restore_temp_states_def quiet_ok split: operand.splits)

lemma plain_op_ok: "plain_op E s s' \<Longrightarrow> ok_step s s'"
proof (induction rule: plain_op.induct)
  case (op_construction_err x' s "is" s')
  then show ?case using ok_construction_err [of s E x'] by simp
next
  case (op_truncate_cancel_flags s n')
  then show ?case by (simp add: truncate_cancel_flags_def quiet_ok)
qed (simp_all add: ok_assign_global_initializer ok_attr_assign ok_attr_replace ok_field_value
      ok_move ok_manually_decreffed ok_refcount ok_push_defer ok_disarm_defer ok_enter_self
      ok_enter_construction ok_complete_construction ok_complete_base_construction ok_declare_exception_bind
      ok_bookkeeping ok_mark_inline_scope_captured quiet_ok ok_control ok_delete_temp ok_loop_back_edge
      ok_promote ok_return err_check_gen_le ok_unwind ok_current_epilogue_label)

lemma op_step_ok: "op_step E s s' \<Longrightarrow> ok_step s s'"
  by (induction rule: op_step.induct)
    (simp_all add: plain_op_ok ok_assign ok_deleted quiet_ok ok_control ok_merge_if)

subsection \<open>A lowering run\<close>

text \<open>
  Besides the state: the labels of the jumps committed so far, the labels the code of closed inline
  splices declares, and the snapshots in use, innermost first, each with the state it was taken in
  and the jumps and labels of that moment (a retried loop body discards the code emitted since).
\<close>

record run =
  r_state :: cfg_state
  r_jumps :: "label set"
  r_declared :: "label set"
  r_snaps :: "(cfg_state \<times> label set \<times> label set) list"

definition close_scope ::
  "cenv \<Rightarrow> err_check \<Rightarrow> cfg_state \<Rightarrow> (cfg_error + label set) \<times> cfg_state" where
  "close_scope E C s =
     (case inline_scope_captured s of
        Inl e \<Rightarrow> (Inl e, s)
      | Inr cap \<Rightarrow>
          (let lab = (if cap then {scope_label (hd (inline_scopes s))} else {}) in
           case build_inline_scope_ladder E C s of
             (Inl e, s1) \<Rightarrow> (Inl e, s1)
           | (Inr is, s1) \<Rightarrow> (let (_, s2) = pop_inline_scope s1 in (Inr (lab \<union> labels_of is), s2))))"

inductive run_step :: "cenv \<Rightarrow> run \<Rightarrow> run \<Rightarrow> bool" for E where
  run_op: "op_step E (r_state c) s' \<Longrightarrow> run_step E c (c\<lparr>r_state := s'\<rparr>)"
| run_jump: "current_epilogue_label x True (r_state c) = (Some l, s') \<Longrightarrow>
    run_step E c (c\<lparr>r_state := s', r_jumps := insert l (r_jumps c)\<rparr>)"
| run_jump_err: "current_epilogue_label_for_construction_err E x (r_state c) = ((Some l, is), s') \<Longrightarrow>
    run_step E c (c\<lparr>r_state := s', r_jumps := insert l (r_jumps c)\<rparr>)"
| run_snapshot:
    "run_step E c (c\<lparr>r_snaps := (r_state c, r_jumps c, r_declared c) # r_snaps c\<rparr>)"
| run_forget: "r_snaps c = sn # sns \<Longrightarrow> run_step E c (c\<lparr>r_snaps := sns\<rparr>)"
| run_restore: "r_snaps c = (s0, J, D) # sns \<Longrightarrow>
    run_step E c (c\<lparr>r_state := snd (restore (take_snapshot s0) (r_state c))\<rparr>)"
| run_retry: "r_snaps c = (s0, J, D) # sns \<Longrightarrow>
    run_step E c (c\<lparr>r_state := snd (hard_restore (take_snapshot s0) (r_state c)), r_jumps := J, r_declared := D\<rparr>)"
| run_open_scope: "run_step E c (c\<lparr>r_state := snd (push_inline_scope (r_state c))\<rparr>)"
| run_close_scope: "close_scope E (build_is_err_check bc f rv) (r_state c) = (Inr ls, s') \<Longrightarrow>
    (\<And>s0 J D. (s0, J, D) \<in> set (r_snaps c) \<Longrightarrow>
       length (inline_scopes s0) < length (inline_scopes (r_state c)) \<and>
       length (stack s0) \<le> boundary_depth (hd (inline_scopes (r_state c)))) \<Longrightarrow>
    run_step E c (c\<lparr>r_state := s', r_declared := r_declared c \<union> ls\<rparr>)"

definition start_run :: "cenv \<Rightarrow> param list \<Rightarrow> gen \<Rightarrow> nat \<Rightarrow> run" where
  "start_run E ps g n = \<lparr>r_state = init_state E ps g n, r_jumps = {}, r_declared = {}, r_snaps = []\<rparr>"

inductive reachable :: "cenv \<Rightarrow> run \<Rightarrow> bool" for E where
  start: "reachable E (start_run E ps g n)"
| step: "reachable E c \<Longrightarrow> run_step E c c' \<Longrightarrow> reachable E c'"

inductive_cases run_stepE: "run_step E c c'"

subsection \<open>The invariant of a run\<close>

text \<open>The labels a jump can count on: captured entries of the stack, captured splices, declared ones.\<close>

definition entry_labels :: "cfg_state \<Rightarrow> label set" where
  "entry_labels s = captured_labels s \<inter> (\<lambda>r. ep_name (entry_at s r)) ` set (stack s)"

definition scope_labels :: "cfg_state \<Rightarrow> label set" where
  "scope_labels s = scope_label ` {sc \<in> set (inline_scopes s). captured sc}"

definition cover :: "cfg_state \<Rightarrow> label set" where
  "cover s = entry_labels s \<union> scope_labels s"

fun snaps_ok :: "cfg_state \<Rightarrow> (cfg_state \<times> label set \<times> label set) list \<Rightarrow> bool" where
  "snaps_ok s [] = True"
| "snaps_ok s ((s0, J, D) # sns) =
     (wf_state s0 \<and> evolves s0 s \<and> J \<subseteq> cover s0 \<union> D \<and> snaps_ok s0 sns)"

definition run_inv :: "run \<Rightarrow> bool" where
  "run_inv c \<longleftrightarrow> wf_state (r_state c) \<and> r_jumps c \<subseteq> cover (r_state c) \<union> r_declared c \<and>
     snaps_ok (r_state c) (r_snaps c)"

lemma cover_captured_entry:
  "\<not> ep_cancelled (entry_at s r) \<Longrightarrow> r \<in> set (stack s) \<Longrightarrow>
   ep_name (entry_at s r) \<in> cover (capture_label True (ep_name (entry_at s r)) s)"
  by (auto simp: cover_def entry_labels_def capture_label_def entry_at_def)

lemma list_all2_scope_labels:
  "list_all2 (\<lambda>a b. scope_label a = scope_label b \<and> (captured a \<longrightarrow> captured b)) xs ys \<Longrightarrow>
   scope_label ` {sc \<in> set xs. captured sc} \<subseteq> scope_label ` {sc \<in> set ys. captured sc}"
  by (induction rule: list_all2_induct) auto

lemma cover_evolves:
  assumes "evolves s s'"
  shows "cover s \<subseteq> cover s'"
proof -
  have "entry_labels s \<subseteq> entry_labels s'"
  proof
    fix l assume "l \<in> entry_labels s"
    then obtain i where i: "i < length (stack s)" "l = ep_name (entry_at s (stack s ! i))" "l \<in> captured_labels s"
      by (auto simp: entry_labels_def in_set_conv_nth)
    with assms have "l = ep_name (entry_at s' (stack s' ! i))" "i < length (stack s')" "l \<in> captured_labels s'"
      by (auto simp: evolves_def dest!: static_name)
    then show "l \<in> entry_labels s'" by (auto simp: entry_labels_def)
  qed
  moreover have "scope_labels s \<subseteq> scope_labels s'"
  proof -
    obtain news olds where "inline_scopes s' = news @ olds"
      "list_all2 (\<lambda>a b. scope_label a = scope_label b \<and> (captured a \<longrightarrow> captured b)) (inline_scopes s) olds"
      using assms by (auto simp: evolves_def scopes_le_def)
    with list_all2_scope_labels [OF this(2)] show ?thesis by (auto simp: scope_labels_def)
  qed
  ultimately show ?thesis by (auto simp: cover_def)
qed

lemma snaps_ok_evolves: "snaps_ok s sns \<Longrightarrow> evolves s s' \<Longrightarrow> snaps_ok s' sns"
  by (cases "(s, sns)" rule: snaps_ok.cases) (auto intro: evolves_trans)

lemma run_inv_evolves:
  assumes "run_inv c" and "wf_state s'" and "evolves (r_state c) s'"
  shows "run_inv (c\<lparr>r_state := s'\<rparr>)"
  using assms cover_evolves [OF assms(3)] snaps_ok_evolves [OF _ assms(3)] by (auto simp: run_inv_def)

text \<open>Restoring keeps every captured entry, whatever slot it is in.\<close>

lemma cover_restore:
  assumes "evolves s0 s" and "wf_state s0" and "wf_state s"
  shows "cover s \<subseteq> cover (snd (restore (take_snapshot s0) s))"
proof -
  let ?s' = "snd (restore (take_snapshot s0) s)"
  let ?slots = "swap_back (\<lambda>r. is_flag_guarded (entry_at s r)) (stack s0) (stack s)"
  let ?n = "length (stack s0)"
  note R = restore_stack [OF assms(1)]
  have ent: "entry_at ?s' = entry_at s" by (rule ext) (simp add: entry_at_def R(3))
  have "entry_labels s \<subseteq> entry_labels ?s'"
  proof
    fix l assume "l \<in> entry_labels s"
    then obtain i where i: "i < length (stack s)" "l = ep_name (entry_at s (stack s ! i))" "l \<in> captured_labels s"
      by (auto simp: entry_labels_def in_set_conv_nth)
    let ?r = "?slots ! i"
    have l: "l = ep_name (entry_at s ?r)"
      using i(2) static_name [OF restore_slots [OF assms(1,2) i(1)]] by metis
    have "?r \<in> set (stack ?s')"
    proof (cases "i < ?n")
      case True
      then have "?r \<in> set (take ?n ?slots)" using i(1) by (auto simp: in_set_conv_nth)
      then show ?thesis using R(2) by (simp add: Let_def)
    next
      case False
      then have "?r \<in> set (drop ?n ?slots)" using i(1)
        by (auto simp: in_set_conv_nth intro!: exI [of _ "i - ?n"])
      moreover have "survives_restore s ?r" using l i(3) by (simp add: survives_restore_def)
      ultimately show ?thesis using R(2) by (simp add: Let_def)
    qed
    with l i(3) show "l \<in> entry_labels ?s'" by (auto simp: entry_labels_def ent R(5))
  qed
  then show ?thesis by (auto simp: cover_def scope_labels_def R(6))
qed

subsection \<open>Committed jumps\<close>

lemma scope_label_cover:
  "inline_scopes s = sc # rest \<Longrightarrow> scope_label sc \<in> cover (capture_scope True s)"
  by (auto simp: cover_def scope_labels_def capture_scope_def
      intro!: UnI2 image_eqI [of _ _ "sc\<lparr>captured := True\<rparr>"])

lemma snd_enumerate: "snd ` set (rev (enumerate n xs)) = set xs"
  using set_map [of snd "enumerate n xs"] by simp

lemma label_walk_cover:
  assumes "label_walk fl True xs s = (Some l, s')" and "snd ` set xs \<subseteq> set (stack s)"
  shows "l \<in> cover s'"
  using assms
proof (induction xs)
  case Nil
  then show ?case by (auto split: list.splits simp: scope_label_cover)
next
  case (Cons x xs)
  obtain i r where x: "x = (i, r)" by (cases x)
  show ?case
  proof (cases "inline_scopes s \<noteq> [] \<and> i < scope_floor s")
    case True
    with Cons.prems x show ?thesis using scope_label_cover [of s "hd (inline_scopes s)" "tl (inline_scopes s)"] by auto
  next
    case False
    with Cons x show ?thesis using cover_captured_entry [of s r] by (auto split: if_splits option.splits)
  qed
qed

lemma jump_cover: "current_epilogue_label x True s = (Some l, s') \<Longrightarrow> l \<in> cover s'"
proof -
  assume "current_epilogue_label x True s = (Some l, s')"
  then have "label_walk (confinement_floor s) True (rev (enumerate 0 (stack s))) s = (Some l, s')"
    by (auto simp: current_epilogue_label_def Let_def split: if_splits)
  then show ?thesis by (rule label_walk_cover) (simp only: snd_enumerate order_refl)
qed

lemma construction_walk_cand:
  "construction_walk cf fl s xs as cand = Some (as', Some r) \<Longrightarrow> cand = Some r \<or> r \<in> snd ` set xs"
  by (induction cf fl s xs as cand rule: construction_walk.induct) (force split: if_splits)+

lemma jump_err_cover:
  assumes "current_epilogue_label_for_construction_err E x s = ((Some l, is), s')"
  shows "l \<in> cover s'"
proof -
  let ?xs = "rev (enumerate 0 (stack s))"
  obtain as cand where w: "construction_walk (confinement_floor s) (scope_floor s) s ?xs [] None = Some (as, cand)"
    using assms by (auto simp: current_epilogue_label_for_construction_err_def split: if_splits option.splits)
  obtain is1 s1 where r: "release_all E as s = (is1, s1)" by (metis surj_pair)
  have q: "quiet s s1" using quiet_release_all [of s E as] r by simp
  show ?thesis
  proof (cases cand)
    case None
    with assms w r show ?thesis
      by (auto simp: current_epilogue_label_for_construction_err_def scope_label_cover
          split: if_splits list.splits)
  next
    case (Some c)
    have "c \<in> snd ` set ?xs" using construction_walk_cand [OF w [unfolded Some]] by simp
    then have "c \<in> set (stack s1)" using q unfolding snd_enumerate by (simp add: quiet_def)
    with assms w r Some show ?thesis
      by (auto simp: current_epilogue_label_for_construction_err_def cover_def entry_labels_def
          capture_label_def entry_at_def split: if_splits)
  qed
qed

subsection \<open>Closing an inline splice\<close>

lemma ladder_declares:
  assumes "\<And>g. gen_le g (snd (C g))"
  shows "ladder E C rs s = (is, s') \<Longrightarrow> r \<in> set rs \<Longrightarrow> ep_name (entry_at s r) \<in> captured_labels s \<Longrightarrow>
    ep_name (entry_at s r) \<in> labels_of is"
proof (induction rs arbitrary: s "is" s')
  case (Cons q rs)
  let ?p = "if \<not> ep_cancelled (entry_at s q) \<and> \<not> ep_is_construction_attr (entry_at s q) then replay E C q s else ([], s)"
  obtain is1 s1 where p: "?p = (is1, s1)" by (metis surj_pair)
  have "quiet s s1" using quiet_replay [OF assms, of s E q] p by (auto split: if_splits)
  then have same: "entry_at s1 = entry_at s" "captured_labels s1 = captured_labels s"
    by (auto simp: quiet_def entry_at_def)
  obtain is2 s2 where l: "ladder E C rs s1 = (is2, s2)" by (metis surj_pair)
  from Cons.prems(1) p l have "is = (if ep_name (entry_at s q) \<in> captured_labels s
      then [Label (ep_name (entry_at s q))] else []) @ is1 @ is2"
    by (auto simp: Let_def)
  with Cons.IH [OF l] Cons.prems(2,3) same show ?case by auto
qed simp

lemma close_scope_result:
  assumes "close_scope E C s = (Inr ls, s')" and "\<And>g. gen_le g (snd (C g))"
  obtains sc rest "is" s1 where "inline_scopes s = sc # rest"
    and "ladder E C (rev (drop (boundary_depth sc) (stack s))) s = (is, s1)"
    and "ls = (if captured sc then {scope_label sc} else {}) \<union> labels_of is" and "quiet s s1"
    and "s' = s1\<lparr>stack := take (boundary_depth sc) (stack s), inline_scopes := rest\<rparr>"
proof -
  obtain sc rest where sc: "inline_scopes s = sc # rest"
    using assms(1) by (auto simp: close_scope_def inline_scope_captured_def split: list.splits)
  obtain "is" s1 where l: "ladder E C (rev (drop (boundary_depth sc) (stack s))) s = (is, s1)"
    by (metis surj_pair)
  have q: "quiet s s1" using quiet_ladder [OF assms(2), where s = s] l by (metis snd_conv)
  then have "inline_scopes s1 = sc # rest" "stack s1 = stack s" using sc by (auto simp: quiet_def)
  with assms(1) sc l have "ls = (if captured sc then {scope_label sc} else {}) \<union> labels_of is"
    "s' = s1\<lparr>stack := take (boundary_depth sc) (stack s), inline_scopes := rest\<rparr>"
    by (auto simp: close_scope_def inline_scope_captured_def build_inline_scope_ladder_def pop_inline_scope_def)
  with sc l q that show ?thesis by blast
qed

lemma close_scope_wf:
  assumes "close_scope E C s = (Inr ls, s')" and "\<And>g. gen_le g (snd (C g))" and "wf_state s"
  shows "wf_state s'" and "cover s \<subseteq> cover s' \<union> ls"
proof -
  obtain sc rest "is" s1 where sc: "inline_scopes s = sc # rest"
    and l: "ladder E C (rev (drop (boundary_depth sc) (stack s))) s = (is, s1)"
    and ls: "ls = (if captured sc then {scope_label sc} else {}) \<union> labels_of is" and q: "quiet s s1"
    and s': "s' = s1\<lparr>stack := take (boundary_depth sc) (stack s), inline_scopes := rest\<rparr>"
    by (rule close_scope_result [OF assms(1,2)])
  let ?n = "boundary_depth sc"
  have wf1: "wf_state s1" "stack s1 = stack s" "entry_at s1 = entry_at s" "captured_labels s1 = captured_labels s"
    using quiet_ok [OF q] assms(3) q by (auto simp: ok_step_def quiet_def entry_at_def)
  have ent: "entry_at s' = entry_at s1" by (rule ext) (simp add: s' entry_at_def)
  have "distinct (map (\<lambda>r. ep_name (entry_at s1 r)) (take ?n (stack s)))"
    using wf1(1,2) by (metis distinct_take take_map wf_state_def)
  then show "wf_state s'" using wf1 ent
    by (auto simp: wf_state_def s' dest: in_set_takeD)
  have "entry_labels s \<subseteq> entry_labels s' \<union> ls"
  proof
    fix x assume "x \<in> entry_labels s"
    then obtain r where r: "r \<in> set (stack s)" "x = ep_name (entry_at s r)" "x \<in> captured_labels s"
      by (auto simp: entry_labels_def)
    from r(1) consider "r \<in> set (take ?n (stack s))" | "r \<in> set (drop ?n (stack s))"
      by (metis Un_iff append_take_drop_id set_append)
    then show "x \<in> entry_labels s' \<union> ls"
    proof cases
      case 1
      then show ?thesis using r wf1 ent by (auto simp: entry_labels_def s')
    next
      case 2
      then have "x \<in> labels_of is" using ladder_declares [OF assms(2) l, of r] r by simp
      then show ?thesis using ls by simp
    qed
  qed
  moreover have "scope_labels s \<subseteq> scope_labels s' \<union> ls" by (auto simp: scope_labels_def sc s' ls)
  ultimately show "cover s \<subseteq> cover s' \<union> ls" by (auto simp: cover_def)
qed

lemma scopes_le_tl: "scopes_le xs (y # ys) \<Longrightarrow> length xs < Suc (length ys) \<Longrightarrow> scopes_le xs ys"
  by (auto simp: scopes_le_def Cons_eq_append_conv dest: list_all2_lengthD)

lemma close_scope_evolves:
  assumes "close_scope E C s = (Inr ls, s')" and "\<And>g. gen_le g (snd (C g))" and "evolves s0 s"
    and "length (inline_scopes s0) < length (inline_scopes s)"
    and "length (stack s0) \<le> boundary_depth (hd (inline_scopes s))"
  shows "evolves s0 s'"
proof -
  obtain sc rest "is" s1 where sc: "inline_scopes s = sc # rest" and q: "quiet s s1"
    and s': "s' = s1\<lparr>stack := take (boundary_depth sc) (stack s), inline_scopes := rest\<rparr>"
    by (rule close_scope_result [OF assms(1,2)])
  have ent: "entry_at s' = entry_at s" using q by (intro ext) (simp add: s' quiet_def entry_at_def)
  have "scopes_le (inline_scopes s0) rest"
    by (rule scopes_le_tl) (use assms(3,4) sc in \<open>auto simp: evolves_def\<close>)
  then show ?thesis
    using assms(3,5) sc q ent by (auto simp: evolves_def s' quiet_def gen_le_def)
qed

subsection \<open>Every run keeps the invariant\<close>

lemma ok_push_inline_scope: "ok_step s (snd (push_inline_scope s))"
  by (auto simp: push_inline_scope_def Let_def new_label_def ok_step_def wf_state_def evolves_def
      entry_at_def gen_le_def less_SucI intro: scopes_le_Cons)

lemma run_inv_jump:
  assumes "run_inv c" and "ok_step (r_state c) s'" and "l \<in> cover s'"
  shows "run_inv (c\<lparr>r_state := s', r_jumps := insert l (r_jumps c)\<rparr>)"
proof -
  have "run_inv (c\<lparr>r_state := s'\<rparr>)"
    using assms(1,2) by (intro run_inv_evolves) (auto simp: run_inv_def ok_step_def)
  with assms(3) show ?thesis by (simp add: run_inv_def)
qed

lemma run_step_inv: "run_step E c c' \<Longrightarrow> run_inv c \<Longrightarrow> run_inv c'"
proof (induction rule: run_step.induct)
  case (run_op c s')
  with op_step_ok [OF run_op(1)] show ?case
    by (intro run_inv_evolves) (auto simp: ok_step_def run_inv_def)
next
  case (run_jump x c l s')
  with jump_cover ok_current_epilogue_label [of "r_state c" x True] show ?case
    by (intro run_inv_jump) auto
next
  case (run_jump_err x c l "is" s')
  with jump_err_cover ok_construction_err [of "r_state c" E x] show ?case
    by (intro run_inv_jump) auto
next
  case (run_snapshot c)
  then show ?case by (auto simp: run_inv_def)
next
  case (run_forget c sn sns)
  then show ?case
    by (cases sn) (auto simp: run_inv_def intro: snaps_ok_evolves)
next
  case (run_restore c s0 J D sns)
  then have ev: "evolves s0 (r_state c)" "wf_state s0" "wf_state (r_state c)" by (auto simp: run_inv_def)
  from run_restore cover_restore [OF ev] restore_evolves [OF ev] show ?case
    by (auto simp: run_inv_def)
next
  case (run_retry c s0 J D sns)
  then have ev: "evolves s0 (r_state c)" "wf_state s0" "wf_state (r_state c)" by (auto simp: run_inv_def)
  from run_retry hard_restore_evolves [OF ev] cover_evolves [OF hard_restore_evolves(2) [OF ev]] show ?case
    by (auto simp: run_inv_def)
next
  case (run_open_scope c)
  with ok_push_inline_scope [of "r_state c"] show ?case
    by (intro run_inv_evolves) (auto simp: ok_step_def run_inv_def)
next
  case (run_close_scope bc f rv c ls s')
  then have wf: "wf_state (r_state c)" by (simp add: run_inv_def)
  note C = close_scope_wf [OF run_close_scope(1) err_check_gen_le wf]
  have "snaps_ok s' (r_snaps c)"
  proof (cases "r_snaps c")
    case (Cons sn sns)
    then obtain s0 J D where sn: "sn = (s0, J, D)" by (cases sn) auto
    with Cons run_close_scope(3) have "evolves s0 (r_state c)" by (simp add: run_inv_def)
    from close_scope_evolves [OF run_close_scope(1) err_check_gen_le this]
    have "evolves s0 s'" using run_close_scope(2) [of s0 J D] Cons sn by simp
    with Cons sn run_close_scope(3) show ?thesis by (simp add: run_inv_def)
  qed simp
  with C run_close_scope(3) show ?case by (auto simp: run_inv_def)
qed

lemma start_run_inv: "run_inv (start_run E ps g n)"
  by (simp add: start_run_def run_inv_def init_state_wf)

lemma reachable_inv: "reachable E c \<Longrightarrow> run_inv c"
  by (induction rule: reachable.induct) (simp_all add: start_run_inv run_step_inv)

lemma run_steps_reachable: "(run_step E)\<^sup>*\<^sup>* c c' \<Longrightarrow> reachable E c \<Longrightarrow> reachable E c'"
  by (induction rule: rtranclp_induct) (auto intro: reachable.step)

lemma snaps_ok_outer: "snaps_ok s (inner @ (s0, J, D) # outer) \<Longrightarrow> wf_state s0 \<and> evolves s0 s"
proof (induction inner arbitrary: s)
  case (Cons sn inner)
  then show ?case by (cases sn) (auto intro: evolves_trans)
qed simp

lemma fold_reset_nth:
  "distinct rs \<Longrightarrow> (\<And>r. r \<in> set rs \<Longrightarrow> r < length h) \<Longrightarrow>
   fold (\<lambda>(r, c, f) h. h[r := (h ! r)\<lparr>ep_cancelled := c, ep_flag := f\<rparr>]) (map (\<lambda>r. (r, cc r, ff r)) rs) h ! q =
     (if q \<in> set rs then (h ! q)\<lparr>ep_cancelled := cc q, ep_flag := ff q\<rparr> else h ! q)"
proof (induction rs arbitrary: h)
  case (Cons a rs)
  then show ?case by (cases "q = a") auto
qed simp

lemma take_snapshot_eqI:
  "stack s' = stack s \<Longrightarrow> bindings s' = bindings s \<Longrightarrow> live s' = live s \<Longrightarrow> narrowed s' = narrowed s \<Longrightarrow>
   unchecked_results s' = unchecked_results s \<Longrightarrow> (\<And>r. r \<in> set (stack s) \<Longrightarrow> entry_at s' r = entry_at s r) \<Longrightarrow>
   take_snapshot s' = take_snapshot s"
  by (simp add: take_snapshot_def)

lemma static_reset: "static a = static b \<Longrightarrow> a\<lparr>ep_cancelled := ep_cancelled b, ep_flag := ep_flag b\<rparr> = b"
  by (cases a; cases b) (simp add: static_def)

text \<open>After \<^verbatim>\<open>hard_restore\<close> the entries of the snapshot are what they were.\<close>

lemma hard_restore_entries:
  assumes "evolves s0 s" and "wf_state s0" and "r \<in> set (stack s0)"
  shows "entry_at (snd (hard_restore (take_snapshot s0) s)) r = entry_at s0 r"
proof -
  have "distinct (stack s0)" using assms(2) by (simp add: wf_state_def distinct_map)
  moreover have lt: "q < length (heap s)" if "q \<in> set (stack s0)" for q
    using wf_stack_lt [OF assms(2) that] evolves_heap [OF assms(1)] by simp
  ultimately have "entry_at (snd (hard_restore (take_snapshot s0) s)) r =
      (heap s ! r)\<lparr>ep_cancelled := ep_cancelled (entry_at s0 r), ep_flag := ep_flag (entry_at s0 r)\<rparr>"
    unfolding entry_at_def hard_restore_fields(10) [OF assms(1)]
    using fold_reset_nth [of "stack s0" "heap s"] assms(3) by simp
  also have "\<dots> = entry_at s0 r"
    by (rule static_reset) (use assms wf_stack_lt [OF assms(2,3)] in \<open>simp add: evolves_def entry_at_def\<close>)
  finally show ?thesis .
qed

subsection \<open>Properties\<close>

text \<open>
  C4. In every state a lowering run can reach -- by any sequence of calls of the state machine,
  snapshots, restores, retried loop bodies and inline splices -- the entries on the epilogue stack are
  distinct objects with distinct label names, every name is older than the next label to be minted, and
  no binding points outside the store.
\<close>

theorem reachable_states_well_formed:
  assumes "reachable E c"
  shows "wf_state (r_state c) \<and> distinct (stack (r_state c))"
  using reachable_inv [OF assms] by (auto simp: run_inv_def wf_state_def distinct_map)

theorem reachable_states_well_formed_witness:
  "wf_state (snd (deleted demo_env (p_var (demo_params ! 0)) demo_state))"
proof -
  let ?c = "start_run demo_env demo_params \<lparr>next_temp = 0, next_label = 0\<rparr> 100"
  have "reachable demo_env ?c" by (rule reachable.start)
  moreover have "run_step demo_env ?c (?c\<lparr>r_state := snd (deleted demo_env (p_var (demo_params ! 0)) (r_state ?c))\<rparr>)"
    by (rule run_op) (rule op_deleted)
  ultimately have "reachable demo_env (?c\<lparr>r_state := snd (deleted demo_env (p_var (demo_params ! 0)) (r_state ?c))\<rparr>)"
    by (rule reachable.step)
  from reachable_states_well_formed [OF this] show ?thesis by (simp add: start_run_def demo_state_def)
qed

text \<open>
  C5. No committed jump dangles: when a run has closed its splices, every label that any return
  jumped to is declared, either by the ladder the function ends with or by the ladder of a splice --
  although branches, loops and retries discard entries in between.
\<close>

theorem no_dangling_jump:
  assumes "reachable E c" and "inline_scopes (r_state c) = []" and "l \<in> r_jumps c"
    and "build_epilogue_ladder E (build_is_err_check bc f rv) (r_state c) = (L, s')"
  shows "l \<in> labels_of L \<union> r_declared c"
proof -
  have "l \<in> cover (r_state c) \<union> r_declared c"
    using reachable_inv [OF assms(1)] assms(3) by (auto simp: run_inv_def)
  moreover have "scope_labels (r_state c) = {}" by (simp add: scope_labels_def assms(2))
  moreover have "entry_labels (r_state c) \<subseteq> labels_of L"
    using ladder_declares [OF err_check_gen_le assms(4) [unfolded build_epilogue_ladder_def]]
    by (auto simp: entry_labels_def)
  ultimately show ?thesis by (auto simp: cover_def)
qed

theorem no_dangling_jump_witness:
  "(''epilogue'', 1) \<in> labels_of (fst (build_epilogue_ladder demo_env
     (build_is_err_check demo_class ''is_err'' demo_var) (capture_label True (''epilogue'', 1) demo_state)))"
proof -
  let ?c = "start_run demo_env demo_params \<lparr>next_temp = 0, next_label = 0\<rparr> 100"
  let ?s = "capture_label True (''epilogue'', 1) demo_state"
  let ?c' = "?c\<lparr>r_state := ?s, r_jumps := insert (''epilogue'', 1) (r_jumps ?c)\<rparr>"
  have st: "r_state ?c = demo_state" by (simp add: start_run_def demo_state_def)
  have "run_step demo_env ?c ?c'" by (rule run_jump [of None]) (simp only: st demo_label)
  then have "reachable demo_env ?c'" using reachable.start reachable.step by blast
  from no_dangling_jump [OF this _ _ surjective_pairing]
  show ?thesis by (simp add: capture_label_def demo_state_simps start_run_def)
qed

text \<open>
  C6. The rollback of a loop body that is lowered again undoes everything: take a snapshot in a state of a run and continue
  the run in any way -- operations, committed jumps to shared labels, nested snapshots with their restores and
  retries, inline scopes that are opened and closed -- as long as the snapshot stays in use; then
  \<^verbatim>\<open>hard_restore\<close> succeeds and brings back the stack with the very same entries, their
  cancellation and flags, the bindings, narrowings, definite assignments and unchecked results.
\<close>

theorem hard_restore_undoes:
  assumes "reachable E c"
    and "(run_step E)\<^sup>*\<^sup>* (c\<lparr>r_snaps := (r_state c, r_jumps c, r_declared c) # r_snaps c\<rparr>) c'"
    and "r_snaps c' = inner @ (r_state c, r_jumps c, r_declared c) # r_snaps c"
  shows "fst (hard_restore (take_snapshot (r_state c)) (r_state c')) = Inr () \<and>
    take_snapshot (snd (hard_restore (take_snapshot (r_state c)) (r_state c'))) = take_snapshot (r_state c) \<and>
    (\<forall>r\<in>set (stack (r_state c)). entry_at (snd (hard_restore (take_snapshot (r_state c)) (r_state c'))) r = entry_at (r_state c) r)"
proof -
  have "reachable E c'" using run_steps_reachable [OF assms(2) reachable.step [OF assms(1) run_snapshot]] .
  then have "wf_state (r_state c) \<and> evolves (r_state c) (r_state c')"
    using snaps_ok_outer reachable_inv assms(3) by (metis run_inv_def)
  then have wf: "wf_state (r_state c)" and ev: "evolves (r_state c) (r_state c')" by simp_all
  note H = hard_restore_fields [OF ev]
  note e = hard_restore_entries [OF ev wf]
  have "take_snapshot (snd (hard_restore (take_snapshot (r_state c)) (r_state c'))) = take_snapshot (r_state c)"
    by (rule take_snapshot_eqI) (use H e in auto)
  with H(1) e show ?thesis by simp
qed

text \<open>An early return is committed, a parameter deleted and an inline scope opened; then all of it is rolled back.\<close>

theorem hard_restore_undoes_witness:
  "stack (snd (hard_restore (take_snapshot demo_state)
     (snd (push_inline_scope (snd (deleted demo_env (p_var (demo_params ! 0)) (capture_label True (''epilogue'', 1) demo_state))))))) = [0, 1]"
proof -
  let ?c = "start_run demo_env demo_params \<lparr>next_temp = 0, next_label = 0\<rparr> 100"
  let ?c1 = "?c\<lparr>r_snaps := (r_state ?c, r_jumps ?c, r_declared ?c) # r_snaps ?c\<rparr>"
  let ?c2 = "?c1\<lparr>r_state := capture_label True (''epilogue'', 1) demo_state, r_jumps := insert (''epilogue'', 1) (r_jumps ?c1)\<rparr>"
  let ?c3 = "?c2\<lparr>r_state := snd (deleted demo_env (p_var (demo_params ! 0)) (r_state ?c2))\<rparr>"
  let ?c4 = "?c3\<lparr>r_state := snd (push_inline_scope (r_state ?c3))\<rparr>"
  have st: "r_state ?c = demo_state" by (simp add: start_run_def demo_state_def)
  have "run_step demo_env ?c1 ?c2"
    by (rule run_jump [of None]) (simp add: start_run_def demo_label flip: demo_state_def)
  moreover have "run_step demo_env ?c2 ?c3" by (rule run_op) (rule op_deleted)
  moreover have "run_step demo_env ?c3 ?c4" by (rule run_open_scope)
  ultimately have steps: "(run_step demo_env)\<^sup>*\<^sup>* ?c1 ?c4" by (meson converse_rtranclp_into_rtranclp rtranclp.rtrancl_refl)
  have "take_snapshot (snd (hard_restore (take_snapshot demo_state) (r_state ?c4))) = take_snapshot demo_state"
    using hard_restore_undoes [OF reachable.start steps, of "[]"] by (simp add: start_run_def demo_state_def)
  then have "stack (snd (hard_restore (take_snapshot demo_state) (r_state ?c4))) = stack demo_state"
    by (simp add: take_snapshot_def)
  then show ?thesis by (simp add: demo_state_simps)
qed

end
