(* ===== verification/Cfg_Balance.thy ===== *)
theory Cfg_Balance
  imports Cfg_Run "HOL-Library.Multiset" "HOL-Library.Countable"
begin

text \<open>
  The balance of references.  \<open>owned s \<rho>\<close> is the multiset of references the function holds
  according to its ownership state: those of the live entries of the epilogue stack and those of the
  tracked temporaries.  Running the code an operation emits, together with the store it precedes, changes
  the retained and released references exactly as it changes \<open>owned\<close>.
\<close>

subsection \<open>What the function owns\<close>

definition entry_refs :: "epilogue \<Rightarrow> env \<Rightarrow> nat list" where
  "entry_refs e \<rho> =
     (if ep_cancelled e then []
      else case (ep_type e, ep_operand e) of
        (Some t, Some v) \<Rightarrow> refs_of t (\<rho> (LVar (v_oid v)))
      | _ \<Rightarrow> [])"

definition owned_vars :: "cfg_state \<Rightarrow> env \<Rightarrow> nat multiset" where
  "owned_vars s \<rho> = (\<Sum>r\<in>set (stack s). mset (entry_refs (entry_at s r) \<rho>))"

definition temp_refs :: "(nat, mtype) dict \<Rightarrow> env \<Rightarrow> nat \<Rightarrow> nat list" where
  "temp_refs ts \<rho> i = (case dict_get ts i of Some ty \<Rightarrow> refs_of ty (\<rho> (LTemp i)) | None \<Rightarrow> [])"

definition owned_temps :: "cfg_state \<Rightarrow> env \<Rightarrow> nat multiset" where
  "owned_temps s \<rho> = (\<Sum>i\<in>fst ` set (temp_states s). mset (temp_refs (temp_states s) \<rho> i))"

definition owned :: "cfg_state \<Rightarrow> env \<Rightarrow> nat multiset" where
  "owned s \<rho> = owned_vars s \<rho> + owned_temps s \<rho>"

fun retained :: "event list \<Rightarrow> nat multiset" where
  "retained [] = {#}"
| "retained (ERetain a # es) = add_mset a (retained es)"
| "retained (_ # es) = retained es"

fun released :: "event list \<Rightarrow> nat multiset" where
  "released [] = {#}"
| "released (ERelease a # es) = add_mset a (released es)"
| "released (_ # es) = released es"

lemma retained_simps [simp]:
  "retained (xs @ ys) = retained xs + retained ys" "retained (map ERetain as) = mset as"
  "retained (map ERelease as) = {#}"
proof -
  show "retained (xs @ ys) = retained xs + retained ys" by (induction xs rule: retained.induct) auto
  show "retained (map ERetain as) = mset as" "retained (map ERelease as) = {#}" by (induction as) auto
qed

lemma released_simps [simp]:
  "released (xs @ ys) = released xs + released ys" "released (map ERelease as) = mset as"
  "released (map ERetain as) = {#}"
proof -
  show "released (xs @ ys) = released xs + released ys" by (induction xs rule: released.induct) auto
  show "released (map ERelease as) = mset as" "released (map ERetain as) = {#}" by (induction as) auto
qed

subsection \<open>The ownership invariant of straight-line code\<close>

text \<open>
  \<open>vt\<close> is the function's table of locals: one variable object per name.  In straight-line code (no
  label captured, no deferred block) every entry belongs to a local, the entry is live exactly when the
  local's binding owns it, and temporaries are older than the next one.
\<close>

definition locals_ok :: "(string \<Rightarrow> var) \<Rightarrow> bool" where
  "locals_ok vt \<longleftrightarrow>
     (\<forall>n. v_stem (vt n) = n \<and> \<not> v_is_global (vt n) \<and> wf_type (v_type (vt n)) \<and> is_rc (v_type (vt n))) \<and>
     (\<forall>m n. v_oid (vt m) = v_oid (vt n) \<longrightarrow> m = n)"

definition entry_of :: "(string \<Rightarrow> var) \<Rightarrow> cfg_state \<Rightarrow> ep_ref \<Rightarrow> string \<Rightarrow> bool" where
  "entry_of vt s r n \<longleftrightarrow>
     ep_operand (entry_at s r) = Some (vt n) \<and> ep_type (entry_at s r) = Some (v_type (vt n)) \<and>
     ep_flag (entry_at s r) = None \<and> ep_instructions (entry_at s r) = []"

definition own_inv :: "(string \<Rightarrow> var) \<Rightarrow> cfg_state \<Rightarrow> bool" where
  "own_inv vt s \<longleftrightarrow>
     wf_state s \<and> captured_labels s = {} \<and>
     (\<forall>r\<in>set (stack s). \<not> ep_cancelled (entry_at s r) \<longrightarrow>
        (\<exists>n b. entry_of vt s r n \<and> dict_get (bindings s) n = Some b \<and> b_entry b = Some r \<and> b_state b = OWNED)) \<and>
     (\<forall>n b r. dict_get (bindings s) n = Some b \<longrightarrow> b_entry b = Some r \<longrightarrow>
        r \<in> set (stack s) \<and> entry_of vt s r n \<and> b_operand b = vt n \<and> b_type b = v_type (vt n) \<and>
        (b_state b = OWNED \<longleftrightarrow> \<not> ep_cancelled (entry_at s r))) \<and>
     (\<forall>i\<in>fst ` set (temp_states s). i < next_temp (gen s)) \<and> distinct (map fst (temp_states s))"

lemma owned_vars_cong:
  "stack s' = stack s \<Longrightarrow> (\<And>r. r \<in> set (stack s) \<Longrightarrow> entry_refs (entry_at s' r) \<rho>' = entry_refs (entry_at s r) \<rho>) \<Longrightarrow>
   owned_vars s' \<rho>' = owned_vars s \<rho>"
  by (simp add: owned_vars_def)

lemma owned_temps_agree:
  assumes "agree (gen s) \<rho> \<rho>'" and "\<forall>i\<in>fst ` set (temp_states s). i < next_temp (gen s)"
    and "temp_states s' = temp_states s"
  shows "owned_temps s' \<rho>' = owned_temps s \<rho>"
  unfolding owned_temps_def assms(3)
  by (rule sum.cong) (use assms in \<open>auto simp: temp_refs_def agree_def split: option.splits\<close>)

lemma owned_vars_update:
  assumes "distinct (stack s)" and "stack s' = stack s" and "r \<in> set (stack s)"
    and "\<And>q. q \<in> set (stack s) \<Longrightarrow> q \<noteq> r \<Longrightarrow> entry_refs (entry_at s' q) \<rho>' = entry_refs (entry_at s q) \<rho>"
  shows "owned_vars s' \<rho>' + mset (entry_refs (entry_at s r) \<rho>) = owned_vars s \<rho> + mset (entry_refs (entry_at s' r) \<rho>')"
proof -
  have "owned_vars s \<rho> = mset (entry_refs (entry_at s r) \<rho>) + (\<Sum>q\<in>set (stack s) - {r}. mset (entry_refs (entry_at s q) \<rho>))"
    using assms(3) by (simp add: owned_vars_def sum.remove)
  moreover have "owned_vars s' \<rho>' = mset (entry_refs (entry_at s' r) \<rho>') + (\<Sum>q\<in>set (stack s) - {r}. mset (entry_refs (entry_at s' q) \<rho>'))"
    using assms(2,3) by (simp add: owned_vars_def sum.remove)
  moreover have "(\<Sum>q\<in>set (stack s) - {r}. mset (entry_refs (entry_at s' q) \<rho>')) =
      (\<Sum>q\<in>set (stack s) - {r}. mset (entry_refs (entry_at s q) \<rho>))"
    by (rule sum.cong) (use assms(4) in auto)
  ultimately show ?thesis by simp
qed

lemma own_inv_live:
  assumes "own_inv vt s" and "r \<in> set (stack s)" and "\<not> ep_cancelled (entry_at s r)"
  obtains n b where "entry_of vt s r n" and "dict_get (bindings s) n = Some b" and "b_entry b = Some r"
    and "b_state b = OWNED"
  using assms unfolding own_inv_def by metis

lemma own_inv_binding:
  assumes "own_inv vt s" and "dict_get (bindings s) n = Some b" and "b_entry b = Some r"
  shows "r \<in> set (stack s)" and "entry_of vt s r n" and "b_operand b = vt n" and "b_type b = v_type (vt n)"
    and "b_state b = OWNED \<longleftrightarrow> \<not> ep_cancelled (entry_at s r)"
  using assms unfolding own_inv_def by simp_all

lemma own_inv_wf: "own_inv vt s \<Longrightarrow> wf_state s"
  by (simp add: own_inv_def)

lemma own_inv_distinct: "own_inv vt s \<Longrightarrow> distinct (stack s)"
  by (auto dest!: own_inv_wf simp: wf_state_def distinct_map)

text \<open>A store to a local changes the value of that local's live entry only.\<close>

lemma store_other_entries:
  assumes "locals_ok vt" and "own_inv vt s" and "q \<in> set (stack s)" and "agree g \<rho> \<rho>1"
    and "\<And>b. dict_get (bindings s) n = Some b \<Longrightarrow> b_entry b = Some q \<Longrightarrow> ep_cancelled (entry_at s q)"
  shows "entry_refs (entry_at s q) (\<rho>1(LVar (v_oid (vt n)) := x)) = entry_refs (entry_at s q) \<rho>"
proof (cases "ep_cancelled (entry_at s q)")
  case False
  then obtain m b where m: "entry_of vt s q m" "dict_get (bindings s) m = Some b" "b_entry b = Some q"
    by (rule own_inv_live [OF assms(2,3)])
  with assms(5) False have "m \<noteq> n" by auto
  with assms(1) have "v_oid (vt m) \<noteq> v_oid (vt n)" by (auto simp: locals_ok_def)
  with m(1) assms(4) show ?thesis by (auto simp: entry_refs_def entry_of_def agree_def)
qed (simp add: entry_refs_def)

subsection \<open>Emitted retains and releases\<close>

lemma refcount_agree:
  assumes "refcount_instructions E op t x (gen s) = (is, g)" and "wf_type t" and "below (gen s) x"
    and "val_ok t (value_of \<rho> x)"
  obtains \<rho>' where "exec R is \<rho> = Some (map (rc_event op) (refs_of t (value_of \<rho> x)), \<rho>')"
    and "agree (gen s) \<rho> \<rho>'" and "no_return is" and "gen_le (gen s) g"
  using rc_correct_all [OF assms(2), of R E op] assms refcount_emits [OF assms(1)]
  unfolding rc_correct_def emits_def by blast

lemma incref_agree:
  assumes "incref E t x s = (is, s')" and "wf_type t" and "below (gen s) x" and "val_ok t (value_of \<rho> x)"
  obtains \<rho>' where "exec R is \<rho> = Some (map ERetain (refs_of t (value_of \<rho> x)), \<rho>')"
    and "agree (gen s) \<rho> \<rho>'" and "no_return is" and "gen_le (gen s) (gen s')" and "s' = s\<lparr>gen := gen s'\<rparr>"
proof -
  obtain g where g: "incref_instructions E t x (gen s) = (is, g)" "s' = s\<lparr>gen := g\<rparr>"
    using assms(1) by (auto simp: incref_def split: prod.splits)
  have "rc_event OpIncref = ERetain" by (rule ext) simp
  with refcount_agree [OF g(1) assms(2-4)] g(2) that show ?thesis
    by (metis cfg_state.select_convs(20) cfg_state.surjective cfg_state.update_convs(20))
qed

lemma decref_agree:
  assumes "decref E t x s = (is, s')" and "wf_type t" and "below (gen s) x" and "val_ok t (value_of \<rho> x)"
  obtains \<rho>' where "exec R is \<rho> = Some (map ERelease (refs_of t (value_of \<rho> x)), \<rho>')"
    and "agree (gen s) \<rho> \<rho>'" and "no_return is" and "gen_le (gen s) (gen s')" and "s' = s\<lparr>gen := gen s'\<rparr>"
proof -
  obtain g where g: "decref_instructions E t x (gen s) = (is, g)" "s' = s\<lparr>gen := g\<rparr>"
    using assms(1) by (auto simp: decref_def split: prod.splits)
  have "rc_event OpDecref = ERelease" by (rule ext) simp
  with refcount_agree [OF g(1) assms(2-4)] g(2) that show ?thesis
    by (metis cfg_state.select_convs(20) cfg_state.surjective cfg_state.update_convs(20))
qed

lemma owned_temps_pop:
  assumes "distinct (map fst (temp_states s))" and "dict_get (temp_states s) i = Some ty"
  shows "owned_temps s \<rho> = owned_temps (s\<lparr>temp_states := dict_pop i (temp_states s)\<rparr>) \<rho> + mset (refs_of ty (\<rho> (LTemp i)))"
proof -
  have i: "i \<in> fst ` set (temp_states s)" using assms(2) by (metis map_of_SomeD fst_conv imageI)
  have keys: "fst ` set (dict_pop i (temp_states s)) = fst ` set (temp_states s) - {i}"
    by (auto simp: AList.delete_eq)
  have "owned_temps s \<rho> = mset (temp_refs (temp_states s) \<rho> i) +
      (\<Sum>j\<in>fst ` set (temp_states s) - {i}. mset (temp_refs (temp_states s) \<rho> j))"
    unfolding owned_temps_def using i by (simp add: sum.remove)
  moreover have "(\<Sum>j\<in>fst ` set (temp_states s) - {i}. mset (temp_refs (temp_states s) \<rho> j)) =
      owned_temps (s\<lparr>temp_states := dict_pop i (temp_states s)\<rparr>) \<rho>"
    unfolding owned_temps_def using keys by (simp, intro sum.cong) (auto simp: temp_refs_def)
  ultimately show ?thesis by (simp add: temp_refs_def assms(2))
qed

lemma dict_pop_None: "dict_get ts i = None \<Longrightarrow> dict_pop i ts = ts"
  by (simp add: delete_id map_of_eq_None_iff)

subsection \<open>The source of an assignment\<close>

text \<open>
  A value handed over without a retain carries references only when it is a temporary that owns them
  under the type of the destination.
\<close>

definition handoff_ok :: "cfg_state \<Rightarrow> operand \<Rightarrow> mtype \<Rightarrow> env \<Rightarrow> bool" where
  "handoff_ok s x t \<rho> \<longleftrightarrow>
     (case x of
        OTemp tm \<Rightarrow> dict_get (temp_states s) (temp_id tm) = Some t \<or>
          dict_get (temp_states s) (temp_id tm) = None \<and> refs_of t (value_of \<rho> x) = []
      | _ \<Rightarrow> refs_of t (value_of \<rho> x) = [])"

definition source_ok :: "cfg_state \<Rightarrow> operand \<Rightarrow> bool \<Rightarrow> mtype \<Rightarrow> env \<Rightarrow> bool" where
  "source_ok s x is_alias t \<rho> \<longleftrightarrow>
     below (gen s) x \<and> val_ok t (value_of \<rho> x) \<and>
     (if is_alias \<and> \<not> is_fresh_temp x s then (case x of OVar v \<Rightarrow> \<not> v_is_global v | _ \<Rightarrow> True)
      else handoff_ok s x t \<rho>)"

lemma untrack_handoff:
  assumes "handoff_ok s x t \<rho>" and "distinct (map fst (temp_states s))"
  shows "owned_temps (untrack_temp (Some x) s) \<rho> + mset (refs_of t (value_of \<rho> x)) = owned_temps s \<rho>"
proof (cases x)
  case (OTemp tm)
  with assms show ?thesis
    using owned_temps_pop [OF assms(2), of "temp_id tm"]
    by (auto simp: handoff_ok_def untrack_temp_def dict_pop_None)
qed (use assms in \<open>simp_all add: handoff_ok_def untrack_temp_def\<close>)

lemma untrack_frame:
  "heap (untrack_temp x s) = heap s" "stack (untrack_temp x s) = stack s" "gen (untrack_temp x s) = gen s"
  "bindings (untrack_temp x s) = bindings s" "captured_labels (untrack_temp x s) = captured_labels s"
  "set (temp_states (untrack_temp x s)) \<subseteq> set (temp_states s)"
  "distinct (map fst (temp_states s)) \<Longrightarrow> distinct (map fst (temp_states (untrack_temp x s)))"
  by (auto simp: untrack_temp_def AList.delete_eq intro: distinct_delete [unfolded AList.delete_eq]
      split: option.splits operand.splits)

text \<open>What the source's side of an assignment leaves alone.\<close>

definition source_frame :: "cfg_state \<Rightarrow> cfg_state \<Rightarrow> bool" where
  "source_frame s s1 \<longleftrightarrow> heap s1 = heap s \<and> stack s1 = stack s \<and> bindings s1 = bindings s \<and>
     captured_labels s1 = captured_labels s \<and> gen_le (gen s) (gen s1) \<and>
     set (temp_states s1) \<subseteq> set (temp_states s) \<and> distinct (map fst (temp_states s1))"

lemma assign_source_balance:
  assumes "assign_source E d x al s = (is, s1)" and "wf_type (v_type d)"
    and "source_ok s x al (v_type d) \<rho>" and "distinct (map fst (temp_states s))"
    and "\<forall>i\<in>fst ` set (temp_states s). i < next_temp (gen s)"
  obtains es \<rho>1 where "exec R is \<rho> = Some (es, \<rho>1)" and "agree (gen s) \<rho> \<rho>1" and "no_return is"
    and "released es = {#}" and "source_frame s s1"
    and "owned_temps s1 \<rho>1 + mset (refs_of (v_type d) (value_of \<rho> x)) = owned_temps s \<rho> + retained es"
proof (cases "al \<and> \<not> is_fresh_temp x s")
  case True
  with assms(1,3) have inc: "incref E (v_type d) x s = (is, s1)"
    by (cases x) (auto simp: assign_source_def source_ok_def Let_def split: prod.splits)
  have x: "below (gen s) x" "val_ok (v_type d) (value_of \<rho> x)" using assms(3) by (auto simp: source_ok_def)
  obtain \<rho>1 where r: "exec R is \<rho> = Some (map ERetain (refs_of (v_type d) (value_of \<rho> x)), \<rho>1)"
    "agree (gen s) \<rho> \<rho>1" "no_return is" "gen_le (gen s) (gen s1)" "s1 = s\<lparr>gen := gen s1\<rparr>"
    by (rule incref_agree [OF inc assms(2) x])
  obtain g where s1: "s1 = s\<lparr>gen := g\<rparr>" using r(5) by blast
  have "owned_temps s1 \<rho>1 = owned_temps s \<rho>"
    using owned_temps_agree [OF r(2) assms(5)] s1 by simp
  with r s1 assms(4) that show ?thesis by (auto simp: source_frame_def)
next
  case False
  then have "is = []" "s1 = untrack_temp (Some x) s" using assms(1) by (auto simp: assign_source_def split: if_splits)
  moreover have "handoff_ok s x (v_type d) \<rho>" using assms(3) False by (simp add: source_ok_def)
  ultimately show ?thesis
    using that [of "[]" \<rho>] untrack_handoff [OF _ assms(4)] untrack_frame [where x = "Some x" and s = s] assms(4)
    by (simp add: source_frame_def)
qed

lemma source_frame_own_inv:
  assumes "source_frame s s1" and "own_inv vt s"
  shows "own_inv vt s1"
proof -
  have e: "entry_at s1 = entry_at s" using assms(1) by (simp add: source_frame_def entry_at_def fun_eq_iff)
  have "wf_state s1"
    using assms own_inv_wf [OF assms(2)] by (auto simp: source_frame_def wf_state_def e gen_le_def)
  moreover have "\<forall>i\<in>fst ` set (temp_states s1). i < next_temp (gen s1)"
    using assms by (fastforce simp: source_frame_def own_inv_def gen_le_def)
  ultimately show ?thesis
    using assms unfolding own_inv_def source_frame_def entry_of_def e by auto
qed

subsection \<open>Operations on one local\<close>

text \<open>The entry a binding of the name holds.\<close>

definition holds :: "cfg_state \<Rightarrow> string \<Rightarrow> ep_ref \<Rightarrow> bool" where
  "holds s n r \<longleftrightarrow> (\<exists>b. dict_get (bindings s) n = Some b \<and> b_entry b = Some r)"

lemma entry_of_unique: "locals_ok vt \<Longrightarrow> entry_of vt s r m \<Longrightarrow> entry_of vt s r n \<Longrightarrow> m = n"
  by (metis entry_of_def locals_ok_def option.inject)

text \<open>An operation on the local \<open>n\<close> that leaves the other locals' entries alone keeps the invariant.\<close>

lemma own_inv_transfer:
  assumes lo: "locals_ok vt" and inv: "own_inv vt s" and "wf_state s'" and "captured_labels s' = {}"
    and temps: "\<forall>i\<in>fst ` set (temp_states s'). i < next_temp (gen s')" "distinct (map fst (temp_states s'))"
    and others: "\<And>m. m \<noteq> n \<Longrightarrow> dict_get (bindings s') m = dict_get (bindings s) m"
    and kept: "\<And>q. q \<in> set (stack s) \<Longrightarrow> \<not> holds s n q \<Longrightarrow> q \<in> set (stack s') \<and> entry_at s' q = entry_at s q"
    and live: "\<And>q. q \<in> set (stack s') \<Longrightarrow> \<not> ep_cancelled (entry_at s' q) \<Longrightarrow>
      (\<exists>b. dict_get (bindings s') n = Some b \<and> b_entry b = Some q \<and> b_state b = OWNED) \<or>
      q \<in> set (stack s) \<and> entry_at s' q = entry_at s q \<and> \<not> holds s n q"
    and own: "\<And>b q. dict_get (bindings s') n = Some b \<Longrightarrow> b_entry b = Some q \<Longrightarrow>
      q \<in> set (stack s') \<and> entry_of vt s' q n \<and> b_operand b = vt n \<and> b_type b = v_type (vt n) \<and>
      (b_state b = OWNED \<longleftrightarrow> \<not> ep_cancelled (entry_at s' q))"
  shows "own_inv vt s'"
proof -
  have "\<exists>m b. entry_of vt s' q m \<and> dict_get (bindings s') m = Some b \<and> b_entry b = Some q \<and> b_state b = OWNED"
    if q: "q \<in> set (stack s')" "\<not> ep_cancelled (entry_at s' q)" for q
    using live [OF q]
  proof (elim disjE exE conjE)
    fix b assume "dict_get (bindings s') n = Some b" "b_entry b = Some q" "b_state b = OWNED"
    with own show ?thesis by blast
  next
    assume q': "q \<in> set (stack s)" "entry_at s' q = entry_at s q" "\<not> holds s n q"
    then have "\<not> ep_cancelled (entry_at s q)" using q(2) by simp
    from own_inv_live [OF inv q'(1) this] obtain m b where
      m: "entry_of vt s q m" "dict_get (bindings s) m = Some b" "b_entry b = Some q" "b_state b = OWNED" .
    with q'(3) have "m \<noteq> n" by (auto simp: holds_def)
    with m q'(2) others show ?thesis by (metis entry_of_def)
  qed
  moreover have "q \<in> set (stack s') \<and> entry_of vt s' q m \<and> b_operand c = vt m \<and> b_type c = v_type (vt m) \<and>
      (b_state c = OWNED \<longleftrightarrow> \<not> ep_cancelled (entry_at s' q))"
    if c: "dict_get (bindings s') m = Some c" "b_entry c = Some q" for m c q
  proof (cases "m = n")
    case True
    with own c show ?thesis by blast
  next
    case False
    with c others have c': "dict_get (bindings s) m = Some c" by simp
    note C = own_inv_binding [OF inv c' c(2)]
    have "\<not> holds s n q"
    proof
      assume "holds s n q"
      then obtain b where b: "dict_get (bindings s) n = Some b" "b_entry b = Some q" by (auto simp: holds_def)
      from entry_of_unique [OF lo own_inv_binding(2) [OF inv b] C(2)] False show False by simp
    qed
    from kept [OF C(1) this] C show ?thesis by (simp add: entry_of_def)
  qed
  ultimately show ?thesis using assms(3,4) temps unfolding own_inv_def by blast
qed

text \<open>An entry that holds a local is one of the stack, in the store.\<close>

lemma holds_entry: "own_inv vt s \<Longrightarrow> holds s n r \<Longrightarrow> r \<in> set (stack s) \<and> r < length (heap s) \<and> entry_of vt s r n"
  unfolding holds_def by (auto dest: own_inv_binding(1,2) wf_stack_lt [OF own_inv_wf])

lemma holds_unique: "holds s n r \<Longrightarrow> holds s n q \<Longrightarrow> q = r"
  by (auto simp: holds_def)

lemma own_inv_temps:
  "own_inv vt s \<Longrightarrow> \<forall>i\<in>fst ` set (temp_states s). i < next_temp (gen s)"
  "own_inv vt s \<Longrightarrow> distinct (map fst (temp_states s))"
  "own_inv vt s \<Longrightarrow> captured_labels s = {}"
  by (simp_all add: own_inv_def)

lemma store_owned_vars:
  assumes "locals_ok vt" and "own_inv vt s" and "agree g \<rho> \<rho>1" and "stack s' = stack s" and "holds s n r"
    and "\<And>q. q \<noteq> r \<Longrightarrow> entry_at s' q = entry_at s q"
  shows "owned_vars s' (\<rho>1(LVar (v_oid (vt n)) := x)) + mset (entry_refs (entry_at s r) \<rho>) =
    owned_vars s \<rho> + mset (entry_refs (entry_at s' r) (\<rho>1(LVar (v_oid (vt n)) := x)))"
proof (rule owned_vars_update [OF own_inv_distinct [OF assms(2)] assms(4)])
  show "r \<in> set (stack s)" using holds_entry [OF assms(2,5)] by simp
  fix q assume "q \<in> set (stack s)" "q \<noteq> r"
  with assms(5,6) store_other_entries [OF assms(1,2) _ assms(3)] show
    "entry_refs (entry_at s' q) (\<rho>1(LVar (v_oid (vt n)) := x)) = entry_refs (entry_at s q) \<rho>"
    by (metis holds_def holds_unique)
qed

lemma replace_own_inv:
  assumes lo: "locals_ok vt" and inv: "own_inv vt s" and r: "holds s n r" and g: "gen_le (gen s) g"
  defines "s' \<equiv> s\<lparr>gen := g, heap := (heap s)[r := (entry_at s r)\<lparr>ep_cancelled := False\<rparr>],
      bindings := dict_set n \<lparr>b_operand = vt n, b_type = v_type (vt n), b_state = OWNED, b_entry = Some r\<rparr> (bindings s)\<rparr>"
  shows "own_inv vt s'"
proof -
  note H = holds_entry [OF inv r]
  have ent: "entry_at s' q = (if q = r then (entry_at s r)\<lparr>ep_cancelled := False\<rparr> else entry_at s q)" for q
    using H by (simp add: s'_def entry_at_def)
  have bs: "dict_get (bindings s') m = (if m = n then Some \<lparr>b_operand = vt n, b_type = v_type (vt n),
      b_state = OWNED, b_entry = Some r\<rparr> else dict_get (bindings s) m)" for m
    by (simp add: s'_def)
  have st: "stack s' = stack s" by (simp add: s'_def)
  have "ok_step s s'"
    by (rule ok_entry_update [where r = r and e = "(entry_at s r)\<lparr>ep_cancelled := False\<rparr>"])
      (use H g in \<open>auto simp: s'_def wf_state_def intro!: binds_ok_set\<close>)
  then have wf: "wf_state s'" using own_inv_wf [OF inv] by (simp add: ok_step_def)
  show ?thesis
  proof (rule own_inv_transfer [OF lo inv wf, of n])
    show "captured_labels s' = {}" using own_inv_temps(3) [OF inv] by (simp add: s'_def)
    show "\<forall>i\<in>fst ` set (temp_states s'). i < next_temp (gen s')"
      using own_inv_temps(1) [OF inv] g by (force simp: s'_def gen_le_def)
    show "distinct (map fst (temp_states s'))" using own_inv_temps(2) [OF inv] by (simp add: s'_def)
    show "q \<in> set (stack s') \<and> entry_at s' q = entry_at s q" if "q \<in> set (stack s)" "\<not> holds s n q" for q
      using that r by (auto simp: st ent)
    show "(\<exists>b. dict_get (bindings s') n = Some b \<and> b_entry b = Some q \<and> b_state b = OWNED) \<or>
        q \<in> set (stack s) \<and> entry_at s' q = entry_at s q \<and> \<not> holds s n q" if "q \<in> set (stack s')" for q
      using that r by (auto simp: st ent bs dest: holds_unique)
    show "q \<in> set (stack s') \<and> entry_of vt s' q n \<and> b_operand b = vt n \<and> b_type b = v_type (vt n) \<and>
        (b_state b = OWNED \<longleftrightarrow> \<not> ep_cancelled (entry_at s' q))"
      if "dict_get (bindings s') n = Some b" "b_entry b = Some q" for b q
      using that H by (auto simp: bs st ent entry_of_def)
  qed (simp add: bs)
qed

lemma push_own_inv:
  assumes lo: "locals_ok vt" and inv: "own_inv vt s" and "\<And>r. \<not> holds s n r"
  shows "own_inv vt (snd (push (vt n) (v_type (vt n)) OWNED n False False s))"
proof -
  let ?s = "snd (push (vt n) (v_type (vt n)) OWNED n False False s)"
  let ?r = "length (heap s)"
  have wf: "wf_state ?s" using ok_push own_inv_wf [OF inv] by (auto simp: ok_step_def)
  have st: "stack ?s = stack s @ [?r]" by (simp add: push_def Let_def new_label_def)
  have ent: "entry_at ?s q = entry_at s q" if "q < ?r" for q
    using that by (simp add: push_def Let_def new_label_def entry_at_def nth_append)
  have new: "entry_of vt ?s ?r n" "\<not> ep_cancelled (entry_at ?s ?r)"
    by (simp_all add: push_def Let_def new_label_def entry_at_def entry_of_def)
  have bs: "dict_get (bindings ?s) m = (if m = n then Some \<lparr>b_operand = vt n, b_type = v_type (vt n),
      b_state = OWNED, b_entry = Some ?r\<rparr> else dict_get (bindings s) m)" for m
    by (simp add: push_def Let_def new_label_def)
  have lt: "q < ?r" if "q \<in> set (stack s)" for q using wf_stack_lt [OF own_inv_wf [OF inv] that] .
  show ?thesis
  proof (rule own_inv_transfer [OF lo inv wf, of n])
    show "captured_labels ?s = {}" using own_inv_temps(3) [OF inv] by (simp add: push_def Let_def new_label_def)
    show "\<forall>i\<in>fst ` set (temp_states ?s). i < next_temp (gen ?s)" "distinct (map fst (temp_states ?s))"
      using own_inv_temps(1,2) [OF inv] by (simp_all add: push_def Let_def new_label_def)
    show "q \<in> set (stack ?s) \<and> entry_at ?s q = entry_at s q" if "q \<in> set (stack s)" for q
      using that lt ent st by simp
    show "(\<exists>b. dict_get (bindings ?s) n = Some b \<and> b_entry b = Some q \<and> b_state b = OWNED) \<or>
        q \<in> set (stack s) \<and> entry_at ?s q = entry_at s q \<and> \<not> holds s n q" if "q \<in> set (stack ?s)" for q
      using that lt ent st assms(3) by (auto simp: bs)
    show "q \<in> set (stack ?s) \<and> entry_of vt ?s q n \<and> b_operand b = vt n \<and> b_type b = v_type (vt n) \<and>
        (b_state b = OWNED \<longleftrightarrow> \<not> ep_cancelled (entry_at ?s q))"
      if "dict_get (bindings ?s) n = Some b" "b_entry b = Some q" for b q
      using that new st by (auto simp: bs)
  qed (simp add: bs)
qed

lemma push_owned_vars:
  assumes "locals_ok vt" and "own_inv vt s" and "\<And>r. \<not> holds s n r" and "agree g \<rho> \<rho>1"
  shows "owned_vars (snd (push (vt n) (v_type (vt n)) OWNED n False False s)) (\<rho>1(LVar (v_oid (vt n)) := x)) =
    owned_vars s \<rho> + mset (refs_of (v_type (vt n)) x)"
proof -
  let ?s = "snd (push (vt n) (v_type (vt n)) OWNED n False False s)"
  let ?\<rho> = "\<rho>1(LVar (v_oid (vt n)) := x)"
  let ?r = "length (heap s)"
  have st: "stack ?s = stack s @ [?r]" by (simp add: push_def Let_def new_label_def)
  have lt: "q < ?r" if "q \<in> set (stack s)" for q using wf_stack_lt [OF own_inv_wf [OF assms(2)] that] .
  have ent: "entry_at ?s q = entry_at s q" if "q < ?r" for q
    using that by (simp add: push_def Let_def new_label_def entry_at_def nth_append)
  have "entry_refs (entry_at ?s q) ?\<rho> = entry_refs (entry_at s q) \<rho>" if "q \<in> set (stack s)" for q
    using store_other_entries [OF assms(1,2) that assms(4), of n] ent [OF lt [OF that]] assms(3)
    by (auto simp: holds_def)
  then have "(\<Sum>q\<in>set (stack s). mset (entry_refs (entry_at ?s q) ?\<rho>)) = owned_vars s \<rho>"
    by (simp add: owned_vars_def)
  moreover have "?r \<notin> set (stack s)" using lt by blast
  moreover have "entry_refs (entry_at ?s ?r) ?\<rho> = refs_of (v_type (vt n)) x"
    by (simp add: push_def Let_def new_label_def entry_at_def entry_refs_def)
  ultimately show ?thesis unfolding owned_vars_def [of ?s] st by simp
qed

text \<open>The values of the owned locals have the shape of their types.\<close>

definition vals_ok :: "(string \<Rightarrow> var) \<Rightarrow> cfg_state \<Rightarrow> env \<Rightarrow> bool" where
  "vals_ok vt s \<rho> \<longleftrightarrow>
     (\<forall>n b r. dict_get (bindings s) n = Some b \<longrightarrow> b_entry b = Some r \<longrightarrow> b_state b = OWNED \<longrightarrow>
        val_ok (v_type (vt n)) (\<rho> (LVar (v_oid (vt n)))))"

lemma assign_local_balance:
  assumes lo: "locals_ok vt" and inv: "own_inv vt s" and vals: "vals_ok vt s \<rho>"
    and a: "assign_local E (vt n) s = (is, s')"
  obtains es \<rho>1 where "exec R is \<rho> = Some (es, \<rho>1)" and "agree (gen s) \<rho> \<rho>1" and "no_return is"
    and "retained es = {#}" and "own_inv vt s'" and "temp_states s' = temp_states s"
    and "\<forall>x. owned_vars s' (\<rho>1(LVar (v_oid (vt n)) := x)) + released es = owned_vars s \<rho> + mset (refs_of (v_type (vt n)) x)"
    and "\<exists>r. dict_get (bindings s') n = Some \<lparr>b_operand = vt n, b_type = v_type (vt n), b_state = OWNED, b_entry = Some r\<rparr>"
    and "\<forall>m. m \<noteq> n \<longrightarrow> dict_get (bindings s') m = dict_get (bindings s) m"
proof (cases "\<exists>r. holds s n r")
  case False
  then have h: "\<And>r. \<not> holds s n r" by blast
  have n: "v_stem (vt n) = n" using lo by (simp add: locals_ok_def)
  from h a n have "is = []" "s' = snd (push (vt n) (v_type (vt n)) OWNED n False False s)"
    by (auto simp: assign_local_def holds_def split: option.splits)
  with that [of "[]" \<rho>] push_own_inv [OF lo inv h] push_owned_vars [OF lo inv h agree_refl]
  show ?thesis by (simp add: push_def Let_def new_label_def)
next
  case True
  then obtain r b where r: "holds s n r" and b: "dict_get (bindings s) n = Some b" "b_entry b = Some r"
    by (auto simp: holds_def)
  note B = own_inv_binding [OF inv b] and H = holds_entry [OF inv r]
  let ?t = "v_type (vt n)" and ?x = "\<rho> (LVar (v_oid (vt n)))"
  have n: "v_stem (vt n) = n" "wf_type ?t" using lo by (simp_all add: locals_ok_def)
  obtain is1 s1 where d: "(if b_state b = OWNED then decref E ?t (OVar (vt n)) s else ([], s)) = (is1, s1)"
    by (metis surj_pair)
  let ?es = "if b_state b = OWNED then map ERelease (refs_of ?t ?x) else []"
  obtain \<rho>1 where e: "exec R is1 \<rho> = Some (?es, \<rho>1)" "agree (gen s) \<rho> \<rho>1" "no_return is1"
    "gen_le (gen s) (gen s1)" "s1 = s\<lparr>gen := gen s1\<rparr>"
  proof (cases "b_state b = OWNED")
    case True
    with vals b have v: "val_ok ?t (value_of \<rho> (OVar (vt n)))" by (auto simp: vals_ok_def)
    have bl: "below (gen s) (OVar (vt n))" by (simp add: below_def)
    have dd: "decref E ?t (OVar (vt n)) s = (is1, s1)" using d True by simp
    obtain \<rho>' where "exec R is1 \<rho> = Some (map ERelease (refs_of ?t (value_of \<rho> (OVar (vt n)))), \<rho>')"
      "agree (gen s) \<rho> \<rho>'" "no_return is1" "gen_le (gen s) (gen s1)" "s1 = s\<lparr>gen := gen s1\<rparr>"
      by (rule decref_agree [OF dd n(2) bl v])
    with that [of \<rho>'] True show ?thesis by simp
  next
    case False
    with d that [of \<rho>] show ?thesis by simp
  qed
  obtain g where s1: "s1 = s\<lparr>gen := g\<rparr>" and g: "gen_le (gen s) g" using e(4,5) by metis
  let ?s' = "s\<lparr>gen := g, heap := (heap s)[r := (entry_at s r)\<lparr>ep_cancelled := False\<rparr>],
      bindings := dict_set n \<lparr>b_operand = vt n, b_type = ?t, b_state = OWNED, b_entry = Some r\<rparr> (bindings s)\<rparr>"
  have res: "is = is1" "s' = ?s'"
    using a d b n s1 by (auto simp: assign_local_def replace_binding_def)
  have ent: "entry_at ?s' q = (if q = r then (entry_at s r)\<lparr>ep_cancelled := False\<rparr> else entry_at s q)" for q
    using H by (simp add: entry_at_def)
  have old: "entry_refs (entry_at s r) \<rho> = (if b_state b = OWNED then refs_of ?t ?x else [])"
    using B(2,5) by (auto simp: entry_refs_def entry_of_def)
  have new: "entry_refs (entry_at ?s' r) (\<rho>1(LVar (v_oid (vt n)) := x)) = refs_of ?t x" for x
    unfolding ent using B(2) by (simp add: entry_refs_def entry_of_def)
  have "owned_vars ?s' (\<rho>1(LVar (v_oid (vt n)) := x)) + mset (entry_refs (entry_at s r) \<rho>) =
      owned_vars s \<rho> + mset (refs_of ?t x)" for x
    using store_owned_vars [OF lo inv e(2) _ r, of ?s' x] ent new by auto
  then have "owned_vars s' (\<rho>1(LVar (v_oid (vt n)) := x)) + released ?es = owned_vars s \<rho> + mset (refs_of ?t x)" for x
    using old res by (cases "b_state b = OWNED") simp_all
  moreover have "own_inv vt s'" unfolding res by (rule replace_own_inv [OF lo inv r g])
  moreover have "temp_states s' = temp_states s"
    "\<exists>r. dict_get (bindings s') n = Some \<lparr>b_operand = vt n, b_type = ?t, b_state = OWNED, b_entry = Some r\<rparr>"
    "m \<noteq> n \<Longrightarrow> dict_get (bindings s') m = dict_get (bindings s) m" for m
    unfolding res by simp_all
  moreover have "retained ?es = {#}" by simp
  ultimately show ?thesis using that [of ?es \<rho>1] e(1-3) unfolding res(1) by blast
qed

text \<open>Definite assignment and unchecked results do not matter for ownership.\<close>

lemma own_inv_live_fields:
  "own_inv vt (s\<lparr>live := L\<rparr>) = own_inv vt s" "own_inv vt (s\<lparr>unchecked_results := U\<rparr>) = own_inv vt s"
  "owned (s\<lparr>live := L\<rparr>) \<rho> = owned s \<rho>" "owned (s\<lparr>unchecked_results := U\<rparr>) \<rho> = owned s \<rho>"
  "vals_ok vt (s\<lparr>live := L\<rparr>) \<rho> = vals_ok vt s \<rho>" "vals_ok vt (s\<lparr>unchecked_results := U\<rparr>) \<rho> = vals_ok vt s \<rho>"
  by (simp_all add: own_inv_def wf_state_def entry_of_def entry_at_def owned_def owned_vars_def owned_temps_def
      vals_ok_def)

lemma source_ok_fields:
  "source_ok (s\<lparr>live := L\<rparr>) x al t \<rho> = source_ok s x al t \<rho>"
  "source_ok (s\<lparr>unchecked_results := U\<rparr>) x al t \<rho> = source_ok s x al t \<rho>"
  by (cases x; simp add: source_ok_def is_fresh_temp_def handoff_ok_def)+

lemma assign_unfold:
  assumes "assign E d x al tr False s = (Inr is, s')" and "is_rc (v_type d)" and "\<not> v_is_global d"
  obtains s1 is1 s2 is2 where "s1 = (s\<lparr>live := insert (v_stem d) (live s)\<rparr>)\<lparr>unchecked_results := unchecked_results s1\<rparr>"
    and "assign_source E d x al s1 = (is1, s2)" and "assign_local E d s2 = (is2, s')" and "is = is1 @ is2"
proof -
  let ?m = "mark_live (v_stem d) s"
  let ?s1 = "if tr \<and> is_result_type (v_type d) then track_result (v_stem d) ?m else clear_result (v_stem d) ?m"
  have rc: "has_rc (v_type d)" using assms(2) by (simp add: has_rc_def rc_leaves_iff_is_rc)
  obtain is1 s2 where 1: "assign_source E d x al ?s1 = (is1, s2)" by (metis surj_pair)
  obtain is2 s3 where 2: "assign_local E d s2 = (is2, s3)" by (metis surj_pair)
  have "is = is1 @ is2" "s' = s3"
    using assms 1 2 rc by (auto simp: assign_def Let_def split: if_splits prod.splits)
  with 1 2 that [of ?s1] show ?thesis
    by (simp add: mark_live_def track_result_def clear_result_def)
qed

lemma assign_total: "v_stem d \<notin> unchecked_results s \<Longrightarrow> \<exists>is s'. assign E d x al tr bo s = (Inr is, s')"
  by (auto simp: assign_def Let_def mark_live_def split_beta)

lemma assign_balance:
  assumes lo: "locals_ok vt" and inv: "own_inv vt s" and vals: "vals_ok vt s \<rho>"
    and src: "source_ok s x al (v_type (vt n)) \<rho>"
    and a: "assign E (vt n) x al tr False s = (Inr is, s')"
  obtains es \<rho>' where "exec R (is @ [Assign (OVar (vt n)) x]) \<rho> = Some (es, \<rho>')"
    and "owned s' \<rho>' + released es = owned s \<rho> + retained es" and "own_inv vt s'" and "vals_ok vt s' \<rho>'"
proof -
  let ?d = "vt n" and ?t = "v_type (vt n)"
  have d: "is_rc ?t" "\<not> v_is_global ?d" "wf_type ?t" using lo by (simp_all add: locals_ok_def)
  obtain s1 is1 s2 is2 where s1: "s1 = (s\<lparr>live := insert (v_stem ?d) (live s)\<rparr>)\<lparr>unchecked_results := unchecked_results s1\<rparr>"
    and 1: "assign_source E ?d x al s1 = (is1, s2)" and 2: "assign_local E ?d s2 = (is2, s')" and "is": "is = is1 @ is2"
    by (rule assign_unfold [OF a d(1,2)])
  obtain U where s1': "s1 = (s\<lparr>live := insert (v_stem ?d) (live s)\<rparr>)\<lparr>unchecked_results := U\<rparr>" using s1 by metis
  have inv1: "own_inv vt s1" "vals_ok vt s1 \<rho>" "source_ok s1 x al ?t \<rho>" "owned s1 \<rho> = owned s \<rho>" "gen s1 = gen s"
    using inv vals src by (simp_all only: s1' own_inv_live_fields source_ok_fields) simp
  obtain es1 \<rho>1 where A: "exec R is1 \<rho> = Some (es1, \<rho>1)" "agree (gen s1) \<rho> \<rho>1" "no_return is1"
    "released es1 = {#}" "source_frame s1 s2"
    "owned_temps s2 \<rho>1 + mset (refs_of ?t (value_of \<rho> x)) = owned_temps s1 \<rho> + retained es1"
    by (rule assign_source_balance [OF 1 d(3) inv1(3) own_inv_temps(2,1) [OF inv1(1)]])
  have inv2: "own_inv vt s2" by (rule source_frame_own_inv [OF A(5) inv1(1)])
  have frame: "bindings s2 = bindings s1" "stack s2 = stack s1" "heap s2 = heap s1" "gen_le (gen s1) (gen s2)"
    using A(5) by (simp_all add: source_frame_def)
  have vals2: "vals_ok vt s2 \<rho>1" using inv1(2) A(2) by (simp add: vals_ok_def frame agree_def)
  obtain es2 \<rho>2 where B: "exec R is2 \<rho>1 = Some (es2, \<rho>2)" "agree (gen s2) \<rho>1 \<rho>2" "no_return is2"
    "retained es2 = {#}" "own_inv vt s'" "temp_states s' = temp_states s2"
    "\<forall>y. owned_vars s' (\<rho>2(LVar (v_oid ?d) := y)) + released es2 = owned_vars s2 \<rho>1 + mset (refs_of ?t y)"
    "\<exists>r. dict_get (bindings s') n = Some \<lparr>b_operand = vt n, b_type = v_type (vt n), b_state = OWNED, b_entry = Some r\<rparr>"
    "\<forall>m. m \<noteq> n \<longrightarrow> dict_get (bindings s') m = dict_get (bindings s2) m"
    by (rule assign_local_balance [OF lo inv2 vals2 2, where R = R])
  have ag: "agree (gen s) \<rho> \<rho>2" using agree_trans [OF A(2) B(2) frame(4)] inv1(5) by simp
  have x: "value_of \<rho>2 x = value_of \<rho> x" "val_ok ?t (value_of \<rho> x)"
    using agree_value [OF ag] src by (auto simp: source_ok_def)
  let ?\<rho>' = "\<rho>2(LVar (v_oid ?d) := value_of \<rho> x)"
  have "exec R (is @ [Assign (OVar ?d) x]) \<rho> = Some ((es1 @ es2) @ [], ?\<rho>')"
    unfolding "is"
    by (rule exec_append_Some [OF exec_append_Some [OF A(1,3) B(1)]]) (use A(3) B(3) x in auto)
  moreover have "owned_temps s' ?\<rho>' = owned_temps s2 \<rho>1"
  proof -
    have "owned_temps s' ?\<rho>' = owned_temps s' \<rho>2" by (simp add: owned_temps_def temp_refs_def cong: option.case_cong)
    also have "\<dots> = owned_temps s2 \<rho>1" using owned_temps_agree [OF B(2) own_inv_temps(1) [OF inv2] B(6)] .
    finally show ?thesis .
  qed
  moreover have "owned_vars s2 \<rho>1 = owned_vars s1 \<rho>"
    by (rule owned_vars_cong [OF frame(2)])
      (use A(2) frame in \<open>auto simp: entry_refs_def entry_at_def agree_def split: option.splits\<close>)
  ultimately have "owned s' ?\<rho>' + released (es1 @ es2) = owned s \<rho> + retained (es1 @ es2)"
    using A(4,6) B(4) B(7) inv1(4) by (simp add: owned_def) (metis add.assoc add.commute)
  moreover have "vals_ok vt s' ?\<rho>'"
  proof -
    have "val_ok (v_type (vt m)) (?\<rho>' (LVar (v_oid (vt m))))"
      if "dict_get (bindings s') m = Some b" "b_entry b = Some r" "b_state b = OWNED" for m b r
    proof (cases "m = n")
      case True
      then show ?thesis using x by simp
    next
      case False
      then have "v_oid (vt m) \<noteq> v_oid (vt n)" using lo by (auto simp: locals_ok_def)
      moreover have "val_ok (v_type (vt m)) (\<rho>2 (LVar (v_oid (vt m))))"
        using vals2 B(2) B(9) False that by (auto simp: vals_ok_def agree_def)
      ultimately show ?thesis by simp
    qed
    then show ?thesis unfolding vals_ok_def by blast
  qed
  ultimately show ?thesis using that [of "es1 @ es2" ?\<rho>'] B(5)
    \<open>exec R (is @ [Assign (OVar ?d) x]) \<rho> = Some ((es1 @ es2) @ [], ?\<rho>')\<close> by simp
qed

subsection \<open>Giving up a local\<close>

lemma set_replace_first_distinct:
  "distinct xs \<Longrightarrow> a \<in> set xs \<Longrightarrow> set (replace_first a b xs) = insert b (set xs - {a})"
  by (induction xs) auto

text \<open>
  The state after the entry of the local \<open>n\<close> was cancelled and its binding removed or replaced by one
  that does not own it.
\<close>

lemma cancelled_local:
  assumes lo: "locals_ok vt" and inv: "own_inv vt s" and r: "holds s n r"
    and "heap s' = heap s @ [(entry_at s r)\<lparr>ep_cancelled := True\<rparr>]"
    and "stack s' = replace_first r (length (heap s)) (stack s)"
    and "captured_labels s' = {}" and "temp_states s' = temp_states s" and "gen_le (gen s) (gen s')"
    and wf: "wf_state s'"
    and others: "\<And>m. m \<noteq> n \<Longrightarrow> dict_get (bindings s') m = dict_get (bindings s) m"
    and own: "\<And>b. dict_get (bindings s') n = Some b \<Longrightarrow>
      b_entry b = Some (length (heap s)) \<and> b_operand b = vt n \<and> b_type b = v_type (vt n) \<and> b_state b \<noteq> OWNED"
  shows "own_inv vt s'" and "owned_vars s' \<rho> + mset (entry_refs (entry_at s r) \<rho>) = owned_vars s \<rho>"
proof -
  note H = holds_entry [OF inv r]
  let ?r' = "length (heap s)"
  have d: "distinct (stack s)" by (rule own_inv_distinct [OF inv])
  have st: "set (stack s') = insert ?r' (set (stack s) - {r})"
    using set_replace_first_distinct [OF d, of r ?r'] H assms(5) by simp
  have ent: "entry_at s' q = entry_at s q" if "q < ?r'" for q using that by (simp add: entry_at_def assms(4) nth_append)
  have new: "entry_at s' ?r' = (entry_at s r)\<lparr>ep_cancelled := True\<rparr>" by (simp add: entry_at_def assms(4))
  have lt: "q < ?r'" if "q \<in> set (stack s)" for q using wf_stack_lt [OF own_inv_wf [OF inv] that] .
  show "own_inv vt s'"
  proof (rule own_inv_transfer [OF lo inv wf assms(6), of n])
    show "\<forall>i\<in>fst ` set (temp_states s'). i < next_temp (gen s')" "distinct (map fst (temp_states s'))"
      using own_inv_temps(1,2) [OF inv] assms(7,8) by (auto simp: gen_le_def)
    show "q \<in> set (stack s') \<and> entry_at s' q = entry_at s q" if "q \<in> set (stack s)" "\<not> holds s n q" for q
      using that st ent lt r by auto
    show "(\<exists>b. dict_get (bindings s') n = Some b \<and> b_entry b = Some q \<and> b_state b = OWNED) \<or>
        q \<in> set (stack s) \<and> entry_at s' q = entry_at s q \<and> \<not> holds s n q"
      if "q \<in> set (stack s')" "\<not> ep_cancelled (entry_at s' q)" for q
      using that st ent lt new holds_unique [OF r] by auto
    show "q \<in> set (stack s') \<and> entry_of vt s' q n \<and> b_operand b = vt n \<and> b_type b = v_type (vt n) \<and>
        (b_state b = OWNED \<longleftrightarrow> \<not> ep_cancelled (entry_at s' q))"
      if "dict_get (bindings s') n = Some b" "b_entry b = Some q" for b q
      using own [OF that(1)] that(2) H st new by (auto simp: entry_of_def)
  qed (rule others)
  have "?r' \<notin> set (stack s)" using lt by blast
  moreover have "entry_refs (entry_at s' ?r') \<rho> = []" by (simp add: new entry_refs_def)
  moreover have "(\<Sum>q\<in>set (stack s) - {r}. mset (entry_refs (entry_at s' q) \<rho>)) =
      (\<Sum>q\<in>set (stack s) - {r}. mset (entry_refs (entry_at s q) \<rho>))"
    by (rule sum.cong) (use ent lt in auto)
  ultimately show "owned_vars s' \<rho> + mset (entry_refs (entry_at s r) \<rho>) = owned_vars s \<rho>"
    using H by (simp add: owned_vars_def st sum.remove [of "set (stack s)" r])
qed

lemma neutralize_uncaptured:
  assumes "captured_labels s = {}"
  shows "neutralize E r s = ((length (heap s), []),
    s\<lparr>heap := heap s @ [(entry_at s r)\<lparr>ep_cancelled := True\<rparr>], stack := replace_first r (length (heap s)) (stack s)\<rparr>)"
  using assms by (simp add: neutralize_def Let_def)

lemma move_balance:
  assumes lo: "locals_ok vt" and inv: "own_inv vt s" and r: "holds s n r"
    and m: "move E (OVar (vt n)) s = (Inr is, s')"
  shows "is = []" and "own_inv vt s'"
    and "owned s' \<rho> + mset (refs_of (v_type (vt n)) (\<rho> (LVar (v_oid (vt n))))) = owned s \<rho>"
    and "bindings s' = dict_set n \<lparr>b_operand = vt n, b_type = v_type (vt n), b_state = MOVED,
      b_entry = Some (length (heap s))\<rparr> (bindings s)"
proof -
  obtain b where b: "dict_get (bindings s) n = Some b" "b_entry b = Some r" using r by (auto simp: holds_def)
  note B = own_inv_binding [OF inv b] and H = holds_entry [OF inv r]
  have n: "v_stem (vt n) = n" using lo by (simp add: locals_ok_def)
  have own: "b_state b = OWNED" using m b n by (auto simp: move_def split: if_splits)
  have res: "is = []" "s' = set_moved n b (Some (length (heap s))) (snd (neutralize E r s))"
    using m b n own neutralize_uncaptured [OF own_inv_temps(3) [OF inv]] by (auto simp: move_def)
  show "is = []" by (rule res)
  show "bindings s' = dict_set n \<lparr>b_operand = vt n, b_type = v_type (vt n), b_state = MOVED,
      b_entry = Some (length (heap s))\<rparr> (bindings s)"
    using res(2) B(3,4) by (simp add: set_moved_def neutralize_uncaptured [OF own_inv_temps(3) [OF inv]])
  have wf: "wf_state s'" using ok_move [of s E "OVar (vt n)"] m own_inv_wf [OF inv] by (simp add: ok_step_def)
  note N = neutralize_uncaptured [OF own_inv_temps(3) [OF inv], of E r]
  note C = cancelled_local [OF lo inv r, of s']
  show "own_inv vt s'"
    by (rule C(1)) (use res(2) N B(3,4) own_inv_temps(3) [OF inv] wf in \<open>auto simp: set_moved_def\<close>)
  have "owned_vars s' \<rho> + mset (entry_refs (entry_at s r) \<rho>) = owned_vars s \<rho>"
    by (rule C(2)) (use res(2) N B(3,4) own_inv_temps(3) [OF inv] wf in \<open>auto simp: set_moved_def\<close>)
  moreover have "entry_refs (entry_at s r) \<rho> = refs_of (v_type (vt n)) (\<rho> (LVar (v_oid (vt n))))"
    using B(2,5) own by (simp add: entry_refs_def entry_of_def)
  moreover have "owned_temps s' \<rho> = owned_temps s \<rho>"
    using res(2) N by (simp add: owned_temps_def set_moved_def)
  ultimately show "owned s' \<rho> + mset (refs_of (v_type (vt n)) (\<rho> (LVar (v_oid (vt n))))) = owned s \<rho>"
    by (simp add: owned_def ac_simps)
qed

lemma deleted_balance:
  assumes lo: "locals_ok vt" and inv: "own_inv vt s" and vals: "vals_ok vt s \<rho>" and r: "holds s n r"
    and d: "deleted E (vt n) s = (Inr is, s')"
  obtains es \<rho>' where "exec R is \<rho> = Some (es, \<rho>')" and "agree (gen s) \<rho> \<rho>'" and "own_inv vt s'"
    and "owned s' \<rho>' + released es = owned s \<rho>" and "retained es = {#}" and "bindings s' = dict_pop n (bindings s)"
proof -
  let ?t = "v_type (vt n)"
  obtain b where b: "dict_get (bindings s) n = Some b" "b_entry b = Some r" using r by (auto simp: holds_def)
  note B = own_inv_binding [OF inv b] and H = holds_entry [OF inv r]
  have n: "v_stem (vt n) = n" "wf_type ?t" using lo by (simp_all add: locals_ok_def)
  let ?s1 = "s\<lparr>live := live s - {n}, bindings := dict_pop n (bindings s)\<rparr>"
  obtain is1 s2 where dd: "(if b_state b = OWNED then decref E ?t (OVar (vt n)) ?s1 else ([], ?s1)) = (is1, s2)"
    by (metis surj_pair)
  let ?es = "if b_state b = OWNED then map ERelease (refs_of ?t (\<rho> (LVar (v_oid (vt n))))) else []"
  obtain \<rho>' where e: "exec R is1 \<rho> = Some (?es, \<rho>')" "agree (gen s) \<rho> \<rho>'"
    "gen_le (gen s) (gen s2)" "s2 = ?s1\<lparr>gen := gen s2\<rparr>"
  proof (cases "b_state b = OWNED")
    case True
    with vals b have v: "val_ok ?t (value_of \<rho> (OVar (vt n)))" by (auto simp: vals_ok_def)
    have bl: "below (gen ?s1) (OVar (vt n))" by (simp add: below_def)
    have "decref E ?t (OVar (vt n)) ?s1 = (is1, s2)" using dd True by simp
    from decref_agree [OF this n(2) bl v] obtain \<rho>' where
      "exec R is1 \<rho> = Some (map ERelease (refs_of ?t (value_of \<rho> (OVar (vt n)))), \<rho>')"
      "agree (gen ?s1) \<rho> \<rho>'" "gen_le (gen ?s1) (gen s2)" "s2 = ?s1\<lparr>gen := gen s2\<rparr>" by metis
    with that [of \<rho>'] True show ?thesis by simp
  next
    case False
    with dd that [of \<rho>] show ?thesis by (auto simp: gen_le_def)
  qed
  obtain g where s2: "s2 = ?s1\<lparr>gen := g\<rparr>" and g: "gen_le (gen s) g" using e(3,4) by metis
  have cap: "captured_labels s2 = {}" using own_inv_temps(3) [OF inv] s2 by simp
  note N = neutralize_uncaptured [OF cap, of E r]
  have res: "is = is1" "s' = snd (neutralize E r s2)"
    using d b n dd B(4) N by (auto simp: deleted_def Let_def split: if_splits prod.splits)
  have wf: "wf_state s'" using ok_deleted [of s E "vt n"] d own_inv_wf [OF inv] by (simp add: ok_step_def)
  have ent: "entry_at s2 r = entry_at s r" using s2 by (simp add: entry_at_def)
  note C = cancelled_local [OF lo inv r, of s']
  have pre: "own_inv vt s'" "owned_vars s' \<rho> + mset (entry_refs (entry_at s r) \<rho>) = owned_vars s \<rho>"
    by (rule C; use res(2) N s2 ent cap wf g in simp)+
  have "owned_vars s' \<rho>' = owned_vars s' \<rho>"
    by (rule owned_vars_cong) (use e(2) in \<open>auto simp: entry_refs_def agree_def split: option.splits\<close>)
  moreover have "owned_temps s' \<rho>' = owned_temps s \<rho>"
    by (rule owned_temps_agree [OF e(2) own_inv_temps(1) [OF inv]]) (unfold res(2) N, simp add: s2)
  moreover have "mset (entry_refs (entry_at s r) \<rho>) = released ?es"
    using B(2,5) by (auto simp: entry_refs_def entry_of_def)
  ultimately have "owned s' \<rho>' + released ?es = owned s \<rho>"
    using pre(2) by (simp add: owned_def ac_simps)
  moreover have "bindings s' = dict_pop n (bindings s)" unfolding res(2) N by (simp add: s2)
  ultimately show ?thesis using that [of ?es \<rho>'] e(1,2) pre(1) res(1) by simp
qed

subsection \<open>Temporaries\<close>

lemma owned_vars_temps [simp]: "owned_vars (s\<lparr>temp_states := T\<rparr>) \<rho> = owned_vars s \<rho>"
  by (simp add: owned_vars_def entry_at_def)

lemma own_inv_temps_upd:
  assumes "own_inv vt s" and "\<forall>i\<in>fst ` set T. i < next_temp g" and "distinct (map fst T)" and "gen_le (gen s) g"
  shows "own_inv vt (s\<lparr>temp_states := T, gen := g\<rparr>)"
proof -
  have e: "entry_at (s\<lparr>temp_states := T, gen := g\<rparr>) = entry_at s" by (simp add: entry_at_def fun_eq_iff)
  show ?thesis
    using assms unfolding own_inv_def entry_of_def e by (auto simp: wf_state_def e gen_le_def)
qed

text \<open>A call returns a value in a new temporary: the function receives the references it carries.\<close>

lemma fresh_temp_balance:
  assumes inv: "own_inv vt s" and ty: "is_rc ty" and tm: "new_temp ty (gen s) = (tm, g)"
  shows "own_inv vt (fresh_temp tm ty (s\<lparr>gen := g\<rparr>))"
    and "owned (fresh_temp tm ty (s\<lparr>gen := g\<rparr>)) (\<rho>(LTemp (temp_id tm) := y)) = owned s \<rho> + mset (refs_of ty y)"
    and "vals_ok vt (fresh_temp tm ty (s\<lparr>gen := g\<rparr>)) (\<rho>(LTemp (temp_id tm) := y)) = vals_ok vt s \<rho>"
proof -
  let ?i = "temp_id tm" and ?\<rho> = "\<rho>(LTemp (temp_id tm) := y)"
  let ?T = "dict_set ?i ty (temp_states s)"
  have i: "?i = next_temp (gen s)" "g = (gen s)\<lparr>next_temp := Suc (next_temp (gen s))\<rparr>"
    using tm by (auto simp: new_temp_def)
  have s': "fresh_temp tm ty (s\<lparr>gen := g\<rparr>) = s\<lparr>temp_states := ?T, gen := g\<rparr>"
    using ty by (simp add: fresh_temp_def has_rc_def rc_leaves_iff_is_rc)
  have old: "\<forall>j\<in>fst ` set (temp_states s). j < ?i" using own_inv_temps(1) [OF inv] i by simp
  have keys: "fst ` set ?T = insert ?i (fst ` set (temp_states s))"
    using dict_keys_set [of ?i ty "temp_states s"] by simp
  show "own_inv vt (fresh_temp tm ty (s\<lparr>gen := g\<rparr>))"
    unfolding s'
    by (rule own_inv_temps_upd [OF inv])
      (use old i keys own_inv_temps(2) [OF inv] dict_distinct_set in \<open>auto simp: gen_le_def less_SucI\<close>)
  have fresh: "?i \<notin> fst ` set (temp_states s)" using old by blast
  have "(\<Sum>j\<in>fst ` set (temp_states s). mset (temp_refs ?T ?\<rho> j)) = owned_temps s \<rho>"
    unfolding owned_temps_def
  proof (rule sum.cong)
    fix j assume "j \<in> fst ` set (temp_states s)"
    with fresh have "j \<noteq> ?i" by blast
    then show "mset (temp_refs ?T ?\<rho> j) = mset (temp_refs (temp_states s) \<rho> j)"
      by (simp add: temp_refs_def cong: option.case_cong)
  qed simp
  then have "owned_temps (s\<lparr>temp_states := ?T, gen := g\<rparr>) ?\<rho> = mset (refs_of ty y) + owned_temps s \<rho>"
    using fresh by (simp add: owned_temps_def keys) (simp add: temp_refs_def)
  moreover have "owned_vars (s\<lparr>temp_states := ?T, gen := g\<rparr>) ?\<rho> = owned_vars s \<rho>"
    by (rule owned_vars_cong) (auto simp: entry_refs_def entry_at_def split: option.splits)
  ultimately show "owned (fresh_temp tm ty (s\<lparr>gen := g\<rparr>)) ?\<rho> = owned s \<rho> + mset (refs_of ty y)"
    unfolding s' by (simp add: owned_def ac_simps)
  show "vals_ok vt (fresh_temp tm ty (s\<lparr>gen := g\<rparr>)) ?\<rho> = vals_ok vt s \<rho>"
    unfolding s' by (simp add: vals_ok_def)
qed

lemma delete_temp_balance:
  assumes inv: "own_inv vt s" and ty: "dict_get (temp_states s) (temp_id tm) = Some ty" "wf_type ty"
    and v: "val_ok ty (\<rho> (LTemp (temp_id tm)))" and d: "delete_temp E tm s = (is, s')"
  obtains es \<rho>' where "exec R is \<rho> = Some (es, \<rho>')" and "agree (gen s) \<rho> \<rho>'" and "own_inv vt s'"
    and "owned s' \<rho>' + released es = owned s \<rho>" and "retained es = {#}" and "bindings s' = bindings s"
proof -
  let ?i = "temp_id tm"
  let ?s1 = "s\<lparr>temp_states := dict_pop ?i (temp_states s)\<rparr>"
  have dd: "decref E ty (OTemp tm) ?s1 = (is, s')" using d ty(1) by (simp add: delete_temp_def Let_def)
  have "?i \<in> fst ` set (temp_states s)" using ty(1) by (metis map_of_SomeD fst_conv imageI)
  then have bl: "below (gen ?s1) (OTemp tm)" using own_inv_temps(1) [OF inv] by (auto simp: below_def)
  obtain \<rho>' where e: "exec R is \<rho> = Some (map ERelease (refs_of ty (value_of \<rho> (OTemp tm))), \<rho>')"
    "agree (gen ?s1) \<rho> \<rho>'" "no_return is" "gen_le (gen ?s1) (gen s')" "s' = ?s1\<lparr>gen := gen s'\<rparr>"
    by (rule decref_agree [OF dd ty(2) bl, of \<rho> R]) (use v in auto)
  obtain g where s': "s' = ?s1\<lparr>gen := g\<rparr>" and g: "gen_le (gen s) g" using e(4,5) by (metis cfg_state.select_convs(20) cfg_state.surjective cfg_state.update_convs(14))
  have inv': "own_inv vt s'"
    unfolding s' by (rule own_inv_temps_upd [OF inv])
      (use own_inv_temps(1,2) [OF inv] g distinct_delete in \<open>auto simp: AList.delete_eq gen_le_def\<close>)
  have "owned_temps s' \<rho>' = owned_temps ?s1 \<rho>"
    by (rule owned_temps_agree [OF e(2)]) (use own_inv_temps(1) [OF inv] s' in \<open>auto simp: AList.delete_eq\<close>)
  moreover have "owned_vars s' \<rho>' = owned_vars s \<rho>"
    by (rule owned_vars_cong) (use e(2) s' in \<open>auto simp: entry_refs_def entry_at_def agree_def split: option.splits\<close>)
  ultimately have "owned s' \<rho>' + mset (refs_of ty (\<rho> (LTemp ?i))) = owned s \<rho>"
    using owned_temps_pop [OF own_inv_temps(2) [OF inv] ty(1)] by (simp add: owned_def ac_simps)
  with that [of "map ERelease (refs_of ty (value_of \<rho> (OTemp tm)))" \<rho>'] e inv' s' show ?thesis by simp
qed

subsection \<open>Returning\<close>

lemma own_inv_entry_ok:
  assumes lo: "locals_ok vt" and inv: "own_inv vt s" and vals: "vals_ok vt s \<rho>"
    and r: "r \<in> set (stack s)" "\<not> ep_cancelled (entry_at s r)"
  shows "entry_ok R (gen s) (entry_at s r) \<rho>"
    and "entry_events R ce err (entry_at s r) \<rho> = map ERelease (entry_refs (entry_at s r) \<rho>)"
proof -
  obtain n b where n: "entry_of vt s r n" "dict_get (bindings s) n = Some b" "b_entry b = Some r" "b_state b = OWNED"
    by (rule own_inv_live [OF inv r])
  have "val_ok (v_type (vt n)) (\<rho> (LVar (v_oid (vt n))))" "wf_type (v_type (vt n))"
    using vals n(2-4) lo by (auto simp: vals_ok_def locals_ok_def)
  with n(1) r(2) show "entry_ok R (gen s) (entry_at s r) \<rho>"
    "entry_events R ce err (entry_at s r) \<rho> = map ERelease (entry_refs (entry_at s r) \<rho>)"
    by (auto simp: entry_of_def entry_ok_def entry_events_def release_events_def entry_refs_def labels_of_def Let_def)
qed

lemma released_concat: "released (concat (map (\<lambda>r. map ERelease (f r)) rs)) = (\<Sum>r\<leftarrow>rs. mset (f r))"
  by (induction rs) auto

text \<open>A \<^verbatim>\<open>return\<close> of anything but a live local releases all that the locals own.\<close>

lemma return_balance:
  assumes lo: "locals_ok vt" and inv: "own_inv vt s" and vals: "vals_ok vt s \<rho>"
    and "inline_scopes s = []" and "\<not> has_live_entry x s"
    and U: "cfg_return E (build_is_err_check bc f v) x s = (U, s')"
  shows "\<exists>es \<rho>'. exec R U \<rho> = Some (es, \<rho>') \<and> released es = owned_vars s \<rho>"
proof -
  let ?rs = "filter (\<lambda>r. \<not> ep_cancelled (entry_at s r) \<and> \<not> returns_entry x (entry_at s r)) (rev (stack s))"
  have "scope_floor s = 0" by (simp add: scope_floor_def assms(4))
  with rec_check.return_runs [OF U own_inv_entry_ok(1) [OF lo inv vals], of R]
  have run: "runs R U \<rho> (concat (map (\<lambda>r. entry_events R [ECall f] (truth (R f)) (entry_at s r) \<rho>) ?rs))"
    by simp
  have "concat (map (\<lambda>r. entry_events R [ECall f] (truth (R f)) (entry_at s r) \<rho>) ?rs) =
      concat (map (\<lambda>r. map ERelease (entry_refs (entry_at s r) \<rho>)) ?rs)"
    by (intro arg_cong [where f = concat] map_cong) (use own_inv_entry_ok(2) [OF lo inv vals] in auto)
  then have "released (concat (map (\<lambda>r. entry_events R [ECall f] (truth (R f)) (entry_at s r) \<rho>) ?rs)) =
      (\<Sum>r\<leftarrow>?rs. mset (entry_refs (entry_at s r) \<rho>))"
    by (simp add: released_concat)
  also have "\<dots> = (\<Sum>r\<in>set ?rs. mset (entry_refs (entry_at s r) \<rho>))"
    by (rule sum_list_distinct_conv_sum_set) (simp add: own_inv_distinct [OF inv])
  also have "\<dots> = owned_vars s \<rho>"
    unfolding owned_vars_def
    by (rule sum.mono_neutral_left) (use assms(5) in \<open>auto simp: has_live_entry_def entry_refs_def\<close>)
  finally show ?thesis using run by (auto simp: runs_def)
qed

subsection \<open>Straight-line code\<close>

text \<open>
  One statement of straight-line code: the ownership state and the run-time store before and after, the
  events, the references received from a called function and those given away by a move.
\<close>

inductive sl_step :: "(string \<Rightarrow> rval) \<Rightarrow> cenv \<Rightarrow> (string \<Rightarrow> var) \<Rightarrow> cfg_state \<times> env \<Rightarrow>
    event list \<Rightarrow> nat multiset \<Rightarrow> nat multiset \<Rightarrow> cfg_state \<times> env \<Rightarrow> bool" for R E vt where
  sl_assign: "source_ok s x al (v_type (vt n)) \<rho> \<Longrightarrow> assign E (vt n) x al tr False s = (Inr is, s') \<Longrightarrow>
    exec R (is @ [Assign (OVar (vt n)) x]) \<rho> = Some (es, \<rho>') \<Longrightarrow> sl_step R E vt (s, \<rho>) es {#} {#} (s', \<rho>')"
| sl_move: "holds s n r \<Longrightarrow> move E (OVar (vt n)) s = (Inr is, s') \<Longrightarrow> exec R is \<rho> = Some (es, \<rho>') \<Longrightarrow>
    sl_step R E vt (s, \<rho>) es {#} (mset (refs_of (v_type (vt n)) (\<rho> (LVar (v_oid (vt n)))))) (s', \<rho>')"
| sl_del: "holds s n r \<Longrightarrow> deleted E (vt n) s = (Inr is, s') \<Longrightarrow> exec R is \<rho> = Some (es, \<rho>') \<Longrightarrow>
    sl_step R E vt (s, \<rho>) es {#} {#} (s', \<rho>')"
| sl_call: "is_rc ty \<Longrightarrow> new_temp ty (gen s) = (tm, g) \<Longrightarrow>
    sl_step R E vt (s, \<rho>) [] (mset (refs_of ty y)) {#}
      (fresh_temp tm ty (s\<lparr>gen := g\<rparr>), \<rho>(LTemp (temp_id tm) := y))"
| sl_drop: "dict_get (temp_states s) (temp_id tm) = Some ty \<Longrightarrow> wf_type ty \<Longrightarrow>
    val_ok ty (\<rho> (LTemp (temp_id tm))) \<Longrightarrow> delete_temp E tm s = (is, s') \<Longrightarrow> exec R is \<rho> = Some (es, \<rho>') \<Longrightarrow>
    sl_step R E vt (s, \<rho>) es {#} {#} (s', \<rho>')"

inductive sl_run :: "(string \<Rightarrow> rval) \<Rightarrow> cenv \<Rightarrow> (string \<Rightarrow> var) \<Rightarrow> cfg_state \<times> env \<Rightarrow>
    event list \<Rightarrow> nat multiset \<Rightarrow> nat multiset \<Rightarrow> cfg_state \<times> env \<Rightarrow> bool" for R E vt where
  sl_done: "sl_run R E vt c [] {#} {#} c"
| sl_more: "sl_step R E vt c es rc gv c1 \<Longrightarrow> sl_run R E vt c1 es' rc' gv' c2 \<Longrightarrow>
    sl_run R E vt c (es @ es') (rc + rc') (gv + gv') c2"

lemma vals_ok_agree: "vals_ok vt s \<rho> \<Longrightarrow> agree g \<rho> \<rho>' \<Longrightarrow> bindings s' = bindings s \<Longrightarrow> vals_ok vt s' \<rho>'"
  by (simp add: vals_ok_def agree_def)

lemma vals_ok_subset:
  assumes "vals_ok vt s \<rho>" and "agree g \<rho> \<rho>'"
    and "\<And>m b. dict_get (bindings s') m = Some b \<Longrightarrow> b_state b = OWNED \<Longrightarrow> dict_get (bindings s) m = Some b"
  shows "vals_ok vt s' \<rho>'"
  using assms unfolding vals_ok_def agree_def by metis

lemma sl_step_balance:
  assumes "sl_step R E vt (s, \<rho>) es rc gv (s', \<rho>')" and lo: "locals_ok vt" and inv: "own_inv vt s"
    and vals: "vals_ok vt s \<rho>"
  shows "own_inv vt s' \<and> vals_ok vt s' \<rho>' \<and> owned s' \<rho>' + released es + gv = owned s \<rho> + retained es + rc"
  using assms(1)
proof (cases rule: sl_step.cases)
  case (sl_assign x al n tr "is")
  obtain es1 \<rho>1 where "exec R (is @ [Assign (OVar (vt n)) x]) \<rho> = Some (es1, \<rho>1)"
    "owned s' \<rho>1 + released es1 = owned s \<rho> + retained es1" "own_inv vt s'" "vals_ok vt s' \<rho>1"
    by (rule assign_balance [OF lo inv vals sl_assign(3,4), of R])
  with sl_assign show ?thesis by simp
next
  case (sl_move n r "is")
  note M = move_balance [OF lo inv sl_move(3,4)]
  have "vals_ok vt s' \<rho>"
    by (rule vals_ok_subset [OF vals agree_refl]) (use M(4) in \<open>auto split: if_splits\<close>)
  with M(1,2) M(3) [of \<rho>] sl_move show ?thesis by (auto simp: ac_simps)
next
  case (sl_del n r "is")
  obtain es1 \<rho>1 where d: "exec R is \<rho> = Some (es1, \<rho>1)" "agree (gen s) \<rho> \<rho>1" "own_inv vt s'"
    "owned s' \<rho>1 + released es1 = owned s \<rho>" "retained es1 = {#}" "bindings s' = dict_pop n (bindings s)"
    by (rule deleted_balance [OF lo inv vals sl_del(3,4), of R])
  have "vals_ok vt s' \<rho>1" by (rule vals_ok_subset [OF vals d(2)]) (use d(6) in \<open>auto split: if_splits\<close>)
  with d sl_del show ?thesis by simp
next
  case (sl_call ty tm g y)
  note F = fresh_temp_balance [OF inv]
  from sl_call vals show ?thesis by (auto simp: F)
next
  case (sl_drop tm ty "is")
  obtain es1 \<rho>1 where d: "exec R is \<rho> = Some (es1, \<rho>1)" "agree (gen s) \<rho> \<rho>1" "own_inv vt s'"
    "owned s' \<rho>1 + released es1 = owned s \<rho>" "retained es1 = {#}" "bindings s' = bindings s"
    by (rule delete_temp_balance [OF inv sl_drop(3,4) _ sl_drop(6), where \<rho> = \<rho> and R = R, OF sl_drop(5)])
  with vals_ok_agree [OF vals d(2,6)] sl_drop show ?thesis by simp
qed

lemma sl_run_balance:
  "sl_run R E vt c es rc gv c' \<Longrightarrow> locals_ok vt \<Longrightarrow> own_inv vt (fst c) \<Longrightarrow> vals_ok vt (fst c) (snd c) \<Longrightarrow>
   own_inv vt (fst c') \<and> vals_ok vt (fst c') (snd c') \<and>
   owned (fst c') (snd c') + released es + gv = owned (fst c) (snd c) + retained es + rc"
proof (induction rule: sl_run.induct)
  case (sl_more c es rc gv c1 es' rc' gv' c2)
  then have 1: "own_inv vt (fst c1) \<and> vals_ok vt (fst c1) (snd c1) \<and>
      owned (fst c1) (snd c1) + released es + gv = owned (fst c) (snd c) + retained es + rc"
    using sl_step_balance [of R E vt "fst c" "snd c" es rc gv "fst c1" "snd c1"] by simp
  with sl_more.IH sl_more.prems(1) have
    2: "own_inv vt (fst c2) \<and> vals_ok vt (fst c2) (snd c2) \<and>
      owned (fst c2) (snd c2) + released es' + gv' = owned (fst c1) (snd c1) + retained es' + rc'"
    by blast
  have "owned (fst c2) (snd c2) + released (es @ es') + (gv + gv') =
      (owned (fst c2) (snd c2) + released es' + gv') + released es + gv" by (simp add: ac_simps)
  also have "\<dots> = (owned (fst c1) (snd c1) + released es + gv) + retained es' + rc'"
    using 2 by (simp add: ac_simps)
  also have "\<dots> = owned (fst c) (snd c) + retained (es @ es') + (rc + rc')"
    using 1 by (simp add: ac_simps)
  finally show ?case using 2 by simp
qed simp

subsection \<open>Properties\<close>

text \<open>
  An assignment to a local keeps the books: the code \<^verbatim>\<open>assign\<close> emits, followed by the store,
  runs to its end; the references the function owns afterwards, plus those released, are those it owned
  before plus those retained.  The old value is released exactly when the local owned one, an alias is
  retained, a temporary hands its references over; also when source and destination are the same variable.
\<close>

lemma assign_keeps_balance:
  assumes "locals_ok vt" and "own_inv vt s" and "vals_ok vt s \<rho>"
    and "source_ok s x is_alias (v_type (vt n)) \<rho>"
    and "assign E (vt n) x is_alias track False s = (Inr is, s')"
  shows "\<exists>es \<rho>'. exec R (is @ [Assign (OVar (vt n)) x]) \<rho> = Some (es, \<rho>') \<and>
    owned s' \<rho>' + released es = owned s \<rho> + retained es \<and> own_inv vt s'"
  using assign_balance [OF assms, of R] by metis

text \<open>A function with one owned parameter \<open>p\<close>, which holds the object 7.\<close>

definition demo_locals :: "string \<Rightarrow> var" where
  "demo_locals n = Variable (to_nat n) n n demo_class False False"

lemma demo_locals_ok: "locals_ok demo_locals"
  by (auto simp: locals_ok_def demo_locals_def demo_class_def dest: injD [OF inj_to_nat])

definition demo_one :: cfg_state where
  "demo_one = init_state demo_env [\<lparr>p_var = demo_locals ''p'', p_is_move = True, p_is_copy = False\<rparr>]
     \<lparr>next_temp = 0, next_label = 0\<rparr> 100"

definition demo_one_run :: env where
  "demo_one_run l = (if l = LVar (to_nat ''p'') then VRef 7 else VOther)"

lemma demo_one_simps:
  "stack demo_one = [0]" "captured_labels demo_one = {}" "temp_states demo_one = []" "inline_scopes demo_one = []"
  "gen demo_one = \<lparr>next_temp = 0, next_label = 1\<rparr>" "unchecked_results demo_one = {}"
  "bindings demo_one = [(''p'', \<lparr>b_operand = demo_locals ''p'', b_type = demo_class, b_state = OWNED, b_entry = Some 0\<rparr>)]"
  "entry_at demo_one 0 = \<lparr>ep_instructions = [], ep_name = (''epilogue'', 0), ep_operand = Some (demo_locals ''p''),
     ep_type = Some demo_class, ep_flag = None, ep_is_err_only = False, ep_cancelled = False,
     ep_is_construction_attr = False, ep_survives_loop_restore = False\<rparr>"
  by (simp_all add: demo_one_def init_state_def empty_state_def enter_parameter_def push_def new_label_def
      has_rc_def Let_def demo_locals_def demo_class_def entry_at_def)

lemma demo_one_inv: "own_inv demo_locals demo_one" "vals_ok demo_locals demo_one demo_one_run"
proof -
  have "wf_state demo_one" unfolding demo_one_def by (rule init_state_wf)
  then show "own_inv demo_locals demo_one"
    by (auto simp: own_inv_def demo_one_simps entry_of_def demo_locals_def split: if_splits)
  show "vals_ok demo_locals demo_one demo_one_run"
    by (auto simp: vals_ok_def demo_one_simps demo_locals_def demo_class_def val_ok.simps split: if_splits)
qed

lemma assign_keeps_balance_example:
  "\<exists>es \<rho>' is s'. assign demo_env (demo_locals ''q'') (OVar (demo_locals ''p'')) True True False demo_one = (Inr is, s') \<and>
     exec (\<lambda>_. VNull) (is @ [Assign (OVar (demo_locals ''q'')) (OVar (demo_locals ''p''))]) demo_one_run = Some (es, \<rho>') \<and>
     owned s' \<rho>' + released es = owned demo_one demo_one_run + retained es"
proof -
  obtain "is" s' where a: "assign demo_env (demo_locals ''q'') (OVar (demo_locals ''p'')) True True False demo_one = (Inr is, s')"
    using assign_total [where d = "demo_locals ''q''" and s = demo_one and E = demo_env
        and x = "OVar (demo_locals ''p'')" and al = True and tr = True and bo = False]
    by (auto simp: demo_one_simps)
  have "source_ok demo_one (OVar (demo_locals ''p'')) True (v_type (demo_locals ''q'')) demo_one_run"
    by (simp add: source_ok_def is_fresh_temp_def below_def demo_locals_def demo_class_def val_ok.simps)
  from assign_keeps_balance [OF demo_locals_ok demo_one_inv this a] a show ?thesis by blast
qed



end
