(* ===== verification/Cfg_Join.thy ===== *)
theory Cfg_Join
  imports Cfg_Balance
begin

text \<open>
  What holds after control flow joins: which names are definitely assigned, which results are still
  unchecked, what a union is narrowed to, which ownership disagreements are errors, and that the back
  edge of a loop releases what the body declared.
\<close>

subsection \<open>Narrowing\<close>

lemma combine_members_oids:
  "v_oid ` set (combine_members xs ys) = v_oid ` set xs \<union> v_oid ` set ys"
  by (induction xs ys rule: combine_members.induct) (auto simp: list_ex_iff)

lemma merge_narrowings_get:
  "dict_get (merge_narrowings a b) n =
     (case (dict_get a n, dict_get b n) of
        (Some ms, Some ms') \<Rightarrow> Some (combine_members ms ms') | _ \<Rightarrow> None)"
  by (induction a b rule: merge_narrowings.induct) (auto split: option.splits)

text \<open>A union that holds the member \<open>m\<close> respects a narrowing.\<close>

definition narrow_ok :: "narrowing \<Rightarrow> string \<Rightarrow> nat \<Rightarrow> bool" where
  "narrow_ok nar n m \<longleftrightarrow> (case dict_get nar n of Some ms \<Rightarrow> m \<in> v_oid ` set ms | None \<Rightarrow> True)"

lemma narrow_ok_merge:
  "narrow_ok a n m \<Longrightarrow> narrow_ok (merge_narrowings a b) n m"
  "narrow_ok b n m \<Longrightarrow> narrow_ok (merge_narrowings a b) n m"
  by (auto simp: narrow_ok_def merge_narrowings_get combine_members_oids split: option.splits)

lemma narrow_ok_fold:
  "narrow_ok c n m \<or> (\<exists>x\<in>set cs. narrow_ok x n m) \<Longrightarrow>
   narrow_ok (fold (\<lambda>other acc. merge_narrowings acc other) cs c) n m"
proof (induction cs arbitrary: c)
  case (Cons d cs)
  then show ?case using narrow_ok_merge [of c n m d] narrow_ok_merge(2) [of d n m c] by auto
qed auto

lemma fold_Int: "fold (\<lambda>other m. m \<inter> other) ls l = l \<inter> \<Inter> (set ls)"
  by (induction ls arbitrary: l) auto

subsection \<open>Which disagreements are errors\<close>

text \<open>The two branches can be joined at the name \<open>n\<close>.\<close>

definition mergeable :: "bindings \<Rightarrow> bindings \<Rightarrow> bindings \<Rightarrow> string \<Rightarrow> bool" where
  "mergeable entry te fe n \<longleftrightarrow>
     (case (dict_get te n, dict_get fe n) of
        (Some a, Some b) \<Rightarrow> b_state a = b_state b \<or> {b_state a, b_state b} = {OWNED, BORROWED}
      | (None, None) \<Rightarrow> True
      | _ \<Rightarrow> \<not> dict_has entry n)"

lemma merge_name_ok: "isl (fst (merge_name E entry te fe n s)) \<longleftrightarrow> \<not> mergeable entry te fe n"
  by (auto simp: merge_name_def mergeable_def reconcile_owned_borrowed_def Let_def split_beta
      doubleton_eq_iff split: option.splits)

lemma merge_names_ok: "isl (fst (merge_names E entry te fe ns s)) \<longleftrightarrow> \<not> (\<forall>n\<in>set ns. mergeable entry te fe n)"
proof (induction ns arbitrary: s)
  case (Cons n ns)
  obtain res s1 where 1: "merge_name E entry te fe n s = (res, s1)" by (metis surj_pair)
  obtain res2 s2 where 2: "merge_names E entry te fe ns s1 = (res2, s2)" by (metis surj_pair)
  from merge_name_ok [of E entry te fe n s] Cons [of s1] 1 2 show ?case
    by (cases res; cases res2) (auto split: prod.splits)
qed simp

lemma merge_results_ok:
  "isl (fst (merge_results rns er tr fr s)) \<longleftrightarrow> \<not> (\<forall>n\<in>set rns. n \<in> tr \<and> n \<in> fr)"
  "fst (merge_results rns er tr fr s) = Inr () \<Longrightarrow> unchecked_results (snd (merge_results rns er tr fr s)) = set rns"
  by (auto simp: merge_results_def find_None_iff find_Some_iff split: option.splits)

subsection \<open>The back edge of a loop\<close>

text \<open>A name the loop body declared and owns at the back edge, and what it holds.\<close>

definition loop_local :: "bindings \<Rightarrow> cfg_state \<Rightarrow> string \<Rightarrow> bool" where
  "loop_local entry s n \<longleftrightarrow>
     dict_get entry n = None \<and> (\<exists>b. dict_get (bindings s) n = Some b \<and> b_state b = OWNED)"

definition binding_refs :: "cfg_state \<Rightarrow> env \<Rightarrow> string \<Rightarrow> nat list" where
  "binding_refs s \<rho> n = (case dict_get (bindings s) n of
     Some b \<Rightarrow> refs_of (b_type b) (\<rho> (LVar (v_oid (b_operand b)))) | None \<Rightarrow> [])"

definition stable :: "bindings \<Rightarrow> cfg_state \<Rightarrow> string \<Rightarrow> bool" where
  "stable entry s n \<longleftrightarrow>
     (case (dict_get entry n, dict_get (bindings s) n) of
        (Some a, Some b) \<Rightarrow> b_state a = b_state b | (Some _, None) \<Rightarrow> False | _ \<Rightarrow> True)"

lemma stable_gen [simp]: "stable entry (s\<lparr>gen := g\<rparr>) = stable entry s"
  "loop_local entry (s\<lparr>gen := g\<rparr>) = loop_local entry s" "binding_refs (s\<lparr>gen := g\<rparr>) = binding_refs s"
  by (simp_all add: stable_def loop_local_def binding_refs_def fun_eq_iff)

lemma decref_state: "\<exists>g. snd (decref E t x s) = s\<lparr>gen := g\<rparr>"
  by (auto simp: decref_def split: prod.splits)

lemma back_edge_ok: "isl (fst (back_edge_names E entry ns s)) \<longleftrightarrow> \<not> (\<forall>n\<in>set ns. stable entry s n)"
proof (induction ns arbitrary: s)
  case (Cons n ns)
  have step: "isl (fst (case p of (is1, s1) \<Rightarrow> (case back_edge_names E entry ns s1 of
      (Inl e, s2) \<Rightarrow> (Inl e, s2) | (Inr is2, s2) \<Rightarrow> (Inr (is1 @ is2), s2)))) \<longleftrightarrow>
      \<not> (\<forall>n\<in>set ns. stable entry s n)" if "snd p = s\<lparr>gen := g\<rparr>" for p :: "instr list \<times> cfg_state" and g
    using that Cons [of "s\<lparr>gen := g\<rparr>"] by (cases p) (auto split: prod.splits sum.splits)
  have d: "\<exists>g. snd (if c then decref E t x s else ([], s)) = s\<lparr>gen := g\<rparr>" for c t x
    using decref_state [of E t x s] by (auto intro: exI [of _ "gen s"])
  show ?case
  proof (cases "dict_get entry n")
    case None
    then show ?thesis
    proof (cases "dict_get (bindings s) n")
      case None
      with \<open>dict_get entry n = None\<close> Cons show ?thesis by (simp add: stable_def)
    next
      case (Some b)
      obtain g where "snd (if b_state b = OWNED then decref E (b_type b) (OVar (b_operand b)) s else ([], s)) = s\<lparr>gen := g\<rparr>"
        using d by blast
      from step [OF this] None Some show ?thesis by (simp add: stable_def)
    qed
  next
    case (Some a)
    then show ?thesis using Cons [of s] by (auto simp: stable_def split: option.splits)
  qed
qed simp

lemma back_edge_frame: "\<exists>g. snd (back_edge_names E entry ns s) = s\<lparr>gen := g\<rparr>"
proof (induction ns arbitrary: s)
  case Nil
  show ?case by (auto intro: exI [of _ "gen s"])
next
  case (Cons n ns)
  have same: "\<exists>g. s = s\<lparr>gen := g\<rparr>" by (rule exI [of _ "gen s"]) simp
  have step: "\<exists>g. snd (case p of (is1, s1) \<Rightarrow> (case back_edge_names E entry ns s1 of
      (Inl e, s2) \<Rightarrow> (Inl e, s2) | (Inr is2, s2) \<Rightarrow> (Inr (is1 @ is2), s2))) = s\<lparr>gen := g\<rparr>"
    if "\<exists>g. snd p = s\<lparr>gen := g\<rparr>" for p :: "instr list \<times> cfg_state"
    using that Cons [of "snd p"] by (cases p) (auto split: prod.splits sum.splits)
  show ?case
    using Cons [of s] same step [OF decref_state] step [of "([], s)"]
    by (auto simp: Let_def split: option.splits)
qed

lemma back_edge_runs:
  assumes "back_edge_names E entry ns s = (Inr is, s')"
    and "\<And>n b. n \<in> set ns \<Longrightarrow> loop_local entry s n \<Longrightarrow> dict_get (bindings s) n = Some b \<Longrightarrow>
      wf_type (b_type b) \<and> val_ok (b_type b) (\<rho> (LVar (v_oid (b_operand b))))"
  shows "runs R is \<rho> (concat (map (\<lambda>n. map ERelease (binding_refs s \<rho> n)) (filter (loop_local entry s) ns)))"
  using assms
proof (induction ns arbitrary: s "is" \<rho>)
  case (Cons n ns)
  show ?case
  proof (cases "loop_local entry s n")
    case True
    then obtain b where b: "dict_get entry n = None" "dict_get (bindings s) n = Some b" "b_state b = OWNED"
      by (auto simp: loop_local_def)
    have v: "wf_type (b_type b)" "val_ok (b_type b) (\<rho> (LVar (v_oid (b_operand b))))"
      using Cons.prems(2) [of n b] True b by auto
    obtain is1 s1 where d: "decref E (b_type b) (OVar (b_operand b)) s = (is1, s1)" by (metis surj_pair)
    obtain g where s1: "s1 = s\<lparr>gen := g\<rparr>" using decref_state d by (metis snd_conv)
    obtain is2 where r: "back_edge_names E entry ns s1 = (Inr is2, s')" "is = is1 @ is2"
      using Cons.prems(1) b d by (auto split: prod.splits sum.splits)
    have "runs R is2 \<rho>' (concat (map (\<lambda>n. map ERelease (binding_refs s \<rho> n)) (filter (loop_local entry s) ns)))"
      if v: "vars_same \<rho> \<rho>'" for \<rho>'
    proof -
      have same: "\<rho>' (LVar i) = \<rho> (LVar i)" for i using v by (simp add: vars_same_def)
      then have "binding_refs s \<rho>' m = binding_refs s \<rho> m" for m
        by (simp add: binding_refs_def split: option.splits)
      moreover have "wf_type (b_type c) \<and> val_ok (b_type c) (\<rho>' (LVar (v_oid (b_operand c))))"
        if "m \<in> set ns" "loop_local entry s1 m" "dict_get (bindings s1) m = Some c" for m c
        using Cons.prems(2) [of m c] that by (simp add: s1 same)
      from Cons.IH [OF r(1) this] have
        "runs R is2 \<rho>' (concat (map (\<lambda>n. map ERelease (binding_refs s \<rho>' n)) (filter (loop_local entry s) ns)))"
        by (simp add: s1)
      ultimately show ?thesis by simp
    qed
    from runs_append [OF decref_runs(1) [OF d v(1), of \<rho>, OF v(2)] this]
    show ?thesis using True b r(2) by (simp add: binding_refs_def)
  next
    case False
    then have rest: "back_edge_names E entry ns s = (Inr is, s')"
      using Cons.prems(1) by (auto simp: loop_local_def split: option.splits if_splits prod.splits sum.splits)
    have "runs R is \<rho> (concat (map (\<lambda>n. map ERelease (binding_refs s \<rho> n)) (filter (loop_local entry s) ns)))"
      by (rule Cons.IH [OF rest]) (rule Cons.prems(2), auto)
    with False show ?thesis by simp
  qed
qed simp

subsection \<open>Properties\<close>

lemma merge_if_accepts_iff:
  assumes "\<not> be_terminates te" and "\<not> be_terminates fe"
    and "set names = fst ` set (be_bindings te) \<union> fst ` set (be_bindings fe)"
    and "set rnames = be_results te \<union> be_results fe"
  shows "isl (fst (merge_if E names rnames entry er te fe s)) \<longleftrightarrow>
    \<not> ((\<forall>n. mergeable entry (be_bindings te) (be_bindings fe) n) \<and> be_results te = be_results fe)"
proof -
  have all: "(\<forall>n\<in>set names. mergeable entry (be_bindings te) (be_bindings fe) n) \<longleftrightarrow>
      (\<forall>n. mergeable entry (be_bindings te) (be_bindings fe) n)"
  proof -
    have "mergeable entry (be_bindings te) (be_bindings fe) n" if "n \<notin> set names" for n
    proof -
      have "dict_get (be_bindings te) n = None" "dict_get (be_bindings fe) n = None"
        using that assms(3) by (auto simp: map_of_eq_None_iff)
      then show ?thesis by (simp add: mergeable_def)
    qed
    then show ?thesis by blast
  qed
  obtain res s1 where 1: "merge_names E entry (be_bindings te) (be_bindings fe) names s = (res, s1)"
    by (metis surj_pair)
  have ok1: "isl res \<longleftrightarrow> \<not> (\<forall>n. mergeable entry (be_bindings te) (be_bindings fe) n)"
    using merge_names_ok [of E entry "be_bindings te" "be_bindings fe" names s] 1 all by simp
  obtain res2 s2 where 2: "merge_results rnames er (be_results te) (be_results fe) s1 = (res2, s2)"
    by (metis surj_pair)
  have ok2: "isl res2 \<longleftrightarrow> be_results te \<noteq> be_results fe"
    using merge_results_ok(1) [of rnames er "be_results te" "be_results fe" s1] 2 assms(4) by auto
  show ?thesis using assms(1,2) 1 2 ok1 ok2
    by (cases res; cases res2) (auto simp: merge_if_def)
qed

definition demo_binding :: "own_state \<Rightarrow> binding" where
  "demo_binding st = \<lparr>b_operand = demo_locals ''p'', b_type = demo_class, b_state = st, b_entry = None\<rparr>"

definition demo_end :: "own_state \<Rightarrow> string set \<Rightarrow> string set \<Rightarrow> branch_end" where
  "demo_end st res liv = \<lparr>be_bindings = [(''p'', demo_binding st)], be_results = res, be_narrowed = None,
     be_live = liv, be_terminates = False\<rparr>"

lemma merge_if_live:
  assumes "merge_if E names rnames entry er te fe s = (Inr code, s')"
    and "set rnames = be_results te \<union> be_results fe"
  shows "live s' = (if be_terminates te \<and> be_terminates fe then {} else if be_terminates te then be_live fe
      else if be_terminates fe then be_live te else be_live te \<inter> be_live fe) \<and>
    unchecked_results s' = (if be_terminates te \<and> be_terminates fe then {} else if be_terminates te then be_results fe
      else be_results te)"
proof (cases "be_terminates te \<or> be_terminates fe")
  case True
  then show ?thesis
    using assms by (auto simp: merge_if_def merge_terminating_def Let_def split: if_splits prod.splits)
next
  case False
  obtain res s1 where 1: "merge_names E entry (be_bindings te) (be_bindings fe) names s = (res, s1)"
    by (metis surj_pair)
  obtain res2 s2 where 2: "merge_results rnames er (be_results te) (be_results fe) s1 = (res2, s2)"
    by (metis surj_pair)
  from assms(1) False 1 2 have s': "res2 = Inr ()" "s' = merge_live_soft (be_live te) (be_live fe)
      (merge_narrowed_soft (be_narrowed te) (be_narrowed fe) s2)"
    by (auto simp: merge_if_def split: sum.splits)
  have "be_results te = be_results fe" "unchecked_results s2 = set rnames"
    using merge_results_ok [of rnames er "be_results te" "be_results fe" s1] 2 s'(1) assms(2) by auto
  with False s'(2) assms(2) show ?thesis by (auto simp: merge_live_soft_def merge_narrowed_soft_def)
qed

text \<open>
  C8. An \<^verbatim>\<open>if\<close> of which neither branch leaves is accepted exactly when every name can be joined --
  the two ends agree on its state, or one owns what the other borrows, or it is new on one branch
  only -- and the same results are unchecked at both ends, whatever order the names are visited in.
  After an accepted \<^verbatim>\<open>if\<close> a name counts as definitely assigned, and a result as unchecked,
  exactly as on the ways that reach the join: the intersection of both branches, the branch that does
  not leave, or nothing when both leave.
\<close>

theorem merge_if_correct:
  assumes "set names = fst ` set (be_bindings te) \<union> fst ` set (be_bindings fe)"
    and "set rnames = be_results te \<union> be_results fe"
    and "merge_if E names rnames entry er te fe s = (res, s')"
  shows "(\<not> be_terminates te \<and> \<not> be_terminates fe \<longrightarrow> (isl res \<longleftrightarrow>
      \<not> ((\<forall>n. mergeable entry (be_bindings te) (be_bindings fe) n) \<and> be_results te = be_results fe))) \<and>
    (\<not> isl res \<longrightarrow>
      live s' = (if be_terminates te \<and> be_terminates fe then {} else if be_terminates te then be_live fe
        else if be_terminates fe then be_live te else be_live te \<inter> be_live fe) \<and>
      unchecked_results s' = (if be_terminates te \<and> be_terminates fe then {} else if be_terminates te then be_results fe
        else be_results te))"
proof (intro conjI impI)
  assume "\<not> be_terminates te \<and> \<not> be_terminates fe"
  then show "isl res \<longleftrightarrow>
      \<not> ((\<forall>n. mergeable entry (be_bindings te) (be_bindings fe) n) \<and> be_results te = be_results fe)"
    using merge_if_accepts_iff [of te fe names rnames E entry er s] assms by simp
next
  assume "\<not> isl res"
  then obtain code where "merge_if E names rnames entry er te fe s = (Inr code, s')"
    using assms(3) by (cases res) auto
  from merge_if_live [OF this assms(2)]
  show "live s' = (if be_terminates te \<and> be_terminates fe then {} else if be_terminates te then be_live fe
        else if be_terminates fe then be_live te else be_live te \<inter> be_live fe)"
    and "unchecked_results s' = (if be_terminates te \<and> be_terminates fe then {} else if be_terminates te then be_results fe
        else be_results te)" by blast+
qed

theorem merge_if_correct_witness:
  "isl (fst (merge_if demo_env [''p''] [] [] {} (demo_end OWNED {} {}) (demo_end MOVED {} {}) demo_one)) \<and>
   \<not> isl (fst (merge_if demo_env [''p''] [] [] {} (demo_end OWNED {} {}) (demo_end BORROWED {} {}) demo_one)) \<and>
   live (snd (merge_if demo_env [''p''] [] [] {} (demo_end OWNED {} {''a'', ''b''}) (demo_end BORROWED {} {''b'', ''c''}) demo_one)) = {''b''}"
proof -
  have m: "mergeable [] [(''p'', demo_binding OWNED)] [(''p'', demo_binding BORROWED)] n" for n
    by (simp add: mergeable_def demo_binding_def)
  have "\<not> mergeable [] [(''p'', demo_binding OWNED)] [(''p'', demo_binding MOVED)] ''p''"
    by (simp add: mergeable_def demo_binding_def doubleton_eq_iff)
  note facts = this m merge_if_correct [OF _ _ surjective_pairing, of "[''p'']" _ _ "[]" demo_env "[]" "{}" demo_one]
  show ?thesis
    using facts(1,2) facts(3) [of "demo_end OWNED {} {}" "demo_end MOVED {} {}"]
      facts(3) [of "demo_end OWNED {} {}" "demo_end BORROWED {} {}"]
      facts(3) [of "demo_end OWNED {} {''a'', ''b''}" "demo_end BORROWED {} {''b'', ''c''}"]
    by (auto simp: demo_end_def)
qed

text \<open>
  C9. Narrowing after a loop is sound: if the value of a union respects what was narrowed on the way the
  loop was left -- one of the \<^verbatim>\<open>break\<close>s or the loop's natural exit -- it respects what the compiler
  assumes after the loop; and a name counts as definitely assigned there only if it does on every way.
\<close>

theorem merge_loop_exits_sound:
  assumes "nar \<in> set (break_nar @ (case natural of None \<Rightarrow> [] | Some n \<Rightarrow> [n]))" and "narrow_ok nar n m"
    and "L \<in> set (break_liv @ (case natural_live of None \<Rightarrow> [] | Some l \<Rightarrow> [l]))"
  shows "narrow_ok (narrowed (merge_loop_exits natural break_nar natural_live break_liv s)) n m \<and>
    live (merge_loop_exits natural break_nar natural_live break_liv s) \<subseteq> L"
proof -
  let ?cs = "break_nar @ (case natural of None \<Rightarrow> [] | Some n \<Rightarrow> [n])"
  let ?ls = "break_liv @ (case natural_live of None \<Rightarrow> [] | Some l \<Rightarrow> [l])"
  obtain c cs where c: "?cs = c # cs" using assms(1) by (cases ?cs) auto
  obtain l ls where l: "?ls = l # ls" using assms(3) by (cases ?ls) auto
  have "narrow_ok c n m \<or> (\<exists>x\<in>set cs. narrow_ok x n m)" using assms(1,2) c by auto
  from narrow_ok_fold [OF this] have "narrow_ok (narrowed (merge_loop_exits natural break_nar natural_live break_liv s)) n m"
    by (simp add: merge_loop_exits_def Let_def c)
  moreover have "live (merge_loop_exits natural break_nar natural_live break_liv s) = l \<inter> \<Inter> (set ls)"
    by (simp add: merge_loop_exits_def Let_def l fold_Int)
  ultimately show ?thesis using assms(3) l by auto
qed

theorem merge_loop_exits_sound_witness:
  "narrow_ok (narrowed (merge_loop_exits None [[(''u'', [demo_locals ''a''])], [(''u'', [demo_locals ''b''])]]
     (Some {''x''}) [{''x'', ''y''}] demo_one)) ''u'' (to_nat ''b'') \<and>
   live (merge_loop_exits None [[(''u'', [demo_locals ''a''])], [(''u'', [demo_locals ''b''])]]
     (Some {''x''}) [{''x'', ''y''}] demo_one) \<subseteq> {''x''}"
  by (rule merge_loop_exits_sound [of "[(''u'', [demo_locals ''b''])]"]) (simp_all add: narrow_ok_def demo_locals_def)

text \<open>
  C11. The back edge of a loop is accepted exactly when every name known before the loop has the same
  ownership state at its end and no result produced in the body is left unchecked; the emitted code
  then releases what each owned local of the body holds, each once.
\<close>

theorem loop_back_edge_correct:
  assumes "set names = fst ` set entry \<union> fst ` set (bindings s)"
    and "\<forall>n b. loop_local entry s n \<longrightarrow> dict_get (bindings s) n = Some b \<longrightarrow>
      wf_type (b_type b) \<and> val_ok (b_type b) (\<rho> (LVar (v_oid (b_operand b))))"
  shows "(isl (fst (loop_back_edge E names entry (Some er) s)) \<longleftrightarrow>
      \<not> ((\<forall>n. stable entry s n) \<and> unchecked_results s \<subseteq> er)) \<and>
    (\<forall>is s'. loop_back_edge E names entry (Some er) s = (Inr is, s') \<longrightarrow>
      (\<exists>\<rho>'. exec R is \<rho> = Some (concat (map (\<lambda>n. map ERelease (binding_refs s \<rho> n))
        (filter (loop_local entry s) names)), \<rho>')))"
proof -
  have all: "(\<forall>n\<in>set names. stable entry s n) \<longleftrightarrow> (\<forall>n. stable entry s n)"
  proof -
    have "stable entry s n" if "n \<notin> set names" for n
    proof -
      have "dict_get entry n = None" using that assms(1) by (auto simp: map_of_eq_None_iff)
      then show ?thesis by (simp add: stable_def)
    qed
    then show ?thesis by blast
  qed
  obtain res s1 where 1: "back_edge_names E entry names s = (res, s1)" by (metis surj_pair)
  have ok: "isl res \<longleftrightarrow> \<not> (\<forall>n. stable entry s n)" using back_edge_ok [of E entry names s] 1 all by simp
  have run: "runs R is \<rho> (concat (map (\<lambda>n. map ERelease (binding_refs s \<rho> n)) (filter (loop_local entry s) names)))
      \<and> unchecked_results s1 = unchecked_results s" if "res = Inr is" for "is"
    using back_edge_runs [of E entry names s "is" s1 \<rho> R] back_edge_frame [of E entry names s] 1 that assms(2)
    by auto
  show ?thesis
  proof (cases res)
    case (Inl e)
    with 1 ok show ?thesis by (simp add: loop_back_edge_def)
  next
    case (Inr "is")
    with 1 ok run [OF Inr] show ?thesis
      by (auto simp: loop_back_edge_def runs_def Diff_eq_empty_iff split: if_splits)
  qed
qed

theorem loop_back_edge_correct_witness:
  "\<exists>\<rho>'. exec (\<lambda>_. VNull) (projr (fst (loop_back_edge demo_env [''p''] [] (Some {}) demo_one))) demo_one_run =
     Some ([ERelease 7], \<rho>')"
proof -
  have pre: "\<forall>n b. loop_local [] demo_one n \<longrightarrow> dict_get (bindings demo_one) n = Some b \<longrightarrow>
      wf_type (b_type b) \<and> val_ok (b_type b) (demo_one_run (LVar (v_oid (b_operand b))))"
    by (auto simp: demo_one_simps demo_class_def val_ok.simps split: if_splits)
  have loc: "loop_local [] demo_one ''p''" "binding_refs demo_one demo_one_run ''p'' = [7]"
    by (simp_all add: loop_local_def binding_refs_def demo_one_simps demo_class_def refs_of.simps demo_one_run_def demo_locals_def)
  have "set [''p''] = fst ` set [] \<union> fst ` set (bindings demo_one)" by (simp add: demo_one_simps)
  from loop_back_edge_correct [OF this pre, where E = demo_env and er = "{}" and R = "\<lambda>_. VNull"]
  have T: "isl (fst (loop_back_edge demo_env [''p''] [] (Some {}) demo_one)) \<longleftrightarrow>
        \<not> ((\<forall>n. stable [] demo_one n) \<and> unchecked_results demo_one \<subseteq> {})"
    "\<And>is s'. loop_back_edge demo_env [''p''] [] (Some {}) demo_one = (Inr is, s') \<Longrightarrow>
      \<exists>\<rho>'. exec (\<lambda>_. VNull) is demo_one_run = Some (concat (map (\<lambda>n. map ERelease (binding_refs demo_one demo_one_run n))
        (filter (loop_local [] demo_one) [''p''])), \<rho>')"
    by blast+
  have "\<not> isl (fst (loop_back_edge demo_env [''p''] [] (Some {}) demo_one))"
    using T(1) by (simp add: stable_def demo_one_simps)
  then obtain "is" where "loop_back_edge demo_env [''p''] [] (Some {}) demo_one = (Inr is, snd (loop_back_edge demo_env [''p''] [] (Some {}) demo_one))"
    by (metis sum.collapse(2) surjective_pairing)
  from T(2) [OF this] this loc show ?thesis by (metis (no_types, lifting) concat.simps filter.simps fst_conv list.map append_Nil2 sum.sel(2))
qed

subsection \<open>Construction of self\<close>

lemma nth_list_update_any: "xs[i := x] ! j = (if i = j \<and> i < length xs then x else xs ! j)"
  by (cases "i < length xs") (auto simp: list_update_beyond)

lemma cancel_attr_frame:
  "bindings (cancel_attr a s) = bindings s" "length (heap (cancel_attr a s)) = length (heap s)"
  "construction_required (cancel_attr a s) = construction_required s" "stack (cancel_attr a s) = stack s"
  "construction_self (cancel_attr a s) = construction_self s"
  "ep_cancelled (entry_at s r) \<Longrightarrow> ep_cancelled (entry_at (cancel_attr a s) r)"
  by (auto simp: cancel_attr_def entry_at_def nth_list_update_any split: option.splits)

lemma fold_cancel_attr:
  "bindings (fold cancel_attr as s) = bindings s \<and> length (heap (fold cancel_attr as s)) = length (heap s) \<and>
   construction_required (fold cancel_attr as s) = construction_required s \<and>
   construction_self (fold cancel_attr as s) = construction_self s \<and> stack (fold cancel_attr as s) = stack s \<and>
   (ep_cancelled (entry_at s r) \<longrightarrow> ep_cancelled (entry_at (fold cancel_attr as s) r)) \<and>
   (\<forall>a\<in>set as. \<forall>b. dict_get (bindings s) (self_key a) = Some b \<longrightarrow> b_entry b = Some r \<longrightarrow> r < length (heap s) \<longrightarrow>
      ep_cancelled (entry_at (fold cancel_attr as s) r))"
proof (induction as arbitrary: s)
  case (Cons a as)
  have "ep_cancelled (entry_at (cancel_attr a s) r)"
    if "dict_get (bindings s) (self_key a) = Some b" "b_entry b = Some r" "r < length (heap s)" for b
    using that by (simp add: cancel_attr_def entry_at_def)
  with Cons.IH [of "cancel_attr a s"] cancel_attr_frame [where a = a and s = s] show ?case by auto
qed simp

text \<open>
  C12. An \<^verbatim>\<open>__init__\<close> may complete exactly when every required attribute has been set; then the
  entries of all attributes are cancelled -- the object owns them from now on, the epilogue does not
  release them -- and \<^verbatim>\<open>self\<close> may escape anywhere afterwards.
\<close>

theorem complete_construction_correct:
  "(isl (fst (complete_construction s)) \<longleftrightarrow>
      (\<exists>attr\<in>set (construction_required s). dict_get (bindings s) (self_key attr) = None)) \<and>
   (fst (complete_construction s) = Inr () \<longrightarrow>
      (\<forall>attr\<in>set (construction_required s). \<forall>b r. dict_get (bindings s) (self_key attr) = Some b \<longrightarrow>
         b_entry b = Some r \<longrightarrow> r < length (heap s) \<longrightarrow>
         ep_cancelled (entry_at (snd (complete_construction s)) r)) \<and>
      (\<forall>x. check_self_escape x (snd (complete_construction s)) = Inr ()))"
proof -
  have m: "missing_attrs s \<noteq> [] \<longleftrightarrow>
      (\<exists>attr\<in>set (construction_required s). dict_get (bindings s) (self_key attr) = None)"
    by (auto simp: missing_attrs_def filter_empty_conv dict_has_iff)
  have "missing_attrs (fold cancel_attr (construction_required s) s) = missing_attrs s"
    using fold_cancel_attr [of "construction_required s" s] by (simp add: missing_attrs_def)
  then have "check_self_escape x (fold cancel_attr (construction_required s) s) = Inr ()" if "missing_attrs s = []" for x
    using that by (simp add: check_self_escape_def split: option.splits)
  with m fold_cancel_attr [of "construction_required s" s] show ?thesis
    by (auto simp: complete_construction_def)
qed

theorem complete_construction_correct_witness:
  "isl (fst (complete_construction (enter_construction demo_var [demo_locals ''a''] demo_one)))"
proof -
  let ?s = "enter_construction demo_var [demo_locals ''a''] demo_one"
  have "construction_required ?s = [demo_locals ''a'']" by (simp add: enter_construction_def)
  moreover have "dict_get (bindings ?s) (self_key (demo_locals ''a'')) = None"
    by (simp add: enter_construction_def enter_self_def Let_def demo_one_simps demo_locals_def demo_defs)
  ultimately show ?thesis using complete_construction_correct [of ?s] by simp
qed

end
