(* ===== verification/Cfg_Lower.thy ===== *)
theory Cfg_Lower
  imports Cfg_Join
begin

text \<open>
  The order in which the lowering of statements calls the ownership state machine
  (\<^verbatim>\<open>src/lowering_stmt.py\<close>, \<^verbatim>\<open>src/lowering_loop.py\<close>): assignments, \<^verbatim>\<open>del\<close>, inspections of
  results, \<^verbatim>\<open>or_return()\<close>, \<^verbatim>\<open>return\<close>, \<^verbatim>\<open>break\<close>, \<^verbatim>\<open>continue\<close>, calls that
  do not return, \<^verbatim>\<open>if\<close> with its two branches and \<^verbatim>\<open>while\<close> with the second attempt at its
  body.  The relation \<open>lowers\<close> describes the accepted lowerings: every call of the state machine
  succeeded.  A statement keeps of its expressions the steps that concern results, in the order in
  which they are lowered; everything else an expression does is the step \<open>Aside\<close>.  Beside it
  stands what the statements do when they run: the ways through a body, with the events that concern
  results.
\<close>

subsection \<open>Statements\<close>

datatype estep =
    Aside
  | AssignTo var operand bool bool bool
  | Inspect string
  | OrReturn operand

datatype stm =
    SDo "estep list"
  | SDelete var
  | SReturn "operand option"
  | SBreak
  | SContinue
  | SNoReturn
  | SIf "estep list" "stm list" "stm list"
  | SWhile bool "estep list" "stm list"

text \<open>
  \<open>AssignTo dest src is_alias track_result borrow\<close> has the arguments of \<^verbatim>\<open>assign\<close>;
  \<open>SWhile True\<close> is the loop whose test is the literal \<^verbatim>\<open>True\<close>.
\<close>

fun has_break :: "stm \<Rightarrow> bool" where
  "has_break SBreak = True"
| "has_break (SIf t b e) = (list_ex has_break b \<or> list_ex has_break e)"
| "has_break _ = False"

definition loop_has_reachable_break :: "stm list \<Rightarrow> bool" where
  "loop_has_reachable_break body = list_ex has_break body"

lemma size_last: "xs \<noteq> [] \<Longrightarrow> size (last xs) < Suc (size_list size xs)"
  by (simp add: size_list_estimation' [OF last_in_set] less_Suc_eq_le)

function stmt_diverges :: "stm \<Rightarrow> bool" where
  "stmt_diverges (SReturn x) = True"
| "stmt_diverges SBreak = True"
| "stmt_diverges SContinue = True"
| "stmt_diverges SNoReturn = True"
| "stmt_diverges (SIf t b e) =
     (if b = [] \<or> e = [] then False else stmt_diverges (last b) \<and> stmt_diverges (last e))"
| "stmt_diverges (SWhile forever t b) = (forever \<and> \<not> loop_has_reachable_break b)"
| "stmt_diverges (SDo ss) = False"
| "stmt_diverges (SDelete v) = False"
  by pat_completeness auto

termination stmt_diverges
proof (relation "measure size")
  show "wf (measure (size :: stm \<Rightarrow> nat))" by simp
next
  fix t :: "estep list" and b e :: "stm list"
  assume "\<not> (b = [] \<or> e = [])"
  then show "(last b, SIf t b e) \<in> measure size" "(last e, SIf t b e) \<in> measure size"
    using size_last [of b] size_last [of e] by simp_all
qed

definition terminates :: "stm list \<Rightarrow> bool" where
  "terminates body \<longleftrightarrow> body \<noteq> [] \<and> stmt_diverges (last body)"

subsection \<open>Accepted lowerings\<close>

text \<open>The calls beside the discipline of results: an operation that leaves it alone, or a committed jump.\<close>

inductive aside :: "cenv \<Rightarrow> cfg_state \<Rightarrow> cfg_state \<Rightarrow> bool" for E where
  aside_op: "plain_op E s s' \<Longrightarrow> aside E s s'"
| aside_jump: "current_epilogue_label x True s = (Some l, s') \<Longrightarrow> aside E s s'"
| aside_jump_err: "current_epilogue_label_for_construction_err E x s = ((Some l, is), s') \<Longrightarrow> aside E s s'"

definition inspect_operand :: "operand \<Rightarrow> cfg_state \<Rightarrow> cfg_state" where
  "inspect_operand x s = (case x of OVar v \<Rightarrow> clear_result (v_stem v) s | _ \<Rightarrow> s)"

inductive lowers_step :: "cenv \<Rightarrow> estep \<Rightarrow> cfg_state \<Rightarrow> cfg_state \<Rightarrow> bool" for E where
  lower_aside: "(aside E)\<^sup>*\<^sup>* s s' \<Longrightarrow> lowers_step E Aside s s'"
| lower_assign: "assign E d x a t b s = (Inr is, s') \<Longrightarrow> lowers_step E (AssignTo d x a t b) s s'"
| lower_inspect: "lowers_step E (Inspect n) s (clear_result n s)"
| lower_or_return: "check_unchecked_results None (inspect_operand x s) = (Inr (), s1) \<Longrightarrow> (aside E)\<^sup>*\<^sup>* s1 s'
    \<Longrightarrow> lowers_step E (OrReturn x) s s'"

inductive lowers_steps :: "cenv \<Rightarrow> estep list \<Rightarrow> cfg_state \<Rightarrow> cfg_state \<Rightarrow> bool" for E where
  steps_nil: "lowers_steps E [] s s"
| steps_cons: "lowers_step E k s s1 \<Longrightarrow> lowers_steps E ks s1 s' \<Longrightarrow> lowers_steps E (k # ks) s s'"

text \<open>What \<^verbatim>\<open>_stmt_If\<close> keeps of the end of a branch, and of a missing \<^verbatim>\<open>else\<close>.\<close>

definition end_of_branch :: "stm list \<Rightarrow> cfg_state \<Rightarrow> branch_end" where
  "end_of_branch body s =
     \<lparr>be_bindings = bindings s, be_results = unchecked_results s, be_narrowed = Some (narrowed s),
      be_live = live s, be_terminates = terminates body\<rparr>"

definition end_of_no_else :: "snapshot \<Rightarrow> branch_end" where
  "end_of_no_else sn =
     \<lparr>be_bindings = sn_bindings sn, be_results = sn_results sn, be_narrowed = Some (sn_narrowed sn),
      be_live = sn_live sn, be_terminates = False\<rparr>"

definition visits :: "string list \<Rightarrow> bindings \<Rightarrow> bindings \<Rightarrow> bool" where
  "visits names b1 b2 \<longleftrightarrow> set names = fst ` set b1 \<union> fst ` set b2"

text \<open>The join of the two ends, from the restored state; the sets of names in any order.\<close>

inductive joins :: "cenv \<Rightarrow> snapshot \<Rightarrow> branch_end \<Rightarrow> branch_end \<Rightarrow> cfg_state \<Rightarrow> cfg_state \<Rightarrow> bool" for E where
  join: "restore sn s = (Inr (), s1) \<Longrightarrow> visits names (be_bindings te) (be_bindings fe) \<Longrightarrow>
    set rnames = be_results te \<union> be_results fe \<Longrightarrow>
    merge_if E names rnames (sn_bindings sn) (sn_results sn) te fe s1 = (Inr code, s') \<Longrightarrow>
    joins E sn te fe s s'"

text \<open>The names promoted before the second attempt at a loop body, and the snapshot they change.\<close>

fun promote_all :: "cenv \<Rightarrow> string list \<Rightarrow> snapshot \<Rightarrow> cfg_state \<Rightarrow> (cfg_error + snapshot \<times> instr list) \<times> cfg_state" where
  "promote_all E [] sn s = (Inr (sn, []), s)"
| "promote_all E (n # ns) sn s =
     (case promote_borrowed_for_loop E n s of
        (Inl e, s1) \<Rightarrow> (Inl e, s1)
      | (Inr is, s1) \<Rightarrow>
          (case dict_get (bindings s1) n of
             None \<Rightarrow> (Inl (KeyMissing n), s1)
           | Some b \<Rightarrow>
               (case promote_all E ns (sn\<lparr>sn_bindings := dict_set n b (sn_bindings sn)\<rparr>) s1 of
                  (Inl e, s2) \<Rightarrow> (Inl e, s2)
                | (Inr (sn', is'), s2) \<Rightarrow> (Inr (sn', is @ is'), s2))))"

text \<open>The back edge, the restoration and the merge of the exits after an attempt that succeeded.\<close>

definition natural_exit :: "bool \<Rightarrow> snapshot \<Rightarrow> (string \<times> var) option \<Rightarrow> narrowing option \<times> string set option" where
  "natural_exit forever sn overlay =
     (if forever then (None, None)
      else (Some (case overlay of None \<Rightarrow> sn_narrowed sn | Some (n, m) \<Rightarrow> dict_set n [m] (sn_narrowed sn)),
            Some (sn_live sn)))"

inductive leaves_loop ::
  "cenv \<Rightarrow> bool \<Rightarrow> snapshot \<Rightarrow> narrowing list \<Rightarrow> string set list \<Rightarrow> cfg_state \<Rightarrow> cfg_state \<Rightarrow> bool" for E where
  leave: "visits names (sn_bindings sn) (bindings s) \<Longrightarrow>
    loop_back_edge E names (sn_bindings sn) (Some (sn_results sn)) s = (Inr is, s1) \<Longrightarrow>
    restore sn s1 = (Inr (), s2) \<Longrightarrow> natural_exit forever sn overlay = (nn, nl) \<Longrightarrow>
    (aside E)\<^sup>*\<^sup>* (merge_loop_exits nn bn nl bl s2) s' \<Longrightarrow> leaves_loop E forever sn bn bl s s'"

text \<open>
  A back edge that is refused for names that can be promoted: the attempt is rolled back to
  \<open>s0\<close>, the names are promoted.
\<close>

inductive retries :: "cenv \<Rightarrow> cfg_state \<Rightarrow> snapshot \<Rightarrow> cfg_state \<Rightarrow> snapshot \<Rightarrow> cfg_state \<Rightarrow> bool" for E where
  retry: "visits names (sn_bindings sn) (bindings s) \<Longrightarrow>
    loop_back_edge E names (sn_bindings sn) (Some (sn_results sn)) s = (Inl e, s1) \<Longrightarrow>
    set ps = find_promotable_loop_mismatches (sn_bindings sn) s1 \<Longrightarrow> distinct ps \<Longrightarrow> ps \<noteq> [] \<Longrightarrow>
    hard_restore (take_snapshot s0) (truncate_cancel_flags (cancel_flag_count s0) s1) = (Inr (), s2) \<Longrightarrow>
    promote_all E ps sn s2 = (Inr (sn', is), s') \<Longrightarrow> retries E s0 sn s sn' s'"

inductive lowers :: "cenv \<Rightarrow> snapshot option \<Rightarrow> stm \<Rightarrow> cfg_state \<Rightarrow> cfg_state \<Rightarrow> bool"
  and lowers_block :: "cenv \<Rightarrow> snapshot option \<Rightarrow> stm list \<Rightarrow> cfg_state \<Rightarrow> cfg_state \<Rightarrow> bool"
  and lowers_branch :: "cenv \<Rightarrow> snapshot option \<Rightarrow> nat \<Rightarrow> stm list \<Rightarrow> cfg_state \<Rightarrow> cfg_state \<Rightarrow> bool"
  and lower_loop_body ::
    "cenv \<Rightarrow> snapshot \<Rightarrow> stm list \<Rightarrow> cfg_state \<Rightarrow> narrowing list \<Rightarrow> string set list \<Rightarrow> cfg_state \<Rightarrow> bool"
  for E where
  stmt_Do: "lowers_steps E ks s s' \<Longrightarrow> lowers E L (SDo ks) s s'"
| stmt_Delete: "deleted E v s = (Inr is, s') \<Longrightarrow> lowers E L (SDelete v) s s'"
| stmt_Return: "check_unchecked_results x s = (Inr (), s1) \<Longrightarrow> (aside E)\<^sup>*\<^sup>* s1 s' \<Longrightarrow> lowers E L (SReturn x) s s'"
| stmt_Break: "check_loop_exit_unchecked_results (sn_results sn) s = (Inr (), s1) \<Longrightarrow>
    unwind_to E sn (record_break_live (record_break_narrowed s1)) = (is, s') \<Longrightarrow>
    lowers E (Some sn) SBreak s s'"
| stmt_Continue: "check_loop_exit_unchecked_results (sn_results sn) s = (Inr (), s1) \<Longrightarrow>
    unwind_to E sn s1 = (is, s') \<Longrightarrow> lowers E (Some sn) SContinue s s'"
| stmt_NoReturn: "(aside E)\<^sup>*\<^sup>* s s' \<Longrightarrow> lowers E L SNoReturn s s'"
| stmt_If: "lowers_steps E t s s0 \<Longrightarrow> sn = take_snapshot s0 \<Longrightarrow>
    lowers_branch E L (sn_stack_depth sn) body s0 s1 \<Longrightarrow>
    joins E sn (end_of_branch body s1) (end_of_no_else sn) s1 s' \<Longrightarrow>
    lowers E L (SIf t body []) s s'"
| stmt_If_else: "lowers_steps E t s s0 \<Longrightarrow> sn = take_snapshot s0 \<Longrightarrow>
    lowers_branch E L (sn_stack_depth sn) body s0 s1 \<Longrightarrow> orelse \<noteq> [] \<Longrightarrow>
    restore sn s1 = (Inr (), s2) \<Longrightarrow> lowers_branch E L (sn_stack_depth sn) orelse s2 s3 \<Longrightarrow>
    joins E sn (end_of_branch body s1) (end_of_branch orelse s3) s3 s' \<Longrightarrow>
    lowers E L (SIf t body orelse) s s'"
| stmt_While: "lowers_steps E t s s0 \<Longrightarrow> sn = take_snapshot s0 \<Longrightarrow>
    lower_loop_body E sn body s0 bn bl s1 \<Longrightarrow> leaves_loop E forever sn bn bl s1 s' \<Longrightarrow>
    lowers E L (SWhile forever t body) s s'"
| stmt_While_retry: "lowers_steps E t s s0 \<Longrightarrow> sn = take_snapshot s0 \<Longrightarrow>
    lower_loop_body E sn body s0 bn1 bl1 s1 \<Longrightarrow> retries E s0 sn s1 sn' s2 \<Longrightarrow>
    lower_loop_body E sn' body s2 bn bl s3 \<Longrightarrow> leaves_loop E forever sn' bn bl s3 s' \<Longrightarrow>
    lowers E L (SWhile forever t body) s s'"
| block_nil: "lowers_block E L [] s s"
| block_cons: "lowers E L p s s1 \<Longrightarrow> lowers_block E L ps s1 s' \<Longrightarrow> lowers_block E L (p # ps) s s'"
| branch: "lowers_block E L body (enter_branch d s) s1 \<Longrightarrow> exit_branch s1 = (Inr (), s') \<Longrightarrow>
    lowers_branch E L d body s s'"
| loop_body: "lowers_block E (Some sn) body (enter_loop (sn_stack_depth sn) s) s1 \<Longrightarrow>
    exit_loop s1 = (Inr (bn, bl), s') \<Longrightarrow> lower_loop_body E sn body s bn bl s'"

text \<open>A function: its body, what completes a construction, and the check at the closing brace.\<close>

inductive lowers_function :: "cenv \<Rightarrow> stm list \<Rightarrow> cfg_state \<Rightarrow> cfg_state \<Rightarrow> bool" for E where
  closing_brace: "lowers_block E None body s s1 \<Longrightarrow> (aside E)\<^sup>*\<^sup>* s1 s2 \<Longrightarrow>
    check_unchecked_results None s2 = (Inr (), s') \<Longrightarrow> lowers_function E body s s'"

subsection \<open>Ways through a body\<close>

datatype res_event = Assigned string bool | Deleted string | Inspected string

datatype outcome = Through | Left "operand option" | Broke | Continued | Stopped

definition holds_result :: "var \<Rightarrow> bool \<Rightarrow> bool" where
  "holds_result d t \<longleftrightarrow> t \<and> is_result_type (v_type d)"

definition inspected_operand :: "operand \<Rightarrow> res_event list" where
  "inspected_operand x = (case x of OVar v \<Rightarrow> [Inspected (v_stem v)] | _ \<Rightarrow> [])"

inductive steps_way :: "estep list \<Rightarrow> res_event list \<Rightarrow> outcome \<Rightarrow> bool" where
  way_end: "steps_way [] [] Through"
| way_aside: "steps_way ks es out \<Longrightarrow> steps_way (Aside # ks) es out"
| way_assign: "steps_way ks es out \<Longrightarrow>
    steps_way (AssignTo d x a t b # ks) (Assigned (v_stem d) (holds_result d t) # es) out"
| way_inspect: "steps_way ks es out \<Longrightarrow> steps_way (Inspect n # ks) (Inspected n # es) out"
| way_ok: "steps_way ks es out \<Longrightarrow> steps_way (OrReturn x # ks) (inspected_operand x @ es) out"
| way_err: "steps_way (OrReturn x # ks) (inspected_operand x) (Left None)"

inductive_cases steps_wayE:
  "steps_way [] es out" "steps_way (Aside # ks) es out" "steps_way (AssignTo d x a t b # ks) es out"
  "steps_way (Inspect n # ks) es out" "steps_way (OrReturn x # ks) es out"

inductive way :: "stm \<Rightarrow> res_event list \<Rightarrow> outcome \<Rightarrow> bool"
  and ways :: "stm list \<Rightarrow> res_event list \<Rightarrow> outcome \<Rightarrow> bool" where
  way_do: "steps_way ks es out \<Longrightarrow> way (SDo ks) es out"
| way_delete: "way (SDelete v) [Deleted (v_stem v)] Through"
| way_return: "way (SReturn x) [] (Left x)"
| way_break: "way SBreak [] Broke"
| way_continue: "way SContinue [] Continued"
| way_stop: "way SNoReturn [] Stopped"
| way_if_test: "steps_way t es out \<Longrightarrow> out \<noteq> Through \<Longrightarrow> way (SIf t body orelse) es out"
| way_if_true: "steps_way t es Through \<Longrightarrow> ways body es' out \<Longrightarrow> way (SIf t body orelse) (es @ es') out"
| way_if_false: "steps_way t es Through \<Longrightarrow> ways orelse es' out \<Longrightarrow> way (SIf t body orelse) (es @ es') out"
| way_while_test: "steps_way t es out \<Longrightarrow> out \<noteq> Through \<Longrightarrow> way (SWhile forever t body) es out"
| way_while_done: "steps_way t es Through \<Longrightarrow> \<not> forever \<Longrightarrow> way (SWhile forever t body) es Through"
| way_while_again: "steps_way t es Through \<Longrightarrow> ways body es' out \<Longrightarrow> out \<in> {Through, Continued} \<Longrightarrow>
    way (SWhile forever t body) es'' out' \<Longrightarrow> way (SWhile forever t body) (es @ es' @ es'') out'"
| way_while_broke: "steps_way t es Through \<Longrightarrow> ways body es' Broke \<Longrightarrow> way (SWhile forever t body) (es @ es') Through"
| way_while_left: "steps_way t es Through \<Longrightarrow> ways body es' out \<Longrightarrow> out \<notin> {Through, Continued, Broke} \<Longrightarrow>
    way (SWhile forever t body) (es @ es') out"
| ways_nil: "ways [] [] Through"
| ways_go: "way p es Through \<Longrightarrow> ways ps es' out \<Longrightarrow> ways (p # ps) (es @ es') out"
| ways_stop: "way p es out \<Longrightarrow> out \<noteq> Through \<Longrightarrow> ways (p # ps) es out"

inductive_cases wayE:
  "way (SDo ks) es out" "way (SDelete v) es out" "way (SReturn x) es out" "way SBreak es out"
  "way SContinue es out" "way SNoReturn es out" "way (SIf t body orelse) es out"

inductive_cases waysE: "ways [] es out" "ways (p # ps) es out"

text \<open>
  The results that are owed an inspection after a sequence of events: an assignment of a result adds
  its name, an inspection removes it.  Overwriting or deleting a name that is owed one loses a
  result: \<open>None\<close>.
\<close>

fun owed :: "string set \<Rightarrow> res_event list \<Rightarrow> string set option" where
  "owed R [] = Some R"
| "owed R (Assigned n res # es) = (if n \<in> R then None else owed (if res then insert n R else R) es)"
| "owed R (Deleted n # es) = (if n \<in> R then None else owed R es)"
| "owed R (Inspected n # es) = owed (R - {n}) es"

text \<open>No test of a \<^verbatim>\<open>while\<close> binds a result (a walrus could).\<close>

fun binds_result :: "estep \<Rightarrow> bool" where
  "binds_result (AssignTo d x a t b) = holds_result d t"
| "binds_result _ = False"

fun plain_tests :: "stm \<Rightarrow> bool" where
  "plain_tests (SIf t b e) = (list_all plain_tests b \<and> list_all plain_tests e)"
| "plain_tests (SWhile forever t b) = (\<not> list_ex binds_result t \<and> list_all plain_tests b)"
| "plain_tests _ = True"

end
