(* ===== verification/Cfg_Results.thy ===== *)
theory Cfg_Results
  imports Cfg_Lower
begin

text \<open>
  The discipline of results (\<^verbatim>\<open>unchecked_results\<close> of \<^verbatim>\<open>src/cfg.py\<close>): which calls of the
  state machine leave the unchecked results alone, and that an accepted function body loses no result
  on any way through it.
\<close>

named_theorems res_frame \<open>operations that leave the unchecked results alone\<close>

lemma res_basic [res_frame]:
  "unchecked_results (snd (incref E t x s)) = unchecked_results s"
  "unchecked_results (snd (decref E t x s)) = unchecked_results s"
  "unchecked_results (untrack_temp x' s) = unchecked_results s"
  "unchecked_results (snd (push v t st k at lp s)) = unchecked_results s"
  "unchecked_results (snd (neutralize E r s)) = unchecked_results s"
  "unchecked_results (set_moved n b e s) = unchecked_results s"
  "unchecked_results (mark_live n s) = unchecked_results s"
  "unchecked_results (cancel_attr a s) = unchecked_results s"
  by (auto simp: incref_def decref_def untrack_temp_def push_def neutralize_def mint_cancel_flag_def set_moved_def
      mark_live_def cancel_attr_def Let_def split: prod.splits option.splits operand.splits)

lemma res_eq:
  "decref E t x s = (is, s') \<Longrightarrow> unchecked_results s' = unchecked_results s"
  "incref E t x s = (is, s') \<Longrightarrow> unchecked_results s' = unchecked_results s"
  "neutralize E r s = (y, s') \<Longrightarrow> unchecked_results s' = unchecked_results s"
  by (metis res_basic snd_conv)+

lemma res_source [res_frame]: "unchecked_results (snd (assign_source E d x a s)) = unchecked_results s"
  by (auto simp: assign_source_def res_basic Let_def split: prod.splits dest: res_eq)

lemma res_global [res_frame]: "unchecked_results (snd (assign_global E d s)) = unchecked_results s"
  by (auto simp: assign_global_def Let_def split: prod.splits dest: res_eq)

lemma res_replace [res_frame]: "unchecked_results (snd (replace_binding E k v rc b r s)) = unchecked_results s"
  by (auto simp: replace_binding_def Let_def split: prod.splits if_splits dest: res_eq)

lemma res_local [res_frame]: "unchecked_results (snd (assign_local E d s)) = unchecked_results s"
  by (auto simp: assign_local_def res_frame split: option.splits)

lemma res_assign:
  "unchecked_results s \<subseteq> unchecked_results (snd (assign E d x a t b s))"
proof -
  have 1: "unchecked_results (snd (assign_global E d (snd (assign_source E d x a s)))) = unchecked_results s"
    and 2: "unchecked_results (snd (assign_local E d (snd (assign_source E d x a s)))) = unchecked_results s" for s
    by (simp_all add: res_frame)
  show ?thesis
    using 1 2
    by (auto simp: assign_def Let_def mark_live_def track_result_def clear_result_def case_prod_beta)
qed

lemma res_data [res_frame]:
  "unchecked_results (snd (assign_global_initializer E d s)) = unchecked_results s"
  "unchecked_results (snd (attr_replace E t x y a s)) = unchecked_results s"
  "unchecked_results (snd (field_value E t x a s)) = unchecked_results s"
  "unchecked_results (snd (move E x s)) = unchecked_results s"
  "unchecked_results (snd (manually_decreffed E x s)) = unchecked_results s"
  "unchecked_results (snd (disarm_defer E r s)) = unchecked_results s"
  "unchecked_results (snd (delete_temp E tm s)) = unchecked_results s"
  by (auto simp: assign_global_initializer_def attr_replace_def field_value_def move_def
      manually_decreffed_def disarm_defer_def delete_temp_def res_basic Let_def
      split: prod.splits option.splits operand.splits if_splits dest: res_eq)

lemma res_deleted [res_frame]: "unchecked_results (snd (deleted E v s)) = unchecked_results s"
  by (auto simp: deleted_def Let_def case_prod_beta res_basic split: option.splits)

lemma res_attr_assign [res_frame]: "unchecked_results (snd (attr_assign E v x a s)) = unchecked_results s"
  by (auto simp: attr_assign_def Let_def case_prod_beta res_frame split: option.splits)

lemma res_construction [res_frame]:
  "unchecked_results (enter_self v m s) = unchecked_results s"
  "unchecked_results (enter_construction v req s) = unchecked_results s"
  "unchecked_results (fold cancel_attr as s) = unchecked_results s"
  "unchecked_results (snd (complete_construction s)) = unchecked_results s"
  "unchecked_results (declare_exception_bind v s) = unchecked_results s"
proof -
  show 1: "unchecked_results (fold cancel_attr as s) = unchecked_results s" for as s
    by (induction as arbitrary: s) (simp_all add: res_basic)
  show "unchecked_results (enter_self v m s) = unchecked_results s"
    "unchecked_results (enter_construction v req s) = unchecked_results s"
    "unchecked_results (snd (complete_construction s)) = unchecked_results s"
    "unchecked_results (declare_exception_bind v s) = unchecked_results s"
    by (simp_all add: enter_self_def enter_construction_def complete_construction_def declare_exception_bind_def
        Let_def res_basic 1)
qed

lemma res_base_construction [res_frame]:
  "unchecked_results (snd (complete_base_construction attrs s)) = unchecked_results s"
  by (induction attrs arbitrary: s) (simp_all add: Let_def res_basic)

lemma res_replay [res_frame]: "unchecked_results (snd (replay E C r s)) = unchecked_results s"
  by (auto simp: replay_def release_entry_def Let_def res_basic case_prod_beta split: option.splits)

lemma res_replay_all [res_frame]:
  "unchecked_results (snd (replay_all E C rs s)) = unchecked_results s"
  "unchecked_results (snd (release_all E rs s)) = unchecked_results s"
  by (induction rs arbitrary: s) (auto simp: res_replay release_entry_def Let_def case_prod_beta res_basic split: option.splits)

lemma res_label_walk [res_frame]: "unchecked_results (snd (label_walk fl m ps s)) = unchecked_results s"
  by (induction fl m ps s rule: label_walk.induct)
    (auto simp: capture_scope_def capture_label_def split: list.splits option.splits)

lemma res_exits [res_frame]:
  "unchecked_results (snd (cfg_return E C x' s)) = unchecked_results s"
  "unchecked_results (snd (unwind_to E sn s)) = unchecked_results s"
  "unchecked_results (snd (unwind_confined E fl' x' s)) = unchecked_results s"
  "unchecked_results (snd (current_epilogue_label x' b s)) = unchecked_results s"
  by (simp_all add: cfg_return_def unwind_to_def unwind_confined_def current_epilogue_label_def Let_def res_frame)

lemma res_loops [res_frame]:
  "unchecked_results (snd (loop_back_edge E names entry er' s)) = unchecked_results s"
  "unchecked_results (snd (promote_borrowed_for_loop E n s)) = unchecked_results s"
proof -
  show "unchecked_results (snd (loop_back_edge E names entry er' s)) = unchecked_results s"
    using back_edge_frame [of E entry names s]
    by (auto simp: loop_back_edge_def split: prod.splits sum.splits option.splits)
  show "unchecked_results (snd (promote_borrowed_for_loop E n s)) = unchecked_results s"
    by (auto simp: promote_borrowed_for_loop_def res_basic split: option.splits prod.splits dest: res_eq)
qed

lemma res_bookkeeping [res_frame]:
  "unchecked_results (snd (push_defer is fl eo s)) = unchecked_results s"
  "unchecked_results (mark_possibly_retained x s) = unchecked_results s"
  "unchecked_results (snd (mark_inline_scope_captured s)) = unchecked_results s"
  "unchecked_results (narrow n m s) = unchecked_results s"
  "unchecked_results (snd (narrow_many n ms s)) = unchecked_results s"
  "unchecked_results (unnarrow n s) = unchecked_results s"
  "unchecked_results (unmark_live n s) = unchecked_results s"
  "unchecked_results (set_live L s) = unchecked_results s"
  "unchecked_results (fresh_temp tm t s) = unchecked_results s"
  "unchecked_results (restore_temp_states ts s) = unchecked_results s"
  "unchecked_results (enter_loop n' s) = unchecked_results s"
  "unchecked_results (snd (exit_loop s)) = unchecked_results s"
  "unchecked_results (enter_branch n' s) = unchecked_results s"
  "unchecked_results (snd (exit_branch s)) = unchecked_results s"
  "unchecked_results (record_break_narrowed s) = unchecked_results s"
  "unchecked_results (record_break_live s) = unchecked_results s"
  "unchecked_results (merge_loop_exits nn bn nl bl s) = unchecked_results s"
  by (auto simp: push_defer_def mark_possibly_retained_def mark_inline_scope_captured_def narrow_def narrow_many_def
      unnarrow_def unmark_live_def set_live_def fresh_temp_def restore_temp_states_def enter_loop_def exit_loop_def
      enter_branch_def exit_branch_def record_break_narrowed_def record_break_live_def merge_loop_exits_def Let_def
      split: operand.splits list.splits prod.splits)


lemma res_construction_err [res_frame]:
  "unchecked_results (snd (current_epilogue_label_for_construction_err E x' s)) = unchecked_results s"
  by (auto simp: current_epilogue_label_for_construction_err_def Let_def case_prod_beta res_frame
      capture_scope_def capture_label_def split: option.splits list.splits)

lemma res_truncate [res_frame]: "unchecked_results (truncate_cancel_flags n' s) = unchecked_results s"
  by (simp add: truncate_cancel_flags_def)

lemma res_restore [res_frame]:
  "unchecked_results (snd (restore sn s)) = sn_results sn"
  "unchecked_results (snd (hard_restore sn s)) = sn_results sn"
proof -
  have "unchecked_results (fold reset_entry slots s) = unchecked_results s" for slots s
    by (induction slots arbitrary: s) (auto simp: reset_entry_def split: prod.splits)
  then show "unchecked_results (snd (hard_restore sn s)) = sn_results sn"
    by (simp add: hard_restore_def restore_sets_def Let_def)
qed (simp add: restore_def restore_sets_def Let_def)

lemma plain_op_results: "plain_op E s s' \<Longrightarrow> unchecked_results s' = unchecked_results s"
proof (induction rule: plain_op.induct)
  case (op_construction_err x' s "is" s')
  then show ?case using res_construction_err [of E x' s] by simp
qed (simp_all add: res_frame)

lemma aside_results: "(aside E)\<^sup>*\<^sup>* s s' \<Longrightarrow> unchecked_results s' = unchecked_results s"
proof (induction rule: rtranclp_induct)
  case (step s1 s2)
  from step(2) have "unchecked_results s2 = unchecked_results s1"
    by (cases rule: aside.cases) (metis plain_op_results res_exits(4) res_construction_err snd_conv)+
  with step(3) show ?case by simp
qed simp

subsection \<open>Steps of an expression\<close>

definition owner_of :: "operand option \<Rightarrow> string set" where
  "owner_of x = (case x of Some (OVar v) \<Rightarrow> {v_stem v} | _ \<Rightarrow> {})"

text \<open>What a way may still owe: at the end of the code what the state tracks, at a return the result itself.\<close>

fun settled :: "snapshot option \<Rightarrow> string set \<Rightarrow> string set \<Rightarrow> outcome \<Rightarrow> bool" where
  "settled L U R Through \<longleftrightarrow> R \<subseteq> U"
| "settled L U R (Left x) \<longleftrightarrow> R \<subseteq> owner_of x"
| "settled L U R Stopped \<longleftrightarrow> True"
| "settled L U R out \<longleftrightarrow> (\<exists>sn. L = Some sn \<and> R \<subseteq> sn_results sn)"

definition keeps :: "snapshot option \<Rightarrow> string set \<Rightarrow> res_event list \<Rightarrow> string set \<Rightarrow> outcome \<Rightarrow> bool" where
  "keeps L R es U out \<longleftrightarrow> (\<exists>R'. owed R es = Some R' \<and> settled L U R' out)"

lemma owed_append: "owed R (es @ es') = Option.bind (owed R es) (\<lambda>R'. owed R' es')"
  by (induction R es rule: owed.induct) auto

lemma keeps_append:
  assumes "keeps L R es U Through" and "\<And>R'. R' \<subseteq> U \<Longrightarrow> keeps L' R' es' U' out"
  shows "keeps L' R (es @ es') U' out"
  using assms by (auto simp: keeps_def owed_append)

lemma assign_results:
  assumes "assign E d x a t b s = (Inr is, s')"
  shows "v_stem d \<notin> unchecked_results s \<and>
    unchecked_results s' = (if holds_result d t then insert (v_stem d) (unchecked_results s) else unchecked_results s)"
proof -
  have 1: "unchecked_results (snd (assign_global E d (snd (assign_source E d x a s)))) = unchecked_results s"
    and 2: "unchecked_results (snd (assign_local E d (snd (assign_source E d x a s)))) = unchecked_results s" for s
    by (simp_all add: res_frame)
  from assms have n: "v_stem d \<notin> unchecked_results s" by (auto simp: assign_def mark_live_def Let_def split: if_splits)
  moreover have "unchecked_results (snd (assign E d x a t b s)) =
      (if holds_result d t then insert (v_stem d) (unchecked_results s) else unchecked_results s)"
    using n 1 2 by (auto simp: assign_def Let_def mark_live_def track_result_def clear_result_def case_prod_beta holds_result_def)
  ultimately show ?thesis using assms by simp
qed

lemma check_unchecked_accepted:
  "check_unchecked_results x s = (Inr (), s') \<longleftrightarrow> unchecked_results s \<subseteq> owner_of x \<and> s' = s\<lparr>unchecked_results := {}\<rparr>"
  unfolding check_unchecked_results_def owner_of_def Let_def by (simp split: if_split) blast

lemma or_return_results:
  assumes "check_unchecked_results None (inspect_operand x s) = (Inr (), s1)"
  shows "unchecked_results s1 = {}" and "R \<subseteq> unchecked_results s \<Longrightarrow> owed R (inspected_operand x @ es) = owed {} es"
proof -
  from assms have none: "unchecked_results (inspect_operand x s) = {}" and s1: "unchecked_results s1 = {}"
    by (simp_all add: check_unchecked_accepted owner_of_def)
  show "unchecked_results s1 = {}" by (fact s1)
  assume R: "R \<subseteq> unchecked_results s"
  show "owed R (inspected_operand x @ es) = owed {} es"
  proof (cases x)
    case (OVar v)
    with none R have eq: "R - {v_stem v} = {}" by (auto simp: inspect_operand_def clear_result_def)
    show ?thesis by (simp add: OVar inspected_operand_def eq)
  qed (use none R in \<open>simp_all add: inspect_operand_def inspected_operand_def\<close>)
qed

lemma steps_keep:
  assumes "lowers_steps E ks s s'" and "steps_way ks es out" and "R \<subseteq> unchecked_results s"
  shows "keeps L R es (unchecked_results s') out"
  using assms
proof (induction arbitrary: es R rule: lowers_steps.induct)
  case (steps_nil s)
  then show ?case by (auto simp: keeps_def elim: steps_wayE(1))
next
  case (steps_cons k s s1 ks s')
  note IH = steps_cons.IH [unfolded keeps_def]
  from steps_cons.hyps(1) show ?case
  proof cases
    case lower_aside
    with steps_cons.prems have "steps_way ks es out" "R \<subseteq> unchecked_results s1"
      by (auto dest: aside_results elim: steps_wayE(2))
    from IH [OF this] show ?thesis by (simp add: keeps_def)
  next
    case (lower_assign d x a t b "is")
    from steps_cons.prems(1) lower_assign(1) obtain es' where
      es: "es = Assigned (v_stem d) (holds_result d t) # es'" "steps_way ks es' out" by (auto elim: steps_wayE(3))
    with IH [OF es(2), of "if holds_result d t then insert (v_stem d) R else R"] assign_results [OF lower_assign(2)]
      steps_cons.prems(2) show ?thesis by (auto simp: keeps_def split: if_splits)
  next
    case (lower_inspect n)
    from steps_cons.prems(1) lower_inspect(1) obtain es' where
      es: "es = Inspected n # es'" "steps_way ks es' out" by (auto elim: steps_wayE(4))
    with IH [OF es(2), of "R - {n}"] lower_inspect(2) steps_cons.prems(2)
    show ?thesis by (auto simp: keeps_def clear_result_def)
  next
    case (lower_or_return x s2)
    note none = or_return_results [OF lower_or_return(2)]
    from steps_cons.prems(1) lower_or_return(1)
    consider es' where "es = inspected_operand x @ es'" "steps_way ks es' out"
      | "es = inspected_operand x @ []" "out = Left None" by (auto elim: steps_wayE(5))
    then show ?thesis
    proof cases
      case (1 es')
      with IH [OF 1(2), of "{}"] none(2) [OF steps_cons.prems(2)] show ?thesis by (simp add: keeps_def)
    next
      case 2
      with none(2) [OF steps_cons.prems(2), of "[]"] show ?thesis by (simp add: keeps_def owner_of_def)
    qed
  qed
qed

lemma plain_steps_results:
  assumes "lowers_steps E ks s s'" and "\<not> list_ex binds_result ks"
  shows "unchecked_results s' \<subseteq> unchecked_results s"
  using assms
proof (induction rule: lowers_steps.induct)
  case (steps_cons k s s1 ks s')
  from steps_cons.hyps(1) steps_cons.prems have "unchecked_results s1 \<subseteq> unchecked_results s"
    by (cases rule: lowers_step.cases)
      (auto simp: clear_result_def dest!: aside_results assign_results or_return_results(1))
  with steps_cons.IH steps_cons.prems show ?case by auto
qed simp

subsection \<open>Statements that do not fall through\<close>

lemma through_elements:
  "way p es out \<Longrightarrow> True"
  "ways ps es out \<Longrightarrow> out = Through \<Longrightarrow> p \<in> set ps \<Longrightarrow> \<exists>es. way p es Through"
  by (induction rule: way_ways.inducts) auto

lemma steps_outcome: "steps_way ks es out \<Longrightarrow> out \<noteq> Broke \<and> out \<noteq> Continued"
  by (induction rule: steps_way.induct) auto

lemma broke_has_break:
  "way p es out \<Longrightarrow> out = Broke \<Longrightarrow> has_break p"
  "ways ps es out \<Longrightarrow> out = Broke \<Longrightarrow> list_ex has_break ps"
  by (induction rule: way_ways.inducts) (auto dest: steps_outcome)

lemma diverges_no_through:
  "way p es out \<Longrightarrow> stmt_diverges p \<Longrightarrow> out \<noteq> Through"
  "ways ps es out \<Longrightarrow> terminates ps \<Longrightarrow> out \<noteq> Through"
proof (induction rule: way_ways.inducts)
  case (way_while_broke t es body es' forever)
  then show ?case using broke_has_break(2) [of body es' Broke] by (auto simp: loop_has_reachable_break_def)
next
  case (ways_go p es ps es' out)
  then show ?case by (cases ps) (auto simp: terminates_def elim: waysE)
qed (auto simp: terminates_def split: if_splits)


subsection \<open>Accepted statements keep their results\<close>

lemma restored: "restore sn s = (r, s') \<Longrightarrow> unchecked_results s' = sn_results sn"
  by (metis res_restore(1) snd_conv)

lemma snapshot_results [simp]: "sn_results (take_snapshot s) = unchecked_results s"
  by (simp add: take_snapshot_def)

lemma loop_exit_accepted:
  assumes "check_loop_exit_unchecked_results er s = (Inr (), s')"
  shows "unchecked_results s \<subseteq> er"
  using assms by (simp add: check_loop_exit_unchecked_results_def Let_def split: if_splits)

lemma deleted_results:
  assumes "deleted E v s = (Inr is, s')"
  shows "v_stem v \<notin> unchecked_results s \<and> unchecked_results s' = unchecked_results s"
  using assms res_deleted [of E v s] by (auto simp: deleted_def split: if_splits)

lemma joins_results:
  assumes "joins E sn te fe s s'"
  shows "(\<not> be_terminates te \<longrightarrow> be_results te \<subseteq> unchecked_results s') \<and>
    (\<not> be_terminates fe \<longrightarrow> be_results fe \<subseteq> unchecked_results s')"
  using assms
proof cases
  case (join s1 names rnames code)
  show ?thesis
  proof (cases "be_terminates te \<or> be_terminates fe")
    case True
    then show ?thesis using merge_if_live [OF join(4,3)] by auto
  next
    case False
    then have "be_results te = be_results fe"
      using merge_if_accepts_iff [of te fe names rnames E "sn_bindings sn" "sn_results sn" s1] join
      by (simp add: visits_def)
    with False show ?thesis using merge_if_live [OF join(4,3)] by simp
  qed
qed

lemma leaves_loop_results:
  assumes "leaves_loop E forever sn bn bl s s'"
  shows "unchecked_results s \<subseteq> sn_results sn \<and> unchecked_results s' = sn_results sn"
  using assms
proof cases
  case (leave names "is" s1 s2 overlay nn nl)
  have "unchecked_results s1 = unchecked_results s" "unchecked_results s1 \<subseteq> sn_results sn"
    using leave(2) res_loops(1) [of E names "sn_bindings sn" "Some (sn_results sn)" s]
    by (auto simp: loop_back_edge_def split: prod.splits sum.splits if_splits)
  moreover have "unchecked_results s' = unchecked_results s2"
    using aside_results [OF leave(5)] by (simp add: res_frame)
  ultimately show ?thesis using restored [OF leave(3)] by simp
qed

lemma promote_all_results:
  "promote_all E ps sn s = (Inr (sn', is), s') \<Longrightarrow> unchecked_results s' = unchecked_results s \<and> sn_results sn' = sn_results sn"
proof (induction ps arbitrary: sn s "is")
  case (Cons n ps)
  then show ?case
    using res_loops(2) [of E n s]
    by (auto split: prod.splits sum.splits option.splits)
qed simp

lemma retries_results:
  assumes "retries E s0 sn s sn' s'"
  shows "sn_results sn' = sn_results sn \<and> unchecked_results s' = unchecked_results s0"
  using assms
proof cases
  case (retry names e s1 ps s2 "is")
  have "unchecked_results s2 = unchecked_results s0"
    using res_restore(2) [of "take_snapshot s0" "truncate_cancel_flags (cancel_flag_count s0) s1"] retry(6) by simp
  with promote_all_results [OF retry(7)] show ?thesis by simp
qed

definition accepted :: "snapshot option \<Rightarrow> (res_event list \<Rightarrow> outcome \<Rightarrow> bool) \<Rightarrow> string set \<Rightarrow> string set \<Rightarrow> bool" where
  "accepted L W U U' \<longleftrightarrow> (\<forall>R es out. R \<subseteq> U \<longrightarrow> W es out \<longrightarrow> keeps L R es U' out)"

lemma acceptedD: "accepted L W U U' \<Longrightarrow> R \<subseteq> U \<Longrightarrow> W es out \<Longrightarrow> keeps L R es U' out"
  by (simp add: accepted_def)

lemma acceptedI: "(\<And>R es out. R \<subseteq> U \<Longrightarrow> W es out \<Longrightarrow> keeps L R es U' out) \<Longrightarrow> accepted L W U U'"
  by (simp add: accepted_def)

text \<open>A branch of an \<^verbatim>\<open>if\<close>: its end reaches the join unless it terminates.\<close>

lemma branch_keeps:
  assumes "accepted L (ways body) U U1" and "\<not> terminates body \<longrightarrow> U1 \<subseteq> U'"
  shows "accepted L (ways body) U U'"
proof (rule acceptedI)
  fix R es out
  assume "R \<subseteq> U" and w: "ways body es out"
  from acceptedD [OF assms(1) this] have "keeps L R es U1 out" .
  moreover have "\<not> terminates body" if "out = Through" using diverges_no_through(2) [OF w] that by blast
  ultimately show "keeps L R es U' out" using assms(2) by (cases out) (auto simp: keeps_def)
qed

lemma if_keeps:
  assumes "lowers_steps E t s s0" and "accepted L (ways body) (unchecked_results s0) U"
    and "accepted L (ways orelse) (unchecked_results s0) U"
  shows "accepted L (way (SIf t body orelse)) (unchecked_results s) U"
proof (rule acceptedI)
  fix R es out
  assume R: "R \<subseteq> unchecked_results s" and w: "way (SIf t body orelse) es out"
  note test = steps_keep [OF assms(1) _ R]
  from w consider "steps_way t es out" "out \<noteq> Through"
    | es1 es2 block where "es = es1 @ es2" "steps_way t es1 Through" "ways block es2 out"
        "accepted L (ways block) (unchecked_results s0) U"
    using assms(2,3) by (auto elim: wayE(7))
  then show "keeps L R es U out"
  proof cases
    case 1
    then show ?thesis using test [OF 1(1), of L] steps_outcome [OF 1(1)] by (cases out) (auto simp: keeps_def)
  next
    case (2 es1 es2 block)
    show ?thesis
      unfolding 2(1) by (rule keeps_append [OF test [OF 2(2)]]) (rule acceptedD [OF 2(4) _ 2(3)])
  qed
qed

lemma while_keeps:
  assumes "lowers_steps E t s s0" and "\<not> list_ex binds_result t"
    and body: "accepted (Some sn) (ways body) (unchecked_results s0) (unchecked_results s1)"
    and sn: "sn_results sn = unchecked_results s0" and "unchecked_results s1 \<subseteq> sn_results sn"
  shows "accepted L (way (SWhile forever t body)) (unchecked_results s) (sn_results sn)"
proof -
  have shrinks: "unchecked_results s0 \<subseteq> unchecked_results s" by (rule plain_steps_results [OF assms(1,2)])
  have once: "keeps L' R (es @ es') (sn_results sn) out'"
    if "R \<subseteq> unchecked_results s" "steps_way t es Through" "ways body es' out"
      "out' = (if out \<in> {Continued, Broke} then Through else out)" for R es es' out out' L'
  proof (rule keeps_append [OF steps_keep [OF assms(1) that(2,1)]])
    fix R'
    assume "R' \<subseteq> unchecked_results s0"
    from acceptedD [OF body this that(3)] show "keeps L' R' es' (sn_results sn) out'"
      using that(4) sn assms(5) by (cases out) (simp_all add: keeps_def, blast+)
  qed
  have "way p es out \<Longrightarrow> p = SWhile forever t body \<Longrightarrow> R \<subseteq> unchecked_results s \<Longrightarrow> keeps L R es (sn_results sn) out"
    and "ways ps es out \<Longrightarrow> True" for p ps es out R
  proof (induction arbitrary: R rule: way_ways.inducts)
    case (way_while_test t' es out forever' body')
    then show ?case using steps_keep [OF assms(1), of es out R L] steps_outcome [of t' es out]
      by (cases out) (auto simp: keeps_def)
  next
    case (way_while_done t' es forever' body')
    then show ?case using steps_keep [OF assms(1), of es Through R L] sn by simp
  next
    case (way_while_again t' es body' es' out forever' es'' out')
    have "keeps L R (es @ es') (sn_results sn) Through"
      by (rule once [of R es es' out]) (use way_while_again.hyps way_while_again.prems in auto)
    moreover have "keeps L R' es'' (sn_results sn) out'" if "R' \<subseteq> sn_results sn" for R'
      using way_while_again.IH(2) way_while_again.prems(1) that sn shrinks by blast
    ultimately show ?case using keeps_append [of L R "es @ es'" "sn_results sn" L es'' "sn_results sn" out'] by simp
  next
    case (way_while_broke t' es body' es' forever')
    then show ?case using once [of R es es' Broke Through L] by simp
  next
    case (way_while_left t' es body' es' out forever')
    then show ?case using once [of R es es' out out L] by simp
  qed simp_all
  then show ?thesis by (simp add: accepted_def)
qed


lemma branch_results:
  "exit_branch s1 = (Inr (), s') \<Longrightarrow> unchecked_results s' = unchecked_results s1"
  "exit_loop s1 = (Inr y, s') \<Longrightarrow> unchecked_results s' = unchecked_results s1"
  by (metis res_bookkeeping(14) snd_conv) (metis res_bookkeeping(12) snd_conv)

lemma block_keeps:
  assumes "accepted L (way p) U U1" and "accepted L (ways ps) U1 U'"
  shows "accepted L (ways (p # ps)) U U'"
proof (rule acceptedI)
  fix R es out
  assume R: "R \<subseteq> U" and "ways (p # ps) es out"
  from this(2) consider es1 es2 where "es = es1 @ es2" "way p es1 Through" "ways ps es2 out"
    | "way p es out" "out \<noteq> Through" by (auto elim: waysE(2))
  then show "keeps L R es U' out"
  proof cases
    case (1 es1 es2)
    show ?thesis
      unfolding 1(1) by (rule keeps_append [OF acceptedD [OF assms(1) R 1(2)]]) (rule acceptedD [OF assms(2) _ 1(3)])
  next
    case 2
    then show ?thesis using acceptedD [OF assms(1) R 2(1)] by (cases out) (auto simp: keeps_def)
  qed
qed

lemma lowering_keeps_results:
  "lowers E L p s s' \<Longrightarrow> plain_tests p \<Longrightarrow> accepted L (way p) (unchecked_results s) (unchecked_results s')"
  "lowers_block E L ps s s' \<Longrightarrow> list_all plain_tests ps \<Longrightarrow> accepted L (ways ps) (unchecked_results s) (unchecked_results s')"
  "lowers_branch E L d ps s s' \<Longrightarrow> list_all plain_tests ps \<Longrightarrow> accepted L (ways ps) (unchecked_results s) (unchecked_results s')"
  "lower_loop_body E sn ps s bn bl s' \<Longrightarrow> list_all plain_tests ps \<Longrightarrow>
    accepted (Some sn) (ways ps) (unchecked_results s) (unchecked_results s')"
proof (induction rule: lowers_lowers_block_lowers_branch_lower_loop_body.inducts)
  case (stmt_Do ks s s' L)
  then show ?case by (auto intro!: acceptedI steps_keep elim: wayE(1))
next
  case (stmt_Delete v s "is" s' L)
  then show ?case
    using deleted_results [OF stmt_Delete(1)] by (auto intro!: acceptedI simp: keeps_def elim!: wayE(2))
next
  case (stmt_Return x s s1 s' L)
  then show ?case by (auto intro!: acceptedI simp: keeps_def check_unchecked_accepted elim!: wayE(3))
next
  case (stmt_Break sn s s1 "is" s')
  then show ?case using loop_exit_accepted [OF stmt_Break(1)] by (auto intro!: acceptedI simp: keeps_def elim!: wayE(4))
next
  case (stmt_Continue sn s s1 "is" s')
  then show ?case using loop_exit_accepted [OF stmt_Continue(1)] by (auto intro!: acceptedI simp: keeps_def elim!: wayE(5))
next
  case (stmt_NoReturn s s' L)
  then show ?case by (auto intro!: acceptedI simp: keeps_def elim!: wayE(6))
next
  case (stmt_If t s s0 sn L body s1 s')
  note ends = joins_results [OF stmt_If(4)]
  have "accepted L (ways body) (unchecked_results s0) (unchecked_results s')"
    using branch_keeps [OF stmt_If(3)] stmt_If(6) ends by (simp add: end_of_branch_def)
  moreover have "accepted L (ways []) (unchecked_results s0) (unchecked_results s')"
    using ends stmt_If(5) by (auto intro!: acceptedI simp: keeps_def end_of_no_else_def elim!: waysE(1))
  ultimately show ?case by (rule if_keeps [OF stmt_If(1)])
next
  case (stmt_If_else t s s0 sn L body s1 orelse s2 s3 s')
  note ends = joins_results [OF stmt_If_else(6)]
  have "accepted L (ways body) (unchecked_results s0) (unchecked_results s')"
    using branch_keeps [OF stmt_If_else(3)] stmt_If_else(10) ends by (simp add: end_of_branch_def)
  moreover have "accepted L (ways orelse) (unchecked_results s0) (unchecked_results s')"
    using branch_keeps [OF stmt_If_else(5)] stmt_If_else(10) ends restored [OF stmt_If_else(9)] stmt_If_else(7)
    by (simp add: end_of_branch_def)
  ultimately show ?case by (rule if_keeps [OF stmt_If_else(1)])
next
  case (stmt_While t s s0 sn body bn bl s1 forever s' L)
  note out = leaves_loop_results [OF stmt_While(4)]
  show ?case
    using while_keeps [OF stmt_While(1) _ stmt_While(3), of L forever] stmt_While(6) stmt_While(5) out by simp
next
  case (stmt_While_retry t s s0 sn body bn1 bl1 s1 sn' s2 bn bl s3 forever s' L)
  note out = leaves_loop_results [OF stmt_While_retry(7)] retries_results [OF stmt_While_retry(4)]
  have "accepted (Some sn') (ways body) (unchecked_results s0) (unchecked_results s3)"
    using stmt_While_retry(6) stmt_While_retry(9) out by simp
  from while_keeps [OF stmt_While_retry(1) _ this, of L forever] show ?case
    using stmt_While_retry(9) stmt_While_retry(8) out by simp
next
  case (block_nil L s)
  then show ?case by (auto intro!: acceptedI simp: keeps_def elim!: waysE(1))
next
  case (block_cons L p s s1 ps s')
  then show ?case by (auto intro: block_keeps)
next
  case (branch L body d s s1 s')
  then show ?case by (simp add: branch_results res_bookkeeping(13))
next
  case (loop_body sn body s s1 bn bl s')
  then show ?case by (simp add: branch_results(2) [OF loop_body(3)] res_bookkeeping(11))
qed


lemma init_results: "unchecked_results (init_state E params g n) = {}"
proof -
  have "unchecked_results (fold (enter_parameter E) params s) = unchecked_results s" for s
    by (induction params arbitrary: s) (auto simp: enter_parameter_def Let_def res_basic case_prod_beta res_frame)
  then show ?thesis by (simp add: init_state_def empty_state_def)
qed

text \<open>
  C10. No result gets lost in a function the compiler accepts.  Let the lowering of a body -- its
  assignments, deletions, inspections, \<^verbatim>\<open>or_return()\<close>, returns, breaks, continues, \<^verbatim>\<open>if\<close>s
  and \<^verbatim>\<open>while\<close> loops, nested at will, a loop body lowered twice where its first attempt is
  rolled back -- succeed from the state at the start of the function.  Then on every way the body can
  be run, with any number of iterations, no result is overwritten or deleted before it has been
  inspected, and when the function is left no result is owed an inspection but the one it returns.
  Outside are: a \<^verbatim>\<open>while\<close> whose test itself binds a result, an inspection that an expression makes on one
  of its branches only, and a call that does not return, which ends the program with whatever is owed.
\<close>

theorem results_cannot_get_lost:
  assumes "lowers_function E body (init_state E params g n) s'" and "list_all plain_tests body" and "ways body es out"
  shows "out \<notin> {Broke, Continued} \<and>
    (\<exists>R. owed {} es = Some R \<and> (out \<noteq> Stopped \<longrightarrow> R \<subseteq> (case out of Left x \<Rightarrow> owner_of x | _ \<Rightarrow> {})))"
  using assms(1)
proof cases
  case (closing_brace s1 s2)
  have "keeps None {} es (unchecked_results s1) out"
    using acceptedD [OF lowering_keeps_results(2) [OF closing_brace(1) assms(2)] _ assms(3)] by simp
  moreover have "unchecked_results s1 = {}"
    using closing_brace(3) aside_results [OF closing_brace(2)] by (simp add: check_unchecked_accepted owner_of_def)
  ultimately show ?thesis by (cases out) (auto simp: keeps_def)
qed

text \<open>The function polls: \<^verbatim>\<open>while True: r = f(); if r.is_ok(): break\<close>.\<close>

definition demo_result :: var where
  "demo_result = Variable 9 ''r'' ''r'' (TaggedUnion \<lparr>oid = 8, stem = ''Result'', qualname = ''Result''\<rparr> [] []) False False"

definition demo_poll :: "stm list" where
  "demo_poll = [SWhile True [] [SDo [AssignTo demo_result (OVar demo_result) False True False],
     SIf [Inspect ''r''] [SBreak] []]]"

lemmas demo_calls = assign_def mark_live_def track_result_def clear_result_def demo_result_def has_rc_def
  check_loop_exit_unchecked_results_def record_break_narrowed_def record_break_live_def unwind_to_def
  enter_branch_def exit_branch_def enter_loop_def exit_loop_def restore_def restore_sets_def take_snapshot_def
  merge_if_def merge_terminating_def end_of_branch_def end_of_no_else_def terminates_def visits_def
  loop_back_edge_def natural_exit_def merge_loop_exits_def check_unchecked_results_def init_state_def empty_state_def
  or_empty_def

lemma demo_poll_lowers: "\<exists>s'. lowers_function demo_env demo_poll (init_state demo_env [] \<lparr>next_temp = 0, next_label = 0\<rparr> 0) s'"
proof -
  define s0 where "s0 = init_state demo_env [] \<lparr>next_temp = 0, next_label = 0\<rparr> 0"
  define s1 where "s1 = snd (assign demo_env demo_result (OVar demo_result) False True False (enter_loop 0 s0))"
  define s2 where "s2 = clear_result ''r'' s1"
  define s3 where "s3 = snd (exit_branch (record_break_live (record_break_narrowed (enter_branch 0 s2))))"
  define s4 where "s4 = snd (merge_if demo_env [] [] [] {} (end_of_branch [SBreak] s3) (end_of_no_else (take_snapshot s2))
    (snd (restore (take_snapshot s2) s3)))"
  define s5 where "s5 = snd (exit_loop s4)"
  note defs = s5_def s4_def s3_def s2_def s1_def s0_def
  have a: "lowers_step demo_env (AssignTo demo_result (OVar demo_result) False True False) (enter_loop 0 s0) s1"
    by (rule lower_assign [of _ _ _ _ _ _ _ "[]"]) (simp add: defs demo_calls)
  have b: "lowers_branch demo_env (Some (take_snapshot s0)) (sn_stack_depth (take_snapshot s2)) [SBreak] s2 s3"
    by (rule branch, rule block_cons, rule stmt_Break, simp add: defs demo_calls, simp add: defs demo_calls,
      rule block_nil, simp add: defs demo_calls)
  have "fst (merge_if demo_env [] [] [] {} (end_of_branch [SBreak] s3) (end_of_no_else (take_snapshot s2))
    (snd (restore (take_snapshot s2) s3))) = Inr ([], [], [])"
    by (simp add: defs demo_calls)
  then have m: "merge_if demo_env [] [] (sn_bindings (take_snapshot s2)) (sn_results (take_snapshot s2))
    (end_of_branch [SBreak] s3) (end_of_no_else (take_snapshot s2)) (snd (restore (take_snapshot s2) s3)) = (Inr ([], [], []), s4)"
    by (simp add: s4_def prod_eq_iff) (simp add: defs demo_calls)
  have j: "joins demo_env (take_snapshot s2) (end_of_branch [SBreak] s3) (end_of_no_else (take_snapshot s2)) s3 s4"
    by (rule join [OF _ _ _ m]) (simp_all add: prod_eq_iff, simp_all add: defs demo_calls)
  have i: "lowers demo_env (Some (take_snapshot s0)) (SIf [Inspect ''r''] [SBreak] []) s1 s4"
    by (rule stmt_If [OF steps_cons [OF lower_inspect steps_nil] refl]) (use b j s2_def in simp_all)
  have e: "exit_loop s4 = (Inr ([[]], [{''r''}]), s5)" by (simp add: defs demo_calls)
  have d: "sn_stack_depth (take_snapshot s0) = 0" by (simp add: defs demo_calls)
  have l: "lower_loop_body demo_env (take_snapshot s0) [SDo [AssignTo demo_result (OVar demo_result) False True False],
     SIf [Inspect ''r''] [SBreak] []] s0 [[]] [{''r''}] s5"
    by (rule loop_body [OF _ e]) (use a i d in \<open>auto intro: block_cons block_nil stmt_Do steps_cons steps_nil\<close>)
  have q: "leaves_loop demo_env True (take_snapshot s0) [[]] [{''r''}] s5
      (merge_loop_exits None [[]] None [{''r''}] (snd (restore (take_snapshot s0) s5)))"
    by (rule leave [of "[]" _ _ _ "[]" s5 _ _ None, OF _ _ _ _ rtranclp.rtrancl_refl])
      (simp_all add: natural_exit_def prod_eq_iff, simp_all add: defs demo_calls)
  have "lowers_block demo_env None demo_poll s0 (merge_loop_exits None [[]] None [{''r''}] (snd (restore (take_snapshot s0) s5)))"
    unfolding demo_poll_def by (rule block_cons [OF stmt_While [OF steps_nil refl l q] block_nil])
  then show ?thesis
    unfolding s0_def [symmetric]
    by (intro exI closing_brace rtranclp.rtrancl_refl) (auto simp: check_unchecked_accepted defs demo_calls)
qed

theorem results_cannot_get_lost_witness:
  "ways demo_poll [Assigned ''r'' True, Inspected ''r'', Assigned ''r'' True, Inspected ''r''] Through \<and>
   owed {} [Assigned ''r'' True, Inspected ''r'', Assigned ''r'' True, Inspected ''r''] = Some {} \<and>
   owed {} [Assigned ''r'' True, Assigned ''r'' True] = None"
proof -
  have t: "steps_way [AssignTo demo_result (OVar demo_result) False True False] [Assigned ''r'' True] Through"
    using way_assign [OF way_end, of demo_result "OVar demo_result" False True False]
    by (simp add: demo_result_def holds_result_def)
  have body: "ways [SDo [AssignTo demo_result (OVar demo_result) False True False], SIf [Inspect ''r''] [SBreak] []]
      [Assigned ''r'' True, Inspected ''r''] out" if "ways [SBreak] [] out \<or> ways [] [] out" for out
  proof -
    have "way (SIf [Inspect ''r''] [SBreak] []) ([Inspected ''r''] @ []) out"
      using that by (blast intro: way_if_true way_if_false way_inspect way_end)
    then show ?thesis using ways_go [OF way_do [OF t]] by (metis append.simps append_Nil2 ways_nil ways_go ways_stop)
  qed
  have w: "way (SWhile True [] [SDo [AssignTo demo_result (OVar demo_result) False True False], SIf [Inspect ''r''] [SBreak] []])
      ([] @ [Assigned ''r'' True, Inspected ''r''] @ [] @ [Assigned ''r'' True, Inspected ''r'']) Through"
    by (rule way_while_again [OF way_end body [OF disjI2 [OF ways_nil]] _ way_while_broke [OF way_end body]])
      (simp_all add: ways_stop [OF way_break])
  have p: "ways demo_poll [Assigned ''r'' True, Inspected ''r'', Assigned ''r'' True, Inspected ''r''] Through"
    using ways_go [OF w ways_nil] by (simp add: demo_poll_def)
  obtain s' where "lowers_function demo_env demo_poll (init_state demo_env [] \<lparr>next_temp = 0, next_label = 0\<rparr> 0) s'"
    using demo_poll_lowers by blast
  from results_cannot_get_lost [OF this _ p] p show ?thesis by (simp add: demo_poll_def)
qed

end
