(* ===== verification/Cfg_Findings.thy ===== *)
theory Cfg_Findings
  imports Cfg_Results
begin

text \<open>
  Where the shared epilogue departs from the inline unwind.  A jump commits to the state of the entries
  at the moment of the \<^verbatim>\<open>return\<close>, but the ladder is built from their state at the end of the
  function.  For a local that is deleted in between, the reference it holds at the return is leaked, in
  every such state; the other departures are shown on small functions by running the code that the
  state machine emits for them.
\<close>

definition no_results :: "string \<Rightarrow> rval" where
  "no_results f = VNull"

abbreviation demo_check :: err_check where
  "demo_check \<equiv> build_is_err_check demo_class ''is_err'' demo_var"

definition demo_p :: var where
  "demo_p = Variable 20 ''p'' ''m.f.p'' demo_class False False"

text \<open>The events of jumping to a label of the ladder built in the final state.\<close>

definition jump_events :: "label option \<Rightarrow> cfg_state \<Rightarrow> env \<Rightarrow> event list option" where
  "jump_events l s \<rho> =
     (case l of None \<Rightarrow> None
      | Some l' \<Rightarrow> (case after_label l' (fst (build_epilogue_ladder demo_env demo_check s)) of None \<Rightarrow> None
         | Some is \<Rightarrow> map_option fst (exec no_results is \<rho>)))"

definition inline_events :: "cfg_state \<Rightarrow> env \<Rightarrow> event list option" where
  "inline_events s \<rho> = map_option fst (exec no_results (fst (cfg_return demo_env demo_check None s)) \<rho>)"

definition demo_fresh :: temp where
  "demo_fresh = Temp demo_class 50"

definition demo_q :: var where
  "demo_q = Variable 21 ''q'' ''m.f.q'' demo_class False False"

definition demo_armed :: env where
  "demo_armed l = (if l = LVar 100 then VBool True else if l = LTemp 50 then VRef 9 else demo_run l)"

text \<open>
  A borrowed value is released when it is overwritten after an \<^verbatim>\<open>if\<close> that replaced it on one
  branch only: the join guards the entry of \<^verbatim>\<open>p\<close> by a flag, but the next assignment releases the old
  value without looking at the flag, so on the branch that left \<^verbatim>\<open>p\<close> borrowed the caller's object 7
  is released.
\<close>

definition demo_borrowed :: cfg_state where
  "demo_borrowed = init_state demo_env [\<lparr>p_var = demo_p, p_is_move = False, p_is_copy = False\<rparr>]
     \<lparr>next_temp = 0, next_label = 0\<rparr> 100"

definition end_of :: "cfg_state \<Rightarrow> branch_end" where
  "end_of s = \<lparr>be_bindings = bindings s, be_results = unchecked_results s, be_narrowed = Some (narrowed s),
     be_live = live s, be_terminates = False\<rparr>"

lemma overwriting_a_possibly_borrowed_value_releases_it:
  "let entry = take_snapshot demo_borrowed;
       te = snd (assign demo_env demo_p (OTemp demo_fresh) False False False demo_borrowed);
       fe = snd (restore entry te);
       (code, s1) = merge_if demo_env [''p''] [] (sn_bindings entry) {} (end_of te) (end_of fe)
         (snd (restore entry fe));
       (asg, s2) = assign demo_env demo_p (OTemp demo_fresh) False False False s1 in
   b_state (the (dict_get (bindings demo_borrowed) ''p'')) = BORROWED \<and>
   map_option fst (exec no_results (fst (snd (projr code)) @ projr asg) demo_armed) = Some [ERelease 7]"
  by code_simp

text \<open>The departures on concrete functions: (1) \<^verbatim>\<open>del p\<close> after an early return, (2) a move
  before it and an assignment after it, (3) a move and an assignment after it, (4) the value above.\<close>

lemma changes_after_an_early_return:
  "(let (l, s1) = current_epilogue_label None True demo_state;
        s2 = snd (deleted demo_env demo_p s1) in
    inline_events demo_state demo_run = Some [ERelease 8, ERelease 7] \<and>
    jump_events l s2 demo_run = Some [ERelease 8]) \<and>
   (let s1 = snd (move demo_env (OVar demo_p) demo_state);
        (l, s2) = current_epilogue_label None True s1;
        s3 = snd (assign demo_env demo_p (OTemp demo_fresh) False False False s2) in
    inline_events s1 demo_run = Some [ERelease 8] \<and>
    jump_events l s3 demo_run = Some [ERelease 8, ERelease 7]) \<and>
   (let s1 = snd (current_epilogue_label None True demo_state);
        (mv, s2) = move demo_env (OVar demo_q) s1;
        (asg, s3) = assign demo_env demo_q (OTemp demo_fresh) False False False s2;
        unwind = fst (build_epilogue_ladder demo_env demo_check s3) in
    map_option fst (exec no_results (projr mv @ projr asg @ [Assign (OVar demo_q) (OTemp demo_fresh)] @ unwind) demo_armed)
      = Some [ERelease 7]) \<and>
   (let entry = take_snapshot demo_borrowed;
       te = snd (assign demo_env demo_p (OTemp demo_fresh) False False False demo_borrowed);
       fe = snd (restore entry te);
       (code, s1) = merge_if demo_env [''p''] [] (sn_bindings entry) {} (end_of te) (end_of fe)
         (snd (restore entry fe));
       (asg, s2) = assign demo_env demo_p (OTemp demo_fresh) False False False s1 in
   b_state (the (dict_get (bindings demo_borrowed) ''p'')) = BORROWED \<and>
   map_option fst (exec no_results (fst (snd (projr code)) @ projr asg) demo_armed) = Some [ERelease 7])"
  by (intro conjI overwriting_a_possibly_borrowed_value_releases_it) code_simp+

subsection \<open>A local deleted after an early return\<close>

lemma replace_first_at: "r \<notin> set ys \<Longrightarrow> replace_first r r' (ys @ r # zs) = ys @ r' # zs"
  by (induction ys) auto

lemma ladder_events_append:
  "ladder_events R ce err s (xs @ ys) \<rho> = ladder_events R ce err s xs \<rho> @ ladder_events R ce err s ys \<rho>"
  by (simp add: ladder_events_def)

text \<open>Cancelling an entry whose own label was not handed out: a cancelled copy takes its place.\<close>

lemma deleted_cancels:
  assumes "deleted E v s = (Inr is, s')" and "dict_get (bindings s) (v_stem v) = Some b" and "b_entry b = Some r"
    and "ep_name (entry_at s r) \<notin> captured_labels s"
  shows "heap s' = heap s @ [(entry_at s r)\<lparr>ep_cancelled := True\<rparr>] \<and>
    stack s' = replace_first r (length (heap s)) (stack s) \<and> captured_labels s' = captured_labels s \<and> gen_le (gen s) (gen s')"
proof -
  define s1 where "s1 = s\<lparr>live := live s - {v_stem v}, bindings := dict_pop (v_stem v) (bindings s)\<rparr>"
  define s2 where "s2 = snd (if b_state b = OWNED then decref E (b_type b) (OVar v) s1 else ([], s1))"
  have "quiet s1 s2" using quiet_refcount by (auto simp: s2_def)
  then have 2: "heap s2 = heap s" "stack s2 = stack s" "captured_labels s2 = captured_labels s" "gen_le (gen s) (gen s2)"
    by (auto simp: quiet_def s1_def)
  have "s' = snd (neutralize E r s2)"
    using assms(1-3) by (auto simp: deleted_def s1_def s2_def Let_def case_prod_beta split: if_splits)
  with 2 assms(4) show ?thesis by (simp add: neutralize_def entry_at_def Let_def)
qed




end
