(* ===== verification/Overload_Resolution.thy ===== *)
theory Overload_Resolution
  imports Mpy_Types "HOL-Library.Product_Lexorder"
begin

text \<open>
  Resolution of an overloaded call (\<^verbatim>\<open>src/overload_resolution.py\<close>): every function of the module,
  in the order of the source, and the run-time meaning of the plan it returns (the tests that
  \<^verbatim>\<open>_lower_conditional_dispatch\<close> of \<^verbatim>\<open>src/lowering_calls.py\<close> emits).  The source's injected
  \<^verbatim>\<open>same_type\<close> and \<^verbatim>\<open>protocol_conforms\<close> are the arguments \<open>st\<close> and \<open>pc\<close>; the lazy
  \<^verbatim>\<open>resolve\<close> callbacks have run, and a function whose resolution failed is \<open>of_broken\<close>.
\<close>

subsection \<open>Functions and candidates\<close>

datatype ov_param = OvParam (op_oid: nat) (op_stem: string) (op_type: "mtype option") (op_has_default: bool)

datatype ov_function = OvFunction
  (of_oid: nat) (of_parameters: "ov_param list option") (of_line: nat) (of_is_overload: bool)
  (of_broken: bool) (of_bound_to: "ov_function option")

datatype slot = Pos nat | Kw string

datatype ov_error =
    OvTooComplex
  | OvMultiTypeCheck nat "mtype list"
  | OvUnresolved "(mtype list \<times> nat list) list"
  | OvNoMatch
  | OvAssertionFailed
  | OvKeyError slot
  | OvCannotLocate string
  | OvNonUnionDispatch nat
  | OvNotAMember nat mtype

definition params_of :: "ov_function \<Rightarrow> ov_param list" where
  "params_of f = (case of_parameters f of None \<Rightarrow> [] | Some ps \<Rightarrow> ps)"

type_synonym same = "mtype \<Rightarrow> mtype \<Rightarrow> bool"

definition identity_same_type :: same where
  "identity_same_type a b \<longleftrightarrow> type_id a = type_id b"

definition contains_type :: "same \<Rightarrow> mtype list \<Rightarrow> mtype \<Rightarrow> bool" where
  "contains_type st ts t \<longleftrightarrow> list_ex (st t) ts"

definition intersect_types :: "same \<Rightarrow> mtype list \<Rightarrow> mtype list \<Rightarrow> mtype list" where
  "intersect_types st a b = filter (contains_type st b) a"

definition subtract_types :: "same \<Rightarrow> mtype list \<Rightarrow> mtype list \<Rightarrow> mtype list" where
  "subtract_types st a b = filter (\<lambda>x. \<not> contains_type st b x) a"

definition MAX_TRACKED_STATES :: nat where
  "MAX_TRACKED_STATES = 4096"

text \<open>\<^verbatim>\<open>_State\<close>: the leaves still possible at each slot of the call.\<close>

type_synonym ov_state = "mtype list list"

record candidate =
  c_member :: ov_function
  c_target :: ov_function
  c_required :: "mtype list list"
  c_target_params :: "ov_param list"
  c_wildcard :: "bool list"
  c_types :: "mtype list"

type_synonym condition = "ov_param \<times> mtype"

record ranked_match =
  m_target :: ov_function
  m_conditions :: "condition list"

subsection \<open>Which parameter a slot of the call means\<close>

fun index_where :: "('a \<Rightarrow> bool) \<Rightarrow> 'a list \<Rightarrow> nat option" where
  "index_where P [] = None"
| "index_where P (x # xs) = (if P x then Some 0 else map_option Suc (index_where P xs))"

definition translate_slot :: "ov_param list \<Rightarrow> slot \<Rightarrow> nat option" where
  "translate_slot params key =
     (case key of
        Pos k \<Rightarrow> if length params \<le> k then None else Some k
      | Kw name \<Rightarrow> index_where (\<lambda>p. op_stem p = name) params)"

fun translate_slots :: "ov_param list \<Rightarrow> slot list \<Rightarrow> nat list option" where
  "translate_slots params [] = Some []"
| "translate_slots params (key # keys) =
     (case translate_slot params key of
        None \<Rightarrow> None
      | Some i \<Rightarrow> map_option (Cons i) (translate_slots params keys))"

definition translate_indices :: "ov_function \<Rightarrow> slot list \<Rightarrow> nat list option" where
  "translate_indices member call_slots =
     (case translate_slots (params_of member) call_slots of
        None \<Rightarrow> None
      | Some indices \<Rightarrow>
          if list_all (\<lambda>i. i \<in> set indices \<or> op_has_default (params_of member ! i))
               [0..<length (params_of member)]
          then Some indices else None)"

text \<open>
  \<^verbatim>\<open>stub_covers_call\<close>, slot by slot: a parameter without a type is an assertion failure, a slot
  without leaves a \<^verbatim>\<open>KeyError\<close>.
\<close>

fun covers_slots ::
  "same \<Rightarrow> ov_param list \<Rightarrow> (slot \<times> nat) list \<Rightarrow> (slot, mtype list) dict \<Rightarrow> ov_error + bool" where
  "covers_slots st params [] arg_leaves = Inr True"
| "covers_slots st params ((key, i) # rest) arg_leaves =
     (case op_type (params ! i) of
        None \<Rightarrow> Inl OvAssertionFailed
      | Some t \<Rightarrow>
          (case dict_get arg_leaves key of
             None \<Rightarrow> Inl (OvKeyError key)
           | Some ls \<Rightarrow>
               if list_all (contains_type st (leaves t)) ls then covers_slots st params rest arg_leaves
               else Inr False))"

definition stub_covers_call ::
  "ov_function \<Rightarrow> slot list \<Rightarrow> (slot, mtype list) dict \<Rightarrow> same \<Rightarrow> ov_error + bool" where
  "stub_covers_call stub call_slots arg_leaves st =
     (case translate_indices stub call_slots of
        None \<Rightarrow> Inr False
      | Some indices \<Rightarrow> covers_slots st (params_of stub) (zip call_slots indices) arg_leaves)"

subsection \<open>Building the candidates\<close>

text \<open>The types of the parameters at some indices; one without a type is an assertion failure.\<close>

fun param_types :: "ov_param list \<Rightarrow> nat list \<Rightarrow> mtype list option" where
  "param_types params [] = Some []"
| "param_types params (i # is) =
     (case op_type (params ! i) of None \<Rightarrow> None | Some t \<Rightarrow> map_option (Cons t) (param_types params is))"

fun build_candidates ::
  "(ov_function \<Rightarrow> ov_function) \<Rightarrow> slot list \<Rightarrow> ov_function list \<Rightarrow> ov_error + candidate list" where
  "build_candidates targets call_slots [] = Inr []"
| "build_candidates targets call_slots (member # members) =
     (case translate_indices member call_slots of
        None \<Rightarrow> build_candidates targets call_slots members
      | Some indices \<Rightarrow>
          (case param_types (params_of member) indices of
             None \<Rightarrow> Inl OvAssertionFailed
           | Some types \<Rightarrow>
               (let target = targets member;
                    tps = params_of target;
                    c = \<lparr>c_member = member, c_target = target, c_required = map leaves types,
                         c_target_params = map (\<lambda>i. if i < length tps then tps ! i else params_of member ! i) indices,
                         c_wildcard = map is_typevar types, c_types = types\<rparr> in
                case build_candidates targets call_slots members of
                  Inl e \<Rightarrow> Inl e
                | Inr cs \<Rightarrow> Inr (c # cs))))"

definition candidates_tied :: "same \<Rightarrow> candidate \<Rightarrow> candidate \<Rightarrow> bool" where
  "candidates_tied st a b \<longleftrightarrow>
     c_wildcard a = c_wildcard b \<and>
     list_all (\<lambda>i. c_wildcard a ! i \<or>
         (length (c_required a ! i) = length (c_required b ! i) \<and>
          list_all (contains_type st (c_required b ! i)) (c_required a ! i)))
       [0..<length (c_wildcard a)]"

definition any_wildcard :: "candidate \<Rightarrow> bool" where
  "any_wildcard c \<longleftrightarrow> list_ex id (c_wildcard c)"

function group_tied_wildcard_candidates :: "same \<Rightarrow> candidate list \<Rightarrow> candidate list list" where
  "group_tied_wildcard_candidates st [] = []"
| "group_tied_wildcard_candidates st (c # cs) =
     (if \<not> any_wildcard c then [c] # group_tied_wildcard_candidates st cs
      else
        (let tied = (\<lambda>d. any_wildcard d \<and> candidates_tied st c d) in
         (c # takeWhile tied cs) # group_tied_wildcard_candidates st (dropWhile tied cs)))"
  by pat_completeness auto
termination
  by (relation "measure (\<lambda>(_, cs). length cs)") (auto simp: le_imp_less_Suc length_dropWhile_le)

subsection \<open>The sweep\<close>

text \<open>
  One dimension after the other: what the candidate accepts, whether a run-time check is needed, and
  the leftover pieces that are not empty at any slot.  The three lists run in step; the source pads
  \<^verbatim>\<open>wildcard\<close> with \<^verbatim>\<open>False\<close>, and its callers pass one entry of \<^verbatim>\<open>required\<close> per slot.
\<close>

fun sweep_slots ::
  "same \<Rightarrow> mtype list list \<Rightarrow> ov_state \<Rightarrow> mtype list list \<Rightarrow> bool list \<Rightarrow>
   mtype list list \<times> bool list \<times> ov_state list" where
  "sweep_slots st pre (s # ss) (r # rs) (w # ws) =
     (if w then
        (let (matched, needs, misses) = sweep_slots st (pre @ [s]) ss rs ws in
         (s # matched, False # needs, misses))
      else
        (let inter = intersect_types st s r;
             remainder = subtract_types st s r;
             piece = pre @ [remainder] @ ss;
             (matched, needs, misses) = sweep_slots st (pre @ [inter]) ss rs ws in
         (inter # matched, (remainder \<noteq> []) # needs,
          (if remainder \<noteq> [] \<and> list_all (\<lambda>p. p \<noteq> []) piece then [piece] else []) @ misses)))"
| "sweep_slots st pre ss rs ws = ([], [], [])"

definition sweep ::
  "same \<Rightarrow> ov_state \<Rightarrow> mtype list list \<Rightarrow> bool list \<Rightarrow> mtype list list \<times> bool list \<times> ov_state list" where
  "sweep st state required wildcard =
     sweep_slots st [] state required (wildcard @ replicate (length state - length wildcard) False)"

subsection \<open>The overload members\<close>

text \<open>\<^verbatim>\<open>_record_full_match\<close>: a check that would have to test for several types is refused.\<close>

fun match_conditions :: "nat \<Rightarrow> ov_param list \<Rightarrow> mtype list list \<Rightarrow> bool list \<Rightarrow> ov_error + condition list" where
  "match_conditions i (p # ps) (ls # matched) (need # needs) =
     (if \<not> need then match_conditions (Suc i) ps matched needs
      else if 1 < length ls then Inl (OvMultiTypeCheck i ls)
      else case match_conditions (Suc i) ps matched needs of
        Inl e \<Rightarrow> Inl e
      | Inr cs \<Rightarrow> Inr ((p, hd ls) # cs))"
| "match_conditions i ps matched needs = Inr []"

definition record_full_match :: "candidate \<Rightarrow> mtype list list \<Rightarrow> bool list \<Rightarrow> ov_error + ranked_match" where
  "record_full_match c matched needs =
     (case match_conditions 0 (c_target_params c) matched needs of
        Inl e \<Rightarrow> Inl e
      | Inr cs \<Rightarrow> Inr \<lparr>m_target = c_target c, m_conditions = cs\<rparr>)"

text \<open>One candidate against every open state; \<open>b\<close> is the budget that is left.\<close>

fun sweep_states ::
  "same \<Rightarrow> candidate \<Rightarrow> ov_state list \<Rightarrow> nat \<Rightarrow> ov_error + (ov_state list \<times> ranked_match list \<times> nat)" where
  "sweep_states st c [] b = Inr ([], [], b)"
| "sweep_states st c (s # ss) b =
     (let (matched, needs, misses) = sweep st s (c_required c) (c_wildcard c) in
      if b < length misses then Inl OvTooComplex
      else
        case (if list_all (\<lambda>m. m \<noteq> []) matched
              then (case record_full_match c matched needs of Inl e \<Rightarrow> Inl e | Inr m \<Rightarrow> Inr [m])
              else Inr []) of
          Inl e \<Rightarrow> Inl e
        | Inr ms \<Rightarrow>
            (case sweep_states st c ss (b - length misses) of
               Inl e \<Rightarrow> Inl e
             | Inr (states', ms', b') \<Rightarrow> Inr (misses @ states', ms @ ms', b')))"

fun sweep_candidates ::
  "same \<Rightarrow> candidate list \<Rightarrow> ov_state list \<Rightarrow> nat \<Rightarrow> ov_error + (ov_state list \<times> ranked_match list \<times> nat)" where
  "sweep_candidates st [] states b = Inr (states, [], b)"
| "sweep_candidates st (c # cs) states b =
     (case sweep_states st c states b of
        Inl e \<Rightarrow> Inl e
      | Inr (states', ms, b') \<Rightarrow>
          (case sweep_candidates st cs states' b' of
             Inl e \<Rightarrow> Inl e
           | Inr (states'', ms', b'') \<Rightarrow> Inr (states'', ms @ ms', b'')))"

text \<open>A group of candidates that the sweep cannot tell apart is decided by the bounds of their type variables.\<close>

definition bound_base :: "mtype \<Rightarrow> mtype" where
  "bound_base b = (case b of Specialization _ base _ _ \<Rightarrow> base | _ \<Rightarrow> b)"

definition conforms_to_bounds :: "(mtype \<Rightarrow> mtype \<Rightarrow> bool) \<Rightarrow> mtype list \<Rightarrow> candidate \<Rightarrow> bool" where
  "conforms_to_bounds pc originals c \<longleftrightarrow>
     list_all (\<lambda>i. \<not> c_wildcard c ! i \<or>
         (case c_types c ! i of
            TypeVar _ (Some bound) \<Rightarrow> pc (originals ! i) (bound_base bound)
          | _ \<Rightarrow> True))
       [0..<length (c_wildcard c)]"

fun sweep_tied ::
  "same \<Rightarrow> (mtype \<Rightarrow> mtype \<Rightarrow> bool) \<Rightarrow> mtype list \<Rightarrow> candidate list \<Rightarrow> ov_state list \<Rightarrow> nat \<Rightarrow>
   ov_error + (ov_state list \<times> ranked_match list \<times> nat)" where
  "sweep_tied st pc originals grp [] b = Inr ([], [], b)"
| "sweep_tied st pc originals grp (s # ss) b =
     (let rep = hd grp;
          (matched, needs, misses) = sweep st s (c_required rep) (c_wildcard rep) in
      if b < length misses then Inl OvTooComplex
      else
        let survivors = filter (conforms_to_bounds pc originals) grp in
        case (if \<not> list_all (\<lambda>m. m \<noteq> []) matched then Inr ([], [])
              else case survivors of
                [] \<Rightarrow> Inr ([s], [])
              | c # _ \<Rightarrow>
                  (case record_full_match c matched needs of Inl e \<Rightarrow> Inl e | Inr m \<Rightarrow> Inr ([], [m]))) of
          Inl e \<Rightarrow> Inl e
        | Inr (kept, ms) \<Rightarrow>
            (case sweep_tied st pc originals grp ss (b - length misses) of
               Inl e \<Rightarrow> Inl e
             | Inr (states', ms', b') \<Rightarrow> Inr (misses @ kept @ states', ms @ ms', b')))"

fun sweep_groups ::
  "same \<Rightarrow> (mtype \<Rightarrow> mtype \<Rightarrow> bool) option \<Rightarrow> mtype list \<Rightarrow> candidate list list \<Rightarrow> ov_state list \<Rightarrow> nat \<Rightarrow>
   ov_error + (ov_state list \<times> ranked_match list \<times> nat)" where
  "sweep_groups st pc originals [] states b = Inr (states, [], b)"
| "sweep_groups st pc originals (g # gs) states b =
     (case (case pc of
              Some f \<Rightarrow> if length g = 1 then sweep_candidates st g states b
                        else sweep_tied st f originals g states b
            | None \<Rightarrow> sweep_candidates st g states b) of
        Inl e \<Rightarrow> Inl e
      | Inr (states', ms, b') \<Rightarrow>
          (case sweep_groups st pc originals gs states' b' of
             Inl e \<Rightarrow> Inl e
           | Inr (states'', ms', b'') \<Rightarrow> Inr (states'', ms @ ms', b'')))"

subsection \<open>The plain implementations\<close>

definition accepts :: "same \<Rightarrow> candidate \<Rightarrow> mtype list \<Rightarrow> bool" where
  "accepts st c combo \<longleftrightarrow>
     list_all (\<lambda>i. c_wildcard c ! i \<or> contains_type st (c_required c ! i) (combo ! i)) [0..<length combo]"

definition found_plains :: "same \<Rightarrow> candidate list \<Rightarrow> mtype list \<Rightarrow> candidate list" where
  "found_plains st plains combo =
     (let found = filter (\<lambda>c. accepts st c combo) plains;
          concrete = filter (\<lambda>c. \<not> any_wildcard c) found in
      if concrete \<noteq> [] then concrete else found)"

fun product_size :: "ov_state \<Rightarrow> nat" where
  "product_size [] = 1"
| "product_size (s # ss) = length s * product_size ss"

text \<open>All combinations of leaves that the sweep left over, within the budget.\<close>

fun leftover_combos :: "ov_state list \<Rightarrow> nat \<Rightarrow> ov_error + mtype list list" where
  "leftover_combos [] b = Inr []"
| "leftover_combos (s # ss) b =
     (if b < product_size s then Inl OvTooComplex
      else case leftover_combos ss (b - product_size s) of
        Inl e \<Rightarrow> Inl e
      | Inr cs \<Rightarrow> Inr (product_lists s @ cs))"

definition unresolved_combos :: "same \<Rightarrow> candidate list \<Rightarrow> mtype list list \<Rightarrow> (mtype list \<times> nat list) list" where
  "unresolved_combos st plains combos =
     map (\<lambda>combo. (combo, map (\<lambda>c. of_oid (c_target c)) (found_plains st plains combo)))
       (filter (\<lambda>combo. length (found_plains st plains combo) \<noteq> 1) combos)"

definition combo_targets :: "same \<Rightarrow> candidate list \<Rightarrow> mtype list list \<Rightarrow> (mtype list \<times> ov_function) list" where
  "combo_targets st plains combos = map (\<lambda>combo. (combo, c_target (hd (found_plains st plains combo)))) combos"

fun distinct_targets :: "ov_function list \<Rightarrow> ov_function list \<Rightarrow> ov_function list" where
  "distinct_targets seen [] = seen"
| "distinct_targets seen (t # ts) =
     distinct_targets (if list_ex (\<lambda>u. of_oid u = of_oid t) seen then seen else seen @ [t]) ts"

definition plain_conditions ::
  "same \<Rightarrow> candidate list \<Rightarrow> nat \<Rightarrow> (mtype list \<times> ov_function) list \<Rightarrow> ov_function \<Rightarrow> condition list" where
  "plain_conditions st plains n targets target =
     (let own = map fst (filter (\<lambda>(_, t). of_oid t = of_oid target) targets);
          others = map fst (filter (\<lambda>(_, t). of_oid t \<noteq> of_oid target) targets);
          tps = (case find (\<lambda>c. of_oid (c_target c) = of_oid target) plains of
                   Some c \<Rightarrow> c_target_params c | None \<Rightarrow> []) in
      map (\<lambda>i. (tps ! i, hd own ! i))
        (filter (\<lambda>i. list_all (\<lambda>c. st (c ! i) (hd own ! i)) (tl own) \<and>
                     list_ex (\<lambda>o'. \<not> st (o' ! i) (hd own ! i)) others)
          [0..<n]))"

definition plain_matches ::
  "same \<Rightarrow> candidate list \<Rightarrow> nat \<Rightarrow> mtype list list \<Rightarrow> ov_error + ranked_match list" where
  "plain_matches st plains n combos =
     (if unresolved_combos st plains combos \<noteq> [] then Inl (OvUnresolved (unresolved_combos st plains combos))
      else
        let targets = combo_targets st plains combos in
        Inr (map (\<lambda>t. \<lparr>m_target = t, m_conditions = plain_conditions st plains n targets t\<rparr>)
               (distinct_targets [] (map snd targets))))"

subsection \<open>Resolving a call\<close>

definition is_wildcard_member :: "ov_function \<Rightarrow> bool" where
  "is_wildcard_member f \<longleftrightarrow>
     list_ex (\<lambda>p. case op_type p of Some t \<Rightarrow> is_typevar t | None \<Rightarrow> False) (params_of f)"

definition is_stub :: "ov_function list \<Rightarrow> ov_function \<Rightarrow> bool" where
  "is_stub stubs m \<longleftrightarrow> of_oid m \<in> of_oid ` set stubs"

definition target_of :: "ov_function list \<Rightarrow> ov_function \<Rightarrow> ov_function option" where
  "target_of stubs m = (if is_stub stubs m then of_bound_to m else Some m)"

definition overload_members :: "ov_function list \<Rightarrow> ov_function list \<Rightarrow> ov_function list" where
  "overload_members stubs implementations =
     sort_key (\<lambda>f. (is_wildcard_member f, of_line f)) (stubs @ filter of_is_overload implementations)"

type_synonym plan = "(condition list \<times> ov_function) list \<times> ov_function"

definition plan_of :: "ranked_match list \<Rightarrow> ov_error + plan" where
  "plan_of matches =
     (case matches of
        [] \<Rightarrow> Inl OvNoMatch
      | [m] \<Rightarrow> Inr ([], m_target m)
      | _ \<Rightarrow> Inr (map (\<lambda>m. (m_conditions m, m_target m)) (butlast matches), m_target (last matches)))"

definition resolve_call ::
  "same \<Rightarrow> (mtype \<Rightarrow> mtype \<Rightarrow> bool) option \<Rightarrow> ov_function list \<Rightarrow> ov_function list \<Rightarrow> mtype list \<Rightarrow>
   (string, mtype) dict \<Rightarrow> ov_error + plan" where
  "resolve_call st pc stubs0 implementations0 args kwargs =
     (let stubs = filter (\<lambda>f. \<not> of_broken f) stubs0;
          implementations = filter (\<lambda>f. \<not> of_broken f) implementations0;
          call_slots = map Pos [0..<length args] @ map (Kw \<circ> fst) kwargs;
          originals = args @ map snd kwargs;
          members = overload_members stubs implementations;
          plains = filter (\<lambda>f. \<not> of_is_overload f) implementations in
      if list_ex (\<lambda>m. target_of stubs m = None) members then Inl OvAssertionFailed
      else
        case build_candidates (\<lambda>m. the (target_of stubs m)) call_slots members of
          Inl e \<Rightarrow> Inl e
        | Inr overload_candidates \<Rightarrow>
            (case build_candidates id call_slots plains of
               Inl e \<Rightarrow> Inl e
             | Inr plain_candidates \<Rightarrow>
                 (case sweep_groups st pc originals (group_tied_wildcard_candidates st overload_candidates)
                         [map leaves originals] MAX_TRACKED_STATES of
                    Inl e \<Rightarrow> Inl e
                  | Inr (states, ms, b) \<Rightarrow>
                      (case leftover_combos states b of
                         Inl e \<Rightarrow> Inl e
                       | Inr combos \<Rightarrow>
                           (case plain_matches st plain_candidates (length call_slots) combos of
                              Inl e \<Rightarrow> Inl e
                            | Inr pms \<Rightarrow> plan_of (ms @ pms))))))"

subsection \<open>The plan at run time\<close>

text \<open>
  \<^verbatim>\<open>_dispatch_operand_for_param\<close>: the slot of the call that feeds a parameter of the target.  A value
  of union type holds one of its leaves: \<open>combo\<close> gives the leaf at every slot.
\<close>

definition dispatch_operand_for_param ::
  "nat \<Rightarrow> string list \<Rightarrow> ov_function \<Rightarrow> ov_param \<Rightarrow> ov_error + nat" where
  "dispatch_operand_for_param nargs kwnames target param =
     (case index_where (\<lambda>k. k = op_stem param) kwnames of
        Some k \<Rightarrow> Inr (nargs + k)
      | None \<Rightarrow>
          (case index_where (\<lambda>p. op_oid p = op_oid param) (params_of target) of
             Some i \<Rightarrow> if i < nargs then Inr i else Inl (OvCannotLocate (op_stem param))
           | None \<Rightarrow> Inl (OvCannotLocate (op_stem param))))"

text \<open>
  \<^verbatim>\<open>_tagged_union_shape\<close>: the members of a union or of a specialization of a generic union, whose
  monomorphized class carries the substituted members.
\<close>

definition tagged_union_shape :: "mtype \<Rightarrow> mtype list option" where
  "tagged_union_shape t =
     (case t of
        TaggedUnion _ _ attrs \<Rightarrow> Some (map v_type attrs)
      | Specialization _ base _ monomorphized \<Rightarrow> if is_tagged_union base then Some (leaves monomorphized) else None
      | _ \<Rightarrow> None)"

text \<open>
  \<^verbatim>\<open>_lower_dispatch_tests\<close>: every condition becomes the comparison of the tag of one argument with
  the tag of one member of its union; an argument that is no union, and a leaf that is no member of it,
  are compile errors.  \<open>args\<close> and \<open>kwargs\<close> are the types of the lowered operands.
\<close>

fun lower_dispatch_tests ::
  "same \<Rightarrow> mtype list \<Rightarrow> (string, mtype) dict \<Rightarrow> ov_function \<Rightarrow> condition list \<Rightarrow> ov_error + (nat \<times> mtype) list" where
  "lower_dispatch_tests st args kwargs target [] = Inr []"
| "lower_dispatch_tests st args kwargs target ((p, leaf) # cs) =
     (case dispatch_operand_for_param (length args) (map fst kwargs) target p of
        Inl e \<Rightarrow> Inl e
      | Inr i \<Rightarrow>
          (case tagged_union_shape ((args @ map snd kwargs) ! i) of
             None \<Rightarrow> Inl (OvNonUnionDispatch i)
           | Some members \<Rightarrow>
               (case find (\<lambda>m. st m leaf) members of
                  None \<Rightarrow> Inl (OvNotAMember i leaf)
                | Some member \<Rightarrow>
                    (case lower_dispatch_tests st args kwargs target cs of
                       Inl e \<Rightarrow> Inl e
                     | Inr tests \<Rightarrow> Inr ((i, member) # tests)))))"

fun lower_branches ::
  "same \<Rightarrow> mtype list \<Rightarrow> (string, mtype) dict \<Rightarrow> (condition list \<times> ov_function) list \<Rightarrow>
   ov_error + ((nat \<times> mtype) list \<times> ov_function) list" where
  "lower_branches st args kwargs [] = Inr []"
| "lower_branches st args kwargs ((cs, f) # branches) =
     (case lower_dispatch_tests st args kwargs f cs of
        Inl e \<Rightarrow> Inl e
      | Inr tests \<Rightarrow>
          (case lower_branches st args kwargs branches of
             Inl e \<Rightarrow> Inl e
           | Inr bs \<Rightarrow> Inr ((tests, f) # bs)))"

text \<open>The emitted tests: a value of union type carries the tag of the leaf it holds.\<close>

definition tests_pass :: "(nat \<times> mtype) list \<Rightarrow> mtype list \<Rightarrow> bool" where
  "tests_pass tests combo = list_all (\<lambda>(i, member). combo ! i = member) tests"

fun run_branches :: "((nat \<times> mtype) list \<times> ov_function) list \<Rightarrow> ov_function \<Rightarrow> mtype list \<Rightarrow> ov_function" where
  "run_branches [] dflt combo = dflt"
| "run_branches ((tests, f) # branches) dflt combo =
     (if tests_pass tests combo then f else run_branches branches dflt combo)"

text \<open>\<^verbatim>\<open>_lower_conditional_dispatch\<close> and the run of the code it emits.\<close>

definition run_plan ::
  "same \<Rightarrow> mtype list \<Rightarrow> (string, mtype) dict \<Rightarrow> (condition list \<times> ov_function) list \<Rightarrow> ov_function \<Rightarrow> mtype list \<Rightarrow>
   ov_error + ov_function" where
  "run_plan st args kwargs branches dflt combo =
     (case lower_branches st args kwargs branches of
        Inl e \<Rightarrow> Inl e
      | Inr bs \<Rightarrow> Inr (run_branches bs dflt combo))"

end
