(* ===== verification/Overload_Correct.thy ===== *)
theory Overload_Correct
  imports Overload_Resolution
begin

text \<open>
  What \<^verbatim>\<open>resolve_call\<close> promises.  A combination of leaves, one per slot, belongs to a state when
  each leaf is among the state's leaves at that slot.  The sweep splits a state exactly into what the
  candidate accepts and pairwise disjoint leftovers; the candidates together claim every combination
  that one of them accepts; and the plan, run on the leaves the arguments hold, calls the first
  overload that accepts them when the overloads differ in one argument of the call.
\<close>

definition in_box :: "mtype list \<Rightarrow> ov_state \<Rightarrow> bool" where
  "in_box combo s = list_all2 (\<lambda>x ls. x \<in> set ls) combo s"

lemma in_box_simps [simp]:
  "in_box [] [] = True" "in_box (x # c) (l # s) = (x \<in> set l \<and> in_box c s)"
  "in_box [] (l # s) = False" "in_box (x # c) [] = False"
  by (simp_all add: in_box_def)

lemma in_box_append:
  "length p = length pre \<Longrightarrow> in_box (p @ d) (pre @ s) = (in_box p pre \<and> in_box d s)"
  by (simp add: in_box_def list_all2_append)

lemma in_box_length: "in_box c s \<Longrightarrow> length c = length s"
  by (simp add: in_box_def list_all2_lengthD)

lemma in_box_nth: "in_box c s \<longleftrightarrow> length c = length s \<and> (\<forall>i<length s. c ! i \<in> set (s ! i))"
  by (auto simp: in_box_def list_all2_conv_all_nth)

lemma in_box_nonempty: "in_box c s \<Longrightarrow> list_all (\<lambda>p. p \<noteq> []) s"
  by (induction c s rule: list_induct2') auto

text \<open>What a candidate accepts, slot by slot.\<close>

fun acc :: "same \<Rightarrow> mtype list list \<Rightarrow> bool list \<Rightarrow> mtype list \<Rightarrow> bool" where
  "acc st (r # rs) (w # ws) (x # xs) = ((w \<or> contains_type st r x) \<and> acc st rs ws xs)"
| "acc st rs ws xs = True"

lemma acc_nth:
  "length rs = length xs \<Longrightarrow> length ws = length xs \<Longrightarrow>
   acc st rs ws xs \<longleftrightarrow> (\<forall>i<length xs. ws ! i \<or> contains_type st (rs ! i) (xs ! i))"
proof (induction st rs ws xs rule: acc.induct)
  case (1 st r rs w ws x xs)
  then show ?case by (auto simp: nth_Cons less_Suc_eq_0_disj split: nat.splits)
qed auto

lemma accepts_acc:
  "length (c_required c) = length combo \<Longrightarrow> length (c_wildcard c) = length combo \<Longrightarrow>
   accepts st c combo \<longleftrightarrow> acc st (c_required c) (c_wildcard c) combo"
  by (auto simp: accepts_def acc_nth list_all_iff)

subsection \<open>One candidate\<close>

lemma sweep_slots_matched:
  "length rs = length ss \<Longrightarrow> length ws = length ss \<Longrightarrow>
   in_box c (fst (sweep_slots st pre ss rs ws)) \<longleftrightarrow> in_box c ss \<and> acc st rs ws c"
proof (induction st pre ss rs ws arbitrary: c rule: sweep_slots.induct)
  case (1 st pre s ss r rs w ws)
  from 1 show ?case
    by (cases c) (auto simp: Let_def case_prod_beta intersect_types_def)
qed (auto simp: neq_Nil_conv in_box_def list_all2_Cons2)

lemma sweep_slots_misses:
  "length rs = length ss \<Longrightarrow> length ws = length ss \<Longrightarrow> length p = length pre \<Longrightarrow> length d = length ss \<Longrightarrow>
   length (filter (in_box (p @ d)) (snd (snd (sweep_slots st pre ss rs ws)))) =
     (if in_box p pre \<and> in_box d ss \<and> \<not> acc st rs ws d then 1 else 0)"
proof (induction st pre ss rs ws arbitrary: p d rule: sweep_slots.induct)
  case (1 st pre s ss r rs w ws)
  then obtain x d' where d: "d = x # d'" and len: "length d' = length ss" by (cases d) auto
  show ?case
  proof (cases w)
    case True
    with 1(1) [OF True, of "p @ [x]" d'] 1(3-6) d len show ?thesis
      by (simp add: Let_def case_prod_beta in_box_append)
  next
    case False
    let ?piece = "pre @ [subtract_types st s r] @ ss"
    have "in_box (p @ d) ?piece \<longleftrightarrow> in_box p pre \<and> x \<in> set s \<and> \<not> contains_type st r x \<and> in_box d' ss"
      using 1(5) d by (auto simp: in_box_append subtract_types_def)
    moreover have "in_box (p @ d) ?piece \<Longrightarrow> subtract_types st s r \<noteq> [] \<and> list_all (\<lambda>p. p \<noteq> []) ?piece"
      using in_box_nonempty [of "p @ d" ?piece] by simp
    ultimately have piece: "length (filter (in_box (p @ d))
        (if subtract_types st s r \<noteq> [] \<and> list_all (\<lambda>p. p \<noteq> []) ?piece then [?piece] else [])) =
        (if in_box p pre \<and> x \<in> set s \<and> \<not> contains_type st r x \<and> in_box d' ss then 1 else 0)"
      by (auto simp del: append_Cons append_Nil)
    from 1(2) [OF False refl refl refl, of "p @ [x]" d'] 1(3-6) d len
    have rest: "length (filter (in_box (p @ d)) (snd (snd (sweep_slots st (pre @ [intersect_types st s r]) ss rs ws)))) =
      (if in_box p pre \<and> x \<in> set s \<and> contains_type st r x \<and> in_box d' ss \<and> \<not> acc st rs ws d' then 1 else 0)"
      by (auto simp: in_box_append intersect_types_def)
    show ?thesis using piece rest False d
      by (auto simp: Let_def case_prod_beta simp del: append_Cons append_Nil)
  qed
qed auto

text \<open>
  C14. The sweep is an exact subtraction: a combination of leaves of the state is in the matched part if
  the candidate accepts it at every slot, and otherwise in exactly one of the leftover pieces; nothing
  else is in either.
\<close>

theorem sweep_partitions:
  assumes "length required = length state" and "length wildcard = length state" and "length combo = length state"
    and "sweep st state required wildcard = (matched, needs, misses)"
  shows "(in_box combo matched \<longleftrightarrow> in_box combo state \<and> acc st required wildcard combo) \<and>
    length (filter (in_box combo) misses) = (if in_box combo state \<and> \<not> acc st required wildcard combo then 1 else 0)"
  using sweep_slots_matched [of required state wildcard combo st "[]"]
    sweep_slots_misses [of required state wildcard "[]" "[]" combo st] assms
  by (simp add: sweep_def)

subsection \<open>All candidates\<close>

definition aligned :: "nat \<Rightarrow> candidate \<Rightarrow> bool" where
  "aligned n c \<longleftrightarrow> length (c_required c) = n \<and> length (c_wildcard c) = n \<and> length (c_target_params c) = n"

lemma sweep_slots_lengths:
  "length rs = length ss \<Longrightarrow> length ws = length ss \<Longrightarrow> m \<in> set (snd (snd (sweep_slots st pre ss rs ws))) \<Longrightarrow>
   length m = length pre + length ss"
proof (induction st pre ss rs ws rule: sweep_slots.induct)
  case (1 st pre s ss r rs w ws)
  from 1 show ?case by (cases w) (auto simp: Let_def case_prod_beta split: if_splits)
qed auto

lemma sweep_length:
  assumes "aligned (length s) c" and "m \<in> set (snd (snd (sweep st s (c_required c) (c_wildcard c))))"
  shows "length m = length s"
  using sweep_slots_lengths [of "c_required c" s "c_wildcard c" m st "[]"] assms by (simp add: sweep_def aligned_def)

lemma sweep_count:
  assumes "aligned (length s) c" and "length combo = length s"
  shows "length (filter (in_box combo) (snd (snd (sweep st s (c_required c) (c_wildcard c))))) =
    (if in_box combo s \<and> \<not> accepts st c combo then 1 else 0)"
  using sweep_slots_misses [of "c_required c" s "c_wildcard c" "[]" "[]" combo st] assms
  by (simp add: sweep_def aligned_def accepts_acc)

lemma sweep_states_ConsE:
  assumes "sweep_states st c (s # ss) b = Inr (states', ms, b')"
    and "sweep st s (c_required c) (c_wildcard c) = (matched, needs, misses)"
  obtains ms1 ms2 rest where "sweep_states st c ss (b - length misses) = Inr (rest, ms2, b')"
    and "states' = misses @ rest" and "length misses \<le> b" and "ms = ms1 @ ms2"
    and "(if list_all (\<lambda>m. m \<noteq> []) matched
          then (case record_full_match c matched needs of Inl e \<Rightarrow> Inl e | Inr m \<Rightarrow> Inr [m])
          else Inr []) = (Inr ms1 :: ov_error + ranked_match list)"
proof -
  let ?rec = "if list_all (\<lambda>m. m \<noteq> []) matched
          then (case record_full_match c matched needs of Inl e \<Rightarrow> Inl e | Inr m \<Rightarrow> Inr [m])
          else (Inr [] :: ov_error + ranked_match list)"
  have fits: "length misses \<le> b" using assms by (simp add: not_less split: if_splits)
  obtain ms1 where rec: "?rec = Inr ms1" using assms fits by (cases ?rec) (simp_all only: sweep_states.simps Let_def prod.case, auto)
  then have "(case sweep_states st c ss (b - length misses) of Inl e \<Rightarrow> Inl e
      | Inr (st', ms', b'') \<Rightarrow> Inr (misses @ st', ms1 @ ms', b'')) = Inr (states', ms, b')"
    using assms fits by simp
  then show ?thesis using that rec fits by (auto split: sum.splits)
qed

lemma sweep_states_left:
  assumes "sweep_states st c states b = Inr (states', ms, b')" and "aligned (length combo) c"
    and "\<forall>s\<in>set states. length s = length combo"
  shows "length (filter (in_box combo) states') =
      (if accepts st c combo then 0 else length (filter (in_box combo) states)) \<and>
    (\<forall>s\<in>set states'. length s = length combo) \<and> b' \<le> b \<and> length states' = b - b'"
  using assms
proof (induction states arbitrary: states' ms b b')
  case (Cons s ss)
  obtain matched needs misses where sw: "sweep st s (c_required c) (c_wildcard c) = (matched, needs, misses)"
    by (metis prod_cases3)
  have len: "length s = length combo" using Cons.prems(3) by simp
  have cnt: "length (filter (in_box combo) misses) = (if in_box combo s \<and> \<not> accepts st c combo then 1 else 0)"
    using sweep_count [of s c combo st] Cons.prems(2) unfolding sw len by simp
  have al: "aligned (length s) c" using Cons.prems(2) len by simp
  have lm: "\<forall>m\<in>set misses. length m = length combo"
    using sweep_length [OF al, of _ st] unfolding sw len by simp
  obtain ms2 rest where rest: "sweep_states st c ss (b - length misses) = Inr (rest, ms2, b')"
    and eq: "states' = misses @ rest" and fits: "length misses \<le> b"
    by (rule sweep_states_ConsE [OF Cons.prems(1) sw]) (rule that)
  have "\<forall>s\<in>set ss. length s = length combo" using Cons.prems(3) by simp
  from Cons.IH [OF rest Cons.prems(2) this] cnt lm fits show ?case unfolding eq by (simp add: ball_Un, linarith)
qed simp

lemma sweep_candidates_left:
  assumes "sweep_candidates st cs states b = Inr (states', ms, b')" and "\<forall>c\<in>set cs. aligned (length combo) c"
    and "\<forall>s\<in>set states. length s = length combo"
  shows "length (filter (in_box combo) states') =
      (if \<exists>c\<in>set cs. accepts st c combo then 0 else length (filter (in_box combo) states)) \<and>
    (\<forall>s\<in>set states'. length s = length combo) \<and> b' \<le> b"
  using assms
proof (induction cs arbitrary: states states' ms b b')
  case (Cons c cs)
  obtain states1 ms1 b1 where fst_step: "sweep_states st c states b = Inr (states1, ms1, b1)"
    using Cons.prems(1) by (auto split: sum.splits prod.splits)
  obtain ms2 where rest: "sweep_candidates st cs states1 b1 = Inr (states', ms2, b')"
    using Cons.prems(1) fst_step by (auto split: sum.splits prod.splits)
  have al: "aligned (length combo) c" "\<forall>c\<in>set cs. aligned (length combo) c" using Cons.prems(2) by auto
  note L = sweep_states_left [OF fst_step al(1) Cons.prems(3)]
  from Cons.IH [OF rest al(2)] L show ?case by auto
qed auto

subsection \<open>Groups that are decided by the bounds of their type variables\<close>

text \<open>
  What a group of tied candidates amounts to, given the bounds: without a check of bounds, or alone, the
  candidates themselves; otherwise the first member that conforms, with what the group requires, or
  nothing when none conforms.
\<close>

definition with_target :: "candidate \<Rightarrow> candidate \<Rightarrow> candidate" where
  "with_target rep c = rep\<lparr>c_target := c_target c, c_target_params := c_target_params c\<rparr>"

definition effective_group :: "(mtype \<Rightarrow> mtype \<Rightarrow> bool) option \<Rightarrow> mtype list \<Rightarrow> candidate list \<Rightarrow> candidate list" where
  "effective_group pc originals g =
     (case pc of
        None \<Rightarrow> g
      | Some f \<Rightarrow>
          if length g = 1 then g
          else (case filter (conforms_to_bounds f originals) g of [] \<Rightarrow> [] | c # _ \<Rightarrow> [with_target (hd g) c]))"

definition effective :: "same \<Rightarrow> (mtype \<Rightarrow> mtype \<Rightarrow> bool) option \<Rightarrow> mtype list \<Rightarrow> candidate list \<Rightarrow> candidate list" where
  "effective st pc originals cs = concat (map (effective_group pc originals) (group_tied_wildcard_candidates st cs))"

lemma concat_group_tied: "concat (group_tied_wildcard_candidates st cs) = cs"
  by (induction st cs rule: group_tied_wildcard_candidates.induct) (simp_all add: Let_def)

lemma group_tied_nonempty: "g \<in> set (group_tied_wildcard_candidates st cs) \<Longrightarrow> g \<noteq> []"
  by (induction st cs rule: group_tied_wildcard_candidates.induct) (auto simp: Let_def split: if_splits)

lemma effective_None [simp]: "effective st None originals cs = cs"
  using concat_group_tied [of st cs] by (simp add: effective_def effective_group_def cong: map_cong)

lemma effective_group_members:
  assumes "c \<in> set (effective_group pc originals g)"
  shows "c \<in> set g \<or> (\<exists>rep\<in>set g. \<exists>d\<in>set g. c = with_target rep d)"
proof (cases "filter (conforms_to_bounds (the pc) originals) g")
  case (Cons d ds)
  then have "d \<in> set g" by (metis filter_eq_ConsD in_set_conv_decomp)
  moreover from this have "hd g \<in> set g" by (metis hd_in_set list.set_cases neq_Nil_conv)
  ultimately show ?thesis using assms Cons by (auto simp: effective_group_def split: option.splits if_splits)
qed (use assms in \<open>auto simp: effective_group_def split: option.splits if_splits\<close>)

lemma effective_members:
  assumes "c \<in> set (effective st pc originals cs)"
  obtains rep d where "rep \<in> set cs" "d \<in> set cs" "c_required c = c_required rep" "c_wildcard c = c_wildcard rep"
    "c_target c = c_target d" "c_target_params c = c_target_params d"
proof -
  from assms obtain g where g: "g \<in> set (group_tied_wildcard_candidates st cs)" "c \<in> set (effective_group pc originals g)"
    by (auto simp: effective_def)
  have "set g \<subseteq> set cs" using g(1) by (metis concat_group_tied set_concat UN_upper)
  with effective_group_members [OF g(2)] show ?thesis using that by (fastforce simp: with_target_def)
qed

lemma aligned_effective:
  "\<forall>c\<in>set cs. aligned n c \<Longrightarrow> c \<in> set (effective st pc originals cs) \<Longrightarrow> aligned n c"
  by (erule effective_members) (simp add: aligned_def)

lemma sweep_candidates_append:
  "sweep_candidates st (cs @ ds) states b =
     (case sweep_candidates st cs states b of
        Inl e \<Rightarrow> Inl e
      | Inr (states', ms, b') \<Rightarrow>
          (case sweep_candidates st ds states' b' of
             Inl e \<Rightarrow> Inl e
           | Inr (states'', ms', b'') \<Rightarrow> Inr (states'', ms @ ms', b'')))"
  by (induction cs arbitrary: states b) (auto split: sum.splits prod.splits)

lemma sweep_tied_survivor:
  assumes "filter (conforms_to_bounds f originals) g = c # ds"
  shows "sweep_tied st f originals g states b = sweep_candidates st [with_target (hd g) c] states b"
proof -
  have "sweep_tied st f originals g states b = sweep_states st (with_target (hd g) c) states b"
    by (induction states arbitrary: b)
      (auto simp: assms with_target_def record_full_match_def Let_def split: sum.splits prod.splits)
  then show ?thesis by (auto split: sum.splits)
qed

text \<open>The bounds decide every group: it stands alone, or one of its members conforms.\<close>

definition decided :: "same \<Rightarrow> (mtype \<Rightarrow> mtype \<Rightarrow> bool) option \<Rightarrow> mtype list \<Rightarrow> candidate list \<Rightarrow> bool" where
  "decided st pc originals cs \<longleftrightarrow>
     (case pc of None \<Rightarrow> True
      | Some f \<Rightarrow> list_all (\<lambda>g. length g = 1 \<or> list_ex (conforms_to_bounds f originals) g)
          (group_tied_wildcard_candidates st cs))"

lemma sweep_groups_decided:
  assumes "decided st pc originals cs"
  shows "sweep_groups st pc originals (group_tied_wildcard_candidates st cs) states b =
    sweep_candidates st (effective st pc originals cs) states b"
proof -
  have one: "(case pc of Some f \<Rightarrow> if length g = 1 then sweep_candidates st g states b else sweep_tied st f originals g states b
      | None \<Rightarrow> sweep_candidates st g states b) = sweep_candidates st (effective_group pc originals g) states b"
    if "case pc of None \<Rightarrow> True | Some f \<Rightarrow> length g = 1 \<or> list_ex (conforms_to_bounds f originals) g" for g states b
  proof (cases pc)
    case (Some f)
    show ?thesis
    proof (cases "filter (conforms_to_bounds f originals) g")
      case Nil
      then have "\<not> list_ex (conforms_to_bounds f originals) g" by (simp add: filter_empty_conv list_ex_iff)
      with that Some show ?thesis by (simp add: effective_group_def)
    next
      case (Cons c ds)
      then show ?thesis using sweep_tied_survivor [OF Cons] Some by (simp add: effective_group_def del: sweep_candidates.simps)
    qed
  qed (simp add: effective_group_def)
  have "sweep_groups st pc originals gs states b = sweep_candidates st (concat (map (effective_group pc originals) gs)) states b"
    if "\<forall>g\<in>set gs. case pc of None \<Rightarrow> True | Some f \<Rightarrow> length g = 1 \<or> list_ex (conforms_to_bounds f originals) g" for gs
    using that
    by (induction gs arbitrary: states b) (simp_all add: one sweep_candidates_append split: sum.splits prod.splits)
  moreover have "\<forall>g\<in>set (group_tied_wildcard_candidates st cs).
      case pc of None \<Rightarrow> True | Some f \<Rightarrow> length g = 1 \<or> list_ex (conforms_to_bounds f originals) g"
    using assms by (cases pc) (simp_all add: decided_def list_all_iff)
  ultimately show ?thesis by (simp add: effective_def)
qed

text \<open>A group of which no member conforms leaves every state covered as it was.\<close>

definition covered :: "mtype list \<Rightarrow> ov_state list \<Rightarrow> bool" where
  "covered combo states \<longleftrightarrow> (\<exists>s\<in>set states. in_box combo s)"

lemma covered_simps [simp]:
  "covered combo [] = False" "covered combo (s # ss) = (in_box combo s \<or> covered combo ss)"
  "covered combo (ss @ ss') = (covered combo ss \<or> covered combo ss')"
  by (auto simp: covered_def)

lemma covered_filter: "covered combo ss \<longleftrightarrow> 0 < length (filter (in_box combo) ss)"
  unfolding length_greater_0_conv by (simp add: covered_def filter_empty_conv)

lemma sweep_tied_none:
  assumes "sweep_tied st f originals g states b = Inr (states', ms, b')"
    and "filter (conforms_to_bounds f originals) g = []" and "aligned (length combo) (hd g)"
    and "\<forall>s\<in>set states. length s = length combo"
  shows "(covered combo states' \<longleftrightarrow> covered combo states) \<and> (\<forall>s\<in>set states'. length s = length combo)"
  using assms(1,4)
proof (induction states arbitrary: states' ms b b')
  case (Cons s ss)
  let ?rep = "hd g"
  obtain matched needs misses where sw: "sweep st s (c_required ?rep) (c_wildcard ?rep) = (matched, needs, misses)"
    by (metis prod_cases3)
  have len: "length s = length combo" using Cons.prems(2) by simp
  have al: "aligned (length s) ?rep" using assms(3) len by simp
  have lm: "\<forall>m\<in>set misses. length m = length combo"
    using sweep_length [OF al, of _ st] unfolding sw len by simp
  have cnt: "covered combo misses \<longleftrightarrow> in_box combo s \<and> \<not> accepts st ?rep combo"
    using sweep_count [OF al, of combo st] len unfolding sw covered_filter by simp
  let ?kept = "if list_all (\<lambda>m. m \<noteq> []) matched then [s] else []"
  obtain rest ms2 where rest: "sweep_tied st f originals g ss (b - length misses) = Inr (rest, ms2, b')"
    and eq: "states' = misses @ ?kept @ rest"
    using Cons.prems(1) assms(2) sw by (auto simp: Let_def split: if_splits sum.splits prod.splits)
  have "\<not> (in_box combo s \<and> accepts st ?rep combo)" if "\<not> list_all (\<lambda>m. m \<noteq> []) matched"
    using sweep_slots_matched [of "c_required ?rep" s "c_wildcard ?rep" combo st "[]"] al sw that in_box_nonempty [of combo matched] len
    by (auto simp: sweep_def aligned_def accepts_acc)
  then have "covered combo (misses @ ?kept) \<longleftrightarrow> in_box combo s" using cnt by auto
  moreover have "\<forall>s\<in>set ss. length s = length combo" using Cons.prems(2) by simp
  note Cons.IH [OF rest this]
  ultimately show ?case unfolding eq using lm len by auto
qed simp

lemma sweep_candidates_covered:
  assumes "sweep_candidates st cs states b = Inr (states', ms, b')" and "\<forall>c\<in>set cs. aligned (length combo) c"
    and "\<forall>s\<in>set states. length s = length combo"
  shows "(covered combo states' \<longleftrightarrow> covered combo states \<and> \<not> (\<exists>c\<in>set cs. accepts st c combo)) \<and>
    (\<forall>s\<in>set states'. length s = length combo)"
  using sweep_candidates_left [OF assms] unfolding covered_filter by (simp split: if_splits)

lemma sweep_groups_covered:
  assumes "sweep_groups st pc originals gs states b = Inr (states', ms, b')"
    and "\<forall>g\<in>set gs. g \<noteq> [] \<and> (\<forall>c\<in>set g. aligned (length combo) c)"
    and "\<forall>s\<in>set states. length s = length combo"
  shows "(covered combo states' \<longleftrightarrow> covered combo states \<and>
      \<not> (\<exists>c\<in>set (concat (map (effective_group pc originals) gs)). accepts st c combo)) \<and>
    (\<forall>s\<in>set states'. length s = length combo)"
  using assms
proof (induction gs arbitrary: states states' ms b b')
  case (Cons g gs)
  let ?run = "case pc of Some f \<Rightarrow> if length g = 1 then sweep_candidates st g states b else sweep_tied st f originals g states b
      | None \<Rightarrow> sweep_candidates st g states b"
  obtain states1 ms1 b1 ms2 where step1: "?run = Inr (states1, ms1, b1)"
    and rest: "sweep_groups st pc originals gs states1 b1 = Inr (states', ms2, b')"
    using Cons.prems(1) by (simp split: sum.splits prod.splits)
  have al: "g \<noteq> []" "\<forall>c\<in>set g. aligned (length combo) c" using Cons.prems(2) by auto
  have one: "(covered combo states1 \<longleftrightarrow> covered combo states \<and>
      \<not> (\<exists>c\<in>set (effective_group pc originals g). accepts st c combo)) \<and> (\<forall>s\<in>set states1. length s = length combo)"
  proof (cases "\<exists>f. pc = Some f \<and> length g \<noteq> 1")
    case False
    then have run: "?run = sweep_candidates st g states b" and eff: "effective_group pc originals g = g"
      by (auto simp: effective_group_def split: option.splits)
    show ?thesis using sweep_candidates_covered [OF step1 [unfolded run] al(2) Cons.prems(3)] by (simp add: eff)
  next
    case True
    then obtain f where f: "pc = Some f" "length g \<noteq> 1" by blast
    show ?thesis
    proof (cases "filter (conforms_to_bounds f originals) g")
      case Nil
      then show ?thesis
        using sweep_tied_none [OF _ Nil _ Cons.prems(3)] step1 f al by (simp add: effective_group_def)
    next
      case (Cons c ds)
      then have "c \<in> set g" by (metis filter_eq_ConsD in_set_conv_decomp)
      then have "aligned (length combo) (with_target (hd g) c)" using al by (auto simp: aligned_def with_target_def)
      then show ?thesis
        using sweep_candidates_covered [of st "[with_target (hd g) c]" states b states1 ms1 b1 combo] Cons.prems
          sweep_tied_survivor [OF Cons] step1 f Cons \<open>\<forall>s\<in>set states. length s = length combo\<close>
        by (simp add: effective_group_def del: sweep_candidates.simps)
    qed
  qed
  have "\<forall>g\<in>set gs. g \<noteq> [] \<and> (\<forall>c\<in>set g. aligned (length combo) c)" using Cons.prems(2) by simp
  from Cons.IH [OF rest this] one show ?case by auto
qed simp

subsection \<open>The candidates of a call\<close>

lemma translate_slots_length: "translate_slots ps ks = Some is \<Longrightarrow> length is = length ks"
  by (induction ks arbitrary: "is") (auto split: option.splits)

lemma translate_indices_length: "translate_indices f ks = Some is \<Longrightarrow> length is = length ks"
  by (auto simp: translate_indices_def translate_slots_length split: option.splits if_splits)

lemma param_types_length: "param_types ps is = Some ts \<Longrightarrow> length ts = length is"
  by (induction "is" arbitrary: ts) (auto split: option.splits)

lemma build_candidates_aligned:
  "build_candidates tg ks ms = Inr cs \<Longrightarrow> \<forall>c\<in>set cs. aligned (length ks) c"
proof (induction ms arbitrary: cs)
  case (Cons m ms)
  then show ?case
    by (auto simp: Let_def aligned_def translate_indices_length param_types_length
        split: option.splits sum.splits)
qed auto

definition call_slots_of :: "mtype list \<Rightarrow> (string, mtype) dict \<Rightarrow> slot list" where
  "call_slots_of args kwargs = map Pos [0..<length args] @ map (Kw \<circ> fst) kwargs"

definition candidates_of ::
  "ov_function list \<Rightarrow> ov_function list \<Rightarrow> slot list \<Rightarrow> ov_error + candidate list \<times> candidate list" where
  "candidates_of stubs0 implementations0 ks =
     (let stubs = filter (\<lambda>f. \<not> of_broken f) stubs0;
          implementations = filter (\<lambda>f. \<not> of_broken f) implementations0;
          members = overload_members stubs implementations in
      if list_ex (\<lambda>m. target_of stubs m = None) members then Inl OvAssertionFailed
      else case build_candidates (\<lambda>m. the (target_of stubs m)) ks members of
        Inl e \<Rightarrow> Inl e
      | Inr ocs \<Rightarrow>
          (case build_candidates id ks (filter (\<lambda>f. \<not> of_is_overload f) implementations) of
             Inl e \<Rightarrow> Inl e
           | Inr pcs \<Rightarrow> Inr (ocs, pcs)))"

lemma candidates_aligned:
  "candidates_of stubs implementations ks = Inr (ocs, pcs) \<Longrightarrow> \<forall>c\<in>set ocs \<union> set pcs. aligned (length ks) c"
  by (auto simp: candidates_of_def Let_def dest!: build_candidates_aligned split: if_splits sum.splits)

lemma resolve_call_unfold:
  assumes "candidates_of stubs implementations (call_slots_of args kwargs) = Inr (ocs, pcs)"
  shows "resolve_call st pc stubs implementations args kwargs =
    (case sweep_groups st pc (args @ map snd kwargs) (group_tied_wildcard_candidates st ocs)
        [map leaves (args @ map snd kwargs)] MAX_TRACKED_STATES of
       Inl e \<Rightarrow> Inl e
     | Inr (states, ms, b) \<Rightarrow>
         (case leftover_combos states b of
            Inl e \<Rightarrow> Inl e
          | Inr combos \<Rightarrow>
              (case plain_matches st pcs (length (call_slots_of args kwargs)) combos of
                 Inl e \<Rightarrow> Inl e
               | Inr pms \<Rightarrow> plan_of (ms @ pms))))"
  using assms
  by (auto simp: resolve_call_def candidates_of_def call_slots_of_def Let_def split: if_splits sum.splits)

subsection \<open>Every combination has a target\<close>

text \<open>
  The target a combination of leaves should reach: the first overload member that accepts it, or else
  the only plain implementation that does, a concrete one rather than one with a type variable.
\<close>

definition ref_target :: "same \<Rightarrow> candidate list \<Rightarrow> candidate list \<Rightarrow> mtype list \<Rightarrow> ov_function option" where
  "ref_target st ocs pcs combo =
     (case find (\<lambda>c. accepts st c combo) ocs of
        Some c \<Rightarrow> Some (c_target c)
      | None \<Rightarrow> (case found_plains st pcs combo of [c] \<Rightarrow> Some (c_target c) | _ \<Rightarrow> None))"

lemma leftover_combos_set:
  "leftover_combos states b = Inr combos \<Longrightarrow> set combos = {c. \<exists>s\<in>set states. in_box c s}"
  by (induction states arbitrary: b combos)
    (auto simp: product_lists_set in_box_def split: if_splits sum.splits)

lemma leftovers_of_call:
  assumes sw: "sweep_groups st pc originals (group_tied_wildcard_candidates st ocs) [s0] b0 = Inr (states, ms, b)"
    and lc: "leftover_combos states b = Inr combos" and al: "\<forall>c\<in>set ocs. aligned (length s0) c"
  shows "combo \<in> set combos \<longleftrightarrow>
    in_box combo s0 \<and> find (\<lambda>c. accepts st c combo) (effective st pc originals ocs) = None"
proof -
  have sub: "set g \<subseteq> set ocs" if "g \<in> set (group_tied_wildcard_candidates st ocs)" for g
    using that by (metis concat_group_tied set_concat UN_upper)
  have L: "(covered c states \<longleftrightarrow> covered c [s0] \<and> \<not> (\<exists>e\<in>set (effective st pc originals ocs). accepts st e c)) \<and>
      (\<forall>s\<in>set states. length s = length c)" if "length c = length s0" for c
    unfolding effective_def
    by (rule sweep_groups_covered [OF sw]) (use al that sub group_tied_nonempty in auto)
  have all: "combo \<in> set combos \<longleftrightarrow> covered combo states"
    unfolding leftover_combos_set [OF lc] by (simp add: covered_def)
  show ?thesis
  proof (cases "length combo = length s0")
    case True
    then show ?thesis using all L by (auto simp: find_None_iff)
  next
    case False
    have "\<forall>s\<in>set states. length s = length s0" using L [of "map hd s0"] by simp
    then have "\<not> covered combo states" using False by (auto simp: covered_def dest: in_box_length)
    moreover have "\<not> in_box combo s0" using False by (auto dest: in_box_length)
    ultimately show ?thesis using all by simp
  qed
qed

lemma match_conditions_error: "match_conditions i ps ms ns = Inl e \<Longrightarrow> \<exists>j ls. e = OvMultiTypeCheck j ls"
  by (induction i ps ms ns rule: match_conditions.induct) (auto split: if_splits sum.splits)

lemma sweep_states_error:
  "sweep_states st c ss b = Inl e \<Longrightarrow> e = OvTooComplex \<or> (\<exists>j ls. e = OvMultiTypeCheck j ls)"
proof (induction ss arbitrary: b)
  case (Cons s ss)
  obtain matched needs misses where "sweep st s (c_required c) (c_wildcard c) = (matched, needs, misses)"
    by (metis prod_cases3)
  with Cons show ?case
    by (auto simp: record_full_match_def dest: match_conditions_error split: if_splits sum.splits)
qed simp

lemma sweep_candidates_error:
  "sweep_candidates st cs ss b = Inl e \<Longrightarrow> e = OvTooComplex \<or> (\<exists>j ls. e = OvMultiTypeCheck j ls)"
  by (induction cs arbitrary: ss b) (auto dest: sweep_states_error split: sum.splits)

lemma sweep_tied_error:
  "sweep_tied st f originals g ss b = Inl e \<Longrightarrow> e = OvTooComplex \<or> (\<exists>j ls. e = OvMultiTypeCheck j ls)"
proof (induction ss arbitrary: b)
  case (Cons s ss)
  obtain matched needs misses where "sweep st s (c_required (hd g)) (c_wildcard (hd g)) = (matched, needs, misses)"
    by (metis prod_cases3)
  with Cons show ?case
    by (auto simp: record_full_match_def Let_def dest: match_conditions_error split: if_splits sum.splits list.splits)
qed simp

lemma sweep_groups_error:
  "sweep_groups st pc originals gs ss b = Inl e \<Longrightarrow> e = OvTooComplex \<or> (\<exists>j ls. e = OvMultiTypeCheck j ls)"
  by (induction gs arbitrary: ss b)
    (auto dest: sweep_candidates_error sweep_tied_error split: sum.splits option.splits if_splits)

lemma leftover_combos_error: "leftover_combos ss b = Inl e \<Longrightarrow> e = OvTooComplex"
  by (induction ss arbitrary: b) (auto split: if_splits sum.splits)

lemma plan_of_error: "plan_of ms = Inl e \<Longrightarrow> e = OvNoMatch"
  by (auto simp: plan_of_def split: list.splits)

lemma unresolved_combos_iff:
  "(combo, fs) \<in> set (unresolved_combos st pcs combos) \<Longrightarrow>
     combo \<in> set combos \<and> length (found_plains st pcs combo) \<noteq> 1"
  "unresolved_combos st pcs combos = [] \<longleftrightarrow> (\<forall>combo\<in>set combos. length (found_plains st pcs combo) = 1)"
  by (auto simp: unresolved_combos_def filter_empty_conv)

lemma ref_target_plain:
  assumes "find (\<lambda>c. accepts st c combo) ocs = None"
  shows "ref_target st ocs pcs combo = None \<longleftrightarrow> length (found_plains st pcs combo) \<noteq> 1"
  using assms by (auto simp: ref_target_def length_Suc_conv split: list.splits)

text \<open>
  C15. Resolution is complete: a call that is resolved has a target for every combination of leaves its
  arguments can hold, and a call that is refused as unresolved names only combinations that really have
  none -- no overload member accepts them, and not exactly one plain implementation does.  Members that
  only the bounds of their type variables tell apart count as the first of them whose bounds the
  arguments conform to, and not at all when there is none.
\<close>

theorem resolution_complete:
  assumes "candidates_of stubs implementations (call_slots_of args kwargs) = Inr (ocs, pcs)"
  shows "(\<forall>plan combo. resolve_call st pc stubs implementations args kwargs = Inr plan \<longrightarrow>
      in_box combo (map leaves (args @ map snd kwargs)) \<longrightarrow>
      ref_target st (effective st pc (args @ map snd kwargs) ocs) pcs combo \<noteq> None) \<and>
    (\<forall>us combo fs. resolve_call st pc stubs implementations args kwargs = Inl (OvUnresolved us) \<longrightarrow>
      (combo, fs) \<in> set us \<longrightarrow> in_box combo (map leaves (args @ map snd kwargs)) \<and>
      ref_target st (effective st pc (args @ map snd kwargs) ocs) pcs combo = None)"
proof -
  let ?s0 = "map leaves (args @ map snd kwargs)"
  let ?n = "length (call_slots_of args kwargs)"
  let ?ocs = "effective st pc (args @ map snd kwargs) ocs"
  note unfold = resolve_call_unfold [OF assms]
  have al: "\<forall>c\<in>set ocs. aligned (length ?s0) c"
    using candidates_aligned [OF assms] by (simp add: call_slots_of_def)
  show ?thesis
  proof (cases "sweep_groups st pc (args @ map snd kwargs) (group_tied_wildcard_candidates st ocs) [?s0] MAX_TRACKED_STATES")
    case (Inl e)
    then show ?thesis using sweep_groups_error [OF Inl] unfolding unfold Inl by auto
  next
    case (Inr r)
    obtain states ms b where sw: "sweep_groups st pc (args @ map snd kwargs) (group_tied_wildcard_candidates st ocs) [?s0] MAX_TRACKED_STATES = Inr (states, ms, b)"
      using Inr by (metis prod_cases3)
    show ?thesis
    proof (cases "leftover_combos states b")
      case (Inl e)
      then show ?thesis using leftover_combos_error [OF Inl] unfolding unfold sw by (auto simp: Inl)
    next
      case (Inr combos)
      note L = leftovers_of_call [OF sw Inr al]
      have R: "resolve_call st pc stubs implementations args kwargs =
          (case plain_matches st pcs ?n combos of Inl e \<Rightarrow> Inl e | Inr pms \<Rightarrow> plan_of (ms @ pms))"
        unfolding unfold sw by (simp add: Inr)
      have "ref_target st ?ocs pcs combo \<noteq> None"
        if "resolve_call st pc stubs implementations args kwargs = Inr plan" "in_box combo ?s0" for plan combo
      proof (cases "find (\<lambda>c. accepts st c combo) ?ocs")
        case None
        then have "combo \<in> set combos" using L that(2) by blast
        moreover have "unresolved_combos st pcs combos = []"
          using that(1) unfolding R by (simp add: plain_matches_def Let_def split: if_splits)
        ultimately show ?thesis using unresolved_combos_iff(2) ref_target_plain [OF None] by blast
      qed (simp add: ref_target_def)
      moreover have "in_box combo ?s0 \<and> ref_target st ?ocs pcs combo = None"
        if "resolve_call st pc stubs implementations args kwargs = Inl (OvUnresolved us)" "(combo, fs) \<in> set us"
        for us combo fs
      proof -
        have "us = unresolved_combos st pcs combos"
          using that(1) plan_of_error unfolding R
          by (auto simp: plain_matches_def Let_def split: if_splits)
        then have "combo \<in> set combos" "length (found_plains st pcs combo) \<noteq> 1"
          using unresolved_combos_iff(1) that(2) by blast+
        then show ?thesis using L ref_target_plain by blast
      qed
      ultimately show ?thesis by blast
    qed
  qed
qed

subsection \<open>Running the plan\<close>

text \<open>The matches tried in order, the last one like the others.\<close>

fun run_matches :: "same \<Rightarrow> mtype list \<Rightarrow> ranked_match list \<Rightarrow> mtype list \<Rightarrow> ov_error + ov_function option" where
  "run_matches st args [] combo = Inr None"
| "run_matches st args (m # ms) combo =
     (case lower_dispatch_tests st args [] (m_target m) (m_conditions m) of
        Inl e \<Rightarrow> Inl e
      | Inr tests \<Rightarrow> if tests_pass tests combo then Inr (Some (m_target m)) else run_matches st args ms combo)"

definition lowers_without_error :: "same \<Rightarrow> mtype list \<Rightarrow> ranked_match list \<Rightarrow> bool" where
  "lowers_without_error st args ms \<longleftrightarrow>
     (\<forall>m\<in>set ms. \<not> isl (lower_dispatch_tests st args [] (m_target m) (m_conditions m)))"

lemma run_matches_append:
  "run_matches st args (ms @ ms') combo =
     (case run_matches st args ms combo of Inr None \<Rightarrow> run_matches st args ms' combo | r \<Rightarrow> r)"
  by (induction ms) (auto split: sum.splits)

lemma lowers_append:
  "lowers_without_error st args (ms @ ms') \<longleftrightarrow> lowers_without_error st args ms \<and> lowers_without_error st args ms'"
  by (auto simp: lowers_without_error_def)

lemma run_plan_matches:
  assumes "plan_of ms = Inr (branches, dflt)" and "run_matches st args ms combo = Inr (Some f)"
    and "lowers_without_error st args ms"
  shows "run_plan st args [] branches dflt combo = Inr f"
proof -
  have eq: "branches = map (\<lambda>m. (m_conditions m, m_target m)) (butlast ms)" "dflt = m_target (last ms)" "ms \<noteq> []"
    using assms(1) by (auto simp: plan_of_def split: list.splits)
  have "\<exists>bs. lower_branches st args [] (map (\<lambda>m. (m_conditions m, m_target m)) (butlast ms)) = Inr bs \<and>
      run_branches bs (m_target (last ms)) combo = f"
    using eq(3) assms(2,3)
  proof (induction ms rule: list_nonempty_induct)
    case (single m)
    then show ?case by (auto split: sum.splits if_splits)
  next
    case (cons m ms)
    from cons.prems(2) obtain tests where t: "lower_dispatch_tests st args [] (m_target m) (m_conditions m) = Inr tests"
      by (cases "lower_dispatch_tests st args [] (m_target m) (m_conditions m)") (auto simp: lowers_without_error_def)
    have low: "lowers_without_error st args ms" using cons.prems(2) by (simp add: lowers_without_error_def)
    have "\<exists>bs. lower_branches st args [] (map (\<lambda>m. (m_conditions m, m_target m)) (butlast ms)) = Inr bs"
      using low by (induction ms) (auto simp: lowers_without_error_def isl_def split: sum.splits)
    then obtain bs where bs: "lower_branches st args [] (map (\<lambda>m. (m_conditions m, m_target m)) (butlast ms)) = Inr bs" by blast
    show ?case
    proof (cases "tests_pass tests combo")
      case True
      then show ?thesis using cons.prems(1) cons.hyps t bs by simp
    next
      case False
      then have "run_matches st args ms combo = Inr (Some f)" using cons.prems(1) t by simp
      from cons.IH [OF this low] False t bs cons.hyps show ?thesis by auto
    qed
  qed
  with eq show ?thesis by (auto simp: run_plan_def)
qed

text \<open>
  The hypothesis of the main theorem: at every slot but \<open>j\<close>, every overload member accepts every leaf
  the argument can have -- the members differ in one argument of this call.
\<close>

definition differ_only_at :: "same \<Rightarrow> nat \<Rightarrow> ov_state \<Rightarrow> candidate list \<Rightarrow> bool" where
  "differ_only_at st j s0 cs \<longleftrightarrow>
     (\<forall>c\<in>set cs. \<forall>i<length s0. i \<noteq> j \<longrightarrow>
        c_wildcard c ! i \<or> list_all (contains_type st (c_required c ! i)) (s0 ! i))"

fun ok_slots :: "same \<Rightarrow> ov_state \<Rightarrow> mtype list list \<Rightarrow> bool list \<Rightarrow> bool" where
  "ok_slots st (s # ss) (r # rs) (w # ws) = ((w \<or> list_all (contains_type st r) s) \<and> ok_slots st ss rs ws)"
| "ok_slots st [] [] [] = True"
| "ok_slots st _ _ _ = False"

lemma ok_slots_nth:
  "length rs = length ss \<Longrightarrow> length ws = length ss \<Longrightarrow>
   \<forall>i<length ss. ws ! i \<or> list_all (contains_type st (rs ! i)) (ss ! i) \<Longrightarrow> ok_slots st ss rs ws"
proof (induction st ss rs ws rule: ok_slots.induct)
  case (1 st s ss r rs w ws)
  from 1(4) have "w \<or> list_all (contains_type st r) s"
    "\<forall>i<length ss. ws ! i \<or> list_all (contains_type st (rs ! i)) (ss ! i)" by fastforce+
  with 1 show ?case by simp
qed auto

lemma sweep_slots_ok:
  "ok_slots st xs rs1 ws1 \<Longrightarrow> sweep_slots st pre (xs @ zs) (rs1 @ rs2) (ws1 @ ws2) =
     (let (m, n, ms) = sweep_slots st (pre @ xs) zs rs2 ws2 in (xs @ m, replicate (length xs) False @ n, ms))"
proof (induction st xs rs1 ws1 arbitrary: pre rule: ok_slots.induct)
  case (1 st s ss r rs w ws)
  have "intersect_types st s r = s" "subtract_types st s r = []" if "\<not> w"
    using 1(2) that by (auto simp: intersect_types_def subtract_types_def list_all_iff filter_empty_conv)
  with 1(1) [of "pre @ [s]"] 1(2) show ?case by (auto simp: Let_def case_prod_beta)
qed auto

lemma sweep_one_slot:
  assumes "ok_slots st xs rs1 ws1" and "ok_slots st ys rs2 ws2"
  shows "sweep st (xs @ sj # ys) (rs1 @ r # rs2) (ws1 @ w # ws2) =
    (let inter = (if w then sj else intersect_types st sj r);
         rest = (if w then [] else subtract_types st sj r) in
     (xs @ inter # ys, replicate (length xs) False @ (rest \<noteq> []) # replicate (length ys) False,
      if rest \<noteq> [] \<and> list_all (\<lambda>p. p \<noteq> []) (xs @ rest # ys) then [xs @ rest # ys] else []))"
proof -
  have len: "length xs = length ws1 \<and> length xs = length rs1" "length ys = length ws2 \<and> length ys = length rs2"
    using assms
    by (induction st xs rs1 ws1 rule: ok_slots.induct; simp)
      (use assms(2) in \<open>induction st ys rs2 ws2 rule: ok_slots.induct; simp\<close>)
  have end': "sweep_slots st pre ys rs2 ws2 = (ys, replicate (length ys) False, [])" for pre
    using sweep_slots_ok [OF assms(2), of pre "[]" "[]" "[]"] by simp
  have "sweep st (xs @ sj # ys) (rs1 @ r # rs2) (ws1 @ w # ws2) =
      sweep_slots st [] (xs @ sj # ys) (rs1 @ r # rs2) (ws1 @ w # ws2)"
    using len by (simp add: sweep_def)
  then show ?thesis unfolding sweep_slots_ok [OF assms(1)] by (simp add: end' Let_def)
qed

lemma match_conditions_prefix:
  "length tps1 = length xs \<Longrightarrow>
   match_conditions i (tps1 @ tps2) (xs @ zs) (replicate (length xs) False @ ns) =
   match_conditions (i + length xs) tps2 zs ns"
  by (induction tps1 xs arbitrary: i rule: list_induct2) simp_all

lemma match_conditions_none: "match_conditions i tps ms (replicate k False) = Inr []"
proof (induction k arbitrary: i tps ms)
  case (Suc k)
  then show ?case by (cases tps; cases ms) simp_all
qed simp

text \<open>Every test of a match of \<open>c\<close> reads the slot it was made for.\<close>

definition reads_own_slots :: "nat \<Rightarrow> candidate \<Rightarrow> bool" where
  "reads_own_slots n c \<longleftrightarrow>
     (\<forall>i<n. dispatch_operand_for_param n [] (c_target c) (c_target_params c ! i) = Inr i)"

lemma find_only: "x \<in> set xs \<Longrightarrow> \<forall>y\<in>set xs. P y = (y = x) \<Longrightarrow> find P xs = Some x"
  by (induction xs) auto

lemma tagged_union_leaves: "x \<in> set (leaves t) \<Longrightarrow> y \<in> set (leaves t) \<Longrightarrow> x \<noteq> y \<Longrightarrow> tagged_union_shape t = Some (leaves t)"
  by (cases t) (auto simp: tagged_union_shape_def)

text \<open>The test for a leaf of the argument at slot \<open>j\<close> compares the tag at that slot with the leaf's.\<close>

lemma own_test:
  assumes "reads_own_slots (length args) c" and "j < length args" and "leaf \<in> set (leaves (args ! j))"
    and "other \<in> set (leaves (args ! j))" and "other \<noteq> leaf"
    and "\<forall>x\<in>set (leaves (args ! j)). \<forall>y\<in>set (leaves (args ! j)). st x y = (x = y)"
  shows "lower_dispatch_tests st args [] (c_target c) [(c_target_params c ! j, leaf)] = Inr [(j, leaf)]"
proof -
  have "find (\<lambda>m. st m leaf) (leaves (args ! j)) = Some leaf"
    using assms(3,6) by (intro find_only) auto
  then show ?thesis
    using assms(1,2) tagged_union_leaves [OF assms(3,4)] assms(5) by (simp add: reads_own_slots_def)
qed

lemma candidate_step:
  assumes s0: "s0 = map leaves args" and al: "aligned (length s0) c" and j: "j < length s0" and diff: "differ_only_at st j s0 [c]"
    and own: "reads_own_slots (length s0) c"
    and same: "\<forall>x\<in>set (s0 ! j). \<forall>y\<in>set (s0 ! j). st x y = (x = y)"
    and sub: "set sj \<subseteq> set (s0 ! j)" and box: "in_box combo (s0[j := sj])"
    and run: "sweep_states st c [s0[j := sj]] b = Inr (states', ms, b')"
  obtains rest where "states' = (if rest = [] then [] else [s0[j := rest]])" and "set rest \<subseteq> set sj"
    and "lowers_without_error st args ms"
    and "accepts st c combo \<Longrightarrow> run_matches st args ms combo = Inr (Some (c_target c))"
    and "\<not> accepts st c combo \<Longrightarrow>
      run_matches st args ms combo = Inr None \<and> in_box combo (s0[j := rest])"
proof -
  let ?xs = "take j s0" and ?ys = "drop (Suc j) s0"
  let ?r = "c_required c ! j" and ?w = "c_wildcard c ! j"
  define inter where "inter = (if ?w then sj else intersect_types st sj ?r)"
  define rest where "rest = (if ?w then [] else subtract_types st sj ?r)"
  have split: "s0[j := l] = ?xs @ l # ?ys" for l using j by (simp add: upd_conv_take_nth_drop)
  have cs: "c_required c = take j (c_required c) @ ?r # drop (Suc j) (c_required c)"
    "c_wildcard c = take j (c_wildcard c) @ ?w # drop (Suc j) (c_wildcard c)"
    "c_target_params c = take j (c_target_params c) @ c_target_params c ! j # drop (Suc j) (c_target_params c)"
    using al j by (simp_all add: aligned_def id_take_nth_drop)
  have ok: "ok_slots st ?xs (take j (c_required c)) (take j (c_wildcard c))"
    "ok_slots st ?ys (drop (Suc j) (c_required c)) (drop (Suc j) (c_wildcard c))"
  proof -
    have d: "c_wildcard c ! i \<or> list_all (contains_type st (c_required c ! i)) (s0 ! i)"
      if "i < length s0" "i \<noteq> j" for i using diff that by (simp add: differ_only_at_def)
    have l: "length (c_required c) = length s0" "length (c_wildcard c) = length s0" using al by (simp_all add: aligned_def)
    show "ok_slots st ?xs (take j (c_required c)) (take j (c_wildcard c))"
      using l j d by (intro ok_slots_nth) simp_all
    show "ok_slots st ?ys (drop (Suc j) (c_required c)) (drop (Suc j) (c_wildcard c))"
    proof (intro ok_slots_nth allI impI)
      fix i assume "i < length ?ys"
      then show "drop (Suc j) (c_wildcard c) ! i \<or>
          list_all (contains_type st (drop (Suc j) (c_required c) ! i)) (?ys ! i)"
        using d [of "Suc j + i"] l j by simp
    qed (use l in simp_all)
  qed
  have sw: "sweep st (s0[j := sj]) (c_required c) (c_wildcard c) =
      (?xs @ inter # ?ys, replicate j False @ (rest \<noteq> []) # replicate (length s0 - Suc j) False,
       if rest \<noteq> [] \<and> list_all (\<lambda>p. p \<noteq> []) (s0[j := rest]) then [s0[j := rest]] else [])"
    using sweep_one_slot [OF ok, of sj ?r ?w] j cs
    by (simp add: split inter_def rest_def Let_def del: append_Cons append_Nil flip: cs)
  have full: "list_all (\<lambda>p. p \<noteq> []) ?xs" "list_all (\<lambda>p. p \<noteq> []) ?ys"
    using in_box_nonempty [OF box] unfolding split by simp_all
  have mis: "(if rest \<noteq> [] \<and> list_all (\<lambda>p. p \<noteq> []) (s0[j := rest]) then [s0[j := rest]] else []) =
      (if rest = [] then [] else [s0[j := rest]])"
    using full by (simp add: split)
  have len: "length combo = length s0" using in_box_length [OF box] by simp
  have bj: "combo ! j \<in> set sj" using box j by (auto simp: in_box_nth)
  have acc: "accepts st c combo \<longleftrightarrow> ?w \<or> contains_type st ?r (combo ! j)"
  proof -
    have "c_wildcard c ! i \<or> contains_type st (c_required c ! i) (combo ! i)" if "i < length s0" "i \<noteq> j" for i
    proof -
      have "combo ! i \<in> set (s0 ! i)" using box that by (auto simp: in_box_nth)
      with diff that show ?thesis by (auto simp: differ_only_at_def list_all_iff)
    qed
    then have "(\<forall>i<length s0. c_wildcard c ! i \<or> contains_type st (c_required c ! i) (combo ! i)) \<longleftrightarrow>
        ?w \<or> contains_type st ?r (combo ! j)" using j by metis
    then show ?thesis using len by (simp add: accepts_def list_all_iff Ball_def)
  qed
  have in_inter: "combo ! j \<in> set inter \<longleftrightarrow> accepts st c combo"
    using bj acc by (auto simp: inter_def intersect_types_def)
  have in_rest: "combo ! j \<in> set rest \<longleftrightarrow> \<not> accepts st c combo"
    using bj acc by (auto simp: rest_def subtract_types_def)
  have cond: "match_conditions 0 (c_target_params c) (?xs @ inter # ?ys)
      (replicate j False @ (rest \<noteq> []) # replicate (length s0 - Suc j) False) =
      (if rest = [] then Inr [] else if 1 < length inter then Inl (OvMultiTypeCheck j inter)
       else Inr [(c_target_params c ! j, hd inter)])"
    using match_conditions_prefix [of "take j (c_target_params c)" ?xs 0
        "c_target_params c ! j # drop (Suc j) (c_target_params c)" "inter # ?ys"
        "(rest \<noteq> []) # replicate (length s0 - Suc j) False"] al j cs(3)
    by (simp add: aligned_def match_conditions_none min_absorb2 flip: cs(3))
  have recm: "record_full_match c (?xs @ inter # ?ys)
      (replicate j False @ (rest \<noteq> []) # replicate (length s0 - Suc j) False) =
      (if rest \<noteq> [] \<and> 1 < length inter then Inl (OvMultiTypeCheck j inter)
       else Inr \<lparr>m_target = c_target c,
         m_conditions = (if rest = [] then [] else [(c_target_params c ! j, hd inter)])\<rparr>)"
    unfolding record_full_match_def cond by simp
  obtain ms1 where ms: "states' = (if rest = [] then [] else [s0[j := rest]])" "ms = ms1"
    and rec: "(if list_all (\<lambda>m. m \<noteq> []) (?xs @ inter # ?ys)
      then (case record_full_match c (?xs @ inter # ?ys)
             (replicate j False @ (rest \<noteq> []) # replicate (length s0 - Suc j) False) of Inl e \<Rightarrow> Inl e | Inr m \<Rightarrow> Inr [m])
      else Inr []) = (Inr ms1 :: ov_error + ranked_match list)"
    by (rule sweep_states_ConsE [OF run sw]) (simp add: mis)
  have ms_eq: "ms = [\<lparr>m_target = c_target c, m_conditions = (if rest = [] then [] else [(c_target_params c ! j, hd inter)])\<rparr>]"
    "rest \<noteq> [] \<Longrightarrow> length inter \<le> 1" if "inter \<noteq> []"
    using rec full ms(2) that unfolding recm by (auto split: if_splits)
  have none: "ms = []" if "inter = []" using rec ms(2) that by simp
  have parts: "set inter \<subseteq> set sj" "set rest \<subseteq> set sj" "set inter \<inter> set rest = {}"
    by (auto simp: inter_def rest_def intersect_types_def subtract_types_def)
  have test: "lower_dispatch_tests st args [] (c_target c) [(c_target_params c ! j, hd inter)] = Inr [(j, hd inter)]"
    if "inter \<noteq> []" "rest \<noteq> []"
  proof (rule own_test)
    show "hd inter \<in> set (leaves (args ! j))" "hd rest \<in> set (leaves (args ! j))" "hd rest \<noteq> hd inter"
      using parts sub j hd_in_set [OF that(1)] hd_in_set [OF that(2)] by (auto simp: s0)
  qed (use own same j in \<open>simp_all add: s0\<close>)
  show ?thesis
  proof (rule that [of rest])
    show "states' = (if rest = [] then [] else [s0[j := rest]])" by (rule ms)
    show "set rest \<subseteq> set sj" by (rule parts)
    show "lowers_without_error st args ms"
      using ms_eq(1) none test by (cases "inter = []") (auto simp: lowers_without_error_def)
    show "run_matches st args ms combo = Inr (Some (c_target c))" if "accepts st c combo"
    proof -
      have i: "combo ! j \<in> set inter" "inter \<noteq> []" using that in_inter by auto
      moreover have "hd inter = combo ! j" if "rest \<noteq> []" using i(1) ms_eq(2) [OF i(2) that] by (cases inter) auto
      ultimately show ?thesis using ms_eq(1) test by (cases "rest = []") (simp_all add: tests_pass_def)
    qed
    show "run_matches st args ms combo = Inr None \<and> in_box combo (s0[j := rest])" if "\<not> accepts st c combo"
    proof -
      have r: "combo ! j \<in> set rest" "rest \<noteq> []" using that in_rest by auto
      then have "in_box combo (s0[j := rest])" using box j by (auto simp: in_box_nth nth_list_update)
      moreover have "run_matches st args ms combo = Inr None"
      proof (cases "inter = []")
        case False
        then have "combo ! j \<noteq> hd inter" using in_inter that hd_in_set [OF False] by auto
        then show ?thesis using ms_eq(1) [OF False] test [OF False r(2)] r(2) by (simp add: tests_pass_def)
      qed (simp add: none)
      ultimately show ?thesis by simp
    qed
  qed
qed

lemma sweep_candidates_run:
  assumes "sweep_candidates st cs (if sj = [] then [] else [s0[j := sj]]) b = Inr (states', ms, b')"
    and "in_box combo (s0[j := sj])" and "set sj \<subseteq> set (s0 ! j)" and "j < length s0"
    and "\<forall>c\<in>set cs. aligned (length s0) c \<and> reads_own_slots (length s0) c" and "differ_only_at st j s0 cs"
    and "\<forall>x\<in>set (s0 ! j). \<forall>y\<in>set (s0 ! j). st x y = (x = y)" and "s0 = map leaves args"
  shows "run_matches st args ms combo =
    Inr (map_option c_target (find (\<lambda>c. accepts st c combo) cs))"
  using assms(1-3,5,6)
proof (induction cs arbitrary: sj b states' ms b')
  case (Cons c cs)
  have "sj \<noteq> []" using in_box_nonempty [OF Cons.prems(2)] assms(4) by (auto simp: list_all_length)
  then obtain st1 ms1 b1 ms2 where step1: "sweep_states st c [s0[j := sj]] b = Inr (st1, ms1, b1)"
    and rest1: "sweep_candidates st cs st1 b1 = Inr (states', ms2, b')" and ms: "ms = ms1 @ ms2"
    using Cons.prems(1) by (auto split: sum.splits prod.splits)
  have al: "aligned (length s0) c" "reads_own_slots (length s0) c" using Cons.prems(4) by auto
  have df: "differ_only_at st j s0 [c]" "differ_only_at st j s0 cs"
    using Cons.prems(5) by (auto simp: differ_only_at_def)
  obtain rest where r: "st1 = (if rest = [] then [] else [s0[j := rest]])" "set rest \<subseteq> set sj"
    and acc: "accepts st c combo \<Longrightarrow> run_matches st args ms1 combo = Inr (Some (c_target c))"
    and nacc: "\<not> accepts st c combo \<Longrightarrow>
      run_matches st args ms1 combo = Inr None \<and> in_box combo (s0[j := rest])"
    using candidate_step [OF assms(8) al(1) assms(4) df(1) al(2) assms(7) Cons.prems(3,2) step1] by metis
  show ?case
  proof (cases "accepts st c combo")
    case True
    then show ?thesis using acc by (simp add: ms run_matches_append)
  next
    case False
    have "run_matches st args ms2 combo = Inr (map_option c_target (find (\<lambda>c. accepts st c combo) cs))"
      using Cons.IH [of rest b1 states' ms2 b'] rest1 r nacc [OF False] Cons.prems(3,4) df(2) by auto
    then show ?thesis using False nacc by (simp add: ms run_matches_append)
  qed
qed simp

lemma sweep_candidates_lowers:
  assumes "sweep_candidates st cs (if sj = [] then [] else [s0[j := sj]]) b = Inr (states', ms, b')"
    and "set sj \<subseteq> set (s0 ! j)" and "j < length s0"
    and "\<forall>c\<in>set cs. aligned (length s0) c \<and> reads_own_slots (length s0) c" and "differ_only_at st j s0 cs"
    and "\<forall>x\<in>set (s0 ! j). \<forall>y\<in>set (s0 ! j). st x y = (x = y)" and "s0 = map leaves args" and "in_box combo s0"
  shows "lowers_without_error st args ms"
  using assms(1,2,4,5)
proof (induction cs arbitrary: sj b states' ms b')
  case (Cons c cs)
  show ?case
  proof (cases "sj = []")
    case True
    have "sweep_candidates st ds [] b = Inr ([], [], b)" for ds by (induction ds) simp_all
    then show ?thesis using Cons.prems(1) True by (simp add: lowers_without_error_def)
  next
    case False
    then obtain st1 ms1 b1 ms2 where step1: "sweep_states st c [s0[j := sj]] b = Inr (st1, ms1, b1)"
      and rest1: "sweep_candidates st cs st1 b1 = Inr (states', ms2, b')" and ms: "ms = ms1 @ ms2"
      using Cons.prems(1) by (auto split: sum.splits prod.splits)
    have al: "aligned (length s0) c" "reads_own_slots (length s0) c" using Cons.prems(3) by auto
    have df: "differ_only_at st j s0 [c]" "differ_only_at st j s0 cs"
      using Cons.prems(4) by (auto simp: differ_only_at_def)
    have "in_box (combo[j := hd sj]) (s0[j := sj])"
      using assms(3,8) hd_in_set [OF False] by (auto simp: in_box_nth nth_list_update)
    then obtain rest where r: "st1 = (if rest = [] then [] else [s0[j := rest]])" "set rest \<subseteq> set sj"
      and l: "lowers_without_error st args ms1"
      using candidate_step [OF assms(7) al(1) assms(3) df(1) al(2) assms(6) Cons.prems(2) _ step1] by metis
    have "lowers_without_error st args ms2"
      using Cons.IH [of rest b1 states' ms2 b'] rest1 r Cons.prems(2,3) df(2) by auto
    with l show ?thesis by (simp add: ms lowers_append)
  qed
qed (simp add: lowers_without_error_def)

text \<open>With one plain implementation, its match carries no condition.\<close>

lemma distinct_targets_same:
  "\<forall>t\<in>set ts. of_oid t = of_oid u \<Longrightarrow> distinct_targets [u] ts = [u]"
  by (induction ts) simp_all

lemma found_plains_le: "length (found_plains st pcs combo) \<le> length pcs"
  by (auto simp: found_plains_def Let_def intro: order_trans [OF length_filter_le])

lemma found_plains_sub: "set (found_plains st pcs combo) \<subseteq> set pcs"
  by (auto simp: found_plains_def Let_def)

lemma single_plain:
  assumes "plain_matches st pcs n combos = Inr pms" and "length pcs \<le> 1" and "combo \<in> set combos"
  obtains p where "found_plains st pcs combo = [p]" and "pms = [\<lparr>m_target = c_target p, m_conditions = []\<rparr>]"
proof -
  have one: "\<forall>c\<in>set combos. length (found_plains st pcs c) = 1"
    using assms(1) unresolved_combos_iff(2) [of st pcs combos] by (auto simp: plain_matches_def Let_def split: if_splits)
  obtain p where pcs: "pcs = [p]"
  proof -
    have "pcs \<noteq> []" using one assms(3) found_plains_sub [of st pcs combo] by auto
    then show ?thesis using assms(2) that by (cases pcs) auto
  qed
  have fp: "found_plains st pcs c = [p]" if "c \<in> set combos" for c
  proof -
    have "length (found_plains st pcs c) = 1" using one that by blast
    then obtain q where "found_plains st pcs c = [q]" by (auto simp: length_Suc_conv)
    moreover have "q = p" using found_plains_sub [of st pcs c] calculation pcs by simp
    ultimately show ?thesis by simp
  qed
  let ?tg = "combo_targets st pcs combos"
  have tg: "map snd ?tg = map (\<lambda>_. c_target p) combos"
    using fp by (auto simp: combo_targets_def)
  have "\<forall>x\<in>set ?tg. snd x = c_target p" using fp by (auto simp: combo_targets_def)
  then have none: "filter (\<lambda>(_, t). of_oid t \<noteq> of_oid (c_target p)) ?tg = []"
    by (auto simp: filter_empty_conv)
  obtain c0 cs0 where "combos = c0 # cs0" using assms(3) by (cases combos) auto
  then have "distinct_targets [] (map snd ?tg) = [c_target p]"
    unfolding tg by (simp add: distinct_targets_same)
  then have "pms = [\<lparr>m_target = c_target p, m_conditions = plain_conditions st pcs n ?tg (c_target p)\<rparr>]"
    using assms(1) by (auto simp: plain_matches_def Let_def split: if_splits)
  moreover have "plain_conditions st pcs n ?tg (c_target p) = []"
    by (simp add: plain_conditions_def Let_def none)
  ultimately show ?thesis using that fp [OF assms(3)] by simp
qed

text \<open>A positional call of functions whose parameters are distinct objects, with a parameter for every argument.\<close>

definition well_formed_target :: "nat \<Rightarrow> candidate \<Rightarrow> bool" where
  "well_formed_target n c \<longleftrightarrow>
     n \<le> length (params_of (c_target c)) \<and> distinct (map op_oid (params_of (c_target c)))"

lemma index_where_nth:
  "distinct (map f xs) \<Longrightarrow> i < length xs \<Longrightarrow> index_where (\<lambda>x. f x = f (xs ! i)) xs = Some i"
proof (induction xs arbitrary: i)
  case (Cons x xs)
  have "f (xs ! k) \<noteq> f x" if "k < length xs" for k
    using Cons.prems(1) nth_mem [OF that] by (auto simp: image_iff)
  with Cons show ?case by (cases i) auto
qed simp

lemma translate_slots_positional:
  "translate_slots ps (map Pos ks) = Some is \<Longrightarrow> is = ks"
  by (induction ks arbitrary: "is") (auto simp: translate_slot_def split: option.splits if_splits)

lemma build_candidates_positional:
  assumes "build_candidates tg (map Pos [0..<n]) ms = Inr cs" and "c \<in> set cs" and "well_formed_target n c"
  shows "reads_own_slots n c"
  using assms(1,2)
proof (induction ms arbitrary: cs)
  case (Cons m ms)
  show ?case
  proof (cases "translate_indices m (map Pos [0..<n])")
    case None
    then show ?thesis using Cons by simp
  next
    case (Some indices)
    then have ix: "indices = [0..<n]"
      by (auto simp: translate_indices_def dest: translate_slots_positional split: option.splits if_splits)
    obtain ts cs' where cs: "build_candidates tg (map Pos [0..<n]) ms = Inr cs'"
      and c: "c \<in> set cs' \<or> (c_target c = tg m \<and> c_target_params c =
        map (\<lambda>i. if i < length (params_of (tg m)) then params_of (tg m) ! i else params_of m ! i) [0..<n])"
      using Cons.prems Some ix by (auto simp: Let_def split: option.splits sum.splits)
    from c show ?thesis
    proof
      assume "c_target c = tg m \<and> c_target_params c =
        map (\<lambda>i. if i < length (params_of (tg m)) then params_of (tg m) ! i else params_of m ! i) [0..<n]"
      with assms(3) show ?thesis
        by (auto simp: reads_own_slots_def well_formed_target_def dispatch_operand_for_param_def index_where_nth)
    qed (use Cons.IH cs in blast)
  qed
qed simp

lemma candidates_positional:
  assumes "candidates_of stubs implementations (map Pos [0..<n]) = Inr (ocs, pcs)"
    and "\<forall>c\<in>set ocs. well_formed_target n c"
  shows "\<forall>c\<in>set ocs. reads_own_slots n c"
  using assms build_candidates_positional
  by (fastforce simp: candidates_of_def Let_def split: if_splits sum.splits)

lemma effective_positional:
  "\<forall>c\<in>set ocs. reads_own_slots n c \<Longrightarrow> c \<in> set (effective st pc originals ocs) \<Longrightarrow> reads_own_slots n c"
  by (erule effective_members) (simp add: reads_own_slots_def)

text \<open>
  C16. The plan dispatches correctly, for a positional call in which the overload members differ in one
  argument only, with at most one plain implementation to fall back to, whose groups of tied members are
  each decided by the bounds of their type variables, and whose leaves at that argument are told apart by
  the comparison of types.  Then the tests can be lowered -- the argument is a union and every tested leaf
  a member of it -- and the emitted code sends every combination of leaves the arguments can hold to the
  first overload member that accepts it, and the rest to the plain implementation.
\<close>

theorem plan_calls_first_match:
  assumes "candidates_of stubs implementations (call_slots_of args []) = Inr (ocs, pcs)"
    and "decided st pc args ocs" and "differ_only_at st j (map leaves args) (effective st pc args ocs)" and "j < length args"
    and "length pcs \<le> 1" and "\<forall>c\<in>set ocs. well_formed_target (length args) c"
    and "\<forall>x\<in>set (leaves (args ! j)). \<forall>y\<in>set (leaves (args ! j)). st x y = (x = y)"
    and "resolve_call st pc stubs implementations args [] = Inr (branches, dflt)"
    and "in_box combo (map leaves args)"
  shows "\<exists>f. ref_target st (effective st pc args ocs) pcs combo = Some f \<and>
    run_plan st args [] branches dflt combo = Inr f"
proof -
  let ?s0 = "map leaves args" and ?ocs = "effective st pc args ocs"
  have slots: "call_slots_of args [] = map Pos [0..<length args]" by (simp add: call_slots_of_def)
  have al0: "\<forall>c\<in>set ocs. aligned (length ?s0) c" "\<forall>c\<in>set ocs. reads_own_slots (length ?s0) c"
    using candidates_aligned [OF assms(1)] candidates_positional [OF assms(1) [unfolded slots] assms(6)]
    by (simp_all add: call_slots_of_def)
  then have al: "\<forall>c\<in>set ?ocs. aligned (length ?s0) c \<and> reads_own_slots (length ?s0) c"
    using aligned_effective effective_positional by blast
  obtain states ms b combos pms where
    sg: "sweep_groups st pc args (group_tied_wildcard_candidates st ocs) [?s0] MAX_TRACKED_STATES = Inr (states, ms, b)"
    and lc: "leftover_combos states b = Inr combos"
    and pm: "plain_matches st pcs (length args) combos = Inr pms"
    and plan: "plan_of (ms @ pms) = Inr (branches, dflt)"
    using assms(8) resolve_call_unfold [OF assms(1)]
    by (auto simp: call_slots_of_def split: sum.splits prod.splits)
  have sw: "sweep_candidates st ?ocs [?s0] MAX_TRACKED_STATES = Inr (states, ms, b)"
    using sg sweep_groups_decided [OF assms(2)] by simp
  have upd: "(map leaves args)[j := leaves (args ! j)] = ?s0"
    using assms(4) list_update_id [of ?s0 j] by simp
  have ne: "?s0 ! j \<noteq> []" using in_box_nonempty [OF assms(9)] assms(4) by (auto simp: list_all_length)
  then have run: "run_matches st args ms combo =
      Inr (map_option c_target (find (\<lambda>c. accepts st c combo) ?ocs))"
    using sweep_candidates_run [of st ?ocs "?s0 ! j" ?s0 j MAX_TRACKED_STATES states ms b combo args]
      sw assms(3,4,7,9) al by (simp add: upd)
  have low: "lowers_without_error st args ms"
    using sweep_candidates_lowers [of st ?ocs "?s0 ! j" ?s0 j MAX_TRACKED_STATES states ms b args combo]
      sw assms(3,4,7,9) al ne by (simp add: upd)
  have "\<exists>f. ref_target st ?ocs pcs combo = Some f \<and> run_matches st args (ms @ pms) combo = Inr (Some f)"
  proof (cases "find (\<lambda>c. accepts st c combo) ?ocs")
    case (Some c)
    then show ?thesis using run by (simp add: ref_target_def run_matches_append)
  next
    case None
    then have "combo \<in> set combos" using leftovers_of_call [OF sg lc al0(1)] assms(9) by blast
    then obtain p where "found_plains st pcs combo = [p]" "pms = [\<lparr>m_target = c_target p, m_conditions = []\<rparr>]"
      by (rule single_plain [OF pm assms(5)])
    then show ?thesis using run None by (simp add: ref_target_def run_matches_append tests_pass_def)
  qed
  moreover have "lowers_without_error st args (ms @ pms)"
  proof (cases combos)
    case Nil
    then show ?thesis using pm low by (auto simp: plain_matches_def combo_targets_def lowers_append lowers_without_error_def
        unresolved_combos_def Let_def)
  next
    case (Cons c cs)
    then have "c \<in> set combos" by simp
    then obtain p where "found_plains st pcs c = [p]" "pms = [\<lparr>m_target = c_target p, m_conditions = []\<rparr>]"
      by (rule single_plain [OF pm assms(5)])
    then show ?thesis using low by (simp add: lowers_append) (simp add: lowers_without_error_def)
  qed
  ultimately show ?thesis using run_plan_matches [OF plan] by blast
qed

subsection \<open>Plain implementations that no test tells apart\<close>

lemma distinct_targets_extends: "\<exists>zs. distinct_targets seen ts = seen @ zs \<and> set zs \<subseteq> set ts"
proof (induction ts arbitrary: seen)
  case (Cons t ts)
  show ?case using Cons.IH [of seen] Cons.IH [of "seen @ [t]"] by (cases "list_ex (\<lambda>u. of_oid u = of_oid t) seen") auto
qed simp

lemma plain_target:
  assumes "length (found_plains st pcs combo) = 1"
  shows "ref_target st [] pcs combo = Some (c_target (hd (found_plains st pcs combo)))"
  using assms by (cases "found_plains st pcs combo") (auto simp: ref_target_def)

text \<open>A slot at which the combinations of one target vary gets no test.\<close>

lemma no_plain_condition:
  assumes "\<forall>x\<in>set ls. \<exists>y\<in>set ls. y \<noteq> x \<and> \<not> st y x \<and> tg [y] = tg [x]"
    and "target \<in> (\<lambda>x. tg [x]) ` set ls"
  shows "plain_conditions st pcs 1 (map (\<lambda>x. ([x], tg [x])) ls) target = []"
proof -
  let ?own = "map fst (filter (\<lambda>(_, t). of_oid t = of_oid target) (map (\<lambda>x. ([x], tg [x])) ls))"
  have own: "?own = map (\<lambda>x. [x]) (filter (\<lambda>x. of_oid (tg [x]) = of_oid target) ls)"
    by (induction ls) auto
  from assms(2) obtain x0 where "x0 \<in> set ls" "tg [x0] = target" by auto
  then obtain x xs where f: "filter (\<lambda>x. of_oid (tg [x]) = of_oid target) ls = x # xs"
    by (metis (mono_tags, lifting) filter_empty_conv neq_Nil_conv)
  then have x: "x \<in> set ls" "of_oid (tg [x]) = of_oid target"
    by (metis (mono_tags, lifting) filter_eq_ConsD in_set_conv_decomp)+
  then obtain y where y: "y \<in> set ls" "y \<noteq> x" "\<not> st y x" "tg [y] = tg [x]" using assms(1) by blast
  have "y \<in> set (filter (\<lambda>x. of_oid (tg [x]) = of_oid target) ls)" using x y by simp
  then have "y \<in> set xs" using f y(2) by simp
  then have "\<not> list_all (\<lambda>c. st (c ! 0) (hd ?own ! 0)) (tl ?own)"
    using y(3) unfolding own f by (auto simp: list_all_iff)
  then show ?thesis by (simp add: plain_conditions_def Let_def)
qed

text \<open>
  C17. Plain implementations that each accept several types of a union are not told apart.  For a call with
  one argument of union type and no overload members, if every implementation that some leaf belongs to
  also takes another leaf, then the plan has no test at all: whatever leaf the argument holds, the call
  reaches the implementation of the first leaf, also where another implementation is the only one that
  accepts the argument.
\<close>

theorem untested_plains_reach_the_first:
  assumes "candidates_of stubs implementations (call_slots_of [t] []) = Inr ([], pcs)"
    and "\<forall>x\<in>set (leaves t). \<exists>y\<in>set (leaves t). y \<noteq> x \<and> \<not> st y x \<and> ref_target st [] pcs [y] = ref_target st [] pcs [x]"
    and "resolve_call st pc stubs implementations [t] [] = Inr (branches, dflt)" and "x \<in> set (leaves t)"
  shows "\<exists>f. ref_target st [] pcs [hd (leaves t)] = Some f \<and> run_plan st [t] [] branches dflt [x] = Inr f"
proof -
  let ?ls = "leaves t" and ?tg = "\<lambda>combo. c_target (hd (found_plains st pcs combo))"
  let ?combos = "map (\<lambda>x. [x]) ?ls"
  have combos: "product_lists [?ls] = ?combos" by (simp add: map_concat [symmetric] concat_map_singleton)
  obtain pms where pm: "plain_matches st pcs 1 ?combos = Inr pms" and plan: "plan_of pms = Inr (branches, dflt)"
    using assms(3) resolve_call_unfold [OF assms(1), of st pc] combos
    by (auto simp: call_slots_of_def simp del: product_lists.simps split: if_splits sum.splits)
  have one: "\<forall>x\<in>set ?ls. length (found_plains st pcs [x]) = 1"
    using pm unresolved_combos_iff(2) [of st pcs ?combos] by (auto simp: plain_matches_def Let_def split: if_splits)
  have tg: "ref_target st [] pcs [x] = Some (?tg [x])" if "x \<in> set ?ls" for x using plain_target one that by blast
  have targets: "combo_targets st pcs ?combos = map (\<lambda>x. ([x], ?tg [x])) ?ls" by (simp add: combo_targets_def)
  let ?ts = "distinct_targets [] (map (\<lambda>x. ?tg [x]) ?ls)"
  obtain l ls where ls: "?ls = l # ls" using assms(4) by (cases ?ls) auto
  obtain zs where zs: "?ts = ?tg [l] # zs" "set zs \<subseteq> (\<lambda>x. ?tg [x]) ` set ?ls"
    using distinct_targets_extends [of "[?tg [l]]" "map (\<lambda>x. ?tg [x]) ls"] ls by auto
  have none: "plain_conditions st pcs 1 (map (\<lambda>x. ([x], ?tg [x])) ?ls) target = []" if "target \<in> set ?ts" for target
  proof (rule no_plain_condition)
    show "\<forall>x\<in>set ?ls. \<exists>y\<in>set ?ls. y \<noteq> x \<and> \<not> st y x \<and> ?tg [y] = ?tg [x]" using assms(2) tg by fastforce
    show "target \<in> (\<lambda>x. ?tg [x]) ` set ?ls" using that zs ls by auto
  qed
  have "pms = map (\<lambda>t. \<lparr>m_target = t, m_conditions = []\<rparr>) ?ts"
    using pm none unfolding plain_matches_def targets Let_def by (auto simp: comp_def split: if_splits)
  then have "run_matches st [t] pms [x] = Inr (Some (?tg [l]))" "lowers_without_error st [t] pms"
    by (auto simp: zs(1) tests_pass_def lowers_without_error_def)
  then have "run_plan st [t] [] branches dflt [x] = Inr (?tg [l])" by (rule run_plan_matches [OF plan])
  then show ?thesis using tg [of l] ls by auto
qed

end
