(* ===== verification/Overload_Examples.thy ===== *)
theory Overload_Examples
  imports Overload_Correct
begin

text \<open>
  Concrete overload groups: witnesses of the theorems on \<^verbatim>\<open>resolve_call\<close>, and calls on which its
  plan departs from the first member that accepts the arguments.
\<close>

definition cls :: "nat \<Rightarrow> string \<Rightarrow> mtype" where
  "cls k n = RCClass \<lparr>oid = k, stem = n, qualname = n\<rparr>"

definition union_of :: "nat \<Rightarrow> mtype list \<Rightarrow> mtype" where
  "union_of k ts = TaggedUnion \<lparr>oid = k, stem = ''union'', qualname = ''union''\<rparr> []
     (map (\<lambda>t. Variable (k + type_id t) ''m'' ''m'' t False False) ts)"

definition func :: "nat \<Rightarrow> bool \<Rightarrow> mtype list \<Rightarrow> ov_function" where
  "func k is_overload ts =
     OvFunction k (Some (map (\<lambda>(i, t). OvParam (10 * k + i) (if i = 0 then ''v'' else ''w'') (Some t) False)
       (enumerate 0 ts))) k is_overload False None"

abbreviation cA :: mtype where "cA \<equiv> cls 1 ''A''"
abbreviation cB :: mtype where "cB \<equiv> cls 2 ''B''"
abbreviation cC :: mtype where "cC \<equiv> cls 3 ''C''"
abbreviation cD :: mtype where "cD \<equiv> cls 4 ''D''"

definition uAB :: mtype where "uAB = union_of 100 [cA, cB]"

text \<open>An overload on \<^verbatim>\<open>A\<close> with a plain implementation for \<^verbatim>\<open>A|B\<close>, called with a value of type \<^verbatim>\<open>A|B\<close>.\<close>

definition one_overload :: "ov_function list" where
  "one_overload = [func 1 True [cA], func 2 False [uAB]]"

definition demo_candidates :: "candidate list \<times> candidate list" where
  "demo_candidates = projr (candidates_of [] one_overload (call_slots_of [uAB] []))"

theorem sweep_partitions_witness:
  "length (filter (in_box [cB]) (snd (snd (sweep identity_same_type [[cA, cB]] [[cA]] [False])))) = 1"
proof -
  have "\<not> acc identity_same_type [[cA]] [False] [cB]" by code_simp
  moreover have "in_box [cB] [[cA, cB]]" by simp
  ultimately show ?thesis
    using sweep_partitions [of "[[cA]]" "[[cA, cB]]" "[False]" "[cB]" identity_same_type]
    by (metis One_nat_def length_Cons list.size(3) surjective_pairing)
qed

lemma demo_candidates_eq:
  "candidates_of [] one_overload (call_slots_of [uAB] []) = Inr (fst demo_candidates, snd demo_candidates)"
proof -
  have "isl (candidates_of [] one_overload (call_slots_of [uAB] [])) = False" by code_simp
  then show ?thesis unfolding demo_candidates_def by (simp add: sum.collapse(2))
qed

text \<open>
  Two overloads that differ in the bound of their type variable only, called with an \<^verbatim>\<open>A\<close> that conforms
  to the second bound (\<^verbatim>\<open>Q\<close>), or to none.
\<close>

definition bounded :: "nat \<Rightarrow> mtype \<Rightarrow> mtype" where
  "bounded k b = TypeVar \<lparr>oid = k, stem = ''T'', qualname = ''T''\<rparr> (Some b)"

definition two_bounds :: "ov_function list" where
  "two_bounds = [func 1 True [bounded 11 cC], func 2 True [bounded 12 cD]]"

definition to_second :: "mtype \<Rightarrow> mtype \<Rightarrow> bool" where
  "to_second a b \<longleftrightarrow> type_id b = type_id cD"

definition bounds_candidates :: "candidate list \<times> candidate list" where
  "bounds_candidates = projr (candidates_of [] two_bounds (call_slots_of [cA] []))"

lemma bounds_candidates_eq:
  "candidates_of [] two_bounds (call_slots_of [cA] []) = Inr (fst bounds_candidates, snd bounds_candidates)"
proof -
  have "isl (candidates_of [] two_bounds (call_slots_of [cA] [])) = False" by code_simp
  then show ?thesis unfolding bounds_candidates_def by (simp add: sum.collapse(2))
qed

theorem resolution_complete_witness:
  "ref_target identity_same_type (effective identity_same_type (Some to_second) [cA] (fst bounds_candidates))
     (snd bounds_candidates) [cA] \<noteq> None \<and>
   ref_target identity_same_type (effective identity_same_type (Some (\<lambda>_ _. False)) [cA] (fst bounds_candidates))
     (snd bounds_candidates) [cA] = None"
proof -
  note complete = resolution_complete [OF bounds_candidates_eq, of identity_same_type]
  have "\<not> isl (resolve_call identity_same_type (Some to_second) [] two_bounds [cA] [])" by code_simp
  then obtain plan where "resolve_call identity_same_type (Some to_second) [] two_bounds [cA] [] = Inr plan"
    by (metis sum.collapse(2))
  moreover have "in_box [cA] (map leaves ([cA] @ map snd []))" by code_simp
  ultimately have 1: "ref_target identity_same_type (effective identity_same_type (Some to_second) [cA] (fst bounds_candidates))
     (snd bounds_candidates) [cA] \<noteq> None"
    using complete [of "Some to_second"] by auto
  have "resolve_call identity_same_type (Some (\<lambda>_ _. False)) [] two_bounds [cA] [] = Inl (OvUnresolved [([cA], [])])"
    by code_simp
  then show ?thesis using complete [of "Some (\<lambda>_ _. False)"] 1 by auto
qed

theorem plan_calls_first_match_witness:
  "run_plan identity_same_type [uAB] [] (fst (projr (resolve_call identity_same_type None [] one_overload [uAB] [])))
     (snd (projr (resolve_call identity_same_type None [] one_overload [uAB] []))) [cB] = Inr (func 2 False [uAB])"
proof -
  have "differ_only_at identity_same_type 0 (map leaves [uAB]) (fst demo_candidates)"
    by (simp add: differ_only_at_def)
  moreover have "length (snd demo_candidates) \<le> 1" by code_simp
  moreover have "\<forall>c\<in>set (fst demo_candidates). well_formed_target (length [uAB]) c" by code_simp
  moreover have "\<forall>x\<in>set (leaves ([uAB] ! 0)). \<forall>y\<in>set (leaves ([uAB] ! 0)). identity_same_type x y = (x = y)"
    by code_simp
  moreover have "resolve_call identity_same_type None [] one_overload [uAB] [] =
      Inr (fst (projr (resolve_call identity_same_type None [] one_overload [uAB] [])),
           snd (projr (resolve_call identity_same_type None [] one_overload [uAB] [])))"
  proof -
    have "\<not> isl (resolve_call identity_same_type None [] one_overload [uAB] [])" by code_simp
    then show ?thesis by (simp add: sum.collapse(2))
  qed
  moreover have "in_box [cB] (map leaves [uAB])" by code_simp
  ultimately have "\<exists>f. ref_target identity_same_type (fst demo_candidates) (snd demo_candidates) [cB] = Some f \<and>
      run_plan identity_same_type [uAB] []
        (fst (projr (resolve_call identity_same_type None [] one_overload [uAB] [])))
        (snd (projr (resolve_call identity_same_type None [] one_overload [uAB] []))) [cB] = Inr f"
    by (intro plan_calls_first_match [OF demo_candidates_eq, of identity_same_type None 0, unfolded effective_None])
      (simp_all add: decided_def)
  moreover have "ref_target identity_same_type (fst demo_candidates) (snd demo_candidates) [cB] = Some (func 2 False [uAB])"
    by code_simp
  ultimately show ?thesis by simp
qed

text \<open>The function a call reaches, for the leaves its arguments hold, and the one it should reach.\<close>

definition reached :: "ov_function list \<Rightarrow> mtype list \<Rightarrow> mtype list \<Rightarrow> ov_error + nat" where
  "reached fs args combo =
     (case resolve_call identity_same_type None [] fs args [] of
        Inl e \<Rightarrow> Inl e
      | Inr (branches, dflt) \<Rightarrow>
          (case run_plan identity_same_type args [] branches dflt combo of
             Inl e \<Rightarrow> Inl e | Inr f \<Rightarrow> Inr (of_oid f)))"

definition expected :: "ov_function list \<Rightarrow> mtype list \<Rightarrow> mtype list \<Rightarrow> nat option" where
  "expected fs args combo =
     (case candidates_of [] fs (call_slots_of args []) of
        Inl e \<Rightarrow> None
      | Inr (ocs, pcs) \<Rightarrow> map_option of_oid (ref_target identity_same_type ocs pcs combo))"

text \<open>
  Calls that reach an overload other than the first declared one that accepts the arguments.
  (1) With \<^verbatim>\<open>foo(A, A)\<close>, \<^verbatim>\<open>foo(B, B)\<close> and \<^verbatim>\<open>foo(A|B, A|B)\<close>, declared in this order and called with two values of type
  \<^verbatim>\<open>A|B\<close>, the arguments \<open>A, B\<close> reach \<^verbatim>\<open>foo(B, B)\<close> instead of \<^verbatim>\<open>foo(A|B, A|B)\<close>: the test
  for \<^verbatim>\<open>foo(B, B)\<close> was made for the piece in which the first argument is known to be a \<^verbatim>\<open>B\<close>.
  (2) The same happens with a single argument of union type: with \<^verbatim>\<open>foo(A, C)\<close>, \<^verbatim>\<open>foo(A, D)\<close> and \<^verbatim>\<open>foo(B, D)\<close>, a call with
  an \<^verbatim>\<open>A|B\<close> and a \<^verbatim>\<open>D\<close> always reaches \<^verbatim>\<open>foo(A, D)\<close>, also when the first argument is a \<^verbatim>\<open>B\<close>.
\<close>

lemma overloads_misdispatch:
  "(let fs = [func 1 True [cA, cA], func 2 True [cB, cB], func 3 True [uAB, uAB]] in
    expected fs [uAB, uAB] [cA, cB] = Some 3 \<and> reached fs [uAB, uAB] [cA, cB] = Inr 2) \<and>
   (let fs = [func 1 True [cA, cC], func 2 True [cA, cD], func 3 True [cB, cD]] in
    expected fs [uAB, cD] [cB, cD] = Some 3 \<and> reached fs [uAB, cD] [cB, cD] = Inr 2)"
  by (intro conjI) code_simp+

text \<open>\<^verbatim>\<open>foo(A|B)\<close> and \<^verbatim>\<open>foo(C|D)\<close>, called with a value of type \<^verbatim>\<open>A|B|C|D\<close> that holds a \<^verbatim>\<open>C\<close>.\<close>

definition two_plains :: "ov_function list" where
  "two_plains = [func 1 False [uAB], func 2 False [union_of 200 [cC, cD]]]"

definition uABCD :: mtype where "uABCD = union_of 300 [cA, cB, cC, cD]"

definition plains_candidates :: "candidate list" where
  "plains_candidates = snd (projr (candidates_of [] two_plains (call_slots_of [uABCD] [])))"

theorem untested_plains_reach_the_first_witness:
  "ref_target identity_same_type [] plains_candidates [cC] = Some (func 2 False [union_of 200 [cC, cD]]) \<and>
   run_plan identity_same_type [uABCD] [] (fst (projr (resolve_call identity_same_type None [] two_plains [uABCD] [])))
     (snd (projr (resolve_call identity_same_type None [] two_plains [uABCD] []))) [cC] = Inr (func 1 False [uAB])"
proof -
  have "isl (candidates_of [] two_plains (call_slots_of [uABCD] [])) = False"
    "fst (projr (candidates_of [] two_plains (call_slots_of [uABCD] []))) = []" by code_simp+
  then have c: "candidates_of [] two_plains (call_slots_of [uABCD] []) = Inr ([], plains_candidates)"
    unfolding plains_candidates_def by (metis prod.collapse sum.collapse(2))
  have two: "\<forall>x\<in>set (leaves uABCD). \<exists>y\<in>set (leaves uABCD). y \<noteq> x \<and> \<not> identity_same_type y x \<and>
      ref_target identity_same_type [] plains_candidates [y] = ref_target identity_same_type [] plains_candidates [x]"
    by code_simp
  have "\<not> isl (resolve_call identity_same_type None [] two_plains [uABCD] [])" by code_simp
  then have "resolve_call identity_same_type None [] two_plains [uABCD] [] =
      Inr (fst (projr (resolve_call identity_same_type None [] two_plains [uABCD] [])),
           snd (projr (resolve_call identity_same_type None [] two_plains [uABCD] [])))"
    by (simp add: sum.collapse(2))
  moreover have "cC \<in> set (leaves uABCD)" by code_simp
  moreover have "ref_target identity_same_type [] plains_candidates [hd (leaves uABCD)] = Some (func 1 False [uAB])"
    "ref_target identity_same_type [] plains_candidates [cC] = Some (func 2 False [union_of 200 [cC, cD]])" by code_simp+
  ultimately show ?thesis using untested_plains_reach_the_first [OF c two] by auto
qed

end
