(* ===== verification/Lib_Base.thy ===== *)
theory Lib_Base
  imports Mpy_Prelude "HOL-Library.Multiset"
begin

text \<open>
  What the modelled parts of the run-time library (\<^verbatim>\<open>src/lib\<close>) share: a result is a value or an
  error; a panic, and an access outside a buffer, are errors of their own.  Machine integers are
  natural numbers or integers with their range checked the way the arithmetic mode of the source says.
  \<open>Diverges\<close> is the value of a loop that has used up the number of steps it was given.
\<close>

datatype huffman_error = OversubscribedCode | InvalidCodeLength | UnexpectedEndOfStream | NoSymbolMatched | CodeTooLong

datatype int_error = InvalidDigit | Overflow | Other

datatype lib_error =
    IndexError | KeyError | OverflowError | ZeroDivisionError | ValueError string | CodecError string string | IntError int_error
  | Base64Error string | BitstreamError string | HuffmanError huffman_error | LZ77Error string | DeflateError string
  | Panic string | MemFault | Diverges

type_synonym 'a res = "lib_error + 'a"

definition rbind :: "'a res \<Rightarrow> ('a \<Rightarrow> 'b res) \<Rightarrow> 'b res" where
  "rbind r f = (case r of Inl e \<Rightarrow> Inl e | Inr x \<Rightarrow> f x)"

lemma rbind_simps [simp]: "rbind (Inl e) f = Inl e" "rbind (Inr x) f = f x"
  by (simp_all add: rbind_def)

lemma rbind_Inr: "rbind r f = Inr y \<longleftrightarrow> (\<exists>x. r = Inr x \<and> f x = Inr y)"
  by (cases r) simp_all

lemma rbind_Inl: "rbind r f = Inl e \<longleftrightarrow> r = Inl e \<or> (\<exists>x. r = Inr x \<and> f x = Inl e)"
  by (cases r) auto

lemma rbind_cong [fundef_cong]: "r = r' \<Longrightarrow> (\<And>x. r' = Inr x \<Longrightarrow> f x = f' x) \<Longrightarrow> rbind r f = rbind r' f'"
  by (cases r') simp_all

text \<open>Errors that end the program rather than being returned.\<close>

definition fatal :: "lib_error \<Rightarrow> bool" where
  "fatal e = (case e of Panic m \<Rightarrow> True | MemFault \<Rightarrow> True | Diverges \<Rightarrow> True | _ \<Rightarrow> False)"

lemma fatal_simps [simp]: "fatal (Panic m)" "fatal MemFault" "fatal Diverges" "\<not> fatal IndexError" "\<not> fatal KeyError"
  "\<not> fatal OverflowError" "\<not> fatal (ValueError s)" "\<not> fatal (Base64Error s)" "\<not> fatal (BitstreamError s)"
  "\<not> fatal (HuffmanError h)" "\<not> fatal (LZ77Error s)" "\<not> fatal (DeflateError s)"
  "\<not> fatal ZeroDivisionError" "\<not> fatal (CodecError c s)" "\<not> fatal (IntError ie)"
  by (simp_all add: fatal_def)

text \<open>A returned error is replaced: \<^verbatim>\<open>.unwrap(msg)\<close> makes it a panic, a \<^verbatim>\<open>match\<close> another error.\<close>

definition map_err :: "lib_error \<Rightarrow> 'a res \<Rightarrow> 'a res" where
  "map_err e r = (case r of Inl e' \<Rightarrow> Inl (if fatal e' then e' else e) | Inr x \<Rightarrow> Inr x)"

definition unwrap :: "string \<Rightarrow> 'a res \<Rightarrow> 'a res" where
  "unwrap msg r = map_err (Panic msg) r"

lemma map_err_Inr [simp]: "map_err e (Inr x) = Inr x" "map_err e r = Inr x \<longleftrightarrow> r = Inr x"
  "map_err e (Inl e') = Inl (if fatal e' then e' else e)"
  by (auto simp: map_err_def split: sum.splits)

lemma unwrap_Inr [simp]: "unwrap msg (Inr x) = Inr x"
  by (simp add: unwrap_def)

lemma unwrap_eq_Inr [simp]: "unwrap msg r = Inr x \<longleftrightarrow> r = Inr x"
  by (simp add: unwrap_def)

subsection \<open>Panicking unsigned arithmetic\<close>

definition usize_lim :: nat where
  "usize_lim = 2 ^ 64"

definition fits :: "string \<Rightarrow> nat \<Rightarrow> nat res" where
  "fits msg n = (if n < usize_lim then Inr n else Inl (Panic msg))"

definition sub_panic :: "string \<Rightarrow> nat \<Rightarrow> nat \<Rightarrow> nat res" where
  "sub_panic msg a b = (if b \<le> a then Inr (a - b) else Inl (Panic msg))"

lemma fits_Inr [simp]: "fits msg n = Inr m \<longleftrightarrow> m = n \<and> n < usize_lim"
  by (auto simp: fits_def)

lemma sub_panic_Inr [simp]: "sub_panic msg a b = Inr m \<longleftrightarrow> b \<le> a \<and> m = a - b"
  by (auto simp: sub_panic_def)

subsection \<open>Reference counts\<close>

text \<open>What a container does to the reference counts of its elements.\<close>

datatype 'a rc_event = Inc 'a | Dec 'a

fun incs :: "'a rc_event list \<Rightarrow> 'a multiset" where
  "incs [] = {#}"
| "incs (Inc x # es) = add_mset x (incs es)"
| "incs (Dec x # es) = incs es"

fun decs :: "'a rc_event list \<Rightarrow> 'a multiset" where
  "decs [] = {#}"
| "decs (Inc x # es) = decs es"
| "decs (Dec x # es) = add_mset x (decs es)"

lemma incs_append [simp]: "incs (a @ b) = incs a + incs b"
  by (induction a rule: incs.induct) auto

lemma decs_append [simp]: "decs (a @ b) = decs a + decs b"
  by (induction a rule: decs.induct) auto

lemma map_Dec [simp]: "incs (map Dec xs) = {#}" "decs (map Dec xs) = mset xs"
  by (induction xs) auto

end
