(* ===== verification/Lib_List.thy ===== *)
theory Lib_List
  imports Lib_Base
begin

text \<open>
  \<^verbatim>\<open>src/lib/builtins/__list.py\<close>: \<^verbatim>\<open>RawList\<close>, a buffer of slots with a length and a capacity, and
  \<^verbatim>\<open>UnsafeList[T]\<close>, which adds the reference counting of the elements.  A slot that has not been
  written is \<open>None\<close>; \<^verbatim>\<open>memcpy\<close> and \<^verbatim>\<open>memmove\<close> outside the buffer are a \<open>MemFault\<close>.  The
  allocator either succeeds or panics, and a panic ends the program; the model continues with success.
\<close>

subsection \<open>The buffer\<close>

record 'a raw_list =
  rl_data :: "'a option list"
  rl_elem_size :: nat
  rl_len :: nat
  rl_cap :: nat

definition memcpy_slot :: "nat \<Rightarrow> 'a \<Rightarrow> 'a option list \<Rightarrow> 'a option list res" where
  "memcpy_slot i x buf = (if i < length buf then Inr (buf[i := Some x]) else Inl MemFault)"

definition memmove_slots :: "nat \<Rightarrow> nat \<Rightarrow> nat \<Rightarrow> 'a list \<Rightarrow> 'a list res" where
  "memmove_slots dst src n buf =
     (if dst + n \<le> length buf \<and> src + n \<le> length buf
      then Inr (take dst buf @ take n (drop src buf) @ drop (dst + n) buf)
      else Inl MemFault)"

definition rl_init :: "nat \<Rightarrow> nat \<Rightarrow> 'a raw_list res" where
  "rl_init element_size initial_capacity =
     rbind (fits ''RawList init: capacity overflow'' (initial_capacity * element_size)) (\<lambda>_.
     Inr \<lparr>rl_data = replicate initial_capacity None, rl_elem_size = element_size, rl_len = 0,
          rl_cap = initial_capacity\<rparr>)"

definition rl_slot_ptr :: "nat \<Rightarrow> 'a raw_list \<Rightarrow> nat res" where
  "rl_slot_ptr idx s =
     rbind (fits ''RawList _slot_ptr: offset overflow'' (idx * rl_elem_size s)) (\<lambda>_. Inr idx)"

definition rl_ptr_at :: "nat \<Rightarrow> 'a raw_list \<Rightarrow> nat res" where
  "rl_ptr_at idx s = (if rl_len s \<le> idx then Inl IndexError else rl_slot_ptr idx s)"

definition rl_grow :: "'a raw_list \<Rightarrow> 'a raw_list res" where
  "rl_grow s =
     (let msg = ''impossibly large RawList size requested'' in
      rbind (fits msg (rl_cap s * 2)) (\<lambda>new_cap.
      rbind (fits msg (new_cap * rl_elem_size s)) (\<lambda>_.
      rbind (fits msg (rl_len s * rl_elem_size s)) (\<lambda>_.
      if rl_len s \<le> new_cap \<and> rl_len s \<le> length (rl_data s)
      then Inr (s\<lparr>rl_data := take (rl_len s) (rl_data s) @ replicate (new_cap - rl_len s) None, rl_cap := new_cap\<rparr>)
      else Inl MemFault))))"

definition rl_ensure_room :: "'a raw_list \<Rightarrow> 'a raw_list res" where
  "rl_ensure_room s = (if rl_cap s \<le> rl_len s then rl_grow s else Inr s)"

definition rl_append :: "'a \<Rightarrow> 'a raw_list \<Rightarrow> 'a raw_list res" where
  "rl_append x s =
     rbind (rl_ensure_room s) (\<lambda>s1.
     rbind (rl_slot_ptr (rl_len s1) s1) (\<lambda>i.
     rbind (memcpy_slot i x (rl_data s1)) (\<lambda>buf.
     rbind (fits ''RawList _append: overflow'' (rl_len s1 + 1)) (\<lambda>n.
     Inr (s1\<lparr>rl_data := buf, rl_len := n\<rparr>)))))"

definition rl_insert_at :: "nat \<Rightarrow> 'a \<Rightarrow> 'a raw_list \<Rightarrow> 'a raw_list res" where
  "rl_insert_at idx x s =
     (let k = (if rl_len s < idx then rl_len s else idx); msg = ''RawList _insert_at: shift overflow'' in
      rbind (rl_ensure_room s) (\<lambda>s1.
      rbind (sub_panic msg (rl_len s1) k) (\<lambda>shift_count.
      rbind (if shift_count > 0
             then rbind (fits msg (shift_count * rl_elem_size s1)) (\<lambda>_.
                  rbind (fits msg (k + 1)) (\<lambda>dest_idx.
                  rbind (rl_slot_ptr dest_idx s1) (\<lambda>d.
                  rbind (rl_slot_ptr k s1) (\<lambda>src. memmove_slots d src shift_count (rl_data s1)))))
             else Inr (rl_data s1)) (\<lambda>buf.
      rbind (rl_slot_ptr k s1) (\<lambda>i.
      rbind (memcpy_slot i x buf) (\<lambda>buf'.
      rbind (fits ''RawList _insert_at: overflow'' (rl_len s1 + 1)) (\<lambda>n.
      Inr (s1\<lparr>rl_data := buf', rl_len := n\<rparr>))))))))"

definition rl_remove_at :: "nat \<Rightarrow> 'a raw_list \<Rightarrow> 'a raw_list res" where
  "rl_remove_at idx s =
     (if rl_len s \<le> idx then Inl IndexError
      else
        (let msg = ''RawList _remove_at: shift overflow'' in
         rbind (fits msg (idx + 1)) (\<lambda>tail_start.
         rbind (sub_panic msg (rl_len s) tail_start) (\<lambda>shift_count.
         rbind (if shift_count > 0
                then rbind (fits msg (shift_count * rl_elem_size s)) (\<lambda>_.
                     rbind (rl_slot_ptr idx s) (\<lambda>d.
                     rbind (rl_slot_ptr tail_start s) (\<lambda>src. memmove_slots d src shift_count (rl_data s))))
                else Inr (rl_data s)) (\<lambda>buf.
         rbind (sub_panic ''RawList _remove_at: underflow'' (rl_len s) 1) (\<lambda>n.
         Inr (s\<lparr>rl_data := buf, rl_len := n\<rparr>)))))))"

definition rl_clear :: "'a raw_list \<Rightarrow> 'a raw_list" where
  "rl_clear s = s\<lparr>rl_len := 0\<rparr>"

subsection \<open>UnsafeList\<close>

definition read_element :: "nat \<Rightarrow> 'a raw_list \<Rightarrow> 'a res" where
  "read_element slot s =
     (if slot < length (rl_data s)
      then (case rl_data s ! slot of None \<Rightarrow> Inl MemFault | Some x \<Rightarrow> Inr x)
      else Inl MemFault)"

definition ul_len :: "'a raw_list \<Rightarrow> nat" where
  "ul_len s = rl_len s"

definition ul_append :: "'a \<Rightarrow> 'a raw_list \<Rightarrow> ('a raw_list \<times> 'a rc_event list) res" where
  "ul_append x s = rbind (rl_append x s) (\<lambda>s'. Inr (s', [Inc x]))"

definition ul_insert :: "nat \<Rightarrow> 'a \<Rightarrow> 'a raw_list \<Rightarrow> ('a raw_list \<times> 'a rc_event list) res" where
  "ul_insert idx x s = rbind (rl_insert_at idx x s) (\<lambda>s'. Inr (s', [Inc x]))"

text \<open>The value read is handed out owned.\<close>

definition ul_getitem :: "nat \<Rightarrow> 'a raw_list \<Rightarrow> ('a \<times> 'a rc_event list) res" where
  "ul_getitem idx s =
     rbind (rl_ptr_at idx s) (\<lambda>slot. rbind (read_element slot s) (\<lambda>x. Inr (x, [Inc x])))"

definition ul_setitem :: "nat \<Rightarrow> 'a \<Rightarrow> 'a raw_list \<Rightarrow> ('a raw_list \<times> 'a rc_event list) res" where
  "ul_setitem idx x s =
     rbind (rl_ptr_at idx s) (\<lambda>slot.
     rbind (read_element slot s) (\<lambda>old.
     rbind (memcpy_slot slot x (rl_data s)) (\<lambda>buf.
     Inr (s\<lparr>rl_data := buf\<rparr>, [Dec old, Inc x]))))"

definition ul_erase_at :: "nat \<Rightarrow> 'a raw_list \<Rightarrow> ('a raw_list \<times> 'a rc_event list) res" where
  "ul_erase_at idx s =
     rbind (rl_ptr_at idx s) (\<lambda>slot.
     rbind (read_element slot s) (\<lambda>old.
     rbind (rl_remove_at idx s) (\<lambda>s'. Inr (s', [Dec old]))))"

text \<open>The loop of \<^verbatim>\<open>clear\<close> and \<^verbatim>\<open>__del__\<close> releases every element, first to last.\<close>

fun release_slots :: "nat list \<Rightarrow> 'a raw_list \<Rightarrow> ('a rc_event list) res" where
  "release_slots [] s = Inr []"
| "release_slots (i # is) s =
     rbind (rl_slot_ptr i s) (\<lambda>slot.
     rbind (read_element slot s) (\<lambda>x.
     rbind (fits ''list.clear: overflow'' (i + 1)) (\<lambda>_.
     rbind (release_slots is s) (\<lambda>es. Inr (Dec x # es)))))"

definition ul_clear :: "'a raw_list \<Rightarrow> ('a raw_list \<times> 'a rc_event list) res" where
  "ul_clear s = rbind (release_slots [0..<rl_len s] s) (\<lambda>es. Inr (rl_clear s, es))"

subsection \<open>Indices from the end and slices\<close>

definition isize_max :: int where
  "isize_max = 2 ^ 63 - 1"

text \<open>\<^verbatim>\<open>_resolve_index\<close>; the addition of a negative index and a length cannot wrap.\<close>

definition resolve_index :: "int \<Rightarrow> nat \<Rightarrow> nat res" where
  "resolve_index i real_len =
     (if isize_max < int real_len then Inl (Panic ''a real container length always fits isize'')
      else
        (let len_i = int real_len; resolved = (if i < 0 then i + len_i else i) in
         if resolved < 0 \<or> len_i \<le> resolved then Inl IndexError else Inr (nat resolved)))"

definition clamp_slice_bound :: "int \<Rightarrow> int \<Rightarrow> int" where
  "clamp_slice_bound bound len_i =
     (if bound < 0 then (if bound + len_i < 0 then 0 else bound + len_i)
      else if len_i < bound then len_i else bound)"

definition resolve_slice_bounds :: "int \<Rightarrow> int option \<Rightarrow> nat \<Rightarrow> (nat \<times> nat) res" where
  "resolve_slice_bounds start stop real_len =
     (if isize_max < int real_len then Inl (Panic ''a real container length always fits isize'')
      else
        (let len_i = int real_len;
             a = clamp_slice_bound start len_i;
             b = (case stop of None \<Rightarrow> len_i | Some e \<Rightarrow> clamp_slice_bound e len_i) in
         Inr (nat a, nat (if b < a then a else b))))"

definition ul_getitem_signed :: "int \<Rightarrow> 'a raw_list \<Rightarrow> ('a \<times> 'a rc_event list) res" where
  "ul_getitem_signed idx s = rbind (resolve_index idx (rl_len s)) (\<lambda>i. ul_getitem i s)"

definition ul_setitem_signed :: "int \<Rightarrow> 'a \<Rightarrow> 'a raw_list \<Rightarrow> ('a raw_list \<times> 'a rc_event list) res" where
  "ul_setitem_signed idx x s = rbind (resolve_index idx (rl_len s)) (\<lambda>i. ul_setitem i x s)"

text \<open>
  \<^verbatim>\<open>__getitem__(slice)\<close>: the loop over \<^verbatim>\<open>[start, stop)\<close> appends to a new list; the transient value
  each \<^verbatim>\<open>__getitem__\<close> hands out is released again at the end of the statement.
\<close>

fun copy_slice :: "nat list \<Rightarrow> 'a raw_list \<Rightarrow> 'a raw_list \<Rightarrow> ('a raw_list \<times> 'a rc_event list) res" where
  "copy_slice [] s out = Inr (out, [])"
| "copy_slice (i # is) s out =
     rbind (unwrap ''UnsafeList.__getitem__(slice): index in bounds by construction'' (ul_getitem i s)) (\<lambda>(x, e1).
     rbind (ul_append x out) (\<lambda>(out', e2).
     rbind (copy_slice is s out') (\<lambda>(out'', e3). Inr (out'', e1 @ e2 @ Dec x # e3))))"

definition ul_getslice :: "int \<Rightarrow> int option \<Rightarrow> 'a raw_list \<Rightarrow> ('a raw_list \<times> 'a rc_event list) res" where
  "ul_getslice start stop s =
     rbind (resolve_slice_bounds start stop (rl_len s)) (\<lambda>(a, b).
     rbind (rl_init (rl_elem_size s) 8) (\<lambda>out. copy_slice [a..<b] s out))"

end
