(* ===== verification/Lib_List_Correct.thy ===== *)
theory Lib_List_Correct
  imports Lib_List
begin

text \<open>
  \<^verbatim>\<open>UnsafeList\<close> implements a sequence: the contents are the first \<^verbatim>\<open>__len\<close> slots, every operation
  acts on them as the list operation of the same name, no access leaves the buffer, and the reference
  counts change by exactly what the contents gain and lose.  The contract is a locale; the map built on
  the list (\<^verbatim>\<open>RawDict\<close>) uses only its laws.
\<close>

subsection \<open>The contract of a sequence\<close>

locale sequence_impl =
  fixes inv :: "'s \<Rightarrow> bool" and contents :: "'s \<Rightarrow> 'a list" and room :: "'s \<Rightarrow> bool"
    and append :: "'a \<Rightarrow> 's \<Rightarrow> ('s \<times> 'a rc_event list) res"
    and insert :: "nat \<Rightarrow> 'a \<Rightarrow> 's \<Rightarrow> ('s \<times> 'a rc_event list) res"
    and getitem :: "nat \<Rightarrow> 's \<Rightarrow> ('a \<times> 'a rc_event list) res"
    and setitem :: "nat \<Rightarrow> 'a \<Rightarrow> 's \<Rightarrow> ('s \<times> 'a rc_event list) res"
    and erase_at :: "nat \<Rightarrow> 's \<Rightarrow> ('s \<times> 'a rc_event list) res"
  assumes append_spec: "inv s \<Longrightarrow> room s \<Longrightarrow>
      \<exists>s'. append x s = Inr (s', [Inc x]) \<and> inv s' \<and> contents s' = contents s @ [x]"
    and insert_spec: "inv s \<Longrightarrow> room s \<Longrightarrow>
      \<exists>s'. insert k x s = Inr (s', [Inc x]) \<and> inv s' \<and> contents s' = take k (contents s) @ x # drop k (contents s)"
    and getitem_spec: "inv s \<Longrightarrow> getitem k s =
      (if k < length (contents s) then Inr (contents s ! k, [Inc (contents s ! k)]) else Inl IndexError)"
    and setitem_spec: "inv s \<Longrightarrow> k < length (contents s) \<Longrightarrow>
      \<exists>s'. setitem k x s = Inr (s', [Dec (contents s ! k), Inc x]) \<and> inv s' \<and> contents s' = (contents s)[k := x]"
    and setitem_err: "inv s \<Longrightarrow> length (contents s) \<le> k \<Longrightarrow> setitem k x s = Inl IndexError"
    and erase_spec: "inv s \<Longrightarrow> k < length (contents s) \<Longrightarrow>
      \<exists>s'. erase_at k s = Inr (s', [Dec (contents s ! k)]) \<and> inv s' \<and>
        contents s' = take k (contents s) @ drop (Suc k) (contents s)"
    and erase_err: "inv s \<Longrightarrow> length (contents s) \<le> k \<Longrightarrow> erase_at k s = Inl IndexError"
begin

lemma get_after_insert:
  assumes "inv s" and "room s" and "k \<le> length (contents s)" and "insert k x s = Inr (s', es)"
  shows "getitem k s' = Inr (x, [Inc x])"
proof -
  have "inv s'" "contents s' = take k (contents s) @ x # drop k (contents s)"
    using insert_spec [OF assms(1,2), of k x] assms(4) by auto
  then show ?thesis using assms(3) by (simp add: getitem_spec nth_append)
qed

lemma insert_erase:
  assumes "inv s" and "room s" and "k \<le> length (contents s)" and "insert k x s = Inr (s1, e1)" and "erase_at k s1 = Inr (s2, e2)"
  shows "contents s2 = contents s"
proof -
  have 1: "inv s1" "contents s1 = take k (contents s) @ x # drop k (contents s)"
    using insert_spec [OF assms(1,2), of k x] assms(4) by auto
  then have "k < length (contents s1)" using assms(3) by simp
  from erase_spec [OF 1(1) this] assms(5) have "contents s2 = take k (contents s1) @ drop (Suc k) (contents s1)" by auto
  with 1(2) assms(3) show ?thesis by simp
qed

text \<open>No operation loses or invents a reference.\<close>

lemma insert_balance:
  assumes "inv s" and "room s" and "insert k x s = Inr (s', es)"
  shows "mset (contents s') + decs es = mset (contents s) + incs es"
proof -
  have "es = [Inc x]" "contents s' = take k (contents s) @ x # drop k (contents s)"
    using insert_spec [OF assms(1,2), of k x] assms(3) by auto
  moreover have "mset (take k (contents s)) + mset (drop k (contents s)) = mset (contents s)"
    by (metis append_take_drop_id mset_append)
  ultimately show ?thesis by simp
qed

lemma append_balance:
  assumes "inv s" and "room s" and "append x s = Inr (s', es)"
  shows "mset (contents s') + decs es = mset (contents s) + incs es"
  using append_spec [OF assms(1,2), of x] assms(3) by auto

lemma erase_balance:
  assumes "inv s" and "erase_at k s = Inr (s', es)"
  shows "mset (contents s') + decs es = mset (contents s) + incs es"
proof -
  have k: "k < length (contents s)" using erase_err [OF assms(1), of k] assms(2) by (cases "k < length (contents s)") auto
  have "es = [Dec (contents s ! k)]" "contents s' = take k (contents s) @ drop (Suc k) (contents s)"
    using erase_spec [OF assms(1) k] assms(2) by auto
  moreover have "mset (contents s) = mset (take k (contents s) @ contents s ! k # drop (Suc k) (contents s))"
    using id_take_nth_drop [OF k] by simp
  ultimately show ?thesis by simp
qed

lemma setitem_balance:
  assumes "inv s" and "setitem k x s = Inr (s', es)"
  shows "mset (contents s') + decs es = mset (contents s) + incs es"
proof -
  have k: "k < length (contents s)" using setitem_err [OF assms(1), of k x] assms(2) by (cases "k < length (contents s)") auto
  have "es = [Dec (contents s ! k), Inc x]" "contents s' = (contents s)[k := x]"
    using setitem_spec [OF assms(1) k, of x] assms(2) by auto
  then show ?thesis using k by (simp add: mset_update)
qed

end

subsection \<open>UnsafeList provides it\<close>

definition contents :: "'a raw_list \<Rightarrow> 'a list" where
  "contents s = map the (take (rl_len s) (rl_data s))"

definition rl_inv :: "'a raw_list \<Rightarrow> bool" where
  "rl_inv s \<longleftrightarrow> rl_len s \<le> rl_cap s \<and> length (rl_data s) = rl_cap s \<and> 0 < rl_cap s \<and> 0 < rl_elem_size s \<and>
     rl_cap s * rl_elem_size s < usize_lim \<and> (\<forall>i<rl_len s. rl_data s ! i \<noteq> None)"

text \<open>The next doubling of the buffer still has a size that fits.\<close>

definition rl_room :: "'a raw_list \<Rightarrow> bool" where
  "rl_room s \<longleftrightarrow> rl_cap s * 2 * rl_elem_size s < usize_lim"

lemma contents_length [simp]: "rl_inv s \<Longrightarrow> length (contents s) = rl_len s"
  by (simp add: contents_def rl_inv_def)

lemma contents_nth: "rl_inv s \<Longrightarrow> i < rl_len s \<Longrightarrow> rl_data s ! i = Some (contents s ! i)"
  by (auto simp: contents_def rl_inv_def)

lemma le_mult_pos:
  assumes "(a::nat) \<le> c" and "0 < e" and "c * e < l"
  shows "a * e < l \<and> a < l"
proof -
  have "a * e \<le> c * e" "a * 1 \<le> a * e" using assms by (simp_all only: mult_le_mono1 mult_le_mono2 Suc_leI One_nat_def)
  with assms(3) show ?thesis by linarith
qed

lemma slot_ptr_ok: "rl_inv s \<Longrightarrow> i \<le> rl_cap s \<Longrightarrow> rl_slot_ptr i s = Inr i"
  using le_mult_pos [of i "rl_cap s" "rl_elem_size s" usize_lim]
  by (auto simp: rl_slot_ptr_def rl_inv_def fits_def)

lemma ensure_room_ok:
  assumes "rl_inv s" and "rl_room s"
  obtains s1 where "rl_ensure_room s = Inr s1" and "rl_inv s1" and "contents s1 = contents s"
    and "rl_len s1 = rl_len s" and "rl_len s1 < rl_cap s1"
proof (cases "rl_cap s \<le> rl_len s")
  case True
  define s1 where "s1 = s\<lparr>rl_data := take (rl_len s) (rl_data s) @ replicate (rl_cap s * 2 - rl_len s) None, rl_cap := rl_cap s * 2\<rparr>"
  have i: "rl_len s = rl_cap s" "length (rl_data s) = rl_cap s" "0 < rl_cap s" "0 < rl_elem_size s"
    using assms(1) True by (auto simp: rl_inv_def)
  have b: "rl_cap s * 2 < usize_lim" "rl_len s * rl_elem_size s < usize_lim"
    using assms i le_mult_pos [of "rl_cap s * 2" "rl_cap s * 2" "rl_elem_size s" usize_lim]
    by (auto simp: rl_room_def rl_inv_def)
  have "rl_grow s = Inr s1"
    using b i assms(2) by (simp add: rl_grow_def s1_def fits_def rl_room_def Let_def)
  moreover have "rl_inv s1" using assms i by (auto simp: rl_inv_def s1_def rl_room_def nth_append)
  moreover have "contents s1 = contents s" using i by (simp add: contents_def s1_def)
  ultimately show ?thesis using that [of s1] True i by (simp add: rl_ensure_room_def s1_def)
next
  case False
  then show ?thesis using that [of s] assms by (simp add: rl_ensure_room_def)
qed

lemma rl_inv_fits: "rl_inv s \<Longrightarrow> n \<le> rl_cap s \<Longrightarrow> n < usize_lim \<and> n * rl_elem_size s < usize_lim"
  using le_mult_pos [of n "rl_cap s" "rl_elem_size s" usize_lim] by (auto simp: rl_inv_def)

lemma insert_data:
  assumes "length d = c" and "n < c" and "k \<le> n"
  shows "take (Suc n) ((take (Suc k) d @ take (n - k) (drop k d) @ drop (Suc n) d)[k := Some x]) =
    take k d @ Some x # take (n - k) (drop k d)"
proof -
  have "take (Suc k) d = take k d @ [d ! k]" using assms by (simp add: take_Suc_conv_app_nth)
  then show ?thesis using assms by (simp add: list_update_append take_Cons')
qed

lemma insert_spec_raw:
  assumes "rl_inv s" and "rl_room s"
  shows "\<exists>s'. rl_insert_at idx x s = Inr s' \<and> rl_inv s' \<and>
    contents s' = take idx (contents s) @ x # drop idx (contents s)"
proof -
  obtain s1 where s1: "rl_ensure_room s = Inr s1" "rl_inv s1" "contents s1 = contents s" "rl_len s1 = rl_len s"
    "rl_len s1 < rl_cap s1"
    by (rule ensure_room_ok [OF assms])
  define k where "k = (if rl_len s < idx then rl_len s else idx)"
  let ?n = "rl_len s1" and ?d = "rl_data s1"
  have k: "k \<le> ?n" using s1(4) by (simp add: k_def)
  have len: "length ?d = rl_cap s1" using s1(2) by (simp add: rl_inv_def)
  note ok = s1(1) len slot_ptr_ok [OF s1(2)] rl_inv_fits [OF s1(2)] s1(5)
  have "\<exists>buf. rl_insert_at idx x s = Inr (s1\<lparr>rl_data := buf, rl_len := Suc ?n\<rparr>) \<and> length buf = rl_cap s1 \<and>
      take (Suc ?n) buf = take k ?d @ Some x # take (?n - k) (drop k ?d)"
  proof (cases "k = ?n")
    case True
    then show ?thesis using ok
      by (intro exI [of _ "?d[k := Some x]"])
        (simp add: rl_insert_at_def k_def [symmetric] sub_panic_def memcpy_slot_def fits_def Let_def take_Suc_conv_app_nth)
  next
    case False
    let ?b = "take (Suc k) ?d @ take (?n - k) (drop k ?d) @ drop (Suc ?n) ?d"
    have lt: "k < ?n" using False k by simp
    have "memmove_slots (Suc k) k (?n - k) ?d = Inr ?b" using lt ok(2,5) by (simp add: memmove_slots_def)
    moreover have "length ?b = rl_cap s1" using lt ok(2,5) by simp
    ultimately have "rl_insert_at idx x s = Inr (s1\<lparr>rl_data := ?b[k := Some x], rl_len := Suc ?n\<rparr>)"
      using lt ok ok(4) [of "?n - k"] ok(4) [of "Suc k"] ok(4) [of "Suc ?n"]
      by (simp add: rl_insert_at_def k_def [symmetric] sub_panic_def memcpy_slot_def fits_def Let_def)
    moreover have "take (Suc ?n) (?b[k := Some x]) = take k ?d @ Some x # take (?n - k) (drop k ?d)"
      by (rule insert_data [OF len s1(5) k])
    ultimately show ?thesis using \<open>length ?b = rl_cap s1\<close> by (metis length_list_update)
  qed
  then obtain buf where buf: "rl_insert_at idx x s = Inr (s1\<lparr>rl_data := buf, rl_len := Suc ?n\<rparr>)"
    "length buf = rl_cap s1" "take (Suc ?n) buf = take k ?d @ Some x # take (?n - k) (drop k ?d)" by blast
  let ?s' = "s1\<lparr>rl_data := buf, rl_len := Suc ?n\<rparr>"
  have split: "take k ?d @ take (?n - k) (drop k ?d) = take ?n ?d" using k by (metis le_add_diff_inverse take_add)
  have some: "\<forall>y\<in>set (take ?n ?d). y \<noteq> None"
    using s1(2) by (auto simp: rl_inv_def in_set_conv_nth)
  have c: "contents ?s' = take k (contents s1) @ x # drop k (contents s1)"
    using k by (simp add: contents_def buf(3) take_map drop_map min_absorb1 drop_take)
  have "\<forall>i<Suc ?n. buf ! i \<noteq> None"
  proof (intro allI impI)
    fix i assume i: "i < Suc ?n"
    then have "buf ! i \<in> set (take (Suc ?n) buf)"
      using buf(2) s1(5) by (metis Suc_leI length_take min_absorb2 nth_mem nth_take)
    then show "buf ! i \<noteq> None" unfolding buf(3)
      using some by (auto simp: split [symmetric] simp del: not_None_eq dest: in_set_takeD in_set_dropD)
  qed
  then have "rl_inv ?s'" using s1(2,5) buf(2) by (simp add: rl_inv_def)
  moreover have "take k (contents s) @ x # drop k (contents s) = take idx (contents s) @ x # drop idx (contents s)"
    using assms(1) by (auto simp: k_def)
  ultimately show ?thesis using buf(1) c s1(3) by auto
qed

lemma append_is_insert:
  assumes "rl_inv s" and "rl_room s"
  shows "rl_append x s = rl_insert_at (rl_len s) x s"
proof -
  obtain s1 where s1: "rl_ensure_room s = Inr s1" "rl_inv s1" "rl_len s1 = rl_len s" "rl_len s1 < rl_cap s1"
    by (rule ensure_room_ok [OF assms])
  then show ?thesis using rl_inv_fits [OF s1(2), of "Suc (rl_len s1)"]
    by (simp add: rl_append_def rl_insert_at_def sub_panic_def Let_def fits_def)
qed

lemma read_element_ok: "rl_inv s \<Longrightarrow> i < rl_len s \<Longrightarrow> read_element i s = Inr (contents s ! i)"
  by (auto simp: read_element_def contents_nth) (simp add: rl_inv_def)

lemma ptr_at_ok: "rl_inv s \<Longrightarrow> rl_ptr_at i s = (if i < rl_len s then Inr i else Inl IndexError)"
  using slot_ptr_ok [of s i] by (auto simp: rl_ptr_at_def rl_inv_def)

lemma getitem_raw:
  "rl_inv s \<Longrightarrow> ul_getitem k s =
     (if k < length (contents s) then Inr (contents s ! k, [Inc (contents s ! k)]) else Inl IndexError)"
  by (simp add: ul_getitem_def ptr_at_ok read_element_ok)

lemma setitem_raw:
  assumes "rl_inv s" and "k < length (contents s)"
  shows "\<exists>s'. ul_setitem k x s = Inr (s', [Dec (contents s ! k), Inc x]) \<and> rl_inv s' \<and> contents s' = (contents s)[k := x]"
proof -
  let ?s' = "s\<lparr>rl_data := (rl_data s)[k := Some x]\<rparr>"
  have k: "k < rl_len s" "k < length (rl_data s)" using assms by (auto simp: rl_inv_def)
  then have "ul_setitem k x s = Inr (?s', [Dec (contents s ! k), Inc x])"
    using assms(1) by (simp add: ul_setitem_def ptr_at_ok read_element_ok memcpy_slot_def)
  moreover have "rl_inv ?s'"
    using assms(1) k(2) unfolding rl_inv_def by (simp add: nth_list_update)
  moreover have "contents ?s' = (contents s)[k := x]"
    using k by (simp add: contents_def take_update_swap map_update)
  ultimately show ?thesis by blast
qed

lemma remove_data:
  assumes "k < n" and "n \<le> length d"
  shows "take (n - 1) (take k d @ take (n - Suc k) (drop (Suc k) d) @ drop (n - 1) d) = take k d @ take (n - Suc k) (drop (Suc k) d)"
  using assms by (simp add: min_absorb1)

lemma remove_raw:
  assumes "rl_inv s" and "k < rl_len s"
  shows "\<exists>s'. rl_remove_at k s = Inr s' \<and> rl_inv s' \<and> contents s' = take k (contents s) @ drop (Suc k) (contents s)"
proof -
  let ?n = "rl_len s" and ?d = "rl_data s"
  have len: "length ?d = rl_cap s" "?n \<le> rl_cap s" using assms(1) by (auto simp: rl_inv_def)
  note ok = len slot_ptr_ok [OF assms(1)] rl_inv_fits [OF assms(1)]
  have "\<exists>buf. rl_remove_at k s = Inr (s\<lparr>rl_data := buf, rl_len := ?n - 1\<rparr>) \<and> length buf = rl_cap s \<and>
      take (?n - 1) buf = take k ?d @ take (?n - Suc k) (drop (Suc k) ?d)"
  proof (cases "Suc k = ?n")
    case True
    then show ?thesis using ok assms(2)
      by (intro exI [of _ ?d]) (simp add: rl_remove_at_def Let_def sub_panic_def fits_def, simp flip: True)
  next
    case False
    let ?b = "take k ?d @ take (?n - Suc k) (drop (Suc k) ?d) @ drop (?n - 1) ?d"
    have lt: "Suc k < ?n" using False assms(2) by simp
    then have b: "memmove_slots k (Suc k) (?n - Suc k) ?d = Inr ?b" "length ?b = rl_cap s"
      using len by (simp_all add: memmove_slots_def)
    then have "rl_remove_at k s = Inr (s\<lparr>rl_data := ?b, rl_len := ?n - 1\<rparr>)"
      using lt ok ok(4) [of "?n - Suc k"] by (simp add: rl_remove_at_def Let_def sub_panic_def fits_def)
    then show ?thesis using b(2) remove_data [OF assms(2), of ?d] len by metis
  qed
  then obtain buf where buf: "rl_remove_at k s = Inr (s\<lparr>rl_data := buf, rl_len := ?n - 1\<rparr>)"
    "length buf = rl_cap s" "take (?n - 1) buf = take k ?d @ take (?n - Suc k) (drop (Suc k) ?d)" by blast
  let ?s' = "s\<lparr>rl_data := buf, rl_len := ?n - 1\<rparr>"
  have c: "contents ?s' = take k (contents s) @ drop (Suc k) (contents s)"
    using assms(2) buf(3) by (simp add: contents_def take_map drop_map min_absorb1 drop_take)
  have some: "\<forall>y\<in>set (take ?n ?d). y \<noteq> None" using assms(1) by (auto simp: rl_inv_def in_set_conv_nth)
  have sub: "set (take k ?d) \<union> set (take (?n - Suc k) (drop (Suc k) ?d)) \<subseteq> set (take ?n ?d)"
  proof -
    have "take (?n - Suc k) (drop (Suc k) ?d) = drop (Suc k) (take ?n ?d)" by (simp add: drop_take)
    moreover have "take k ?d = take k (take ?n ?d)" using assms(2) by (simp add: min_absorb1)
    ultimately show ?thesis by (metis Un_least set_drop_subset set_take_subset)
  qed
  have "\<forall>i<?n - 1. buf ! i \<noteq> None"
  proof (intro allI impI)
    fix i assume i: "i < ?n - 1"
    then have "buf ! i \<in> set (take (?n - 1) buf)"
      using buf(2) len by (auto simp: in_set_conv_nth intro!: exI [of _ i])
    then show "buf ! i \<noteq> None" unfolding buf(3) using some sub by auto
  qed
  then have "rl_inv ?s'" using assms(1) buf(2) by (auto simp: rl_inv_def)
  then show ?thesis using buf(1) c by blast
qed

interpretation ul: sequence_impl rl_inv contents rl_room ul_append ul_insert ul_getitem ul_setitem ul_erase_at
proof
  fix s :: "'a raw_list" and x :: 'a and k
  show "\<exists>s'. ul_append x s = Inr (s', [Inc x]) \<and> rl_inv s' \<and> contents s' = contents s @ [x]" if "rl_inv s" "rl_room s"
    using insert_spec_raw [OF that, of "rl_len s" x] that by (auto simp: ul_append_def append_is_insert)
  show "\<exists>s'. ul_insert k x s = Inr (s', [Inc x]) \<and> rl_inv s' \<and> contents s' = take k (contents s) @ x # drop k (contents s)"
    if "rl_inv s" "rl_room s"
    using insert_spec_raw [OF that, of k x] by (auto simp: ul_insert_def)
  show "\<exists>s'. ul_erase_at k s = Inr (s', [Dec (contents s ! k)]) \<and> rl_inv s' \<and>
      contents s' = take k (contents s) @ drop (Suc k) (contents s)" if "rl_inv s" "k < length (contents s)"
    using remove_raw [of s k] that by (auto simp: ul_erase_at_def ptr_at_ok read_element_ok)
  show "ul_erase_at k s = Inl IndexError" if "rl_inv s" "length (contents s) \<le> k"
    using that by (simp add: ul_erase_at_def ptr_at_ok)
  show "ul_setitem k x s = Inl IndexError" if "rl_inv s" "length (contents s) \<le> k"
    using that by (simp add: ul_setitem_def ptr_at_ok)
qed (simp_all add: getitem_raw setitem_raw)

lemma init_inv: "0 < c \<Longrightarrow> 0 < e \<Longrightarrow> c * e < usize_lim \<Longrightarrow> \<exists>s. rl_init e c = Inr s \<and> rl_inv s \<and> contents s = []"
  by (auto simp: rl_init_def fits_def rl_inv_def contents_def)

text \<open>
  A list created with capacity 0 cannot be used: doubling 0 leaves it at 0, so the first
  \<^verbatim>\<open>append\<close> writes outside the buffer.
\<close>

lemma zero_capacity_list_overflows:
  "rbind (rl_init 8 0) (\<lambda>s. ul_append x s) = Inl MemFault"
  by (simp add: rl_init_def fits_def usize_lim_def ul_append_def rl_append_def rl_ensure_room_def rl_grow_def
      rl_slot_ptr_def memcpy_slot_def Let_def)

text \<open>
  C18. \<^verbatim>\<open>UnsafeList\<close> is a list: \<^verbatim>\<open>insert\<close> shifts the elements behind the position and clamps a
  position past the end, \<^verbatim>\<open>append\<close> adds at the end, \<^verbatim>\<open>erase_at\<close> closes the gap and reports a
  position that does not exist -- without touching memory outside the buffer, growing it when it is
  full -- and the reference counts change by exactly what the contents gain and lose.  A list created with
  capacity 0 is outside this: its first \<^verbatim>\<open>append\<close> writes outside the buffer.
\<close>

theorem unsafe_list_refines_list:
  assumes "rl_inv s" and "rl_room s"
  shows "(\<exists>s' es. ul_insert k x s = Inr (s', es) \<and> rl_inv s' \<and>
      contents s' = take k (contents s) @ x # drop k (contents s) \<and>
      mset (contents s') + decs es = mset (contents s) + incs es) \<and>
    (\<exists>s' es. ul_append x s = Inr (s', es) \<and> rl_inv s' \<and> contents s' = contents s @ [x] \<and>
      mset (contents s') + decs es = mset (contents s) + incs es) \<and>
    (if k < length (contents s)
     then \<exists>s' es. ul_erase_at k s = Inr (s', es) \<and> rl_inv s' \<and>
       contents s' = take k (contents s) @ drop (Suc k) (contents s) \<and>
       mset (contents s') + decs es = mset (contents s) + incs es
     else ul_erase_at k s = Inl IndexError) \<and>
    rbind (rl_init 8 0) (\<lambda>e. ul_append x e) = Inl MemFault"
proof -
  obtain s1 where 1: "ul_insert k x s = Inr (s1, [Inc x])" "rl_inv s1" "contents s1 = take k (contents s) @ x # drop k (contents s)"
    using ul.insert_spec [OF assms] by blast
  obtain s3 where 2: "ul_append x s = Inr (s3, [Inc x])" "rl_inv s3" "contents s3 = contents s @ [x]"
    using ul.append_spec [OF assms] by blast
  show ?thesis
  proof (cases "k < length (contents s)")
    case True
    obtain s2 where 3: "ul_erase_at k s = Inr (s2, [Dec (contents s ! k)])" "rl_inv s2"
      "contents s2 = take k (contents s) @ drop (Suc k) (contents s)"
      using ul.erase_spec [OF assms(1) True] by blast
    from 1 2 3 True ul.insert_balance [OF assms 1(1)] ul.append_balance [OF assms 2(1)] ul.erase_balance [OF assms(1) 3(1)]
      zero_capacity_list_overflows [of x] show ?thesis by auto
  next
    case False
    from 1 2 False ul.insert_balance [OF assms 1(1)] ul.append_balance [OF assms 2(1)] ul.erase_err [OF assms(1), of k]
      zero_capacity_list_overflows [of x] show ?thesis by auto
  qed
qed

definition demo_list :: "nat raw_list" where
  "demo_list = \<lparr>rl_data = [Some 4, Some 5], rl_elem_size = 8, rl_len = 2, rl_cap = 2\<rparr>"

theorem unsafe_list_refines_list_witness:
  "\<exists>s' es. ul_insert 1 9 demo_list = Inr (s', es) \<and> contents s' = [4, 9, 5]"
proof -
  have "rl_inv demo_list" "rl_room demo_list"
    by (auto simp: rl_inv_def rl_room_def demo_list_def usize_lim_def nth_Cons split: nat.splits)
  moreover have "contents demo_list = [4, 5]" by (simp add: contents_def demo_list_def)
  ultimately show ?thesis using unsafe_list_refines_list [of demo_list 1 9] by auto
qed

subsection \<open>Python indices and slices\<close>

text \<open>The position a Python bound means in a list of length \<open>n\<close>.\<close>

definition py_bound :: "int \<Rightarrow> nat \<Rightarrow> nat" where
  "py_bound b n = (if b < 0 then n - nat (- b) else min (nat b) n)"

lemma clamp_py: "nat (clamp_slice_bound b (int n)) = py_bound b n" "0 \<le> clamp_slice_bound b (int n)"
  by (auto simp: clamp_slice_bound_def py_bound_def)

lemma resolve_slice_bounds_py:
  assumes "int n \<le> isize_max"
  shows "resolve_slice_bounds a b n = Inr (py_bound a n,
    max (py_bound a n) (case b of None \<Rightarrow> n | Some e \<Rightarrow> py_bound e n))"
proof -
  have m: "nat (if y < x then x else y) = max (nat x) (nat y)" if "0 \<le> x" "0 \<le> y" for x y :: int using that by auto
  show ?thesis
  proof (cases b)
    case None
    then show ?thesis using assms m [OF clamp_py(2), of "int n" a n] by (simp add: resolve_slice_bounds_def Let_def clamp_py)
  next
    case (Some e)
    then show ?thesis using assms m [of "clamp_slice_bound a (int n)" "clamp_slice_bound e (int n)"]
      by (simp add: resolve_slice_bounds_def Let_def clamp_py)
  qed
qed

lemma append_cap:
  assumes "rl_append x s = Inr s'" and "rl_len s \<le> rl_cap s"
  shows "rl_elem_size s' = rl_elem_size s \<and> rl_cap s' \<le> max (rl_cap s) (2 * rl_len s)"
proof -
  obtain s1 i buf where "rl_ensure_room s = Inr s1" "s' = s1\<lparr>rl_data := buf, rl_len := rl_len s1 + 1\<rparr>"
    using assms(1) by (auto simp: rl_append_def rbind_Inr)
  moreover from this(1) assms(2) have "rl_elem_size s1 = rl_elem_size s \<and> rl_cap s1 \<le> max (rl_cap s) (2 * rl_len s)"
    by (auto simp: rl_ensure_room_def rl_grow_def Let_def rbind_Inr split: if_splits)
  ultimately show ?thesis by simp
qed

lemma copy_slice_ok:
  assumes "rl_inv s" and "\<forall>i\<in>set is. i < rl_len s" and "rl_inv out" and "rl_cap out \<le> 8 + 2 * rl_len out"
    and "(16 + 4 * (rl_len out + length is)) * rl_elem_size out < usize_lim"
  shows "\<exists>out' es. copy_slice is s out = Inr (out', es) \<and> contents out' = contents out @ map (\<lambda>i. contents s ! i) is \<and>
    incs es = mset (map (\<lambda>i. contents s ! i) is) + decs es"
  using assms(2-5)
proof (induction "is" arbitrary: out)
  case (Cons i "is")
  let ?x = "contents s ! i"
  have g: "ul_getitem i s = Inr (?x, [Inc ?x])" using Cons.prems(1) assms(1) by (simp add: getitem_raw)
  have bound: "a * rl_elem_size out < usize_lim" if "a \<le> 16 + 4 * (rl_len out + length (i # is))" for a
    using Cons.prems(4) mult_le_mono1 [OF that, of "rl_elem_size out"] by linarith
  have room: "rl_room out" using bound [of "rl_cap out * 2"] Cons.prems(3) by (simp add: rl_room_def)
  obtain o1 where o1: "ul_append ?x out = Inr (o1, [Inc ?x])" "rl_inv o1" "contents o1 = contents out @ [?x]"
    using ul.append_spec [OF Cons.prems(2) room] by blast
  then have l1: "rl_len o1 = Suc (rl_len out)" using Cons.prems(2) by (metis contents_length length_append_singleton)
  have "rl_append ?x out = Inr o1" using o1(1) by (auto simp: ul_append_def rbind_Inr)
  from append_cap [OF this] Cons.prems(2) have cap: "rl_elem_size o1 = rl_elem_size out" "rl_cap o1 \<le> max (rl_cap out) (2 * rl_len out)"
    by (auto simp: rl_inv_def)
  have "rl_cap o1 \<le> 8 + 2 * rl_len o1" using cap(2) Cons.prems(3) l1 by linarith
  moreover have "(16 + 4 * (rl_len o1 + length is)) * rl_elem_size o1 < usize_lim"
    using bound [of "16 + 4 * (rl_len o1 + length is)"] l1 cap(1) by simp
  moreover have "\<forall>i\<in>set is. i < rl_len s" using Cons.prems(1) by simp
  ultimately obtain out' es where r: "copy_slice is s o1 = Inr (out', es)"
    "contents out' = contents o1 @ map (\<lambda>i. contents s ! i) is" "incs es = mset (map (\<lambda>i. contents s ! i) is) + decs es"
    using Cons.IH [OF _ o1(2)] by blast
  then have "copy_slice (i # is) s out = Inr (out', [Inc ?x] @ [Inc ?x] @ Dec ?x # es)"
    using g o1 by simp
  with r o1(3) show ?case by simp
qed simp

lemma map_nth_upt: "b \<le> length xs \<Longrightarrow> map ((!) xs) [a..<b] = take (b - a) (drop a xs)"
  by (auto simp: list_eq_iff_nth_eq)

lemma python_slices:
  fixes s :: "'a raw_list" and a :: int and b :: "int option"
  assumes "rl_inv s" and "int (rl_len s) \<le> isize_max" and "(16 + 4 * rl_len s) * rl_elem_size s < usize_lim"
  defines "n \<equiv> length (contents s)"
  defines "lo \<equiv> py_bound a n" and "hi \<equiv> (case b of None \<Rightarrow> n | Some e \<Rightarrow> py_bound e n)"
  shows "ul_getitem_signed i s =
      (if 0 \<le> i \<and> i < int n then Inr (contents s ! nat i, [Inc (contents s ! nat i)])
       else if - int n \<le> i \<and> i < 0 then Inr (contents s ! (n - nat (- i)), [Inc (contents s ! (n - nat (- i)))])
       else Inl IndexError) \<and>
    (\<exists>out es. ul_getslice a b s = Inr (out, es) \<and> contents out = take (hi - lo) (drop lo (contents s)) \<and>
      incs es = mset (contents out) + decs es)"
proof
  have n: "n = rl_len s" using assms(1) by (simp add: n_def)
  have eq: "nat (i + int n) = n - nat (- i)" if "i < 0" using that by linarith
  show "ul_getitem_signed i s =
      (if 0 \<le> i \<and> i < int n then Inr (contents s ! nat i, [Inc (contents s ! nat i)])
       else if - int n \<le> i \<and> i < 0 then Inr (contents s ! (n - nat (- i)), [Inc (contents s ! (n - nat (- i)))])
       else Inl IndexError)"
    using assms(1,2) n eq by (auto simp: ul_getitem_signed_def resolve_index_def getitem_raw Let_def)
  have bounds: "resolve_slice_bounds a b (rl_len s) = Inr (lo, max lo hi)"
    using resolve_slice_bounds_py [OF assms(2), of a b] by (simp add: lo_def hi_def n cong: option.case_cong)
  have le: "lo \<le> n" "hi \<le> n" by (auto simp: lo_def hi_def py_bound_def split: option.splits)
  have es: "0 < rl_elem_size s" using assms(1) by (simp add: rl_inv_def)
  have "8 * rl_elem_size s \<le> (16 + 4 * rl_len s) * rl_elem_size s" by (rule mult_le_mono1) simp
  then have "8 * rl_elem_size s < usize_lim" using assms(3) by linarith
  then obtain o0 :: "'a raw_list" where o0: "rl_init (rl_elem_size s) 8 = Inr o0" "rl_inv o0" "contents o0 = []"
    using init_inv [of 8 "rl_elem_size s"] es by auto
  have o0': "rl_len o0 = 0" "rl_cap o0 = 8" "rl_elem_size o0 = rl_elem_size s"
    using o0(1) by (auto simp: rl_init_def rbind_Inr)
  have "(16 + 4 * length [lo..<max lo hi]) * rl_elem_size s \<le> (16 + 4 * rl_len s) * rl_elem_size s"
    using le n by (intro mult_le_mono1) auto
  then have small: "(16 + 4 * (rl_len o0 + length [lo..<max lo hi])) * rl_elem_size o0 < usize_lim"
    using assms(3) unfolding o0' add_0 by (rule le_less_trans)
  have ix: "\<forall>i\<in>set [lo..<max lo hi]. i < rl_len s" using le n by auto
  have "rl_cap o0 \<le> 8 + 2 * rl_len o0" by (simp add: o0')
  then obtain out e where "copy_slice [lo..<max lo hi] s o0 = Inr (out, e)"
    "contents out = map ((!) (contents s)) [lo..<max lo hi]" "incs e = mset (map ((!) (contents s)) [lo..<max lo hi]) + decs e"
    using copy_slice_ok [OF assms(1) ix o0(2) _ small] unfolding o0(3) append_Nil by blast
  moreover have "map ((!) (contents s)) [lo..<max lo hi] = take (hi - lo) (drop lo (contents s))"
    using le map_nth_upt [of "max lo hi" "contents s" lo] by (auto simp: n_def max_def)
  ultimately show "\<exists>out es. ul_getslice a b s = Inr (out, es) \<and> contents out = take (hi - lo) (drop lo (contents s)) \<and>
      incs es = mset (contents out) + decs es"
    using bounds o0(1) by (auto simp: ul_getslice_def)
qed

text \<open>
  C19. Indices and slices follow Python: an index counts from the end when negative and is an error
  outside the list; the bounds of a slice are clamped, so that a slice always copies a contiguous part
  of the list, never fails, and leaves the reference counts as if each copied element had been retained
  once.
\<close>

theorem python_indices_and_slices:
  assumes "rl_inv s" and "int (rl_len s) \<le> isize_max" and "(16 + 4 * rl_len s) * rl_elem_size s < usize_lim"
  shows "let n = length (contents s); lo = py_bound a n;
      hi = (case b of None \<Rightarrow> n | Some e \<Rightarrow> py_bound e n) in
    ul_getitem_signed i s =
      (if 0 \<le> i \<and> i < int n then Inr (contents s ! nat i, [Inc (contents s ! nat i)])
       else if - int n \<le> i \<and> i < 0 then Inr (contents s ! (n - nat (- i)), [Inc (contents s ! (n - nat (- i)))])
       else Inl IndexError) \<and>
    (\<exists>out es. ul_getslice a b s = Inr (out, es) \<and> contents out = take (hi - lo) (drop lo (contents s)) \<and>
      incs es = mset (contents out) + decs es)"
  unfolding Let_def using python_slices [OF assms] .

theorem python_indices_and_slices_witness:
  "\<exists>out es. ul_getslice (-1) None demo_list = Inr (out, es) \<and> contents out = [5]"
proof -
  have "rl_inv demo_list"
    by (auto simp: rl_inv_def demo_list_def usize_lim_def nth_Cons split: nat.splits)
  moreover have "int (rl_len demo_list) \<le> isize_max" "(16 + 4 * rl_len demo_list) * rl_elem_size demo_list < usize_lim"
    by (simp_all add: demo_list_def isize_max_def usize_lim_def)
  moreover have "contents demo_list = [4, 5]" by (simp add: contents_def demo_list_def)
  ultimately show ?thesis
    using python_indices_and_slices [of demo_list "-1" None 0] by (auto simp: py_bound_def Let_def)
qed

end
