(* ===== verification/Lib_Dict.thy ===== *)
theory Lib_Dict
  imports Lib_List_Correct "HOL-Library.Word"
begin

text \<open>
  Binary search (\<^verbatim>\<open>src/lib/bisect.py\<close>) and the dictionary: \<^verbatim>\<open>RawDict\<close>
  (\<^verbatim>\<open>src/lib/builtins/__RawDict.py\<close>), an entry log with an index sorted by hash, and
  \<^verbatim>\<open>UnsafeDict[K,V]\<close> (\<^verbatim>\<open>src/lib/builtins/__init__.py\<close>), which hashes and owns keys and values.
  A pointer to a stored key or value stands for the key or value it points to.
\<close>

unbundle bit_operations_syntax

subsection \<open>Binary search\<close>

text \<open>
  The loop of the four functions: \<open>right\<close> says whether the search goes on right of the middle.  The
  element read is a transient value, released again at once.
\<close>

function bisect_loop :: "string \<Rightarrow> string \<Rightarrow> ('a \<Rightarrow> bool) \<Rightarrow> 'a raw_list \<Rightarrow> nat \<Rightarrow> nat \<Rightarrow> nat res" where
  "bisect_loop over msg right arr lo hi =
     (if lo < hi then
        rbind (fits over (lo + hi)) (\<lambda>sum.
        rbind (unwrap msg (ul_getitem (sum div 2) arr)) (\<lambda>(x, _).
        if right x then bisect_loop over msg right arr (sum div 2 + 1) hi
        else bisect_loop over msg right arr lo (sum div 2)))
      else Inr lo)"
  by pat_completeness auto
termination
  by (relation "measure (\<lambda>(_, _, _, _, lo, hi). hi - lo)") auto

declare bisect_loop.simps [simp del]

definition bisect_right :: "'a::linorder raw_list \<Rightarrow> 'a \<Rightarrow> nat res" where
  "bisect_right arr x =
     bisect_loop ''bisect_right: overflow'' ''bisect_right: index in bounds by construction''
       (\<lambda>e. \<not> x < e) arr 0 (ul_len arr)"

definition bisect_left :: "'a::linorder raw_list \<Rightarrow> 'a \<Rightarrow> nat res" where
  "bisect_left arr x =
     bisect_loop ''bisect_left: overflow'' ''bisect_left: index in bounds by construction''
       (\<lambda>e. e < x) arr 0 (ul_len arr)"

definition bisect_right_by_key :: "'a raw_list \<Rightarrow> 'k::linorder \<Rightarrow> ('a \<Rightarrow> 'k) \<Rightarrow> nat res" where
  "bisect_right_by_key arr x key =
     bisect_loop ''bisect_right_by_key: overflow'' ''bisect_right_by_key: index in bounds by construction''
       (\<lambda>e. \<not> x < key e) arr 0 (ul_len arr)"

definition bisect_left_by_key :: "'a raw_list \<Rightarrow> 'k::linorder \<Rightarrow> ('a \<Rightarrow> 'k) \<Rightarrow> nat res" where
  "bisect_left_by_key arr x key =
     bisect_loop ''bisect_left_by_key: overflow'' ''bisect_left_by_key: index in bounds by construction''
       (\<lambda>e. key e < x) arr 0 (ul_len arr)"

subsection \<open>RawDict\<close>

type_synonym u64 = "64 word"

record ('k, 'v) raw_entry =
  re_hash :: u64
  re_key_ptr :: 'k
  re_value_ptr :: 'v

record raw_index =
  ri_hash :: u64
  ri_entry_idx :: nat

record ('k, 'v) raw_dict =
  rd_entries :: "('k, 'v) raw_entry raw_list"
  rd_indices :: "raw_index raw_list"

definition elem_at :: "string \<Rightarrow> nat \<Rightarrow> 'a raw_list \<Rightarrow> 'a res" where
  "elem_at msg i s = rbind (unwrap msg (ul_getitem i s)) (\<lambda>(x, _). Inr x)"

abbreviation index_msg :: string where "index_msg \<equiv> ''RawDict: index out of bounds''"
abbreviation entry_msg :: string where "entry_msg \<equiv> ''RawDict: entry out of bounds''"

definition rd_init :: "('k, 'v) raw_dict res" where
  "rd_init = rbind (rl_init 24 8) (\<lambda>es. rbind (rl_init 16 8) (\<lambda>ix. Inr \<lparr>rd_entries = es, rd_indices = ix\<rparr>))"

definition rd_len :: "('k, 'v) raw_dict \<Rightarrow> nat" where
  "rd_len d = ul_len (rd_entries d)"

definition rd_lower_bound :: "u64 \<Rightarrow> ('k, 'v) raw_dict \<Rightarrow> nat res" where
  "rd_lower_bound h d = bisect_left_by_key (rd_indices d) h ri_hash"

text \<open>
  The scan over the equal hashes that \<^verbatim>\<open>_find_entry_idx\<close> and \<^verbatim>\<open>_find_indices_pos\<close> share, from a
  position on: the position in the index and the entry it names.
\<close>

function rd_scan :: "string \<Rightarrow> u64 \<Rightarrow> 'k \<Rightarrow> ('k \<Rightarrow> 'k \<Rightarrow> bool) \<Rightarrow> ('k, 'v) raw_dict \<Rightarrow> nat \<Rightarrow> (nat \<times> nat) res" where
  "rd_scan over h k keq d pos =
     (if pos < ul_len (rd_indices d) then
        rbind (elem_at index_msg pos (rd_indices d)) (\<lambda>node.
        if ri_hash node \<noteq> h then Inl KeyError
        else
          rbind (elem_at entry_msg (ri_entry_idx node) (rd_entries d)) (\<lambda>entry.
          if keq (re_key_ptr entry) k then Inr (pos, ri_entry_idx node)
          else rbind (fits over (pos + 1)) (\<lambda>_. rd_scan over h k keq d (pos + 1))))
      else Inl KeyError)"
  by pat_completeness auto
termination
  by (relation "measure (\<lambda>(_, _, _, _, d, pos). ul_len (rd_indices d) - pos)") auto

declare rd_scan.simps [simp del]

definition rd_find_entry_idx :: "u64 \<Rightarrow> 'k \<Rightarrow> ('k \<Rightarrow> 'k \<Rightarrow> bool) \<Rightarrow> ('k, 'v) raw_dict \<Rightarrow> nat res" where
  "rd_find_entry_idx h k keq d =
     rbind (rd_lower_bound h d) (\<lambda>pos.
     rbind (rd_scan ''RawDict _find_entry_idx: overflow'' h k keq d pos) (\<lambda>(_, i). Inr i))"

definition rd_find_indices_pos :: "u64 \<Rightarrow> 'k \<Rightarrow> ('k \<Rightarrow> 'k \<Rightarrow> bool) \<Rightarrow> ('k, 'v) raw_dict \<Rightarrow> nat res" where
  "rd_find_indices_pos h k keq d =
     rbind (rd_lower_bound h d) (\<lambda>pos.
     rbind (rd_scan ''RawDict _find_indices_pos: overflow'' h k keq d pos) (\<lambda>(p, _). Inr p))"

text \<open>\<^verbatim>\<open>_fixup_indices_after_removal\<close>: a walk over the whole index.\<close>

fun rd_fixup :: "nat list \<Rightarrow> nat \<Rightarrow> raw_index raw_list \<Rightarrow> raw_index raw_list res" where
  "rd_fixup [] removed ix = Inr ix"
| "rd_fixup (i # is) removed ix =
     rbind (elem_at index_msg i ix) (\<lambda>node.
     rbind (if removed < ri_entry_idx node
            then rbind (sub_panic ''RawDict _fixup_indices_after_removal: overflow'' (ri_entry_idx node) 1) (\<lambda>j.
                 rbind (unwrap index_msg (ul_setitem i \<lparr>ri_hash = ri_hash node, ri_entry_idx = j\<rparr> ix)) (\<lambda>(ix', _). Inr ix'))
            else Inr ix) (\<lambda>ix'.
     rbind (fits ''RawDict _fixup_indices_after_removal: overflow'' (i + 1)) (\<lambda>_. rd_fixup is removed ix')))"

definition rd_remove_entry ::
  "u64 \<Rightarrow> 'k \<Rightarrow> ('k \<Rightarrow> 'k \<Rightarrow> bool) \<Rightarrow> ('k, 'v) raw_dict \<Rightarrow> (('k, 'v) raw_entry \<times> ('k, 'v) raw_dict) res" where
  "rd_remove_entry h k keq d =
     rbind (rd_find_indices_pos h k keq d) (\<lambda>p.
     rbind (elem_at index_msg p (rd_indices d)) (\<lambda>node.
     rbind (elem_at entry_msg (ri_entry_idx node) (rd_entries d)) (\<lambda>entry.
     rbind (unwrap ''RawDict remove_entry: indices erase index out of bounds'' (ul_erase_at p (rd_indices d))) (\<lambda>(ix, _).
     rbind (unwrap ''RawDict remove_entry: entries erase index out of bounds''
              (ul_erase_at (ri_entry_idx node) (rd_entries d))) (\<lambda>(es, _).
     rbind (rd_fixup [0..<ul_len ix] (ri_entry_idx node) ix) (\<lambda>ix'.
     Inr (entry, \<lparr>rd_entries = es, rd_indices = ix'\<rparr>)))))))"

definition rd_key_ptr_at :: "nat \<Rightarrow> ('k, 'v) raw_dict \<Rightarrow> 'k res" where
  "rd_key_ptr_at i d = rbind (elem_at entry_msg i (rd_entries d)) (\<lambda>e. Inr (re_key_ptr e))"

definition rd_value_ptr_at :: "nat \<Rightarrow> ('k, 'v) raw_dict \<Rightarrow> 'v res" where
  "rd_value_ptr_at i d = rbind (elem_at entry_msg i (rd_entries d)) (\<lambda>e. Inr (re_value_ptr e))"

definition rd_overwrite_value_at :: "nat \<Rightarrow> 'v \<Rightarrow> ('k, 'v) raw_dict \<Rightarrow> ('v \<times> ('k, 'v) raw_dict) res" where
  "rd_overwrite_value_at i v d =
     rbind (elem_at entry_msg i (rd_entries d)) (\<lambda>old.
     rbind (unwrap entry_msg (ul_setitem i \<lparr>re_hash = re_hash old, re_key_ptr = re_key_ptr old, re_value_ptr = v\<rparr>
              (rd_entries d))) (\<lambda>(es, _).
     Inr (re_value_ptr old, d\<lparr>rd_entries := es\<rparr>)))"

definition rd_insert_new :: "u64 \<Rightarrow> 'k \<Rightarrow> 'v \<Rightarrow> ('k, 'v) raw_dict \<Rightarrow> ('k, 'v) raw_dict res" where
  "rd_insert_new h k v d =
     rbind (rd_lower_bound h d) (\<lambda>pos.
     rbind (ul_append \<lparr>re_hash = h, re_key_ptr = k, re_value_ptr = v\<rparr> (rd_entries d)) (\<lambda>(es, _).
     rbind (ul_insert pos \<lparr>ri_hash = h, ri_entry_idx = ul_len (rd_entries d)\<rparr> (rd_indices d)) (\<lambda>(ix, _).
     Inr \<lparr>rd_entries = es, rd_indices = ix\<rparr>)))"

subsection \<open>UnsafeDict\<close>

text \<open>The references a dictionary takes and gives back: of a key (\<open>Inl\<close>) or of a value (\<open>Inr\<close>).\<close>

type_synonym ('k, 'v) owned = "('k + 'v) rc_event list"

definition ud_getitem :: "('k \<Rightarrow> u64) \<Rightarrow> ('k \<Rightarrow> 'k \<Rightarrow> bool) \<Rightarrow> 'k \<Rightarrow> ('k, 'v) raw_dict \<Rightarrow> ('v \<times> ('k, 'v) owned) res" where
  "ud_getitem hash keq k d =
     rbind (rd_find_entry_idx (hash k) k keq d) (\<lambda>i.
     rbind (rd_value_ptr_at i d) (\<lambda>v. Inr (v, [Inc (Inr v)])))"

definition ud_contains :: "('k \<Rightarrow> u64) \<Rightarrow> ('k \<Rightarrow> 'k \<Rightarrow> bool) \<Rightarrow> 'k \<Rightarrow> ('k, 'v) raw_dict \<Rightarrow> bool res" where
  "ud_contains hash keq k d =
     (case rd_find_entry_idx (hash k) k keq d of
        Inr _ \<Rightarrow> Inr True | Inl KeyError \<Rightarrow> Inr False | Inl e \<Rightarrow> Inl e)"

definition ud_delitem ::
  "('k \<Rightarrow> u64) \<Rightarrow> ('k \<Rightarrow> 'k \<Rightarrow> bool) \<Rightarrow> 'k \<Rightarrow> ('k, 'v) raw_dict \<Rightarrow> (('k, 'v) raw_dict \<times> ('k, 'v) owned) res" where
  "ud_delitem hash keq k d =
     rbind (rd_remove_entry (hash k) k keq d) (\<lambda>(removed, d').
     Inr (d', [Dec (Inl (re_key_ptr removed)), Dec (Inr (re_value_ptr removed))]))"

definition ud_setitem ::
  "('k \<Rightarrow> u64) \<Rightarrow> ('k \<Rightarrow> 'k \<Rightarrow> bool) \<Rightarrow> 'k \<Rightarrow> 'v \<Rightarrow> ('k, 'v) raw_dict \<Rightarrow> (('k, 'v) raw_dict \<times> ('k, 'v) owned) res" where
  "ud_setitem hash keq k v d =
     (case rd_find_entry_idx (hash k) k keq d of
        Inr i \<Rightarrow>
          rbind (rd_overwrite_value_at i v d) (\<lambda>(old, d'). Inr (d', [Inc (Inr v), Dec (Inr old)]))
      | Inl KeyError \<Rightarrow>
          rbind (rd_insert_new (hash k) k v d) (\<lambda>d'. Inr (d', [Inc (Inl k), Inc (Inr v)]))
      | Inl e \<Rightarrow> Inl e)"

definition ud_key_at :: "nat \<Rightarrow> ('k, 'v) raw_dict \<Rightarrow> ('k \<times> ('k, 'v) owned) res" where
  "ud_key_at i d =
     (if rd_len d \<le> i then Inl IndexError
      else rbind (rd_key_ptr_at i d) (\<lambda>k. Inr (k, [Inc (Inl k)])))"

definition ud_value_at :: "nat \<Rightarrow> ('k, 'v) raw_dict \<Rightarrow> ('v \<times> ('k, 'v) owned) res" where
  "ud_value_at i d =
     (if rd_len d \<le> i then Inl IndexError
      else rbind (rd_value_ptr_at i d) (\<lambda>v. Inr (v, [Inc (Inr v)])))"

text \<open>\<^verbatim>\<open>__del__\<close>: every key and value, first to last.\<close>

fun ud_release :: "nat list \<Rightarrow> ('k, 'v) raw_dict \<Rightarrow> ('k, 'v) owned res" where
  "ud_release [] d = Inr []"
| "ud_release (i # is) d =
     rbind (rd_key_ptr_at i d) (\<lambda>k.
     rbind (rd_value_ptr_at i d) (\<lambda>v.
     rbind (fits ''dict.__del__: overflow'' (i + 1)) (\<lambda>_.
     rbind (ud_release is d) (\<lambda>es. Inr (Dec (Inl k) # Dec (Inr v) # es)))))"

definition ud_del :: "('k, 'v) raw_dict \<Rightarrow> ('k, 'v) owned res" where
  "ud_del d = ud_release [0..<rd_len d] d"

subsection \<open>Hashing\<close>

definition FNV_OFFSET_BASIS :: u64 where "FNV_OFFSET_BASIS = 14695981039346656037"
definition FNV_PRIME :: u64 where "FNV_PRIME = 1099511628211"

fun fnv1a_from :: "u64 \<Rightarrow> 8 word list \<Rightarrow> u64" where
  "fnv1a_from h [] = h"
| "fnv1a_from h (b # bs) = fnv1a_from ((h XOR ucast b) * FNV_PRIME) bs"

definition fnv1a_hash :: "8 word list \<Rightarrow> u64" where
  "fnv1a_hash bytes = fnv1a_from FNV_OFFSET_BASIS bytes"

end
