(* ===== verification/Lib_Dict_Correct.thy ===== *)
theory Lib_Dict_Correct
  imports Lib_Dict
begin

text \<open>
  Binary search finds the partition point of the array; the dictionary refines a map that remembers
  the order of insertion.  The keys' hash and equality are an interface, a locale, that \<^verbatim>\<open>str\<close>
  provides.
\<close>

subsection \<open>Binary search\<close>

lemma elem_at_ok [simp]: "rl_inv s \<Longrightarrow> i < rl_len s \<Longrightarrow> elem_at msg i s = Inr (contents s ! i)"
  by (simp add: elem_at_def getitem_raw)

definition partition_point :: "('a \<Rightarrow> bool) \<Rightarrow> 'a list \<Rightarrow> nat \<Rightarrow> bool" where
  "partition_point right xs p \<longleftrightarrow> p \<le> length xs \<and> list_all right (take p xs) \<and> list_all (\<lambda>x. \<not> right x) (drop p xs)"

lemma partition_point_nth: "partition_point right xs p \<longleftrightarrow>
    p \<le> length xs \<and> (\<forall>i<p. right (xs ! i)) \<and> (\<forall>i. p \<le> i \<longrightarrow> i < length xs \<longrightarrow> \<not> right (xs ! i))"
proof -
  have "(\<forall>i<length xs - p. \<not> right (xs ! (p + i))) \<longleftrightarrow> (\<forall>i. p \<le> i \<longrightarrow> i < length xs \<longrightarrow> \<not> right (xs ! i))"
  proof (intro iffI allI impI)
    fix i assume a: "\<forall>i<length xs - p. \<not> right (xs ! (p + i))" and "p \<le> i" "i < length xs"
    then show "\<not> right (xs ! i)" using spec [OF a, of "i - p"] by simp
  qed simp
  then show ?thesis by (auto simp: partition_point_def list_all_length min_def)
qed

text \<open>An array of at most half the address space: the sum of two positions does not overflow.\<close>

abbreviation searchable :: "'a raw_list \<Rightarrow> bool" where
  "searchable arr \<equiv> rl_inv arr \<and> 2 * rl_len arr < usize_lim"

lemma bisect_loop_spec:
  assumes "searchable arr" and "\<And>i j. i \<le> j \<Longrightarrow> j < rl_len arr \<Longrightarrow> right (contents arr ! j) \<Longrightarrow> right (contents arr ! i)"
    and "lo \<le> hi" and "hi \<le> rl_len arr" and "\<forall>i<lo. right (contents arr ! i)"
    and "\<forall>i. hi \<le> i \<longrightarrow> i < rl_len arr \<longrightarrow> \<not> right (contents arr ! i)"
  shows "\<exists>p. bisect_loop over msg right arr lo hi = Inr p \<and> partition_point right (contents arr) p"
  using assms(3-6)
proof (induction "hi - lo" arbitrary: lo hi rule: less_induct)
  case less
  show ?case
  proof (cases "lo < hi")
    case True
    define mid where "mid = (lo + hi) div 2"
    have mid: "lo \<le> mid" "mid < hi" using True by (auto simp: mid_def)
    have step: "bisect_loop over msg right arr lo hi =
        (if right (contents arr ! mid) then bisect_loop over msg right arr (mid + 1) hi
         else bisect_loop over msg right arr lo mid)"
      using True assms(1) mid less.prems(2) by (subst bisect_loop.simps) (simp add: fits_def getitem_raw mid_def)
    show ?thesis
    proof (cases "right (contents arr ! mid)")
      case right: True
      have "\<forall>i<mid + 1. right (contents arr ! i)"
        using assms(2) [of _ mid] right mid less.prems(2) by simp
      then show ?thesis using less.hyps [of hi "mid + 1"] mid less.prems right step by simp
    next
      case right: False
      have "\<not> right (contents arr ! i)" if "mid \<le> i" "i < rl_len arr" for i using assms(2) that right by blast
      then show ?thesis using less.hyps [of mid lo] mid less.prems right step by simp
    qed
  next
    case False
    then have "lo = hi" using less.prems(1) by simp
    then show ?thesis using less.prems assms(1) by (auto simp: bisect_loop.simps partition_point_nth)
  qed
qed

lemma bisect_loop_full:
  assumes "searchable arr" and "\<And>i j. i \<le> j \<Longrightarrow> j < rl_len arr \<Longrightarrow> right (contents arr ! j) \<Longrightarrow> right (contents arr ! i)"
  shows "\<exists>p. bisect_loop over msg right arr 0 (ul_len arr) = Inr p \<and> partition_point right (contents arr) p"
  unfolding ul_len_def by (rule bisect_loop_spec [OF assms(1)]) (auto intro: assms(2))

lemma bisect_left_by_key_spec:
  assumes "searchable arr" and "sorted (map key (contents arr))"
  shows "\<exists>p. bisect_left_by_key arr x key = Inr p \<and> partition_point (\<lambda>e. key e < x) (contents arr) p"
  unfolding bisect_left_by_key_def
proof (rule bisect_loop_full [OF assms(1)])
  fix i j assume a: "i \<le> j" "j < rl_len arr" "key (contents arr ! j) < x"
  have l: "length (contents arr) = rl_len arr" using assms(1) by simp
  then have "key (contents arr ! i) \<le> key (contents arr ! j)"
    using sorted_nth_mono [OF assms(2) a(1)] a(1,2) by simp
  then show "key (contents arr ! i) < x" using a(3) by (rule le_less_trans)
qed

lemma bisect_right_by_key_spec:
  assumes "searchable arr" and "sorted (map key (contents arr))"
  shows "\<exists>p. bisect_right_by_key arr x key = Inr p \<and> partition_point (\<lambda>e. key e \<le> x) (contents arr) p"
proof -
  have "\<exists>p. bisect_loop over msg (\<lambda>e. \<not> x < key e) arr 0 (ul_len arr) = Inr p \<and>
      partition_point (\<lambda>e. \<not> x < key e) (contents arr) p" for over msg
  proof (rule bisect_loop_full [OF assms(1)])
    fix i j assume a: "i \<le> j" "j < rl_len arr" "\<not> x < key (contents arr ! j)"
    have l: "length (contents arr) = rl_len arr" using assms(1) by simp
    then have "key (contents arr ! i) \<le> key (contents arr ! j)"
      using sorted_nth_mono [OF assms(2) a(1)] a(1,2) by simp
    then show "\<not> x < key (contents arr ! i)" using a(3) by (meson less_le_trans)
  qed
  then show ?thesis unfolding bisect_right_by_key_def not_less .
qed

lemma bisect_as_key:
  "bisect_left arr x = bisect_loop ''bisect_left: overflow'' ''bisect_left: index in bounds by construction''
     (\<lambda>e. e < x) arr 0 (ul_len arr)"
  "bisect_right arr x = bisect_loop ''bisect_right: overflow'' ''bisect_right: index in bounds by construction''
     (\<lambda>e. e \<le> x) arr 0 (ul_len arr)"
  by (simp_all add: bisect_left_def bisect_right_def not_less)

lemma insert_sorted:
  fixes x :: "'a::linorder"
  assumes "sorted xs" and "partition_point (\<lambda>e. e < x) xs p \<or> partition_point (\<lambda>e. e \<le> x) xs p"
  shows "sorted (take p xs @ x # drop p xs)"
proof -
  have "(\<forall>y\<in>set (take p xs). y \<le> x) \<and> (\<forall>y\<in>set (drop p xs). x \<le> y)"
    using assms(2) by (auto simp: partition_point_def list_all_iff)
  moreover have "\<forall>y\<in>set (take p xs). \<forall>z\<in>set (drop p xs). y \<le> z"
    using assms(1) by (metis append_take_drop_id sorted_append)
  moreover have "sorted (take p xs)" "sorted (drop p xs)" using assms(1) by (simp_all add: sorted_wrt_take sorted_wrt_drop)
  ultimately show ?thesis by (auto simp: sorted_append)
qed

text \<open>
  C20. Binary search ends and, on a sorted array, returns the insertion point: everything before it is
  smaller (for the right variants: not greater) than the value sought and everything from it on is not,
  and inserting the value there keeps the array sorted.  It never reads outside the array, and the sum
  of the bounds does not overflow.
\<close>

theorem bisect_finds_the_insertion_point:
  fixes arr :: "'a::linorder raw_list" and recs :: "'b raw_list" and key :: "'b \<Rightarrow> 'k::linorder"
  assumes "searchable arr" and "sorted (contents arr)" and "searchable recs" and "sorted (map key (contents recs))"
  shows "(\<exists>l r. bisect_left arr x = Inr l \<and> partition_point (\<lambda>e. e < x) (contents arr) l \<and>
      sorted (take l (contents arr) @ x # drop l (contents arr)) \<and>
      bisect_right arr x = Inr r \<and> partition_point (\<lambda>e. e \<le> x) (contents arr) r \<and>
      sorted (take r (contents arr) @ x # drop r (contents arr))) \<and>
    (\<exists>l r. bisect_left_by_key recs k key = Inr l \<and> partition_point (\<lambda>e. key e < k) (contents recs) l \<and>
      bisect_right_by_key recs k key = Inr r \<and> partition_point (\<lambda>e. key e \<le> k) (contents recs) r)"
proof -
  have mono: "contents arr ! i \<le> contents arr ! j" if "i \<le> j" "j < rl_len arr" for i j
    using sorted_nth_mono [OF assms(2) that(1)] that assms(1) by simp
  obtain l where l: "bisect_left arr x = Inr l" "partition_point (\<lambda>e. e < x) (contents arr) l"
    using bisect_loop_full [OF assms(1), of "\<lambda>e. e < x"] mono unfolding bisect_as_key by (meson le_less_trans)
  obtain r where r: "bisect_right arr x = Inr r" "partition_point (\<lambda>e. e \<le> x) (contents arr) r"
    using bisect_loop_full [OF assms(1), of "\<lambda>e. e \<le> x"] mono unfolding bisect_as_key by (meson order_trans)
  show ?thesis
    using l r insert_sorted [OF assms(2)] bisect_left_by_key_spec [OF assms(3,4)] bisect_right_by_key_spec [OF assms(3,4)]
    by blast
qed

theorem bisect_finds_the_insertion_point_witness:
  "\<exists>l. bisect_left demo_list 5 = Inr l \<and> partition_point (\<lambda>e. e < 5) [4, 5::nat] l"
proof -
  have "rl_inv demo_list"
    by (auto simp: rl_inv_def demo_list_def usize_lim_def nth_Cons split: nat.splits)
  moreover have "contents demo_list = [4, 5]" "2 * rl_len demo_list < usize_lim"
    by (simp_all add: contents_def demo_list_def usize_lim_def)
  ultimately show ?thesis
    using bisect_finds_the_insertion_point [of demo_list demo_list "\<lambda>n. n" 5] by auto
qed

subsection \<open>The interface of a key\<close>

text \<open>
  What the dictionary needs of a key type: \<^verbatim>\<open>_key_eq\<close> is an equivalence and equal keys have equal
  hashes.
\<close>

locale hashed_key =
  fixes hash :: "'k \<Rightarrow> u64" and keq :: "'k \<Rightarrow> 'k \<Rightarrow> bool"
  assumes keq_refl: "keq k k" and keq_sym: "keq a b \<Longrightarrow> keq b a" and keq_trans: "keq a b \<Longrightarrow> keq b c \<Longrightarrow> keq a c"
    and hash_keq: "keq a b \<Longrightarrow> hash a = hash b"

text \<open>\<^verbatim>\<open>str\<close>: equality of the bytes, and FNV-1a over them.\<close>

interpretation str_key: hashed_key fnv1a_hash "(=)"
  by unfold_locales auto

subsection \<open>The abstract dictionary: an association list in the order of insertion\<close>

fun a_lookup :: "('k \<Rightarrow> 'k \<Rightarrow> bool) \<Rightarrow> 'k \<Rightarrow> ('k \<times> 'v) list \<Rightarrow> 'v option" where
  "a_lookup keq k [] = None"
| "a_lookup keq k ((k', v) # xs) = (if keq k' k then Some v else a_lookup keq k xs)"

fun a_store :: "('k \<Rightarrow> 'k \<Rightarrow> bool) \<Rightarrow> 'k \<Rightarrow> 'v \<Rightarrow> ('k \<times> 'v) list \<Rightarrow> ('k \<times> 'v) list" where
  "a_store keq k v [] = [(k, v)]"
| "a_store keq k v ((k', v') # xs) = (if keq k' k then (k', v) # xs else (k', v') # a_store keq k v xs)"

definition a_remove :: "('k \<Rightarrow> 'k \<Rightarrow> bool) \<Rightarrow> 'k \<Rightarrow> ('k \<times> 'v) list \<Rightarrow> ('k \<times> 'v) list" where
  "a_remove keq k xs = filter (\<lambda>(k', _). \<not> keq k' k) xs"

definition item_of :: "('k, 'v) raw_entry \<Rightarrow> 'k \<times> 'v" where
  "item_of e = (re_key_ptr e, re_value_ptr e)"

definition items :: "('k, 'v) raw_dict \<Rightarrow> ('k \<times> 'v) list" where
  "items d = map item_of (contents (rd_entries d))"

text \<open>The references a dictionary holds.\<close>

definition held :: "('k \<times> 'v) list \<Rightarrow> ('k + 'v) multiset" where
  "held xs = mset (map (Inl \<circ> fst) xs) + mset (map (Inr \<circ> snd) xs)"

lemma held_simps [simp]:
  "held [] = {#}" "held (x # xs) = {#Inl (fst x), Inr (snd x)#} + held xs" "held (xs @ ys) = held xs + held ys"
  by (simp_all add: held_def)

definition no_match :: "('k \<Rightarrow> 'k \<Rightarrow> bool) \<Rightarrow> 'k \<Rightarrow> ('k \<times> 'v) list \<Rightarrow> bool" where
  "no_match keq k xs \<longleftrightarrow> (\<forall>x\<in>set xs. \<not> keq (fst x) k)"

lemma absent_ops:
  assumes "no_match keq k xs"
  shows "a_lookup keq k xs = None" and "a_store keq k v xs = xs @ [(k, v)]" and "a_remove keq k xs = xs"
proof -
  show "a_lookup keq k xs = None" "a_store keq k v xs = xs @ [(k, v)]"
    using assms by (induction keq k xs rule: a_lookup.induct) (auto simp: no_match_def)
  show "a_remove keq k xs = xs" using assms by (auto simp: a_remove_def no_match_def filter_id_conv)
qed

lemma present_ops:
  assumes "no_match keq k ys" and "no_match keq k zs" and "keq k' k"
  shows "a_lookup keq k (ys @ (k', v') # zs) = Some v'"
    and "a_store keq k v (ys @ (k', v') # zs) = ys @ (k', v) # zs"
    and "a_remove keq k (ys @ (k', v') # zs) = ys @ zs"
proof -
  show "a_lookup keq k (ys @ (k', v') # zs) = Some v'" "a_store keq k v (ys @ (k', v') # zs) = ys @ (k', v) # zs"
    using assms(1,3) by (induction ys) (auto simp: no_match_def)
  show "a_remove keq k (ys @ (k', v') # zs) = ys @ zs"
    using absent_ops(3) [OF assms(1)] absent_ops(3) [OF assms(2)] assms(3) by (auto simp: a_remove_def)
qed

subsection \<open>The invariant\<close>

abbreviation entries_of :: "('k, 'v) raw_dict \<Rightarrow> ('k, 'v) raw_entry list" where
  "entries_of d \<equiv> contents (rd_entries d)"
abbreviation indices_of :: "('k, 'v) raw_dict \<Rightarrow> raw_index list" where
  "indices_of d \<equiv> contents (rd_indices d)"

text \<open>The index over a log of entries: sorted by hash, one node per entry, with the hash of its key.\<close>

definition index_ok :: "('k \<Rightarrow> u64) \<Rightarrow> ('k, 'v) raw_entry list \<Rightarrow> raw_index list \<Rightarrow> bool" where
  "index_ok hash es ix \<longleftrightarrow> sorted (map ri_hash ix) \<and> distinct (map ri_entry_idx ix) \<and>
     ri_entry_idx ` set ix = {..<length es} \<and> (\<forall>n\<in>set ix. ri_hash n = hash (re_key_ptr (es ! ri_entry_idx n)))"

definition dict_inv :: "('k \<Rightarrow> u64) \<Rightarrow> ('k \<Rightarrow> 'k \<Rightarrow> bool) \<Rightarrow> ('k, 'v) raw_dict \<Rightarrow> bool" where
  "dict_inv hash keq d \<longleftrightarrow> rl_inv (rd_entries d) \<and> rl_inv (rd_indices d) \<and>
     rl_elem_size (rd_entries d) = 24 \<and> rl_elem_size (rd_indices d) = 16 \<and>
     index_ok hash (entries_of d) (indices_of d) \<and>
     sorted_wrt (\<lambda>a b. \<not> keq (re_key_ptr a) (re_key_ptr b)) (entries_of d)"

definition dict_room :: "('k, 'v) raw_dict \<Rightarrow> bool" where
  "dict_room d \<longleftrightarrow> rl_room (rd_entries d) \<and> rl_room (rd_indices d)"

lemma dict_searchable: "dict_inv hash keq d \<Longrightarrow> searchable (rd_indices d)"
  by (auto simp: dict_inv_def rl_inv_def)

lemma dict_invD:
  assumes "dict_inv hash keq d"
  shows "rl_inv (rd_entries d)" "rl_inv (rd_indices d)" "index_ok hash (entries_of d) (indices_of d)"
    "sorted_wrt (\<lambda>a b. \<not> keq (re_key_ptr a) (re_key_ptr b)) (entries_of d)"
  using assms by (simp_all add: dict_inv_def)

lemma dict_lengths:
  assumes "dict_inv hash keq d"
  shows "length (entries_of d) = rl_len (rd_entries d)" "length (indices_of d) = rl_len (rd_indices d)"
  using dict_invD(1,2) [OF assms] by simp_all

lemma index_entry_bound: "index_ok hash es ix \<Longrightarrow> q < length ix \<Longrightarrow> ri_entry_idx (ix ! q) < length es"
  unfolding index_ok_def by (metis imageI lessThan_iff nth_mem)

lemma lower_bound_spec:
  assumes "dict_inv hash keq d"
  obtains p where "rd_lower_bound h d = Inr p" and "partition_point (\<lambda>n. ri_hash n < h) (indices_of d) p"
  using bisect_left_by_key_spec [OF dict_searchable [OF assms], of ri_hash h] dict_invD(3) [OF assms]
  by (auto simp: rd_lower_bound_def index_ok_def)

subsection \<open>Finding an entry\<close>

lemma scan_spec:
  assumes "dict_inv hash keq d" and "\<And>q. pos \<le> q \<Longrightarrow> q < length (indices_of d) \<Longrightarrow> h \<le> ri_hash (indices_of d ! q)"
  shows "case rd_scan over h k keq d pos of
      Inr (q, i) \<Rightarrow> q < length (indices_of d) \<and> i = ri_entry_idx (indices_of d ! q) \<and> keq (re_key_ptr (entries_of d ! i)) k
    | Inl e \<Rightarrow> e = KeyError \<and> (\<forall>q. pos \<le> q \<longrightarrow> q < length (indices_of d) \<longrightarrow> ri_hash (indices_of d ! q) = h \<longrightarrow>
        \<not> keq (re_key_ptr (entries_of d ! ri_entry_idx (indices_of d ! q))) k)"
  using assms(2)
proof (induction "rl_len (rd_indices d) - pos" arbitrary: pos rule: less_induct)
  case less
  note len = dict_lengths [OF assms(1)] and inv = dict_invD [OF assms(1)]
  show ?case
  proof (cases "pos < rl_len (rd_indices d)")
    case True
    let ?n = "indices_of d ! pos" and ?e = "entries_of d ! ri_entry_idx (indices_of d ! pos)"
    have b: "ri_entry_idx ?n < rl_len (rd_entries d)" using index_entry_bound [OF inv(3)] True len by auto
    have f: "pos + 1 < usize_lim" using True dict_searchable [OF assms(1)] by linarith
    have step: "rd_scan over h k keq d pos = (if ri_hash ?n \<noteq> h then Inl KeyError
        else if keq (re_key_ptr ?e) k then Inr (pos, ri_entry_idx ?n) else rd_scan over h k keq d (pos + 1))"
      using True b f inv(1,2) by (subst rd_scan.simps) (simp add: ul_len_def fits_def)
    show ?thesis
    proof (cases "ri_hash ?n = h")
      case h: False
      then have "h < ri_hash ?n" using less.prems [of pos] True len by (simp add: order.not_eq_order_implies_strict)
      moreover have "ri_hash ?n \<le> ri_hash (indices_of d ! q)" if "pos \<le> q" "q < length (indices_of d)" for q
        using inv(3) sorted_nth_mono [of "map ri_hash (indices_of d)" pos q] that by (simp add: index_ok_def)
      ultimately have "ri_hash (indices_of d ! q) \<noteq> h" if "pos \<le> q" "q < length (indices_of d)" for q
        using that by (metis leD)
      then show ?thesis using step h by simp
    next
      case h: True
      show ?thesis
      proof (cases "keq (re_key_ptr ?e) k")
        case False
        have eq: "rd_scan over h k keq d pos = rd_scan over h k keq d (pos + 1)" using step h False by simp
        show ?thesis
        proof (cases "rd_scan over h k keq d (pos + 1)")
          case (Inl e)
          with less.hyps [of "pos + 1"] less.prems True have r: "e = KeyError"
            "\<And>q. pos + 1 \<le> q \<Longrightarrow> q < length (indices_of d) \<Longrightarrow> ri_hash (indices_of d ! q) = h \<Longrightarrow>
              \<not> keq (re_key_ptr (entries_of d ! ri_entry_idx (indices_of d ! q))) k" by auto
          show ?thesis unfolding eq Inl sum.case
          proof (intro conjI allI impI r(1))
            fix q assume q: "pos \<le> q" "q < length (indices_of d)" "ri_hash (indices_of d ! q) = h"
            then show "\<not> keq (re_key_ptr (entries_of d ! ri_entry_idx (indices_of d ! q))) k"
              using False r(2) [of q] by (cases "q = pos") auto
          qed
        next
          case (Inr r)
          with less.hyps [of "pos + 1"] less.prems True eq show ?thesis by (auto split: prod.splits)
        qed
      qed (use step h True len in simp)
    qed
  next
    case False
    then have "rd_scan over h k keq d pos = Inl KeyError" by (subst rd_scan.simps) (simp add: ul_len_def)
    then show ?thesis using False len by simp
  qed
qed

context hashed_key
begin

lemma entry_unique:
  assumes "dict_inv hash keq d" and "i < length (entries_of d)" and "j < length (entries_of d)"
    and "keq (re_key_ptr (entries_of d ! i)) k" and "keq (re_key_ptr (entries_of d ! j)) k"
  shows "i = j"
proof -
  have "keq (re_key_ptr (entries_of d ! i)) (re_key_ptr (entries_of d ! j))"
    "keq (re_key_ptr (entries_of d ! j)) (re_key_ptr (entries_of d ! i))"
    using assms(4,5) keq_sym keq_trans by blast+
  moreover note sorted_wrt_nth_less [OF dict_invD(4) [OF assms(1)]]
  ultimately show ?thesis using assms(2,3) by (metis linorder_neqE_nat)
qed

lemma scan_found:
  assumes "dict_inv hash keq d" and "rd_lower_bound (hash k) d = Inr p"
    and "i < length (entries_of d)" and "keq (re_key_ptr (entries_of d ! i)) k"
  shows "\<exists>q<length (indices_of d). rd_scan over (hash k) k keq d p = Inr (q, i) \<and> ri_entry_idx (indices_of d ! q) = i"
proof -
  have pp: "partition_point (\<lambda>n. ri_hash n < hash k) (indices_of d) p"
    using lower_bound_spec [OF assms(1), of "hash k"] assms(2) by auto
  note ix = dict_invD(3) [OF assms(1)]
  obtain q0 where q0: "q0 < length (indices_of d)" "ri_entry_idx (indices_of d ! q0) = i"
    using ix assms(3) unfolding index_ok_def by (metis imageE in_set_conv_nth lessThan_iff)
  then have h: "ri_hash (indices_of d ! q0) = hash k"
    using ix hash_keq [OF assms(4)] by (auto simp: index_ok_def)
  then have "p \<le> q0" using pp by (metis leI less_irrefl partition_point_nth)
  moreover have "\<And>q. p \<le> q \<Longrightarrow> q < length (indices_of d) \<Longrightarrow> hash k \<le> ri_hash (indices_of d ! q)"
    using pp by (auto simp: partition_point_nth not_less)
  note sp = scan_spec [where pos = p and over = over and k = k, OF assms(1) this]
  show ?thesis
  proof (cases "rd_scan over (hash k) k keq d p")
    case (Inl e)
    then show ?thesis using sp q0 h \<open>p \<le> q0\<close> assms(4) by auto
  next
    case (Inr r)
    obtain q i' where r: "r = (q, i')" by (cases r)
    with sp Inr have q: "q < length (indices_of d)" "i' = ri_entry_idx (indices_of d ! q)" "keq (re_key_ptr (entries_of d ! i')) k"
      by auto
    then have "i' = i" using entry_unique [OF assms(1) _ assms(3) _ assms(4)] index_entry_bound [OF ix q(1)] by blast
    then show ?thesis using q r Inr by auto
  qed
qed

lemma find_present:
  assumes "dict_inv hash keq d" and "i < length (entries_of d)" and "keq (re_key_ptr (entries_of d ! i)) k"
  shows "rd_find_entry_idx (hash k) k keq d = Inr i"
    and "\<exists>q<length (indices_of d). rd_find_indices_pos (hash k) k keq d = Inr q \<and> ri_entry_idx (indices_of d ! q) = i"
proof -
  obtain p where p: "rd_lower_bound (hash k) d = Inr p" using lower_bound_spec [OF assms(1)] by blast
  note f = scan_found [OF assms(1) p assms(2,3)]
  show "rd_find_entry_idx (hash k) k keq d = Inr i"
    using f [of "''RawDict _find_entry_idx: overflow''"] p by (auto simp: rd_find_entry_idx_def)
  show "\<exists>q<length (indices_of d). rd_find_indices_pos (hash k) k keq d = Inr q \<and> ri_entry_idx (indices_of d ! q) = i"
    using f [of "''RawDict _find_indices_pos: overflow''"] p by (auto simp: rd_find_indices_pos_def)
qed

lemma find_absent:
  assumes "dict_inv hash keq d" and "\<forall>i<length (entries_of d). \<not> keq (re_key_ptr (entries_of d ! i)) k"
  shows "rd_find_entry_idx (hash k) k keq d = Inl KeyError" and "rd_find_indices_pos (hash k) k keq d = Inl KeyError"
proof -
  obtain p where p: "rd_lower_bound (hash k) d = Inr p" and pp: "partition_point (\<lambda>n. ri_hash n < hash k) (indices_of d) p"
    using lower_bound_spec [OF assms(1)] by blast
  have ge: "\<And>q. p \<le> q \<Longrightarrow> q < length (indices_of d) \<Longrightarrow> hash k \<le> ri_hash (indices_of d ! q)"
    using pp by (auto simp: partition_point_nth not_less)
  have "rd_scan over (hash k) k keq d p = Inl KeyError" for over
    using scan_spec [where pos = p and over = over and k = k, OF assms(1) ge] index_entry_bound [OF dict_invD(3) [OF assms(1)]] assms(2)
    by (auto split: sum.splits)
  then show "rd_find_entry_idx (hash k) k keq d = Inl KeyError" "rd_find_indices_pos (hash k) k keq d = Inl KeyError"
    using p by (simp_all add: rd_find_entry_idx_def rd_find_indices_pos_def)
qed

end

subsection \<open>Changing the log and its index\<close>

lemma elem_size_kept:
  "ul_insert k x s = Inr (s', es) \<Longrightarrow> rl_elem_size s' = rl_elem_size s"
  "ul_append x s = Inr (s', es) \<Longrightarrow> rl_elem_size s' = rl_elem_size s"
  "ul_setitem k x s = Inr (s', es) \<Longrightarrow> rl_elem_size s' = rl_elem_size s"
  "ul_erase_at k s = Inr (s', es) \<Longrightarrow> rl_elem_size s' = rl_elem_size s"
  by (auto simp: ul_insert_def ul_append_def ul_setitem_def ul_erase_at_def rl_insert_at_def rl_append_def
      rl_remove_at_def rl_ensure_room_def rl_grow_def Let_def rbind_Inr split: if_splits)

lemma index_ok_insert:
  assumes "index_ok hash es ix" and "re_key_ptr e = k" and "partition_point (\<lambda>n. ri_hash n < hash k) ix p"
  shows "index_ok hash (es @ [e]) (take p ix @ \<lparr>ri_hash = hash k, ri_entry_idx = length es\<rparr> # drop p ix)"
proof -
  let ?n = "\<lparr>ri_hash = hash k, ri_entry_idx = length es\<rparr>"
  let ?ix = "take p ix @ ?n # drop p ix"
  have "mset (take p ix) + mset (drop p ix) = mset ix" by (metis append_take_drop_id mset_append)
  then have m: "mset ?ix = add_mset ?n (mset ix)" by simp
  have split: "set ?ix = insert ?n (set ix)" by (metis m set_mset_add_mset_insert set_mset_mset)
  have split_idx: "mset (map ri_entry_idx ?ix) = add_mset (length es) (mset (map ri_entry_idx ix))"
    unfolding mset_map m by simp
  have b: "ri_entry_idx n < length es" if "n \<in> set ix" for n
    using assms(1) that unfolding index_ok_def by (metis imageI lessThan_iff)
  have "distinct (map ri_entry_idx ?ix)"
  proof -
    have "length es \<notin> set (map ri_entry_idx ix)" using b by fastforce
    then have "distinct (length es # map ri_entry_idx ix)" using assms(1) by (simp add: index_ok_def)
    then show ?thesis using split_idx by (metis mset.simps(2) mset_eq_imp_distinct_iff)
  qed
  moreover have "sorted (map ri_hash ?ix)"
  proof -
    have "partition_point (\<lambda>h. h < hash k) (map ri_hash ix) p"
      using assms(3) by (simp add: partition_point_def list.pred_map comp_def take_map drop_map)
    then show ?thesis using insert_sorted [of "map ri_hash ix" "hash k" p] assms(1)
      by (simp add: index_ok_def take_map drop_map)
  qed
  moreover have "ri_entry_idx ` set ?ix = {..<length (es @ [e])}"
    using split assms(1) by (auto simp: index_ok_def)
  moreover have "\<forall>n\<in>set ?ix. ri_hash n = hash (re_key_ptr ((es @ [e]) ! ri_entry_idx n))"
    unfolding split using assms(1,2) b by (auto simp: index_ok_def nth_append)
  ultimately show ?thesis by (simp add: index_ok_def)
qed

text \<open>Removal closes the gap in the log and renumbers the nodes behind it.\<close>

definition dec_above :: "nat \<Rightarrow> nat \<Rightarrow> nat" where
  "dec_above i j = (if i < j then j - 1 else j)"

definition renumber :: "nat \<Rightarrow> raw_index \<Rightarrow> raw_index" where
  "renumber i n = \<lparr>ri_hash = ri_hash n, ri_entry_idx = dec_above i (ri_entry_idx n)\<rparr>"

lemma renumber_simps [simp]: "ri_hash (renumber i n) = ri_hash n" "ri_entry_idx (renumber i n) = dec_above i (ri_entry_idx n)"
  by (simp_all add: renumber_def)

lemma nth_without:
  assumes "j \<noteq> i" and "j < length xs" and "i < length xs"
  shows "(take i xs @ drop (Suc i) xs) ! dec_above i j = xs ! j"
  using assms by (auto simp: dec_above_def nth_append min_def)

lemma dec_above_inj: "inj_on (dec_above i) (- {i})"
  by (auto simp: inj_on_def dec_above_def split: if_splits)

lemma dec_above_image: "i < n \<Longrightarrow> dec_above i ` ({..<n} - {i}) = {..<n - 1}"
proof (intro equalityI subsetI)
  fix j assume "i < n" "j \<in> {..<n - 1}"
  then have "j = dec_above i (if j < i then j else Suc j)" "(if j < i then j else Suc j) \<in> {..<n} - {i}"
    by (auto simp: dec_above_def)
  then show "j \<in> dec_above i ` ({..<n} - {i})" by (rule image_eqI)
qed (auto simp: dec_above_def)

lemma index_ok_remove:
  assumes "index_ok hash es ix" and "p < length ix" and "ri_entry_idx (ix ! p) = i"
  shows "index_ok hash (take i es @ drop (Suc i) es) (map (renumber i) (take p ix @ drop (Suc p) ix))"
proof -
  let ?rest = "take p ix @ drop (Suc p) ix"
  have ix: "ix = take p ix @ ix ! p # drop (Suc p) ix" using id_take_nth_drop [OF assms(2)] .
  have i: "i < length es" using index_entry_bound [OF assms(1,2)] assms(3) by simp
  have "sorted (map ri_hash (take p ix @ ix ! p # drop (Suc p) ix))" "distinct (map ri_entry_idx (take p ix @ ix ! p # drop (Suc p) ix))"
    "ri_entry_idx ` set (take p ix @ ix ! p # drop (Suc p) ix) = {..<length es}"
    using assms(1) unfolding index_ok_def ix [symmetric] by simp_all
  then have r12: "sorted (map ri_hash ?rest)" "distinct (map ri_entry_idx ?rest)" "i \<notin> ri_entry_idx ` set ?rest"
    "insert i (ri_entry_idx ` set ?rest) = {..<length es}"
    using assms(3) by (simp_all add: sorted_append image_Un)
  then have r: "sorted (map ri_hash ?rest)" "distinct (map ri_entry_idx ?rest)" "ri_entry_idx ` set ?rest = {..<length es} - {i}"
    by (simp, simp, metis Diff_insert_absorb)
  have ne: "ri_entry_idx n \<noteq> i" "ri_entry_idx n < length es" if "n \<in> set ?rest" for n
    using r(3) that by blast+
  have sub: "set ?rest \<subseteq> set ix" using set_take_subset [of p ix] set_drop_subset [of "Suc p" ix] by auto
  have map: "map ri_entry_idx (map (renumber i) ?rest) = map (dec_above i) (map ri_entry_idx ?rest)"
    "map ri_hash (map (renumber i) ?rest) = map ri_hash ?rest" by simp_all
  have inj: "inj_on (dec_above i) (ri_entry_idx ` set ?rest)"
    using dec_above_inj r(3) by (metis Diff_subset_conv Compl_eq_Diff_UNIV Diff_mono inf_sup_ord(3) inj_on_subset order_refl subset_UNIV)
  have "distinct (map ri_entry_idx (map (renumber i) ?rest))"
    unfolding map(1) distinct_map [of "dec_above i"] set_map using r(2) inj by blast
  moreover have "ri_entry_idx ` set (map (renumber i) ?rest) = {..<length es - 1}"
  proof -
    have "ri_entry_idx ` set (map (renumber i) ?rest) = dec_above i ` (ri_entry_idx ` set ?rest)"
      by (simp only: set_map image_image renumber_simps)
    then show ?thesis unfolding r(3) using dec_above_image [OF i] by simp
  qed
  moreover have "ri_hash n = hash (re_key_ptr ((take i es @ drop (Suc i) es) ! ri_entry_idx n))"
    if "n \<in> set (map (renumber i) ?rest)" for n
  proof -
    from that obtain m where m: "m \<in> set ?rest" "n = renumber i m" by auto
    then have "m \<in> set ix" using sub by blast
    with assms(1) have "ri_hash m = hash (re_key_ptr (es ! ri_entry_idx m))" by (simp add: index_ok_def)
    with m(2) nth_without [OF ne(1) [OF m(1)] ne(2) [OF m(1)] i] show ?thesis by simp
  qed
  moreover have "length (take i es @ drop (Suc i) es) = length es - 1" using i by simp
  ultimately show ?thesis using r(1) unfolding index_ok_def map(2) by metis
qed

lemma fixup_spec:
  assumes "rl_inv ix" and "a \<le> rl_len ix"
  shows "\<exists>ix'. rd_fixup [a..<rl_len ix] r ix = Inr ix' \<and> rl_inv ix' \<and> rl_elem_size ix' = rl_elem_size ix \<and>
    contents ix' = take a (contents ix) @ map (renumber r) (drop a (contents ix))"
  using assms
proof (induction "rl_len ix - a" arbitrary: a ix)
  case 0
  then show ?case by simp
next
  case (Suc n)
  let ?c = "contents ix"
  have a: "a < rl_len ix" "length ?c = rl_len ix" using Suc by auto
  then have upt: "[a..<rl_len ix] = a # [Suc a..<rl_len ix]" by (simp add: upt_conv_Cons)
  have f: "a + 1 < usize_lim" using rl_inv_fits [OF Suc.prems(1), of "a + 1"] Suc.prems(1) a by (auto simp: rl_inv_def)
  obtain ix1 where s: "ul_setitem a (renumber r (?c ! a)) ix = Inr (ix1, [Dec (?c ! a), Inc (renumber r (?c ! a))])"
    "rl_inv ix1" "contents ix1 = ?c[a := renumber r (?c ! a)]"
    using ul.setitem_spec [OF Suc.prems(1), of a] a by metis
  define ix2 where "ix2 = (if r < ri_entry_idx (?c ! a) then ix1 else ix)"
  have same: "renumber r (?c ! a) = ?c ! a" if "\<not> r < ri_entry_idx (?c ! a)" using that by (simp add: renumber_def dec_above_def)
  have i2: "rl_inv ix2" "contents ix2 = ?c[a := renumber r (?c ! a)]" "rl_elem_size ix2 = rl_elem_size ix"
    using s Suc.prems(1) same elem_size_kept(3) [OF s(1)] by (auto simp: ix2_def)
  then have l2: "rl_len ix2 = rl_len ix" using contents_length [OF i2(1)] a by simp
  have step: "rd_fixup [a..<rl_len ix] r ix = rd_fixup [Suc a..<rl_len ix2] r ix2"
  proof (cases "r < ri_entry_idx (?c ! a)")
    case True
    then have "renumber r (?c ! a) = \<lparr>ri_hash = ri_hash (?c ! a), ri_entry_idx = ri_entry_idx (?c ! a) - 1\<rparr>"
      by (simp add: renumber_def dec_above_def)
    then show ?thesis unfolding upt l2 using a f s(1) Suc.prems(1) True by (simp add: ix2_def fits_def sub_panic_def)
  next
    case False
    then show ?thesis unfolding upt l2 using a f Suc.prems(1) by (simp add: ix2_def fits_def)
  qed
  have n: "n = rl_len ix - Suc a" using Suc.hyps(2) by simp
  obtain ix' where "rd_fixup [Suc a..<rl_len ix2] r ix2 = Inr ix'" "rl_inv ix'" "rl_elem_size ix' = rl_elem_size ix2"
    "contents ix' = take (Suc a) (contents ix2) @ map (renumber r) (drop (Suc a) (contents ix2))"
    using Suc.hyps(1) [of ix2 "Suc a"] n i2(1) a(1) unfolding l2 by auto
  moreover have "take (Suc a) (contents ix2) @ map (renumber r) (drop (Suc a) (contents ix2)) =
      take a ?c @ map (renumber r) (drop a ?c)"
    using a unfolding i2(2) by (simp add: take_Suc_conv_app_nth Cons_nth_drop_Suc [symmetric])
  ultimately show ?case using step i2(3) by auto
qed

subsection \<open>The operations\<close>

lemma insert_new_spec:
  assumes "dict_inv hash keq d" and "dict_room d" and "\<forall>e\<in>set (entries_of d). \<not> keq (re_key_ptr e) k"
  shows "\<exists>d'. rd_insert_new (hash k) k v d = Inr d' \<and> dict_inv hash keq d' \<and> items d' = items d @ [(k, v)]"
proof -
  let ?e = "\<lparr>re_hash = hash k, re_key_ptr = k, re_value_ptr = v\<rparr>"
  let ?n = "\<lparr>ri_hash = hash k, ri_entry_idx = rl_len (rd_entries d)\<rparr>"
  note inv = dict_invD [OF assms(1)] and len = dict_lengths [OF assms(1)]
  have room: "rl_room (rd_entries d)" "rl_room (rd_indices d)" using assms(2) by (simp_all add: dict_room_def)
  obtain p where p: "rd_lower_bound (hash k) d = Inr p" "partition_point (\<lambda>n. ri_hash n < hash k) (indices_of d) p"
    using lower_bound_spec [OF assms(1)] by blast
  obtain es where es: "ul_append ?e (rd_entries d) = Inr (es, [Inc ?e])" "rl_inv es" "contents es = entries_of d @ [?e]"
    using ul.append_spec [OF inv(1) room(1)] by blast
  obtain ix where ix: "ul_insert p ?n (rd_indices d) = Inr (ix, [Inc ?n])" "rl_inv ix"
      "contents ix = take p (indices_of d) @ ?n # drop p (indices_of d)"
    using ul.insert_spec [OF inv(2) room(2)] by blast
  have "rd_insert_new (hash k) k v d = Inr \<lparr>rd_entries = es, rd_indices = ix\<rparr>"
    using p(1) es(1) ix(1) by (simp add: rd_insert_new_def ul_len_def)
  moreover have "dict_inv hash keq \<lparr>rd_entries = es, rd_indices = ix\<rparr>"
    using assms(1,3) es ix index_ok_insert [OF inv(3) _ p(2), of ?e] elem_size_kept(2) [OF es(1)] elem_size_kept(1) [OF ix(1)]
    by (simp add: dict_inv_def len sorted_wrt_append)
  moreover have "items \<lparr>rd_entries = es, rd_indices = ix\<rparr> = items d @ [(k, v)]" using es(3) by (simp add: items_def item_of_def)
  ultimately show ?thesis by blast
qed

lemma overwrite_spec:
  assumes "dict_inv hash keq d" and "i < length (entries_of d)"
  shows "\<exists>d'. rd_overwrite_value_at i v d = Inr (re_value_ptr (entries_of d ! i), d') \<and> dict_inv hash keq d' \<and>
    items d' = (items d)[i := (re_key_ptr (entries_of d ! i), v)]"
proof -
  let ?old = "entries_of d ! i"
  let ?e = "\<lparr>re_hash = re_hash ?old, re_key_ptr = re_key_ptr ?old, re_value_ptr = v\<rparr>"
  note inv = dict_invD [OF assms(1)] and len = dict_lengths [OF assms(1)]
  obtain es where es: "ul_setitem i ?e (rd_entries d) = Inr (es, [Dec ?old, Inc ?e])" "rl_inv es" "contents es = (entries_of d)[i := ?e]"
    using ul.setitem_spec [OF inv(1) assms(2)] by blast
  have keys: "re_key_ptr ((entries_of d)[i := ?e] ! j) = re_key_ptr (entries_of d ! j)" if "j < length (entries_of d)" for j
    using that assms(2) by (simp add: nth_list_update)
  have "rd_overwrite_value_at i v d = Inr (re_value_ptr ?old, d\<lparr>rd_entries := es\<rparr>)"
    using es(1) assms(2) len inv(1) by (simp add: rd_overwrite_value_at_def)
  moreover have "index_ok hash (contents es) (indices_of d)"
    using inv(3) keys unfolding index_ok_def es(3) by (metis imageI length_list_update lessThan_iff)
  moreover have "sorted_wrt (\<lambda>a b. \<not> keq (re_key_ptr a) (re_key_ptr b)) (contents es)"
    using inv(4) keys by (simp add: es(3) sorted_wrt_iff_nth_less)
  ultimately show ?thesis
    using assms(1) es(2,3) elem_size_kept(3) [OF es(1)]
    by (auto simp: dict_inv_def items_def item_of_def map_update)
qed

lemma remove_spec:
  assumes "dict_inv hash keq d" and "p < length (indices_of d)" and "rd_find_indices_pos (hash k) k keq d = Inr p"
  defines "i \<equiv> ri_entry_idx (indices_of d ! p)"
  shows "\<exists>d'. rd_remove_entry (hash k) k keq d = Inr (entries_of d ! i, d') \<and> dict_inv hash keq d' \<and>
    items d' = take i (items d) @ drop (Suc i) (items d)"
proof -
  note inv = dict_invD [OF assms(1)] and len = dict_lengths [OF assms(1)]
  have i: "i < length (entries_of d)" using index_entry_bound [OF inv(3) assms(2)] by (simp add: i_def)
  obtain ix where ix: "ul_erase_at p (rd_indices d) = Inr (ix, [Dec (indices_of d ! p)])" "rl_inv ix"
      "contents ix = take p (indices_of d) @ drop (Suc p) (indices_of d)"
    using ul.erase_spec [OF inv(2) assms(2)] by blast
  obtain es where es: "ul_erase_at i (rd_entries d) = Inr (es, [Dec (entries_of d ! i)])" "rl_inv es"
      "contents es = take i (entries_of d) @ drop (Suc i) (entries_of d)"
    using ul.erase_spec [OF inv(1) i] by blast
  obtain ix' where fx: "rd_fixup [0..<rl_len ix] i ix = Inr ix'" "rl_inv ix'" "rl_elem_size ix' = rl_elem_size ix"
      "contents ix' = map (renumber i) (contents ix)"
    using fixup_spec [OF ix(2), of 0 i] by auto
  have "rd_remove_entry (hash k) k keq d = Inr (entries_of d ! i, \<lparr>rd_entries = es, rd_indices = ix'\<rparr>)"
    using assms(2,3) inv(1,2) len i ix(1) es(1) fx(1)
    by (simp add: rd_remove_entry_def i_def [symmetric] ul_len_def)
  moreover have "index_ok hash (contents es) (contents ix')"
    unfolding fx(4) ix(3) es(3) by (rule index_ok_remove [OF inv(3) assms(2)]) (simp add: i_def)
  moreover have "sorted_wrt (\<lambda>a b. \<not> keq (re_key_ptr a) (re_key_ptr b)) (contents es)"
  proof -
    have "sorted_wrt (\<lambda>a b. \<not> keq (re_key_ptr a) (re_key_ptr b))
        (take i (entries_of d) @ entries_of d ! i # drop (Suc i) (entries_of d))"
      using inv(4) id_take_nth_drop [OF i] by simp
    then show ?thesis by (simp add: es(3) sorted_wrt_append)
  qed
  moreover have "items \<lparr>rd_entries = es, rd_indices = ix'\<rparr> = take i (items d) @ drop (Suc i) (items d)"
    by (simp add: items_def es(3) take_map drop_map)
  ultimately show ?thesis
    using assms(1) es(2) fx(2,3) elem_size_kept(4) [OF es(1)] elem_size_kept(4) [OF ix(1)] by (auto simp: dict_inv_def)
qed

context hashed_key
begin

text \<open>Whether the key is there decides every operation: either no entry matches, or exactly one.\<close>

lemma lookup_cases [consumes 1, case_names absent present]:
  assumes "dict_inv hash keq d"
  obtains (absent) "no_match keq k (items d)" "\<forall>i<length (entries_of d). \<not> keq (re_key_ptr (entries_of d ! i)) k"
  | (present) i where "i < length (entries_of d)" "keq (re_key_ptr (entries_of d ! i)) k"
      "no_match keq k (take i (items d))" "no_match keq k (drop (Suc i) (items d))"
proof (cases "\<exists>i<length (entries_of d). keq (re_key_ptr (entries_of d ! i)) k")
  case False
  then have "no_match keq k (items d)" by (auto simp: no_match_def items_def item_of_def in_set_conv_nth)
  then show ?thesis using absent False by blast
next
  case True
  then obtain i where i: "i < length (entries_of d)" "keq (re_key_ptr (entries_of d ! i)) k" by blast
  have other: "\<not> keq (re_key_ptr (entries_of d ! j)) k" if "j < length (entries_of d)" "j \<noteq> i" for j
    using entry_unique [OF assms that(1) i(1) _ i(2)] that(2) by blast
  have "no_match keq k (take i (items d))" "no_match keq k (drop (Suc i) (items d))"
    using other i(1) by (auto simp: no_match_def items_def item_of_def in_set_conv_nth)
  then show ?thesis using present i by blast
qed

lemma present_item:
  assumes "i < length (entries_of d)"
  shows "items d = take i (items d) @ (re_key_ptr (entries_of d ! i), re_value_ptr (entries_of d ! i)) # drop (Suc i) (items d)"
  using id_take_nth_drop [of i "items d"] assms by (simp add: items_def item_of_def)

lemma getitem_correct:
  assumes "dict_inv hash keq d"
  shows "ud_getitem hash keq k d =
      (case a_lookup keq k (items d) of None \<Rightarrow> Inl KeyError | Some v \<Rightarrow> Inr (v, [Inc (Inr v)]))"
    and "ud_contains hash keq k d = Inr (a_lookup keq k (items d) \<noteq> None)"
proof -
  have "rd_find_entry_idx (hash k) k keq d = Inl KeyError \<and> a_lookup keq k (items d) = None \<or>
    (\<exists>i v. rd_find_entry_idx (hash k) k keq d = Inr i \<and> rd_value_ptr_at i d = Inr v \<and> a_lookup keq k (items d) = Some v)"
  using assms
  proof (cases rule: lookup_cases [where k = k])
    case absent
    show ?thesis using find_absent(1) [OF assms absent(2)] absent_ops(1) [OF absent(1)] by simp
  next
    case (present i)
    have "rd_value_ptr_at i d = Inr (re_value_ptr (entries_of d ! i))"
      using present(1) dict_lengths [OF assms] dict_invD(1) [OF assms] by (simp add: rd_value_ptr_at_def)
    moreover have "a_lookup keq k (items d) = Some (re_value_ptr (entries_of d ! i))"
      by (subst present_item [OF present(1)]) (rule present_ops(1) [OF present(3,4,2)])
    ultimately show ?thesis using find_present(1) [OF assms present(1,2)] by simp
  qed
  then show "ud_getitem hash keq k d =
      (case a_lookup keq k (items d) of None \<Rightarrow> Inl KeyError | Some v \<Rightarrow> Inr (v, [Inc (Inr v)]))"
    "ud_contains hash keq k d = Inr (a_lookup keq k (items d) \<noteq> None)"
    by (auto simp: ud_getitem_def ud_contains_def)
qed

lemma setitem_correct:
  assumes "dict_inv hash keq d" and "dict_room d"
  shows "\<exists>d' es. ud_setitem hash keq k v d = Inr (d', es) \<and> dict_inv hash keq d' \<and> items d' = a_store keq k v (items d) \<and>
    held (items d') + decs es = held (items d) + incs es"
using assms(1)
proof (cases rule: lookup_cases [where k = k])
  case absent
  have "\<forall>e\<in>set (entries_of d). \<not> keq (re_key_ptr e) k" using absent(2) by (metis in_set_conv_nth)
  then obtain d' where "rd_insert_new (hash k) k v d = Inr d'" "dict_inv hash keq d'" "items d' = items d @ [(k, v)]"
    using insert_new_spec [OF assms] by blast
  then show ?thesis using find_absent(1) [OF assms(1) absent(2)] absent_ops(2) [OF absent(1)] by (simp add: ud_setitem_def)
next
  case (present i)
  let ?e = "entries_of d ! i"
  obtain d' where d': "rd_overwrite_value_at i v d = Inr (re_value_ptr ?e, d')" "dict_inv hash keq d'"
      "items d' = (items d)[i := (re_key_ptr ?e, v)]"
    using overwrite_spec [OF assms(1) present(1)] by blast
  have il: "i < length (items d)" using present(1) by (simp add: items_def)
  have upd: "items d' = take i (items d) @ (re_key_ptr ?e, v) # drop (Suc i) (items d)"
    using d'(3) upd_conv_take_nth_drop [OF il] by simp
  have "items d' = a_store keq k v (items d)"
    by (subst present_item [OF present(1)]) (simp only: upd present_ops(2) [OF present(3,4,2)])
  moreover have "held (items d') + {#Inr (re_value_ptr ?e)#} = held (items d) + {#Inr v#}"
    by (subst present_item [OF present(1)], unfold upd) simp
  ultimately show ?thesis
    using find_present(1) [OF assms(1) present(1,2)] d'(1,2) by (simp add: ud_setitem_def)
qed

lemma delitem_correct:
  assumes "dict_inv hash keq d"
  shows "if a_lookup keq k (items d) = None then ud_delitem hash keq k d = Inl KeyError
    else \<exists>d' es. ud_delitem hash keq k d = Inr (d', es) \<and> dict_inv hash keq d' \<and> items d' = a_remove keq k (items d) \<and>
      held (items d') + decs es = held (items d) + incs es"
using assms
proof (cases rule: lookup_cases [where k = k])
  case absent
  show ?thesis using find_absent(2) [OF assms absent(2)] absent_ops(1) [OF absent(1)]
    by (simp add: ud_delitem_def rd_remove_entry_def)
next
  case (present i)
  let ?e = "entries_of d ! i"
  obtain q where q: "q < length (indices_of d)" "rd_find_indices_pos (hash k) k keq d = Inr q" "ri_entry_idx (indices_of d ! q) = i"
    using find_present(2) [OF assms present(1,2)] by blast
  obtain d' where d': "rd_remove_entry (hash k) k keq d = Inr (?e, d')" "dict_inv hash keq d'"
      "items d' = take i (items d) @ drop (Suc i) (items d)"
    using remove_spec [OF assms q(1,2)] unfolding q(3) by blast
  have "a_lookup keq k (items d) \<noteq> None"
    by (subst present_item [OF present(1)]) (simp add: present_ops(1) [OF present(3,4,2)])
  moreover have "items d' = a_remove keq k (items d)"
    by (subst present_item [OF present(1)]) (simp only: d'(3) present_ops(3) [OF present(3,4,2)])
  moreover have "held (items d') + {#Inl (re_key_ptr ?e), Inr (re_value_ptr ?e)#} = held (items d)"
    by (subst present_item [OF present(1)], unfold d'(3)) simp
  moreover have "ud_delitem hash keq k d = Inr (d', [Dec (Inl (re_key_ptr ?e)), Dec (Inr (re_value_ptr ?e))])"
    using d'(1) by (simp add: ud_delitem_def)
  ultimately show ?thesis using d'(2) by auto
qed

end

subsection \<open>The dictionary refines the abstract one\<close>

lemma init_dict:
  "\<exists>d :: ('k, 'v) raw_dict. rd_init = Inr d \<and> dict_inv hash keq d \<and> dict_room d \<and> items d = []"
proof -
  let ?d = "\<lparr>rd_entries = \<lparr>rl_data = replicate 8 None, rl_elem_size = 24, rl_len = 0, rl_cap = 8\<rparr>,
     rd_indices = \<lparr>rl_data = replicate 8 None, rl_elem_size = 16, rl_len = 0, rl_cap = 8\<rparr>\<rparr> :: ('k, 'v) raw_dict"
  have "rd_init = Inr ?d" by (simp add: rd_init_def rl_init_def fits_def usize_lim_def)
  moreover have "dict_inv hash keq ?d \<and> dict_room ?d \<and> items ?d = []"
    by (simp add: dict_inv_def dict_room_def rl_inv_def rl_room_def usize_lim_def contents_def items_def index_ok_def)
  ultimately show ?thesis by blast
qed

lemma release_spec:
  assumes "dict_inv hash keq d" and "a \<le> length (items d)"
  shows "\<exists>es. ud_release [a..<length (items d)] d = Inr es \<and> incs es = {#} \<and> decs es = held (drop a (items d))"
  using assms(2)
proof (induction "length (items d) - a" arbitrary: a)
  case (Suc n)
  note len = dict_lengths [OF assms(1)]
  let ?e = "entries_of d ! a"
  have a: "a < length (items d)" "length (items d) = rl_len (rd_entries d)" using Suc.hyps(2) len by (simp_all add: items_def)
  then have upt: "[a..<length (items d)] = a # [Suc a..<length (items d)]" by (simp add: upt_conv_Cons)
  have "a + 1 \<le> rl_cap (rd_entries d)" using a dict_invD(1) [OF assms(1)] by (auto simp: rl_inv_def)
  then have f: "a + 1 < usize_lim" using rl_inv_fits [OF dict_invD(1) [OF assms(1)]] by blast
  have ptr: "rd_key_ptr_at a d = Inr (re_key_ptr ?e)" "rd_value_ptr_at a d = Inr (re_value_ptr ?e)"
    using a dict_invD(1) [OF assms(1)] by (simp_all add: rd_key_ptr_at_def rd_value_ptr_at_def)
  have "n = length (items d) - Suc a" using Suc.hyps(2) by simp
  then obtain es where es: "ud_release [Suc a..<length (items d)] d = Inr es" "incs es = {#}" "decs es = held (drop (Suc a) (items d))"
    using Suc.hyps(1) [of "Suc a"] a(1) by auto
  have "drop a (items d) = item_of ?e # drop (Suc a) (items d)"
    using a(1) by (simp add: Cons_nth_drop_Suc [symmetric] items_def)
  then show ?case unfolding upt using ptr f es by (simp add: fits_def item_of_def)
qed simp

lemma dict_life_cycle:
  assumes "dict_inv hash keq (d :: ('k, 'v) raw_dict)"
  shows "(\<exists>d0 :: ('k, 'v) raw_dict. rd_init = Inr d0 \<and> dict_inv hash keq d0 \<and> items d0 = []) \<and>
    rd_len d = length (items d) \<and>
    ud_key_at i d = (if i < length (items d) then Inr (fst (items d ! i), [Inc (Inl (fst (items d ! i)))]) else Inl IndexError) \<and>
    ud_value_at i d = (if i < length (items d) then Inr (snd (items d ! i), [Inc (Inr (snd (items d ! i)))]) else Inl IndexError) \<and>
    (\<exists>es. ud_del d = Inr es \<and> incs es = {#} \<and> decs es = held (items d))"
proof -
  note len = dict_lengths [OF assms] and inv = dict_invD(1) [OF assms]
  have n: "length (items d) = rl_len (rd_entries d)" using len by (simp add: items_def)
  have "items d ! i = item_of (entries_of d ! i)" if "i < rl_len (rd_entries d)" using that len by (simp add: items_def)
  then have "ud_key_at i d = (if i < length (items d) then Inr (fst (items d ! i), [Inc (Inl (fst (items d ! i)))]) else Inl IndexError)"
    "ud_value_at i d = (if i < length (items d) then Inr (snd (items d ! i), [Inc (Inr (snd (items d ! i)))]) else Inl IndexError)"
    using inv n by (auto simp: ud_key_at_def ud_value_at_def rd_len_def ul_len_def rd_key_ptr_at_def rd_value_ptr_at_def item_of_def)
  moreover have "\<exists>es. ud_del d = Inr es \<and> incs es = {#} \<and> decs es = held (items d)"
    using release_spec [OF assms, of 0] n by (simp add: ud_del_def rd_len_def ul_len_def)
  moreover have "rd_len d = length (items d)" using n by (simp add: rd_len_def ul_len_def)
  moreover have "\<exists>d0 :: ('k, 'v) raw_dict. rd_init = Inr d0 \<and> dict_inv hash keq d0 \<and> items d0 = []"
    using init_dict by blast
  ultimately show ?thesis by simp
qed

text \<open>
  C21. For keys whose equality is an equivalence that the hash respects, a dictionary is an association
  list in the order of insertion: \<^verbatim>\<open>d[k]\<close> and \<^verbatim>\<open>k in d\<close> look the key up, \<^verbatim>\<open>d[k] = v\<close> replaces
  the value in place or adds a new entry at the end, \<^verbatim>\<open>del d[k]\<close> removes the entry, and a missing key is
  a \<^verbatim>\<open>KeyError\<close>.  A new dictionary is empty; \<^verbatim>\<open>key_at\<close> and \<^verbatim>\<open>value_at\<close> enumerate the entries in the order
  of insertion; destroying a dictionary releases every key and value it holds, each exactly once.  No operation panics or leaves its buffers, collisions of hashes included, and the
  references held change by exactly what each operation takes and gives back.
\<close>

theorem dict_refines_map:
  assumes "hashed_key hash keq" and "dict_inv hash keq (d :: ('k, 'v) raw_dict)" and "dict_room d"
  shows "ud_getitem hash keq k d =
      (case a_lookup keq k (items d) of None \<Rightarrow> Inl KeyError | Some v \<Rightarrow> Inr (v, [Inc (Inr v)])) \<and>
    ud_contains hash keq k d = Inr (a_lookup keq k (items d) \<noteq> None) \<and>
    (\<exists>d' es. ud_setitem hash keq k v d = Inr (d', es) \<and> dict_inv hash keq d' \<and> items d' = a_store keq k v (items d) \<and>
      held (items d') + decs es = held (items d) + incs es) \<and>
    (if a_lookup keq k (items d) = None then ud_delitem hash keq k d = Inl KeyError
     else \<exists>d' es. ud_delitem hash keq k d = Inr (d', es) \<and> dict_inv hash keq d' \<and> items d' = a_remove keq k (items d) \<and>
       held (items d') + decs es = held (items d) + incs es) \<and>
    (\<exists>d0 :: ('k, 'v) raw_dict. rd_init = Inr d0 \<and> dict_inv hash keq d0 \<and> items d0 = []) \<and>
    rd_len d = length (items d) \<and>
    ud_key_at i d = (if i < length (items d) then Inr (fst (items d ! i), [Inc (Inl (fst (items d ! i)))]) else Inl IndexError) \<and>
    ud_value_at i d = (if i < length (items d) then Inr (snd (items d ! i), [Inc (Inr (snd (items d ! i)))]) else Inl IndexError) \<and>
    (\<exists>es. ud_del d = Inr es \<and> incs es = {#} \<and> decs es = held (items d))"
  using hashed_key.getitem_correct [OF assms(1,2)] hashed_key.setitem_correct [OF assms] hashed_key.delitem_correct [OF assms(1,2)]
    dict_life_cycle [OF assms(2)]
  by (intro conjI) blast+

theorem dict_refines_map_witness:
  "\<exists>d d' es. rd_init = Inr d \<and> ud_setitem fnv1a_hash (=) [97] (7::nat) d = Inr (d', es) \<and> items d' = [([97], 7)]"
proof -
  obtain d :: "(8 word list, nat) raw_dict" where d: "rd_init = Inr d" "dict_inv fnv1a_hash (=) d" "dict_room d" "items d = []"
    using init_dict by blast
  note r = dict_refines_map [OF str_key.hashed_key_axioms d(2,3), of "[97]" 7 0]
  have "a_lookup (=) [97] (items d) = None" "a_store (=) [97] 7 (items d) = [([97], 7)]" using d(4) by simp_all
  moreover from r [THEN conjunct2, THEN conjunct2, THEN conjunct1]
  obtain d' es where "ud_setitem fnv1a_hash (=) [97] 7 d = Inr (d', es)" "items d' = a_store (=) [97] 7 (items d)" by blast
  ultimately show ?thesis using d(1) by auto
qed

end
