(* ===== verification/Emit_Arith.thy ===== *)
theory Emit_Arith
  imports Mpy_Prelude "HOL-Library.Signed_Division"
begin

text \<open>
  Integer arithmetic: the opcode an arithmetic mode selects (\<^verbatim>\<open>src/arithmetic_mode.py\<close>,
  \<^verbatim>\<open>src/lowering_shared.py\<close>), and the C code the emitter writes for it (\<^verbatim>\<open>src/emitter_c.py\<close>), as
  a syntax tree of the emitted text.  The C that the emitter uses has a meaning here: integer
  promotions, the usual arithmetic conversions, and undefined behaviour (\<open>None\<close>).
\<close>

subsection \<open>The C integers\<close>

datatype ctype = CInt (c_signed: bool) (c_bits: nat)

definition t_min :: "ctype \<Rightarrow> int" where
  "t_min t = (if c_signed t then - (2 ^ (c_bits t - 1)) else 0)"

definition t_max :: "ctype \<Rightarrow> int" where
  "t_max t = (if c_signed t then 2 ^ (c_bits t - 1) - 1 else 2 ^ c_bits t - 1)"

definition in_range :: "ctype \<Rightarrow> int \<Rightarrow> bool" where
  "in_range t v \<longleftrightarrow> t_min t \<le> v \<and> v \<le> t_max t"

text \<open>Conversion to an integer type is modulo the width, two's complement.\<close>

definition convert :: "ctype \<Rightarrow> int \<Rightarrow> int" where
  "convert t v = (v - t_min t) mod 2 ^ c_bits t + t_min t"

abbreviation c_int :: ctype where "c_int \<equiv> CInt True 32"
abbreviation c_uintptr :: ctype where "c_uintptr \<equiv> CInt False 64"

text \<open>A type narrower than \<^verbatim>\<open>int\<close> is promoted to \<^verbatim>\<open>int\<close> in an expression.\<close>

definition promote :: "ctype \<Rightarrow> ctype" where
  "promote t = (if c_bits t < 32 then c_int else t)"

definition common_type :: "ctype \<Rightarrow> ctype \<Rightarrow> ctype" where
  "common_type t u =
     (let a = promote t; b = promote u in
      if c_signed a = c_signed b then (if c_bits b \<le> c_bits a then a else b)
      else if c_signed a then (if c_bits a \<le> c_bits b then b else a)
      else (if c_bits b \<le> c_bits a then a else b))"

subsection \<open>Expressions and statements\<close>

datatype c_op = CAdd | CSub | CMul | CDiv | CMod | CShl | CShr
datatype c_rel = CEq | CNe | CLt | CGt | CGe

datatype cexpr =
    EVar string
  | EConst ctype int
  | ECast ctype cexpr
  | EOp c_op cexpr cexpr
  | EInv cexpr
  | ERel c_rel cexpr cexpr
  | EAnd cexpr cexpr
  | EOr cexpr cexpr
  | ECond cexpr cexpr cexpr

type_synonym c_value = "ctype \<times> int"
type_synonym c_env = "string \<Rightarrow> c_value option"

text \<open>A signed result that does not fit is undefined; an unsigned one wraps.\<close>

definition arith_result :: "ctype \<Rightarrow> int \<Rightarrow> c_value option" where
  "arith_result t v =
     (if c_signed t then (if in_range t v then Some (t, v) else None) else Some (t, convert t v))"

fun eval_op :: "c_op \<Rightarrow> c_value \<Rightarrow> c_value \<Rightarrow> c_value option" where
  "eval_op CAdd (t, a) (u, b) =
     (let c = common_type t u in arith_result c (convert c a + convert c b))"
| "eval_op CSub (t, a) (u, b) =
     (let c = common_type t u in arith_result c (convert c a - convert c b))"
| "eval_op CMul (t, a) (u, b) =
     (let c = common_type t u in arith_result c (convert c a * convert c b))"
| "eval_op CDiv (t, a) (u, b) =
     (let c = common_type t u in
      if convert c b = 0 then None else arith_result c (convert c a sdiv convert c b))"
| "eval_op CMod (t, a) (u, b) =
     (let c = common_type t u in
      if convert c b = 0 \<or> \<not> (c_signed c \<longrightarrow> in_range c (convert c a sdiv convert c b)) then None
      else arith_result c (convert c a smod convert c b))"
| "eval_op CShl (t, a) (u, b) =
     (let c = promote t in
      if b < 0 \<or> int (c_bits c) \<le> b \<or> (c_signed c \<and> a < 0) then None
      else arith_result c (a * 2 ^ nat b))"
| "eval_op CShr (t, a) (u, b) =
     (let c = promote t in if b < 0 \<or> int (c_bits c) \<le> b then None else Some (c, a div 2 ^ nat b))"

fun rel_holds :: "c_rel \<Rightarrow> int \<Rightarrow> int \<Rightarrow> bool" where
  "rel_holds CEq a b = (a = b)"
| "rel_holds CNe a b = (a \<noteq> b)"
| "rel_holds CLt a b = (a < b)"
| "rel_holds CGt a b = (a > b)"
| "rel_holds CGe a b = (a \<ge> b)"

definition c_bool :: "bool \<Rightarrow> c_value" where
  "c_bool b = (c_int, if b then 1 else 0)"

fun type_of :: "c_env \<Rightarrow> cexpr \<Rightarrow> ctype option" where
  "type_of env (EVar x) = map_option fst (env x)"
| "type_of env (EConst t v) = Some t"
| "type_of env (ECast t e) = Some t"
| "type_of env (EOp f e1 e2) =
     (if f = CShl \<or> f = CShr then map_option promote (type_of env e1)
      else Option.bind (type_of env e1) (\<lambda>t. map_option (common_type t) (type_of env e2)))"
| "type_of env (EInv e) = map_option promote (type_of env e)"
| "type_of env (ERel r e1 e2) = Some c_int"
| "type_of env (EAnd e1 e2) = Some c_int"
| "type_of env (EOr e1 e2) = Some c_int"
| "type_of env (ECond e1 e2 e3) = Option.bind (type_of env e2) (\<lambda>t. map_option (common_type t) (type_of env e3))"

fun c_eval :: "c_env \<Rightarrow> cexpr \<Rightarrow> c_value option" where
  "c_eval env (EVar x) = env x"
| "c_eval env (EConst t v) = Some (t, v)"
| "c_eval env (ECast t e) = map_option (\<lambda>(_, v). (t, convert t v)) (c_eval env e)"
| "c_eval env (EOp f e1 e2) =
     Option.bind (c_eval env e1) (\<lambda>v1. Option.bind (c_eval env e2) (\<lambda>v2. eval_op f v1 v2))"
| "c_eval env (EInv e) =
     map_option (\<lambda>(t, v). (promote t, convert (promote t) (- convert (promote t) v - 1))) (c_eval env e)"
| "c_eval env (ERel r e1 e2) =
     Option.bind (c_eval env e1) (\<lambda>(t, a). Option.bind (c_eval env e2) (\<lambda>(u, b).
     let c = common_type t u in Some (c_bool (rel_holds r (convert c a) (convert c b)))))"
| "c_eval env (EAnd e1 e2) =
     Option.bind (c_eval env e1) (\<lambda>(_, a).
     if a = 0 then Some (c_bool False) else Option.bind (c_eval env e2) (\<lambda>(_, b). Some (c_bool (b \<noteq> 0))))"
| "c_eval env (EOr e1 e2) =
     Option.bind (c_eval env e1) (\<lambda>(_, a).
     if a \<noteq> 0 then Some (c_bool True) else Option.bind (c_eval env e2) (\<lambda>(_, b). Some (c_bool (b \<noteq> 0))))"
| "c_eval env (ECond e1 e2 e3) =
     Option.bind (c_eval env e1) (\<lambda>(_, a).
     Option.bind (type_of env e2) (\<lambda>t. Option.bind (type_of env e3) (\<lambda>u.
     map_option (\<lambda>(_, v). let c = common_type t u in (c, convert c v))
       (if a \<noteq> 0 then c_eval env e2 else c_eval env e3))))"

datatype arith_kind = KAdd | KSub | KMul

text \<open>
  \<open>SOverflow b k e1 e2 x\<close> is the call \<^verbatim>\<open>bool b = __metalpy_k_overflow( e1, e2, &x );\<close>.
\<close>

datatype cstmt =
    SDecl ctype string "cexpr option"
  | SSet string cexpr
  | SOverflow string arith_kind cexpr cexpr string
  | SIf cexpr "cstmt list" "cstmt list"

subsection \<open>The overflow functions\<close>

datatype c_compiler = GccClang | Msvc

fun exact :: "arith_kind \<Rightarrow> int \<Rightarrow> int \<Rightarrow> int" where
  "exact KAdd a b = a + b"
| "exact KSub a b = a - b"
| "exact KMul a b = a * b"

text \<open>
  GCC and Clang: \<^verbatim>\<open>__builtin_add_overflow\<close> and its siblings compute exactly, store the result
  converted, and report whether that changed it.
\<close>

definition builtin_overflow :: "arith_kind \<Rightarrow> ctype \<Rightarrow> int \<Rightarrow> int \<Rightarrow> bool \<times> int" where
  "builtin_overflow k t a b = (\<not> in_range t (exact k a b), convert t (exact k a b))"

text \<open>
  The hand-written functions for MSVC.  The narrow ones compute in 64 bits; the 64-bit ones inspect
  the wrapped result (the emitted C relies on signed arithmetic that wraps in \<^verbatim>\<open>cl.exe\<close>).
\<close>

abbreviation c_i64 :: ctype where "c_i64 \<equiv> CInt True 64"
abbreviation c_u64 :: ctype where "c_u64 \<equiv> CInt False 64"

definition sadd_overflow64 :: "int \<Rightarrow> int \<Rightarrow> bool \<times> int" where
  "sadd_overflow64 a b =
     (let r = convert c_i64 (a + b) in ((a > 0 \<and> b > 0 \<and> r < 0) \<or> (a < 0 \<and> b < 0 \<and> r > 0), r))"

definition uadd_overflow64 :: "int \<Rightarrow> int \<Rightarrow> bool \<times> int" where
  "uadd_overflow64 a b = (let r = convert c_u64 (a + b) in (r < a, r))"

definition ssub_overflow64 :: "int \<Rightarrow> int \<Rightarrow> bool \<times> int" where
  "ssub_overflow64 a b =
     (let r = convert c_i64 (a - b) in ((a \<ge> 0 \<and> b < 0 \<and> r < 0) \<or> (a < 0 \<and> b \<ge> 0 \<and> r > 0), r))"

definition usub_overflow64 :: "int \<Rightarrow> int \<Rightarrow> bool \<times> int" where
  "usub_overflow64 a b = (a < b, convert c_u64 (a - b))"

definition smul_overflow64 :: "int \<Rightarrow> int \<Rightarrow> bool \<times> int" where
  "smul_overflow64 a b =
     (let r = convert c_i64 (a * b) in
      if a = 0 \<or> b = 0 then (False, r)
      else
        (let a' = (if a < 0 then convert c_i64 (- a) else a);
             b' = (if a < 0 then convert c_i64 (- b) else b);
             d = (if b' < 0 then convert c_i64 (- b') else b') in
         (a' > t_max c_i64 sdiv d, r)))"

definition umul_overflow64 :: "int \<Rightarrow> int \<Rightarrow> bool \<times> int" where
  "umul_overflow64 a b =
     (let r = convert c_u64 (a * b) in if a = 0 then (False, r) else (r div a \<noteq> b, r))"

text \<open>The 8, 16 and 32-bit functions: signed and unsigned, and the unsigned subtraction.\<close>

definition narrow_overflow :: "arith_kind \<Rightarrow> ctype \<Rightarrow> int \<Rightarrow> int \<Rightarrow> bool \<times> int" where
  "narrow_overflow k t a b =
     (if \<not> c_signed t \<and> k = KSub then (a < b, convert t (a - b))
      else
        (let wide = convert (if c_signed t then c_i64 else c_u64) (exact k a b) in
         (if c_signed t then wide < t_min t \<or> wide > t_max t else wide > t_max t, convert t wide)))"

definition msvc_overflow :: "arith_kind \<Rightarrow> ctype \<Rightarrow> int \<Rightarrow> int \<Rightarrow> bool \<times> int" where
  "msvc_overflow k t a b =
     (if c_bits t = 64 then
        (case k of
           KAdd \<Rightarrow> if c_signed t then sadd_overflow64 a b else uadd_overflow64 a b
         | KSub \<Rightarrow> if c_signed t then ssub_overflow64 a b else usub_overflow64 a b
         | KMul \<Rightarrow> if c_signed t then smul_overflow64 a b else umul_overflow64 a b)
      else narrow_overflow k t a b)"

definition overflow_fn :: "c_compiler \<Rightarrow> arith_kind \<Rightarrow> ctype \<Rightarrow> int \<Rightarrow> int \<Rightarrow> bool \<times> int" where
  "overflow_fn cc k t a b =
     (case cc of GccClang \<Rightarrow> builtin_overflow k t a b
      | Msvc \<Rightarrow> msvc_overflow k t (convert t a) (convert t b))"

fun exec :: "c_compiler \<Rightarrow> c_env \<Rightarrow> cstmt \<Rightarrow> c_env option"
and execs :: "c_compiler \<Rightarrow> c_env \<Rightarrow> cstmt list \<Rightarrow> c_env option" where
  "exec cc env (SDecl t x None) = Some (env(x \<mapsto> (t, 0)))"
| "exec cc env (SDecl t x (Some e)) =
     map_option (\<lambda>(_, v). env(x \<mapsto> (t, convert t v))) (c_eval env e)"
| "exec cc env (SSet x e) =
     Option.bind (env x) (\<lambda>(t, _). map_option (\<lambda>(_, v). env(x \<mapsto> (t, convert t v))) (c_eval env e))"
| "exec cc env (SOverflow y k e1 e2 x) =
     Option.bind (env x) (\<lambda>(t, _). Option.bind (c_eval env e1) (\<lambda>(_, a). Option.bind (c_eval env e2) (\<lambda>(_, b).
     let (o', r) = overflow_fn cc k t a b in Some (env(y \<mapsto> c_bool o', x \<mapsto> (t, r))))))"
| "exec cc env (SIf e ss1 ss2) =
     Option.bind (c_eval env e) (\<lambda>(_, c). if c \<noteq> 0 then execs cc env ss1 else execs cc env ss2)"
| "execs cc env [] = Some env"
| "execs cc env (s # ss) = Option.bind (exec cc env s) (\<lambda>env'. execs cc env' ss)"

subsection \<open>Scalar stems\<close>

datatype int_stem = I8 | U8 | I16 | U16 | I32 | U32 | I64 | U64 | I128 | U128 | ISIZE | USIZE

definition wideint :: "c_compiler \<Rightarrow> ctype" where
  "wideint cc = CInt True (case cc of GccClang \<Rightarrow> 128 | Msvc \<Rightarrow> 64)"

definition wideuint :: "c_compiler \<Rightarrow> ctype" where
  "wideuint cc = CInt False (case cc of GccClang \<Rightarrow> 128 | Msvc \<Rightarrow> 64)"

fun SCALAR_C_TYPES :: "c_compiler \<Rightarrow> int_stem \<Rightarrow> ctype" where
  "SCALAR_C_TYPES cc I8 = CInt True 8"
| "SCALAR_C_TYPES cc U8 = CInt False 8"
| "SCALAR_C_TYPES cc I16 = CInt True 16"
| "SCALAR_C_TYPES cc U16 = CInt False 16"
| "SCALAR_C_TYPES cc I32 = CInt True 32"
| "SCALAR_C_TYPES cc U32 = CInt False 32"
| "SCALAR_C_TYPES cc I64 = CInt True 64"
| "SCALAR_C_TYPES cc U64 = CInt False 64"
| "SCALAR_C_TYPES cc I128 = wideint cc"
| "SCALAR_C_TYPES cc U128 = wideuint cc"
| "SCALAR_C_TYPES cc ISIZE = CInt True 64"
| "SCALAR_C_TYPES cc USIZE = CInt False 64"

fun SIGNED_TO_UNSIGNED :: "int_stem \<Rightarrow> int_stem option" where
  "SIGNED_TO_UNSIGNED I8 = Some U8"
| "SIGNED_TO_UNSIGNED I16 = Some U16"
| "SIGNED_TO_UNSIGNED I32 = Some U32"
| "SIGNED_TO_UNSIGNED I64 = Some U64"
| "SIGNED_TO_UNSIGNED I128 = Some U128"
| "SIGNED_TO_UNSIGNED ISIZE = Some USIZE"
| "SIGNED_TO_UNSIGNED _ = None"

definition is_unsigned_stem :: "int_stem \<Rightarrow> bool" where
  "is_unsigned_stem s \<longleftrightarrow> s \<in> {U8, U16, U32, U64, U128, USIZE}"

text \<open>The limit macros of \<^verbatim>\<open>stdint.h\<close> have the promoted type of their integer type.\<close>

fun SATURATE_LIMITS :: "int_stem \<Rightarrow> (cexpr \<times> cexpr) option" where
  "SATURATE_LIMITS I128 = None"
| "SATURATE_LIMITS U128 = None"
| "SATURATE_LIMITS s =
     (let t = SCALAR_C_TYPES GccClang s; m = EConst (promote t) (t_max t) in
      if c_signed t then Some (EConst (promote t) (t_min t), m) else Some (EConst c_int 0, m))"

text \<open>The 128-bit limits are written as bit patterns.\<close>

definition wide_top_bit :: "c_compiler \<Rightarrow> cexpr" where
  "wide_top_bit cc =
     EOp CShl (ECast (wideuint cc) (EConst c_int 1)) (EConst c_uintptr (int (c_bits (wideint cc)) - 1))"

definition int_min_max_bit_pattern :: "c_compiler \<Rightarrow> int_stem \<Rightarrow> cexpr \<times> cexpr" where
  "int_min_max_bit_pattern cc s =
     (case SATURATE_LIMITS s of
        Some lim \<Rightarrow> lim
      | None \<Rightarrow>
          if s = I128
          then (ECast (wideint cc) (wide_top_bit cc), ECast (wideint cc) (EOp CSub (wide_top_bit cc) (EConst c_int 1)))
          else (ECast (wideuint cc) (EConst c_int 0), EInv (ECast (wideuint cc) (EConst c_int 0))))"

subsection \<open>Opcodes\<close>

datatype opcode =
    AddWrap | AddCheck | AddSaturate | SubWrap | SubCheck | SubSaturate | MulWrap | MulCheck | MulSaturate
  | ShlWrap | ShlCheck | ShlSaturate | Div | Mod | DivWrap | DivSaturate | ModWrap | ModSaturate
  | BitAnd | BitOr | BitXor | Shr | Invert | NegWrap | NegCheck | NegSaturate | CastWrap | CastCheck | CastSaturate
  | ConvertCheck

fun checked_errors :: "opcode \<Rightarrow> string list" where
  "checked_errors Div = [''ZeroDivisionError'', ''OverflowError'']"
| "checked_errors Mod = [''ZeroDivisionError'', ''OverflowError'']"
| "checked_errors op =
     (if op \<in> {AddCheck, SubCheck, MulCheck, ShlCheck, NegCheck, CastCheck, ConvertCheck} then [''OverflowError'']
      else if op \<in> {DivWrap, DivSaturate, ModWrap, ModSaturate} then [''ZeroDivisionError''] else [])"

fun signed_only :: "opcode \<Rightarrow> string list" where
  "signed_only Div = [''OverflowError'']"
| "signed_only Mod = [''OverflowError'']"
| "signed_only op = []"

definition resolve_checked_error :: "opcode \<Rightarrow> bool \<Rightarrow> string list" where
  "resolve_checked_error op signed =
     filter (\<lambda>e. e \<notin> set (signed_only op) \<or> signed) (checked_errors op)"

datatype ast_binop = Add | Sub | Mult | LShift | FloorDiv | AstMod | AstBitAnd | AstBitOr | AstBitXor | RShift | OtherBinOp
datatype ast_unaryop = USub | AstInvert | OtherUnaryOp

text \<open>The mode of \<^verbatim>\<open>with compiler.panic_arithmetic(msg)\<close> carries the message a failed check panics with.\<close>

datatype arith_mode = ArithmeticChecked | ArithmeticWrap | ArithmeticSaturate | ArithmeticPanic "string option"

fun base_GetBinOp :: "ast_binop \<Rightarrow> opcode option" where
  "base_GetBinOp AstBitAnd = Some BitAnd"
| "base_GetBinOp AstBitOr = Some BitOr"
| "base_GetBinOp AstBitXor = Some BitXor"
| "base_GetBinOp RShift = Some Shr"
| "base_GetBinOp _ = None"

fun base_GetUnaryOp :: "ast_unaryop \<Rightarrow> opcode option" where
  "base_GetUnaryOp AstInvert = Some Invert"
| "base_GetUnaryOp _ = None"

definition Checked_GetBinOp :: "ast_binop \<Rightarrow> opcode option" where
  "Checked_GetBinOp op =
     (case op of Add \<Rightarrow> Some AddCheck | Sub \<Rightarrow> Some SubCheck | Mult \<Rightarrow> Some MulCheck | LShift \<Rightarrow> Some ShlCheck
      | FloorDiv \<Rightarrow> Some Div | AstMod \<Rightarrow> Some Mod | _ \<Rightarrow> base_GetBinOp op)"

definition Wrap_GetBinOp :: "ast_binop \<Rightarrow> opcode option" where
  "Wrap_GetBinOp op =
     (case op of Add \<Rightarrow> Some AddWrap | Sub \<Rightarrow> Some SubWrap | Mult \<Rightarrow> Some MulWrap | LShift \<Rightarrow> Some ShlWrap
      | FloorDiv \<Rightarrow> Some DivWrap | AstMod \<Rightarrow> Some ModWrap | _ \<Rightarrow> base_GetBinOp op)"

definition Saturate_GetBinOp :: "ast_binop \<Rightarrow> opcode option" where
  "Saturate_GetBinOp op =
     (case op of Add \<Rightarrow> Some AddSaturate | Sub \<Rightarrow> Some SubSaturate | Mult \<Rightarrow> Some MulSaturate
      | LShift \<Rightarrow> Some ShlSaturate | FloorDiv \<Rightarrow> Some DivSaturate | AstMod \<Rightarrow> Some ModSaturate
      | _ \<Rightarrow> base_GetBinOp op)"

fun GetBinOp :: "arith_mode \<Rightarrow> ast_binop \<Rightarrow> opcode option \<times> string option" where
  "GetBinOp ArithmeticChecked op = (Checked_GetBinOp op, None)"
| "GetBinOp ArithmeticWrap op = (Wrap_GetBinOp op, None)"
| "GetBinOp ArithmeticSaturate op = (Saturate_GetBinOp op, None)"
| "GetBinOp (ArithmeticPanic extra) op = (Checked_GetBinOp op, extra)"

fun GetUnaryOp :: "arith_mode \<Rightarrow> ast_unaryop \<Rightarrow> opcode option \<times> string option" where
  "GetUnaryOp ArithmeticChecked op = (if op = USub then Some NegCheck else base_GetUnaryOp op, None)"
| "GetUnaryOp ArithmeticWrap op = (if op = USub then Some NegWrap else base_GetUnaryOp op, None)"
| "GetUnaryOp ArithmeticSaturate op = (if op = USub then Some NegSaturate else base_GetUnaryOp op, None)"
| "GetUnaryOp (ArithmeticPanic extra) op = (if op = USub then Some NegCheck else base_GetUnaryOp op, extra)"

fun GetCast :: "arith_mode \<Rightarrow> opcode \<times> string option" where
  "GetCast ArithmeticChecked = (CastCheck, None)"
| "GetCast ArithmeticWrap = (CastWrap, None)"
| "GetCast ArithmeticSaturate = (CastSaturate, None)"
| "GetCast (ArithmeticPanic extra) = (CastCheck, extra)"

text \<open>\<^verbatim>\<open>_CHECKED_BINOP_OPCODES\<close>, the table behind the operators of the scalar classes.\<close>

fun CHECKED_BINOP_OPCODES :: "string \<Rightarrow> string \<Rightarrow> opcode option" where
  "CHECKED_BINOP_OPCODES kind mode =
     map_of
       [((''add'', ''checked''), AddCheck), ((''add'', ''wrapped''), AddWrap), ((''add'', ''saturated''), AddSaturate),
        ((''sub'', ''checked''), SubCheck), ((''sub'', ''wrapped''), SubWrap), ((''sub'', ''saturated''), SubSaturate),
        ((''mul'', ''checked''), MulCheck), ((''mul'', ''wrapped''), MulWrap), ((''mul'', ''saturated''), MulSaturate),
        ((''floordiv'', ''checked''), Div), ((''floordiv'', ''wrapped''), DivWrap), ((''floordiv'', ''saturated''), DivSaturate),
        ((''mod'', ''checked''), Mod), ((''mod'', ''wrapped''), ModWrap), ((''mod'', ''saturated''), ModSaturate),
        ((''shl'', ''checked''), ShlCheck), ((''shl'', ''wrapped''), ShlWrap), ((''shl'', ''saturated''), ShlSaturate)]
       (kind, mode)"

text \<open>
  \<^verbatim>\<open>_lower_scalar_cast\<close> on a run-time integer: only a narrowing conversion asks the mode.
\<close>

definition scalar_cast_opcode :: "arith_mode \<Rightarrow> int_stem \<Rightarrow> int_stem \<Rightarrow> opcode \<times> string option" where
  "scalar_cast_opcode mode target source =
     (if c_bits (SCALAR_C_TYPES GccClang target) \<ge> c_bits (SCALAR_C_TYPES GccClang source) then (CastWrap, None)
      else GetCast mode)"

subsection \<open>The emitted code\<close>

text \<open>
  The operands are the variables \<open>l\<close> and \<open>r\<close> (\<open>x\<close> for a unary operation), the destination is
  \<open>dest\<close>, or for an opcode that can fail the \<^verbatim>\<open>Result\<close> with the fields \<open>dest.tag\<close>, \<open>dest.ok\<close>
  and \<open>dest.err\<close>; \<open>dest.err.tag\<close> is the inner tag of a union of errors.
\<close>

abbreviation vl :: cexpr where "vl \<equiv> EVar ''l''"
abbreviation vr :: cexpr where "vr \<equiv> EVar ''r''"
abbreviation vx :: cexpr where "vx \<equiv> EVar ''x''"
abbreviation vtmp :: cexpr where "vtmp \<equiv> EVar ''__tmp''"
abbreviation voverflow :: cexpr where "voverflow \<equiv> EVar ''__overflow''"
abbreviation lit :: "int \<Rightarrow> cexpr" where "lit n \<equiv> EConst c_int n"

fun ARITH_SYMBOL :: "arith_kind \<Rightarrow> c_op" where
  "ARITH_SYMBOL KAdd = CAdd"
| "ARITH_SYMBOL KSub = CSub"
| "ARITH_SYMBOL KMul = CMul"

text \<open>A destination is an integer scalar or a pointer, whose value is an address.\<close>

datatype dest_type = IntT int_stem | PtrT

fun c_type :: "c_compiler \<Rightarrow> dest_type \<Rightarrow> ctype" where
  "c_type cc (IntT s) = SCALAR_C_TYPES cc s"
| "c_type cc PtrT = c_uintptr"

fun emit_wrap_arith :: "c_compiler \<Rightarrow> arith_kind \<Rightarrow> dest_type \<Rightarrow> cstmt list" where
  "emit_wrap_arith cc k PtrT =
     [SSet ''dest'' (ECast c_uintptr (EOp (ARITH_SYMBOL k) (ECast c_uintptr vl) (ECast c_uintptr vr)))]"
| "emit_wrap_arith cc k (IntT s) =
     (case SIGNED_TO_UNSIGNED s of
        Some us \<Rightarrow>
          (let u = SCALAR_C_TYPES cc us in
           [SSet ''dest'' (ECast (SCALAR_C_TYPES cc s) (EOp (ARITH_SYMBOL k) (ECast u vl) (ECast u vr)))])
      | None \<Rightarrow> [SSet ''dest'' (EOp (ARITH_SYMBOL k) vl vr)])"

text \<open>The block that turns \<^verbatim>\<open>__overflow\<close> and \<^verbatim>\<open>__tmp\<close> into a \<^verbatim>\<open>Result\<close>.\<close>

definition set_overflow_result :: "cexpr \<Rightarrow> cstmt" where
  "set_overflow_result ok =
     SIf voverflow [SSet ''dest.tag'' (lit 1), SSet ''dest.err'' (lit 0)] [SSet ''dest.tag'' (lit 0), SSet ''dest.ok'' ok]"

fun emit_check_arith :: "c_compiler \<Rightarrow> arith_kind \<Rightarrow> dest_type \<Rightarrow> cstmt list option" where
  "emit_check_arith cc k PtrT =
     (if k = KMul then None
      else Some [SDecl c_uintptr ''__tmp'' None,
                 SOverflow ''__overflow'' k (ECast c_uintptr vl) (ECast c_uintptr vr) ''__tmp'',
                 set_overflow_result (ECast c_uintptr vtmp)])"
| "emit_check_arith cc k (IntT s) =
     Some [SDecl (SCALAR_C_TYPES cc s) ''__tmp'' None, SOverflow ''__overflow'' k vl vr ''__tmp'', set_overflow_result vtmp]"

definition emit_saturate_arith :: "c_compiler \<Rightarrow> arith_kind \<Rightarrow> int_stem \<Rightarrow> cstmt list" where
  "emit_saturate_arith cc k s =
     (let (min_c, max_c) = int_min_max_bit_pattern cc s;
          clamp =
            (if is_unsigned_stem s then (if k = KSub then min_c else max_c)
             else if k = KMul then ECond (ERel CEq (ERel CGe vl (lit 0)) (ERel CGe vr (lit 0))) max_c min_c
             else ECond (ERel CGe vl (lit 0)) max_c min_c) in
      [SDecl (SCALAR_C_TYPES cc s) ''__tmp'' None,
       SOverflow ''__overflow'' k vl vr ''__tmp'',
       SSet ''dest'' (ECond voverflow clamp vtmp)])"

fun index_of :: "string \<Rightarrow> string list \<Rightarrow> nat option" where
  "index_of x [] = None"
| "index_of x (y # ys) = (if x = y then Some 0 else map_option Suc (index_of x ys))"

text \<open>\<open>errs\<close> are the members of the error type of the \<^verbatim>\<open>Result\<close>, in the order of its union.\<close>

definition emit_set_result_err :: "string list \<Rightarrow> string \<Rightarrow> cstmt list option" where
  "emit_set_result_err errs e =
     (if length errs > 1
      then map_option (\<lambda>i. [SSet ''dest.tag'' (lit 1), SSet ''dest.err.tag'' (lit (int i)), SSet ''dest.err'' (lit 0)])
             (index_of e errs)
      else Some [SSet ''dest.tag'' (lit 1), SSet ''dest.err'' (lit 0)])"

definition emit_set_result_ok :: "cexpr \<Rightarrow> cstmt list" where
  "emit_set_result_ok e = [SSet ''dest.tag'' (lit 0), SSet ''dest.ok'' e]"

text \<open>
  \<^verbatim>\<open>_emit_int_division\<close>; the limits \<^verbatim>\<open>_signed_min_max\<close> of a signed stem are those of
  \<open>int_min_max_bit_pattern\<close>, which has the same expressions.
\<close>

definition emit_int_division :: "c_compiler \<Rightarrow> opcode \<Rightarrow> int_stem \<Rightarrow> string list \<Rightarrow> cstmt list option" where
  "emit_int_division cc op s errs =
     (let is_mod = op \<in> {Mod, ModWrap, ModSaturate}; checked = op \<in> {Div, Mod}; wrap = op \<in> {DivWrap, ModWrap};
          t = SCALAR_C_TYPES cc s; (min_c, max_c) = int_min_max_bit_pattern cc s;
          quotient = emit_set_result_ok (EOp (if is_mod then CMod else CDiv) vl vr) in
      Option.bind (emit_set_result_err errs ''ZeroDivisionError'') (\<lambda>zero.
      if SIGNED_TO_UNSIGNED s \<noteq> None then
        Option.bind
          (if checked then emit_set_result_err errs ''OverflowError''
           else Some (emit_set_result_ok (ECast t (if is_mod then lit 0 else if wrap then min_c else max_c)))) (\<lambda>edge.
        Some [SIf (ERel CEq vr (lit 0)) zero
               [SIf (EAnd (ERel CEq vl (ECast t min_c)) (ERel CEq vr (lit (-1)))) edge quotient]])
      else Some [SIf (ERel CEq vr (lit 0)) zero quotient]))"

definition shl_expr :: "c_compiler \<Rightarrow> int_stem \<Rightarrow> cexpr" where
  "shl_expr cc s =
     (case SIGNED_TO_UNSIGNED s of
        Some us \<Rightarrow> ECast (SCALAR_C_TYPES cc s) (EOp CShl (ECast (SCALAR_C_TYPES cc us) vl) vr)
      | None \<Rightarrow> EOp CShl vl vr)"

definition shl_overflow :: cexpr where
  "shl_overflow = ERel CNe (EOp CShr vtmp vr) vl"

definition emit_shl :: "c_compiler \<Rightarrow> opcode \<Rightarrow> int_stem \<Rightarrow> cstmt list" where
  "emit_shl cc op s =
     (let t = SCALAR_C_TYPES cc s in
      if op = ShlWrap then [SSet ''dest'' (shl_expr cc s)]
      else if op = ShlCheck then
        [SDecl t ''__tmp'' (Some (shl_expr cc s)), SDecl c_int ''__overflow'' (Some shl_overflow), set_overflow_result vtmp]
      else
        [SDecl t ''__tmp'' (Some (shl_expr cc s)), SDecl c_int ''__overflow'' (Some shl_overflow),
         SSet ''dest'' (ECond voverflow (snd (int_min_max_bit_pattern cc s)) vtmp)])"

definition emit_neg :: "c_compiler \<Rightarrow> opcode \<Rightarrow> int_stem \<Rightarrow> cstmt list" where
  "emit_neg cc op s =
     (let t = SCALAR_C_TYPES cc s in
      if op = NegWrap then
        (case SIGNED_TO_UNSIGNED s of
           Some us \<Rightarrow> (let u = SCALAR_C_TYPES cc us in [SSet ''dest'' (ECast t (EOp CSub (ECast u (lit 0)) (ECast u vx)))])
         | None \<Rightarrow> [SSet ''dest'' (lit 0)])
      else if op = NegSaturate then
        (if is_unsigned_stem s then [SSet ''dest'' (lit 0)]
         else
           [SDecl t ''__tmp'' None, SOverflow ''__overflow'' KSub (ECast t (lit 0)) vx ''__tmp'',
            SSet ''dest'' (ECond voverflow (snd (int_min_max_bit_pattern cc s)) vtmp)])
      else
        [SDecl t ''__tmp'' None, SOverflow ''__overflow'' KSub (ECast t (lit 0)) vx ''__tmp'', set_overflow_result vtmp])"

text \<open>Casts: the value is compared in the widest type of its own signedness.\<close>

definition wide_for :: "c_compiler \<Rightarrow> int_stem \<Rightarrow> ctype" where
  "wide_for cc source = (if is_unsigned_stem source then wideuint cc else wideint cc)"

definition cast_upper_bound :: "c_compiler \<Rightarrow> int_stem \<Rightarrow> int_stem \<Rightarrow> cexpr" where
  "cast_upper_bound cc target source =
     (let max_c = snd (int_min_max_bit_pattern cc target); w = EVar ''__wide'' in
      if \<not> is_unsigned_stem source \<and> target \<in> {U64, USIZE}
      then ERel CGt (ECast (wideuint cc) w) (ECast (wideuint cc) max_c)
      else ERel CGt w (ECast (wide_for cc source) max_c))"

definition cast_lower_bound :: "c_compiler \<Rightarrow> int_stem \<Rightarrow> int_stem \<Rightarrow> cexpr" where
  "cast_lower_bound cc target source =
     ERel CLt (EVar ''__wide'') (ECast (wide_for cc source) (fst (int_min_max_bit_pattern cc target)))"

text \<open>\<^verbatim>\<open>_emit_convert_check\<close>; the checked branch of \<^verbatim>\<open>_emit_cast\<close> is the same code.\<close>

definition emit_convert_check :: "c_compiler \<Rightarrow> int_stem \<Rightarrow> int_stem \<Rightarrow> cstmt list" where
  "emit_convert_check cc target source =
     (let t = SCALAR_C_TYPES cc target in
      if target = U128 \<and> source \<noteq> U128 then
        (if is_unsigned_stem source then emit_set_result_ok (ECast t vx)
         else [SDecl c_int ''__overflow'' (Some (ERel CLt vx (lit 0))), set_overflow_result (ECast t vx)])
      else
        [SDecl (wide_for cc source) ''__wide'' (Some (ECast (wide_for cc source) vx)),
         SDecl c_int ''__overflow''
           (Some (if is_unsigned_stem source then cast_upper_bound cc target source
                  else EOr (cast_lower_bound cc target source) (cast_upper_bound cc target source))),
         set_overflow_result (ECast t vx)])"

definition emit_cast :: "c_compiler \<Rightarrow> opcode \<Rightarrow> int_stem \<Rightarrow> int_stem \<Rightarrow> cstmt list" where
  "emit_cast cc op target source =
     (let t = SCALAR_C_TYPES cc target; (min_c, max_c) = int_min_max_bit_pattern cc target in
      if op = CastWrap then [SSet ''dest'' (ECast t vx)]
      else if op = CastCheck then emit_convert_check cc target source
      else if target = U128 \<and> source \<noteq> U128 then
        [SSet ''dest'' (if is_unsigned_stem source then ECast t vx else ECond (ERel CLt vx (lit 0)) min_c (ECast t vx))]
      else
        [SDecl (wide_for cc source) ''__wide'' (Some (ECast (wide_for cc source) vx)),
         SSet ''dest''
           (if is_unsigned_stem source then ECond (cast_upper_bound cc target source) max_c (ECast t vx)
            else ECond (cast_lower_bound cc target source) min_c (ECond (cast_upper_bound cc target source) max_c (ECast t vx)))])"

fun ARITH_BINOP_INFO :: "opcode \<Rightarrow> (arith_kind \<times> arith_mode) option" where
  "ARITH_BINOP_INFO AddWrap = Some (KAdd, ArithmeticWrap)"
| "ARITH_BINOP_INFO AddCheck = Some (KAdd, ArithmeticChecked)"
| "ARITH_BINOP_INFO AddSaturate = Some (KAdd, ArithmeticSaturate)"
| "ARITH_BINOP_INFO SubWrap = Some (KSub, ArithmeticWrap)"
| "ARITH_BINOP_INFO SubCheck = Some (KSub, ArithmeticChecked)"
| "ARITH_BINOP_INFO SubSaturate = Some (KSub, ArithmeticSaturate)"
| "ARITH_BINOP_INFO MulWrap = Some (KMul, ArithmeticWrap)"
| "ARITH_BINOP_INFO MulCheck = Some (KMul, ArithmeticChecked)"
| "ARITH_BINOP_INFO MulSaturate = Some (KMul, ArithmeticSaturate)"
| "ARITH_BINOP_INFO _ = None"

text \<open>The dispatch over the opcodes, for an integer destination.\<close>

definition emit_binop :: "c_compiler \<Rightarrow> opcode \<Rightarrow> int_stem \<Rightarrow> string list \<Rightarrow> cstmt list option" where
  "emit_binop cc op s errs =
     (case ARITH_BINOP_INFO op of
        Some (k, ArithmeticWrap) \<Rightarrow> Some (emit_wrap_arith cc k (IntT s))
      | Some (k, ArithmeticSaturate) \<Rightarrow> Some (emit_saturate_arith cc k s)
      | Some (k, _) \<Rightarrow> emit_check_arith cc k (IntT s)
      | None \<Rightarrow>
          if op \<in> {ShlWrap, ShlCheck, ShlSaturate} then Some (emit_shl cc op s)
          else if op \<in> {Div, Mod, DivWrap, DivSaturate, ModWrap, ModSaturate} then emit_int_division cc op s errs
          else None)"

text \<open>What the code computes: a value, or the error of the \<^verbatim>\<open>Result\<close>.\<close>

datatype outcome = Value int | Raised string

definition c_start :: "c_compiler \<Rightarrow> int_stem \<Rightarrow> int_stem \<Rightarrow> int \<Rightarrow> int \<Rightarrow> c_env" where
  "c_start cc target source a b =
     [''l'' \<mapsto> (SCALAR_C_TYPES cc source, a), ''r'' \<mapsto> (SCALAR_C_TYPES cc source, b), ''x'' \<mapsto> (SCALAR_C_TYPES cc source, a),
      ''dest'' \<mapsto> (SCALAR_C_TYPES cc target, 0), ''dest.tag'' \<mapsto> (c_int, 0), ''dest.ok'' \<mapsto> (SCALAR_C_TYPES cc target, 0),
      ''dest.err'' \<mapsto> (c_int, 0), ''dest.err.tag'' \<mapsto> (c_int, 0)]"

definition read_dest :: "c_env \<Rightarrow> outcome option" where
  "read_dest env = map_option (\<lambda>(_, v). Value v) (env ''dest'')"

definition read_result :: "string list \<Rightarrow> c_env \<Rightarrow> outcome option" where
  "read_result errs env =
     Option.bind (env ''dest.tag'') (\<lambda>(_, tag).
     if tag = 0 then map_option (\<lambda>(_, v). Value v) (env ''dest.ok'')
     else if length errs > 1 then map_option (\<lambda>(_, i). Raised (errs ! nat i)) (env ''dest.err.tag'')
     else Some (Raised (hd errs)))"

definition run_binop :: "c_compiler \<Rightarrow> opcode \<Rightarrow> int_stem \<Rightarrow> string list \<Rightarrow> int \<Rightarrow> int \<Rightarrow> outcome option" where
  "run_binop cc op s errs a b =
     Option.bind (emit_binop cc op s errs) (\<lambda>code.
     Option.bind (execs cc (c_start cc s s a b) code)
       (if checked_errors op = [] then read_dest else read_result errs))"

definition run_neg :: "c_compiler \<Rightarrow> opcode \<Rightarrow> int_stem \<Rightarrow> int \<Rightarrow> outcome option" where
  "run_neg cc op s a =
     Option.bind (execs cc (c_start cc s s a 0) (emit_neg cc op s))
       (if checked_errors op = [] then read_dest else read_result (checked_errors op))"

definition run_cast :: "c_compiler \<Rightarrow> opcode \<Rightarrow> int_stem \<Rightarrow> int_stem \<Rightarrow> int \<Rightarrow> outcome option" where
  "run_cast cc op target source a =
     Option.bind
       (execs cc (c_start cc target source a 0)
         (if op = ConvertCheck then emit_convert_check cc target source else emit_cast cc op target source))
       (if checked_errors op = [] then read_dest else read_result (checked_errors op))"

end
