(* ===== verification/Emit_Arith_Correct.thy ===== *)
theory Emit_Arith_Correct
  imports Emit_Arith
begin

text \<open>
  The emitted arithmetic does what its mode says: checked operations are exact or report the
  overflow, wrapping ones compute modulo the width, saturating ones clamp -- without undefined
  behaviour in the emitted C, except where the findings at the end say otherwise.
\<close>

subsection \<open>Ranges and conversion\<close>

lemma range_span: "0 < c_bits t \<Longrightarrow> t_max t = t_min t + 2 ^ c_bits t - 1"
  by (cases "c_bits t") (auto simp: t_min_def t_max_def)

lemma convert_id [simp]: "0 < c_bits t \<Longrightarrow> in_range t v \<Longrightarrow> convert t v = v"
  by (simp add: convert_def in_range_def range_span mod_pos_pos_trivial)

lemma convert_in_range [simp]: "0 < c_bits t \<Longrightarrow> in_range t (convert t v)"
proof -
  assume t: "0 < c_bits t"
  have "0 \<le> (v - t_min t) mod 2 ^ c_bits t" "(v - t_min t) mod 2 ^ c_bits t < 2 ^ c_bits t" by simp_all
  then show ?thesis by (simp add: convert_def in_range_def range_span [OF t])
qed

lemma convert_cong: "v mod 2 ^ c_bits t = w mod 2 ^ c_bits t \<Longrightarrow> convert t v = convert t w"
  unfolding convert_def by (metis mod_diff_left_eq)

lemma convert_mod: "convert u v mod 2 ^ c_bits u = v mod 2 ^ c_bits u"
  unfolding convert_def by (simp add: mod_simps)

lemma convert_convert [simp]: "c_bits u = c_bits t \<Longrightarrow> convert t (convert u v) = convert t v"
  by (rule convert_cong) (metis convert_mod)

lemma exact_mod: "a mod m = a' mod m \<Longrightarrow> b mod m = b' mod m \<Longrightarrow> exact k a b mod m = exact k a' b' mod m"
  by (cases k) (auto intro: mod_add_cong mod_diff_cong mod_mult_cong)

lemma convert_exact: "c_bits u = c_bits t \<Longrightarrow> convert t (exact k (convert u a) (convert u b)) = convert t (exact k a b)"
  by (intro convert_cong exact_mod) (metis convert_mod)+

lemma stem_bits: "0 < c_bits (SCALAR_C_TYPES cc s)" "c_bits (SCALAR_C_TYPES cc s) \<in> {8, 16, 32, 64, 128}"
  by (cases s; cases cc; simp add: wideint_def wideuint_def)+

lemma signed_stem: "SIGNED_TO_UNSIGNED s = Some us \<Longrightarrow>
    c_signed (SCALAR_C_TYPES cc s) \<and> SCALAR_C_TYPES cc us = CInt False (c_bits (SCALAR_C_TYPES cc s))"
  by (cases s) (auto simp: wideint_def wideuint_def)

lemma unsigned_stem: "SIGNED_TO_UNSIGNED s = None \<longleftrightarrow> \<not> c_signed (SCALAR_C_TYPES cc s)"
  by (cases s) (auto simp: wideint_def wideuint_def)

lemma is_unsigned_stem: "is_unsigned_stem s \<longleftrightarrow> \<not> c_signed (SCALAR_C_TYPES cc s)"
  by (cases s) (auto simp: is_unsigned_stem_def wideint_def wideuint_def)

lemma common_self [simp]: "common_type t t = promote t"
  by (simp add: common_type_def Let_def)

lemma eval_same:
  assumes "in_range u a" and "in_range u b" and "0 < c_bits u" and "\<not> c_signed u \<or> c_bits u < 32"
  shows "eval_op (ARITH_SYMBOL k) (u, a) (u, b) =
    (if c_bits u < 32 then (if in_range c_int (exact k a b) then Some (c_int, exact k a b) else None)
     else Some (u, convert u (exact k a b)))"
proof (cases "c_bits u < 32")
  case True
  have p: "promote u = c_int" using True by (simp add: promote_def)
  have "(2::int) ^ c_bits u \<le> 2 ^ 31" using True by (intro power_increasing) auto
  moreover have "(2::int) ^ (c_bits u - 1) \<le> 2 ^ 31" using True by (intro power_increasing) auto
  ultimately have "in_range c_int a" "in_range c_int b" using assms(1,2)
    by (auto simp: in_range_def t_min_def t_max_def split: if_splits)
  then show ?thesis using True p by (cases k) (simp_all add: Let_def arith_result_def)
next
  case False
  then show ?thesis using assms by (cases k) (simp_all add: Let_def arith_result_def promote_def)
qed

lemma range_abs:
  assumes "in_range u a"
  shows "\<bar>a\<bar> \<le> 2 ^ c_bits u"
proof (cases "c_signed u")
  case True
  have "(2::int) ^ (c_bits u - 1) \<le> 2 ^ c_bits u" by (intro power_increasing) auto
  moreover have "- (2 ^ (c_bits u - 1)) \<le> a" "a \<le> 2 ^ (c_bits u - 1) - 1"
    using assms True by (simp_all add: in_range_def t_min_def t_max_def)
  ultimately show ?thesis by linarith
next
  case False
  then show ?thesis using assms by (simp add: in_range_def t_min_def t_max_def)
qed

text \<open>Narrow operands do not overflow \<^verbatim>\<open>int\<close>, except in a 16-bit product.\<close>

lemma narrow_exact:
  assumes "in_range u a" and "in_range u b" and "c_bits u = 8 \<or> c_bits u = 16 \<and> k \<noteq> KMul"
  shows "in_range c_int (exact k a b)"
proof -
  have "\<bar>exact k a b\<bar> \<le> 2 ^ 17"
  proof (cases "c_bits u = 8")
    case True
    then have ab: "\<bar>a\<bar> \<le> 256" "\<bar>b\<bar> \<le> 256" using range_abs assms(1,2) by force+
    then have "\<bar>a * b\<bar> \<le> 256 * 256" unfolding abs_mult by (intro mult_mono) auto
    then show ?thesis using ab by (cases k) auto
  next
    case False
    then have "\<bar>a\<bar> \<le> 65536" "\<bar>b\<bar> \<le> 65536" "k \<noteq> KMul" using range_abs assms by force+
    then show ?thesis by (cases k) auto
  qed
  then show ?thesis by (auto simp: in_range_def t_min_def t_max_def)
qed

subsection \<open>Wrapping\<close>

text \<open>
  A wrapping product of 16 bits is computed on the operands as unsigned numbers, promoted to \<^verbatim>\<open>int\<close>; above
  \<^verbatim>\<open>INT_MAX\<close> this is undefined.
\<close>

definition mul16_overflows :: "arith_kind \<Rightarrow> ctype \<Rightarrow> int \<Rightarrow> int \<Rightarrow> bool" where
  "mul16_overflows k t a b \<longleftrightarrow> c_bits t = 16 \<and> k = KMul \<and> 2147483647 < (a mod 65536) * (b mod 65536)"

lemma mul16_iff:
  assumes "c_bits t = 16"
  shows "mul16_overflows k t a b \<longleftrightarrow> k = KMul \<and> \<not> in_range c_int (convert (CInt False 16) a * convert (CInt False 16) b)"
proof -
  have "0 \<le> (a mod 65536) * (b mod 65536)" by simp
  then have "- 2147483648 \<le> (a mod 65536) * (b mod 65536)" by linarith
  then show ?thesis using assms by (auto simp: mul16_overflows_def convert_def in_range_def t_min_def t_max_def)
qed

lemma wrap_operands:
  assumes "in_range (SCALAR_C_TYPES cc s) a" and "in_range (SCALAR_C_TYPES cc s) b"
  shows "Option.bind (execs cc (c_start cc s s a b) (emit_wrap_arith cc k (IntT s))) read_dest =
    (let u = CInt False (c_bits (SCALAR_C_TYPES cc s)) in
     map_option (\<lambda>w. Value (convert (SCALAR_C_TYPES cc s) (snd w))) (eval_op (ARITH_SYMBOL k) (u, convert u a) (u, convert u b)))"
proof (cases "SIGNED_TO_UNSIGNED s")
  case None
  let ?t = "SCALAR_C_TYPES cc s"
  have u: "CInt False (c_bits ?t) = ?t" using None unsigned_stem [of s cc] by (cases ?t) auto
  have c: "convert ?t a = a" "convert ?t b = b" using assms stem_bits(1) [of cc s] by simp_all
  show ?thesis unfolding u Let_def c
    using None by (cases "eval_op (ARITH_SYMBOL k) (?t, a) (?t, b)") (auto simp: c_start_def read_dest_def)
next
  case (Some us)
  let ?t = "SCALAR_C_TYPES cc s"
  let ?u = "CInt False (c_bits ?t)"
  have us: "SCALAR_C_TYPES cc us = ?u" using signed_stem [OF Some, of cc] by simp
  show ?thesis using Some us
    by (cases "eval_op (ARITH_SYMBOL k) (?u, convert ?u a) (?u, convert ?u b)") (auto simp: c_start_def read_dest_def Let_def)
qed

lemma wrap_code:
  assumes "in_range (SCALAR_C_TYPES cc s) a" and "in_range (SCALAR_C_TYPES cc s) b"
  shows "Option.bind (execs cc (c_start cc s s a b) (emit_wrap_arith cc k (IntT s))) read_dest =
    (if mul16_overflows k (SCALAR_C_TYPES cc s) a b then None
     else Some (Value (convert (SCALAR_C_TYPES cc s) (exact k a b))))"
proof -
  let ?t = "SCALAR_C_TYPES cc s"
  let ?u = "CInt False (c_bits ?t)"
  have pos: "0 < c_bits ?t" by (rule stem_bits)
  have ab: "in_range ?u (convert ?u a)" "in_range ?u (convert ?u b)" using pos by simp_all
  have ev: "eval_op (ARITH_SYMBOL k) (?u, convert ?u a) (?u, convert ?u b) =
    (if c_bits ?t < 32 then (if in_range c_int (exact k (convert ?u a) (convert ?u b)) then Some (c_int, exact k (convert ?u a) (convert ?u b)) else None)
     else Some (?u, convert ?u (exact k (convert ?u a) (convert ?u b))))"
    using eval_same [OF ab] pos by simp
  have ex: "convert ?t (exact k (convert ?u a) (convert ?u b)) = convert ?t (exact k a b)"
    using convert_exact [of ?u ?t k a b] by simp
  consider "c_bits ?t \<ge> 32" | "c_bits ?t = 16" "k = KMul" | "c_bits ?t < 32" "c_bits ?t = 8 \<or> c_bits ?t = 16 \<and> k \<noteq> KMul"
    using stem_bits(2) [of cc s] by force
  then show ?thesis
  proof cases
    case 1
    then have "convert ?t (convert ?u (exact k (convert ?u a) (convert ?u b))) = convert ?t (exact k (convert ?u a) (convert ?u b))"
      by simp
    then show ?thesis using 1 ev ex wrap_operands [OF assms, of k] by (simp add: mul16_overflows_def Let_def)
  next
    case 2
    then show ?thesis using ev ex wrap_operands [OF assms, of k] mul16_iff [OF 2(1), of k a b] by (simp add: Let_def)
  next
    case 3
    have "in_range c_int (exact k (convert ?u a) (convert ?u b))" using narrow_exact [OF ab] 3(2) by simp
    then show ?thesis using 3 ev ex wrap_operands [OF assms, of k] by (auto simp: mul16_overflows_def Let_def)
  qed
qed

subsection \<open>The overflow functions of the MSVC header\<close>

text \<open>The operands on which the signed 64-bit functions are right.\<close>

definition msvc_exact :: "arith_kind \<Rightarrow> ctype \<Rightarrow> int \<Rightarrow> int \<Rightarrow> bool" where
  "msvc_exact k t a b \<longleftrightarrow>
     t = c_i64 \<longrightarrow> (k = KAdd \<longrightarrow> \<not> (a = t_min t \<and> b = t_min t)) \<and>
       (k = KMul \<longrightarrow> a \<noteq> t_min t \<and> b \<noteq> t_min t \<and> a * b \<noteq> t_min t)"

lemma i64_simps: "in_range c_i64 v \<longleftrightarrow> - 9223372036854775808 \<le> v \<and> v \<le> 9223372036854775807"
  "in_range c_u64 v \<longleftrightarrow> 0 \<le> v \<and> v \<le> 18446744073709551615"
  "t_min c_i64 = - 9223372036854775808" "t_max c_i64 = 9223372036854775807"
  by (auto simp: in_range_def t_min_def t_max_def)

lemma convert_c_i64: "convert c_i64 v = (v + 9223372036854775808) mod 18446744073709551616 - 9223372036854775808"
  by (simp add: convert_def t_min_def)

lemma convert_c_u64: "convert c_u64 v = v mod 18446744073709551616"
  by (simp add: convert_def t_min_def)

lemma mod_once_over:
  assumes "m \<le> v" and "v < 2 * m"
  shows "v mod m = v - (m :: int)"
proof -
  have "(v - m + m) mod m = (v - m) mod m" by (rule mod_add_self2)
  moreover have "(v - m) mod m = v - m" using assms by (intro mod_pos_pos_trivial) auto
  ultimately show ?thesis by simp
qed

lemma mod_once_under:
  assumes "- m \<le> v" and "v < 0"
  shows "v mod m = v + (m :: int)"
proof -
  have "(v + m) mod m = v mod m" by (rule mod_add_self2)
  moreover have "(v + m) mod m = v + m" using assms by (intro mod_pos_pos_trivial) auto
  ultimately show ?thesis by simp
qed

lemma overflow64_linear:
  assumes "in_range c_i64 a" and "in_range c_i64 b"
  shows "\<not> (a = t_min c_i64 \<and> b = t_min c_i64) \<Longrightarrow> sadd_overflow64 a b = builtin_overflow KAdd c_i64 a b"
    and "ssub_overflow64 a b = builtin_overflow KSub c_i64 a b"
proof -
  let ?m = "18446744073709551616 :: int" and ?h = "9223372036854775808 :: int"
  have c: "convert c_i64 v = (if in_range c_i64 v then v else if v < 0 then v + ?m else v - ?m)"
    if "- ?m \<le> v" "v < ?m" for v
  proof -
    consider "in_range c_i64 v" | "v < - ?h" | "?h \<le> v" unfolding i64_simps by linarith
    then show ?thesis
    proof cases
      case 2
      then have "(v + ?h) mod ?m = v + ?h + ?m" using that by (intro mod_once_under) auto
      then show ?thesis using 2 by (simp add: convert_c_i64 i64_simps)
    next
      case 3
      then have "(v + ?h) mod ?m = v + ?h - ?m" using that by (intro mod_once_over) auto
      then show ?thesis using 3 by (simp add: convert_c_i64 i64_simps)
    qed simp
  qed
  show "sadd_overflow64 a b = builtin_overflow KAdd c_i64 a b" if "\<not> (a = t_min c_i64 \<and> b = t_min c_i64)"
    using assms c [of "a + b"] that by (auto simp: sadd_overflow64_def builtin_overflow_def Let_def i64_simps)
  show "ssub_overflow64 a b = builtin_overflow KSub c_i64 a b"
    using assms c [of "a - b"] by (auto simp: ssub_overflow64_def builtin_overflow_def Let_def i64_simps)
qed

lemma div_lt_iff:
  fixes a m d :: int
  assumes "0 < d"
  shows "m div d < a \<longleftrightarrow> m < a * d"
proof
  assume "m div d < a"
  then have "m div d + 1 \<le> a" by simp
  then have "(m div d + 1) * d \<le> a * d" using assms by (intro mult_right_mono) auto
  moreover have "m < (m div d + 1) * d"
    unfolding distrib_right mult_1 using div_mult_mod_eq [of m d] pos_mod_bound [OF assms, of m] by linarith
  ultimately show "m < a * d" by simp
next
  assume "m < a * d"
  show "m div d < a"
  proof (rule ccontr)
    assume "\<not> m div d < a"
    then have "a * d \<le> m div d * d" using assms by (intro mult_right_mono) auto
    moreover have "m div d * d \<le> m" using assms div_mult_mod_eq [of m d] pos_mod_sign [of d m] by linarith
    ultimately show False using \<open>m < a * d\<close> by linarith
  qed
qed

lemma smul_overflow64_exact:
  assumes "in_range c_i64 a" and "in_range c_i64 b" and "a \<noteq> t_min c_i64" "b \<noteq> t_min c_i64" "a * b \<noteq> t_min c_i64"
  shows "smul_overflow64 a b = builtin_overflow KMul c_i64 a b"
proof (cases "a = 0 \<or> b = 0")
  case True
  then show ?thesis by (auto simp: smul_overflow64_def builtin_overflow_def Let_def i64_simps)
next
  case False
  have neg: "convert c_i64 (- v) = - v" if "in_range c_i64 v" "v \<noteq> t_min c_i64" for v
    using that by (intro convert_id) (auto simp: i64_simps)
  let ?a = "if a < 0 then convert c_i64 (- a) else a" and ?b = "if a < 0 then convert c_i64 (- b) else b"
  have a: "?a = \<bar>a\<bar>" using neg [OF assms(1,3)] by simp
  have b: "?b = b \<or> ?b = - b" using neg [OF assms(2,4)] by simp
  then have "in_range c_i64 ?b" "?b \<noteq> t_min c_i64" using assms(2,4) by (auto simp: i64_simps)
  from neg [OF this] have d: "(if ?b < 0 then convert c_i64 (- ?b) else ?b) = \<bar>b\<bar>" using b by auto
  have "t_max c_i64 sdiv \<bar>b\<bar> = t_max c_i64 div \<bar>b\<bar>" using False by (simp add: signed_divide_int_def i64_simps)
  then have "(t_max c_i64 sdiv \<bar>b\<bar> < \<bar>a\<bar>) = (t_max c_i64 < \<bar>a\<bar> * \<bar>b\<bar>)"
    using div_lt_iff [of "\<bar>b\<bar>" "t_max c_i64" "\<bar>a\<bar>"] False by simp
  also have "\<dots> = (\<not> in_range c_i64 (a * b))"
    using assms(5) unfolding abs_mult [symmetric] i64_simps by linarith
  finally show ?thesis using False unfolding smul_overflow64_def builtin_overflow_def Let_def a d by simp
qed

lemma unsigned_overflow64:
  assumes "in_range c_u64 a" and "in_range c_u64 b"
  shows "uadd_overflow64 a b = builtin_overflow KAdd c_u64 a b" and "usub_overflow64 a b = builtin_overflow KSub c_u64 a b"
    and "umul_overflow64 a b = builtin_overflow KMul c_u64 a b"
proof -
  let ?m = "18446744073709551616 :: int"
  have r: "0 \<le> a" "a < ?m" "0 \<le> b" "b < ?m" using assms by (auto simp: i64_simps)
  have "(a + b) mod ?m = (if a + b < ?m then a + b else a + b - ?m)"
    using r mod_once_over [of ?m "a + b"] by (auto intro: mod_pos_pos_trivial)
  then show "uadd_overflow64 a b = builtin_overflow KAdd c_u64 a b"
    using r by (auto simp: uadd_overflow64_def builtin_overflow_def Let_def i64_simps convert_c_u64)
  show "usub_overflow64 a b = builtin_overflow KSub c_u64 a b"
    using r by (auto simp: usub_overflow64_def builtin_overflow_def i64_simps)
  show "umul_overflow64 a b = builtin_overflow KMul c_u64 a b"
  proof (cases "a = 0")
    case False
    have "(a * b) mod ?m div a \<noteq> b \<longleftrightarrow> ?m \<le> a * b"
    proof (cases "a * b < ?m")
      case True
      then have "(a * b) mod ?m = a * b" using r by (intro mod_pos_pos_trivial) auto
      then show ?thesis using False True by simp
    next
      case ovf: False
      have "(a * b) mod ?m < a * b" using ovf pos_mod_bound [of ?m "a * b"] by linarith
      then have "(a * b) mod ?m < b * a" by (simp add: mult.commute)
      then have "(a * b) mod ?m div a < b" using div_lt_iff [of a "(a * b) mod ?m" b] False r by simp
      then show ?thesis using ovf by simp
    qed
    moreover have "0 \<le> a * b" using r by simp
    ultimately show ?thesis using False
      by (auto simp: umul_overflow64_def builtin_overflow_def Let_def i64_simps convert_c_u64)
  qed (simp add: umul_overflow64_def builtin_overflow_def i64_simps)
qed

lemma narrow_overflow_exact:
  assumes "in_range t a" and "in_range t b" and "c_bits t \<in> {8, 16, 32}"
  shows "narrow_overflow k t a b = builtin_overflow k t a b"
proof -
  have bits: "(2::int) ^ c_bits t \<le> 2 ^ 32" "(2::int) ^ (c_bits t - 1) \<le> 2 ^ 31" using assms(3) by auto
  show ?thesis
  proof (cases "c_signed t")
    case True
    then have ab: "\<bar>a\<bar> \<le> 2147483648" "\<bar>b\<bar> \<le> 2147483648"
      using assms(1,2) bits(2) by (auto simp: in_range_def t_min_def t_max_def)
    then have "\<bar>a * b\<bar> \<le> 2147483648 * 2147483648" unfolding abs_mult by (intro mult_mono) auto
    then have "in_range c_i64 (exact k a b)" using ab by (cases k) (auto simp: i64_simps)
    then show ?thesis using True by (auto simp: narrow_overflow_def builtin_overflow_def Let_def in_range_def [of t])
  next
    case False
    then have ab: "0 \<le> a" "0 \<le> b" "a \<le> 4294967295" "b \<le> 4294967295"
      using assms(1,2) bits(1) by (auto simp: in_range_def t_min_def t_max_def)
    have "a * b \<le> 4294967295 * 4294967295" using ab by (intro mult_mono) auto
    moreover have "0 \<le> a * b" using ab by simp
    ultimately have w: "in_range c_u64 (exact k a b)" if "k \<noteq> KSub" using ab that by (cases k) (auto simp: i64_simps)
    have lo: "0 \<le> exact k a b" if "k \<noteq> KSub" using ab that by (cases k) auto
    have mn: "t_min t = 0" using False by (simp add: t_min_def)
    show ?thesis
    proof (cases "k = KSub")
      case True
      have "a - b \<le> t_max t" using ab assms(1) by (simp add: in_range_def)
      then show ?thesis using True False mn by (auto simp: narrow_overflow_def builtin_overflow_def in_range_def)
    next
      case False
      then show ?thesis using w lo mn \<open>\<not> c_signed t\<close>
        by (auto simp: narrow_overflow_def builtin_overflow_def Let_def in_range_def [of t])
    qed
  qed
qed

lemma overflow_fn_exact:
  fixes s cc defines "t \<equiv> SCALAR_C_TYPES cc s"
  assumes "in_range t a" and "in_range t b" and "cc = Msvc \<longrightarrow> msvc_exact k t a b"
  shows "overflow_fn cc k t a b = builtin_overflow k t a b"
proof (cases cc)
  case Msvc
  have pos: "0 < c_bits t" using stem_bits t_def by simp
  have ab: "convert t a = a" "convert t b = b" using assms(2,3) pos by simp_all
  show ?thesis
  proof (cases "c_bits t = 64")
    case True
    then have t: "t = c_i64 \<or> t = c_u64" by (cases t) auto
    then show ?thesis
    proof
      assume "t = c_i64"
      then show ?thesis
        using assms(2-4) Msvc ab overflow64_linear [of a b] smul_overflow64_exact [of a b]
        by (cases k) (simp_all add: overflow_fn_def msvc_overflow_def msvc_exact_def)
    next
      assume "t = c_u64"
      then show ?thesis
        using assms(2,3) Msvc ab unsigned_overflow64 [of a b] by (cases k) (simp_all add: overflow_fn_def msvc_overflow_def)
    qed
  next
    case False
    moreover have "c_bits t \<in> {8, 16, 32, 64}"
      using Msvc by (cases s) (simp_all add: t_def wideint_def wideuint_def)
    ultimately show ?thesis
      using narrow_overflow_exact [OF assms(2,3)] Msvc ab by (simp add: overflow_fn_def msvc_overflow_def)
  qed
qed (simp add: overflow_fn_def)

subsection \<open>Checked arithmetic\<close>

lemmas c_code = c_start_def read_dest_def read_result_def set_overflow_result_def Let_def c_bool_def

lemma check_code:
  assumes "overflow_fn cc k (SCALAR_C_TYPES cc s) a b = builtin_overflow k (SCALAR_C_TYPES cc s) a b"
    and "emit_check_arith cc k (IntT s) = Some code"
  shows "Option.bind (execs cc (c_start cc s s a b) code) (read_result [''OverflowError'']) =
    Some (if in_range (SCALAR_C_TYPES cc s) (exact k a b) then Value (exact k a b) else Raised ''OverflowError'')"
proof -
  have "0 < c_bits (SCALAR_C_TYPES cc s)" by (rule stem_bits)
  moreover have "0 < c_bits c_int" "in_range c_int 0" "in_range c_int 1" by (auto simp: in_range_def t_min_def t_max_def)
  ultimately show ?thesis using assms by (auto simp: c_code builtin_overflow_def)
qed

lemma limits_eval:
  assumes "int_min_max_bit_pattern cc s = (min_c, max_c)"
  shows "\<exists>t1 t2. c_eval env min_c = Some (t1, t_min (SCALAR_C_TYPES cc s)) \<and> type_of env min_c = Some t1 \<and>
     c_eval env max_c = Some (t2, t_max (SCALAR_C_TYPES cc s)) \<and> type_of env max_c = Some t2 \<and>
     in_range t1 (t_min (SCALAR_C_TYPES cc s)) \<and> in_range t2 (t_max (SCALAR_C_TYPES cc s)) \<and>
     t2 = promote (SCALAR_C_TYPES cc s) \<and> (t1 = t2 \<or> t1 = c_int \<and> t_min (SCALAR_C_TYPES cc s) = 0)"
  using assms
  by (cases s; cases cc)
    (auto simp: int_min_max_bit_pattern_def wide_top_bit_def wideint_def wideuint_def promote_def Let_def t_min_def t_max_def
      in_range_def arith_result_def convert_def common_type_def)

definition saturate :: "ctype \<Rightarrow> int \<Rightarrow> int" where
  "saturate t v = max (t_min t) (min (t_max t) v)"

lemma promote_range:
  assumes "0 < c_bits t" and "in_range t v"
  shows "in_range (promote t) v"
proof (cases "c_bits t < 32")
  case True
  have "(2::int) ^ c_bits t \<le> 2 ^ 31" using True by (intro power_increasing) auto
  moreover have "(2::int) ^ (c_bits t - 1) \<le> 2 ^ 31" using True by (intro power_increasing) auto
  ultimately show ?thesis using assms(2) True
    by (auto simp: promote_def in_range_def t_min_def t_max_def split: if_splits)
next
  case False
  then show ?thesis using assms(2) by (simp add: promote_def)
qed

lemma promote_promote [simp]: "promote (promote t) = promote t" "0 < c_bits (promote t) \<longleftrightarrow> 0 < c_bits t \<or> c_bits t = 0"
  by (auto simp: promote_def)

lemma common_limit: "t1 = promote t \<or> t1 = c_int \<and> \<not> c_signed t \<Longrightarrow> common_type t1 t = promote t"
  by (auto simp: common_type_def promote_def Let_def split: if_splits)

lemma common_int:
  assumes "c_signed t"
  shows "common_type t c_int = promote t" and "common_type c_int t = promote t"
  using assms by (cases t, auto simp: common_type_def promote_def Let_def)+

lemma sign_test:
  assumes "env x = Some (t, v)" and "c_signed t" and "0 < c_bits t" and "in_range t v"
  shows "c_eval env (ERel CGe (EVar x) (lit 0)) = Some (c_bool (v \<ge> 0))"
proof -
  have "in_range (promote t) 0" using assms(2,3) by (intro promote_range) (auto simp: in_range_def t_min_def t_max_def)
  then show ?thesis using assms promote_range [OF assms(3,4)] by (simp add: Let_def common_int)
qed

lemma select_dest:
  assumes "env ''dest'' = Some (t, d)" and "env ''__overflow'' = Some (c_bool ov)" and "env ''__tmp'' = Some (t, v)"
    and "c_eval env e = Some (t1, w)" and "type_of env e = Some t1" and "t1 = promote t \<or> t1 = c_int \<and> \<not> c_signed t"
    and "0 < c_bits t" and "in_range t v" and "in_range t w"
  shows "exec cc env (SSet ''dest'' (ECond voverflow e vtmp)) = Some (env(''dest'' \<mapsto> (t, if ov then w else v)))"
  using assms promote_range [of t v] promote_range [of t w] by (simp add: c_bool_def Let_def common_limit)

lemma clamp_eval:
  fixes cc s k
  defines "t \<equiv> SCALAR_C_TYPES cc s"
  assumes "env ''l'' = Some (t, a)" and "env ''r'' = Some (t, b)" and "in_range t a" and "in_range t b"
    and lim: "int_min_max_bit_pattern cc s = (min_c, max_c)"
    and e: "e = (if is_unsigned_stem s then (if k = KSub then min_c else max_c)
       else if k = KMul then ECond (ERel CEq (ERel CGe vl (lit 0)) (ERel CGe vr (lit 0))) max_c min_c
       else ECond (ERel CGe vl (lit 0)) max_c min_c)"
  shows "\<exists>t1. c_eval env e = Some (t1, if (if is_unsigned_stem s then k = KSub
        else if k = KMul then (a \<ge> 0) \<noteq> (b \<ge> 0) else a < 0) then t_min t else t_max t) \<and>
    type_of env e = Some t1 \<and> (t1 = promote t \<or> t1 = c_int \<and> \<not> c_signed t)"
proof -
  obtain t1 t2 where l: "c_eval env min_c = Some (t1, t_min t)" "type_of env min_c = Some t1"
    "c_eval env max_c = Some (t2, t_max t)" "type_of env max_c = Some t2" "in_range t1 (t_min t)" "in_range t2 (t_max t)"
    "t2 = promote t" "t1 = t2 \<or> t1 = c_int \<and> t_min t = 0"
    using limits_eval [OF lim, of env] unfolding t_def by blast
  have pos: "0 < c_bits t" using stem_bits t_def by simp
  show ?thesis
  proof (cases "c_signed t")
    case True
    then have t1: "t1 = promote t" using l(7,8) pos by (auto simp: t_min_def)
    have s: "\<not> is_unsigned_stem s" using True is_unsigned_stem [of s cc] by (simp add: t_def)
    have lr: "c_eval env (ERel CGe vl (lit 0)) = Some (c_bool (a \<ge> 0))" "c_eval env (ERel CGe vr (lit 0)) = Some (c_bool (b \<ge> 0))"
      using sign_test True pos assms(2-5) by blast+
    have p: "0 < c_bits (promote t)" using pos by simp
    have c01: "in_range c_int 0" "in_range c_int 1" by (auto simp: in_range_def t_min_def t_max_def)
    show ?thesis
      using e s lr l(1-6) t1 l(7) p c01 by (auto simp: c_bool_def Let_def promote_def [of c_int] simp del: c_eval.simps(6)
          simp: c_eval.simps(6) [of env CEq])
  next
    case False
    then have "is_unsigned_stem s" using is_unsigned_stem [of s cc] by (simp add: t_def)
    then show ?thesis using e l False by auto
  qed
qed

subsection \<open>Saturating arithmetic\<close>

lemma saturate_direction:
  assumes "in_range t a" and "in_range t b" and "0 < c_bits t" and "\<not> in_range t (exact k a b)"
  shows "saturate t (exact k a b) =
    (if (if \<not> c_signed t then k = KSub else if k = KMul then (a \<ge> 0) \<noteq> (b \<ge> 0) else a < 0) then t_min t else t_max t)"
proof -
  note r = assms(1,2) [unfolded in_range_def]
  have mm: "t_min t \<le> 0" "0 \<le> t_max t" "t_min t \<le> t_max t" by (auto simp: t_min_def t_max_def)
  have low: "saturate t v = t_min t" if "v < t_min t" for v using that mm by (simp add: saturate_def)
  have high: "saturate t v = t_max t" if "t_max t < v" for v using that mm by (simp add: saturate_def)
  have out: "exact k a b < t_min t \<or> t_max t < exact k a b" using assms(4) by (auto simp: in_range_def)
  show ?thesis
  proof (cases "c_signed t")
    case False
    then have "t_min t = 0" by (simp add: t_min_def)
    moreover from this have "\<not> a * b < 0" using r mult_nonneg_nonneg [of a b] by (simp add: not_less)
    ultimately have "if k = KSub then exact k a b < t_min t else t_max t < exact k a b"
      using r out by (cases k) auto
    then show ?thesis using False low high by (auto split: if_splits)
  next
    case True
    then have mx: "t_min t = - t_max t - 1" by (simp add: t_min_def t_max_def)
    have "if (if k = KMul then (a \<ge> 0) \<noteq> (b \<ge> 0) else a < 0) then exact k a b < t_min t else t_max t < exact k a b"
    proof (cases k)
      case KMul
      have o: "a * b < t_min t \<or> t_max t < a * b" using out KMul by simp
      show ?thesis
      proof (cases "(a \<ge> 0) = (b \<ge> 0)")
        case True
        then have "\<not> a * b < 0" by (auto simp: mult_less_0_iff)
        then show ?thesis using o mm True KMul by (simp; linarith)
      next
        case False
        then have "a * b \<le> 0" by (auto simp: mult_le_0_iff)
        then show ?thesis using o mm False KMul by (simp; linarith)
      qed
    qed (use r out mx in auto)
    then show ?thesis using True low high by (auto split: if_splits)
  qed
qed

lemma saturate_in_range [simp]: "0 < c_bits t \<Longrightarrow> in_range t (saturate t v)"
  by (auto simp: saturate_def in_range_def range_span)

lemma saturate_id: "in_range t v \<Longrightarrow> saturate t v = v"
  by (auto simp: saturate_def in_range_def)

lemma saturate_code:
  fixes cc s defines "t \<equiv> SCALAR_C_TYPES cc s"
  assumes "in_range t a" and "in_range t b" and "overflow_fn cc k t a b = builtin_overflow k t a b"
  shows "Option.bind (execs cc (c_start cc s s a b) (emit_saturate_arith cc k s)) read_dest = Some (Value (saturate t (exact k a b)))"
proof -
  have pos: "0 < c_bits t" using stem_bits t_def by simp
  obtain min_c max_c where lim: "int_min_max_bit_pattern cc s = (min_c, max_c)" by force
  define e where "e = (if is_unsigned_stem s then (if k = KSub then min_c else max_c)
       else if k = KMul then ECond (ERel CEq (ERel CGe vl (lit 0)) (ERel CGe vr (lit 0))) max_c min_c
       else ECond (ERel CGe vl (lit 0)) max_c min_c)"
  let ?ov = "\<not> in_range t (exact k a b)"
  define env where "env = ((c_start cc s s a b)(''__tmp'' \<mapsto> (t, 0)))(''__overflow'' \<mapsto> c_bool ?ov, ''__tmp'' \<mapsto> (t, convert t (exact k a b)))"
  have env: "env ''l'' = Some (t, a)" "env ''r'' = Some (t, b)" "env ''dest'' = Some (t, 0)" "env ''__overflow'' = Some (c_bool ?ov)"
    "env ''__tmp'' = Some (t, convert t (exact k a b))"
    by (simp_all add: env_def c_start_def t_def)
  let ?low = "if is_unsigned_stem s then k = KSub else if k = KMul then (a \<ge> 0) \<noteq> (b \<ge> 0) else a < 0"
  obtain t1 where c: "c_eval env e = Some (t1, if ?low then t_min t else t_max t)" "type_of env e = Some t1"
      "t1 = promote t \<or> t1 = c_int \<and> \<not> c_signed t"
    using clamp_eval [OF _ _ _ _ lim e_def, of env a b] env(1,2) assms(2,3) unfolding t_def by blast
  have w: "in_range t (if ?low then t_min t else t_max t)" using pos by (auto simp: in_range_def range_span)
  have code: "emit_saturate_arith cc k s = [SDecl t ''__tmp'' None, SOverflow ''__overflow'' k vl vr ''__tmp'', SSet ''dest'' (ECond voverflow e vtmp)]"
    by (simp add: emit_saturate_arith_def lim e_def t_def)
  have "execs cc (c_start cc s s a b) (emit_saturate_arith cc k s) =
      Option.bind (exec cc env (SSet ''dest'' (ECond voverflow e vtmp))) Some"
    unfolding code using assms(4) by (simp add: env_def c_start_def t_def builtin_overflow_def)
  also have "\<dots> = Some (env(''dest'' \<mapsto> (t, if ?ov then (if ?low then t_min t else t_max t) else convert t (exact k a b))))"
    using select_dest [OF env(3,4,5) c(1,2,3) pos _ w, of cc] pos by simp
  also have "(if ?ov then (if ?low then t_min t else t_max t) else convert t (exact k a b)) = saturate t (exact k a b)"
    using saturate_direction [OF assms(2,3) pos, of k] saturate_id [of t "exact k a b"] pos
    unfolding is_unsigned_stem [of s cc] t_def [symmetric] by (cases "in_range t (exact k a b)") simp_all
  finally show ?thesis by (simp add: read_dest_def)
qed

subsection \<open>Division\<close>

text \<open>Division truncates toward zero, as C does.\<close>

definition quot :: "opcode \<Rightarrow> int \<Rightarrow> int \<Rightarrow> int" where
  "quot op a b = (if op \<in> {Mod, ModWrap, ModSaturate} then a smod b else a sdiv b)"

definition division_result :: "opcode \<Rightarrow> ctype \<Rightarrow> int \<Rightarrow> int \<Rightarrow> outcome" where
  "division_result op t a b =
     (if b = 0 then Raised ''ZeroDivisionError''
      else if in_range t (a sdiv b) then Value (quot op a b)
      else if op \<in> {Div, Mod} then Raised ''OverflowError''
      else if op \<in> {ModWrap, ModSaturate} then Value 0
      else Value (if op = DivWrap then t_min t else t_max t))"

lemma sdiv_edge:
  assumes "in_range t a" and "in_range t b" and "b \<noteq> 0" and "0 < c_bits t"
  shows "in_range t (a sdiv b) \<longleftrightarrow> \<not> (c_signed t \<and> a = t_min t \<and> b = - 1)"
proof (cases "c_signed t \<and> b = - 1")
  case True
  then have "t_min t = - t_max t - 1" by (simp add: t_min_def t_max_def)
  then show ?thesis using True assms(1) by (auto simp: in_range_def)
next
  case False
  note r = assms(1,2) [unfolded in_range_def]
  have q: "- \<bar>a\<bar> \<le> a sdiv b" "a sdiv b \<le> \<bar>a\<bar>" using sdiv_int_range [of a b] by auto
  have "in_range t (a sdiv b)"
  proof (cases "c_signed t")
    case True
    then have mn: "t_min t = - t_max t - 1" by (simp add: t_min_def t_max_def)
    have ne: "a sdiv b \<noteq> - a" if "a < 0" using int_sdiv_negated_is_minus1 [of a b] that False True by auto
    show ?thesis unfolding in_range_def
    proof (cases "a < 0")
      case True
      show "t_min t \<le> a sdiv b \<and> a sdiv b \<le> t_max t" using ne [OF True] q r mn True by linarith
    next
      case False
      then show "t_min t \<le> a sdiv b \<and> a sdiv b \<le> t_max t" using q r mn by linarith
    qed
  next
    case unsigned: False
    then have "t_min t = 0" by (simp add: t_min_def)
    then have "0 \<le> a" "0 < b" using r assms(3) by auto
    moreover from this have "0 \<le> a sdiv b" by (simp add: signed_divide_int_def pos_imp_zdiv_nonneg_iff sgn_if)
    ultimately show ?thesis using q r \<open>t_min t = 0\<close> by (simp add: in_range_def)
  qed
  then show ?thesis using False by simp
qed

lemma smod_range:
  assumes "in_range t a" and "in_range t b" and "b \<noteq> 0"
  shows "in_range t (a smod b)"
proof -
  note r = assms(1,2) [unfolded in_range_def]
  have q: "- \<bar>b\<bar> + 1 \<le> a smod b" "a smod b \<le> \<bar>b\<bar> - 1" using smod_int_range [OF assms(3), of a] by auto
  show ?thesis
  proof (cases "c_signed t")
    case True
    then have "t_min t = - t_max t - 1" by (simp add: t_min_def t_max_def)
    then show ?thesis using q r by (auto simp: in_range_def)
  next
    case False
    then have "t_min t = 0" by (simp add: t_min_def)
    moreover from this have "0 \<le> a" "0 < b" using r assms(3) by auto
    moreover from this have "0 \<le> a smod b" by (rule smod_int_compares(2))
    ultimately show ?thesis using q r by (simp add: in_range_def)
  qed
qed

lemma index_of_nth: "index_of x xs = Some i \<Longrightarrow> i < length xs \<and> xs ! i = x"
  by (induction xs arbitrary: i) (auto split: if_splits)

lemma index_of_mem: "x \<in> set xs \<Longrightarrow> \<exists>i. index_of x xs = Some i"
  by (induction xs) auto

lemma set_err_some: "e \<in> set errs \<Longrightarrow> \<exists>code. emit_set_result_err errs e = Some code"
  by (cases "length errs > 1") (auto simp: emit_set_result_err_def dest!: index_of_mem)

text \<open>Setting the error of a \<^verbatim>\<open>Result\<close> and reading it back.\<close>

lemma set_err_read:
  assumes "emit_set_result_err errs e = Some code" and "e \<in> set errs" and "length errs \<le> 2"
    and "env ''dest.tag'' = Some (c_int, x)" and "env ''dest.err'' = Some (c_int, y)" and "env ''dest.err.tag'' = Some (c_int, z)"
  shows "Option.bind (execs cc env code) (read_result errs) = Some (Raised e)"
proof (cases "length errs > 1")
  case True
  obtain i where i: "index_of e errs = Some i" using index_of_mem [OF assms(2)] by blast
  have "i < 2" using index_of_nth [OF i] assms(3) by linarith
  then have ir: "in_range c_int 0" "in_range c_int 1" "in_range c_int (int i)" by (auto simp: in_range_def t_min_def t_max_def)
  show ?thesis using assms(1,4-6) True i index_of_nth [OF i] ir
    by (auto simp: emit_set_result_err_def read_result_def)
next
  case False
  then have "hd errs = e" using assms(2) by (cases errs) auto
  moreover have "in_range c_int 0" "in_range c_int 1" by (auto simp: in_range_def t_min_def t_max_def)
  ultimately show ?thesis using assms(1,4-6) False by (auto simp: emit_set_result_err_def read_result_def)
qed

lemma set_ok_read:
  assumes "c_eval env e = Some (t', v)" and "\<And>w. c_eval (env(''dest.tag'' \<mapsto> w)) e = c_eval env e" and "convert t v = w"
    and "env ''dest.tag'' = Some (c_int, x)" and "env ''dest.ok'' = Some (t, y)"
  shows "Option.bind (execs cc env (emit_set_result_ok e)) (read_result errs) = Some (Value w)"
proof -
  have "in_range c_int 0" by (auto simp: in_range_def t_min_def t_max_def)
  then show ?thesis using assms by (auto simp: emit_set_result_ok_def read_result_def)
qed

lemma common_c_int [simp]: "common_type t c_int = promote t" "common_type c_int t = promote t"
  by (cases t, auto simp: common_type_def promote_def Let_def)+

lemma eq_const_test:
  assumes "env x = Some (t, v)" and "0 < c_bits t" and "in_range t v" and "in_range t n"
  shows "c_eval env (ERel CEq (EVar x) (lit n)) = Some (c_bool (v = n))"
  using assms promote_range [OF assms(2,3)] promote_range [OF assms(2,4)] by (simp add: Let_def)

lemma quotient_eval:
  assumes "env ''l'' = Some (t, a)" and "env ''r'' = Some (t, b)" and "in_range t a" and "in_range t b" and "0 < c_bits t"
    and "b \<noteq> 0" and "in_range t (a sdiv b)"
  shows "c_eval env (EOp (if op \<in> {Mod, ModWrap, ModSaturate} then CMod else CDiv) vl vr) = Some (promote t, quot op a b)"
proof -
  have p: "in_range (promote t) a" "in_range (promote t) b" "in_range (promote t) (a sdiv b)" "in_range (promote t) (a smod b)"
    using assms smod_range [OF assms(3,4,6)] by (auto intro: promote_range)
  moreover have "0 < c_bits (promote t)" using assms(5) by simp
  ultimately show ?thesis using assms(1,2,6)
    by (auto simp: Let_def arith_result_def quot_def)
qed

lemma c_start_vars [simp]:
  "c_start cc g s a b ''l'' = Some (SCALAR_C_TYPES cc s, a)" "c_start cc g s a b ''r'' = Some (SCALAR_C_TYPES cc s, b)"
  "c_start cc g s a b ''x'' = Some (SCALAR_C_TYPES cc s, a)" "c_start cc g s a b ''dest'' = Some (SCALAR_C_TYPES cc g, 0)"
  "c_start cc g s a b ''dest.tag'' = Some (c_int, 0)" "c_start cc g s a b ''dest.ok'' = Some (SCALAR_C_TYPES cc g, 0)"
  "c_start cc g s a b ''dest.err'' = Some (c_int, 0)" "c_start cc g s a b ''dest.err.tag'' = Some (c_int, 0)"
  by (simp_all add: c_start_def)

lemma min_test:
  fixes cc s defines "t \<equiv> SCALAR_C_TYPES cc s"
  assumes lim: "int_min_max_bit_pattern cc s = (min_c, max_c)" and "in_range t a" and "in_range t b" and "c_signed t"
  shows "c_eval (c_start cc s s a b) (EAnd (ERel CEq vl (ECast t min_c)) (ERel CEq vr (lit (-1)))) =
    Some (c_bool (a = t_min t \<and> b = - 1))"
proof -
  let ?env = "c_start cc s s a b"
  have pos: "0 < c_bits t" using stem_bits t_def by simp
  have mn: "in_range t (t_min t)" using pos by (simp add: in_range_def range_span)
  obtain t1 where "c_eval ?env min_c = Some (t1, t_min t)" using limits_eval [OF lim, of ?env] unfolding t_def by blast
  then have l: "c_eval ?env (ERel CEq vl (ECast t min_c)) = Some (c_bool (a = t_min t))"
    using mn pos promote_range [OF pos assms(3)] promote_range [OF pos mn] by (simp add: Let_def t_def)
  have "(0::int) < 2 ^ (c_bits t - 1)" by simp
  then have "in_range t (- 1)" unfolding in_range_def t_min_def t_max_def if_P [OF assms(5)] by linarith
  then have r: "c_eval ?env (ERel CEq vr (lit (- 1))) = Some (c_bool (b = - 1))"
    by (intro eq_const_test) (use assms(4) pos t_def in auto)
  show ?thesis unfolding c_eval.simps(7) l r by (auto simp: c_bool_def)
qed

definition edge_result :: "opcode \<Rightarrow> ctype \<Rightarrow> outcome" where
  "edge_result op t =
     (if op \<in> {Div, Mod} then Raised ''OverflowError'' else if op \<in> {ModWrap, ModSaturate} then Value 0
      else Value (if op = DivWrap then t_min t else t_max t))"

lemma edge_code:
  fixes cc s defines "t \<equiv> SCALAR_C_TYPES cc s"
  assumes op: "op \<in> {Div, Mod, DivWrap, DivSaturate, ModWrap, ModSaturate}" and sg: "c_signed t"
    and errs: "distinct errs" "set errs = set (resolve_checked_error op (c_signed t))" and len: "length errs \<le> 2"
    and lim: "int_min_max_bit_pattern cc s = (min_c, max_c)"
  shows "\<exists>edge. (if op \<in> {Div, Mod} then emit_set_result_err errs ''OverflowError''
      else Some (emit_set_result_ok (ECast t (if op \<in> {Mod, ModWrap, ModSaturate} then lit 0
        else if op \<in> {DivWrap, ModWrap} then min_c else max_c)))) = Some edge \<and>
    Option.bind (execs cc (c_start cc s s a b) edge) (read_result errs) = Some (edge_result op t)"
proof (cases "op \<in> {Div, Mod}")
  case True
  then have mem: "''OverflowError'' \<in> set errs" unfolding errs(2) using sg by (auto simp: resolve_checked_error_def)
  obtain code where code: "emit_set_result_err errs ''OverflowError'' = Some code"
    using set_err_some [OF mem] by blast
  have "Option.bind (execs cc (c_start cc s s a b) code) (read_result errs) = Some (Raised ''OverflowError'')"
    by (rule set_err_read [OF code mem len]) simp_all
  then show ?thesis using True code by (simp add: edge_result_def)
next
  case False
  have pos: "0 < c_bits t" using stem_bits t_def by simp
  define e where "e = (if op \<in> {Mod, ModWrap, ModSaturate} then lit 0 else if op \<in> {DivWrap, ModWrap} then min_c else max_c)"
  define v where "v = (if op \<in> {ModWrap, ModSaturate} then 0 else if op = DivWrap then t_min t else t_max t)"
  have v: "in_range t v" using pos by (auto simp: v_def in_range_def range_span t_min_def)
  have ev: "\<exists>t1. c_eval env e = Some (t1, v)" for env
    using limits_eval [OF lim, of env] False op unfolding e_def v_def t_def by auto
  have ecast: "c_eval env (ECast t e) = Some (t, v)" for env
  proof -
    obtain t1 where "c_eval env e = Some (t1, v)" using ev by blast
    then show ?thesis using v pos by simp
  qed
  have "Option.bind (execs cc (c_start cc s s a b) (emit_set_result_ok (ECast t e))) (read_result errs) = Some (Value v)"
  proof (rule set_ok_read [OF ecast])
    show "c_eval ((c_start cc s s a b)(''dest.tag'' \<mapsto> w)) (ECast t e) = c_eval (c_start cc s s a b) (ECast t e)" for w
      by (simp only: ecast)
    show "convert t v = v" by (rule convert_id [OF pos v])
  qed (simp_all add: t_def)
  then show ?thesis using False op by (auto simp: e_def v_def edge_result_def)
qed

lemma division_code:
  fixes cc s defines "t \<equiv> SCALAR_C_TYPES cc s"
  assumes ab: "in_range t a" "in_range t b" and op: "op \<in> {Div, Mod, DivWrap, DivSaturate, ModWrap, ModSaturate}"
    and errs: "distinct errs" "set errs = set (resolve_checked_error op (c_signed t))"
  shows "\<exists>code. emit_int_division cc op s errs = Some code \<and>
    Option.bind (execs cc (c_start cc s s a b) code) (read_result errs) = Some (division_result op t a b)"
proof -
  let ?env = "c_start cc s s a b"
  have pos: "0 < c_bits t" using stem_bits t_def by simp
  have "length errs = card (set errs)" using errs(1) by (simp add: distinct_card)
  also have "\<dots> \<le> length (resolve_checked_error op (c_signed t))" unfolding errs(2) by (rule card_length)
  also have "\<dots> \<le> length (checked_errors op)" by (simp add: resolve_checked_error_def)
  also have "\<dots> \<le> 2" using op by auto
  finally have len: "length errs \<le> 2" .
  have zmem: "''ZeroDivisionError'' \<in> set errs" unfolding errs(2) using op by (auto simp: resolve_checked_error_def)
  obtain zero where zero: "emit_set_result_err errs ''ZeroDivisionError'' = Some zero"
    using set_err_some [OF zmem] by blast
  have zero_read: "Option.bind (execs cc ?env zero) (read_result errs) = Some (Raised ''ZeroDivisionError'')"
    by (rule set_err_read [OF zero zmem len]) simp_all
  let ?q = "emit_set_result_ok (EOp (if op \<in> {Mod, ModWrap, ModSaturate} then CMod else CDiv) vl vr)"
  have quot_read: "Option.bind (execs cc ?env ?q) (read_result errs) = Some (Value (quot op a b))"
    if "b \<noteq> 0" "in_range t (a sdiv b)"
  proof (rule set_ok_read)
    show "c_eval ?env (EOp (if op \<in> {Mod, ModWrap, ModSaturate} then CMod else CDiv) vl vr) = Some (promote t, quot op a b)"
      by (rule quotient_eval) (use ab pos that t_def in auto)
    show "convert t (quot op a b) = quot op a b" using ab that pos smod_range [OF ab that(1)] by (simp add: quot_def)
  qed (simp_all add: t_def)
  have z: "c_eval ?env (ERel CEq vr (lit 0)) = Some (c_bool (b = 0))"
    by (rule eq_const_test) (use ab pos in \<open>auto simp: t_def in_range_def t_min_def t_max_def\<close>)
  show ?thesis
  proof (cases "SIGNED_TO_UNSIGNED s")
    case None
    then have u: "\<not> c_signed t" using unsigned_stem [of s cc] by (simp add: t_def)
    obtain min_c max_c where lim: "int_min_max_bit_pattern cc s = (min_c, max_c)" by force
    have code: "emit_int_division cc op s errs = Some [SIf (ERel CEq vr (lit 0)) zero ?q]"
      using None zero lim by (simp add: emit_int_division_def Let_def)
    show ?thesis
    proof (cases "b = 0")
      case True
      then show ?thesis using code z zero_read by (simp add: c_bool_def division_result_def bind_assoc)
    next
      case False
      then have "in_range t (a sdiv b)" using sdiv_edge [OF ab False pos] u by simp
      then show ?thesis using code z quot_read False by (simp add: c_bool_def division_result_def)
    qed
  next
    case (Some us)
    then have sg: "c_signed t" using signed_stem [OF Some, of cc] by (simp add: t_def)
    obtain min_c max_c where lim: "int_min_max_bit_pattern cc s = (min_c, max_c)" by force
    let ?min = "ECast t min_c"
    let ?inline = "ECast t (if op \<in> {Mod, ModWrap, ModSaturate} then lit 0 else if op \<in> {DivWrap, ModWrap} then min_c else max_c)"
    obtain edge where edge: "(if op \<in> {Div, Mod} then emit_set_result_err errs ''OverflowError'' else Some (emit_set_result_ok ?inline)) = Some edge"
      "Option.bind (execs cc ?env edge) (read_result errs) = Some (edge_result op t)"
      using edge_code [OF op sg [unfolded t_def] errs(1) errs(2) [unfolded t_def] len lim, of a b] unfolding t_def by blast
    have code: "emit_int_division cc op s errs =
        Some [SIf (ERel CEq vr (lit 0)) zero [SIf (EAnd (ERel CEq vl ?min) (ERel CEq vr (lit (-1)))) edge ?q]]"
      unfolding emit_int_division_def Let_def lim prod.case zero Option.bind.simps t_def [symmetric] edge(1) using Some by simp
    have m: "c_eval ?env (EAnd (ERel CEq vl ?min) (ERel CEq vr (lit (-1)))) = Some (c_bool (a = t_min t \<and> b = - 1))"
      using min_test [OF lim, of a b] ab sg unfolding t_def by simp
    consider "b = 0" | "b \<noteq> 0" "a = t_min t \<and> b = - 1" | "b \<noteq> 0" "\<not> (a = t_min t \<and> b = - 1)" by blast
    then show ?thesis
    proof cases
      case 1
      then show ?thesis using code z zero_read by (simp add: c_bool_def division_result_def)
    next
      case 2
      then have "\<not> in_range t (a sdiv b)" using sdiv_edge [OF ab 2(1) pos] sg by blast
      then have "division_result op t a b = edge_result op t" using 2(1) op by (auto simp: division_result_def edge_result_def)
      then show ?thesis using code z m edge(2) 2 by (simp add: c_bool_def)
    next
      case 3
      then have "in_range t (a sdiv b)" using sdiv_edge [OF ab 3(1) pos] by blast
      then show ?thesis using code z m quot_read [OF 3(1)] 3 by (simp add: c_bool_def division_result_def)
    qed
  qed
qed

end
