(* ===== verification/Emit_Cast_Correct.thy ===== *)
theory Emit_Cast_Correct
  imports Emit_Arith_Correct
begin

text \<open>
  Casts, conversions, negation and left shifts: the emitted C computes what the mode says.
\<close>

subsection \<open>Casts\<close>

lemma wide_range:
  assumes "in_range (SCALAR_C_TYPES cc s) a"
  shows "in_range (wide_for cc s) a"
  using assms
  by (cases s; cases cc) (auto simp: wide_for_def is_unsigned_stem_def wideint_def wideuint_def in_range_def t_min_def t_max_def)

lemma wide_props: "0 < c_bits (wide_for cc s)" "promote (wide_for cc s) = wide_for cc s" "0 < c_bits (wideuint cc)"
    "promote (wideuint cc) = wideuint cc"
  by (cases cc; simp add: wide_for_def wideint_def wideuint_def promote_def)+

lemma limit_in_wide:
  shows "is_unsigned_stem source \<Longrightarrow> in_range (wide_for cc source) (t_max (SCALAR_C_TYPES cc target))"
    and "\<not> is_unsigned_stem source \<Longrightarrow> target \<notin> {U64, USIZE, U128} \<Longrightarrow> in_range (wide_for cc source) (t_max (SCALAR_C_TYPES cc target))"
    and "\<not> is_unsigned_stem source \<Longrightarrow> in_range (wide_for cc source) (t_min (SCALAR_C_TYPES cc target))"
    and "in_range (wideuint cc) (t_max (SCALAR_C_TYPES cc target))"
    and "\<not> is_unsigned_stem source \<Longrightarrow> 0 \<le> a \<Longrightarrow> in_range (wide_for cc source) a \<Longrightarrow> in_range (wideuint cc) a"
  by (cases target; cases cc; auto simp: wide_for_def wideint_def wideuint_def in_range_def t_min_def t_max_def)+

lemma upper_eval:
  assumes "env ''__wide'' = Some (wide_for cc source, a)" and "in_range (SCALAR_C_TYPES cc source) a"
    and "target = U128 \<longrightarrow> is_unsigned_stem source" and "is_unsigned_stem source \<or> 0 \<le> a"
  shows "c_eval env (cast_upper_bound cc target source) = Some (c_bool (t_max (SCALAR_C_TYPES cc target) < a))"
proof -
  obtain min_c max_c where lim: "int_min_max_bit_pattern cc target = (min_c, max_c)" by force
  then obtain t2 where mx: "c_eval env max_c = Some (t2, t_max (SCALAR_C_TYPES cc target))"
    using limits_eval [OF lim, of env] by blast
  note w = wide_range [OF assms(2)] wide_props
  show ?thesis
  proof (cases "\<not> is_unsigned_stem source \<and> target \<in> {U64, USIZE}")
    case True
    then have "in_range (wideuint cc) a" using limit_in_wide(5) assms(4) w(1) by blast
    then show ?thesis using True lim mx assms(1) w limit_in_wide(4)
      by (simp add: cast_upper_bound_def Let_def)
  next
    case False
    then have "in_range (wide_for cc source) (t_max (SCALAR_C_TYPES cc target))"
      using limit_in_wide(1,2) assms(3) by blast
    then show ?thesis using False lim mx assms(1) w by (auto simp: cast_upper_bound_def Let_def)
  qed
qed

lemma upper_eval_signed:
  assumes "env ''__wide'' = Some (wide_for cc source, a)" and "in_range (SCALAR_C_TYPES cc source) a"
    and "\<not> is_unsigned_stem source" and "target \<notin> {U64, USIZE, U128}"
  shows "c_eval env (cast_upper_bound cc target source) = Some (c_bool (t_max (SCALAR_C_TYPES cc target) < a))"
proof -
  obtain min_c max_c where lim: "int_min_max_bit_pattern cc target = (min_c, max_c)" by force
  then obtain t2 where mx: "c_eval env max_c = Some (t2, t_max (SCALAR_C_TYPES cc target))"
    using limits_eval [OF lim, of env] by blast
  show ?thesis using assms lim mx wide_range [OF assms(2)] wide_props limit_in_wide(2) [OF assms(3,4)]
    by (auto simp: cast_upper_bound_def Let_def)
qed

lemma lower_eval:
  assumes "env ''__wide'' = Some (wide_for cc source, a)" and "in_range (SCALAR_C_TYPES cc source) a" and "\<not> is_unsigned_stem source"
  shows "c_eval env (cast_lower_bound cc target source) = Some (c_bool (a < t_min (SCALAR_C_TYPES cc target)))"
proof -
  obtain min_c max_c where lim: "int_min_max_bit_pattern cc target = (min_c, max_c)" by force
  then obtain t1 where mn: "c_eval env min_c = Some (t1, t_min (SCALAR_C_TYPES cc target))"
    using limits_eval [OF lim, of env] by blast
  note w = wide_range [OF assms(2)] wide_props
  show ?thesis using lim mn assms(1) w limit_in_wide(3) [OF assms(3)]
    by (simp add: cast_lower_bound_def Let_def)
qed

text \<open>The whole test of a checked cast.\<close>

lemma cast_test:
  assumes "env ''__wide'' = Some (wide_for cc source, a)" and "in_range (SCALAR_C_TYPES cc source) a"
    and "target = U128 \<longrightarrow> is_unsigned_stem source"
  shows "c_eval env (if is_unsigned_stem source then cast_upper_bound cc target source
      else EOr (cast_lower_bound cc target source) (cast_upper_bound cc target source)) =
    Some (c_bool (\<not> in_range (SCALAR_C_TYPES cc target) a))"
proof (cases "is_unsigned_stem source")
  case True
  have "0 \<le> a" using assms(2) True is_unsigned_stem [of source cc] by (simp add: in_range_def t_min_def)
  moreover have "t_min (SCALAR_C_TYPES cc target) \<le> 0" by (simp add: t_min_def)
  ultimately show ?thesis using True upper_eval [where env = env, OF assms disjI1, OF True] by (auto simp: in_range_def not_le)
next
  case False
  show ?thesis
  proof (cases "a < t_min (SCALAR_C_TYPES cc target)")
    case True
    then show ?thesis using False lower_eval [where env = env and target = target, OF assms(1,2) False] by (auto simp: c_bool_def in_range_def)
  next
    case low: False
    show ?thesis
    proof (cases "0 \<le> a")
      case True
      then show ?thesis using False low lower_eval [where env = env and target = target, OF assms(1,2) False] upper_eval [where env = env, OF assms disjI2, OF True]
        by (auto simp: c_bool_def in_range_def)
    next
      case neg: False
      have sg: "c_signed (SCALAR_C_TYPES cc target)" using low neg by (auto simp: t_min_def split: if_splits)
      then have "target \<notin> {U64, USIZE, U128}" by (auto simp: wideuint_def)
      then have up: "c_eval env (cast_upper_bound cc target source) = Some (c_bool (t_max (SCALAR_C_TYPES cc target) < a))"
        using upper_eval_signed [where env = env, OF assms(1,2) False] by blast
      show ?thesis using False low lower_eval [where env = env and target = target, OF assms(1,2) False] up
        by (auto simp: c_bool_def in_range_def)
    qed
  qed
qed


lemma small_ints [simp]: "in_range c_int 0" "in_range c_int 1" "convert c_int 0 = 0" "convert c_int 1 = 1"
  by (auto simp: in_range_def t_min_def t_max_def)

text \<open>The block that turns the test into a \<^verbatim>\<open>Result\<close>.\<close>

lemma overflow_result_read:
  assumes "env ''__overflow'' = Some (c_bool ov)" and "env ''dest.tag'' = Some (c_int, x)"
    and "env ''dest.err'' = Some (c_int, y)" and "env ''dest.ok'' = Some (t, z)"
    and "\<And>w. c_eval (env(''dest.tag'' \<mapsto> w)) e = Some (t', v)"
  shows "Option.bind (execs cc env [set_overflow_result e]) (read_result [err]) =
    Some (if ov then Raised err else Value (convert t v))"
  using assms by (auto simp: set_overflow_result_def read_result_def c_bool_def)

lemma bool_decl: "c_eval env e = Some (c_bool b) \<Longrightarrow> exec cc env (SDecl c_int x (Some e)) = Some (env(x \<mapsto> c_bool b))"
  by (simp add: c_bool_def)

lemma negative_test:
  assumes "env x = Some (t, v)" and "0 < c_bits t" and "in_range t v" and "c_signed t"
  shows "c_eval env (ERel CLt (EVar x) (lit 0)) = Some (c_bool (v < 0))"
proof -
  have "in_range t 0" by (auto simp: in_range_def t_min_def t_max_def)
  then show ?thesis using assms promote_range [OF assms(2,3)] promote_range [OF assms(2), of 0] by (simp add: Let_def)
qed

lemma u128_range:
  assumes "in_range (SCALAR_C_TYPES cc source) a"
  shows "in_range (SCALAR_C_TYPES cc U128) a \<longleftrightarrow> 0 \<le> a"
  using assms by (cases source; cases cc) (auto simp: wideint_def wideuint_def in_range_def t_min_def t_max_def)

lemma convert_check_code:
  assumes a: "in_range (SCALAR_C_TYPES cc source) a"
  shows "Option.bind (execs cc (c_start cc target source a b) (emit_convert_check cc target source)) (read_result [''OverflowError'']) =
    Some (if in_range (SCALAR_C_TYPES cc target) a then Value a else Raised ''OverflowError'')"
proof -
  let ?t = "SCALAR_C_TYPES cc target" and ?s = "SCALAR_C_TYPES cc source" and ?env = "c_start cc target source a b"
  have pos: "0 < c_bits ?t" "0 < c_bits ?s" by (rule stem_bits)+
  have block: "Option.bind (execs cc (env(''__overflow'' \<mapsto> c_bool (\<not> in_range ?t a))) [set_overflow_result (ECast ?t vx)])
      (read_result [''OverflowError'']) = Some (if in_range ?t a then Value a else Raised ''OverflowError'')"
    if "env = ?env \<or> env = ?env(''__wide'' \<mapsto> w)" for env w
    using that pos by (subst overflow_result_read [where t = ?t and t' = ?t and v = "convert ?t a"]) (auto simp: convert_id)
  show ?thesis
  proof (cases "target = U128 \<and> source \<noteq> U128")
    case True
    show ?thesis
    proof (cases "is_unsigned_stem source")
      case un: True
      then have "in_range ?t a" using True u128_range [OF a] a is_unsigned_stem [of source cc] by (simp add: in_range_def t_min_def)
      moreover from this have "Option.bind (execs cc ?env (emit_set_result_ok (ECast ?t vx))) (read_result [''OverflowError'']) = Some (Value a)"
        by (intro set_ok_read [where t = ?t and t' = ?t and v = a]) (use pos in auto)
      ultimately show ?thesis using True un by (simp add: emit_convert_check_def Let_def)
    next
      case False
      then have "c_eval ?env (ERel CLt vx (lit 0)) = Some (c_bool (a < 0))"
        by (intro negative_test) (use a pos is_unsigned_stem [of source cc] in auto)
      also have "(a < 0) = (\<not> in_range ?t a)" using True u128_range [OF a] by auto
      finally show ?thesis using True False block [of ?env] bool_decl [of ?env "ERel CLt vx (lit 0)" _ cc "''__overflow''"]
        by (simp add: emit_convert_check_def Let_def)
    qed
  next
    case False
    let ?w = "wide_for cc source"
    let ?env' = "?env(''__wide'' \<mapsto> (?w, a))"
    have w: "convert ?w a = a" using wide_range [OF a] wide_props(1) by simp
    have "c_eval ?env' (if is_unsigned_stem source then cast_upper_bound cc target source
      else EOr (cast_lower_bound cc target source) (cast_upper_bound cc target source)) = Some (c_bool (\<not> in_range ?t a))"
      by (rule cast_test) (use a False in \<open>auto simp: is_unsigned_stem_def\<close>)
    note bool_decl [OF this, of cc "''__overflow''"]
    then show ?thesis using False w block [of ?env' "(?w, a)"]
      by (auto simp: emit_convert_check_def Let_def simp del: exec.simps(2)) (auto simp: w)
  qed
qed

lemma cond_eval:
  assumes "c_eval env c = Some (c_bool p)" and "type_of env e2 = Some t2" and "type_of env e3 = Some t3"
    and "common_type t2 t3 = u" and "0 < c_bits u"
    and "p \<Longrightarrow> c_eval env e2 = Some (t2', v) \<and> in_range u v"
    and "\<not> p \<Longrightarrow> c_eval env e3 = Some (t3', v) \<and> in_range u v"
  shows "c_eval env (ECond c e2 e3) = Some (u, v)"
  using assms by (cases p) (auto simp: c_bool_def Let_def)

lemma cast_saturate_eval:
  fixes cc target defines "t \<equiv> SCALAR_C_TYPES cc target"
  assumes env: "env ''__wide'' = Some (wide_for cc source, a)" "env ''x'' = Some (SCALAR_C_TYPES cc source, a)"
    and a: "in_range (SCALAR_C_TYPES cc source) a" and lim: "int_min_max_bit_pattern cc target = (min_c, max_c)"
    and u: "target = U128 \<longrightarrow> is_unsigned_stem source"
  shows "c_eval env (if is_unsigned_stem source then ECond (cast_upper_bound cc target source) max_c (ECast t vx)
     else ECond (cast_lower_bound cc target source) min_c (ECond (cast_upper_bound cc target source) max_c (ECast t vx))) =
     Some (promote t, saturate t a)"
proof -
  obtain t1 where l: "c_eval env min_c = Some (t1, t_min t)" "type_of env min_c = Some t1"
    "c_eval env max_c = Some (promote t, t_max t)" "type_of env max_c = Some (promote t)" "t1 = promote t \<or> t1 = c_int"
    using limits_eval [OF lim, of env] unfolding t_def by blast
  have pos: "0 < c_bits t" "0 < c_bits (promote t)" using stem_bits(1) [of cc target] unfolding t_def [symmetric] by simp_all
  have p: "in_range (promote t) (t_min t)" "in_range (promote t) (t_max t)" "in_range (promote t) (saturate t a)"
    using promote_range [OF pos(1), of "t_min t"] promote_range [OF pos(1), of "t_max t"]
      promote_range [OF pos(1) saturate_in_range [OF pos(1)], of a] range_span [OF pos(1)] by (auto simp: in_range_def)
  have ty: "common_type (promote t) t = promote t" "common_type t1 (promote t) = promote t"
    using l(5) common_limit [of "promote t" t] by auto
  have up: "c_eval env (ECond (cast_upper_bound cc target source) max_c (ECast t vx)) = Some (promote t, saturate t a)"
    if low: "t_min t \<le> a" and "c_eval env (cast_upper_bound cc target source) = Some (c_bool (t_max t < a))"
  proof (rule cond_eval [OF that(2) l(4) _ ty(1) pos(2)])
    show "c_eval env max_c = Some (promote t, saturate t a) \<and> in_range (promote t) (saturate t a)" if "t_max t < a"
      using that l(3) p low range_span [OF pos(1)] by (auto simp: saturate_def)
    show "c_eval env (ECast t vx) = Some (t, saturate t a) \<and> in_range (promote t) (saturate t a)" if "\<not> t_max t < a"
    proof -
      have "in_range t a" using that low by (simp add: in_range_def)
      then show ?thesis using env(2) pos p(3) by (simp add: saturate_id)
    qed
  qed simp
  show ?thesis
  proof (cases "is_unsigned_stem source")
    case True
    have "0 \<le> a" using a True is_unsigned_stem [of source cc] by (simp add: in_range_def t_min_def)
    moreover have "t_min t \<le> 0" by (simp add: t_min_def)
    ultimately have "t_min t \<le> a" by simp
    then show ?thesis using True up upper_eval [where env = env, OF env(1) a u disjI1, OF True] unfolding t_def by simp
  next
    case False
    have lo: "c_eval env (cast_lower_bound cc target source) = Some (c_bool (a < t_min t))"
      using lower_eval [where env = env, OF env(1) a False] unfolding t_def by blast
    have "c_eval env (ECond (cast_lower_bound cc target source) min_c (ECond (cast_upper_bound cc target source) max_c (ECast t vx))) =
        Some (promote t, saturate t a)"
    proof (rule cond_eval [OF lo l(2) _ _ pos(2)])
      show "type_of env (ECond (cast_upper_bound cc target source) max_c (ECast t vx)) = Some (promote t)" using l(4) ty by simp
      show "common_type t1 (promote t) = promote t" by (rule ty)
      show "c_eval env min_c = Some (t1, saturate t a) \<and> in_range (promote t) (saturate t a)" if "a < t_min t"
        using that l(1) p range_span [OF pos(1)] by (auto simp: saturate_def)
      show "c_eval env (ECond (cast_upper_bound cc target source) max_c (ECast t vx)) = Some (promote t, saturate t a) \<and>
          in_range (promote t) (saturate t a)" if low: "\<not> a < t_min t"
      proof (cases "0 \<le> a")
        case True
        show ?thesis using up low p(3) upper_eval [where env = env, OF env(1) a u disjI2, OF True] unfolding t_def by simp
      next
        case neg: False
        have "c_signed t" using low neg by (auto simp: t_min_def split: if_splits)
        then have "target \<notin> {U64, USIZE, U128}" by (auto simp: t_def wideuint_def)
        then show ?thesis using up low p(3) upper_eval_signed [where env = env, OF env(1) a False] unfolding t_def by simp
      qed
    qed
    then show ?thesis using False by simp
  qed
qed

lemma set_dest_read:
  assumes "env ''dest'' = Some (t, y)" and "c_eval env e = Some (t', v)"
  shows "Option.bind (execs cc env [SSet ''dest'' e]) read_dest = Some (Value (convert t v))"
  using assms by (simp add: read_dest_def)

lemma cast_saturate_code:
  assumes a: "in_range (SCALAR_C_TYPES cc source) a"
  shows "Option.bind (execs cc (c_start cc target source a b) (emit_cast cc CastSaturate target source)) read_dest =
    Some (Value (saturate (SCALAR_C_TYPES cc target) a))"
proof -
  let ?t = "SCALAR_C_TYPES cc target" and ?env = "c_start cc target source a b"
  obtain min_c max_c where lim: "int_min_max_bit_pattern cc target = (min_c, max_c)" by force
  have pos: "0 < c_bits ?t" "0 < c_bits (SCALAR_C_TYPES cc source)" by (rule stem_bits)+
  show ?thesis
  proof (cases "target = U128 \<and> source \<noteq> U128")
    case True
    have wu: "?t = wideuint cc" "promote ?t = ?t" using True wide_props by simp_all
    have t0: "t_min ?t = 0" using True by (simp add: t_min_def wideuint_def)
    show ?thesis
    proof (cases "is_unsigned_stem source")
      case un: True
      then have "0 \<le> a" using a is_unsigned_stem [of source cc] by (simp add: in_range_def t_min_def)
      then have "in_range ?t a" using u128_range [OF a] True by simp
      then show ?thesis using True un lim pos by (simp add: emit_cast_def Let_def read_dest_def saturate_id)
    next
      case False
      have test: "c_eval ?env (ERel CLt vx (lit 0)) = Some (c_bool (a < 0))"
        by (intro negative_test) (use a pos False is_unsigned_stem [of source cc] in auto)
      have mn: "c_eval ?env min_c = Some (?t, 0)" "type_of ?env min_c = Some ?t"
        using lim True by (auto simp: int_min_max_bit_pattern_def wideuint_def convert_def t_min_def)
      have s: "saturate ?t a = (if a < 0 then 0 else a)" "in_range ?t 0" "0 \<le> a \<Longrightarrow> in_range ?t a"
        using u128_range [OF a] True t0 pos(1) by (auto simp: saturate_def in_range_def range_span)
      have "c_eval ?env (ECond (ERel CLt vx (lit 0)) min_c (ECast ?t vx)) = Some (?t, saturate ?t a)"
        by (rule cond_eval [OF test mn(2), where ?t2'="?t" and ?t3'="?t"]) (use mn s pos wu in auto)
      from set_dest_read [OF _ this, of ?t 0 cc] show ?thesis using True False lim pos
        by (simp add: emit_cast_def Let_def)
    qed
  next
    case False
    let ?w = "wide_for cc source"
    let ?env' = "?env(''__wide'' \<mapsto> (?w, a))"
    have w: "convert ?w a = a" using wide_range [OF a] wide_props(1) by simp
    let ?e = "if is_unsigned_stem source then ECond (cast_upper_bound cc target source) max_c (ECast ?t vx)
     else ECond (cast_lower_bound cc target source) min_c (ECond (cast_upper_bound cc target source) max_c (ECast ?t vx))"
    have "c_eval ?env' ?e = Some (promote ?t, saturate ?t a)"
      by (rule cast_saturate_eval [OF _ _ a lim]) (use False in \<open>auto simp: is_unsigned_stem_def\<close>)
    then have "Option.bind (execs cc ?env' [SSet ''dest'' ?e]) read_dest = Some (Value (saturate ?t a))"
      using set_dest_read [of ?env' ?t 0 ?e "promote ?t" "saturate ?t a" cc] pos by simp
    moreover have "emit_cast cc CastSaturate target source = [SDecl ?w ''__wide'' (Some (ECast ?w vx)), SSet ''dest'' ?e]"
      unfolding emit_cast_def Let_def lim prod.case if_not_P [OF False] by simp
    moreover have "exec cc ?env (SDecl ?w ''__wide'' (Some (ECast ?w vx))) = Some ?env'" using w by simp
    ultimately show ?thesis by (simp only: execs.simps Option.bind.simps)
  qed
qed

lemma cast_wrap_code:
  "Option.bind (execs cc (c_start cc target source a b) (emit_cast cc CastWrap target source)) read_dest =
    Some (Value (convert (SCALAR_C_TYPES cc target) a))"
  by (cases "int_min_max_bit_pattern cc target") (simp add: emit_cast_def read_dest_def)

subsection \<open>Negation\<close>

lemma neg_wrap_code:
  assumes "c_signed (SCALAR_C_TYPES cc s)" and "in_range (SCALAR_C_TYPES cc s) a"
  shows "Option.bind (execs cc (c_start cc s s a b) (emit_neg cc NegWrap s)) read_dest =
    Some (Value (convert (SCALAR_C_TYPES cc s) (- a)))"
proof -
  let ?t = "SCALAR_C_TYPES cc s"
  let ?u = "CInt False (c_bits ?t)"
  have pos: "0 < c_bits ?t" by (rule stem_bits)
  obtain us where us: "SIGNED_TO_UNSIGNED s = Some us" using unsigned_stem [of s cc] assms(1) by auto
  have uc: "SCALAR_C_TYPES cc us = ?u" using signed_stem [OF us, of cc] by simp
  have r: "in_range ?u 0" "in_range ?u (convert ?u a)" using pos by (simp_all, simp add: in_range_def t_min_def t_max_def)
  have e: "convert ?u 0 = 0" using pos r(1) by simp
  have "\<exists>w. eval_op CSub (?u, 0) (?u, convert ?u a) = Some w \<and> convert ?t (snd w) = convert ?t (0 - convert ?u a)"
  proof (cases "c_bits ?t < 32")
    case True
    then have "c_bits ?u = 8 \<or> c_bits ?u = 16 \<and> KSub \<noteq> KMul" using stem_bits(2) [of cc s] by auto
    then show ?thesis using eval_same [OF r, of KSub] narrow_exact [OF r, of KSub] True pos by simp
  next
    case False
    then show ?thesis using eval_same [OF r, of KSub] pos by simp
  qed
  then obtain w where w: "eval_op CSub (?u, 0) (?u, convert ?u a) = Some w" "convert ?t (snd w) = convert ?t (0 - convert ?u a)" by blast
  have "convert ?t (0 - convert ?u a) = convert ?t (- a)"
    using convert_exact [of ?u ?t KSub 0 a] e by simp
  then show ?thesis using us uc w e by (cases w) (simp add: emit_neg_def Let_def read_dest_def)
qed

lemma neg_check_code:
  fixes cc s defines "t \<equiv> SCALAR_C_TYPES cc s"
  assumes "overflow_fn cc KSub t 0 a = builtin_overflow KSub t 0 a"
  shows "Option.bind (execs cc (c_start cc s s a b) (emit_neg cc NegCheck s)) (read_result [''OverflowError'']) =
    Some (if in_range t (- a) then Value (- a) else Raised ''OverflowError'')"
proof -
  have pos: "0 < c_bits t" and z: "in_range t 0" using stem_bits t_def by (simp_all add: in_range_def t_min_def t_max_def)
  show ?thesis using assms(2) pos z unfolding t_def
    by (auto simp: emit_neg_def c_code builtin_overflow_def)
qed

lemma neg_saturate_code:
  fixes cc s defines "t \<equiv> SCALAR_C_TYPES cc s"
  assumes a: "in_range t a" and "overflow_fn cc KSub t 0 a = builtin_overflow KSub t 0 a"
  shows "Option.bind (execs cc (c_start cc s s a b) (emit_neg cc NegSaturate s)) read_dest = Some (Value (saturate t (- a)))"
proof -
  have pos: "0 < c_bits t" and z: "in_range t 0" using stem_bits t_def by (simp_all add: in_range_def t_min_def t_max_def)
  show ?thesis
  proof (cases "c_signed t")
    case False
    then have "is_unsigned_stem s" using is_unsigned_stem [of s cc] t_def by simp
    moreover have "saturate t (- a) = 0" using a False range_span [OF pos] z by (auto simp: saturate_def in_range_def t_min_def)
    ultimately show ?thesis using pos z by (simp add: emit_neg_def Let_def read_dest_def t_def)
  next
    case True
    then have s: "\<not> is_unsigned_stem s" using is_unsigned_stem [of s cc] t_def by simp
    obtain min_c max_c where lim: "int_min_max_bit_pattern cc s = (min_c, max_c)" by force
    let ?ov = "\<not> in_range t (- a)"
    define env where "env = ((c_start cc s s a b)(''__tmp'' \<mapsto> (t, 0)))(''__overflow'' \<mapsto> c_bool ?ov, ''__tmp'' \<mapsto> (t, convert t (- a)))"
    have env: "env ''dest'' = Some (t, 0)" "env ''__overflow'' = Some (c_bool ?ov)" "env ''__tmp'' = Some (t, convert t (- a))"
      by (simp_all add: env_def t_def)
    have c: "c_eval env max_c = Some (promote t, t_max t)" "type_of env max_c = Some (promote t)"
      using limits_eval [OF lim, of env] unfolding t_def by auto
    have m: "in_range t (t_max t)" using range_span [OF pos] by (simp add: in_range_def)
    have "execs cc (c_start cc s s a b) (emit_neg cc NegSaturate s) =
        Option.bind (exec cc env (SSet ''dest'' (ECond voverflow max_c vtmp))) Some"
      using assms(3) s lim pos z unfolding t_def
      by (simp add: emit_neg_def Let_def builtin_overflow_def env_def t_def)
    also have "\<dots> = Some (env(''dest'' \<mapsto> (t, if ?ov then t_max t else convert t (- a))))"
      using select_dest [OF env c disjI1 [OF refl] pos _ m, of cc] pos by simp
    also have "(if ?ov then t_max t else convert t (- a)) = saturate t (- a)"
    proof (cases "in_range t (- a)")
      case True
      then show ?thesis using pos by (simp add: saturate_id)
    next
      case False
      have "t_min t = - t_max t - 1" using \<open>c_signed t\<close> by (simp add: t_min_def t_max_def)
      then show ?thesis using False a by (auto simp: saturate_def in_range_def)
    qed
    finally show ?thesis by (simp add: read_dest_def)
  qed
qed

subsection \<open>Left shifts\<close>

lemma shift_down_range:
  assumes "in_range t v"
  shows "in_range t (v div 2 ^ n)"
proof -
  have mm: "t_min t \<le> 0" "0 \<le> t_max t" by (auto simp: t_min_def t_max_def)
  have "0 \<le> v mod 2 ^ n" "v mod 2 ^ n < 2 ^ n" by simp_all
  with div_mult_mod_eq [of v "2 ^ n"] have v: "v div 2 ^ n * 2 ^ n \<le> v" "v < v div 2 ^ n * 2 ^ n + 2 ^ n" by linarith+
  have p: "(1::int) \<le> 2 ^ n" by simp
  show ?thesis
  proof (cases "0 \<le> v")
    case True
    have q: "0 \<le> v div 2 ^ n" using True by (simp add: pos_imp_zdiv_nonneg_iff)
    have "v div 2 ^ n * 1 \<le> v div 2 ^ n * 2 ^ n" using q p by (rule mult_left_mono [rotated])
    then show ?thesis using v q mm assms by (simp add: in_range_def)
  next
    case False
    have q: "v div 2 ^ n < 0" using False by (simp add: not_le div_neg_pos_less0)
    have "v < (v div 2 ^ n + 1) * 2 ^ n" using v(2) unfolding distrib_right mult_1 by simp
    moreover have "(v div 2 ^ n + 1) * 2 ^ n \<le> (v div 2 ^ n + 1) * 1" using q p by (intro mult_left_mono_neg) auto
    ultimately have "v \<le> v div 2 ^ n" by simp
    then show ?thesis using q mm assms by (simp add: in_range_def)
  qed
qed

text \<open>Shifting back recovers the operand exactly when nothing was shifted out.\<close>

lemma shift_back:
  assumes "0 < c_bits t" and "n \<le> c_bits t"
  shows "convert t (a * 2 ^ n) div 2 ^ n = a \<longleftrightarrow> in_range t (a * 2 ^ n)"
proof
  let ?v = "convert t (a * 2 ^ n)"
  have dvd: "(2::int) ^ n dvd 2 ^ c_bits t" using assms(2) by (rule le_imp_power_dvd)
  have "?v mod 2 ^ n = ?v mod 2 ^ c_bits t mod 2 ^ n" using dvd by (simp add: mod_mod_cancel)
  also have "\<dots> = (a * 2 ^ n) mod 2 ^ c_bits t mod 2 ^ n" by (simp only: convert_mod)
  also have "\<dots> = 0" using dvd by (simp add: mod_mod_cancel)
  finally have z: "?v mod 2 ^ n = 0" .
  assume "?v div 2 ^ n = a"
  then have "?v = a * 2 ^ n" using div_mult_mod_eq [of ?v "2 ^ n"] z by simp
  then show "in_range t (a * 2 ^ n)" using convert_in_range [OF assms(1)] by metis
next
  assume "in_range t (a * 2 ^ n)"
  then show "convert t (a * 2 ^ n) div 2 ^ n = a" using assms(1) by simp
qed

lemma shift_up_unsigned:
  assumes "in_range (CInt False w) a" and "n < w" and "w \<in> {8, 16, 32, 64, 128}"
  shows "\<exists>t' v. eval_op CShl (CInt False w, a) (u, int n) = Some (t', v) \<and> v mod 2 ^ w = (a * 2 ^ n) mod 2 ^ w"
proof -
  have a: "0 \<le> a" "a < 2 ^ w" using assms(1) by (auto simp: in_range_def t_min_def t_max_def)
  show ?thesis
  proof (cases "w < 32")
    case True
    have "(2::int) ^ n \<le> 2 ^ (w - 1)" using assms(2) by (intro power_increasing) auto
    then have "(2::int) ^ w * 2 ^ n \<le> 2 ^ w * 2 ^ (w - 1)" by (intro mult_left_mono) auto
    also have "\<dots> \<le> 2 ^ 31" using True assms(3) by auto
    finally have "(2::int) ^ w * 2 ^ n \<le> 2147483648" by simp
    moreover have "a * 2 ^ n < 2 ^ w * 2 ^ n" using a by (intro mult_strict_right_mono) auto
    moreover have "0 \<le> a * 2 ^ n" using a by simp
    ultimately have "0 \<le> a * 2 ^ n" "a * 2 ^ n < 2147483648" by linarith+
    then have "in_range c_int (a * 2 ^ n)" by (simp add: in_range_def t_min_def t_max_def)
    then show ?thesis using True a assms(2) by (simp add: promote_def Let_def arith_result_def)
  next
    case False
    then show ?thesis using a assms(2) convert_mod [of "CInt False w"] by (simp add: promote_def Let_def arith_result_def)
  qed
qed

lemma shl_eval:
  fixes cc s defines "t \<equiv> SCALAR_C_TYPES cc s"
  assumes "env ''l'' = Some (t, a)" and "env ''r'' = Some (t, int n)" and "in_range t a" and "n < c_bits t"
  shows "\<exists>t' v. c_eval env (shl_expr cc s) = Some (t', v) \<and> convert t v = convert t (a * 2 ^ n)"
proof -
  let ?u = "CInt False (c_bits t)"
  have bits: "0 < c_bits t" "c_bits t \<in> {8, 16, 32, 64, 128}" using stem_bits [of cc s] unfolding t_def by blast+
  show ?thesis
  proof (cases "SIGNED_TO_UNSIGNED s")
    case None
    then have "\<not> c_signed t" using unsigned_stem [of s cc] by (simp add: t_def)
    then have u: "t = ?u" by (metis ctype.collapse)
    have "in_range ?u a" using assms(4) u by metis
    from shift_up_unsigned [OF this assms(5) bits(2), of t] obtain t' v where
      "eval_op CShl (t, a) (t, int n) = Some (t', v)" "v mod 2 ^ c_bits t = (a * 2 ^ n) mod 2 ^ c_bits t" using u by metis
    then show ?thesis using None assms(2,3) by (auto simp: shl_expr_def intro: convert_cong)
  next
    case (Some us)
    have us: "SCALAR_C_TYPES cc us = ?u" using signed_stem [OF Some, of cc] by (simp add: t_def)
    have "in_range ?u (convert ?u a)" using bits by simp
    from shift_up_unsigned [OF this assms(5) bits(2), of t] obtain t' v where
      v: "eval_op CShl (?u, convert ?u a) (t, int n) = Some (t', v)"
        "v mod 2 ^ c_bits t = (convert ?u a * 2 ^ n) mod 2 ^ c_bits t" by blast
    have "convert ?u a mod 2 ^ c_bits t = a mod 2 ^ c_bits t" using convert_mod [of ?u a] by simp
    then have "v mod 2 ^ c_bits t = (a * 2 ^ n) mod 2 ^ c_bits t" unfolding v(2) by (rule mod_mult_cong) simp
    from convert_cong [OF this] show ?thesis using Some us assms(2,3) v(1) by (simp add: shl_expr_def t_def)
  qed
qed

lemma shl_test:
  assumes "env ''__tmp'' = Some (t, convert t (a * 2 ^ n))" and "env ''l'' = Some (t, a)" and "env ''r'' = Some (t, int n)"
    and "in_range t a" and "n < c_bits t"
  shows "c_eval env shl_overflow = Some (c_bool (\<not> in_range t (a * 2 ^ n)))"
proof -
  let ?v = "convert t (a * 2 ^ n)"
  have pos: "0 < c_bits t" using assms(5) by simp
  have "in_range t (?v div 2 ^ n)" using pos by (intro shift_down_range) simp
  then have r: "in_range (promote t) (?v div 2 ^ n)" "in_range (promote t) a" using pos assms(4) by (auto intro: promote_range)
  have p: "0 < c_bits (promote t)" "n < c_bits (promote t)" using pos assms(5) by (auto simp: promote_def)
  have "common_type (promote t) t = promote t" by (rule common_limit) simp
  then show ?thesis using assms(1-3) p r shift_back [OF pos, of n a] assms(5)
    by (simp add: shl_overflow_def Let_def)
qed

lemma shl_wrap_code:
  fixes cc s defines "t \<equiv> SCALAR_C_TYPES cc s"
  assumes "in_range t a" and "n < c_bits t"
  shows "Option.bind (execs cc (c_start cc s s a (int n)) (emit_shl cc ShlWrap s)) read_dest = Some (Value (convert t (a * 2 ^ n)))"
proof -
  let ?env = "c_start cc s s a (int n)"
  obtain t' v where "c_eval ?env (shl_expr cc s) = Some (t', v)" "convert t v = convert t (a * 2 ^ n)"
    using shl_eval [of ?env cc s a n] assms by (auto simp: t_def)
  then show ?thesis using set_dest_read [of ?env t 0 "shl_expr cc s" t' v cc] by (simp add: emit_shl_def Let_def t_def)
qed

lemma shl_prefix:
  fixes cc s defines "t \<equiv> SCALAR_C_TYPES cc s"
  assumes "in_range t a" and "n < c_bits t"
  shows "execs cc (c_start cc s s a (int n)) (SDecl t ''__tmp'' (Some (shl_expr cc s)) # SDecl c_int ''__overflow'' (Some shl_overflow) # code) =
    execs cc ((c_start cc s s a (int n))(''__tmp'' \<mapsto> (t, convert t (a * 2 ^ n)), ''__overflow'' \<mapsto> c_bool (\<not> in_range t (a * 2 ^ n)))) code"
proof -
  let ?env = "c_start cc s s a (int n)"
  obtain t' v where v: "c_eval ?env (shl_expr cc s) = Some (t', v)" "convert t v = convert t (a * 2 ^ n)"
    using shl_eval [of ?env cc s a n] assms by (auto simp: t_def)
  have "c_eval (?env(''__tmp'' \<mapsto> (t, convert t (a * 2 ^ n)))) shl_overflow = Some (c_bool (\<not> in_range t (a * 2 ^ n)))"
    by (rule shl_test) (use assms in \<open>simp_all add: t_def\<close>)
  from bool_decl [OF this, of cc "''__overflow''"] show ?thesis
    by (simp only: execs.simps exec.simps(2) [of cc ?env t] v option.map prod.case Option.bind.simps)
qed

lemma shl_check_code:
  fixes cc s defines "t \<equiv> SCALAR_C_TYPES cc s"
  assumes "in_range t a" and "n < c_bits t"
  shows "Option.bind (execs cc (c_start cc s s a (int n)) (emit_shl cc ShlCheck s)) (read_result [''OverflowError'']) =
    Some (if in_range t (a * 2 ^ n) then Value (a * 2 ^ n) else Raised ''OverflowError'')"
proof -
  have pos: "0 < c_bits t" using assms(3) by simp
  have code: "emit_shl cc ShlCheck s =
      [SDecl t ''__tmp'' (Some (shl_expr cc s)), SDecl c_int ''__overflow'' (Some shl_overflow), set_overflow_result vtmp]"
    by (simp add: emit_shl_def t_def)
  show ?thesis unfolding code shl_prefix [OF assms(2,3) [unfolded t_def], folded t_def]
    by (subst overflow_result_read [where t = t and t' = t and v = "convert t (a * 2 ^ n)"]) (use pos in \<open>auto simp: t_def\<close>)
qed

lemma shl_saturate_code:
  fixes cc s defines "t \<equiv> SCALAR_C_TYPES cc s"
  assumes "in_range t a" and "n < c_bits t"
  shows "Option.bind (execs cc (c_start cc s s a (int n)) (emit_shl cc ShlSaturate s)) read_dest =
    Some (Value (if in_range t (a * 2 ^ n) then a * 2 ^ n else t_max t))"
proof -
  have pos: "0 < c_bits t" using assms(3) by simp
  obtain min_c max_c where lim: "int_min_max_bit_pattern cc s = (min_c, max_c)" by force
  let ?ov = "\<not> in_range t (a * 2 ^ n)"
  define env where "env = (c_start cc s s a (int n))(''__tmp'' \<mapsto> (t, convert t (a * 2 ^ n)), ''__overflow'' \<mapsto> c_bool ?ov)"
  have env: "env ''dest'' = Some (t, 0)" "env ''__overflow'' = Some (c_bool ?ov)" "env ''__tmp'' = Some (t, convert t (a * 2 ^ n))"
    by (simp_all add: env_def t_def)
  have c: "c_eval env max_c = Some (promote t, t_max t)" "type_of env max_c = Some (promote t)"
    using limits_eval [OF lim, of env] unfolding t_def by auto
  have m: "in_range t (t_max t)" using range_span [OF pos] by (simp add: in_range_def)
  have code: "emit_shl cc ShlSaturate s = [SDecl t ''__tmp'' (Some (shl_expr cc s)), SDecl c_int ''__overflow'' (Some shl_overflow),
      SSet ''dest'' (ECond voverflow max_c vtmp)]"
    by (simp add: emit_shl_def t_def lim)
  have "execs cc (c_start cc s s a (int n)) (emit_shl cc ShlSaturate s) =
      Option.bind (exec cc env (SSet ''dest'' (ECond voverflow max_c vtmp))) Some"
    unfolding code shl_prefix [OF assms(2,3) [unfolded t_def], folded t_def] env_def [symmetric] by (simp only: execs.simps)
  also have "\<dots> = Some (env(''dest'' \<mapsto> (t, if ?ov then t_max t else convert t (a * 2 ^ n))))"
    using select_dest [OF env c disjI1 [OF refl] pos _ m, of cc] pos by simp
  also have "(if ?ov then t_max t else convert t (a * 2 ^ n)) = (if in_range t (a * 2 ^ n) then a * 2 ^ n else t_max t)"
    using pos by simp
  finally show ?thesis by (simp add: read_dest_def)
qed

end
