(* ===== verification/Emit_Arith_Results.thy ===== *)
theory Emit_Arith_Results
  imports Emit_Cast_Correct
begin

text \<open>
  From the arithmetic mode of the source program to the value the emitted C computes: one theorem
  per group of operators, and what happens outside their hypotheses.
\<close>

text \<open>What a mode promises for an operation whose exact result is \<open>v\<close>.\<close>

fun policy :: "arith_mode \<Rightarrow> ctype \<Rightarrow> int \<Rightarrow> outcome" where
  "policy ArithmeticWrap t v = Value (convert t v)"
| "policy ArithmeticSaturate t v = Value (saturate t v)"
| "policy _ t v = (if in_range t v then Value v else Raised ''OverflowError'')"

fun binop_kind :: "ast_binop \<Rightarrow> arith_kind option" where
  "binop_kind Add = Some KAdd"
| "binop_kind Sub = Some KSub"
| "binop_kind Mult = Some KMul"
| "binop_kind _ = None"

text \<open>Division: by zero it is an error in every mode; only \<^verbatim>\<open>MIN // -1\<close> leaves the range.\<close>

fun division_policy :: "arith_mode \<Rightarrow> ast_binop \<Rightarrow> ctype \<Rightarrow> int \<Rightarrow> int \<Rightarrow> outcome" where
  "division_policy mode op t a b =
     (if b = 0 then Raised ''ZeroDivisionError''
      else if op = FloorDiv then policy mode t (a sdiv b)
      else if mode \<in> {ArithmeticWrap, ArithmeticSaturate} \<or> in_range t (a sdiv b) then Value (a smod b)
      else Raised ''OverflowError'')"

lemma mode_cases:
  obtains "mode = ArithmeticWrap" | "mode = ArithmeticSaturate" | "\<And>t v. policy mode t v = policy ArithmeticChecked t v"
    "\<And>op. fst (GetBinOp mode op) = Checked_GetBinOp op" "fst (GetUnaryOp mode USub) = Some NegCheck" "fst (GetCast mode) = CastCheck"
    "mode \<notin> {ArithmeticWrap, ArithmeticSaturate}"
  by (cases mode) auto

lemma checked_opcode: "binop_kind op = Some k \<Longrightarrow> \<exists>opc. Checked_GetBinOp op = Some opc \<and>
    ARITH_BINOP_INFO opc = Some (k, ArithmeticChecked) \<and> checked_errors opc = [''OverflowError''] \<and>
    resolve_checked_error opc sg = [''OverflowError'']"
  by (cases op) (auto simp: Checked_GetBinOp_def resolve_checked_error_def)

lemma wrap_opcode: "binop_kind op = Some k \<Longrightarrow> \<exists>opc. Wrap_GetBinOp op = Some opc \<and>
    ARITH_BINOP_INFO opc = Some (k, ArithmeticWrap) \<and> checked_errors opc = []"
  by (cases op) (auto simp: Wrap_GetBinOp_def)

lemma saturate_opcode: "binop_kind op = Some k \<Longrightarrow> \<exists>opc. Saturate_GetBinOp op = Some opc \<and>
    ARITH_BINOP_INFO opc = Some (k, ArithmeticSaturate) \<and> checked_errors opc = []"
  by (cases op) (auto simp: Saturate_GetBinOp_def)

text \<open>
  C22.  Addition, subtraction and multiplication of two integers of a type follow the arithmetic
  mode: the emitted C yields the exact result if it fits; otherwise
  the result modulo the width (wrapping), the nearest bound (saturating), or an \<^verbatim>\<open>OverflowError\<close>
  (checked, and panicking, which unwraps the same result).  It is undefined behaviour in one case, which
  \<open>mul16_overflows\<close> describes exactly: a wrapping 16-bit product of operands whose product as unsigned numbers
  exceeds \<^verbatim>\<open>INT_MAX\<close>.  The operands on which the signed 64-bit functions of the MSVC header are wrong are excluded by
  the hypothesis \<open>msvc_exact\<close>.
\<close>

theorem arithmetic_follows_its_mode:
  assumes "binop_kind op = Some k"
    and "in_range (SCALAR_C_TYPES cc s) a" and "in_range (SCALAR_C_TYPES cc s) b"
    and "cc = Msvc \<and> mode \<noteq> ArithmeticWrap \<longrightarrow> msvc_exact k (SCALAR_C_TYPES cc s) a b"
  shows "\<exists>opc. fst (GetBinOp mode op) = Some opc \<and>
    run_binop cc opc s (resolve_checked_error opc (c_signed (SCALAR_C_TYPES cc s))) a b =
      (if mode = ArithmeticWrap \<and> mul16_overflows k (SCALAR_C_TYPES cc s) a b then None
       else Some (policy mode (SCALAR_C_TYPES cc s) (exact k a b)))"
proof (cases rule: mode_cases [of mode])
  case 1
  obtain opc where "Wrap_GetBinOp op = Some opc" "ARITH_BINOP_INFO opc = Some (k, ArithmeticWrap)" "checked_errors opc = []"
    using wrap_opcode [OF assms(1)] by blast
  then show ?thesis using 1 wrap_code [OF assms(2,3)] by (simp add: run_binop_def emit_binop_def)
next
  case 2
  obtain opc where "Saturate_GetBinOp op = Some opc" "ARITH_BINOP_INFO opc = Some (k, ArithmeticSaturate)" "checked_errors opc = []"
    using saturate_opcode [OF assms(1)] by blast
  then show ?thesis using 2 saturate_code [OF assms(2,3) overflow_fn_exact [OF assms(2,3)]] assms(4)
    by (simp add: run_binop_def emit_binop_def)
next
  case 3
  obtain opc where "Checked_GetBinOp op = Some opc" "ARITH_BINOP_INFO opc = Some (k, ArithmeticChecked)"
    "checked_errors opc = [''OverflowError'']"
    "resolve_checked_error opc (c_signed (SCALAR_C_TYPES cc s)) = [''OverflowError'']"
    using checked_opcode [OF assms(1)] by blast
  moreover obtain code where "emit_check_arith cc k (IntT s) = Some code" by simp
  moreover have "overflow_fn cc k (SCALAR_C_TYPES cc s) a b = builtin_overflow k (SCALAR_C_TYPES cc s) a b"
    using overflow_fn_exact [OF assms(2,3)] assms(4) 3(5) by auto
  ultimately show ?thesis using 3 check_code [of cc k s a b code] by (auto simp: run_binop_def emit_binop_def)
qed

theorem arithmetic_follows_its_mode_witness:
  "run_binop Msvc MulCheck I32 [''OverflowError''] 65536 65536 = Some (Raised ''OverflowError'') \<and>
   run_binop GccClang MulWrap I16 [] (- 1) (- 1) = None"
  using arithmetic_follows_its_mode [of Mult KMul Msvc I32 65536 65536 ArithmeticChecked]
    arithmetic_follows_its_mode [of Mult KMul GccClang I16 "- 1" "- 1" ArithmeticWrap]
  by (simp add: Checked_GetBinOp_def Wrap_GetBinOp_def resolve_checked_error_def msvc_exact_def mul16_overflows_def in_range_def t_min_def t_max_def)

lemma division_opcode:
  assumes "op \<in> {FloorDiv, AstMod}" and "in_range t a" and "in_range t b" and "0 < c_bits t"
  shows "\<exists>opc. fst (GetBinOp mode op) = Some opc \<and> opc \<in> {Div, Mod, DivWrap, DivSaturate, ModWrap, ModSaturate} \<and>
    division_result opc t a b = division_policy mode op t a b"
proof -
  have mm: "t_min t \<le> t_max t" by (auto simp: t_min_def t_max_def)
  have sat: "saturate t (a sdiv b) = t_max t" "convert t (a sdiv b) = t_min t" "a smod b = 0" if "b \<noteq> 0" "\<not> in_range t (a sdiv b)"
  proof -
    have e: "c_signed t" "a = t_min t" "b = - 1" using sdiv_edge [OF assms(2,3) that(1) assms(4)] that(2) by auto
    have m: "t_min t = - t_max t - 1" using e(1) by (simp add: t_min_def t_max_def)
    show "a smod b = 0" using e(3) by (simp add: signed_modulo_int_def)
    have q: "a sdiv b = t_max t + 1" using e m by simp
    show "saturate t (a sdiv b) = t_max t" unfolding q saturate_def using mm by auto
    have "a sdiv b - t_min t = 2 ^ c_bits t" unfolding q using range_span [OF assms(4)] by simp
    then show "convert t (a sdiv b) = t_min t" by (simp add: convert_def)
  qed
  have fits: "convert t v = v" "saturate t v = v" if "in_range t v" for v using that assms(4) by (simp_all add: saturate_id)
  define opc where "opc = the (fst (GetBinOp mode op))"
  have opc: "fst (GetBinOp mode op) = Some opc" "opc \<in> {Div, Mod, DivWrap, DivSaturate, ModWrap, ModSaturate}"
    using assms(1) by (cases mode; auto simp: opc_def Checked_GetBinOp_def Wrap_GetBinOp_def Saturate_GetBinOp_def)+
  consider "b = 0" | "b \<noteq> 0" "in_range t (a sdiv b)" | "b \<noteq> 0" "\<not> in_range t (a sdiv b)" by blast
  then have "division_result opc t a b = division_policy mode op t a b"
  proof cases
    case 2
    then show ?thesis using assms(1) fits
      by (cases mode) (auto simp: division_result_def quot_def opc_def Checked_GetBinOp_def Wrap_GetBinOp_def Saturate_GetBinOp_def)
  next
    case 3
    note s = sat [OF 3]
    from 3 assms(1) show ?thesis unfolding division_policy.simps division_result_def quot_def
      by (cases mode) (auto simp: s opc_def Checked_GetBinOp_def Wrap_GetBinOp_def Saturate_GetBinOp_def)
  qed (simp add: division_result_def)
  with opc show ?thesis by blast
qed

text \<open>
  C23.  Integer division and remainder: a zero divisor is a \<^verbatim>\<open>ZeroDivisionError\<close> in every mode; the
  quotient truncates toward zero; the one quotient that does not fit, \<^verbatim>\<open>MIN // -1\<close>, follows the mode,
  and so does its remainder.  The errors of the \<^verbatim>\<open>Result\<close> may be in any order in their union; an
  unsigned division carries no \<^verbatim>\<open>OverflowError\<close>.
\<close>

theorem division_follows_its_mode:
  assumes "op \<in> {FloorDiv, AstMod}"
    and "in_range (SCALAR_C_TYPES cc s) a" and "in_range (SCALAR_C_TYPES cc s) b"
  shows "\<exists>opc. fst (GetBinOp mode op) = Some opc \<and>
    (\<forall>errs. distinct errs \<longrightarrow> set errs = set (resolve_checked_error opc (c_signed (SCALAR_C_TYPES cc s))) \<longrightarrow>
      run_binop cc opc s errs a b = Some (division_policy mode op (SCALAR_C_TYPES cc s) a b))"
proof -
  obtain opc where opc: "fst (GetBinOp mode op) = Some opc" "opc \<in> {Div, Mod, DivWrap, DivSaturate, ModWrap, ModSaturate}"
    "division_result opc (SCALAR_C_TYPES cc s) a b = division_policy mode op (SCALAR_C_TYPES cc s) a b"
    using division_opcode [OF assms stem_bits(1)] by blast
  have "run_binop cc opc s errs a b = Some (division_policy mode op (SCALAR_C_TYPES cc s) a b)"
    if errs: "distinct errs" "set errs = set (resolve_checked_error opc (c_signed (SCALAR_C_TYPES cc s)))" for errs
  proof -
    obtain code where code: "emit_int_division cc opc s errs = Some code"
      "Option.bind (execs cc (c_start cc s s a b) code) (read_result errs) = Some (division_result opc (SCALAR_C_TYPES cc s) a b)"
      using division_code [OF assms(2,3) opc(2) errs] by blast
    have "emit_binop cc opc s errs = Some code" "checked_errors opc \<noteq> []"
      using opc(2) code(1) by (auto simp: emit_binop_def)
    then show ?thesis using code(2) opc(3) by (simp add: run_binop_def)
  qed
  then show ?thesis using opc(1) by blast
qed

theorem division_follows_its_mode_witness:
  "run_binop GccClang Div I32 [''OverflowError'', ''ZeroDivisionError''] (- 7) 2 = Some (Value (- 3)) \<and>
   run_binop GccClang Div I32 [''OverflowError'', ''ZeroDivisionError''] (- 2147483648) (- 1) = Some (Raised ''OverflowError'')"
  using division_follows_its_mode [of FloorDiv GccClang I32 "- 7" 2 ArithmeticChecked]
    division_follows_its_mode [of FloorDiv GccClang I32 "- 2147483648" "- 1" ArithmeticChecked]
  by (simp add: Checked_GetBinOp_def resolve_checked_error_def in_range_def t_min_def t_max_def signed_divide_int_def insert_commute)

text \<open>
  What a left shift and a negation yield: as the mode promises, except that a saturating shift always clamps to
  the upper bound and that a wrapping negation of an unsigned value is 0.
\<close>

definition shift_outcome :: "arith_mode \<Rightarrow> ctype \<Rightarrow> int \<Rightarrow> outcome" where
  "shift_outcome mode t v = (if mode = ArithmeticSaturate \<and> v < t_min t then Value (t_max t) else policy mode t v)"

definition neg_outcome :: "arith_mode \<Rightarrow> ctype \<Rightarrow> int \<Rightarrow> outcome" where
  "neg_outcome mode t a = (if mode = ArithmeticWrap \<and> \<not> c_signed t then Value 0 else policy mode t (- a))"

lemma shift_follows_its_mode:
  assumes "in_range (SCALAR_C_TYPES cc s) a" and "n < c_bits (SCALAR_C_TYPES cc s)"
  shows "\<exists>opc. fst (GetBinOp mode LShift) = Some opc \<and>
    run_binop cc opc s (resolve_checked_error opc (c_signed (SCALAR_C_TYPES cc s))) a (int n) =
      Some (shift_outcome mode (SCALAR_C_TYPES cc s) (a * 2 ^ n))"
proof (cases rule: mode_cases [of mode])
  case 1
  then show ?thesis using shl_wrap_code [OF assms] by (simp add: Wrap_GetBinOp_def run_binop_def emit_binop_def shift_outcome_def)
next
  case 2
  let ?t = "SCALAR_C_TYPES cc s"
  have "t_min ?t \<le> t_max ?t" by (auto simp: t_min_def t_max_def)
  then have "shift_outcome ArithmeticSaturate ?t v = Value (if in_range ?t v then v else t_max ?t)" for v
    by (auto simp: shift_outcome_def saturate_def in_range_def)
  then show ?thesis using 2 shl_saturate_code [OF assms] by (simp add: Saturate_GetBinOp_def run_binop_def emit_binop_def)
next
  case 3
  then show ?thesis using shl_check_code [OF assms]
    by (auto simp: Checked_GetBinOp_def run_binop_def emit_binop_def resolve_checked_error_def shift_outcome_def)
qed

lemma neg_wrap_unsigned:
  assumes "\<not> c_signed (SCALAR_C_TYPES cc s)"
  shows "run_neg cc NegWrap s a = Some (Value 0)"
proof -
  have "SIGNED_TO_UNSIGNED s = None" using unsigned_stem [of s cc] assms by simp
  moreover have "convert (SCALAR_C_TYPES cc s) 0 = 0"
    using stem_bits(1) [of cc s] by (simp add: in_range_def t_min_def t_max_def)
  ultimately show ?thesis by (simp add: run_neg_def emit_neg_def Let_def c_start_def read_dest_def)
qed



lemma msvc_signed64_extremes:
  "run_binop Msvc AddCheck I64 [''OverflowError''] (- 9223372036854775808) (- 9223372036854775808) = Some (Value 0) \<and>
   run_binop Msvc MulCheck I64 [''OverflowError''] (- 9223372036854775808) 2 = Some (Value 0) \<and>
   run_binop Msvc MulCheck I64 [''OverflowError''] 2 (- 4611686018427387904) = Some (Raised ''OverflowError'')"
  by (simp add: run_binop_def emit_binop_def c_code overflow_fn_def msvc_overflow_def sadd_overflow64_def smul_overflow64_def
      convert_def t_min_def t_max_def signed_divide_int_def)

text \<open>
  C25.  The hand-written overflow functions of the MSVC header report and store exactly what the
  GCC and Clang builtins do, at every width and for both signednesses, outside the operands that
  \<open>msvc_exact\<close> names.  There the signed 64-bit functions are wrong in both directions: \<^verbatim>\<open>MIN + MIN\<close> and
  \<^verbatim>\<open>MIN * 2\<close> give 0 without an error in checked mode, and a product that is exactly \<^verbatim>\<open>MIN\<close> is reported
  as an overflow.
\<close>

theorem msvc_functions_equal_builtins:
  assumes "in_range (SCALAR_C_TYPES Msvc s) a" and "in_range (SCALAR_C_TYPES Msvc s) b" and "msvc_exact k (SCALAR_C_TYPES Msvc s) a b"
  shows "overflow_fn Msvc k (SCALAR_C_TYPES Msvc s) a b = overflow_fn GccClang k (SCALAR_C_TYPES Msvc s) a b \<and>
    run_binop Msvc AddCheck I64 [''OverflowError''] (- 9223372036854775808) (- 9223372036854775808) = Some (Value 0) \<and>
    run_binop Msvc MulCheck I64 [''OverflowError''] (- 9223372036854775808) 2 = Some (Value 0) \<and>
    run_binop Msvc MulCheck I64 [''OverflowError''] 2 (- 4611686018427387904) = Some (Raised ''OverflowError'')"
  using overflow_fn_exact [OF assms(1,2)] assms(3) msvc_signed64_extremes by (simp add: overflow_fn_def [of GccClang])

theorem msvc_functions_equal_builtins_witness:
  "overflow_fn Msvc KMul c_i64 3037000500 (- 3037000500) = overflow_fn GccClang KMul c_i64 3037000500 (- 3037000500)"
  using msvc_functions_equal_builtins [of I64 3037000500 "- 3037000500" KMul]
  by (simp add: msvc_exact_def in_range_def t_min_def t_max_def)

subsection \<open>Where the emitted code departs from the mode\<close>

lemma narrow_product:
  assumes "0 \<le> a" "a < 65536" "0 \<le> b" "b < 65536"
  shows "- 2147483648 \<le> a * (b::int)"
  using mult_nonneg_nonneg [OF assms(1,3)] by linarith

lemma u16_wrapping_product:
  assumes "in_range (CInt False 16) a" and "in_range (CInt False 16) b"
  shows "run_binop cc MulWrap U16 [] a b = (if a * b \<le> 2147483647 then Some (Value (a * b mod 65536)) else None)"
proof -
  have r: "0 \<le> a" "a < 65536" "0 \<le> b" "b < 65536" using assms by (auto simp: in_range_def t_min_def t_max_def)
  have "convert c_int a = a" "convert c_int b = b" using r by (auto intro!: convert_id simp: in_range_def t_min_def t_max_def)
  then show ?thesis using narrow_product [OF r]
    by (simp add: run_binop_def emit_binop_def c_start_def read_dest_def Let_def arith_result_def promote_def in_range_def
        t_min_def t_max_def convert_def [of "CInt False 16"])
qed

lemma wide_shift:
  assumes "c_bits (promote (SCALAR_C_TYPES cc s)) \<le> n" and "op \<in> {ShlWrap, ShlCheck, ShlSaturate}"
  shows "run_binop cc op s errs a (int n) = None"
proof -
  let ?env = "c_start cc s s a (int n)"
  have "c_eval ?env (shl_expr cc s) = None"
  proof (cases "SIGNED_TO_UNSIGNED s")
    case (Some us)
    have "c_bits (promote (SCALAR_C_TYPES cc us)) \<le> n"
      using signed_stem [OF Some, of cc] assms(1) by (auto simp: promote_def split: if_splits)
    then show ?thesis using Some by (simp add: shl_expr_def Let_def)
  qed (use assms(1) in \<open>simp add: shl_expr_def Let_def\<close>)
  then show ?thesis using assms(2) by (auto simp: run_binop_def emit_binop_def emit_shl_def Let_def)
qed

text \<open>
  C26.  Undefined behaviour of the emitted C.  The wrapping product of two \<^verbatim>\<open>u16\<close> values is undefined
  exactly when it exceeds \<^verbatim>\<open>INT_MAX\<close>: both operands are promoted to \<^verbatim>\<open>int\<close>, where overflow does not wrap.  A left
  shift by the width of the promoted type or more is undefined in every mode, the checked one included:
  no mode tests the shift count.
\<close>

theorem undefined_behaviour:
  assumes "in_range (CInt False 16) a" and "in_range (CInt False 16) b"
    and "c_bits (promote (SCALAR_C_TYPES cc s)) \<le> n" and "op \<in> {ShlWrap, ShlCheck, ShlSaturate}"
  shows "run_binop cc MulWrap U16 [] a b = (if a * b \<le> 2147483647 then Some (Value (a * b mod 65536)) else None) \<and>
    run_binop cc op s errs c (int n) = None"
  using u16_wrapping_product [OF assms(1, 2)] wide_shift [OF assms(3, 4)] by simp

theorem undefined_behaviour_witness:
  "run_binop GccClang MulWrap U16 [] 65535 65535 = None \<and> run_binop GccClang ShlCheck I64 [''OverflowError''] 1 64 = None"
  using undefined_behaviour [of 65535 65535 GccClang I64 64 ShlCheck "[''OverflowError'']" 1]
  by (simp add: in_range_def t_min_def t_max_def promote_def)

end
