(* ===== verification/Lib_Bytes.thy ===== *)
theory Lib_Bytes
  imports Lib_Base "HOL-Library.Word"
begin

unbundle bit_operations_syntax

text \<open>
  Bytes and buffers for the byte-level parts of the library.  A byte is an 8-bit word; a raw buffer is
  a list, and an access outside it is \<open>MemFault\<close>; a list of the library is the sequence it implements.
\<close>

type_synonym u8 = "8 word"
type_synonym u32 = "32 word"

definition ptr_load :: "nat \<Rightarrow> 'a list \<Rightarrow> 'a res" where
  "ptr_load i buf = (if i < length buf then Inr (buf ! i) else Inl MemFault)"

definition ptr_store :: "nat \<Rightarrow> 'a \<Rightarrow> 'a list \<Rightarrow> 'a list res" where
  "ptr_store i x buf = (if i < length buf then Inr (buf[i := x]) else Inl MemFault)"

definition list_getitem :: "nat \<Rightarrow> 'a list \<Rightarrow> 'a res" where
  "list_getitem i xs = (if i < length xs then Inr (xs ! i) else Inl IndexError)"

definition list_get :: "string \<Rightarrow> nat \<Rightarrow> 'a list \<Rightarrow> 'a res" where
  "list_get msg i xs = unwrap msg (list_getitem i xs)"

definition list_set :: "string \<Rightarrow> nat \<Rightarrow> 'a \<Rightarrow> 'a list \<Rightarrow> 'a list res" where
  "list_set msg i x xs = (if i < length xs then Inr (xs[i := x]) else Inl (Panic msg))"

text \<open>Casts that panic when the value does not fit.\<close>

definition u16_panic :: "string \<Rightarrow> nat \<Rightarrow> nat res" where
  "u16_panic msg v = (if v < 65536 then Inr v else Inl (Panic msg))"

definition i32_panic :: "string \<Rightarrow> nat \<Rightarrow> int res" where
  "i32_panic msg v = (if v < 2 ^ 31 then Inr (int v) else Inl (Panic msg))"

definition usize_panic :: "string \<Rightarrow> int \<Rightarrow> nat res" where
  "usize_panic msg i = (if 0 \<le> i then Inr (nat i) else Inl (Panic msg))"

lemma cast_panic_Inr [simp]: "v < 65536 \<Longrightarrow> u16_panic msg v = Inr v" "v < 2147483648 \<Longrightarrow> i32_panic msg v = Inr (int v)"
  "0 \<le> i \<Longrightarrow> usize_panic msg i = Inr (nat i)"
  by (simp_all add: u16_panic_def i32_panic_def usize_panic_def)

text \<open>Wrapping unsigned arithmetic.\<close>

definition wrap16 :: "nat \<Rightarrow> nat" where "wrap16 n = n mod 2 ^ 16"
definition wrap32 :: "nat \<Rightarrow> nat" where "wrap32 n = n mod 2 ^ 32"
definition wrap64 :: "nat \<Rightarrow> nat" where "wrap64 n = n mod 2 ^ 64"

definition wsub32 :: "nat \<Rightarrow> nat \<Rightarrow> nat" where "wsub32 a b = wrap32 (a + 2 ^ 32 - b)"
definition wsub64 :: "nat \<Rightarrow> nat \<Rightarrow> nat" where "wsub64 a b = wrap64 (a + 2 ^ 64 - b)"

lemma wrap_small [simp]: "n < 65536 \<Longrightarrow> wrap16 n = n" "n < 4294967296 \<Longrightarrow> wrap32 n = n"
  "n < 18446744073709551616 \<Longrightarrow> wrap64 n = n"
  by (simp_all add: wrap16_def wrap32_def wrap64_def)

lemma wsub_small [simp]: "b \<le> a \<Longrightarrow> a < 4294967296 \<Longrightarrow> wsub32 a b = a - b"
  "b \<le> a \<Longrightarrow> a < 18446744073709551616 \<Longrightarrow> wsub64 a b = a - b"
  by (simp_all add: wsub32_def wsub64_def wrap32_def wrap64_def mod_if)

lemma fits_small [simp]: "n < 18446744073709551616 \<Longrightarrow> fits msg n = Inr n"
  by (simp add: fits_def usize_lim_def)

lemma u8_bound: "unat (b :: u8) < 256"
  using unsigned_less [of b] by simp

lemma list_get_eq [simp]: "list_get msg i xs = (if i < length xs then Inr (xs ! i) else Inl (Panic msg))"
  by (simp add: list_get_def list_getitem_def unwrap_def)

lemma list_set_eq [simp]: "i < length xs \<Longrightarrow> list_set msg i x xs = Inr (xs[i := x])"
  by (simp add: list_set_def)

end
