(* ===== verification/Lib_Base64.thy ===== *)
theory Lib_Base64
  imports Lib_Bytes
begin

unbundle bit_operations_syntax

text \<open>
  \<^verbatim>\<open>src/lib/base64.py\<close>: base64, its URL-safe variant and base16.  Bytes are 8-bit words; a buffer is
  a list, and an access outside it is \<open>MemFault\<close>.  The arithmetic of the source panics on overflow:
  index arithmetic at the width of \<^verbatim>\<open>usize\<close>, shifts that lose bits, and narrowing casts.
\<close>

definition shl_panic :: "string \<Rightarrow> 'a::len word \<Rightarrow> nat \<Rightarrow> 'a word res" where
  "shl_panic msg v n = (if unat v * 2 ^ n < 2 ^ LENGTH('a) then Inr (push_bit n v) else Inl (Panic msg))"

definition u8_panic :: "string \<Rightarrow> u32 \<Rightarrow> u8 res" where
  "u8_panic msg v = (if unat v < 256 then Inr (ucast v) else Inl (Panic msg))"

abbreviation bounded_msg :: string where "bounded_msg \<equiv> ''bounded by n, cannot overflow''"
abbreviation sextet_msg :: string where "sextet_msg \<equiv> ''sextet always < 64''"
abbreviation nibble_msg :: string where "nibble_msg \<equiv> ''nibble always < 16''"

definition B64_STD_ALPHABET :: "u8 list" where
  "B64_STD_ALPHABET =
    [0x41, 0x42, 0x43, 0x44, 0x45, 0x46, 0x47, 0x48, 0x49, 0x4A, 0x4B, 0x4C, 0x4D,
     0x4E, 0x4F, 0x50, 0x51, 0x52, 0x53, 0x54, 0x55, 0x56, 0x57, 0x58, 0x59, 0x5A,
     0x61, 0x62, 0x63, 0x64, 0x65, 0x66, 0x67, 0x68, 0x69, 0x6A, 0x6B, 0x6C, 0x6D,
     0x6E, 0x6F, 0x70, 0x71, 0x72, 0x73, 0x74, 0x75, 0x76, 0x77, 0x78, 0x79, 0x7A,
     0x30, 0x31, 0x32, 0x33, 0x34, 0x35, 0x36, 0x37, 0x38, 0x39, 0x2B, 0x2F]"

definition B64_URLSAFE_ALPHABET :: "u8 list" where
  "B64_URLSAFE_ALPHABET =
    [0x41, 0x42, 0x43, 0x44, 0x45, 0x46, 0x47, 0x48, 0x49, 0x4A, 0x4B, 0x4C, 0x4D,
     0x4E, 0x4F, 0x50, 0x51, 0x52, 0x53, 0x54, 0x55, 0x56, 0x57, 0x58, 0x59, 0x5A,
     0x61, 0x62, 0x63, 0x64, 0x65, 0x66, 0x67, 0x68, 0x69, 0x6A, 0x6B, 0x6C, 0x6D,
     0x6E, 0x6F, 0x70, 0x71, 0x72, 0x73, 0x74, 0x75, 0x76, 0x77, 0x78, 0x79, 0x7A,
     0x30, 0x31, 0x32, 0x33, 0x34, 0x35, 0x36, 0x37, 0x38, 0x39, 0x2D, 0x5F]"

definition HEX_UPPER :: "u8 list" where
  "HEX_UPPER =
    [0x30, 0x31, 0x32, 0x33, 0x34, 0x35, 0x36, 0x37,
     0x38, 0x39, 0x41, 0x42, 0x43, 0x44, 0x45, 0x46]"

definition PAD :: u8 where
  "PAD = 0x3D"

subsection \<open>Encoding\<close>

text \<open>\<^verbatim>\<open>out_ptr[i] = alphabet[(v >> k) & 0x3F]\<close>.\<close>

definition put_sextet :: "u8 list \<Rightarrow> u32 \<Rightarrow> nat \<Rightarrow> nat \<Rightarrow> u8 list \<Rightarrow> u8 list res" where
  "put_sextet alphabet v k i out =
     rbind (fits bounded_msg i) (\<lambda>i.
     rbind (unwrap sextet_msg (list_getitem (unat (drop_bit k v AND 0x3F)) alphabet)) (\<lambda>c. ptr_store i c out))"

text \<open>\<^verbatim>\<open>in_ptr[i]\<close>, where \<open>i\<close> is a sum.\<close>

definition get_byte :: "nat \<Rightarrow> u8 list \<Rightarrow> u8 res" where
  "get_byte i data = rbind (fits bounded_msg i) (\<lambda>i. ptr_load i data)"

definition put_byte :: "nat \<Rightarrow> u8 \<Rightarrow> u8 list \<Rightarrow> u8 list res" where
  "put_byte i b out = rbind (fits bounded_msg i) (\<lambda>i. ptr_store i b out)"

function b64encode_loop :: "u8 list \<Rightarrow> u8 list \<Rightarrow> nat \<Rightarrow> nat \<Rightarrow> u8 list \<Rightarrow> (nat \<times> nat \<times> u8 list) res" where
  "b64encode_loop alphabet data in_idx out_idx out =
     rbind (fits bounded_msg (in_idx + 3)) (\<lambda>stop.
     if stop \<le> length data then
       rbind (get_byte in_idx data) (\<lambda>b0.
       rbind (get_byte (in_idx + 1) data) (\<lambda>b1.
       rbind (get_byte (in_idx + 2) data) (\<lambda>b2.
       rbind (shl_panic bounded_msg (ucast b0 :: u32) 16) (\<lambda>w0.
       rbind (shl_panic bounded_msg (ucast b1 :: u32) 8) (\<lambda>w1.
       let v = w0 OR w1 OR ucast b2 in
       rbind (put_sextet alphabet v 18 out_idx out) (\<lambda>out.
       rbind (put_sextet alphabet v 12 (out_idx + 1) out) (\<lambda>out.
       rbind (put_sextet alphabet v 6 (out_idx + 2) out) (\<lambda>out.
       rbind (put_sextet alphabet v 0 (out_idx + 3) out) (\<lambda>out.
       rbind (fits bounded_msg (out_idx + 4)) (\<lambda>out_idx'.
       b64encode_loop alphabet data (in_idx + 3) out_idx' out))))))))))
     else Inr (in_idx, out_idx, out))"
  by pat_completeness auto
termination
  by (relation "measure (\<lambda>(_, data, in_idx, _, _). length data - in_idx)") auto

text \<open>\<^verbatim>\<open>_b64encode\<close>.\<close>

definition b64encode_shared :: "u8 list \<Rightarrow> u8 list \<Rightarrow> u8 list res" where
  "b64encode_shared data alphabet =
     (let n = length data; full_groups = n div 3; remainder = n mod 3;
          len_msg = ''output length is a fixed function of input length'' in
      rbind (fits len_msg (full_groups * 4)) (\<lambda>out_len0.
      rbind (if remainder > 0 then fits len_msg (out_len0 + 4) else Inr out_len0) (\<lambda>out_len.
      rbind (b64encode_loop alphabet data 0 0 (replicate out_len 0)) (\<lambda>(in_idx, out_idx, out).
      if remainder = 1 then
        rbind (get_byte in_idx data) (\<lambda>tb0.
        rbind (shl_panic bounded_msg (ucast tb0 :: u32) 16) (\<lambda>tv.
        rbind (put_sextet alphabet tv 18 out_idx out) (\<lambda>out.
        rbind (put_sextet alphabet tv 12 (out_idx + 1) out) (\<lambda>out.
        rbind (put_byte (out_idx + 2) PAD out) (\<lambda>out. put_byte (out_idx + 3) PAD out)))))
      else if remainder = 2 then
        rbind (get_byte in_idx data) (\<lambda>tb0.
        rbind (get_byte (in_idx + 1) data) (\<lambda>tb1.
        rbind (shl_panic bounded_msg (ucast tb0 :: u32) 16) (\<lambda>w0.
        rbind (shl_panic bounded_msg (ucast tb1 :: u32) 8) (\<lambda>w1.
        let tv = w0 OR w1 in
        rbind (put_sextet alphabet tv 18 out_idx out) (\<lambda>out.
        rbind (put_sextet alphabet tv 12 (out_idx + 1) out) (\<lambda>out.
        rbind (put_sextet alphabet tv 6 (out_idx + 2) out) (\<lambda>out. put_byte (out_idx + 3) PAD out)))))))
      else Inr out))))"

definition b64encode :: "u8 list \<Rightarrow> u8 list res" where
  "b64encode data = b64encode_shared data B64_STD_ALPHABET"

definition urlsafe_b64encode :: "u8 list \<Rightarrow> u8 list res" where
  "urlsafe_b64encode data = b64encode_shared data B64_URLSAFE_ALPHABET"

subsection \<open>Decoding\<close>

definition b64_char_value :: "u8 \<Rightarrow> u8 \<Rightarrow> u8 \<Rightarrow> u8 res" where
  "b64_char_value c sym62 sym63 =
     (if c \<ge> 0x41 \<and> c \<le> 0x5A then Inr (c - 0x41)
      else if c \<ge> 0x61 \<and> c \<le> 0x7A then Inr (c - 0x61 + 26)
      else if c \<ge> 0x30 \<and> c \<le> 0x39 then Inr (c - 0x30 + 52)
      else if c = sym62 then Inr 62
      else if c = sym63 then Inr 63
      else Inl (Base64Error ''invalid base64 character''))"

text \<open>\<^verbatim>\<open>out_ptr[i] = u8((v >> k) & 0xFF)\<close>.\<close>

definition put_octet :: "u32 \<Rightarrow> nat \<Rightarrow> nat \<Rightarrow> u8 list \<Rightarrow> u8 list res" where
  "put_octet v k i out =
     rbind (fits bounded_msg i) (\<lambda>i. rbind (u8_panic bounded_msg (drop_bit k v AND 0xFF)) (\<lambda>b. ptr_store i b out))"

definition shl32 :: "u8 \<Rightarrow> nat \<Rightarrow> u32 res" where
  "shl32 v k = shl_panic bounded_msg (ucast v :: u32) k"

function b64decode_loop :: "u8 list \<Rightarrow> u8 \<Rightarrow> u8 \<Rightarrow> nat \<Rightarrow> nat \<Rightarrow> nat \<Rightarrow> u8 list \<Rightarrow> (nat \<times> nat \<times> u8 list) res" where
  "b64decode_loop data sym62 sym63 full_group_end in_idx out_idx out =
     (if in_idx < full_group_end then
        rbind (get_byte in_idx data) (\<lambda>c0.
        rbind (get_byte (in_idx + 1) data) (\<lambda>c1.
        rbind (get_byte (in_idx + 2) data) (\<lambda>c2.
        rbind (get_byte (in_idx + 3) data) (\<lambda>c3.
        rbind (b64_char_value c0 sym62 sym63) (\<lambda>v0.
        rbind (b64_char_value c1 sym62 sym63) (\<lambda>v1.
        rbind (b64_char_value c2 sym62 sym63) (\<lambda>v2.
        rbind (b64_char_value c3 sym62 sym63) (\<lambda>v3.
        rbind (shl32 v0 18) (\<lambda>w0.
        rbind (shl32 v1 12) (\<lambda>w1.
        rbind (shl32 v2 6) (\<lambda>w2.
        let v = w0 OR w1 OR w2 OR ucast v3 in
        rbind (put_octet v 16 out_idx out) (\<lambda>out.
        rbind (put_octet v 8 (out_idx + 1) out) (\<lambda>out.
        rbind (put_octet v 0 (out_idx + 2) out) (\<lambda>out.
        rbind (fits bounded_msg (in_idx + 4)) (\<lambda>in_idx'.
        rbind (fits bounded_msg (out_idx + 3)) (\<lambda>out_idx'.
        b64decode_loop data sym62 sym63 full_group_end in_idx' out_idx' out))))))))))))))))
      else Inr (in_idx, out_idx, out))"
  by pat_completeness auto
termination
  by (relation "measure (\<lambda>(_, _, _, e, i, _, _). e - i)") auto

text \<open>The final group, the only place where padding may appear.\<close>

definition b64decode_final :: "u8 list \<Rightarrow> u8 \<Rightarrow> u8 \<Rightarrow> nat \<Rightarrow> nat \<Rightarrow> nat \<Rightarrow> u8 list \<Rightarrow> u8 list res" where
  "b64decode_final data sym62 sym63 pad_count in_idx out_idx out =
     rbind (get_byte in_idx data) (\<lambda>fc0.
     rbind (get_byte (in_idx + 1) data) (\<lambda>fc1.
     rbind (get_byte (in_idx + 2) data) (\<lambda>fc2.
     rbind (get_byte (in_idx + 3) data) (\<lambda>fc3.
     rbind (b64_char_value fc0 sym62 sym63) (\<lambda>fv0.
     rbind (b64_char_value fc1 sym62 sym63) (\<lambda>fv1.
     if pad_count = 2 then
       (if fc2 \<noteq> PAD \<or> fc3 \<noteq> PAD then Inl (Base64Error ''invalid base64 padding'')
        else
          rbind (shl32 fv0 18) (\<lambda>w0. rbind (shl32 fv1 12) (\<lambda>w1.
          put_octet (w0 OR w1) 16 out_idx out)))
     else if pad_count = 1 then
       (if fc3 \<noteq> PAD \<or> fc2 = PAD then Inl (Base64Error ''invalid base64 padding'')
        else
          rbind (b64_char_value fc2 sym62 sym63) (\<lambda>fv2.
          rbind (shl32 fv0 18) (\<lambda>w0. rbind (shl32 fv1 12) (\<lambda>w1. rbind (shl32 fv2 6) (\<lambda>w2.
          let pv = w0 OR w1 OR w2 in
          rbind (put_octet pv 16 out_idx out) (\<lambda>out. put_octet pv 8 (out_idx + 1) out))))))
     else
       (if fc2 = PAD \<or> fc3 = PAD then Inl (Base64Error ''invalid base64 padding'')
        else
          rbind (b64_char_value fc2 sym62 sym63) (\<lambda>fv2.
          rbind (b64_char_value fc3 sym62 sym63) (\<lambda>fv3.
          rbind (shl32 fv0 18) (\<lambda>w0. rbind (shl32 fv1 12) (\<lambda>w1. rbind (shl32 fv2 6) (\<lambda>w2.
          let pv = w0 OR w1 OR w2 OR ucast fv3 in
          rbind (put_octet pv 16 out_idx out) (\<lambda>out.
          rbind (put_octet pv 8 (out_idx + 1) out) (\<lambda>out. put_octet pv 0 (out_idx + 2) out))))))))))))))"

definition b64decode_core :: "u8 list \<Rightarrow> u8 \<Rightarrow> u8 \<Rightarrow> u8 list res" where
  "b64decode_core data sym62 sym63 =
     (let n = length data; msg = ''n is a positive multiple of 4, checked above'' in
      if n = 0 then Inr []
      else if n mod 4 \<noteq> 0 then Inl (Base64Error ''invalid base64-encoded string: length is not a multiple of 4'')
      else
        rbind (sub_panic msg n 1) (\<lambda>i1.
        rbind (ptr_load i1 data) (\<lambda>last.
        rbind (if last = PAD
               then rbind (sub_panic msg n 2) (\<lambda>i2. rbind (ptr_load i2 data) (\<lambda>prev. Inr (if prev = PAD then 2 else 1)))
               else Inr 0) (\<lambda>pad_count.
        rbind (fits msg (n div 4 * 3)) (\<lambda>m.
        rbind (sub_panic msg m pad_count) (\<lambda>out_len.
        rbind (sub_panic msg n 4) (\<lambda>full_group_end.
        rbind (b64decode_loop data sym62 sym63 full_group_end 0 0 (replicate out_len 0)) (\<lambda>(in_idx, out_idx, out).
        b64decode_final data sym62 sym63 pad_count in_idx out_idx out))))))))"

text \<open>Lenient mode: count the bytes of the alphabet, then copy them down.\<close>

definition b64_keeps :: "u8 \<Rightarrow> u8 \<Rightarrow> u8 \<Rightarrow> bool" where
  "b64_keeps sym62 sym63 c \<longleftrightarrow> c = PAD \<or> (case b64_char_value c sym62 sym63 of Inr _ \<Rightarrow> True | Inl _ \<Rightarrow> False)"

fun count_valid :: "u8 \<Rightarrow> u8 \<Rightarrow> u8 list \<Rightarrow> nat \<Rightarrow> nat res" where
  "count_valid sym62 sym63 [] valid_count = Inr valid_count"
| "count_valid sym62 sym63 (c # cs) valid_count =
     rbind (if b64_keeps sym62 sym63 c then fits bounded_msg (valid_count + 1) else Inr valid_count)
       (count_valid sym62 sym63 cs)"

fun copy_valid :: "u8 \<Rightarrow> u8 \<Rightarrow> u8 list \<Rightarrow> nat \<Rightarrow> u8 list \<Rightarrow> u8 list res" where
  "copy_valid sym62 sym63 [] f_idx filtered = Inr filtered"
| "copy_valid sym62 sym63 (fc # cs) f_idx filtered =
     (if b64_keeps sym62 sym63 fc
      then rbind (ptr_store f_idx fc filtered) (\<lambda>filtered'.
           rbind (fits bounded_msg (f_idx + 1)) (\<lambda>f_idx'. copy_valid sym62 sym63 cs f_idx' filtered'))
      else copy_valid sym62 sym63 cs f_idx filtered)"

text \<open>\<^verbatim>\<open>_b64decode\<close>.\<close>

definition b64decode_shared :: "u8 list \<Rightarrow> u8 \<Rightarrow> u8 \<Rightarrow> bool \<Rightarrow> u8 list res" where
  "b64decode_shared data sym62 sym63 validate =
     (if validate then b64decode_core data sym62 sym63
      else
        rbind (count_valid sym62 sym63 data 0) (\<lambda>valid_count.
        rbind (copy_valid sym62 sym63 data 0 (replicate valid_count 0)) (\<lambda>filtered.
        b64decode_core filtered sym62 sym63)))"

definition b64decode :: "u8 list \<Rightarrow> bool \<Rightarrow> u8 list res" where
  "b64decode data validate = b64decode_shared data 0x2B 0x2F validate"

definition urlsafe_b64decode :: "u8 list \<Rightarrow> bool \<Rightarrow> u8 list res" where
  "urlsafe_b64decode data validate = b64decode_shared data 0x2D 0x5F validate"

subsection \<open>Base 16\<close>

definition put_nibble :: "u8 \<Rightarrow> nat \<Rightarrow> u8 list \<Rightarrow> u8 list res" where
  "put_nibble x i out =
     rbind (fits bounded_msg i) (\<lambda>i.
     rbind (unwrap nibble_msg (list_getitem (unat x) HEX_UPPER)) (\<lambda>c. ptr_store i c out))"

function b16encode_loop :: "u8 list \<Rightarrow> nat \<Rightarrow> u8 list \<Rightarrow> u8 list res" where
  "b16encode_loop data i out =
     (if i < length data then
        rbind (ptr_load i data) (\<lambda>b.
        rbind (put_nibble (drop_bit 4 b) (i * 2) out) (\<lambda>out.
        rbind (put_nibble (b AND 0x0F) (i * 2 + 1) out) (\<lambda>out.
        rbind (fits bounded_msg (i + 1)) (\<lambda>i'. b16encode_loop data i' out))))
      else Inr out)"
  by pat_completeness auto
termination
  by (relation "measure (\<lambda>(data, i, _). length data - i)") auto

definition b16encode :: "u8 list \<Rightarrow> u8 list res" where
  "b16encode data =
     rbind (fits ''output length is exactly double input length'' (length data * 2)) (\<lambda>out_len.
     b16encode_loop data 0 (replicate out_len 0))"

definition hex_nibble_value :: "u8 \<Rightarrow> bool \<Rightarrow> u8 res" where
  "hex_nibble_value c casefold =
     (if c \<ge> 0x30 \<and> c \<le> 0x39 then Inr (c - 0x30)
      else if c \<ge> 0x41 \<and> c \<le> 0x46 then Inr (c - 0x41 + 10)
      else if casefold \<and> c \<ge> 0x61 \<and> c \<le> 0x66 then Inr (c - 0x61 + 10)
      else Inl (Base64Error ''invalid base16 character''))"

function b16decode_loop :: "u8 list \<Rightarrow> bool \<Rightarrow> nat \<Rightarrow> u8 list \<Rightarrow> u8 list res" where
  "b16decode_loop data casefold i out =
     (if i < length data then
        rbind (ptr_load i data) (\<lambda>c0.
        rbind (hex_nibble_value c0 casefold) (\<lambda>hi.
        rbind (get_byte (i + 1) data) (\<lambda>c1.
        rbind (hex_nibble_value c1 casefold) (\<lambda>lo.
        rbind (shl_panic bounded_msg hi 4) (\<lambda>h.
        rbind (ptr_store (i div 2) (h OR lo) out) (\<lambda>out.
        rbind (fits bounded_msg (i + 2)) (\<lambda>i'. b16decode_loop data casefold i' out)))))))
      else Inr out)"
  by pat_completeness auto
termination
  by (relation "measure (\<lambda>(data, _, i, _). length data - i)") auto

definition b16decode :: "u8 list \<Rightarrow> bool \<Rightarrow> u8 list res" where
  "b16decode data casefold =
     (if length data mod 2 \<noteq> 0 then Inl (Base64Error ''invalid base16-encoded string: odd length'')
      else b16decode_loop data casefold 0 (replicate (length data div 2) 0))"

end
