(* ===== verification/Lib_Base64_Results.thy ===== *)
theory Lib_Base64_Results
  imports Lib_Base64_Correct
begin

unbundle bit_operations_syntax

text \<open>
  Base64 and base16 as a whole: round trips in the strict and in the lenient mode, and the strings
  the strict decoder accepts.
\<close>

subsection \<open>Lenient decoding\<close>

lemma count_valid_eq: "k + length data < usize_lim \<Longrightarrow> count_valid s62 s63 data k = Inr (k + length (filter (b64_keeps s62 s63) data))"
  by (induction data arbitrary: k) (auto simp: fits_def)

lemma copy_valid_eq:
  "length o1 + length data < usize_lim \<Longrightarrow>
    copy_valid s62 s63 data (length o1) (o1 @ replicate (length (filter (b64_keeps s62 s63) data)) 0) =
    Inr (o1 @ filter (b64_keeps s62 s63) data)"
proof (induction data arbitrary: o1)
  case (Cons c cs)
  show ?case
  proof (cases "b64_keeps s62 s63 c")
    case True
    have "copy_valid s62 s63 cs (length (o1 @ [c])) ((o1 @ [c]) @ replicate (length (filter (b64_keeps s62 s63) cs)) 0) =
        Inr ((o1 @ [c]) @ filter (b64_keeps s62 s63) cs)" using Cons.prems by (intro Cons.IH) simp
    then show ?thesis using True Cons.prems store_at [of "length o1" o1 0 "0 # replicate (length (filter (b64_keeps s62 s63) cs)) 0" c]
      by (simp add: fits_def)
  next
    case False
    then show ?thesis using Cons by simp
  qed
qed simp

text \<open>The lenient mode decodes what is left after discarding the foreign characters.\<close>

lemma lenient_decode:
  assumes "length data < usize_lim"
  shows "b64decode_shared data s62 s63 False = b64decode_shared (filter (b64_keeps s62 s63) data) s62 s63 True"
  using assms count_valid_eq [of 0 data s62 s63] copy_valid_eq [of "[]" data s62 s63] by (simp add: b64decode_shared_def)

context b64_alphabet
begin

lemma spec_kept: "filter (b64_keeps s62 s63) (b64_spec A xs) = b64_spec A xs"
proof -
  have "b64_keeps s62 s63 (six A v k)" "b64_keeps s62 s63 PAD" for v k by (simp_all add: b64_keeps_def)
  then show ?thesis by (induction xs rule: list_induct3) (simp_all add: Let_def)
qed

text \<open>Characters outside the alphabet, such as line breaks, do not matter in the lenient mode.\<close>

lemma lenient_round_trip:
  assumes "length t < usize_lim" and "b64_len (length data) + 4 < usize_lim"
    and "filter (b64_keeps s62 s63) t = b64_spec A data"
  shows "b64decode_shared t s62 s63 False = Inr data"
  using assms lenient_decode [of t s62 s63] decode_core [of "b64_spec A data" s62 s63] decode_spec [of data]
  by (simp add: b64decode_shared_def b64_spec_len)

end

subsection \<open>What the strict decoder accepts\<close>

definition in_alphabet :: "u8 \<Rightarrow> u8 \<Rightarrow> u8 \<Rightarrow> bool" where
  "in_alphabet s62 s63 c \<longleftrightarrow> (case b64_char_value c s62 s63 of Inr _ \<Rightarrow> True | Inl _ \<Rightarrow> False)"

definition pads :: "u8 list \<Rightarrow> nat" where
  "pads data = (if data = [] \<or> last data \<noteq> PAD then 0 else if last (butlast data) \<noteq> PAD then 1 else 2)"

text \<open>Whole groups of four characters, all of the alphabet except for at most two pads at the end.\<close>

definition b64_text :: "u8 \<Rightarrow> u8 \<Rightarrow> u8 list \<Rightarrow> bool" where
  "b64_text s62 s63 data \<longleftrightarrow>
     length data mod 4 = 0 \<and> list_all (in_alphabet s62 s63) (take (length data - pads data) data)"

lemma char_value_cases:
  obtains v where "b64_char_value c s62 s63 = Inr v" "in_alphabet s62 s63 c"
  | "b64_char_value c s62 s63 = Inl (Base64Error ''invalid base64 character'')" "\<not> in_alphabet s62 s63 c"
proof (cases "b64_char_value c s62 s63")
  case (Inl e)
  then have "e = Base64Error ''invalid base64 character''" by (auto simp: b64_char_value_def split: if_splits)
  then show thesis using Inl that(2) by (simp add: in_alphabet_def)
next
  case (Inr v)
  then show thesis using that(1) by (simp add: in_alphabet_def)
qed

definition decoded :: "bool \<Rightarrow> nat \<Rightarrow> u8 list res \<Rightarrow> bool" where
  "decoded ok n r \<longleftrightarrow> (case r of Inr out \<Rightarrow> ok \<and> length out = n | Inl e \<Rightarrow> \<not> ok \<and> (\<exists>m. e = Base64Error m))"

lemma dec_groups_decoded:
  "length cs mod 4 = 0 \<Longrightarrow> decoded (list_all (in_alphabet s62 s63) cs) (3 * (length cs div 4)) (dec_groups s62 s63 cs)"
proof (induction s62 s63 cs rule: dec_groups.induct)
  case (1 s62 s63 c0 c1 c2 c3 cs)
  show ?case
  proof (cases "in_alphabet s62 s63 c0 \<and> in_alphabet s62 s63 c1 \<and> in_alphabet s62 s63 c2 \<and> in_alphabet s62 s63 c3")
    case True
    obtain v0 v1 v2 v3 where v: "b64_char_value c0 s62 s63 = Inr v0" "b64_char_value c1 s62 s63 = Inr v1"
      "b64_char_value c2 s62 s63 = Inr v2" "b64_char_value c3 s62 s63 = Inr v3"
      using True char_value_cases by metis
    show ?thesis using "1.IH" [OF v refl] "1.prems" True v
      by (cases "dec_groups s62 s63 cs") (auto simp: decoded_def Let_def)
  next
    case False
    then show ?thesis
      by (cases rule: char_value_cases [of c0 s62 s63]; cases rule: char_value_cases [of c1 s62 s63];
          cases rule: char_value_cases [of c2 s62 s63]; cases rule: char_value_cases [of c3 s62 s63]) (auto simp: decoded_def)
  qed
qed (auto simp: decoded_def)

lemma dec_last_decoded:
  assumes "\<not> in_alphabet s62 s63 PAD"
  shows "decoded (list_all (in_alphabet s62 s63) (take (4 - pads [c0, c1, c2, c3]) [c0, c1, c2, c3])) (3 - pads [c0, c1, c2, c3])
    (dec_last s62 s63 c0 c1 c2 c3)"
  using assms
  by (cases "c3 = PAD"; cases "c2 = PAD"; cases rule: char_value_cases [of c0 s62 s63]; cases rule: char_value_cases [of c1 s62 s63];
      cases rule: char_value_cases [of c2 s62 s63]; cases rule: char_value_cases [of c3 s62 s63])
    (auto simp: decoded_def dec_last_def pads_def Let_def)

lemma strict_decode:
  assumes "length data + 4 < usize_lim" and "\<not> in_alphabet s62 s63 PAD"
  shows "decoded (b64_text s62 s63 data) (3 * (length data div 4) - pads data) (b64decode_shared data s62 s63 True)"
proof (cases "data = [] \<or> length data mod 4 \<noteq> 0")
  case True
  then show ?thesis using decode_core [OF assms(1)]
    by (auto simp: b64decode_shared_def b64_dec_def Let_def decoded_def b64_text_def pads_def)
next
  case False
  then obtain pre c0 c1 c2 c3 where data: "data = pre @ [c0, c1, c2, c3]" and m: "length pre mod 4 = 0" using last_four by metis
  have p: "pads data = pads [c0, c1, c2, c3]" "pads data \<le> 2" by (simp_all add: data pads_def butlast_append)
  have dec: "b64decode_shared data s62 s63 True =
      rbind (dec_groups s62 s63 pre) (\<lambda>d. rbind (dec_last s62 s63 c0 c1 c2 c3) (\<lambda>e. Inr (d @ e)))"
    using decode_core [OF assms(1)] m by (simp add: b64decode_shared_def b64_dec_def Let_def data nth_append)
  have "take (length data - pads data) data = pre @ take (4 - pads data) [c0, c1, c2, c3]" using p(2) by (simp add: data)
  then have ok: "b64_text s62 s63 data \<longleftrightarrow> list_all (in_alphabet s62 s63) pre \<and>
      list_all (in_alphabet s62 s63) (take (4 - pads data) [c0, c1, c2, c3])"
    using False by (simp add: b64_text_def)
  have "length data div 4 = Suc (length pre div 4)" by (simp add: data)
  then have len: "3 * (length data div 4) - pads data = 3 * (length pre div 4) + (3 - pads data)" using p(2) by simp
  show ?thesis using dec_groups_decoded [OF m, of s62 s63] dec_last_decoded [OF assms(2), of c0 c1 c2 c3]
    unfolding dec ok len p(1) [symmetric]
    by (cases "dec_groups s62 s63 pre"; cases "dec_last s62 s63 c0 c1 c2 c3") (auto simp: decoded_def)
qed

subsection \<open>Base 16\<close>

fun b16_spec :: "u8 list \<Rightarrow> u8 list" where
  "b16_spec [] = []"
| "b16_spec (b # bs) = HEX_UPPER ! unat (drop_bit 4 b) # HEX_UPPER ! unat (b AND 0x0F) # b16_spec bs"

lemma nibble_bound: "unat (drop_bit 4 (b :: u8)) < 16" "unat (b AND 0x0F :: u8) < 16"
proof -
  have "unat (drop_bit 4 b) = unat b div 16" by (simp add: drop_bit_eq_div unat_div)
  then show "unat (drop_bit 4 b) < 16" using u8_bound [of b] by simp
  have "b AND 0x0F \<le> 0x0F" by (rule word_and_le1)
  then show "unat (b AND 0x0F) < 16" by (simp add: word_le_nat_alt)
qed

lemma put_nibble_at:
  assumes "unat x < 16" and "i = length o1 + k" and "k < length ys" and "i < usize_lim"
  shows "put_nibble x i (o1 @ ys) = Inr (o1 @ ys[k := HEX_UPPER ! unat x])"
  using assms by (simp add: put_nibble_def fits_def list_getitem_def store_at HEX_UPPER_def)

lemma b16_spec_len: "length (b16_spec xs) = 2 * length xs"
  by (induction xs) simp_all

lemma b16encode_loop_eq:
  "2 * (length pre + length rest) < usize_lim \<Longrightarrow> length o1 = 2 * length pre \<Longrightarrow>
    b16encode_loop (pre @ rest) (length pre) (o1 @ replicate (2 * length rest) 0) = Inr (o1 @ b16_spec rest)"
proof (induction rest arbitrary: pre o1)
  case (Cons b bs)
  let ?x = "HEX_UPPER ! unat (drop_bit 4 b)" and ?y = "HEX_UPPER ! unat (b AND 0x0F)"
  have IH: "b16encode_loop ((pre @ [b]) @ bs) (length pre + 1) ((o1 @ [?x, ?y]) @ replicate (2 * length bs) 0) =
      Inr ((o1 @ [?x, ?y]) @ b16_spec bs)"
    using Cons.IH [of "pre @ [b]" "o1 @ [?x, ?y]"] Cons.prems by simp
  have z: "replicate (2 * length (b # bs)) 0 = 0 # 0 # replicate (2 * length bs) (0 :: u8)" by simp
  have idx: "length pre * 2 = length o1" using Cons.prems(2) by simp
  have "b16encode_loop (pre @ b # bs) (length pre) (o1 @ 0 # 0 # replicate (2 * length bs) 0) =
      b16encode_loop ((pre @ [b]) @ bs) (length pre + 1) ((o1 @ [?x, ?y]) @ replicate (2 * length bs) 0)"
    using Cons.prems(1) idx
    by (subst b16encode_loop.simps)
      (simp add: ptr_load_def nth_append fits_def put_nibble_at [OF nibble_bound(1)] put_nibble_at [OF nibble_bound(2)])
  then show ?case unfolding z using IH by simp
next
  case Nil
  then show ?case by (simp add: b16encode_loop.simps)
qed

lemma b16encode_eq: "2 * length data < usize_lim \<Longrightarrow> b16encode data = Inr (b16_spec data)"
  using b16encode_loop_eq [of "[]" data "[]"] by (simp add: b16encode_def fits_def mult.commute)

lemma hex_value: "unat x < 16 \<Longrightarrow> hex_nibble_value (HEX_UPPER ! unat x) casefold = Inr x"
proof -
  assume x: "unat x < 16"
  have "list_all (\<lambda>i. hex_nibble_value (HEX_UPPER ! i) False = Inr (of_nat i) \<and> hex_nibble_value (HEX_UPPER ! i) True = Inr (of_nat i)) [0..<16]"
    by code_simp
  then have "hex_nibble_value (HEX_UPPER ! unat x) casefold = Inr (of_nat (unat x))" using x by (cases casefold) (auto simp: list_all_iff)
  then show ?thesis by simp
qed

lemma join_nibbles: "push_bit 4 (drop_bit 4 b) OR (b AND 0x0F) = (b :: u8)"
proof -
  have m: "(0x0F :: u8) = mask 4" by (simp add: mask_eq_exp_minus_1)
  show ?thesis unfolding m take_bit_eq_mask [symmetric] by (rule bit_word_eqI) (auto simp: bit_simps)
qed

lemma shl_nibble: "unat (x :: u8) < 16 \<Longrightarrow> shl_panic msg x 4 = Inr (push_bit 4 x)"
  by (simp add: shl_panic_def)

lemma b16decode_loop_eq:
  "2 * (length o1 + length rest) + 2 < usize_lim \<Longrightarrow> length pre = 2 * length o1 \<Longrightarrow>
    b16decode_loop (pre @ b16_spec rest) casefold (length pre) (o1 @ replicate (length rest) 0) = Inr (o1 @ rest)"
proof (induction rest arbitrary: pre o1)
  case (Cons b bs)
  let ?x = "HEX_UPPER ! unat (drop_bit 4 b)" and ?y = "HEX_UPPER ! unat (b AND 0x0F)"
  have IH: "b16decode_loop ((pre @ [?x, ?y]) @ b16_spec bs) casefold (length pre + 2) ((o1 @ [b]) @ replicate (length bs) 0) = Inr ((o1 @ [b]) @ bs)"
    using Cons.IH [of "o1 @ [b]" "pre @ [?x, ?y]"] Cons.prems by simp
  have "b16decode_loop (pre @ ?x # ?y # b16_spec bs) casefold (length pre) (o1 @ 0 # replicate (length bs) 0) =
      b16decode_loop ((pre @ [?x, ?y]) @ b16_spec bs) casefold (length pre + 2) ((o1 @ [b]) @ replicate (length bs) 0)"
    using Cons.prems
    by (subst b16decode_loop.simps)
      (simp add: ptr_load_def nth_append fits_def get_at hex_value nibble_bound shl_nibble store_at join_nibbles)
  then show ?case using IH by simp
next
  case Nil
  then show ?case by (simp add: b16decode_loop.simps)
qed

lemma b16_round_trip:
  assumes "2 * length data + 2 < usize_lim"
  shows "rbind (b16encode data) (\<lambda>t. b16decode t casefold) = Inr data"
  using assms b16encode_eq [of data] b16decode_loop_eq [of "[]" data "[]" casefold] by (simp add: b16decode_def b16_spec_len)

subsection \<open>Properties\<close>

lemma base64_inverse:
  assumes "b64_len (length data) + 4 < usize_lim"
  shows "(\<exists>t. b64encode data = Inr t \<and> length t = b64_len (length data) \<and> b64decode t True = Inr data \<and>
      (\<forall>t'. length t' < usize_lim \<and> filter (b64_keeps 0x2B 0x2F) t' = t \<longrightarrow> b64decode t' False = Inr data)) \<and>
    rbind (urlsafe_b64encode data) (\<lambda>t. urlsafe_b64decode t True) = Inr data \<and>
    (2 * length data + 2 < usize_lim \<longrightarrow> rbind (b16encode data) (\<lambda>t. b16decode t casefold) = Inr data)"
proof (intro conjI impI)
  have "b64_len (length data) < usize_lim" using assms by simp
  from encode_shared [OF std.size this] have enc: "b64encode data = Inr (b64_spec B64_STD_ALPHABET data)" by (simp add: b64encode_def)
  moreover have "b64decode (b64_spec B64_STD_ALPHABET data) True = Inr data"
    using std.round_trip [OF assms] enc by (simp add: b64encode_def b64decode_def)
  moreover have "b64decode t' False = Inr data"
    if "length t' < usize_lim" "filter (b64_keeps 0x2B 0x2F) t' = b64_spec B64_STD_ALPHABET data" for t'
    using std.lenient_round_trip [OF that(1) assms that(2)] by (simp add: b64decode_def)
  ultimately show "\<exists>t. b64encode data = Inr t \<and> length t = b64_len (length data) \<and> b64decode t True = Inr data \<and>
      (\<forall>t'. length t' < usize_lim \<and> filter (b64_keeps 0x2B 0x2F) t' = t \<longrightarrow> b64decode t' False = Inr data)"
    by (auto simp: b64_spec_len)
  show "rbind (urlsafe_b64encode data) (\<lambda>t. urlsafe_b64decode t True) = Inr data"
    using urlsafe.round_trip [OF assms] by (simp add: urlsafe_b64encode_def urlsafe_b64decode_def)
  show "rbind (b16encode data) (\<lambda>t. b16decode t casefold) = Inr data" if "2 * length data + 2 < usize_lim"
    by (rule b16_round_trip [OF that])
qed

lemma base64_decoder_accepts:
  assumes "length data + 4 < usize_lim"
  shows "decoded (b64_text 0x2B 0x2F data) (3 * (length data div 4) - pads data) (b64decode data True) \<and>
    decoded (b64_text 0x2D 0x5F data) (3 * (length data div 4) - pads data) (urlsafe_b64decode data True)"
  using strict_decode [OF assms, of "0x2B" "0x2F"] strict_decode [OF assms, of "0x2D" "0x5F"]
  by (simp add: in_alphabet_def std.pad_value urlsafe.pad_value b64decode_def urlsafe_b64decode_def)

text \<open>
  C27.  Base64: encoding never panics and never leaves its buffer, its output has the length
  of RFC 4648, and decoding gives the bytes back -- for both alphabets in the strict mode, in the
  lenient mode also after characters outside the alphabet were inserted anywhere, and for
  base16 in both cases.  The strict decoder accepts exactly the well-formed texts -- groups of four characters
  of the alphabet with at most two pads at the end -- and returns three bytes per group less the pads; every
  other input is a \<^verbatim>\<open>Base64Error\<close>, never a panic and never an access outside a buffer.
\<close>

theorem base64_round_trip:
  assumes "b64_len (length data) + 4 < usize_lim" and "length txt + 4 < usize_lim"
  shows "(\<exists>t. b64encode data = Inr t \<and> length t = b64_len (length data) \<and> b64decode t True = Inr data \<and>
      (\<forall>t'. length t' < usize_lim \<and> filter (b64_keeps 0x2B 0x2F) t' = t \<longrightarrow> b64decode t' False = Inr data)) \<and>
    rbind (urlsafe_b64encode data) (\<lambda>t. urlsafe_b64decode t True) = Inr data \<and>
    (2 * length data + 2 < usize_lim \<longrightarrow> rbind (b16encode data) (\<lambda>t. b16decode t casefold) = Inr data) \<and>
    decoded (b64_text 0x2B 0x2F txt) (3 * (length txt div 4) - pads txt) (b64decode txt True) \<and>
    decoded (b64_text 0x2D 0x5F txt) (3 * (length txt div 4) - pads txt) (urlsafe_b64decode txt True)"
  using base64_inverse [OF assms(1), of casefold] base64_decoder_accepts [OF assms(2)] by blast

theorem base64_round_trip_witness:
  "rbind (urlsafe_b64encode [0x4D, 0x61]) (\<lambda>t. urlsafe_b64decode t True) = Inr [0x4D, 0x61] \<and>
   decoded False 2 (b64decode [0x51, 0x51, 0x0A, 0x3D] True)"
  using base64_round_trip [of "[0x4D, 0x61]" "[0x51, 0x51, 0x0A, 0x3D]" False]
  by (simp add: b64_len_def usize_lim_def b64_text_def pads_def PAD_def in_alphabet_def b64_char_value_def)

end
