(* ===== verification/Lib_Bitstream.thy ===== *)
theory Lib_Bitstream
  imports Lib_Bytes
begin

unbundle bit_operations_syntax

text \<open>
  \<^verbatim>\<open>src/lib/bitstream.py\<close>: bits written to and read from bytes, least significant bit first.  The bit
  buffers are 32-bit numbers, written as natural numbers with the wrap-around of the source.  Byte positions stay within
  a buffer, whose length is a \<^verbatim>\<open>usize\<close>, so that adding 1 to one does not wrap.  A reader is not used
  after an error, so an error carries no state.
\<close>

subsection \<open>Writing\<close>

record bit_writer =
  bw_buf :: "u8 list"
  bw_used :: nat
  bw_bitbuf :: nat
  bw_bitcount :: nat

definition bw_init :: bit_writer where
  "bw_init = \<lparr>bw_buf = replicate 64 0, bw_used = 0, bw_bitbuf = 0, bw_bitcount = 0\<rparr>"

definition bytearray_resize :: "nat \<Rightarrow> u8 list \<Rightarrow> u8 list" where
  "bytearray_resize new_size xs = take new_size xs @ replicate (new_size - length xs) 0"

definition push_byte :: "u8 \<Rightarrow> bit_writer \<Rightarrow> bit_writer res" where
  "push_byte b w =
     (let buf = (if bw_used w = length (bw_buf w) then bytearray_resize (wrap64 (length (bw_buf w) * 2)) (bw_buf w) else bw_buf w) in
      rbind (ptr_store (bw_used w) b buf) (\<lambda>buf'. Inr (w\<lparr>bw_buf := buf', bw_used := bw_used w + 1\<rparr>)))"

lemma push_byte_keeps: "push_byte b w = Inr w' \<Longrightarrow> bw_bitcount w' = bw_bitcount w \<and> bw_bitbuf w' = bw_bitbuf w"
  by (auto simp: push_byte_def Let_def rbind_Inr)

function flush_bytes :: "bit_writer \<Rightarrow> bit_writer res" where
  "flush_bytes w =
     (if bw_bitcount w \<ge> 8 then
        rbind (push_byte (of_nat (bw_bitbuf w AND 0xFF)) w) (\<lambda>w'.
        flush_bytes (w'\<lparr>bw_bitbuf := drop_bit 8 (bw_bitbuf w'), bw_bitcount := bw_bitcount w' - 8\<rparr>))
      else Inr w)"
  by pat_completeness auto
termination
  by (relation "measure bw_bitcount") (auto dest!: push_byte_keeps)

declare flush_bytes.simps [simp del]

definition write_bits :: "nat \<Rightarrow> nat \<Rightarrow> bit_writer \<Rightarrow> bit_writer res" where
  "write_bits value nbits w =
     (let msk = wsub32 (wrap32 (push_bit nbits 1)) 1 in
      flush_bytes (w\<lparr>bw_bitbuf := bw_bitbuf w OR wrap32 (push_bit (bw_bitcount w) (value AND msk)),
                     bw_bitcount := wrap32 (bw_bitcount w + nbits)\<rparr>))"

definition bw_align_to_byte :: "bit_writer \<Rightarrow> bit_writer res" where
  "bw_align_to_byte w =
     (if bw_bitcount w > 0
      then rbind (push_byte (of_nat (bw_bitbuf w AND 0xFF)) w) (\<lambda>w'. Inr (w'\<lparr>bw_bitbuf := 0, bw_bitcount := 0\<rparr>))
      else Inr w)"

fun write_aligned_bytes :: "u8 list \<Rightarrow> bit_writer \<Rightarrow> bit_writer res" where
  "write_aligned_bytes [] w = Inr w"
| "write_aligned_bytes (b # bs) w = rbind (push_byte b w) (write_aligned_bytes bs)"

definition bw_byte_len :: "bit_writer \<Rightarrow> nat" where
  "bw_byte_len w = bw_used w"

definition bw_finish :: "bit_writer \<Rightarrow> (u8 list \<times> bit_writer) res" where
  "bw_finish w =
     rbind (bw_align_to_byte w) (\<lambda>w'.
     Inr (bytearray_resize (bw_used w') (bw_buf w'), w'\<lparr>bw_buf := []\<rparr>))"

subsection \<open>Reading\<close>

record bit_reader =
  br_data :: "u8 list"
  br_pos :: nat
  br_bitbuf :: nat
  br_bitcount :: nat

definition br_init :: "u8 list \<Rightarrow> bit_reader" where
  "br_init data = \<lparr>br_data = data, br_pos = 0, br_bitbuf = 0, br_bitcount = 0\<rparr>"

function br_fill :: "nat \<Rightarrow> bit_reader \<Rightarrow> bit_reader res" where
  "br_fill nbits r =
     (if br_bitcount r < nbits then
        if br_pos r = length (br_data r) then Inl (BitstreamError ''read_bits: unexpected end of stream'')
        else
          rbind (ptr_load (br_pos r) (br_data r)) (\<lambda>b.
          br_fill nbits (r\<lparr>br_bitbuf := br_bitbuf r OR wrap32 (push_bit (br_bitcount r) (unat b)),
                          br_pos := br_pos r + 1, br_bitcount := wrap32 (br_bitcount r + 8)\<rparr>))
      else Inr r)"
  by pat_completeness auto
termination
  by (relation "measure (\<lambda>(_, r). length (br_data r) - br_pos r)") (auto simp: ptr_load_def split: if_splits)

declare br_fill.simps [simp del]

definition read_bits :: "nat \<Rightarrow> bit_reader \<Rightarrow> (nat \<times> bit_reader) res" where
  "read_bits nbits r =
     rbind (br_fill nbits r) (\<lambda>r.
     let msk = wsub32 (wrap32 (push_bit nbits 1)) 1; result = br_bitbuf r AND msk in
     Inr (result, r\<lparr>br_bitbuf := drop_bit nbits (br_bitbuf r), br_bitcount := br_bitcount r - nbits\<rparr>))"

text \<open>The number of bits a reader has left, with which loops that read end.\<close>

definition br_left :: "bit_reader \<Rightarrow> nat" where
  "br_left r = 8 * (length (br_data r) - br_pos r) + br_bitcount r"

lemma br_fill_left: "br_fill n r = Inr r' \<Longrightarrow> n \<le> 16 \<Longrightarrow> br_left r' = br_left r \<and> n \<le> br_bitcount r'"
proof (induction n r arbitrary: r' rule: br_fill.induct)
  case (1 n r)
  show ?case
  proof (cases "br_bitcount r < n")
    case True
    then have ne: "br_pos r \<noteq> length (br_data r)" using 1(2) by (auto simp: br_fill.simps [of n r])
    then obtain b where b: "ptr_load (br_pos r) (br_data r) = Inr b" using 1(2) True by (auto simp: br_fill.simps [of n r] rbind_Inr)
    then have "br_pos r < length (br_data r)" by (simp add: ptr_load_def split: if_splits)
    then show ?thesis using "1.IH" [OF True ne b] 1(2, 3) True ne b by (simp add: br_fill.simps [of n r] br_left_def)
  qed (use 1(2) in \<open>simp add: br_fill.simps [of n r]\<close>)
qed

lemma read_bits_left: "read_bits n r = Inr (v, r') \<Longrightarrow> n \<le> 16 \<Longrightarrow> br_left r' + n = br_left r"
  by (auto simp: read_bits_def rbind_Inr Let_def br_left_def dest!: br_fill_left)

definition br_align_to_byte :: "bit_reader \<Rightarrow> bit_reader" where
  "br_align_to_byte r = r\<lparr>br_bitbuf := 0, br_bitcount := 0\<rparr>"

definition read_aligned_bytes :: "nat \<Rightarrow> bit_reader \<Rightarrow> (u8 list \<times> bit_reader) res" where
  "read_aligned_bytes cnt r =
     rbind (fits ''bounded by __len, cannot overflow'' (br_pos r + cnt)) (\<lambda>e.
     if e > length (br_data r) then Inl (BitstreamError ''read_aligned_bytes: unexpected end of stream'')
     else Inr (take cnt (drop (br_pos r) (br_data r)), r\<lparr>br_pos := e\<rparr>))"

definition bits_remaining :: "bit_reader \<Rightarrow> nat" where
  "bits_remaining r = wrap64 (wsub64 (length (br_data r)) (br_pos r) * 8 + br_bitcount r)"

end
