(* ===== verification/Lib_Huffman.thy ===== *)
theory Lib_Huffman
  imports Lib_Bitstream
begin

unbundle bit_operations_syntax

text \<open>
  \<^verbatim>\<open>src/lib/huffman.py\<close>: canonical Huffman codes from code lengths, in both directions, and code
  lengths from frequencies.  Machine integers are numbers with the wrap-around or the panic
  of the source; an \<^verbatim>\<open>UnsafeList\<close> is the list it implements.  The table of one entry per
  code length that is copied entry by entry is taken as it is.
\<close>

definition MAX_BITS :: nat where "MAX_BITS = 15"
definition TABLE_SIZE :: nat where "TABLE_SIZE = 16"

definition wrap_i32 :: "int \<Rightarrow> int" where
  "wrap_i32 x = (x + 2 ^ 31) mod 2 ^ 32 - 2 ^ 31"

subsection \<open>Counting code lengths\<close>

fun tally_lengths :: "nat list \<Rightarrow> nat list \<Rightarrow> nat list res" where
  "tally_lengths [] cnt = Inr cnt"
| "tally_lengths (l # ls) cnt =
     (if l > MAX_BITS then Inl (HuffmanError InvalidCodeLength)
      else
        rbind (if l > 0
               then rbind (list_get ''idx <= MAX_BITS'' l cnt) (\<lambda>prev. list_set ''idx <= MAX_BITS'' l (wrap16 (prev + 1)) cnt)
               else Inr cnt) (tally_lengths ls))"

function check_left :: "nat list \<Rightarrow> int \<Rightarrow> nat \<Rightarrow> unit res" where
  "check_left cnt left bits =
     (if bits \<le> MAX_BITS then
        rbind (list_get ''bits <= MAX_BITS'' bits cnt) (\<lambda>c.
        let left' = wrap_i32 (wrap_i32 (left * 2) - int c) in
        if left' < 0 then Inl (HuffmanError OversubscribedCode) else check_left cnt left' (bits + 1))
      else Inr ())"
  by pat_completeness auto
termination
  by (relation "measure (\<lambda>(_, _, bits). MAX_BITS + 1 - bits)") auto

declare check_left.simps [simp del]

definition count_per_length :: "nat list \<Rightarrow> nat list res" where
  "count_per_length code_lengths =
     rbind (tally_lengths code_lengths (replicate TABLE_SIZE 0)) (\<lambda>cnt.
     rbind (check_left cnt 1 1) (\<lambda>_. Inr cnt))"

subsection \<open>Codes\<close>

function first_codes :: "nat list \<Rightarrow> nat \<Rightarrow> nat \<Rightarrow> nat list \<Rightarrow> nat list res" where
  "first_codes cnt code bits first_code =
     (if bits \<le> MAX_BITS then
        rbind (list_get ''bits-1 <= MAX_BITS'' (bits - 1) cnt) (\<lambda>prev_count.
        let code' = wrap32 (wrap32 (code + prev_count) * 2) in
        rbind (list_set ''bits <= MAX_BITS'' bits code' first_code) (first_codes cnt code' (bits + 1)))
      else Inr first_code)"
  by pat_completeness auto
termination
  by (relation "measure (\<lambda>(_, _, bits, _). MAX_BITS + 1 - bits)") auto

declare first_codes.simps [simp del]

fun assign_codes :: "nat list \<Rightarrow> nat list \<Rightarrow> nat list \<Rightarrow> nat list res" where
  "assign_codes [] next_code codes = Inr codes"
| "assign_codes (l # ls) next_code codes =
     (if l = 0 then assign_codes ls next_code (codes @ [0])
      else
        rbind (list_get ''len_idx <= MAX_BITS'' l next_code) (\<lambda>c.
        rbind (list_set ''len_idx <= MAX_BITS'' l (wrap32 (c + 1)) next_code) (\<lambda>next_code'.
        rbind (u16_panic ''bounded by n, cannot overflow'' c) (\<lambda>c'.
        assign_codes ls next_code' (codes @ [c'])))))"

definition canonical_codes_from_lengths :: "nat list \<Rightarrow> nat list res" where
  "canonical_codes_from_lengths code_lengths =
     rbind (count_per_length code_lengths) (\<lambda>cnt.
     rbind (first_codes cnt 0 1 (replicate TABLE_SIZE 0)) (\<lambda>next_code.
     assign_codes code_lengths next_code []))"

subsection \<open>Encoder\<close>

record huffman_encoder =
  he_codes :: "nat list"
  he_lengths :: "nat list"

definition huffman_encoder_init :: "nat list \<Rightarrow> huffman_encoder res" where
  "huffman_encoder_init code_lengths =
     rbind (canonical_codes_from_lengths code_lengths) (\<lambda>codes. Inr \<lparr>he_codes = codes, he_lengths = code_lengths\<rparr>)"

definition code_for :: "huffman_encoder \<Rightarrow> nat \<Rightarrow> (nat \<times> nat) res" where
  "code_for e symbol =
     rbind (list_get ''symbol within alphabet'' symbol (he_lengths e)) (\<lambda>l.
     if l = 0 then Inl (HuffmanError NoSymbolMatched)
     else rbind (list_get ''symbol within alphabet'' symbol (he_codes e)) (\<lambda>code. Inr (code, l)))"

text \<open>The loop that reverses the bits, by the number of bits left.\<close>

fun reverse_code :: "nat \<Rightarrow> nat \<Rightarrow> nat \<Rightarrow> nat" where
  "reverse_code 0 reversed_code c = reversed_code"
| "reverse_code (Suc k) reversed_code c = reverse_code k (wrap32 (push_bit 1 reversed_code) OR (c AND 1)) (drop_bit 1 c)"

definition write_symbol :: "huffman_encoder \<Rightarrow> nat \<Rightarrow> bit_writer \<Rightarrow> bit_writer res" where
  "write_symbol e symbol w =
     rbind (code_for e symbol) (\<lambda>(code, l). write_bits (reverse_code l 0 code) l w)"

subsection \<open>Decoder\<close>

record huffman_decoder =
  hd_count :: "nat list"
  hd_symbols :: "nat list"

function offsets :: "nat list \<Rightarrow> nat \<Rightarrow> nat list \<Rightarrow> nat list res" where
  "offsets cnt bits offs =
     (if bits < MAX_BITS then
        rbind (list_get ''bits <= MAX_BITS'' bits offs) (\<lambda>prev_offs.
        rbind (list_get ''bits <= MAX_BITS'' bits cnt) (\<lambda>prev_count.
        rbind (list_set ''bits+1 <= MAX_BITS'' (bits + 1) (wrap16 (prev_offs + prev_count)) offs) (offsets cnt (bits + 1))))
      else Inr offs)"
  by pat_completeness auto
termination
  by (relation "measure (\<lambda>(_, bits, _). MAX_BITS - bits)") auto

declare offsets.simps [simp del]

function count_used :: "nat list \<Rightarrow> nat \<Rightarrow> nat \<Rightarrow> nat res" where
  "count_used cnt b2 total_used =
     (if b2 \<le> MAX_BITS then
        rbind (list_get ''b2 <= MAX_BITS'' b2 cnt) (\<lambda>c. count_used cnt (b2 + 1) (wrap64 (total_used + c)))
      else Inr total_used)"
  by pat_completeness auto
termination
  by (relation "measure (\<lambda>(_, b2, _). MAX_BITS + 1 - b2)") auto

declare count_used.simps [simp del]

fun place_symbols :: "nat list \<Rightarrow> nat \<Rightarrow> nat list \<Rightarrow> nat list \<Rightarrow> nat list res" where
  "place_symbols [] symb offs symbols = Inr symbols"
| "place_symbols (l # ls) symb offs symbols =
     (if l > 0 then
        rbind (list_get ''len_idx <= MAX_BITS'' l offs) (\<lambda>slot.
        rbind (u16_panic ''bounded by n, cannot overflow'' symb) (\<lambda>s.
        rbind (list_set ''slot < total_used by construction'' slot s symbols) (\<lambda>symbols'.
        rbind (list_set ''len_idx <= MAX_BITS'' l (wrap16 (slot + 1)) offs) (\<lambda>offs'.
        place_symbols ls (symb + 1) offs' symbols'))))
      else place_symbols ls (symb + 1) offs symbols)"

definition huffman_decoder_init :: "nat list \<Rightarrow> huffman_decoder res" where
  "huffman_decoder_init code_lengths =
     rbind (count_per_length code_lengths) (\<lambda>cnt.
     rbind (offsets cnt 1 (replicate TABLE_SIZE 0)) (\<lambda>offs.
     rbind (count_used cnt 1 0) (\<lambda>total_used.
     rbind (place_symbols code_lengths 0 offs (replicate total_used 0)) (\<lambda>symbols.
     Inr \<lparr>hd_count = cnt, hd_symbols = symbols\<rparr>))))"

function decode_loop :: "huffman_decoder \<Rightarrow> nat \<Rightarrow> nat \<Rightarrow> nat \<Rightarrow> nat \<Rightarrow> bit_reader \<Rightarrow> (nat \<times> bit_reader) res" where
  "decode_loop d code0 first index bits r =
     (if bits \<le> MAX_BITS then
        rbind (map_err (HuffmanError UnexpectedEndOfStream) (read_bits 1 r)) (\<lambda>(bit, r').
        let code = code0 OR bit in
        rbind (list_get ''bits <= MAX_BITS'' bits (hd_count d)) (\<lambda>cnt.
        rbind (sub_panic ''code >= first always holds within a validated table'' code first) (\<lambda>offset.
        if offset < cnt then
          rbind (list_get ''idx within symbols bounds by construction'' (wrap64 (index + offset)) (hd_symbols d)) (\<lambda>symb. Inr (symb, r'))
        else decode_loop d (wrap32 (code * 2)) (wrap32 (wrap32 (first + cnt) * 2)) (wrap32 (index + cnt)) (bits + 1) r')))
      else Inl (HuffmanError NoSymbolMatched))"
  by pat_completeness auto
termination
  by (relation "measure (\<lambda>(_, _, _, _, bits, _). MAX_BITS + 1 - bits)") auto

declare decode_loop.simps [simp del]

lemma decode_loop_left: "decode_loop d code first index bits r = Inr (s, r') \<Longrightarrow> br_left r' < br_left r"
proof (induction d code first index bits r arbitrary: s r' rule: decode_loop.induct)
  case (1 d code first index bits r)
  from 1(2) have le: "bits \<le> MAX_BITS" by (subst (asm) decode_loop.simps) (auto split: if_splits)
  with 1(2) obtain bit r1 where b: "read_bits 1 r = Inr (bit, r1)"
    by (subst (asm) decode_loop.simps) (auto simp: rbind_Inr split: if_splits)
  have left: "br_left r1 < br_left r" using read_bits_left [OF b] by simp
  from 1(2) le b obtain cnt offset where c: "list_get ''bits <= MAX_BITS'' bits (hd_count d) = Inr cnt"
    "sub_panic ''code >= first always holds within a validated table'' (code OR bit) first = Inr offset"
    and r: "(if offset < cnt then rbind (list_get ''idx within symbols bounds by construction'' (wrap64 (index + offset)) (hd_symbols d)) (\<lambda>s. Inr (s, r1))
      else decode_loop d (wrap32 ((code OR bit) * 2)) (wrap32 (wrap32 (first + cnt) * 2)) (wrap32 (index + cnt)) (bits + 1) r1) = Inr (s, r')"
    by (subst (asm) decode_loop.simps) (auto simp: rbind_Inr Let_def simp del: list_get_eq)
  show ?case
  proof (cases "offset < cnt")
    case True
    then show ?thesis using r left by (auto simp: rbind_Inr)
  next
    case False
    have "br_left r' < br_left r1"
      by (rule "1.IH" [OF le _ _ refl c False]) (use b r False in auto)
    then show ?thesis using left by simp
  qed
qed

definition huffman_decode :: "huffman_decoder \<Rightarrow> bit_reader \<Rightarrow> (nat \<times> bit_reader) res" where
  "huffman_decode d r = decode_loop d 0 0 0 1 r"

lemma huffman_decode_left: "huffman_decode d r = Inr (s, r') \<Longrightarrow> br_left r' < br_left r"
  by (auto simp: huffman_decode_def dest: decode_loop_left)

subsection \<open>Code lengths from frequencies\<close>

fun used_symbols :: "nat list \<Rightarrow> nat \<Rightarrow> nat list \<Rightarrow> nat list res" where
  "used_symbols [] symb used = Inr used"
| "used_symbols (f # fs) symb used =
     (if f > 0 then rbind (u16_panic ''bounded by n, cannot overflow'' symb) (\<lambda>s. used_symbols fs (symb + 1) (used @ [s]))
      else used_symbols fs (symb + 1) used)"

record forest =
  weight :: "nat list"
  left_child :: "int list"
  right_child :: "int list"
  active :: "bool list"

definition add_node :: "nat \<Rightarrow> int \<Rightarrow> int \<Rightarrow> forest \<Rightarrow> forest" where
  "add_node w l r F = F\<lparr>weight := weight F @ [w], left_child := left_child F @ [l], right_child := right_child F @ [r],
     active := active F @ [True]\<rparr>"

fun add_leaves :: "nat list \<Rightarrow> nat list \<Rightarrow> forest \<Rightarrow> forest res" where
  "add_leaves freqs [] F = Inr F"
| "add_leaves freqs (leaf_sym # used) F =
     rbind (list_get ''leaf_sym < n'' leaf_sym freqs) (\<lambda>leaf_freq. add_leaves freqs used (add_node leaf_freq (- 1) (- 1) F))"

function scan_min :: "forest \<Rightarrow> nat \<Rightarrow> nat \<Rightarrow> int \<Rightarrow> int \<Rightarrow> nat \<Rightarrow> nat \<Rightarrow> (int \<times> int \<times> nat \<times> nat) res" where
  "scan_min F node_count scan a b a_w b_w =
     (if scan < node_count then
        rbind (list_get ''scan < node_count'' scan (active F)) (\<lambda>act.
        rbind (if act then
                 rbind (list_get ''scan < node_count'' scan (weight F)) (\<lambda>w.
                 if w < a_w then rbind (i32_panic ''bounded by used_count, cannot overflow'' scan) (\<lambda>s. Inr (s, a, w, a_w))
                 else if w < b_w then rbind (i32_panic ''bounded by used_count, cannot overflow'' scan) (\<lambda>s. Inr (a, s, a_w, w))
                 else Inr (a, b, a_w, b_w))
               else Inr (a, b, a_w, b_w)) (\<lambda>(a, b, a_w, b_w). scan_min F node_count (scan + 1) a b a_w b_w))
      else Inr (a, b, a_w, b_w))"
  by pat_completeness auto
termination
  by (relation "measure (\<lambda>(_, n, scan, _). n - scan)") auto

declare scan_min.simps [simp del]

text \<open>One merge of the two lightest trees.\<close>

definition merge_step :: "nat \<Rightarrow> forest \<Rightarrow> forest res" where
  "merge_step node_count F =
     rbind (scan_min F node_count 0 (- 1) (- 1) 0xFFFFFFFF 0xFFFFFFFF) (\<lambda>(a, b, a_w, b_w).
     rbind (usize_panic ''bounded by used_count, cannot overflow'' a) (\<lambda>ai.
     rbind (list_set ''a valid index'' ai False (active F)) (\<lambda>act.
     rbind (usize_panic ''bounded by used_count, cannot overflow'' b) (\<lambda>bi.
     rbind (list_set ''b valid index'' bi False act) (\<lambda>act.
     Inr (add_node (wrap32 (a_w + b_w)) a b (F\<lparr>active := act\<rparr>)))))))"

function merge_loop :: "nat \<Rightarrow> nat \<Rightarrow> nat \<Rightarrow> forest \<Rightarrow> (nat \<times> forest) res" where
  "merge_loop used_count node_count step F =
     rbind (sub_panic ''bounded by used_count, cannot overflow'' used_count 1) (\<lambda>stop.
     if step < stop then rbind (merge_step node_count F) (merge_loop used_count (node_count + 1) (step + 1))
     else Inr (node_count, F))"
  by pat_completeness auto
termination
  by (relation "measure (\<lambda>(u, _, step, _). u - step)") (auto simp: sub_panic_def split: if_splits)

declare merge_loop.simps [simp del]

text \<open>
  The walk that finds the depths.  Each node is popped once, so \<open>capacity\<close> steps are enough; the
  first argument counts them down.
\<close>

fun depth_loop :: "nat \<Rightarrow> forest \<Rightarrow> int list \<Rightarrow> nat list \<Rightarrow> nat list \<Rightarrow> nat \<Rightarrow> (nat list \<times> nat) res" where
  "depth_loop fuel F node_stack depth_stack depth max_depth =
     (if node_stack = [] then Inr (depth, max_depth)
      else
        (case fuel of 0 \<Rightarrow> Inl Diverges
         | Suc fuel' \<Rightarrow>
           let last_idx = length node_stack - 1 in
           rbind (list_get ''last valid'' last_idx node_stack) (\<lambda>idx.
           rbind (list_get ''last valid'' last_idx depth_stack) (\<lambda>d.
           let ns = take last_idx node_stack; ds = take last_idx depth_stack in
           rbind (usize_panic ''idx valid'' idx) (\<lambda>i.
           rbind (list_get ''idx valid'' i (left_child F)) (\<lambda>lc.
           rbind (list_get ''idx valid'' i (right_child F)) (\<lambda>rc.
           if lc = - 1 then
             rbind (list_set ''idx valid'' i d depth) (\<lambda>depth'.
             depth_loop fuel' F ns ds depth' (if d > max_depth then d else max_depth))
           else
             (let child_depth = (d + 1) mod 256 in
              depth_loop fuel' F (ns @ [lc, rc]) (ds @ [child_depth, child_depth]) depth max_depth))))))))"

declare depth_loop.simps [simp del]

fun leaf_lengths :: "nat list \<Rightarrow> nat \<Rightarrow> nat list \<Rightarrow> nat list \<Rightarrow> nat list res" where
  "leaf_lengths [] fi depth lengths = Inr lengths"
| "leaf_lengths (leaf_sym # used) fi depth lengths =
     rbind (list_get ''fi < used_count, leaves are indices [0,used_count)'' fi depth) (\<lambda>leaf_depth.
     rbind (list_set ''leaf_sym2 < n'' leaf_sym leaf_depth lengths) (leaf_lengths used (fi + 1) depth))"

definition build_code_lengths_from_frequencies :: "nat list \<Rightarrow> nat \<Rightarrow> nat list res" where
  "build_code_lengths_from_frequencies freqs max_code_length =
     rbind (used_symbols freqs 0 []) (\<lambda>used.
     let lengths = replicate (length freqs) 0; used_count = length used in
     if used_count = 0 then Inr lengths
     else if used_count = 1 then
       rbind (list_get ''used_count == 1'' 0 used) (\<lambda>only_sym. list_set ''only_sym < n'' only_sym 1 lengths)
     else
       (let msg = ''used_count >= 2, capacity fits comfortably within a usize'' in
        rbind (fits msg (2 * used_count)) (\<lambda>c2.
        rbind (sub_panic msg c2 1) (\<lambda>capacity.
        rbind (add_leaves freqs used \<lparr>weight = [], left_child = [], right_child = [], active = []\<rparr>) (\<lambda>F.
        rbind (merge_loop used_count used_count 0 F) (\<lambda>(node_count, F).
        rbind (sub_panic ''node_count == capacity, both derived from used_count'' node_count 1) (\<lambda>root.
        rbind (i32_panic ''root < capacity <= 2*used_count-1, well within i32 range'' root) (\<lambda>root_i.
        rbind (depth_loop capacity F [root_i] [0] (replicate capacity 0) 0) (\<lambda>(depth, max_depth).
        if max_depth > max_code_length then Inl (HuffmanError CodeTooLong)
        else leaf_lengths used 0 depth lengths)))))))))"

end
