(* ===== verification/Lib_Lz77.thy ===== *)
theory Lib_Lz77
  imports Lib_Bytes
begin

unbundle bit_operations_syntax

text \<open>
  \<^verbatim>\<open>src/lib/lz77.py\<close>: matches found with hash chains, and their replay.  The lists of chain heads and
  links are those of the source, with \<open>-1\<close> for no position.
\<close>

definition MIN_MATCH :: nat where "MIN_MATCH = 3"
definition MAX_MATCH :: nat where "MAX_MATCH = 258"
definition MAX_DISTANCE :: nat where "MAX_DISTANCE = 32768"
definition HASH_SIZE :: nat where "HASH_SIZE = 32768"

datatype lz77_token = Literal u8 | Match nat nat

abbreviation by_n :: string where "by_n \<equiv> ''bounded by n, cannot overflow''"

definition hash3 :: "u8 list \<Rightarrow> nat \<Rightarrow> nat res" where
  "hash3 data pos =
     rbind (ptr_load pos data) (\<lambda>b0.
     rbind (ptr_load (wrap64 (pos + 1)) data) (\<lambda>b1.
     rbind (ptr_load (wrap64 (pos + 2)) data) (\<lambda>b2.
     let h = unat b0; h = wrap32 (push_bit 5 h) XOR unat b1; h = wrap32 (push_bit 5 h) XOR unat b2 in
     Inr (h AND (HASH_SIZE - 1)))))"

function match_loop :: "u8 list \<Rightarrow> nat \<Rightarrow> nat \<Rightarrow> nat \<Rightarrow> nat \<Rightarrow> nat res" where
  "match_loop data a b max_len len =
     (if len < max_len then
        (let msg = ''bounded by max_len, cannot overflow'' in
         rbind (fits msg (a + len)) (\<lambda>i. rbind (ptr_load i data) (\<lambda>x.
         rbind (fits msg (b + len)) (\<lambda>j. rbind (ptr_load j data) (\<lambda>y.
         if x = y then match_loop data a b max_len (len + 1) else Inr len)))))
      else Inr len)"
  by pat_completeness auto
termination
  by (relation "measure (\<lambda>(_, _, _, m, l). m - l)") auto

declare match_loop.simps [simp del]

definition match_length :: "u8 list \<Rightarrow> nat \<Rightarrow> nat \<Rightarrow> nat \<Rightarrow> nat res" where
  "match_length data a b n =
     rbind (sub_panic ''b <= n, cannot underflow'' n b) (\<lambda>max_len.
     match_loop data a b (if max_len > MAX_MATCH then MAX_MATCH else max_len) 0)"

subsection \<open>Finding matches\<close>

text \<open>The search along a hash chain.\<close>

function chain_loop :: "u8 list \<Rightarrow> int list \<Rightarrow> nat \<Rightarrow> nat \<Rightarrow> int \<Rightarrow> nat \<Rightarrow> nat \<Rightarrow> nat \<Rightarrow> (nat \<times> nat) res" where
  "chain_loop data prev pos max_chain candidate best_len best_dist chain_len =
     (if candidate \<noteq> - 1 \<and> chain_len < max_chain then
        rbind (usize_panic by_n candidate) (\<lambda>cand_pos.
        rbind (sub_panic ''cand_pos <= pos, cand_pos is an earlier position'' pos cand_pos) (\<lambda>dist.
        rbind (if dist \<le> MAX_DISTANCE
               then rbind (match_length data cand_pos pos (length data)) (\<lambda>match_len.
                    Inr (if match_len > best_len then (match_len, dist, match_len \<ge> MAX_MATCH) else (best_len, best_dist, False)))
               else Inr (best_len, best_dist, False)) (\<lambda>(best_len, best_dist, stop).
        if stop then Inr (best_len, best_dist)
        else
          rbind (list_get ''cand_pos < n'' cand_pos prev) (\<lambda>candidate'.
          rbind (fits by_n (chain_len + 1)) (\<lambda>chain_len'.
          chain_loop data prev pos max_chain candidate' best_len best_dist chain_len')))))
      else Inr (best_len, best_dist))"
  by pat_completeness auto
termination
  by (relation "measure (\<lambda>(_, _, _, m, _, _, _, c). m - c)") auto

declare chain_loop.simps [simp del]

text \<open>\<^verbatim>\<open>prev[pos] = head[h]; head[h] = pos\<close>.\<close>

definition enter_position :: "nat \<Rightarrow> nat \<Rightarrow> int list \<times> int list \<Rightarrow> (int list \<times> int list) res" where
  "enter_position h pos hp =
     (case hp of (head, prev) \<Rightarrow>
      rbind (list_get ''h < HASH_SIZE'' h head) (\<lambda>c.
      rbind (list_set ''pos < n'' pos c prev) (\<lambda>prev'.
      rbind (i32_panic by_n pos) (\<lambda>p.
      rbind (list_set ''h < HASH_SIZE'' h p head) (\<lambda>head'. Inr (head', prev'))))))"

function insert_loop :: "u8 list \<Rightarrow> nat \<Rightarrow> nat \<Rightarrow> int list \<times> int list \<Rightarrow> (int list \<times> int list) res" where
  "insert_loop data match_end j hp =
     (if j < match_end then
        rbind (fits by_n (j + MIN_MATCH)) (\<lambda>e.
        if e \<le> length data then
          rbind (hash3 data j) (\<lambda>hj. rbind (enter_position hj j hp) (\<lambda>hp'. insert_loop data match_end (j + 1) hp'))
        else Inr hp)
      else Inr hp)"
  by pat_completeness auto
termination
  by (relation "measure (\<lambda>(_, m, j, _). m - j)") auto

declare insert_loop.simps [simp del]

function find_loop :: "u8 list \<Rightarrow> nat \<Rightarrow> nat \<Rightarrow> int list \<times> int list \<Rightarrow> lz77_token list \<Rightarrow> lz77_token list res" where
  "find_loop data max_chain pos hp tokens =
     (if pos < length data then
        rbind (fits by_n (pos + MIN_MATCH)) (\<lambda>e.
        if \<not> e \<le> length data then
          rbind (ptr_load pos data) (\<lambda>b. rbind (fits by_n (pos + 1)) (\<lambda>pos'. find_loop data max_chain pos' hp (tokens @ [Literal b])))
        else
          rbind (hash3 data pos) (\<lambda>h.
          rbind (list_get ''h < HASH_SIZE'' h (fst hp)) (\<lambda>candidate.
          rbind (chain_loop data (snd hp) pos max_chain candidate 0 0 0) (\<lambda>(best_len, best_dist).
          rbind (enter_position h pos hp) (\<lambda>hp'.
          if best_len \<ge> MIN_MATCH then
            (let msg = ''both bounded by RFC 1951 limits, fit in u16'' in
             rbind (u16_panic msg best_len) (\<lambda>l.
             rbind (u16_panic msg best_dist) (\<lambda>d.
             rbind (fits by_n (pos + 1)) (\<lambda>j.
             rbind (fits by_n (pos + best_len)) (\<lambda>match_end.
             rbind (insert_loop data match_end j hp') (\<lambda>hp''.
             find_loop data max_chain match_end hp'' (tokens @ [Match l d])))))))
          else
            rbind (ptr_load pos data) (\<lambda>b. rbind (fits by_n (pos + 1)) (\<lambda>pos'. find_loop data max_chain pos' hp' (tokens @ [Literal b]))))))))
      else Inr tokens)"
  by pat_completeness auto
termination
  by (relation "measure (\<lambda>(data, _, pos, _, _). length data - pos)") (auto simp: MIN_MATCH_def)

declare find_loop.simps [simp del]

definition max_chain_of :: "int \<Rightarrow> nat" where
  "max_chain_of level = wrap64 (wrap64 (nat (level mod 2 ^ 64) * 8) + 8)"

definition find_matches :: "u8 list \<Rightarrow> int \<Rightarrow> lz77_token list res" where
  "find_matches data level =
     (if length data < MIN_MATCH then Inr (map Literal data)
      else find_loop data (max_chain_of level) 0 (replicate HASH_SIZE (- 1), replicate (length data) (- 1)) [])"

subsection \<open>Replaying matches\<close>

text \<open>
  The output list, a \<^verbatim>\<open>UnsafeList[u8]\<close> with its capacity: a full one is doubled, and a write behind the
  end of the buffer is a \<open>MemFault\<close>.
\<close>

record out_list =
  ol_cap :: nat
  ol_elems :: "u8 list"

definition ol_init :: "nat \<Rightarrow> out_list" where
  "ol_init cap = \<lparr>ol_cap = cap, ol_elems = []\<rparr>"

definition ol_append :: "u8 \<Rightarrow> out_list \<Rightarrow> out_list res" where
  "ol_append b out =
     rbind (if ol_cap out \<le> length (ol_elems out) then fits ''impossibly large RawList size requested'' (ol_cap out * 2) else Inr (ol_cap out)) (\<lambda>cap.
     if length (ol_elems out) < cap then Inr \<lparr>ol_cap = cap, ol_elems = ol_elems out @ [b]\<rparr> else Inl MemFault)"

function copy_loop :: "nat \<Rightarrow> nat \<Rightarrow> nat \<Rightarrow> out_list \<Rightarrow> out_list res" where
  "copy_loop start len i out =
     (if i < len then
        rbind (fits ''bounded by length, cannot overflow'' (start + i)) (\<lambda>src_idx.
        rbind (list_get ''src_idx always already-written: either original data (src_idx < out_len) or already appended earlier this call (distance >= 1 keeps src_idx behind the write cursor)'' src_idx (ol_elems out)) (\<lambda>b.
        rbind (ol_append b out) (\<lambda>out'. copy_loop start len (i + 1) out')))
      else Inr out)"
  by pat_completeness auto
termination
  by (relation "measure (\<lambda>(_, l, i, _). l - i)") auto

declare copy_loop.simps [simp del]

definition copy_match :: "nat \<Rightarrow> nat \<Rightarrow> out_list \<Rightarrow> out_list res" where
  "copy_match distance len out =
     (let out_len = length (ol_elems out) in
      if distance = 0 \<or> distance > out_len then Inl (LZ77Error ''copy_match: distance out of range'')
      else
        rbind (sub_panic ''distance <= out_len, just checked'' out_len distance) (\<lambda>start. copy_loop start len 0 out))"

end
