(* ===== verification/Lib_Deflate.thy ===== *)
theory Lib_Deflate
  imports Lib_Huffman Lib_Lz77
begin

unbundle bit_operations_syntax

text \<open>
  \<^verbatim>\<open>src/lib/deflate.py\<close>: RFC 1951 blocks.  \<^verbatim>\<open>compress\<close> feeds the tokens of \<^verbatim>\<open>Lib_Lz77\<close> through the
  codes of \<^verbatim>\<open>Lib_Huffman\<close> into a bit writer; \<^verbatim>\<open>decompress\<close> reads the three kinds of blocks back.  Every
  loop that reads consumes bits, so it ends.
\<close>

subsection \<open>Error-converting wrappers\<close>

definition d_read_bits :: "nat \<Rightarrow> string \<Rightarrow> bit_reader \<Rightarrow> (nat \<times> bit_reader) res" where
  "d_read_bits nbits ctx r = map_err (DeflateError ctx) (read_bits nbits r)"

definition build_encoder :: "nat list \<Rightarrow> string \<Rightarrow> huffman_encoder res" where
  "build_encoder lengths ctx = map_err (DeflateError ctx) (huffman_encoder_init lengths)"

definition build_decoder :: "nat list \<Rightarrow> string \<Rightarrow> huffman_decoder res" where
  "build_decoder lengths ctx = map_err (DeflateError ctx) (huffman_decoder_init lengths)"

definition decode_symbol :: "huffman_decoder \<Rightarrow> string \<Rightarrow> bit_reader \<Rightarrow> (nat \<times> bit_reader) res" where
  "decode_symbol d ctx r = map_err (DeflateError ctx) (huffman_decode d r)"

definition d_write_symbol :: "huffman_encoder \<Rightarrow> nat \<Rightarrow> string \<Rightarrow> bit_writer \<Rightarrow> bit_writer res" where
  "d_write_symbol e symbol ctx w = map_err (DeflateError ctx) (write_symbol e symbol w)"

definition build_lengths :: "nat list \<Rightarrow> nat \<Rightarrow> string \<Rightarrow> nat list res" where
  "build_lengths freqs max_len ctx = map_err (DeflateError ctx) (build_code_lengths_from_frequencies freqs max_len)"

definition do_copy_match :: "nat \<Rightarrow> nat \<Rightarrow> string \<Rightarrow> out_list \<Rightarrow> out_list res" where
  "do_copy_match distance len ctx out = map_err (DeflateError ctx) (copy_match distance len out)"

subsection \<open>Tables\<close>

definition CL_ORDER :: "nat list" where
  "CL_ORDER = [16, 17, 18, 0, 8, 7, 9, 6, 10, 5, 11, 4, 12, 3, 13, 2, 14, 1, 15]"

text \<open>The tables are written as pairs of a base and a number of extra bits.\<close>

fun table_bases :: "nat list \<Rightarrow> nat list" where
  "table_bases (b # e # xs) = b # table_bases xs"
| "table_bases _ = []"

fun table_extras :: "nat list \<Rightarrow> nat list" where
  "table_extras (b # e # xs) = e # table_extras xs"
| "table_extras _ = []"

definition length_table :: "nat list" where
  "length_table =
    [3,0, 4,0, 5,0, 6,0, 7,0, 8,0, 9,0, 10,0,
     11,1, 13,1, 15,1, 17,1,
     19,2, 23,2, 27,2, 31,2,
     35,3, 43,3, 51,3, 59,3,
     67,4, 83,4, 99,4, 115,4,
     131,5, 163,5, 195,5, 227,5,
     258,0]"

definition dist_table :: "nat list" where
  "dist_table =
    [1,0, 2,0, 3,0, 4,0,
     5,1, 7,1,
     9,2, 13,2,
     17,3, 25,3,
     33,4, 49,4,
     65,5, 97,5,
     129,6, 193,6,
     257,7, 385,7,
     513,8, 769,8,
     1025,9, 1537,9,
     2049,10, 3073,10,
     4097,11, 6145,11,
     8193,12, 12289,12,
     16385,13, 24577,13]"

definition LENGTH_BASE :: "nat list" where "LENGTH_BASE = table_bases length_table"
definition LENGTH_EXTRA :: "nat list" where "LENGTH_EXTRA = table_extras length_table"
definition DIST_BASE :: "nat list" where "DIST_BASE = table_bases dist_table"
definition DIST_EXTRA :: "nat list" where "DIST_EXTRA = table_extras dist_table"

text \<open>The search for the last base that is not above a value, in either table.\<close>

function symbol_index :: "nat list \<Rightarrow> nat \<Rightarrow> nat \<Rightarrow> nat res" where
  "symbol_index bases v idx =
     (if idx + 1 < length bases then
        rbind (list_get ''idx+1 in range'' (idx + 1) bases) (\<lambda>next_base.
        if v < next_base then Inr idx else symbol_index bases v (idx + 1))
      else Inr idx)"
  by pat_completeness auto
termination
  by (relation "measure (\<lambda>(bs, _, i). length bs - i)") auto

declare symbol_index.simps [simp del]

definition length_to_symbol :: "nat \<Rightarrow> (nat \<times> nat \<times> nat) res" where
  "length_to_symbol len =
     rbind (symbol_index LENGTH_BASE len 0) (\<lambda>idx.
     rbind (list_get ''idx in range'' idx LENGTH_BASE) (\<lambda>base.
     rbind (list_get ''idx in range'' idx LENGTH_EXTRA) (\<lambda>extra_bits.
     Inr (wrap16 (257 + idx), wsub32 len base, extra_bits))))"

definition distance_to_symbol :: "nat \<Rightarrow> (nat \<times> nat \<times> nat) res" where
  "distance_to_symbol distance =
     rbind (symbol_index DIST_BASE distance 0) (\<lambda>idx.
     rbind (list_get ''idx in range'' idx DIST_BASE) (\<lambda>base.
     rbind (list_get ''idx in range'' idx DIST_EXTRA) (\<lambda>extra_bits.
     Inr (wrap16 idx, wsub32 distance base, extra_bits))))"

definition FIXED_LITLEN_LENGTHS :: "nat list" where
  "FIXED_LITLEN_LENGTHS =
     map (\<lambda>s. if s \<le> 143 then 8 else if s \<le> 255 then 9 else if s \<le> 279 then 7 else 8) [0..<288]"

definition FIXED_DIST_LENGTHS :: "nat list" where
  "FIXED_DIST_LENGTHS = map (\<lambda>s. 5) [0..<32]"

subsection \<open>Frequencies\<close>

definition bump :: "string \<Rightarrow> nat \<Rightarrow> nat list \<Rightarrow> nat list res" where
  "bump msg i freqs = rbind (list_get msg i freqs) (\<lambda>prev. list_set msg i (wrap32 (prev + 1)) freqs)"

fun tally_tokens :: "lz77_token list \<Rightarrow> nat list \<times> nat list \<Rightarrow> (nat list \<times> nat list) res" where
  "tally_tokens [] fr = Inr fr"
| "tally_tokens (Literal b # ts) (ll, dd) = rbind (bump ''idx < 286'' (unat b) ll) (\<lambda>ll'. tally_tokens ts (ll', dd))"
| "tally_tokens (Match len dist # ts) (ll, dd) =
     rbind (length_to_symbol len) (\<lambda>(lsym, _, _).
     rbind (bump ''lidx < 286'' lsym ll) (\<lambda>ll'.
     rbind (distance_to_symbol dist) (\<lambda>(dsym, _, _).
     rbind (bump ''didx < 30'' dsym dd) (\<lambda>dd'. tally_tokens ts (ll', dd')))))"

definition tally_frequencies :: "lz77_token list \<Rightarrow> nat list \<times> nat list \<Rightarrow> (nat list \<times> nat list) res" where
  "tally_frequencies tokens fr =
     rbind (tally_tokens tokens fr) (\<lambda>(ll, dd).
     rbind (bump ''x'' 256 ll) (\<lambda>ll'.
     if list_ex (\<lambda>f. f > 0) dd then Inr (ll', dd)
     else rbind (list_set ''x'' 0 1 dd) (\<lambda>dd'. Inr (ll', dd'))))"

text \<open>A \<^verbatim>\<open>match\<close> that turns an error into \<^verbatim>\<open>None\<close>.\<close>

definition ok_or_none :: "'a res \<Rightarrow> 'a option res" where
  "ok_or_none r = (case r of Inr x \<Rightarrow> Inr (Some x) | Inl e \<Rightarrow> if fatal e then Inl e else Inr None)"

definition try_build_dynamic_lengths :: "nat list \<Rightarrow> nat list \<Rightarrow> (nat list \<times> nat list) option res" where
  "try_build_dynamic_lengths litlen_freqs dist_freqs =
     rbind (ok_or_none (build_code_lengths_from_frequencies litlen_freqs 15)) (\<lambda>ll.
     case ll of None \<Rightarrow> Inr None
     | Some litlen \<Rightarrow>
         rbind (ok_or_none (build_code_lengths_from_frequencies dist_freqs 15)) (\<lambda>dd.
         Inr (case dd of None \<Rightarrow> None | Some dist \<Rightarrow> Some (litlen, dist))))"

subsection \<open>Compression\<close>

definition write_extra :: "nat \<Rightarrow> nat \<Rightarrow> bit_writer \<Rightarrow> bit_writer res" where
  "write_extra v nbits w = (if nbits > 0 then write_bits v nbits w else Inr w)"

fun emit_loop :: "lz77_token list \<Rightarrow> huffman_encoder \<Rightarrow> huffman_encoder \<Rightarrow> bit_writer \<Rightarrow> bit_writer res" where
  "emit_loop [] le de w = Inr w"
| "emit_loop (Literal b # ts) le de w =
     rbind (d_write_symbol le (unat b) ''_emit_tokens: literal symbol not in table'' w) (emit_loop ts le de)"
| "emit_loop (Match len dist # ts) le de w =
     rbind (length_to_symbol len) (\<lambda>(lsym, lval, lbits).
     rbind (d_write_symbol le lsym ''_emit_tokens: length symbol not in table'' w) (\<lambda>w.
     rbind (write_extra lval lbits w) (\<lambda>w.
     rbind (distance_to_symbol dist) (\<lambda>(dsym, dval, dbits).
     rbind (d_write_symbol de dsym ''_emit_tokens: distance symbol not in table'' w) (\<lambda>w.
     rbind (write_extra dval dbits w) (emit_loop ts le de))))))"

definition emit_tokens :: "lz77_token list \<Rightarrow> huffman_encoder \<Rightarrow> huffman_encoder \<Rightarrow> bit_writer \<Rightarrow> bit_writer res" where
  "emit_tokens tokens le de w =
     rbind (emit_loop tokens le de w) (d_write_symbol le 256 ''_emit_tokens: end-of-block symbol not in table'')"

paragraph \<open>The run-length code of the code lengths\<close>

text \<open>Symbols, their extra values and the frequencies of the symbols.\<close>

type_synonym rle = "nat list \<times> nat list \<times> nat list"

definition put_rle :: "nat \<Rightarrow> nat \<Rightarrow> rle \<Rightarrow> rle res" where
  "put_rle s x acc = (case acc of (syms, extras, freqs) \<Rightarrow>
     rbind (bump ''x'' s freqs) (\<lambda>freqs'. Inr (syms @ [s], extras @ [x mod 256], freqs')))"

function run_length :: "nat list \<Rightarrow> nat \<Rightarrow> nat \<Rightarrow> nat \<Rightarrow> nat res" where
  "run_length combined v i run =
     (if i + run < length combined then
        rbind (list_get ''i+run < n'' (i + run) combined) (\<lambda>x.
        if x = v \<and> run < 138 then run_length combined v i (run + 1) else Inr run)
      else Inr run)"
  by pat_completeness auto
termination
  by (relation "measure (\<lambda>(c, _, i, run). length c - (i + run))") auto

declare run_length.simps [simp del]

text \<open>Repeat codes of one symbol as long as the run has at least \<open>lo\<close> entries, up to \<open>hi\<close> each.\<close>

function repeat_code :: "nat \<Rightarrow> nat \<Rightarrow> nat \<Rightarrow> nat \<Rightarrow> nat \<Rightarrow> nat \<Rightarrow> rle \<Rightarrow> (nat \<times> nat \<times> rle) res" where
  "repeat_code s base lo hi run i acc =
     (if run \<ge> lo \<and> 0 < lo \<and> lo \<le> hi then
        (let tk = (if run < hi then run else hi) in
         rbind (put_rle s (tk - base) acc) (repeat_code s base lo hi (run - tk) (i + tk)))
      else Inr (run, i, acc))"
  by pat_completeness auto
termination
  by (relation "measure (\<lambda>(_, _, _, _, run, _, _). run)") (auto split: if_splits)

declare repeat_code.simps [simp del]

fun single_codes :: "nat \<Rightarrow> nat \<Rightarrow> nat \<Rightarrow> rle \<Rightarrow> (nat \<times> rle) res" where
  "single_codes v 0 i acc = Inr (i, acc)"
| "single_codes v (Suc run) i acc = rbind (put_rle v 0 acc) (single_codes v run (i + 1))"

lemma repeat_code_pos: "repeat_code s base lo hi run i acc = Inr (run', i', acc') \<Longrightarrow> i' + run' = i + run"
proof (induction s base lo hi run i acc rule: repeat_code.induct)
  case (1 s base lo hi run i acc)
  show ?case
  proof (cases "run \<ge> lo \<and> 0 < lo \<and> lo \<le> hi")
    case True
    define tk where "tk = (if run < hi then run else hi)"
    from 1(2) True obtain acc1 where a: "put_rle s (tk - base) acc = Inr acc1" "repeat_code s base lo hi (run - tk) (i + tk) acc1 = Inr (run', i', acc')"
      by (subst (asm) repeat_code.simps) (auto simp: rbind_Inr Let_def tk_def)
    have "i' + run' = i + tk + (run - tk)" using "1.IH" [OF True tk_def a(1) a(2)] .
    then show ?thesis by (simp add: tk_def split: if_splits)
  next
    case False
    then show ?thesis using 1(2) by (subst (asm) repeat_code.simps) auto
  qed
qed

lemma single_codes_pos: "single_codes v run i acc = Inr (i', acc') \<Longrightarrow> i' = i + run"
  by (induction v run i acc rule: single_codes.induct) (auto simp: rbind_Inr)

lemma run_length_pos: "run_length combined v i run = Inr run' \<Longrightarrow> run \<le> run'"
proof (induction combined v i run rule: run_length.induct)
  case (1 combined v i run)
  show ?case
  proof (cases "i + run < length combined \<and> combined ! (i + run) = v \<and> run < 138")
    case True
    then have "run_length combined v i (run + 1) = Inr run'" using 1(2) by (subst (asm) run_length.simps) simp
    then show ?thesis using "1.IH" [of "combined ! (i + run)"] True by simp
  next
    case False
    then show ?thesis using 1(2) by (subst (asm) run_length.simps) (auto split: if_splits)
  qed
qed

text \<open>The codes of one run.\<close>

definition encode_run :: "nat \<Rightarrow> nat \<Rightarrow> nat \<Rightarrow> rle \<Rightarrow> (nat \<times> rle) res" where
  "encode_run v run i acc =
     (if v = 0 then
        rbind (repeat_code 18 11 11 138 run i acc) (\<lambda>(run, i, acc).
        rbind (repeat_code 17 3 3 10 run i acc) (\<lambda>(run, i, acc).
        single_codes 0 run i acc))
      else
        rbind (put_rle v 0 acc) (\<lambda>acc.
        rbind (sub_panic ''run >= 1, just consumed one'' run 1) (\<lambda>run.
        rbind (repeat_code 16 3 3 6 run (i + 1) acc) (\<lambda>(run, i, acc).
        single_codes v run i acc))))"

lemma encode_run_pos: "encode_run v run i acc = Inr (i', acc') \<Longrightarrow> i' = i + run"
  by (auto simp: encode_run_def rbind_Inr split: if_splits dest!: repeat_code_pos single_codes_pos)

function rle_loop :: "nat list \<Rightarrow> nat \<Rightarrow> rle \<Rightarrow> rle res" where
  "rle_loop combined i acc =
     (if i < length combined then
        rbind (list_get ''i < n'' i combined) (\<lambda>v.
        rbind (run_length combined v i 1) (\<lambda>run.
        rbind (encode_run v run i acc) (\<lambda>(i', acc'). rle_loop combined i' acc')))
      else Inr acc)"
  by pat_completeness auto
termination
  by (relation "measure (\<lambda>(c, i, _). length c - i)") (auto dest!: run_length_pos encode_run_pos)

declare rle_loop.simps [simp del]

fun write_cl_lengths :: "nat list \<Rightarrow> nat list \<Rightarrow> bit_writer \<Rightarrow> bit_writer res" where
  "write_cl_lengths [] cl_lengths w = Inr w"
| "write_cl_lengths (sym_idx # order) cl_lengths w =
     rbind (list_get ''sym_idx < 19'' sym_idx cl_lengths) (\<lambda>cl_len.
     rbind (write_bits cl_len 3 w) (write_cl_lengths order cl_lengths))"

fun write_rle :: "huffman_encoder \<Rightarrow> nat list \<Rightarrow> nat list \<Rightarrow> bit_writer \<Rightarrow> bit_writer res" where
  "write_rle e [] extras w = Inr w"
| "write_rle e (rsym # syms) [] w = Inl (Panic ''ri in range'')"
| "write_rle e (rsym # syms) (rextra # extras) w =
     rbind (d_write_symbol e rsym ''_emit_dynamic_header: rle symbol not in cl table'' w) (\<lambda>w.
     rbind (if rsym = 16 then write_bits rextra 2 w
            else if rsym = 17 then write_bits rextra 3 w
            else if rsym = 18 then write_bits rextra 7 w else Inr w) (write_rle e syms extras))"

definition emit_dynamic_header :: "nat list \<Rightarrow> nat list \<Rightarrow> bit_writer \<Rightarrow> bit_writer res" where
  "emit_dynamic_header litlen_lengths dist_lengths w =
     rbind (rle_loop (litlen_lengths @ dist_lengths) 0 ([], [], replicate 19 0)) (\<lambda>(rle_symbols, rle_extra, cl_freqs).
     rbind (build_lengths cl_freqs 7 ''_emit_dynamic_header: code-length alphabet table build failed'') (\<lambda>cl_lengths.
     rbind (build_encoder cl_lengths ''_emit_dynamic_header: code-length alphabet encoder build failed'') (\<lambda>cl_enc.
     rbind (write_bits (286 - 257) 5 w) (\<lambda>w.
     rbind (write_bits (30 - 1) 5 w) (\<lambda>w.
     rbind (write_bits (19 - 4) 4 w) (\<lambda>w.
     rbind (write_cl_lengths CL_ORDER cl_lengths w) (write_rle cl_enc rle_symbols rle_extra)))))))"

definition compress :: "u8 list \<Rightarrow> int \<Rightarrow> u8 list res" where
  "compress data level =
     rbind (find_matches data level) (\<lambda>tokens.
     rbind (tally_frequencies tokens (replicate 286 0, replicate 30 0)) (\<lambda>(litlen_freqs, dist_freqs).
     rbind (write_bits 1 1 bw_init) (\<lambda>w.
     rbind (try_build_dynamic_lengths litlen_freqs dist_freqs) (\<lambda>dynamic_lengths.
     rbind (case dynamic_lengths of
              Some (litlen, dist) \<Rightarrow>
                rbind (write_bits 2 2 w) (\<lambda>w.
                rbind (emit_dynamic_header litlen dist w) (\<lambda>w.
                rbind (build_encoder litlen ''compress: dynamic litlen encoder build failed'') (\<lambda>litlen_enc.
                rbind (build_encoder dist ''compress: dynamic dist encoder build failed'') (\<lambda>dist_enc.
                emit_tokens tokens litlen_enc dist_enc w))))
            | None \<Rightarrow>
                rbind (write_bits 1 2 w) (\<lambda>w.
                rbind (build_encoder FIXED_LITLEN_LENGTHS ''compress: fixed litlen encoder build failed'') (\<lambda>litlen_enc.
                rbind (build_encoder FIXED_DIST_LENGTHS ''compress: fixed dist encoder build failed'') (\<lambda>dist_enc.
                emit_tokens tokens litlen_enc dist_enc w)))) (\<lambda>w.
     rbind (bw_finish w) (\<lambda>(out, _). Inr out))))))"

end
