(* ===== verification/Lib_Inflate.thy ===== *)
theory Lib_Inflate
  imports Lib_Deflate
begin

unbundle bit_operations_syntax

text \<open>
  The decompression half of \<^verbatim>\<open>src/lib/deflate.py\<close>: stored, fixed and dynamic blocks.  Every loop reads
  at least one bit in each round, which is why it ends.
\<close>

lemma d_read_bits_left: "d_read_bits n ctx r = Inr (v, r') \<Longrightarrow> n \<le> 16 \<Longrightarrow> br_left r' + n = br_left r"
  by (auto simp: d_read_bits_def dest: read_bits_left)

lemma decode_symbol_left: "decode_symbol d ctx r = Inr (s, r') \<Longrightarrow> br_left r' < br_left r"
  by (auto simp: decode_symbol_def dest: huffman_decode_left)

subsection \<open>Stored blocks\<close>

fun stored_loop :: "nat \<Rightarrow> bit_reader \<Rightarrow> out_list \<Rightarrow> (bit_reader \<times> out_list) res" where
  "stored_loop 0 r out = Inr (r, out)"
| "stored_loop (Suc cnt) r out =
     rbind (d_read_bits 8 ''_inflate_stored: unexpected end of stream reading data'' r) (\<lambda>(b, r).
     rbind (if b < 256 then Inr (of_nat b) else Inl (Panic ''bounded by count, cannot overflow'')) (\<lambda>x.
     rbind (ol_append x out) (\<lambda>out. stored_loop cnt r out)))"

definition inflate_stored :: "bit_reader \<Rightarrow> out_list \<Rightarrow> (bit_reader \<times> out_list) res" where
  "inflate_stored r out =
     rbind (d_read_bits 16 ''_inflate_stored: unexpected end of stream reading LEN'' (br_align_to_byte r)) (\<lambda>(len_val, r).
     rbind (d_read_bits 16 ''_inflate_stored: unexpected end of stream reading NLEN'' r) (\<lambda>(nlen_val, r).
     if (2 ^ 32 - 1 - len_val) AND 0xFFFF \<noteq> nlen_val then Inl (DeflateError ''_inflate_stored: LEN/NLEN complement mismatch'')
     else stored_loop len_val r out))"

subsection \<open>Compressed blocks\<close>

text \<open>The extra bits of a length or distance, added to its base.\<close>

definition read_extra :: "nat \<Rightarrow> nat \<Rightarrow> string \<Rightarrow> bit_reader \<Rightarrow> (nat \<times> bit_reader) res" where
  "read_extra base nbits ctx r =
     (if nbits > 0 then rbind (d_read_bits nbits ctx r) (\<lambda>(ev, r). Inr (wrap32 (base + ev), r)) else Inr (base, r))"

text \<open>A match: the length symbol has been read.\<close>

definition inflate_match :: "huffman_decoder \<Rightarrow> nat \<Rightarrow> bit_reader \<Rightarrow> out_list \<Rightarrow> (bit_reader \<times> out_list) res" where
  "inflate_match dist_dec sy r out =
     rbind (sub_panic ''sym in 257..285, LENGTH_BASE sized 29'' sy 257) (\<lambda>lidx.
     if lidx \<ge> length LENGTH_BASE then Inl (DeflateError ''_inflate_huffman_block: length symbol out of range'')
     else
       rbind (list_get ''lidx in range'' lidx LENGTH_BASE) (\<lambda>lbase.
       rbind (list_get ''lidx in range'' lidx LENGTH_EXTRA) (\<lambda>lextra_bits.
       rbind (read_extra lbase lextra_bits ''_inflate_huffman_block: unexpected end of stream reading length extra bits'' r) (\<lambda>(len, r).
       rbind (decode_symbol dist_dec ''_inflate_huffman_block: failed to decode distance symbol'' r) (\<lambda>(didx, r).
       if didx \<ge> length DIST_BASE then Inl (DeflateError ''_inflate_huffman_block: distance symbol out of range'')
       else
         rbind (list_get ''didx in range'' didx DIST_BASE) (\<lambda>dbase.
         rbind (list_get ''didx in range'' didx DIST_EXTRA) (\<lambda>dextra_bits.
         rbind (read_extra dbase dextra_bits ''_inflate_huffman_block: unexpected end of stream reading distance extra bits'' r) (\<lambda>(distance, r).
         rbind (do_copy_match distance len ''_inflate_huffman_block: invalid match (bad distance)'' out) (\<lambda>out.
         Inr (r, out))))))))))"

lemma extra_small: "x \<in> set LENGTH_EXTRA \<or> x \<in> set DIST_EXTRA \<Longrightarrow> x \<le> 16"
proof -
  have "list_all (\<lambda>x. x \<le> 16) (LENGTH_EXTRA @ DIST_EXTRA)" by code_simp
  then show "x \<in> set LENGTH_EXTRA \<or> x \<in> set DIST_EXTRA \<Longrightarrow> x \<le> 16" by (auto simp: list_all_iff)
qed

lemma read_extra_left: "read_extra base n ctx r = Inr (v, r') \<Longrightarrow> n \<le> 16 \<Longrightarrow> br_left r' \<le> br_left r"
  by (auto simp: read_extra_def rbind_Inr split: if_splits dest!: d_read_bits_left)

lemma inflate_match_left: "inflate_match d sy r out = Inr (r', out') \<Longrightarrow> br_left r' \<le> br_left r"
proof -
  assume "inflate_match d sy r out = Inr (r', out')"
  then obtain li x di y len dist r1 r2 where h: "li < length LENGTH_EXTRA" "di < length DIST_EXTRA"
    "read_extra x (LENGTH_EXTRA ! li) ''_inflate_huffman_block: unexpected end of stream reading length extra bits'' r = Inr (len, r1)"
    "decode_symbol d ''_inflate_huffman_block: failed to decode distance symbol'' r1 = Inr (di, r2)"
    "read_extra y (DIST_EXTRA ! di) ''_inflate_huffman_block: unexpected end of stream reading distance extra bits'' r2 = Inr (dist, r')"
    by (auto simp: inflate_match_def rbind_Inr split: if_splits)
  have "br_left r1 \<le> br_left r" using read_extra_left [OF h(3)] extra_small [of "LENGTH_EXTRA ! li"] h(1) by simp
  moreover have "br_left r2 < br_left r1" using decode_symbol_left [OF h(4)] .
  moreover have "br_left r' \<le> br_left r2" using read_extra_left [OF h(5)] extra_small [of "DIST_EXTRA ! di"] h(2) by simp
  ultimately show ?thesis by simp
qed

function inflate_loop :: "huffman_decoder \<Rightarrow> huffman_decoder \<Rightarrow> bit_reader \<Rightarrow> out_list \<Rightarrow> (bit_reader \<times> out_list) res" where
  "inflate_loop litlen_dec dist_dec r out =
     rbind (decode_symbol litlen_dec ''_inflate_huffman_block: failed to decode literal/length symbol'' r) (\<lambda>(sy, r).
     if sy < 256 then rbind (ol_append (of_nat sy) out) (\<lambda>out. inflate_loop litlen_dec dist_dec r out)
     else if sy = 256 then Inr (r, out)
     else rbind (inflate_match dist_dec sy r out) (\<lambda>(r, out). inflate_loop litlen_dec dist_dec r out))"
  by pat_completeness auto
termination
  by (relation "measure (\<lambda>(_, _, r, _). br_left r)") (auto dest!: decode_symbol_left inflate_match_left)

declare inflate_loop.simps [simp del]

definition inflate_huffman_block :: "nat list \<Rightarrow> nat list \<Rightarrow> bit_reader \<Rightarrow> out_list \<Rightarrow> (bit_reader \<times> out_list) res" where
  "inflate_huffman_block litlen_lengths dist_lengths r out =
     rbind (build_decoder litlen_lengths ''_inflate_huffman_block: invalid literal/length table'') (\<lambda>litlen_dec.
     rbind (build_decoder dist_lengths ''_inflate_huffman_block: invalid distance table'') (\<lambda>dist_dec.
     inflate_loop litlen_dec dist_dec r out))"

subsection \<open>Dynamic blocks\<close>

function read_cl_lengths :: "nat \<Rightarrow> nat \<Rightarrow> nat list \<Rightarrow> bit_reader \<Rightarrow> (nat list \<times> bit_reader) res" where
  "read_cl_lengths hclen ci cl_lengths r =
     (if ci < hclen then
        rbind (d_read_bits 3 ''_inflate_dynamic_block: unexpected end of stream reading a CL length'' r) (\<lambda>(v3, r).
        rbind (list_get ''ci < 19'' ci CL_ORDER) (\<lambda>sym_idx.
        rbind (list_set ''sym_idx < 19'' sym_idx (v3 mod 256) cl_lengths) (\<lambda>cl_lengths.
        read_cl_lengths hclen (ci + 1) cl_lengths r)))
      else Inr (cl_lengths, r))"
  by pat_completeness auto
termination
  by (relation "measure (\<lambda>(h, ci, _, _). h - ci)") auto

declare read_cl_lengths.simps [simp del]

function read_lengths :: "huffman_decoder \<Rightarrow> nat \<Rightarrow> nat list \<Rightarrow> bit_reader \<Rightarrow> (nat list \<times> bit_reader) res" where
  "read_lengths cl_dec tot combined r =
     (if length combined < tot then
        rbind (decode_symbol cl_dec ''_inflate_dynamic_block: failed to decode a code-length symbol'' r) (\<lambda>(csym, r).
        if csym < 16 then read_lengths cl_dec tot (combined @ [csym]) r
        else if csym = 16 then
          (if length combined = 0 then Inl (DeflateError ''_inflate_dynamic_block: repeat-previous code with no previous length'')
           else
             rbind (list_get ''x'' (length combined - 1) combined) (\<lambda>prev_len.
             rbind (d_read_bits 2 ''_inflate_dynamic_block: unexpected end of stream reading repeat-previous extra bits'' r) (\<lambda>(extra16, r).
             read_lengths cl_dec tot (combined @ replicate (wrap32 (extra16 + 3)) prev_len) r)))
        else if csym = 17 then
          rbind (d_read_bits 3 ''_inflate_dynamic_block: unexpected end of stream reading repeat-zero(short) extra bits'' r) (\<lambda>(extra17, r).
          read_lengths cl_dec tot (combined @ replicate (wrap32 (extra17 + 3)) 0) r)
        else if csym = 18 then
          rbind (d_read_bits 7 ''_inflate_dynamic_block: unexpected end of stream reading repeat-zero(long) extra bits'' r) (\<lambda>(extra18, r).
          read_lengths cl_dec tot (combined @ replicate (wrap32 (extra18 + 11)) 0) r)
        else Inl (DeflateError ''_inflate_dynamic_block: invalid code-length symbol''))
      else Inr (combined, r))"
  by pat_completeness auto
termination
  by (relation "measure (\<lambda>(_, _, _, r). br_left r)") (auto dest!: decode_symbol_left d_read_bits_left)

declare read_lengths.simps [simp del]

definition inflate_dynamic_block :: "bit_reader \<Rightarrow> out_list \<Rightarrow> (bit_reader \<times> out_list) res" where
  "inflate_dynamic_block r out =
     rbind (d_read_bits 5 ''_inflate_dynamic_block: unexpected end of stream reading HLIT'' r) (\<lambda>(hlit_raw, r).
     rbind (d_read_bits 5 ''_inflate_dynamic_block: unexpected end of stream reading HDIST'' r) (\<lambda>(hdist_raw, r).
     rbind (d_read_bits 4 ''_inflate_dynamic_block: unexpected end of stream reading HCLEN'' r) (\<lambda>(hclen_raw, r).
     let hlit = wrap64 (hlit_raw + 257); hdist = wrap64 (hdist_raw + 1); hclen = wrap64 (hclen_raw + 4) in
     rbind (read_cl_lengths hclen 0 (replicate 19 0) r) (\<lambda>(cl_lengths, r).
     rbind (build_decoder cl_lengths ''_inflate_dynamic_block: invalid code-length alphabet table'') (\<lambda>cl_dec.
     let tot = wrap64 (hlit + hdist) in
     rbind (read_lengths cl_dec tot [] r) (\<lambda>(combined, r).
     if length combined \<noteq> tot then Inl (DeflateError ''_inflate_dynamic_block: combined length table overran HLIT+HDIST'')
     else inflate_huffman_block (take hlit combined) (take hdist (drop hlit combined)) r out))))))"

subsection \<open>Streams\<close>

lemma stored_loop_left: "stored_loop n r out = Inr (r', out') \<Longrightarrow> br_left r' \<le> br_left r"
proof (induction n arbitrary: r out)
  case (Suc n)
  from Suc.prems obtain b r1 o1 where b: "d_read_bits 8 ''_inflate_stored: unexpected end of stream reading data'' r = Inr (b, r1)"
    "stored_loop n r1 o1 = Inr (r', out')" by (auto simp: rbind_Inr)
  show ?case using Suc.IH [OF b(2)] d_read_bits_left [OF b(1)] by simp
qed simp

lemma align_left: "br_left (br_align_to_byte r) \<le> br_left r"
  by (simp add: br_left_def br_align_to_byte_def)

lemma inflate_stored_left: "inflate_stored r out = Inr (r', out') \<Longrightarrow> br_left r' \<le> br_left r"
  using align_left [of r] by (fastforce simp: inflate_stored_def rbind_Inr split: if_splits dest!: d_read_bits_left stored_loop_left)

lemma inflate_loop_left: "inflate_loop l d r out = Inr (r', out') \<Longrightarrow> br_left r' \<le> br_left r"
proof (induction l d r out arbitrary: r' out' rule: inflate_loop.induct)
  case (1 l d r out)
  from "1.prems" obtain sy r1 where s: "decode_symbol l ''_inflate_huffman_block: failed to decode literal/length symbol'' r = Inr (sy, r1)"
    by (subst (asm) inflate_loop.simps) (auto simp: rbind_Inr)
  have lt: "br_left r1 < br_left r" using decode_symbol_left [OF s] .
  consider "sy < 256" | "sy = 256" | "sy > 256" by linarith
  then show ?case
  proof cases
    case a: 1
    then obtain o1 where o1: "ol_append (of_nat sy) out = Inr o1" "inflate_loop l d r1 o1 = Inr (r', out')"
      using "1.prems" s by (subst (asm) inflate_loop.simps) (auto simp: rbind_Inr)
    then show ?thesis using 1(1) [OF s refl a o1(1) o1(2)] lt by simp
  next
    case 2
    then show ?thesis using "1.prems" s lt by (subst (asm) inflate_loop.simps) auto
  next
    case 3
    then obtain r2 o2 where o2: "inflate_match d sy r1 out = Inr (r2, o2)" "inflate_loop l d r2 o2 = Inr (r', out')"
      using "1.prems" s by (subst (asm) inflate_loop.simps) (auto simp: rbind_Inr)
    have "br_left r' \<le> br_left r2" using 1(2) [OF s refl _ _ o2(1) refl o2(2)] 3 by simp
    then show ?thesis using inflate_match_left [OF o2(1)] lt by simp
  qed
qed

lemma inflate_huffman_block_left: "inflate_huffman_block L D r out = Inr (r', out') \<Longrightarrow> br_left r' \<le> br_left r"
  by (auto simp: inflate_huffman_block_def rbind_Inr dest!: inflate_loop_left)

lemma read_cl_lengths_left: "read_cl_lengths h ci cl r = Inr (cl', r') \<Longrightarrow> br_left r' \<le> br_left r"
proof (induction h ci cl r arbitrary: cl' r' rule: read_cl_lengths.induct)
  case (1 h ci cl r)
  show ?case
  proof (cases "ci < h")
    case True
    with 1(2) obtain v r1 s cl1 where v: "d_read_bits 3 ''_inflate_dynamic_block: unexpected end of stream reading a CL length'' r = Inr (v, r1)"
      "list_get ''ci < 19'' ci CL_ORDER = Inr s" "list_set ''sym_idx < 19'' s (v mod 256) cl = Inr cl1" "read_cl_lengths h (ci + 1) cl1 r1 = Inr (cl', r')"
      by (subst (asm) read_cl_lengths.simps) (auto simp: rbind_Inr simp del: list_get_eq)
    have "br_left r' \<le> br_left r1" by (rule "1.IH" [OF True v(1) refl v(2, 3, 4)])
    then show ?thesis using d_read_bits_left [OF v(1)] by simp
  next
    case False
    then show ?thesis using 1(2) by (subst (asm) read_cl_lengths.simps) auto
  qed
qed

lemma read_lengths_left: "read_lengths d tot cs r = Inr (cs', r') \<Longrightarrow> br_left r' \<le> br_left r"
proof (induction d tot cs r arbitrary: cs' r' rule: read_lengths.induct)
  case (1 d tot cs r)
  show ?case
  proof (cases "length cs < tot")
    case True
    with "1.prems" obtain c r1 where c: "decode_symbol d ''_inflate_dynamic_block: failed to decode a code-length symbol'' r = Inr (c, r1)"
      by (subst (asm) read_lengths.simps) (auto simp: rbind_Inr)
    have lt: "br_left r1 < br_left r" using decode_symbol_left [OF c] .
    consider "c < 16" | "c = 16" | "c = 17" | "c = 18" | "18 < c" by linarith
    then show ?thesis
    proof cases
      case a: 1
      then have "read_lengths d tot (cs @ [c]) r1 = Inr (cs', r')" using "1.prems" True c by (subst (asm) read_lengths.simps) simp
      then show ?thesis using 1(1) [OF True c refl a] lt by simp
    next
      case 2
      then obtain e r2 where e: "cs \<noteq> []" "d_read_bits 2 ''_inflate_dynamic_block: unexpected end of stream reading repeat-previous extra bits'' r1 = Inr (e, r2)"
        "read_lengths d tot (cs @ replicate (wrap32 (e + 3)) (cs ! (length cs - 1))) r2 = Inr (cs', r')"
        using "1.prems" True c by (subst (asm) read_lengths.simps) (auto simp: rbind_Inr split: if_splits)
      have g: "list_get ''x'' (length cs - 1) cs = Inr (cs ! (length cs - 1))" using e(1) by simp
      have "br_left r' \<le> br_left r2" using 1(2) [OF True c refl _ 2 _ g e(2) refl e(3)] 2 e(1) by simp
      then show ?thesis using d_read_bits_left [OF e(2)] lt by simp
    next
      case 3
      then obtain e r2 where e: "d_read_bits 3 ''_inflate_dynamic_block: unexpected end of stream reading repeat-zero(short) extra bits'' r1 = Inr (e, r2)"
        "read_lengths d tot (cs @ replicate (wrap32 (e + 3)) 0) r2 = Inr (cs', r')"
        using "1.prems" True c by (subst (asm) read_lengths.simps) (auto simp: rbind_Inr)
      have "br_left r' \<le> br_left r2" using 1(3) [OF True c refl _ _ 3 e(1) refl e(2)] 3 by simp
      then show ?thesis using d_read_bits_left [OF e(1)] lt by simp
    next
      case 4
      then obtain e r2 where e: "d_read_bits 7 ''_inflate_dynamic_block: unexpected end of stream reading repeat-zero(long) extra bits'' r1 = Inr (e, r2)"
        "read_lengths d tot (cs @ replicate (wrap32 (e + 11)) 0) r2 = Inr (cs', r')"
        using "1.prems" True c by (subst (asm) read_lengths.simps) (auto simp: rbind_Inr)
      have "br_left r' \<le> br_left r2" using 1(4) [OF True c refl _ _ _ 4 e(1) refl e(2)] 4 by simp
      then show ?thesis using d_read_bits_left [OF e(1)] lt by simp
    next
      case 5
      then show ?thesis using "1.prems" True c by (subst (asm) read_lengths.simps) simp
    qed
  next
    case False
    then show ?thesis using "1.prems" by (subst (asm) read_lengths.simps) auto
  qed
qed

lemma inflate_dynamic_block_left: "inflate_dynamic_block r out = Inr (r', out') \<Longrightarrow> br_left r' \<le> br_left r"
  by (fastforce simp: inflate_dynamic_block_def rbind_Inr Let_def split: if_splits
      dest!: d_read_bits_left read_cl_lengths_left read_lengths_left inflate_huffman_block_left)

function inflate_into :: "bit_reader \<Rightarrow> out_list \<Rightarrow> (bit_reader \<times> out_list) res" where
  "inflate_into r out =
     rbind (d_read_bits 1 ''_inflate_into: unexpected end of stream reading BFINAL'' r) (\<lambda>(bfinal, r1).
     rbind (d_read_bits 2 ''_inflate_into: unexpected end of stream reading BTYPE'' r1) (\<lambda>(btype, r2).
     rbind (if btype = 0 then inflate_stored r2 out
            else if btype = 1 then inflate_huffman_block FIXED_LITLEN_LENGTHS FIXED_DIST_LENGTHS r2 out
            else if btype = 2 then inflate_dynamic_block r2 out
            else Inl (DeflateError ''_inflate_into: invalid BTYPE 3 (reserved)'')) (\<lambda>(r3, out).
     if bfinal = 1 then Inr (r3, out) else inflate_into r3 out)))"
  by pat_completeness auto
termination
  by (relation "measure (\<lambda>(r, _). br_left r)")
    (auto split: if_splits dest!: d_read_bits_left inflate_stored_left inflate_huffman_block_left inflate_dynamic_block_left)

declare inflate_into.simps [simp del]

definition decompress_exact :: "u8 list \<Rightarrow> nat \<Rightarrow> u8 list res" where
  "decompress_exact data uncompressed_size =
     rbind (inflate_into (br_init data) (ol_init uncompressed_size)) (\<lambda>(_, out).
     if length (ol_elems out) \<noteq> uncompressed_size
     then Inl (DeflateError ''decompress_exact: decoded size does not match uncompressed_size'')
     else Inr (ol_elems out))"

definition decompress_unbounded :: "u8 list \<Rightarrow> u8 list res" where
  "decompress_unbounded data =
     rbind (inflate_into (br_init data) (ol_init 8)) (\<lambda>(_, out). Inr (ol_elems out))"

end
