(* ===== verification/Lib_Bitstream_Correct.thy ===== *)
theory Lib_Bitstream_Correct
  imports Lib_Bitstream
begin

unbundle bit_operations_syntax

text \<open>
  The bit streams behind \<^verbatim>\<open>BitWriter\<close> and \<^verbatim>\<open>BitReader\<close>: what a writer has written and what a reader
  still has to read, as lists of bits, and the laws of the operations over them.
\<close>

subsection \<open>Lists of bits\<close>

fun bitlist :: "nat \<Rightarrow> nat \<Rightarrow> bool list" where
  "bitlist 0 v = []"
| "bitlist (Suc n) v = odd v # bitlist n (v div 2)"

fun bitnum :: "bool list \<Rightarrow> nat" where
  "bitnum [] = 0"
| "bitnum (b # bs) = of_bool b + 2 * bitnum bs"

lemma bitlist_length [simp]: "length (bitlist n v) = n"
  by (induction n arbitrary: v) simp_all

lemma bitnum_bound: "bitnum bs < 2 ^ length bs"
  by (induction bs) auto

lemma bitlist_bitnum [simp]: "bitlist (length bs) (bitnum bs) = bs"
  by (induction bs) auto

lemma bitnum_bitlist: "bitnum (bitlist n v) = v mod 2 ^ n"
proof (induction n arbitrary: v)
  case (Suc n)
  have "v mod 2 ^ Suc n = v mod 2 + 2 * (v div 2 mod 2 ^ n)" by (simp add: mod_mult2_eq)
  then show ?case using Suc by (simp add: mod_2_eq_odd)
qed simp

lemma bitlist_add: "bitlist (m + n) v = bitlist m v @ bitlist n (v div 2 ^ m)"
  by (induction m arbitrary: v) (simp_all add: div_mult2_eq)

lemma bitlist_mod: "bitlist n (v mod 2 ^ n) = bitlist n v"
  using bitlist_bitnum [of "bitlist n v"] by (simp add: bitnum_bitlist del: bitlist_bitnum)

lemma bitlist_join: "a < 2 ^ m \<Longrightarrow> bitlist (m + n) (a + 2 ^ m * b) = bitlist m a @ bitlist n b"
proof -
  assume a: "a < 2 ^ m"
  have "bitlist m (a + 2 ^ m * b) = bitlist m ((a + 2 ^ m * b) mod 2 ^ m)" by (simp only: bitlist_mod)
  then show ?thesis using a by (simp add: bitlist_add)
qed

lemma bitnum_append: "bitnum (as @ bs) = bitnum as + 2 ^ length as * bitnum bs"
  by (induction as) auto

text \<open>The operations of the source on the bit buffers.\<close>

lemma and_mask: "n < 32 \<Longrightarrow> v AND wsub32 (wrap32 (push_bit n 1)) 1 = v mod 2 ^ n"
proof -
  assume "n < 32"
  then have lt: "(2 :: nat) ^ n < 2 ^ 32" by (intro power_strict_increasing) auto
  have "wsub32 (2 ^ n) 1 = 2 ^ n - 1" using lt by (intro wsub_small(1)) simp_all
  then have "wsub32 (wrap32 (push_bit n 1)) 1 = mask n" using lt by (simp add: mask_eq_exp_minus_1 push_bit_eq_mult)
  then show ?thesis by (simp add: take_bit_eq_mod flip: take_bit_eq_mask)
qed

lemma and_255: "v AND 255 = v mod (256 :: nat)"
proof -
  have "(255 :: nat) = mask 8" by (simp add: mask_eq_exp_minus_1)
  then have "v AND 255 = take_bit 8 v" by (simp only: take_bit_eq_mask)
  then show ?thesis by (simp add: take_bit_eq_mod)
qed

lemma or_push: "a < 2 ^ k \<Longrightarrow> a OR push_bit k b = a + 2 ^ k * (b :: nat)"
proof -
  assume a: "a < 2 ^ k"
  then have "take_bit k a = a" by (simp add: take_bit_nat_eq_self)
  then have "bit a n \<Longrightarrow> n < k" for n by (metis bit_take_bit_iff)
  then have "a AND push_bit k b = 0" by (auto simp: bit_eq_iff bit_simps dest!: leD)
  then have "a OR push_bit k b = a + push_bit k b" by (simp add: disjunctive_add_eq_or)
  then show ?thesis by (simp add: push_bit_eq_mult mult.commute)
qed

subsection \<open>Writing\<close>

definition byte_bits :: "u8 \<Rightarrow> bool list" where
  "byte_bits b = bitlist 8 (unat b)"

definition bytes_bits :: "u8 list \<Rightarrow> bool list" where
  "bytes_bits bs = concat (map byte_bits bs)"

lemma bytes_bits_simps [simp]: "bytes_bits [] = []" "bytes_bits (b # bs) = byte_bits b @ bytes_bits bs"
  "bytes_bits (as @ bs) = bytes_bits as @ bytes_bits bs"
  by (simp_all add: bytes_bits_def)

lemma byte_bits_length [simp]: "length (byte_bits b) = 8" "length (bytes_bits bs) = 8 * length bs"
  by (simp add: byte_bits_def) (induction bs, simp_all add: byte_bits_def)

definition bw_ok :: "bit_writer \<Rightarrow> bool" where
  "bw_ok w \<longleftrightarrow> bw_used w \<le> length (bw_buf w) \<and> 0 < length (bw_buf w) \<and> bw_bitbuf w < 2 ^ bw_bitcount w"

definition bw_bits :: "bit_writer \<Rightarrow> bool list" where
  "bw_bits w = bytes_bits (take (bw_used w) (bw_buf w)) @ bitlist (bw_bitcount w) (bw_bitbuf w)"

text \<open>A writer that has written \<open>bs\<close>, between two calls.\<close>

definition written :: "bool list \<Rightarrow> bit_writer \<Rightarrow> bool" where
  "written bs w \<longleftrightarrow> bw_ok w \<and> bw_bitcount w < 8 \<and> bw_bits w = bs"

lemma written_init: "written [] bw_init"
  by (simp add: written_def bw_ok_def bw_init_def bw_bits_def)

lemma push_byte_ok:
  assumes "bw_used w \<le> length (bw_buf w)" and "0 < length (bw_buf w)" and "bw_used w < 2 ^ 62"
  obtains buf where "push_byte b w = Inr (w\<lparr>bw_buf := buf, bw_used := bw_used w + 1\<rparr>)" "bw_used w + 1 \<le> length buf"
    "take (bw_used w + 1) buf = take (bw_used w) (bw_buf w) @ [b]"
proof (cases "bw_used w = length (bw_buf w)")
  case True
  let ?buf = "bw_buf w @ b # replicate (length (bw_buf w) - 1) 0"
  have wrap: "wrap64 (length (bw_buf w) * 2) = length (bw_buf w) * 2" using assms True by simp
  have st: "ptr_store (length (bw_buf w)) b (bw_buf w @ replicate (length (bw_buf w)) 0) = Inr ?buf"
    using assms(2) by (cases "length (bw_buf w)") (auto simp: ptr_store_def list_update_append)
  have ps: "push_byte b w = Inr (w\<lparr>bw_buf := ?buf, bw_used := bw_used w + 1\<rparr>)"
    using True wrap st by (simp add: push_byte_def bytearray_resize_def Let_def)
  show thesis by (rule that [OF ps]) (use True in simp_all)
next
  case False
  have ps: "push_byte b w = Inr (w\<lparr>bw_buf := (bw_buf w)[bw_used w := b], bw_used := bw_used w + 1\<rparr>)"
    using False assms by (simp add: push_byte_def ptr_store_def Let_def)
  show thesis by (rule that [OF ps]) (use False assms in \<open>simp_all add: take_Suc_conv_app_nth\<close>)
qed

lemma flush_bytes_ok:
  "bw_ok w \<Longrightarrow> length (bw_bits w) < 2 ^ 62 \<Longrightarrow> \<exists>w'. flush_bytes w = Inr w' \<and> written (bw_bits w) w'"
proof (induction w rule: flush_bytes.induct)
  case (1 w)
  show ?case
  proof (cases "bw_bitcount w \<ge> 8")
    case False
    then show ?thesis using 1 by (simp add: flush_bytes.simps [of w] written_def)
  next
    case True
    let ?b = "of_nat (bw_bitbuf w AND 0xFF) :: u8"
    have u: "bw_used w < 2 ^ 62" using 1(2, 3) by (simp add: bw_bits_def bw_ok_def)
    obtain buf where p: "push_byte ?b w = Inr (w\<lparr>bw_buf := buf, bw_used := bw_used w + 1\<rparr>)" and
      buf: "bw_used w + 1 \<le> length buf" "take (bw_used w + 1) buf = take (bw_used w) (bw_buf w) @ [?b]"
      using push_byte_ok [of w ?b] 1(2) u by (auto simp: bw_ok_def)
    define w1 where "w1 = w\<lparr>bw_buf := buf, bw_used := bw_used w + 1\<rparr>"
    define w2 where "w2 = w1\<lparr>bw_bitbuf := drop_bit 8 (bw_bitbuf w1), bw_bitcount := bw_bitcount w1 - 8\<rparr>"
    have f: "flush_bytes w = flush_bytes w2" using True p by (simp add: flush_bytes.simps [of w] w1_def w2_def)
    have v: "unat ?b = bw_bitbuf w mod 256" by (simp add: and_255 unat_of_nat)
    obtain k where k: "bw_bitcount w = 8 + k" using True le_Suc_ex by blast
    have "bw_bitbuf w div 256 < 2 ^ k" using 1(2) k by (simp add: bw_ok_def less_mult_imp_div_less power_add mult.commute)
    then have ok: "bw_ok w2" using buf(1) k by (auto simp add: bw_ok_def w2_def w1_def drop_bit_eq_div)
    have "bitlist (8 + k) (bw_bitbuf w) = byte_bits ?b @ bitlist k (bw_bitbuf w div 256)"
      unfolding bitlist_add byte_bits_def v using bitlist_mod [of 8 "bw_bitbuf w"] by simp
    then have bits: "bw_bits w2 = bw_bits w" using buf(2) k by (simp add: bw_bits_def w2_def w1_def drop_bit_eq_div)
    show ?thesis using "1.IH" [OF True p, folded w1_def, folded w2_def] ok bits 1(3) by (simp add: f)
  qed
qed

lemma write_bits_ok:
  assumes "written bs w" and "n \<le> 16" and "length bs < 2 ^ 61"
  shows "\<exists>w'. write_bits v n w = Inr w' \<and> written (bs @ bitlist n v) w'"
proof -
  let ?c = "bw_bitcount w" and ?x = "v mod 2 ^ n"
  have w: "bw_ok w" "?c < 8" "bw_bits w = bs" using assms(1) by (simp_all add: written_def)
  have x: "?x < 2 ^ n" by simp
  have c24: "?c + n \<le> 23" using w(2) assms(2) by simp
  have sum: "bw_bitbuf w + 2 ^ ?c * ?x < 2 ^ (?c + n)"
  proof -
    have "bw_bitbuf w + 2 ^ ?c * ?x < 2 ^ ?c + 2 ^ ?c * ?x" using w(1) by (simp add: bw_ok_def)
    also have "\<dots> = 2 ^ ?c * (?x + 1)" by simp
    also have "\<dots> \<le> 2 ^ ?c * 2 ^ n" using x by (intro mult_left_mono) (simp_all only: Suc_eq_plus1 [symmetric] Suc_le_eq le0)
    finally show ?thesis by (simp add: power_add)
  qed
  have "(2 :: nat) ^ (?c + n) \<le> 2 ^ 23" using c24 by (intro power_increasing) auto
  then have small: "2 ^ ?c * ?x < 4294967296" using sum by simp
  define w1 where "w1 = w\<lparr>bw_bitbuf := bw_bitbuf w + 2 ^ ?c * ?x, bw_bitcount := ?c + n\<rparr>"
  have m: "v AND wsub32 (wrap32 (push_bit n 1)) 1 = ?x" using assms(2) by (intro and_mask) simp
  have sh: "wrap32 (push_bit ?c ?x) = push_bit ?c ?x" using small by (simp add: push_bit_eq_mult mult.commute)
  have "bw_bitbuf w OR push_bit ?c ?x = bw_bitbuf w + 2 ^ ?c * ?x" using w(1) by (intro or_push) (simp add: bw_ok_def)
  then have f: "write_bits v n w = flush_bytes w1" unfolding write_bits_def Let_def m sh using c24 by (simp add: w1_def)
  have bits: "bw_bits w1 = bs @ bitlist n v"
    using w by (simp add: bw_bits_def w1_def bitlist_join bw_ok_def bitlist_mod flip: w(3))
  have "bw_ok w1" using w(1) sum by (simp add: bw_ok_def w1_def)
  then show ?thesis using flush_bytes_ok [of w1] bits assms(2, 3) by (simp add: f)
qed

definition padded :: "bool list \<Rightarrow> bool list" where
  "padded bs = bs @ replicate ((8 - length bs mod 8) mod 8) False"

lemma bitlist_pad: "v < 2 ^ k \<Longrightarrow> bitlist (k + m) v = bitlist k v @ replicate m False"
proof -
  assume v: "v < 2 ^ k"
  have "bitlist m 0 = replicate m False" for m by (induction m) simp_all
  then show ?thesis using v by (simp add: bitlist_add)
qed

lemma bw_align_ok:
  assumes "written bs w" and "length bs < 2 ^ 61"
  shows "\<exists>w'. bw_align_to_byte w = Inr w' \<and> written (padded bs) w' \<and> bw_bitcount w' = 0"
proof (cases "bw_bitcount w > 0")
  case False
  then have "length bs mod 8 = 0" using assms(1) by (auto simp: written_def bw_bits_def bw_ok_def)
  then show ?thesis using False assms(1) by (simp add: bw_align_to_byte_def padded_def)
next
  case True
  let ?c = "bw_bitcount w" and ?b = "of_nat (bw_bitbuf w AND 0xFF) :: u8"
  have w: "bw_ok w" "?c < 8" "bw_bits w = bs" using assms(1) by (simp_all add: written_def)
  have "8 * bw_used w \<le> length bs" using w by (auto simp: bw_bits_def bw_ok_def)
  then have u: "bw_used w < 2 ^ 62" using assms(2) by simp
  obtain buf where p: "push_byte ?b w = Inr (w\<lparr>bw_buf := buf, bw_used := bw_used w + 1\<rparr>)" and
    buf: "bw_used w + 1 \<le> length buf" "take (bw_used w + 1) buf = take (bw_used w) (bw_buf w) @ [?b]"
    using push_byte_ok [of w ?b] w(1) u by (auto simp: bw_ok_def)
  have lt: "bw_bitbuf w < 2 ^ ?c" using w(1) by (simp add: bw_ok_def)
  have "(2 :: nat) ^ ?c \<le> 2 ^ 8" using w(2) by (intro power_increasing) auto
  then have "unat ?b = bw_bitbuf w" using lt by (simp add: and_255 unat_of_nat)
  then have bb: "byte_bits ?b = bitlist ?c (bw_bitbuf w) @ replicate (8 - ?c) False"
    using bitlist_pad [OF lt, of "8 - ?c"] w(2) by (simp add: byte_bits_def)
  have "length bs mod 8 = ?c" using w by (auto simp: bw_bits_def bw_ok_def)
  then have pad: "padded bs = bs @ replicate (8 - ?c) False" using True w(2) by (simp add: padded_def)
  have "bw_bits (w\<lparr>bw_buf := buf, bw_used := bw_used w + 1, bw_bitbuf := 0, bw_bitcount := 0\<rparr>) = padded bs"
    unfolding pad using buf(2) w(3) bb by (simp add: bw_bits_def)
  then show ?thesis using True p buf(1) by (auto simp: bw_align_to_byte_def written_def bw_ok_def)
qed

lemma bw_finish_ok:
  assumes "written bs w" and "length bs < 2 ^ 61"
  shows "\<exists>out w'. bw_finish w = Inr (out, w') \<and> bytes_bits out = padded bs"
proof -
  obtain w' where w': "bw_align_to_byte w = Inr w'" "written (padded bs) w'" "bw_bitcount w' = 0" using bw_align_ok [OF assms] by auto
  then show ?thesis by (auto simp: bw_finish_def bytearray_resize_def written_def bw_ok_def bw_bits_def)
qed

subsection \<open>Reading\<close>

definition br_ok :: "bit_reader \<Rightarrow> bool" where
  "br_ok r \<longleftrightarrow> br_pos r \<le> length (br_data r) \<and> br_bitbuf r < 2 ^ br_bitcount r"

definition br_rest :: "bit_reader \<Rightarrow> bool list" where
  "br_rest r = bitlist (br_bitcount r) (br_bitbuf r) @ bytes_bits (drop (br_pos r) (br_data r))"

text \<open>A reader that has \<open>bs\<close> left to read, between two calls.\<close>

definition reading :: "bool list \<Rightarrow> bit_reader \<Rightarrow> bool" where
  "reading bs r \<longleftrightarrow> br_ok r \<and> br_bitcount r < 8 \<and> br_rest r = bs"

lemma reading_init: "reading (bytes_bits data) (br_init data)"
  by (simp add: reading_def br_ok_def br_init_def br_rest_def)

lemma br_fill_ok:
  "br_ok r \<Longrightarrow> n \<le> 16 \<Longrightarrow> br_bitcount r < n + 8 \<Longrightarrow>
    (if n \<le> length (br_rest r)
     then \<exists>r'. br_fill n r = Inr r' \<and> br_ok r' \<and> br_rest r' = br_rest r \<and> n \<le> br_bitcount r' \<and> br_bitcount r' < n + 8
     else br_fill n r = Inl (BitstreamError ''read_bits: unexpected end of stream''))"
proof (induction n r rule: br_fill.induct)
  case (1 n r)
  show ?case
  proof (cases "br_bitcount r < n")
    case False
    then show ?thesis using 1(2, 4) by (auto simp: br_fill.simps [of n r] br_rest_def)
  next
    case True
    show ?thesis
    proof (cases "br_pos r = length (br_data r)")
      case eof: True
      then show ?thesis using True by (simp add: br_fill.simps [of n r] br_rest_def)
    next
      case False
      let ?b = "br_data r ! br_pos r" and ?c = "br_bitcount r"
      have pos: "br_pos r < length (br_data r)" using 1(2) False by (simp add: br_ok_def)
      then have ld: "ptr_load (br_pos r) (br_data r) = Inr ?b" by (simp add: ptr_load_def)
      define r1 where "r1 = r\<lparr>br_bitbuf := br_bitbuf r OR wrap32 (push_bit ?c (unat ?b)), br_pos := br_pos r + 1,
        br_bitcount := wrap32 (?c + 8)\<rparr>"
      have f: "br_fill n r = br_fill n r1" using True False ld by (simp add: br_fill.simps [of n r] r1_def)
      have c: "?c < 16" using True 1(3) by simp
      have b: "unat ?b < 256" by (rule u8_bound)
      have lt: "br_bitbuf r < 2 ^ ?c" using 1(2) by (simp add: br_ok_def)
      have "(2 :: nat) ^ ?c \<le> 2 ^ 15" using c by (intro power_increasing) auto
      then have "2 ^ ?c * unat ?b < 4294967296" using b mult_le_mono [of "2 ^ ?c" "2 ^ 15" "unat ?b" 256] by simp
      then have buf: "br_bitbuf r1 = br_bitbuf r + 2 ^ ?c * unat ?b"
        using or_push [OF lt, of "unat ?b"] by (simp add: r1_def push_bit_eq_mult mult.commute)
      have cnt: "br_bitcount r1 = ?c + 8" using c by (simp add: r1_def)
      have "br_bitbuf r + 2 ^ ?c * unat ?b < 2 ^ ?c * (unat ?b + 1)" using lt by simp
      also have "\<dots> \<le> 2 ^ ?c * 256" using b by (intro mult_left_mono) auto
      finally have ok: "br_ok r1" using pos by (simp add: br_ok_def buf cnt) (simp add: r1_def power_add)
      have "drop (br_pos r) (br_data r) = ?b # drop (Suc (br_pos r)) (br_data r)" using pos by (simp add: Cons_nth_drop_Suc)
      then have rest: "br_rest r1 = br_rest r"
        by (simp add: br_rest_def buf cnt bitlist_join [OF lt]) (simp add: r1_def byte_bits_def)
      have "br_bitcount r1 < n + 8" using True cnt by simp
      from "1.IH" [OF True False ld, folded r1_def, OF ok 1(3) this] show ?thesis unfolding f rest .
    qed
  qed
qed

lemma read_bits_ok:
  assumes "reading bs r" and "n \<le> 16" and "n \<le> length bs"
  shows "\<exists>r'. read_bits n r = Inr (bitnum (take n bs), r') \<and> reading (drop n bs) r'"
proof -
  have r: "br_ok r" "br_bitcount r < 8" "br_rest r = bs" using assms(1) by (simp_all add: reading_def)
  obtain r' where r': "br_fill n r = Inr r'" "br_ok r'" "br_rest r' = bs" "n \<le> br_bitcount r'" "br_bitcount r' < n + 8"
    using br_fill_ok [OF r(1) assms(2)] r assms(3) by auto
  obtain k where k: "br_bitcount r' = n + k" using r'(4) le_Suc_ex by blast
  have m: "br_bitbuf r' AND wsub32 (wrap32 (push_bit n 1)) 1 = br_bitbuf r' mod 2 ^ n" using assms(2) by (intro and_mask) simp
  let ?r = "r'\<lparr>br_bitbuf := drop_bit n (br_bitbuf r'), br_bitcount := br_bitcount r' - n\<rparr>"
  have bs: "bs = bitlist n (br_bitbuf r') @ br_rest ?r"
    using r'(3) k by (simp add: br_rest_def bitlist_add drop_bit_eq_div)
  have "br_bitbuf r' div 2 ^ n < 2 ^ k" using r'(2) k by (simp add: br_ok_def less_mult_imp_div_less power_add mult.commute)
  then have "br_ok ?r" using r'(2) k by (simp add: br_ok_def drop_bit_eq_div)
  then have rd: "reading (br_rest ?r) ?r" using r'(5) k by (simp add: reading_def)
  have v: "read_bits n r = Inr (br_bitbuf r' mod 2 ^ n, ?r)" unfolding read_bits_def Let_def r'(1) rbind_simps m by simp
  have "take n bs = bitlist n (br_bitbuf r')" "drop n bs = br_rest ?r" by (simp_all add: bs)
  then show ?thesis using v rd by (simp only: bitnum_bitlist) blast
qed

lemma read_bits_eof:
  assumes "reading bs r" and "n \<le> 16" and "length bs < n"
  shows "read_bits n r = Inl (BitstreamError ''read_bits: unexpected end of stream'')"
  using br_fill_ok [of r n] assms by (simp add: reading_def read_bits_def split: if_splits)

text \<open>Reading a field that was written.\<close>

lemma read_field:
  assumes "reading (bitlist n v @ bs) r" and "n \<le> 16" and "v < 2 ^ n"
  shows "\<exists>r'. read_bits n r = Inr (v, r') \<and> reading bs r'"
  using read_bits_ok [OF assms(1, 2)] assms(3) by (simp add: bitnum_bitlist)

subsection \<open>Aligned bytes\<close>

lemma padded_length: "length (padded bs) mod 8 = 0" "length (padded bs) \<le> length bs + 7"
proof -
  have "(n + (8 - n mod 8) mod 8) mod 8 = 0" for n :: nat by (simp add: mod_add_right_eq) presburger
  then show "length (padded bs) mod 8 = 0" by (simp add: padded_def)
  show "length (padded bs) \<le> length bs + 7" by (simp add: padded_def)
qed

lemma padded_aligned: "length bs mod 8 = 0 \<Longrightarrow> padded bs = bs"
  by (simp add: padded_def)

lemma padded_prefix: "\<exists>zs. padded bs = bs @ zs"
  by (simp add: padded_def)

lemma write_aligned_bytes_ok:
  "written bs w \<Longrightarrow> bw_bitcount w = 0 \<Longrightarrow> length bs + 8 * length ys < 2 ^ 61 \<Longrightarrow>
    \<exists>w'. write_aligned_bytes ys w = Inr w' \<and> written (bs @ bytes_bits ys) w' \<and> bw_bitcount w' = 0"
proof (induction ys arbitrary: bs w)
  case (Cons y ys)
  have w: "bw_ok w" "bw_bits w = bs" using Cons.prems(1) by (simp_all add: written_def)
  then have bs: "bs = bytes_bits (take (bw_used w) (bw_buf w))" using Cons.prems(2) by (simp add: bw_bits_def)
  then have "8 * bw_used w = length bs" using w(1) by (simp add: bw_ok_def min_def)
  then have u: "bw_used w < 2 ^ 62" using Cons.prems(3) by simp
  obtain buf where p: "push_byte y w = Inr (w\<lparr>bw_buf := buf, bw_used := bw_used w + 1\<rparr>)" and
    buf: "bw_used w + 1 \<le> length buf" "take (bw_used w + 1) buf = take (bw_used w) (bw_buf w) @ [y]"
    using push_byte_ok [of w y] w(1) u by (auto simp: bw_ok_def)
  let ?w = "w\<lparr>bw_buf := buf, bw_used := bw_used w + 1\<rparr>"
  have "written (bs @ byte_bits y) ?w" "bw_bitcount ?w = 0"
    using buf w(1) Cons.prems(2) by (auto simp: written_def bw_ok_def bw_bits_def bs)
  from Cons.IH [OF this] Cons.prems(3) p show ?case by simp
qed simp

lemma br_align_ok:
  assumes "reading bs r"
  shows "reading (drop (length bs mod 8) bs) (br_align_to_byte r) \<and> br_bitcount (br_align_to_byte r) = 0"
  using assms by (auto simp: reading_def br_ok_def br_rest_def br_align_to_byte_def)

lemma bytes_bits_inj: "bytes_bits as = bytes_bits bs \<Longrightarrow> as = bs"
proof (induction as arbitrary: bs)
  case Nil
  then have "8 * length bs = 0" by (metis byte_bits_length(2) list.size(3) mult_0_right)
  then show ?case by simp
next
  case (Cons a as)
  then have "8 * length bs = 8 * length (a # as)" by (metis byte_bits_length(2))
  then obtain b bs' where bs: "bs = b # bs'" by (cases bs) auto
  then have "bitlist 8 (unat a) = bitlist 8 (unat b)" and eq: "bytes_bits as = bytes_bits bs'"
    using Cons.prems by (simp_all add: byte_bits_def)
  then have "unat a mod 2 ^ 8 = unat b mod 2 ^ 8" by (metis bitnum_bitlist)
  then have "unat a = unat b" using u8_bound [of a] u8_bound [of b] by simp
  then show ?case using Cons.IH [OF eq] bs by (simp add: word_unat_eq_iff)
qed

lemma read_aligned_bytes_ok:
  assumes "reading (bytes_bits ys @ bs) r" and "br_bitcount r = 0" and "length (br_data r) < usize_lim"
  shows "\<exists>r'. read_aligned_bytes (length ys) r = Inr (ys, r') \<and> reading bs r' \<and> br_bitcount r' = 0 \<and> br_data r' = br_data r"
proof -
  let ?d = "drop (br_pos r) (br_data r)"
  have d: "bytes_bits ?d = bytes_bits ys @ bs" and pos: "br_pos r \<le> length (br_data r)" using assms(1, 2)
    by (simp_all add: reading_def br_rest_def br_ok_def)
  then have len: "length ys \<le> length ?d" by (metis byte_bits_length(2) length_append le_add1 mult_le_cancel1 zero_less_numeral)
  have "bytes_bits (take (length ys) ?d) @ bytes_bits (drop (length ys) ?d) = bytes_bits ys @ bs"
    unfolding bytes_bits_simps(3) [symmetric] append_take_drop_id by (rule d)
  then have split: "bytes_bits (take (length ys) ?d) = bytes_bits ys" "bytes_bits (drop (length ys) ?d) = bs"
    using len by (simp_all add: append_eq_append_conv)
  then have "take (length ys) ?d = ys" by (intro bytes_bits_inj)
  moreover have "br_pos r + length ys \<le> length (br_data r)" using len pos by simp
  ultimately show ?thesis using split(2) assms pos
    by (auto simp: read_aligned_bytes_def fits_def reading_def br_ok_def br_rest_def add.commute)
qed

lemma read_aligned_bytes_eof:
  assumes "reading bs r" and "length bs < 8 * n" and "length (br_data r) + n < usize_lim"
  shows "read_aligned_bytes n r = Inl (BitstreamError ''read_aligned_bytes: unexpected end of stream'')"
proof -
  have "length (br_data r) < br_pos r + n" using assms(1, 2) by (auto simp: reading_def br_ok_def br_rest_def)
  moreover have "br_pos r \<le> length (br_data r)" using assms(1) by (simp add: reading_def br_ok_def)
  ultimately show ?thesis using assms(3) by (simp add: read_aligned_bytes_def fits_def)
qed

subsection \<open>A stream of fields and aligned bytes\<close>

datatype item = Field nat nat | Aligned "u8 list"

fun item_ok :: "item \<Rightarrow> bool" where
  "item_ok (Field v n) \<longleftrightarrow> n \<le> 16 \<and> v < 2 ^ n"
| "item_ok (Aligned ys) \<longleftrightarrow> True"

fun item_size :: "item \<Rightarrow> nat" where
  "item_size (Field v n) = n"
| "item_size (Aligned ys) = 8 * length ys + 7"

fun write_items :: "item list \<Rightarrow> bit_writer \<Rightarrow> bit_writer res" where
  "write_items [] w = Inr w"
| "write_items (Field v n # is) w = rbind (write_bits v n w) (write_items is)"
| "write_items (Aligned ys # is) w = rbind (rbind (bw_align_to_byte w) (write_aligned_bytes ys)) (write_items is)"

text \<open>Reading back fields of the same widths and runs of the same lengths.\<close>

fun read_items :: "item list \<Rightarrow> bit_reader \<Rightarrow> item list res" where
  "read_items [] r = Inr []"
| "read_items (Field v n # is) r =
     rbind (read_bits n r) (\<lambda>(x, r). rbind (read_items is r) (\<lambda>xs. Inr (Field x n # xs)))"
| "read_items (Aligned ys # is) r =
     rbind (read_aligned_bytes (length ys) (br_align_to_byte r)) (\<lambda>(x, r). rbind (read_items is r) (\<lambda>xs. Inr (Aligned x # xs)))"

fun items_bits :: "item list \<Rightarrow> bool list \<Rightarrow> bool list" where
  "items_bits [] bs = bs"
| "items_bits (Field v n # is) bs = items_bits is (bs @ bitlist n v)"
| "items_bits (Aligned ys # is) bs = items_bits is (padded bs @ bytes_bits ys)"

lemma items_bits_extend: "\<exists>zs. items_bits is bs = bs @ zs"
proof (induction "is" bs rule: items_bits.induct)
  case (2 v n "is" bs)
  then show ?case by auto
next
  case (3 ys "is" bs)
  then show ?case using padded_prefix [of bs] by auto
qed simp

lemma write_items_ok:
  "written bs w \<Longrightarrow> list_all item_ok is \<Longrightarrow> length bs + sum_list (map item_size is) < 2 ^ 61 \<Longrightarrow>
    \<exists>w'. write_items is w = Inr w' \<and> written (items_bits is bs) w'"
proof (induction "is" arbitrary: bs w)
  case (Cons i "is")
  show ?case
  proof (cases i)
    case (Field v n)
    then obtain w1 where w1: "write_bits v n w = Inr w1" "written (bs @ bitlist n v) w1"
      using write_bits_ok [OF Cons.prems(1), of n v] Cons.prems by auto
    then show ?thesis using Cons.IH [OF w1(2)] Cons.prems Field by auto
  next
    case (Aligned ys)
    obtain w1 where w1: "bw_align_to_byte w = Inr w1" "written (padded bs) w1" "bw_bitcount w1 = 0"
      using bw_align_ok [OF Cons.prems(1)] Cons.prems(3) by auto
    have len: "length (padded bs) + 8 * length ys + sum_list (map item_size is) < 2 ^ 61"
      using padded_length(2) [of bs] Cons.prems(3) Aligned by simp
    then obtain w2 where w2: "write_aligned_bytes ys w1 = Inr w2" "written (padded bs @ bytes_bits ys) w2"
      using write_aligned_bytes_ok [OF w1(2, 3), of ys] by auto
    show ?thesis using Cons.IH [OF w2(2)] Cons.prems(2) len w1 w2 Aligned by auto
  qed
qed simp

lemma read_bits_data: "read_bits n r = Inr (v, r') \<Longrightarrow> br_data r' = br_data r"
proof -
  have fill: "br_fill n r = Inr r1 \<Longrightarrow> br_data r1 = br_data r" for r1
  proof (induction n r arbitrary: r1 rule: br_fill.induct)
    case (1 n r)
    then show ?case by (auto simp: br_fill.simps [of n r] rbind_Inr split: if_splits)
  qed
  assume "read_bits n r = Inr (v, r')"
  then show ?thesis by (auto simp: read_bits_def rbind_Inr Let_def dest: fill)
qed

lemma read_items_ok:
  assumes "length (br_data r) < usize_lim"
  shows "padded (items_bits is bs) = bs @ zs \<Longrightarrow> reading zs r \<Longrightarrow> list_all item_ok is \<Longrightarrow> read_items is r = Inr is"
  using assms
proof (induction "is" arbitrary: bs zs r)
  case (Cons i "is")
  show ?case
  proof (cases i)
    case (Field v n)
    obtain ys where ys: "items_bits is (bs @ bitlist n v) = bs @ bitlist n v @ ys" using items_bits_extend [of "is" "bs @ bitlist n v"] by auto
    then obtain ys' where zs: "zs = bitlist n v @ ys'" using Cons.prems(1) Field padded_prefix [of "bs @ bitlist n v @ ys"] by auto
    obtain r1 where r1: "read_bits n r = Inr (v, r1)" "reading ys' r1" using read_field [of n v ys' r] Cons.prems(2, 3) Field zs by auto
    have "read_items is r1 = Inr is"
      using Cons.IH [of "bs @ bitlist n v" ys' r1] Cons.prems r1 Field zs read_bits_data [OF r1(1)] by simp
    then show ?thesis using r1 Field by simp
  next
    case (Aligned ys)
    obtain us where us: "items_bits is (padded bs @ bytes_bits ys) = padded bs @ bytes_bits ys @ us"
      using items_bits_extend [of "is" "padded bs @ bytes_bits ys"] by auto
    obtain ps where ps: "padded bs = bs @ ps" "length ps < 8" by (simp add: padded_def)
    obtain vs where vs: "padded (padded bs @ bytes_bits ys @ us) = padded bs @ bytes_bits ys @ us @ vs"
      using padded_prefix [of "padded bs @ bytes_bits ys @ us"] by auto
    have zs: "zs = ps @ bytes_bits ys @ us @ vs" using Cons.prems(1) Aligned us vs ps(1) by simp
    have cancel: "(8 * a + (8 * b + x)) mod 8 = x mod 8" for a b x :: nat by simp
    obtain k where k: "length (padded bs) = 8 * k" using padded_length(1) by (auto simp: mod_eq_0_iff_dvd elim: dvdE)
    have "length (padded bs @ bytes_bits ys @ us @ vs) mod 8 = 0" using padded_length(1) vs by metis
    then have "length (us @ vs) mod 8 = 0" using cancel [of k "length ys" "length (us @ vs)"] k by simp
    then obtain m where "length (us @ vs) = 8 * m" by (auto simp: mod_eq_0_iff_dvd elim: dvdE)
    then have "length zs mod 8 = length ps" using ps(2) cancel [of "length ys" m "length ps"] by (simp add: zs algebra_simps)
    then have r1: "reading (bytes_bits ys @ us @ vs) (br_align_to_byte r)" "br_bitcount (br_align_to_byte r) = 0"
      using br_align_ok [OF Cons.prems(2)] by (simp_all add: zs)
    have "br_data (br_align_to_byte r) = br_data r" by (simp add: br_align_to_byte_def)
    then obtain r2 where r2: "read_aligned_bytes (length ys) (br_align_to_byte r) = Inr (ys, r2)" "reading (us @ vs) r2" "br_data r2 = br_data r"
      using read_aligned_bytes_ok [OF r1] Cons.prems(4) by auto
    have "read_items is r2 = Inr is"
      using Cons.IH [of "padded bs @ bytes_bits ys" "us @ vs" r2] Cons.prems(3, 4) r2 us vs Aligned by simp
    then show ?thesis using r2 Aligned by simp
  qed
qed simp

text \<open>
  The bit stream round trip: fields of up to 16 bits and runs of aligned bytes, written in any
  order and finished, are read back as they were written, and one more bit than there are bytes
  is an end-of-stream error; neither side panics or leaves its buffer.
\<close>

lemma bitstream_round_trip:
  assumes "list_all item_ok is" and "sum_list (map item_size is) < 2 ^ 60"
  shows "\<exists>out w. rbind (write_items is bw_init) bw_finish = Inr (out, w) \<and> read_items is (br_init out) = Inr is \<and>
    8 * length out \<le> sum_list (map item_size is) + 7 \<and>
    read_items (map (\<lambda>b. Field 0 8) out @ [Field 0 1]) (br_init out) = Inl (BitstreamError ''read_bits: unexpected end of stream'')"
proof -
  obtain w where w: "write_items is bw_init = Inr w" "written (items_bits is []) w"
    using write_items_ok [OF written_init assms(1)] assms(2) by auto
  have len: "length (items_bits is bs) \<le> length bs + sum_list (map item_size is)" for bs
  proof (induction "is" bs rule: items_bits.induct)
    case (3 ys "is" bs)
    then show ?case using padded_length(2) [of bs] by simp
  qed simp_all
  obtain out w' where out: "bw_finish w = Inr (out, w')" "bytes_bits out = padded (items_bits is [])"
    using bw_finish_ok [OF w(2)] len [of "[]"] assms(2) by auto
  have size: "8 * length out \<le> sum_list (map item_size is) + 7"
    using len [of "[]"] padded_length(2) [of "items_bits is []"] arg_cong [OF out(2), of length] by simp
  then have "length out < usize_lim" using assms(2) by (simp add: usize_lim_def)
  then have rd: "read_items is (br_init out) = Inr is"
    using read_items_ok [of "br_init out" "is" "[]" "bytes_bits out"] reading_init [of out] out(2) assms(1) by (simp add: br_init_def)
  have eof: "reading (bytes_bits bs) r \<Longrightarrow>
      read_items (map (\<lambda>b. Field 0 8) bs @ [Field 0 1]) r = Inl (BitstreamError ''read_bits: unexpected end of stream'')" for bs r
  proof (induction bs arbitrary: r)
    case (Cons b bs)
    then obtain r' where "read_bits 8 r = Inr (unat b, r')" "reading (bytes_bits bs) r'"
      using read_field [of 8 "unat b" "bytes_bits bs" r] u8_bound [of b] by (auto simp: byte_bits_def)
    then show ?case using Cons.IH by simp
  qed (simp add: read_bits_eof)
  show ?thesis using w out rd size eof [OF reading_init] by auto
qed

lemma bitstream_round_trip_example:
  "\<exists>out w. rbind (write_items [Field 5 3, Aligned [0x41], Field 300 9] bw_init) bw_finish = Inr (out, w) \<and>
    read_items [Field 5 3, Aligned [0x41], Field 300 9] (br_init out) = Inr [Field 5 3, Aligned [0x41], Field 300 9]"
  using bitstream_round_trip [of "[Field 5 3, Aligned [0x41], Field 300 9]"] by auto

end
