(* ===== verification/Lib_Huffman_Correct.thy ===== *)
theory Lib_Huffman_Correct
  imports Lib_Huffman Lib_Bitstream_Correct
begin

unbundle bit_operations_syntax

text \<open>
  Canonical codes.  A list of code lengths that does not use more code space than there is gives
  every symbol a code; the tables the encoder and the decoder build describe the same codes, so that
  the decoder reads back the symbol whose code was written.  The contract is the locale \<open>huffman_code\<close>.
\<close>

subsection \<open>The code of a list of lengths\<close>

definition len_count :: "nat list \<Rightarrow> nat \<Rightarrow> nat" where
  "len_count L b = (if b = 0 then 0 else count_list L b)"

text \<open>The first code of a length, and the number of symbols with shorter codes.\<close>

fun first_code :: "nat list \<Rightarrow> nat \<Rightarrow> nat" where
  "first_code L 0 = 0"
| "first_code L (Suc b) = 2 * (first_code L b + len_count L b)"

fun shorter :: "nat list \<Rightarrow> nat \<Rightarrow> nat" where
  "shorter L 0 = 0"
| "shorter L (Suc b) = shorter L b + len_count L b"

definition huff_rank :: "nat list \<Rightarrow> nat \<Rightarrow> nat" where
  "huff_rank L s = count_list (take s L) (L ! s)"

definition huff_code :: "nat list \<Rightarrow> nat \<Rightarrow> nat" where
  "huff_code L s = (if L ! s = 0 then 0 else first_code L (L ! s) + huff_rank L s)"

definition code_bits :: "nat list \<Rightarrow> nat \<Rightarrow> bool list" where
  "code_bits L s = rev (bitlist (L ! s) (huff_code L s))"

text \<open>The lengths fit: no length has more codes than the shorter ones leave room for.\<close>

definition code_space :: "nat list \<Rightarrow> bool" where
  "code_space L \<longleftrightarrow> (\<forall>b\<in>{1..15}. first_code L b + len_count L b \<le> 2 ^ b)"

definition valid_lengths :: "nat list \<Rightarrow> bool" where
  "valid_lengths L \<longleftrightarrow> length L < 65536 \<and> list_all (\<lambda>l. l \<le> 15) L \<and> code_space L"

lemma shorter_le: "shorter L b \<le> length L"
proof -
  have "shorter L b = length (filter (\<lambda>l. 0 < l \<and> l < b) L)"
  proof (induction b)
    case (Suc b)
    have "length (filter (\<lambda>l. 0 < l \<and> l < Suc b) L) = length (filter (\<lambda>l. 0 < l \<and> l < b) L) + len_count L b"
      by (induction L) (auto simp: len_count_def less_Suc_eq)
    then show ?case using Suc by simp
  qed simp
  then show ?thesis by simp
qed

lemma shorter_mono: "a \<le> b \<Longrightarrow> shorter L a \<le> shorter L b"
  by (induction b) (auto simp: le_Suc_eq)

lemma len_count_le: "len_count L b \<le> length L"
  by (auto simp: len_count_def count_le_length)

lemma first_code_mono: "first_code L (b + k) \<ge> 2 ^ k * first_code L b"
  by (induction k) auto

lemma first_code_gap: "b < l \<Longrightarrow> 2 ^ (l - b) * (first_code L b + len_count L b) \<le> first_code L l"
proof -
  assume "b < l"
  then obtain k where k: "l = Suc b + k" using less_iff_Suc_add by auto
  show ?thesis using first_code_mono [of k L "Suc b"] unfolding k by (simp add: algebra_simps)
qed

lemma count_list_snoc_less: "s < length L \<Longrightarrow> count_list (take s L) (L ! s) < count_list L (L ! s)"
proof -
  assume s: "s < length L"
  have "count_list L (L ! s) = count_list (take s L) (L ! s) + count_list (drop s L) (L ! s)"
    by (metis append_take_drop_id count_list_append)
  moreover have "drop s L = L ! s # drop (Suc s) L" using s by (simp add: Cons_nth_drop_Suc)
  ultimately show ?thesis by simp
qed

lemma huff_rank_less: "s < length L \<Longrightarrow> 0 < L ! s \<Longrightarrow> huff_rank L s < len_count L (L ! s)"
  using count_list_snoc_less by (simp add: huff_rank_def len_count_def)

subsection \<open>Counting\<close>

lemma tally_lengths_ok:
  "length cnt = 16 \<Longrightarrow> (\<forall>b<16. cnt ! b + length ls < 65536) \<Longrightarrow>
    tally_lengths ls cnt =
      (if list_all (\<lambda>l. l \<le> 15) ls then Inr (map (\<lambda>b. cnt ! b + len_count ls b) [0..<16]) else Inl (HuffmanError InvalidCodeLength))"
proof (induction ls arbitrary: cnt)
  case Nil
  then show ?case by (auto simp: len_count_def intro: nth_equalityI)
next
  case (Cons l ls)
  show ?case
  proof (cases "l \<le> 15")
    case False
    then show ?thesis by (simp add: MAX_BITS_def)
  next
    case le: True
    show ?thesis
    proof (cases "l = 0")
      case True
      then have "map (\<lambda>b. cnt ! b + len_count (l # ls) b) [0..<16] = map (\<lambda>b. cnt ! b + len_count ls b) [0..<16]"
        by (simp add: len_count_def)
      moreover have "\<forall>b<16. cnt ! b + length ls < 65536" using Cons.prems(2) by force
      ultimately show ?thesis using Cons.IH [OF Cons.prems(1)] True by simp
    next
      case False
      define cnt' where "cnt' = cnt[l := Suc (cnt ! l)]"
      have pre: "length cnt' = 16" "\<forall>b<16. cnt' ! b + length ls < 65536"
        using Cons.prems le by (auto simp: cnt'_def nth_list_update)
      have step: "tally_lengths (l # ls) cnt = tally_lengths ls cnt'"
        using False le Cons.prems(1) spec [OF Cons.prems(2), of l] by (simp add: MAX_BITS_def cnt'_def)
      have "map (\<lambda>b. cnt ! b + len_count (l # ls) b) [0..<16] = map (\<lambda>b. cnt' ! b + len_count ls b) [0..<16]"
        using False le Cons.prems(1) by (intro map_cong refl) (auto simp: cnt'_def len_count_def nth_list_update)
      then show ?thesis unfolding step Cons.IH [OF pre] using le by simp
    qed
  qed
qed

lemma wrap_i32_id: "- (2 ^ 31) \<le> x \<Longrightarrow> x < 2 ^ 31 \<Longrightarrow> wrap_i32 x = x"
  by (simp add: wrap_i32_def)

lemma check_left_ok:
  "cnt = map (len_count L) [0..<16] \<Longrightarrow> length L < 65536 \<Longrightarrow> 1 \<le> b \<Longrightarrow> b \<le> 16 \<Longrightarrow>
    left = 2 ^ (b - 1) - int (first_code L (b - 1) + len_count L (b - 1)) \<Longrightarrow> 0 \<le> left \<Longrightarrow>
    check_left cnt left b =
      (if \<forall>k\<in>{b..15}. first_code L k + len_count L k \<le> 2 ^ k then Inr () else Inl (HuffmanError OversubscribedCode))"
proof (induction cnt left b rule: check_left.induct)
  case (1 cnt left b)
  show ?case
  proof (cases "b \<le> 15")
    case False
    then show ?thesis by (simp add: check_left.simps [of cnt left b] MAX_BITS_def)
  next
    case True
    obtain a where a: "b = Suc a" using 1(4) by (cases b) auto
    have c: "cnt ! b = len_count L b" "b < length cnt" using True unfolding 1(2) by simp_all
    have "(2 :: int) ^ a \<le> 2 ^ 14" using True a by (intro power_increasing) auto
    then have l: "left \<le> 2 ^ 14" using 1(6) a by simp
    have n: "int (len_count L b) < 65536" using len_count_le [of L b] 1(3) by simp
    define left' where "left' = wrap_i32 (wrap_i32 (left * 2) - int (cnt ! b))"
    have left': "left' = 2 ^ b - int (first_code L b + len_count L b)"
    proof -
      have "wrap_i32 (left * 2) = left * 2" using l 1(7) by (intro wrap_i32_id) auto
      moreover have "wrap_i32 (left * 2 - int (cnt ! b)) = left * 2 - int (cnt ! b)"
        using l 1(7) n c by (intro wrap_i32_id) auto
      ultimately show ?thesis using 1(6) c a by (simp add: left'_def)
    qed
    have step: "check_left cnt left b = (if left' < 0 then Inl (HuffmanError OversubscribedCode) else check_left cnt left' (b + 1))"
      using True c by (subst check_left.simps) (simp add: MAX_BITS_def left'_def Let_def)
    have pow: "(2 :: int) ^ b = int (2 ^ b)" by simp
    have neg: "left' < 0 \<longleftrightarrow> \<not> first_code L b + len_count L b \<le> 2 ^ b" unfolding left' pow by linarith
    have split: "{b..15} = insert b {b + 1..15}" using True by auto
    show ?thesis
    proof (cases "left' < 0")
      case True
      then show ?thesis using step neg split by auto
    next
      case False
      have "check_left cnt left' (b + 1) = (if \<forall>k\<in>{b + 1..15}. first_code L k + len_count L k \<le> 2 ^ k then Inr ()
          else Inl (HuffmanError OversubscribedCode))"
        using "1.IH" [of "cnt ! b" left'] True False c 1(2, 3) left' by (simp add: MAX_BITS_def left'_def)
      then show ?thesis using step False neg split by auto
    qed
  qed
qed

lemma count_per_length_ok:
  assumes "length L < 65536"
  shows "count_per_length L =
    (if \<not> list_all (\<lambda>l. l \<le> 15) L then Inl (HuffmanError InvalidCodeLength)
     else if code_space L then Inr (map (len_count L) [0..<16]) else Inl (HuffmanError OversubscribedCode))"
proof (cases "list_all (\<lambda>l. l \<le> 15) L")
  case True
  have cnt: "map (\<lambda>b. replicate 16 0 ! b + len_count L b) [0..<16] = map (len_count L) [0..<16]" by (intro map_cong) auto
  have "tally_lengths L (replicate TABLE_SIZE 0) = Inr (map (len_count L) [0..<16])"
    using tally_lengths_ok [of "replicate 16 0" L] assms True cnt by (simp add: TABLE_SIZE_def)
  moreover have "check_left (map (len_count L) [0..<16]) 1 1 = (if code_space L then Inr () else Inl (HuffmanError OversubscribedCode))"
    using check_left_ok [of "map (len_count L) [0..<16]" L 1 1] assms by (simp add: code_space_def len_count_def)
  ultimately show ?thesis using True by (simp add: count_per_length_def)
next
  case False
  then show ?thesis using tally_lengths_ok [of "replicate 16 0" L] assms by (simp add: count_per_length_def TABLE_SIZE_def)
qed

subsection \<open>The encoder\<close>

locale huffman_code =
  fixes L :: "nat list"
  assumes valid: "valid_lengths L"
begin

lemma size: "length L < 65536"
  using valid by (simp add: valid_lengths_def)

lemma nth_le: "s < length L \<Longrightarrow> L ! s \<le> 15"
  using valid by (simp add: valid_lengths_def list_all_length)

lemma first_bound: "b \<le> 15 \<Longrightarrow> first_code L b + len_count L b \<le> 2 ^ b"
  using valid by (cases "b = 0") (auto simp: valid_lengths_def code_space_def len_count_def)

lemma counted: "count_per_length L = Inr (map (len_count L) [0..<16])"
  using valid count_per_length_ok [of L] by (simp add: valid_lengths_def)

lemma code_less: "s < length L \<Longrightarrow> huff_code L s < 2 ^ (L ! s)"
  using first_bound [of "L ! s"] huff_rank_less [of s L] nth_le [of s] by (cases "L ! s = 0") (auto simp: huff_code_def)

lemma pow_small: "b \<le> 15 \<Longrightarrow> (2 :: nat) ^ b \<le> 32768"
  using power_increasing [of b 15 "2 :: nat"] by simp

lemma first_codes_ok:
  "1 \<le> b \<Longrightarrow> b \<le> 16 \<Longrightarrow> length fc = 16 \<Longrightarrow> \<forall>j<b. fc ! j = first_code L j \<Longrightarrow>
    first_codes (map (len_count L) [0..<16]) (first_code L (b - 1)) b fc = Inr (map (first_code L) [0..<16])"
proof (induction "16 - b" arbitrary: b fc)
  case 0
  then show ?case by (subst first_codes.simps) (auto simp: MAX_BITS_def intro: nth_equalityI)
next
  case (Suc k)
  then obtain a where a: "b = Suc a" by (cases b) auto
  have b: "b \<le> 15" using Suc by simp
  have small: "first_code L a + len_count L a \<le> 32768" using first_bound [of a] pow_small [of a] a b by simp
  then have f: "wrap32 (wrap32 (first_code L a + map (len_count L) [0..<16] ! a) * 2) = first_code L b" using a b by simp
  have "first_codes (map (len_count L) [0..<16]) (first_code L a) b fc =
      first_codes (map (len_count L) [0..<16]) (first_code L b) (b + 1) (fc[b := first_code L b])"
    using b a Suc(5) f by (subst first_codes.simps) (simp add: MAX_BITS_def Let_def)
  also have "\<dots> = Inr (map (first_code L) [0..<16])"
    using Suc(1) [of "b + 1" "fc[b := first_code L b]"] Suc(2, 5, 6) b by (auto simp: nth_list_update less_Suc_eq)
  finally show ?case using a by simp
qed

lemma assign_codes_ok:
  "L = pre @ ls \<Longrightarrow> length nxt = 16 \<Longrightarrow> \<forall>b\<in>{1..15}. nxt ! b = first_code L b + count_list pre b \<Longrightarrow>
    assign_codes ls nxt codes = Inr (codes @ map (huff_code L) [length pre..<length L])"
proof (induction ls arbitrary: pre nxt codes)
  case (Cons l ls)
  let ?s = "length pre"
  have s: "?s < length L" "L ! ?s = l" "take ?s L = pre" using Cons.prems(1) by simp_all
  have upt: "map (huff_code L) [?s..<length L] = huff_code L ?s # map (huff_code L) [Suc ?s..<length L]" using s(1) by (simp add: upt_conv_Cons)
  have IH: "assign_codes ls nxt' codes' = Inr (codes' @ map (huff_code L) [Suc ?s..<length L])"
    if "length nxt' = 16" "\<forall>b\<in>{1..15}. nxt' ! b = first_code L b + count_list (pre @ [l]) b" for nxt' codes'
    using Cons.IH [of "pre @ [l]" nxt' codes'] that Cons.prems(1) by simp
  show ?case
  proof (cases "l = 0")
    case True
    then show ?thesis using IH [of nxt "codes @ [0]"] Cons.prems(2, 3) s(2) unfolding upt by (simp add: huff_code_def [of L ?s])
  next
    case False
    have le: "l \<le> 15" using nth_le [OF s(1)] s(2) by simp
    have c: "nxt ! l = huff_code L ?s" using Cons.prems(3) False le s by (simp add: huff_code_def huff_rank_def)
    have small: "huff_code L ?s < 32768" using code_less [OF s(1)] pow_small [of l] le s(2) by simp
    have "\<forall>b\<in>{1..15}. nxt[l := nxt ! l + 1] ! b = first_code L b + count_list (pre @ [l]) b"
      using Cons.prems(2, 3) le False by (auto simp: nth_list_update)
    then show ?thesis using IH [of "nxt[l := nxt ! l + 1]" "codes @ [huff_code L ?s]"] Cons.prems(2) False le c small
      unfolding upt by simp
  qed
qed simp

lemma encoder_ok: "huffman_encoder_init L = Inr \<lparr>he_codes = map (huff_code L) [0..<length L], he_lengths = L\<rparr>"
proof -
  have "first_codes (map (len_count L) [0..<16]) 0 1 (replicate TABLE_SIZE 0) = Inr (map (first_code L) [0..<16])"
    using first_codes_ok [of 1 "replicate 16 0"] by (simp add: TABLE_SIZE_def)
  moreover have "assign_codes L (map (first_code L) [0..<16]) [] = Inr (map (huff_code L) [0..<length L])"
    using assign_codes_ok [of "[]" L "map (first_code L) [0..<16]" "[]"] by simp
  ultimately show ?thesis by (simp add: huffman_encoder_init_def canonical_codes_from_lengths_def counted)
qed

end

lemma reverse_code_ok:
  "rv * 2 ^ k + 2 ^ k \<le> 2 ^ 32 \<Longrightarrow> reverse_code k rv c = rv * 2 ^ k + bitnum (rev (bitlist k c))"
proof (induction k arbitrary: rv c)
  case (Suc k)
  have "rv * 2 + 1 < 2 ^ 32"
  proof -
    have "(rv * 2 + 2) * 2 ^ k \<le> 2 ^ 32" using Suc.prems by (simp add: algebra_simps)
    then have "rv * 2 + 2 \<le> 2 ^ 32" by (metis le_trans le_add2 mult_le_mono2 nat_mult_1_right one_le_numeral one_le_power)
    then show ?thesis by simp
  qed
  then have "wrap32 (push_bit 1 rv) = push_bit 1 rv" by (simp add: push_bit_eq_mult)
  moreover have "push_bit 1 rv OR (c AND 1) = 2 * rv + c mod 2"
    using or_push [of "c mod 2" 1 rv] by (simp add: and_one_eq or.commute mod_2_eq_odd)
  ultimately have "reverse_code (Suc k) rv c = reverse_code k (2 * rv + c mod 2) (c div 2)"
    by (simp add: drop_bit_eq_div)
  also have "\<dots> = (2 * rv + c mod 2) * 2 ^ k + bitnum (rev (bitlist k (c div 2)))"
  proof (rule Suc.IH)
    have "(2 * rv + c mod 2) * 2 ^ k + 2 ^ k \<le> (2 * rv + 1) * 2 ^ k + 2 ^ k" by (intro add_mono mult_right_mono) auto
    also have "\<dots> = rv * 2 ^ Suc k + 2 ^ Suc k" by (simp add: algebra_simps)
    finally show "(2 * rv + c mod 2) * 2 ^ k + 2 ^ k \<le> 2 ^ 32" using Suc.prems by simp
  qed
  finally show ?case by (simp add: bitnum_append mod_2_eq_odd algebra_simps)
qed simp

lemma bitlist_reverse_code: "l \<le> 15 \<Longrightarrow> bitlist l (reverse_code l 0 c) = rev (bitlist l c)"
proof -
  assume "l \<le> 15"
  then have "(2 :: nat) ^ l \<le> 2 ^ 32" by (intro power_increasing) auto
  then have "reverse_code l 0 c = bitnum (rev (bitlist l c))" using reverse_code_ok [of 0 l c] by simp
  then show ?thesis using bitlist_bitnum [of "rev (bitlist l c)"] by simp
qed

context huffman_code
begin

text \<open>Writing a symbol appends its code; a symbol without a code is an error.\<close>

lemma write_symbol_ok:
  assumes "huffman_encoder_init L = Inr e" and "written bs w" and "length bs < 2 ^ 61" and "s < length L" and "L ! s \<noteq> 0"
  shows "\<exists>w'. write_symbol e s w = Inr w' \<and> written (bs @ code_bits L s) w'"
proof -
  have e: "e = \<lparr>he_codes = map (huff_code L) [0..<length L], he_lengths = L\<rparr>" using assms(1) encoder_ok by simp
  have "code_for e s = Inr (huff_code L s, L ! s)" using assms(4, 5) by (simp add: code_for_def e)
  moreover have "bitlist (L ! s) (reverse_code (L ! s) 0 (huff_code L s)) = code_bits L s"
    using bitlist_reverse_code nth_le [OF assms(4)] by (simp add: code_bits_def)
  ultimately show ?thesis
    using write_bits_ok [OF assms(2), of "L ! s" "reverse_code (L ! s) 0 (huff_code L s)"] nth_le [OF assms(4)] assms(3)
    by (simp add: write_symbol_def)
qed

end

subsection \<open>The decoder\<close>

definition huff_slot :: "nat list \<Rightarrow> nat \<Rightarrow> nat" where
  "huff_slot L s = shorter L (L ! s) + huff_rank L s"

text \<open>The symbols sorted by length and then by value.\<close>

definition slots_filled :: "nat list \<Rightarrow> nat list \<Rightarrow> bool" where
  "slots_filled L symbols \<longleftrightarrow> length symbols = shorter L 16 \<and> (\<forall>s<length L. 0 < L ! s \<longrightarrow> symbols ! huff_slot L s = s)"

lemma slot_less: "s < length L \<Longrightarrow> 0 < L ! s \<Longrightarrow> huff_slot L s < shorter L (Suc (L ! s))"
  using huff_rank_less [of s L] by (simp add: huff_slot_def)

lemma slot_mono:
  assumes "s < k" and "k < length L" and "0 < L ! s" and "0 < L ! k"
  shows "huff_slot L s \<noteq> huff_slot L k"
proof (cases "L ! s = L ! k")
  case True
  have "take s (take k L) = take s L" "take k L ! s = L ! s" using assms(1) by (simp_all add: min_def)
  then have "huff_rank L s < huff_rank L k"
    using count_list_snoc_less [of s "take k L"] assms(1, 2) True by (simp add: huff_rank_def)
  then show ?thesis using True by (simp add: huff_slot_def)
next
  case False
  have lt: "huff_slot L s < shorter L (Suc (L ! s))" "huff_slot L k < shorter L (Suc (L ! k))"
    using slot_less [of s L] slot_less [of k L] assms by simp_all
  have ge: "shorter L (L ! s) \<le> huff_slot L s" "shorter L (L ! k) \<le> huff_slot L k" by (simp_all add: huff_slot_def)
  consider "Suc (L ! s) \<le> L ! k" | "Suc (L ! k) \<le> L ! s" using False by linarith
  then show ?thesis using lt ge shorter_mono [of "Suc (L ! s)" "L ! k" L] shorter_mono [of "Suc (L ! k)" "L ! s" L] by cases linarith+
qed

lemma rank_exists: "r < count_list L b \<Longrightarrow> \<exists>s<length L. L ! s = b \<and> count_list (take s L) b = r"
proof (induction L arbitrary: r)
  case (Cons l L)
  show ?case
  proof (cases "l = b \<and> r = 0")
    case True
    then show ?thesis by (intro exI [of _ 0]) simp
  next
    case False
    define r' where "r' = (if l = b then r - 1 else r)"
    have "r' < count_list L b" using Cons.prems False by (auto simp: r'_def split: if_splits)
    then obtain s where s: "s < length L" "L ! s = b" "count_list (take s L) b = r'" using Cons.IH by auto
    then have "count_list (take (Suc s) (l # L)) b = r" using False by (auto simp: r'_def)
    then show ?thesis using s by (intro exI [of _ "Suc s"]) simp
  qed
qed simp

context huffman_code
begin

lemma shorter_small: "shorter L b < 65536"
  using shorter_le [of L b] size by simp

lemma offsets_ok:
  "1 \<le> b \<Longrightarrow> b \<le> 15 \<Longrightarrow> length offs = 16 \<Longrightarrow> \<forall>j\<le>b. offs ! j = shorter L j \<Longrightarrow>
    offsets (map (len_count L) [0..<16]) b offs = Inr (map (shorter L) [0..<16])"
proof (induction "15 - b" arbitrary: b offs)
  case 0
  then have "b = 15" by simp
  then show ?case using 0 by (subst offsets.simps) (auto simp: MAX_BITS_def intro: nth_equalityI)
next
  case (Suc k)
  then have b: "b < 15" by simp
  have o: "offs ! b = shorter L b" using Suc.prems by simp
  have "offsets (map (len_count L) [0..<16]) b offs = offsets (map (len_count L) [0..<16]) (b + 1) (offs[b + 1 := shorter L (b + 1)])"
    using b Suc.prems(3) o shorter_small [of "Suc b"] by (subst offsets.simps) (simp add: MAX_BITS_def)
  also have "\<dots> = Inr (map (shorter L) [0..<16])"
    using Suc.hyps(1) [of "b + 1" "offs[b + 1 := shorter L (b + 1)]"] Suc.hyps(2) Suc.prems b by (auto simp: nth_list_update le_Suc_eq)
  finally show ?case .
qed

lemma count_used_ok: "1 \<le> b \<Longrightarrow> b \<le> 16 \<Longrightarrow> count_used (map (len_count L) [0..<16]) b (shorter L b) = Inr (shorter L 16)"
proof (induction "16 - b" arbitrary: b)
  case 0
  then show ?case by (subst count_used.simps) (simp add: MAX_BITS_def)
next
  case (Suc k)
  then have "b \<le> 15" by simp
  then show ?case using Suc.hyps(1) [of "b + 1"] Suc.hyps(2) shorter_small [of "Suc b"] by (subst count_used.simps) (simp add: MAX_BITS_def)
qed

lemma place_symbols_ok:
  "L = pre @ ls \<Longrightarrow> length offs = 16 \<Longrightarrow> \<forall>b\<in>{1..15}. offs ! b = shorter L b + count_list pre b \<Longrightarrow>
    length symbols = shorter L 16 \<Longrightarrow> \<forall>s<length pre. 0 < L ! s \<longrightarrow> symbols ! huff_slot L s = s \<Longrightarrow>
    \<exists>symbols'. place_symbols ls (length pre) offs symbols = Inr symbols' \<and> slots_filled L symbols'"
proof (induction ls arbitrary: pre offs symbols)
  case Nil
  then show ?case by (simp add: slots_filled_def)
next
  case (Cons l ls)
  let ?k = "length pre"
  have k: "?k < length L" "L ! ?k = l" "take ?k L = pre" using Cons.prems(1) by simp_all
  have L': "L = (pre @ [l]) @ ls" using Cons.prems(1) by simp
  show ?case
  proof (cases "l = 0")
    case True
    then show ?thesis using Cons.IH [OF L', of offs symbols] Cons.prems(2-5) k(2) by (auto simp: less_Suc_eq)
  next
    case False
    have le: "l \<le> 15" using nth_le [OF k(1)] k(2) by simp
    have slot: "offs ! l = huff_slot L ?k" using Cons.prems(3) False le k by (simp add: huff_slot_def huff_rank_def)
    have "huff_slot L ?k < shorter L (Suc l)" using slot_less [OF k(1)] False k(2) by simp
    also have "\<dots> \<le> shorter L 16" using le by (intro shorter_mono) simp
    finally have lt: "huff_slot L ?k < shorter L 16" .
    then have small: "Suc (huff_slot L ?k) < 65536" using shorter_small [of 16] by linarith
    let ?offs = "offs[l := Suc (huff_slot L ?k)]" and ?symbols = "symbols[huff_slot L ?k := ?k]"
    have step: "place_symbols (l # ls) ?k offs symbols = place_symbols ls (length (pre @ [l])) ?offs ?symbols"
      using False le slot lt small k(1) size Cons.prems(2, 4) by simp
    have "\<forall>b\<in>{1..15}. ?offs ! b = shorter L b + count_list (pre @ [l]) b"
      using Cons.prems(2, 3) le slot False by (auto simp: nth_list_update)
    moreover have "?symbols ! huff_slot L s = s" if "s < length (pre @ [l])" "0 < L ! s" for s
    proof (cases "s < ?k")
      case True
      then have "huff_slot L s \<noteq> huff_slot L ?k" using slot_mono [OF True k(1) that(2)] False k(2) by simp
      then show ?thesis using Cons.prems(5) True that(2) by simp
    next
      case False
      then have "s = ?k" using that(1) by simp
      then show ?thesis using lt Cons.prems(4) by simp
    qed
    ultimately show ?thesis unfolding step using Cons.IH [OF L', of ?offs ?symbols] Cons.prems(2, 4) by simp
  qed
qed

lemma decoder_ok: "\<exists>symbols. huffman_decoder_init L = Inr \<lparr>hd_count = map (len_count L) [0..<16], hd_symbols = symbols\<rparr> \<and> slots_filled L symbols"
proof -
  have one: "shorter L 1 = 0" by (simp add: len_count_def)
  have "offsets (map (len_count L) [0..<16]) 1 (replicate TABLE_SIZE 0) = Inr (map (shorter L) [0..<16])"
    using offsets_ok [of 1 "replicate 16 0"] one by (auto simp: TABLE_SIZE_def le_Suc_eq)
  moreover have "count_used (map (len_count L) [0..<16]) 1 0 = Inr (shorter L 16)" using count_used_ok [of 1] one by simp
  moreover obtain symbols where "place_symbols L 0 (map (shorter L) [0..<16]) (replicate (shorter L 16) 0) = Inr symbols" "slots_filled L symbols"
    using place_symbols_ok [of "[]" L "map (shorter L) [0..<16]" "replicate (shorter L 16) 0"] by auto
  ultimately show ?thesis by (simp add: huffman_decoder_init_def counted)
qed

end

subsection \<open>Decoding\<close>

lemma or_bit: "2 * k OR of_bool x = 2 * k + (of_bool x :: nat)"
  using or_push [of "of_bool x" 1 k] by (simp add: push_bit_eq_mult or.commute mult.commute)

text \<open>What decoding may return on a stream: the symbol whose code the stream starts with, or one of two errors.\<close>

definition decode_result :: "nat list \<Rightarrow> bool list \<Rightarrow> (nat \<times> bit_reader) res \<Rightarrow> bool" where
  "decode_result L bs res \<longleftrightarrow>
     (case res of
        Inl e \<Rightarrow> e = HuffmanError UnexpectedEndOfStream \<or> e = HuffmanError NoSymbolMatched
      | Inr (s, r') \<Rightarrow> s < length L \<and> 0 < L ! s \<and> (\<exists>tail. bs = code_bits L s @ tail \<and> reading tail r'))"

locale huffman_decoding = huffman_code +
  fixes symbols :: "nat list" and d :: huffman_decoder
  assumes filled: "slots_filled L symbols"
    and d: "d = \<lparr>hd_count = map (len_count L) [0..<16], hd_symbols = symbols\<rparr>"
begin

lemma symbol_at:
  assumes "1 \<le> b" and "b \<le> 15" and "r < len_count L b"
  obtains s where "s < length L" "L ! s = b" "huff_rank L s = r" "shorter L b + r < length symbols" "symbols ! (shorter L b + r) = s"
proof -
  obtain s where s: "s < length L" "L ! s = b" "huff_rank L s = r"
    using rank_exists [of r L b] assms by (auto simp: len_count_def huff_rank_def)
  have "shorter L b + r < shorter L (Suc b)" using assms(3) by simp
  also have "\<dots> \<le> shorter L 16" using assms(2) by (intro shorter_mono) simp
  finally have "shorter L b + r < length symbols" using filled by (simp add: slots_filled_def)
  moreover have "symbols ! (shorter L b + r) = s" using filled s assms(1) by (auto simp: slots_filled_def huff_slot_def)
  ultimately show thesis using that s by blast
qed

text \<open>One step of the decoder, on a value that is not below the codes of the length reached.\<close>

definition next_bit :: "nat \<Rightarrow> nat \<Rightarrow> bool \<Rightarrow> bool" where
  "next_bit b k x \<longleftrightarrow> 2 * k + of_bool x < first_code L b + len_count L b"

lemma decode_step:
  assumes "1 \<le> b" and "b \<le> 15" and "reading (x # bs) r" and "k < 2 ^ (b - 1)" and "first_code L b \<le> 2 * k"
  obtains r' where "reading bs r'" and
    "decode_loop d (2 * k) (first_code L b) (shorter L b) b r =
      (if next_bit b k x then Inr (symbols ! (shorter L b + (2 * k + of_bool x - first_code L b)), r')
       else decode_loop d (2 * (2 * k + of_bool x)) (first_code L (b + 1)) (shorter L (b + 1)) (b + 1) r')"
proof -
  define c where "c = 2 * k + of_bool x"
  obtain r' where r': "read_bits 1 r = Inr (of_bool x, r')" "reading bs r'" using read_bits_ok [OF assms(3), of 1] by auto
  obtain a where a: "b = Suc a" using assms(1) by (cases b) auto
  have pow: "(2 :: nat) ^ b \<le> 32768" using pow_small [OF assms(2)] .
  have c: "c < 2 ^ b" "first_code L b \<le> c" using assms(4, 5) a by (auto simp: c_def)
  have small: "first_code L b + len_count L b \<le> 32768" using first_bound [OF assms(2)] pow by simp
  have cnt: "list_get msg b (hd_count d) = Inr (len_count L b)" for msg using assms(2) by (simp add: d)
  have sub: "sub_panic msg c (first_code L b) = Inr (c - first_code L b)" for msg using c(2) by (simp add: sub_panic_def)
  have idx: "shorter L b + len_count L b < 65536" using shorter_small [of "Suc b"] by simp
  have lt: "c - first_code L b < len_count L b \<longleftrightarrow> next_bit b k x" using c(2) by (auto simp: next_bit_def c_def)
  have get: "list_get msg (wrap64 (shorter L b + (c - first_code L b))) (hd_symbols d) = Inr (symbols ! (shorter L b + (c - first_code L b)))"
    if "next_bit b k x" for msg
  proof -
    have less: "c - first_code L b < len_count L b" using that lt by simp
    then have "wrap64 (shorter L b + (c - first_code L b)) = shorter L b + (c - first_code L b)" using idx by simp
    moreover obtain s where "shorter L b + (c - first_code L b) < length symbols" using symbol_at [OF assms(1, 2) less] by metis
    ultimately show ?thesis by (simp add: d)
  qed
  have wr: "wrap32 (c * 2) = 2 * c" "wrap32 (wrap32 (first_code L b + len_count L b) * 2) = first_code L (b + 1)"
    "wrap32 (shorter L b + len_count L b) = shorter L (b + 1)" using c pow small idx by simp_all
  have orc: "2 * k OR of_bool x = c" by (simp add: c_def or_bit)
  have "decode_loop d (2 * k) (first_code L b) (shorter L b) b r =
      (if next_bit b k x then Inr (symbols ! (shorter L b + (c - first_code L b)), r')
       else decode_loop d (2 * c) (first_code L (b + 1)) (shorter L (b + 1)) (b + 1) r')"
    unfolding decode_loop.simps [of d _ _ _ b r] r' map_err_Inr rbind_simps prod.case Let_def orc cnt sub lt wr
    using assms(2) get by (simp add: MAX_BITS_def del: list_get_eq)
  with r'(2) show thesis unfolding c_def by (rule that)
qed

text \<open>A code that was written is read back.\<close>

lemma code_div_ge: "s < length L \<Longrightarrow> b < L ! s \<Longrightarrow> first_code L b + len_count L b \<le> huff_code L s div 2 ^ (L ! s - b)"
proof -
  assume "b < L ! s"
  then have "2 ^ (L ! s - b) * (first_code L b + len_count L b) \<le> huff_code L s"
    using first_code_gap [of b "L ! s" L] by (simp add: huff_code_def)
  then show ?thesis by (simp add: less_eq_div_iff_mult_less_eq mult.commute)
qed

lemma decode_code_loop:
  assumes "s < length L" and "0 < L ! s"
  shows "1 \<le> b \<Longrightarrow> b \<le> L ! s \<Longrightarrow> reading (drop (b - 1) (code_bits L s) @ tail) r \<Longrightarrow>
    \<exists>r'. decode_loop d (2 * (huff_code L s div 2 ^ (L ! s - (b - 1)))) (first_code L b) (shorter L b) b r = Inr (s, r') \<and> reading tail r'"
proof (induction "L ! s - b" arbitrary: b r)
  case (0 b r)
  let ?c = "huff_code L s"
  have b: "L ! s = b" "1 \<le> b" "b \<le> 15" using 0 nth_le [OF assms(1)] by simp_all
  then obtain a where a: "b = Suc a" by (cases b) auto
  have dr: "drop (b - 1) (code_bits L s) = [odd ?c]"
    using a b(1) by (simp add: code_bits_def)
  have k: "?c div 2 ^ (L ! s - (b - 1)) = ?c div 2" using a b(1) by simp
  have c: "2 * (?c div 2) + of_bool (odd ?c) = ?c" by (simp add: mod_2_eq_odd [symmetric])
  have f: "?c = first_code L b + huff_rank L s" using b by (simp add: huff_code_def)
  have "a = 0 \<or> first_code L a + len_count L a \<le> ?c div 2" using code_div_ge [OF assms(1), of a] a b(1) by auto
  then have pre: "?c div 2 < 2 ^ (b - 1)" "first_code L b \<le> 2 * (?c div 2)"
    using code_less [OF assms(1)] a b(1) by (auto simp: len_count_def)
  have m: "next_bit b (?c div 2) (odd ?c)" unfolding next_bit_def c using f huff_rank_less [OF assms] b(1) by simp
  have sym: "symbols ! (shorter L b + (2 * (?c div 2) + of_bool (odd ?c) - first_code L b)) = s"
    unfolding c using filled assms b(1) f by (auto simp: slots_filled_def huff_slot_def)
  have rd: "reading (odd ?c # tail) r" using 0(4) unfolding dr by simp
  show ?case unfolding k by (rule decode_step [OF b(2, 3) rd pre]) (use m sym in auto)
next
  case (Suc n b r)
  let ?c = "huff_code L s" and ?l = "L ! s"
  have b: "b < ?l" "1 \<le> b" "b \<le> 15" using Suc(2-4) nth_le [OF assms(1)] by simp_all
  then obtain a where a: "b = Suc a" by (cases b) auto
  let ?k = "?c div 2 ^ (?l - (b - 1))" and ?x = "odd (?c div 2 ^ (?l - b))"
  have nth: "bitlist n v ! i = odd (v div 2 ^ i)" if "i < n" for n v i
    using that by (induction n arbitrary: v i) (auto simp: nth_Cons div_mult2_eq split: nat.splits)
  have "code_bits L s ! (b - 1) = ?x" using b a by (simp add: code_bits_def rev_nth nth)
  then have dr: "drop (b - 1) (code_bits L s) = ?x # drop b (code_bits L s)"
    using Cons_nth_drop_Suc [of "b - 1" "code_bits L s"] b a by (simp add: code_bits_def)
  have two: "?l - (b - 1) = Suc (?l - b)" using b a by simp
  then have k2: "?k = ?c div 2 ^ (?l - b) div 2" by (simp add: div_mult2_eq [symmetric] mult.commute)
  have c: "2 * ?k + of_bool ?x = ?c div 2 ^ (?l - b)" unfolding k2 by (simp add: mod_2_eq_odd [symmetric])
  have "a = 0 \<or> first_code L a + len_count L a \<le> ?k" using code_div_ge [OF assms(1), of a] a b(1) by auto
  then have f: "first_code L b \<le> 2 * ?k" using a by (auto simp: len_count_def)
  have "?c < 2 ^ (b - 1) * 2 ^ (?l - (b - 1))" using code_less [OF assms(1)] b by (simp flip: power_add)
  then have k: "?k < 2 ^ (b - 1)" by (rule less_mult_imp_div_less)
  have m: "\<not> next_bit b ?k ?x" unfolding next_bit_def c using code_div_ge [OF assms(1) b(1)] by simp
  have rd: "reading (?x # drop b (code_bits L s) @ tail) r" using Suc(5) unfolding dr by simp
  obtain r' where r': "reading (drop b (code_bits L s) @ tail) r'"
    "decode_loop d (2 * ?k) (first_code L b) (shorter L b) b r =
     decode_loop d (2 * (?c div 2 ^ (?l - b))) (first_code L (b + 1)) (shorter L (b + 1)) (b + 1) r'"
    by (rule decode_step [OF b(2, 3) rd k f]) (use m c in auto)
  have "\<exists>r''. decode_loop d (2 * (?c div 2 ^ (?l - (b + 1 - 1)))) (first_code L (b + 1)) (shorter L (b + 1)) (b + 1) r' = Inr (s, r'') \<and> reading tail r''"
    using Suc(1) [of "b + 1" r'] Suc(2) b r'(1) by simp
  then show ?case using r'(2) by simp
qed

lemma decode_code:
  assumes "s < length L" and "0 < L ! s" and "reading (code_bits L s @ tail) r"
  shows "\<exists>r'. huffman_decode d r = Inr (s, r') \<and> reading tail r'"
  using decode_code_loop [OF assms(1, 2), of 1 tail r] assms code_less [OF assms(1)]
  by (simp add: huffman_decode_def len_count_def)

text \<open>On any stream, the decoder finds the code the stream starts with, or returns an error.\<close>

lemma decode_any_loop:
  "1 \<le> b \<Longrightarrow> length pre = b - 1 \<Longrightarrow> reading bs r \<Longrightarrow> b \<le> 15 \<longrightarrow> first_code L b \<le> 2 * bitnum (rev pre) \<Longrightarrow>
    decode_result L (pre @ bs) (decode_loop d (2 * bitnum (rev pre)) (first_code L b) (shorter L b) b r)"
proof (induction bs arbitrary: b pre r)
  case Nil
  have "read_bits 1 r = Inl (BitstreamError ''read_bits: unexpected end of stream'')" using Nil(3) by (intro read_bits_eof) auto
  then show ?case by (subst decode_loop.simps) (simp add: decode_result_def)
next
  case (Cons x bs)
  show ?case
  proof (cases "b \<le> 15")
    case False
    then show ?thesis by (subst decode_loop.simps) (simp add: MAX_BITS_def decode_result_def)
  next
    case b: True
    let ?k = "bitnum (rev pre)"
    have v: "bitnum (rev (pre @ [x])) = 2 * ?k + of_bool x" by simp
    have k: "?k < 2 ^ (b - 1)" using bitnum_bound [of "rev pre"] Cons.prems(2) by simp
    have f: "first_code L b \<le> 2 * ?k" using Cons.prems(4) b by simp
    obtain r' where r': "reading bs r'" "decode_loop d (2 * ?k) (first_code L b) (shorter L b) b r =
      (if next_bit b ?k x then Inr (symbols ! (shorter L b + (2 * ?k + of_bool x - first_code L b)), r')
       else decode_loop d (2 * (2 * ?k + of_bool x)) (first_code L (b + 1)) (shorter L (b + 1)) (b + 1) r')"
      using decode_step [OF Cons.prems(1) b Cons.prems(3) k f] by metis
    show ?thesis
    proof (cases "next_bit b ?k x")
      case True
      have "2 * ?k + of_bool x - first_code L b < len_count L b" using True f by (auto simp: next_bit_def)
      then obtain s where s: "s < length L" "L ! s = b" "huff_rank L s = 2 * ?k + of_bool x - first_code L b"
        "symbols ! (shorter L b + (2 * ?k + of_bool x - first_code L b)) = s"
        using symbol_at [OF Cons.prems(1) b] by metis
      have "huff_code L s = bitnum (rev (pre @ [x]))" unfolding v using s(2, 3) f Cons.prems(1) by (simp add: huff_code_def)
      moreover have "length (rev (pre @ [x])) = b" using Cons.prems(1, 2) by simp
      ultimately have "code_bits L s = pre @ [x]" using bitlist_bitnum [of "rev (pre @ [x])"] s(2) by (simp add: code_bits_def)
      then show ?thesis using r' True s Cons.prems(1) by (simp add: decode_result_def)
    next
      case False
      have "first_code L (b + 1) \<le> 2 * bitnum (rev (pre @ [x]))" unfolding v using False by (simp add: next_bit_def)
      then have "decode_result L ((pre @ [x]) @ bs) (decode_loop d (2 * bitnum (rev (pre @ [x]))) (first_code L (b + 1)) (shorter L (b + 1)) (b + 1) r')"
        using r'(1) Cons.prems(1, 2) by (intro Cons.IH) auto
      then show ?thesis using r'(2) False unfolding v by simp
    qed
  qed
qed

lemma decode_any: "reading bs r \<Longrightarrow> decode_result L bs (huffman_decode d r)"
  using decode_any_loop [of 1 "[]" bs r] by (simp add: huffman_decode_def len_count_def)

end

end
