(* ===== verification/Lib_Huffman_Build.thy ===== *)
theory Lib_Huffman_Build
  imports Lib_Huffman_Correct
begin

text \<open>
  Code lengths from frequencies: the forest of \<^verbatim>\<open>build_code_lengths_from_frequencies\<close> as trees.  Merging
  keeps the leaves and the weights; because the two lightest trees are merged, the depth is
  logarithmic in the total weight, so that the 8-bit depths do not wrap; and the depths of the
  leaves of a tree use up exactly the code space.
\<close>

subsection \<open>Code space as a sum\<close>

definition kraft :: "nat list \<Rightarrow> nat" where
  "kraft L = sum_list (map (\<lambda>l. if l = 0 then 0 else 2 ^ (15 - l)) L)"

definition space_upto :: "nat \<Rightarrow> nat list \<Rightarrow> nat" where
  "space_upto b L = sum_list (map (\<lambda>l. if 0 < l \<and> l \<le> b then 2 ^ (15 - l) else 0) L)"

lemma space_upto_0: "space_upto 0 L = 0"
proof -
  have "(\<lambda>l. if 0 < l \<and> l \<le> 0 then 2 ^ (15 - l) else 0) = (\<lambda>l :: nat. 0 :: nat)" by (intro ext) auto
  then show ?thesis unfolding space_upto_def by (simp only: sum_list_0)
qed

lemma space_upto_Suc: "space_upto (Suc b) L = space_upto b L + len_count L (Suc b) * 2 ^ (15 - Suc b)"
  unfolding space_upto_def by (induction L) (auto simp: len_count_def le_Suc_eq)

lemma space_upto_kraft: "space_upto b L \<le> kraft L"
  unfolding space_upto_def kraft_def by (induction L) (auto intro: add_mono)

lemma space_used: "b \<le> 15 \<Longrightarrow> (first_code L b + len_count L b) * 2 ^ (15 - b) = space_upto b L"
proof (induction b)
  case 0
  then show ?case by (simp add: space_upto_0 len_count_def)
next
  case (Suc b)
  then have b: "15 - b = Suc (15 - Suc b)" by simp
  have "(first_code L b + len_count L b) * (2 * 2 ^ (15 - Suc b)) = space_upto b L"
    using Suc.IH Suc.prems unfolding b power_Suc by linarith
  moreover have "(2 * (x + y) + z) * p = (x + y) * (2 * p) + z * p" for x y z p :: nat by (simp add: algebra_simps)
  ultimately show ?case unfolding space_upto_Suc first_code.simps by simp
qed

lemma kraft_code_space: "kraft L \<le> 2 ^ 15 \<Longrightarrow> code_space L"
  unfolding code_space_def
proof
  fix b assume k: "kraft L \<le> 2 ^ 15" and b: "b \<in> {1 .. 15 :: nat}"
  have "(first_code L b + len_count L b) * 2 ^ (15 - b) \<le> 2 ^ 15" using space_used [of b L] space_upto_kraft [of b L] b k by simp
  also have "(2 :: nat) ^ 15 = 2 ^ b * 2 ^ (15 - b)" using b by (simp flip: power_add)
  finally show "first_code L b + len_count L b \<le> 2 ^ b" by simp
qed

subsection \<open>Trees\<close>

datatype htree = HLeaf nat | HNode htree htree

fun leaves :: "htree \<Rightarrow> nat multiset" where
  "leaves (HLeaf i) = {#i#}"
| "leaves (HNode s t) = leaves s + leaves t"

fun tree_weight :: "nat list \<Rightarrow> htree \<Rightarrow> nat" where
  "tree_weight ws (HLeaf i) = ws ! i"
| "tree_weight ws (HNode s t) = tree_weight ws s + tree_weight ws t"

fun tree_height :: "htree \<Rightarrow> nat" where
  "tree_height (HLeaf i) = 0"
| "tree_height (HNode s t) = Suc (max (tree_height s) (tree_height t))"

fun tree_size :: "htree \<Rightarrow> nat" where
  "tree_size (HLeaf i) = 1"
| "tree_size (HNode s t) = Suc (tree_size s + tree_size t)"

fun leaf_depths :: "htree \<Rightarrow> nat \<Rightarrow> (nat \<times> nat) list" where
  "leaf_depths (HLeaf i) d = [(i, d)]"
| "leaf_depths (HNode s t) d = leaf_depths s (Suc d) @ leaf_depths t (Suc d)"

lemma leaf_depths_leaves: "mset (map fst (leaf_depths t d)) = leaves t"
  by (induction t arbitrary: d) auto

lemma leaf_depths_bounds: "(i, e) \<in> set (leaf_depths t d) \<Longrightarrow> d \<le> e \<and> e \<le> d + tree_height t"
  by (induction t arbitrary: d) (auto, (force+)?)

lemma tree_size_leaves: "Suc (tree_size t) = 2 * size (leaves t)"
  by (induction t) auto

lemma leaves_pos: "0 < size (leaves t)"
  by (induction t) auto

lemma tree_height_leaves: "tree_height t < size (leaves t)"
  by (induction t) auto

lemma tree_kraft: "d + tree_height t \<le> D \<Longrightarrow> (\<Sum>(i, e)\<leftarrow>leaf_depths t d. (2 :: nat) ^ (D - e)) = 2 ^ (D - d)"
proof (induction t arbitrary: d)
  case (HNode s t)
  have "(2 :: nat) ^ (D - Suc d) + 2 ^ (D - Suc d) = 2 ^ (D - d)"
    using HNode.prems by (metis Suc_diff_Suc Suc_le_lessD add_leD1 add_Suc_right tree_height.simps(2) mult_2 power_Suc plus_1_eq_Suc add.commute)
  then show ?case using HNode by simp
qed simp

subsection \<open>The two lightest trees\<close>

definition actives :: "forest \<Rightarrow> nat \<Rightarrow> nat set" where
  "actives F n = {i. i < n \<and> active F ! i}"

abbreviation max_w :: nat where "max_w \<equiv> 0xFFFFFFFF"

definition lightest2 :: "forest \<Rightarrow> nat set \<Rightarrow> int \<times> int \<times> nat \<times> nat \<Rightarrow> bool" where
  "lightest2 F A st \<longleftrightarrow>
     (\<exists>i j. i \<in> A \<and> j \<in> A \<and> i \<noteq> j \<and> st = (int i, int j, weight F ! i, weight F ! j) \<and> weight F ! i \<le> weight F ! j \<and>
        (\<forall>k\<in>A. k \<noteq> i \<longrightarrow> k \<noteq> j \<longrightarrow> weight F ! j \<le> weight F ! k))"

definition scan_inv :: "forest \<Rightarrow> nat set \<Rightarrow> int \<times> int \<times> nat \<times> nat \<Rightarrow> bool" where
  "scan_inv F A st \<longleftrightarrow>
     A = {} \<and> st = (- 1, - 1, max_w, max_w) \<or>
     (\<exists>i. A = {i} \<and> st = (int i, - 1, weight F ! i, max_w) \<and> weight F ! i < max_w) \<or> lightest2 F A st"

text \<open>What the loop does with an active node.\<close>

fun pick :: "forest \<Rightarrow> nat \<Rightarrow> int \<times> int \<times> nat \<times> nat \<Rightarrow> int \<times> int \<times> nat \<times> nat" where
  "pick F s (a, b, aw, bw) =
     (let w = weight F ! s in if w < aw then (int s, a, w, aw) else if w < bw then (a, int s, aw, w) else (a, b, aw, bw))"

lemma lightest2_pick:
  assumes "lightest2 F A st" and "s \<notin> A"
  shows "lightest2 F (insert s A) (pick F s st)"
proof -
  let ?w = "weight F ! s"
  obtain i j where ij: "i \<in> A" "j \<in> A" "i \<noteq> j" "st = (int i, int j, weight F ! i, weight F ! j)" "weight F ! i \<le> weight F ! j"
    and rest: "\<And>k. k \<in> A \<Longrightarrow> k \<noteq> i \<Longrightarrow> k \<noteq> j \<Longrightarrow> weight F ! j \<le> weight F ! k"
    using assms(1) by (auto simp: lightest2_def)
  have ne: "s \<noteq> i" "s \<noteq> j" using assms(2) ij by auto
  consider "?w < weight F ! i" | "\<not> ?w < weight F ! i" "?w < weight F ! j" | "\<not> ?w < weight F ! i" "\<not> ?w < weight F ! j" by blast
  then show ?thesis
  proof cases
    case 1
    have "weight F ! i \<le> weight F ! k" if "k \<in> insert s A" "k \<noteq> s" "k \<noteq> i" for k using that rest [of k] ij(5) by (cases "k = j") auto
    then show ?thesis unfolding lightest2_def using 1 ij ne by (intro exI [of _ s] exI [of _ i]) (simp add: Let_def)
  next
    case 2
    have "?w \<le> weight F ! k" if "k \<in> insert s A" "k \<noteq> i" "k \<noteq> s" for k using that rest [of k] 2 by (cases "k = j") auto
    then show ?thesis unfolding lightest2_def using 2 ij ne by (intro exI [of _ i] exI [of _ s]) (simp add: Let_def)
  next
    case 3
    then show ?thesis unfolding lightest2_def using ij ne rest by (intro exI [of _ i] exI [of _ j]) (auto simp: Let_def)
  qed
qed

lemma scan_pick:
  assumes "scan_inv F A st" and "s \<notin> A" and "weight F ! s < max_w"
  shows "scan_inv F (insert s A) (pick F s st)"
  using assms(1) unfolding scan_inv_def
proof (elim disjE exE conjE)
  fix i assume i: "A = {i}" "st = (int i, - 1, weight F ! i, max_w)" "weight F ! i < max_w"
  then have "lightest2 F (insert s A) (pick F s st)" using assms(2, 3) unfolding lightest2_def
    by (cases "weight F ! s < weight F ! i") (auto simp: Let_def)
  then show "insert s A = {} \<and> pick F s st = (- 1, - 1, max_w, max_w) \<or>
      (\<exists>i. insert s A = {i} \<and> pick F s st = (int i, - 1, weight F ! i, max_w) \<and> weight F ! i < max_w) \<or>
      lightest2 F (insert s A) (pick F s st)" by blast
qed (use assms(2, 3) lightest2_pick in \<open>simp_all add: Let_def\<close>)

lemma actives_Suc: "actives F (Suc n) = (if active F ! n then insert n (actives F n) else actives F n)"
  by (auto simp: actives_def less_Suc_eq)

lemma scan_min_ok:
  "s \<le> n \<Longrightarrow> n < 2 ^ 31 \<Longrightarrow> length (active F) = n \<Longrightarrow> length (weight F) = n \<Longrightarrow>
    \<forall>i\<in>actives F n. weight F ! i < max_w \<Longrightarrow> scan_inv F (actives F s) (a, b, aw, bw) \<Longrightarrow>
    \<exists>st. scan_min F n s a b aw bw = Inr st \<and> scan_inv F (actives F n) st"
proof (induction "n - s" arbitrary: s a b aw bw)
  case 0
  then show ?case by (subst scan_min.simps) simp
next
  case (Suc m)
  have s: "s < n" using Suc.hyps(2) by simp
  have IH: "\<exists>st. scan_min F n (Suc s) a b aw bw = Inr st \<and> scan_inv F (actives F n) st"
    if "scan_inv F (actives F (Suc s)) (a, b, aw, bw)" for a b aw bw
    using Suc.hyps that s Suc.prems by simp
  show ?case
  proof (cases "active F ! s")
    case False
    then have "scan_inv F (actives F (Suc s)) (a, b, aw, bw)" using Suc.prems(6) by (simp add: actives_Suc)
    then show ?thesis using IH s Suc.prems False by (subst scan_min.simps) simp
  next
    case True
    obtain a' b' aw' bw' where p: "pick F s (a, b, aw, bw) = (a', b', aw', bw')" using prod_cases4 by blast
    have "weight F ! s < max_w" "s \<notin> actives F s" using Suc.prems(5) True s by (simp_all add: actives_def)
    then have "scan_inv F (actives F (Suc s)) (a', b', aw', bw')"
      using scan_pick [OF Suc.prems(6), of s] True unfolding p [symmetric] by (simp add: actives_Suc del: pick.simps)
    moreover have "scan_min F n s a b aw bw = scan_min F n (Suc s) a' b' aw' bw'"
      using p s Suc.prems True by (subst scan_min.simps) (auto simp: Let_def split: if_splits)
    ultimately show ?thesis using IH by simp
  qed
qed

subsection \<open>Merging\<close>

fun is_tree :: "forest \<Rightarrow> htree \<Rightarrow> nat \<Rightarrow> bool" where
  "is_tree F (HLeaf i) n \<longleftrightarrow> n = i \<and> n < length (left_child F) \<and> n < length (right_child F) \<and> left_child F ! n = - 1"
| "is_tree F (HNode s t) n \<longleftrightarrow> n < length (left_child F) \<and> n < length (right_child F) \<and>
     (\<exists>a b. left_child F ! n = int a \<and> right_child F ! n = int b \<and> is_tree F s a \<and> is_tree F t b)"

lemma is_tree_extend: "is_tree F t n \<Longrightarrow> is_tree (add_node w l r (F\<lparr>active := act\<rparr>)) t n"
  by (induction t arbitrary: n) (auto simp: add_node_def nth_append)

text \<open>The weight of a tree, and of all its subtrees, is exponential in its height.\<close>

fun grown :: "nat list \<Rightarrow> htree \<Rightarrow> bool" where
  "grown ws (HLeaf i) \<longleftrightarrow> 1 \<le> ws ! i"
| "grown ws (HNode s t) \<longleftrightarrow> grown ws s \<and> grown ws t \<and> 2 ^ (tree_height (HNode s t) div 2) \<le> tree_weight ws (HNode s t)"

fun kids_le :: "nat list \<Rightarrow> nat \<Rightarrow> htree \<Rightarrow> bool" where
  "kids_le ws M (HLeaf i) \<longleftrightarrow> True"
| "kids_le ws M (HNode s t) \<longleftrightarrow> tree_weight ws s \<le> M \<and> tree_weight ws t \<le> M"

lemma grown_weight: "grown ws t \<Longrightarrow> 2 ^ (tree_height t div 2) \<le> tree_weight ws t"
  by (cases t) auto

lemma kids_le_mono: "kids_le ws M t \<Longrightarrow> M \<le> M' \<Longrightarrow> kids_le ws M' t"
  by (cases t) auto

text \<open>A tree that outweighs the children of another one is at least as heavy as they are high.\<close>

lemma outweighs: "grown ws s \<Longrightarrow> kids_le ws M s \<Longrightarrow> M \<le> w \<Longrightarrow> tree_height s = Suc h \<Longrightarrow> 2 ^ (h div 2) \<le> w"
proof (cases s)
  case (HNode s1 s2)
  assume g: "grown ws s" "kids_le ws M s" "M \<le> w" "tree_height s = Suc h"
  have "2 ^ (tree_height s1 div 2) \<le> w" "2 ^ (tree_height s2 div 2) \<le> w"
    using g HNode grown_weight [of ws s1] grown_weight [of ws s2] by auto
  then show ?thesis using g(4) HNode by (simp add: max_def split: if_splits)
qed simp

lemma pow_step: "h = 0 \<or> 2 ^ ((h - 1) div 2) \<le> y \<Longrightarrow> 2 ^ (h div 2) \<le> x \<Longrightarrow> (2 :: nat) ^ (Suc h div 2) \<le> x + y"
proof (cases "even h")
  case True
  assume "2 ^ (h div 2) \<le> x"
  then show ?thesis using True by simp
next
  case False
  then obtain k where h: "h = Suc (2 * k)" by (metis oddE Suc_eq_plus1)
  assume "h = 0 \<or> 2 ^ ((h - 1) div 2) \<le> y" "2 ^ (h div 2) \<le> x"
  then show ?thesis by (simp add: h)
qed

lemma grown_node:
  assumes "grown ws s" "grown ws t" "kids_le ws M s" "kids_le ws M t" "M \<le> tree_weight ws s" "M \<le> tree_weight ws t"
  shows "grown ws (HNode s t)"
proof -
  have high: "(2 :: nat) ^ (Suc (tree_height u) div 2) \<le> tree_weight ws u + tree_weight ws v"
    if "grown ws u" "kids_le ws M u" "M \<le> tree_weight ws v" for u v
  proof (rule pow_step)
    show "tree_height u = 0 \<or> 2 ^ ((tree_height u - 1) div 2) \<le> tree_weight ws v"
      using outweighs [OF that] by (cases "tree_height u") simp_all
  qed (rule grown_weight [OF that(1)])
  show ?thesis using high [OF assms(1, 3, 6)] high [OF assms(2, 4, 5)] assms(1, 2) by (simp add: max_def add.commute)
qed

definition forest_inv :: "nat list \<Rightarrow> (nat \<Rightarrow> htree) \<Rightarrow> nat \<Rightarrow> forest \<Rightarrow> nat \<Rightarrow> bool" where
  "forest_inv ws T M F n \<longleftrightarrow>
     length (weight F) = n \<and> length (left_child F) = n \<and> length (right_child F) = n \<and> length (active F) = n \<and>
     (\<forall>i\<in>actives F n. is_tree F (T i) i \<and> weight F ! i = tree_weight ws (T i) \<and> grown ws (T i) \<and>
        M \<le> tree_weight ws (T i) \<and> kids_le ws M (T i)) \<and>
     (\<Sum>i\<in>actives F n. leaves (T i)) = mset [0..<length ws]"

lemma finite_actives [simp]: "finite (actives F n)"
  by (simp add: actives_def)

lemma tree_weight_leaves: "tree_weight ws t = (\<Sum>i\<in>#leaves t. ws ! i)"
  by (induction t) auto

lemma total_weight: "forest_inv ws T M F n \<Longrightarrow> (\<Sum>i\<in>actives F n. tree_weight ws (T i)) = sum_list ws"
proof -
  assume F: "forest_inv ws T M F n"
  have "(\<Sum>i\<in>A. tree_weight ws (T i)) = (\<Sum>i\<in>#(\<Sum>i\<in>A. leaves (T i)). ws ! i)" if "finite A" for A
    using that by (induction A) (auto simp: tree_weight_leaves)
  then have "(\<Sum>i\<in>actives F n. tree_weight ws (T i)) = (\<Sum>i\<in>#mset [0..<length ws]. ws ! i)" using F by (simp add: forest_inv_def)
  also have "\<dots> = sum_list (map ((!) ws) [0..<length ws])" by (metis mset_map sum_mset_sum_list)
  finally show ?thesis by (simp add: map_nth)
qed

lemma weight_bound: "forest_inv ws T M F n \<Longrightarrow> i \<in> actives F n \<Longrightarrow> tree_weight ws (T i) \<le> sum_list ws"
  using total_weight [of ws T M F n] member_le_sum [of i "actives F n" "\<lambda>i. tree_weight ws (T i)"] by simp

lemma merge_step_ok:
  assumes inv: "forest_inv ws T M F n" and two: "2 \<le> card (actives F n)" and "sum_list ws < max_w" and "n < 2 ^ 31"
  shows "\<exists>F' T' M'. merge_step n F = Inr F' \<and> forest_inv ws T' M' F' (Suc n) \<and>
    card (actives F' (Suc n)) = card (actives F n) - 1 \<and> n \<in> actives F' (Suc n)"
proof -
  let ?A = "actives F n"
  have len: "length (weight F) = n" "length (left_child F) = n" "length (right_child F) = n" "length (active F) = n"
    using inv by (simp_all add: forest_inv_def)
  have each: "is_tree F (T i) i" "weight F ! i = tree_weight ws (T i)" "grown ws (T i)" "M \<le> tree_weight ws (T i)" "kids_le ws M (T i)"
    if "i \<in> ?A" for i using inv that by (simp_all add: forest_inv_def)
  have "\<forall>i\<in>?A. weight F ! i < max_w" using each(2) weight_bound [OF inv] assms(3) by fastforce
  moreover have "actives F 0 = {}" by (simp add: actives_def)
  ultimately obtain st where st: "scan_min F n 0 (- 1) (- 1) max_w max_w = Inr st" "scan_inv F ?A st"
    using scan_min_ok [of 0 n F "- 1" "- 1" max_w max_w] len assms(4) by (auto simp: scan_inv_def)
  have "?A \<noteq> {}" "\<nexists>i. ?A = {i}" using two by auto
  then have "lightest2 F ?A st" using st(2) by (auto simp: scan_inv_def)
  then obtain a b where ab: "a \<in> ?A" "b \<in> ?A" "a \<noteq> b" "st = (int a, int b, weight F ! a, weight F ! b)" "weight F ! a \<le> weight F ! b"
    and rest: "\<And>k. k \<in> ?A \<Longrightarrow> k \<noteq> a \<Longrightarrow> k \<noteq> b \<Longrightarrow> weight F ! b \<le> weight F ! k" by (auto simp: lightest2_def)
  define wa wb where "wa = tree_weight ws (T a)" and "wb = tree_weight ws (T b)"
  have w: "weight F ! a = wa" "weight F ! b = wb" "wa \<le> wb" using each(2) ab by (simp_all add: wa_def wb_def)
  have lt: "a < n" "b < n" using ab by (simp_all add: actives_def)
  define F' where "F' = add_node (wa + wb) (int a) (int b) (F\<lparr>active := (active F)[a := False, b := False]\<rparr>)"
  define T' where "T' = T(n := HNode (T a) (T b))"
  have "sum (\<lambda>i. tree_weight ws (T i)) {a, b} \<le> sum_list ws"
    unfolding total_weight [OF inv, symmetric] using ab by (intro sum_mono2) auto
  then have "wa + wb < 4294967296" using ab(3) assms(3) by (simp add: wa_def wb_def)
  then have step: "merge_step n F = Inr F'" using st(1) ab(4) w lt len by (simp add: merge_step_def F'_def)
  have A': "actives F' (Suc n) = insert n (?A - {a, b})"
    using len lt by (auto simp: actives_def F'_def add_node_def nth_append nth_list_update less_Suc_eq)
  have n: "n \<notin> ?A" by (simp add: actives_def)
  have tr: "is_tree F' t i" if "is_tree F t i" for t i using is_tree_extend [OF that] by (simp add: F'_def)
  have node: "is_tree F' (T' n) n" using tr [OF each(1) [OF ab(1)]] tr [OF each(1) [OF ab(2)]] len
    by (simp add: T'_def) (simp add: F'_def add_node_def nth_append)
  have wt: "weight F' ! n = wa + wb" "i < n \<Longrightarrow> weight F' ! i = weight F ! i" for i using len by (simp_all add: F'_def add_node_def nth_append)
  have tw: "tree_weight ws (T' n) = wa + wb" by (simp add: T'_def wa_def wb_def)
  have g: "grown ws (T' n)" using grown_node [OF each(3) [OF ab(1)] each(3) [OF ab(2)] each(5) [OF ab(1)] each(5) [OF ab(2)]] each(4) ab
    by (simp add: T'_def)
  have kids: "kids_le ws wb (T' n)" using w(3) by (simp add: T'_def wa_def wb_def)
  have Mb: "M \<le> wb" using each(4) [OF ab(2)] by (simp add: wb_def)
  have other: "is_tree F' (T' i) i \<and> weight F' ! i = tree_weight ws (T' i) \<and> grown ws (T' i) \<and> wb \<le> tree_weight ws (T' i) \<and> kids_le ws wb (T' i)"
    if "i \<in> ?A - {a, b}" for i
    using that tr each [of i] wt(2) [of i] n rest [of i] w(2) kids_le_mono [OF _ Mb] by (auto simp: T'_def actives_def)
  have fin: "finite (?A - {a, b})" "n \<notin> ?A - {a, b}" using n by auto
  have "sum (\<lambda>i. leaves (T' i)) (actives F' (Suc n)) = leaves (T a) + leaves (T b) + sum (\<lambda>i. leaves (T' i)) (?A - {a, b})"
    unfolding A' using fin by (simp add: T'_def)
  also have "sum (\<lambda>i. leaves (T' i)) (?A - {a, b}) = sum (\<lambda>i. leaves (T i)) (?A - {a, b})"
    using fin(2) by (intro sum.cong) (auto simp: T'_def)
  also have "leaves (T a) + leaves (T b) + sum (\<lambda>i. leaves (T i)) (?A - {a, b}) = sum (\<lambda>i. leaves (T i)) ?A"
    using ab sum.subset_diff [of "{a, b}" ?A "\<lambda>i. leaves (T i)"] by (simp add: add.commute)
  finally have lv: "sum (\<lambda>i. leaves (T' i)) (actives F' (Suc n)) = mset [0..<length ws]" using inv by (simp add: forest_inv_def)
  have "forest_inv ws T' wb F' (Suc n)"
    unfolding forest_inv_def lv unfolding A' using node wt(1) tw g kids other len by (auto simp: F'_def add_node_def)
  moreover have "card (actives F' (Suc n)) = card ?A - 1"
    unfolding A' using fin ab two by (simp add: card_Diff_subset)
  ultimately show ?thesis using step A' by blast
qed

lemma merge_loop_ok:
  "forest_inv ws T M F n \<Longrightarrow> card (actives F n) = u - s \<Longrightarrow> s < u \<Longrightarrow> n = u + s \<Longrightarrow> 2 * u < 2 ^ 31 \<Longrightarrow> sum_list ws < max_w \<Longrightarrow>
    \<exists>F' T' M'. merge_loop u n s F = Inr (2 * u - 1, F') \<and> forest_inv ws T' M' F' (2 * u - 1) \<and> card (actives F' (2 * u - 1)) = 1 \<and>
      (Suc s < u \<longrightarrow> 2 * u - 2 \<in> actives F' (2 * u - 1))"
proof (induction "u - s" arbitrary: s n F T M)
  case (Suc k)
  show ?case
  proof (cases "s < u - 1")
    case True
    have "2 \<le> card (actives F n)" using True Suc.prems(2) by linarith
    then obtain F1 T1 M1 where 1: "merge_step n F = Inr F1" "forest_inv ws T1 M1 F1 (Suc n)"
      "card (actives F1 (Suc n)) = card (actives F n) - 1" "n \<in> actives F1 (Suc n)"
      using merge_step_ok [OF Suc.prems(1)] Suc.prems True by auto
    have step: "merge_loop u n s F = merge_loop u (Suc n) (Suc s) F1"
      using True 1(1) Suc.prems(3) by (subst merge_loop.simps) (simp add: sub_panic_def)
    have "k = u - Suc s" "Suc s < u" using Suc.hyps(2) True by linarith+
    then obtain F' T' M' where F': "merge_loop u (Suc n) (Suc s) F1 = Inr (2 * u - 1, F')" "forest_inv ws T' M' F' (2 * u - 1)"
      "card (actives F' (2 * u - 1)) = 1" "Suc (Suc s) < u \<longrightarrow> 2 * u - 2 \<in> actives F' (2 * u - 1)"
      using Suc.hyps(1) [of "Suc s" T1 M1 F1 "Suc n"] Suc.hyps(2) Suc.prems True 1 by auto
    have "2 * u - 2 \<in> actives F' (2 * u - 1)"
    proof (cases "Suc (Suc s) < u")
      case False
      then have u: "u = Suc (Suc s)" using True by simp
      then have "merge_loop u (Suc n) (Suc s) F1 = Inr (Suc n, F1)" by (subst merge_loop.simps) (simp add: sub_panic_def)
      then have "F' = F1" "2 * u - 1 = Suc n" "2 * u - 2 = n" using F'(1) u by auto
      then show ?thesis using 1(4) by simp
    qed (use F'(4) in simp)
    then show ?thesis using step F' by auto
  next
    case False
    then have u: "u = Suc s" using Suc.prems(3) by simp
    then have "merge_loop u n s F = Inr (n, F)" by (subst merge_loop.simps) (simp add: sub_panic_def)
    moreover have "2 * u - 1 = n" using u Suc.prems(4) by simp
    ultimately show ?thesis using Suc.prems(1, 2) u by auto
  qed
qed simp

subsection \<open>The leaves\<close>

definition used_of :: "nat list \<Rightarrow> nat list" where
  "used_of freqs = filter (\<lambda>s. 0 < freqs ! s) [0..<length freqs]"

lemma used_symbols_ok:
  "freqs = pre @ fs \<Longrightarrow> length freqs < 65536 \<Longrightarrow>
    used_symbols fs (length pre) acc = Inr (acc @ filter (\<lambda>s. 0 < freqs ! s) [length pre..<length freqs])"
proof (induction fs arbitrary: pre acc)
  case (Cons f fs)
  have s: "length pre < length freqs" "freqs ! length pre = f" using Cons.prems(1) by simp_all
  have IH: "used_symbols fs (Suc (length pre)) acc' = Inr (acc' @ filter (\<lambda>s. 0 < freqs ! s) [Suc (length pre)..<length freqs])" for acc'
    using Cons.IH [of "pre @ [f]" acc'] Cons.prems by simp
  have upt: "[length pre..<length freqs] = length pre # [Suc (length pre)..<length freqs]" using s(1) by (simp add: upt_conv_Cons)
  show ?case unfolding upt using IH s Cons.prems(2) by simp
qed simp

lemma used_symbols_eq: "length freqs < 65536 \<Longrightarrow> used_symbols freqs 0 [] = Inr (used_of freqs)"
  using used_symbols_ok [of freqs "[]" freqs "[]"] by (simp add: used_of_def)

lemma used_of_props: "s \<in> set (used_of freqs) \<longleftrightarrow> s < length freqs \<and> 0 < freqs ! s" "distinct (used_of freqs)"
  "length (used_of freqs) \<le> length freqs" "sum_list (map ((!) freqs) (used_of freqs)) = sum_list freqs"
proof -
  show "s \<in> set (used_of freqs) \<longleftrightarrow> s < length freqs \<and> 0 < freqs ! s" "distinct (used_of freqs)" by (auto simp: used_of_def)
  show "length (used_of freqs) \<le> length freqs" unfolding used_of_def by (metis length_filter_le length_upt minus_nat.diff_0)
  have "sum_list (map f (filter (\<lambda>s. 0 < f s) xs)) = sum_list (map f xs)" for f :: "nat \<Rightarrow> nat" and xs by (induction xs) auto
  then show "sum_list (map ((!) freqs) (used_of freqs)) = sum_list freqs" unfolding used_of_def by (simp add: map_nth)
qed

lemma add_leaves_ok:
  "\<forall>s\<in>set used. s < length freqs \<Longrightarrow>
    add_leaves freqs used F = Inr (F\<lparr>weight := weight F @ map ((!) freqs) used, left_child := left_child F @ replicate (length used) (- 1),
      right_child := right_child F @ replicate (length used) (- 1), active := active F @ replicate (length used) True\<rparr>)"
  by (induction used arbitrary: F) (simp_all add: add_node_def)

lemma leaves_inv:
  assumes "\<forall>w\<in>set ws. 0 < w"
  shows "forest_inv ws HLeaf 0 \<lparr>weight = ws, left_child = replicate (length ws) (- 1), right_child = replicate (length ws) (- 1),
    active = replicate (length ws) True\<rparr> (length ws)"
proof -
  have s: "(\<Sum>i\<in>A. {#i#}) = mset_set A" if "finite A" for A :: "nat set" using that by (induction A) auto
  have u: "{i. i < n \<and> replicate n True ! i} = {0..<n}" for n by auto
  show ?thesis using assms by (auto simp: forest_inv_def actives_def u s Suc_le_eq)
qed

subsection \<open>Depths\<close>

fun set_depths :: "htree \<Rightarrow> nat \<Rightarrow> nat list \<Rightarrow> nat list" where
  "set_depths (HLeaf i) d depth = depth[i := d]"
| "set_depths (HNode s t) d depth = set_depths s (Suc d) (set_depths t (Suc d) depth)"

lemma set_depths_length [simp]: "length (set_depths t d depth) = length depth"
  by (induction t arbitrary: d depth) auto

lemma depth_loop_Nil: "depth_loop fuel F [] ds depth md = Inr (depth, md)"
  by (subst depth_loop.simps) simp

lemma depth_loop_ok:
  "is_tree F t i \<Longrightarrow> \<forall>k\<in>#leaves t. k < length depth \<Longrightarrow> d + tree_height t < 256 \<Longrightarrow> length ns = length ds \<Longrightarrow>
    depth_loop (tree_size t + fuel) F (ns @ [int i]) (ds @ [d]) depth md =
    depth_loop fuel F ns ds (set_depths t d depth) (max md (d + tree_height t))"
proof (induction t arbitrary: i d ns ds depth md fuel)
  case (HLeaf k)
  then show ?case by (subst depth_loop.simps) (auto simp: max_def nth_append)
next
  case (HNode s t)
  then obtain a b where ab: "i < length (left_child F)" "i < length (right_child F)" "left_child F ! i = int a" "right_child F ! i = int b"
    "is_tree F s a" "is_tree F t b" by auto
  have h: "Suc d + tree_height s < 256" "Suc d + tree_height t < 256" "Suc d < 256" using HNode.prems(3) by auto
  have "depth_loop (tree_size (HNode s t) + fuel) F (ns @ [int i]) (ds @ [d]) depth md =
      depth_loop (tree_size t + (tree_size s + fuel)) F ((ns @ [int a]) @ [int b]) ((ds @ [Suc d]) @ [Suc d]) depth md"
    using ab(1-4) HNode.prems(4) h(3) by (subst depth_loop.simps) (simp add: add.commute add.left_commute nth_append)
  also have "\<dots> = depth_loop (tree_size s + fuel) F (ns @ [int a]) (ds @ [Suc d]) (set_depths t (Suc d) depth) (max md (Suc d + tree_height t))"
    using HNode.prems ab(6) h(2) by (intro HNode.IH(2)) auto
  also have "\<dots> = depth_loop fuel F ns ds (set_depths s (Suc d) (set_depths t (Suc d) depth)) (max (max md (Suc d + tree_height t)) (Suc d + tree_height s))"
    using HNode.prems ab(5) h(1) by (intro HNode.IH(1)) auto
  also have "max (max md (Suc d + tree_height t)) (Suc d + tree_height s) = max md (d + tree_height (HNode s t))" by auto
  finally show ?case by simp
qed

lemma set_depths_other: "k \<notin># leaves t \<Longrightarrow> set_depths t d depth ! k = depth ! k"
  by (induction t arbitrary: d depth) auto

lemma set_depths_nth:
  "(\<forall>k. count (leaves t) k \<le> 1) \<Longrightarrow> \<forall>k\<in>#leaves t. k < length depth \<Longrightarrow> (i, e) \<in> set (leaf_depths t d) \<Longrightarrow> set_depths t d depth ! i = e"
proof (induction t arbitrary: d depth)
  case (HNode s t)
  have fst: "(i, e) \<in> set (leaf_depths u d') \<Longrightarrow> i \<in># leaves u" for u d'
    by (metis leaf_depths_leaves image_eqI fst_conv set_map set_mset_mset)
  have sum: "count (leaves s) k + count (leaves t) k \<le> 1" for k using spec [OF HNode.prems(1), of k] by simp
  then have c: "\<forall>k. count (leaves s) k \<le> 1" "\<forall>k. count (leaves t) k \<le> 1" using add_leD1 add_leD2 by blast+
  have ds: "i \<in># leaves t \<Longrightarrow> i \<notin># leaves s" using sum [of i] by (auto simp flip: count_greater_zero_iff)
  from HNode.prems(3) consider "(i, e) \<in> set (leaf_depths s (Suc d))" | "(i, e) \<in> set (leaf_depths t (Suc d))" by auto
  then show ?case
  proof cases
    case 1
    then show ?thesis using HNode.IH(1) [OF c(1)] HNode.prems(2) by simp
  next
    case 2
    then have "set_depths t (Suc d) depth ! i = e" using HNode.IH(2) [OF c(2)] HNode.prems(2) by simp
    then show ?thesis using set_depths_other [of i s] ds fst [OF 2] by simp
  qed
qed simp

subsection \<open>The lengths\<close>

lemma leaf_lengths_ok:
  "distinct used \<Longrightarrow> \<forall>s\<in>set used. s < length lengths \<Longrightarrow> fi + length used \<le> length depth \<Longrightarrow>
    \<exists>L. leaf_lengths used fi depth lengths = Inr L \<and> length L = length lengths \<and>
      (\<forall>k<length used. L ! (used ! k) = depth ! (fi + k)) \<and> (\<forall>s. s \<notin> set used \<longrightarrow> L ! s = lengths ! s)"
proof (induction used arbitrary: fi lengths)
  case (Cons s used)
  obtain L where L: "leaf_lengths used (Suc fi) depth (lengths[s := depth ! fi]) = Inr L" "length L = length lengths"
    "\<forall>k<length used. L ! (used ! k) = depth ! (Suc fi + k)" "\<forall>x. x \<notin> set used \<longrightarrow> L ! x = lengths[s := depth ! fi] ! x"
    using Cons.IH [of "lengths[s := depth ! fi]" "Suc fi"] Cons.prems by auto
  have "L ! s = depth ! fi" using L(4) Cons.prems(1, 2) by simp
  then have nth: "\<forall>k<length (s # used). L ! ((s # used) ! k) = depth ! (fi + k)" using L(3) by (auto simp: nth_Cons split: nat.splits)
  have other: "\<forall>x. x \<notin> set (s # used) \<longrightarrow> L ! x = lengths ! x" using L(4) by (simp add: nth_list_update_neq)
  have "leaf_lengths (s # used) fi depth lengths = Inr L" using L(1) Cons.prems(2, 3) by simp
  then show ?case using L(2) nth other by blast
qed simp

definition lengths_for :: "nat list \<Rightarrow> nat \<Rightarrow> nat list \<Rightarrow> bool" where
  "lengths_for freqs m L \<longleftrightarrow> length L = length freqs \<and> (\<forall>s<length L. L ! s = 0 \<longleftrightarrow> freqs ! s = 0) \<and>
     list_all (\<lambda>l. l \<le> m) L \<and> valid_lengths L"

lemma lengths_forI:
  assumes "length L = length freqs" and "length freqs < 65536" and "m \<le> 15"
    and "\<And>k. k < length (used_of freqs) \<Longrightarrow> L ! (used_of freqs ! k) = e k \<and> 0 < e k \<and> e k \<le> m"
    and "\<And>s. s < length L \<Longrightarrow> s \<notin> set (used_of freqs) \<Longrightarrow> L ! s = 0"
    and "(\<Sum>k<length (used_of freqs). 2 ^ (15 - e k)) \<le> (2 :: nat) ^ 15"
  shows "lengths_for freqs m L"
proof -
  let ?u = "used_of freqs" and ?f = "\<lambda>l :: nat. if l = 0 then 0 else (2 :: nat) ^ (15 - l)"
  have each: "0 < L ! s \<and> L ! s \<le> m" if "s \<in> set ?u" for s using that assms(4) by (metis in_set_conv_nth)
  have sub: "set ?u \<subseteq> {..<length L}" using used_of_props(1) assms(1) by auto
  have "kraft L = (\<Sum>s<length L. ?f (L ! s))" by (simp add: kraft_def sum_list_sum_nth lessThan_atLeast0)
  also have "\<dots> = (\<Sum>s\<in>set ?u. ?f (L ! s))" using sub assms(5) by (intro sum.mono_neutral_right) auto
  also have "\<dots> = sum_list (map (\<lambda>s. ?f (L ! s)) ?u)" by (simp add: sum_list_distinct_conv_sum_set used_of_props(2))
  also have "\<dots> = (\<Sum>k<length ?u. ?f (L ! (?u ! k)))" by (simp add: sum_list_sum_nth lessThan_atLeast0)
  also have "\<dots> = (\<Sum>k<length ?u. 2 ^ (15 - e k))" using assms(4) by (intro sum.cong) auto
  finally have "code_space L" using assms(6) by (intro kraft_code_space) simp
  moreover have le: "L ! s \<le> m" if "s < length L" for s using each [of s] assms(5) [OF that] by (cases "s \<in> set ?u") auto
  moreover have "L ! s = 0 \<longleftrightarrow> freqs ! s = 0" if "s < length L" for s
    using each [of s] assms(5) [OF that] that used_of_props(1) [of s freqs] assms(1) by (cases "s \<in> set ?u") auto
  ultimately show ?thesis using assms(1-3) by (auto simp: lengths_for_def valid_lengths_def list_all_length intro: le_trans)
qed

lemma lengths_for_mono: "lengths_for freqs m L \<Longrightarrow> m \<le> n \<Longrightarrow> lengths_for freqs n L"
  by (auto simp: lengths_for_def list_all_iff)

text \<open>No code is longer than a tree with as many leaves as there are symbols is high.\<close>

definition deepest :: "nat list \<Rightarrow> nat \<Rightarrow> nat" where
  "deepest freqs m = min m (max 1 (length (used_of freqs) - 1))"

lemma deepest_le: "deepest freqs m \<le> m"
  by (simp add: deepest_def)

lemma sum_list_perm: "mset xs = mset ys \<Longrightarrow> sum_list (map f xs) = sum_list (map (f :: nat \<Rightarrow> nat) ys)"
  by (metis mset_map sum_mset_sum_list)

lemma sum_list_pairs: "(\<And>i e. (i, e) \<in> set ps \<Longrightarrow> g i = e) \<Longrightarrow> sum_list (map (\<lambda>k. h (g k)) (map fst ps)) = (\<Sum>(i, e)\<leftarrow>ps. h e)"
proof (induction ps)
  case (Cons p ps)
  obtain a b where p: "p = (a, b)" by (cases p)
  have "g a = b" using Cons.prems [of a b] p by simp
  moreover have "sum_list (map (\<lambda>k. h (g k)) (map fst ps)) = (\<Sum>(i, e)\<leftarrow>ps. h e)" using Cons by simp
  ultimately show ?case by (simp add: p)
qed simp

lemma build_lengths_tree:
  assumes n: "length freqs < 65536" and "sum_list freqs < max_w" and m: "m \<le> 15" and u: "2 \<le> length (used_of freqs)"
  shows "build_code_lengths_from_frequencies freqs m = Inl (HuffmanError CodeTooLong) \<and> m + 1 < length (used_of freqs) \<or>
    (\<exists>L. build_code_lengths_from_frequencies freqs m = Inr L \<and> lengths_for freqs (deepest freqs m) L)"
proof -
  define us where "us = used_of freqs"
  define ws where "ws = map ((!) freqs) us"
  let ?u = "length us" and ?F = "\<lparr>weight = ws, left_child = replicate (length us) (- 1), right_child = replicate (length us) (- 1), active = replicate (length us) True\<rparr>"
  have lu: "?u < 65536" "2 \<le> ?u" "length ws = ?u" using used_of_props(3) [of freqs] n u by (simp_all add: us_def ws_def)
  have pos: "\<forall>w\<in>set ws. 0 < w" "\<forall>s\<in>set us. s < length freqs" using used_of_props(1) by (auto simp: ws_def us_def)
  have sum: "sum_list ws < max_w" using assms(2) used_of_props(4) [of freqs] by (simp add: ws_def us_def)
  have leaves: "add_leaves freqs us \<lparr>weight = [], left_child = [], right_child = [], active = []\<rparr> = Inr ?F"
    using add_leaves_ok [OF pos(2)] by (simp add: ws_def)
  have inv: "forest_inv ws HLeaf 0 ?F ?u" using leaves_inv [OF pos(1)] lu(3) by simp
  have "actives ?F ?u = {0..<?u}" by (auto simp: actives_def)
  moreover have "us \<noteq> []" using lu(2) by auto
  ultimately obtain F T M where F: "merge_loop ?u ?u 0 ?F = Inr (2 * ?u - 1, F)" "forest_inv ws T M F (2 * ?u - 1)"
    "card (actives F (2 * ?u - 1)) = 1" "2 * ?u - 2 \<in> actives F (2 * ?u - 1)"
    using merge_loop_ok [OF inv, of ?u 0] lu sum by auto
  define root where "root = 2 * ?u - 2"
  have A: "actives F (2 * ?u - 1) = {root}" using F(3, 4) by (auto simp: root_def card_1_singleton_iff)
  define t where "t = T root"
  have t: "is_tree F t root" "grown ws t" "leaves t = mset [0..<?u]" using F(2) lu(3) unfolding forest_inv_def A t_def by auto
  have "tree_weight ws t = sum_list ws" using total_weight [OF F(2)] unfolding A by (simp add: t_def)
  then have "(2 :: nat) ^ (tree_height t div 2) < 2 ^ 32" using grown_weight [OF t(2)] sum by simp
  then have "tree_height t div 2 < 32" by (rule power_less_imp_less_exp [rotated]) simp
  then have h: "0 + tree_height t < 256" by simp
  have size: "tree_size t = 2 * ?u - 1" using tree_size_leaves [of t] t(3) by simp
  let ?d = "set_depths t 0 (replicate (2 * ?u - 1) 0)"
  have lvs: "\<forall>k\<in>#leaves t. k < length (replicate (2 * ?u - 1) 0)" using t(3) lu(2) by auto
  have depth: "depth_loop (2 * ?u - 1) F [int root] [0] (replicate (2 * ?u - 1) 0) 0 = Inr (?d, tree_height t)"
    using depth_loop_ok [OF t(1) lvs h, of "[]" "[]" 0 0] size depth_loop_Nil by simp
  have r: "1 \<le> 2 * ?u" "1 \<le> 2 * ?u - 1" "2 * ?u - 1 - 1 = root" "root < 2147483648" unfolding root_def using lu by linarith+
  have ar: "fits msg (2 * ?u) = Inr (2 * ?u)" "sub_panic msg (2 * ?u) 1 = Inr (2 * ?u - 1)" "sub_panic msg (2 * ?u - 1) 1 = Inr root"
    "i32_panic msg root = Inr (int root)" for msg
    unfolding sub_panic_def r(3) using r lu by (simp_all add: fits_def usize_lim_def)
  have nz: "(?u = 0) = False" "(?u = 1) = False" using lu(2) by auto
  have build: "build_code_lengths_from_frequencies freqs m =
      (if m < tree_height t then Inl (HuffmanError CodeTooLong) else leaf_lengths us 0 ?d (replicate (length freqs) 0))"
    unfolding build_code_lengths_from_frequencies_def used_symbols_eq [OF n] us_def [symmetric] rbind_simps Let_def nz if_False
      ar leaves F(1) prod.case depth ..
  have hu: "tree_height t < ?u" using tree_height_leaves [of t] t(3) by simp
  show ?thesis
  proof (cases "m < tree_height t")
    case True
    then show ?thesis using build hu by (simp add: us_def)
  next
    case False
    have ul: "?u \<le> 2 * ?u - 1" "distinct us" using lu(2) used_of_props(2) by (simp_all add: us_def)
    obtain L where L: "leaf_lengths us 0 ?d (replicate (length freqs) 0) = Inr L" "length L = length freqs"
      "\<forall>k<?u. L ! (us ! k) = ?d ! k" "\<forall>s. s \<notin> set us \<longrightarrow> L ! s = replicate (length freqs) 0 ! s"
      using leaf_lengths_ok [of us "replicate (length freqs) 0" 0 ?d] ul pos(2) by auto
    have "size (leaves t) = ?u" unfolding t(3) by simp
    then obtain t1 t2 where node: "t = HNode t1 t2" using lu(2) by (cases t) auto
    have one: "\<forall>k. count (leaves t) k \<le> 1" unfolding t(3) using distinct_count_atmost_1 [of "[0..<?u]"] by auto
    have dm: "deepest freqs m \<le> 15" "tree_height t \<le> deepest freqs m" using m False hu by (simp_all add: deepest_def us_def)
    have e: "?d ! i = e \<and> 0 < e \<and> e \<le> deepest freqs m" if "(i, e) \<in> set (leaf_depths t 0)" for i e
    proof -
      have "(i, e) \<in> set (leaf_depths t1 1) \<union> set (leaf_depths t2 1)" using that node by simp
      then have "0 < e" using leaf_depths_bounds [of i e t1 1] leaf_depths_bounds [of i e t2 1] by auto
      moreover have "?d ! i = e" by (rule set_depths_nth [OF one lvs that])
      ultimately show ?thesis using leaf_depths_bounds [OF that] dm(2) by simp
    qed
    have fst: "mset (map fst (leaf_depths t 0)) = mset [0..<?u]" using leaf_depths_leaves [of t 0] t(3) by simp
    have ek: "0 < ?d ! k \<and> ?d ! k \<le> deepest freqs m" if "k < ?u" for k
    proof -
      have "k \<in> set (map fst (leaf_depths t 0))" using that mset_eq_setD [OF fst] by simp
      then show ?thesis using e by auto
    qed
    have "(\<Sum>k<?u. 2 ^ (15 - ?d ! k)) = sum_list (map (\<lambda>k. 2 ^ (15 - ?d ! k)) [0..<?u])" by (simp add: interv_sum_list_conv_sum_set_nat lessThan_atLeast0)
    also have "\<dots> = sum_list (map (\<lambda>k. (2 :: nat) ^ (15 - ?d ! k)) (map fst (leaf_depths t 0)))"
      by (rule sum_list_perm [OF fst [symmetric]])
    also have "\<dots> = (\<Sum>(i, l)\<leftarrow>leaf_depths t 0. 2 ^ (15 - l))"
      using e by (intro sum_list_pairs) blast
    also have "\<dots> = 2 ^ 15" using tree_kraft [of 0 t 15] False m by simp
    finally have "lengths_for freqs (deepest freqs m) L"
      using L(2, 3) n dm(1) ek L(4) by (intro lengths_forI [of _ _ _ "\<lambda>k. ?d ! k"]) (auto simp: us_def [symmetric])
    then show ?thesis using build False L(1) by auto
  qed
qed

text \<open>
  Frequencies give a code for exactly the symbols that occur, or \<^verbatim>\<open>CodeTooLong\<close>, which takes at least
  two symbols more than the length allowed.
\<close>

lemma build_lengths_ok:
  assumes "length freqs < 65536" and "sum_list freqs < max_w" and "1 \<le> m" and "m \<le> 15"
  shows "build_code_lengths_from_frequencies freqs m = Inl (HuffmanError CodeTooLong) \<and> m + 1 < length (used_of freqs) \<or>
    (\<exists>L. build_code_lengths_from_frequencies freqs m = Inr L \<and> lengths_for freqs (deepest freqs m) L)"
proof -
  let ?u = "used_of freqs"
  have us: "s < length freqs" if "s \<in> set ?u" for s using that used_of_props(1) by simp
  consider "length ?u = 0" | "length ?u = 1" | "2 \<le> length ?u" by linarith
  then show ?thesis
  proof cases
    case 1
    have "lengths_for freqs (deepest freqs m) (replicate (length freqs) 0)"
      using 1 assms by (intro lengths_forI [of _ _ _ "\<lambda>k. 1"]) (auto simp: deepest_def)
    then show ?thesis using 1 used_symbols_eq [OF assms(1)] by (simp add: build_code_lengths_from_frequencies_def Let_def)
  next
    case 2
    then obtain s where s: "?u = [s]" by (cases ?u) auto
    then have "lengths_for freqs (deepest freqs m) ((replicate (length freqs) 0)[s := 1])"
      using us [of s] assms by (intro lengths_forI [of _ _ _ "\<lambda>k. 1"]) (auto simp: nth_list_update deepest_def)
    then show ?thesis using s us [of s] used_symbols_eq [OF assms(1)] by (simp add: build_code_lengths_from_frequencies_def Let_def)
  next
    case 3
    then show ?thesis using build_lengths_tree assms by simp
  qed
qed

end
