(* ===== verification/Lib_Lz77_Correct.thy ===== *)
theory Lib_Lz77_Correct
  imports Lib_Lz77
begin

unbundle bit_operations_syntax

text \<open>
  The tokens found for some bytes describe exactly these bytes, whatever the level, and replaying them
  gives the bytes back.
\<close>

subsection \<open>Matches\<close>

lemma and_mask_less: "x AND 32767 < (32768 :: nat)"
proof -
  have "(32767 :: nat) = mask 15" by (simp add: mask_eq_exp_minus_1)
  then have "x AND 32767 = take_bit 15 x" by (simp only: take_bit_eq_mask)
  then show ?thesis by (simp add: take_bit_eq_mod)
qed

lemma hash3_ok: "pos + 3 \<le> length data \<Longrightarrow> length data < 2 ^ 31 \<Longrightarrow> \<exists>h. hash3 data pos = Inr h \<and> h < 32768"
  by (simp add: hash3_def ptr_load_def HASH_SIZE_def Let_def and_mask_less)

lemma match_loop_ok:
  "a < b \<Longrightarrow> b + m \<le> length data \<Longrightarrow> length data < 2 ^ 31 \<Longrightarrow> len \<le> m \<Longrightarrow> (\<forall>i<len. data ! (b + i) = data ! (a + i)) \<Longrightarrow>
    \<exists>l. match_loop data a b m len = Inr l \<and> l \<le> m \<and> (\<forall>i<l. data ! (b + i) = data ! (a + i))"
proof (induction "m - len" arbitrary: len)
  case 0
  then show ?case by (subst match_loop.simps) simp
next
  case (Suc k)
  then have len: "len < m" by simp
  have ld: "a + len < length data" "b + len < length data" using len Suc.prems(1, 2) by simp_all
  have f: "fits msg (a + len) = Inr (a + len)" "fits msg (b + len) = Inr (b + len)" for msg
    using ld Suc.prems(3) by (intro fits_small; simp)+
  have p: "ptr_load (a + len) data = Inr (data ! (a + len))" "ptr_load (b + len) data = Inr (data ! (b + len))"
    using ld by (simp_all add: ptr_load_def)
  have step: "match_loop data a b m len = (if data ! (a + len) = data ! (b + len) then match_loop data a b m (len + 1) else Inr len)"
    unfolding match_loop.simps [of data a b m len] f p Let_def rbind_simps using len by simp
  show ?case
  proof (cases "data ! (a + len) = data ! (b + len)")
    case True
    have "data ! (b + i) = data ! (a + i)" if "i < len + 1" for i using that Suc.prems(5) True by (cases "i = len") auto
    then have "\<exists>l. match_loop data a b m (len + 1) = Inr l \<and> l \<le> m \<and> (\<forall>i<l. data ! (b + i) = data ! (a + i))"
      using Suc.hyps(2) len by (intro Suc.hyps(1) Suc.prems(1-3)) auto
    moreover have "match_loop data a b m len = match_loop data a b m (len + 1)" unfolding step by (rule if_P [OF True])
    ultimately show ?thesis by (simp only:)
  next
    case False
    then have "match_loop data a b m len = Inr len" using step by (simp only: if_False)
    then show ?thesis using Suc.prems(4, 5) by blast
  qed
qed

text \<open>A match of a position: how many bytes, how far back.\<close>

definition is_match :: "u8 list \<Rightarrow> nat \<Rightarrow> nat \<Rightarrow> nat \<Rightarrow> bool" where
  "is_match data pos l d \<longleftrightarrow> l \<le> 258 \<and> 1 \<le> d \<and> d \<le> 32768 \<and> d \<le> pos \<and> pos + l \<le> length data \<and>
     (\<forall>i<l. data ! (pos + i) = data ! (pos - d + i))"

lemma match_length_ok:
  assumes "a < b" and "b \<le> length data" and "length data < 2 ^ 31" and "b - a \<le> 32768"
  shows "\<exists>l. match_length data a b (length data) = Inr l \<and> is_match data b l (b - a)"
proof -
  let ?m = "if length data - b > MAX_MATCH then MAX_MATCH else length data - b"
  have m: "b + ?m \<le> length data" "?m \<le> 258" using assms(2) by (auto simp: MAX_MATCH_def)
  obtain l where l: "match_loop data a b ?m 0 = Inr l" "l \<le> ?m" "\<forall>i<l. data ! (b + i) = data ! (a + i)"
    using match_loop_ok [OF assms(1) m(1) assms(3), of 0] by auto
  have "match_length data a b (length data) = Inr l" using l(1) assms(2) by (simp add: match_length_def sub_panic_def)
  moreover have "is_match data b l (b - a)" using l(2, 3) m assms by (auto simp: is_match_def)
  ultimately show ?thesis by blast
qed

text \<open>Positions recorded in the chains are earlier positions.\<close>

definition earlier :: "nat \<Rightarrow> int list \<Rightarrow> bool" where
  "earlier pos xs \<longleftrightarrow> (\<forall>c\<in>set xs. - 1 \<le> c \<and> c < int pos)"

definition chains_ok :: "u8 list \<Rightarrow> nat \<Rightarrow> int list \<times> int list \<Rightarrow> bool" where
  "chains_ok data pos hp \<longleftrightarrow> length (fst hp) = 32768 \<and> length (snd hp) = length data \<and> earlier pos (fst hp) \<and> earlier pos (snd hp)"

lemma chain_loop_ok:
  "earlier pos prev \<Longrightarrow> length prev = length data \<Longrightarrow> pos < length data \<Longrightarrow> length data < 2 ^ 31 \<Longrightarrow> max_chain < 2 ^ 64 \<Longrightarrow>
    - 1 \<le> candidate \<Longrightarrow> candidate < int pos \<Longrightarrow> bl = 0 \<or> is_match data pos bl bd \<Longrightarrow>
    \<exists>l d. chain_loop data prev pos max_chain candidate bl bd chain_len = Inr (l, d) \<and> (l = 0 \<or> is_match data pos l d)"
proof (induction "max_chain - chain_len" arbitrary: candidate bl bd chain_len)
  case (0 chain_len)
  then show ?case by (subst chain_loop.simps) auto
next
  case (Suc k chain_len candidate bl bd)
  show ?case
  proof (cases "candidate = - 1")
    case True
    then show ?thesis using Suc.prems(8) by (subst chain_loop.simps) auto
  next
    case False
    then have c: "0 \<le> candidate" "nat candidate < pos" using Suc.prems(6, 7) by linarith+
    define cp where "cp = nat candidate"
    have lt: "cp < pos" "cp < length prev" using c Suc.prems(2, 3) by (simp_all add: cp_def)
    have step: "\<exists>bl' bd' stop. (if pos - cp \<le> MAX_DISTANCE
               then rbind (match_length data cp pos (length data)) (\<lambda>match_len.
                    Inr (if match_len > bl then (match_len, pos - cp, match_len \<ge> MAX_MATCH) else (bl, bd, False)))
               else Inr (bl, bd, False)) = Inr (bl', bd', stop) \<and> (bl' = 0 \<or> is_match data pos bl' bd')"
    proof (cases "pos - cp \<le> MAX_DISTANCE")
      case True
      then obtain l where "match_length data cp pos (length data) = Inr l" "is_match data pos l (pos - cp)"
        using match_length_ok [of cp pos data] lt Suc.prems(3, 4) by (auto simp: MAX_DISTANCE_def)
      then show ?thesis using True Suc.prems(8) by auto
    qed (use Suc.prems(8) in auto)
    then obtain bl' bd' stop where s: "(if pos - cp \<le> MAX_DISTANCE
               then rbind (match_length data cp pos (length data)) (\<lambda>match_len.
                    Inr (if match_len > bl then (match_len, pos - cp, match_len \<ge> MAX_MATCH) else (bl, bd, False)))
               else Inr (bl, bd, False)) = Inr (bl', bd', stop)" "bl' = 0 \<or> is_match data pos bl' bd'" by blast
    have more: "chain_len < max_chain" using Suc.hyps(2) by simp
    have u: "usize_panic msg candidate = Inr cp" "sub_panic msg pos cp = Inr (pos - cp)" "fits msg (chain_len + 1) = Inr (chain_len + 1)" for msg
      using c lt more Suc.prems(5) by (simp_all add: cp_def sub_panic_def)
    have eq: "chain_loop data prev pos max_chain candidate bl bd chain_len =
        (if stop then Inr (bl', bd') else chain_loop data prev pos max_chain (prev ! cp) bl' bd' (chain_len + 1))"
      unfolding chain_loop.simps [of _ _ _ _ candidate] u rbind_simps s(1) prod.case using False more lt(2) by simp
    have "- 1 \<le> prev ! cp" "prev ! cp < int pos" using Suc.prems(1) lt(2) nth_mem by (auto simp: earlier_def)
    then show ?thesis using Suc.hyps(1) [of "chain_len + 1" "prev ! cp" bl' bd'] Suc.hyps(2) Suc.prems s(2) eq by (cases stop) auto
  qed
qed

lemma earlier_update: "earlier pos xs \<Longrightarrow> - 1 \<le> c \<Longrightarrow> c < int pos \<Longrightarrow> earlier pos (xs[i := c])"
  by (auto simp: earlier_def dest!: subsetD [OF set_update_subset_insert])

lemma earlier_mono: "earlier pos xs \<Longrightarrow> pos \<le> pos' \<Longrightarrow> earlier pos' xs"
  by (force simp: earlier_def)

lemma chains_ok_mono: "chains_ok data pos hp \<Longrightarrow> pos \<le> pos' \<Longrightarrow> chains_ok data pos' hp"
  by (auto simp: chains_ok_def intro: earlier_mono)

lemma enter_position_ok:
  assumes "chains_ok data e hp" and "h < 32768" and "pos < length data" and "length data < 2 ^ 31" and "pos < e"
  shows "\<exists>hp'. enter_position h pos hp = Inr hp' \<and> chains_ok data e hp'"
proof -
  obtain head prev where hp: "hp = (head, prev)" by (cases hp)
  have ok: "length head = 32768" "length prev = length data" "earlier e head" "earlier e prev"
    using assms(1) by (simp_all add: chains_ok_def hp)
  have c: "- 1 \<le> head ! h" "head ! h < int e" using ok assms(2) nth_mem [of h head] by (auto simp: earlier_def)
  have "enter_position h pos hp = Inr (head[h := int pos], prev[pos := head ! h])"
    using ok assms by (simp add: enter_position_def hp)
  moreover have "chains_ok data e (head[h := int pos], prev[pos := head ! h])"
    using ok c assms(5) by (simp add: chains_ok_def earlier_update)
  ultimately show ?thesis by blast
qed

lemma insert_loop_ok:
  "chains_ok data e hp \<Longrightarrow> e \<le> length data \<Longrightarrow> length data < 2 ^ 31 \<Longrightarrow> \<exists>hp'. insert_loop data e j hp = Inr hp' \<and> chains_ok data e hp'"
proof (induction "e - j" arbitrary: j hp)
  case 0
  then show ?case by (subst insert_loop.simps) simp
next
  case (Suc k)
  then have j: "j < e" by simp
  have f: "j < 2 ^ 31" using j Suc.prems by simp
  show ?case
  proof (cases "j + 3 \<le> length data")
    case True
    obtain h where h: "hash3 data j = Inr h" "h < 32768" using hash3_ok [OF True] Suc.prems(3) by auto
    obtain hp' where hp': "enter_position h j hp = Inr hp'" "chains_ok data e hp'"
      using enter_position_ok [OF Suc.prems(1) h(2), of j] j True Suc.prems(3) by auto
    then have "insert_loop data e j hp = insert_loop data e (j + 1) hp'" using j f True h by (subst insert_loop.simps) (simp add: MIN_MATCH_def)
    then show ?thesis using Suc.hyps(1) [of "j + 1" hp'] Suc.hyps(2) Suc.prems hp'(2) by simp
  next
    case False
    then show ?thesis using j f Suc.prems(1) by (subst insert_loop.simps) (simp add: MIN_MATCH_def)
  qed
qed

subsection \<open>The tokens\<close>

text \<open>Tokens that describe the bytes from a position to the end.\<close>

fun covers :: "u8 list \<Rightarrow> nat \<Rightarrow> lz77_token list \<Rightarrow> bool" where
  "covers data pos [] \<longleftrightarrow> pos = length data"
| "covers data pos (Literal b # ts) \<longleftrightarrow> pos < length data \<and> data ! pos = b \<and> covers data (pos + 1) ts"
| "covers data pos (Match l d # ts) \<longleftrightarrow> 3 \<le> l \<and> is_match data pos l d \<and> covers data (pos + l) ts"

lemma find_loop_ok:
  assumes "length data < 2 ^ 31" and "max_chain < 2 ^ 64"
  shows "chains_ok data pos hp \<Longrightarrow> pos \<le> length data \<Longrightarrow>
    \<exists>ts. find_loop data max_chain pos hp tokens = Inr (tokens @ ts) \<and> covers data pos ts"
proof (induction "length data - pos" arbitrary: pos hp tokens rule: less_induct)
  case less
  have f1: "pos < 2 ^ 31" using less.prems assms(1) by simp
  show ?case
  proof (cases "pos < length data")
    case False
    then show ?thesis using less.prems by (subst find_loop.simps) simp
  next
    case True
    have ld: "ptr_load pos data = Inr (data ! pos)" using True by (simp add: ptr_load_def)
    have literal: "\<exists>ts. find_loop data max_chain (pos + 1) hp2 (tokens @ [Literal (data ! pos)]) = Inr (tokens @ ts) \<and> covers data pos ts"
      if c: "chains_ok data (pos + 1) hp2" for hp2
    proof -
      have "length data - (pos + 1) < length data - pos" using True by linarith
      then obtain ts where "find_loop data max_chain (pos + 1) hp2 (tokens @ [Literal (data ! pos)]) = Inr ((tokens @ [Literal (data ! pos)]) @ ts)"
        "covers data (pos + 1) ts" using less.hyps [of "pos + 1" hp2 "tokens @ [Literal (data ! pos)]"] c True by auto
      then show ?thesis using True by (intro exI [of _ "Literal (data ! pos) # ts"]) simp
    qed
    show ?thesis
    proof (cases "pos + 3 \<le> length data")
      case False
      have "find_loop data max_chain pos hp tokens = find_loop data max_chain (pos + 1) hp (tokens @ [Literal (data ! pos)])"
        using True False f1 ld by (subst find_loop.simps) (simp add: MIN_MATCH_def)
      then show ?thesis using literal [of hp] chains_ok_mono [OF less.prems(1)] by simp
    next
      case anchor: True
      obtain h where h: "hash3 data pos = Inr h" "h < 32768" using hash3_ok [OF anchor assms(1)] by auto
      have hp: "length (fst hp) = 32768" "length (snd hp) = length data" "earlier pos (fst hp)" "earlier pos (snd hp)"
        using less.prems(1) by (simp_all add: chains_ok_def)
      then have c: "- 1 \<le> fst hp ! h" "fst hp ! h < int pos" using h(2) nth_mem [of h "fst hp"] by (auto simp: earlier_def)
      obtain l d where ld2: "chain_loop data (snd hp) pos max_chain (fst hp ! h) 0 0 0 = Inr (l, d)" "l = 0 \<or> is_match data pos l d"
        using chain_loop_ok [OF hp(4, 2) True assms c, of 0 0 0] by auto
      obtain hp1 where hp1: "enter_position h pos hp = Inr hp1" "chains_ok data (pos + 1) hp1"
        using enter_position_ok [OF chains_ok_mono [OF less.prems(1), of "pos + 1"] h(2) True assms(1)] by auto
      show ?thesis
      proof (cases "3 \<le> l")
        case False
        have "find_loop data max_chain pos hp tokens = find_loop data max_chain (pos + 1) hp1 (tokens @ [Literal (data ! pos)])"
          using True anchor False f1 ld h ld2(1) hp1(1) hp(1) by (subst find_loop.simps) (simp add: MIN_MATCH_def)
        then show ?thesis using literal [OF hp1(2)] by simp
      next
        case long: True
        then have m: "is_match data pos l d" using ld2(2) by simp
        then have b: "l < 65536" "d < 65536" "pos + l \<le> length data" by (simp_all add: is_match_def)
        have f2: "pos + l < 2 ^ 31" using b(3) assms(1) by simp
        have "chains_ok data (pos + l) hp1" using chains_ok_mono [OF hp1(2)] long by simp
        then obtain hp2 where hp2: "insert_loop data (pos + l) (pos + 1) hp1 = Inr hp2" "chains_ok data (pos + l) hp2"
          using insert_loop_ok [OF _ b(3) assms(1)] by blast
        have "find_loop data max_chain pos hp tokens = find_loop data max_chain (pos + l) hp2 (tokens @ [Match l d])"
          using True anchor long f1 f2 h ld2(1) hp1(1) hp(1) hp2(1) b by (subst find_loop.simps) (simp add: MIN_MATCH_def Let_def)
        moreover have "length data - (pos + l) < length data - pos" using True long by linarith
        then obtain ts where "find_loop data max_chain (pos + l) hp2 (tokens @ [Match l d]) = Inr ((tokens @ [Match l d]) @ ts)"
          "covers data (pos + l) ts" using less.hyps [of "pos + l" hp2 "tokens @ [Match l d]"] hp2(2) b(3) long True by auto
        ultimately show ?thesis using m long by (intro exI [of _ "Match l d # ts"]) simp
      qed
    qed
  qed
qed

lemma find_matches_ok:
  assumes "length data < 2 ^ 31"
  shows "\<exists>ts. find_matches data level = Inr ts \<and> covers data 0 ts"
proof (cases "length data < 3")
  case True
  have "covers (pre @ xs) (length pre) (map Literal xs)" for pre xs
  proof (induction xs arbitrary: pre)
    case (Cons x xs)
    then show ?case using Cons.IH [of "pre @ [x]"] by simp
  qed simp
  from this [of "[]" data] True show ?thesis by (simp add: find_matches_def MIN_MATCH_def)
next
  case False
  have "chains_ok data 0 (replicate HASH_SIZE (- 1), replicate (length data) (- 1))"
    by (auto simp: chains_ok_def earlier_def HASH_SIZE_def)
  moreover have "max_chain_of level < 2 ^ 64" by (simp add: max_chain_of_def wrap64_def)
  ultimately show ?thesis using find_loop_ok [OF assms, of "max_chain_of level" 0 _ "[]"] False by (simp add: find_matches_def MIN_MATCH_def)
qed

subsection \<open>Replay\<close>

definition ol_ok :: "out_list \<Rightarrow> bool" where
  "ol_ok out \<longleftrightarrow> 0 < ol_cap out \<and> length (ol_elems out) \<le> ol_cap out"

lemma ol_append_ok:
  assumes "ol_ok out" and "length (ol_elems out) < 2 ^ 62"
  shows "\<exists>out'. ol_append b out = Inr out' \<and> ol_ok out' \<and> ol_elems out' = ol_elems out @ [b]"
proof (cases "ol_cap out \<le> length (ol_elems out)")
  case True
  then have "ol_cap out = length (ol_elems out)" "0 < length (ol_elems out)" using assms(1) by (auto simp: ol_ok_def)
  then show ?thesis using assms(2) by (simp add: ol_append_def ol_ok_def Suc_le_eq)
next
  case False
  then show ?thesis by (simp add: ol_append_def ol_ok_def)
qed

text \<open>A match copied from a prefix of some bytes extends the prefix.\<close>

lemma copy_loop_ok:
  assumes "is_match data pos l d" and "length data < 2 ^ 60"
  shows "i \<le> l \<Longrightarrow> ol_ok out \<Longrightarrow> ol_elems out = take (pos + i) data \<Longrightarrow>
    \<exists>out'. copy_loop (pos - d) l i out = Inr out' \<and> ol_ok out' \<and> ol_elems out' = take (pos + l) data"
proof (induction "l - i" arbitrary: i out)
  case 0
  then show ?case by (subst copy_loop.simps) simp
next
  case (Suc k)
  have i: "i < l" using Suc.hyps(2) by simp
  have m: "pos + l \<le> length data" "1 \<le> d" "d \<le> pos" using assms(1) by (simp_all add: is_match_def)
  have eq: "data ! (pos + i) = data ! (pos - d + i)" using assms(1) i by (simp add: is_match_def)
  have len: "length (ol_elems out) = pos + i" using Suc.prems(3) m(1) i by simp
  have "pos - d + i < pos + i" using m by linarith
  then have nth: "ol_elems out ! (pos - d + i) = data ! (pos + i)" unfolding eq Suc.prems(3) by simp
  have "pos + i < 2 ^ 60" using i m assms(2) by linarith
  then have sml: "pos - d + i < 2 ^ 60" "length (ol_elems out) < 2 ^ 62" unfolding len by simp_all
  obtain out1 where o1: "ol_append (data ! (pos + i)) out = Inr out1" "ol_ok out1" "ol_elems out1 = ol_elems out @ [data ! (pos + i)]"
    using ol_append_ok [OF Suc.prems(2) sml(2)] by blast
  have el: "ol_elems out1 = take (pos + (i + 1)) data" using o1(3) Suc.prems(3) i m(1) by (simp add: take_Suc_conv_app_nth)
  have f: "fits msg (pos - d + i) = Inr (pos - d + i)" for msg using sml(1) by (intro fits_small) simp
  have g: "list_get msg (pos - d + i) (ol_elems out) = Inr (data ! (pos + i))" for msg using len \<open>pos - d + i < pos + i\<close> nth by simp
  have "copy_loop (pos - d) l i out = copy_loop (pos - d) l (i + 1) out1"
    unfolding copy_loop.simps [of _ l i out] f g rbind_simps o1(1) using i by simp
  then show ?case using Suc.hyps(1) [of "i + 1" out1] Suc.hyps(2) i o1(2) el by simp
qed

lemma copy_match_ok:
  assumes "is_match data pos l d" and "length data < 2 ^ 60" and "ol_ok out" and "ol_elems out = take pos data"
  shows "\<exists>out'. copy_match d l out = Inr out' \<and> ol_ok out' \<and> ol_elems out' = take (pos + l) data"
proof -
  have "length (ol_elems out) = pos" using assms(1, 4) by (simp add: is_match_def)
  then have "copy_match d l out = copy_loop (pos - d) l 0 out"
    using assms(1) by (simp add: copy_match_def is_match_def sub_panic_def Let_def)
  then show ?thesis using copy_loop_ok [OF assms(1, 2), of 0 out] assms(3, 4) by simp
qed

text \<open>What the decompressor does with a stream of tokens.\<close>

fun replay_tokens :: "lz77_token list \<Rightarrow> out_list \<Rightarrow> out_list res" where
  "replay_tokens [] out = Inr out"
| "replay_tokens (Literal b # ts) out = rbind (ol_append b out) (replay_tokens ts)"
| "replay_tokens (Match l d # ts) out = rbind (copy_match d l out) (replay_tokens ts)"

lemma replay_covers:
  "covers data pos ts \<Longrightarrow> length data < 2 ^ 60 \<Longrightarrow> ol_ok out \<Longrightarrow> ol_elems out = take pos data \<Longrightarrow>
    \<exists>out'. replay_tokens ts out = Inr out' \<and> ol_ok out' \<and> ol_elems out' = data"
proof (induction ts arbitrary: pos out)
  case (Cons t ts)
  show ?case
  proof (cases t)
    case (Literal b)
    then have p: "pos < length data" "data ! pos = b" "covers data (pos + 1) ts" using Cons.prems(1) by simp_all
    have "length (ol_elems out) < 2 ^ 62" using Cons.prems(2, 4) by simp
    then obtain out1 where o1: "ol_append b out = Inr out1" "ol_ok out1" "ol_elems out1 = ol_elems out @ [b]"
      using ol_append_ok [OF Cons.prems(3)] by blast
    have "ol_elems out1 = take (pos + 1) data" using o1(3) Cons.prems(4) p by (simp add: take_Suc_conv_app_nth)
    then show ?thesis using Cons.IH [OF p(3) Cons.prems(2) o1(2)] o1(1) Literal by simp
  next
    case (Match l d)
    then have p: "is_match data pos l d" "covers data (pos + l) ts" using Cons.prems(1) by simp_all
    obtain out1 where o1: "copy_match d l out = Inr out1" "ol_ok out1" "ol_elems out1 = take (pos + l) data"
      using copy_match_ok [OF p(1) Cons.prems(2-4)] by blast
    then show ?thesis using Cons.IH [OF p(2) Cons.prems(2) o1(2, 3)] Match by simp
  qed
qed simp

lemma covers_bounds: "covers data pos ts \<Longrightarrow> Match l d \<in> set ts \<Longrightarrow> 3 \<le> l \<and> l \<le> 258 \<and> 1 \<le> d \<and> d \<le> 32768"
  by (induction data pos ts rule: covers.induct) (auto simp: is_match_def)

lemma covers_length: "covers data pos ts \<Longrightarrow> length ts + pos \<le> length data"
  by (induction data pos ts rule: covers.induct) auto

text \<open>
  C32.  For every level, also a negative one, the tokens found for up to two gigabytes respect the limits of
  RFC 1951, and replaying them -- overlapping copies included -- gives the bytes back, without
  a panic; a match that reaches behind the start of the output is an error.
\<close>

theorem lz77_round_trip:
  assumes "length data < 2 ^ 31"
  shows "\<exists>ts. find_matches data level = Inr ts \<and> length ts \<le> length data \<and>
    (\<forall>l d. Match l d \<in> set ts \<longrightarrow> 3 \<le> l \<and> l \<le> 258 \<and> 1 \<le> d \<and> d \<le> 32768) \<and>
    (0 < cap \<longrightarrow> (\<exists>out. replay_tokens ts (ol_init cap) = Inr out \<and> ol_elems out = data)) \<and>
    (length data < d \<longrightarrow> replay_tokens (ts @ [Match 3 d]) (ol_init (Suc cap)) = Inl (LZ77Error ''copy_match: distance out of range''))"
proof -
  obtain ts where ts: "find_matches data level = Inr ts" "covers data 0 ts" using find_matches_ok [OF assms] by blast
  have rp: "\<exists>out. replay_tokens ts (ol_init c) = Inr out \<and> ol_elems out = data" if "0 < c" for c
    using replay_covers [OF ts(2), of "ol_init c"] assms that by (auto simp: ol_ok_def ol_init_def)
  have app: "replay_tokens (as @ bs) out = rbind (replay_tokens as out) (replay_tokens bs)" for as bs out
  proof (induction as out rule: replay_tokens.induct)
    case (2 b as out)
    then show ?case by (cases "ol_append b out") auto
  next
    case (3 l d as out)
    then show ?case by (cases "copy_match d l out") auto
  qed simp
  have "replay_tokens (ts @ [Match 3 d]) (ol_init (Suc cap)) = Inl (LZ77Error ''copy_match: distance out of range'')" if "length data < d"
    using rp [of "Suc cap"] that by (auto simp: app copy_match_def Let_def)
  then show ?thesis using ts covers_bounds [OF ts(2)] covers_length [OF ts(2)] rp by auto
qed

theorem lz77_round_trip_witness:
  "\<exists>ts. find_matches [1, 2, 1, 2, 1, 2, 1] 6 = Inr ts \<and>
    (\<exists>out. replay_tokens ts (ol_init 8) = Inr out \<and> ol_elems out = [1, 2, 1, 2, 1, 2, 1])"
  using lz77_round_trip [of "[1, 2, 1, 2, 1, 2, 1]" 6 8 9] by auto

end
