(* ===== verification/Lib_Deflate_Tokens.thy ===== *)
theory Lib_Deflate_Tokens
  imports Lib_Inflate Lib_Huffman_Build Lib_Lz77_Correct
begin

text \<open>
  Token streams: the bits \<^verbatim>\<open>_emit_tokens\<close> writes for tokens with two codes, and that \<^verbatim>\<open>_inflate_huffman_block\<close>
  replays them from these bits.
\<close>

subsection \<open>Symbols for lengths and distances\<close>

locale symbol_table =
  fixes bases extras :: "nat list" and lo hi :: nat
  assumes same: "length extras = length bases" and start: "bases \<noteq> []" "bases ! 0 = lo"
    and steps: "list_all (\<lambda>i. bases ! (i + 1) \<le> bases ! i + 2 ^ (extras ! i)) [0..<length bases - 1]"
    and last: "hi < List.last bases + 2 ^ List.last extras"
    and small: "list_all (\<lambda>x. x \<le> 16) extras" "list_all (\<lambda>b. b < 65536) bases" "length bases \<le> 30"
begin

lemma index_from:
  "idx < length bases \<Longrightarrow> bases ! idx \<le> v \<Longrightarrow> v \<le> hi \<Longrightarrow>
    \<exists>k<length bases. symbol_index bases v idx = Inr k \<and> bases ! k \<le> v \<and> v < bases ! k + 2 ^ (extras ! k)"
proof (induction "length bases - idx" arbitrary: idx rule: less_induct)
  case less
  show ?case
  proof (cases "idx + 1 < length bases")
    case True
    then have step: "symbol_index bases v idx = (if v < bases ! (idx + 1) then Inr idx else symbol_index bases v (idx + 1))"
      by (subst symbol_index.simps) simp
    have le: "bases ! (idx + 1) \<le> bases ! idx + 2 ^ (extras ! idx)" using steps True by (simp add: list_all_iff)
    show ?thesis
    proof (cases "v < bases ! (idx + 1)")
      case True
      then show ?thesis using step le less.prems by (intro exI [of _ idx]) simp
    next
      case False
      then show ?thesis using less.hyps [of "idx + 1"] step True less.prems(3) by simp
    qed
  next
    case False
    then have l: "idx = length bases - 1" using less.prems(1) by simp
    have "symbol_index bases v idx = Inr idx" using False by (subst symbol_index.simps) simp
    moreover have ne: "extras \<noteq> []" using same start(1) by (metis length_0_conv)
    have "List.last bases = bases ! idx" "List.last extras = extras ! idx"
      using l start(1) same last_conv_nth [OF start(1)] last_conv_nth [OF ne] by simp_all
    then have "v < bases ! idx + 2 ^ (extras ! idx)" using last less.prems(3) by simp
    ultimately show ?thesis using less.prems(1, 2) by blast
  qed
qed

definition symbol :: "nat \<Rightarrow> nat" where
  "symbol v = (case symbol_index bases v 0 of Inr k \<Rightarrow> k | Inl _ \<Rightarrow> 0)"

lemma symbol_ok:
  assumes "lo \<le> v" and "v \<le> hi"
  shows "symbol_index bases v 0 = Inr (symbol v)" "symbol v < length bases" "symbol v < length extras" "symbol v < 30" "bases ! symbol v \<le> v"
    "v - bases ! symbol v < 2 ^ (extras ! symbol v)" "extras ! symbol v \<le> 16" "bases ! symbol v < 65536"
proof -
  obtain k where k: "k < length bases" "symbol_index bases v 0 = Inr k" "bases ! k \<le> v" "v < bases ! k + 2 ^ (extras ! k)"
    using index_from [of 0 v] assms start by auto
  have s: "symbol v = k" using k(2) by (simp add: symbol_def)
  show "symbol_index bases v 0 = Inr (symbol v)" "symbol v < length bases" "symbol v < length extras" "symbol v < 30" "bases ! symbol v \<le> v"
    "v - bases ! symbol v < 2 ^ (extras ! symbol v)" using k s same small(3) by auto
  show "extras ! symbol v \<le> 16" "bases ! symbol v < 65536" using small k(1) s same by (simp_all add: list_all_length)
qed

end

lemma table_data:
  "LENGTH_BASE = [3, 4, 5, 6, 7, 8, 9, 10, 11, 13, 15, 17, 19, 23, 27, 31, 35, 43, 51, 59, 67, 83, 99, 115, 131, 163, 195, 227, 258]"
  "LENGTH_EXTRA = [0, 0, 0, 0, 0, 0, 0, 0, 1, 1, 1, 1, 2, 2, 2, 2, 3, 3, 3, 3, 4, 4, 4, 4, 5, 5, 5, 5, 0]"
  "DIST_BASE = [1, 2, 3, 4, 5, 7, 9, 13, 17, 25, 33, 49, 65, 97, 129, 193, 257, 385, 513, 769, 1025, 1537, 2049, 3073, 4097, 6145, 8193,
    12289, 16385, 24577]"
  "DIST_EXTRA = [0, 0, 0, 0, 1, 1, 2, 2, 3, 3, 4, 4, 5, 5, 6, 6, 7, 7, 8, 8, 9, 9, 10, 10, 11, 11, 12, 12, 13, 13]"
  by (simp_all add: LENGTH_BASE_def LENGTH_EXTRA_def DIST_BASE_def DIST_EXTRA_def length_table_def dist_table_def)

interpretation lens: symbol_table LENGTH_BASE LENGTH_EXTRA 3 258
  by unfold_locales (simp_all add: table_data upt_rec)

interpretation dists: symbol_table DIST_BASE DIST_EXTRA 1 32768
  by unfold_locales (simp_all add: table_data upt_rec)

lemma table_lengths [simp]: "length LENGTH_BASE = 29" "length LENGTH_EXTRA = 29" "length DIST_BASE = 30" "length DIST_EXTRA = 30"
  by (simp_all add: table_data)

lemma length_to_symbol_ok:
  assumes "3 \<le> l" and "l \<le> 258"
  shows "length_to_symbol l = Inr (257 + lens.symbol l, l - LENGTH_BASE ! lens.symbol l, LENGTH_EXTRA ! lens.symbol l)"
  using lens.symbol_ok [OF assms] assms(2) by (simp add: length_to_symbol_def)

lemma distance_to_symbol_ok:
  assumes "1 \<le> d" and "d \<le> 32768"
  shows "distance_to_symbol d = Inr (dists.symbol d, d - DIST_BASE ! dists.symbol d, DIST_EXTRA ! dists.symbol d)"
  using dists.symbol_ok [OF assms] assms(2) by (simp add: distance_to_symbol_def)

subsection \<open>Encoders and decoders of a code\<close>

definition encodes :: "nat list \<Rightarrow> huffman_encoder \<Rightarrow> bool" where
  "encodes L e \<longleftrightarrow> (\<forall>s bs w. s < length L \<and> 0 < L ! s \<and> written bs w \<and> length bs < 2 ^ 61 \<longrightarrow>
     (\<exists>w'. write_symbol e s w = Inr w' \<and> written (bs @ code_bits L s) w'))"

definition decodes :: "nat list \<Rightarrow> huffman_decoder \<Rightarrow> bool" where
  "decodes L d \<longleftrightarrow> (\<forall>s bs r. s < length L \<and> 0 < L ! s \<and> reading (code_bits L s @ bs) r \<longrightarrow>
     (\<exists>r'. huffman_decode d r = Inr (s, r') \<and> reading bs r'))"

lemma encoder_exists: "valid_lengths L \<Longrightarrow> \<exists>e. huffman_encoder_init L = Inr e \<and> encodes L e"
proof -
  assume "valid_lengths L"
  then have c: "huffman_code L" by (rule huffman_code.intro)
  show ?thesis using huffman_code.encoder_ok [OF c] huffman_code.write_symbol_ok [OF c] by (auto simp: encodes_def)
qed

lemma decoder_exists: "valid_lengths L \<Longrightarrow> \<exists>d. huffman_decoder_init L = Inr d \<and> decodes L d"
proof -
  assume "valid_lengths L"
  then have c: "huffman_code L" by (rule huffman_code.intro)
  obtain symbols where s: "huffman_decoder_init L = Inr \<lparr>hd_count = map (len_count L) [0..<16], hd_symbols = symbols\<rparr>" "slots_filled L symbols"
    using huffman_code.decoder_ok [OF c] by auto
  have "huffman_decoding L symbols \<lparr>hd_count = map (len_count L) [0..<16], hd_symbols = symbols\<rparr>"
    by (intro huffman_decoding.intro c huffman_decoding_axioms.intro s(2) refl)
  then show ?thesis using s(1) huffman_decoding.decode_code by (auto simp: decodes_def)
qed

lemma d_write_symbol_ok:
  assumes "encodes L e" and "s < length L" and "0 < L ! s" and "written bs w" and "length bs < 2 ^ 61"
  shows "\<exists>w'. d_write_symbol e s ctx w = Inr w' \<and> written (bs @ code_bits L s) w'"
  using assms unfolding encodes_def d_write_symbol_def by auto

lemma decode_symbol_ok:
  assumes "decodes L d" and "s < length L" and "0 < L ! s" and "reading (code_bits L s @ bs) r"
  shows "\<exists>r'. decode_symbol d ctx r = Inr (s, r') \<and> reading bs r'"
  using assms unfolding decodes_def decode_symbol_def by auto

lemma write_extra_ok:
  "written bs w \<Longrightarrow> n \<le> 16 \<Longrightarrow> length bs < 2 ^ 61 \<Longrightarrow> \<exists>w'. write_extra v n w = Inr w' \<and> written (bs @ bitlist n v) w'"
  using write_bits_ok [of bs w n v] by (cases "n = 0") (auto simp: write_extra_def)

lemma read_extra_ok:
  assumes "reading (bitlist n (v - base) @ bs) r" and "n \<le> 16" and "base \<le> v" and "v - base < 2 ^ n" and "v < 2 ^ 32"
  shows "\<exists>r'. read_extra base n ctx r = Inr (v, r') \<and> reading bs r'"
proof (cases "n = 0")
  case True
  then show ?thesis using assms by (simp add: read_extra_def)
next
  case False
  obtain r' where "read_bits n r = Inr (v - base, r')" "reading bs r'" using read_field [OF assms(1, 2, 4)] by auto
  then show ?thesis using False assms(3, 5) by (simp add: read_extra_def d_read_bits_def)
qed

subsection \<open>Tokens\<close>

text \<open>The codes have the symbols of a token; the bits of a token.\<close>

fun token_coded :: "nat list \<Rightarrow> nat list \<Rightarrow> lz77_token \<Rightarrow> bool" where
  "token_coded L D (Literal b) \<longleftrightarrow> 0 < L ! unat b"
| "token_coded L D (Match l d) \<longleftrightarrow> 3 \<le> l \<and> l \<le> 258 \<and> 1 \<le> d \<and> d \<le> 32768 \<and> 0 < L ! (257 + lens.symbol l) \<and> 0 < D ! dists.symbol d"

fun token_bits :: "nat list \<Rightarrow> nat list \<Rightarrow> lz77_token \<Rightarrow> bool list" where
  "token_bits L D (Literal b) = code_bits L (unat b)"
| "token_bits L D (Match l d) =
     code_bits L (257 + lens.symbol l) @ bitlist (LENGTH_EXTRA ! lens.symbol l) (l - LENGTH_BASE ! lens.symbol l) @
     code_bits D (dists.symbol d) @ bitlist (DIST_EXTRA ! dists.symbol d) (d - DIST_BASE ! dists.symbol d)"

definition tokens_bits :: "nat list \<Rightarrow> nat list \<Rightarrow> lz77_token list \<Rightarrow> bool list" where
  "tokens_bits L D ts = concat (map (token_bits L D) ts)"

lemma tokens_bits_simps [simp]: "tokens_bits L D [] = []" "tokens_bits L D (t # ts) = token_bits L D t @ tokens_bits L D ts"
  by (simp_all add: tokens_bits_def)

lemma code_bits_length: "length (code_bits L s) = L ! s"
  by (simp add: code_bits_def)

text \<open>Two codes for a block: literals and lengths, distances.\<close>

definition block_codes :: "nat list \<Rightarrow> nat list \<Rightarrow> bool" where
  "block_codes L D \<longleftrightarrow> valid_lengths L \<and> valid_lengths D \<and> 286 \<le> length L \<and> 30 \<le> length D"

lemma block_code_le: "block_codes L D \<Longrightarrow> s < 286 \<Longrightarrow> s < length L \<and> L ! s \<le> 15" "block_codes L D \<Longrightarrow> s < 30 \<Longrightarrow> s < length D \<and> D ! s \<le> 15"
  by (auto simp: block_codes_def valid_lengths_def list_all_length)

lemma match_symbols:
  assumes "3 \<le> l" and "l \<le> 258"
  shows "257 + lens.symbol l < 286"
  using lens.symbol_ok(2) [OF assms] by simp

lemma token_bits_length: "block_codes L D \<Longrightarrow> token_coded L D t \<Longrightarrow> length (token_bits L D t) \<le> 62"
proof (cases t)
  case (Match l d)
  assume b: "block_codes L D" and t: "token_coded L D t"
  then have m: "3 \<le> l" "l \<le> 258" "1 \<le> d" "d \<le> 32768" using Match by simp_all
  show ?thesis using lens.symbol_ok(7) [OF m(1, 2)] dists.symbol_ok(4, 7) [OF m(3, 4)] block_code_le [OF b] match_symbols [OF m(1, 2)] Match
    by (fastforce simp: code_bits_length)
next
  case (Literal b)
  assume bc: "block_codes L D"
  have "unat b < 286" using u8_bound [of b] by simp
  then show ?thesis using block_code_le(1) [OF bc] Literal by (fastforce simp: code_bits_length)
qed

lemma tokens_bits_length: "block_codes L D \<Longrightarrow> list_all (token_coded L D) ts \<Longrightarrow> length (tokens_bits L D ts) \<le> 62 * length ts"
  by (induction ts) (auto dest: token_bits_length intro: order_trans [OF add_mono])

lemma emit_loop_ok:
  assumes "block_codes L D" and "encodes L le" and "encodes D de"
  shows "list_all (token_coded L D) ts \<Longrightarrow> written bs w \<Longrightarrow> length bs + 62 * length ts < 2 ^ 60 \<Longrightarrow>
    \<exists>w'. emit_loop ts le de w = Inr w' \<and> written (bs @ tokens_bits L D ts) w'"
proof (induction ts arbitrary: bs w)
  case (Cons t ts)
  have len: "length (bs @ token_bits L D t) + 62 * length ts < 2 ^ 60"
    using token_bits_length [OF assms(1)] Cons.prems(1, 3) by fastforce
  have IH: "\<exists>w'. emit_loop ts le de w1 = Inr w' \<and> written (bs @ tokens_bits L D (t # ts)) w'" if "written (bs @ token_bits L D t) w1" for w1
    using Cons.IH [OF _ that len] Cons.prems(1) by simp
  show ?case
  proof (cases t)
    case (Literal b)
    have s: "unat b < length L" "0 < L ! unat b" using Cons.prems(1) Literal block_code_le(1) [OF assms(1)] u8_bound [of b] by (auto intro: less_trans)
    obtain w1 where "d_write_symbol le (unat b) ''_emit_tokens: literal symbol not in table'' w = Inr w1" "written (bs @ code_bits L (unat b)) w1"
      using d_write_symbol_ok [OF assms(2) s Cons.prems(2)] Cons.prems(3) by auto
    then show ?thesis using IH Literal by simp
  next
    case (Match l d)
    then have m: "3 \<le> l" "l \<le> 258" "1 \<le> d" "d \<le> 32768" "0 < L ! (257 + lens.symbol l)" "0 < D ! dists.symbol d" using Cons.prems(1) by simp_all
    let ?i = "lens.symbol l" and ?j = "dists.symbol d"
    let ?b1 = "bs @ code_bits L (257 + ?i)"
    let ?b2 = "?b1 @ bitlist (LENGTH_EXTRA ! ?i) (l - LENGTH_BASE ! ?i)"
    let ?b3 = "?b2 @ code_bits D ?j"
    have s: "257 + ?i < length L" "?j < length D" using match_symbols [OF m(1, 2)] dists.symbol_ok(4) [OF m(3, 4)] block_code_le [OF assms(1)] by blast+
    have ls: "length ?b1 < 2 ^ 61" "length ?b2 < 2 ^ 61" "length ?b3 < 2 ^ 61" "length bs < 2 ^ 61" using len Match by simp_all
    obtain w1 where w1: "d_write_symbol le (257 + ?i) ''_emit_tokens: length symbol not in table'' w = Inr w1" "written ?b1 w1"
      using d_write_symbol_ok [OF assms(2) s(1) m(5) Cons.prems(2) ls(4)] by blast
    obtain w2 where w2: "write_extra (l - LENGTH_BASE ! ?i) (LENGTH_EXTRA ! ?i) w1 = Inr w2" "written ?b2 w2"
      using write_extra_ok [OF w1(2) lens.symbol_ok(7) [OF m(1, 2)] ls(1)] by blast
    obtain w3 where w3: "d_write_symbol de ?j ''_emit_tokens: distance symbol not in table'' w2 = Inr w3" "written ?b3 w3"
      using d_write_symbol_ok [OF assms(3) s(2) m(6) w2(2) ls(2)] by blast
    obtain w4 where w4: "write_extra (d - DIST_BASE ! ?j) (DIST_EXTRA ! ?j) w3 = Inr w4" "written (?b3 @ bitlist (DIST_EXTRA ! ?j) (d - DIST_BASE ! ?j)) w4"
      using write_extra_ok [OF w3(2) dists.symbol_ok(7) [OF m(3, 4)] ls(3)] by blast
    have "emit_loop (t # ts) le de w = emit_loop ts le de w4"
      using w1(1) w2(1) w3(1) w4(1) Match length_to_symbol_ok [OF m(1, 2)] distance_to_symbol_ok [OF m(3, 4)] by simp
    then show ?thesis using IH [of w4] w4(2) Match by simp
  qed
qed simp

lemma emit_tokens_ok:
  assumes "block_codes L D" and "encodes L le" and "encodes D de" and "list_all (token_coded L D) ts" and "0 < L ! 256"
    and "written bs w" and "length bs + 62 * length ts < 2 ^ 60"
  shows "\<exists>w'. emit_tokens ts le de w = Inr w' \<and> written (bs @ tokens_bits L D ts @ code_bits L 256) w'"
proof -
  obtain w1 where w1: "emit_loop ts le de w = Inr w1" "written (bs @ tokens_bits L D ts) w1"
    using emit_loop_ok [OF assms(1-4, 6, 7)] by blast
  have "length (bs @ tokens_bits L D ts) < 2 ^ 61" using tokens_bits_length [OF assms(1, 4)] assms(7) by simp
  then show ?thesis using d_write_symbol_ok [OF assms(2) _ assms(5) w1(2)] block_code_le(1) [OF assms(1), of 256] w1(1)
    by (simp add: emit_tokens_def)
qed

subsection \<open>Replaying the bits of tokens\<close>

lemma inflate_match_ok:
  assumes "block_codes L D" and "decodes D dd" and "token_coded L D (Match l d)" and "is_match data pos l d" and "length data < 2 ^ 60"
    and "ol_ok out" and "ol_elems out = take pos data"
    and "reading (bitlist (LENGTH_EXTRA ! lens.symbol l) (l - LENGTH_BASE ! lens.symbol l) @ code_bits D (dists.symbol d) @
      bitlist (DIST_EXTRA ! dists.symbol d) (d - DIST_BASE ! dists.symbol d) @ bs) r"
  shows "\<exists>r' out'. inflate_match dd (257 + lens.symbol l) r out = Inr (r', out') \<and> reading bs r' \<and> ol_ok out' \<and> ol_elems out' = take (pos + l) data"
proof -
  let ?i = "lens.symbol l" and ?j = "dists.symbol d"
  have m: "3 \<le> l" "l \<le> 258" "1 \<le> d" "d \<le> 32768" "0 < D ! ?j" using assms(3) by simp_all
  note i = lens.symbol_ok [OF m(1, 2)] and j = dists.symbol_ok [OF m(3, 4)]
  have l32: "l < 2 ^ 32" "d < 2 ^ 32" using m by simp_all
  have jD: "?j < length D" using block_code_le(2) [OF assms(1) j(4)] by simp
  obtain r1 where r1: "read_extra (LENGTH_BASE ! ?i) (LENGTH_EXTRA ! ?i) ''_inflate_huffman_block: unexpected end of stream reading length extra bits'' r = Inr (l, r1)"
    "reading (code_bits D ?j @ bitlist (DIST_EXTRA ! ?j) (d - DIST_BASE ! ?j) @ bs) r1"
    using read_extra_ok [OF assms(8) i(7, 5, 6) l32(1)] by blast
  obtain r2 where r2: "decode_symbol dd ''_inflate_huffman_block: failed to decode distance symbol'' r1 = Inr (?j, r2)"
    "reading (bitlist (DIST_EXTRA ! ?j) (d - DIST_BASE ! ?j) @ bs) r2"
    using decode_symbol_ok [OF assms(2) jD m(5) r1(2)] by blast
  obtain r3 where r3: "read_extra (DIST_BASE ! ?j) (DIST_EXTRA ! ?j) ''_inflate_huffman_block: unexpected end of stream reading distance extra bits'' r2 = Inr (d, r3)"
    "reading bs r3" using read_extra_ok [OF r2(2) j(7, 5, 6) l32(2)] by blast
  obtain out' where o: "copy_match d l out = Inr out'" "ol_ok out'" "ol_elems out' = take (pos + l) data"
    using copy_match_ok [OF assms(4-7)] by blast
  have "inflate_match dd (257 + ?i) r out = Inr (r3, out')"
    using r1(1) r2(1) r3(1) o(1) i(2, 3) j(2, 3) by (simp add: inflate_match_def sub_panic_def do_copy_match_def)
  then show ?thesis using r3(2) o(2, 3) by blast
qed

text \<open>A list without room for a first byte can take no token; otherwise the tokens are replayed.\<close>

lemma inflate_loop_ok:
  assumes "block_codes L D" and "decodes L ld" and "decodes D dd" and "0 < L ! 256" and "length data < 2 ^ 60"
  shows "covers data pos ts \<Longrightarrow> list_all (token_coded L D) ts \<Longrightarrow> ol_ok out \<or> ts = [] \<Longrightarrow> ol_elems out = take pos data \<Longrightarrow>
    reading (tokens_bits L D ts @ code_bits L 256 @ bs) r \<Longrightarrow>
    \<exists>r' out'. inflate_loop ld dd r out = Inr (r', out') \<and> reading bs r' \<and> ol_elems out' = data"
proof (induction ts arbitrary: pos out r)
  case Nil
  have "256 < length L" "reading (code_bits L 256 @ bs) r" using block_code_le(1) [OF assms(1), of 256] Nil(5) by simp_all
  then obtain r' where "decode_symbol ld ''_inflate_huffman_block: failed to decode literal/length symbol'' r = Inr (256, r')" "reading bs r'"
    using decode_symbol_ok [OF assms(2) _ assms(4)] by blast
  then show ?case using Nil(1, 4) by (subst inflate_loop.simps) simp
next
  case (Cons t ts)
  have ok: "ol_ok out" and coded: "list_all (token_coded L D) ts" using Cons.prems(2, 3) by simp_all
  show ?case
  proof (cases t)
    case (Literal b)
    have p: "pos < length data" "data ! pos = b" "covers data (pos + 1) ts" using Cons.prems(1) Literal by simp_all
    have s: "unat b < length L" "0 < L ! unat b" using Cons.prems(2) Literal block_code_le(1) [OF assms(1)] u8_bound [of b] by (auto intro: less_trans)
    have "reading (code_bits L (unat b) @ tokens_bits L D ts @ code_bits L 256 @ bs) r" using Cons.prems(5) Literal by simp
    then obtain r1 where r1: "decode_symbol ld ''_inflate_huffman_block: failed to decode literal/length symbol'' r = Inr (unat b, r1)"
      "reading (tokens_bits L D ts @ code_bits L 256 @ bs) r1"
      using decode_symbol_ok [OF assms(2) s] by blast
    have "length (ol_elems out) < 2 ^ 62" using Cons.prems(4) assms(5) by simp
    then obtain out1 where o1: "ol_append b out = Inr out1" "ol_ok out1" "ol_elems out1 = ol_elems out @ [b]" using ol_append_ok [OF ok] by blast
    have "ol_elems out1 = take (pos + 1) data" using o1(3) Cons.prems(4) p by (simp add: take_Suc_conv_app_nth)
    then obtain r' out' where "inflate_loop ld dd r1 out1 = Inr (r', out')" "reading bs r'" "ol_elems out' = data"
      using Cons.IH [OF p(3) coded _ _ r1(2)] o1(2) by blast
    then show ?thesis using r1(1) o1(1) u8_bound [of b] by (subst inflate_loop.simps) simp
  next
    case (Match l d)
    have p: "3 \<le> l" "is_match data pos l d" "covers data (pos + l) ts" "token_coded L D (Match l d)" using Cons.prems(1, 2) Match by simp_all
    have s: "257 + lens.symbol l < length L" "0 < L ! (257 + lens.symbol l)"
      using p(4) block_code_le(1) [OF assms(1)] match_symbols [of l] by auto
    let ?rest = "tokens_bits L D ts @ code_bits L 256 @ bs"
    let ?match = "bitlist (LENGTH_EXTRA ! lens.symbol l) (l - LENGTH_BASE ! lens.symbol l) @ code_bits D (dists.symbol d) @
      bitlist (DIST_EXTRA ! dists.symbol d) (d - DIST_BASE ! dists.symbol d) @ ?rest"
    have "reading (code_bits L (257 + lens.symbol l) @ ?match) r" using Cons.prems(5) Match by simp
    then obtain r1 where r1: "decode_symbol ld ''_inflate_huffman_block: failed to decode literal/length symbol'' r = Inr (257 + lens.symbol l, r1)"
      "reading ?match r1" using decode_symbol_ok [OF assms(2) s] by blast
    obtain r2 out1 where r2: "inflate_match dd (257 + lens.symbol l) r1 out = Inr (r2, out1)" "reading ?rest r2" "ol_ok out1"
      "ol_elems out1 = take (pos + l) data"
      using inflate_match_ok [OF assms(1, 3) p(4, 2) assms(5) ok Cons.prems(4) r1(2)] by blast
    obtain r' out' where "inflate_loop ld dd r2 out1 = Inr (r', out')" "reading bs r'" "ol_elems out' = data"
      using Cons.IH [OF p(3) coded _ r2(4, 2)] r2(3) by blast
    then show ?thesis using r1(1) r2(1) by (subst inflate_loop.simps) simp
  qed
qed

lemma inflate_huffman_block_ok:
  assumes "block_codes L D" and "0 < L ! 256" and "length data < 2 ^ 60" and "covers data 0 ts" and "list_all (token_coded L D) ts"
    and "ol_ok out \<or> ts = []" and "ol_elems out = []" and "reading (tokens_bits L D ts @ code_bits L 256 @ bs) r"
  shows "\<exists>r' out'. inflate_huffman_block L D r out = Inr (r', out') \<and> reading bs r' \<and> ol_elems out' = data"
proof -
  obtain ld dd where d: "huffman_decoder_init L = Inr ld" "decodes L ld" "huffman_decoder_init D = Inr dd" "decodes D dd"
    using assms(1) decoder_exists [of L] decoder_exists [of D] by (auto simp: block_codes_def)
  show ?thesis using inflate_loop_ok [OF assms(1) d(2, 4) assms(2-6) _ assms(8)] assms(7) d(1, 3)
    by (simp add: inflate_huffman_block_def build_decoder_def)
qed

text \<open>Without a buffer, the first token faults: it is a literal.\<close>

lemma inflate_huffman_block_fault:
  assumes "block_codes L D" and "covers data 0 ts" and "ts \<noteq> []" and "list_all (token_coded L D) ts"
    and "reading (tokens_bits L D ts @ bs) r"
  shows "inflate_huffman_block L D r (ol_init 0) = Inl MemFault"
proof -
  obtain ld dd where d: "huffman_decoder_init L = Inr ld" "decodes L ld" "huffman_decoder_init D = Inr dd"
    using assms(1) decoder_exists [of L] decoder_exists [of D] by (auto simp: block_codes_def)
  obtain b ts' where ts: "ts = Literal b # ts'" using assms(2, 3) by (cases "(data, 0 :: nat, ts)" rule: covers.cases) (auto simp: is_match_def)
  have s: "unat b < length L" "0 < L ! unat b" using assms(4) ts block_code_le(1) [OF assms(1)] u8_bound [of b] by (auto intro: less_trans)
  have "reading (code_bits L (unat b) @ tokens_bits L D ts' @ bs) r" using assms(5) ts by simp
  then obtain r1 where "decode_symbol ld ''_inflate_huffman_block: failed to decode literal/length symbol'' r = Inr (unat b, r1)"
    using decode_symbol_ok [OF d(2) s] by blast
  then have "inflate_loop ld dd r (ol_init 0) = Inl MemFault"
    using u8_bound [of b] by (subst inflate_loop.simps) (simp add: ol_append_def ol_init_def)
  then show ?thesis using d(1, 3) by (simp add: inflate_huffman_block_def build_decoder_def)
qed

subsection \<open>The fixed codes\<close>

lemma fixed_litlen: "FIXED_LITLEN_LENGTHS = replicate 144 8 @ replicate 112 9 @ replicate 24 7 @ replicate 8 8"
proof (rule nth_equalityI)
  fix i assume "i < length FIXED_LITLEN_LENGTHS"
  then have "i < 288" by (simp add: FIXED_LITLEN_LENGTHS_def)
  then show "FIXED_LITLEN_LENGTHS ! i = (replicate 144 8 @ replicate 112 9 @ replicate 24 7 @ replicate 8 8) ! i"
    by (auto simp: FIXED_LITLEN_LENGTHS_def nth_append)
qed (simp add: FIXED_LITLEN_LENGTHS_def)

lemma fixed_dist: "FIXED_DIST_LENGTHS = replicate 32 5"
  by (simp add: FIXED_DIST_LENGTHS_def map_replicate_const)

lemma fixed_codes: "block_codes FIXED_LITLEN_LENGTHS FIXED_DIST_LENGTHS"
proof -
  have "kraft FIXED_LITLEN_LENGTHS \<le> 2 ^ 15" "kraft FIXED_DIST_LENGTHS \<le> 2 ^ 15"
    unfolding fixed_litlen fixed_dist kraft_def by (simp_all add: sum_list_replicate)
  moreover have "list_all (\<lambda>l. l \<le> 15) FIXED_LITLEN_LENGTHS" "list_all (\<lambda>l. l \<le> 15) FIXED_DIST_LENGTHS"
    unfolding fixed_litlen fixed_dist by (simp_all add: list_all_iff)
  ultimately show ?thesis
    using kraft_code_space by (simp add: block_codes_def valid_lengths_def) (simp add: fixed_litlen fixed_dist)
qed

interpretation fixed_litlen: huffman_code FIXED_LITLEN_LENGTHS
  by unfold_locales (use fixed_codes in \<open>simp add: block_codes_def\<close>)

interpretation fixed_dist: huffman_code FIXED_DIST_LENGTHS
  by unfold_locales (use fixed_codes in \<open>simp add: block_codes_def\<close>)

definition fixed_litlen_decoder :: huffman_decoder where
  "fixed_litlen_decoder = (case huffman_decoder_init FIXED_LITLEN_LENGTHS of Inr d \<Rightarrow> d | Inl _ \<Rightarrow> \<lparr>hd_count = [], hd_symbols = []\<rparr>)"

interpretation fixed_litlen_decoder: huffman_decoding FIXED_LITLEN_LENGTHS "hd_symbols fixed_litlen_decoder" fixed_litlen_decoder
  by unfold_locales (use fixed_litlen.decoder_ok in \<open>auto simp: fixed_litlen_decoder_def\<close>)

text \<open>Every symbol has a fixed code.\<close>

lemma fixed_pos: "s < 286 \<Longrightarrow> 0 < FIXED_LITLEN_LENGTHS ! s" "s < 30 \<Longrightarrow> 0 < FIXED_DIST_LENGTHS ! s"
  by (simp_all add: FIXED_LITLEN_LENGTHS_def FIXED_DIST_LENGTHS_def)

end
