(* ===== verification/Lib_Huffman_Results.thy ===== *)
theory Lib_Huffman_Results
  imports Lib_Deflate_Tokens
begin

text \<open>
  What \<^verbatim>\<open>src/lib/huffman.py\<close> promises: which length tables are accepted, that what is written with a table is
  read back with it, what decoding does on an arbitrary stream, and which tables are built from frequencies.
\<close>

fun write_symbols :: "huffman_encoder \<Rightarrow> nat list \<Rightarrow> bit_writer \<Rightarrow> bit_writer res" where
  "write_symbols e [] w = Inr w"
| "write_symbols e (s # ss) w = rbind (write_symbol e s w) (write_symbols e ss)"

fun decode_symbols :: "huffman_decoder \<Rightarrow> nat \<Rightarrow> bit_reader \<Rightarrow> nat list res" where
  "decode_symbols d 0 r = Inr []"
| "decode_symbols d (Suc n) r = rbind (huffman_decode d r) (\<lambda>(s, r). rbind (decode_symbols d n r) (\<lambda>ss. Inr (s # ss)))"

lemma write_symbols_ok:
  assumes "encodes L e" and "list_all (\<lambda>l. l \<le> 15) L"
  shows "\<forall>s\<in>set ss. s < length L \<and> 0 < L ! s \<Longrightarrow> written bs w \<Longrightarrow> length bs + 15 * length ss < 2 ^ 60 \<Longrightarrow>
    \<exists>w'. write_symbols e ss w = Inr w' \<and> written (bs @ concat (map (code_bits L) ss)) w' \<and> length (concat (map (code_bits L) ss)) \<le> 15 * length ss"
proof (induction ss arbitrary: bs w)
  case (Cons s ss)
  have s: "s < length L" "0 < L ! s" "L ! s \<le> 15" "length bs < 2 ^ 61" using Cons.prems assms(2) by (auto simp: list_all_length)
  obtain w1 where w1: "write_symbol e s w = Inr w1" "written (bs @ code_bits L s) w1"
    using assms(1) s Cons.prems(2) unfolding encodes_def by blast
  have "length (bs @ code_bits L s) + 15 * length ss < 2 ^ 60" using Cons.prems(3) s(3) by (simp add: code_bits_length)
  then obtain w' where "write_symbols e ss w1 = Inr w'" "written ((bs @ code_bits L s) @ concat (map (code_bits L) ss)) w'"
    "length (concat (map (code_bits L) ss)) \<le> 15 * length ss"
    using Cons.IH [OF _ w1(2)] Cons.prems(1) by auto
  then show ?case using w1(1) s(3) by (simp add: code_bits_length)
qed simp

lemma decode_symbols_ok:
  assumes "decodes L d"
  shows "\<forall>s\<in>set ss. s < length L \<and> 0 < L ! s \<Longrightarrow> reading (concat (map (code_bits L) ss) @ bs) r \<Longrightarrow> decode_symbols d (length ss) r = Inr ss"
proof (induction ss arbitrary: r)
  case (Cons s ss)
  then obtain r' where r': "huffman_decode d r = Inr (s, r')" "reading (concat (map (code_bits L) ss) @ bs) r'"
    using assms unfolding decodes_def by fastforce
  then show ?case using Cons.IH [OF _ r'(2)] Cons.prems(1) by simp
qed simp

text \<open>The decoder of a valid table on any stream.\<close>

lemma decoder_total:
  assumes "valid_lengths L" and "huffman_decoder_init L = Inr d"
  shows "decode_result L (bytes_bits z) (huffman_decode d (br_init z))"
proof -
  have c: "huffman_code L" using assms(1) by (rule huffman_code.intro)
  obtain symbols where s: "huffman_decoder_init L = Inr \<lparr>hd_count = map (len_count L) [0..<16], hd_symbols = symbols\<rparr>" "slots_filled L symbols"
    using huffman_code.decoder_ok [OF c] by blast
  have "huffman_decoding L symbols d" using c s assms(2) by (intro huffman_decoding.intro huffman_decoding_axioms.intro) simp_all
  then show ?thesis by (rule huffman_decoding.decode_any [OF _ reading_init])
qed

lemma init_fails:
  assumes "length L < 65536" and "\<not> valid_lengths L"
  shows "count_per_length L = Inl (HuffmanError (if list_ex (\<lambda>l. l > 15) L then InvalidCodeLength else OversubscribedCode))"
  using count_per_length_ok [OF assms(1)] assms by (auto simp: valid_lengths_def list_all_iff list_ex_iff not_le)

text \<open>
  An encoder and a decoder of a table agree: symbols that have codes are read back as they were written, and
  on any bytes whatsoever the decoder finds a symbol whose code the bytes start with, or returns an error.
\<close>

definition table_agrees :: "nat list \<Rightarrow> huffman_encoder \<Rightarrow> huffman_decoder \<Rightarrow> bool" where
  "table_agrees L e d \<longleftrightarrow>
     (\<forall>ss. length ss < 2 ^ 50 \<and> (\<forall>s\<in>set ss. s < length L \<and> 0 < L ! s) \<longrightarrow>
       (\<exists>z w. rbind (write_symbols e ss bw_init) bw_finish = Inr (z, w) \<and> decode_symbols d (length ss) (br_init z) = Inr ss)) \<and>
     (\<forall>z. decode_result L (bytes_bits z) (huffman_decode d (br_init z)))"

lemma table_agrees_ok:
  assumes v: "valid_lengths L"
  shows "\<exists>e d. huffman_encoder_init L = Inr e \<and> huffman_decoder_init L = Inr d \<and> table_agrees L e d"
proof -
  obtain e where e: "huffman_encoder_init L = Inr e" "encodes L e" using encoder_exists [OF v] by blast
  obtain d where d: "huffman_decoder_init L = Inr d" "decodes L d" using decoder_exists [OF v] by blast
  have le: "list_all (\<lambda>l. l \<le> 15) L" using v by (simp add: valid_lengths_def)
  have "\<exists>z w. rbind (write_symbols e ss bw_init) bw_finish = Inr (z, w) \<and> decode_symbols d (length ss) (br_init z) = Inr ss"
    if ss: "length ss < 2 ^ 50" "\<forall>s\<in>set ss. s < length L \<and> 0 < L ! s" for ss
  proof -
    have short: "length ([] :: bool list) + 15 * length ss < 2 ^ 60" using ss(1) by simp
    obtain w where w: "write_symbols e ss bw_init = Inr w" "written (concat (map (code_bits L) ss)) w" "length (concat (map (code_bits L) ss)) \<le> 15 * length ss"
      using write_symbols_ok [OF e(2) le ss(2) written_init short] by auto
    have "length (concat (map (code_bits L) ss)) < 2 ^ 61" using w(3) ss(1) by simp
    then obtain z w' where z: "bw_finish w = Inr (z, w')" "bytes_bits z = padded (concat (map (code_bits L) ss))"
      using bw_finish_ok [OF w(2)] by blast
    obtain pad where "bytes_bits z = concat (map (code_bits L) ss) @ pad" using padded_prefix z(2) by metis
    then have "decode_symbols d (length ss) (br_init z) = Inr ss" using decode_symbols_ok [OF d(2) ss(2)] reading_init [of z] by simp
    then show ?thesis using w(1) z(1) by simp
  qed
  then show ?thesis using e(1) d(1) decoder_total [OF v d(1)] by (auto simp: table_agrees_def)
qed

text \<open>
  C30.  For every table of code lengths, encoder and decoder can be built exactly when no length is over 15 and the
  lengths leave room for each other; otherwise both fail with the same error.  A sequence of symbols that
  have codes, written and read with the same table, comes back; and on any bytes whatsoever decoding gives a
  symbol that has a code and whose code the bytes start with, or one of two errors, and never panics.
\<close>

theorem huffman_round_trip:
  assumes "length L < 65536"
  shows "(valid_lengths L \<longrightarrow> (\<exists>e d. huffman_encoder_init L = Inr e \<and> huffman_decoder_init L = Inr d \<and> table_agrees L e d)) \<and>
    (\<not> valid_lengths L \<longrightarrow>
      (let x = HuffmanError (if list_ex (\<lambda>l. l > 15) L then InvalidCodeLength else OversubscribedCode)
       in huffman_encoder_init L = Inl x \<and> huffman_decoder_init L = Inl x))"
  using table_agrees_ok [of L] init_fails [OF assms]
  by (simp add: Let_def huffman_encoder_init_def canonical_codes_from_lengths_def huffman_decoder_init_def)

theorem huffman_round_trip_witness:
  "(\<exists>e d. huffman_encoder_init [2, 1, 3, 0, 3] = Inr e \<and> huffman_decoder_init [2, 1, 3, 0, 3] = Inr d \<and> table_agrees [2, 1, 3, 0, 3] e d) \<and>
    huffman_decoder_init [1, 1, 1] = Inl (HuffmanError OversubscribedCode) \<and> huffman_decoder_init [1, 16] = Inl (HuffmanError InvalidCodeLength)"
proof -
  have "valid_lengths [2, 1, 3, 0, 3]" using kraft_code_space [of "[2, 1, 3, 0, 3]"] by (simp add: valid_lengths_def kraft_def)
  moreover have "\<not> code_space [1, 1, 1]" by (auto simp: code_space_def len_count_def intro!: bexI [of _ 1])
  then have "\<not> valid_lengths [1, 1, 1]" "\<not> valid_lengths [1, 16]" by (simp_all add: valid_lengths_def)
  ultimately show ?thesis
    using huffman_round_trip [of "[2, 1, 3, 0, 3]"] huffman_round_trip [of "[1, 1, 1]"] huffman_round_trip [of "[1, 16]"] by (simp add: Let_def)
qed

text \<open>
  C31.  Frequencies of up to 65535 symbols, less than \<open>2 ^ 32 - 1\<close> in total, give code lengths -- zero exactly for the
  symbols that do not occur, none longer than the limit nor than the number of symbols allows -- that make
  a valid table; or \<^verbatim>\<open>CodeTooLong\<close>, which takes more symbols than the limit leaves.  The depths, kept in 8 bits, never
  wrap and the walk over the tree ends.  Nineteen small frequencies are enough for \<^verbatim>\<open>CodeTooLong\<close> with the limit of 7
  that the header of a dynamic block has.
\<close>

theorem code_lengths_from_frequencies:
  assumes "length freqs < 65536" and "sum_list freqs < 2 ^ 32 - 1" and "1 \<le> m" and "m \<le> 15"
  shows "(build_code_lengths_from_frequencies freqs m = Inl (HuffmanError CodeTooLong) \<and> m + 1 < length (filter (\<lambda>f. f > 0) freqs) \<or>
      (\<exists>L. build_code_lengths_from_frequencies freqs m = Inr L \<and> length L = length freqs \<and> valid_lengths L \<and>
        (\<forall>s<length L. L ! s = 0 \<longleftrightarrow> freqs ! s = 0) \<and>
        list_all (\<lambda>l. l \<le> m \<and> l \<le> max 1 (length (filter (\<lambda>f. f > 0) freqs) - 1)) L)) \<and>
    build_code_lengths_from_frequencies [49, 1, 0, 0, 0, 0, 5, 41, 96, 10, 0, 0, 0, 0, 0, 0, 15, 1, 2] 7 = Inl (HuffmanError CodeTooLong)"
proof
  have "length (filter P (map f xs)) = length (filter (\<lambda>x. P (f x)) xs)" for P :: "nat \<Rightarrow> bool" and f :: "nat \<Rightarrow> nat" and xs by (induction xs) auto
  from this [of "\<lambda>f. f > 0" "(!) freqs" "[0..<length freqs]"] have u: "length (used_of freqs) = length (filter (\<lambda>f. f > 0) freqs)"
    by (simp add: used_of_def map_nth)
  have "lengths_for freqs (deepest freqs m) L \<Longrightarrow> length L = length freqs \<and> valid_lengths L \<and> (\<forall>s<length L. L ! s = 0 \<longleftrightarrow> freqs ! s = 0) \<and>
      list_all (\<lambda>l. l \<le> m \<and> l \<le> max 1 (length (filter (\<lambda>f. f > 0) freqs) - 1)) L" for L
    by (auto simp: lengths_for_def deepest_def u list_all_iff)
  then show "build_code_lengths_from_frequencies freqs m = Inl (HuffmanError CodeTooLong) \<and> m + 1 < length (filter (\<lambda>f. f > 0) freqs) \<or>
      (\<exists>L. build_code_lengths_from_frequencies freqs m = Inr L \<and> length L = length freqs \<and> valid_lengths L \<and>
        (\<forall>s<length L. L ! s = 0 \<longleftrightarrow> freqs ! s = 0) \<and>
        list_all (\<lambda>l. l \<le> m \<and> l \<le> max 1 (length (filter (\<lambda>f. f > 0) freqs) - 1)) L)"
    using build_lengths_ok [of freqs m] assms unfolding u by auto
  show "build_code_lengths_from_frequencies [49, 1, 0, 0, 0, 0, 5, 41, 96, 10, 0, 0, 0, 0, 0, 0, 15, 1, 2] 7 = Inl (HuffmanError CodeTooLong)"
    by (simp add: build_code_lengths_from_frequencies_def Let_def merge_loop.simps merge_step_def scan_min.simps depth_loop.simps add_node_def
        fits_def sub_panic_def usize_lim_def)
qed

theorem code_lengths_from_frequencies_witness:
  "\<exists>L. build_code_lengths_from_frequencies [5, 0, 2, 1] 15 = Inr L \<and> length L = 4 \<and> valid_lengths L \<and> L ! 1 = 0 \<and> 0 < L ! 3"
proof -
  obtain L where "build_code_lengths_from_frequencies [5, 0, 2, 1] 15 = Inr L" "length L = 4" "valid_lengths L"
    "\<forall>s<length L. L ! s = 0 \<longleftrightarrow> [5, 0, 2, 1 :: nat] ! s = 0"
    using code_lengths_from_frequencies [of "[5, 0, 2, 1]" 15] by auto
  moreover from this have "L ! 1 = 0" "L ! 3 \<noteq> 0" by simp_all
  ultimately show ?thesis by blast
qed

end
