(* ===== verification/Lib_Deflate_Header.thy ===== *)
theory Lib_Deflate_Header
  imports Lib_Deflate_Tokens
begin

text \<open>
  The header of a dynamic block: frequencies of the tokens, the run-length code of the code lengths,
  and that the decompressor reads back the lengths that were written.
\<close>

subsection \<open>Frequencies\<close>

lemma bump_ok: "i < length xs \<Longrightarrow> sum_list xs < max_w \<Longrightarrow> bump msg i xs = Inr (xs[i := xs ! i + 1])"
  using elem_le_sum_list [of i xs] by (simp add: bump_def)

lemma sum_list_bump: "i < length xs \<Longrightarrow> sum_list (xs[i := xs ! i + 1]) = Suc (sum_list (xs :: nat list))"
  by (induction xs arbitrary: i) (auto simp: nth_Cons split: nat.splits)

text \<open>\<open>ys\<close> has at least the counts of \<open>xs\<close>, at most \<open>n\<close> more in total.\<close>

definition counted_up :: "nat list \<Rightarrow> nat \<Rightarrow> nat list \<Rightarrow> bool" where
  "counted_up xs n ys \<longleftrightarrow> length ys = length xs \<and> sum_list ys \<le> sum_list xs + n \<and> (\<forall>i<length xs. xs ! i \<le> ys ! i)"

lemma counted_up_refl: "counted_up xs n xs"
  by (simp add: counted_up_def)

lemma counted_up_bump: "i < length xs \<Longrightarrow> counted_up (xs[i := xs ! i + 1]) n ys \<Longrightarrow> counted_up xs (Suc n) ys \<and> 0 < ys ! i"
proof -
  assume i: "i < length xs" and c: "counted_up (xs[i := xs ! i + 1]) n ys"
  have "xs ! k \<le> ys ! k" if "k < length xs" for k
  proof -
    have "xs[i := xs ! i + 1] ! k \<le> ys ! k" using c that by (simp add: counted_up_def)
    then show ?thesis using that i by (simp add: nth_list_update split: if_splits)
  qed
  moreover have "xs[i := xs ! i + 1] ! i \<le> ys ! i" using c i unfolding counted_up_def by (metis length_list_update)
  then have "0 < ys ! i" using i by simp
  ultimately show ?thesis using c sum_list_bump [OF i] by (simp add: counted_up_def)
qed

lemma counted_up_mono: "counted_up xs n ys \<Longrightarrow> n \<le> m \<Longrightarrow> counted_up xs m ys"
  by (auto simp: counted_up_def)

fun token_ok :: "lz77_token \<Rightarrow> bool" where
  "token_ok (Literal b) \<longleftrightarrow> True"
| "token_ok (Match l d) \<longleftrightarrow> 3 \<le> l \<and> l \<le> 258 \<and> 1 \<le> d \<and> d \<le> 32768"

lemma tally_tokens_ok:
  "list_all token_ok ts \<Longrightarrow> length ll = 286 \<Longrightarrow> length dd = 30 \<Longrightarrow> sum_list ll + length ts < max_w \<Longrightarrow> sum_list dd + length ts < max_w \<Longrightarrow>
    \<exists>ll' dd'. tally_tokens ts (ll, dd) = Inr (ll', dd') \<and> counted_up ll (length ts) ll' \<and> counted_up dd (length ts) dd' \<and>
      list_all (token_coded ll' dd') ts"
proof (induction ts arbitrary: ll dd)
  case Nil
  then show ?case by (simp add: counted_up_refl)
next
  case (Cons t ts)
  show ?case
  proof (cases t)
    case (Literal b)
    have i: "unat b < length ll" using u8_bound [of b] Cons.prems(2) by simp
    let ?ll = "ll[unat b := ll ! unat b + 1]"
    have s: "sum_list ?ll = Suc (sum_list ll)" by (rule sum_list_bump [OF i])
    have "length ?ll = 286" "sum_list ?ll + length ts < max_w" "sum_list dd + length ts < max_w" "list_all token_ok ts"
      using Cons.prems s by simp_all
    then obtain ll' dd' where r: "tally_tokens ts (?ll, dd) = Inr (ll', dd')" "counted_up ?ll (length ts) ll'" "counted_up dd (length ts) dd'"
      "list_all (token_coded ll' dd') ts" using Cons.IH Cons.prems(3) by blast
    have "bump ''idx < 286'' (unat b) ll = Inr ?ll" using Cons.prems(4) by (intro bump_ok i) simp
    then have "tally_tokens (t # ts) (ll, dd) = Inr (ll', dd')" using r(1) Literal by simp
    then show ?thesis using counted_up_bump [OF i r(2)] counted_up_mono [OF r(3)] r(4) Literal by auto
  next
    case (Match l d)
    then have m: "3 \<le> l" "l \<le> 258" "1 \<le> d" "d \<le> 32768" "list_all token_ok ts" using Cons.prems(1) by simp_all
    let ?i = "257 + lens.symbol l" and ?j = "dists.symbol d"
    have i: "?i < length ll" "?j < length dd" using match_symbols [OF m(1, 2)] dists.symbol_ok(4) [OF m(3, 4)] Cons.prems(2, 3) by simp_all
    let ?ll = "ll[?i := ll ! ?i + 1]" and ?dd = "dd[?j := dd ! ?j + 1]"
    have s: "sum_list ?ll = Suc (sum_list ll)" "sum_list ?dd = Suc (sum_list dd)" by (rule sum_list_bump [OF i(1)], rule sum_list_bump [OF i(2)])
    have "length ?ll = 286" "length ?dd = 30" "sum_list ?ll + length ts < max_w" "sum_list ?dd + length ts < max_w"
      using Cons.prems unfolding s by simp_all
    then obtain ll' dd' where r: "tally_tokens ts (?ll, ?dd) = Inr (ll', dd')" "counted_up ?ll (length ts) ll'" "counted_up ?dd (length ts) dd'"
      "list_all (token_coded ll' dd') ts" using Cons.IH [OF m(5)] by blast
    have b: "bump ''lidx < 286'' ?i ll = Inr ?ll" "bump ''didx < 30'' ?j dd = Inr ?dd"
      by (rule bump_ok [OF i(1)], use Cons.prems(4) in simp) (rule bump_ok [OF i(2)], use Cons.prems(5) in simp)
    have "tally_tokens (t # ts) (ll, dd) = Inr (ll', dd')"
      unfolding Match tally_tokens.simps length_to_symbol_ok [OF m(1, 2)] distance_to_symbol_ok [OF m(3, 4)] rbind_simps prod.case b by (rule r(1))
    then show ?thesis using counted_up_bump [OF i(1) r(2)] counted_up_bump [OF i(2) r(3)] r(4) m Match by auto
  qed
qed

text \<open>Every symbol of the block is counted, the end of the block included, and some distance.\<close>

definition block_freqs :: "lz77_token list \<Rightarrow> nat list \<Rightarrow> nat list \<Rightarrow> bool" where
  "block_freqs ts ll dd \<longleftrightarrow> length ll = 286 \<and> length dd = 30 \<and> sum_list ll \<le> length ts + 1 \<and> sum_list dd \<le> length ts + 1 \<and>
     list_all (token_coded ll dd) ts \<and> 0 < ll ! 256"

lemma token_coded_mono:
  assumes "counted_up ll n ll'" and "counted_up dd m dd'" and "length ll = 286" and "length dd = 30" and "token_coded ll dd t"
  shows "token_coded ll' dd' t"
proof -
  have up: "0 < ll' ! i" if "i < 286" "0 < ll ! i" for i using assms(1, 3) that by (metis counted_up_def less_le_trans)
  have ud: "0 < dd' ! i" if "i < 30" "0 < dd ! i" for i using assms(2, 4) that by (metis counted_up_def less_le_trans)
  show ?thesis
  proof (cases t)
    case (Literal b)
    have "unat b < 286" using u8_bound [of b] by simp
    then show ?thesis using up assms(5) Literal by simp
  next
    case (Match l d)
    then have m: "3 \<le> l" "l \<le> 258" "1 \<le> d" "d \<le> 32768" using assms(5) by simp_all
    then show ?thesis using up ud match_symbols [OF m(1, 2)] dists.symbol_ok(4) [OF m(3, 4)] assms(5) Match by simp
  qed
qed

lemma tally_frequencies_ok:
  assumes "list_all token_ok ts" and "length ts < 2 ^ 31"
  shows "\<exists>ll dd. tally_frequencies ts (replicate 286 0, replicate 30 0) = Inr (ll, dd) \<and> block_freqs ts ll dd"
proof -
  obtain ll dd where r: "tally_tokens ts (replicate 286 0, replicate 30 0) = Inr (ll, dd)" "counted_up (replicate 286 0) (length ts) ll"
    "counted_up (replicate 30 0) (length ts) dd" "list_all (token_coded ll dd) ts"
    using tally_tokens_ok [OF assms(1), of "replicate 286 0" "replicate 30 0"] assms(2) by (auto simp: sum_list_replicate)
  have len: "length ll = 286" "length dd = 30" "sum_list ll \<le> length ts" "sum_list dd \<le> length ts"
    using r(2, 3) by (simp_all add: counted_up_def sum_list_replicate)
  let ?ll = "ll[256 := ll ! 256 + 1]"
  have i: "256 < length ll" using len by simp
  have b: "bump ''x'' 256 ll = Inr ?ll" using len(3) assms(2) by (intro bump_ok i) simp
  have up: "counted_up ll 1 ?ll \<and> 0 < ?ll ! 256" using counted_up_bump [OF i counted_up_refl] by simp
  define dd' where "dd' = (if list_ex (\<lambda>f. f > 0) dd then dd else dd[0 := 1])"
  have t: "tally_frequencies ts (replicate 286 0, replicate 30 0) = Inr (?ll, dd')"
    using r(1) b len by (simp add: tally_frequencies_def dd'_def)
  have ud: "counted_up dd 1 dd'"
  proof (cases "list_ex (\<lambda>f. f > 0) dd")
    case False
    then have z: "dd ! 0 = 0" using len(2) by (auto simp: list_ex_length)
    show ?thesis using counted_up_bump [of 0 dd 0 "dd[0 := dd ! 0 + 1]"] counted_up_refl len(2) False z by (simp add: dd'_def)
  qed (simp add: dd'_def counted_up_refl)
  have "list_all (token_coded ?ll dd') ts"
    using r(4) token_coded_mono [OF conjunct1 [OF up] ud len(1, 2)] by (auto simp: list_all_iff)
  moreover have "sum_list ?ll \<le> length ts + 1" "sum_list dd' \<le> length ts + 1" "length dd' = 30"
    using sum_list_bump [OF i] ud len by (simp_all add: counted_up_def)
  ultimately show ?thesis using t up len(1) by (simp add: block_freqs_def)
qed

text \<open>The codes built from the frequencies of a block have all its symbols.\<close>

lemma lengths_for_block:
  assumes "block_freqs ts ll dd" and "lengths_for ll 15 L" and "lengths_for dd 15 D"
  shows "block_codes L D \<and> length L = 286 \<and> length D = 30 \<and> list_all (token_coded L D) ts \<and> 0 < L ! 256"
proof -
  have len: "length L = 286" "length D = 30" "valid_lengths L" "valid_lengths D"
    using assms by (simp_all add: block_freqs_def lengths_for_def)
  have pos: "0 < ll ! s \<Longrightarrow> s < 286 \<Longrightarrow> 0 < L ! s" "0 < dd ! k \<Longrightarrow> k < 30 \<Longrightarrow> 0 < D ! k" for s k
    using assms(2, 3) len by (auto simp: lengths_for_def)
  have "token_coded L D t" if "token_coded ll dd t" for t
  proof (cases t)
    case (Literal b)
    have "unat b < 286" using u8_bound [of b] by simp
    then show ?thesis using pos(1) that Literal by simp
  next
    case (Match l d)
    then have m: "3 \<le> l" "l \<le> 258" "1 \<le> d" "d \<le> 32768" using that by simp_all
    then show ?thesis using pos match_symbols [OF m(1, 2)] dists.symbol_ok(4) [OF m(3, 4)] that Match by simp
  qed
  then have "list_all (token_coded L D) ts" using assms(1) by (auto simp: block_freqs_def list_all_iff)
  then show ?thesis using len pos(1) [of 256] assms(1) by (simp add: block_codes_def block_freqs_def)
qed

lemma try_build_ok:
  assumes "block_freqs ts ll dd" and "length ts < 2 ^ 31"
  shows "try_build_dynamic_lengths ll dd = Inr None \<or>
    (\<exists>L D. try_build_dynamic_lengths ll dd = Inr (Some (L, D)) \<and> lengths_for ll (deepest ll 15) L \<and> lengths_for dd (deepest dd 15) D)"
proof -
  have f: "length ll < 65536" "sum_list ll < max_w" "length dd < 65536" "sum_list dd < max_w" using assms by (simp_all add: block_freqs_def)
  show ?thesis using build_lengths_ok [OF f(1, 2), of 15] build_lengths_ok [OF f(3, 4), of 15]
    by (auto simp: try_build_dynamic_lengths_def ok_or_none_def)
qed

subsection \<open>The run-length code\<close>

fun rle_step :: "nat \<times> nat \<Rightarrow> nat list \<Rightarrow> nat list" where
  "rle_step (s, x) cs =
     (if s < 16 then cs @ [s] else if s = 16 then cs @ replicate (x + 3) (last cs)
      else if s = 17 then cs @ replicate (x + 3) 0 else cs @ replicate (x + 11) 0)"

fun rle_valid :: "nat \<times> nat \<Rightarrow> nat list \<Rightarrow> bool" where
  "rle_valid (s, x) cs \<longleftrightarrow> s \<le> 18 \<and> (s = 16 \<longrightarrow> cs \<noteq> [] \<and> x < 4) \<and> (s = 17 \<longrightarrow> x < 8) \<and> (s = 18 \<longrightarrow> x < 128)"

text \<open>The codes expand what was read so far to a list.\<close>

fun expands :: "(nat \<times> nat) list \<Rightarrow> nat list \<Rightarrow> nat list \<Rightarrow> bool" where
  "expands [] cs t \<longleftrightarrow> cs = t"
| "expands (p # ps) cs t \<longleftrightarrow> rle_valid p cs \<and> expands ps (rle_step p cs) t"

lemma expands_snoc: "expands ps cs mid \<Longrightarrow> rle_valid p mid \<Longrightarrow> expands (ps @ [p]) cs (rle_step p mid)"
  by (induction ps arbitrary: cs) auto

lemma rle_step_longer: "length cs < length (rle_step p cs)"
  by (cases p) auto

lemma rle_step_prefix: "\<exists>ys. rle_step p cs = cs @ ys"
  by (cases p) auto

lemma expands_shorter: "expands (p # ps) cs t \<Longrightarrow> length cs < length t"
proof (induction ps arbitrary: p cs)
  case (Cons q ps)
  then have "length (rle_step p cs) < length t" by (metis expands.simps(2))
  then show ?case using rle_step_longer [of cs p] by simp
qed (use rle_step_longer in auto)

definition rle_inv :: "nat list \<Rightarrow> nat \<Rightarrow> rle \<Rightarrow> bool" where
  "rle_inv c i acc \<longleftrightarrow> (case acc of (syms, extras, freqs) \<Rightarrow>
     length syms = length extras \<and> expands (zip syms extras) [] (take i c) \<and> length freqs = 19 \<and> sum_list freqs = length syms \<and>
     length syms \<le> i \<and> i \<le> length c \<and> set syms = set (used_of freqs))"

lemma put_rle_ok:
  assumes "rle_inv c i acc" and "length c < 1000" and "rle_valid (s, x) (take i c)" and "x < 256" and "take j c = rle_step (s, x) (take i c)"
    and "i < j" and "j \<le> length c"
  shows "\<exists>acc'. put_rle s x acc = Inr acc' \<and> rle_inv c j acc'"
proof -
  obtain syms extras freqs where acc: "acc = (syms, extras, freqs)" by (cases acc)
  have inv: "length syms = length extras" "expands (zip syms extras) [] (take i c)" "length freqs = 19" "sum_list freqs = length syms"
    "length syms \<le> i" "i \<le> length c" "set syms = set (used_of freqs)" using assms(1) by (simp_all add: rle_inv_def acc)
  have s: "s < length freqs" using assms(3) inv(3) by simp
  let ?f = "freqs[s := freqs ! s + 1]"
  have b: "bump ''x'' s freqs = Inr ?f" using inv(4-6) assms(2) by (intro bump_ok s) simp
  have "expands (zip (syms @ [s]) (extras @ [x])) [] (take j c)"
    unfolding assms(5) using expands_snoc [OF inv(2) assms(3)] inv(1) by simp
  moreover have "k \<in> set (used_of ?f) \<longleftrightarrow> k = s \<or> k \<in> set (used_of freqs)" for k
    using s by (cases "k = s") (simp_all add: used_of_props(1))
  then have "set (syms @ [s]) = set (used_of ?f)" using inv(7) by auto
  ultimately have "rle_inv c j (syms @ [s], extras @ [x], ?f)"
    using inv assms(6, 7) sum_list_bump [OF s] by (simp add: rle_inv_def)
  then show ?thesis using b assms(4) by (simp add: put_rle_def acc)
qed

lemma take_run: "i + n \<le> length c \<Longrightarrow> (\<forall>k<n. c ! (i + k) = v) \<Longrightarrow> take (i + n) c = take i c @ replicate n v"
proof -
  assume h: "i + n \<le> length c" "\<forall>k<n. c ! (i + k) = v"
  have "take n (drop i c) = replicate n v" using h by (intro nth_equalityI) auto
  then show ?thesis by (simp add: take_add)
qed

lemma repeat_code_ok:
  assumes lohi: "0 < lo" "lo \<le> hi" and c: "length c < 1000"
    and step: "\<And>tk cs. lo \<le> tk \<Longrightarrow> tk \<le> hi \<Longrightarrow> s = 16 \<longrightarrow> cs \<noteq> [] \<and> last cs = v \<Longrightarrow>
      rle_valid (s, tk - base) cs \<and> rle_step (s, tk - base) cs = cs @ replicate tk v \<and> tk - base < 256"
  shows "rle_inv c i acc \<Longrightarrow> i + run \<le> length c \<Longrightarrow> \<forall>k<run. c ! (i + k) = v \<Longrightarrow> s = 16 \<longrightarrow> 0 < i \<and> c ! (i - 1) = v \<Longrightarrow>
    \<exists>run' i' acc'. repeat_code s base lo hi run i acc = Inr (run', i', acc') \<and> rle_inv c i' acc' \<and> i' + run' = i + run \<and> i \<le> i' \<and>
      (\<forall>k<run'. c ! (i' + k) = v)"
proof (induction run arbitrary: i acc rule: less_induct)
  case (less run)
  show ?case
  proof (cases "lo \<le> run")
    case False
    then have "repeat_code s base lo hi run i acc = Inr (run, i, acc)" by (subst repeat_code.simps) simp
    then show ?thesis using less.prems by blast
  next
    case True
    define tk where "tk = (if run < hi then run else hi)"
    have tk: "lo \<le> tk" "tk \<le> hi" "tk \<le> run" "0 < tk" using True lohi by (auto simp: tk_def)
    have tr: "take (i + tk) c = take i c @ replicate tk v" using less.prems(2, 3) tk(3) by (intro take_run) auto
    have pre: "s = 16 \<longrightarrow> take i c \<noteq> [] \<and> last (take i c) = v"
    proof
      assume "s = 16"
      then have i: "0 < i" "c ! (i - 1) = v" "i \<le> length c" using less.prems(2, 4) by simp_all
      then have ne: "take i c \<noteq> []" by auto
      show "take i c \<noteq> [] \<and> last (take i c) = v" using ne last_conv_nth [OF ne] i by simp
    qed
    note st = step [OF tk(1, 2) pre]
    obtain acc1 where a: "put_rle s (tk - base) acc = Inr acc1" "rle_inv c (i + tk) acc1"
      using put_rle_ok [OF less.prems(1) c, of s "tk - base" "i + tk"] st tr tk less.prems(2) by auto
    have eq: "repeat_code s base lo hi run i acc = repeat_code s base lo hi (run - tk) (i + tk) acc1"
      using True lohi a(1) by (subst repeat_code.simps) (simp add: tk_def Let_def)
    have "c ! (i + tk + k) = v" if "k < run - tk" for k using less.prems(3) that by (simp add: add.assoc)
    moreover have "c ! (i + tk - 1) = v" using less.prems(3) tk(3, 4) by (metis Nat.add_diff_assoc One_nat_def Suc_leI diff_less less_le_trans zero_less_one)
    ultimately obtain run' i' acc' where "repeat_code s base lo hi (run - tk) (i + tk) acc1 = Inr (run', i', acc')" "rle_inv c i' acc'"
      "i' + run' = i + tk + (run - tk)" "i + tk \<le> i'" "\<forall>k<run'. c ! (i' + k) = v"
      using less.IH [of "run - tk" "i + tk" acc1] a(2) tk less.prems(2) by auto
    then show ?thesis using eq tk(3) by (intro exI [of _ run'] exI [of _ i'] exI [of _ acc']) simp
  qed
qed

lemma repeat_steps:
  "11 \<le> tk \<Longrightarrow> tk \<le> 138 \<Longrightarrow> rle_valid (18, tk - 11) cs \<and> rle_step (18, tk - 11) cs = cs @ replicate tk 0 \<and> tk - 11 < 256"
  "3 \<le> tk \<Longrightarrow> tk \<le> 10 \<Longrightarrow> rle_valid (17, tk - 3) cs \<and> rle_step (17, tk - 3) cs = cs @ replicate tk 0 \<and> tk - 3 < 256"
  "3 \<le> tk \<Longrightarrow> tk \<le> 6 \<Longrightarrow> cs \<noteq> [] \<and> last cs = v \<Longrightarrow> rle_valid (16, tk - 3) cs \<and> rle_step (16, tk - 3) cs = cs @ replicate tk v \<and> tk - 3 < 256"
  by auto

lemma single_codes_ok:
  assumes "length c < 1000" and "v \<le> 15"
  shows "rle_inv c i acc \<Longrightarrow> i + run \<le> length c \<Longrightarrow> \<forall>k<run. c ! (i + k) = v \<Longrightarrow>
    \<exists>acc'. single_codes v run i acc = Inr (i + run, acc') \<and> rle_inv c (i + run) acc'"
proof (induction run arbitrary: i acc)
  case (Suc run)
  have "take (i + 1) c = take i c @ replicate 1 v" using Suc.prems(2, 3) by (intro take_run) auto
  then obtain acc1 where a: "put_rle v 0 acc = Inr acc1" "rle_inv c (i + 1) acc1"
    using put_rle_ok [OF Suc.prems(1) assms(1), of v 0 "i + 1"] assms(2) Suc.prems(2) by auto
  have "c ! (i + 1 + k) = v" if "k < run" for k using Suc.prems(3) that by (metis Suc_less_eq add.assoc plus_1_eq_Suc)
  then show ?case using Suc.IH [OF a(2)] Suc.prems(2) a(1) by auto
qed simp

lemma run_length_ok:
  "i + run \<le> length c \<Longrightarrow> \<forall>k<run. c ! (i + k) = v \<Longrightarrow>
    \<exists>n. run_length c v i run = Inr n \<and> run \<le> n \<and> i + n \<le> length c \<and> (\<forall>k<n. c ! (i + k) = v)"
proof (induction "length c - (i + run)" arbitrary: run rule: less_induct)
  case less
  show ?case
  proof (cases "i + run < length c \<and> c ! (i + run) = v \<and> run < 138")
    case True
    then have eq: "run_length c v i run = run_length c v i (run + 1)" by (subst run_length.simps) simp
    have all: "\<forall>k<run + 1. c ! (i + k) = v"
    proof (intro allI impI)
      fix k assume "k < run + 1"
      then show "c ! (i + k) = v" using less.prems(2) True by (cases "k = run") simp_all
    qed
    have "length c - (i + (run + 1)) < length c - (i + run)" "i + (run + 1) \<le> length c" using True by linarith+
    then obtain n where n: "run_length c v i (run + 1) = Inr n" "run + 1 \<le> n" "i + n \<le> length c" "\<forall>k<n. c ! (i + k) = v"
      using less.hyps [of "run + 1"] all by blast
    show ?thesis unfolding eq using n add_leD1 by blast
  next
    case False
    then have "run_length c v i run = Inr run" by (subst run_length.simps) (simp, blast)
    then show ?thesis using less.prems by blast
  qed
qed

lemma encode_run_ok:
  assumes "rle_inv c i acc" and "length c < 1000" and "v \<le> 15" and "1 \<le> run" and "i + run \<le> length c" and all: "\<forall>k<run. c ! (i + k) = v"
  shows "\<exists>acc'. encode_run v run i acc = Inr (i + run, acc') \<and> rle_inv c (i + run) acc'"
proof (cases "v = 0")
  case True
  have z: "\<forall>k<run. c ! (i + k) = 0" using all True by simp
  obtain r1 i1 a1 where 1: "repeat_code 18 11 11 138 run i acc = Inr (r1, i1, a1)" "rle_inv c i1 a1" "i1 + r1 = i + run" "\<forall>k<r1. c ! (i1 + k) = 0"
    using repeat_code_ok [of 11 138 c 18 0 11, OF _ _ assms(2) repeat_steps(1) assms(1, 5) z] by auto
  obtain r2 i2 a2 where 2: "repeat_code 17 3 3 10 r1 i1 a1 = Inr (r2, i2, a2)" "rle_inv c i2 a2" "i2 + r2 = i1 + r1" "\<forall>k<r2. c ! (i2 + k) = 0"
    using repeat_code_ok [of 3 10 c 17 0 3, OF _ _ assms(2) repeat_steps(2) 1(2) _ 1(4)] 1(3) assms(5) by auto
  obtain a3 where "single_codes 0 r2 i2 a2 = Inr (i2 + r2, a3)" "rle_inv c (i2 + r2) a3"
    using single_codes_ok [OF assms(2) _ 2(2) _ 2(4)] 2(3) 1(3) assms(5) by auto
  then show ?thesis using True 1 2 by (simp add: encode_run_def)
next
  case False
  have "take (i + 1) c = take i c @ replicate 1 v" using assms(4, 5) all by (intro take_run) auto
  then obtain a1 where 1: "put_rle v 0 acc = Inr a1" "rle_inv c (i + 1) a1"
    using put_rle_ok [OF assms(1, 2), of v 0 "i + 1"] assms(3-5) by auto
  have nx: "\<forall>k<run - 1. c ! (i + 1 + k) = v"
  proof (intro allI impI)
    fix k assume "k < run - 1"
    then have "k + 1 < run" by linarith
    then show "c ! (i + 1 + k) = v" using spec [OF all, of "k + 1"] by (simp add: add.assoc add.commute)
  qed
  have cur: "c ! (i + 1 - 1) = v" using all assms(4) by (metis add_diff_cancel_right' add.right_neutral less_le_trans zero_less_one)
  obtain r2 i2 a2 where 2: "repeat_code 16 3 3 6 (run - 1) (i + 1) a1 = Inr (r2, i2, a2)" "rle_inv c i2 a2" "i2 + r2 = i + 1 + (run - 1)"
    "\<forall>k<r2. c ! (i2 + k) = v"
    using repeat_code_ok [of 3 6 c 16 v 3, OF _ _ assms(2) _ 1(2) _ nx] repeat_steps(3) [of _ _ v] cur assms(4, 5) by auto
  obtain a3 where "single_codes v r2 i2 a2 = Inr (i2 + r2, a3)" "rle_inv c (i2 + r2) a3"
    using single_codes_ok [OF assms(2, 3) 2(2) _ 2(4)] 2(3) assms(4, 5) by auto
  then show ?thesis using False 1 2 assms(4) by (simp add: encode_run_def sub_panic_def)
qed

lemma rle_loop_ok:
  assumes "length c < 1000" and "list_all (\<lambda>v. v \<le> 15) c"
  shows "rle_inv c i acc \<Longrightarrow> \<exists>acc'. rle_loop c i acc = Inr acc' \<and> rle_inv c (length c) acc'"
proof (induction "length c - i" arbitrary: i acc rule: less_induct)
  case less
  show ?case
  proof (cases "i < length c")
    case False
    then have "i = length c" using less.prems by (auto simp: rle_inv_def)
    then show ?thesis using less.prems by (subst rle_loop.simps) simp
  next
    case True
    let ?v = "c ! i"
    obtain n where n: "run_length c ?v i 1 = Inr n" "1 \<le> n" "i + n \<le> length c" "\<forall>k<n. c ! (i + k) = ?v"
      using run_length_ok [of i 1 c ?v] True by auto
    have "?v \<le> 15" using assms(2) True by (simp add: list_all_length)
    then obtain acc1 where a: "encode_run ?v n i acc = Inr (i + n, acc1)" "rle_inv c (i + n) acc1"
      using encode_run_ok [OF less.prems assms(1) _ n(2-4)] by blast
    have "rle_loop c i acc = rle_loop c (i + n) acc1" using True n(1) a(1) by (subst rle_loop.simps) simp
    then show ?thesis using less.hyps [OF _ a(2)] n(2) True by simp
  qed
qed

subsection \<open>Writing the header\<close>

fun rle_bits :: "nat list \<Rightarrow> nat \<times> nat \<Rightarrow> bool list" where
  "rle_bits CL (s, x) = code_bits CL s @
     (if s = 16 then bitlist 2 x else if s = 17 then bitlist 3 x else if s = 18 then bitlist 7 x else [])"

definition cl_bits :: "nat list \<Rightarrow> nat list \<Rightarrow> bool list" where
  "cl_bits CL order = concat (map (\<lambda>s. bitlist 3 (CL ! s)) order)"

definition header_bits :: "nat list \<Rightarrow> (nat \<times> nat) list \<Rightarrow> bool list" where
  "header_bits CL ps = bitlist 5 29 @ bitlist 5 29 @ bitlist 4 15 @ cl_bits CL CL_ORDER @ concat (map (rle_bits CL) ps)"

text \<open>A code for the code lengths, and codes that expand to them.\<close>

definition header_ok :: "nat list \<Rightarrow> (nat \<times> nat) list \<Rightarrow> nat list \<Rightarrow> bool" where
  "header_ok CL ps c \<longleftrightarrow> valid_lengths CL \<and> length CL = 19 \<and> list_all (\<lambda>l. l \<le> 7) CL \<and> expands ps [] c \<and>
     (\<forall>(s, x)\<in>set ps. 0 < CL ! s)"

lemma expands_le: "expands ps cs t \<Longrightarrow> (s, x) \<in> set ps \<Longrightarrow> s \<le> 18"
  by (induction ps arbitrary: cs) auto

text \<open>Every symbol is a repeat code or one of the lengths.\<close>

lemma expands_symbols:
  assumes "expands (zip syms extras) [] c" and "length syms = length extras" and "list_all (\<lambda>l. l \<le> m) c"
  shows "set syms \<subseteq> {0..m} \<union> {16..18}"
proof -
  have sub: "set cs \<subseteq> set t" if "expands ps cs t" for ps cs t using that
  proof (induction ps arbitrary: cs)
    case (Cons p ps)
    obtain ys where "rle_step p cs = cs @ ys" using rle_step_prefix by blast
    then show ?case using Cons.IH [of "rle_step p cs"] Cons.prems by simp
  qed simp
  have "(s, x) \<in> set ps \<Longrightarrow> s \<in> set t \<or> 16 \<le> s \<and> s \<le> 18" if "expands ps cs t" for ps cs t s x
    using that
  proof (induction ps arbitrary: cs)
    case (Cons p ps)
    show ?case
    proof (cases "p = (s, x)")
      case True
      then have v: "rle_valid (s, x) cs" "expands ps (rle_step (s, x) cs) t" using Cons.prems(2) by simp_all
      then show ?thesis using sub [OF v(2)] by (cases "s < 16") auto
    next
      case False
      then show ?thesis using Cons.IH Cons.prems by auto
    qed
  qed simp
  note mem = this [OF assms(1)]
  show ?thesis
  proof
    fix s assume "s \<in> set syms"
    then obtain x where "(s, x) \<in> set (zip syms extras)" using assms(2) by (metis in_set_impl_in_set_zip1)
    then show "s \<in> {0..m} \<union> {16..18}" using mem [of s x] assms(3) by (auto simp: list_all_iff)
  qed
qed

lemma rle_bits_length: "length CL = 19 \<Longrightarrow> list_all (\<lambda>l. l \<le> 7) CL \<Longrightarrow> s < 19 \<Longrightarrow> length (rle_bits CL (s, x)) \<le> 14"
  by (auto simp: code_bits_length list_all_length)

lemma write_cl_lengths_ok:
  "\<forall>s\<in>set order. s < length CL \<Longrightarrow> written bs w \<Longrightarrow> length bs + 3 * length order < 2 ^ 60 \<Longrightarrow>
    \<exists>w'. write_cl_lengths order CL w = Inr w' \<and> written (bs @ cl_bits CL order) w'"
proof (induction order arbitrary: bs w)
  case (Cons s order)
  obtain w1 where w1: "write_bits (CL ! s) 3 w = Inr w1" "written (bs @ bitlist 3 (CL ! s)) w1"
    using write_bits_ok [OF Cons.prems(2), of 3 "CL ! s"] Cons.prems(3) by auto
  have "\<exists>w'. write_cl_lengths order CL w1 = Inr w' \<and> written ((bs @ bitlist 3 (CL ! s)) @ cl_bits CL order) w'"
    using Cons.prems(1, 3) by (intro Cons.IH w1(2)) auto
  then show ?case using w1(1) Cons.prems(1) by (simp add: cl_bits_def)
qed (simp add: cl_bits_def)

lemma write_rle_ok:
  assumes "encodes CL e" and "length CL = 19" and "list_all (\<lambda>l. l \<le> 7) CL"
  shows "length syms = length extras \<Longrightarrow> \<forall>s\<in>set syms. s < 19 \<and> 0 < CL ! s \<Longrightarrow> written bs w \<Longrightarrow> length bs + 14 * length syms < 2 ^ 60 \<Longrightarrow>
    \<exists>w'. write_rle e syms extras w = Inr w' \<and> written (bs @ concat (map (rle_bits CL) (zip syms extras))) w'"
proof (induction syms extras arbitrary: bs w rule: list_induct2')
  case (4 s syms x extras)
  have s: "s < length CL" "0 < CL ! s" using 4(3) assms(2) by simp_all
  have len: "length (bs @ rle_bits CL (s, x)) + 14 * length syms < 2 ^ 60"
    using rle_bits_length [OF assms(2, 3), of s x] 4(3, 5) by auto
  have lt: "length bs < 2 ^ 61" "length (bs @ code_bits CL s) < 2 ^ 61" using len by simp_all
  obtain w1 where w1: "d_write_symbol e s ''_emit_dynamic_header: rle symbol not in cl table'' w = Inr w1" "written (bs @ code_bits CL s) w1"
    using d_write_symbol_ok [OF assms(1) s 4(4) lt(1)] by blast
  obtain w2 where w2: "(if s = 16 then write_bits x 2 w1 else if s = 17 then write_bits x 3 w1 else if s = 18 then write_bits x 7 w1 else Inr w1) = Inr w2"
    "written (bs @ rle_bits CL (s, x)) w2"
    using write_bits_ok [OF w1(2) _ lt(2), of 2 x] write_bits_ok [OF w1(2) _ lt(2), of 3 x] write_bits_ok [OF w1(2) _ lt(2), of 7 x] w1(2)
    by (cases "s = 16"; cases "s = 17"; cases "s = 18") auto
  have "\<exists>w'. write_rle e syms extras w2 = Inr w' \<and> written ((bs @ rle_bits CL (s, x)) @ concat (map (rle_bits CL) (zip syms extras))) w'"
    using 4(2, 3) len by (intro 4(1) w2(2)) auto
  moreover have "write_rle e (s # syms) (x # extras) w = write_rle e syms extras w2"
    unfolding write_rle.simps w1(1) rbind_simps w2(1) ..
  ultimately show ?case by simp
qed auto

lemma emit_dynamic_header_ok:
  assumes "length L = 286" and "length D = 30" and "list_all (\<lambda>l. l \<le> 15) (L @ D)" and "written bs w" and "length bs < 2 ^ 58"
  shows "emit_dynamic_header L D w = Inl (DeflateError ''_emit_dynamic_header: code-length alphabet table build failed'') \<and>
      \<not> list_all (\<lambda>l. l \<le> 4) (L @ D) \<or>
    (\<exists>CL ps w'. emit_dynamic_header L D w = Inr w' \<and> written (bs @ header_bits CL ps) w' \<and> header_ok CL ps (L @ D) \<and> length ps \<le> 316)"
proof -
  have inv0: "rle_inv (L @ D) 0 ([], [], replicate 19 0)" by (simp add: rle_inv_def sum_list_replicate used_of_def)
  have short: "length (L @ D) < 1000" using assms(1, 2) by simp
  obtain acc where acc: "rle_loop (L @ D) 0 ([], [], replicate 19 0) = Inr acc" "rle_inv (L @ D) (length (L @ D)) acc"
    using rle_loop_ok [OF short assms(3) inv0] by blast
  obtain syms extras freqs where "acc = (syms, extras, freqs)" by (cases acc)
  then have r: "rle_loop (L @ D) 0 ([], [], replicate 19 0) = Inr (syms, extras, freqs)"
    "rle_inv (L @ D) (length (L @ D)) (syms, extras, freqs)" using acc by simp_all
  have inv: "length syms = length extras" "expands (zip syms extras) [] (L @ D)" "length freqs = 19" "sum_list freqs = length syms"
    "length syms \<le> 316" "set syms = set (used_of freqs)" using r(2) assms(1, 2) by (simp_all add: rle_inv_def)
  let ?fail = "DeflateError ''_emit_dynamic_header: code-length alphabet table build failed''"
  consider "build_code_lengths_from_frequencies freqs 7 = Inl (HuffmanError CodeTooLong)" "8 < length (used_of freqs)" |
    CL where "build_code_lengths_from_frequencies freqs 7 = Inr CL" "lengths_for freqs 7 CL"
    using build_lengths_ok [of freqs 7] lengths_for_mono [OF _ deepest_le] inv by auto
  then show ?thesis
  proof cases
    case 1
    have "\<not> list_all (\<lambda>l. l \<le> 4) (L @ D)"
    proof
      assume "list_all (\<lambda>l. l \<le> 4) (L @ D)"
      then have "set syms \<subseteq> {0..4} \<union> {16..18}" using expands_symbols [OF inv(2)] inv(1) by simp
      then have "set (used_of freqs) \<subseteq> {0..4} \<union> {16..18}" using inv(6) by simp
      then have "card (set (used_of freqs)) \<le> card ({0..4} \<union> {16..18 :: nat})" by (intro card_mono) simp_all
      also have "\<dots> = 8" by (subst card_Un_disjoint) auto
      finally show False using 1(2) distinct_card [OF used_of_props(2)] by simp
    qed
    then show ?thesis using r(1) 1(1) by (simp add: emit_dynamic_header_def build_lengths_def)
  next
    case (2 CL)
    have CL: "length CL = 19" "list_all (\<lambda>l. l \<le> 7) CL" "valid_lengths CL" using 2(2) inv(3) by (simp_all add: lengths_for_def)
    have mem: "s < 19 \<and> 0 < CL ! s" if m: "s \<in> set syms" for s
    proof -
      have "s < 19" "freqs ! s \<noteq> 0" using m used_of_props(1) [of s freqs] unfolding inv(6) by (simp_all add: inv(3))
      then show ?thesis using 2(2) CL(1) by (auto simp: lengths_for_def)
    qed
    obtain e where e: "huffman_encoder_init CL = Inr e" "encodes CL e" using encoder_exists [OF CL(3)] by blast
    let ?b1 = "bs @ bitlist 5 29" let ?b2 = "?b1 @ bitlist 5 29" let ?b3 = "?b2 @ bitlist 4 15" let ?b4 = "?b3 @ cl_bits CL CL_ORDER"
    obtain w1 where w1: "write_bits 29 5 w = Inr w1" "written ?b1 w1" using write_bits_ok [OF assms(4), of 5 29] assms(5) by auto
    obtain w2 where w2: "write_bits 29 5 w1 = Inr w2" "written ?b2 w2" using write_bits_ok [OF w1(2), of 5 29] assms(5) by auto
    obtain w3 where w3: "write_bits 15 4 w2 = Inr w3" "written ?b3 w3" using write_bits_ok [OF w2(2), of 4 15] assms(5) by auto
    have order: "\<forall>s\<in>set CL_ORDER. s < length CL" "length CL_ORDER = 19" using CL(1) by (simp_all add: CL_ORDER_def)
    obtain w4 where w4: "write_cl_lengths CL_ORDER CL w3 = Inr w4" "written ?b4 w4"
      using write_cl_lengths_ok [OF order(1) w3(2)] order(2) assms(5) by auto
    have "length ?b4 = length bs + 71" by (simp add: cl_bits_def CL_ORDER_def)
    then obtain w5 where w5: "write_rle e syms extras w4 = Inr w5" "written (?b4 @ concat (map (rle_bits CL) (zip syms extras))) w5"
      using write_rle_ok [OF e(2) CL(1, 2) inv(1) _ w4(2)] mem inv(5) assms(5) by auto
    have "emit_dynamic_header L D w = Inr w5"
      unfolding emit_dynamic_header_def r(1) rbind_simps prod.case using 2(1) e(1) w1(1) w2(1) w3(1) w4(1) w5(1)
      by (simp add: build_lengths_def build_encoder_def)
    moreover have "written (bs @ header_bits CL (zip syms extras)) w5" using w5(2) by (simp add: header_bits_def)
    moreover have "header_ok CL (zip syms extras) (L @ D)"
      using CL inv(2) mem by (auto simp: header_ok_def dest: set_zip_leftD)
    ultimately show ?thesis using inv(1, 5) by (intro disjI2 exI [of _ CL] exI [of _ "zip syms extras"] exI [of _ w5]) simp
  qed
qed

subsection \<open>Reading the header\<close>

lemma d_read_field:
  assumes "reading (bitlist n v @ bs) r" and "n \<le> 16" and "v < 2 ^ n"
  shows "\<exists>r'. d_read_bits n ctx r = Inr (v, r') \<and> reading bs r'"
  using read_field [OF assms] by (auto simp: d_read_bits_def)

lemma read_cl_lengths_ok:
  assumes "length CL = 19" and "list_all (\<lambda>l. l \<le> 7) CL"
  shows "ci \<le> 19 \<Longrightarrow> length cl = 19 \<Longrightarrow> \<forall>s\<in>set (take ci CL_ORDER). cl ! s = CL ! s \<Longrightarrow> reading (cl_bits CL (drop ci CL_ORDER) @ bs) r \<Longrightarrow>
    \<exists>r'. read_cl_lengths 19 ci cl r = Inr (CL, r') \<and> reading bs r'"
proof (induction "19 - ci" arbitrary: ci cl r)
  case 0
  have len: "length CL_ORDER = 19" and all: "\<forall>s<19. s \<in> set CL_ORDER"
  proof -
    show "length CL_ORDER = 19" by (simp add: CL_ORDER_def)
    have "list_all (\<lambda>s. s \<in> set CL_ORDER) [0..<19]" by code_simp
    then show "\<forall>s<19. s \<in> set CL_ORDER" by (simp add: list_all_iff)
  qed
  have "cl = CL" using 0 len all assms(1) by (intro nth_equalityI) auto
  then show ?case using 0 len by (subst read_cl_lengths.simps) (auto simp: cl_bits_def)
next
  case (Suc k)
  have ci: "ci < 19" and len: "length CL_ORDER = 19" using Suc.hyps(2) by (simp_all add: CL_ORDER_def)
  let ?s = "CL_ORDER ! ci"
  have "list_all (\<lambda>s. s < 19) CL_ORDER" by (simp add: CL_ORDER_def)
  then have s: "?s < 19" using ci len by (simp add: list_all_length)
  then have v: "CL ! ?s < 2 ^ 3" using assms by (auto simp: list_all_length intro: le_less_trans)
  have dr: "drop ci CL_ORDER = ?s # drop (Suc ci) CL_ORDER" using ci len by (simp add: Cons_nth_drop_Suc)
  have rd: "reading (bitlist 3 (CL ! ?s) @ cl_bits CL (drop (Suc ci) CL_ORDER) @ bs) r" using Suc.prems(4) unfolding dr by (simp add: cl_bits_def)
  have three: "(3 :: nat) \<le> 16" by simp
  obtain r1 where r1: "d_read_bits 3 ''_inflate_dynamic_block: unexpected end of stream reading a CL length'' r = Inr (CL ! ?s, r1)"
    "reading (cl_bits CL (drop (Suc ci) CL_ORDER) @ bs) r1" using d_read_field [OF rd three v] by blast
  let ?cl = "cl[?s := CL ! ?s]"
  have "\<forall>s\<in>set (take (Suc ci) CL_ORDER). ?cl ! s = CL ! s"
    using Suc.prems(2, 3) s ci len by (auto simp: take_Suc_conv_app_nth nth_list_update)
  then have "\<exists>r'. read_cl_lengths 19 (Suc ci) ?cl r1 = Inr (CL, r') \<and> reading bs r'"
    using Suc.hyps(1) [of "Suc ci" ?cl r1] Suc.hyps(2) Suc.prems(2) ci r1(2) by simp
  moreover have "read_cl_lengths 19 ci cl r = read_cl_lengths 19 (Suc ci) ?cl r1"
    using ci len r1(1) s v Suc.prems(2) by (subst read_cl_lengths.simps) simp
  ultimately show ?case by simp
qed

lemma read_lengths_ok:
  assumes "decodes CL d" and "length CL = 19"
  shows "expands ps cs t \<Longrightarrow> \<forall>(s, x)\<in>set ps. 0 < CL ! s \<Longrightarrow> reading (concat (map (rle_bits CL) ps) @ bs) r \<Longrightarrow>
    \<exists>r'. read_lengths d (length t) cs r = Inr (t, r') \<and> reading bs r'"
proof (induction ps arbitrary: cs r)
  case Nil
  then show ?case by (subst read_lengths.simps) simp
next
  case (Cons p ps)
  obtain s x where p: "p = (s, x)" by (cases p)
  have shorter: "length cs < length t" by (rule expands_shorter [OF Cons.prems(1)])
  have v: "rle_valid (s, x) cs" and ex: "expands ps (rle_step (s, x) cs) t" using Cons.prems(1) p by simp_all
  have s: "s < length CL" "0 < CL ! s" using v assms(2) Cons.prems(2) p by auto
  let ?rest = "concat (map (rle_bits CL) ps) @ bs"
  have IH: "\<exists>r'. read_lengths d (length t) (rle_step (s, x) cs) r2 = Inr (t, r') \<and> reading bs r'" if "reading ?rest r2" for r2
    using Cons.IH [OF ex _ that] Cons.prems(2) by simp
  let ?extra = "if s = 16 then bitlist 2 x else if s = 17 then bitlist 3 x else if s = 18 then bitlist 7 x else []"
  have "reading (code_bits CL s @ ?extra @ ?rest) r" using Cons.prems(3) p by simp
  then obtain r1 where r1: "decode_symbol d ''_inflate_dynamic_block: failed to decode a code-length symbol'' r = Inr (s, r1)" "reading (?extra @ ?rest) r1"
    using decode_symbol_ok [OF assms(1) s] by blast
  consider "s < 16" | "s = 16" | "s = 17" | "s = 18" using v by fastforce
  then show ?case
  proof cases
    case 1
    then show ?thesis using IH [of r1] r1 shorter by (subst read_lengths.simps) simp
  next
    case 2
    obtain r2 where r2: "d_read_bits 2 ''_inflate_dynamic_block: unexpected end of stream reading repeat-previous extra bits'' r1 = Inr (x, r2)" "reading ?rest r2"
      using d_read_field [of 2 x ?rest r1] r1(2) v 2 by auto
    have "cs \<noteq> []" "wrap32 (x + 3) = x + 3" using v 2 by auto
    then show ?thesis using IH [OF r2(2)] r1(1) r2(1) shorter 2 by (subst read_lengths.simps) (simp add: last_conv_nth)
  next
    case 3
    obtain r2 where r2: "d_read_bits 3 ''_inflate_dynamic_block: unexpected end of stream reading repeat-zero(short) extra bits'' r1 = Inr (x, r2)" "reading ?rest r2"
      using d_read_field [of 3 x ?rest r1] r1(2) v 3 by auto
    have "wrap32 (x + 3) = x + 3" using v 3 by auto
    then show ?thesis using IH [OF r2(2)] r1(1) r2(1) shorter 3 by (subst read_lengths.simps) simp
  next
    case 4
    obtain r2 where r2: "d_read_bits 7 ''_inflate_dynamic_block: unexpected end of stream reading repeat-zero(long) extra bits'' r1 = Inr (x, r2)" "reading ?rest r2"
      using d_read_field [of 7 x ?rest r1] r1(2) v 4 by auto
    have "wrap32 (x + 11) = x + 11" using v 4 by auto
    then show ?thesis using IH [OF r2(2)] r1(1) r2(1) shorter 4 by (subst read_lengths.simps) simp
  qed
qed

lemma inflate_dynamic_header:
  assumes "length L = 286" and "length D = 30" and "header_ok CL ps (L @ D)" and "reading (header_bits CL ps @ bs) r"
  shows "\<exists>r'. inflate_dynamic_block r out = inflate_huffman_block L D r' out \<and> reading bs r'"
proof -
  have CL: "valid_lengths CL" "length CL = 19" "list_all (\<lambda>l. l \<le> 7) CL" "expands ps [] (L @ D)" "\<forall>(s, x)\<in>set ps. 0 < CL ! s"
    using assms(3) by (simp_all add: header_ok_def)
  obtain d where d: "huffman_decoder_init CL = Inr d" "decodes CL d" using decoder_exists [OF CL(1)] by blast
  let ?c = "cl_bits CL CL_ORDER @ concat (map (rle_bits CL) ps) @ bs"
  have rd: "reading (bitlist 5 29 @ bitlist 5 29 @ bitlist 4 15 @ ?c) r" using assms(4) by (simp add: header_bits_def)
  obtain r1 where r1: "d_read_bits 5 ''_inflate_dynamic_block: unexpected end of stream reading HLIT'' r = Inr (29, r1)" "reading (bitlist 5 29 @ bitlist 4 15 @ ?c) r1"
    using d_read_field [OF rd] by auto
  obtain r2 where r2: "d_read_bits 5 ''_inflate_dynamic_block: unexpected end of stream reading HDIST'' r1 = Inr (29, r2)" "reading (bitlist 4 15 @ ?c) r2"
    using d_read_field [OF r1(2)] by auto
  obtain r3 where r3: "d_read_bits 4 ''_inflate_dynamic_block: unexpected end of stream reading HCLEN'' r2 = Inr (15, r3)" "reading ?c r3"
    using d_read_field [OF r2(2)] by auto
  obtain r4 where r4: "read_cl_lengths 19 0 (replicate 19 0) r3 = Inr (CL, r4)" "reading (concat (map (rle_bits CL) ps) @ bs) r4"
    using read_cl_lengths_ok [OF CL(2, 3), of 0 "replicate 19 0"] r3(2) by auto
  obtain r5 where r5: "read_lengths d (length (L @ D)) [] r4 = Inr (L @ D, r5)" "reading bs r5"
    using read_lengths_ok [OF d(2) CL(2, 4, 5) r4(2)] by blast
  have "inflate_dynamic_block r out = inflate_huffman_block L D r5 out"
    using r1(1) r2(1) r3(1) r4(1) r5(1) d(1) assms(1, 2) by (simp add: inflate_dynamic_block_def build_decoder_def Let_def)
  then show ?thesis using r5(2) by blast
qed

end
