(* ===== verification/Lib_Deflate_Results.thy ===== *)
theory Lib_Deflate_Results
  imports Lib_Deflate_Header
begin

text \<open>
  Compression and decompression as a whole: the block that \<open>compress\<close> writes, in either form, and what
  the two decompressors make of it.
\<close>

subsection \<open>The block\<close>

text \<open>One final block: its type, its header, the tokens and the end.\<close>

definition final_block :: "nat \<Rightarrow> bool list \<Rightarrow> nat list \<Rightarrow> nat list \<Rightarrow> lz77_token list \<Rightarrow> bool list" where
  "final_block btype hdr L D ts = bitlist 1 1 @ bitlist 2 btype @ hdr @ tokens_bits L D ts @ code_bits L 256"

text \<open>A header after which the decompressor has the two codes.\<close>

definition announces :: "nat \<Rightarrow> bool list \<Rightarrow> nat list \<Rightarrow> nat list \<Rightarrow> bool" where
  "announces btype hdr L D \<longleftrightarrow>
     btype = 1 \<and> hdr = [] \<and> L = FIXED_LITLEN_LENGTHS \<and> D = FIXED_DIST_LENGTHS \<or>
     btype = 2 \<and> length L = 286 \<and> length D = 30 \<and> (\<exists>CL ps. hdr = header_bits CL ps \<and> header_ok CL ps (L @ D))"

lemma inflate_into_final:
  assumes "announces btype hdr L D" and "reading (bitlist 1 1 @ bitlist 2 btype @ hdr @ bs) r"
  shows "\<exists>r'. inflate_into r out = inflate_huffman_block L D r' out \<and> reading bs r'"
proof -
  have bt: "btype < 2 ^ 2" using assms(1) by (auto simp: announces_def)
  have one: "(1 :: nat) \<le> 16" "(2 :: nat) \<le> 16" "(1 :: nat) < 2 ^ 1" by simp_all
  obtain r1 where r1: "d_read_bits 1 ''_inflate_into: unexpected end of stream reading BFINAL'' r = Inr (1, r1)" "reading (bitlist 2 btype @ hdr @ bs) r1"
    using d_read_field [OF assms(2) one(1, 3)] by blast
  obtain r2 where r2: "d_read_bits 2 ''_inflate_into: unexpected end of stream reading BTYPE'' r1 = Inr (btype, r2)" "reading (hdr @ bs) r2"
    using d_read_field [OF r1(2) one(2) bt] by blast
  have last: "rbind x Inr = x" for x :: "(bit_reader \<times> out_list) res"
    by (cases x) auto
  have step: "inflate_into r out = (if btype = 1 then inflate_huffman_block FIXED_LITLEN_LENGTHS FIXED_DIST_LENGTHS r2 out else inflate_dynamic_block r2 out)"
    using assms(1) r1(1) r2(1) by (subst inflate_into.simps) (auto simp: announces_def last)
  show ?thesis
  proof (cases "btype = 1")
    case True
    then show ?thesis using step assms(1) r2(2) by (auto simp: announces_def)
  next
    case False
    then obtain CL ps where h: "length L = 286" "length D = 30" "hdr = header_bits CL ps" "header_ok CL ps (L @ D)"
      using assms(1) by (auto simp: announces_def)
    show ?thesis using inflate_dynamic_header [OF h(1, 2, 4)] r2(2) False by (simp add: step h(3))
  qed
qed

text \<open>What a complete stream expands to, for every kind of output buffer.\<close>

definition inflates_to :: "u8 list \<Rightarrow> u8 list \<Rightarrow> bool" where
  "inflates_to z data \<longleftrightarrow>
     (\<forall>cap. 0 < cap \<or> data = [] \<longrightarrow> (\<exists>r out. inflate_into (br_init z) (ol_init cap) = Inr (r, out) \<and> ol_elems out = data)) \<and>
     (data \<noteq> [] \<longrightarrow> inflate_into (br_init z) (ol_init 0) = Inl MemFault)"

lemma final_block_inflates:
  assumes "announces btype hdr L D" and "block_codes L D" and "0 < L ! 256" and "length data < 2 ^ 60" and "covers data 0 ts"
    and "list_all (token_coded L D) ts" and "bytes_bits z = padded (final_block btype hdr L D ts)"
  shows "inflates_to z data"
proof -
  obtain pad where pad: "bytes_bits z = final_block btype hdr L D ts @ pad" using padded_prefix assms(7) by metis
  then have rd: "reading (bitlist 1 1 @ bitlist 2 btype @ hdr @ tokens_bits L D ts @ code_bits L 256 @ pad) (br_init z)"
    using reading_init [of z] by (simp add: final_block_def)
  have empty: "ts = [] \<longleftrightarrow> data = []" using assms(5) by (cases ts) (auto simp: is_match_def dest: covers_length)
  have "\<exists>r out. inflate_into (br_init z) (ol_init cap) = Inr (r, out) \<and> ol_elems out = data" if c: "0 < cap \<or> data = []" for cap
  proof -
    obtain r1 where r1: "inflate_into (br_init z) (ol_init cap) = inflate_huffman_block L D r1 (ol_init cap)"
      "reading (tokens_bits L D ts @ code_bits L 256 @ pad) r1" using inflate_into_final [OF assms(1) rd] by blast
    have "ol_ok (ol_init cap) \<or> ts = []" "ol_elems (ol_init cap) = []" using c empty by (auto simp: ol_ok_def ol_init_def)
    then show ?thesis using inflate_huffman_block_ok [OF assms(2-6) _ _ r1(2)] r1(1) by metis
  qed
  moreover have "inflate_into (br_init z) (ol_init 0) = Inl MemFault" if "data \<noteq> []"
    using inflate_into_final [OF assms(1) rd, of "ol_init 0"] inflate_huffman_block_fault [OF assms(2, 5) _ assms(6)] that empty by metis
  ultimately show ?thesis by (simp add: inflates_to_def)
qed

lemma fixed_coded: "token_ok t \<Longrightarrow> token_coded FIXED_LITLEN_LENGTHS FIXED_DIST_LENGTHS t"
proof (cases t)
  case (Literal b)
  have "unat b < 286" using u8_bound [of b] by simp
  then show ?thesis using fixed_pos(1) Literal by simp
next
  case (Match l d)
  assume "token_ok t"
  then have m: "3 \<le> l" "l \<le> 258" "1 \<le> d" "d \<le> 32768" using Match by simp_all
  then show ?thesis using fixed_pos(1) [OF match_symbols [OF m(1, 2)]] fixed_pos(2) [OF dists.symbol_ok(4) [OF m(3, 4)]] Match by simp
qed

text \<open>Writing the rest of a block after its header.\<close>

lemma finish_block:
  assumes "block_codes L D" and "list_all (token_coded L D) ts" and "0 < L ! 256" and "written bs w" and "length bs < 2 ^ 58" and "length ts < 2 ^ 31"
  shows "\<exists>le de w' z w''. build_encoder L ctx = Inr le \<and> build_encoder D ctx' = Inr de \<and> emit_tokens ts le de w = Inr w' \<and>
    bw_finish w' = Inr (z, w'') \<and> bytes_bits z = padded (bs @ tokens_bits L D ts @ code_bits L 256)"
proof -
  have v: "valid_lengths L" "valid_lengths D" using assms(1) by (simp_all add: block_codes_def)
  obtain le where le: "huffman_encoder_init L = Inr le" "encodes L le" using encoder_exists [OF v(1)] by blast
  obtain de where de: "huffman_encoder_init D = Inr de" "encodes D de" using encoder_exists [OF v(2)] by blast
  let ?bits = "bs @ tokens_bits L D ts @ code_bits L 256"
  have "length bs + 62 * length ts < 2 ^ 60" using assms(5, 6) by simp
  then obtain w' where w': "emit_tokens ts le de w = Inr w'" "written ?bits w'"
    using emit_tokens_ok [OF assms(1) le(2) de(2) assms(2, 3, 4)] by blast
  have "length ?bits < 2 ^ 61"
    using tokens_bits_length [OF assms(1, 2)] block_code_le(1) [OF assms(1), of 256] assms(5, 6) by (simp add: code_bits_length)
  then obtain z w'' where "bw_finish w' = Inr (z, w'')" "bytes_bits z = padded ?bits" using bw_finish_ok [OF w'(2)] by blast
  then show ?thesis using le(1) de(1) w'(1) by (simp add: build_encoder_def)
qed

lemma header_bits_length: "length CL = 19 \<Longrightarrow> list_all (\<lambda>l. l \<le> 7) CL \<Longrightarrow> \<forall>(s, x)\<in>set ps. s < 19 \<Longrightarrow>
    length (header_bits CL ps) \<le> 71 + 14 * length ps"
proof -
  assume h: "length CL = 19" "list_all (\<lambda>l. l \<le> 7) CL" "\<forall>(s, x)\<in>set ps. s < 19"
  from h(3) have "length (concat (map (rle_bits CL) ps)) \<le> 14 * length ps"
  proof (induction ps)
    case (Cons p ps)
    then show ?case using rle_bits_length [OF h(1, 2), of "fst p" "snd p"] by (cases p) auto
  qed simp
  then show ?thesis by (simp add: header_bits_def cl_bits_def CL_ORDER_def)
qed

text \<open>A block of at most four tokens has codes of at most four bits.\<close>

lemma deepest_small: "sum_list freqs \<le> 5 \<Longrightarrow> deepest freqs m \<le> 4"
proof -
  assume s: "sum_list freqs \<le> 5"
  have "length us \<le> sum_list (map ((!) freqs) us)" if "\<forall>s\<in>set us. 0 < freqs ! s" for us using that by (induction us) auto
  then have "length (used_of freqs) \<le> sum_list freqs" using used_of_props(1) [of _ freqs] used_of_props(4) [of freqs] by metis
  then show ?thesis using s by (simp add: deepest_def)
qed

lemma few_tokens:
  assumes "block_freqs ts ll dd" and "length ts \<le> 4" and "lengths_for ll (deepest ll 15) L" and "lengths_for dd (deepest dd 15) D"
  shows "list_all (\<lambda>l. l \<le> 4) (L @ D)"
  using assms(3, 4) deepest_small [of ll 15] deepest_small [of dd 15] assms(1, 2)
  by (fastforce simp: lengths_for_def block_freqs_def list_all_iff)

lemma compress_inflates:
  assumes "length data < 2 ^ 31"
  shows "compress data level = Inl (DeflateError ''_emit_dynamic_header: code-length alphabet table build failed'') \<and>
      (\<forall>ts. find_matches data level = Inr ts \<longrightarrow> 4 < length ts) \<or>
    (\<exists>z. compress data level = Inr z \<and> inflates_to z data)"
proof -
  obtain ts where ts: "find_matches data level = Inr ts" "covers data 0 ts" using find_matches_ok [OF assms] by blast
  have tok: "list_all token_ok ts"
  proof (unfold list_all_iff, rule ballI)
    fix t assume t: "t \<in> set ts"
    show "token_ok t"
    proof (cases t)
      case (Match l d)
      then show ?thesis using covers_bounds [OF ts(2), of l d] t by simp
    qed simp
  qed
  have len: "length ts < 2 ^ 31" "length data < 2 ^ 60" using covers_length [OF ts(2)] assms by simp_all
  obtain ll dd where f: "tally_frequencies ts (replicate 286 0, replicate 30 0) = Inr (ll, dd)" "block_freqs ts ll dd"
    using tally_frequencies_ok [OF tok len(1)] by blast
  obtain w1 where w1: "write_bits 1 1 bw_init = Inr w1" "written (bitlist 1 1) w1" using write_bits_ok [OF written_init, of 1 1] by auto
  obtain w2 where w2: "write_bits 2 2 w1 = Inr w2" "written (bitlist 1 1 @ bitlist 2 2) w2" using write_bits_ok [OF w1(2), of 2 2] by auto
  obtain w3 where w3: "write_bits 1 2 w1 = Inr w3" "written (bitlist 1 1 @ bitlist 2 1) w3" using write_bits_ok [OF w1(2), of 2 1] by auto
  from try_build_ok [OF f(2) len(1)] show ?thesis
  proof
    assume none: "try_build_dynamic_lengths ll dd = Inr None"
    let ?L = FIXED_LITLEN_LENGTHS and ?D = FIXED_DIST_LENGTHS
    have coded: "list_all (token_coded ?L ?D) ts" using tok fixed_coded by (auto simp: list_all_iff)
    have short: "length (bitlist 1 1 @ bitlist 2 1) < 2 ^ 58" and eob: "0 < ?L ! 256" using fixed_pos(1) [of 256] by simp_all
    obtain le de w' z w'' where e: "build_encoder ?L ''compress: fixed litlen encoder build failed'' = Inr le"
      "build_encoder ?D ''compress: fixed dist encoder build failed'' = Inr de" "emit_tokens ts le de w3 = Inr w'" "bw_finish w' = Inr (z, w'')"
      "bytes_bits z = padded ((bitlist 1 1 @ bitlist 2 1) @ tokens_bits ?L ?D ts @ code_bits ?L 256)"
      using finish_block [OF fixed_codes coded eob w3(2) short len(1)] by blast
    have "compress data level = Inr z"
      unfolding compress_def ts(1) f(1) rbind_simps prod.case w1(1) none option.case w3(1) e(1-4) ..
    moreover have "announces 1 [] ?L ?D" "bytes_bits z = padded (final_block 1 [] ?L ?D ts)" using e(5) by (simp_all add: announces_def final_block_def)
    ultimately show ?thesis using final_block_inflates [OF _ fixed_codes eob len(2) ts(2) coded] by blast
  next
    assume "\<exists>L D. try_build_dynamic_lengths ll dd = Inr (Some (L, D)) \<and> lengths_for ll (deepest ll 15) L \<and> lengths_for dd (deepest dd 15) D"
    then obtain L D where b': "try_build_dynamic_lengths ll dd = Inr (Some (L, D))" "lengths_for ll (deepest ll 15) L" "lengths_for dd (deepest dd 15) D" by blast
    then have b: "try_build_dynamic_lengths ll dd = Inr (Some (L, D))" "lengths_for ll 15 L" "lengths_for dd 15 D"
      using lengths_for_mono [OF _ deepest_le] by blast+
    have LD: "block_codes L D" "length L = 286" "length D = 30" "list_all (token_coded L D) ts" "0 < L ! 256"
      using lengths_for_block [OF f(2) b(2, 3)] by simp_all
    have le15: "list_all (\<lambda>l. l \<le> 15) (L @ D)" using b(2, 3) by (simp add: lengths_for_def)
    have short: "length (bitlist 1 1 @ bitlist 2 2) < 2 ^ 58" by simp
    from emit_dynamic_header_ok [OF LD(2, 3) le15 w2(2) short] show ?thesis
    proof
      assume fail: "emit_dynamic_header L D w2 = Inl (DeflateError ''_emit_dynamic_header: code-length alphabet table build failed'') \<and>
        \<not> list_all (\<lambda>l. l \<le> 4) (L @ D)"
      then have "4 < length ts" using few_tokens [OF f(2) _ b'(2, 3)] by fastforce
      moreover from fail have "compress data level = Inl (DeflateError ''_emit_dynamic_header: code-length alphabet table build failed'')"
        unfolding compress_def ts(1) f(1) rbind_simps prod.case w1(1) b(1) option.case w2(1) by simp
      ultimately show ?thesis using ts(1) by simp
    next
      assume "\<exists>CL ps w'. emit_dynamic_header L D w2 = Inr w' \<and> written ((bitlist 1 1 @ bitlist 2 2) @ header_bits CL ps) w' \<and>
        header_ok CL ps (L @ D) \<and> length ps \<le> 316"
      then obtain CL ps w4 where h: "emit_dynamic_header L D w2 = Inr w4" "written ((bitlist 1 1 @ bitlist 2 2) @ header_bits CL ps) w4"
        "header_ok CL ps (L @ D)" "length ps \<le> 316" by blast
      have "\<forall>(s, x)\<in>set ps. s < 19" using h(3) expands_le by (fastforce simp: header_ok_def)
      then have "length (header_bits CL ps) \<le> 71 + 14 * length ps" using h(3) by (intro header_bits_length) (simp_all add: header_ok_def)
      then have short': "length ((bitlist 1 1 @ bitlist 2 2) @ header_bits CL ps) < 2 ^ 58" using h(4) by simp
      obtain le de w' z w'' where e: "build_encoder L ''compress: dynamic litlen encoder build failed'' = Inr le"
        "build_encoder D ''compress: dynamic dist encoder build failed'' = Inr de" "emit_tokens ts le de w4 = Inr w'" "bw_finish w' = Inr (z, w'')"
        "bytes_bits z = padded (((bitlist 1 1 @ bitlist 2 2) @ header_bits CL ps) @ tokens_bits L D ts @ code_bits L 256)"
        using finish_block [OF LD(1, 4, 5) h(2) short' len(1)] by blast
      have "compress data level = Inr z"
        unfolding compress_def ts(1) f(1) rbind_simps prod.case w1(1) b(1) option.case w2(1) h(1) e(1-4) ..
      moreover have "announces 2 (header_bits CL ps) L D" using LD h(3) by (auto simp: announces_def)
      moreover have "bytes_bits z = padded (final_block 2 (header_bits CL ps) L D ts)" using e(5) by (simp add: final_block_def)
      ultimately show ?thesis using final_block_inflates [OF _ LD(1, 5) len(2) ts(2) LD(4)] by blast
    qed
  qed
qed

subsection \<open>The round trip\<close>

text \<open>
  C28.  Compressing up to two gigabytes at any level never fails with a panic or a memory fault, and what it returns
  decompresses to the same bytes, with \<open>decompress_unbounded\<close> and with \<open>decompress_exact\<close> given the right size;
  any other positive size is reported as a mismatch.  With size 0 a stream of at least one byte makes
  \<open>decompress_exact\<close> write outside the empty buffer it has allocated.  The only error of \<open>compress\<close> is that
  the alphabet of code lengths got a code of more than 7 bits, which does not happen with up to four tokens.
\<close>

theorem deflate_round_trip:
  assumes "length data < 2 ^ 31"
  shows "compress data level = Inl (DeflateError ''_emit_dynamic_header: code-length alphabet table build failed'') \<and>
      (\<forall>ts. find_matches data level = Inr ts \<longrightarrow> 4 < length ts) \<or>
    (\<exists>z. compress data level = Inr z \<and> decompress_unbounded z = Inr data \<and> decompress_exact z (length data) = Inr data \<and>
      (\<forall>n. 0 < n \<and> n \<noteq> length data \<longrightarrow>
        decompress_exact z n = Inl (DeflateError ''decompress_exact: decoded size does not match uncompressed_size'')) \<and>
      (data \<noteq> [] \<longrightarrow> decompress_exact z 0 = Inl MemFault))"
proof -
  have "decompress_unbounded z = Inr data \<and> decompress_exact z (length data) = Inr data \<and>
      (\<forall>n. 0 < n \<and> n \<noteq> length data \<longrightarrow>
        decompress_exact z n = Inl (DeflateError ''decompress_exact: decoded size does not match uncompressed_size'')) \<and>
      (data \<noteq> [] \<longrightarrow> decompress_exact z 0 = Inl MemFault)" if z: "inflates_to z data" for z
  proof (intro conjI allI impI)
    have inf: "\<exists>r out. inflate_into (br_init z) (ol_init cap) = Inr (r, out) \<and> ol_elems out = data" if "0 < cap \<or> data = []" for cap
      using z that by (auto simp: inflates_to_def)
    show "decompress_unbounded z = Inr data" using inf [of 8] by (auto simp: decompress_unbounded_def)
    show "decompress_exact z (length data) = Inr data" using inf [of "length data"] by (auto simp: decompress_exact_def)
    show "decompress_exact z n = Inl (DeflateError ''decompress_exact: decoded size does not match uncompressed_size'')"
      if "0 < n \<and> n \<noteq> length data" for n using inf [of n] that by (auto simp: decompress_exact_def)
    show "decompress_exact z 0 = Inl MemFault" if "data \<noteq> []" using z that by (simp add: decompress_exact_def inflates_to_def)
  qed
  then show ?thesis using compress_inflates [OF assms] by blast
qed

theorem deflate_round_trip_witness:
  "\<exists>z. compress [0x4D, 0x50] 6 = Inr z \<and> decompress_unbounded z = Inr [0x4D, 0x50] \<and> decompress_exact z 2 = Inr [0x4D, 0x50] \<and>
    decompress_exact z 5 = Inl (DeflateError ''decompress_exact: decoded size does not match uncompressed_size'') \<and>
    decompress_exact z 0 = Inl MemFault"
proof -
  have "find_matches [0x4D, 0x50] 6 = Inr [Literal 0x4D, Literal 0x50]" by (simp add: find_matches_def MIN_MATCH_def)
  then obtain z where "compress [0x4D, 0x50] 6 = Inr z" "decompress_unbounded z = Inr [0x4D, 0x50]" "decompress_exact z (length [0x4D, 0x50 :: u8]) = Inr [0x4D, 0x50]"
    "\<forall>n. 0 < n \<and> n \<noteq> length [0x4D, 0x50 :: u8] \<longrightarrow>
      decompress_exact z n = Inl (DeflateError ''decompress_exact: decoded size does not match uncompressed_size'')"
    "decompress_exact z 0 = Inl MemFault"
    using deflate_round_trip [of "[0x4D, 0x50]" 6] by auto
  then show ?thesis by (intro exI [of _ z]) (simp add: numeral_2_eq_2)
qed

end
