(* ===== verification/Lib_Inflate_Safe.thy ===== *)
theory Lib_Inflate_Safe
  imports Lib_Deflate_Results
begin

text \<open>
  Decompression of arbitrary bytes: every step gives a result or a \<^verbatim>\<open>DeflateError\<close>, never a panic, an access outside
  a buffer or an endless loop.  The invariant of the loops is a budget: each bit that is read can
  add at most 258 bytes to the output.
\<close>

subsection \<open>Results and returned errors\<close>

text \<open>A computation that gives a value with a property, or a returned error.\<close>

definition yields :: "('a \<Rightarrow> bool) \<Rightarrow> 'a res \<Rightarrow> bool" where
  "yields P x \<longleftrightarrow> (case x of Inl e \<Rightarrow> \<exists>m. e = DeflateError m | Inr y \<Rightarrow> P y)"

lemma yields_simps [simp]: "yields P (Inr y) \<longleftrightarrow> P y" "yields P (Inl (DeflateError m))"
  by (simp_all add: yields_def)

lemma yields_bind: "yields Q x \<Longrightarrow> (\<And>y. Q y \<Longrightarrow> yields P (f y)) \<Longrightarrow> yields P (rbind x f)"
  by (cases x) (auto simp: yields_def)

lemma yields_mono: "yields Q x \<Longrightarrow> (\<And>y. Q y \<Longrightarrow> P y) \<Longrightarrow> yields P x"
  by (cases x) (auto simp: yields_def)

lemma yields_map_err: "(\<exists>y. x = Inr y \<and> P y) \<or> (\<exists>e. x = Inl e \<and> \<not> fatal e) \<Longrightarrow> yields P (map_err (DeflateError m) x)"
  by (auto simp: yields_def)

subsection \<open>Reading\<close>

definition reads :: "bit_reader \<Rightarrow> bool" where
  "reads r \<longleftrightarrow> (\<exists>bs. reading bs r)"

lemma d_read_bits_yields:
  assumes "reads r" and "n \<le> 16"
  shows "yields (\<lambda>(v, r'). v < 2 ^ n \<and> reads r' \<and> br_left r' + n = br_left r) (d_read_bits n ctx r)"
proof -
  obtain bs where bs: "reading bs r" using assms(1) by (auto simp: reads_def)
  show ?thesis
  proof (cases "n \<le> length bs")
    case True
    obtain r' where r': "read_bits n r = Inr (bitnum (take n bs), r')" "reading (drop n bs) r'" using read_bits_ok [OF bs assms(2) True] by blast
    have "br_left r' + n = br_left r" using read_bits_left [OF r'(1) assms(2)] .
    moreover have "bitnum (take n bs) < 2 ^ n" using bitnum_bound [of "take n bs"] True by simp
    ultimately show ?thesis using r' by (auto simp: d_read_bits_def reads_def)
  next
    case False
    then show ?thesis using read_bits_eof [OF bs assms(2)] by (simp add: d_read_bits_def)
  qed
qed

text \<open>A decoder of a code: on every stream it finds a symbol with a code or reports an error.\<close>

definition decoder_of :: "nat list \<Rightarrow> huffman_decoder \<Rightarrow> bool" where
  "decoder_of L d \<longleftrightarrow> (\<forall>bs r. reading bs r \<longrightarrow> decode_result L bs (huffman_decode d r))"

lemma build_decoder_yields:
  assumes "length L < 65536"
  shows "yields (decoder_of L) (build_decoder L ctx)"
proof (cases "valid_lengths L")
  case True
  then have c: "huffman_code L" by (rule huffman_code.intro)
  obtain symbols where s: "huffman_decoder_init L = Inr \<lparr>hd_count = map (len_count L) [0..<16], hd_symbols = symbols\<rparr>" "slots_filled L symbols"
    using huffman_code.decoder_ok [OF c] by blast
  let ?d = "\<lparr>hd_count = map (len_count L) [0..<16], hd_symbols = symbols\<rparr>"
  have "huffman_decoding L symbols ?d" using c s(2) by (intro huffman_decoding.intro huffman_decoding_axioms.intro) simp_all
  then show ?thesis using huffman_decoding.decode_any s(1) by (auto simp: build_decoder_def decoder_of_def)
next
  case False
  then have "count_per_length L = Inl (HuffmanError InvalidCodeLength) \<or> count_per_length L = Inl (HuffmanError OversubscribedCode)"
    using count_per_length_ok [OF assms] assms by (simp add: valid_lengths_def)
  then show ?thesis by (auto simp: build_decoder_def huffman_decoder_init_def)
qed

lemma decode_symbol_yields:
  assumes "decoder_of L d" and "reads r"
  shows "yields (\<lambda>(s, r'). s < length L \<and> reads r' \<and> br_left r' < br_left r) (decode_symbol d ctx r)"
proof -
  obtain bs where "reading bs r" using assms(2) by (auto simp: reads_def)
  then have res: "decode_result L bs (huffman_decode d r)" using assms(1) by (simp add: decoder_of_def)
  show ?thesis
  proof (cases "huffman_decode d r")
    case (Inr p)
    obtain s r' where p: "p = (s, r')" by (cases p)
    then show ?thesis using res Inr huffman_decode_left [of d r s r'] by (auto simp: decode_result_def decode_symbol_def reads_def)
  next
    case (Inl e)
    then show ?thesis using res by (auto simp: decode_result_def decode_symbol_def)
  qed
qed

lemma read_extra_yields:
  assumes "reads r" and "n \<le> 16" and "base + 2 ^ n \<le> 2 ^ 32"
  shows "yields (\<lambda>(v, r'). v < base + 2 ^ n \<and> reads r' \<and> br_left r' \<le> br_left r) (read_extra base n ctx r)"
proof (cases "n = 0")
  case True
  then show ?thesis using assms(1) by (simp add: read_extra_def)
next
  case False
  have "yields (\<lambda>(v, r'). v < base + 2 ^ n \<and> reads r' \<and> br_left r' \<le> br_left r)
      (rbind (d_read_bits n ctx r) (\<lambda>(ev, r). Inr (wrap32 (base + ev), r)))"
    using assms(3) by (intro yields_bind [OF d_read_bits_yields [OF assms(1, 2)]]) auto
  then show ?thesis using False by (simp add: read_extra_def)
qed

subsection \<open>The output\<close>

lemma copy_loop_any:
  "start < length (ol_elems out) - i \<Longrightarrow> ol_ok out \<Longrightarrow> length (ol_elems out) + (len - i) < 2 ^ 62 \<Longrightarrow> i \<le> len \<Longrightarrow> i \<le> length (ol_elems out) \<Longrightarrow>
    \<exists>out'. copy_loop start len i out = Inr out' \<and> ol_ok out' \<and> length (ol_elems out') = length (ol_elems out) + (len - i)"
proof (induction "len - i" arbitrary: i out)
  case 0
  then show ?case by (subst copy_loop.simps) simp
next
  case (Suc k)
  have i: "i < len" "start + i < length (ol_elems out)" "length (ol_elems out) < 2 ^ 62" using Suc.hyps(2) Suc.prems by simp_all
  obtain out1 where o: "ol_append (ol_elems out ! (start + i)) out = Inr out1" "ol_ok out1" "ol_elems out1 = ol_elems out @ [ol_elems out ! (start + i)]"
    using ol_append_ok [OF Suc.prems(2) i(3)] by blast
  have "\<exists>out'. copy_loop start len (i + 1) out1 = Inr out' \<and> ol_ok out' \<and> length (ol_elems out') = length (ol_elems out1) + (len - (i + 1))"
    using Suc.hyps(2) Suc.prems o(2, 3) i by (intro Suc.hyps(1)) auto
  moreover have "copy_loop start len i out = copy_loop start len (i + 1) out1"
    using i o(1) by (subst copy_loop.simps) (simp add: fits_def usize_lim_def)
  moreover have "length (ol_elems out1) + (len - (i + 1)) = length (ol_elems out) + (len - i)" using o(3) i(1) by simp
  ultimately show ?case by simp
qed

lemma copy_match_yields:
  assumes "ol_ok out" and "length (ol_elems out) + len < 2 ^ 62"
  shows "yields (\<lambda>out'. ol_ok out' \<and> length (ol_elems out') = length (ol_elems out) + len) (do_copy_match d len ctx out)"
proof (cases "d = 0 \<or> d > length (ol_elems out)")
  case True
  then show ?thesis by (simp add: do_copy_match_def copy_match_def Let_def)
next
  case False
  have "copy_match d len out = copy_loop (length (ol_elems out) - d) len 0 out"
    using False by (simp add: copy_match_def Let_def sub_panic_def)
  moreover have lt: "length (ol_elems out) - d < length (ol_elems out) - 0" using False by auto
  obtain out' where "copy_loop (length (ol_elems out) - d) len 0 out = Inr out'" "ol_ok out'" "length (ol_elems out') = length (ol_elems out) + len"
    using copy_loop_any [OF lt assms(1)] assms(2) by auto
  ultimately show ?thesis by (simp add: do_copy_match_def)
qed

lemma append_yields:
  assumes "ol_ok out" and "length (ol_elems out) < 2 ^ 62"
  shows "yields (\<lambda>out'. ol_ok out' \<and> length (ol_elems out') = length (ol_elems out) + 1) (ol_append b out)"
  using ol_append_ok [OF assms, of b] by auto

text \<open>The budget: every bit left can add 258 bytes.\<close>

definition fine :: "nat \<Rightarrow> bit_reader \<Rightarrow> out_list \<Rightarrow> bool" where
  "fine K r out \<longleftrightarrow> reads r \<and> ol_ok out \<and> length (ol_elems out) + 258 * br_left r \<le> K \<and> K < 2 ^ 60"

subsection \<open>Blocks\<close>

lemma match_lengths: "i < length LENGTH_BASE \<Longrightarrow> LENGTH_BASE ! i + 2 ^ (LENGTH_EXTRA ! i) \<le> 259 \<and> LENGTH_EXTRA ! i \<le> 16"
  "i < length DIST_BASE \<Longrightarrow> DIST_BASE ! i + 2 ^ (DIST_EXTRA ! i) \<le> 2 ^ 32 \<and> DIST_EXTRA ! i \<le> 16"
proof -
  have "list_all (\<lambda>i. LENGTH_BASE ! i + 2 ^ (LENGTH_EXTRA ! i) \<le> 259 \<and> LENGTH_EXTRA ! i \<le> 16) [0..<29]"
    "list_all (\<lambda>i. DIST_BASE ! i + 2 ^ (DIST_EXTRA ! i) \<le> 2 ^ 32 \<and> DIST_EXTRA ! i \<le> 16) [0..<30]"
    by (simp_all add: table_data upt_rec)
  then show "i < length LENGTH_BASE \<Longrightarrow> LENGTH_BASE ! i + 2 ^ (LENGTH_EXTRA ! i) \<le> 259 \<and> LENGTH_EXTRA ! i \<le> 16"
    "i < length DIST_BASE \<Longrightarrow> DIST_BASE ! i + 2 ^ (DIST_EXTRA ! i) \<le> 2 ^ 32 \<and> DIST_EXTRA ! i \<le> 16"
    by (simp_all add: list_all_iff)
qed

lemma inflate_match_yields:
  assumes "decoder_of D dd" and "reads r" and "ol_ok out" and "length (ol_elems out) + 258 < 2 ^ 62" and "257 \<le> sy"
  shows "yields (\<lambda>(r', out'). reads r' \<and> ol_ok out' \<and> br_left r' < br_left r \<and> length (ol_elems out') \<le> length (ol_elems out) + 258)
    (inflate_match dd sy r out)"
proof (cases "sy - 257 \<ge> length LENGTH_BASE")
  case True
  then show ?thesis using assms(5) by (simp add: inflate_match_def sub_panic_def)
next
  case False
  let ?i = "sy - 257"
  let ?P = "\<lambda>(r', out'). reads r' \<and> ol_ok out' \<and> br_left r' < br_left r \<and> length (ol_elems out') \<le> length (ol_elems out) + 258"
  have i: "?i < length LENGTH_BASE" "LENGTH_BASE ! ?i + 2 ^ (LENGTH_EXTRA ! ?i) \<le> 259" "LENGTH_EXTRA ! ?i \<le> 16"
    using False match_lengths(1) [of ?i] by auto
  have dist: "yields ?P (rbind (read_extra (DIST_BASE ! di) (DIST_EXTRA ! di) ''_inflate_huffman_block: unexpected end of stream reading distance extra bits'' r2)
      (\<lambda>(distance, r). rbind (do_copy_match distance len ''_inflate_huffman_block: invalid match (bad distance)'' out) (\<lambda>out. Inr (r, out))))"
    if h: "di < length DIST_BASE" "reads r2" "br_left r2 < br_left r" "len \<le> 258" for di r2 len
  proof -
    have "yields ?P (rbind (do_copy_match distance len ''_inflate_huffman_block: invalid match (bad distance)'' out) (\<lambda>out. Inr (r3, out)))"
      if "reads r3" "br_left r3 \<le> br_left r2" for r3 distance
      using copy_match_yields [OF assms(3), of len distance] assms(4) h that by (intro yields_bind [OF copy_match_yields [OF assms(3)]]) auto
    then show ?thesis using match_lengths(2) [OF h(1)] h(2) by (intro yields_bind [OF read_extra_yields]) auto
  qed
  have body: "inflate_match dd sy r out = rbind (read_extra (LENGTH_BASE ! ?i) (LENGTH_EXTRA ! ?i) ''_inflate_huffman_block: unexpected end of stream reading length extra bits'' r) (\<lambda>(len, r).
       rbind (decode_symbol dd ''_inflate_huffman_block: failed to decode distance symbol'' r) (\<lambda>(didx, r).
       if didx \<ge> length DIST_BASE then Inl (DeflateError ''_inflate_huffman_block: distance symbol out of range'')
       else rbind (read_extra (DIST_BASE ! didx) (DIST_EXTRA ! didx) ''_inflate_huffman_block: unexpected end of stream reading distance extra bits'' r)
          (\<lambda>(distance, r). rbind (do_copy_match distance len ''_inflate_huffman_block: invalid match (bad distance)'' out) (\<lambda>out. Inr (r, out)))))"
    using i(1) assms(5) by (auto simp: inflate_match_def sub_panic_def intro!: rbind_cong)
  show ?thesis unfolding body
  proof (rule yields_bind [OF read_extra_yields [OF assms(2) i(3)]], goal_cases)
    case (2 p)
    obtain len r1 where p: "p = (len, r1)" by (cases p)
    have r1: "len \<le> 258" "reads r1" "br_left r1 \<le> br_left r" using 2 i(2) p by auto
    show ?case unfolding p prod.case
    proof (rule yields_bind [OF decode_symbol_yields [OF assms(1) r1(2)]], goal_cases)
      case (1 q)
      then show ?case using dist r1 by (cases q) auto
    qed
  qed (use i(2) in simp)
qed

lemma inflate_loop_yields:
  assumes "decoder_of L ld" and "decoder_of D dd"
  shows "fine K r out \<Longrightarrow> yields (\<lambda>(r', out'). fine K r' out' \<and> br_left r' < br_left r) (inflate_loop ld dd r out)"
proof (induction "br_left r" arbitrary: r out rule: less_induct)
  case less
  let ?P = "\<lambda>(r', out'). fine K r' out' \<and> br_left r' < br_left r"
  have f: "reads r" "ol_ok out" "length (ol_elems out) + 258 * br_left r \<le> K" "K < 2 ^ 60" using less.prems by (simp_all add: fine_def)
  have again: "yields ?P (inflate_loop ld dd r2 out2)"
    if "reads r2" "ol_ok out2" "br_left r2 < br_left r" "length (ol_elems out2) \<le> length (ol_elems out) + 258" for r2 out2
  proof -
    have "fine K r2 out2" using that f by (simp add: fine_def)
    then show ?thesis by (rule yields_mono [OF less.hyps [OF that(3)]]) (use that(3) in auto)
  qed
  show ?case
  proof (subst inflate_loop.simps, rule yields_bind [OF decode_symbol_yields [OF assms(1) f(1)]], goal_cases)
    case (1 p)
    obtain sy r1 where p: "p = (sy, r1)" by (cases p)
    have r1: "reads r1" "br_left r1 < br_left r" using 1 p by simp_all
    have short: "length (ol_elems out) < 2 ^ 62" "length (ol_elems out) + 258 < 2 ^ 62" using f(3, 4) by simp_all
    consider "sy < 256" | "sy = 256" | "sy > 256" by linarith
    then show ?case unfolding p prod.case
    proof cases
      case a: 1
      have "yields ?P (rbind (ol_append (of_nat sy) out) (inflate_loop ld dd r1))"
        by (rule yields_bind [OF append_yields [OF f(2) short(1)]]) (use again r1 in simp)
      then show "yields ?P (if sy < 256 then rbind (ol_append (of_nat sy) out) (\<lambda>out. inflate_loop ld dd r1 out)
        else if sy = 256 then Inr (r1, out) else rbind (inflate_match dd sy r1 out) (\<lambda>(r, out). inflate_loop ld dd r out))" using a by simp
    next
      case 2
      then show "yields ?P (if sy < 256 then rbind (ol_append (of_nat sy) out) (\<lambda>out. inflate_loop ld dd r1 out)
        else if sy = 256 then Inr (r1, out) else rbind (inflate_match dd sy r1 out) (\<lambda>(r, out). inflate_loop ld dd r out))" using r1 f by (simp add: fine_def)
    next
      case 3
      have "yields ?P (rbind (inflate_match dd sy r1 out) (\<lambda>(r, out). inflate_loop ld dd r out))"
        by (rule yields_bind [OF inflate_match_yields [OF assms(2) r1(1) f(2) short(2)]]) (use again r1 3 in auto)
      then show "yields ?P (if sy < 256 then rbind (ol_append (of_nat sy) out) (\<lambda>out. inflate_loop ld dd r1 out)
        else if sy = 256 then Inr (r1, out) else rbind (inflate_match dd sy r1 out) (\<lambda>(r, out). inflate_loop ld dd r out))" using 3 by simp
    qed
  qed
qed

lemma inflate_huffman_block_yields:
  assumes "length L < 65536" and "length D < 65536" and "fine K r out"
  shows "yields (\<lambda>(r', out'). fine K r' out') (inflate_huffman_block L D r out)"
  unfolding inflate_huffman_block_def
  by (intro yields_bind [OF build_decoder_yields] assms(1, 2)) (auto intro: yields_mono [OF inflate_loop_yields [OF _ _ assms(3)]])

lemma stored_loop_yields: "fine K r out \<Longrightarrow> yields (\<lambda>(r', out'). fine K r' out') (stored_loop n r out)"
proof (induction n arbitrary: r out)
  case (Suc n)
  then have f: "reads r" "ol_ok out" "length (ol_elems out) + 258 * br_left r \<le> K" "K < 2 ^ 60" by (simp_all add: fine_def)
  have short: "length (ol_elems out) < 2 ^ 62" using f(3, 4) by simp
  show ?case
    unfolding stored_loop.simps
  proof (rule yields_bind [OF d_read_bits_yields [OF f(1)]], simp, goal_cases)
    case (1 p)
    obtain b r1 where p: "p = (b, r1)" by (cases p)
    have r1: "b < 256" "reads r1" "br_left r1 < br_left r" using 1 p by simp_all
    have "yields (\<lambda>(r', out'). fine K r' out') (rbind (ol_append (of_nat b) out) (stored_loop n r1))"
      by (rule yields_bind [OF append_yields [OF f(2) short]]) (use Suc.IH r1 f in \<open>auto simp: fine_def\<close>)
    then show ?case using p r1(1) by simp
  qed
qed simp

lemma inflate_stored_yields: "fine K r out \<Longrightarrow> yields (\<lambda>(r', out'). fine K r' out') (inflate_stored r out)"
proof -
  assume f: "fine K r out"
  then obtain bs where "reading bs r" by (auto simp: fine_def reads_def)
  then have al: "reads (br_align_to_byte r)" using br_align_ok by (auto simp: reads_def)
  have fine': "fine K r' out" if "reads r'" "br_left r' \<le> br_left r" for r' using f that by (simp add: fine_def)
  show ?thesis unfolding inflate_stored_def
    by (intro yields_bind [OF d_read_bits_yields [OF al]])
      (use align_left [of r] in \<open>auto intro!: yields_bind [OF d_read_bits_yields] stored_loop_yields fine'\<close>)
qed

subsection \<open>Dynamic blocks\<close>

lemma read_cl_lengths_yields:
  assumes "h \<le> 19"
  shows "reads r \<Longrightarrow> length cl = 19 \<Longrightarrow> yields (\<lambda>(cl', r'). length cl' = 19 \<and> reads r' \<and> br_left r' \<le> br_left r) (read_cl_lengths h ci cl r)"
proof (induction "h - ci" arbitrary: ci cl r)
  case 0
  then show ?case by (subst read_cl_lengths.simps) simp
next
  case (Suc k)
  have ci: "ci < h" "ci < length CL_ORDER" "CL_ORDER ! ci < 19"
  proof -
    show "ci < h" using Suc.hyps(2) by simp
    then show lt: "ci < length CL_ORDER" using assms by (simp add: CL_ORDER_def)
    have "list_all (\<lambda>s. s < 19) CL_ORDER" by (simp add: CL_ORDER_def)
    then show "CL_ORDER ! ci < 19" using lt by (simp add: list_all_length)
  qed
  have "yields (\<lambda>(cl', r'). length cl' = 19 \<and> reads r' \<and> br_left r' \<le> br_left r)
      (rbind (d_read_bits 3 ''_inflate_dynamic_block: unexpected end of stream reading a CL length'' r)
        (\<lambda>(v3, r). read_cl_lengths h (ci + 1) (cl[CL_ORDER ! ci := v3 mod 256]) r))"
  proof (rule yields_bind [OF d_read_bits_yields [OF Suc.prems(1)]], simp, goal_cases)
    case (1 p)
    obtain v r1 where p: "p = (v, r1)" by (cases p)
    have "yields (\<lambda>(cl', r'). length cl' = 19 \<and> reads r' \<and> br_left r' \<le> br_left r1) (read_cl_lengths h (ci + 1) (cl[CL_ORDER ! ci := v mod 256]) r1)"
      using Suc.hyps(2) Suc.prems 1 p by (intro Suc.hyps(1)) auto
    then show ?case unfolding p prod.case using 1 p by (auto elim!: yields_mono)
  qed
  then show ?case using ci Suc.prems(2) by (subst read_cl_lengths.simps) (auto cong: rbind_cong)
qed

lemma read_lengths_yields:
  assumes "decoder_of CL d"
  shows "reads r \<Longrightarrow> yields (\<lambda>(cs', r'). reads r' \<and> br_left r' \<le> br_left r) (read_lengths d n cs r)"
proof (induction "br_left r" arbitrary: r cs rule: less_induct)
  case less
  let ?P = "\<lambda>(cs' :: nat list, r'). reads r' \<and> br_left r' \<le> br_left r"
  have again: "yields ?P (read_lengths d n cs2 r2)" if "reads r2" "br_left r2 < br_left r" for r2 cs2
    using less.hyps [OF that(2, 1), of cs2] that(2) by (auto elim!: yields_mono)
  have extra: "yields ?P (rbind (d_read_bits k ctx r1) (\<lambda>(x, r). read_lengths d n (g x) r))" if "reads r1" "br_left r1 < br_left r" "k \<le> 16" for k ctx r1 g
    by (rule yields_bind [OF d_read_bits_yields [OF that(1, 3)]]) (use again that in auto)
  show ?case
  proof (cases "length cs < n")
    case True
    show ?thesis
    proof (subst read_lengths.simps, simp only: True if_True, rule yields_bind [OF decode_symbol_yields [OF assms less.prems]], goal_cases)
      case (1 p)
      obtain cs r1 where p: "p = (cs, r1)" by (cases p)
      have r1: "reads r1" "br_left r1 < br_left r" using 1 p by simp_all
      have small: "(2 :: nat) \<le> 16" "(3 :: nat) \<le> 16" "(7 :: nat) \<le> 16" by simp_all
      show ?case unfolding p prod.case
        using again [OF r1] extra [OF r1 small(1)] extra [OF r1 small(2)] extra [OF r1 small(3)] by simp
    qed
  next
    case False
    then show ?thesis using less.prems by (subst read_lengths.simps) simp
  qed
qed

lemma inflate_dynamic_block_yields:
  assumes "fine K r out"
  shows "yields (\<lambda>(r', out'). fine K r' out') (inflate_dynamic_block r out)"
proof -
  have r: "reads r" using assms by (simp add: fine_def)
  have fine': "fine K r' out" if "reads r'" "br_left r' \<le> br_left r" for r' using assms that by (simp add: fine_def)
  show ?thesis
    unfolding inflate_dynamic_block_def Let_def
  proof (rule yields_bind [OF d_read_bits_yields [OF r]], simp, goal_cases)
    case (1 p)
    obtain hl r1 where p: "p = (hl, r1)" by (cases p)
    have r1: "hl < 32" "reads r1" "br_left r1 \<le> br_left r" using 1 p by simp_all
    show ?case unfolding p prod.case
    proof (rule yields_bind [OF d_read_bits_yields [OF r1(2)]], simp, goal_cases)
      case (1 p)
      obtain hd r2 where p: "p = (hd, r2)" by (cases p)
      have r2: "hd < 32" "reads r2" "br_left r2 \<le> br_left r" using 1 p r1 by simp_all
      show ?case unfolding p prod.case
      proof (rule yields_bind [OF d_read_bits_yields [OF r2(2)]], simp, goal_cases)
        case (1 p)
        obtain hc r3 where p: "p = (hc, r3)" by (cases p)
        have r3: "hc < 16" "reads r3" "br_left r3 \<le> br_left r" using 1 p r2 by simp_all
        then have hc: "wrap64 (hc + 4) \<le> 19" by simp
        have len: "wrap64 (hl + 257) < 65536" "wrap64 (hd + 1) < 65536" using r1 r2 by simp_all
        show ?case unfolding p prod.case
        proof (rule yields_bind [OF read_cl_lengths_yields [OF hc r3(2)]], simp, goal_cases)
          case (1 p)
          obtain cl r4 where p: "p = (cl, r4)" by (cases p)
          have r4: "length cl < 65536" "reads r4" "br_left r4 \<le> br_left r" using 1 p r3 by simp_all
          show ?case unfolding p prod.case
          proof (rule yields_bind [OF build_decoder_yields [OF r4(1)]], goal_cases)
            case (1 d)
            show ?case
              by (rule yields_bind [OF read_lengths_yields [OF 1 r4(2)]])
                (use r4(3) len in \<open>auto intro!: inflate_huffman_block_yields fine'\<close>)
          qed
        qed
      qed
    qed
  qed
qed

subsection \<open>Streams\<close>

lemma inflate_into_yields: "fine K r out \<Longrightarrow> yields (\<lambda>(r', out'). fine K r' out') (inflate_into r out)"
proof (induction "br_left r" arbitrary: r out rule: less_induct)
  case less
  let ?P = "\<lambda>(r', out'). fine K r' out'"
  have r: "reads r" using less.prems by (simp add: fine_def)
  have fine': "fine K r' out" if "reads r'" "br_left r' \<le> br_left r" for r' using less.prems that by (simp add: fine_def)
  show ?case
  proof (subst inflate_into.simps, rule yields_bind [OF d_read_bits_yields [OF r]], simp, goal_cases)
    case (1 p)
    obtain bf r1 where p: "p = (bf, r1)" by (cases p)
    have r1: "reads r1" "br_left r1 < br_left r" using 1 p by simp_all
    show ?case unfolding p prod.case
    proof (rule yields_bind [OF d_read_bits_yields [OF r1(1)]], simp, goal_cases)
      case (1 p)
      obtain bt r2 where p: "p = (bt, r2)" by (cases p)
      have r2: "fine K r2 out" "br_left r2 < br_left r" using 1 p r1 fine' by simp_all
      let ?block = "if bt = 0 then inflate_stored r2 out
            else if bt = 1 then inflate_huffman_block FIXED_LITLEN_LENGTHS FIXED_DIST_LENGTHS r2 out
            else if bt = 2 then inflate_dynamic_block r2 out
            else Inl (DeflateError ''_inflate_into: invalid BTYPE 3 (reserved)'')"
      have fixed: "length FIXED_LITLEN_LENGTHS < 65536" "length FIXED_DIST_LENGTHS < 65536"
        by (simp_all add: FIXED_LITLEN_LENGTHS_def FIXED_DIST_LENGTHS_def)
      have "yields ?P ?block"
        using inflate_stored_yields inflate_huffman_block_yields [OF fixed] inflate_dynamic_block_yields r2(1) by simp
      moreover have "br_left r3 \<le> br_left r2" if "?block = Inr (r3, out3)" for r3 out3
        using that by (auto split: if_splits dest: inflate_stored_left inflate_huffman_block_left inflate_dynamic_block_left)
      ultimately have block: "yields (\<lambda>(r3, out3). fine K r3 out3 \<and> br_left r3 < br_left r) ?block"
        using r2(2) by (cases ?block) (fastforce simp: yields_def)+
      show ?case unfolding p prod.case
        by (rule yields_bind [OF block]) (use less.hyps in auto)
    qed
  qed
qed

lemma inflate_arbitrary:
  assumes "length z < 2 ^ 48" and "0 < cap"
  shows "yields (\<lambda>(r, out). length (ol_elems out) \<le> 2064 * length z) (inflate_into (br_init z) (ol_init cap))"
proof -
  have "br_left (br_init z) = 8 * length z" by (simp add: br_left_def br_init_def)
  then have "fine (2064 * length z) (br_init z) (ol_init cap)"
    using reading_init [of z] assms by (auto simp: fine_def reads_def ol_ok_def ol_init_def)
  then show ?thesis by (rule yields_mono [OF inflate_into_yields]) (auto simp: fine_def)
qed

text \<open>
  C29.  Decompressing arbitrary bytes returns: with the output, or with a \<^verbatim>\<open>DeflateError\<close>.  For inputs of less than
  \<open>2 ^ 48\<close> bytes, no checked operation of \<open>decompress_unbounded\<close> or of \<open>decompress_exact\<close> with a size of at least 1
  panics, no access leaves a buffer and no loop goes on forever; the output of \<open>decompress_unbounded\<close> has at most 258
  bytes for each bit of the input, and what \<open>decompress_exact\<close> returns has the size that was asked for.  The size 0 is
  excluded: there \<open>decompress_exact\<close> writes outside its buffer.
\<close>

theorem inflate_safe:
  assumes "length z < 2 ^ 48" and "0 < n"
  shows "((\<exists>out. decompress_unbounded z = Inr out \<and> length out \<le> 258 * 8 * length z) \<or> (\<exists>msg. decompress_unbounded z = Inl (DeflateError msg))) \<and>
    ((\<exists>out. decompress_exact z n = Inr out \<and> length out = n) \<or> (\<exists>msg. decompress_exact z n = Inl (DeflateError msg)))"
proof -
  have eight: "(0 :: nat) < 8" by simp
  show ?thesis using inflate_arbitrary [OF assms] inflate_arbitrary [OF assms(1) eight]
    by (auto simp: decompress_unbounded_def decompress_exact_def yields_def split: sum.splits prod.splits)
qed

theorem inflate_safe_witness:
  "((\<exists>out. decompress_unbounded [0x05, 0xFF] = Inr out \<and> length out \<le> 258 * 8 * length [0x05, 0xFF :: u8]) \<or> (\<exists>msg. decompress_unbounded [0x05, 0xFF] = Inl (DeflateError msg))) \<and>
    ((\<exists>out. decompress_exact [0x05, 0xFF] 3 = Inr out \<and> length out = 3) \<or> (\<exists>msg. decompress_exact [0x05, 0xFF] 3 = Inl (DeflateError msg)))"
  by (rule inflate_safe) simp_all

end
