(* ===== verification/Lib_Mem.thy ===== *)
theory Lib_Mem
  imports Lib_Bytes
begin

text \<open>
  Raw memory as \<^verbatim>\<open>sys.alloc\<close> hands it out (\<^verbatim>\<open>src/lib/sys.py\<close>): a slot that has not been written
  is \<open>None\<close>.  Reading such a slot, and reading or writing outside the block, is a \<open>MemFault\<close>.  The
  values in the slots are natural numbers; the operations that write a slot check or wrap the width.
\<close>

type_synonym mem = "nat option list"

definition sys_alloc :: "nat \<Rightarrow> mem" where
  "sys_alloc n = replicate n None"

definition load :: "nat \<Rightarrow> mem \<Rightarrow> nat res" where
  "load i m = (if i < length m then (case m ! i of None \<Rightarrow> Inl MemFault | Some v \<Rightarrow> Inr v) else Inl MemFault)"

definition store :: "nat \<Rightarrow> nat \<Rightarrow> mem \<Rightarrow> mem res" where
  "store i v m = (if i < length m then Inr (m[i := Some v]) else Inl MemFault)"

definition sys_memcpy :: "nat \<Rightarrow> mem \<Rightarrow> nat \<Rightarrow> mem \<Rightarrow> nat \<Rightarrow> mem res" where
  "sys_memcpy d dst s src n =
     (if d + n \<le> length dst \<and> s + n \<le> length src
      then Inr (take d dst @ take n (drop s src) @ drop (d + n) dst) else Inl MemFault)"

definition sys_memcmp :: "nat \<Rightarrow> mem \<Rightarrow> mem \<Rightarrow> nat \<Rightarrow> bool res" where
  "sys_memcmp a x y n =
     (if a + n \<le> length x \<and> n \<le> length y \<and> None \<notin> set (take n (drop a x)) \<and> None \<notin> set (take n y)
      then Inr (take n (drop a x) = take n y) else Inl MemFault)"

lemma sys_alloc_length [simp]: "length (sys_alloc n) = n"
  by (simp add: sys_alloc_def)

lemma alloc_Suc: "sys_alloc (Suc n) = None # sys_alloc n" "sys_alloc 0 = []"
  by (simp_all add: sys_alloc_def)

lemma store_length: "store i v m = Inr m' \<Longrightarrow> length m' = length m \<and> i < length m"
  by (auto simp: store_def split: if_splits)

lemma load_bound: "load i m = Inr v \<Longrightarrow> i < length m"
  by (auto simp: load_def split: if_splits)

lemma load_Some [simp]: "i < length m \<Longrightarrow> m ! i = Some v \<Longrightarrow> load i m = Inr v"
  by (simp add: load_def)

lemma load_map_Some [simp]: "i < length xs \<Longrightarrow> load i (map Some xs) = Inr (xs ! i)"
  by (simp add: load_def)

lemma load_update [simp]: "i < length m \<Longrightarrow> load i (m[i := Some v]) = Inr v"
  "i \<noteq> j \<Longrightarrow> load i (m[j := x]) = load i m"
  by (simp_all add: load_def)

lemma store_ok [simp]: "i < length m \<Longrightarrow> store i v m = Inr (m[i := Some v])"
  by (simp add: store_def)

lemma store_Cons: "store 0 v (x # xs) = Inr (Some v # xs)" "store 1 v (x # xs) = rbind (store 0 v xs) (\<lambda>ys. Inr (x # ys))"
  "store (numeral k) v (x # xs) = rbind (store (pred_numeral k) v xs) (\<lambda>ys. Inr (x # ys))"
  "store (Suc n) v (x # xs) = rbind (store n v xs) (\<lambda>ys. Inr (x # ys))"
  by (simp_all add: store_def numeral_eq_Suc)

lemma memcpy_ok [simp]: "d + n \<le> length dst \<Longrightarrow> s + n \<le> length src \<Longrightarrow>
    sys_memcpy d dst s src n = Inr (take d dst @ take n (drop s src) @ drop (d + n) dst)"
  by (simp add: sys_memcpy_def)

text \<open>Storing one byte after another into the rest of a block.\<close>

lemma update_after_prefix: "(map Some xs @ y # ys)[length xs := z] = map Some xs @ z # ys"
  by (simp add: list_update_append)

lemma store_next: "store (length xs) v (map Some xs @ sys_alloc (Suc n)) = Inr (map Some (xs @ [v]) @ sys_alloc n)"
  by (simp add: store_def sys_alloc_def list_update_append)

lemma memcpy_next: "sys_memcpy (length xs) (map Some xs @ sys_alloc (length ys + n)) s (map Some as @ map Some ys @ bs) (length ys)
    = Inr (map Some (xs @ ys) @ sys_alloc n)" if "s = length as"
  using that by (simp add: sys_alloc_def)

end
