(* ===== verification/Lib_Str.thy ===== *)
theory Lib_Str
  imports Lib_Mem
begin

unbundle bit_operations_syntax

text \<open>
  \<^verbatim>\<open>str\<close> of \<^verbatim>\<open>src/lib/builtins/__init__.py\<close>, the UTF-8 helpers of \<^verbatim>\<open>src/lib/builtins/__str.py\<close> and
  the codecs \<^verbatim>\<open>utf8\<close> and \<^verbatim>\<open>utf16\<close> of \<^verbatim>\<open>src/lib/codecs\<close>.  A string owns a zero-terminated block of
  bytes, its size, its number of code points and an index with the byte offset of every 256th code
  point.  The lazily filled UTF-16 cache of a string is not modelled.
\<close>

record mstr =
  s_data :: mem
  s_byte_size :: nat
  s_char_count :: nat
  s_index :: mem

text \<open>The object the compiler emits for a literal of ASCII characters.\<close>

definition literal :: "string \<Rightarrow> mstr" where
  "literal t = \<lparr>s_data = map (\<lambda>c. Some (of_char c)) t @ [Some 0], s_byte_size = length t + 1, s_char_count = length t,
     s_index = map (\<lambda>g. if g * 256 < length t then Some (g * 256) else None) [0..<(length t + 1) div 256 + 1]\<rparr>"

subsection \<open>Building a string: the validation of \<^verbatim>\<open>_from_owned_cstr\<close>\<close>

abbreviation scan_msg :: string where "scan_msg \<equiv> ''bounded by text_len, cannot overflow ''"

definition utf8_error :: "string \<Rightarrow> 'a res" where
  "utf8_error m = Inl (CodecError ''utf-8'' m)"

definition is_cont :: "nat \<Rightarrow> bool" where
  "is_cont b = (b AND 0xC0 = 0x80)"

text \<open>One round of the scan: the length of the sequence that starts at \<open>i\<close>.\<close>

definition seq2 :: "mem \<Rightarrow> nat \<Rightarrow> nat \<Rightarrow> nat \<Rightarrow> nat res" where
  "seq2 ptr text_len i byte1 =
     rbind (fits scan_msg (i + 1)) (\<lambda>i1.
     if i1 \<ge> text_len then utf8_error ''Truncated 2-byte sequence''
     else if byte1 < 0xC2 then utf8_error ''Overlong 2-byte encoding''
     else rbind (load i1 ptr) (\<lambda>byte2.
     if \<not> is_cont byte2 then utf8_error ''Invalid continuation byte in 2-byte sequence''
     else Inr 2))"

definition seq3 :: "mem \<Rightarrow> nat \<Rightarrow> nat \<Rightarrow> nat \<Rightarrow> nat res" where
  "seq3 ptr text_len i byte1 =
     rbind (fits scan_msg (i + 2)) (\<lambda>i2.
     if i2 \<ge> text_len then utf8_error ''Truncated 3-byte sequence''
     else rbind (load (i + 1) ptr) (\<lambda>byte2.
     rbind (load i2 ptr) (\<lambda>byte3.
     if byte1 = 0xE0 \<and> byte2 < 0xA0 then utf8_error ''Overlong 3-byte encoding''
     else if \<not> is_cont byte2 \<or> \<not> is_cont byte3 then utf8_error ''Invalid continuation byte in 3-byte sequence''
     else if byte1 = 0xED \<and> byte2 \<ge> 0xA0 then utf8_error ''UTF-16 surrogate half''
     else Inr 3)))"

definition seq4 :: "mem \<Rightarrow> nat \<Rightarrow> nat \<Rightarrow> nat \<Rightarrow> nat res" where
  "seq4 ptr text_len i byte1 =
     rbind (fits scan_msg (i + 3)) (\<lambda>i3.
     if i3 \<ge> text_len then utf8_error ''Truncated 4-byte sequence''
     else rbind (load (i + 1) ptr) (\<lambda>byte2.
     rbind (load (i + 2) ptr) (\<lambda>byte3.
     rbind (load i3 ptr) (\<lambda>byte4.
     if byte1 = 0xF0 \<and> byte2 < 0x90 then utf8_error ''Overlong 4-byte encoding''
     else if \<not> is_cont byte2 \<or> \<not> is_cont byte3 \<or> \<not> is_cont byte4
       then utf8_error ''Invalid continuation byte in 4-byte sequence''
     else if byte1 = 0xF4 \<and> byte2 \<ge> 0x90
       then utf8_error ''Code point exceeds maximum valid Unicode (U+10FFFF)''
     else if byte1 > 0xF4
       then utf8_error ''Code point exceeds maximum valid Unicode (sequence prefix > 0xF4)''
     else Inr 4))))"

definition utf8_seq :: "mem \<Rightarrow> nat \<Rightarrow> nat \<Rightarrow> nat res" where
  "utf8_seq ptr text_len i =
     rbind (load i ptr) (\<lambda>byte1.
     if byte1 AND 0x80 = 0 then Inr 1
     else if byte1 AND 0xC0 = 0x80 then utf8_error ''Unexpected continuation byte as leading byte''
     else if byte1 AND 0xE0 = 0xC0 then seq2 ptr text_len i byte1
     else if byte1 AND 0xF0 = 0xE0 then seq3 ptr text_len i byte1
     else if byte1 AND 0xF8 = 0xF0 then seq4 ptr text_len i byte1
     else utf8_error ''Invalid leading byte'')"

lemma utf8_seq_range: "utf8_seq ptr text_len i = Inr n \<Longrightarrow> 1 \<le> n \<and> n \<le> 4"
  by (auto simp: utf8_seq_def seq2_def seq3_def seq4_def utf8_error_def rbind_Inr split: if_splits)

function scan_utf8 :: "mem \<Rightarrow> nat \<Rightarrow> nat \<Rightarrow> nat \<Rightarrow> mem \<Rightarrow> (nat \<times> mem) res" where
  "scan_utf8 ptr text_len i char_count char_index =
     (if i < text_len
      then rbind (if char_count AND 0xFF = 0 then store (drop_bit 8 char_count) i char_index else Inr char_index) (\<lambda>index'.
           rbind (utf8_seq ptr text_len i) (\<lambda>n.
           rbind (fits scan_msg (i + n)) (\<lambda>i'.
           rbind (fits scan_msg (char_count + 1)) (\<lambda>count'.
           scan_utf8 ptr text_len i' count' index'))))
      else Inr (char_count, char_index))"
  by pat_completeness auto
termination
  by (relation "measure (\<lambda>(ptr, text_len, i, c, x). text_len - i)") (auto dest!: utf8_seq_range)

declare scan_utf8.simps [simp del]

definition from_owned_cstr :: "mem \<Rightarrow> nat \<Rightarrow> mstr res" where
  "from_owned_cstr ptr byte_size =
     (if byte_size = 0 then utf8_error ''empty buffer''
      else
        (let text_len = byte_size - 1 in
         rbind (load text_len ptr) (\<lambda>last.
         if last \<noteq> 0 then utf8_error ''missing 0-terminator''
         else
           rbind (fits ''char_index sizing bounded by byte_size, cannot overflow'' (drop_bit 8 byte_size + 1)) (\<lambda>entries.
           rbind (scan_utf8 ptr text_len 0 0 (sys_alloc entries)) (\<lambda>(char_count, char_index).
           Inr \<lparr>s_data = ptr, s_byte_size = byte_size, s_char_count = char_count, s_index = char_index\<rparr>)))))"

definition from_cstr :: "mem \<Rightarrow> nat \<Rightarrow> mstr res" where
  "from_cstr buf sz =
     rbind (sys_memcpy 0 (sys_alloc sz) 0 buf sz) (\<lambda>new_buf.
     rbind (sub_panic ''invalid str length'' sz 1) (\<lambda>last_index.
     rbind (load last_index new_buf) (\<lambda>c.
     if c \<noteq> 0 then utf8_error ''missing null terminator'' else from_owned_cstr new_buf sz)))"

subsection \<open>Decoding and encoding one code point\<close>

text \<open>\<^verbatim>\<open>decode_utf8_at\<close> trusts the validation; the pair is the code point and the bytes consumed.\<close>

definition decode_utf8_at :: "mem \<Rightarrow> nat \<Rightarrow> (nat \<times> nat) res" where
  "decode_utf8_at data i =
     rbind (load i data) (\<lambda>byte1.
     if byte1 AND 0x80 = 0 then Inr (byte1, 1)
     else if byte1 AND 0xE0 = 0xC0
     then rbind (load (wrap64 (i + 1)) data) (\<lambda>b2.
          Inr (push_bit 6 (byte1 AND 0x1F) OR (b2 AND 0x3F), 2))
     else if byte1 AND 0xF0 = 0xE0
     then rbind (load (wrap64 (i + 1)) data) (\<lambda>b2.
          rbind (load (wrap64 (i + 2)) data) (\<lambda>b3.
          Inr (push_bit 12 (byte1 AND 0x0F) OR push_bit 6 (b2 AND 0x3F) OR (b3 AND 0x3F), 3)))
     else rbind (load (wrap64 (i + 1)) data) (\<lambda>b2.
          rbind (load (wrap64 (i + 2)) data) (\<lambda>b3.
          rbind (load (wrap64 (i + 3)) data) (\<lambda>b4.
          Inr (push_bit 18 (byte1 AND 0x07) OR push_bit 12 (b2 AND 0x3F) OR push_bit 6 (b3 AND 0x3F)
               OR (b4 AND 0x3F), 4)))))"

definition utf8_encoded_len :: "nat \<Rightarrow> nat" where
  "utf8_encoded_len cp = (if cp < 0x80 then 1 else if cp < 0x800 then 2 else if cp < 0x10000 then 3 else 4)"

definition wrap8 :: "nat \<Rightarrow> nat" where
  "wrap8 n = n mod 256"

text \<open>The bytes written, first to last; \<^verbatim>\<open>u8(..)\<close> wraps.\<close>

definition encode_utf8_at :: "mem \<Rightarrow> nat \<Rightarrow> nat \<Rightarrow> (mem \<times> nat) res" where
  "encode_utf8_at dest i cp =
     (if cp < 0x80 then rbind (store i (wrap8 cp) dest) (\<lambda>d. Inr (d, 1))
      else if cp < 0x800
      then rbind (store i (wrap8 (0xC0 OR drop_bit 6 cp)) dest) (\<lambda>d.
           rbind (store (wrap64 (i + 1)) (wrap8 (0x80 OR (cp AND 0x3F))) d) (\<lambda>d. Inr (d, 2)))
      else if cp < 0x10000
      then rbind (store i (wrap8 (0xE0 OR drop_bit 12 cp)) dest) (\<lambda>d.
           rbind (store (wrap64 (i + 1)) (wrap8 (0x80 OR (drop_bit 6 cp AND 0x3F))) d) (\<lambda>d.
           rbind (store (wrap64 (i + 2)) (wrap8 (0x80 OR (cp AND 0x3F))) d) (\<lambda>d. Inr (d, 3))))
      else rbind (store i (wrap8 (0xF0 OR drop_bit 18 cp)) dest) (\<lambda>d.
           rbind (store (wrap64 (i + 1)) (wrap8 (0x80 OR (drop_bit 12 cp AND 0x3F))) d) (\<lambda>d.
           rbind (store (wrap64 (i + 2)) (wrap8 (0x80 OR (drop_bit 6 cp AND 0x3F))) d) (\<lambda>d.
           rbind (store (wrap64 (i + 3)) (wrap8 (0x80 OR (cp AND 0x3F))) d) (\<lambda>d. Inr (d, 4))))))"

definition chr :: "nat \<Rightarrow> mstr res" where
  "chr cp =
     (let encoded_len = utf8_encoded_len cp in
      rbind (fits ''irrational string length'' (encoded_len + 1)) (\<lambda>buf_size.
      rbind (encode_utf8_at (sys_alloc buf_size) 0 cp) (\<lambda>(buf, _).
      rbind (store encoded_len 0 buf) (\<lambda>buf.
      unwrap ''chr(): not a valid Unicode code point'' (from_owned_cstr buf buf_size)))))"

subsection \<open>Lengths and pieces\<close>

definition byte_len :: "mstr \<Rightarrow> nat" where
  "byte_len s = s_byte_size s - 1"

definition str_len :: "mstr \<Rightarrow> nat" where
  "str_len s = s_char_count s"

definition ord :: "mstr \<Rightarrow> nat res" where
  "ord s =
     (if byte_len s = 0 then Inl (Panic ''ord(): expected a string of length 1, got an empty string'')
      else rbind (decode_utf8_at (s_data s) 0) (\<lambda>(cp, consumed).
           if consumed \<noteq> byte_len s then Inl (Panic ''ord(): expected a string of length 1, got a longer string'')
           else Inr cp))"

definition byte_slice :: "mstr \<Rightarrow> nat \<Rightarrow> nat \<Rightarrow> mstr res" where
  "byte_slice s start stop =
     (let msg = ''bounded by self_len, cannot overflow'' in
      rbind (sub_panic msg stop start) (\<lambda>piece_len.
      rbind (fits msg (piece_len + 1)) (\<lambda>buf_size.
      rbind (sys_memcpy 0 (sys_alloc buf_size) start (s_data s) piece_len) (\<lambda>new_buf.
      rbind (store piece_len 0 new_buf) (\<lambda>new_buf.
      unwrap ''invalid UTF-8 in _byte_slice'' (from_owned_cstr new_buf buf_size))))))"

fun skip_codepoints :: "nat \<Rightarrow> mem \<Rightarrow> nat \<Rightarrow> nat res" where
  "skip_codepoints 0 data i = Inr i"
| "skip_codepoints (Suc j) data i =
     rbind (decode_utf8_at data i) (\<lambda>(_, consumed).
     rbind (fits ''bounded by remaining < 256 within a valid group, cannot overflow'' (i + consumed)) (\<lambda>i'.
     skip_codepoints j data i'))"

definition str_getitem :: "mstr \<Rightarrow> nat \<Rightarrow> mstr res" where
  "str_getitem s idx =
     (if idx \<ge> s_char_count s then Inl IndexError
      else rbind (load (drop_bit 8 idx) (s_index s)) (\<lambda>i.
           rbind (skip_codepoints (idx AND 0xFF) (s_data s) i) (\<lambda>i.
           rbind (decode_utf8_at (s_data s) i) (\<lambda>(_, consumed).
           rbind (fits ''bounded by remaining < 256 within a valid group, cannot overflow'' (i + consumed)) (\<lambda>stop.
           byte_slice s i stop)))))"

text \<open>\<^verbatim>\<open>_resolve_index\<close> and the slice bounds work on \<^verbatim>\<open>isize\<close>; a length that does not fit panics.\<close>

definition isize_of :: "string \<Rightarrow> nat \<Rightarrow> int res" where
  "isize_of msg n = (if n < 2 ^ 63 then Inr (int n) else Inl (Panic msg))"

definition wrap_isize :: "int \<Rightarrow> int" where
  "wrap_isize i = (i + 2 ^ 63) mod 2 ^ 64 - 2 ^ 63"

definition str_resolve_index :: "int \<Rightarrow> nat \<Rightarrow> nat res" where
  "str_resolve_index i real_len =
     rbind (isize_of ''a real container length always fits isize'' real_len) (\<lambda>len_i.
     let resolved = (if i < 0 then wrap_isize (i + len_i) else i) in
     if resolved < 0 \<or> resolved \<ge> len_i then Inl IndexError
     else usize_panic ''resolved is now known to be in [0, len_i), which always fits usize'' resolved)"

definition str_getitem_signed :: "mstr \<Rightarrow> int \<Rightarrow> mstr res" where
  "str_getitem_signed s idx = rbind (str_resolve_index idx (s_char_count s)) (\<lambda>resolved. str_getitem s resolved)"

definition str_clamp_bound :: "int \<Rightarrow> int \<Rightarrow> int" where
  "str_clamp_bound bound len_i =
     (if bound < 0 then (let r = wrap_isize (bound + len_i) in if r < 0 then 0 else r)
      else if bound > len_i then len_i else bound)"

definition str_resolve_bounds :: "int \<Rightarrow> int option \<Rightarrow> nat \<Rightarrow> (nat \<times> nat) res" where
  "str_resolve_bounds start stop real_len =
     rbind (isize_of ''a real container length always fits isize'' real_len) (\<lambda>len_i.
     let a = str_clamp_bound start len_i;
         b = (case stop of None \<Rightarrow> len_i | Some e \<Rightarrow> str_clamp_bound e len_i);
         b = (if a > b then a else b);
         msg = ''both bounds already clamped into [0, len_i]'' in
     rbind (usize_panic msg a) (\<lambda>a. rbind (usize_panic msg b) (\<lambda>b. Inr (a, b))))"

definition str_slice :: "mstr \<Rightarrow> int \<Rightarrow> int option \<Rightarrow> mstr res" where
  "str_slice s start stop =
     rbind (str_resolve_bounds start stop (byte_len s)) (\<lambda>(a, b). byte_slice s a b)"

end
