(* ===== verification/Lib_Utf8.thy ===== *)
theory Lib_Utf8
  imports Lib_Str
begin

unbundle bit_operations_syntax

text \<open>
  UTF-8 as a code: the encoding of a code point, the bytes it can start with, that it is a prefix code
  in which no encoding starts inside another, and that one round of the validation of \<^verbatim>\<open>str\<close> accepts
  exactly the encodings of the Unicode scalar values.
\<close>

definition scalar :: "nat \<Rightarrow> bool" where
  "scalar cp = (cp < 0x110000 \<and> \<not> (0xD800 \<le> cp \<and> cp < 0xE000))"

definition utf8_enc :: "nat \<Rightarrow> nat list" where
  "utf8_enc cp =
     (if cp < 0x80 then [cp]
      else if cp < 0x800 then [0xC0 + cp div 64, 0x80 + cp mod 64]
      else if cp < 0x10000 then [0xE0 + cp div 4096, 0x80 + cp div 64 mod 64, 0x80 + cp mod 64]
      else [0xF0 + cp div 262144, 0x80 + cp div 4096 mod 64, 0x80 + cp div 64 mod 64, 0x80 + cp mod 64])"

definition utf8 :: "nat list \<Rightarrow> nat list" where
  "utf8 cps = concat (map utf8_enc cps)"

lemma utf8_simps [simp]: "utf8 [] = []" "utf8 (cp # cps) = utf8_enc cp @ utf8 cps" "utf8 (as @ bs) = utf8 as @ utf8 bs"
  by (simp_all add: utf8_def)

lemma utf8_enc_not_Nil [simp]: "utf8_enc cp \<noteq> []" "0 < length (utf8_enc cp)" "length (utf8_enc cp) \<le> 4"
  by (simp_all add: utf8_enc_def)

lemma length_utf8_enc: "length (utf8_enc cp) = utf8_encoded_len cp"
  by (simp add: utf8_enc_def utf8_encoded_len_def)

lemma utf8_length_ge: "length cps \<le> length (utf8 cps)"
proof (induction cps)
  case (Cons cp cps)
  then show ?case by (cases "utf8_enc cp") simp_all
qed simp

lemma utf8_eq_Nil [simp]: "utf8 cps = [] \<longleftrightarrow> cps = []"
  by (cases cps) simp_all

lemma scalar_bound: "scalar cp \<Longrightarrow> cp < 0x110000"
  by (simp add: scalar_def)

lemma utf8_bytes: "list_all scalar cps \<Longrightarrow> b \<in> set (utf8 cps) \<Longrightarrow> b < 256"
proof (induction cps)
  case (Cons cp cps)
  have "cp div 64 < 32" if "cp < 0x800" using that by simp
  moreover have "cp div 4096 < 16" if "cp < 0x10000" using that by simp
  moreover have "cp div 262144 < 8" using Cons.prems(1) by (simp add: scalar_def less_mult_imp_div_less)
  moreover have "cp mod 64 < 64" "cp div 64 mod 64 < 64" "cp div 4096 mod 64 < 64" by simp_all
  ultimately have "\<forall>x \<in> set (utf8_enc cp). x < 256" by (auto simp: utf8_enc_def)
  then show ?case using Cons by auto
qed simp

subsection \<open>Masks as ranges\<close>

lemma and_shifted_mask: "(b :: nat) AND push_bit k (mask m) = push_bit k (take_bit m (drop_bit k b))"
  by (rule bit_eqI) (auto simp: bit_simps)

lemma mask_values: "(0x80 :: nat) = push_bit 7 (mask 1)" "(0xC0 :: nat) = push_bit 6 (mask 2)"
  "(0xE0 :: nat) = push_bit 5 (mask 3)" "(0xF0 :: nat) = push_bit 4 (mask 4)" "(0xF8 :: nat) = push_bit 3 (mask 5)"
  by (simp_all add: push_bit_eq_mult mask_eq_exp_minus_1)

lemma and_high_gen: assumes "(b :: nat) < 2 ^ (k + m)" shows "b AND push_bit k (mask m) = b div 2 ^ k * 2 ^ k"
  unfolding and_shifted_mask using assms
  by (simp add: push_bit_eq_mult take_bit_nat_eq_self drop_bit_eq_div less_mult_imp_div_less power_add mult.commute)

lemma and_high: assumes "(b :: nat) < 256" shows "b AND 0x80 = b div 128 * 128" "b AND 0xC0 = b div 64 * 64"
  "b AND 0xE0 = b div 32 * 32" "b AND 0xF0 = b div 16 * 16" "b AND 0xF8 = b div 8 * 8"
  using and_high_gen [of b 7 1] and_high_gen [of b 6 2] and_high_gen [of b 5 3] and_high_gen [of b 4 4]
    and_high_gen [of b 3 5] assms
  by (simp_all add: push_bit_eq_mult mask_eq_exp_minus_1)

lemma and_low: "(b :: nat) AND 0x1F = b mod 32" "b AND 0x0F = b mod 16" "b AND 0x07 = b mod 8" "b AND 0x3F = b mod 64"
  "b AND 0xFF = b mod 256" "b AND 0x3FF = b mod 1024"
  using take_bit_eq_mask [of 5 b] take_bit_eq_mask [of 4 b] take_bit_eq_mask [of 3 b] take_bit_eq_mask [of 6 b]
    take_bit_eq_mask [of 8 b] take_bit_eq_mask [of 10 b]
  by (simp_all add: take_bit_eq_mod mask_eq_exp_minus_1)

lemma div_mult_eq_range: "0 < n \<Longrightarrow> (b :: nat) div n * n = q * n \<longleftrightarrow> q * n \<le> b \<and> b < q * n + n"
  using div_mult_mod_eq [of b n] mod_less_divisor [of n b] dividend_less_div_times [of n b] div_nat_eqI [of n q b] by (auto simp: mult.commute)

lemma lead_ranges: assumes "(b :: nat) < 256" shows "b AND 0x80 = 0 \<longleftrightarrow> b < 128" "b AND 0xC0 = 0x80 \<longleftrightarrow> 128 \<le> b \<and> b < 192"
  "b AND 0xE0 = 0xC0 \<longleftrightarrow> 192 \<le> b \<and> b < 224" "b AND 0xF0 = 0xE0 \<longleftrightarrow> 224 \<le> b \<and> b < 240"
  "b AND 0xF8 = 0xF0 \<longleftrightarrow> 240 \<le> b \<and> b < 248" "is_cont b \<longleftrightarrow> 128 \<le> b \<and> b < 192"
  unfolding is_cont_def and_high [OF assms]
  using div_mult_eq_range [of 128 b 0] div_mult_eq_range [of 64 b 2] div_mult_eq_range [of 32 b 6]
    div_mult_eq_range [of 16 b 14] div_mult_eq_range [of 8 b 30]
  by simp_all

lemma or_as_sum: "(a :: nat) < 2 ^ k \<Longrightarrow> push_bit k c OR a = c * 2 ^ k + a"
proof -
  assume a: "a < 2 ^ k"
  have "push_bit k c AND take_bit k a = 0" by (rule bit_eqI) (auto simp: bit_simps)
  then have "push_bit k c + take_bit k a = push_bit k c OR take_bit k a" by (rule disjunctive_add_eq_or)
  then show ?thesis using a by (simp add: push_bit_eq_mult take_bit_nat_eq_self)
qed

lemma or_sums: fixes a b c d :: nat shows "push_bit 6 a OR (b mod 64) = a * 64 + b mod 64"
  "push_bit 12 a OR push_bit 6 (b mod 64) OR (c mod 64) = a * 4096 + b mod 64 * 64 + c mod 64"
  "push_bit 18 a OR push_bit 12 (b mod 64) OR push_bit 6 (c mod 64) OR (d mod 64)
     = a * 262144 + b mod 64 * 4096 + c mod 64 * 64 + d mod 64"
proof -
  have m: "x mod 64 < 64" for x :: nat by simp
  show s1: "push_bit 6 a OR (b mod 64) = a * 64 + b mod 64" for a b :: nat using or_as_sum [of "b mod 64" 6 a] by simp
  show s2: "push_bit 12 a OR push_bit 6 (b mod 64) OR (c mod 64) = a * 4096 + b mod 64 * 64 + c mod 64" for a b c :: nat
  proof -
    have "b mod 64 * 64 + c mod 64 < 2 ^ 12" using m [of b] m [of c] by simp
    from or_as_sum [OF this, of a] show ?thesis unfolding s1 by simp
  qed
  have "b mod 64 * 4096 + c mod 64 * 64 + d mod 64 < 2 ^ 18" using m [of b] m [of c] m [of d] by simp
  from or_as_sum [OF this, of a] show "push_bit 18 a OR push_bit 12 (b mod 64) OR push_bit 6 (c mod 64) OR (d mod 64)
     = a * 262144 + b mod 64 * 4096 + c mod 64 * 64 + d mod 64"
    unfolding s2 by simp
qed

lemma or_tags: "(x :: nat) < 32 \<Longrightarrow> 0xC0 OR x = 0xC0 + x" "x < 16 \<Longrightarrow> 0xE0 OR x = 0xE0 + x"
  "x < 8 \<Longrightarrow> 0xF0 OR x = 0xF0 + x" "x < 64 \<Longrightarrow> 0x80 OR x = 0x80 + x"
  using or_as_sum [of x 5 6] or_as_sum [of x 4 14] or_as_sum [of x 3 30] or_as_sum [of x 6 2]
  by (simp_all add: push_bit_eq_mult)

subsection \<open>A prefix code\<close>

definition lead_len :: "nat \<Rightarrow> nat" where
  "lead_len b = (if b < 128 then 1 else if b < 224 then 2 else if b < 240 then 3 else 4)"

fun cp_of :: "nat list \<Rightarrow> nat" where
  "cp_of [a] = a"
| "cp_of [a, b] = (a - 192) * 64 + (b - 128)"
| "cp_of [a, b, c] = (a - 224) * 4096 + (b - 128) * 64 + (c - 128)"
| "cp_of [a, b, c, d] = (a - 240) * 262144 + (b - 128) * 4096 + (c - 128) * 64 + (d - 128)"
| "cp_of _ = 0"

lemma cp_split: "(cp :: nat) div 64 * 64 + cp mod 64 = cp" "cp div 4096 * 64 + cp div 64 mod 64 = cp div 64"
  "cp div 262144 * 64 + cp div 4096 mod 64 = cp div 4096"
  using div_mult_mod_eq [of cp 64] div_mult_mod_eq [of "cp div 64" 64] div_mult_mod_eq [of "cp div 4096" 64]
  by (simp_all add: div_mult2_eq [symmetric])

lemma cp_of_enc: "cp_of (utf8_enc cp) = cp"
proof -
  have "cp div 64 * 64 + cp mod 64 = cp" "cp div 4096 * 4096 + cp div 64 mod 64 * 64 + cp mod 64 = cp"
    "cp div 262144 * 262144 + cp div 4096 mod 64 * 4096 + cp div 64 mod 64 * 64 + cp mod 64 = cp"
    using cp_split [of cp] by linarith+
  then show ?thesis by (simp add: utf8_enc_def)
qed

lemma lead_div_bounds: "(cp :: nat) < 0x110000 \<Longrightarrow> cp div 262144 < 5" "cp < 0x10000 \<Longrightarrow> cp div 4096 < 16" "cp < 0x800 \<Longrightarrow> cp div 64 < 32"
  by (simp_all add: less_mult_imp_div_less)

lemma lead_len_enc: "cp < 0x110000 \<Longrightarrow> lead_len (hd (utf8_enc cp)) = length (utf8_enc cp)"
proof -
  assume "cp < 0x110000"
  then have "cp div 262144 < 5" "cp < 0x10000 \<longrightarrow> cp div 4096 < 16" "cp < 0x800 \<longrightarrow> cp div 64 < 32"
    using lead_div_bounds [of cp] by blast+
  then show ?thesis by (auto simp: lead_len_def utf8_enc_def)
qed

lemma hd_enc_not_cont: "scalar cp \<Longrightarrow> hd (utf8_enc cp) < 128 \<or> 192 \<le> hd (utf8_enc cp)"
  by (simp add: utf8_enc_def)

lemma tl_enc_cont: "b \<in> set (tl (utf8_enc cp)) \<Longrightarrow> 128 \<le> b \<and> b < 192"
  by (auto simp: utf8_enc_def split: if_splits)

lemma enc_prefix_unique: assumes "utf8_enc a @ r = utf8_enc b @ r'" "a < 0x110000" "b < 0x110000" shows "a = b \<and> r = r'"
proof -
  have "hd (utf8_enc a) = hd (utf8_enc b)" using arg_cong [OF assms(1), of hd] by simp
  then have "length (utf8_enc a) = length (utf8_enc b)" using lead_len_enc assms(2,3) by metis
  then have "utf8_enc a = utf8_enc b" "r = r'" using assms(1) by simp_all
  then show ?thesis using cp_of_enc by metis
qed

lemma utf8_prefix: "utf8 as @ r = utf8 bs \<Longrightarrow> list_all scalar as \<Longrightarrow> list_all scalar bs \<Longrightarrow> \<exists>cs. bs = as @ cs \<and> r = utf8 cs"
proof (induction as arbitrary: bs)
  case (Cons a as)
  from Cons.prems obtain b bs' where bs: "bs = b # bs'" by (cases bs) auto
  have "a = b \<and> utf8 as @ r = utf8 bs'" using enc_prefix_unique [of a "utf8 as @ r" b "utf8 bs'"] Cons.prems bs by (simp add: scalar_bound)
  then show ?case using Cons.IH [of bs'] Cons.prems bs by auto
qed simp

lemma utf8_inj: "utf8 as = utf8 bs \<Longrightarrow> list_all scalar as \<Longrightarrow> list_all scalar bs \<Longrightarrow> as = bs"
  using utf8_prefix [of as "[]" bs] by (auto simp: eq_commute [of "[]"])

text \<open>An encoded text that occurs inside another, occurs there on code point boundaries.\<close>

lemma utf8_sync: assumes "utf8 cps = p @ utf8 sub @ q" "sub \<noteq> []" "list_all scalar cps" "list_all scalar sub"
  shows "\<exists>as cs. cps = as @ sub @ cs \<and> p = utf8 as \<and> q = utf8 cs"
  using assms(1,3)
proof (induction cps arbitrary: p)
  case Nil
  then show ?case using assms(2) by simp
next
  case (Cons c cps)
  show ?case
  proof (cases "p = []")
    case True
    then obtain cs where "c # cps = sub @ cs" "q = utf8 cs" using utf8_prefix [of sub q "c # cps"] Cons.prems assms(4) by auto
    then have "c # cps = [] @ sub @ cs \<and> p = utf8 [] \<and> q = utf8 cs" using True by simp
    then show ?thesis by blast
  next
    case False
    show ?thesis
    proof (cases "length (utf8_enc c) \<le> length p")
      case True
      then have p: "p = utf8_enc c @ drop (length (utf8_enc c)) p"
        using arg_cong [OF Cons.prems(1), of "take (length (utf8_enc c))"] by (metis append_take_drop_id append_eq_conv_conj take_append diff_is_0_eq take_0 append_Nil2 utf8_simps(2))
      have "utf8 cps = drop (length (utf8_enc c)) p @ utf8 sub @ q"
        using Cons.prems(1) p by (metis append_assoc same_append_eq utf8_simps(2))
      then obtain as cs where "cps = as @ sub @ cs" "drop (length (utf8_enc c)) p = utf8 as" "q = utf8 cs"
        using Cons.IH Cons.prems(2) by auto
      then have "c # cps = (c # as) @ sub @ cs \<and> p = utf8 (c # as) \<and> q = utf8 cs" using p by simp
      then show ?thesis by blast
    next
      case short: False
      from assms(2) obtain s sub' where sub: "sub = s # sub'" by (cases sub) auto
      have "(utf8_enc c) ! length p = hd (utf8_enc s)"
      proof -
        have "utf8 (c # cps) ! length p = hd (utf8_enc s)" unfolding Cons.prems(1) sub by (simp add: nth_append hd_conv_nth)
        then show ?thesis using short by (simp add: nth_append)
      qed
      moreover have "(utf8_enc c) ! length p \<in> set (tl (utf8_enc c))"
        using short \<open>p \<noteq> []\<close> by (cases "utf8_enc c"; cases p) auto
      ultimately have "128 \<le> hd (utf8_enc s) \<and> hd (utf8_enc s) < 192" using tl_enc_cont by metis
      then show ?thesis using hd_enc_not_cont [of s] assms(4) sub by auto
    qed
  qed
qed

end
