(* ===== verification/Lib_Str_Correct.thy ===== *)
theory Lib_Str_Correct
  imports Lib_Utf8
begin

unbundle bit_operations_syntax

text \<open>
  What \<^verbatim>\<open>str\<close> implements: \<open>mk_str cps\<close> is the object for the sequence \<open>cps\<close> of code points.  The
  construction accepts exactly the encodings of sequences of scalar values and builds that object, and
  the operations on strings are operations on the sequences.
\<close>

subsection \<open>One round of the validation\<close>

lemma dm64: "(z :: nat) < 64 \<Longrightarrow> (q * 64 + z) div 64 = q" "z < 64 \<Longrightarrow> (q * 64 + z) mod 64 = z"
  by simp_all

lemma enc2: assumes "194 \<le> b1" "b1 < 224" "128 \<le> b2" "b2 < 192"
  shows "utf8_enc (cp_of [b1, b2]) = [b1, b2] \<and> scalar (cp_of [b1, b2])"
proof -
  obtain x y where b: "b1 = 192 + x" "b2 = 128 + y" using assms le_Suc_ex [of 192 b1] le_Suc_ex [of 128 b2] by auto
  have xy: "2 \<le> x" "x < 32" "y < 64" using assms b by auto
  then have "(x * 64 + y) div 64 = x" "(x * 64 + y) mod 64 = y" by simp_all
  then show ?thesis using xy unfolding b by (simp add: utf8_enc_def scalar_def)
qed

lemma enc3: assumes "224 \<le> b1" "b1 < 240" "128 \<le> b2" "b2 < 192" "128 \<le> b3" "b3 < 192"
    "\<not> (b1 = 224 \<and> b2 < 160)" "\<not> (b1 = 237 \<and> b2 \<ge> 160)"
  shows "utf8_enc (cp_of [b1, b2, b3]) = [b1, b2, b3] \<and> scalar (cp_of [b1, b2, b3])"
proof -
  obtain x y z where b: "b1 = 224 + x" "b2 = 128 + y" "b3 = 128 + z"
    using assms le_Suc_ex [of 224 b1] le_Suc_ex [of 128 b2] le_Suc_ex [of 128 b3] by auto
  have xyz: "x < 16" "y < 64" "z < 64" using assms b by auto
  let ?cp = "x * 4096 + y * 64 + z"
  have "?cp = (x * 64 + y) * 64 + z" by simp
  then have "?cp div 64 = x * 64 + y" "?cp mod 64 = z" using dm64 [OF xyz(3)] by metis+
  moreover have "?cp div 4096 = (?cp div 64) div 64" by (simp add: div_mult2_eq [symmetric])
  ultimately have d: "?cp mod 64 = z" "?cp div 64 mod 64 = y" "?cp div 4096 = x" using xyz(2) by simp_all
  have "x \<noteq> 0 \<or> 32 \<le> y" "x \<noteq> 13 \<or> y < 32" using assms(7,8) unfolding b by auto
  moreover consider "x = 0" | "1 \<le> x" "x \<le> 12" | "x = 13" | "14 \<le> x" by linarith
  then have "2048 \<le> ?cp \<and> ?cp < 65536 \<and> \<not> (55296 \<le> ?cp \<and> ?cp < 57344)"
    using calculation xyz by cases linarith+
  then have r: "2048 \<le> ?cp" "?cp < 65536" "\<not> (55296 \<le> ?cp \<and> ?cp < 57344)" by blast+
  have "utf8_enc ?cp = [b1, b2, b3]" using r d unfolding b utf8_enc_def by simp
  then show ?thesis using r unfolding b by (simp add: scalar_def)
qed

lemma enc4: assumes "240 \<le> b1" "b1 \<le> 244" "128 \<le> b2" "b2 < 192" "128 \<le> b3" "b3 < 192" "128 \<le> b4" "b4 < 192"
    "\<not> (b1 = 240 \<and> b2 < 144)" "\<not> (b1 = 244 \<and> b2 \<ge> 144)"
  shows "utf8_enc (cp_of [b1, b2, b3, b4]) = [b1, b2, b3, b4] \<and> scalar (cp_of [b1, b2, b3, b4])"
proof -
  obtain x y z w where b: "b1 = 240 + x" "b2 = 128 + y" "b3 = 128 + z" "b4 = 128 + w"
    using assms le_Suc_ex [of 240 b1] le_Suc_ex [of 128 b2] le_Suc_ex [of 128 b3] le_Suc_ex [of 128 b4] by auto
  have xyz: "x \<le> 4" "y < 64" "z < 64" "w < 64" using assms b by auto
  let ?cp = "x * 262144 + y * 4096 + z * 64 + w"
  have e: "?cp = (x * 4096 + y * 64 + z) * 64 + w" "x * 4096 + y * 64 + z = (x * 64 + y) * 64 + z" by simp_all
  have "?cp div 64 = x * 4096 + y * 64 + z" "?cp mod 64 = w" using dm64 [OF xyz(4)] e(1) by metis+
  moreover have "(x * 4096 + y * 64 + z) div 64 = x * 64 + y" "(x * 4096 + y * 64 + z) mod 64 = z"
    using dm64 [OF xyz(3)] e(2) by metis+
  moreover have "?cp div 4096 = (?cp div 64) div 64" "?cp div 262144 = ((?cp div 64) div 64) div 64"
    by (simp_all add: div_mult2_eq [symmetric])
  ultimately have d: "?cp mod 64 = w" "?cp div 64 mod 64 = z" "?cp div 4096 mod 64 = y" "?cp div 262144 = x"
    using xyz(2) by simp_all
  have r: "65536 \<le> ?cp" "?cp < 1114112" using assms(9,10) xyz unfolding b by auto
  have "utf8_enc ?cp = [b1, b2, b3, b4]" using r d unfolding b utf8_enc_def by simp
  then show ?thesis using r unfolding b by (simp add: scalar_def)
qed

text \<open>Where the round reads: the bytes from \<open>i\<close> on.\<close>

definition text_at :: "nat \<Rightarrow> nat list \<Rightarrow> mem \<Rightarrow> nat list \<Rightarrow> bool" where
  "text_at i bs ptr suf = (i + length suf = length bs \<and> i + length suf < 2 ^ 63 \<and> (\<forall>b \<in> set bs. b < 256) \<and> drop i bs = suf
     \<and> (\<exists>post. ptr = map Some (bs @ post)))"

lemma text_at_load: "text_at i bs ptr suf \<Longrightarrow> k < length suf \<Longrightarrow> load (i + k) ptr = Inr (suf ! k) \<and> suf ! k < 256"
  unfolding text_at_def by (auto simp: load_def nth_append)

lemma text_at_0: "text_at i bs ptr (b # suf) \<Longrightarrow> load i ptr = Inr b \<and> b < 256"
  using text_at_load [of i bs ptr "b # suf" 0] by simp

lemma text_at_fits: "text_at i bs ptr suf \<Longrightarrow> k \<le> 4 \<Longrightarrow> i + k < 18446744073709551616"
  by (simp add: text_at_def)

lemma text_at_len: "text_at i bs ptr suf \<Longrightarrow> length bs = i + length suf"
  by (simp add: text_at_def)

lemma seq2_eq: assumes t: "text_at i bs ptr (b1 # rest)"
  shows "seq2 ptr (length bs) i b1 =
    (case rest of [] \<Rightarrow> utf8_error ''Truncated 2-byte sequence''
     | b2 # _ \<Rightarrow> if b1 < 0xC2 then utf8_error ''Overlong 2-byte encoding''
       else if \<not> (128 \<le> b2 \<and> b2 < 192) then utf8_error ''Invalid continuation byte in 2-byte sequence'' else Inr 2)"
  using text_at_load [OF t, of 1] text_at_fits [OF t, of 1] text_at_len [OF t]
  by (auto simp: seq2_def lead_ranges split: list.splits)

lemma seq3_eq: assumes t: "text_at i bs ptr (b1 # rest)"
  shows "seq3 ptr (length bs) i b1 =
    (case rest of b2 # b3 # _ \<Rightarrow>
       if b1 = 0xE0 \<and> b2 < 0xA0 then utf8_error ''Overlong 3-byte encoding''
       else if \<not> (128 \<le> b2 \<and> b2 < 192) \<or> \<not> (128 \<le> b3 \<and> b3 < 192)
         then utf8_error ''Invalid continuation byte in 3-byte sequence''
       else if b1 = 0xED \<and> b2 \<ge> 0xA0 then utf8_error ''UTF-16 surrogate half''
       else Inr 3
     | _ \<Rightarrow> utf8_error ''Truncated 3-byte sequence'')"
  using text_at_load [OF t, of 1] text_at_load [OF t, of 2] text_at_fits [OF t, of 2] text_at_len [OF t]
  by (cases rest; cases "tl rest") (simp_all add: seq3_def lead_ranges)

lemma seq4_eq: assumes t: "text_at i bs ptr (b1 # rest)"
  shows "seq4 ptr (length bs) i b1 =
    (case rest of b2 # b3 # b4 # _ \<Rightarrow>
       if b1 = 0xF0 \<and> b2 < 0x90 then utf8_error ''Overlong 4-byte encoding''
       else if \<not> (128 \<le> b2 \<and> b2 < 192) \<or> \<not> (128 \<le> b3 \<and> b3 < 192) \<or> \<not> (128 \<le> b4 \<and> b4 < 192)
         then utf8_error ''Invalid continuation byte in 4-byte sequence''
       else if b1 = 0xF4 \<and> b2 \<ge> 0x90 then utf8_error ''Code point exceeds maximum valid Unicode (U+10FFFF)''
       else if b1 > 0xF4 then utf8_error ''Code point exceeds maximum valid Unicode (sequence prefix > 0xF4)''
       else Inr 4
     | _ \<Rightarrow> utf8_error ''Truncated 4-byte sequence'')"
  using text_at_load [OF t, of 1] text_at_load [OF t, of 2] text_at_load [OF t, of 3] text_at_fits [OF t, of 3]
    text_at_len [OF t]
  by (cases rest; cases "tl rest"; cases "tl (tl rest)") (simp_all add: seq4_def lead_ranges numeral_3_eq_3)

lemma utf8_seq_eq: assumes t: "text_at i bs ptr (b1 # rest)"
  shows "utf8_seq ptr (length bs) i =
    (if b1 < 128 then Inr 1
     else if b1 < 192 then utf8_error ''Unexpected continuation byte as leading byte''
     else if b1 < 224 then seq2 ptr (length bs) i b1
     else if b1 < 240 then seq3 ptr (length bs) i b1
     else if b1 < 248 then seq4 ptr (length bs) i b1
     else utf8_error ''Invalid leading byte'')"
  using text_at_0 [OF t] by (auto simp: utf8_seq_def lead_ranges)

lemma enc_shapes: assumes "scalar cp"
  obtains b where "utf8_enc cp = [b]" "b < 128"
  | b1 b2 where "utf8_enc cp = [b1, b2]" "194 \<le> b1" "b1 < 224" "128 \<le> b2" "b2 < 192"
  | b1 b2 b3 where "utf8_enc cp = [b1, b2, b3]" "224 \<le> b1" "b1 < 240" "128 \<le> b2" "b2 < 192" "128 \<le> b3" "b3 < 192"
      "b1 = 224 \<Longrightarrow> 160 \<le> b2" "b1 = 237 \<Longrightarrow> b2 < 160"
  | b1 b2 b3 b4 where "utf8_enc cp = [b1, b2, b3, b4]" "240 \<le> b1" "b1 \<le> 244" "128 \<le> b2" "b2 < 192" "128 \<le> b3" "b3 < 192"
      "128 \<le> b4" "b4 < 192" "b1 = 240 \<Longrightarrow> 144 \<le> b2" "b1 = 244 \<Longrightarrow> b2 < 144"
proof -
  note sp = cp_split [of cp]
  have m: "cp mod 64 < 64" "cp div 64 mod 64 < 64" "cp div 4096 mod 64 < 64" by simp_all
  consider "cp < 0x80" | "0x80 \<le> cp" "cp < 0x800" | "0x800 \<le> cp" "cp < 0x10000" | "0x10000 \<le> cp" by linarith
  then show thesis
  proof cases
    case 1
    then show ?thesis using that(1) [of cp] by (simp add: utf8_enc_def)
  next
    case 2
    then have "2 \<le> cp div 64" "cp div 64 < 32" using sp m by linarith+
    then show ?thesis using that(2) [of "0xC0 + cp div 64" "0x80 + cp mod 64"] 2 m by (simp add: utf8_enc_def)
  next
    case 3
    then have "cp div 4096 < 16" "cp div 4096 = 0 \<Longrightarrow> 32 \<le> cp div 64 mod 64" "cp div 4096 = 13 \<Longrightarrow> cp div 64 mod 64 < 32"
      using sp m assms unfolding scalar_def by linarith+
    then show ?thesis using that(3) [of "0xE0 + cp div 4096" "0x80 + cp div 64 mod 64" "0x80 + cp mod 64"] 3 m
      by (simp add: utf8_enc_def)
  next
    case 4
    then have "cp div 262144 \<le> 4" "cp div 262144 = 0 \<Longrightarrow> 16 \<le> cp div 4096 mod 64" "cp div 262144 = 4 \<Longrightarrow> cp div 4096 mod 64 < 16"
      using sp m assms unfolding scalar_def by linarith+
    then show ?thesis using that(4) [of "0xF0 + cp div 262144" "0x80 + cp div 4096 mod 64" "0x80 + cp div 64 mod 64" "0x80 + cp mod 64"] 4 m
      by (simp add: utf8_enc_def)
  qed
qed

lemma utf8_seq_complete: assumes t: "text_at i bs ptr (utf8_enc cp @ rest)" and cp: "scalar cp"
  shows "utf8_seq ptr (length bs) i = Inr (length (utf8_enc cp))"
  using cp
proof (cases rule: enc_shapes)
  case (1 b)
  then show ?thesis using t utf8_seq_eq [of i bs ptr b rest] by simp
next
  case (2 b1 b2)
  then show ?thesis using t utf8_seq_eq [of i bs ptr b1 "b2 # rest"] seq2_eq [of i bs ptr b1 "b2 # rest"] by simp
next
  case (3 b1 b2 b3)
  then show ?thesis using t utf8_seq_eq [of i bs ptr b1 "b2 # b3 # rest"] seq3_eq [of i bs ptr b1 "b2 # b3 # rest"]
    by (auto simp: not_less)
next
  case (4 b1 b2 b3 b4)
  then show ?thesis using t utf8_seq_eq [of i bs ptr b1 "b2 # b3 # b4 # rest"] seq4_eq [of i bs ptr b1 "b2 # b3 # b4 # rest"]
    by (auto simp: not_less not_le)
qed

lemma utf8_seq_sound: assumes t: "text_at i bs ptr (b1 # suf)"
  shows "(\<exists>cp rest. scalar cp \<and> b1 # suf = utf8_enc cp @ rest) \<or> (\<exists>m. utf8_seq ptr (length bs) i = Inl (CodecError ''utf-8'' m))"
proof -
  have ok: ?thesis if "utf8_enc cp @ rest = b1 # suf" "scalar cp" for cp rest using that by metis
  have err: ?thesis if "utf8_seq ptr (length bs) i = utf8_error m" for m using that by (simp add: utf8_error_def)
  note eqs = utf8_seq_eq [OF t] seq2_eq [OF t] seq3_eq [OF t] seq4_eq [OF t]
  consider "b1 < 128" | "128 \<le> b1" "b1 < 192" | "192 \<le> b1" "b1 < 224" | "224 \<le> b1" "b1 < 240" | "240 \<le> b1" "b1 < 248" | "248 \<le> b1"
    by linarith
  then show ?thesis
  proof cases
    case 1
    then show ?thesis using ok [of b1 suf] by (simp add: utf8_enc_def scalar_def)
  next
    case 3
    then show ?thesis
      using err ok [of "cp_of [b1, hd suf]" "tl suf"] enc2 [of b1 "hd suf"] eqs(1,2)
      by (cases suf) (auto split: if_splits)
  next
    case 4
    then show ?thesis
      using err ok [of "cp_of [b1, hd suf, hd (tl suf)]" "tl (tl suf)"] enc3 [of b1 "hd suf" "hd (tl suf)"] eqs(1,3)
      by (cases suf; cases "tl suf") (auto split: if_splits)
  next
    case 5
    then show ?thesis
      using err ok [of "cp_of [b1, hd suf, hd (tl suf), hd (tl (tl suf))]" "tl (tl (tl suf))"]
        enc4 [of b1 "hd suf" "hd (tl suf)" "hd (tl (tl suf))"] eqs(1,4)
      by (cases suf; cases "tl suf"; cases "tl (tl suf)") (auto split: if_splits)
  qed (use err eqs(1) in auto)
qed

subsection \<open>The scan\<close>

definition index_of :: "nat list \<Rightarrow> nat \<Rightarrow> mem" where
  "index_of cps n = map (\<lambda>g. if g * 256 < length cps then Some (length (utf8 (take (g * 256) cps))) else None) [0..<n]"

definition mk_str :: "nat list \<Rightarrow> mstr" where
  "mk_str cps = \<lparr>s_data = map Some (utf8 cps @ [0]), s_byte_size = length (utf8 cps) + 1, s_char_count = length cps,
                 s_index = index_of cps ((length (utf8 cps) + 1) div 256 + 1)\<rparr>"

lemma mk_str_simps [simp]: "s_data (mk_str cps) = map Some (utf8 cps @ [0])" "s_byte_size (mk_str cps) = length (utf8 cps) + 1"
  "s_char_count (mk_str cps) = length cps" "byte_len (mk_str cps) = length (utf8 cps)" "str_len (mk_str cps) = length cps"
  by (simp_all add: mk_str_def byte_len_def str_len_def)

lemma index_of_length [simp]: "length (index_of cps n) = n"
  by (simp add: index_of_def)

lemma index_of_Nil: "index_of [] n = sys_alloc n"
  by (simp add: index_of_def sys_alloc_def map_replicate_const)

lemma group_index_nth: "g < n \<Longrightarrow> index_of cps n ! g = (if g * 256 < length cps then Some (length (utf8 (take (g * 256) cps))) else None)"
  by (simp add: index_of_def)

lemma index_store: assumes "length done mod 256 = 0" "length done div 256 < n"
  shows "(index_of done n)[length done div 256 := Some (length (utf8 done))] = index_of (done @ [cp]) n"
proof (rule nth_equalityI)
  fix g assume "g < length ((index_of done n)[length done div 256 := Some (length (utf8 done))])"
  then have g: "g < n" by simp
  have e: "length done = length done div 256 * 256" using assms(1) by auto
  show "(index_of done n)[length done div 256 := Some (length (utf8 done))] ! g = index_of (done @ [cp]) n ! g"
  proof (cases "g = length done div 256")
    case True
    then show ?thesis using g e by (simp add: group_index_nth)
  next
    case False
    then have "g * 256 \<noteq> length done" using e by auto
    then show ?thesis using g False by (auto simp: group_index_nth)
  qed
qed simp

lemma index_keep: assumes "length done mod 256 \<noteq> 0" shows "index_of (done @ [cp]) n = index_of done n"
proof (rule nth_equalityI)
  fix g assume "g < length (index_of (done @ [cp]) n)"
  moreover have "g * 256 \<noteq> length done" using assms by (metis mod_mult_self2_is_0)
  ultimately show "index_of (done @ [cp]) n ! g = index_of done n ! g" by (auto simp: group_index_nth)
qed simp

definition scan_spec :: "nat list \<Rightarrow> nat list \<Rightarrow> nat \<Rightarrow> (nat \<times> mem) res \<Rightarrow> bool" where
  "scan_spec done suf n r \<longleftrightarrow>
     (\<exists>todo. list_all scalar todo \<and> suf = utf8 todo \<and> r = Inr (length (done @ todo), index_of (done @ todo) n))
     \<or> (\<nexists>todo. list_all scalar todo \<and> suf = utf8 todo) \<and> (\<exists>m. r = Inl (CodecError ''utf-8'' m))"

lemma scan_step: assumes cp: "scalar cp" and s: "scan_spec (done @ [cp]) rest n r"
  shows "scan_spec done (utf8_enc cp @ rest) n r"
proof (cases "\<exists>todo. list_all scalar todo \<and> rest = utf8 todo")
  case True
  then obtain todo where t: "list_all scalar todo" "rest = utf8 todo" "r = Inr (length ((done @ [cp]) @ todo), index_of ((done @ [cp]) @ todo) n)"
    using s unfolding scan_spec_def by blast
  have "list_all scalar (cp # todo) \<and> utf8_enc cp @ rest = utf8 (cp # todo)
      \<and> r = Inr (length (done @ cp # todo), index_of (done @ cp # todo) n)" using cp t by simp
  then show ?thesis unfolding scan_spec_def by blast
next
  case False
  have "\<nexists>todo. list_all scalar todo \<and> utf8_enc cp @ rest = utf8 todo"
  proof
    assume "\<exists>todo. list_all scalar todo \<and> utf8_enc cp @ rest = utf8 todo"
    then obtain todo where t: "list_all scalar todo" "utf8_enc cp @ rest = utf8 todo" by blast
    then obtain c todo' where "todo = c # todo'" by (cases todo) auto
    then show False using t cp False enc_prefix_unique [of cp rest c "utf8 todo'"] by (auto simp: scalar_bound)
  qed
  then show ?thesis using s False unfolding scan_spec_def by blast
qed

lemma scan_ok: assumes b: "\<forall>b \<in> set bs. b < 256" "length bs < 2 ^ 63" and n: "n = (length bs + 1) div 256 + 1"
    and ptr: "ptr = map Some (bs @ [0])"
  shows "bs = utf8 done @ suf \<Longrightarrow>
    scan_spec done suf n (scan_utf8 ptr (length bs) (length (utf8 done)) (length done) (index_of done n))"
proof (induction "length suf" arbitrary: suf "done" rule: less_induct)
  case less
  show ?case
  proof (cases suf)
    case Nil
    have "list_all scalar [] \<and> suf = utf8 [] \<and> scan_utf8 ptr (length bs) (length (utf8 done)) (length done) (index_of done n)
        = Inr (length (done @ []), index_of (done @ []) n)"
      using less.prems Nil by (simp add: scan_utf8.simps)
    then show ?thesis unfolding scan_spec_def by blast
  next
    case (Cons b1 suf')
    let ?i = "length (utf8 done)"
    have t: "text_at ?i bs ptr suf" using less.prems b ptr unfolding text_at_def by (intro conjI exI [of _ "[0]"]) auto
    have cnt: "length done \<le> ?i" by (rule utf8_length_ge)
    have div: "length done div 256 < n" using cnt less.prems unfolding n by (simp add: div_le_mono less_Suc_eq_le)
    have idx: "(if length done AND 0xFF = 0 then store (drop_bit 8 (length done)) ?i (index_of done n) else Inr (index_of done n))
        = Inr (index_of (done @ [cp]) n)" for cp
      using div index_store [of "done" n cp] index_keep [of "done" cp n] by (simp add: and_low drop_bit_eq_div)
    have lt: "?i < length bs" using less.prems Cons by simp
    have step: "scan_utf8 ptr (length bs) ?i (length done) (index_of done n)
        = rbind (utf8_seq ptr (length bs) ?i) (\<lambda>k. rbind (fits scan_msg (?i + k)) (\<lambda>i'. rbind (fits scan_msg (length done + 1)) (\<lambda>c'.
            scan_utf8 ptr (length bs) i' c' (index_of (done @ [cp]) n))))" for cp
      using lt by (subst scan_utf8.simps) (simp add: idx [of cp])
    consider cp rest where "scalar cp" "suf = utf8_enc cp @ rest"
      | m where "utf8_seq ptr (length bs) ?i = Inl (CodecError ''utf-8'' m)"
      using utf8_seq_sound [of ?i bs ptr b1 suf'] t Cons by blast
    then show ?thesis
    proof cases
      case (1 cp rest)
      have "utf8_seq ptr (length bs) ?i = Inr (length (utf8_enc cp))" using utf8_seq_complete t 1 by blast
      moreover have "?i + length (utf8_enc cp) < 18446744073709551616" "length done + 1 < 18446744073709551616"
        using less.prems b(2) cnt 1 by auto
      ultimately have "scan_utf8 ptr (length bs) ?i (length done) (index_of done n)
          = scan_utf8 ptr (length bs) (length (utf8 (done @ [cp]))) (length (done @ [cp])) (index_of (done @ [cp]) n)"
        using step [of cp] by simp
      moreover have "scan_spec (done @ [cp]) rest n \<dots>"
      proof (rule less.hyps)
        show "length rest < length suf" using utf8_enc_not_Nil(2) [of cp] unfolding 1(2) length_append by linarith
        show "bs = utf8 (done @ [cp]) @ rest" using less.prems 1(2) by simp
      qed
      ultimately show ?thesis using scan_step 1 by simp
    next
      case (2 m)
      have "\<nexists>todo. list_all scalar todo \<and> suf = utf8 todo"
      proof
        assume "\<exists>todo. list_all scalar todo \<and> suf = utf8 todo"
        then obtain c todo where "scalar c" "suf = utf8_enc c @ utf8 todo" using Cons by (metis list.distinct(1) list.exhaust list.pred_inject(2) utf8_simps(1,2))
        then show False using utf8_seq_complete [of ?i bs ptr c "utf8 todo"] t 2 by simp
      qed
      then show ?thesis using step 2 unfolding scan_spec_def by simp
    qed
  qed
qed

lemma from_owned_cases: assumes "\<forall>b \<in> set bs. b < 256" "length bs < 2 ^ 63"
  shows "(\<exists>cps. list_all scalar cps \<and> bs = utf8 cps \<and> from_owned_cstr (map Some (bs @ [0])) (length bs + 1) = Inr (mk_str cps))
    \<or> (\<nexists>cps. list_all scalar cps \<and> bs = utf8 cps)
      \<and> (\<exists>m. from_owned_cstr (map Some (bs @ [0])) (length bs + 1) = Inl (CodecError ''utf-8'' m))"
proof -
  let ?n = "(length bs + 1) div 256 + 1" and ?p = "map Some (bs @ [0])"
  have s: "scan_spec [] bs ?n (scan_utf8 ?p (length bs) 0 0 (sys_alloc ?n))"
    using scan_ok [OF assms refl refl, of "[]" bs] by (simp add: index_of_Nil)
  have "load (length bs) ?p = Inr 0" by (simp add: load_def nth_append)
  moreover have "?n < 18446744073709551616" using assms(2) by simp
  ultimately have f: "from_owned_cstr ?p (length bs + 1) = rbind (scan_utf8 ?p (length bs) 0 0 (sys_alloc ?n)) (\<lambda>(c, x).
      Inr \<lparr>s_data = ?p, s_byte_size = length bs + 1, s_char_count = c, s_index = x\<rparr>)"
    by (simp add: from_owned_cstr_def drop_bit_eq_div Let_def)
  show ?thesis using s unfolding f scan_spec_def mk_str_def by fastforce
qed

lemma from_owned_utf8: assumes "list_all scalar cps" "length (utf8 cps) < 2 ^ 63"
  shows "from_owned_cstr (map Some (utf8 cps @ [0])) (length (utf8 cps) + 1) = Inr (mk_str cps)"
  using from_owned_cases [of "utf8 cps"] utf8_bytes [OF assms(1)] assms utf8_inj [OF _ assms(1)] by metis

subsection \<open>One code point\<close>

lemma load_middle: "k < length xs \<Longrightarrow> load (length pre + k) (map Some (pre @ xs @ post)) = Inr (xs ! k)"
  by (simp add: load_def nth_append)

lemma load_middle_add: "k < length xs \<Longrightarrow> load (length pre + k) (map Some pre @ map Some xs @ map Some post) = Inr (xs ! k)"
  using load_middle [of k xs pre post] by simp

lemma tag_mods: "128 \<le> b \<Longrightarrow> b < 192 \<Longrightarrow> b mod 64 = b - (128 :: nat)" "192 \<le> a \<Longrightarrow> a < 224 \<Longrightarrow> a mod 32 = a - (192 :: nat)"
  "224 \<le> a \<Longrightarrow> a < 240 \<Longrightarrow> a mod 16 = a - (224 :: nat)" "240 \<le> a \<Longrightarrow> a < 248 \<Longrightarrow> a mod 8 = a - (240 :: nat)"
  by (simp_all add: mod_if)

lemma dec2: "192 \<le> b1 \<Longrightarrow> b1 < 224 \<Longrightarrow> 128 \<le> b2 \<Longrightarrow> b2 < 192 \<Longrightarrow> push_bit 6 (b1 AND 0x1F) OR (b2 AND 0x3F) = cp_of [b1, b2]"
  unfolding and_low or_sums by (simp add: tag_mods)

lemma dec3: "224 \<le> b1 \<Longrightarrow> b1 < 240 \<Longrightarrow> 128 \<le> b2 \<Longrightarrow> b2 < 192 \<Longrightarrow> 128 \<le> b3 \<Longrightarrow> b3 < 192 \<Longrightarrow>
    push_bit 12 (b1 AND 0x0F) OR push_bit 6 (b2 AND 0x3F) OR (b3 AND 0x3F) = cp_of [b1, b2, b3]"
  unfolding and_low or_sums(2) by (simp add: tag_mods)

lemma dec4: "240 \<le> b1 \<Longrightarrow> b1 < 248 \<Longrightarrow> 128 \<le> b2 \<Longrightarrow> b2 < 192 \<Longrightarrow> 128 \<le> b3 \<Longrightarrow> b3 < 192 \<Longrightarrow> 128 \<le> b4 \<Longrightarrow> b4 < 192 \<Longrightarrow>
    push_bit 18 (b1 AND 0x07) OR push_bit 12 (b2 AND 0x3F) OR push_bit 6 (b3 AND 0x3F) OR (b4 AND 0x3F) = cp_of [b1, b2, b3, b4]"
  unfolding and_low or_sums(3) by (simp add: tag_mods)

lemma decode_middle: assumes cp: "scalar cp" and b: "length pre < 2 ^ 63"
  shows "decode_utf8_at (map Some (pre @ utf8_enc cp @ post)) (length pre) = Inr (cp, length (utf8_enc cp))"
proof -
  let ?d = "map Some (pre @ utf8_enc cp @ post)" and ?i = "length pre"
  have L: "load ?i ?d = Inr (utf8_enc cp ! 0)" using load_middle [of 0 "utf8_enc cp" pre post] by simp
  have L1: "k < length (utf8_enc cp) \<Longrightarrow> k \<le> 4 \<Longrightarrow> load (wrap64 (?i + k)) ?d = Inr (utf8_enc cp ! k)" for k
    using load_middle [of k "utf8_enc cp" pre post] b by simp
  note e = cp_of_enc [of cp]
  from cp show ?thesis
  proof (cases rule: enc_shapes)
    case (1 x)
    then show ?thesis using L e by (simp add: decode_utf8_at_def lead_ranges)
  next
    case (2 b1 b2)
    have "load (wrap64 (?i + 1)) ?d = Inr b2" using L1 [of 1] 2 by simp
    then show ?thesis using L e 2 by (simp add: decode_utf8_at_def lead_ranges dec2 del: cp_of.simps push_bit_and)
  next
    case (3 b1 b2 b3)
    have "load (wrap64 (?i + 1)) ?d = Inr b2" "load (wrap64 (?i + 2)) ?d = Inr b3" using L1 [of 1] L1 [of 2] 3 by simp_all
    then show ?thesis using L e 3 by (simp add: decode_utf8_at_def lead_ranges dec3 del: cp_of.simps push_bit_and)
  next
    case (4 b1 b2 b3 b4)
    have "load (wrap64 (?i + 1)) ?d = Inr b2" "load (wrap64 (?i + 2)) ?d = Inr b3" "load (wrap64 (?i + 3)) ?d = Inr b4"
      using L1 [of 1] L1 [of 2] L1 [of 3] 4 by (simp_all add: numeral_3_eq_3)
    then show ?thesis using L e 4 by (simp add: decode_utf8_at_def lead_ranges dec4 del: cp_of.simps push_bit_and)
  qed
qed

lemma decode_at: assumes "list_all scalar (a @ cp # c)" "length (utf8 a) < 2 ^ 63"
  shows "decode_utf8_at (s_data (mk_str (a @ cp # c))) (length (utf8 a)) = Inr (cp, length (utf8_enc cp))"
  using decode_middle [of cp "utf8 a" "utf8 c @ [0]"] assms by simp

lemma drops: "drop_bit 6 cp = cp div (64 :: nat)" "drop_bit 12 cp = cp div (4096 :: nat)" "drop_bit 18 cp = cp div (262144 :: nat)"
  by (simp_all add: drop_bit_eq_div)

lemma encode_alloc: assumes "cp < 0x110000"
  shows "encode_utf8_at (sys_alloc (length (utf8_enc cp) + 1)) 0 cp = Inr (map Some (utf8_enc cp) @ sys_alloc 1, length (utf8_enc cp))"
proof -
  have m: "x mod 64 < 64" for x :: nat by simp
  note defs = encode_utf8_at_def utf8_enc_def alloc_Suc drops and_low or_tags wrap8_def numeral_2_eq_2 numeral_3_eq_3
  consider "cp < 0x80" | "0x80 \<le> cp" "cp < 0x800" | "0x800 \<le> cp" "cp < 0x10000" | "0x10000 \<le> cp" by linarith
  then show ?thesis
  proof cases
    case 1
    then show ?thesis by (simp add: defs)
  next
    case 2
    then have "cp div 64 < 32" using lead_div_bounds by blast
    then show ?thesis using 2 m by (simp add: defs)
  next
    case 3
    then have "cp div 4096 < 16" using lead_div_bounds by blast
    then show ?thesis using 3 m by (simp add: defs)
  next
    case 4
    have "cp div 262144 < 5" using assms lead_div_bounds by blast
    then show ?thesis using 4 m by (simp add: defs)
  qed
qed

lemma chr_eq: assumes "cp < 0x110000"
  shows "chr cp = unwrap ''chr(): not a valid Unicode code point''
    (from_owned_cstr (map Some (utf8_enc cp @ [0])) (length (utf8_enc cp) + 1))"
proof -
  have "store (length (utf8_enc cp)) 0 (map Some (utf8_enc cp) @ sys_alloc 1) = Inr (map Some (utf8_enc cp @ [0]))"
    using store_next [of "utf8_enc cp" 0 0] by (simp add: sys_alloc_def)
  moreover have "length (utf8_enc cp) + 1 < 18446744073709551616" using utf8_enc_not_Nil(3) [of cp] by linarith
  ultimately show ?thesis
    using encode_alloc [OF assms] by (simp add: chr_def length_utf8_enc [symmetric])
qed

lemma chr_scalar: "scalar cp \<Longrightarrow> chr cp = Inr (mk_str [cp])"
  using from_owned_utf8 [of "[cp]"] utf8_enc_not_Nil(3) [of cp] chr_eq [of cp] by (simp add: scalar_bound)

lemma chr_surrogate: assumes "\<not> scalar cp" "cp < 0x110000"
  shows "chr cp = Inl (Panic ''chr(): not a valid Unicode code point'')"
proof -
  have sur: "0xD800 \<le> cp" "cp < 0xE000" using assms by (auto simp: scalar_def)
  have "cp div 4096 < 16" using lead_div_bounds [of cp] assms sur by simp
  then have bytes: "\<forall>b \<in> set (utf8_enc cp). b < 256" using sur by (auto simp: utf8_enc_def less_mult_imp_div_less)
  have "\<nexists>cps. list_all scalar cps \<and> utf8_enc cp = utf8 cps"
  proof
    assume "\<exists>cps. list_all scalar cps \<and> utf8_enc cp = utf8 cps"
    then obtain c cps where "scalar c" "utf8_enc cp @ [] = utf8_enc c @ utf8 cps"
      by (metis append_Nil2 list.exhaust list.pred_inject(2) utf8_enc_not_Nil(1) utf8_simps(1,2))
    then show False using enc_prefix_unique [of cp "[]" c] assms by (simp add: scalar_bound)
  qed
  then obtain m where "from_owned_cstr (map Some (utf8_enc cp @ [0])) (length (utf8_enc cp) + 1) = Inl (CodecError ''utf-8'' m)"
    using from_owned_cases [of "utf8_enc cp"] bytes le_less_trans [OF utf8_enc_not_Nil(3) [of cp], of "2 ^ 63"] by auto
  then show ?thesis using chr_eq [OF assms(2)] by (simp add: unwrap_def)
qed

lemma ord_eq: assumes "list_all scalar cps" "length (utf8 cps) < 2 ^ 63"
  shows "ord (mk_str cps) = (case cps of [] \<Rightarrow> Inl (Panic ''ord(): expected a string of length 1, got an empty string'')
     | [cp] \<Rightarrow> Inr cp | _ \<Rightarrow> Inl (Panic ''ord(): expected a string of length 1, got a longer string''))"
proof (cases cps)
  case (Cons cp rest)
  have "decode_utf8_at (s_data (mk_str cps)) 0 = Inr (cp, length (utf8_enc cp))"
    using decode_at [of "[]" cp rest] assms Cons by simp
  then show ?thesis using Cons by (auto simp: ord_def split: list.splits)
qed (simp add: ord_def)

subsection \<open>Pieces and elements\<close>

lemma copy_fresh: "sys_memcpy 0 (sys_alloc (length xs + 1)) (length pre) (map Some (pre @ xs @ post)) (length xs)
    = Inr (map Some xs @ sys_alloc 1)"
  by (simp add: sys_alloc_def replicate_append_same [symmetric] del: replicate.simps)

lemma copy_terminated: "rbind (sys_memcpy 0 (sys_alloc (length xs + 1)) (length pre) (map Some (pre @ xs @ post)) (length xs))
    (store (length xs) 0) = Inr (map Some (xs @ [0]))"
  unfolding copy_fresh using store_next [of xs 0 0] by (simp add: sys_alloc_def)

lemma byte_slice_bytes: assumes "length (pre @ xs @ post) < 2 ^ 63" "s_data s = map Some (pre @ xs @ post)"
  shows "byte_slice s (length pre) (length pre + length xs)
    = unwrap ''invalid UTF-8 in _byte_slice'' (from_owned_cstr (map Some (xs @ [0])) (length xs + 1))"
proof -
  have "length xs + 1 < 18446744073709551616" using assms(1) by simp
  then show ?thesis
    using copy_terminated [of xs pre post] unfolding byte_slice_def Let_def assms(2)
    by (simp add: sub_panic_def rbind_def split: sum.splits del: map_append)
qed

lemma byte_slice_utf8: assumes "list_all scalar (a @ b @ c)" "length (utf8 (a @ b @ c)) + 1 < 2 ^ 63"
  shows "byte_slice (mk_str (a @ b @ c)) (length (utf8 a)) (length (utf8 a) + length (utf8 b)) = Inr (mk_str b)"
  using byte_slice_bytes [of "utf8 a" "utf8 b" "utf8 c @ [0]" "mk_str (a @ b @ c)"] from_owned_utf8 [of b] assms by simp

lemma skip_codepoints_utf8: assumes "length (utf8 (a @ b @ c)) < 2 ^ 63" "list_all scalar (a @ b @ c)"
  shows "skip_codepoints (length b) (s_data (mk_str (a @ b @ c))) (length (utf8 a)) = Inr (length (utf8 (a @ b)))"
  using assms
proof (induction b arbitrary: a)
  case (Cons cp b)
  have "decode_utf8_at (s_data (mk_str (a @ cp # b @ c))) (length (utf8 a)) = Inr (cp, length (utf8_enc cp))"
    using decode_at [of a cp "b @ c"] Cons.prems by simp
  moreover have "length (utf8 a) + length (utf8_enc cp) < 18446744073709551616" using Cons.prems by simp
  moreover have "skip_codepoints (length b) (s_data (mk_str ((a @ [cp]) @ b @ c))) (length (utf8 (a @ [cp])))
      = Inr (length (utf8 ((a @ [cp]) @ b)))" using Cons.IH [of "a @ [cp]"] Cons.prems by simp
  ultimately show ?case by simp
qed simp

lemma getitem_utf8: assumes s: "list_all scalar cps" "length (utf8 cps) + 1 < 2 ^ 63"
  shows "str_getitem (mk_str cps) idx = (if idx < length cps then Inr (mk_str [cps ! idx]) else Inl IndexError)"
proof (cases "idx < length cps")
  case True
  let ?g = "idx div 256" and ?j = "idx mod 256"
  let ?a = "take (?g * 256) cps" and ?b = "take ?j (drop (?g * 256) cps)" and ?c = "drop (Suc idx) cps"
  have g: "?g * 256 + ?j = idx" by simp
  have ab: "?a @ ?b = take idx cps" using take_add [of "?g * 256" ?j cps] by simp
  have cps: "cps = ?a @ ?b @ (cps ! idx) # ?c" using id_take_nth_drop [OF True] ab by (metis append_assoc)
  have len: "length ?b = ?j" using True g unfolding length_take length_drop by linarith
  have n: "?g < (length (utf8 cps) + 1) div 256 + 1" using True utf8_length_ge [of cps] by (simp add: div_le_mono less_Suc_eq_le)
  have "?g * 256 < length cps" using True g by linarith
  then have L: "load (drop_bit 8 idx) (s_index (mk_str cps)) = Inr (length (utf8 ?a))"
    using n by (simp add: mk_str_def load_def group_index_nth drop_bit_eq_div)
  have S: "skip_codepoints ?j (s_data (mk_str cps)) (length (utf8 ?a)) = Inr (length (utf8 (?a @ ?b)))"
    using skip_codepoints_utf8 [of ?a ?b "(cps ! idx) # ?c", folded cps] s len by simp
  have ok: "list_all scalar ((?a @ ?b) @ (cps ! idx) # ?c)" "length (utf8 ((?a @ ?b) @ [cps ! idx] @ ?c)) + 1 < 2 ^ 63"
    using s cps by simp_all
  then have bound: "length (utf8 (?a @ ?b)) + length (utf8_enc (cps ! idx)) < 18446744073709551616" by simp
  have D: "decode_utf8_at (s_data (mk_str cps)) (length (utf8 (?a @ ?b))) = Inr (cps ! idx, length (utf8_enc (cps ! idx)))"
  proof -
    have e: "(?a @ ?b) @ (cps ! idx) # ?c = cps" using cps by (metis append_assoc)
    have "length (utf8 (?a @ ?b)) < 2 ^ 63" using ok(2) by simp
    then show ?thesis using decode_at [of "?a @ ?b" "cps ! idx" ?c, unfolded e] s(1) by blast
  qed
  have B: "byte_slice (mk_str cps) (length (utf8 (?a @ ?b))) (length (utf8 (?a @ ?b)) + length (utf8_enc (cps ! idx))) = Inr (mk_str [cps ! idx])"
    using byte_slice_utf8 [of "?a @ ?b" "[cps ! idx]" ?c] ok cps by simp
  have "\<not> idx \<ge> length cps" using True by simp
  then show ?thesis using True L S D B bound unfolding str_getitem_def and_low by (simp only: rbind_simps fits_small mk_str_simps if_False split_conv if_True)
qed (simp add: str_getitem_def)

lemma resolve_index_eq: assumes "n < 2 ^ 63" "- (2 ^ 63) \<le> i" "i < 2 ^ 63"
  shows "str_resolve_index i n = (if - int n \<le> i \<and> i < int n then Inr (nat (if i < 0 then i + int n else i)) else Inl IndexError)"
proof -
  have "wrap_isize (i + int n) = i + int n" if "i < 0" using that assms by (simp add: wrap_isize_def)
  then show ?thesis using assms by (auto simp: str_resolve_index_def isize_of_def Let_def)
qed

lemma getitem_signed_utf8: assumes "list_all scalar cps" "length (utf8 cps) + 1 < 2 ^ 63" "- (2 ^ 63) \<le> i" "i < 2 ^ 63"
  shows "str_getitem_signed (mk_str cps) i
    = (if - int (length cps) \<le> i \<and> i < int (length cps) then Inr (mk_str [cps ! nat (if i < 0 then i + int (length cps) else i)])
       else Inl IndexError)"
proof -
  have "length cps < 2 ^ 63" using utf8_length_ge [of cps] assms(2) by linarith
  then show ?thesis
    using resolve_index_eq [of "length cps" i] getitem_utf8 [OF assms(1,2)] assms(3,4)
    by (auto simp: str_getitem_signed_def nat_less_iff)
qed

definition clamp :: "int \<Rightarrow> nat \<Rightarrow> nat" where
  "clamp b n = nat (min (int n) (max 0 (if b < 0 then b + int n else b)))"

lemma clamp_slice_bound_eq: assumes "n < 2 ^ 63" "- (2 ^ 63) \<le> b" "b < 2 ^ 63"
  shows "str_clamp_bound b (int n) = int (clamp b n)"
proof -
  have "wrap_isize (b + int n) = b + int n" if "b < 0" using that assms by (simp add: wrap_isize_def)
  then show ?thesis by (auto simp: str_clamp_bound_def clamp_def Let_def)
qed

lemma clamp_le: "clamp b n \<le> n"
  by (simp add: clamp_def)

lemma resolve_slice_eq: assumes "n < 2 ^ 63" "- (2 ^ 63) \<le> a" "a < 2 ^ 63" "\<And>e. stop = Some e \<Longrightarrow> - (2 ^ 63) \<le> e \<and> e < 2 ^ 63"
  shows "str_resolve_bounds a stop n = Inr (clamp a n, max (clamp a n) (case stop of None \<Rightarrow> n | Some e \<Rightarrow> clamp e n))"
  using assms clamp_slice_bound_eq [of n a]
  by (auto simp: str_resolve_bounds_def isize_of_def Let_def clamp_slice_bound_eq split: option.splits)

text \<open>A slice takes bytes: it succeeds exactly when both bounds fall between code points.\<close>

lemma slice_utf8: assumes s: "list_all scalar cps" "length (utf8 cps) + 1 < 2 ^ 63"
    and b: "- (2 ^ 63) \<le> a" "a < 2 ^ 63" "\<And>e. stop = Some e \<Longrightarrow> - (2 ^ 63) \<le> e \<and> e < 2 ^ 63"
    and lo: "lo = clamp a (length (utf8 cps))"
    and hi: "hi = max lo (case stop of None \<Rightarrow> length (utf8 cps) | Some e \<Rightarrow> clamp e (length (utf8 cps)))"
  shows "(\<exists>piece. list_all scalar piece \<and> utf8 piece = take (hi - lo) (drop lo (utf8 cps)) \<and> str_slice (mk_str cps) a stop = Inr (mk_str piece))
    \<or> (\<nexists>piece. list_all scalar piece \<and> utf8 piece = take (hi - lo) (drop lo (utf8 cps)))
      \<and> str_slice (mk_str cps) a stop = Inl (Panic ''invalid UTF-8 in _byte_slice'')"
proof -
  let ?u = "utf8 cps"
  let ?pre = "take lo ?u" and ?xs = "take (hi - lo) (drop lo ?u)" and ?post = "drop hi ?u @ [0]"
  have r: "lo \<le> hi" "hi \<le> length ?u" using clamp_le lo hi by (auto split: option.splits)
  have u: "?u = ?pre @ ?xs @ drop hi ?u" using r by (metis append_assoc append_take_drop_id le_add_diff_inverse take_add)
  then have d: "s_data (mk_str cps) = map Some (?pre @ ?xs @ ?post)" by (metis append_assoc mk_str_simps(1))
  have l: "length ?pre = lo" "length ?xs = hi - lo" using r by simp_all
  have sl: "str_slice (mk_str cps) a stop = byte_slice (mk_str cps) lo hi"
    using resolve_slice_eq [of "length ?u" a stop] s b by (simp add: str_slice_def lo hi)
  have "length (?pre @ ?xs @ ?post) < 2 ^ 63" using s(2) r by simp
  from byte_slice_bytes [OF this d] have e: "byte_slice (mk_str cps) lo hi
      = unwrap ''invalid UTF-8 in _byte_slice'' (from_owned_cstr (map Some (?xs @ [0])) (length ?xs + 1))"
    using l r by simp
  have "\<forall>b \<in> set ?xs. b < 256" "length ?xs < 2 ^ 63"
    using utf8_bytes [OF s(1)] s(2) l r by (auto dest!: in_set_takeD in_set_dropD)
  from from_owned_cases [OF this] show ?thesis unfolding sl e by (force simp: unwrap_def)
qed

text \<open>\<^verbatim>\<open>from_cstr\<close> copies the buffer first.\<close>

lemma from_cstr_eq: "length bs + 1 < 2 ^ 63 \<Longrightarrow>
    from_cstr (map Some (bs @ [0])) (length bs + 1) = from_owned_cstr (map Some (bs @ [0])) (length bs + 1)"
proof -
  assume "length bs + 1 < 2 ^ 63"
  have "sys_memcpy 0 (sys_alloc (length bs + 1)) 0 (map Some (bs @ [0])) (length bs + 1) = Inr (map Some (bs @ [0]))"
    by (simp add: sys_alloc_def)
  moreover have "load (length bs) (map Some (bs @ [0])) = Inr 0" by (simp add: load_def nth_append)
  ultimately show ?thesis by (simp add: from_cstr_def sub_panic_def)
qed

end
