(* ===== verification/Lib_Str_Ops.thy ===== *)
theory Lib_Str_Ops
  imports Lib_Str
begin

unbundle bit_operations_syntax

text \<open>
  Searching, splitting and assembling strings: \<^verbatim>\<open>find\<close> and its relatives, \<^verbatim>\<open>split\<close>, \<^verbatim>\<open>replace\<close>,
  \<^verbatim>\<open>join\<close>, \<^verbatim>\<open>concat\<close>, \<^verbatim>\<open>__add__\<close> and the codecs of \<^verbatim>\<open>src/lib/codecs/utf8.py\<close>.  A \<^verbatim>\<open>list[str]\<close>
  is the sequence of its elements.
\<close>

abbreviation self_msg :: string where "self_msg \<equiv> ''bounded by self_len, cannot overflow''"
abbreviation size_msg :: string where "size_msg \<equiv> ''irrational string length''"

subsection \<open>Searching\<close>

function find_sub_loop :: "mem \<Rightarrow> mem \<Rightarrow> nat \<Rightarrow> nat \<Rightarrow> nat \<Rightarrow> int res" where
  "find_sub_loop data sub sub_len last_start i =
     (if i \<le> last_start
      then rbind (sys_memcmp i data sub sub_len) (\<lambda>eq.
           if eq then isize_of self_msg i
           else rbind (fits self_msg (i + 1)) (\<lambda>i'. find_sub_loop data sub sub_len last_start i'))
      else Inr (- 1))"
  by pat_completeness auto
termination by (relation "measure (\<lambda>(d, s, n, l, i). Suc l - i)") auto

declare find_sub_loop.simps [simp del]

definition str_find :: "mstr \<Rightarrow> mstr \<Rightarrow> nat \<Rightarrow> int res" where
  "str_find s sub start =
     (let self_len = byte_len s; sub_len = byte_len sub in
      if start > self_len then Inr (- 1)
      else if sub_len = 0 then isize_of self_msg start
      else if sub_len > wsub64 self_len start then Inr (- 1)
      else find_sub_loop (s_data s) (s_data sub) sub_len (wsub64 self_len sub_len) start)"

definition str_index :: "mstr \<Rightarrow> mstr \<Rightarrow> nat res" where
  "str_index s sub = rbind (str_find s sub 0) (\<lambda>offset. if offset = - 1 then Inl IndexError else usize_panic self_msg offset)"

fun rfind_loop :: "mem \<Rightarrow> mem \<Rightarrow> nat \<Rightarrow> nat \<Rightarrow> int res" where
  "rfind_loop data sub sub_len i =
     rbind (sys_memcmp i data sub sub_len) (\<lambda>eq.
     if eq then isize_of self_msg i
     else (case i of 0 \<Rightarrow> Inr (- 1) | Suc i' \<Rightarrow> rfind_loop data sub sub_len i'))"

declare rfind_loop.simps [simp del]

definition str_rfind :: "mstr \<Rightarrow> mstr \<Rightarrow> int res" where
  "str_rfind s sub =
     (let self_len = byte_len s; sub_len = byte_len sub in
      if sub_len = 0 then isize_of self_msg self_len
      else if sub_len > self_len then Inr (- 1)
      else rfind_loop (s_data s) (s_data sub) sub_len (wsub64 self_len sub_len))"

definition str_rindex :: "mstr \<Rightarrow> mstr \<Rightarrow> nat res" where
  "str_rindex s sub = rbind (str_rfind s sub) (\<lambda>offset. if offset = - 1 then Inl IndexError else usize_panic self_msg offset)"

definition startswith :: "mstr \<Rightarrow> mstr \<Rightarrow> nat \<Rightarrow> bool res" where
  "startswith s pre start =
     (let self_len = byte_len s; prefix_len = byte_len pre in
      if start > self_len then Inr False
      else if prefix_len = 0 then Inr True
      else if prefix_len > wsub64 self_len start then Inr False
      else sys_memcmp start (s_data s) (s_data pre) prefix_len)"

definition endswith :: "mstr \<Rightarrow> mstr \<Rightarrow> bool res" where
  "endswith s suf =
     (let self_len = byte_len s; suffix_len = byte_len suf in
      if suffix_len = 0 then Inr True
      else if suffix_len > self_len then Inr False
      else sys_memcmp (wsub64 self_len suffix_len) (s_data s) (s_data suf) suffix_len)"

definition removeprefix :: "mstr \<Rightarrow> mstr \<Rightarrow> mstr res" where
  "removeprefix s pre =
     rbind (startswith s pre 0) (\<lambda>yes. if \<not> yes then Inr s else byte_slice s (byte_len pre) (byte_len s))"

definition removesuffix :: "mstr \<Rightarrow> mstr \<Rightarrow> mstr res" where
  "removesuffix s suf =
     rbind (endswith s suf) (\<lambda>yes. if \<not> yes then Inr s else byte_slice s 0 (wsub64 (byte_len s) (byte_len suf)))"

subsection \<open>Splitting and replacing\<close>

lemma find_sub_loop_range: "find_sub_loop data sub n l i = Inr r \<Longrightarrow> r \<noteq> - 1 \<Longrightarrow> int i \<le> r \<and> r \<le> int l"
proof (induction data sub n l i rule: find_sub_loop.induct)
  case (1 data sub n l i)
  have "i \<le> l" using 1(2,3) by (simp add: find_sub_loop.simps [of data sub n l i] split: if_splits)
  moreover obtain eq where eq: "sys_memcmp i data sub n = Inr eq"
    "(if eq then isize_of self_msg i else rbind (fits self_msg (i + 1)) (\<lambda>i'. find_sub_loop data sub n l i')) = Inr r"
    using 1(2) calculation unfolding find_sub_loop.simps [of data sub n l i] by (auto simp: rbind_Inr)
  ultimately show ?case
  proof (cases eq)
    case True
    then show ?thesis using eq(2) \<open>i \<le> l\<close> by (auto simp: isize_of_def split: if_splits)
  next
    case False
    then obtain i' where i': "fits self_msg (i + 1) = Inr i'" "find_sub_loop data sub n l i' = Inr r" using eq(2) by (auto simp: rbind_Inr)
    then have "int i' \<le> r \<and> r \<le> int l" using 1(1) [OF \<open>i \<le> l\<close> eq(1) False i'(1,2)] 1(3) by blast
    then show ?thesis using i'(1) by simp
  qed
qed

lemma wsub64_le: "b \<le> a \<Longrightarrow> wsub64 a b \<le> a - b"
proof -
  assume "b \<le> a"
  then have "wsub64 a b = (a - b + 2 ^ 64) mod 2 ^ 64" by (simp add: wsub64_def wrap64_def)
  then show ?thesis by (simp add: mod_less_eq_dividend)
qed

lemma str_find_range: assumes "str_find s sub start = Inr r" "r \<noteq> - 1"
  shows "start \<le> nat r \<and> nat r + byte_len sub \<le> byte_len s"
proof (cases "byte_len sub = 0")
  case False
  have "byte_len sub \<le> byte_len s" using assms False wsub64_le [of start "byte_len s"]
    by (auto simp: str_find_def Let_def not_less split: if_splits)
  moreover have "int start \<le> r \<and> r \<le> int (wsub64 (byte_len s) (byte_len sub))"
    using assms False find_sub_loop_range by (auto simp: str_find_def Let_def split: if_splits)
  ultimately show ?thesis using wsub64_le [of "byte_len sub" "byte_len s"] by linarith
qed (use assms in \<open>auto simp: str_find_def isize_of_def Let_def split: if_splits\<close>)

text \<open>Without the check of an empty separator the loop would not end: a match would not advance \<open>start\<close>.\<close>

function split_loop :: "mstr \<Rightarrow> mstr \<Rightarrow> nat \<Rightarrow> mstr list res" where
  "split_loop s sep start =
     (if byte_len sep = 0 then Inl Diverges
      else rbind (str_find s sep start) (\<lambda>found.
           if found = - 1 then rbind (byte_slice s start (byte_len s)) (\<lambda>piece. Inr [piece])
           else rbind (usize_panic self_msg found) (\<lambda>match_start.
                rbind (byte_slice s start match_start) (\<lambda>piece.
                rbind (fits self_msg (match_start + byte_len sep)) (\<lambda>start'.
                rbind (split_loop s sep start') (\<lambda>rest. Inr (piece # rest)))))))"
  by pat_completeness auto
termination
proof (relation "measure (\<lambda>(s, sep, start). byte_len s - start)")
  fix s sep :: mstr and start found match_start and piece :: mstr and start'
  assume a: "byte_len sep \<noteq> 0" "str_find s sep start = Inr found" "found \<noteq> - 1"
    "usize_panic self_msg found = Inr match_start" "fits self_msg (match_start + byte_len sep) = Inr start'"
  have "match_start = nat found" using a(4) by (simp add: usize_panic_def split: if_splits)
  moreover have "start \<le> nat found \<and> nat found + byte_len sep \<le> byte_len s" using str_find_range a by blast
  ultimately show "((s, sep, start'), s, sep, start) \<in> measure (\<lambda>(s, sep, start). byte_len s - start)" using a(1,5) by auto
qed simp

declare split_loop.simps [simp del]

definition split :: "mstr \<Rightarrow> mstr \<Rightarrow> mstr list res" where
  "split s sep =
     (if byte_len sep = 0 then Inl (Panic ''str.split(...): separator must not be empty'') else split_loop s sep 0)"

definition rsplit :: "mstr \<Rightarrow> mstr \<Rightarrow> mstr list res" where
  "rsplit s sep = split s sep"

function count_loop :: "mstr \<Rightarrow> mstr \<Rightarrow> nat \<Rightarrow> nat \<Rightarrow> nat res" where
  "count_loop s old start occurrences =
     (if byte_len old = 0 then Inl Diverges
      else rbind (str_find s old start) (\<lambda>found.
           if found = - 1 then Inr occurrences
           else rbind (usize_panic self_msg found) (\<lambda>match_start.
                rbind (fits self_msg (occurrences + 1)) (\<lambda>occurrences'.
                rbind (fits self_msg (match_start + byte_len old)) (\<lambda>start'.
                count_loop s old start' occurrences')))))"
  by pat_completeness auto
termination
proof (relation "measure (\<lambda>(s, old, start, n). byte_len s - start)")
  fix s old :: mstr and start n :: nat and found match_start n' start'
  assume a: "byte_len old \<noteq> 0" "str_find s old start = Inr found" "found \<noteq> - 1"
    "usize_panic self_msg found = Inr match_start" "fits self_msg (match_start + byte_len old) = Inr start'"
  have "match_start = nat found" using a(4) by (simp add: usize_panic_def split: if_splits)
  moreover have "start \<le> nat found \<and> nat found + byte_len old \<le> byte_len s" using str_find_range a by blast
  ultimately show "((s, old, start', n'), s, old, start, n) \<in> measure (\<lambda>(s, old, start, n). byte_len s - start)" using a(1,5) by auto
qed simp

declare count_loop.simps [simp del]

text \<open>The pass that fills the buffer; its result is the buffer and how much of it is written.  The length of
  a string is a \<^verbatim>\<open>usize\<close>, which the first test states for a pass whose sums wrap.\<close>

function fill_loop :: "mstr \<Rightarrow> mstr \<Rightarrow> mstr \<Rightarrow> nat \<Rightarrow> mem \<Rightarrow> nat \<Rightarrow> (mem \<times> nat) res" where
  "fill_loop s old new start buf out =
     (if byte_len old = 0 \<or> \<not> byte_len s < usize_lim then Inl Diverges
      else rbind (str_find s old start) (\<lambda>found.
           if found = - 1
           then (let tail_len = wsub64 (byte_len s) start in
                 rbind (sys_memcpy out buf start (s_data s) tail_len) (\<lambda>buf. Inr (buf, wrap64 (out + tail_len))))
           else rbind (usize_panic self_msg found) (\<lambda>match_start.
                let piece_len = wsub64 match_start start in
                rbind (sys_memcpy out buf start (s_data s) piece_len) (\<lambda>buf.
                let out = wrap64 (out + piece_len) in
                rbind (sys_memcpy out buf 0 (s_data new) (byte_len new)) (\<lambda>buf.
                fill_loop s old new (wrap64 (match_start + byte_len old)) buf (wrap64 (out + byte_len new)))))))"
  by pat_completeness auto
termination
proof (relation "measure (\<lambda>(s, old, new, start, buf, out). byte_len s - start)")
  fix s old new :: mstr and start out :: nat and buf :: mem and found match_start x buf1 xa buf2
  assume a: "\<not> (byte_len old = 0 \<or> \<not> byte_len s < usize_lim)" "str_find s old start = Inr found" "found \<noteq> - 1"
    "usize_panic self_msg found = Inr match_start"
  have m: "match_start = nat found" using a(4) by (simp add: usize_panic_def split: if_splits)
  moreover have r: "start \<le> nat found \<and> nat found + byte_len old \<le> byte_len s" using str_find_range a by blast
  moreover have "wrap64 (match_start + byte_len old) = match_start + byte_len old" using a(1) m r by (simp add: usize_lim_def)
  ultimately show "((s, old, new, wrap64 (match_start + byte_len old), buf2, wrap64 (xa + byte_len new)), s, old, new, start, buf, out)
      \<in> measure (\<lambda>(s, old, new, start, buf, out). byte_len s - start)" using a(1) by auto
qed simp

declare fill_loop.simps [simp del]

definition replace :: "mstr \<Rightarrow> mstr \<Rightarrow> mstr \<Rightarrow> mstr res" where
  "replace s old new =
     (if byte_len old = 0 then Inl (Panic ''str.replace(...): old must not be empty'')
      else rbind (count_loop s old 0 0) (\<lambda>occurrences.
           if occurrences = 0 then Inr s
           else rbind (fits size_msg (occurrences * byte_len old)) (\<lambda>removed.
                rbind (fits size_msg (occurrences * byte_len new)) (\<lambda>added.
                rbind (fits size_msg (wsub64 (byte_len s) removed + added)) (\<lambda>kept_added.
                rbind (fits size_msg (1 + kept_added)) (\<lambda>new_size.
                rbind (fill_loop s old new 0 (sys_alloc new_size) 0) (\<lambda>(buf, out).
                rbind (store out 0 buf) (\<lambda>buf.
                unwrap ''invalid UTF-8 in replace'' (from_owned_cstr buf new_size)))))))))"

subsection \<open>Assembling\<close>

definition str_add :: "mstr \<Rightarrow> mstr \<Rightarrow> mstr res" where
  "str_add s other =
     (let self_len = wsub64 (s_byte_size s) 1 in
      rbind (fits size_msg (self_len + s_byte_size other)) (\<lambda>new_byte_size.
      rbind (sys_memcpy 0 (sys_alloc new_byte_size) 0 (s_data s) self_len) (\<lambda>new_buf.
      rbind (sys_memcpy self_len new_buf 0 (s_data other) (s_byte_size other)) (\<lambda>new_buf.
      unwrap ''invalid UTF-8 in str.__add__'' (from_owned_cstr new_buf new_byte_size)))))"

fun total_len :: "mstr list \<Rightarrow> nat \<Rightarrow> nat res" where
  "total_len [] n = Inr n"
| "total_len (p # ps) n = rbind (fits size_msg (n + byte_len p)) (\<lambda>n'. total_len ps n')"

fun join_fill :: "bool \<Rightarrow> mstr \<Rightarrow> mstr list \<Rightarrow> mem \<Rightarrow> nat \<Rightarrow> (mem \<times> nat) res" where
  "join_fill first sep [] buf offset = Inr (buf, offset)"
| "join_fill first sep (p # ps) buf offset =
     rbind (if \<not> first
            then rbind (sys_memcpy offset buf 0 (s_data sep) (byte_len sep)) (\<lambda>buf. Inr (buf, wrap64 (offset + byte_len sep)))
            else Inr (buf, offset)) (\<lambda>(buf, offset).
     rbind (sys_memcpy offset buf 0 (s_data p) (byte_len p)) (\<lambda>buf.
     join_fill False sep ps buf (wrap64 (offset + byte_len p))))"

definition empty_str :: mstr where
  "empty_str = \<lparr>s_data = [Some 0], s_byte_size = 1, s_char_count = 0, s_index = [None]\<rparr>"

definition str_join :: "mstr \<Rightarrow> mstr list \<Rightarrow> mstr res" where
  "str_join s parts =
     (if parts = [] then Inr empty_str
      else rbind (total_len parts 1) (\<lambda>new_size.
           rbind (fits size_msg (byte_len s * (length parts - 1))) (\<lambda>seps.
           rbind (fits size_msg (new_size + seps)) (\<lambda>new_size.
           rbind (join_fill True s parts (sys_alloc new_size) 0) (\<lambda>(new_buf, offset).
           rbind (store offset 0 new_buf) (\<lambda>new_buf.
           unwrap ''invalid UTF-8 in join'' (from_owned_cstr new_buf new_size)))))))"

end
