(* ===== verification/Lib_Str_Search.thy ===== *)
theory Lib_Str_Search
  imports Lib_Str_Correct Lib_Str_Ops "HOL-Library.Sublist"
begin

text \<open>
  The operations of \<^verbatim>\<open>str\<close> that search for a piece of text, split at it and replace it are operations
  on sequences of code points: a match of the bytes is a match of code points.
\<close>

subsection \<open>First occurrence in a sequence\<close>

fun find_pos :: "'a list \<Rightarrow> 'a list \<Rightarrow> nat option" where
  "find_pos xs sub = (if prefix sub xs then Some 0 else case xs of [] \<Rightarrow> None | x # xs' \<Rightarrow> map_option Suc (find_pos xs' sub))"

declare find_pos.simps [simp del]

lemma find_pos_Some: "find_pos xs sub = Some j \<longleftrightarrow> j \<le> length xs \<and> prefix sub (drop j xs) \<and> (\<forall>k < j. \<not> prefix sub (drop k xs))"
proof (induction xs arbitrary: j)
  case Nil
  then show ?case by (cases j) (auto simp: find_pos.simps)
next
  case (Cons x xs)
  show ?case
  proof (cases "prefix sub (x # xs)")
    case True
    then show ?thesis by (auto simp: find_pos.simps [of "x # xs"] intro: Nat.gr0I)
  next
    case False
    then show ?thesis using Cons by (cases j) (auto simp: find_pos.simps [of "x # xs"] less_Suc_eq_0_disj)
  qed
qed

lemma find_pos_None: "find_pos xs sub = None \<longleftrightarrow> (\<forall>k \<le> length xs. \<not> prefix sub (drop k xs))"
proof (induction xs)
  case (Cons x xs)
  have "(\<forall>k \<le> length (x # xs). \<not> prefix sub (drop k (x # xs))) \<longleftrightarrow> \<not> prefix sub (x # xs) \<and> (\<forall>k \<le> length xs. \<not> prefix sub (drop k xs))"
    by (metis Suc_le_mono drop0 drop_Suc_Cons length_Cons not0_implies_Suc zero_le)
  then show ?case using Cons by (simp add: find_pos.simps [of "x # xs"])
qed (simp add: find_pos.simps)

lemma find_pos_bound: "find_pos xs sub = Some j \<Longrightarrow> j + length sub \<le> length xs"
  unfolding find_pos_Some using prefix_length_le by fastforce

lemma find_pos_split: "find_pos xs sub = Some j \<Longrightarrow> xs = take j xs @ sub @ drop (j + length sub) xs"
  unfolding find_pos_Some by (metis append_take_drop_id append_eq_conv_conj drop_drop add.commute prefix_def)

lemma find_pos_Nil [simp]: "find_pos xs [] = Some 0"
  by (simp add: find_pos.simps)

text \<open>Searching the bytes is searching the code points.\<close>

lemma prefix_utf8: assumes "list_all scalar xs" "list_all scalar sub"
  shows "prefix (utf8 sub) (utf8 xs) \<longleftrightarrow> prefix sub xs"
proof
  assume "prefix (utf8 sub) (utf8 xs)"
  then obtain r where "utf8 sub @ r = utf8 xs" by (auto simp: prefix_def)
  then show "prefix sub xs" using utf8_prefix [of sub r xs] assms by (auto simp: prefix_def)
qed (auto simp: prefix_def)

lemma prefix_drop_utf8: assumes "list_all scalar xs" "list_all scalar sub" "sub \<noteq> []" "k \<le> length (utf8 xs)"
    "prefix (utf8 sub) (drop k (utf8 xs))"
  obtains j where "k = length (utf8 (take j xs))" "j \<le> length xs" "prefix sub (drop j xs)"
proof -
  from assms(5) obtain q where "drop k (utf8 xs) = utf8 sub @ q" by (auto simp: prefix_def)
  then have "utf8 xs = take k (utf8 xs) @ utf8 sub @ q" by (metis append_take_drop_id)
  then obtain as cs where x: "xs = as @ sub @ cs" "take k (utf8 xs) = utf8 as" using utf8_sync assms by blast
  have "length (take k (utf8 xs)) = k" using assms(4) by simp
  then have "k = length (utf8 as)" unfolding x(2) by simp
  then have "k = length (utf8 (take (length as) xs))" "length as \<le> length xs" "prefix sub (drop (length as) xs)"
    unfolding x(1) by simp_all
  then show ?thesis using that by blast
qed

lemma utf8_take_less: "i < j \<Longrightarrow> j \<le> length xs \<Longrightarrow> length (utf8 (take i xs)) < length (utf8 (take j xs))"
proof -
  assume ij: "i < j" "j \<le> length xs"
  then have "take j xs = take i xs @ take (j - i) (drop i xs)" by (metis le_add_diff_inverse less_imp_le take_add)
  moreover have "take (j - i) (drop i xs) \<noteq> []" using ij by simp
  ultimately show ?thesis by (simp add: zero_less_iff_neq_zero)
qed

lemma drop_utf8_take: "j \<le> length xs \<Longrightarrow> drop (length (utf8 (take j xs))) (utf8 xs) = utf8 (drop j xs)"
  by (metis append_eq_conv_conj append_take_drop_id utf8_simps(3))

lemma utf8_take_le: "length (utf8 (take j xs)) \<le> length (utf8 xs)"
  by (metis append_take_drop_id le_add1 length_append utf8_simps(3))

lemma find_pos_utf8: assumes "list_all scalar xs" "list_all scalar sub" "sub \<noteq> []"
  shows "find_pos (utf8 xs) (utf8 sub) = map_option (\<lambda>j. length (utf8 (take j xs))) (find_pos xs sub)"
proof -
  have pd: "prefix (utf8 sub) (drop (length (utf8 (take j xs))) (utf8 xs)) \<longleftrightarrow> prefix sub (drop j xs)" if "j \<le> length xs" for j
    using that assms(1,2) prefix_utf8 [of "drop j xs" sub] by (simp add: drop_utf8_take list_all_length)
  show ?thesis
  proof (cases "find_pos xs sub")
    case None
    have "\<not> prefix (utf8 sub) (drop k (utf8 xs))" if "k \<le> length (utf8 xs)" for k
      using prefix_drop_utf8 [OF assms that] None unfolding find_pos_None by metis
    then show ?thesis using None find_pos_None by auto
  next
    case (Some j)
    then have j: "j \<le> length xs" "prefix sub (drop j xs)" "\<And>k. k < j \<Longrightarrow> \<not> prefix sub (drop k xs)" unfolding find_pos_Some by auto
    have "\<not> prefix (utf8 sub) (drop k (utf8 xs))" if k: "k < length (utf8 (take j xs))" for k
    proof
      assume p: "prefix (utf8 sub) (drop k (utf8 xs))"
      have "k \<le> length (utf8 xs)" using k utf8_take_le [of j xs] by linarith
      then obtain i where i: "k = length (utf8 (take i xs))" "i \<le> length xs" "prefix sub (drop i xs)"
        using prefix_drop_utf8 [OF assms _ p] by metis
      have "\<not> i < j" using j(3) i(3) by blast
      then have "length (utf8 (take j xs)) \<le> k" using i utf8_take_less [of j i xs] by (cases "i = j") auto
      then show False using k by simp
    qed
    then have "find_pos (utf8 xs) (utf8 sub) = Some (length (utf8 (take j xs)))"
      unfolding find_pos_Some using j(1,2) pd utf8_take_le by blast
    then show ?thesis using Some by simp
  qed
qed

subsection \<open>The search loops\<close>

lemma memcmp_prefix: assumes "i + length sub \<le> length text"
  shows "sys_memcmp i (map Some (text @ [0])) (map Some (sub @ [0])) (length sub) = Inr (prefix sub (drop i text))"
proof -
  have "take (length sub) (drop i text) = sub \<longleftrightarrow> prefix sub (drop i text)"
    by (metis append_eq_conv_conj append_take_drop_id prefix_def)
  moreover have e: "take (length sub) (drop i (map Some (text @ [0]))) = map Some (take (length sub) (drop i text))"
    "take (length sub) (map Some (sub @ [0])) = map Some sub"
    using assms by (simp_all add: take_map drop_map)
  ultimately show ?thesis using assms unfolding sys_memcmp_def e by (simp add: inj_map_eq_map [OF inj_Some] image_iff)
qed

lemma find_sub_loop_eq: assumes "length sub \<le> length text" "length text < 2 ^ 63"
  shows "i \<le> length text \<Longrightarrow> find_sub_loop (map Some (text @ [0])) (map Some (sub @ [0])) (length sub) (length text - length sub) i
    = Inr (case find_pos (drop i text) sub of None \<Rightarrow> - 1 | Some j \<Rightarrow> int (i + j))"
proof (induction "length text - i" arbitrary: i rule: less_induct)
  case less
  let ?F = "find_sub_loop (map Some (text @ [0])) (map Some (sub @ [0])) (length sub) (length text - length sub)"
  show ?case
  proof (cases "i \<le> length text - length sub")
    case True
    then have m: "sys_memcmp i (map Some (text @ [0])) (map Some (sub @ [0])) (length sub) = Inr (prefix sub (drop i text))"
      using assms by (intro memcmp_prefix) simp
    show ?thesis
    proof (cases "prefix sub (drop i text)")
      case p: True
      then show ?thesis using True m less.prems assms(2)
        by (subst find_sub_loop.simps) (simp add: isize_of_def find_pos.simps [of "drop i text"])
    next
      case p: False
      then have i: "i < length text" using True less.prems assms(1) by (cases "i = length text"; cases sub) auto
      have "?F i = ?F (i + 1)" using True m p i assms(2) by (subst find_sub_loop.simps) simp
      also have "\<dots> = Inr (case find_pos (drop (i + 1) text) sub of None \<Rightarrow> - 1 | Some j \<Rightarrow> int (i + 1 + j))"
        using less.hyps [of "i + 1"] i by simp
      also have "\<dots> = Inr (case find_pos (drop i text) sub of None \<Rightarrow> - 1 | Some j \<Rightarrow> int (i + j))"
      proof -
        have "drop i text = text ! i # drop (i + 1) text" using i by (simp add: Cons_nth_drop_Suc)
        then have "find_pos (drop i text) sub = map_option Suc (find_pos (drop (i + 1) text) sub)"
          using p by (simp add: find_pos.simps [of "text ! i # _"])
        then show ?thesis by (simp split: option.splits)
      qed
      finally show ?thesis .
    qed
  next
    case False
    then have "find_pos (drop i text) sub = None"
      using find_pos_bound [of "drop i text" sub] assms less.prems by (cases "find_pos (drop i text) sub") fastforce+
    then show ?thesis using False by (subst find_sub_loop.simps) simp
  qed
qed

lemma str_find_utf8: assumes "list_all scalar (a @ rest)" "list_all scalar sub" "length (utf8 (a @ rest)) < 2 ^ 63"
  shows "str_find (mk_str (a @ rest)) (mk_str sub) (length (utf8 a))
    = Inr (case find_pos rest sub of None \<Rightarrow> - 1 | Some j \<Rightarrow> int (length (utf8 a) + length (utf8 (take j rest))))"
proof (cases "sub = []")
  case True
  then show ?thesis using assms by (simp add: str_find_def isize_of_def Let_def)
next
  case False
  let ?t = "utf8 (a @ rest)" and ?s = "utf8 sub" and ?i = "length (utf8 a)"
  have pos: "find_pos (drop ?i ?t) ?s = map_option (\<lambda>j. length (utf8 (take j rest))) (find_pos rest sub)"
    using find_pos_utf8 [of rest sub] assms False by simp
  show ?thesis
  proof (cases "length ?s \<le> length ?t - ?i")
    case True
    then have "str_find (mk_str (a @ rest)) (mk_str sub) ?i = find_sub_loop (map Some (?t @ [0])) (map Some (?s @ [0])) (length ?s) (length ?t - length ?s) ?i"
      using False assms(3) by (simp add: str_find_def Let_def del: map_append)
    also have "\<dots> = Inr (case find_pos (drop ?i ?t) ?s of None \<Rightarrow> - 1 | Some j \<Rightarrow> int (?i + j))"
      using find_sub_loop_eq [of ?s ?t ?i] True assms(3) by (simp del: map_append)
    finally show ?thesis unfolding pos by (auto split: option.splits)
  next
    case long: False
    then have "find_pos (drop ?i ?t) ?s = None" using find_pos_bound [of "drop ?i ?t" ?s] by (cases "find_pos (drop ?i ?t) ?s") fastforce+
    then have "find_pos rest sub = None" unfolding pos by simp
    then show ?thesis using long False assms(3) by (simp add: str_find_def Let_def)
  qed
qed

subsection \<open>Splitting\<close>

function split_on :: "'a list \<Rightarrow> 'a list \<Rightarrow> 'a list list" where
  "split_on sep xs = (if sep = [] then [xs] else case find_pos xs sep of None \<Rightarrow> [xs]
     | Some j \<Rightarrow> take j xs # split_on sep (drop (j + length sep) xs))"
  by pat_completeness auto
termination
proof (relation "measure (\<lambda>(sep, xs). length xs)")
  fix sep xs :: "'a list" and j
  assume "sep \<noteq> []" "find_pos xs sep = Some j"
  then show "((sep, drop (j + length sep) xs), sep, xs) \<in> measure (\<lambda>(sep, xs). length xs)"
    using find_pos_bound [of xs sep j] by (cases sep) auto
qed simp

declare split_on.simps [simp del]

fun join_on :: "'a list \<Rightarrow> 'a list list \<Rightarrow> 'a list" where
  "join_on sep [] = []"
| "join_on sep [p] = p"
| "join_on sep (p # q # ps) = p @ sep @ join_on sep (q # ps)"

lemma split_on_not_Nil [simp]: "split_on sep xs \<noteq> []"
  by (subst split_on.simps) (simp split: option.splits)

lemma join_on_Cons: "ps \<noteq> [] \<Longrightarrow> join_on sep (p # ps) = p @ sep @ join_on sep ps"
  by (cases ps) simp_all

lemma join_split: "join_on sep (split_on sep xs) = xs"
proof (induction sep xs rule: split_on.induct)
  case (1 sep xs)
  show ?case
  proof (cases "sep = [] \<or> find_pos xs sep = None")
    case True
    then show ?thesis by (subst split_on.simps) auto
  next
    case False
    then obtain j where j: "sep \<noteq> []" "find_pos xs sep = Some j" by auto
    then have "split_on sep xs = take j xs # split_on sep (drop (j + length sep) xs)" by (subst split_on.simps) simp
    then show ?thesis using 1 [OF j] find_pos_split [OF j(2)] by (simp add: join_on_Cons)
  qed
qed

lemma split_on_scalar: "list_all P xs \<Longrightarrow> p \<in> set (split_on sep xs) \<Longrightarrow> list_all P p"
proof (induction sep xs rule: split_on.induct)
  case (1 sep xs)
  then show ?case
    by (subst (asm) split_on.simps) (auto simp: list_all_iff split: if_splits option.splits dest: in_set_takeD in_set_dropD)
qed

lemma split_on_pieces: "sep \<noteq> [] \<Longrightarrow> p \<in> set (split_on sep xs) \<Longrightarrow> find_pos p sep = None"
proof (induction sep xs rule: split_on.induct)
  case (1 sep xs)
  show ?case
  proof (cases "find_pos xs sep")
    case None
    then show ?thesis using 1 by (simp add: split_on.simps [of sep xs])
  next
    case (Some j)
    then have j: "\<And>k. k < j \<Longrightarrow> \<not> prefix sep (drop k xs)" "j \<le> length xs" unfolding find_pos_Some by auto
    have "\<not> prefix sep (drop k (take j xs))" if "k \<le> length (take j xs)" for k
    proof
      assume p: "prefix sep (drop k (take j xs))"
      then have "prefix sep (drop k xs)" by (metis append_take_drop_id drop_append prefix_append prefix_def append_assoc)
      then have "\<not> k < j" using j(1) by blast
      then have "k = j" using that by simp
      then show False using p 1(2) by simp
    qed
    then have "find_pos (take j xs) sep = None" unfolding find_pos_None by blast
    then show ?thesis using 1 Some by (auto simp: split_on.simps [of sep xs])
  qed
qed

lemma byte_slice_tail: assumes "list_all scalar (a @ b)" "length (utf8 (a @ b)) + 1 < 2 ^ 63"
  shows "byte_slice (mk_str (a @ b)) (length (utf8 a)) (length (utf8 (a @ b))) = Inr (mk_str b)"
  using byte_slice_utf8 [of a b "[]"] assms by simp

lemma split_loop_utf8: assumes "list_all scalar sep" "sep \<noteq> []"
  shows "list_all scalar (a @ rest) \<Longrightarrow> length (utf8 (a @ rest)) + 1 < 2 ^ 63 \<Longrightarrow>
    split_loop (mk_str (a @ rest)) (mk_str sep) (length (utf8 a)) = Inr (map mk_str (split_on sep rest))"
  using assms
proof (induction sep rest arbitrary: a rule: split_on.induct)
  case (1 sep rest)
  have F: "str_find (mk_str (a @ rest)) (mk_str sep) (length (utf8 a))
    = Inr (case find_pos rest sep of None \<Rightarrow> - 1 | Some j \<Rightarrow> int (length (utf8 a) + length (utf8 (take j rest))))"
    using str_find_utf8 [of a rest sep] 1(2-) by simp
  show ?case
  proof (cases "find_pos rest sep")
    case None
    then show ?thesis using F byte_slice_tail [of a rest] 1(2-) by (subst split_loop.simps) (simp add: split_on.simps)
  next
    case (Some j)
    let ?p = "take j rest" and ?r = "drop (j + length sep) rest"
    have r: "rest = ?p @ sep @ ?r" using find_pos_split [OF Some] .
    have e: "a @ rest = a @ ?p @ sep @ ?r" "a @ rest = (a @ ?p @ sep) @ ?r" using arg_cong [OF r, of "append a"] by simp_all
    have ih: "split_loop (mk_str ((a @ ?p @ sep) @ ?r)) (mk_str sep) (length (utf8 (a @ ?p @ sep))) = Inr (map mk_str (split_on sep ?r))"
      using 1(1) [OF _ Some, of "a @ ?p @ sep"] 1(2-) e(2) by metis
    have sl: "byte_slice (mk_str (a @ rest)) (length (utf8 a)) (length (utf8 a) + length (utf8 ?p)) = Inr (mk_str ?p)"
      using byte_slice_utf8 [of a ?p "sep @ ?r"] 1(2,3) unfolding e(1) [symmetric] by blast
    have fits: "length (utf8 a) + length (utf8 ?p) + length (utf8 sep) < 18446744073709551616"
    proof -
      have "length (utf8 (a @ rest)) < 2 ^ 63" using 1(3) by linarith
      then have "length (utf8 (a @ ?p @ sep @ ?r)) < 2 ^ 63" unfolding e(1) .
      then show ?thesis by simp
    qed
    have "split_loop (mk_str (a @ rest)) (mk_str sep) (length (utf8 a))
        = rbind (split_loop (mk_str (a @ rest)) (mk_str sep) (length (utf8 (a @ ?p @ sep)))) (\<lambda>rest. Inr (mk_str ?p # rest))"
      using F Some 1(5) fits sl by (subst split_loop.simps) (simp add: add.assoc nat_int_add)
    also have "\<dots> = Inr (mk_str ?p # map mk_str (split_on sep ?r))" using ih e(2) by simp
    also have "\<dots> = Inr (map mk_str (split_on sep rest))" using Some 1(5) by (simp add: split_on.simps [of sep rest])
    finally show ?thesis .
  qed
qed

lemma split_utf8: assumes "list_all scalar s" "list_all scalar sep" "sep \<noteq> []" "length (utf8 s) + 1 < 2 ^ 63"
  shows "split (mk_str s) (mk_str sep) = Inr (map mk_str (split_on sep s))"
  using split_loop_utf8 [of sep "[]" s] assms by (simp add: split_def)

subsection \<open>Joining and replacing\<close>

lemma total_len_mk: "n + length (concat (map utf8 ps)) < 2 ^ 63 \<Longrightarrow> total_len (map mk_str ps) n = Inr (n + length (concat (map utf8 ps)))"
  by (induction ps arbitrary: n) (simp_all add: add.assoc)

definition spread :: "'a list \<Rightarrow> 'a list list \<Rightarrow> 'a list" where
  "spread sep ps = concat (map ((@) sep) ps)"

lemma spread_simps [simp]: "spread sep [] = []" "spread sep (p # ps) = sep @ p @ spread sep ps"
  by (simp_all add: spread_def)

lemma join_on_spread: "join_on sep (p # ps) = p @ spread sep ps"
  by (induction ps arbitrary: p) simp_all

lemma utf8_spread: "utf8 (spread sep ps) = spread (utf8 sep) (map utf8 ps)"
  by (induction ps) simp_all

lemma length_spread: "length (spread sep ps) = length ps * length sep + length (concat ps)"
  by (induction ps) simp_all

lemma copy_next: "sys_memcpy (length w) (map Some w @ sys_alloc (length xs + k)) (length p) (map Some (p @ xs @ q)) (length xs)
    = Inr (map Some (w @ xs) @ sys_alloc k)"
  using memcpy_next [of "length p" p w xs k "map Some q"] by simp

lemma join_fill_rest: "length w + length (spread (utf8 sep) (map utf8 ps)) < 2 ^ 63 \<Longrightarrow>
    join_fill False (mk_str sep) (map mk_str ps) (map Some w @ sys_alloc (length (spread (utf8 sep) (map utf8 ps)) + k)) (length w)
    = Inr (map Some (w @ spread (utf8 sep) (map utf8 ps)) @ sys_alloc k, length w + length (spread (utf8 sep) (map utf8 ps)))"
proof (induction ps arbitrary: w)
  case (Cons p ps)
  let ?r = "spread (utf8 sep) (map utf8 ps)"
  have c1: "sys_memcpy (length w) (map Some w @ sys_alloc (length (utf8 sep) + (length (utf8 p) + (length ?r + k)))) 0
      (map Some (utf8 sep @ [0])) (length (utf8 sep)) = Inr (map Some (w @ utf8 sep) @ sys_alloc (length (utf8 p) + (length ?r + k)))"
    using copy_next [of w "utf8 sep" "length (utf8 p) + (length ?r + k)" "[]" "[0]"] by simp
  have c2: "sys_memcpy (length (w @ utf8 sep)) (map Some (w @ utf8 sep) @ sys_alloc (length (utf8 p) + (length ?r + k))) 0
      (map Some (utf8 p @ [0])) (length (utf8 p)) = Inr (map Some ((w @ utf8 sep) @ utf8 p) @ sys_alloc (length ?r + k))"
    using copy_next [of "w @ utf8 sep" "utf8 p" "length ?r + k" "[]" "[0]"] by simp
  have ih: "join_fill False (mk_str sep) (map mk_str ps) (map Some ((w @ utf8 sep) @ utf8 p) @ sys_alloc (length ?r + k)) (length ((w @ utf8 sep) @ utf8 p))
      = Inr (map Some (((w @ utf8 sep) @ utf8 p) @ ?r) @ sys_alloc k, length ((w @ utf8 sep) @ utf8 p) + length ?r)"
    using Cons.prems by (intro Cons.IH) simp
  show ?case using c1 c2 ih Cons.prems by (simp add: add.assoc)
qed simp

lemma join_size: "length (utf8 (join_on sep ps)) = (length ps - 1) * length (utf8 sep) + length (concat (map utf8 ps))"
  by (cases ps) (simp_all add: join_on_spread utf8_spread length_spread)

lemma terminate: assumes "list_all scalar cps" "length (utf8 cps) + 1 < 2 ^ 63"
  shows "rbind (store (length (utf8 cps)) 0 (map Some (utf8 cps) @ sys_alloc 1)) (\<lambda>buf.
    unwrap m (from_owned_cstr buf (length (utf8 cps) + 1))) = Inr (mk_str cps)"
  using store_next [of "utf8 cps" 0 0] from_owned_utf8 [of cps] assms by (simp add: sys_alloc_def)

lemma join_on_scalar: "list_all P sep \<Longrightarrow> (\<And>p. p \<in> set ps \<Longrightarrow> list_all P p) \<Longrightarrow> list_all P (join_on sep ps)"
  by (induction sep ps rule: join_on.induct) auto

lemma join_utf8: assumes "list_all scalar sep" "\<And>p. p \<in> set ps \<Longrightarrow> list_all scalar p" "length (utf8 (join_on sep ps)) + 1 < 2 ^ 63"
  shows "str_join (mk_str sep) (map mk_str ps) = Inr (mk_str (join_on sep ps))"
proof (cases ps)
  case Nil
  then show ?thesis by (simp add: str_join_def empty_str_def mk_str_def index_of_def)
next
  case (Cons p ps')
  let ?j = "join_on sep ps" and ?r = "spread (utf8 sep) (map utf8 ps')"
  have j: "utf8 ?j = utf8 p @ ?r" unfolding Cons join_on_spread by (simp add: utf8_spread)
  have lr: "length (utf8 ?j) = length (utf8 sep) * length ps' + length (concat (map utf8 ps))"
    using join_size [of sep ps] Cons by simp
  have t: "total_len (map mk_str ps) 1 = Inr (1 + length (concat (map utf8 ps)))"
    using total_len_mk [of 1 ps] assms(3) lr by simp
  have c: "sys_memcpy 0 (sys_alloc (length (utf8 p) + (length ?r + 1))) 0 (map Some (utf8 p @ [0])) (length (utf8 p))
      = Inr (map Some (utf8 p) @ sys_alloc (length ?r + 1))"
    using copy_next [of "[]" "utf8 p" "length ?r + 1" "[]" "[0]"] by simp
  have f: "join_fill True (mk_str sep) (map mk_str ps) (sys_alloc (length (utf8 ?j) + 1)) 0
      = Inr (map Some (utf8 ?j) @ sys_alloc 1, length (utf8 ?j))"
    using c join_fill_rest [of "utf8 p" sep ps' 1] assms(3) unfolding j unfolding Cons by (simp add: add.assoc del: One_nat_def)
  have s: "length (utf8 sep) * length ps' < 18446744073709551616"
    "1 + length (concat (map utf8 ps)) + length (utf8 sep) * length ps' < 18446744073709551616"
    "1 + length (concat (map utf8 ps)) + length (utf8 sep) * length ps' = length (utf8 ?j) + 1"
    using lr assms(3) by simp_all
  have "list_all scalar ?j" using assms(1,2) by (rule join_on_scalar)
  note T = terminate [OF this assms(3), of "''invalid UTF-8 in join''"]
  let ?n = "1 + length (concat (map utf8 ps)) + length (utf8 sep) * length ps'"
  have ne: "map mk_str ps \<noteq> []" "length (map mk_str ps) - 1 = length ps'" "byte_len (mk_str sep) = length (utf8 sep)" using Cons by simp_all
  have "str_join (mk_str sep) (map mk_str ps) = rbind (join_fill True (mk_str sep) (map mk_str ps) (sys_alloc ?n) 0) (\<lambda>(new_buf, offset).
      rbind (store offset 0 new_buf) (\<lambda>new_buf. unwrap ''invalid UTF-8 in join'' (from_owned_cstr new_buf ?n)))"
    unfolding str_join_def t ne(2,3) fits_small [OF s(1)] fits_small [OF s(2)] rbind_simps using ne(1) by (rule if_not_P)
  also have "\<dots> = Inr (mk_str ?j)" unfolding s(3) f rbind_simps split_conv by (rule T)
  finally show ?thesis .
qed

lemma count_loop_utf8: assumes "list_all scalar old" "old \<noteq> []"
  shows "list_all scalar (a @ rest) \<Longrightarrow> length (utf8 (a @ rest)) + 1 < 2 ^ 63 \<Longrightarrow> n \<le> length (utf8 a) \<Longrightarrow>
    count_loop (mk_str (a @ rest)) (mk_str old) (length (utf8 a)) n = Inr (n + (length (split_on old rest) - 1))"
  using assms
proof (induction old rest arbitrary: a n rule: split_on.induct)
  case (1 old rest)
  have F: "str_find (mk_str (a @ rest)) (mk_str old) (length (utf8 a))
    = Inr (case find_pos rest old of None \<Rightarrow> - 1 | Some j \<Rightarrow> int (length (utf8 a) + length (utf8 (take j rest))))"
    using str_find_utf8 [of a rest old] 1(2-) by simp
  show ?case
  proof (cases "find_pos rest old")
    case None
    then show ?thesis using F 1(2-) by (subst count_loop.simps) (simp add: split_on.simps)
  next
    case (Some j)
    let ?p = "take j rest" and ?r = "drop (j + length old) rest"
    have r: "rest = ?p @ old @ ?r" using find_pos_split [OF Some] .
    have e: "a @ rest = (a @ ?p @ old) @ ?r" using arg_cong [OF r, of "append a"] by simp
    have len: "0 < length (utf8 old)" using 1(6) by simp
    have ih: "count_loop (mk_str ((a @ ?p @ old) @ ?r)) (mk_str old) (length (utf8 (a @ ?p @ old))) (n + 1)
        = Inr (n + 1 + (length (split_on old ?r) - 1))"
    proof (rule 1(1) [OF _ Some, of "a @ ?p @ old" "n + 1"])
      show "n + 1 \<le> length (utf8 (a @ ?p @ old))" using 1(4) len unfolding utf8_simps length_append by linarith
    qed (use 1(2-) e in metis)+
    have fits: "length (utf8 a) + length (utf8 ?p) + length (utf8 old) < 18446744073709551616" "n + 1 < 18446744073709551616"
    proof -
      have "length (utf8 (a @ rest)) < 2 ^ 63" using 1(3) by linarith
      then have "length (utf8 ((a @ ?p @ old) @ ?r)) < 2 ^ 63" unfolding e .
      then show "length (utf8 a) + length (utf8 ?p) + length (utf8 old) < 18446744073709551616" by simp
      show "n + 1 < 18446744073709551616" using 1(3,4) by simp
    qed
    have "count_loop (mk_str (a @ rest)) (mk_str old) (length (utf8 a)) n
        = count_loop (mk_str (a @ rest)) (mk_str old) (length (utf8 (a @ ?p @ old))) (n + 1)"
      using F Some 1(6) fits by (subst count_loop.simps) (simp add: add.assoc nat_int_add)
    also have "\<dots> = Inr (n + (length (split_on old rest) - 1))" using ih e Some 1(6) by (simp add: split_on.simps [of old rest])
    finally show ?thesis .
  qed
qed

lemma fill_loop_utf8: assumes "list_all scalar old" "old \<noteq> []" "list_all scalar new"
  shows "list_all scalar (a @ rest) \<Longrightarrow> length (utf8 (a @ rest)) + 1 < 2 ^ 63 \<Longrightarrow>
    length w + length (utf8 (join_on new (split_on old rest))) < 2 ^ 63 \<Longrightarrow>
    fill_loop (mk_str (a @ rest)) (mk_str old) (mk_str new) (length (utf8 a))
      (map Some w @ sys_alloc (length (utf8 (join_on new (split_on old rest))) + k)) (length w)
    = Inr (map Some (w @ utf8 (join_on new (split_on old rest))) @ sys_alloc k, length w + length (utf8 (join_on new (split_on old rest))))"
  using assms
proof (induction old rest arbitrary: a w rule: split_on.induct)
  case (1 old rest)
  have F: "str_find (mk_str (a @ rest)) (mk_str old) (length (utf8 a))
    = Inr (case find_pos rest old of None \<Rightarrow> - 1 | Some j \<Rightarrow> int (length (utf8 a) + length (utf8 (take j rest))))"
    using str_find_utf8 [of a rest old] 1(2-) by simp
  show ?case
  proof (cases "find_pos rest old")
    case None
    have "sys_memcpy (length w) (map Some w @ sys_alloc (length (utf8 rest) + k)) (length (utf8 a)) (map Some (utf8 (a @ rest) @ [0])) (length (utf8 rest))
        = Inr (map Some (w @ utf8 rest) @ sys_alloc k)" using copy_next [of w "utf8 rest" k "utf8 a" "[0]"] by simp
    then show ?thesis using F None 1(2-) by (subst fill_loop.simps) (simp add: split_on.simps usize_lim_def)
  next
    case (Some j)
    let ?p = "take j rest" and ?r = "drop (j + length old) rest"
    let ?t = "utf8 (join_on new (split_on old ?r))"
    have r: "rest = ?p @ old @ ?r" using find_pos_split [OF Some] .
    have e: "a @ rest = (a @ ?p @ old) @ ?r" using arg_cong [OF r, of "append a"] by simp
    have s: "split_on old rest = ?p # split_on old ?r" using Some 1(6) by (simp add: split_on.simps [of old rest])
    have j: "utf8 (join_on new (split_on old rest)) = utf8 ?p @ utf8 new @ ?t" unfolding s by (simp add: join_on_Cons)
    have b: "length (utf8 a) + length (utf8 ?p) + length (utf8 old) < 2 ^ 63" "length (utf8 (a @ rest)) < 2 ^ 63"
    proof -
      show "length (utf8 (a @ rest)) < 2 ^ 63" using 1(3) by linarith
      then have "length (utf8 ((a @ ?p @ old) @ ?r)) < 2 ^ 63" unfolding e .
      then show "length (utf8 a) + length (utf8 ?p) + length (utf8 old) < 2 ^ 63" by simp
    qed
    have d: "s_data (mk_str (a @ rest)) = map Some (utf8 a @ utf8 ?p @ (utf8 old @ utf8 ?r @ [0]))" unfolding e by simp
    have c1: "sys_memcpy (length w) (map Some w @ sys_alloc (length (utf8 ?p) + (length (utf8 new) + (length ?t + k)))) (length (utf8 a))
        (s_data (mk_str (a @ rest))) (length (utf8 ?p)) = Inr (map Some (w @ utf8 ?p) @ sys_alloc (length (utf8 new) + (length ?t + k)))"
      unfolding d by (rule copy_next)
    have c2: "sys_memcpy (length (w @ utf8 ?p)) (map Some (w @ utf8 ?p) @ sys_alloc (length (utf8 new) + (length ?t + k))) 0
        (map Some (utf8 new @ [0])) (length (utf8 new)) = Inr (map Some ((w @ utf8 ?p) @ utf8 new) @ sys_alloc (length ?t + k))"
      using copy_next [of "w @ utf8 ?p" "utf8 new" "length ?t + k" "[]" "[0]"] by simp
    have wl: "length w + length (utf8 ?p) + length (utf8 new) + length ?t < 2 ^ 63" using 1(4) unfolding j by simp
    have ih: "fill_loop (mk_str ((a @ ?p @ old) @ ?r)) (mk_str old) (mk_str new) (length (utf8 (a @ ?p @ old)))
          (map Some ((w @ utf8 ?p) @ utf8 new) @ sys_alloc (length ?t + k)) (length ((w @ utf8 ?p) @ utf8 new))
        = Inr (map Some (((w @ utf8 ?p) @ utf8 new) @ ?t) @ sys_alloc k, length ((w @ utf8 ?p) @ utf8 new) + length ?t)"
    proof (rule 1(1) [OF _ Some, of "a @ ?p @ old" "(w @ utf8 ?p) @ utf8 new"])
      show "length ((w @ utf8 ?p) @ utf8 new) + length ?t < 2 ^ 63" using wl by simp
    qed (use 1(2,3,5-) e in metis)+
    have "fill_loop (mk_str (a @ rest)) (mk_str old) (mk_str new) (length (utf8 a))
          (map Some w @ sys_alloc (length (utf8 ?p) + (length (utf8 new) + (length ?t + k)))) (length w)
        = fill_loop (mk_str (a @ rest)) (mk_str old) (mk_str new) (length (utf8 (a @ ?p @ old)))
          (map Some ((w @ utf8 ?p) @ utf8 new) @ sys_alloc (length ?t + k)) (length ((w @ utf8 ?p) @ utf8 new))"
      using F Some 1(6) b wl c1 c2 by (subst fill_loop.simps) (simp add: add.assoc nat_int_add Let_def usize_lim_def)
    also have "\<dots> = Inr (map Some (((w @ utf8 ?p) @ utf8 new) @ ?t) @ sys_alloc k, length ((w @ utf8 ?p) @ utf8 new) + length ?t)"
      using ih unfolding e by simp
    finally show ?thesis unfolding j by (simp add: add.assoc)
  qed
qed

lemma split_lengths: "old \<noteq> [] \<Longrightarrow>
    length (utf8 (join_on new (split_on old s))) + (length (split_on old s) - 1) * length (utf8 old)
      = length (utf8 s) + (length (split_on old s) - 1) * length (utf8 new)"
  using join_size [of old "split_on old s"] join_size [of new "split_on old s"] by (simp add: join_split)

lemma split_on_single: "length (split_on old s) - 1 = 0 \<Longrightarrow> join_on new (split_on old s) = s"
  using join_split [of old s] by (cases "split_on old s"; cases "tl (split_on old s)") auto

lemma replace_utf8: assumes "list_all scalar s" "list_all scalar old" "old \<noteq> []" "list_all scalar new"
    "length (utf8 s) + 1 < 2 ^ 63" "length (utf8 (join_on new (split_on old s))) + 1 < 2 ^ 63"
  shows "replace (mk_str s) (mk_str old) (mk_str new) = Inr (mk_str (join_on new (split_on old s)))"
proof -
  let ?ps = "split_on old s" and ?j = "join_on new (split_on old s)"
  let ?n = "length ?ps - 1"
  have c: "count_loop (mk_str s) (mk_str old) 0 0 = Inr ?n" using count_loop_utf8 [of old "[]" s 0] assms by simp
  show ?thesis
  proof (cases "?n = 0")
    case True
    then show ?thesis using c assms(3) split_on_single [OF True, of new] by (simp add: replace_def)
  next
    case False
    have f: "fill_loop (mk_str s) (mk_str old) (mk_str new) 0 (sys_alloc (length (utf8 ?j) + 1)) 0
        = Inr (map Some (utf8 ?j) @ sys_alloc 1, length (utf8 ?j))"
      using fill_loop_utf8 [of old new "[]" s "[]" 1] assms by simp
    note L = split_lengths [OF assms(3), of new s]
    have le: "?n * length (utf8 old) \<le> length (utf8 s)" "?n * length (utf8 new) \<le> length (utf8 ?j)"
      using join_size [of old ?ps] join_size [of new ?ps] by (simp_all add: join_split)
    have fits: "?n * length (utf8 old) < 18446744073709551616" "?n * length (utf8 new) < 18446744073709551616"
      using le assms(5,6) by auto
    have w: "wsub64 (length (utf8 s)) (?n * length (utf8 old)) = length (utf8 s) - ?n * length (utf8 old)" using le(1) assms(5) by simp
    have z: "length (utf8 s) - ?n * length (utf8 old) + ?n * length (utf8 new) = length (utf8 ?j)" using L le(1) by linarith
    have zf: "length (utf8 ?j) < 18446744073709551616" "1 + length (utf8 ?j) < 18446744073709551616" using assms(6) by auto
    have "list_all scalar ?j" using assms(1,4) split_on_scalar by (intro join_on_scalar) auto
    note T = terminate [OF this assms(6), of "''invalid UTF-8 in replace''"]
    have l0: "length (utf8 old) \<noteq> 0" using assms(3) by simp
    have "replace (mk_str s) (mk_str old) (mk_str new) = rbind (fill_loop (mk_str s) (mk_str old) (mk_str new) 0 (sys_alloc (1 + length (utf8 ?j))) 0)
        (\<lambda>(buf, out). rbind (store out 0 buf) (\<lambda>buf. unwrap ''invalid UTF-8 in replace'' (from_owned_cstr buf (1 + length (utf8 ?j)))))"
      unfolding replace_def mk_str_simps if_not_P [OF l0] c rbind_simps if_not_P [OF False] fits_small [OF fits(1)] fits_small [OF fits(2)]
        w z fits_small [OF zf(1)] fits_small [OF zf(2)] ..
    also have "\<dots> = Inr (mk_str ?j)" unfolding add.commute [of 1 "length (utf8 ?j)"] f rbind_simps split_conv by (rule T)
    finally show ?thesis .
  qed
qed

subsection \<open>Concatenation, prefixes and suffixes\<close>

lemma add_utf8: assumes "list_all scalar (a @ b)" "length (utf8 (a @ b)) + 1 < 2 ^ 63"
  shows "str_add (mk_str a) (mk_str b) = Inr (mk_str (a @ b))"
proof -
  have c1: "sys_memcpy 0 (sys_alloc (length (utf8 a) + (length (utf8 b) + 1))) 0 (map Some (utf8 a @ [0])) (length (utf8 a))
      = Inr (map Some (utf8 a) @ sys_alloc (length (utf8 b) + 1))"
    using copy_next [of "[]" "utf8 a" "length (utf8 b) + 1" "[]" "[0]"] by simp
  have c2: "sys_memcpy (length (utf8 a)) (map Some (utf8 a) @ sys_alloc (length (utf8 b) + 1)) 0 (map Some (utf8 b @ [0])) (length (utf8 b) + 1)
      = Inr (map Some (utf8 (a @ b) @ [0]))"
    using copy_next [of "utf8 a" "utf8 b @ [0]" 0 "[]" "[]"] by (simp add: sys_alloc_def)
  have f: "from_owned_cstr (map Some (utf8 (a @ b) @ [0])) (length (utf8 (a @ b)) + 1) = Inr (mk_str (a @ b))"
    using from_owned_utf8 [of "a @ b"] assms by simp
  have n: "wsub64 (length (utf8 a) + 1) 1 = length (utf8 a)" "length (utf8 a) + (length (utf8 b) + 1) < 18446744073709551616"
    "length (utf8 a) + (length (utf8 b) + 1) = length (utf8 (a @ b)) + 1" using assms(2) by simp_all
  show ?thesis
    unfolding str_add_def Let_def mk_str_simps n(1) fits_small [OF n(2)] rbind_simps c1 c2 unfolding n(3) f unwrap_Inr ..
qed

lemma startswith_utf8: assumes "list_all scalar (a @ rest)" "list_all scalar pre" "length (utf8 (a @ rest)) < 2 ^ 63"
  shows "startswith (mk_str (a @ rest)) (mk_str pre) (length (utf8 a)) = Inr (prefix pre rest)"
proof (cases "pre = [] \<or> length (utf8 rest) < length (utf8 pre)")
  case True
  then have "prefix pre rest \<longleftrightarrow> pre = []" using prefix_utf8 [of rest pre] prefix_length_le [of "utf8 pre" "utf8 rest"] assms by auto
  then show ?thesis using True assms(3) by (auto simp: startswith_def Let_def)
next
  case False
  have "sys_memcmp (length (utf8 a)) (map Some (utf8 (a @ rest) @ [0])) (map Some (utf8 pre @ [0])) (length (utf8 pre))
      = Inr (prefix (utf8 pre) (drop (length (utf8 a)) (utf8 (a @ rest))))"
    using False by (intro memcmp_prefix) simp
  then show ?thesis using False assms prefix_utf8 [of rest pre] by (simp add: startswith_def Let_def del: map_append)
qed

lemma suffix_utf8: assumes "list_all scalar s" "list_all scalar suf"
  shows "suffix (utf8 suf) (utf8 s) \<longleftrightarrow> suffix suf s"
proof
  assume "suffix (utf8 suf) (utf8 s)"
  then obtain p where "utf8 s = p @ utf8 suf @ []" by (auto simp: suffix_def)
  then show "suffix suf s" using utf8_sync [of s p suf "[]"] assms by (cases "suf = []") (auto simp: suffix_def eq_commute [of "[]"])
qed (auto simp: suffix_def)

lemma endswith_utf8: assumes "list_all scalar s" "list_all scalar suf" "length (utf8 s) < 2 ^ 63"
  shows "endswith (mk_str s) (mk_str suf) = Inr (suffix suf s)"
proof (cases "suf = [] \<or> length (utf8 s) < length (utf8 suf)")
  case True
  then have "suffix suf s \<longleftrightarrow> suf = []" using suffix_utf8 [OF assms(1,2)] suffix_length_le [of "utf8 suf" "utf8 s"] by auto
  then show ?thesis using True by (auto simp: endswith_def Let_def)
next
  case False
  have "sys_memcmp (length (utf8 s) - length (utf8 suf)) (map Some (utf8 s @ [0])) (map Some (utf8 suf @ [0])) (length (utf8 suf))
      = Inr (prefix (utf8 suf) (drop (length (utf8 s) - length (utf8 suf)) (utf8 s)))"
    using False by (intro memcmp_prefix) simp
  moreover have "prefix (utf8 suf) (drop (length (utf8 s) - length (utf8 suf)) (utf8 s)) \<longleftrightarrow> suffix (utf8 suf) (utf8 s)"
    using False by (auto simp: prefix_def suffix_def) (metis append_take_drop_id append_Nil2 append_eq_append_conv length_append length_drop diff_diff_cancel not_le less_imp_le)+
  ultimately show ?thesis using False assms suffix_utf8 [OF assms(1,2)] by (simp add: endswith_def Let_def del: map_append)
qed

lemma remove_prefix_suffix_utf8: assumes "list_all scalar s" "list_all scalar t" "length (utf8 s) + 1 < 2 ^ 63"
  shows "removeprefix (mk_str s) (mk_str t) = Inr (mk_str (if prefix t s then drop (length t) s else s))"
    "removesuffix (mk_str s) (mk_str t) = Inr (mk_str (if suffix t s then take (length s - length t) s else s))"
proof -
  show "removeprefix (mk_str s) (mk_str t) = Inr (mk_str (if prefix t s then drop (length t) s else s))"
    using startswith_utf8 [of "[]" s t] assms byte_slice_tail [of t "drop (length t) s"]
    by (auto simp: removeprefix_def prefix_def)
  show "removesuffix (mk_str s) (mk_str t) = Inr (mk_str (if suffix t s then take (length s - length t) s else s))"
    using endswith_utf8 [of s t] assms byte_slice_utf8 [of "[]" "take (length s - length t) s" t]
    by (auto simp: removesuffix_def suffix_def)
qed

lemma rfind_loop_eq: assumes "length text < 2 ^ 63"
  shows "i + length sub \<le> length text \<Longrightarrow>
    \<exists>r. rfind_loop (map Some (text @ [0])) (map Some (sub @ [0])) (length sub) i = Inr r
      \<and> (r = - 1 \<and> (\<forall>k \<le> i. \<not> prefix sub (drop k text))
         \<or> (\<exists>j \<le> i. r = int j \<and> prefix sub (drop j text) \<and> (\<forall>k. j < k \<and> k \<le> i \<longrightarrow> \<not> prefix sub (drop k text))))"
proof (induction i)
  case 0
  then show ?case using memcmp_prefix [of 0 sub "text"] assms by (subst rfind_loop.simps) (auto simp: isize_of_def)
next
  case (Suc i)
  have m: "sys_memcmp (Suc i) (map Some (text @ [0])) (map Some (sub @ [0])) (length sub) = Inr (prefix sub (drop (Suc i) text))"
    using Suc.prems by (intro memcmp_prefix) simp
  show ?case
  proof (cases "prefix sub (drop (Suc i) text)")
    case True
    moreover have "Suc i < 2 ^ 63" using Suc.prems assms by linarith
    ultimately show ?thesis using m by (subst rfind_loop.simps) (auto simp: isize_of_def intro!: exI [of _ "Suc i"])
  next
    case False
    have "rfind_loop (map Some (text @ [0])) (map Some (sub @ [0])) (length sub) (Suc i)
        = rfind_loop (map Some (text @ [0])) (map Some (sub @ [0])) (length sub) i"
      using m False by (subst rfind_loop.simps) simp
    then show ?thesis using Suc False by (auto simp: le_Suc_eq)
  qed
qed

lemma str_rfind_utf8: assumes "list_all scalar s" "list_all scalar sub" "sub \<noteq> []" "length (utf8 s) < 2 ^ 63"
  shows "str_rfind (mk_str s) (mk_str sub) = Inr (- 1) \<and> find_pos s sub = None
    \<or> (\<exists>j \<le> length s. str_rfind (mk_str s) (mk_str sub) = Inr (int (length (utf8 (take j s)))) \<and> prefix sub (drop j s)
        \<and> (\<forall>k. j < k \<and> k \<le> length s \<longrightarrow> \<not> prefix sub (drop k s)))"
proof (cases "length (utf8 s) < length (utf8 sub)")
  case True
  then have "find_pos (utf8 s) (utf8 sub) = None" using find_pos_bound by (cases "find_pos (utf8 s) (utf8 sub)") fastforce+
  then show ?thesis using True find_pos_utf8 [OF assms(1-3)] assms(3) by (simp add: str_rfind_def Let_def)
next
  case False
  let ?l = "length (utf8 s) - length (utf8 sub)"
  have P: "prefix (utf8 sub) (drop (length (utf8 (take j s))) (utf8 s)) \<longleftrightarrow> prefix sub (drop j s)" if "j \<le> length s" for j
    using that assms(1,2) prefix_utf8 [of "drop j s" sub] by (simp add: drop_utf8_take list_all_length)
  have no: "\<not> prefix (utf8 sub) (drop k (utf8 s))" if k: "?l < k" for k
    using prefix_length_le [of "utf8 sub" "drop k (utf8 s)"] k False assms(3) by (cases "k \<le> length (utf8 s)") auto
  have R: "str_rfind (mk_str s) (mk_str sub) = rfind_loop (map Some (utf8 s @ [0])) (map Some (utf8 sub @ [0])) (length (utf8 sub)) ?l"
    using False assms(3,4) by (simp add: str_rfind_def Let_def)
  obtain r where r: "str_rfind (mk_str s) (mk_str sub) = Inr r"
    "r = - 1 \<and> (\<forall>k \<le> ?l. \<not> prefix (utf8 sub) (drop k (utf8 s)))
      \<or> (\<exists>j \<le> ?l. r = int j \<and> prefix (utf8 sub) (drop j (utf8 s)) \<and> (\<forall>k. j < k \<and> k \<le> ?l \<longrightarrow> \<not> prefix (utf8 sub) (drop k (utf8 s))))"
    using rfind_loop_eq [OF assms(4), of ?l "utf8 sub"] False unfolding R by auto
  from r(2) show ?thesis
  proof (elim disjE)
    assume a: "r = - 1 \<and> (\<forall>k \<le> ?l. \<not> prefix (utf8 sub) (drop k (utf8 s)))"
    then have "find_pos (utf8 s) (utf8 sub) = None" unfolding find_pos_None using no not_le by blast
    then show ?thesis using find_pos_utf8 [OF assms(1-3)] r(1) a by simp
  next
    assume "\<exists>j \<le> ?l. r = int j \<and> prefix (utf8 sub) (drop j (utf8 s)) \<and> (\<forall>k. j < k \<and> k \<le> ?l \<longrightarrow> \<not> prefix (utf8 sub) (drop k (utf8 s)))"
    then obtain b where b: "b \<le> ?l" "r = int b" "prefix (utf8 sub) (drop b (utf8 s))"
      "\<And>k. b < k \<Longrightarrow> k \<le> ?l \<Longrightarrow> \<not> prefix (utf8 sub) (drop k (utf8 s))" by blast
    have "b \<le> length (utf8 s)" using b(1) by simp
    then obtain j where j: "b = length (utf8 (take j s))" "j \<le> length s" "prefix sub (drop j s)"
      using prefix_drop_utf8 [OF assms(1-3) _ b(3)] by metis
    have "\<not> prefix sub (drop k s)" if k: "j < k" "k \<le> length s" for k
    proof -
      have "b < length (utf8 (take k s))" using utf8_take_less [OF k] j(1) by simp
      then have "\<not> prefix (utf8 sub) (drop (length (utf8 (take k s))) (utf8 s))" using b(4) no not_le by blast
      then show ?thesis using P [OF k(2)] by simp
    qed
    then show ?thesis using r(1) b(2) j by blast
  qed
qed

text \<open>\<^verbatim>\<open>index\<close> and \<^verbatim>\<open>rindex\<close> turn the sentinel into an error.\<close>

lemma str_index_utf8: assumes "list_all scalar s" "list_all scalar sub" "length (utf8 s) < 2 ^ 63"
  shows "str_index (mk_str s) (mk_str sub) = (case find_pos s sub of None \<Rightarrow> Inl IndexError | Some j \<Rightarrow> Inr (length (utf8 (take j s))))"
  using str_find_utf8 [of "[]" s sub] assms by (auto simp: str_index_def split: option.splits)

end
