(* ===== verification/Lib_Codecs.thy ===== *)
theory Lib_Codecs
  imports Lib_Str
begin

unbundle bit_operations_syntax

text \<open>
  The codecs \<^verbatim>\<open>src/lib/codecs/utf8.py\<close> and \<^verbatim>\<open>src/lib/codecs/utf16.py\<close>.  A \<^verbatim>\<open>bytes\<close> or
  \<^verbatim>\<open>bytearray\<close> is its block of memory.  UTF-16 units are read and written in the byte order of the
  machine, which is the parameter \<open>le\<close>.
\<close>

definition bytearray :: "nat \<Rightarrow> mem" where
  "bytearray n = replicate n (Some 0)"

subsection \<open>UTF-8\<close>

definition utf8_encode :: "mstr \<Rightarrow> mem res" where
  "utf8_encode s = (let n = byte_len s in sys_memcpy 0 (bytearray n) 0 (s_data s) n)"

definition utf8_decode :: "mem \<Rightarrow> mstr res" where
  "utf8_decode b =
     (let n = length b in
      rbind (fits ''irrational byte length'' (n + 1)) (\<lambda>buf_size.
      rbind (sys_memcpy 0 (sys_alloc buf_size) 0 b n) (\<lambda>new_buf.
      rbind (store n 0 new_buf) (\<lambda>new_buf.
      from_owned_cstr new_buf buf_size))))"

datatype decode_errors = Replace | Ignore | BackslashReplace

text \<open>One byte after another; the sums are under \<^verbatim>\<open>panic_arithmetic\<close>.\<close>

fun put_bytes :: "string \<Rightarrow> nat list \<Rightarrow> mem \<Rightarrow> nat \<Rightarrow> (mem \<times> nat) res" where
  "put_bytes msg [] m i = Inr (m, i)"
| "put_bytes msg (b # bs) m i = rbind (store i b m) (\<lambda>m. rbind (fits msg (i + 1)) (\<lambda>i. put_bytes msg bs m i))"

definition hex_digit :: "nat \<Rightarrow> nat" where
  "hex_digit n = (if n < 10 then 48 + n else 97 + (n - 10))"

definition emit_lossy_unit :: "mem \<Rightarrow> nat \<Rightarrow> nat \<Rightarrow> decode_errors \<Rightarrow> (mem \<times> nat) res" where
  "emit_lossy_unit out i byte errors =
     (let msg = ''out_idx bounded by the caller-sized worst-case buffer'' in
      case errors of
        Ignore \<Rightarrow> Inr (out, i)
      | Replace \<Rightarrow> put_bytes msg [0xEF, 0xBF, 0xBD] out i
      | BackslashReplace \<Rightarrow> put_bytes msg [92, 120, hex_digit (drop_bit 4 byte), hex_digit (byte AND 0x0F)] out i)"

text \<open>The length of the well-formed sequence at \<open>i\<close>, zero when there is none; the tests are in the order
  of the code, which stops at the first that fails.\<close>

definition lossy_seq :: "mem \<Rightarrow> nat \<Rightarrow> nat \<Rightarrow> nat \<Rightarrow> nat res" where
  "lossy_seq ptr n i b1 =
     (let msg = ''bounded by length, cannot overflow'' in
      if b1 AND 0x80 = 0 then Inr 1
      else if b1 AND 0xE0 = 0xC0
      then if b1 < 0xC2 then Inr 0
           else rbind (fits msg (i + 1)) (\<lambda>i1. if \<not> i1 < n then Inr 0
                else rbind (load i1 ptr) (\<lambda>b2. Inr (if is_cont b2 then 2 else 0)))
      else if b1 AND 0xF0 = 0xE0
      then rbind (fits msg (i + 2)) (\<lambda>i2. if \<not> i2 < n then Inr 0
           else rbind (load (i + 1) ptr) (\<lambda>b2. rbind (load i2 ptr) (\<lambda>b3.
                Inr (if is_cont b2 \<and> is_cont b3 \<and> \<not> (b1 = 0xE0 \<and> b2 < 0xA0) \<and> \<not> (b1 = 0xED \<and> b2 \<ge> 0xA0) then 3 else 0))))
      else if b1 AND 0xF8 = 0xF0
      then if b1 > 0xF4 then Inr 0
           else rbind (fits msg (i + 3)) (\<lambda>i3. if \<not> i3 < n then Inr 0
                else rbind (load (i + 1) ptr) (\<lambda>b2. rbind (load (i + 2) ptr) (\<lambda>b3. rbind (load i3 ptr) (\<lambda>b4.
                     Inr (if is_cont b2 \<and> is_cont b3 \<and> is_cont b4 \<and> \<not> (b1 = 0xF0 \<and> b2 < 0x90) \<and> \<not> (b1 = 0xF4 \<and> b2 \<ge> 0x90)
                          then 4 else 0)))))
      else Inr 0)"

fun copy_seq_loop :: "nat \<Rightarrow> mem \<Rightarrow> nat \<Rightarrow> mem \<Rightarrow> nat \<Rightarrow> (mem \<times> nat) res" where
  "copy_seq_loop 0 ptr i out j = Inr (out, j)"
| "copy_seq_loop (Suc k) ptr i out j =
     (let msg = ''seq_len bounded by loop condition above'' in
      rbind (fits msg i) (\<lambda>_.
      rbind (load i ptr) (\<lambda>b.
      rbind (store j b out) (\<lambda>out.
      rbind (fits msg (j + 1)) (\<lambda>j. copy_seq_loop k ptr (i + 1) out j)))))"

function lossy_loop :: "mem \<Rightarrow> nat \<Rightarrow> decode_errors \<Rightarrow> nat \<Rightarrow> mem \<Rightarrow> nat \<Rightarrow> (mem \<times> nat) res" where
  "lossy_loop ptr n errors i out j =
     (let msg = ''bounded by length, cannot overflow'' in
      if i < n
      then rbind (load i ptr) (\<lambda>b1.
           rbind (lossy_seq ptr n i b1) (\<lambda>seq_len.
           if seq_len = 0
           then rbind (emit_lossy_unit out j b1 errors) (\<lambda>(out, j).
                rbind (fits msg (i + 1)) (\<lambda>i. lossy_loop ptr n errors i out j))
           else rbind (copy_seq_loop seq_len ptr i out j) (\<lambda>(out, j).
                rbind (fits msg (i + seq_len)) (\<lambda>i. lossy_loop ptr n errors i out j))))
      else Inr (out, j))"
  by pat_completeness auto
termination by (relation "measure (\<lambda>(p, n, e, i, x, y). n - i)") auto

declare lossy_loop.simps [simp del]

definition utf8_decode_lossy :: "mem \<Rightarrow> decode_errors \<Rightarrow> mstr res" where
  "utf8_decode_lossy b errors =
     (let n = length b; msg = ''irrational byte length'' in
      rbind (fits msg (n * 4)) (\<lambda>cap.
      rbind (lossy_loop b n errors 0 (bytearray cap) 0) (\<lambda>(out, out_idx).
      rbind (fits msg (out_idx + 1)) (\<lambda>buf_size.
      rbind (sys_memcpy 0 (sys_alloc buf_size) 0 out out_idx) (\<lambda>new_buf.
      rbind (store out_idx 0 new_buf) (\<lambda>new_buf.
      unwrap ''decode_lossy always produces valid utf-8 by construction'' (from_owned_cstr new_buf buf_size)))))))"

subsection \<open>UTF-16\<close>

definition u16_load :: "bool \<Rightarrow> nat \<Rightarrow> mem \<Rightarrow> nat res" where
  "u16_load le i m =
     rbind (load (2 * i) m) (\<lambda>a. rbind (load (2 * i + 1) m) (\<lambda>b. Inr (if le then a + 256 * b else 256 * a + b)))"

definition u16_store :: "bool \<Rightarrow> nat \<Rightarrow> nat \<Rightarrow> mem \<Rightarrow> mem res" where
  "u16_store le i u m =
     rbind (store (2 * i) (if le then u mod 256 else u div 256) m) (\<lambda>m.
     store (2 * i + 1) (if le then u div 256 else u mod 256) m)"

abbreviation enc_msg :: string where "enc_msg \<equiv> ''overflow impossible with bounds checks''"

definition utf16_error :: "string \<Rightarrow> 'a res" where
  "utf16_error m = Inl (CodecError ''utf-16le'' m)"

definition u16_cast :: "string \<Rightarrow> nat \<Rightarrow> nat res" where
  "u16_cast msg v = (if v < 65536 then Inr v else Inl (Panic msg))"

definition u8_cast :: "string \<Rightarrow> nat \<Rightarrow> nat res" where
  "u8_cast msg v = (if v < 256 then Inr v else Inl (Panic msg))"

text \<open>One code point read by the encoder: its value and length.\<close>

definition utf16_read :: "mem \<Rightarrow> nat \<Rightarrow> nat \<Rightarrow> (nat \<times> nat) res" where
  "utf16_read ptr n i =
     rbind (load i ptr) (\<lambda>b0.
     if b0 \<le> 0x7F then Inr (b0, 1)
     else if b0 AND 0xE0 = 0xC0
     then rbind (fits enc_msg (i + 1)) (\<lambda>i1.
          if i1 \<ge> n then utf16_error ''Truncated UTF-8 sequence''
          else rbind (load i1 ptr) (\<lambda>b1. Inr (push_bit 6 (b0 AND 0x1F) OR (b1 AND 0x3F), 2)))
     else if b0 AND 0xF0 = 0xE0
     then rbind (fits enc_msg (i + 2)) (\<lambda>i2.
          if i2 \<ge> n then utf16_error ''Truncated UTF-8 sequence''
          else rbind (load (i + 1) ptr) (\<lambda>b1. rbind (load i2 ptr) (\<lambda>b2.
               Inr (push_bit 12 (b0 AND 0x0F) OR push_bit 6 (b1 AND 0x3F) OR (b2 AND 0x3F), 3))))
     else if b0 AND 0xF8 = 0xF0
     then rbind (fits enc_msg (i + 3)) (\<lambda>i3.
          if i3 \<ge> n then utf16_error ''Truncated UTF-8 sequence''
          else rbind (load (i + 1) ptr) (\<lambda>b1. rbind (load (i + 2) ptr) (\<lambda>b2. rbind (load i3 ptr) (\<lambda>b3.
               Inr (push_bit 18 (b0 AND 0x07) OR push_bit 12 (b1 AND 0x3F) OR push_bit 6 (b2 AND 0x3F) OR (b3 AND 0x3F), 4)))))
     else utf16_error ''Invalid UTF-8 sequence'')"

definition utf16_write :: "bool \<Rightarrow> nat \<Rightarrow> mem \<Rightarrow> nat \<Rightarrow> (mem \<times> nat) res" where
  "utf16_write le cp out j =
     (if cp \<le> 0xFFFF
      then rbind (u16_cast enc_msg cp) (\<lambda>u.
           rbind (u16_store le j u out) (\<lambda>out. rbind (fits enc_msg (j + 1)) (\<lambda>j. Inr (out, j))))
      else (let cp = cp - 0x10000 in
           rbind (u16_cast enc_msg (drop_bit 10 cp)) (\<lambda>h.
           rbind (u16_cast enc_msg (cp AND 0x3FF)) (\<lambda>l.
           rbind (u16_store le j (0xD800 OR h) out) (\<lambda>out.
           rbind (fits enc_msg (j + 1)) (\<lambda>j1.
           rbind (u16_store le j1 (0xDC00 OR l) out) (\<lambda>out.
           rbind (fits enc_msg (j + 2)) (\<lambda>j. Inr (out, j)))))))))"

lemma utf16_read_pos: "utf16_read ptr n i = Inr (cp, k) \<Longrightarrow> 0 < k"
  by (auto simp: utf16_read_def rbind_Inr utf16_error_def split: if_splits)

function utf16_enc_loop :: "bool \<Rightarrow> mem \<Rightarrow> nat \<Rightarrow> nat \<Rightarrow> mem \<Rightarrow> nat \<Rightarrow> (mem \<times> nat) res" where
  "utf16_enc_loop le ptr n i out j =
     (if i < n
      then rbind (utf16_read ptr n i) (\<lambda>(cp, k).
           rbind (utf16_write le cp out j) (\<lambda>(out, j).
           rbind (fits enc_msg (i + k)) (\<lambda>i. utf16_enc_loop le ptr n i out j)))
      else Inr (out, j))"
  by pat_completeness auto
termination by (relation "measure (\<lambda>(le, p, n, i, x, y). n - i)") (auto dest!: utf16_read_pos)

declare utf16_enc_loop.simps [simp del]

definition utf16_encode :: "bool \<Rightarrow> mstr \<Rightarrow> mem res" where
  "utf16_encode le s =
     (let s_len = byte_len s in
      rbind (fits ''a real string can never be within 2x of usize::MAX bytes'' (s_len * 2)) (\<lambda>cap.
      rbind (utf16_enc_loop le (s_data s) s_len 0 (bytearray cap) 0) (\<lambda>(out, out_idx).
      rbind (fits ''out_idx counts u16 units of out, which is already 2x-sized'' (out_idx * 2)) (\<lambda>byte_len.
      sys_memcpy 0 (bytearray byte_len) 0 out byte_len))))"

abbreviation dec_msg :: string where "dec_msg \<equiv> ''bounded by num_units''"

definition utf16_next :: "bool \<Rightarrow> mem \<Rightarrow> nat \<Rightarrow> nat \<Rightarrow> (nat \<times> nat) res" where
  "utf16_next le b n i =
     rbind (u16_load le i b) (\<lambda>cp.
     rbind (fits dec_msg (i + 1)) (\<lambda>i.
     if cp \<ge> 0xD800 \<and> cp \<le> 0xDBFF
     then if i \<ge> n then utf16_error ''Incomplete surrogate pair''
          else rbind (u16_load le i b) (\<lambda>low.
               rbind (fits dec_msg (i + 1)) (\<lambda>i.
               if \<not> (low \<ge> 0xDC00 \<and> low \<le> 0xDFFF) then utf16_error ''Invalid low surrogate''
               else Inr (0x10000 + push_bit 10 (cp - 0xD800) + (low - 0xDC00), i)))
     else if cp \<ge> 0xDC00 \<and> cp \<le> 0xDFFF then utf16_error ''Unexpected low surrogate''
     else Inr (cp, i)))"

fun put_casts :: "nat list \<Rightarrow> mem \<Rightarrow> nat \<Rightarrow> (mem \<times> nat) res" where
  "put_casts [] m i = Inr (m, i)"
| "put_casts (b # bs) m i = rbind (u8_cast dec_msg b) (\<lambda>b. rbind (store i b m) (\<lambda>m. rbind (fits dec_msg (i + 1)) (\<lambda>i. put_casts bs m i)))"

definition utf16_put :: "nat \<Rightarrow> mem \<Rightarrow> nat \<Rightarrow> (mem \<times> nat) res" where
  "utf16_put cp out j =
     (if cp \<le> 0x7F then put_casts [cp] out j
      else if cp \<le> 0x7FF then put_casts [0xC0 OR drop_bit 6 cp, 0x80 OR (cp AND 0x3F)] out j
      else if cp \<le> 0xFFFF then put_casts [0xE0 OR drop_bit 12 cp, 0x80 OR (drop_bit 6 cp AND 0x3F), 0x80 OR (cp AND 0x3F)] out j
      else put_casts [0xF0 OR drop_bit 18 cp, 0x80 OR (drop_bit 12 cp AND 0x3F), 0x80 OR (drop_bit 6 cp AND 0x3F),
                      0x80 OR (cp AND 0x3F)] out j)"

lemma utf16_next_more: "utf16_next le b n i = Inr (cp, i') \<Longrightarrow> i < i'"
  by (auto simp: utf16_next_def rbind_Inr utf16_error_def split: if_splits)

function utf16_dec_loop :: "bool \<Rightarrow> mem \<Rightarrow> nat \<Rightarrow> nat \<Rightarrow> mem \<Rightarrow> nat \<Rightarrow> (mem \<times> nat) res" where
  "utf16_dec_loop le b n i out j =
     (if i < n
      then rbind (utf16_next le b n i) (\<lambda>(cp, i).
           rbind (utf16_put cp out j) (\<lambda>(out, j). utf16_dec_loop le b n i out j))
      else Inr (out, j))"
  by pat_completeness auto
termination by (relation "measure (\<lambda>(le, b, n, i, x, y). n - i)") (auto dest!: utf16_next_more)

declare utf16_dec_loop.simps [simp del]

definition utf16_decode :: "bool \<Rightarrow> mem \<Rightarrow> mstr res" where
  "utf16_decode le b =
     (let b_len = length b; num_units = b_len div 2; msg = ''irrational byte length'' in
      if b_len mod 2 \<noteq> 0 then utf16_error ''UTF-16 data must have even length''
      else rbind (fits msg (num_units * 3)) (\<lambda>cap.
           rbind (utf16_dec_loop le b num_units 0 (bytearray cap) 0) (\<lambda>(out, out_idx).
           rbind (fits msg (out_idx + 1)) (\<lambda>buf_size.
           rbind (sys_memcpy 0 (sys_alloc buf_size) 0 out out_idx) (\<lambda>new_buf.
           rbind (store out_idx 0 new_buf) (\<lambda>new_buf.
           from_owned_cstr new_buf buf_size))))))"

end
