(* ===== verification/Lib_Codecs_Correct.thy ===== *)
theory Lib_Codecs_Correct
  imports Lib_Str_Correct Lib_Codecs
begin

unbundle bit_operations_syntax

text \<open>
  The codecs: encoding a string gives the bytes of its code points, decoding accepts exactly the
  encodings, and the lossy decoder replaces exactly the bytes that start no well-formed sequence.
\<close>

subsection \<open>Writing into a block that is large enough\<close>

lemma put_bytes_eq: "length bs \<le> length r \<Longrightarrow> length w + length bs < 2 ^ 63 \<Longrightarrow>
    put_bytes msg bs (map Some w @ r) (length w) = Inr (map Some (w @ bs) @ drop (length bs) r, length w + length bs)"
proof (induction bs arbitrary: w r)
  case (Cons b bs)
  then obtain y r' where r: "r = y # r'" by (cases r) auto
  have "put_bytes msg bs (map Some (w @ [b]) @ r') (length (w @ [b]))
      = Inr (map Some ((w @ [b]) @ bs) @ drop (length bs) r', length (w @ [b]) + length bs)"
    using Cons.prems r by (intro Cons.IH) simp_all
  then show ?case using Cons.prems r by (simp add: list_update_append)
qed simp

lemma put_casts_eq: "length bs \<le> length r \<Longrightarrow> length w + length bs < 2 ^ 63 \<Longrightarrow> \<forall>b \<in> set bs. b < 256 \<Longrightarrow>
    put_casts bs (map Some w @ r) (length w) = Inr (map Some (w @ bs) @ drop (length bs) r, length w + length bs)"
proof (induction bs arbitrary: w r)
  case (Cons b bs)
  then obtain y r' where r: "r = y # r'" by (cases r) auto
  have "put_casts bs (map Some (w @ [b]) @ r') (length (w @ [b]))
      = Inr (map Some ((w @ [b]) @ bs) @ drop (length bs) r', length (w @ [b]) + length bs)"
    using Cons.prems r by (intro Cons.IH) simp_all
  then show ?case using Cons.prems r by (simp add: list_update_append u8_cast_def)
qed simp

lemma utf16_put_eq: assumes "cp < 0x110000" "length (utf8_enc cp) \<le> length r" "length w + 4 < 2 ^ 63"
  shows "utf16_put cp (map Some w @ r) (length w) = Inr (map Some (w @ utf8_enc cp) @ drop (length (utf8_enc cp)) r, length w + length (utf8_enc cp))"
proof -
  have m: "x mod 64 < 64" for x :: nat by simp
  have d: "cp div 262144 < 5" "cp < 0x10000 \<Longrightarrow> cp div 4096 < 16" "cp < 0x800 \<Longrightarrow> cp div 64 < 32" using lead_div_bounds assms(1) by blast+
  have "\<forall>b \<in> set (utf8_enc cp). b < 256" using d m [of "cp div 4096"] m [of "cp div 64"] m [of cp] by (auto simp: utf8_enc_def)
  then have p: "put_casts (utf8_enc cp) (map Some w @ r) (length w) = Inr (map Some (w @ utf8_enc cp) @ drop (length (utf8_enc cp)) r, length w + length (utf8_enc cp))"
    using assms utf8_enc_not_Nil(3) [of cp] by (intro put_casts_eq) linarith+
  have "utf16_put cp (map Some w @ r) (length w) = put_casts (utf8_enc cp) (map Some w @ r) (length w)"
    using d m by (cases "cp < 0x80"; cases "cp < 0x800"; cases "cp < 0x10000")
      (simp_all add: utf16_put_def utf8_enc_def drops and_low or_tags)
  then show ?thesis using p by simp
qed

lemma finish: assumes "\<forall>b \<in> set w. b < 256" "length w + 1 < 2 ^ 63"
  shows "rbind (sys_memcpy 0 (sys_alloc (length w + 1)) 0 (map Some w @ r) (length w)) (\<lambda>new_buf.
      rbind (store (length w) 0 new_buf) (\<lambda>new_buf. from_owned_cstr new_buf (length w + 1)))
    = from_owned_cstr (map Some (w @ [0])) (length w + 1)"
proof -
  have "sys_memcpy 0 (sys_alloc (length w + 1)) 0 (map Some w @ r) (length w) = Inr (map Some w @ sys_alloc 1)"
    by (simp add: sys_alloc_def replicate_append_same [symmetric] del: replicate.simps)
  then show ?thesis using store_next [of w 0 0] by (simp add: sys_alloc_def)
qed

subsection \<open>UTF-8\<close>

lemma utf8_encode_mk: "length (utf8 cps) < 2 ^ 63 \<Longrightarrow> utf8_encode (mk_str cps) = Inr (map Some (utf8 cps))"
  by (simp add: utf8_encode_def bytearray_def Let_def)

lemma utf8_decode_eq: assumes "\<forall>b \<in> set bs. b < 256" "length bs + 1 < 2 ^ 63"
  shows "utf8_decode (map Some bs) = from_owned_cstr (map Some (bs @ [0])) (length bs + 1)"
  using finish [of bs "[]"] assms by (simp add: utf8_decode_def Let_def)

text \<open>The replacement of a byte, and the lossy reading of a sequence of bytes.\<close>

definition lossy_unit :: "decode_errors \<Rightarrow> nat \<Rightarrow> nat list" where
  "lossy_unit errors b = (case errors of Ignore \<Rightarrow> [] | Replace \<Rightarrow> [0xFFFD]
     | BackslashReplace \<Rightarrow> [92, 120, hex_digit (b div 16), hex_digit (b mod 16)])"

definition head_cp :: "nat list \<Rightarrow> nat option" where
  "head_cp bs = (let cp = cp_of (take (lead_len (hd bs)) bs) in
     if bs \<noteq> [] \<and> scalar cp \<and> take (length (utf8_enc cp)) bs = utf8_enc cp then Some cp else None)"

lemma head_cp_Some: "head_cp bs = Some cp \<longleftrightarrow> scalar cp \<and> (\<exists>rest. bs = utf8_enc cp @ rest)"
proof
  assume "head_cp bs = Some cp"
  then show "scalar cp \<and> (\<exists>rest. bs = utf8_enc cp @ rest)"
    by (auto simp: head_cp_def Let_def split: if_splits) (metis append_take_drop_id)
next
  assume "scalar cp \<and> (\<exists>rest. bs = utf8_enc cp @ rest)"
  then obtain rest where b: "scalar cp" "bs = utf8_enc cp @ rest" by blast
  have "lead_len (hd bs) = length (utf8_enc cp)" using b lead_len_enc [of cp] by (simp add: scalar_bound)
  then have "cp_of (take (lead_len (hd bs)) bs) = cp" using b cp_of_enc by simp
  then show "head_cp bs = Some cp" using b by (simp add: head_cp_def)
qed

lemma head_cp_Nil [simp]: "head_cp [] = None"
  by (simp add: head_cp_def)

function lossy :: "decode_errors \<Rightarrow> nat list \<Rightarrow> nat list" where
  "lossy errors bs = (case head_cp bs of Some cp \<Rightarrow> cp # lossy errors (drop (length (utf8_enc cp)) bs)
     | None \<Rightarrow> (case bs of [] \<Rightarrow> [] | b # bs' \<Rightarrow> lossy_unit errors b @ lossy errors bs'))"
  by pat_completeness auto
termination
proof (relation "measure (length \<circ> snd)")
  fix errors bs cp
  assume "head_cp bs = Some cp"
  then obtain rest where "bs = utf8_enc cp @ rest" unfolding head_cp_Some by blast
  then show "((errors, drop (length (utf8_enc cp)) bs), errors, bs) \<in> measure (length \<circ> snd)"
    using utf8_enc_not_Nil(2) [of cp] by (simp del: utf8_enc_not_Nil)
qed auto

declare lossy.simps [simp del]

lemma lossy_seq_eq: assumes t: "text_at i bs ptr (b1 # suf)"
  shows "lossy_seq ptr (length bs) i b1 = Inr (case head_cp (b1 # suf) of None \<Rightarrow> 0 | Some cp \<Rightarrow> length (utf8_enc cp))"
proof -
  note L = text_at_load [OF t, of 1] text_at_load [OF t, of 2] text_at_load [OF t, of 3] text_at_fits [OF t, of 3]
    text_at_fits [OF t, of 2] text_at_fits [OF t, of 1] text_at_len [OF t] text_at_0 [OF t]
  have "lossy_seq ptr (length bs) i b1 = (case utf8_seq ptr (length bs) i of Inl e \<Rightarrow> Inr 0 | Inr n \<Rightarrow> Inr n)"
    unfolding utf8_seq_eq [OF t] seq2_eq [OF t] seq3_eq [OF t] seq4_eq [OF t] utf8_error_def
    using L by (cases suf; cases "tl suf"; cases "tl (tl suf)") (auto simp: lossy_seq_def lead_ranges utf8_error_def numeral_3_eq_3 Let_def)
  also have "\<dots> = Inr (case head_cp (b1 # suf) of None \<Rightarrow> 0 | Some cp \<Rightarrow> length (utf8_enc cp))"
  proof (cases "head_cp (b1 # suf)")
    case None
    then have "\<nexists>cp rest. scalar cp \<and> b1 # suf = utf8_enc cp @ rest" using head_cp_Some by (metis option.distinct(1))
    then obtain m where "utf8_seq ptr (length bs) i = Inl (CodecError ''utf-8'' m)" using utf8_seq_sound [OF t] by blast
    then show ?thesis using None by simp
  next
    case (Some cp)
    then obtain rest where r: "scalar cp" "b1 # suf = utf8_enc cp @ rest" unfolding head_cp_Some by blast
    then have "utf8_seq ptr (length bs) i = Inr (length (utf8_enc cp))" using utf8_seq_complete t by metis
    then show ?thesis using Some by simp
  qed
  finally show ?thesis .
qed

lemma copy_seq_loop_eq: "i + k \<le> length bs \<Longrightarrow> k \<le> length r \<Longrightarrow> length bs < 2 ^ 63 \<Longrightarrow> length w + k < 2 ^ 63 \<Longrightarrow>
    copy_seq_loop k (map Some bs) i (map Some w @ r) (length w) = Inr (map Some (w @ take k (drop i bs)) @ drop k r, length w + k)"
proof (induction k arbitrary: i w r)
  case (Suc k)
  then obtain y r' where r: "r = y # r'" by (cases r) auto
  have "copy_seq_loop k (map Some bs) (i + 1) (map Some (w @ [bs ! i]) @ r') (length (w @ [bs ! i]))
      = Inr (map Some ((w @ [bs ! i]) @ take k (drop (i + 1) bs)) @ drop k r', length (w @ [bs ! i]) + k)"
    using Suc.prems r by (intro Suc.IH) simp_all
  moreover have "take (Suc k) (drop i bs) = bs ! i # take k (drop (i + 1) bs)"
    using Suc.prems by (simp add: take_Suc_conv_app_nth Cons_nth_drop_Suc [symmetric])
  ultimately show ?case using Suc.prems r by (simp add: list_update_append Let_def)
qed simp

lemma utf8_enc_ascii: "cp < 128 \<Longrightarrow> utf8_enc cp = [cp]"
  by (simp add: utf8_enc_def)

lemma hex_digit_range: "n < 16 \<Longrightarrow> hex_digit n < 128"
  by (simp add: hex_digit_def)

lemma utf8_lossy_unit: assumes "b < 256"
  shows "utf8 (lossy_unit errors b) = (case errors of Ignore \<Rightarrow> [] | Replace \<Rightarrow> [0xEF, 0xBF, 0xBD]
    | BackslashReplace \<Rightarrow> [92, 120, hex_digit (b div 16), hex_digit (b mod 16)])"
proof -
  have "hex_digit (b div 16) < 128" "hex_digit (b mod 16) < 128" using assms by (simp_all add: hex_digit_range less_mult_imp_div_less)
  then show ?thesis by (cases errors) (simp_all add: lossy_unit_def utf8_enc_ascii, simp add: utf8_enc_def)
qed

lemma lossy_unit_length: "b < 256 \<Longrightarrow> length (utf8 (lossy_unit errors b)) \<le> 4"
  by (cases errors) (simp_all add: utf8_lossy_unit)

lemma emit_lossy_eq: assumes "b < 256" "4 \<le> length r" "length w + 4 < 2 ^ 63"
  shows "emit_lossy_unit (map Some w @ r) (length w) b errors
    = Inr (map Some (w @ utf8 (lossy_unit errors b)) @ drop (length (utf8 (lossy_unit errors b))) r, length w + length (utf8 (lossy_unit errors b)))"
proof -
  have n: "drop_bit 4 b = b div 16" by (simp add: drop_bit_eq_div)
  have "emit_lossy_unit (map Some w @ r) (length w) b errors
      = put_bytes ''out_idx bounded by the caller-sized worst-case buffer'' (utf8 (lossy_unit errors b)) (map Some w @ r) (length w)"
    unfolding utf8_lossy_unit [OF assms(1)] emit_lossy_unit_def Let_def n and_low by (cases errors) simp_all
  also have "\<dots> = Inr (map Some (w @ utf8 (lossy_unit errors b)) @ drop (length (utf8 (lossy_unit errors b))) r, length w + length (utf8 (lossy_unit errors b)))"
    using assms lossy_unit_length [OF assms(1), of errors] by (intro put_bytes_eq) linarith+
  finally show ?thesis .
qed

lemma lossy_scalar: "\<forall>b \<in> set bs. b < 256 \<Longrightarrow> list_all scalar (lossy errors bs)"
proof (induction errors bs rule: lossy.induct)
  case (1 errors bs)
  show ?case
  proof (cases "head_cp bs")
    case None
    show ?thesis
    proof (cases bs)
      case (Cons b bs')
      have "hex_digit (b div 16) < 128" "hex_digit (b mod 16) < 128" using 1(3) Cons by (simp_all add: hex_digit_range less_mult_imp_div_less)
      then have "list_all scalar (lossy_unit errors b)" by (cases errors) (simp_all add: lossy_unit_def scalar_def)
      then show ?thesis using 1(1) [OF None Cons] 1(3) None Cons by (simp add: lossy.simps [of errors "b # bs'"])
    qed (simp add: lossy.simps)
  next
    case (Some cp)
    have "list_all scalar (lossy errors (drop (length (utf8_enc cp)) bs))" using 1(2) [OF Some] 1(3) by (meson in_set_dropD)
    moreover have "scalar cp" using Some unfolding head_cp_Some by blast
    ultimately show ?thesis using Some by (simp add: lossy.simps [of errors bs])
  qed
qed

lemma lossy_utf8: "list_all scalar cps \<Longrightarrow> lossy errors (utf8 cps) = cps"
proof (induction cps)
  case (Cons cp cps)
  then have "head_cp (utf8 (cp # cps)) = Some cp" unfolding head_cp_Some by auto
  then show ?case using Cons by (subst lossy.simps) simp
qed (simp add: lossy.simps)

lemma lossy_length: "\<forall>b \<in> set bs. b < 256 \<Longrightarrow> length (utf8 (lossy errors bs)) \<le> 4 * length bs"
proof (induction errors bs rule: lossy.induct)
  case (1 errors bs)
  show ?case
  proof (cases "head_cp bs")
    case None
    show ?thesis
    proof (cases bs)
      case (Cons b bs')
      then show ?thesis using 1(1) [OF None Cons] 1(3) None lossy_unit_length [of b errors] by (simp add: lossy.simps [of errors "b # bs'"])
    qed (simp add: lossy.simps)
  next
    case (Some cp)
    have "length (utf8 (lossy errors (drop (length (utf8_enc cp)) bs))) \<le> 4 * (length bs - length (utf8_enc cp))"
      using 1(2) [OF Some] 1(3) by (metis in_set_dropD length_drop)
    moreover have "length (utf8_enc cp) \<le> length bs" using Some by (auto simp: head_cp_Some)
    ultimately show ?thesis using Some by (simp add: lossy.simps [of errors bs])
  qed
qed

lemma lossy_loop_eq: assumes "\<forall>b \<in> set bs. b < 256"
  shows "i \<le> length bs \<Longrightarrow> 4 * length (drop i bs) \<le> length r \<Longrightarrow> length bs < 2 ^ 63 \<Longrightarrow> length w + 4 * length (drop i bs) + 4 < 2 ^ 63 \<Longrightarrow>
    \<exists>r'. lossy_loop (map Some bs) (length bs) errors i (map Some w @ r) (length w)
      = Inr (map Some (w @ utf8 (lossy errors (drop i bs))) @ r', length w + length (utf8 (lossy errors (drop i bs))))"
proof (induction "length bs - i" arbitrary: i w r rule: less_induct)
  case less
  show ?case
  proof (cases "i < length bs")
    case False
    then show ?thesis using less.prems by (subst lossy_loop.simps) (simp add: lossy.simps)
  next
    case True
    let ?b = "bs ! i" and ?L = "lossy_loop (map Some bs) (length bs) errors"
    have d: "drop i bs = ?b # drop (i + 1) bs" using True by (simp add: Cons_nth_drop_Suc)
    have t: "text_at i bs (map Some bs) (?b # drop (i + 1) bs)"
      using True less.prems assms d unfolding text_at_def by (intro conjI exI [of _ "[]"]) (simp_all add: d)
    have b: "?b < 256" using assms True by simp
    have ld: "load i (map Some bs) = Inr ?b" using True by simp
    note sq = lossy_seq_eq [OF t]
    show ?thesis
    proof (cases "head_cp (drop i bs)")
      case None
      let ?u = "utf8 (lossy_unit errors ?b)"
      have u: "length ?u \<le> 4" using lossy_unit_length [OF b] .
      have e: "emit_lossy_unit (map Some w @ r) (length w) ?b errors = Inr (map Some (w @ ?u) @ drop (length ?u) r, length (w @ ?u))"
        using emit_lossy_eq [OF b, of r w errors] less.prems(2,4) True by simp
      have "?L i (map Some w @ r) (length w) = ?L (i + 1) (map Some (w @ ?u) @ drop (length ?u) r) (length (w @ ?u))"
        using True ld sq None e less.prems(3) unfolding d by (subst lossy_loop.simps) (simp add: Let_def)
      moreover have "\<exists>r'. ?L (i + 1) (map Some (w @ ?u) @ drop (length ?u) r) (length (w @ ?u))
          = Inr (map Some ((w @ ?u) @ utf8 (lossy errors (drop (i + 1) bs))) @ r', length (w @ ?u) + length (utf8 (lossy errors (drop (i + 1) bs))))"
        using less.prems True u by (intro less.hyps) auto
      moreover have "utf8 (lossy errors (drop i bs)) = ?u @ utf8 (lossy errors (drop (i + 1) bs))"
        using None unfolding d by (simp add: lossy.simps [of errors "_ # _"])
      ultimately show ?thesis by (simp add: add.assoc)
    next
      case (Some cp)
      let ?n = "length (utf8_enc cp)"
      obtain rest where r: "scalar cp" "drop i bs = utf8_enc cp @ rest" using Some unfolding head_cp_Some by blast
      have le: "i + ?n \<le> length bs" using arg_cong [OF r(2), of length] True by simp
      have tk: "take ?n (drop i bs) = utf8_enc cp" "drop (i + ?n) bs = rest"
        using r(2) by (simp_all add: drop_drop [symmetric] add.commute [of i])
      have e: "copy_seq_loop ?n (map Some bs) i (map Some w @ r) (length w) = Inr (map Some (w @ utf8_enc cp) @ drop ?n r, length (w @ utf8_enc cp))"
        using copy_seq_loop_eq [of i ?n bs r w] less.prems le tk(1) by simp
      have "?L i (map Some w @ r) (length w) = ?L (i + ?n) (map Some (w @ utf8_enc cp) @ drop ?n r) (length (w @ utf8_enc cp))"
        using True ld sq Some e less.prems(3) le unfolding d by (subst lossy_loop.simps) (simp add: Let_def)
      moreover have "\<exists>r'. ?L (i + ?n) (map Some (w @ utf8_enc cp) @ drop ?n r) (length (w @ utf8_enc cp))
          = Inr (map Some ((w @ utf8_enc cp) @ utf8 (lossy errors (drop (i + ?n) bs))) @ r', length (w @ utf8_enc cp) + length (utf8 (lossy errors (drop (i + ?n) bs))))"
      proof (rule less.hyps)
        show "length bs - (i + ?n) < length bs - i" using True utf8_enc_not_Nil(2) [of cp] by linarith
      qed (use less.prems le in auto)
      moreover have "utf8 (lossy errors (drop i bs)) = utf8_enc cp @ utf8 (lossy errors (drop (i + ?n) bs))"
        using Some tk(2) r(2) by (simp add: lossy.simps [of errors "utf8_enc cp @ rest"])
      ultimately show ?thesis by (simp add: add.assoc)
    qed
  qed
qed

lemma utf8_decode_lossy_eq: assumes "\<forall>b \<in> set bs. b < 256" "4 * length bs + 8 < 2 ^ 63"
  shows "utf8_decode_lossy (map Some bs) errors = Inr (mk_str (lossy errors bs))"
proof -
  let ?t = "utf8 (lossy errors bs)"
  obtain r' where L: "lossy_loop (map Some bs) (length bs) errors 0 (bytearray (length bs * 4)) 0 = Inr (map Some ?t @ r', length ?t)"
    using lossy_loop_eq [OF assms(1), of 0 "bytearray (length bs * 4)" "[]" errors] assms(2) by (auto simp: bytearray_def)
  have sc: "list_all scalar (lossy errors bs)" using lossy_scalar assms(1) by blast
  have tl: "length ?t + 1 < 2 ^ 63" using lossy_length [OF assms(1), of errors] assms(2) by linarith
  have "rbind (sys_memcpy 0 (sys_alloc (length ?t + 1)) 0 (map Some ?t @ r') (length ?t)) (\<lambda>new_buf.
      rbind (store (length ?t) 0 new_buf) (\<lambda>new_buf. from_owned_cstr new_buf (length ?t + 1))) = Inr (mk_str (lossy errors bs))"
    using finish [of ?t r'] utf8_bytes [OF sc] from_owned_utf8 [OF sc] tl by simp
  then have F: "rbind (sys_memcpy 0 (sys_alloc (length ?t + 1)) 0 (map Some ?t @ r') (length ?t)) (\<lambda>new_buf.
      rbind (store (length ?t) 0 new_buf) (\<lambda>new_buf. unwrap m (from_owned_cstr new_buf (length ?t + 1)))) = Inr (mk_str (lossy errors bs))" for m
    by (auto simp: rbind_Inr)
  have b: "length (map Some bs) * 4 < 18446744073709551616" "length ?t + 1 < 18446744073709551616" "length (map Some bs) = length bs" using assms(2) tl by auto
  show ?thesis unfolding utf8_decode_lossy_def Let_def fits_small [OF b(1)] rbind_simps unfolding b(3) L rbind_simps split_conv fits_small [OF b(2)] by (rule F)
qed

subsection \<open>UTF-16\<close>

definition utf16_enc :: "nat \<Rightarrow> nat list" where
  "utf16_enc cp = (if cp < 0x10000 then [cp] else [0xD800 + (cp - 0x10000) div 1024, 0xDC00 + (cp - 0x10000) mod 1024])"

definition utf16 :: "nat list \<Rightarrow> nat list" where
  "utf16 cps = concat (map utf16_enc cps)"

lemma utf16_simps [simp]: "utf16 [] = []" "utf16 (cp # cps) = utf16_enc cp @ utf16 cps" "utf16 (as @ bs) = utf16 as @ utf16 bs"
  by (simp_all add: utf16_def)

definition unit_bytes :: "bool \<Rightarrow> nat list \<Rightarrow> nat list" where
  "unit_bytes le us = concat (map (\<lambda>u. if le then [u mod 256, u div 256] else [u div 256, u mod 256]) us)"

lemma unit_bytes_simps [simp]: "unit_bytes le [] = []"
  "unit_bytes le (u # us) = (if le then [u mod 256, u div 256] else [u div 256, u mod 256]) @ unit_bytes le us"
  "unit_bytes le (us @ vs) = unit_bytes le us @ unit_bytes le vs"
  by (simp_all add: unit_bytes_def)

lemma unit_bytes_length [simp]: "length (unit_bytes le us) = 2 * length us"
  by (induction us) auto

lemma unit_bytes_nth: "i < length us \<Longrightarrow> unit_bytes le us ! (2 * i) = (if le then us ! i mod 256 else us ! i div 256)
    \<and> unit_bytes le us ! (2 * i + 1) = (if le then us ! i div 256 else us ! i mod 256)"
proof (induction us arbitrary: i)
  case (Cons u us)
  then show ?case by (cases i) auto
qed simp

lemma u16_load_eq: "i < length us \<Longrightarrow> u16_load le i (map Some (unit_bytes le us)) = Inr (us ! i)"
  using unit_bytes_nth [of i us le] by (simp add: u16_load_def algebra_simps)

lemma u16_store_eq: assumes "2 \<le> length r"
  shows "u16_store le (length us) u (map Some (unit_bytes le us) @ r) = Inr (map Some (unit_bytes le (us @ [u])) @ drop 2 r)"
proof -
  obtain a b r' where "r = a # b # r'" using assms by (cases r; cases "tl r") auto
  moreover have "(xs @ a # b # r')[length xs := p, Suc (length xs) := q] = xs @ p # q # r'" for xs p q and a b :: "nat option"
    by (simp add: list_update_append)
  ultimately show ?thesis by (simp add: u16_store_def list_update_append)
qed

lemma utf16_enc_length: "1 \<le> length (utf16_enc cp)" "length (utf16_enc cp) \<le> 2"
  by (simp_all add: utf16_enc_def)

lemma utf16_len: "length (utf16_enc cp) \<le> length (utf8_enc cp)" "length (utf8_enc cp) \<le> 3 * length (utf16_enc cp)"
  by (simp_all add: utf16_enc_def utf8_enc_def)

lemma utf16_len_all: "length (utf16 cps) \<le> length (utf8 cps)" "length (utf8 cps) \<le> 3 * length (utf16 cps)"
proof -
  show "length (utf16 cps) \<le> length (utf8 cps)"
  proof (induction cps)
    case (Cons cp cps)
    then show ?case using utf16_len(1) [of cp] by (simp only: utf16_simps utf8_simps length_append add_mono)
  qed simp
  show "length (utf8 cps) \<le> 3 * length (utf16 cps)"
  proof (induction cps)
    case (Cons cp cps)
    then show ?case using utf16_len(2) [of cp] unfolding utf16_simps utf8_simps length_append by (simp add: algebra_simps)
  qed simp
qed

lemma or_surrogate: "x < 1024 \<Longrightarrow> 0xD800 OR x = 0xD800 + (x :: nat)" "x < 1024 \<Longrightarrow> 0xDC00 OR x = 0xDC00 + x"
  using or_as_sum [of x 10 54] or_as_sum [of x 10 55] by (simp_all add: push_bit_eq_mult)

lemma utf16_write_eq: assumes "cp < 0x110000" "2 * length (utf16_enc cp) \<le> length r" "length us < 2 ^ 62"
  shows "utf16_write le cp (map Some (unit_bytes le us) @ r) (length us)
    = Inr (map Some (unit_bytes le (us @ utf16_enc cp)) @ drop (2 * length (utf16_enc cp)) r, length us + length (utf16_enc cp))"
proof (cases "cp < 0x10000")
  case True
  then show ?thesis using assms u16_store_eq [of r le us cp] by (simp add: utf16_write_def utf16_enc_def u16_cast_def)
next
  case False
  let ?h = "(cp - 0x10000) div 1024" and ?l = "(cp - 0x10000) mod 1024"
  have h: "?h < 1024" "?l < 1024" using assms(1) False by (simp_all add: less_mult_imp_div_less)
  have r: "4 \<le> length r" using assms(2) False by (simp add: utf16_enc_def)
  have s1: "u16_store le (length us) (0xD800 + ?h) (map Some (unit_bytes le us) @ r) = Inr (map Some (unit_bytes le (us @ [0xD800 + ?h])) @ drop 2 r)"
    using u16_store_eq r by simp
  have s2: "u16_store le (length us + 1) (0xDC00 + ?l) (map Some (unit_bytes le (us @ [0xD800 + ?h])) @ drop 2 r)
      = Inr (map Some (unit_bytes le ((us @ [0xD800 + ?h]) @ [0xDC00 + ?l])) @ drop 2 (drop 2 r))"
    using u16_store_eq [of "drop 2 r" le "us @ [0xD800 + ?h]" "0xDC00 + ?l"] r by simp
  have e: "utf16_enc cp = [0xD800 + ?h] @ [0xDC00 + ?l]" using False by (simp add: utf16_enc_def)
  have n: "\<not> cp \<le> 0xFFFF" "drop_bit 10 (cp - 0x10000) = ?h" "length us + 1 < 18446744073709551616" "length us + 2 < 18446744073709551616"
    using False assms(3) by (auto simp: drop_bit_eq_div)
  have c: "u16_cast enc_msg ?h = Inr ?h" "u16_cast enc_msg ?l = Inr ?l" using h by (simp_all add: u16_cast_def)
  show ?thesis
    unfolding utf16_write_def if_not_P [OF n(1)] Let_def n(2) and_low c rbind_simps or_surrogate(1) [OF h(1)] or_surrogate(2) [OF h(2)]
      s1 fits_small [OF n(3)] s2 fits_small [OF n(4)] unfolding e by simp
qed

lemma utf16_read_middle: assumes cp: "scalar cp" and b: "length (pre @ utf8_enc cp @ post) < 2 ^ 63"
  shows "utf16_read (map Some (pre @ utf8_enc cp @ post @ [0])) (length (pre @ utf8_enc cp @ post)) (length pre) = Inr (cp, length (utf8_enc cp))"
proof -
  let ?d = "map Some (pre @ utf8_enc cp @ post @ [0])" and ?i = "length pre" and ?n = "length (pre @ utf8_enc cp @ post)"
  have L: "k < length (utf8_enc cp) \<Longrightarrow> load (?i + k) ?d = Inr (utf8_enc cp ! k)" for k
    using load_middle [of k "utf8_enc cp" pre "post @ [0]"] by simp
  have f: "k < length (utf8_enc cp) \<Longrightarrow> ?i + k < ?n" for k by simp
  have g: "k \<le> 4 \<Longrightarrow> fits enc_msg (?i + k) = Inr (?i + k)" for k using b by simp
  note e = cp_of_enc [of cp]
  from cp show ?thesis
  proof (cases rule: enc_shapes)
    case (1 x)
    then show ?thesis using L [of 0] e by (simp add: utf16_read_def)
  next
    case (2 b1 b2)
    have "load ?i ?d = Inr b1" "load (?i + 1) ?d = Inr b2" "\<not> ?i + 1 \<ge> ?n" using L [of 0] L [of 1] f [of 1] 2 by simp_all
    then show ?thesis using g [of 1] e 2 unfolding utf16_read_def by (simp add: lead_ranges dec2 del: cp_of.simps push_bit_and fits_Inr map_append length_append)
  next
    case (3 b1 b2 b3)
    have "load ?i ?d = Inr b1" "load (?i + 1) ?d = Inr b2" "load (?i + 2) ?d = Inr b3" "\<not> ?i + 2 \<ge> ?n"
      using L [of 0] L [of 1] L [of 2] f [of 2] 3 by simp_all
    then show ?thesis using g [of 2] e 3 unfolding utf16_read_def by (simp add: lead_ranges dec3 del: cp_of.simps push_bit_and fits_Inr map_append length_append)
  next
    case (4 b1 b2 b3 b4)
    have "load ?i ?d = Inr b1" "load (?i + 1) ?d = Inr b2" "load (?i + 2) ?d = Inr b3" "load (?i + 3) ?d = Inr b4" "\<not> ?i + 3 \<ge> ?n"
      using L [of 0] L [of 1] L [of 2] L [of 3] f [of 3] 4 by (simp_all add: numeral_3_eq_3)
    then show ?thesis using g [of 3] e 4 unfolding utf16_read_def by (simp add: lead_ranges dec4 del: cp_of.simps push_bit_and fits_Inr map_append length_append)
  qed
qed

lemma utf16_enc_loop_eq: "list_all scalar (a @ rest) \<Longrightarrow> length (utf8 (a @ rest)) + 1 < 2 ^ 62 \<Longrightarrow> 2 * length (utf16 rest) \<le> length r \<Longrightarrow>
    length us + length (utf16 rest) < 2 ^ 62 \<Longrightarrow>
    utf16_enc_loop le (s_data (mk_str (a @ rest))) (length (utf8 (a @ rest))) (length (utf8 a)) (map Some (unit_bytes le us) @ r) (length us)
    = Inr (map Some (unit_bytes le (us @ utf16 rest)) @ drop (2 * length (utf16 rest)) r, length us + length (utf16 rest))"
proof (induction rest arbitrary: a us r)
  case Nil
  then show ?case by (subst utf16_enc_loop.simps) simp
next
  case (Cons cp rest)
  let ?d = "s_data (mk_str (a @ cp # rest))" and ?n = "length (utf8 (a @ cp # rest))"
  have cp: "scalar cp" using Cons.prems(1) by simp
  have "length (utf8 a @ utf8_enc cp @ utf8 rest) < 2 ^ 63" using Cons.prems(2) by simp
  then have R: "utf16_read ?d ?n (length (utf8 a)) = Inr (cp, length (utf8_enc cp))"
    using utf16_read_middle [OF cp, of "utf8 a" "utf8 rest"] by simp
  have W: "utf16_write le cp (map Some (unit_bytes le us) @ r) (length us)
      = Inr (map Some (unit_bytes le (us @ utf16_enc cp)) @ drop (2 * length (utf16_enc cp)) r, length (us @ utf16_enc cp))"
    using utf16_write_eq [of cp r us le] Cons.prems cp by (simp add: scalar_bound)
  have i: "length (utf8 a) < ?n" "length (utf8 a) + length (utf8_enc cp) < 18446744073709551616" using Cons.prems(2) by auto
  have "utf16_enc_loop le ?d ?n (length (utf8 a)) (map Some (unit_bytes le us) @ r) (length us)
      = utf16_enc_loop le ?d ?n (length (utf8 a) + length (utf8_enc cp)) (map Some (unit_bytes le (us @ utf16_enc cp)) @ drop (2 * length (utf16_enc cp)) r) (length (us @ utf16_enc cp))"
    unfolding utf16_enc_loop.simps [of le ?d ?n "length (utf8 a)"] if_P [OF i(1)] R W rbind_simps split_conv fits_small [OF i(2)] ..
  also have "\<dots> = Inr (map Some (unit_bytes le ((us @ utf16_enc cp) @ utf16 rest)) @ drop (2 * length (utf16 rest)) (drop (2 * length (utf16_enc cp)) r),
      length (us @ utf16_enc cp) + length (utf16 rest))"
    using Cons.IH [of "a @ [cp]" "drop (2 * length (utf16_enc cp)) r" "us @ utf16_enc cp"] Cons.prems by simp
  finally show ?case by (simp add: algebra_simps)
qed

lemma utf16_encode_eq: assumes "list_all scalar cps" "length (utf8 cps) + 1 < 2 ^ 62"
  shows "utf16_encode le (mk_str cps) = Inr (map Some (unit_bytes le (utf16 cps)))"
proof -
  let ?n = "length (utf8 cps)"
  have l: "length (utf16 cps) \<le> ?n" by (rule utf16_len_all)
  have L: "utf16_enc_loop le (s_data (mk_str cps)) ?n 0 (bytearray (?n * 2)) 0
      = Inr (map Some (unit_bytes le (utf16 cps)) @ drop (2 * length (utf16 cps)) (bytearray (?n * 2)), length (utf16 cps))"
    using utf16_enc_loop_eq [of "[]" cps "bytearray (?n * 2)" "[]" le] assms l by (simp add: bytearray_def)
  have b: "?n * 2 < 18446744073709551616" "length (utf16 cps) * 2 < 18446744073709551616" using assms(2) l by auto
  show ?thesis
    unfolding utf16_encode_def Let_def mk_str_simps(4) fits_small [OF b(1)] rbind_simps L split_conv fits_small [OF b(2)]
    by (simp add: bytearray_def algebra_simps)
qed

text \<open>Reading back.\<close>

lemma utf16_prefix_unique: assumes "utf16_enc a @ r = utf16_enc b @ r'" "scalar a" "scalar b" shows "a = b \<and> r = r'"
proof -
  have q: "(a - 0x10000) div 1024 < 1024" "(b - 0x10000) div 1024 < 1024"
    using scalar_bound [OF assms(2)] scalar_bound [OF assms(3)] by (auto intro: less_mult_imp_div_less)
  have dm: "(a - 0x10000) div 1024 = (b - 0x10000) div 1024 \<Longrightarrow> (a - 0x10000) mod 1024 = (b - 0x10000) mod 1024 \<Longrightarrow> a - 0x10000 = b - 0x10000"
    by (metis div_mult_mod_eq)
  consider "a < 0x10000" "b < 0x10000" | "a < 0x10000" "\<not> b < 0x10000" | "\<not> a < 0x10000" "b < 0x10000"
    | "\<not> a < 0x10000" "\<not> b < 0x10000" by blast
  then show ?thesis
  proof cases
    case 4
    then have "a - 0x10000 = b - 0x10000 \<and> r = r'" using assms(1) dm by (simp add: utf16_enc_def)
    then show ?thesis using 4 by linarith
  qed (use assms q in \<open>auto simp: utf16_enc_def scalar_def\<close>)
qed

definition units_at :: "nat \<Rightarrow> nat list \<Rightarrow> nat list \<Rightarrow> bool" where
  "units_at i us suf = (drop i us = suf \<and> i \<le> length us \<and> length us < 2 ^ 62 \<and> (\<forall>u \<in> set us. u < 65536))"

lemma units_at_load: "units_at i us suf \<Longrightarrow> k < length suf \<Longrightarrow> u16_load le (i + k) (map Some (unit_bytes le us)) = Inr (suf ! k)"
  unfolding units_at_def by (auto simp: u16_load_eq)

lemma utf16_next_eq: assumes t: "units_at i us (u # suf)"
  shows "utf16_next le (map Some (unit_bytes le us)) (length us) i =
    (if 0xD800 \<le> u \<and> u \<le> 0xDBFF
     then (case suf of [] \<Rightarrow> utf16_error ''Incomplete surrogate pair''
           | l # _ \<Rightarrow> if 0xDC00 \<le> l \<and> l \<le> 0xDFFF then Inr (0x10000 + (u - 0xD800) * 1024 + (l - 0xDC00), i + 2)
             else utf16_error ''Invalid low surrogate'')
     else if 0xDC00 \<le> u \<and> u \<le> 0xDFFF then utf16_error ''Unexpected low surrogate'' else Inr (u, i + 1))"
proof -
  have n: "length us = i + length (u # suf)" "i + 2 < 18446744073709551616"
  proof -
    have "length (drop i us) = length (u # suf)" "i \<le> length us" "length us < 2 ^ 62" using t unfolding units_at_def by auto
    then show "length us = i + length (u # suf)" "i + 2 < 18446744073709551616" unfolding length_drop by auto
  qed
  show ?thesis using units_at_load [OF t, of 0 le] units_at_load [OF t, of 1 le] n
    by (cases suf) (auto simp: utf16_next_def push_bit_eq_mult)
qed

lemma utf16_next_complete: assumes t: "units_at i us (utf16_enc cp @ rest)" and cp: "scalar cp"
  shows "utf16_next le (map Some (unit_bytes le us)) (length us) i = Inr (cp, i + length (utf16_enc cp))"
proof (cases "cp < 0x10000")
  case True
  then have e: "utf16_enc cp = [cp]" by (simp add: utf16_enc_def)
  have n: "\<not> (0xD800 \<le> cp \<and> cp \<le> 0xDBFF)" "\<not> (0xDC00 \<le> cp \<and> cp \<le> 0xDFFF)" using cp by (auto simp: scalar_def)
  have "units_at i us (cp # rest)" using t e by simp
  from utf16_next_eq [OF this] show ?thesis unfolding if_not_P [OF n(1)] if_not_P [OF n(2)] e by simp
next
  case False
  let ?c = "cp - 0x10000"
  have h: "?c div 1024 < 1024" "?c mod 1024 < 1024" "?c div 1024 * 1024 + ?c mod 1024 = ?c" using scalar_bound [OF cp] by (auto intro: less_mult_imp_div_less)
  have e: "utf16_enc cp = [0xD800 + ?c div 1024, 0xDC00 + ?c mod 1024]" using False by (simp add: utf16_enc_def)
  have "utf16_next le (map Some (unit_bytes le us)) (length us) i = Inr (0x10000 + ?c div 1024 * 1024 + ?c mod 1024, i + 2)"
    using t utf16_next_eq [of i us "0xD800 + ?c div 1024" "(0xDC00 + ?c mod 1024) # rest" le] h unfolding e by simp
  then show ?thesis using h(3) False unfolding e by simp
qed

lemma utf16_next_sound: assumes t: "units_at i us (u # suf)"
  shows "(\<exists>cp rest. scalar cp \<and> u # suf = utf16_enc cp @ rest)
    \<or> (\<exists>m. utf16_next le (map Some (unit_bytes le us)) (length us) i = Inl (CodecError ''utf-16le'' m))"
proof -
  have u: "u < 65536" using t unfolding units_at_def by (metis in_set_dropD list.set_intros(1))
  consider "0xD800 \<le> u" "u \<le> 0xDBFF" | "0xDC00 \<le> u" "u \<le> 0xDFFF" | "u < 0xD800 \<or> 0xDFFF < u" by linarith
  then show ?thesis
  proof cases
    case 1
    show ?thesis
    proof (cases suf)
      case Nil
      then show ?thesis using utf16_next_eq [OF t, of le] 1 by (simp add: utf16_error_def)
    next
      case (Cons l rest)
      show ?thesis
      proof (cases "0xDC00 \<le> l \<and> l \<le> 0xDFFF")
        case True
        let ?cp = "0x10000 + (u - 0xD800) * 1024 + (l - 0xDC00)"
        have "((u - 0xD800) * 1024 + (l - 0xDC00)) div 1024 = u - 0xD800" "((u - 0xD800) * 1024 + (l - 0xDC00)) mod 1024 = l - 0xDC00"
        proof -
          have "l - 0xDC00 < 1024" using True by auto
          then show "((u - 0xD800) * 1024 + (l - 0xDC00)) div 1024 = u - 0xD800" "((u - 0xD800) * 1024 + (l - 0xDC00)) mod 1024 = l - 0xDC00"
            by (simp_all del: Nat.add_diff_assoc)
        qed
        then have "utf16_enc ?cp = [u, l]" using 1 True by (simp add: utf16_enc_def)
        moreover have "scalar ?cp" using 1 True by (auto simp: scalar_def)
        ultimately show ?thesis using Cons by (metis append_Cons append_Nil)
      next
        case False
        then show ?thesis using utf16_next_eq [OF t, of le] 1 Cons by (auto simp: utf16_error_def)
      qed
    qed
  next
    case 2
    then show ?thesis using utf16_next_eq [OF t, of le] by (simp add: utf16_error_def)
  next
    case 3
    then have "utf16_enc u = [u]" "scalar u" using u by (auto simp: utf16_enc_def scalar_def)
    then show ?thesis by (metis append_Cons append_Nil)
  qed
qed

definition dec_spec :: "nat list \<Rightarrow> nat list \<Rightarrow> (mem \<times> nat) res \<Rightarrow> bool" where
  "dec_spec w suf r \<longleftrightarrow>
     (\<exists>todo r'. list_all scalar todo \<and> suf = utf16 todo \<and> r = Inr (map Some (w @ utf8 todo) @ r', length w + length (utf8 todo)))
     \<or> (\<nexists>todo. list_all scalar todo \<and> suf = utf16 todo) \<and> (\<exists>m. r = Inl (CodecError ''utf-16le'' m))"

lemma dec_step: assumes cp: "scalar cp" and s: "dec_spec (w @ utf8_enc cp) rest r"
  shows "dec_spec w (utf16_enc cp @ rest) r"
proof (cases "\<exists>todo. list_all scalar todo \<and> rest = utf16 todo")
  case True
  then obtain todo r' where t: "list_all scalar todo" "rest = utf16 todo"
      "r = Inr (map Some ((w @ utf8_enc cp) @ utf8 todo) @ r', length (w @ utf8_enc cp) + length (utf8 todo))"
    using s unfolding dec_spec_def by blast
  have "list_all scalar (cp # todo) \<and> utf16_enc cp @ rest = utf16 (cp # todo)
      \<and> r = Inr (map Some (w @ utf8 (cp # todo)) @ r', length w + length (utf8 (cp # todo)))" using cp t by simp
  then show ?thesis unfolding dec_spec_def by blast
next
  case False
  have "\<nexists>todo. list_all scalar todo \<and> utf16_enc cp @ rest = utf16 todo"
  proof
    assume "\<exists>todo. list_all scalar todo \<and> utf16_enc cp @ rest = utf16 todo"
    then obtain todo where t: "list_all scalar todo" "utf16_enc cp @ rest = utf16 todo" by blast
    then obtain c todo' where "todo = c # todo'" using utf16_enc_length(1) [of cp] by (cases todo) auto
    then show False using t cp False utf16_prefix_unique [of cp rest c "utf16 todo'"] by auto
  qed
  then show ?thesis using s False unfolding dec_spec_def by blast
qed

lemma utf16_dec_loop_eq: assumes u: "\<forall>u \<in> set us. u < 65536" "length us < 2 ^ 60"
  shows "i \<le> length us \<Longrightarrow> 3 * length (drop i us) \<le> length r \<Longrightarrow> length w + 3 * length (drop i us) + 8 < 2 ^ 63 \<Longrightarrow>
    dec_spec w (drop i us) (utf16_dec_loop le (map Some (unit_bytes le us)) (length us) i (map Some w @ r) (length w))"
proof (induction "length us - i" arbitrary: i w r rule: less_induct)
  case less
  let ?L = "utf16_dec_loop le (map Some (unit_bytes le us)) (length us)"
  show ?case
  proof (cases "i < length us")
    case False
    have "list_all scalar [] \<and> drop i us = utf16 [] \<and> ?L i (map Some w @ r) (length w) = Inr (map Some (w @ utf8 []) @ r, length w + length (utf8 []))"
      using False less.prems(1) by (subst utf16_dec_loop.simps) simp
    then show ?thesis unfolding dec_spec_def by blast
  next
    case True
    have d: "drop i us = us ! i # drop (i + 1) us" using True by (simp add: Cons_nth_drop_Suc)
    have t: "units_at i us (us ! i # drop (i + 1) us)" using d u True unfolding units_at_def by auto
    consider cp rest where "scalar cp" "drop i us = utf16_enc cp @ rest"
      | m where "utf16_next le (map Some (unit_bytes le us)) (length us) i = Inl (CodecError ''utf-16le'' m)"
      using utf16_next_sound [OF t, of le] d by auto
    then show ?thesis
    proof cases
      case (1 cp rest)
      let ?k = "length (utf16_enc cp)" and ?n = "length (utf8_enc cp)"
      have len: "length (drop i us) = ?k + length rest" using 1(2) by simp
      have N: "utf16_next le (map Some (unit_bytes le us)) (length us) i = Inr (cp, i + ?k)" using utf16_next_complete t 1 d by metis
      have n3: "?n \<le> 3 * ?k" by (rule utf16_len)
      have P: "utf16_put cp (map Some w @ r) (length w) = Inr (map Some (w @ utf8_enc cp) @ drop ?n r, length (w @ utf8_enc cp))"
        using utf16_put_eq [of cp r w] 1(1) n3 len less.prems(2,3) by (simp add: scalar_bound)
      have dr: "drop (i + ?k) us = rest" using arg_cong [OF 1(2), of "drop ?k"] by (simp add: drop_drop add.commute)
      have "?L i (map Some w @ r) (length w) = ?L (i + ?k) (map Some (w @ utf8_enc cp) @ drop ?n r) (length (w @ utf8_enc cp))"
        unfolding utf16_dec_loop.simps [of le "map Some (unit_bytes le us)" "length us" i] if_P [OF True] N rbind_simps split_conv P ..
      moreover have "dec_spec (w @ utf8_enc cp) (drop (i + ?k) us) (?L (i + ?k) (map Some (w @ utf8_enc cp) @ drop ?n r) (length (w @ utf8_enc cp)))"
      proof (rule less.hyps)
        show "length us - (i + ?k) < length us - i" using True utf16_enc_length(1) [of cp] by linarith
        show "i + ?k \<le> length us" using len True by simp
        show "3 * length (drop (i + ?k) us) \<le> length (drop ?n r)" using less.prems(2) n3 unfolding dr len by simp
        show "length (w @ utf8_enc cp) + 3 * length (drop (i + ?k) us) + 8 < 2 ^ 63" using less.prems(3) n3 unfolding dr len by simp
      qed
      ultimately show ?thesis using dec_step [OF 1(1)] dr 1(2) by simp
    next
      case (2 m)
      have "\<nexists>todo. list_all scalar todo \<and> drop i us = utf16 todo"
      proof
        assume "\<exists>todo. list_all scalar todo \<and> drop i us = utf16 todo"
        then obtain c todo where "scalar c" "drop i us = utf16_enc c @ utf16 todo"
          using d by (metis list.distinct(1) list.exhaust list.pred_inject(2) utf16_simps(1,2))
        then show False using utf16_next_complete [of i us c "utf16 todo" le] t d 2 by simp
      qed
      moreover have "?L i (map Some w @ r) (length w) = Inl (CodecError ''utf-16le'' m)"
        unfolding utf16_dec_loop.simps [of le "map Some (unit_bytes le us)" "length us" i] if_P [OF True] 2 rbind_simps ..
      ultimately show ?thesis unfolding dec_spec_def by blast
    qed
  qed
qed

lemma utf16_decode_cases: assumes u: "\<forall>u \<in> set us. u < 65536" "length us < 2 ^ 60"
  shows "(\<exists>cps. list_all scalar cps \<and> us = utf16 cps \<and> utf16_decode le (map Some (unit_bytes le us)) = Inr (mk_str cps))
    \<or> (\<nexists>cps. list_all scalar cps \<and> us = utf16 cps) \<and> (\<exists>m. utf16_decode le (map Some (unit_bytes le us)) = Inl (CodecError ''utf-16le'' m))"
proof -
  let ?b = "map Some (unit_bytes le us)"
  let ?L = "utf16_dec_loop le ?b (length us) 0 (bytearray (length us * 3)) 0"
  have s: "dec_spec [] us ?L" using utf16_dec_loop_eq [OF u, of 0 "bytearray (length us * 3)" "[]" le] u(2) by (simp add: bytearray_def)
  have len: "length ?b div 2 = length us" "\<not> length ?b mod 2 \<noteq> 0" by simp_all
  have f: "length us * 3 < 18446744073709551616" using u(2) by simp
  have D: "utf16_decode le ?b = rbind ?L (\<lambda>(out, out_idx). rbind (fits ''irrational byte length'' (out_idx + 1)) (\<lambda>buf_size.
      rbind (sys_memcpy 0 (sys_alloc buf_size) 0 out out_idx) (\<lambda>new_buf. rbind (store out_idx 0 new_buf) (\<lambda>new_buf. from_owned_cstr new_buf buf_size))))"
    unfolding utf16_decode_def Let_def if_not_P [OF len(2)] len(1) fits_small [OF f] rbind_simps ..
  from s consider todo r' where "list_all scalar todo" "us = utf16 todo" "?L = Inr (map Some (utf8 todo) @ r', length (utf8 todo))"
    | m where "\<nexists>todo. list_all scalar todo \<and> us = utf16 todo" "?L = Inl (CodecError ''utf-16le'' m)"
    unfolding dec_spec_def by auto
  then show ?thesis
  proof cases
    case (1 todo r')
    have tl: "length (utf8 todo) + 1 < 2 ^ 63" using utf16_len_all(2) [of todo] u(2) 1(2) by simp
    then have g: "length (utf8 todo) + 1 < 18446744073709551616" by simp
    have "utf16_decode le ?b = Inr (mk_str todo)"
      unfolding D 1(3) rbind_simps split_conv fits_small [OF g]
      using finish [of "utf8 todo" r'] utf8_bytes [OF 1(1)] from_owned_utf8 [OF 1(1)] tl by simp
    then show ?thesis using 1 by blast
  next
    case 2
    then show ?thesis unfolding D by simp
  qed
qed

lemma utf16_inj: "utf16 as = utf16 bs \<Longrightarrow> list_all scalar as \<Longrightarrow> list_all scalar bs \<Longrightarrow> as = bs"
proof (induction as arbitrary: bs)
  case Nil
  then show ?case using utf16_enc_length(1) by (cases bs) (auto simp: Suc_le_eq)
next
  case (Cons a as)
  then obtain b bs' where b: "bs = b # bs'" using utf16_enc_length(1) [of a] by (cases bs) auto
  then have "a = b \<and> utf16 as = utf16 bs'" using utf16_prefix_unique [of a "utf16 as" b "utf16 bs'"] Cons.prems by simp
  then show ?case using Cons b by simp
qed

subsection \<open>The contract of \<^verbatim>\<open>Codec\<close>\<close>

text \<open>
  What the callers of the abstract class \<^verbatim>\<open>Codec\<close> rely on: a codec writes a function \<open>code\<close> of the code points
  and reads it back.  Then nothing is lost, and texts can be recoded through strings.
\<close>

locale codec =
  fixes encode :: "mstr \<Rightarrow> mem res" and decode :: "mem \<Rightarrow> mstr res" and code :: "nat list \<Rightarrow> nat list"
  assumes encode_code: "list_all scalar cps \<Longrightarrow> length (utf8 cps) + 1 < 2 ^ 60 \<Longrightarrow> encode (mk_str cps) = Inr (map Some (code cps))"
    and decode_code: "list_all scalar cps \<Longrightarrow> length (utf8 cps) + 1 < 2 ^ 60 \<Longrightarrow> decode (map Some (code cps)) = Inr (mk_str cps)"
begin

lemma round_trip: "list_all scalar cps \<Longrightarrow> length (utf8 cps) + 1 < 2 ^ 60 \<Longrightarrow> rbind (encode (mk_str cps)) decode = Inr (mk_str cps)"
  by (simp add: encode_code decode_code)

lemma code_injective: assumes "list_all scalar as" "list_all scalar bs" "length (utf8 as) + 1 < 2 ^ 60" "length (utf8 bs) + 1 < 2 ^ 60" "code as = code bs"
  shows "as = bs"
proof -
  have "mk_str as = mk_str bs" using decode_code [OF assms(1,3)] decode_code [OF assms(2,4)] assms(5) by simp
  then have "utf8 as = utf8 bs" unfolding mk_str_def by (auto dest: map_injective)
  then show ?thesis using utf8_inj assms(1,2) by blast
qed

end

lemma utf16_units: assumes "list_all scalar cps" "u \<in> set (utf16 cps)" shows "u < 65536"
proof -
  obtain cp where "cp \<in> set cps" "u \<in> set (utf16_enc cp)" using assms(2) unfolding utf16_def by auto
  moreover have "cp < 0x110000" using calculation(1) assms(1) by (auto simp: list_all_iff scalar_def)
  moreover have "(cp - 0x10000) div 1024 < 1024" using calculation(3) by (auto intro: less_mult_imp_div_less)
  ultimately show ?thesis by (auto simp: utf16_enc_def split: if_splits)
qed

interpretation utf8_codec: codec utf8_encode utf8_decode utf8
proof unfold_locales
  fix cps assume c: "list_all scalar cps" "length (utf8 cps) + 1 < 2 ^ 60"
  have u: "\<forall>b \<in> set (utf8 cps). b < 256" using utf8_bytes c(1) by blast
  show "utf8_encode (mk_str cps) = Inr (map Some (utf8 cps))" using utf8_encode_mk [of cps] c(2) by simp
  show "utf8_decode (map Some (utf8 cps)) = Inr (mk_str cps)" using utf8_decode_eq [OF u] from_owned_utf8 [OF c(1)] c(2) by simp
qed

interpretation utf16_codec: codec "utf16_encode le" "utf16_decode le" "\<lambda>cps. unit_bytes le (utf16 cps)" for le
proof unfold_locales
  fix cps assume c: "list_all scalar cps" "length (utf8 cps) + 1 < 2 ^ 60"
  have l: "length (utf16 cps) < 2 ^ 60" using utf16_len_all(1) [of cps] c(2) by linarith
  have u: "\<forall>u \<in> set (utf16 cps). u < 65536" using utf16_units [OF c(1)] by blast
  show "utf16_encode le (mk_str cps) = Inr (map Some (unit_bytes le (utf16 cps)))" using utf16_encode_eq [OF c(1), of le] c(2) by simp
  show "utf16_decode le (map Some (unit_bytes le (utf16 cps))) = Inr (mk_str cps)"
    using utf16_decode_cases [OF u l, of le] c(1) utf16_inj [of cps] by metis
qed

end
