(* ===== verification/Lib_Str_Results.thy ===== *)
theory Lib_Str_Results
  imports Lib_Str_Search Lib_Codecs_Correct
begin

unbundle bit_operations_syntax

text \<open>
  The properties of \<^verbatim>\<open>str\<close> and of the UTF-8 and UTF-16 codecs, with inputs to which they apply, and two
  inputs on which the code departs from its documentation.
\<close>

subsection \<open>Departures from the documentation\<close>

text \<open>A slice that is documented as infallible panics when a bound falls inside a code point.\<close>

lemma slice_inside_code_point: "str_slice (mk_str [0xE9]) 0 (Some 1) = Inl (Panic ''invalid UTF-8 in _byte_slice'')"
proof -
  have u: "utf8 [0xE9] = [0xC3, 0xA9]" by (simp add: utf8_enc_def)
  have "\<nexists>piece. list_all scalar piece \<and> utf8 piece = [0xC3]"
  proof
    assume "\<exists>piece. list_all scalar piece \<and> utf8 piece = [0xC3]"
    then obtain piece where p: "list_all scalar piece" "utf8 piece = [0xC3]" by blast
    then obtain cp ps where c: "piece = cp # ps" by (cases piece) auto
    have "lead_len (hd (utf8_enc cp)) = length (utf8_enc cp)" using p(1) c lead_len_enc [of cp] by (simp add: scalar_bound)
    moreover have "hd (utf8_enc cp) = 0xC3" "length (utf8_enc cp) = 1"
      using p(2) unfolding c by (cases "utf8_enc cp"; simp)+
    ultimately show False by (simp add: lead_len_def)
  qed
  moreover have "clamp 0 (Suc (Suc 0)) = 0" "clamp 1 (Suc (Suc 0)) = Suc 0" by (simp_all add: clamp_def)
  moreover have "list_all scalar [0xE9]" by (simp add: scalar_def)
  ultimately show ?thesis using slice_utf8 [of "[0xE9]" 0 "Some 1" 0 1, unfolded u] by simp blast
qed

text \<open>A number that is no code point is not always refused: the lead byte is cut to eight bits.\<close>

lemma chr_wraps: "chr 0x410000 = Inr (mk_str [0x10000])"
proof -
  have e: "utf8_enc 0x10000 = [0xF0, 0x90, 0x80, 0x80]" by (simp add: utf8_enc_def)
  have o: "(0xF0 :: nat) OR 16 = 0xF0" "(0x80 :: nat) OR 16 = 0x90" "(0x80 :: nat) OR 0 = 0x80" by (simp_all add: or_tags)
  have d: "drop_bit 18 (0x410000 :: nat) = 16" "drop_bit 12 (0x410000 :: nat) = 1040" "drop_bit 6 (0x410000 :: nat) = 66560"
    by (simp_all add: drop_bit_eq_div)
  have f: "(5 :: nat) = Suc (Suc (Suc (Suc (Suc 0))))" by simp
  have "from_owned_cstr [Some 0xF0, Some 0x90, Some 0x80, Some 0x80, Some 0] 5 = Inr (mk_str [0x10000])"
    unfolding f using from_owned_utf8 [of "[0x10000]"] by (simp add: e scalar_def)
  moreover have "sys_alloc 5 = [None, None, None, None, None]" by (simp add: sys_alloc_def f)
  ultimately show ?thesis
    unfolding chr_def encode_utf8_at_def utf8_encoded_len_def d and_low Let_def
    by (simp add: o wrap8_def store_Cons del: store_ok One_nat_def)
qed

subsection \<open>The properties\<close>

text \<open>
  C33.  \<^verbatim>\<open>str._from_owned_cstr\<close> accepts a zero-terminated buffer exactly when its text is the UTF-8
  encoding of a sequence of Unicode scalar values, and then the object has that sequence: its number of
  code points and, at every 256th code point, its byte offset.  Any other text is a \<^verbatim>\<open>CodecError\<close>;
  there is no panic and no access outside the buffers.
\<close>

theorem str_validation:
  assumes "\<forall>b \<in> set bs. b < 256" "length bs < 2 ^ 63"
  shows "(\<exists>cps. list_all scalar cps \<and> bs = utf8 cps \<and> from_owned_cstr (map Some (bs @ [0])) (length bs + 1) = Inr (mk_str cps))
    \<or> (\<nexists>cps. list_all scalar cps \<and> bs = utf8 cps)
      \<and> (\<exists>m. from_owned_cstr (map Some (bs @ [0])) (length bs + 1) = Inl (CodecError ''utf-8'' m))"
  using assms by (rule from_owned_cases)

theorem str_validation_witness:
  "(\<exists>cps. list_all scalar cps \<and> [0xC3, 0xA9] = utf8 cps \<and> from_owned_cstr (map Some ([0xC3, 0xA9] @ [0])) (length [0xC3 :: nat, 0xA9] + 1) = Inr (mk_str cps))
    \<or> (\<nexists>cps. list_all scalar cps \<and> [0xC3, 0xA9] = utf8 cps)
      \<and> (\<exists>m. from_owned_cstr (map Some ([0xC3, 0xA9] @ [0])) (length [0xC3 :: nat, 0xA9] + 1) = Inl (CodecError ''utf-8'' m))"
  by (rule str_validation [of "[0xC3, 0xA9]"]) simp_all

text \<open>
  C34.  Indexing a string is indexing its sequence of code points, through the index of every 256th
  code point and a bounded walk: \<^verbatim>\<open>s[i]\<close> for a \<^verbatim>\<open>usize\<close>, for an \<^verbatim>\<open>isize\<close> counted from the end when it
  is negative, and \<^verbatim>\<open>IndexError\<close> outside; \<^verbatim>\<open>len\<close> counts code points; \<^verbatim>\<open>ord\<close> inverts \<^verbatim>\<open>chr\<close>.  Two inputs depart from the documentation: a slice
  that cuts a code point panics, and \<^verbatim>\<open>chr\<close> of a number that is no code point can succeed.
\<close>

theorem str_indexing:
  assumes "list_all scalar cps" "length (utf8 cps) + 1 < 2 ^ 63" "- (2 ^ 63) \<le> i" "i < 2 ^ 63" "scalar cp"
  shows "str_getitem (mk_str cps) idx = (if idx < length cps then Inr (mk_str [cps ! idx]) else Inl IndexError)
    \<and> str_getitem_signed (mk_str cps) i
      = (if - int (length cps) \<le> i \<and> i < int (length cps)
         then Inr (mk_str [cps ! nat (if i < 0 then i + int (length cps) else i)]) else Inl IndexError)
    \<and> str_len (mk_str cps) = length cps
    \<and> rbind (chr cp) ord = Inr cp
    \<and> str_slice (mk_str [0xE9]) 0 (Some 1) = Inl (Panic ''invalid UTF-8 in _byte_slice'')
    \<and> chr 0x410000 = Inr (mk_str [0x10000])"
proof (intro conjI slice_inside_code_point chr_wraps)
  show "str_getitem (mk_str cps) idx = (if idx < length cps then Inr (mk_str [cps ! idx]) else Inl IndexError)"
    using assms(1,2) by (rule getitem_utf8)
  show "str_getitem_signed (mk_str cps) i
      = (if - int (length cps) \<le> i \<and> i < int (length cps)
         then Inr (mk_str [cps ! nat (if i < 0 then i + int (length cps) else i)]) else Inl IndexError)"
    using assms(1-4) by (rule getitem_signed_utf8)
  show "str_len (mk_str cps) = length cps" by simp
  show "rbind (chr cp) ord = Inr cp"
    using ord_eq [of "[cp]"] utf8_enc_not_Nil(3) [of cp] assms(5) by (simp add: chr_scalar)
qed

theorem str_indexing_witness: "str_getitem (mk_str [0x48, 0xE9]) 1 = Inr (mk_str [0xE9]) \<and> str_getitem_signed (mk_str [0x48, 0xE9]) (- 1) = Inr (mk_str [0xE9])
    \<and> str_getitem (mk_str [0x48, 0xE9]) 2 = Inl IndexError \<and> rbind (chr 0xE9) ord = Inr 0xE9"
  using str_indexing [of "[0x48, 0xE9]" "- 1" "0xE9" 1] str_indexing [of "[0x48, 0xE9]" "- 1" "0xE9" 2]
  by (simp add: scalar_def utf8_enc_def)

text \<open>
  C35.  Searching and rebuilding text: \<^verbatim>\<open>find\<close> gives the byte offset of the first occurrence as a
  sequence of code points (a match of the bytes never straddles a code point), \<^verbatim>\<open>split\<close> cuts at the
  occurrences, left to right, into pieces that do not contain the separator, \<^verbatim>\<open>join\<close> puts the pieces
  back together, and \<^verbatim>\<open>replace\<close> is \<^verbatim>\<open>join\<close> after \<^verbatim>\<open>split\<close>.
\<close>

theorem str_search:
  assumes "list_all scalar s" "list_all scalar sep" "sep \<noteq> []" "list_all scalar new"
    "length (utf8 s) + 1 < 2 ^ 63" "length (utf8 (join_on new (split_on sep s))) + 1 < 2 ^ 63"
  shows "str_find (mk_str s) (mk_str sep) 0
      = Inr (case find_pos s sep of None \<Rightarrow> - 1 | Some j \<Rightarrow> int (length (utf8 (take j s))))
    \<and> split (mk_str s) (mk_str sep) = Inr (map mk_str (split_on sep s))
    \<and> rbind (split (mk_str s) (mk_str sep)) (str_join (mk_str sep)) = Inr (mk_str s)
    \<and> replace (mk_str s) (mk_str sep) (mk_str new) = rbind (split (mk_str s) (mk_str sep)) (str_join (mk_str new))
    \<and> (\<forall>p \<in> set (split_on sep s). find_pos p sep = None)"
proof -
  have sp: "split (mk_str s) (mk_str sep) = Inr (map mk_str (split_on sep s))" using assms by (intro split_utf8)
  have pc: "\<And>p. p \<in> set (split_on sep s) \<Longrightarrow> list_all scalar p" using split_on_scalar assms(1) by blast
  have "str_find (mk_str s) (mk_str sep) 0 = Inr (case find_pos s sep of None \<Rightarrow> - 1 | Some j \<Rightarrow> int (length (utf8 (take j s))))"
    using str_find_utf8 [of "[]" s sep] assms(1,2,5) unfolding utf8_simps(1) list.size(3) add_0 append_Nil by simp
  moreover have "rbind (split (mk_str s) (mk_str sep)) (str_join (mk_str sep)) = Inr (mk_str s)"
    using join_utf8 [of sep "split_on sep s"] pc assms by (simp add: sp join_split)
  moreover have "replace (mk_str s) (mk_str sep) (mk_str new) = rbind (split (mk_str s) (mk_str sep)) (str_join (mk_str new))"
    using join_utf8 [of new "split_on sep s"] replace_utf8 [of s sep new] pc assms by (simp add: sp)
  moreover have "\<forall>p \<in> set (split_on sep s). find_pos p sep = None" using split_on_pieces assms(3) by blast
  ultimately show ?thesis using sp by blast
qed

theorem str_search_witness: "split (mk_str [97, 0x2C, 0xE9]) (mk_str [0x2C]) = Inr [mk_str [97], mk_str [0xE9]]
    \<and> replace (mk_str [97, 0x2C, 0xE9]) (mk_str [0x2C]) (mk_str [0x20AC]) = Inr (mk_str [97, 0x20AC, 0xE9])"
proof -
  have s: "split_on [0x2C] [97, 0x2C, 0xE9] = [[97], [0xE9 :: nat]]" by (simp add: split_on.simps find_pos.simps)
  have "list_all scalar p" if mem: "p \<in> set [[97], [0xE9]]" for p using mem by (auto simp: scalar_def)
  then have j: "str_join (mk_str [0x20AC]) (map mk_str [[97], [0xE9]]) = Inr (mk_str [97, 0x20AC, 0xE9])"
    using join_utf8 [of "[0x20AC]" "[[97], [0xE9]]"] by (simp add: scalar_def utf8_enc_def)
  show ?thesis
    using str_search [of "[97, 0x2C, 0xE9]" "[0x2C]" "[0x20AC]"] j by (simp add: s scalar_def utf8_enc_def)
qed

text \<open>
  C36.  The codecs.  Encoding and decoding are inverse in UTF-8 and, for either byte order, in UTF-16;
  UTF-16 decoding accepts exactly the sequences of units that encode scalar values, an odd number of
  bytes and every other sequence is a \<^verbatim>\<open>CodecError\<close>; and the lossy UTF-8 decoder always returns a
  string: the well-formed sequences, with each other byte replaced by the policy.
\<close>

theorem codec_round_trips:
  assumes "list_all scalar cps" "length (utf8 cps) + 1 < 2 ^ 60"
    and "\<forall>u \<in> set us. u < 65536" "length us < 2 ^ 60"
    and "\<forall>b \<in> set bs. b < 256" "4 * length bs + 8 < 2 ^ 63"
  shows "rbind (utf8_encode (mk_str cps)) utf8_decode = Inr (mk_str cps)
    \<and> rbind (utf16_encode le (mk_str cps)) (utf16_decode le) = Inr (mk_str cps)
    \<and> ((\<exists>cs. list_all scalar cs \<and> us = utf16 cs \<and> utf16_decode le (map Some (unit_bytes le us)) = Inr (mk_str cs))
      \<or> (\<nexists>cs. list_all scalar cs \<and> us = utf16 cs) \<and> (\<exists>m. utf16_decode le (map Some (unit_bytes le us)) = Inl (CodecError ''utf-16le'' m)))
    \<and> utf16_decode le (map Some (unit_bytes le us) @ [x]) = Inl (CodecError ''utf-16le'' ''UTF-16 data must have even length'')
    \<and> utf8_decode_lossy (map Some bs) errors = Inr (mk_str (lossy errors bs))
    \<and> utf8_decode_lossy (map Some (utf8 cps)) errors = Inr (mk_str cps)"
proof -
  have u: "\<forall>b \<in> set (utf8 cps). b < 256" using utf8_bytes assms(1) by blast
  have p1: "rbind (utf8_encode (mk_str cps)) utf8_decode = Inr (mk_str cps)" using assms(1,2) by (rule utf8_codec.round_trip)
  have "rbind (utf16_encode le (mk_str cps)) (utf16_decode le) = Inr (mk_str cps)" using assms(1,2) by (rule utf16_codec.round_trip)
  moreover have "(\<exists>cs. list_all scalar cs \<and> us = utf16 cs \<and> utf16_decode le (map Some (unit_bytes le us)) = Inr (mk_str cs))
      \<or> (\<nexists>cs. list_all scalar cs \<and> us = utf16 cs) \<and> (\<exists>m. utf16_decode le (map Some (unit_bytes le us)) = Inl (CodecError ''utf-16le'' m))"
    using assms(3,4) by (rule utf16_decode_cases)
  moreover have "utf16_decode le (map Some (unit_bytes le us) @ [x]) = Inl (CodecError ''utf-16le'' ''UTF-16 data must have even length'')"
    by (simp add: utf16_decode_def utf16_error_def Let_def)
  moreover have "utf8_decode_lossy (map Some bs) errors = Inr (mk_str (lossy errors bs))" using assms(5,6) by (rule utf8_decode_lossy_eq)
  moreover have "utf8_decode_lossy (map Some (utf8 cps)) errors = Inr (mk_str cps)"
    using utf8_decode_lossy_eq [OF u, of errors] assms(1,2) by (simp add: lossy_utf8)
  ultimately show ?thesis using p1 by blast
qed

theorem codec_round_trips_witness:
  "rbind (utf16_encode True (mk_str [0x48, 0x1F600])) (utf16_decode True) = Inr (mk_str [0x48, 0x1F600])
   \<and> utf8_decode_lossy (map Some [0x48, 0xFF]) Replace = Inr (mk_str [0x48, 0xFFFD])"
proof -
  have "head_cp [0x48, 0xFF] = Some 0x48" "head_cp [0xFF] = None" by (simp_all add: head_cp_def lead_len_def scalar_def utf8_enc_def Let_def)
  then have "lossy Replace [0x48, 0xFF] = [0x48, 0xFFFD]" by (simp add: lossy.simps utf8_enc_def lossy_unit_def)
  then show ?thesis
    using codec_round_trips [of "[0x48, 0x1F600]" "[]" "[0x48, 0xFF]" True None Replace]
    by (simp add: scalar_def utf8_enc_def)
qed

end
