(* ===== verification/Lib_Int.thy ===== *)
theory Lib_Int
  imports Lib_Str_Ops
begin

unbundle bit_operations_syntax

text \<open>
  The built-in arbitrary-precision \<^verbatim>\<open>int\<close> of \<^verbatim>\<open>src/lib/builtins/__int.py\<close>: decimal digits, least
  significant first, in a block of memory.  Bookkeeping and digit arithmetic runs under
  \<^verbatim>\<open>panic_arithmetic\<close> at the width of the source (\<^verbatim>\<open>usize\<close>, \<^verbatim>\<open>u8\<close>, \<^verbatim>\<open>i8\<close>, \<^verbatim>\<open>u16\<close>, the
  accumulators \<^verbatim>\<open>i64\<close> to \<^verbatim>\<open>u128\<close>).  A returned \<^verbatim>\<open>IntError\<close>, \<^verbatim>\<open>OverflowError\<close> or
  \<^verbatim>\<open>ZeroDivisionError\<close> is an error value; the operands of an operation are values, and the code
  clones what it changes.
\<close>

record bigint =
  bi_digits :: mem
  bi_num_digits :: nat
  bi_num_allocated :: nat
  bi_is_negative :: bool

subsection \<open>Checked arithmetic\<close>

definition checked_range :: "string \<Rightarrow> int \<Rightarrow> int \<Rightarrow> int \<Rightarrow> int res" where
  "checked_range msg lo hi v = (if lo \<le> v \<and> v \<le> hi then Inr v else Inl (Panic msg))"

definition u8_of :: "string \<Rightarrow> int \<Rightarrow> nat res" where
  "u8_of msg v = (if 0 \<le> v \<and> v < 2 ^ 8 then Inr (nat v) else Inl (Panic msg))"

definition i8_of :: "string \<Rightarrow> int \<Rightarrow> int res" where
  "i8_of msg v = (if - (2 ^ 7) \<le> v \<and> v < 2 ^ 7 then Inr v else Inl (Panic msg))"

definition u16_of :: "string \<Rightarrow> nat \<Rightarrow> nat res" where
  "u16_of msg v = (if v < 2 ^ 16 then Inr v else Inl (Panic msg))"

definition u32_of :: "string \<Rightarrow> int \<Rightarrow> nat res" where
  "u32_of msg v = (if 0 \<le> v \<and> v < 2 ^ 32 then Inr (nat v) else Inl (Panic msg))"

subsection \<open>Construction\<close>

abbreviation ASCII_MINUS :: nat where "ASCII_MINUS \<equiv> 0x2D"
abbreviation ASCII_ZERO :: nat where "ASCII_ZERO \<equiv> 0x30"
abbreviation ASCII_NINE :: nat where "ASCII_NINE \<equiv> 0x39"

function digit_count_loop :: "nat \<Rightarrow> nat \<Rightarrow> nat res" where
  "digit_count_loop v cnt =
     (if v > 0
      then rbind (fits ''a u32 has at most 10 decimal digits, so this counter cannot overflow usize'' (cnt + 1)) (\<lambda>cnt'.
           digit_count_loop (v div 10) cnt')
      else Inr cnt)"
  by pat_completeness auto
termination by (relation "measure fst") auto

declare digit_count_loop.simps [simp del]

definition digit_count :: "nat \<Rightarrow> nat res" where
  "digit_count value = (if value = 0 then Inr 1 else digit_count_loop value 0)"

abbreviation init_msg :: string where
  "init_msg \<equiv> ''writing at most 10 digits (u32 magnitude) into a buffer sized for exactly that many cannot overflow''"

function init_loop :: "nat \<Rightarrow> nat \<Rightarrow> nat \<Rightarrow> mem \<Rightarrow> mem res" where
  "init_loop i cnt m digits =
     (if i < cnt
      then rbind (u8_of init_msg (int (m mod 10))) (\<lambda>d.
           rbind (store i d digits) (\<lambda>digits.
           rbind (fits init_msg (i + 1)) (\<lambda>i'. init_loop i' cnt (m div 10) digits)))
      else Inr digits)"
  by pat_completeness auto
termination by (relation "measure (\<lambda>(i, cnt, m, d). cnt - i)") auto

declare init_loop.simps [simp del]

definition int_new :: "int \<Rightarrow> bigint res" where
  "int_new value =
     (let neg = value < 0 in
      rbind (u32_of ''i64 is wide enough to negate any i32 value (including i32.MIN) without overflow''
               (if neg then - value else value)) (\<lambda>magnitude.
      rbind (digit_count magnitude) (\<lambda>cnt.
      rbind (init_loop 0 cnt magnitude (sys_alloc cnt)) (\<lambda>digits.
      Inr \<lparr>bi_digits = digits, bi_num_digits = cnt, bi_num_allocated = cnt, bi_is_negative = neg\<rparr>))))"

definition is_zero :: "bigint \<Rightarrow> bool res" where
  "is_zero a = (if bi_num_digits a = 1 then rbind (load 0 (bi_digits a)) (\<lambda>d. Inr (d = 0)) else Inr False)"

definition int_is_negative :: "bigint \<Rightarrow> bool" where
  "int_is_negative a = bi_is_negative a"

abbreviation sign_msg :: string where "sign_msg \<equiv> ''a leading sign character is at most one byte within the string's own length''"
abbreviation walk_msg :: string where
  "walk_msg \<equiv> ''walking a string of known length index-by-index cannot overflow usize bookkeeping''"

function skip_zeros :: "mem \<Rightarrow> nat \<Rightarrow> nat \<Rightarrow> nat res" where
  "skip_zeros cstr len pos =
     (if pos < len - 1
      then rbind (load pos cstr) (\<lambda>c.
           if c = ASCII_ZERO then rbind (fits sign_msg (pos + 1)) (\<lambda>pos'. skip_zeros cstr len pos') else Inr pos)
      else Inr pos)"
  by pat_completeness auto
termination by (relation "measure (\<lambda>(c, len, pos). len - pos)") auto

declare skip_zeros.simps [simp del]

function parse_loop :: "mem \<Rightarrow> nat \<Rightarrow> nat \<Rightarrow> nat \<Rightarrow> mem \<Rightarrow> mem res" where
  "parse_loop cstr len num_digits i digits =
     (if i < num_digits
      then rbind (sub_panic walk_msg len 1) (\<lambda>k.
           rbind (sub_panic walk_msg k i) (\<lambda>k.
           rbind (load k cstr) (\<lambda>ch.
           if ch < ASCII_ZERO \<or> ch > ASCII_NINE then Inl (IntError InvalidDigit)
           else rbind (store i (ch - ASCII_ZERO) digits) (\<lambda>digits.
                rbind (fits walk_msg (i + 1)) (\<lambda>i'. parse_loop cstr len num_digits i' digits)))))
      else Inr digits)"
  by pat_completeness auto
termination by (relation "measure (\<lambda>(c, len, n, i, d). n - i)") auto

declare parse_loop.simps [simp del]

definition from_str :: "mstr \<Rightarrow> bigint res" where
  "from_str s =
     (let cstr = s_data s; len = byte_len s in
      if len = 0 then Inl (IntError InvalidDigit)
      else rbind (load 0 cstr) (\<lambda>c0.
           let negative = (c0 = ASCII_MINUS) in
           rbind (sub_panic sign_msg len 1) (\<lambda>_.
           rbind (skip_zeros cstr len (if negative then 1 else 0)) (\<lambda>pos.
           rbind (sub_panic sign_msg len pos) (\<lambda>num_digits.
           if num_digits = 0 then Inl (IntError InvalidDigit)
           else rbind (parse_loop cstr len num_digits 0 (sys_alloc num_digits)) (\<lambda>digits.
                let result = \<lparr>bi_digits = digits, bi_num_digits = num_digits, bi_num_allocated = num_digits, bi_is_negative = False\<rparr> in
                rbind (if negative then rbind (is_zero result) (\<lambda>z. Inr (\<not> z)) else Inr False) (\<lambda>neg.
                Inr (result\<lparr>bi_is_negative := neg\<rparr>))))))))"

subsection \<open>Digit arrays\<close>

function copy_digits :: "string \<Rightarrow> nat \<Rightarrow> nat \<Rightarrow> mem \<Rightarrow> mem \<Rightarrow> mem res" where
  "copy_digits msg i n src dst =
     (if i < n
      then rbind (load i src) (\<lambda>d. rbind (store i d dst) (\<lambda>dst. rbind (fits msg (i + 1)) (\<lambda>i'. copy_digits msg i' n src dst)))
      else Inr dst)"
  by pat_completeness auto
termination by (relation "measure (\<lambda>(m, i, n, s, d). n - i)") auto

declare copy_digits.simps [simp del]

definition clone :: "bigint \<Rightarrow> bigint res" where
  "clone a =
     (let capacity = (if bi_num_allocated a > 0 then bi_num_allocated a else 1) in
      rbind (copy_digits ''copying an existing digit array of known length cannot overflow usize bookkeeping''
               0 (bi_num_digits a) (bi_digits a) (sys_alloc capacity)) (\<lambda>new_digits.
      Inr \<lparr>bi_digits = new_digits, bi_num_digits = bi_num_digits a, bi_num_allocated = capacity, bi_is_negative = bi_is_negative a\<rparr>))"

definition ensure_digits :: "bigint \<Rightarrow> nat \<Rightarrow> bigint res" where
  "ensure_digits a digits_needed =
     (if bi_num_allocated a \<ge> digits_needed then Inr a
      else rbind (copy_digits ''copying the existing digit array into a strictly larger one cannot overflow usize bookkeeping''
                    0 (bi_num_digits a) (bi_digits a) (sys_alloc digits_needed)) (\<lambda>new_digits.
           Inr (a\<lparr>bi_digits := new_digits, bi_num_allocated := digits_needed\<rparr>)))"

fun compare_loop :: "nat \<Rightarrow> mem \<Rightarrow> mem \<Rightarrow> int res" where
  "compare_loop 0 a b = Inr 0"
| "compare_loop (Suc i) a b =
     rbind (load i a) (\<lambda>da. rbind (load i b) (\<lambda>db.
     if da > db then Inr 1 else if da < db then Inr (- 1) else compare_loop i a b))"

definition compare_magnitude :: "bigint \<Rightarrow> bigint \<Rightarrow> int res" where
  "compare_magnitude a b =
     (if bi_num_digits a > bi_num_digits b then Inr 1
      else if bi_num_digits a < bi_num_digits b then Inr (- 1)
      else compare_loop (bi_num_digits a) (bi_digits a) (bi_digits b))"

abbreviation room_msg :: string where
  "room_msg \<equiv> ''one more digit than the longer of two existing operands is always enough headroom and cannot overflow usize''"
abbreviation add_msg :: string where
  "add_msg \<equiv> ''per-digit sums (two digits 0-9 plus a carry 0-1) stay far under u8's range, and the index/count bookkeeping is bounded by digits_needed''"

text \<open>The digit at \<open>i\<close> is made room for when the number grows.\<close>

definition grow_at :: "nat \<Rightarrow> bigint \<Rightarrow> bigint res" where
  "grow_at i a =
     (if i = bi_num_digits a
      then rbind (store i 0 (bi_digits a)) (\<lambda>ds. rbind (fits add_msg (bi_num_digits a + 1)) (\<lambda>n.
           Inr (a\<lparr>bi_digits := ds, bi_num_digits := n\<rparr>)))
      else Inr a)"

lemma grow_at_length: "grow_at i a = Inr a' \<Longrightarrow> length (bi_digits a') = length (bi_digits a)"
  by (auto simp: grow_at_def rbind_Inr dest!: store_length split: if_splits)

text \<open>The loop ends because it can only go on inside the block.\<close>

function add_loop :: "bigint \<Rightarrow> bigint \<Rightarrow> nat \<Rightarrow> nat \<Rightarrow> bigint res" where
  "add_loop other a i carry =
     (if i < bi_num_digits other \<or> carry > 0
      then rbind (grow_at i a) (\<lambda>a1.
           rbind (if i < bi_num_digits other then load i (bi_digits other) else Inr 0) (\<lambda>other_digit.
           rbind (load i (bi_digits a1)) (\<lambda>d.
           rbind (u8_of add_msg (int (d + other_digit))) (\<lambda>t.
           rbind (u8_of add_msg (int (t + carry))) (\<lambda>total.
           rbind (store i (total mod 10) (bi_digits a1)) (\<lambda>ds.
           rbind (fits add_msg (i + 1)) (\<lambda>i'.
           add_loop other (a1\<lparr>bi_digits := ds\<rparr>) i' (if total \<ge> 10 then 1 else 0))))))))
      else Inr a)"
  by pat_completeness auto
termination
proof (relation "measure (\<lambda>(b, a, i, c). length (bi_digits a) - i)")
  fix other a :: bigint and i carry :: nat and a1 od d t total ds i'
  assume g: "grow_at i a = Inr a1" and st: "store i (total mod 10) (bi_digits a1) = Inr ds" and i': "fits add_msg (i + 1) = Inr i'"
  have "length ds = length (bi_digits a)" "i < length (bi_digits a)" "i' = i + 1"
    using grow_at_length [OF g] store_length [OF st] i' by simp_all
  then show "((other, a1\<lparr>bi_digits := ds\<rparr>, i', if total \<ge> 10 then 1 else 0), other, a, i, carry)
      \<in> measure (\<lambda>(b, a, i, c). length (bi_digits a) - i)" by simp
qed simp

declare add_loop.simps [simp del]

text \<open>\<^verbatim>\<open>self += |other|\<close>.\<close>

definition add_magnitude :: "bigint \<Rightarrow> bigint \<Rightarrow> bigint res" where
  "add_magnitude a other =
     (let longer = (if bi_num_digits a > bi_num_digits other then bi_num_digits a else bi_num_digits other) in
      rbind (fits room_msg (longer + 1)) (\<lambda>digits_needed.
      rbind (ensure_digits a digits_needed) (\<lambda>a. add_loop other a 0 0)))"

abbreviation sub_msg :: string where
  "sub_msg \<equiv> ''per-digit differences (two digits 0-9 plus a borrow) stay within i8, and the index/count bookkeeping is bounded by digits_needed''"

text \<open>\<open>self_greater\<close> says which of the two arrays is the minuend: it is read from \<open>a\<close>'s block, which the
  loop writes, or from \<open>other\<close>'s.\<close>

function sub_loop :: "bool \<Rightarrow> nat \<Rightarrow> nat \<Rightarrow> bigint \<Rightarrow> bigint \<Rightarrow> nat \<Rightarrow> int \<Rightarrow> bigint res" where
  "sub_loop self_greater gn sn other a i borrow =
     (if i < gn
      then rbind (load i (if self_greater then bi_digits a else bi_digits other)) (\<lambda>gd.
           rbind (i8_of sub_msg (int gd)) (\<lambda>greater_digit.
           rbind (if i < sn then rbind (load i (if self_greater then bi_digits other else bi_digits a)) (\<lambda>sd. i8_of sub_msg (int sd))
                  else Inr 0) (\<lambda>smaller_digit.
           rbind (i8_of sub_msg (greater_digit - smaller_digit)) (\<lambda>t.
           rbind (i8_of sub_msg (t - borrow)) (\<lambda>new_digit.
           rbind (if new_digit < 0 then rbind (i8_of sub_msg (new_digit + 10)) (\<lambda>n. Inr (n, 1)) else Inr (new_digit, 0)) (\<lambda>(new_digit, borrow').
           rbind (u8_of sub_msg new_digit) (\<lambda>u.
           rbind (store i u (bi_digits a)) (\<lambda>ds.
           rbind (fits sub_msg (i + 1)) (\<lambda>i'.
           sub_loop self_greater gn sn other
             (a\<lparr>bi_digits := ds, bi_num_digits := (if new_digit \<noteq> 0 then i' else bi_num_digits a)\<rparr>) i' borrow')))))))))
      else Inr a)"
  by pat_completeness auto
termination by (relation "measure (\<lambda>(g, gn, sn, b, a, i, c). gn - i)") auto

declare sub_loop.simps [simp del]

text \<open>\<^verbatim>\<open>self = ||self| - |other||\<close>.\<close>

definition subtract_magnitude :: "bigint \<Rightarrow> bigint \<Rightarrow> bigint res" where
  "subtract_magnitude a other =
     (let longer = (if bi_num_digits a > bi_num_digits other then bi_num_digits a else bi_num_digits other) in
      rbind (fits room_msg (longer + 1)) (\<lambda>digits_needed.
      rbind (ensure_digits a digits_needed) (\<lambda>a.
      rbind (compare_magnitude a other) (\<lambda>c.
      let self_greater = (c > 0);
          gn = (if self_greater then bi_num_digits a else bi_num_digits other);
          sn = (if self_greater then bi_num_digits other else bi_num_digits a) in
      sub_loop self_greater gn sn other (a\<lparr>bi_num_digits := 1\<rparr>) 0 0))))"

abbreviation shift_msg :: string where
  "shift_msg \<equiv> ''shifting a digit array of known length up by one slot cannot overflow usize bookkeeping''"

fun shift_loop :: "nat \<Rightarrow> mem \<Rightarrow> mem res" where
  "shift_loop 0 ds = Inr ds"
| "shift_loop (Suc i) ds = rbind (load i ds) (\<lambda>d. rbind (store (Suc i) d ds) (\<lambda>ds. shift_loop i ds))"

text \<open>Dropping leading zeros, but not the last digit.\<close>

fun trim_loop :: "mem \<Rightarrow> nat \<Rightarrow> nat res" where
  "trim_loop ds 0 = Inr 0"
| "trim_loop ds (Suc n) =
     (if n = 0 then Inr 1 else rbind (load n ds) (\<lambda>d. if d = 0 then trim_loop ds n else Inr (Suc n)))"

text \<open>\<^verbatim>\<open>self = self * 10 + digit\<close>.\<close>

definition shift_and_add_digit :: "bigint \<Rightarrow> nat \<Rightarrow> bigint res" where
  "shift_and_add_digit a digit =
     rbind (fits ''growing by exactly one digit cannot overflow usize'' (bi_num_digits a + 1)) (\<lambda>needed.
     rbind (ensure_digits a needed) (\<lambda>a.
     rbind (shift_loop (bi_num_digits a) (bi_digits a)) (\<lambda>ds.
     rbind (store 0 digit ds) (\<lambda>ds.
     rbind (fits shift_msg (bi_num_digits a + 1)) (\<lambda>n.
     rbind (trim_loop ds n) (\<lambda>n.
     Inr (a\<lparr>bi_digits := ds, bi_num_digits := n\<rparr>)))))))"

subsection \<open>Comparison\<close>

definition compare :: "bigint \<Rightarrow> bigint \<Rightarrow> int res" where
  "compare a b =
     (if bi_is_negative a \<and> \<not> bi_is_negative b then Inr (- 1)
      else if \<not> bi_is_negative a \<and> bi_is_negative b then Inr 1
      else if bi_is_negative a then compare_magnitude b a
      else compare_magnitude a b)"

definition int_eq :: "bigint \<Rightarrow> bigint \<Rightarrow> bool res" where "int_eq a b = rbind (compare a b) (\<lambda>c. Inr (c = 0))"
definition int_ne :: "bigint \<Rightarrow> bigint \<Rightarrow> bool res" where "int_ne a b = rbind (compare a b) (\<lambda>c. Inr (c \<noteq> 0))"
definition int_lt :: "bigint \<Rightarrow> bigint \<Rightarrow> bool res" where "int_lt a b = rbind (compare a b) (\<lambda>c. Inr (c < 0))"
definition int_le :: "bigint \<Rightarrow> bigint \<Rightarrow> bool res" where "int_le a b = rbind (compare a b) (\<lambda>c. Inr (c \<le> 0))"
definition int_gt :: "bigint \<Rightarrow> bigint \<Rightarrow> bool res" where "int_gt a b = rbind (compare a b) (\<lambda>c. Inr (c > 0))"
definition int_ge :: "bigint \<Rightarrow> bigint \<Rightarrow> bool res" where "int_ge a b = rbind (compare a b) (\<lambda>c. Inr (c \<ge> 0))"
definition int_eq_i32 :: "bigint \<Rightarrow> int \<Rightarrow> bool res" where "int_eq_i32 a v = rbind (int_new v) (\<lambda>b. int_eq a b)"
definition int_ne_i32 :: "bigint \<Rightarrow> int \<Rightarrow> bool res" where "int_ne_i32 a v = rbind (int_new v) (\<lambda>b. int_ne a b)"

subsection \<open>Arithmetic\<close>

text \<open>\<^verbatim>\<open>cond and not self.is_zero()\<close> as the sign of a result.\<close>

definition set_sign :: "bool \<Rightarrow> bigint \<Rightarrow> bigint res" where
  "set_sign cond a =
     rbind (if cond then rbind (is_zero a) (\<lambda>z. Inr (\<not> z)) else Inr False) (\<lambda>neg. Inr (a\<lparr>bi_is_negative := neg\<rparr>))"

definition int_add :: "bigint \<Rightarrow> bigint \<Rightarrow> bigint res" where
  "int_add a other =
     rbind (clone a) (\<lambda>result.
     if bi_is_negative result = bi_is_negative other then add_magnitude result other
     else rbind (compare_magnitude result other) (\<lambda>c.
          let result_is_negative = (if c > 0 then bi_is_negative result else bi_is_negative other) in
          rbind (subtract_magnitude result other) (\<lambda>result. set_sign result_is_negative result)))"

definition int_sub :: "bigint \<Rightarrow> bigint \<Rightarrow> bigint res" where
  "int_sub a other =
     rbind (clone a) (\<lambda>result.
     rbind (compare result other) (\<lambda>c.
     rbind (if bi_is_negative result = bi_is_negative other then subtract_magnitude result other
            else add_magnitude result other) (\<lambda>result.
     Inr (result\<lparr>bi_is_negative := c < 0\<rparr>))))"

definition int_neg :: "bigint \<Rightarrow> bigint res" where
  "int_neg a = rbind (clone a) (\<lambda>result. set_sign (\<not> bi_is_negative result) result)"

abbreviation mul_msg :: string where
  "mul_msg \<equiv> ''a single-digit product (<=81) plus an existing digit (<=9) plus a carry stays well within u16, and every index stays within the buffer sized above''"

function mul_inner :: "mem \<Rightarrow> nat \<Rightarrow> nat \<Rightarrow> nat \<Rightarrow> nat \<Rightarrow> nat \<Rightarrow> mem \<Rightarrow> mem res" where
  "mul_inner od on d i j carry ds =
     (if j < on \<or> carry > 0
      then rbind (if j < on then load j od else Inr 0) (\<lambda>other_digit.
           rbind (fits mul_msg (i + j)) (\<lambda>idx.
           rbind (load idx ds) (\<lambda>r.
           rbind (u16_of mul_msg (d * other_digit)) (\<lambda>p.
           rbind (u16_of mul_msg (r + p)) (\<lambda>t.
           rbind (u16_of mul_msg (t + carry)) (\<lambda>total.
           rbind (u8_of mul_msg (int (total mod 10))) (\<lambda>u.
           rbind (store idx u ds) (\<lambda>ds.
           rbind (fits mul_msg (j + 1)) (\<lambda>j'. mul_inner od on d i j' (total div 10) ds)))))))))
      else Inr ds)"
  by pat_completeness auto
termination
proof (relation "measure (\<lambda>(od, on, d, i, j, c, ds). length ds - (i + j))")
  fix od ds ds' :: mem and on d i j carry od' idx r p t total u j' :: nat
  assume f: "fits mul_msg (i + j) = Inr idx" and st: "store idx u ds = Inr ds'" and j': "fits mul_msg (j + 1) = Inr j'"
  have "idx = i + j" "length ds' = length ds" "i + j < length ds" "j' = j + 1" using f j' store_length [OF st] by simp_all
  then show "((od, on, d, i, j', total div 10, ds'), od, on, d, i, j, carry, ds) \<in> measure (\<lambda>(od, on, d, i, j, c, ds). length ds - (i + j))"
    by simp
qed simp

declare mul_inner.simps [simp del]

function mul_outer :: "bigint \<Rightarrow> bigint \<Rightarrow> nat \<Rightarrow> mem \<Rightarrow> mem res" where
  "mul_outer a other i ds =
     (if i < bi_num_digits a
      then rbind (if bi_num_digits other > 0 then load i (bi_digits a) else Inr 0) (\<lambda>d.
           rbind (mul_inner (bi_digits other) (bi_num_digits other) d i 0 0 ds) (\<lambda>ds.
           rbind (fits mul_msg (i + 1)) (\<lambda>i'. mul_outer a other i' ds)))
      else Inr ds)"
  by pat_completeness auto
termination by (relation "measure (\<lambda>(a, b, i, ds). bi_num_digits a - i)") auto

declare mul_outer.simps [simp del]

function zero_fill :: "nat \<Rightarrow> nat \<Rightarrow> mem \<Rightarrow> mem res" where
  "zero_fill i capacity ds =
     (if i < capacity
      then rbind (store i 0 ds) (\<lambda>ds. rbind (fits ''zero-filling a freshly sized buffer of known length cannot overflow usize bookkeeping'' (i + 1)) (\<lambda>i'.
           zero_fill i' capacity ds))
      else Inr ds)"
  by pat_completeness auto
termination by (relation "measure (\<lambda>(i, c, ds). c - i)") auto

declare zero_fill.simps [simp del]

definition int_mul :: "bigint \<Rightarrow> bigint \<Rightarrow> bigint res" where
  "int_mul a other =
     (let msg = ''a product needs at most one more digit than the sum of its operands' digit counts, which cannot overflow usize'' in
      rbind (int_new 0) (\<lambda>result.
      rbind (fits msg (bi_num_digits a + bi_num_digits other)) (\<lambda>n.
      rbind (fits msg (n + 1)) (\<lambda>capacity.
      rbind (ensure_digits result capacity) (\<lambda>result.
      rbind (zero_fill 0 capacity (bi_digits result)) (\<lambda>ds.
      rbind (mul_outer a other 0 ds) (\<lambda>ds.
      rbind (trim_loop ds capacity) (\<lambda>n.
      set_sign (bi_is_negative a \<noteq> bi_is_negative other) (result\<lparr>bi_digits := ds, bi_num_digits := n\<rparr>)))))))))"

subsection \<open>Division\<close>

abbreviation mult_msg :: string where "mult_msg \<equiv> ''divmod: multiples index in bounds by construction''"

function multiples_loop :: "bigint \<Rightarrow> nat \<Rightarrow> bigint list \<Rightarrow> bigint list res" where
  "multiples_loop base k multiples =
     (if k < 9
      then rbind (list_get mult_msg (k - 1) multiples) (\<lambda>prev.
           rbind (clone prev) (\<lambda>next_multiple.
           rbind (add_magnitude next_multiple base) (\<lambda>next_multiple.
           multiples_loop base (k + 1) (multiples @ [next_multiple]))))
      else Inr multiples)"
  by pat_completeness auto
termination by (relation "measure (\<lambda>(b, k, m). 9 - k)") auto

declare multiples_loop.simps [simp del]

text \<open>The largest multiple that fits: the digit of the quotient and what remains.\<close>

fun pick_digit :: "bigint list \<Rightarrow> nat \<Rightarrow> bigint \<Rightarrow> (nat \<times> bigint) res" where
  "pick_digit multiples 0 remainder = Inr (0, remainder)"
| "pick_digit multiples (Suc d) remainder =
     rbind (list_get mult_msg d multiples) (\<lambda>candidate.
     rbind (compare_magnitude remainder candidate) (\<lambda>c.
     if c \<ge> 0 then rbind (subtract_magnitude remainder candidate) (\<lambda>remainder.
          rbind (u8_of ''walking down from an existing digit count to zero, and building up quotient/remainder digits one at a time, cannot overflow usize'' (int (Suc d))) (\<lambda>u.
          Inr (u, remainder)))
     else pick_digit multiples d remainder))"

fun divmod_loop :: "bigint list \<Rightarrow> mem \<Rightarrow> nat \<Rightarrow> bigint \<Rightarrow> bigint \<Rightarrow> (bigint \<times> bigint) res" where
  "divmod_loop multiples ds 0 quot remainder = Inr (quot, remainder)"
| "divmod_loop multiples ds (Suc i) quot remainder =
     rbind (load i ds) (\<lambda>d.
     rbind (shift_and_add_digit remainder d) (\<lambda>remainder.
     rbind (pick_digit multiples 9 remainder) (\<lambda>(new_digit, remainder).
     rbind (shift_and_add_digit quot new_digit) (\<lambda>quot.
     divmod_loop multiples ds i quot remainder))))"

definition int_divmod :: "bigint \<Rightarrow> bigint \<Rightarrow> (bigint \<times> bigint) res" where
  "int_divmod a divisor =
     rbind (is_zero divisor) (\<lambda>z.
     if z then Inl ZeroDivisionError
     else rbind (clone divisor) (\<lambda>base.
          let base = base\<lparr>bi_is_negative := False\<rparr> in
          rbind (multiples_loop base 1 [base]) (\<lambda>multiples.
          rbind (int_new 0) (\<lambda>quot.
          rbind (int_new 0) (\<lambda>remainder.
          rbind (divmod_loop multiples (bi_digits a) (bi_num_digits a) quot remainder) (\<lambda>(quot, remainder).
          rbind (set_sign (bi_is_negative a \<noteq> bi_is_negative divisor) quot) (\<lambda>quot.
          rbind (set_sign (bi_is_negative a) remainder) (\<lambda>remainder.
          Inr (quot, remainder)))))))))"

definition int_floordiv :: "bigint \<Rightarrow> bigint \<Rightarrow> bigint res" where
  "int_floordiv a b = rbind (int_divmod a b) (\<lambda>r. Inr (fst r))"

definition int_mod :: "bigint \<Rightarrow> bigint \<Rightarrow> bigint res" where
  "int_mod a b = rbind (int_divmod a b) (\<lambda>r. Inr (snd r))"

end
