(* ===== verification/Lib_Int_Text.thy ===== *)
theory Lib_Int_Text
  imports Lib_Int
begin

unbundle bit_operations_syntax

text \<open>
  The conversions of \<^verbatim>\<open>int\<close> (\<^verbatim>\<open>src/lib/builtins/__int.py\<close>) to the fixed-width types, checked and
  saturating, and its texts: decimal, grouped decimal and the digits in another base.
\<close>

subsection \<open>Fixed-width types\<close>

definition magnitude_exceeds :: "bigint \<Rightarrow> string \<Rightarrow> bool res" where
  "magnitude_exceeds a limit_str =
     rbind (unwrap ''internal magnitude literal is always well-formed'' (from_str (literal limit_str))) (\<lambda>limit.
     rbind (compare_magnitude a limit) (\<lambda>c. Inr (c > 0)))"

text \<open>\<^verbatim>\<open>value = value * 10 + digit\<close>, most significant digit first, in a type with the given range.\<close>

fun accumulate :: "string \<Rightarrow> int \<Rightarrow> int \<Rightarrow> nat \<Rightarrow> mem \<Rightarrow> int \<Rightarrow> int res" where
  "accumulate msg lo hi 0 ds v = Inr v"
| "accumulate msg lo hi (Suc i) ds v =
     rbind (checked_range msg lo hi (v * 10)) (\<lambda>t.
     rbind (load i ds) (\<lambda>d.
     rbind (checked_range msg lo hi (t + int d)) (\<lambda>v. accumulate msg lo hi i ds v)))"

abbreviation I64_MIN_MAGNITUDE_STR :: string where "I64_MIN_MAGNITUDE_STR \<equiv> ''9223372036854775808''"
abbreviation I64_MAX_STR :: string where "I64_MAX_STR \<equiv> ''9223372036854775807''"
abbreviation U64_MAX_STR :: string where "U64_MAX_STR \<equiv> ''18446744073709551615''"
abbreviation I128_MIN_MAGNITUDE_STR :: string where "I128_MIN_MAGNITUDE_STR \<equiv> ''170141183460469231731687303715884105728''"
abbreviation I128_MAX_STR :: string where "I128_MAX_STR \<equiv> ''170141183460469231731687303715884105727''"
abbreviation U128_MAX_STR :: string where "U128_MAX_STR \<equiv> ''340282366920938463463374607431768211455''"

abbreviation i64_msg :: string where
  "i64_msg \<equiv> ''magnitude already bounded to i64 range by the check above - every partial sum during MSD-first accumulation is itself a numeric prefix of the final, in-range value, so it can never exceed it''"
abbreviation u64_msg :: string where
  "u64_msg \<equiv> ''magnitude already bounded to u64::MAX by the check above - see _to_i64's identical reasoning''"
abbreviation i128_msg :: string where
  "i128_msg \<equiv> ''magnitude already bounded to i128 range by the check above - see _to_i64's identical reasoning''"
abbreviation u128_msg :: string where
  "u128_msg \<equiv> ''magnitude already bounded to u128::MAX by the check above - see _to_i128's identical reasoning''"

definition to_i64 :: "bigint \<Rightarrow> int res" where
  "to_i64 a =
     rbind (magnitude_exceeds a (if bi_is_negative a then I64_MIN_MAGNITUDE_STR else I64_MAX_STR)) (\<lambda>big.
     if big then Inl OverflowError
     else rbind (accumulate i64_msg (- (2 ^ 63)) (2 ^ 63 - 1) (bi_num_digits a) (bi_digits a) 0) (\<lambda>v.
          if bi_is_negative a then checked_range i64_msg (- (2 ^ 63)) (2 ^ 63 - 1) (- v) else Inr v))"

definition to_u64 :: "bigint \<Rightarrow> int res" where
  "to_u64 a =
     rbind (if bi_is_negative a then rbind (is_zero a) (\<lambda>z. Inr (\<not> z)) else Inr False) (\<lambda>neg.
     if neg then Inl OverflowError
     else rbind (magnitude_exceeds a U64_MAX_STR) (\<lambda>big.
          if big then Inl OverflowError
          else accumulate u64_msg 0 (2 ^ 64 - 1) (bi_num_digits a) (bi_digits a) 0))"

definition to_i128 :: "bigint \<Rightarrow> int res" where
  "to_i128 a =
     rbind (magnitude_exceeds a (if bi_is_negative a then I128_MIN_MAGNITUDE_STR else I128_MAX_STR)) (\<lambda>big.
     if big then Inl OverflowError
     else rbind (accumulate i128_msg (- (2 ^ 127)) (2 ^ 127 - 1) (bi_num_digits a) (bi_digits a) 0) (\<lambda>v.
          if bi_is_negative a then checked_range i128_msg (- (2 ^ 127)) (2 ^ 127 - 1) (- v) else Inr v))"

definition to_u128 :: "bigint \<Rightarrow> int res" where
  "to_u128 a =
     rbind (if bi_is_negative a then rbind (is_zero a) (\<lambda>z. Inr (\<not> z)) else Inr False) (\<lambda>neg.
     if neg then Inl OverflowError
     else rbind (magnitude_exceeds a U128_MAX_STR) (\<lambda>big.
          if big then Inl OverflowError
          else accumulate u128_msg 0 (2 ^ 128 - 1) (bi_num_digits a) (bi_digits a) 0))"

text \<open>The narrower types: the final cast is under \<^verbatim>\<open>wrap_arithmetic\<close>.\<close>

definition wrap_signed :: "nat \<Rightarrow> int \<Rightarrow> int" where
  "wrap_signed w v = (v + 2 ^ (w - 1)) mod 2 ^ w - 2 ^ (w - 1)"

definition wrap_unsigned :: "nat \<Rightarrow> int \<Rightarrow> int" where
  "wrap_unsigned w v = v mod 2 ^ w"

definition to_i8 :: "bigint \<Rightarrow> int res" where
  "to_i8 a = rbind (to_i64 a) (\<lambda>wide. if wide < - 128 \<or> wide > 127 then Inl OverflowError else Inr (wrap_signed 8 wide))"
definition to_i16 :: "bigint \<Rightarrow> int res" where
  "to_i16 a = rbind (to_i64 a) (\<lambda>wide. if wide < - 32768 \<or> wide > 32767 then Inl OverflowError else Inr (wrap_signed 16 wide))"
definition to_i32 :: "bigint \<Rightarrow> int res" where
  "to_i32 a = rbind (to_i64 a) (\<lambda>wide. if wide < - 2147483648 \<or> wide > 2147483647 then Inl OverflowError else Inr (wrap_signed 32 wide))"
definition to_u8 :: "bigint \<Rightarrow> int res" where
  "to_u8 a = rbind (to_i64 a) (\<lambda>wide. if wide < 0 \<or> wide > 255 then Inl OverflowError else Inr (wrap_unsigned 8 wide))"
definition to_u16 :: "bigint \<Rightarrow> int res" where
  "to_u16 a = rbind (to_i64 a) (\<lambda>wide. if wide < 0 \<or> wide > 65535 then Inl OverflowError else Inr (wrap_unsigned 16 wide))"
definition to_u32 :: "bigint \<Rightarrow> int res" where
  "to_u32 a = rbind (to_i64 a) (\<lambda>wide. if wide < 0 \<or> wide > 4294967295 then Inl OverflowError else Inr (wrap_unsigned 32 wide))"

text \<open>\<^verbatim>\<open>wide.is_err()\<close> looks at a returned error; a panic has ended the program before.\<close>

definition on_err :: "'a res \<Rightarrow> 'b \<Rightarrow> ('a \<Rightarrow> 'b) \<Rightarrow> 'b res" where
  "on_err r e f = (case r of Inl err \<Rightarrow> if fatal err then Inl err else Inr e | Inr v \<Rightarrow> Inr (f v))"

definition saturate_i64_range :: "bigint \<Rightarrow> int \<Rightarrow> int \<Rightarrow> int res" where
  "saturate_i64_range a min_val max_val =
     on_err (to_i64 a) (if \<not> bi_is_negative a then max_val else min_val)
       (\<lambda>v. if v < min_val then min_val else if v > max_val then max_val else v)"

definition saturate_u64_range :: "bigint \<Rightarrow> int \<Rightarrow> int res" where
  "saturate_u64_range a max_val =
     rbind (if bi_is_negative a then rbind (is_zero a) (\<lambda>z. Inr (\<not> z)) else Inr False) (\<lambda>neg.
     if neg then Inr 0 else on_err (to_u64 a) max_val (\<lambda>v. if v > max_val then max_val else v))"

definition saturated_i8 :: "bigint \<Rightarrow> int res" where
  "saturated_i8 a = rbind (saturate_i64_range a (- 128) 127) (\<lambda>v. Inr (wrap_signed 8 v))"
definition saturated_i16 :: "bigint \<Rightarrow> int res" where
  "saturated_i16 a = rbind (saturate_i64_range a (- 32768) 32767) (\<lambda>v. Inr (wrap_signed 16 v))"
definition saturated_i32 :: "bigint \<Rightarrow> int res" where
  "saturated_i32 a = rbind (saturate_i64_range a (- 2147483648) 2147483647) (\<lambda>v. Inr (wrap_signed 32 v))"
definition saturated_i64 :: "bigint \<Rightarrow> int res" where
  "saturated_i64 a = saturate_i64_range a (- 9223372036854775808) 9223372036854775807"
definition saturated_u8 :: "bigint \<Rightarrow> int res" where
  "saturated_u8 a = rbind (saturate_i64_range a 0 255) (\<lambda>v. Inr (wrap_unsigned 8 v))"
definition saturated_u16 :: "bigint \<Rightarrow> int res" where
  "saturated_u16 a = rbind (saturate_i64_range a 0 65535) (\<lambda>v. Inr (wrap_unsigned 16 v))"
definition saturated_u32 :: "bigint \<Rightarrow> int res" where
  "saturated_u32 a = rbind (saturate_i64_range a 0 4294967295) (\<lambda>v. Inr (wrap_unsigned 32 v))"
definition saturated_u64 :: "bigint \<Rightarrow> int res" where
  "saturated_u64 a = saturate_u64_range a 18446744073709551615"

definition saturated_i128 :: "bigint \<Rightarrow> int res" where
  "saturated_i128 a =
     rbind (if bi_is_negative a then magnitude_exceeds a I128_MIN_MAGNITUDE_STR else Inr False) (\<lambda>low.
     if low then Inr (- 170141183460469231731687303715884105728)
     else rbind (if \<not> bi_is_negative a then magnitude_exceeds a I128_MAX_STR else Inr False) (\<lambda>high.
          if high then Inr 170141183460469231731687303715884105727
          else unwrap ''just range-checked above'' (to_i128 a)))"

definition saturated_u128 :: "bigint \<Rightarrow> int res" where
  "saturated_u128 a =
     rbind (if bi_is_negative a then rbind (is_zero a) (\<lambda>z. Inr (\<not> z)) else Inr False) (\<lambda>neg.
     if neg then Inr 0
     else rbind (magnitude_exceeds a U128_MAX_STR) (\<lambda>big.
          if big then Inr 340282366920938463463374607431768211455
          else unwrap ''just range-checked above'' (to_u128 a)))"

subsection \<open>Text\<close>

abbreviation str_msg :: string where
  "str_msg \<equiv> ''walking down from an existing digit count to zero cannot underflow usize, and pos stays within the buffer sized above''"

fun str_loop :: "nat \<Rightarrow> mem \<Rightarrow> mem \<Rightarrow> nat \<Rightarrow> (mem \<times> nat) res" where
  "str_loop 0 ds buf pos = Inr (buf, pos)"
| "str_loop (Suc i) ds buf pos =
     rbind (load i ds) (\<lambda>d.
     rbind (u8_of str_msg (int (d + ASCII_ZERO))) (\<lambda>c.
     rbind (store pos c buf) (\<lambda>buf.
     rbind (fits str_msg (pos + 1)) (\<lambda>pos. str_loop i ds buf pos))))"

definition int_str :: "bigint \<Rightarrow> mstr res" where
  "int_str a =
     (let size_msg = ''a digit count plus an optional sign byte plus one zero terminator cannot overflow usize'' in
      rbind (fits size_msg (bi_num_digits a + 1)) (\<lambda>sz.
      rbind (if bi_is_negative a then fits size_msg (sz + 1) else Inr sz) (\<lambda>sz.
      rbind (if bi_is_negative a then rbind (store 0 ASCII_MINUS (sys_alloc sz)) (\<lambda>buf. Inr (buf, 1)) else Inr (sys_alloc sz, 0)) (\<lambda>(buf, pos).
      rbind (str_loop (bi_num_digits a) (bi_digits a) buf pos) (\<lambda>(buf, pos).
      rbind (store pos 0 buf) (\<lambda>buf.
      unwrap ''int.__str__: internal buffer was not valid UTF-8 (unreachable -- only ASCII digits and '-' are ever written)''
        (from_owned_cstr buf sz)))))))"

definition sign_prefix :: "bigint \<Rightarrow> string \<Rightarrow> mstr" where
  "sign_prefix a mode =
     (if bi_is_negative a then literal ''-'' else if mode = ''+'' then literal ''+'' else if mode = '' '' then literal '' '' else literal '''')"

definition hex_digits_lower :: string where "hex_digits_lower = ''0123456789abcdef''"
definition hex_digits_upper :: string where "hex_digits_upper = ''0123456789ABCDEF''"

text \<open>The digits in another base, least significant first.  The number of rounds depends on the value;
  \<open>fuel\<close> bounds it.\<close>

fun radix_loop :: "nat \<Rightarrow> bigint \<Rightarrow> mstr \<Rightarrow> bigint \<Rightarrow> mstr list res" where
  "radix_loop 0 radix digit_chars magnitude = Inl Diverges"
| "radix_loop (Suc fuel) radix digit_chars magnitude =
     rbind (is_zero magnitude) (\<lambda>z.
     if z then Inr []
     else rbind (unwrap ''_to_radix_digits: divmod failed (unreachable - radix is never zero)'' (int_divmod magnitude radix)) (\<lambda>(quot, remainder).
          rbind (unwrap ''_to_radix_digits: remainder out of i32 range (unreachable - remainder < radix <= 16)'' (to_i32 remainder)) (\<lambda>digit_value.
          rbind (usize_panic ''bounded by radix <= 16, cannot overflow'' digit_value) (\<lambda>digit_index.
          rbind (fits ''bounded by radix <= 16, cannot overflow'' (digit_index + 1)) (\<lambda>digit_index_end.
          rbind (byte_slice digit_chars digit_index digit_index_end) (\<lambda>c.
          rbind (radix_loop fuel radix digit_chars quot) (\<lambda>rest. Inr (c # rest))))))))"

definition to_radix_digits :: "nat \<Rightarrow> bigint \<Rightarrow> int \<Rightarrow> bool \<Rightarrow> mstr res" where
  "to_radix_digits fuel a base uppercase =
     rbind (is_zero a) (\<lambda>z.
     if z then Inr (literal ''0'')
     else rbind (clone a) (\<lambda>magnitude.
          rbind (int_new base) (\<lambda>radix.
          rbind (radix_loop fuel radix (literal (if uppercase then hex_digits_upper else hex_digits_lower))
                   (magnitude\<lparr>bi_is_negative := False\<rparr>)) (\<lambda>digits.
          str_join (literal '''') (rev digits)))))"

definition decimal_digits :: "bigint \<Rightarrow> mstr res" where
  "decimal_digits a = rbind (int_str a) (\<lambda>digits. if bi_is_negative a then byte_slice digits 1 (byte_len digits) else Inr digits)"

text \<open>The pieces between the separators, least significant first.\<close>

function group_loop :: "mstr \<Rightarrow> nat \<Rightarrow> mstr list res" where
  "group_loop digits stop =
     (if stop > 3
      then rbind (sub_panic ''bounded by count, cannot overflow'' stop 3) (\<lambda>start.
           rbind (byte_slice digits start stop) (\<lambda>g. rbind (group_loop digits start) (\<lambda>rest. Inr (g # rest))))
      else rbind (byte_slice digits 0 stop) (\<lambda>g. Inr [g]))"
  by pat_completeness auto
termination by (relation "measure snd") auto

declare group_loop.simps [simp del]

definition decimal_digits_with_grouping :: "bigint \<Rightarrow> mstr \<Rightarrow> mstr res" where
  "decimal_digits_with_grouping a sep =
     rbind (int_str a) (\<lambda>digits.
     rbind (if bi_is_negative a then byte_slice digits 1 (byte_len digits) else Inr digits) (\<lambda>digits.
     if byte_len digits \<le> 3 then Inr digits
     else rbind (group_loop digits (byte_len digits)) (\<lambda>groups. str_join sep (rev groups))))"

end
