(* ===== verification/Lib_Int_Digits.thy ===== *)
theory Lib_Int_Digits
  imports Lib_Int
begin

text \<open>
  Decimal digits, least significant first, as a number; the canonical sequences; and that the buffers of
  \<^verbatim>\<open>int\<close> hold such sequences: copying, comparing and trimming them.
\<close>

subsection \<open>Digits and numbers\<close>

fun dval :: "nat list \<Rightarrow> nat" where
  "dval [] = 0"
| "dval (d # ds) = d + 10 * dval ds"

abbreviation digits :: "nat list \<Rightarrow> bool" where
  "digits ds \<equiv> \<forall>d \<in> set ds. d < 10"

definition canonical :: "nat list \<Rightarrow> bool" where
  "canonical ds = (ds \<noteq> [] \<and> digits ds \<and> (1 < length ds \<longrightarrow> last ds \<noteq> 0))"

lemma dval_append: "dval (xs @ ys) = dval xs + 10 ^ length xs * dval ys"
  by (induction xs) (simp_all add: algebra_simps)

lemma dval_bound: "digits ds \<Longrightarrow> dval ds < 10 ^ length ds"
proof (induction ds)
  case (Cons d ds)
  then have "dval ds + 1 \<le> 10 ^ length ds" "d < 10" by simp_all
  then show ?case by simp
qed simp

lemma dval_replicate [simp]: "dval (replicate n 0) = 0"
  by (induction n) simp_all

lemma dval_take_Suc: "i < length ds \<Longrightarrow> dval (take (Suc i) ds) = dval (take i ds) + ds ! i * 10 ^ i"
  by (simp add: take_Suc_conv_app_nth dval_append mult.commute)

lemma dval_drop: "i < length ds \<Longrightarrow> dval (drop i ds) = ds ! i + 10 * dval (drop (Suc i) ds)"
  by (simp add: Cons_nth_drop_Suc [symmetric])

lemma dval_update: "i < length ds \<Longrightarrow> dval (ds[i := v]) + ds ! i * 10 ^ i = dval ds + v * 10 ^ i"
proof (induction ds arbitrary: i)
  case (Cons d ds)
  show ?case
  proof (cases i)
    case (Suc j)
    then have "dval (ds[j := v]) + ds ! j * 10 ^ j = dval ds + v * 10 ^ j" using Cons by simp
    then show ?thesis using Suc by (simp add: algebra_simps)
  qed simp
qed simp

lemma digits_last_zero: "digits ds \<Longrightarrow> ds \<noteq> [] \<Longrightarrow> last ds = 0 \<Longrightarrow> dval ds < 10 ^ (length ds - 1)"
proof -
  assume a: "digits ds" "ds \<noteq> []" "last ds = 0"
  have "dval (butlast ds @ [last ds]) = dval (butlast ds)" using a(3) unfolding dval_append by simp
  then have "dval ds = dval (butlast ds)" using a(2) by simp
  moreover have "digits (butlast ds)" using a(1) by (meson in_set_butlastD)
  ultimately show ?thesis using dval_bound [of "butlast ds"] by simp
qed

lemma digits_last_nonzero: "ds \<noteq> [] \<Longrightarrow> last ds \<noteq> 0 \<Longrightarrow> 10 ^ (length ds - 1) \<le> dval ds"
proof -
  assume a: "ds \<noteq> []" "last ds \<noteq> 0"
  have "dval (butlast ds @ [last ds]) = dval (butlast ds) + 10 ^ (length ds - 1) * last ds" unfolding dval_append by simp
  moreover have "(10 :: nat) ^ (length ds - 1) * 1 \<le> 10 ^ (length ds - 1) * last ds" using a(2) by (intro mult_left_mono) auto
  ultimately have "10 ^ (length ds - 1) \<le> dval (butlast ds @ [last ds])" by linarith
  then show ?thesis using a(1) by simp
qed

lemma canonical_iff: "canonical ds \<longleftrightarrow> ds \<noteq> [] \<and> digits ds \<and> (1 < length ds \<longrightarrow> 10 ^ (length ds - 1) \<le> dval ds)"
  unfolding canonical_def using digits_last_zero [of ds] digits_last_nonzero [of ds] by (metis not_le)

lemma canonical_length_less: assumes "canonical xs" "canonical ys" "length xs < length ys" shows "dval xs < dval ys"
proof -
  have "1 < length ys" using assms(1,3) by (cases xs) (auto simp: canonical_def)
  then have "10 ^ (length ys - 1) \<le> dval ys" using assms(2) canonical_iff by blast
  moreover have "dval xs < 10 ^ length xs" using assms(1) dval_bound canonical_def by blast
  moreover have "(10 :: nat) ^ length xs \<le> 10 ^ (length ys - 1)" using assms(3) by (intro power_increasing) auto
  ultimately show ?thesis by linarith
qed

lemma canonical_length_bound: "canonical ds \<Longrightarrow> dval ds < 10 ^ k \<Longrightarrow> 0 < k \<Longrightarrow> length ds \<le> k"
proof (rule ccontr)
  assume a: "canonical ds" "dval ds < 10 ^ k" "0 < k" "\<not> length ds \<le> k"
  then have "1 < length ds" by linarith
  then have "10 ^ (length ds - 1) \<le> dval ds" using a(1) unfolding canonical_iff by blast
  moreover have "(10 :: nat) ^ k \<le> 10 ^ (length ds - 1)" using a(4) by (intro power_increasing) auto
  ultimately show False using a(2) by linarith
qed

lemma canonical_zero: "canonical ds \<Longrightarrow> dval ds = 0 \<longleftrightarrow> ds = [0]"
proof
  assume "canonical ds" "dval ds = 0"
  moreover have "length ds = 1"
    using canonical_length_bound [OF calculation(1), of 1] calculation by (cases ds) (auto simp: canonical_def)
  ultimately show "ds = [0]" by (cases ds) auto
qed simp

lemma digits_unique: "length xs = length ys \<Longrightarrow> digits xs \<Longrightarrow> digits ys \<Longrightarrow> dval xs = dval ys \<Longrightarrow> xs = ys"
proof (induction xs ys rule: list_induct2)
  case (Cons x xs y ys)
  have "(x + 10 * dval xs) mod 10 = (y + 10 * dval ys) mod 10" using Cons.prems(3) by simp
  then have "x = y" using Cons.prems by simp
  then show ?case using Cons by simp
qed simp

lemma canonical_unique: "canonical xs \<Longrightarrow> canonical ys \<Longrightarrow> dval xs = dval ys \<Longrightarrow> xs = ys"
  using canonical_length_less [of xs ys] canonical_length_less [of ys xs] digits_unique [of xs ys]
  by (metis canonical_def less_irrefl linorder_neqE_nat)

subsection \<open>Buffers\<close>

definition holds :: "mem \<Rightarrow> nat list \<Rightarrow> bool" where
  "holds m ds = (\<exists>junk. m = map Some ds @ junk)"

lemma holds_load: "holds m ds \<Longrightarrow> i < length ds \<Longrightarrow> load i m = Inr (ds ! i)"
  by (auto simp: holds_def load_def nth_append)

lemma holds_length: "holds m ds \<Longrightarrow> length ds \<le> length m"
  by (auto simp: holds_def)

lemma holds_take: "holds m ds \<Longrightarrow> holds m (take k ds)"
  unfolding holds_def by (metis append_assoc append_take_drop_id map_append)

lemma holds_update: "holds m ds \<Longrightarrow> i < length ds \<Longrightarrow> holds (m[i := Some v]) (ds[i := v])"
  by (auto simp: holds_def list_update_append map_update)

lemma holds_extend: assumes "holds m ds" "length ds < length m" shows "holds (m[length ds := Some v]) (ds @ [v])"
proof -
  from assms obtain junk where m: "m = map Some ds @ junk" "junk \<noteq> []" by (auto simp: holds_def)
  then obtain x xs where "junk = x # xs" by (cases junk) auto
  then have "m[length ds := Some v] = map Some (ds @ [v]) @ xs" using m by (simp add: list_update_append)
  then show ?thesis unfolding holds_def by blast
qed

lemma holds_full: "holds m ds \<Longrightarrow> length m = length ds \<Longrightarrow> m = map Some ds"
  by (auto simp: holds_def)

definition mag :: "bigint \<Rightarrow> nat list \<Rightarrow> bool" where
  "mag a ds = (canonical ds \<and> bi_num_digits a = length ds \<and> bi_num_allocated a = length (bi_digits a) \<and> holds (bi_digits a) ds)"

lemma magD: assumes "mag a ds" shows "canonical ds" "ds \<noteq> []" "digits ds" "bi_num_digits a = length ds"
  "bi_num_allocated a = length (bi_digits a)" "holds (bi_digits a) ds" "length ds \<le> length (bi_digits a)" "0 < length ds"
  using assms holds_length by (auto simp: mag_def canonical_def)

lemma mag_sign [simp]: "mag (a\<lparr>bi_is_negative := b\<rparr>) ds = mag a ds"
  by (simp add: mag_def)

lemma is_zero_eq: "mag a ds \<Longrightarrow> is_zero a = Inr (dval ds = 0)"
proof -
  assume m: "mag a ds"
  note M = magD [OF m]
  show ?thesis
  proof (cases "length ds = 1")
    case True
    then obtain d where "ds = [d]" by (cases ds) auto
    then show ?thesis using M holds_load [OF M(6), of 0] by (simp add: is_zero_def)
  next
    case False
    then have "dval ds \<noteq> 0" using canonical_zero [OF M(1)] by auto
    then show ?thesis using M False by (simp add: is_zero_def)
  qed
qed

lemma copy_digits_eq: assumes "holds src ds" "length ds \<le> length dst0" "length ds < 2 ^ 63"
  shows "i \<le> length ds \<Longrightarrow> holds dst (take i ds) \<Longrightarrow> length dst = length dst0 \<Longrightarrow>
    \<exists>m. copy_digits msg i (length ds) src dst = Inr m \<and> holds m ds \<and> length m = length dst0"
proof (induction "length ds - i" arbitrary: i dst rule: less_induct)
  case less
  show ?case
  proof (cases "i < length ds")
    case True
    have "holds (dst[length (take i ds) := Some (ds ! i)]) (take i ds @ [ds ! i])"
      using less.prems True assms(2) by (intro holds_extend) auto
    then have "holds (dst[i := Some (ds ! i)]) (take (Suc i) ds)" using True by (simp add: take_Suc_conv_app_nth)
    then have "\<exists>m. copy_digits msg (i + 1) (length ds) src (dst[i := Some (ds ! i)]) = Inr m \<and> holds m ds \<and> length m = length dst0"
      using less.prems True by (intro less.hyps) simp_all
    then show ?thesis using True holds_load [OF assms(1) True] less.prems assms(2,3)
      by (subst copy_digits.simps) simp
  next
    case False
    then show ?thesis using less.prems by (subst copy_digits.simps) simp
  qed
qed

lemma copy_digits_fresh: assumes "holds src ds" "length ds \<le> n" "length ds < 2 ^ 63"
  obtains m where "copy_digits msg 0 (length ds) src (sys_alloc n) = Inr m" "holds m ds" "length m = n"
  using copy_digits_eq [OF assms(1), of "sys_alloc n" 0 "sys_alloc n" msg] assms by (auto simp: holds_def)

lemma clone_mag: assumes "mag a ds" "length ds < 2 ^ 60"
  obtains r where "clone a = Inr r" "mag r ds" "bi_is_negative r = bi_is_negative a" "bi_num_digits r = bi_num_digits a"
proof -
  note M = magD [OF assms(1)]
  have cap: "(if bi_num_allocated a > 0 then bi_num_allocated a else 1) = length (bi_digits a)" using M(5,7,8) by auto
  have l: "length ds < 2 ^ 63" using assms(2) by simp
  obtain m where m: "copy_digits ''copying an existing digit array of known length cannot overflow usize bookkeeping''
      0 (length ds) (bi_digits a) (sys_alloc (length (bi_digits a))) = Inr m" "holds m ds" "length m = length (bi_digits a)"
    using copy_digits_fresh [OF M(6) M(7) l] by metis
  show ?thesis
    by (rule that [of "\<lparr>bi_digits = m, bi_num_digits = length ds, bi_num_allocated = length (bi_digits a), bi_is_negative = bi_is_negative a\<rparr>"])
      (use m M cap in \<open>simp_all add: clone_def mag_def\<close>)
qed

lemma ensure_digits_mag: assumes "mag a ds" "length ds < 2 ^ 60"
  obtains r where "ensure_digits a n = Inr r" "mag r ds" "bi_is_negative r = bi_is_negative a" "n \<le> length (bi_digits r)"
proof (cases "bi_num_allocated a \<ge> n")
  case True
  then show ?thesis using that [of a] assms magD [OF assms(1)] by (simp add: ensure_digits_def)
next
  case False
  note M = magD [OF assms(1)]
  have l: "length ds \<le> n" "length ds < 2 ^ 63" using False M assms(2) by simp_all
  obtain m where m: "copy_digits ''copying the existing digit array into a strictly larger one cannot overflow usize bookkeeping''
      0 (length ds) (bi_digits a) (sys_alloc n) = Inr m" "holds m ds" "length m = n"
    using copy_digits_fresh [OF M(6) l] by metis
  show ?thesis
    by (rule that [of "a\<lparr>bi_digits := m, bi_num_allocated := n\<rparr>"]) (use m M False in \<open>simp_all add: ensure_digits_def mag_def\<close>)
qed

subsection \<open>Comparing\<close>

lemma compare_loop_eq: assumes "holds a xs" "holds b ys" "digits xs" "digits ys"
  shows "n \<le> length xs \<Longrightarrow> n \<le> length ys \<Longrightarrow> compare_loop n a b = Inr (sgn (int (dval (take n xs)) - int (dval (take n ys))))"
proof (induction n)
  case (Suc n)
  have bx: "dval (take n xs) < 10 ^ n" "dval (take n ys) < 10 ^ n"
    using dval_bound [of "take n xs"] dval_bound [of "take n ys"] assms(3,4) Suc.prems by (auto dest: in_set_takeD simp: min_def)
  have v: "int (dval (take (Suc n) xs)) - int (dval (take (Suc n) ys))
      = int (dval (take n xs)) - int (dval (take n ys)) + (int (xs ! n) - int (ys ! n)) * 10 ^ n"
    using Suc.prems by (simp add: dval_take_Suc algebra_simps)
  have L: "load n a = Inr (xs ! n)" "load n b = Inr (ys ! n)" using holds_load assms(1,2) Suc.prems by auto
  consider "xs ! n > ys ! n" | "xs ! n < ys ! n" | "xs ! n = ys ! n" by linarith
  then show ?case
  proof cases
    case 1
    then have "1 * 10 ^ n \<le> (int (xs ! n) - int (ys ! n)) * 10 ^ n" by (intro mult_right_mono) auto
    moreover have "int (dval (take n ys)) < 10 ^ n" using bx(2) by (metis of_nat_less_iff of_nat_numeral of_nat_power)
    ultimately have "int (dval (take (Suc n) xs)) - int (dval (take (Suc n) ys)) > 0" unfolding v by linarith
    then show ?thesis using L 1 by simp
  next
    case 2
    then have "1 * 10 ^ n \<le> (int (ys ! n) - int (xs ! n)) * 10 ^ n" by (intro mult_right_mono) auto
    moreover have "int (dval (take n xs)) < 10 ^ n" using bx(1) by (metis of_nat_less_iff of_nat_numeral of_nat_power)
    moreover have "(int (ys ! n) - int (xs ! n)) * 10 ^ n = - ((int (xs ! n) - int (ys ! n)) * 10 ^ n)" by (simp add: algebra_simps)
    ultimately have "int (dval (take (Suc n) xs)) - int (dval (take (Suc n) ys)) < 0" unfolding v by linarith
    then show ?thesis using L 2 by simp
  next
    case 3
    then show ?thesis using L Suc v by simp
  qed
qed simp

lemma compare_magnitude_eq: assumes "mag a xs" "mag b ys"
  shows "compare_magnitude a b = Inr (sgn (int (dval xs) - int (dval ys)))"
proof -
  note A = magD [OF assms(1)] and B = magD [OF assms(2)]
  consider "length xs > length ys" | "length xs < length ys" | "length xs = length ys" by linarith
  then show ?thesis
  proof cases
    case 1
    then show ?thesis using canonical_length_less [OF B(1) A(1)] A B by (simp add: compare_magnitude_def)
  next
    case 2
    then show ?thesis using canonical_length_less [OF A(1) B(1)] A B by (simp add: compare_magnitude_def)
  next
    case 3
    then show ?thesis using compare_loop_eq [OF A(6) B(6) A(3) B(3), of "length xs"] A B by (simp add: compare_magnitude_def)
  qed
qed

subsection \<open>Trimming\<close>

fun trim :: "nat list \<Rightarrow> nat \<Rightarrow> nat" where
  "trim ds 0 = 0"
| "trim ds (Suc n) = (if n = 0 then 1 else if ds ! n = 0 then trim ds n else Suc n)"

lemma trim_loop_eq: "holds m ds \<Longrightarrow> n \<le> length ds \<Longrightarrow> trim_loop m n = Inr (trim ds n)"
  by (induction n) (auto simp: holds_load)

lemma trim_le: "trim ds n \<le> n"
  by (induction n) (auto intro: le_SucI)

lemma trim_pos: "0 < n \<Longrightarrow> 0 < trim ds n"
  by (induction n) auto

lemma trim_dval: "n \<le> length ds \<Longrightarrow> dval (take (trim ds n) ds) = dval (take n ds)"
proof (induction n)
  case (Suc n)
  then show ?case by (cases "n = 0") (auto simp: dval_take_Suc)
qed simp

lemma trim_last: "n \<le> length ds \<Longrightarrow> 1 < trim ds n \<Longrightarrow> ds ! (trim ds n - 1) \<noteq> 0"
  by (induction n) (auto split: if_splits)

lemma trim_canonical: assumes "ds \<noteq> []" "digits ds" shows "canonical (take (trim ds (length ds)) ds)"
proof -
  let ?n = "trim ds (length ds)"
  have n: "0 < ?n" "?n \<le> length ds" using trim_pos trim_le assms(1) by auto
  then have "last (take ?n ds) = ds ! (?n - 1)" by (subst last_conv_nth) (use assms(1) in \<open>auto simp: min_def\<close>)
  then show ?thesis using n assms trim_last [of "length ds" ds] by (auto simp: canonical_def min_def dest: in_set_takeD)
qed

end
