(* ===== verification/Lib_Int_Magnitude.thy ===== *)
theory Lib_Int_Magnitude
  imports Lib_Int_Digits
begin

text \<open>
  The loops of \<^verbatim>\<open>int\<close> on magnitudes compute the sum, the distance, and ten times a number plus a
  digit, inside the block, without a panic, and leave canonical digits.
\<close>

subsection \<open>Addition\<close>

lemma carry_split: "a < 10 \<Longrightarrow> b < 10 \<Longrightarrow> c \<le> 1 \<Longrightarrow> (a :: nat) + b + c = (a + b + c) mod 10 + 10 * (if a + b + c \<ge> 10 then 1 else 0)"
  by (simp add: mod_if) arith

lemma grow_at_eq: assumes "holds (bi_digits a) cs" "bi_num_digits a = length cs" "i \<le> length cs"
    "i = length cs \<Longrightarrow> i < length (bi_digits a)" "length cs < 2 ^ 63"
  obtains a1 where "grow_at i a = Inr a1" "holds (bi_digits a1) (if i = length cs then cs @ [0] else cs)"
    "bi_num_digits a1 = length (if i = length cs then cs @ [0] else cs)" "length (bi_digits a1) = length (bi_digits a)"
    "bi_num_allocated a1 = bi_num_allocated a" "bi_is_negative a1 = bi_is_negative a"
proof (cases "i = length cs")
  case True
  then have "holds ((bi_digits a)[i := Some 0]) (cs @ [0])" using holds_extend [OF assms(1), of 0] assms(4) by simp
  then show ?thesis
    using that [of "a\<lparr>bi_digits := (bi_digits a)[i := Some 0], bi_num_digits := length cs + 1\<rparr>"] True assms(2,4,5)
    by (simp add: grow_at_def)
qed (use that [of a] assms in \<open>simp add: grow_at_def\<close>)

definition add_state :: "nat \<Rightarrow> nat list \<Rightarrow> nat list \<Rightarrow> bigint \<Rightarrow> nat \<Rightarrow> nat \<Rightarrow> bool" where
  "add_state N es cs a i carry =
     (holds (bi_digits a) cs \<and> digits cs \<and> bi_num_digits a = length cs \<and> i \<le> length cs \<and> carry \<le> 1
      \<and> length es \<le> N \<and> N < length (bi_digits a) \<and> N < 2 ^ 61 \<and> (length cs \<le> N \<or> carry = 0 \<and> length es \<le> i))"

definition add_post :: "nat list \<Rightarrow> nat list \<Rightarrow> bigint \<Rightarrow> nat \<Rightarrow> nat \<Rightarrow> bigint \<Rightarrow> nat list \<Rightarrow> bool" where
  "add_post es cs a i carry a' cs' =
     (holds (bi_digits a') cs' \<and> digits cs' \<and> bi_num_digits a' = length cs' \<and> length (bi_digits a') = length (bi_digits a)
      \<and> bi_num_allocated a' = bi_num_allocated a \<and> bi_is_negative a' = bi_is_negative a
      \<and> dval cs' = dval cs + (dval (drop i es) + carry) * 10 ^ i \<and> length cs \<le> length cs'
      \<and> (length cs' \<le> max (length cs) (length es) \<or> 10 ^ (length cs' - 1) \<le> dval cs'))"

lemma add_loop_eq: assumes b: "holds (bi_digits other) es" "digits es" "bi_num_digits other = length es"
  shows "add_state N es cs a i carry \<Longrightarrow> \<exists>a' cs'. add_loop other a i carry = Inr a' \<and> add_post es cs a i carry a' cs'"
proof (induction "length (bi_digits a) - i" arbitrary: a cs i carry rule: less_induct)
  case less
  note S = less.prems [unfolded add_state_def]
  show ?case
  proof (cases "i < length es \<or> 0 < carry")
    case False
    then have "add_loop other a i carry = Inr a" using b(3) by (subst add_loop.simps) simp
    then show ?thesis using S False by (intro exI [of _ a] exI [of _ cs]) (simp add: add_post_def)
  next
    case True
    have small: "length cs < 2 ^ 63" "i + 1 < 18446744073709551616" using S True by auto
    have room: "i = length cs \<Longrightarrow> i < length (bi_digits a)" using S True by auto
    let ?cs1 = "if i = length cs then cs @ [0] else cs"
    obtain a1 where g: "grow_at i a = Inr a1" "holds (bi_digits a1) ?cs1" "bi_num_digits a1 = length ?cs1"
        "length (bi_digits a1) = length (bi_digits a)" "bi_num_allocated a1 = bi_num_allocated a" "bi_is_negative a1 = bi_is_negative a"
      using grow_at_eq [of a cs i] S room small(1) by metis
    have i1: "i < length ?cs1" using S by simp
    have dig1: "digits ?cs1" using S by simp
    have dv1: "dval ?cs1 = dval cs" by (simp add: dval_append)
    define d od t c' cs2 where defs: "d = ?cs1 ! i" "od = (if i < length es then es ! i else 0)" "t = d + od + carry"
      "c' = (if t \<ge> 10 then 1 else 0 :: nat)" "cs2 = ?cs1[i := t mod 10]"
    define a2 where "a2 = a1\<lparr>bi_digits := (bi_digits a1)[i := Some (t mod 10)]\<rparr>"
    have d10: "d < 10" unfolding defs using dig1 nth_mem [OF i1] by blast
    have od10: "od < 10" unfolding defs using b(2) nth_mem [of i es] by auto
    have car: "carry \<le> 1" using S by blast
    have ld_other: "(if i < length es then load i (bi_digits other) else Inr 0) = Inr od"
      unfolding defs using holds_load [OF b(1)] by simp
    have ld: "load i (bi_digits a1) = Inr d" unfolding defs using holds_load [OF g(2) i1] .
    have u8: "u8_of add_msg (int (d + od)) = Inr (d + od)" "u8_of add_msg (int (d + od + carry)) = Inr t"
      using d10 od10 car by (simp_all add: u8_of_def defs(3))
    have st: "store i (t mod 10) (bi_digits a1) = Inr ((bi_digits a1)[i := Some (t mod 10)])"
      using i1 holds_length [OF g(2)] by simp
    have step: "add_loop other a i carry = add_loop other a2 (i + 1) c'"
      using True b(3) small(2) by (subst add_loop.simps) (simp only: g(1) rbind_simps ld_other ld u8 st fits_small if_True b(3) a2_def defs(4))
    have tm: "t = t mod 10 + 10 * c'" unfolding defs(3,4) using carry_split [OF d10 od10 car] .
    have len2: "length cs2 = (if i = length cs then length cs + 1 else length cs)" unfolding defs by simp
    have a2: "bi_num_digits a2 = length cs2" "length (bi_digits a2) = length (bi_digits a)" "bi_num_allocated a2 = bi_num_allocated a"
      "bi_is_negative a2 = bi_is_negative a" "holds (bi_digits a2) cs2"
      using g holds_update [OF g(2) i1] unfolding a2_def len2 defs(5) by simp_all
    have dig2: "digits cs2" unfolding defs(5) using dig1 by (auto dest!: set_update_subset_insert [THEN subsetD])
    have inv: "add_state N es cs2 a2 (i + 1) c'"
    proof -
      have "length cs2 \<le> N \<or> c' = 0 \<and> length es \<le> i + 1"
      proof (cases "i = length cs \<and> \<not> i < length es")
        case grow: True
        then have "t < 10" using car unfolding defs by simp
        then show ?thesis using grow unfolding defs(4) by simp
      next
        case False
        then show ?thesis using S True unfolding len2 by auto
      qed
      note dis = this
      have bounds: "c' \<le> 1" "i + 1 \<le> length cs2" unfolding defs(4) using i1 unfolding defs(5) by simp_all
      have room: "length es \<le> N" "N < length (bi_digits a2)" "N < 2 ^ 61" using S unfolding a2(2) by blast+
      show ?thesis unfolding add_state_def by (intro conjI a2 dig2 bounds room dis)
    qed
    have lt: "length (bi_digits a2) - (i + 1) < length (bi_digits a) - i" using a2(2) g(4) i1 holds_length [OF g(2)] by linarith
    obtain a' cs' where IH: "add_loop other a2 (i + 1) c' = Inr a'" "add_post es cs2 a2 (i + 1) c' a' cs'"
      using less.hyps [OF lt inv] by blast
    note P = IH(2) [unfolded add_post_def]
    have upd: "dval cs2 + d * 10 ^ i = dval cs + t mod 10 * 10 ^ i" using dval_update [OF i1, of "t mod 10"] dv1 unfolding defs(1,5) by simp
    have dr: "dval (drop i es) = od + 10 * dval (drop (i + 1) es)" using dval_drop [of i es] unfolding defs(2) by simp
    have val: "dval cs' = dval cs + (dval (drop i es) + carry) * 10 ^ i"
    proof -
      define Q where "Q = (10 :: nat) ^ i"
      define D where "D = dval (drop (i + 1) es)"
      have "dval cs' = dval cs2 + (D + c') * (10 * Q)" using P unfolding Q_def D_def by simp
      moreover have "dval cs2 + d * Q = dval cs + t mod 10 * Q" using upd unfolding Q_def .
      moreover have "(d + od + carry) * Q = (t mod 10 + 10 * c') * Q" using tm unfolding defs(3) by metis
      ultimately have "dval cs' = dval cs + (od + 10 * D + carry) * Q" unfolding add_mult_distrib by linarith
      then show ?thesis unfolding dr Q_def D_def .
    qed
    have lens: "length cs' \<le> max (length cs) (length es) \<or> 10 ^ (length cs' - 1) \<le> dval cs'"
    proof (cases "i = length cs \<and> \<not> i < length es")
      case grow: True
      then have "carry = 1" using True car by auto
      then have "t = 1" "d = 0" using grow unfolding defs(1-3) by simp_all
      then have "10 ^ i \<le> dval cs2" using upd by simp
      then have "10 ^ i \<le> dval cs'" using P by linarith
      moreover have "length cs' \<le> i + 1 \<or> 10 ^ (length cs' - 1) \<le> dval cs'" using P grow len2 by auto
      moreover have "i + 1 \<le> length cs'" using P grow len2 by simp
      ultimately show ?thesis by (metis add_diff_cancel_right' le_antisym)
    next
      case False
      have "length cs2 \<le> max (length cs) (length es)" using False unfolding len2 by auto
      then show ?thesis using P by (meson le_trans max.boundedI max.cobounded2)
    qed
    have "length cs \<le> length cs'" using P len2 by (auto split: if_splits)
    then have "add_post es cs a i carry a' cs'" using P a2 val lens unfolding add_post_def by metis
    then show ?thesis using step IH(1) by auto
  qed
qed

lemma add_magnitude_eq: assumes a: "mag a ds" "length ds < 2 ^ 60" and b: "mag b es" "length es < 2 ^ 60"
  obtains r fs where "add_magnitude a b = Inr r" "mag r fs" "dval fs = dval ds + dval es" "bi_is_negative r = bi_is_negative a"
    "length fs \<le> max (length ds) (length es) + 1"
proof -
  note A = magD [OF a(1)] and B = magD [OF b(1)]
  let ?N = "max (length ds) (length es)"
  have N: "(if bi_num_digits a > bi_num_digits b then bi_num_digits a else bi_num_digits b) = ?N" using A B by simp
  have f: "?N + 1 < 18446744073709551616" using a(2) b(2) by simp
  obtain r0 where r0: "ensure_digits a (?N + 1) = Inr r0" "mag r0 ds" "bi_is_negative r0 = bi_is_negative a" "?N + 1 \<le> length (bi_digits r0)"
    using ensure_digits_mag [OF a] by metis
  note R = magD [OF r0(2)]
  have "add_state ?N es ds r0 0 0" unfolding add_state_def using R r0(4) a(2) b(2) by auto
  then obtain r fs where r: "add_loop b r0 0 0 = Inr r" "add_post es ds r0 0 0 r fs" using add_loop_eq B by metis
  note P = r(2) [unfolded add_post_def]
  have v: "dval fs = dval ds + dval es" using P by simp
  have "canonical fs"
  proof -
    have "10 ^ (length fs - 1) \<le> dval fs" if l: "1 < length fs" "length fs \<le> ?N"
    proof -
      have "10 ^ (?N - 1) \<le> dval ds \<or> 10 ^ (?N - 1) \<le> dval es"
        using A(1) B(1) l unfolding canonical_iff by (auto simp: max_def split: if_splits)
      moreover have "(10 :: nat) ^ (length fs - 1) \<le> 10 ^ (?N - 1)" using l by (intro power_increasing) auto
      ultimately show ?thesis using v by linarith
    qed
    then show ?thesis unfolding canonical_iff using P A(2) by (auto simp: not_le)
  qed
  then have m: "mag r fs" using P R by (simp add: mag_def)
  have "dval fs < 10 ^ (?N + 1)"
  proof -
    define P where "P = (10 :: nat) ^ ?N"
    have "dval ds < 10 ^ length ds" "dval es < 10 ^ length es" using dval_bound A(3) B(3) by blast+
    moreover have "(10 :: nat) ^ length ds \<le> P" "(10 :: nat) ^ length es \<le> P" unfolding P_def by (intro power_increasing; simp)+
    ultimately have "dval fs < 10 * P" using v by linarith
    then show ?thesis unfolding P_def by simp
  qed
  then have "length fs \<le> ?N + 1" using canonical_length_bound [OF \<open>canonical fs\<close>] by simp
  then show ?thesis
    using that [OF _ m v] r(1) r0 P f N by (simp add: add_magnitude_def Let_def)
qed

subsection \<open>Subtraction\<close>

text \<open>The count the loop keeps: the position after the last digit that is not zero.\<close>

definition tracked :: "nat \<Rightarrow> nat list \<Rightarrow> bool" where
  "tracked n ws = (0 < n \<and> n \<le> max 1 (length ws) \<and> (\<forall>j. n \<le> j \<longrightarrow> j < length ws \<longrightarrow> ws ! j = 0) \<and> (1 < n \<longrightarrow> ws ! (n - 1) \<noteq> 0))"

lemma tracked_snoc: "tracked n ws \<Longrightarrow> tracked (if d \<noteq> 0 then length ws + 1 else n) (ws @ [d])"
  unfolding tracked_def by (auto simp: nth_append less_Suc_eq)

lemma tracked_canonical: assumes "tracked n ws" "ws \<noteq> []" "digits ws"
  shows "canonical (take n ws)" "dval (take n ws) = dval ws" "length (take n ws) = n"
proof -
  have n: "0 < n" "n \<le> length ws" using assms(1,2) unfolding tracked_def by (cases ws; auto)+
  then show l: "length (take n ws) = n" by simp
  have "last (take n ws) = ws ! (n - 1)" using n by (subst last_conv_nth) (auto simp: min_def)
  then show "canonical (take n ws)" using n assms unfolding canonical_def tracked_def by (auto dest: in_set_takeD)
  have "drop n ws = replicate (length ws - n) 0" using assms(1) unfolding tracked_def by (intro nth_equalityI) auto
  then have "dval (take n ws @ drop n ws) = dval (take n ws)" unfolding dval_append by simp
  then show "dval (take n ws) = dval ws" by simp
qed

definition sub_state :: "mem \<Rightarrow> nat list \<Rightarrow> nat list \<Rightarrow> bigint \<Rightarrow> nat \<Rightarrow> int \<Rightarrow> nat list \<Rightarrow> bool" where
  "sub_state orig gs ss a i borrow ws =
     (i \<le> length gs \<and> length ws = i \<and> digits ws \<and> holds (bi_digits a) ws \<and> length (bi_digits a) = length orig
      \<and> (\<forall>j\<ge>i. load j (bi_digits a) = load j orig) \<and> (borrow = 0 \<or> borrow = 1) \<and> tracked (bi_num_digits a) ws
      \<and> int (dval ws) + int (dval (take i ss)) = int (dval (take i gs)) + borrow * 10 ^ i)"

lemma take_Suc_dval: "dval (take (Suc i) xs) = dval (take i xs) + (if i < length xs then xs ! i else 0) * 10 ^ i"
  by (simp add: dval_take_Suc)

lemma sub_loop_eq: assumes dig: "digits gs" "digits ss" and len: "length gs < 2 ^ 61" "length gs \<le> length orig"
    and lg: "\<And>j. j < length gs \<Longrightarrow> load j (if sg then orig else bi_digits other) = Inr (gs ! j)"
    and ls: "\<And>j. j < length ss \<Longrightarrow> load j (if sg then bi_digits other else orig) = Inr (ss ! j)"
  shows "sub_state orig gs ss a i borrow ws \<Longrightarrow>
    \<exists>a' ws' b. sub_loop sg (length gs) (length ss) other a i borrow = Inr a' \<and> sub_state orig gs ss a' (length gs) b ws'
      \<and> bi_num_allocated a' = bi_num_allocated a \<and> bi_is_negative a' = bi_is_negative a"
proof (induction "length gs - i" arbitrary: a i borrow ws rule: less_induct)
  case less
  note S = less.prems [unfolded sub_state_def]
  show ?case
  proof (cases "i < length gs")
    case False
    then have "i = length gs" using S by simp
    then show ?thesis using less.prems by (subst sub_loop.simps) auto
  next
    case True
    define g sd t new b' where defs: "g = gs ! i" "sd = (if i < length ss then ss ! i else 0)" "t = int g - int sd - borrow"
      "new = (if t < 0 then t + 10 else t)" "b' = (if t < 0 then 1 else 0 :: int)"
    have bor: "borrow = 0 \<or> borrow = 1" using S by blast
    have g10: "g < 10" unfolding defs using dig(1) nth_mem [OF True] by blast
    have sd10: "sd < 10" unfolding defs using dig(2) nth_mem [of i ss] by auto
    have t: "- 10 \<le> t" "t < 10" using g10 sd10 bor unfolding defs(3) by auto
    have new: "0 \<le> new" "new < 10" "new = t + 10 * b'" using t unfolding defs(4,5) by auto
    have same: "load i (bi_digits a) = load i orig" using S by blast
    have ld: "load i (if sg then bi_digits a else bi_digits other) = Inr g" using lg [OF True] same unfolding defs by (cases sg) simp_all
    have lds: "(if i < length ss then rbind (load i (if sg then bi_digits other else bi_digits a)) (\<lambda>sd. i8_of sub_msg (int sd)) else Inr 0) = Inr (int sd)"
      using ls [of i] same sd10 unfolding defs by (cases sg) (auto simp: i8_of_def)
    have ib: "i < length (bi_digits a)" "i + 1 < 18446744073709551616" using S True len by auto
    define a2 where "a2 = a\<lparr>bi_digits := (bi_digits a)[i := Some (nat new)], bi_num_digits := (if new \<noteq> 0 then i + 1 else bi_num_digits a)\<rparr>"
    have c: "i8_of sub_msg (int g) = Inr (int g)" "i8_of sub_msg (int g - int sd) = Inr (int g - int sd)" "i8_of sub_msg (int g - int sd - borrow) = Inr t"
      "u8_of sub_msg new = Inr (nat new)"
      "(if t < 0 then rbind (i8_of sub_msg (t + 10)) (\<lambda>n. Inr (n, 1)) else Inr (t, 0)) = Inr (new, b')"
      using g10 sd10 t new unfolding defs(3) by (auto simp: i8_of_def u8_of_def defs(3-5))
    have step: "sub_loop sg (length gs) (length ss) other a i borrow = sub_loop sg (length gs) (length ss) other a2 (i + 1) b'"
      using True by (subst sub_loop.simps) (simp only: ld lds c rbind_simps store_ok [OF ib(1)] fits_small [OF ib(2)] if_True prod.case a2_def)
    have "sub_state orig gs ss a2 (i + 1) b' (ws @ [nat new])"
    proof -
      have h: "holds (bi_digits a2) (ws @ [nat new])" unfolding a2_def using holds_extend [of "bi_digits a" ws "nat new"] S ib by auto
      have l: "length (ws @ [nat new]) = i + 1" "length (bi_digits a2) = length orig" "i + 1 \<le> length gs" unfolding a2_def using S True by auto
      have d: "digits (ws @ [nat new])" using S new by auto
      have o: "\<forall>j\<ge>i + 1. load j (bi_digits a2) = load j orig" unfolding a2_def using S by simp
      have tr: "tracked (bi_num_digits a2) (ws @ [nat new])"
        using tracked_snoc [of "bi_num_digits a" ws "nat new"] S new unfolding a2_def by (simp add: nat_eq_iff split: if_splits)
      have bb: "b' = 0 \<or> b' = 1" unfolding defs(5) by simp
      have "int (dval (ws @ [nat new])) + int (dval (take (i + 1) ss)) = int (dval (take (i + 1) gs)) + b' * 10 ^ (i + 1)"
      proof -
        define Q where "Q = (10 :: int) ^ i"
        have e: "int (dval ws) + int (dval (take i ss)) = int (dval (take i gs)) + borrow * Q" using S unfolding Q_def by blast
        have "int (dval (ws @ [nat new])) = int (dval ws) + Q * new" using S new unfolding dval_append Q_def by simp
        moreover have "int (dval (take (i + 1) ss)) = int (dval (take i ss)) + int sd * Q"
          using take_Suc_dval [of i ss] unfolding defs(2) Q_def by simp
        moreover have "int (dval (take (i + 1) gs)) = int (dval (take i gs)) + int g * Q"
          using take_Suc_dval [of i gs] True unfolding defs(1) Q_def by simp
        moreover have "Q * new = (int g - int sd - borrow + 10 * b') * Q" unfolding new(3) defs(3) by simp
        ultimately show ?thesis using e unfolding Q_def [symmetric] power_add by (simp add: algebra_simps Q_def)
      qed
      then show ?thesis unfolding sub_state_def by (intro conjI h l d o tr bb)
    qed
    moreover have "length gs - (i + 1) < length gs - i" using True by linarith
    ultimately obtain a' ws' b where "sub_loop sg (length gs) (length ss) other a2 (i + 1) b' = Inr a'"
        "sub_state orig gs ss a' (length gs) b ws'" "bi_num_allocated a' = bi_num_allocated a2" "bi_is_negative a' = bi_is_negative a2"
      using less.hyps by blast
    then show ?thesis unfolding step a2_def by auto
  qed
qed

lemma subtract_magnitude_eq: assumes a: "mag a ds" "length ds < 2 ^ 60" and b: "mag b es" "length es < 2 ^ 60"
  obtains r fs where "subtract_magnitude a b = Inr r" "mag r fs" "int (dval fs) = \<bar>int (dval ds) - int (dval es)\<bar>"
    "bi_is_negative r = bi_is_negative a" "length fs \<le> max (length ds) (length es)"
proof -
  note A = magD [OF a(1)] and B = magD [OF b(1)]
  let ?N = "max (length ds) (length es)"
  have N: "(if bi_num_digits a > bi_num_digits b then bi_num_digits a else bi_num_digits b) = ?N" using A B by simp
  have f: "?N + 1 < 18446744073709551616" using a(2) b(2) by simp
  obtain r0 where r0: "ensure_digits a (?N + 1) = Inr r0" "mag r0 ds" "bi_is_negative r0 = bi_is_negative a" "?N + 1 \<le> length (bi_digits r0)"
    using ensure_digits_mag [OF a] by metis
  note R = magD [OF r0(2)]
  let ?c = "sgn (int (dval ds) - int (dval es))"
  define sg where "sg = (?c > 0)"
  define gs ss where "gs = (if sg then ds else es)" and "ss = (if sg then es else ds)"
  let ?r1 = "r0\<lparr>bi_num_digits := 1\<rparr>"
  have cmp: "compare_magnitude r0 b = Inr ?c" using compare_magnitude_eq [OF r0(2) b(1)] .
  have le: "dval ss \<le> dval gs" unfolding gs_def ss_def sg_def by (auto simp: sgn_if split: if_splits)
  have can: "canonical gs" "digits gs" "digits ss" "length gs < 2 ^ 61" "length gs \<le> length (bi_digits r0)" "length gs \<le> ?N" "gs \<noteq> []"
    unfolding gs_def ss_def using A B a(2) b(2) r0(4) by auto
  have lg: "\<And>j. j < length gs \<Longrightarrow> load j (if sg then bi_digits r0 else bi_digits b) = Inr (gs ! j)"
    "\<And>j. j < length ss \<Longrightarrow> load j (if sg then bi_digits b else bi_digits r0) = Inr (ss ! j)"
    unfolding gs_def ss_def using holds_load R(6) B(6) by auto
  have "sub_state (bi_digits r0) gs ss ?r1 0 0 []" unfolding sub_state_def by (simp add: tracked_def holds_def)
  then obtain r ws bw where r: "sub_loop sg (length gs) (length ss) b ?r1 0 0 = Inr r" "sub_state (bi_digits r0) gs ss r (length gs) bw ws"
      "bi_num_allocated r = bi_num_allocated ?r1" "bi_is_negative r = bi_is_negative ?r1"
    using sub_loop_eq [OF can(2,3,4,5) lg] by blast
  note S = r(2) [unfolded sub_state_def]
  have "canonical ds" "canonical es" using A B by blast+
  then have "length ss \<le> length gs"
    using le canonical_length_less [of gs ss] unfolding gs_def ss_def by (auto split: if_splits simp: not_le [symmetric])
  then have e: "int (dval ws) + int (dval ss) = int (dval gs) + bw * 10 ^ length gs" using S by simp
  have "dval ws < 10 ^ length gs" using S dval_bound [of ws] by metis
  then have "int (dval ws) < 10 ^ length gs" by (metis of_nat_less_iff of_nat_numeral of_nat_power)
  moreover have "bw = 0 \<or> bw = 1" "int (dval ss) \<le> int (dval gs)" using S le by auto
  moreover have "bw \<noteq> 1"
  proof
    assume "bw = 1"
    then have "bw * 10 ^ length gs = 10 ^ length gs" by simp
    then show False using calculation(1,3) e by linarith
  qed
  ultimately have "bw = 0" by blast
  then have v: "int (dval ws) = \<bar>int (dval ds) - int (dval es)\<bar>" using e le unfolding gs_def ss_def by (auto split: if_splits)
  let ?fs = "take (bi_num_digits r) ws"
  have ws: "ws \<noteq> []" "digits ws" "tracked (bi_num_digits r) ws" using S can(7) by auto
  note T = tracked_canonical [OF ws(3,1,2)]
  have m: "mag r ?fs" unfolding mag_def using T S r(3) R holds_take by auto
  have run: "subtract_magnitude a b = Inr r"
    unfolding subtract_magnitude_def N Let_def fits_small [OF f] rbind_simps r0(1) cmp using r(1) R(4) B(4)
    by (simp add: sg_def gs_def ss_def split: if_splits)
  have "length ?fs \<le> ?N" using S can(6) by auto
  then show ?thesis using that [OF run m] v T(2) r(4) r0(3) by simp
qed

subsection \<open>Ten times a number plus a digit\<close>

lemma shift_loop_eq: "holds m ds \<Longrightarrow> length ds < length m \<Longrightarrow> k \<le> length ds \<Longrightarrow>
    \<exists>m'. shift_loop k m = Inr m' \<and> length m' = length m \<and> (\<forall>j. load j m' = (if 0 < j \<and> j \<le> k then Inr (ds ! (j - 1)) else load j m))"
proof (induction k arbitrary: m ds)
  case (Suc k)
  let ?m1 = "m[Suc k := Some (ds ! k)]"
  have L: "load k m = Inr (ds ! k)" "Suc k < length m" using holds_load [OF Suc.prems(1)] Suc.prems by auto
  have "holds ?m1 (take k ds)"
    using holds_take [OF Suc.prems(1), of k] Suc.prems(3) unfolding holds_def by (auto simp: list_update_append)
  moreover have "length (take k ds) < length ?m1" "k \<le> length (take k ds)" using Suc.prems by auto
  ultimately obtain m' where m': "shift_loop k ?m1 = Inr m'" "length m' = length ?m1"
      "\<forall>j. load j m' = (if 0 < j \<and> j \<le> k then Inr (take k ds ! (j - 1)) else load j ?m1)"
    using Suc.IH by metis
  have "load j m' = (if 0 < j \<and> j \<le> Suc k then Inr (ds ! (j - 1)) else load j m)" for j
    using m'(3) L by (cases "j = Suc k") auto
  then show ?case using L m'(1,2) by auto
qed simp

lemma loads_hold: "(\<And>j. j < length xs \<Longrightarrow> load j m = Inr (xs ! j)) \<Longrightarrow> length xs \<le> length m \<Longrightarrow> holds m xs"
proof -
  assume a: "\<And>j. j < length xs \<Longrightarrow> load j m = Inr (xs ! j)" "length xs \<le> length m"
  have "take (length xs) m = map Some xs"
  proof (rule nth_equalityI)
    fix i assume "i < length (take (length xs) m)"
    then have "i < length xs" "i < length m" using a(2) by simp_all
    with a(1) [of i] have "m ! i = Some (xs ! i)" by (cases "m ! i") (simp_all add: load_def)
    then show "take (length xs) m ! i = map Some xs ! i" using \<open>i < length xs\<close> by simp
  qed (use a(2) in simp)
  then show ?thesis unfolding holds_def by (metis append_take_drop_id)
qed

lemma shift_and_add_digit_eq: assumes "mag a ds" "length ds < 2 ^ 60" "d < 10"
  obtains r fs where "shift_and_add_digit a d = Inr r" "mag r fs" "dval fs = 10 * dval ds + d" "bi_is_negative r = bi_is_negative a"
    "length fs \<le> length ds + 1"
proof -
  note A = magD [OF assms(1)]
  have f: "length ds + 1 < 18446744073709551616" using assms(2) by simp
  obtain r0 where r0: "ensure_digits a (length ds + 1) = Inr r0" "mag r0 ds" "bi_is_negative r0 = bi_is_negative a" "length ds + 1 \<le> length (bi_digits r0)"
    using ensure_digits_mag [OF assms(1,2)] by metis
  note R = magD [OF r0(2)]
  obtain m where m: "shift_loop (length ds) (bi_digits r0) = Inr m" "length m = length (bi_digits r0)"
      "\<forall>j. load j m = (if 0 < j \<and> j \<le> length ds then Inr (ds ! (j - 1)) else load j (bi_digits r0))"
    using shift_loop_eq [OF R(6), of "length ds"] r0(4) by auto
  let ?m = "m[0 := Some d]" and ?xs = "d # ds"
  have h: "holds ?m ?xs"
  proof (rule loads_hold)
    fix j assume j: "j < length ?xs"
    moreover have "0 < length m" using m(2) r0(4) by linarith
    ultimately show "load j ?m = Inr (?xs ! j)" using m(3) by (cases j) simp_all
  qed (use m r0(4) in simp)
  have xs: "?xs \<noteq> []" "digits ?xs" using A assms(3) by auto
  let ?n = "trim ?xs (length ?xs)"
  have tl: "trim_loop ?m (length ds + 1) = Inr ?n" using trim_loop_eq [OF h, of "length ?xs"] by (simp only: list.size order_refl One_nat_def add_0_right)
  have st: "store 0 d m = Inr ?m" using m(2) r0(4) by (intro store_ok) linarith
  have run: "shift_and_add_digit a d = Inr (r0\<lparr>bi_digits := ?m, bi_num_digits := ?n\<rparr>)"
    unfolding shift_and_add_digit_def A(4) fits_small [OF f] rbind_simps r0(1) R(4) m(1) st tl ..
  have n: "?n \<le> length ?xs" by (rule trim_le)
  have "mag (r0\<lparr>bi_digits := ?m, bi_num_digits := ?n\<rparr>) (take ?n ?xs)"
    unfolding mag_def using trim_canonical [OF xs] n R(5) m(2) holds_take [OF h] by simp
  moreover have "dval (take ?n ?xs) = 10 * dval ds + d" using trim_dval [of "length ?xs" ?xs] by simp
  moreover have "length (take ?n ?xs) \<le> length ds + 1" using n by simp
  ultimately show ?thesis using that [OF run] r0(3) by simp
qed

subsection \<open>Machine integers\<close>

lemma digit_count_loop_eq: "v < 10 ^ k \<Longrightarrow> cnt + k < 2 ^ 60 \<Longrightarrow>
    \<exists>n. digit_count_loop v cnt = Inr (cnt + n) \<and> v < 10 ^ n \<and> (0 < v \<longrightarrow> 0 < n \<and> 10 ^ (n - 1) \<le> v) \<and> (v = 0 \<longrightarrow> n = 0)"
proof (induction k arbitrary: v cnt)
  case (Suc k)
  show ?case
  proof (cases "v = 0")
    case False
    have "v < 10 ^ k * 10" using Suc.prems(1) by (simp add: mult.commute)
    then have q: "v div 10 < 10 ^ k" by (rule less_mult_imp_div_less)
    have "cnt + 1 + k < 2 ^ 60" using Suc.prems(2) by simp
    from Suc.IH [OF q this] obtain n where "digit_count_loop (v div 10) (cnt + 1) = Inr (cnt + 1 + n) \<and> v div 10 < 10 ^ n
        \<and> (0 < v div 10 \<longrightarrow> 0 < n \<and> 10 ^ (n - 1) \<le> v div 10) \<and> (v div 10 = 0 \<longrightarrow> n = 0)" ..
    then have n: "digit_count_loop (v div 10) (cnt + 1) = Inr (cnt + 1 + n)" "v div 10 < 10 ^ n"
        "0 < v div 10 \<longrightarrow> 0 < n \<and> 10 ^ (n - 1) \<le> v div 10" "v div 10 = 0 \<longrightarrow> n = 0" by blast+
    have f: "cnt + 1 < 18446744073709551616" using Suc.prems(2) by simp
    have pos: "v > 0" using False by (rule neq0_conv [THEN iffD1])
    have "digit_count_loop v cnt = Inr (cnt + 1 + n)"
      unfolding digit_count_loop.simps [of v cnt] if_P [OF pos] fits_small [OF f] rbind_simps n(1) ..
    then have "digit_count_loop v cnt = Inr (cnt + (n + 1))" by (simp only: ac_simps)
    moreover have "v < 10 ^ (n + 1)"
    proof -
      have "v = 10 * (v div 10) + v mod 10" "v mod 10 < 10" by simp_all
      then show ?thesis using n(2) unfolding power_add power_one_right by linarith
    qed
    moreover have "10 ^ n \<le> v"
    proof (cases n)
      case 0
      then show ?thesis using False by simp
    next
      case (Suc l)
      then have "10 ^ l \<le> v div 10" using n(3,4) by (cases "v div 10 = 0") auto
      moreover have "10 * (v div 10) \<le> v" by simp
      ultimately show ?thesis unfolding Suc power_Suc by linarith
    qed
    ultimately show ?thesis using False by (intro exI [of _ "n + 1"]) simp
  qed (use digit_count_loop.simps [of 0 cnt] in simp)
qed (use digit_count_loop.simps [of 0] in simp)

lemma init_loop_eq: "length ws = i \<Longrightarrow> i \<le> n \<Longrightarrow> n < 2 ^ 60 \<Longrightarrow> holds m ws \<Longrightarrow> length m = n \<Longrightarrow>
    \<exists>xs. init_loop i n v m = Inr (map Some (ws @ xs)) \<and> length xs = n - i \<and> digits xs \<and> dval xs = v mod 10 ^ (n - i)"
proof (induction "n - i" arbitrary: i v m ws)
  case 0
  then have "m = map Some ws" using holds_full by simp
  then show ?case using 0 by (subst init_loop.simps) simp
next
  case (Suc k)
  have i: "i < n" "k = n - (i + 1)" using Suc.hyps(2) by simp_all
  have f: "i + 1 < 18446744073709551616" using i Suc.prems by simp
  have "holds (m[i := Some (v mod 10)]) (ws @ [v mod 10])" using holds_extend [of m ws "v mod 10"] Suc.prems i by auto
  then obtain xs where xs: "init_loop (i + 1) n (v div 10) (m[i := Some (v mod 10)]) = Inr (map Some ((ws @ [v mod 10]) @ xs))"
      "length xs = n - (i + 1)" "digits xs" "dval xs = v div 10 mod 10 ^ (n - (i + 1))"
    using Suc.hyps(1) [OF i(2), of "ws @ [v mod 10]" "m[i := Some (v mod 10)]" "v div 10"] Suc.prems i by auto
  have u: "u8_of init_msg (int (v mod 10)) = Inr (v mod 10)" by (simp add: u8_of_def)
  have ib: "i < length m" using i Suc.prems by simp
  have "init_loop i n v m = Inr (map Some (ws @ (v mod 10) # xs))"
    using i(1) xs(1) by (subst init_loop.simps) (simp add: u fits_small [OF f] store_ok [OF ib] del: One_nat_def)
  moreover have "v mod 10 + 10 * (v div 10 mod 10 ^ (n - (i + 1))) = v mod 10 ^ (n - i)"
  proof -
    have "n - i = Suc (n - (i + 1))" using i(1) by simp
    then show ?thesis by (simp add: mod_mult2_eq)
  qed
  ultimately show ?case using xs i(1) by (intro exI [of _ "v mod 10 # xs"]) auto
qed

lemma int_new_mag: assumes "- (2 ^ 31) \<le> v" "v < 2 ^ 31"
  obtains r ds where "int_new v = Inr r" "mag r ds" "int (dval ds) = \<bar>v\<bar>" "bi_is_negative r = (v < 0)" "length ds \<le> 10"
proof -
  define m where "m = nat \<bar>v\<bar>"
  have m: "m < 2 ^ 32" "int m = \<bar>v\<bar>" using assms unfolding m_def by auto
  have u: "u32_of msg (if v < 0 then - v else v) = Inr m" for msg using assms unfolding u32_of_def m_def by auto
  obtain n where n: "digit_count m = Inr n" "0 < n" "n \<le> 10" "m < 10 ^ n" "1 < n \<longrightarrow> 10 ^ (n - 1) \<le> m"
  proof (cases "m = 0")
    case True
    then show ?thesis using that [of 1] by (simp add: digit_count_def)
  next
    case False
    have "m < 10 ^ 10" using m(1) by simp
    then obtain n where d: "digit_count_loop m 0 = Inr (0 + n)" "m < 10 ^ n" "0 < m \<longrightarrow> 0 < n \<and> 10 ^ (n - 1) \<le> m"
      using digit_count_loop_eq [of m 10 0] by auto
    have "n \<le> 10"
    proof (rule ccontr)
      assume "\<not> n \<le> 10"
      then have "(10 :: nat) ^ 10 \<le> 10 ^ (n - 1)" by (intro power_increasing) auto
      then show False using d False m(1) by simp
    qed
    then show ?thesis using that [of n] d False by (simp add: digit_count_def)
  qed
  have "n < 2 ^ 60" using n(3) by simp
  then obtain xs where xs: "init_loop 0 n m (sys_alloc n) = Inr (map Some xs)" "length xs = n" "digits xs" "dval xs = m mod 10 ^ n"
    using init_loop_eq [of "[]" 0 n "sys_alloc n" m] by (auto simp: holds_def)
  have v: "dval xs = m" using xs(4) n(4) by simp
  then have c: "canonical xs" unfolding canonical_iff using xs n by auto
  let ?r = "\<lparr>bi_digits = map Some xs, bi_num_digits = n, bi_num_allocated = n, bi_is_negative = v < 0\<rparr>"
  have "int_new v = Inr ?r" unfolding int_new_def Let_def u rbind_simps n(1) xs(1) ..
  moreover have "mag ?r xs" unfolding mag_def using c xs(2) by (simp add: holds_def)
  ultimately show ?thesis using that [of ?r xs] v m(2) n(3) xs(2) by simp
qed

end
