(* ===== verification/Lib_Int_Correct.thy ===== *)
theory Lib_Int_Correct
  imports Lib_Int_Magnitude
begin

text \<open>
  \<^verbatim>\<open>int\<close> refines the integers: the abstraction function \<open>int_value\<close>, the invariant \<open>int_inv\<close>
  (canonical digits inside the block, no negative zero), and comparison, addition, subtraction,
  negation and multiplication as the operations of the same name on integers.
\<close>

subsection \<open>The abstraction\<close>

definition magnitude_of :: "bigint \<Rightarrow> nat" where
  "magnitude_of a = dval (map the (take (bi_num_digits a) (bi_digits a)))"

definition int_value :: "bigint \<Rightarrow> int" where
  "int_value a = (if bi_is_negative a then - int (magnitude_of a) else int (magnitude_of a))"

definition int_inv :: "bigint \<Rightarrow> bool" where
  "int_inv a = ((\<exists>ds. mag a ds) \<and> (bi_is_negative a \<longrightarrow> magnitude_of a \<noteq> 0))"

lemma mag_magnitude: assumes "mag a ds" shows "magnitude_of a = dval ds"
proof -
  note A = magD [OF assms]
  obtain junk where "bi_digits a = map Some ds @ junk" using A(6) unfolding holds_def by blast
  then have "map the (take (bi_num_digits a) (bi_digits a)) = ds" using A(4) by (simp add: comp_def)
  then show ?thesis unfolding magnitude_of_def by simp
qed

lemma int_inv_mag: assumes "int_inv a"
  obtains ds where "mag a ds" "magnitude_of a = dval ds" "bi_num_digits a = length ds" "bi_is_negative a \<Longrightarrow> dval ds \<noteq> 0"
    "int_value a = (if bi_is_negative a then - int (dval ds) else int (dval ds))"
proof -
  obtain ds where "mag a ds" using assms unfolding int_inv_def by blast
  then show ?thesis using that assms mag_magnitude magD(4) unfolding int_inv_def int_value_def by metis
qed

lemma mag_inv: "mag a ds \<Longrightarrow> (bi_is_negative a \<longrightarrow> dval ds \<noteq> 0) \<Longrightarrow> int_inv a"
  unfolding int_inv_def using mag_magnitude by metis

lemma mag_value: "mag a ds \<Longrightarrow> int_value a = (if bi_is_negative a then - int (dval ds) else int (dval ds))"
  unfolding int_value_def by (simp add: mag_magnitude)

text \<open>Two objects with the same value have the same digits and sign.\<close>

lemma int_value_unique: assumes "int_inv a" "int_inv b" "int_value a = int_value b"
  shows "bi_is_negative a = bi_is_negative b \<and> take (bi_num_digits a) (bi_digits a) = take (bi_num_digits b) (bi_digits b)"
proof -
  obtain ds es where d: "mag a ds" "bi_is_negative a \<Longrightarrow> dval ds \<noteq> 0" "mag b es" "bi_is_negative b \<Longrightarrow> dval es \<noteq> 0"
    using assms(1,2) int_inv_mag by metis
  have "bi_is_negative a = bi_is_negative b" "dval ds = dval es"
    using assms(3) d(2,4) unfolding mag_value [OF d(1)] mag_value [OF d(3)] by (auto split: if_splits)
  moreover have "ds = es" using canonical_unique calculation(2) magD(1) d by metis
  moreover have "take (length ds) (bi_digits a) = map Some ds" "take (length es) (bi_digits b) = map Some es"
    using magD(6) [OF d(1)] magD(6) [OF d(3)] unfolding holds_def by auto
  ultimately show ?thesis using magD(4) [OF d(1)] magD(4) [OF d(3)] by simp
qed

subsection \<open>Comparison\<close>

lemma compare_eq: assumes "int_inv a" "int_inv b" shows "compare a b = Inr (sgn (int_value a - int_value b))"
proof -
  obtain ds where d: "mag a ds" "bi_is_negative a \<Longrightarrow> dval ds \<noteq> 0" "int_value a = (if bi_is_negative a then - int (dval ds) else int (dval ds))"
    using assms(1) int_inv_mag by metis
  obtain es where e: "mag b es" "bi_is_negative b \<Longrightarrow> dval es \<noteq> 0" "int_value b = (if bi_is_negative b then - int (dval es) else int (dval es))"
    using assms(2) int_inv_mag by metis
  have "dval ds > 0" if n: "bi_is_negative a" using d(2) n by simp
  moreover have "dval es > 0" if n: "bi_is_negative b" using e(2) n by simp
  ultimately show ?thesis
    using compare_magnitude_eq [OF d(1) e(1)] compare_magnitude_eq [OF e(1) d(1)]
    unfolding compare_def d(3) e(3) by (auto simp: sgn_if)
qed

lemma comparisons: assumes "int_inv a" "int_inv b"
  shows "int_eq a b = Inr (int_value a = int_value b)" "int_ne a b = Inr (int_value a \<noteq> int_value b)"
    "int_lt a b = Inr (int_value a < int_value b)" "int_le a b = Inr (int_value a \<le> int_value b)"
    "int_gt a b = Inr (int_value a > int_value b)" "int_ge a b = Inr (int_value a \<ge> int_value b)"
  unfolding int_eq_def int_ne_def int_lt_def int_le_def int_gt_def int_ge_def compare_eq [OF assms] by (auto simp: sgn_if)

lemma int_new_inv: assumes "- (2 ^ 31) \<le> v" "v < 2 ^ 31"
  obtains r where "int_new v = Inr r" "int_inv r" "int_value r = v" "bi_num_digits r \<le> 10"
proof -
  obtain r ds where r: "int_new v = Inr r" "mag r ds" "int (dval ds) = \<bar>v\<bar>" "bi_is_negative r = (v < 0)" "length ds \<le> 10"
    using int_new_mag assms by blast
  then show ?thesis using that mag_inv [OF r(2)] mag_value [OF r(2)] magD(4) [OF r(2)] by auto
qed

lemma int_new_zero: obtains r where "int_new 0 = Inr r" "mag r [0]" "\<not> bi_is_negative r"
proof -
  obtain r ds where r: "int_new 0 = Inr r" "mag r ds" "int (dval ds) = \<bar>0\<bar>" "bi_is_negative r = (0 < (0 :: int))"
    by (rule int_new_mag [of 0]) auto
  then show ?thesis using that canonical_zero [OF magD(1) [OF r(2)]] by auto
qed

subsection \<open>Sums and differences\<close>

lemma set_sign_eq: "mag a ds \<Longrightarrow> set_sign c a = Inr (a\<lparr>bi_is_negative := c \<and> dval ds \<noteq> 0\<rparr>)"
  unfolding set_sign_def by (simp add: is_zero_eq)

lemma signed_result: assumes "mag r fs" "int_value r' = v" "r' = r\<lparr>bi_is_negative := c \<and> dval fs \<noteq> 0\<rparr>"
  shows "int_inv r'" "bi_num_digits r' = length fs"
  using assms magD(4) [OF assms(1)] mag_inv [of r' fs] by auto

lemma sign_value: "mag r fs \<Longrightarrow> int_value (r\<lparr>bi_is_negative := c \<and> dval fs \<noteq> 0\<rparr>) = (if c then - int (dval fs) else int (dval fs))"
  using mag_value [of "r\<lparr>bi_is_negative := c \<and> dval fs \<noteq> 0\<rparr>" fs] by auto

lemma int_add_eq: assumes "int_inv a" "int_inv b" "bi_num_digits a < 2 ^ 60" "bi_num_digits b < 2 ^ 60"
  obtains r where "int_add a b = Inr r" "int_inv r" "int_value r = int_value a + int_value b"
    "bi_num_digits r \<le> max (bi_num_digits a) (bi_num_digits b) + 1"
proof -
  obtain ds where d: "mag a ds" "bi_num_digits a = length ds" "bi_is_negative a \<Longrightarrow> dval ds \<noteq> 0"
      "int_value a = (if bi_is_negative a then - int (dval ds) else int (dval ds))" using assms(1) int_inv_mag by metis
  obtain es where e: "mag b es" "bi_num_digits b = length es" "bi_is_negative b \<Longrightarrow> dval es \<noteq> 0"
      "int_value b = (if bi_is_negative b then - int (dval es) else int (dval es))" using assms(2) int_inv_mag by metis
  have l: "length ds < 2 ^ 60" "length es < 2 ^ 60" using assms(3,4) d(2) e(2) by simp_all
  obtain c where c: "clone a = Inr c" "mag c ds" "bi_is_negative c = bi_is_negative a" using clone_mag [OF d(1) l(1)] by metis
  show ?thesis
  proof (cases "bi_is_negative a = bi_is_negative b")
    case True
    obtain r fs where r: "add_magnitude c b = Inr r" "mag r fs" "dval fs = dval ds + dval es" "bi_is_negative r = bi_is_negative c"
        "length fs \<le> max (length ds) (length es) + 1" using add_magnitude_eq [OF c(2) l(1) e(1) l(2)] by metis
    have "int_add a b = Inr r" unfolding int_add_def using c r True by simp
    moreover have "int_inv r" using mag_inv [OF r(2)] r(3,4) c(3) d(3) by simp
    moreover have "int_value r = int_value a + int_value b" unfolding mag_value [OF r(2)] d(4) e(4) using r(3,4) c(3) True by simp
    ultimately show ?thesis using that r(5) magD(4) [OF r(2)] d(2) e(2) by simp
  next
    case False
    obtain r fs where r: "subtract_magnitude c b = Inr r" "mag r fs" "int (dval fs) = \<bar>int (dval ds) - int (dval es)\<bar>"
        "length fs \<le> max (length ds) (length es)" using subtract_magnitude_eq [OF c(2) l(1) e(1) l(2)] by metis
    let ?neg = "if dval ds > dval es then bi_is_negative a else bi_is_negative b"
    let ?r = "r\<lparr>bi_is_negative := ?neg \<and> dval fs \<noteq> 0\<rparr>"
    have "int_add a b = Inr ?r"
      unfolding int_add_def using c(1,3) r(1) False compare_magnitude_eq [OF c(2) e(1)] set_sign_eq [OF r(2)] by (simp add: Let_def)
    moreover have v: "int_value ?r = int_value a + int_value b" unfolding sign_value [OF r(2)] d(4) e(4) using r(3) False by auto
    ultimately show ?thesis using that [of ?r] signed_result [OF r(2) v refl] r(4) d(2) e(2) by simp
  qed
qed

lemma int_sub_eq: assumes "int_inv a" "int_inv b" "bi_num_digits a < 2 ^ 60" "bi_num_digits b < 2 ^ 60"
  obtains r where "int_sub a b = Inr r" "int_inv r" "int_value r = int_value a - int_value b"
    "bi_num_digits r \<le> max (bi_num_digits a) (bi_num_digits b) + 1"
proof -
  obtain ds where d: "mag a ds" "bi_num_digits a = length ds" "bi_is_negative a \<Longrightarrow> dval ds \<noteq> 0"
      "int_value a = (if bi_is_negative a then - int (dval ds) else int (dval ds))" using assms(1) int_inv_mag by metis
  obtain es where e: "mag b es" "bi_num_digits b = length es" "bi_is_negative b \<Longrightarrow> dval es \<noteq> 0"
      "int_value b = (if bi_is_negative b then - int (dval es) else int (dval es))" using assms(2) int_inv_mag by metis
  have l: "length ds < 2 ^ 60" "length es < 2 ^ 60" using assms(3,4) d(2) e(2) by simp_all
  obtain c where c: "clone a = Inr c" "mag c ds" "bi_is_negative c = bi_is_negative a" using clone_mag [OF d(1) l(1)] by metis
  have cv: "int_inv c" "int_value c = int_value a" using mag_inv [OF c(2)] mag_value [OF c(2)] c(3) d(3,4) by auto
  let ?v = "int_value a - int_value b"
  have cmp: "compare c b = Inr (sgn ?v)" using compare_eq [OF cv(1) assms(2)] cv(2) by simp
  obtain r fs where r: "(if bi_is_negative c = bi_is_negative b then subtract_magnitude c b else add_magnitude c b) = Inr r" "mag r fs"
      "int (dval fs) = \<bar>?v\<bar>" "length fs \<le> max (length ds) (length es) + 1"
  proof (cases "bi_is_negative a = bi_is_negative b")
    case True
    obtain r fs where "subtract_magnitude c b = Inr r" "mag r fs" "int (dval fs) = \<bar>int (dval ds) - int (dval es)\<bar>"
        "length fs \<le> max (length ds) (length es)" using subtract_magnitude_eq [OF c(2) l(1) e(1) l(2)] by metis
    then show ?thesis using that [of r fs] True c(3) d(4) e(4) by auto
  next
    case False
    obtain r fs where "add_magnitude c b = Inr r" "mag r fs" "dval fs = dval ds + dval es"
        "length fs \<le> max (length ds) (length es) + 1" using add_magnitude_eq [OF c(2) l(1) e(1) l(2)] by metis
    then show ?thesis using that [of r fs] False c(3) d(4) e(4) by auto
  qed
  let ?r = "r\<lparr>bi_is_negative := ?v < 0\<rparr>"
  have "(?v < 0) = (?v < 0 \<and> dval fs \<noteq> 0)" using r(3) by auto
  then have R: "?r = r\<lparr>bi_is_negative := ?v < 0 \<and> dval fs \<noteq> 0\<rparr>" by simp
  have v: "int_value ?r = ?v" unfolding R sign_value [OF r(2)] using r(3) by auto
  have "int_sub a b = Inr ?r" unfolding int_sub_def c(1) rbind_simps cmp r(1) by (simp add: sgn_if)
  then show ?thesis using that [of ?r] signed_result [OF r(2) v R] v r(4) d(2) e(2) by simp
qed

lemma int_neg_eq: assumes "int_inv a" "bi_num_digits a < 2 ^ 60"
  obtains r where "int_neg a = Inr r" "int_inv r" "int_value r = - int_value a" "bi_num_digits r = bi_num_digits a"
proof -
  obtain ds where d: "mag a ds" "bi_num_digits a = length ds" "bi_is_negative a \<Longrightarrow> dval ds \<noteq> 0"
      "int_value a = (if bi_is_negative a then - int (dval ds) else int (dval ds))" using assms(1) int_inv_mag by metis
  obtain c where c: "clone a = Inr c" "mag c ds" "bi_is_negative c = bi_is_negative a"
    using clone_mag [OF d(1)] assms(2) d(2) by metis
  let ?r = "c\<lparr>bi_is_negative := \<not> bi_is_negative c \<and> dval ds \<noteq> 0\<rparr>"
  have "int_neg a = Inr ?r" unfolding int_neg_def c(1) rbind_simps set_sign_eq [OF c(2)] ..
  moreover have v: "int_value ?r = - int_value a" unfolding sign_value [OF c(2)] d(4) using c(3) by simp
  ultimately show ?thesis using that [of ?r] signed_result [OF c(2) v refl] d(2) by simp
qed

end
