(* ===== verification/Lib_Int_Products.thy ===== *)
theory Lib_Int_Products
  imports Lib_Int_Correct
begin

text \<open>
  The product and the long division of \<^verbatim>\<open>int\<close>: school multiplication digit by digit, and division
  by means of the nine multiples of the divisor, which truncates towards zero.
\<close>

subsection \<open>Multiplication\<close>

definition mul_state :: "nat list \<Rightarrow> nat \<Rightarrow> nat \<Rightarrow> nat \<Rightarrow> nat \<Rightarrow> mem \<Rightarrow> nat list \<Rightarrow> bool" where
  "mul_state es d i j carry m zs =
     (holds m zs \<and> digits zs \<and> carry \<le> 9 \<and> i + length es \<le> length zs
      \<and> dval zs + (d * dval (drop j es) + carry) * 10 ^ (i + j) < 10 ^ length zs)"

lemma carry_room: assumes "0 < c" "z + (x + c) * 10 ^ k < (10 :: nat) ^ n" shows "k < n"
proof -
  have "1 * 10 ^ k \<le> (x + c) * 10 ^ k" using assms(1) by (intro mult_right_mono) auto
  then have "(10 :: nat) ^ k < 10 ^ n" using assms(2) by linarith
  then show ?thesis by simp
qed

lemma mul_inner_eq: assumes b: "holds od es" "digits es" and d: "d < 10" and zl: "length zs < 2 ^ 62"
  shows "mul_state es d i j carry m zs \<Longrightarrow>
    \<exists>m' zs'. mul_inner od (length es) d i j carry m = Inr m' \<and> holds m' zs' \<and> digits zs' \<and> length zs' = length zs \<and> length m' = length m
      \<and> dval zs' = dval zs + (d * dval (drop j es) + carry) * 10 ^ (i + j)"
  using zl
proof (induction "length zs - (i + j)" arbitrary: m zs j carry rule: less_induct)
  case less
  note S = less.prems(1) [unfolded mul_state_def]
  show ?case
  proof (cases "j < length es \<or> 0 < carry")
    case False
    then have "mul_inner od (length es) d i j carry m = Inr m" by (subst mul_inner.simps) simp
    then show ?thesis using S False by (intro exI [of _ m] exI [of _ zs]) simp
  next
    case True
    have k: "i + j < length zs"
    proof (cases "j < length es")
      case False
      then show ?thesis using True S carry_room [of carry "dval zs" "d * dval (drop j es)" "i + j" "length zs"] by blast
    qed (use S in linarith)
    define od' r t m2 zs2 where defs: "od' = (if j < length es then es ! j else 0)" "r = zs ! (i + j)" "t = r + d * od' + carry"
      "m2 = m[i + j := Some (t mod 10)]" "zs2 = zs[i + j := t mod 10]"
    have r10: "r < 10" unfolding defs using S nth_mem [OF k] by blast
    have o10: "od' < 10" unfolding defs using b(2) nth_mem [of j es] by auto
    have "d * od' \<le> 9 * 9" using d o10 by (intro mult_mono) auto
    then have t: "d * od' < 2 ^ 16" "r + d * od' < 2 ^ 16" "t < 100" "t < 2 ^ 16" using r10 S unfolding defs(3) by simp_all
    have ld: "(if j < length es then load j od else Inr 0) = Inr od'" "load (i + j) m = Inr r"
      unfolding defs using holds_load [OF b(1)] holds_load [OF conjunct1 [OF S] k] by simp_all
    have c: "u16_of mul_msg (d * od') = Inr (d * od')" "u16_of mul_msg (r + d * od') = Inr (r + d * od')"
      "u16_of mul_msg (r + d * od' + carry) = Inr t" "u8_of mul_msg (int (t mod 10)) = Inr (t mod 10)"
      using t unfolding u16_of_def u8_of_def defs(3) by simp_all
    have ib: "i + j < length m" "i + j < 18446744073709551616" "j + 1 < 18446744073709551616"
      using k holds_length [OF conjunct1 [OF S]] less.prems(2) by simp_all
    have step: "mul_inner od (length es) d i j carry m = mul_inner od (length es) d i (j + 1) (t div 10) m2"
      unfolding mul_inner.simps [of od "length es" d i j] if_P [OF True] ld rbind_simps fits_small [OF ib(2)] c store_ok [OF ib(1)]
        fits_small [OF ib(3)] defs(4) ..
    have dr: "dval (drop j es) = od' + 10 * dval (drop (j + 1) es)" using dval_drop [of j es] unfolding defs(1) by simp
    have val: "dval zs2 + (d * dval (drop (j + 1) es) + t div 10) * 10 ^ (i + (j + 1))
        = dval zs + (d * dval (drop j es) + carry) * 10 ^ (i + j)"
    proof -
      define Q D where "Q = (10 :: nat) ^ (i + j)" and "D = dval (drop (j + 1) es)"
      have "dval zs2 + r * Q = dval zs + t mod 10 * Q" using dval_update [OF k] unfolding defs(2,5) Q_def .
      moreover have "t mod 10 * Q + t div 10 * (10 * Q) = t * Q"
      proof -
        have "t mod 10 * Q + t div 10 * (10 * Q) = (t mod 10 + 10 * (t div 10)) * Q" by (simp only: algebra_simps)
        also have "t mod 10 + 10 * (t div 10) = t" by simp
        finally show ?thesis .
      qed
      moreover have "t * Q = r * Q + d * od' * Q + carry * Q" unfolding defs(3) by (simp add: algebra_simps)
      moreover have "(d * D + t div 10) * (10 * Q) = 10 * (d * D * Q) + t div 10 * (10 * Q)" by (simp add: algebra_simps)
      moreover have "(d * (od' + 10 * D) + carry) * Q = d * od' * Q + 10 * (d * D * Q) + carry * Q" by (simp add: algebra_simps)
      ultimately have "dval zs2 + (d * D + t div 10) * (10 * Q) = dval zs + (d * (od' + 10 * D) + carry) * Q" by linarith
      then show ?thesis unfolding dr Q_def D_def by simp
    qed
    have h: "holds m2 zs2" unfolding defs(4,5) using holds_update conjunct1 [OF S] k by blast
    have dg: "digits zs2" unfolding defs(5) using S by (auto dest!: set_update_subset_insert [THEN subsetD])
    have c9: "t div 10 \<le> 9" using t(3) by simp
    have len2: "length zs2 = length zs" "length m2 = length m" unfolding defs(4,5) by simp_all
    have "mul_state es d i (j + 1) (t div 10) m2 zs2"
      unfolding mul_state_def val len2 by (intro conjI h dg c9) (use S in blast)+
    moreover have "length zs2 - (i + (j + 1)) < length zs - (i + j)" using k len2 by linarith
    ultimately obtain m' zs' where "mul_inner od (length es) d i (j + 1) (t div 10) m2 = Inr m'" "holds m' zs'" "digits zs'"
        "length zs' = length zs2" "length m' = length m2" "dval zs' = dval zs2 + (d * dval (drop (j + 1) es) + t div 10) * 10 ^ (i + (j + 1))"
      using less.hyps less.prems(2) len2(1) by metis
    then show ?thesis unfolding step using val len2 by metis
  qed
qed

lemma mul_outer_eq: assumes a: "mag a ds" and b: "mag b es" and zl: "length zs < 2 ^ 62" "length ds + length es \<le> length zs"
  shows "i \<le> length ds \<Longrightarrow> holds m zs \<Longrightarrow> digits zs \<Longrightarrow> dval zs + dval (drop i ds) * dval es * 10 ^ i < 10 ^ length zs \<Longrightarrow>
    \<exists>m' zs'. mul_outer a b i m = Inr m' \<and> holds m' zs' \<and> digits zs' \<and> length zs' = length zs \<and> length m' = length m
      \<and> dval zs' = dval zs + dval (drop i ds) * dval es * 10 ^ i"
  using zl
proof (induction "length ds - i" arbitrary: i m zs)
  case 0
  then have "mul_outer a b i m = Inr m" using magD(4) [OF a] by (subst mul_outer.simps) simp
  then show ?case using 0 by (intro exI [of _ m] exI [of _ zs]) simp
next
  case (Suc k)
  note A = magD [OF a] and B = magD [OF b]
  have i: "i < length ds" using Suc.hyps(2) by simp
  have ib: "i + 1 < 18446744073709551616" using i Suc.prems by simp
  have d10: "ds ! i < 10" using A(3) nth_mem [OF i] by blast
  have dr: "dval (drop i ds) = ds ! i + 10 * dval (drop (i + 1) ds)" using dval_drop [OF i] by simp
  have split: "dval zs + dval (drop i ds) * dval es * 10 ^ i
      = dval zs + (ds ! i * dval (drop 0 es) + 0) * 10 ^ (i + 0) + dval (drop (i + 1) ds) * dval es * 10 ^ (i + 1)"
    unfolding dr by (simp add: algebra_simps)
  have "i + length es \<le> length zs" using i Suc.prems(6) by linarith
  then have "mul_state es (ds ! i) i 0 0 m zs" unfolding mul_state_def using Suc.prems(2-4) split by simp
  then obtain m1 zs1 where m1: "mul_inner (bi_digits b) (length es) (ds ! i) i 0 0 m = Inr m1" "holds m1 zs1" "digits zs1"
      "length zs1 = length zs" "length m1 = length m" "dval zs1 = dval zs + (ds ! i * dval (drop 0 es) + 0) * 10 ^ (i + 0)"
    using mul_inner_eq [OF B(6,3) d10 Suc.prems(5)] by blast
  have ld: "(if length es > 0 then load i (bi_digits a) else Inr 0) = Inr (ds ! i)" using holds_load [OF A(6) i] B by simp
  have cnd: "i < bi_num_digits a" using i A(4) by simp
  have step: "mul_outer a b i m = mul_outer a b (i + 1) m1"
    unfolding mul_outer.simps [of a b i m] if_P [OF cnd] ld rbind_simps B(4) m1(1) fits_small [OF ib] ..
  have val: "dval zs + dval (drop i ds) * dval es * 10 ^ i = dval zs1 + dval (drop (i + 1) ds) * dval es * 10 ^ (i + 1)"
    using split m1(6) by simp
  have "\<exists>m' zs'. mul_outer a b (i + 1) m1 = Inr m' \<and> holds m' zs' \<and> digits zs' \<and> length zs' = length zs1 \<and> length m' = length m1
      \<and> dval zs' = dval zs1 + dval (drop (i + 1) ds) * dval es * 10 ^ (i + 1)"
    using Suc.hyps(2) i m1 Suc.prems val by (intro Suc.hyps(1)) simp_all
  then show ?case unfolding step val using m1(4,5) by simp
qed

lemma zero_fill_eq: "i \<le> n \<Longrightarrow> n < 2 ^ 62 \<Longrightarrow> n \<le> length m \<Longrightarrow> holds m (replicate i 0) \<Longrightarrow>
    \<exists>m'. zero_fill i n m = Inr m' \<and> holds m' (replicate n 0) \<and> length m' = length m"
proof (induction "n - i" arbitrary: i m)
  case 0
  then show ?case by (subst zero_fill.simps) simp
next
  case (Suc k)
  have i: "i < n" "i < length m" "i + 1 < 18446744073709551616" using Suc.hyps(2) Suc.prems by simp_all
  have "holds (m[i := Some 0]) (replicate i 0 @ [0])" using holds_extend [OF Suc.prems(4), of 0] i by simp
  then have "holds (m[i := Some 0]) (replicate (i + 1) 0)" by (simp add: replicate_append_same)
  then have "\<exists>m'. zero_fill (i + 1) n (m[i := Some 0]) = Inr m' \<and> holds m' (replicate n 0) \<and> length m' = length (m[i := Some 0])"
    using Suc.hyps(2) Suc.prems i by (intro Suc.hyps(1)) simp_all
  then show ?case unfolding zero_fill.simps [of i n m] if_P [OF i(1)] store_ok [OF i(2)] rbind_simps fits_small [OF i(3)] by simp
qed

lemma int_mul_eq: assumes "int_inv a" "int_inv b" "bi_num_digits a < 2 ^ 60" "bi_num_digits b < 2 ^ 60"
  obtains r where "int_mul a b = Inr r" "int_inv r" "int_value r = int_value a * int_value b"
    "bi_num_digits r \<le> bi_num_digits a + bi_num_digits b"
proof -
  obtain ds where d: "mag a ds" "bi_num_digits a = length ds" "int_value a = (if bi_is_negative a then - int (dval ds) else int (dval ds))"
    using assms(1) int_inv_mag by metis
  obtain es where e: "mag b es" "bi_num_digits b = length es" "int_value b = (if bi_is_negative b then - int (dval es) else int (dval es))"
    using assms(2) int_inv_mag by metis
  let ?cap = "length ds + length es + 1"
  have l: "length ds < 2 ^ 60" "length es < 2 ^ 60" using assms(3,4) d(2) e(2) by simp_all
  then have cap: "?cap < 2 ^ 62" "length ds + length es < 18446744073709551616" "?cap < 18446744073709551616" by simp_all
  have bound: "dval ds * dval es < 10 ^ (length ds + length es)"
    unfolding power_add using dval_bound [OF magD(3) [OF d(1)]] dval_bound [OF magD(3) [OF e(1)]] by (intro mult_strict_mono') simp_all
  obtain z where z: "int_new 0 = Inr z" "mag z [0]" "\<not> bi_is_negative z" using int_new_zero by blast
  obtain r where r: "ensure_digits z ?cap = Inr r" "mag r [0]" "?cap \<le> length (bi_digits r)"
    using ensure_digits_mag [OF z(2)] by (metis length_Cons list.size(3) one_less_numeral_iff one_less_power semiring_norm(76) zero_less_numeral One_nat_def)
  obtain m where m: "zero_fill 0 ?cap (bi_digits r) = Inr m" "holds m (replicate ?cap 0)" "length m = length (bi_digits r)"
    using zero_fill_eq [of 0 ?cap "bi_digits r"] cap(1) r(3) by (auto simp: holds_def)
  have "dval ds * dval es < 10 ^ ?cap" using bound by simp
  then obtain m' zs where z': "mul_outer a b 0 m = Inr m'" "holds m' zs" "digits zs" "length zs = ?cap" "length m' = length m" "dval zs = dval ds * dval es"
    using mul_outer_eq [OF d(1) e(1), of "replicate ?cap 0" 0 m] m cap(1) by auto
  let ?n = "trim zs (length zs)" and ?c = "bi_is_negative a \<noteq> bi_is_negative b"
  let ?r = "r\<lparr>bi_digits := m', bi_num_digits := ?n\<rparr>" and ?fs = "take (trim zs (length zs)) zs"
  have tl: "trim_loop m' ?cap = Inr ?n" using trim_loop_eq [OF z'(2), of ?cap] z'(4) by simp
  have n: "?n \<le> length zs" by (rule trim_le)
  have ne: "zs \<noteq> []" using z'(4) by auto
  have M: "mag ?r ?fs" unfolding mag_def using trim_canonical [OF ne z'(3)] n magD(5) [OF r(2)] m(3) z'(5) holds_take [OF z'(2)] by simp
  have v: "dval ?fs = dval ds * dval es" using trim_dval [of "length zs" zs] z'(6) by simp
  have "length ?fs \<le> length ds + length es"
    using canonical_length_bound [OF magD(1) [OF M]] bound v magD(8) [OF d(1)] by simp
  moreover have "int_mul a b = Inr (?r\<lparr>bi_is_negative := ?c \<and> dval ?fs \<noteq> 0\<rparr>)"
    unfolding int_mul_def Let_def z(1) rbind_simps d(2) e(2) fits_small [OF cap(2)] fits_small [OF cap(3)] r(1) m(1) z'(1) tl
    by (rule set_sign_eq [OF M])
  moreover have "int_value (?r\<lparr>bi_is_negative := ?c \<and> dval ?fs \<noteq> 0\<rparr>) = (if ?c then - int (dval ?fs) else int (dval ?fs))"
    by (rule sign_value [OF M])
  then have V: "int_value (?r\<lparr>bi_is_negative := ?c \<and> dval ?fs \<noteq> 0\<rparr>) = int_value a * int_value b"
    unfolding v d(3) e(3) by simp
  ultimately show ?thesis using that signed_result [OF M V refl] d(2) e(2) by simp
qed

subsection \<open>Division\<close>

lemma canonical_le_length: "canonical xs \<Longrightarrow> canonical ys \<Longrightarrow> dval xs \<le> dval ys \<Longrightarrow> length xs \<le> length ys"
  using canonical_length_less [of ys xs] by (meson not_le)

text \<open>The list holds the multiples of the divisor.\<close>

definition multiples_ok :: "nat \<Rightarrow> nat \<Rightarrow> bigint list \<Rightarrow> bool" where
  "multiples_ok B L ms = (\<forall>j < length ms. \<exists>cs. mag (ms ! j) cs \<and> dval cs = (j + 1) * B \<and> length cs \<le> L)"

lemma multiples_loop_eq: assumes b: "mag base bs" and L: "length bs + 1 < 2 ^ 60"
  shows "1 \<le> k \<Longrightarrow> k \<le> 9 \<Longrightarrow> length ms = k \<Longrightarrow> multiples_ok (dval bs) (length bs + 1) ms \<Longrightarrow>
    \<exists>ms'. multiples_loop base k ms = Inr ms' \<and> length ms' = 9 \<and> multiples_ok (dval bs) (length bs + 1) ms'"
proof (induction "9 - k" arbitrary: k ms)
  case 0
  then show ?case by (subst multiples_loop.simps) simp
next
  case (Suc n)
  have k: "k < 9" "k - 1 < length ms" using Suc.hyps(2) Suc.prems by simp_all
  obtain cs where cs: "mag (ms ! (k - 1)) cs" "dval cs = k * dval bs" "length cs \<le> length bs + 1"
    using Suc.prems(4) [unfolded multiples_ok_def, rule_format, OF k(2)] Suc.prems(1) by auto
  have l: "length cs < 2 ^ 60" "length bs < 2 ^ 60" using cs(3) L by linarith+
  obtain c where c: "clone (ms ! (k - 1)) = Inr c" "mag c cs" using clone_mag [OF cs(1) l(1)] by metis
  obtain r fs where r: "add_magnitude c base = Inr r" "mag r fs" "dval fs = dval cs + dval bs"
    using add_magnitude_eq [OF c(2) l(1) b l(2)] by metis
  have v: "dval fs = (k + 1) * dval bs" using r(3) cs(2) by simp
  have "dval fs < 10 ^ (length bs + 1)"
  proof -
    have "dval bs < 10 ^ length bs" using dval_bound magD(3) [OF b] by blast
    moreover have "(k + 1) * dval bs \<le> 10 * dval bs" using k(1) by (intro mult_right_mono) auto
    ultimately show ?thesis unfolding v power_add power_one_right by linarith
  qed
  then have len: "length fs \<le> length bs + 1" using canonical_length_bound magD(1) [OF r(2)] by simp
  have ok: "multiples_ok (dval bs) (length bs + 1) (ms @ [r])"
    unfolding multiples_ok_def
  proof (intro allI impI)
    fix j assume j: "j < length (ms @ [r])"
    show "\<exists>cs. mag ((ms @ [r]) ! j) cs \<and> dval cs = (j + 1) * dval bs \<and> length cs \<le> length bs + 1"
    proof (cases "j < length ms")
      case True
      then show ?thesis using Suc.prems(4) unfolding multiples_ok_def by (simp add: nth_append)
    next
      case False
      then have "j = k" using j Suc.prems(3) by simp
      moreover have "(ms @ [r]) ! k = r" using nth_append_length [of ms r "[]"] Suc.prems(3) by simp
      ultimately show ?thesis using r(2) v len by (intro exI [of _ fs]) simp
    qed
  qed
  have "\<exists>ms'. multiples_loop base (k + 1) (ms @ [r]) = Inr ms' \<and> length ms' = 9 \<and> multiples_ok (dval bs) (length bs + 1) ms'"
    using Suc.hyps(2) Suc.prems k ok by (intro Suc.hyps(1)) simp_all
  moreover have "list_get mult_msg (k - 1) ms = Inr (ms ! (k - 1))" using k(2) by simp
  ultimately show ?case unfolding multiples_loop.simps [of base k ms] if_P [OF k(1)] by (simp only: rbind_simps c(1) r(1))
qed

lemma div_mod_eq: "d * B \<le> R \<Longrightarrow> R < Suc d * B \<Longrightarrow> R div B = d \<and> R mod B = R - d * (B :: nat)"
  by (metis div_nat_eqI mult.commute minus_mult_div_eq_mod)

lemma pick_digit_eq: assumes ok: "multiples_ok B L ms" "length ms = 9" "L < 2 ^ 60"
  shows "d \<le> 9 \<Longrightarrow> mag r rs \<Longrightarrow> length rs < 2 ^ 60 \<Longrightarrow> \<not> bi_is_negative r \<Longrightarrow> dval rs < Suc d * B \<Longrightarrow>
    \<exists>r' rs'. pick_digit ms d r = Inr (dval rs div B, r') \<and> mag r' rs' \<and> dval rs' = dval rs mod B \<and> \<not> bi_is_negative r'"
proof (induction d)
  case 0
  then show ?case by (intro exI [of _ r] exI [of _ rs]) simp
next
  case (Suc d)
  have "d < length ms" using Suc.prems(1) ok(2) by simp
  then obtain cs where cs: "mag (ms ! d) cs" "dval cs = (d + 1) * B" "length cs \<le> L" using ok(1) unfolding multiples_ok_def by blast
  have g: "list_get mult_msg d ms = Inr (ms ! d)" using \<open>d < length ms\<close> by simp
  note cmp = compare_magnitude_eq [OF Suc.prems(2) cs(1)]
  show ?case
  proof (cases "dval cs \<le> dval rs")
    case True
    obtain r' rs' where r': "subtract_magnitude r (ms ! d) = Inr r'" "mag r' rs'" "int (dval rs') = \<bar>int (dval rs) - int (dval cs)\<bar>"
        "bi_is_negative r' = bi_is_negative r"
      using subtract_magnitude_eq [OF Suc.prems(2,3) cs(1)] cs(3) ok(3) by (metis le_less_trans)
    have qr: "dval rs div B = Suc d \<and> dval rs mod B = dval rs - Suc d * B"
      using div_mod_eq [of "Suc d" B "dval rs"] True cs(2) Suc.prems(5) by simp
    have "dval rs' = dval rs - dval cs" using r'(3) True by linarith
    then have "dval rs' = dval rs mod B" using qr cs(2) by simp
    moreover have "u8_of msg (int (Suc d)) = Inr (Suc d)" for msg using Suc.prems(1) unfolding u8_of_def by simp
    ultimately show ?thesis using g cmp True r' qr Suc.prems(4) by (intro exI [of _ r'] exI [of _ rs']) (simp add: sgn_if)
  next
    case False
    then have "dval rs < Suc d * B" using cs(2) by simp
    then have "\<exists>r' rs'. pick_digit ms d r = Inr (dval rs div B, r') \<and> mag r' rs' \<and> dval rs' = dval rs mod B \<and> \<not> bi_is_negative r'"
      using Suc by simp
    then show ?thesis using g cmp False by (simp add: sgn_if)
  qed
qed

lemma divmod_loop_eq: assumes ok: "multiples_ok (dval bs) (length bs + 1) ms" "length ms = 9" "length bs + 1 < 2 ^ 60"
    and b: "canonical bs" "0 < dval bs" and m: "holds m ds" "digits ds"
  shows "i \<le> length ds \<Longrightarrow> mag q qs \<Longrightarrow> length qs + i < 2 ^ 60 \<Longrightarrow> mag r rs \<Longrightarrow> dval rs < dval bs \<Longrightarrow> \<not> bi_is_negative q \<Longrightarrow> \<not> bi_is_negative r \<Longrightarrow>
    \<exists>q' qs' r' rs'. divmod_loop ms m i q r = Inr (q', r') \<and> mag q' qs' \<and> mag r' rs'
      \<and> dval qs' = dval qs * 10 ^ i + (dval rs * 10 ^ i + dval (take i ds)) div dval bs
      \<and> dval rs' = (dval rs * 10 ^ i + dval (take i ds)) mod dval bs \<and> length qs' \<le> length qs + i"
proof (induction i arbitrary: q qs r rs)
  case 0
  then show ?case by (intro exI [of _ q] exI [of _ qs] exI [of _ r] exI [of _ rs]) simp
next
  case (Suc i)
  let ?B = "dval bs"
  have i: "i < length ds" using Suc.prems(1) by simp
  have d10: "ds ! i < 10" using m(2) nth_mem [OF i] by blast
  have lr: "length rs \<le> length bs" using canonical_le_length [OF magD(1) [OF Suc.prems(4)] b(1)] Suc.prems(5) by simp
  then have lr60: "length rs < 2 ^ 60" using ok(3) by linarith
  obtain r1 rs1 where r1: "shift_and_add_digit r (ds ! i) = Inr r1" "mag r1 rs1" "dval rs1 = 10 * dval rs + ds ! i"
      "bi_is_negative r1 = bi_is_negative r" "length rs1 \<le> length rs + 1"
    using shift_and_add_digit_eq [OF Suc.prems(4) lr60 d10] by metis
  have b1: "dval rs1 < Suc 9 * ?B" using r1(3) d10 Suc.prems(5) by simp
  have l1: "length rs1 < 2 ^ 60" using r1(5) lr ok(3) by linarith
  have n1: "\<not> bi_is_negative r1" using r1(4) Suc.prems(7) by simp
  obtain r2 rs2 where r2: "pick_digit ms 9 r1 = Inr (dval rs1 div ?B, r2)" "mag r2 rs2" "dval rs2 = dval rs1 mod ?B" "\<not> bi_is_negative r2"
    using pick_digit_eq [OF ok order_refl r1(2) l1 n1 b1] by blast
  have dq: "dval rs1 div ?B < 10" using b1 b(2) by (simp add: less_mult_imp_div_less)
  have lq: "length qs < 2 ^ 60" using Suc.prems(3) by linarith
  obtain q1 qs1 where q1: "shift_and_add_digit q (dval rs1 div ?B) = Inr q1" "mag q1 qs1" "dval qs1 = 10 * dval qs + dval rs1 div ?B"
      "bi_is_negative q1 = bi_is_negative q" "length qs1 \<le> length qs + 1"
    using shift_and_add_digit_eq [OF Suc.prems(2) lq dq] by metis
  have "dval rs2 < ?B" using r2(3) b(2) by simp
  then obtain q' qs' r' rs' where IH: "divmod_loop ms m i q1 r2 = Inr (q', r')" "mag q' qs'" "mag r' rs'"
      "dval qs' = dval qs1 * 10 ^ i + (dval rs2 * 10 ^ i + dval (take i ds)) div ?B"
      "dval rs' = (dval rs2 * 10 ^ i + dval (take i ds)) mod ?B" "length qs' \<le> length qs1 + i"
    using Suc.IH [OF _ q1(2) _ r2(2)] i q1(4,5) r2(4) Suc.prems(3,6) by auto
  have step: "divmod_loop ms m (Suc i) q r = Inr (q', r')"
    unfolding divmod_loop.simps holds_load [OF m(1) i] rbind_simps r1(1) r2(1) prod.case q1(1) IH(1) ..
  define X where "X = dval rs1 * 10 ^ i + dval (take i ds)"
  have X: "dval rs * 10 ^ Suc i + dval (take (Suc i) ds) = X"
    unfolding X_def r1(3) dval_take_Suc [OF i] by (simp add: algebra_simps)
  have "X = (dval rs1 div ?B * 10 ^ i) * ?B + (dval rs2 * 10 ^ i + dval (take i ds))"
  proof -
    have "dval rs1 * 10 ^ i = (dval rs1 div ?B * ?B + dval rs2) * 10 ^ i" unfolding r2(3) by simp
    then show ?thesis unfolding X_def by (simp only: algebra_simps)
  qed
  then have "X div ?B = dval rs1 div ?B * 10 ^ i + (dval rs2 * 10 ^ i + dval (take i ds)) div ?B"
    "X mod ?B = (dval rs2 * 10 ^ i + dval (take i ds)) mod ?B" using b(2) by simp_all
  then have "dval qs' = dval qs * 10 ^ Suc i + X div ?B" "dval rs' = X mod ?B"
    unfolding IH(4,5) q1(3) by (simp_all add: algebra_simps)
  moreover have "length qs' \<le> length qs + Suc i" using IH(6) q1(5) by linarith
  ultimately show ?case unfolding X using step IH(2,3) by metis
qed

text \<open>Truncating division.\<close>

definition tdiv :: "int \<Rightarrow> int \<Rightarrow> int" where "tdiv a b = sgn a * sgn b * (\<bar>a\<bar> div \<bar>b\<bar>)"
definition tmod :: "int \<Rightarrow> int \<Rightarrow> int" where "tmod a b = sgn a * (\<bar>a\<bar> mod \<bar>b\<bar>)"

lemma tdiv_tmod: "tdiv a b * b + tmod a b = a" "b \<noteq> 0 \<Longrightarrow> \<bar>tmod a b\<bar> < \<bar>b\<bar>" "tmod a b = 0 \<or> sgn (tmod a b) = sgn a"
proof -
  have "tdiv a b * b = sgn a * (\<bar>a\<bar> div \<bar>b\<bar> * (sgn b * b))" unfolding tdiv_def by (simp only: ac_simps)
  also have "sgn b * b = \<bar>b\<bar>" by (simp add: sgn_if)
  finally have "tdiv a b * b + tmod a b = sgn a * (\<bar>a\<bar> div \<bar>b\<bar> * \<bar>b\<bar> + \<bar>a\<bar> mod \<bar>b\<bar>)"
    unfolding tmod_def by (simp only: distrib_left)
  also have "\<dots> = sgn a * \<bar>a\<bar>" by simp
  also have "\<dots> = a" by (simp add: sgn_if)
  finally show "tdiv a b * b + tmod a b = a" .
  have nn: "0 \<le> \<bar>a\<bar> mod \<bar>b\<bar>" if b: "b \<noteq> 0" using b by simp
  show "\<bar>tmod a b\<bar> < \<bar>b\<bar>" if b: "b \<noteq> 0"
    using nn [OF b] b unfolding tmod_def by (auto simp: abs_mult sgn_if)
  have "0 \<le> \<bar>a\<bar> mod \<bar>b\<bar>" by (cases "b = 0") (use nn in simp_all)
  then consider "\<bar>a\<bar> mod \<bar>b\<bar> = 0" | "sgn (\<bar>a\<bar> mod \<bar>b\<bar>) = 1" by (metis le_less sgn_pos)
  then show "tmod a b = 0 \<or> sgn (tmod a b) = sgn a" unfolding tmod_def sgn_mult sgn_sgn by cases simp_all
qed

lemma int_divmod_eq: assumes "int_inv a" "int_inv b" "bi_num_digits a < 2 ^ 59" "bi_num_digits b < 2 ^ 59"
  shows "int_value b = 0 \<Longrightarrow> int_divmod a b = Inl ZeroDivisionError"
    and "int_value b \<noteq> 0 \<Longrightarrow> \<exists>q r. int_divmod a b = Inr (q, r) \<and> int_inv q \<and> int_inv r
      \<and> int_value q = tdiv (int_value a) (int_value b) \<and> int_value r = tmod (int_value a) (int_value b)
      \<and> bi_num_digits q \<le> bi_num_digits a + 1 \<and> bi_num_digits r \<le> bi_num_digits b"
proof -
  obtain ds where d: "mag a ds" "bi_num_digits a = length ds" "bi_is_negative a \<Longrightarrow> dval ds \<noteq> 0"
      "int_value a = (if bi_is_negative a then - int (dval ds) else int (dval ds))" using assms(1) int_inv_mag by metis
  obtain es where e: "mag b es" "bi_num_digits b = length es" "bi_is_negative b \<Longrightarrow> dval es \<noteq> 0"
      "int_value b = (if bi_is_negative b then - int (dval es) else int (dval es))" using assms(2) int_inv_mag by metis
  have l: "length ds + 1 < 2 ^ 60" "length es + 1 < 2 ^ 60" using assms(3,4) d(2) e(2) by simp_all
  have z: "is_zero b = Inr (dval es = 0)" using is_zero_eq [OF e(1)] .
  have v0: "int_value b = 0 \<longleftrightarrow> dval es = 0" unfolding e(4) by simp
  show "int_value b = 0 \<Longrightarrow> int_divmod a b = Inl ZeroDivisionError" unfolding int_divmod_def z v0 by simp
  assume "int_value b \<noteq> 0"
  then have nz: "0 < dval es" using v0 by simp
  have l60: "length es < 2 ^ 60" using l(2) by linarith
  obtain c where c: "clone b = Inr c" "mag c es" using clone_mag [OF e(1) l60] by metis
  let ?base = "c\<lparr>bi_is_negative := False\<rparr>"
  have base: "mag ?base es" using c(2) by simp
  have "multiples_ok (dval es) (length es + 1) [?base]" unfolding multiples_ok_def using base by auto
  then obtain ms where ms: "multiples_loop ?base 1 [?base] = Inr ms" "length ms = 9" "multiples_ok (dval es) (length es + 1) ms"
    using multiples_loop_eq [OF base l(2), of 1 "[?base]"] by auto
  obtain z0 where z0: "int_new 0 = Inr z0" "mag z0 [0]" "\<not> bi_is_negative z0" using int_new_zero by blast
  have "length [0 :: nat] + length ds < 2 ^ 60" "dval [0] < dval es" using l(1) nz by simp_all
  then obtain q qs r rs where dm: "divmod_loop ms (bi_digits a) (length ds) z0 z0 = Inr (q, r)" "mag q qs" "mag r rs"
      "dval qs = dval [0] * 10 ^ length ds + (dval [0] * 10 ^ length ds + dval (take (length ds) ds)) div dval es"
      "dval rs = (dval [0] * 10 ^ length ds + dval (take (length ds) ds)) mod dval es" "length qs \<le> length [0 :: nat] + length ds"
    using divmod_loop_eq [OF ms(3,2) l(2) magD(1) [OF e(1)] nz magD(6) [OF d(1)] magD(3) [OF d(1)] order_refl z0(2) _ z0(2) _ z0(3,3)] by blast
  have v: "dval qs = dval ds div dval es" "dval rs = dval ds mod dval es" using dm(4,5) by simp_all
  let ?q = "q\<lparr>bi_is_negative := bi_is_negative a \<noteq> bi_is_negative b \<and> dval qs \<noteq> 0\<rparr>"
  let ?r = "r\<lparr>bi_is_negative := bi_is_negative a \<and> dval rs \<noteq> 0\<rparr>"
  have "int_divmod a b = Inr (?q, ?r)"
    unfolding int_divmod_def z Let_def rbind_simps c(1) ms(1) z0(1) d(2) dm(1) prod.case set_sign_eq [OF dm(2)] set_sign_eq [OF dm(3)]
    using nz by simp
  moreover have sa: "sgn (int_value a) = (if dval ds = 0 then 0 else if bi_is_negative a then - 1 else 1)" "\<bar>int_value a\<bar> = int (dval ds)"
    unfolding d(4) by (auto simp: sgn_if)
  moreover have sb: "sgn (int_value b) = (if bi_is_negative b then - 1 else 1)" "\<bar>int_value b\<bar> = int (dval es)"
    unfolding e(4) using nz by (auto simp: sgn_if)
  have vq: "int_value ?q = tdiv (int_value a) (int_value b)"
  proof -
    have "int_value ?q = (if bi_is_negative a \<noteq> bi_is_negative b then - int (dval qs) else int (dval qs))" by (rule sign_value [OF dm(2)])
    then show ?thesis unfolding tdiv_def sa sb v(1) by (auto simp: zdiv_int)
  qed
  have vr: "int_value ?r = tmod (int_value a) (int_value b)"
  proof -
    have "int_value ?r = (if bi_is_negative a then - int (dval rs) else int (dval rs))" by (rule sign_value [OF dm(3)])
    then show ?thesis unfolding tmod_def sa sb v(2) by (auto simp: zmod_int)
  qed
  have "length rs \<le> length es" using canonical_le_length [OF magD(1) [OF dm(3)] magD(1) [OF e(1)]] v(2) nz by (simp add: less_imp_le)
  then show "\<exists>q r. int_divmod a b = Inr (q, r) \<and> int_inv q \<and> int_inv r
      \<and> int_value q = tdiv (int_value a) (int_value b) \<and> int_value r = tmod (int_value a) (int_value b)
      \<and> bi_num_digits q \<le> bi_num_digits a + 1 \<and> bi_num_digits r \<le> bi_num_digits b"
    using calculation(1) signed_result [OF dm(2) vq refl] signed_result [OF dm(3) vr refl] vq vr dm(6) d(2) e(2) by auto
qed

end
