(* ===== verification/Lib_Int_Parse.thy ===== *)
theory Lib_Int_Parse
  imports Lib_Int_Text Lib_Int_Products Lib_Str_Search
begin

text \<open>
  The decimal text of an \<^verbatim>\<open>int\<close>: what \<^verbatim>\<open>from_str\<close> accepts and yields, and what \<^verbatim>\<open>__str__\<close> writes.
\<close>

subsection \<open>ASCII strings\<close>

lemma utf8_ascii: "\<forall>c \<in> set cs. c < 128 \<Longrightarrow> utf8 cs = cs"
  by (induction cs) (simp_all add: utf8_enc_def)

lemma scalar_ascii: "\<forall>c \<in> set cs. c < 128 \<Longrightarrow> list_all scalar cs"
  by (induction cs) (simp_all add: scalar_def)

lemma literal_mk_str: assumes "\<forall>c \<in> set t. (of_char c :: nat) < 128" shows "literal t = mk_str (map of_char t)"
proof -
  have "utf8 (take k (map of_char t)) = take k (map of_char t)" for k using assms by (intro utf8_ascii) (auto simp: take_map dest: in_set_takeD)
  moreover have "utf8 (map of_char t) = map of_char t" using assms by (intro utf8_ascii) auto
  ultimately show ?thesis unfolding literal_def mk_str_def index_of_def by (simp add: comp_def)
qed

lemma mk_str_ascii: assumes "\<forall>c \<in> set cs. c < 128"
  shows "s_data (mk_str cs) = map Some (cs @ [0])" "byte_len (mk_str cs) = length cs"
  using utf8_ascii [OF assms] by simp_all

lemma owned_ascii: assumes "\<forall>c \<in> set cs. c < 128" "length cs < 2 ^ 63"
  shows "from_owned_cstr (map Some (cs @ [0])) (length cs + 1) = Inr (mk_str cs)"
  using from_owned_utf8 [OF scalar_ascii [OF assms(1)]] utf8_ascii [OF assms(1)] assms(2) by simp

lemma slice_ascii: assumes "\<forall>c \<in> set (a @ b @ c). c < 128" "length (a @ b @ c) + 1 < 2 ^ 63"
  shows "byte_slice (mk_str (a @ b @ c)) (length a) (length a + length b) = Inr (mk_str b)"
proof -
  have "utf8 (a @ b @ c) = a @ b @ c" "utf8 a = a" "utf8 b = b" using assms(1) by (intro utf8_ascii; simp)+
  then show ?thesis using byte_slice_utf8 [OF scalar_ascii [OF assms(1)]] assms(2) by simp
qed

subsection \<open>Writing\<close>

definition decimal :: "nat list \<Rightarrow> nat list" where
  "decimal ds = rev (map (\<lambda>d. d + 48) ds)"

definition sign_text :: "bool \<Rightarrow> nat list" where
  "sign_text neg = (if neg then [45] else [])"

lemma decimal_ascii: "digits ds \<Longrightarrow> \<forall>c \<in> set (sign_text neg @ decimal ds). c < 128"
  unfolding decimal_def sign_text_def by (auto; fastforce)

lemma length_decimal [simp]: "length (decimal ds) = length ds"
  by (simp add: decimal_def)

lemma str_loop_eq: assumes m: "holds m ds" "digits ds"
  shows "i \<le> length ds \<Longrightarrow> length out + i < 2 ^ 63 \<Longrightarrow>
    str_loop i m (map Some out @ sys_alloc (i + k)) (length out)
      = Inr (map Some (out @ decimal (take i ds)) @ sys_alloc k, length out + i)"
proof (induction i arbitrary: out)
  case 0
  then show ?case by (simp add: decimal_def)
next
  case (Suc i)
  have i: "i < length ds" using Suc.prems by simp
  have d: "ds ! i < 10" using m(2) nth_mem [OF i] by blast
  have u: "u8_of str_msg (int (ds ! i + 48)) = Inr (ds ! i + 48)" using d unfolding u8_of_def by simp
  have f: "length out + 1 < 18446744073709551616" using Suc.prems by simp
  have "decimal (take (Suc i) ds) = (ds ! i + 48) # decimal (take i ds)" using i by (simp add: decimal_def take_Suc_conv_app_nth)
  moreover have "str_loop i m (map Some (out @ [ds ! i + 48]) @ sys_alloc (i + k)) (length (out @ [ds ! i + 48]))
      = Inr (map Some ((out @ [ds ! i + 48]) @ decimal (take i ds)) @ sys_alloc k, length (out @ [ds ! i + 48]) + i)"
    using Suc.prems by (intro Suc.IH) simp_all
  moreover have "length (out @ [ds ! i + 48]) = length out + 1" by simp
  ultimately show ?case
    unfolding str_loop.simps holds_load [OF m(1) i] rbind_simps u add_Suc store_next fits_small [OF f] by simp
qed

lemma int_str_mag: assumes a: "mag a ds" "length ds < 2 ^ 60"
  shows "int_str a = Inr (mk_str (sign_text (bi_is_negative a) @ decimal ds))"
proof -
  note A = magD [OF a(1)]
  let ?neg = "bi_is_negative a" and ?n = "length ds"
  let ?sg = "sign_text ?neg" and ?text = "sign_text (bi_is_negative a) @ decimal ds"
  have f: "?n + 1 < 18446744073709551616" "?n + 1 + 1 < 18446744073709551616" using a(2) by simp_all
  have sz: "(if ?neg then fits msg (?n + 1 + 1) else Inr (?n + 1)) = Inr (length ?sg + ?n + 1)" for msg
    using fits_small [OF f(2)] by (simp add: sign_text_def)
  have al: "sys_alloc (length ?sg + ?n + 1) = sys_alloc (length ?sg) @ sys_alloc (?n + 1)"
    unfolding sys_alloc_def add.assoc by (rule replicate_add)
  have buf: "(if ?neg then rbind (store 0 ASCII_MINUS (sys_alloc (length ?sg + ?n + 1))) (\<lambda>buf. Inr (buf, 1)) else Inr (sys_alloc (length ?sg + ?n + 1), 0))
      = Inr (map Some ?sg @ sys_alloc (?n + 1), length ?sg)"
    unfolding sign_text_def by (simp add: sys_alloc_def)
  have lp: "str_loop ?n (bi_digits a) (map Some ?sg @ sys_alloc (?n + 1)) (length ?sg) = Inr (map Some ?text @ sys_alloc 1, length ?sg + ?n)"
    using str_loop_eq [OF A(6,3) order_refl, of ?sg 1] a(2) by (simp add: sign_text_def)
  have st: "store (length ?sg + ?n) 0 (map Some ?text @ sys_alloc 1) = Inr (map Some (?text @ [0]))"
    using store_next [of ?text 0 0] by (simp add: alloc_Suc)
  have "from_owned_cstr (map Some (?text @ [0])) (length ?text + 1) = Inr (mk_str ?text)"
    using a(2) by (intro owned_ascii [OF decimal_ascii [OF A(3)]]) (simp add: sign_text_def)
  then have own: "from_owned_cstr (map Some (?text @ [0])) (length ?sg + ?n + 1) = Inr (mk_str ?text)" by simp
  show ?thesis
    unfolding int_str_def Let_def A(4) fits_small [OF f(1)] rbind_simps sz buf prod.case lp st own unwrap_Inr ..
qed

subsection \<open>Reading\<close>

definition digit_char :: "nat \<Rightarrow> bool" where
  "digit_char c = (48 \<le> c \<and> c \<le> 57)"

definition digits_of :: "nat list \<Rightarrow> nat list" where
  "digits_of body = rev (map (\<lambda>c. c - 48) body)"

text \<open>The language \<^verbatim>\<open>-?[0-9]+\<close> and the number a text stands for.\<close>

definition parse_int :: "nat list \<Rightarrow> int option" where
  "parse_int bs =
     (let neg = (bs \<noteq> [] \<and> hd bs = 45); body = (if neg then tl bs else bs) in
      if body \<noteq> [] \<and> (\<forall>c \<in> set body. digit_char c)
      then Some ((if neg then - 1 else 1) * int (dval (digits_of body))) else None)"

lemma digits_of_digits: "\<forall>c \<in> set body. digit_char c \<Longrightarrow> digits (digits_of body)"
  unfolding digits_of_def digit_char_def by auto

lemma digits_of_decimal: "digits ds \<Longrightarrow> digits_of (decimal ds) = ds"
  unfolding digits_of_def decimal_def by (simp add: rev_map comp_def)

lemma parse_decimal: assumes "digits ds" "ds \<noteq> []"
  shows "parse_int (sign_text neg @ decimal ds) = Some ((if neg then - 1 else 1) * int (dval ds))"
proof -
  have "\<forall>c \<in> set (decimal ds). digit_char c" using assms(1) unfolding decimal_def digit_char_def by fastforce
  moreover have "hd (decimal ds) \<noteq> 45 \<and> decimal ds \<noteq> []"
  proof -
    have "decimal ds \<noteq> []" using assms(2) by (simp add: decimal_def)
    then show ?thesis using calculation hd_in_set unfolding digit_char_def by fastforce
  qed
  ultimately show ?thesis using digits_of_decimal [OF assms(1)] unfolding parse_int_def sign_text_def Let_def by simp
qed

lemma skip_zeros_eq: assumes "length bs < 2 ^ 60"
  shows "pos \<le> length bs \<Longrightarrow> \<exists>p. skip_zeros (map Some (bs @ [0])) (length bs) pos = Inr p \<and> pos \<le> p \<and> p \<le> max pos (length bs - 1)
    \<and> (\<forall>j. pos \<le> j \<longrightarrow> j < p \<longrightarrow> bs ! j = 48) \<and> (p < length bs - 1 \<longrightarrow> bs ! p \<noteq> 48)"
proof (induction "length bs - pos" arbitrary: pos rule: less_induct)
  case less
  let ?c = "map Some (bs @ [0])"
  show ?case
  proof (cases "pos < length bs - 1")
    case True
    then have "pos < length bs" by linarith
    then have ld: "load pos ?c = Inr (bs ! pos)" using load_map_Some [of pos "bs @ [0]"] by (simp add: nth_append del: map_append)
    show ?thesis
    proof (cases "bs ! pos = 48")
      case z: True
      have f: "pos + 1 < 18446744073709551616" using True assms by simp
      have step: "skip_zeros ?c (length bs) pos = skip_zeros ?c (length bs) (pos + 1)"
        unfolding skip_zeros.simps [of ?c "length bs" pos] if_P [OF True] ld rbind_simps if_P [OF z] fits_small [OF f] ..
      have lt: "length bs - (pos + 1) < length bs - pos" and le: "pos + 1 \<le> length bs" using \<open>pos < length bs\<close> by linarith+
      obtain p where p: "skip_zeros ?c (length bs) (pos + 1) = Inr p" "pos + 1 \<le> p" "p \<le> max (pos + 1) (length bs - 1)"
          "\<forall>j. pos + 1 \<le> j \<longrightarrow> j < p \<longrightarrow> bs ! j = 48" "p < length bs - 1 \<longrightarrow> bs ! p \<noteq> 48"
        using less.hyps [OF _ le] lt by blast
      have "\<forall>j. pos \<le> j \<longrightarrow> j < p \<longrightarrow> bs ! j = 48" using p(4) z by (metis Suc_eq_plus1 le_antisym not_less_eq_eq)
      then show ?thesis unfolding step using p True by (intro exI [of _ p]) auto
    next
      case False
      then have "skip_zeros ?c (length bs) pos = Inr pos"
        unfolding skip_zeros.simps [of ?c "length bs" pos] if_P [OF True] ld rbind_simps by simp
      then show ?thesis using False True by (intro exI [of _ pos]) simp
    qed
  next
    case False
    then have "skip_zeros ?c (length bs) pos = Inr pos" unfolding skip_zeros.simps [of ?c "length bs" pos] by simp
    then show ?thesis using False by (intro exI [of _ pos]) simp
  qed
qed

lemma parse_loop_eq: assumes bs: "bs = pre @ body" "length bs < 2 ^ 60" "n = length body"
  shows "i \<le> n \<Longrightarrow> holds m (take i (digits_of body)) \<Longrightarrow> length m = n \<Longrightarrow> \<forall>c \<in> set (drop (n - i) body). digit_char c \<Longrightarrow>
    parse_loop (map Some (bs @ [0])) (length bs) n i m
      = (if \<forall>c \<in> set body. digit_char c then Inr (map Some (digits_of body)) else Inl (IntError InvalidDigit))"
proof (induction "n - i" arbitrary: i m)
  case 0
  then have "m = map Some (digits_of body)" using holds_full [of m "digits_of body"] bs(3) by (simp add: digits_of_def)
  then show ?case using 0 unfolding parse_loop.simps [of _ _ n i m] by simp
next
  case (Suc k)
  let ?c = "map Some (bs @ [0])"
  have i: "i < n" "n - i = Suc (n - (i + 1))" using Suc.hyps(2) by simp_all
  let ?ch = "body ! (n - 1 - i)"
  have s1: "sub_panic walk_msg (length bs) 1 = Inr (length bs - 1)" "sub_panic walk_msg (length bs - 1) i = Inr (length bs - 1 - i)"
    using i bs by (auto simp: sub_panic_def)
  have "load (length bs - 1 - i) ?c = Inr ((bs @ [0]) ! (length bs - 1 - i))" using i bs by (intro load_map_Some) simp
  also have "(bs @ [0]) ! (length bs - 1 - i) = ?ch"
  proof -
    have "length bs - 1 - i = length pre + (n - 1 - i)" "n - 1 - i < length body" using i bs by simp_all
    then show ?thesis unfolding bs(1) append_assoc by (simp add: nth_append)
  qed
  finally have ld: "load (length bs - 1 - i) ?c = Inr ?ch" .
  have dr: "drop (n - Suc i) body = ?ch # drop (n - i) body"
    using i bs(3) Cons_nth_drop_Suc [of "n - Suc i" body] by (simp add: Suc_diff_Suc)
  have f: "i + 1 < 18446744073709551616" using i bs by simp
  have cnd: "i < n" by (rule i(1))
  show ?case
  proof (cases "digit_char ?ch")
    case True
    then have ok: "\<not> (?ch < ASCII_ZERO \<or> ?ch > ASCII_NINE)" unfolding digit_char_def by simp
    have ib: "i < length m" using i Suc.prems by simp
    have nth: "digits_of body ! i = ?ch - 48" using i bs(3) by (simp add: digits_of_def rev_nth)
    have tk: "take (i + 1) (digits_of body) = take i (digits_of body) @ [?ch - 48]"
      using i bs(3) nth by (simp add: take_Suc_conv_app_nth digits_of_def)
    have "holds (m[i := Some (?ch - 48)]) (take (i + 1) (digits_of body))"
      using holds_extend [OF Suc.prems(2), of "?ch - 48"] i Suc.prems(3) bs(3) unfolding tk by (simp add: digits_of_def)
    moreover have "\<forall>c \<in> set (drop (n - (i + 1)) body). digit_char c" using Suc.prems(4) True dr by simp
    moreover have "k = n - (i + 1)" "i + 1 \<le> n" "length (m[i := Some (?ch - 48)]) = n" using Suc.hyps(2) i Suc.prems by simp_all
    ultimately have "parse_loop ?c (length bs) n (i + 1) (m[i := Some (?ch - 48)])
        = (if \<forall>c \<in> set body. digit_char c then Inr (map Some (digits_of body)) else Inl (IntError InvalidDigit))"
      by (intro Suc.hyps(1))
    then show ?thesis
      unfolding parse_loop.simps [of ?c "length bs" n i m] if_P [OF cnd] s1 rbind_simps ld if_not_P [OF ok] store_ok [OF ib] fits_small [OF f] .
  next
    case False
    then have "?ch < ASCII_ZERO \<or> ?ch > ASCII_NINE" unfolding digit_char_def by auto
    moreover have "?ch \<in> set body" using i bs(3) by simp
    ultimately show ?thesis
      unfolding parse_loop.simps [of ?c "length bs" n i m] if_P [OF cnd] s1 rbind_simps ld using False by auto
  qed
qed

lemma dval_digits_of_zeros: "dval (digits_of (replicate k 48 @ rest)) = dval (digits_of rest)"
  unfolding digits_of_def by (simp add: dval_append)

lemma from_str_eq: assumes s: "s_data s = map Some (bs @ [0])" "byte_len s = length bs" "length bs < 2 ^ 60"
  shows "case parse_int bs of None \<Rightarrow> from_str s = Inl (IntError InvalidDigit)
    | Some v \<Rightarrow> \<exists>r. from_str s = Inr r \<and> int_inv r \<and> int_value r = v \<and> bi_num_digits r \<le> length bs"
proof (cases "bs = []")
  case True
  then show ?thesis using s unfolding from_str_def parse_int_def by simp
next
  case False
  let ?c = "map Some (bs @ [0])" and ?neg = "hd bs = 45" and ?start = "if hd bs = 45 then 1 else 0 :: nat"
  let ?body = "drop ?start bs"
  have l0: "length bs \<noteq> 0" using False by simp
  have ld: "load 0 ?c = Inr (hd bs)" using False by (cases bs) (simp_all add: load_def)
  have s1: "sub_panic sign_msg (length bs) 1 = Inr (length bs - 1)" using False by (cases bs) (simp_all add: sub_panic_def)
  have "?start \<le> length bs" using l0 by (cases bs) simp_all
  then obtain p where p: "skip_zeros ?c (length bs) ?start = Inr p" "?start \<le> p" "p \<le> max ?start (length bs - 1)"
      "\<forall>j. ?start \<le> j \<longrightarrow> j < p \<longrightarrow> bs ! j = 48" "p < length bs - 1 \<longrightarrow> bs ! p \<noteq> 48"
    using skip_zeros_eq [OF s(3)] by blast
  have pl: "p \<le> length bs" using p(3) \<open>?start \<le> length bs\<close> by linarith
  then have s2: "sub_panic sign_msg (length bs) p = Inr (length bs - p)" by (simp add: sub_panic_def)
  define rest where "rest = drop p bs"
  have body: "?body = replicate (p - ?start) 48 @ rest"
  proof -
    have "take (p - ?start) ?body = replicate (p - ?start) 48" using p(2,4) pl by (intro nth_equalityI) auto
    moreover have "drop (p - ?start) ?body = rest" unfolding rest_def using p(2) by simp
    ultimately show ?thesis by (metis append_take_drop_id)
  qed
  have body_eq: "(if bs \<noteq> [] \<and> hd bs = 45 then tl bs else bs) = ?body" using False by (simp add: drop_Suc)
  have spec: "parse_int bs = (if ?body \<noteq> [] \<and> (\<forall>c \<in> set ?body. digit_char c)
      then Some ((if ?neg then - 1 else 1) * int (dval (digits_of ?body))) else None)"
    unfolding parse_int_def Let_def body_eq using False by auto
  have run: "from_str s = (if length rest = 0 then Inl (IntError InvalidDigit)
       else rbind (parse_loop ?c (length bs) (length rest) 0 (sys_alloc (length rest))) (\<lambda>digits.
            let result = \<lparr>bi_digits = digits, bi_num_digits = length rest, bi_num_allocated = length rest, bi_is_negative = False\<rparr> in
            rbind (if ?neg then rbind (is_zero result) (\<lambda>z. Inr (\<not> z)) else Inr False) (\<lambda>neg. Inr (result\<lparr>bi_is_negative := neg\<rparr>))))"
    unfolding from_str_def Let_def s(1,2) if_not_P [OF l0] ld rbind_simps s1 p(1) s2 rest_def length_drop ..
  show ?thesis
  proof (cases "rest = []")
    case True
    then have "?body = []"
    proof (cases "?body = []")
      case False
      then have "?start < length bs" by simp
      then have "p \<le> length bs - 1" using p(3) by simp
      then show ?thesis using True l0 unfolding rest_def by simp
    qed
    then show ?thesis using run True unfolding spec by simp
  next
    case ne: False
    have cut: "bs = take p bs @ rest" unfolding rest_def by simp
    have pr: "parse_loop ?c (length bs) (length rest) 0 (sys_alloc (length rest))
        = (if \<forall>c \<in> set rest. digit_char c then Inr (map Some (digits_of rest)) else Inl (IntError InvalidDigit))"
      using parse_loop_eq [OF cut s(3) refl, of 0 "sys_alloc (length rest)"] by (simp add: holds_def)
    have z: "digit_char 48" unfolding digit_char_def by simp
    show ?thesis
    proof (cases "\<forall>c \<in> set rest. digit_char c")
      case True
      then have all: "\<forall>c \<in> set ?body. digit_char c" unfolding body using z by auto
      let ?ds = "digits_of rest"
      have dg: "digits ?ds" using digits_of_digits [OF True] .
      have "last ?ds \<noteq> 0" if l: "1 < length ?ds"
      proof -
        have "p < length bs - 1" using l unfolding rest_def digits_of_def by simp
        then have "bs ! p \<noteq> 48" "hd rest = bs ! p" using p(5) unfolding rest_def by (simp_all add: hd_drop_conv_nth)
        moreover have "digit_char (hd rest)" using True ne by simp
        ultimately show ?thesis using ne unfolding digits_of_def digit_char_def by (simp add: last_rev hd_map)
      qed
      then have can: "canonical ?ds" unfolding canonical_def using dg ne by (simp add: digits_of_def)
      let ?r = "\<lparr>bi_digits = map Some ?ds, bi_num_digits = length rest, bi_num_allocated = length rest, bi_is_negative = False\<rparr>"
      have M: "mag ?r ?ds" unfolding mag_def using can by (simp add: holds_def digits_of_def)
      let ?r' = "?r\<lparr>bi_is_negative := ?neg \<and> dval ?ds \<noteq> 0\<rparr>"
      have sg: "rbind (if ?neg then rbind (is_zero ?r) (\<lambda>z. Inr (\<not> z)) else Inr False) (\<lambda>neg. Inr (?r\<lparr>bi_is_negative := neg\<rparr>)) = Inr ?r'"
        using set_sign_eq [OF M, of ?neg] unfolding set_sign_def .
      have "from_str s = Inr ?r'" unfolding run pr if_P [OF True] rbind_simps Let_def sg using ne by simp
      moreover have "int_value ?r' = (if ?neg then - 1 else 1) * int (dval (digits_of ?body))"
        unfolding sign_value [OF M] body dval_digits_of_zeros by simp
      moreover have "bi_num_digits ?r' \<le> length bs" unfolding rest_def by simp
      moreover have "int_inv ?r'" using signed_result(1) [OF M refl refl] .
      moreover have "?body \<noteq> []" using ne unfolding body by simp
      ultimately show ?thesis unfolding spec using all by auto
    next
      case False
      then have "\<not> (\<forall>c \<in> set ?body. digit_char c)" unfolding body by auto
      then show ?thesis unfolding spec run pr using False ne by auto
    qed
  qed
qed

lemma str_from_str: assumes "int_inv a" "bi_num_digits a < 2 ^ 59"
  obtains r where "rbind (int_str a) from_str = Inr r" "int_inv r" "int_value r = int_value a"
proof -
  obtain ds where d: "mag a ds" "bi_num_digits a = length ds" "int_value a = (if bi_is_negative a then - int (dval ds) else int (dval ds))"
    using assms(1) int_inv_mag by metis
  let ?t = "sign_text (bi_is_negative a) @ decimal ds"
  have l: "length ds < 2 ^ 60" "length ?t < 2 ^ 60" using assms(2) d(2) by (simp_all add: sign_text_def)
  note asc = decimal_ascii [OF magD(3) [OF d(1)], of "bi_is_negative a"]
  have "parse_int ?t = Some (int_value a)"
    using parse_decimal [OF magD(3,2) [OF d(1)], of "bi_is_negative a"] unfolding d(3) by (simp split: if_splits)
  then have "\<exists>r. from_str (mk_str ?t) = Inr r \<and> int_inv r \<and> int_value r = int_value a \<and> bi_num_digits r \<le> length ?t"
    using from_str_eq [OF mk_str_ascii [OF asc] l(2)] unfolding option.case by simp
  then show ?thesis using that int_str_mag [OF d(1) l(1)] by auto
qed

end
