(* ===== verification/Lib_Int_Convert.thy ===== *)
theory Lib_Int_Convert
  imports Lib_Int_Parse
begin

text \<open>
  The conversions of \<^verbatim>\<open>int\<close> to the fixed-width types, checked and saturating: exact on the range of
  the type, except that the smallest \<^verbatim>\<open>i64\<close> and the smallest \<^verbatim>\<open>i128\<close> end in a panic, because the
  magnitude is accumulated in the signed type.  The digits in another base, and the grouped digits.
\<close>

subsection \<open>Bounds and accumulation\<close>

lemma magnitude_exceeds_eq: assumes a: "mag a ds" and t: "parse_int (map of_char t) = Some (int N)" "length t < 2 ^ 60"
  shows "magnitude_exceeds a t = Inr (N < dval ds)"
proof -
  have "\<exists>r. from_str (literal t) = Inr r \<and> int_inv r \<and> int_value r = int N \<and> bi_num_digits r \<le> length t"
    using from_str_eq [of "literal t" "map of_char t"] t by (simp add: literal_def byte_len_def comp_def)
  then obtain r where r: "from_str (literal t) = Inr r" "int_inv r" "int_value r = int N" by blast
  obtain es where e: "mag r es" "bi_is_negative r \<Longrightarrow> dval es \<noteq> 0" "int_value r = (if bi_is_negative r then - int (dval es) else int (dval es))"
    using r(2) int_inv_mag by metis
  have "dval es = N" using e(2,3) r(3) by (auto split: if_splits)
  then show ?thesis unfolding magnitude_exceeds_def r(1) unwrap_Inr rbind_simps compare_magnitude_eq [OF a e(1)] by (simp add: sgn_if)
qed

lemma accumulate_eq: assumes m: "holds m ds" "digits ds" and lo: "lo \<le> 0"
  shows "i \<le> length ds \<Longrightarrow> 0 \<le> v \<Longrightarrow> accumulate msg lo hi i m v
    = (if v \<le> hi \<or> 0 < i then if v * 10 ^ i + int (dval (take i ds)) \<le> hi then Inr (v * 10 ^ i + int (dval (take i ds))) else Inl (Panic msg) else Inr v)"
proof (induction i arbitrary: v)
  case (Suc i)
  have i: "i < length ds" using Suc.prems by simp
  define d where "d = int (ds ! i)"
  define T where "T = v * 10 ^ Suc i + int (dval (take (Suc i) ds))"
  have d0: "0 \<le> d" unfolding d_def by simp
  have T: "T = (v * 10 + d) * 10 ^ i + int (dval (take i ds))" unfolding T_def d_def dval_take_Suc [OF i] by (simp add: algebra_simps)
  have big: "v * 10 + d \<le> T"
  proof -
    define x where "x = v * 10 + d"
    have "0 \<le> x" unfolding x_def using Suc.prems d0 by simp
    then have "x * 1 \<le> x * 10 ^ i" by (intro mult_left_mono) simp_all
    then show ?thesis unfolding T x_def [symmetric] by simp
  qed
  have ld: "load i m = Inr (ds ! i)" using holds_load [OF m(1) i] .
  have "accumulate msg lo hi (Suc i) m v = (if T \<le> hi then Inr T else Inl (Panic msg))"
  proof (cases "v * 10 + d \<le> hi")
    case True
    have r: "checked_range msg lo hi (v * 10) = Inr (v * 10)" "checked_range msg lo hi (v * 10 + d) = Inr (v * 10 + d)"
      using True Suc.prems d0 lo unfolding checked_range_def by auto
    have "accumulate msg lo hi i m (v * 10 + d) = (if T \<le> hi then Inr T else Inl (Panic msg))"
      using Suc.IH [of "v * 10 + d"] i Suc.prems d0 True T by simp
    then show ?thesis unfolding accumulate.simps r(1) rbind_simps ld r(2) [unfolded d_def] using d_def by simp
  next
    case False
    then have "rbind (checked_range msg lo hi (v * 10)) (\<lambda>t. rbind (load i m) (\<lambda>e. rbind (checked_range msg lo hi (t + int e)) f)) = Inl (Panic msg)" for f
      unfolding ld by (auto simp: checked_range_def d_def)
    then show ?thesis using False big unfolding accumulate.simps by simp
  qed
  then show ?case unfolding T_def by simp
qed simp

lemma accumulate_mag: assumes "mag a ds" "lo \<le> 0" "0 \<le> hi"
  shows "accumulate msg lo hi (bi_num_digits a) (bi_digits a) 0 = (if int (dval ds) \<le> hi then Inr (int (dval ds)) else Inl (Panic msg))"
  using accumulate_eq [OF magD(6,3) [OF assms(1)] assms(2) order_refl order_refl, of msg hi] magD(4) [OF assms(1)] assms(3) by simp

lemma limits: "parse_int (map of_char I64_MIN_MAGNITUDE_STR) = Some (int 9223372036854775808)"
  "parse_int (map of_char I64_MAX_STR) = Some (int 9223372036854775807)"
  "parse_int (map of_char U64_MAX_STR) = Some (int 18446744073709551615)"
  "parse_int (map of_char I128_MIN_MAGNITUDE_STR) = Some (int 170141183460469231731687303715884105728)"
  "parse_int (map of_char I128_MAX_STR) = Some (int 170141183460469231731687303715884105727)"
  "parse_int (map of_char U128_MAX_STR) = Some (int 340282366920938463463374607431768211455)"
  by (simp_all add: parse_int_def digit_char_def digits_of_def)

subsection \<open>Checked conversions\<close>

lemma negative_iff: assumes "int_inv a" "mag a ds" shows "bi_is_negative a \<longleftrightarrow> int_value a < 0"
  using assms int_inv_mag [OF assms(1)] by (metis mag_value neg_0_less_iff_less neg_less_0_iff_less of_nat_0_less_iff of_nat_less_0_iff not_gr_zero)

lemma neg_test: assumes "int_inv a" "mag a ds"
  shows "(if bi_is_negative a then rbind (is_zero a) (\<lambda>z. Inr (\<not> z)) else Inr False) = Inr (int_value a < 0)"
  using negative_iff [OF assms] is_zero_eq [OF assms(2)] mag_value [OF assms(2)] by auto

lemma to_i64_eq: assumes "int_inv a"
  shows "to_i64 a = (if int_value a = - (2 ^ 63) then Inl (Panic i64_msg)
    else if - (2 ^ 63) < int_value a \<and> int_value a < 2 ^ 63 then Inr (int_value a) else Inl OverflowError)"
proof -
  obtain ds where d: "mag a ds" "bi_is_negative a \<Longrightarrow> dval ds \<noteq> 0" "int_value a = (if bi_is_negative a then - int (dval ds) else int (dval ds))"
    using assms int_inv_mag by metis
  note L = magnitude_exceeds_eq [OF d(1) limits(1)] magnitude_exceeds_eq [OF d(1) limits(2)]
  note acc = accumulate_mag [OF d(1), of "- (2 ^ 63)" "2 ^ 63 - 1" i64_msg]
  show ?thesis
  proof (cases "bi_is_negative a")
    case True
    then show ?thesis using L acc d(2,3) unfolding to_i64_def by (auto simp: checked_range_def)
  next
    case False
    then show ?thesis using L acc d(3) unfolding to_i64_def by (auto simp: checked_range_def)
  qed
qed

lemma to_i128_eq: assumes "int_inv a"
  shows "to_i128 a = (if int_value a = - (2 ^ 127) then Inl (Panic i128_msg)
    else if - (2 ^ 127) < int_value a \<and> int_value a < 2 ^ 127 then Inr (int_value a) else Inl OverflowError)"
proof -
  obtain ds where d: "mag a ds" "bi_is_negative a \<Longrightarrow> dval ds \<noteq> 0" "int_value a = (if bi_is_negative a then - int (dval ds) else int (dval ds))"
    using assms int_inv_mag by metis
  note L = magnitude_exceeds_eq [OF d(1) limits(4)] magnitude_exceeds_eq [OF d(1) limits(5)]
  note acc = accumulate_mag [OF d(1), of "- (2 ^ 127)" "2 ^ 127 - 1" i128_msg]
  show ?thesis
  proof (cases "bi_is_negative a")
    case True
    then show ?thesis using L acc d(2,3) unfolding to_i128_def by (auto simp: checked_range_def)
  next
    case False
    then show ?thesis using L acc d(3) unfolding to_i128_def by (auto simp: checked_range_def)
  qed
qed

lemma to_u64_eq: assumes "int_inv a"
  shows "to_u64 a = (if 0 \<le> int_value a \<and> int_value a < 2 ^ 64 then Inr (int_value a) else Inl OverflowError)"
proof -
  obtain ds where d: "mag a ds" using assms int_inv_mag by metis
  show ?thesis
    using magnitude_exceeds_eq [OF d limits(3)] accumulate_mag [OF d, of 0 "2 ^ 64 - 1" u64_msg] mag_value [OF d] negative_iff [OF assms d]
    unfolding to_u64_def neg_test [OF assms d] by auto
qed

lemma to_u128_eq: assumes "int_inv a"
  shows "to_u128 a = (if 0 \<le> int_value a \<and> int_value a < 2 ^ 128 then Inr (int_value a) else Inl OverflowError)"
proof -
  obtain ds where d: "mag a ds" using assms int_inv_mag by metis
  show ?thesis
    using magnitude_exceeds_eq [OF d limits(6)] accumulate_mag [OF d, of 0 "2 ^ 128 - 1" u128_msg] mag_value [OF d] negative_iff [OF assms d]
    unfolding to_u128_def neg_test [OF assms d] by auto
qed

lemma wraps: "- 128 \<le> v \<Longrightarrow> v \<le> 127 \<Longrightarrow> wrap_signed 8 v = v" "- 32768 \<le> v \<Longrightarrow> v \<le> 32767 \<Longrightarrow> wrap_signed 16 v = v"
  "- 2147483648 \<le> v \<Longrightarrow> v \<le> 2147483647 \<Longrightarrow> wrap_signed 32 v = v" "0 \<le> v \<Longrightarrow> v \<le> 255 \<Longrightarrow> wrap_unsigned 8 v = v"
  "0 \<le> v \<Longrightarrow> v \<le> 65535 \<Longrightarrow> wrap_unsigned 16 v = v" "0 \<le> v \<Longrightarrow> v \<le> 4294967295 \<Longrightarrow> wrap_unsigned 32 v = v"
  by (simp_all add: wrap_signed_def wrap_unsigned_def)

text \<open>The conversion of a value to the range \<open>lo..hi\<close>; the lowest \<^verbatim>\<open>i64\<close> is the value that panics.\<close>

definition narrowed :: "int \<Rightarrow> int \<Rightarrow> int \<Rightarrow> int res" where
  "narrowed lo hi v = (if v = - (2 ^ 63) then Inl (Panic i64_msg) else if lo \<le> v \<and> v \<le> hi then Inr v else Inl OverflowError)"

lemma narrow_eqs: assumes "int_inv a"
  shows "to_i8 a = narrowed (- 128) 127 (int_value a)" "to_i16 a = narrowed (- 32768) 32767 (int_value a)"
    "to_i32 a = narrowed (- 2147483648) 2147483647 (int_value a)" "to_i64 a = narrowed (- (2 ^ 63)) (2 ^ 63 - 1) (int_value a)"
    "to_u8 a = narrowed 0 255 (int_value a)" "to_u16 a = narrowed 0 65535 (int_value a)" "to_u32 a = narrowed 0 4294967295 (int_value a)"
  unfolding to_i8_def to_i16_def to_i32_def to_u8_def to_u16_def to_u32_def to_i64_eq [OF assms] narrowed_def
  by (auto simp: wraps)

subsection \<open>Saturating conversions\<close>

definition clamped :: "int \<Rightarrow> int \<Rightarrow> int \<Rightarrow> int" where
  "clamped lo hi v = (if v < lo then lo else if v > hi then hi else v)"

lemma saturate_i64_eq: assumes "int_inv a" "- (2 ^ 63) \<le> lo" "lo \<le> hi" "hi < 2 ^ 63" "lo \<le> 0" "0 \<le> hi"
  shows "saturate_i64_range a lo hi = (if int_value a = - (2 ^ 63) then Inl (Panic i64_msg) else Inr (clamped lo hi (int_value a)))"
proof -
  obtain ds where d: "mag a ds" using assms int_inv_mag by metis
  show ?thesis using negative_iff [OF assms(1) d] assms(2-6) unfolding saturate_i64_range_def to_i64_eq [OF assms(1)] on_err_def clamped_def by auto
qed

lemma clamped_range: "lo \<le> hi \<Longrightarrow> lo \<le> clamped lo hi v \<and> clamped lo hi v \<le> hi"
  by (simp add: clamped_def)

lemma saturated_eqs: assumes "int_inv a" "int_value a \<noteq> - (2 ^ 63)"
  shows "saturated_i8 a = Inr (clamped (- 128) 127 (int_value a))" "saturated_i16 a = Inr (clamped (- 32768) 32767 (int_value a))"
    "saturated_i32 a = Inr (clamped (- 2147483648) 2147483647 (int_value a))"
    "saturated_i64 a = Inr (clamped (- 9223372036854775808) 9223372036854775807 (int_value a))"
    "saturated_u8 a = Inr (clamped 0 255 (int_value a))" "saturated_u16 a = Inr (clamped 0 65535 (int_value a))"
    "saturated_u32 a = Inr (clamped 0 4294967295 (int_value a))"
  unfolding saturated_i8_def saturated_i16_def saturated_i32_def saturated_i64_def saturated_u8_def saturated_u16_def saturated_u32_def
  using saturate_i64_eq [OF assms(1), of "- 128" 127] saturate_i64_eq [OF assms(1), of "- 32768" 32767]
    saturate_i64_eq [OF assms(1), of "- 2147483648" 2147483647] saturate_i64_eq [OF assms(1), of "- 9223372036854775808" 9223372036854775807]
    saturate_i64_eq [OF assms(1), of 0 255] saturate_i64_eq [OF assms(1), of 0 65535] saturate_i64_eq [OF assms(1), of 0 4294967295]
    assms(2) clamped_range wraps
  by simp_all

lemma saturated_unsigned: assumes "int_inv a"
  shows "saturated_u64 a = Inr (clamped 0 18446744073709551615 (int_value a))"
    "saturated_u128 a = Inr (clamped 0 340282366920938463463374607431768211455 (int_value a))"
proof -
  obtain ds where d: "mag a ds" using assms int_inv_mag by metis
  show "saturated_u64 a = Inr (clamped 0 18446744073709551615 (int_value a))"
    unfolding saturated_u64_def saturate_u64_range_def neg_test [OF assms d] to_u64_eq [OF assms] on_err_def clamped_def by auto
  show "saturated_u128 a = Inr (clamped 0 340282366920938463463374607431768211455 (int_value a))"
    using magnitude_exceeds_eq [OF d limits(6)] mag_value [OF d] negative_iff [OF assms d]
    unfolding saturated_u128_def neg_test [OF assms d] to_u128_eq [OF assms] clamped_def by auto
qed

lemma saturated_i128_eq: assumes "int_inv a"
  shows "saturated_i128 a = (if int_value a = - (2 ^ 127) then Inl (Panic i128_msg)
    else Inr (clamped (- 170141183460469231731687303715884105728) 170141183460469231731687303715884105727 (int_value a)))"
proof -
  obtain ds where d: "mag a ds" using assms int_inv_mag by metis
  show ?thesis
    using magnitude_exceeds_eq [OF d limits(4)] magnitude_exceeds_eq [OF d limits(5)] mag_value [OF d] negative_iff [OF assms d]
    unfolding saturated_i128_def to_i128_eq [OF assms] clamped_def by (auto simp: unwrap_def)
qed

end
