(* ===== verification/Lib_Int_Results.thy ===== *)
theory Lib_Int_Results
  imports Lib_Int_Convert
begin

text \<open>
  The digits of an \<^verbatim>\<open>int\<close> in another base and in groups of three, and the properties of \<^verbatim>\<open>int\<close>, with
  inputs to which they apply.
\<close>

subsection \<open>Other bases\<close>

function radix_list :: "nat \<Rightarrow> nat \<Rightarrow> nat list" where
  "radix_list b n = (if b < 2 \<or> n = 0 then [] else n mod b # radix_list b (n div b))"
  by pat_completeness auto
termination by (relation "measure snd") auto

declare radix_list.simps [simp del]

lemma radix_list_length: "2 \<le> b \<Longrightarrow> n < 2 ^ k \<Longrightarrow> length (radix_list b n) \<le> k"
proof (induction k arbitrary: n)
  case (Suc k)
  have "n < 2 ^ k * 2" using Suc.prems(2) by (simp add: mult.commute)
  then have "n div 2 < 2 ^ k" by (rule less_mult_imp_div_less)
  moreover have "n div b \<le> n div 2" using Suc.prems(1) by (intro div_le_mono2) auto
  ultimately have "length (radix_list b (n div b)) \<le> k" using Suc by simp
  then show ?case unfolding radix_list.simps [of b n] by simp
qed (simp add: radix_list.simps)

lemma radix_list_small: "2 \<le> b \<Longrightarrow> d \<in> set (radix_list b n) \<Longrightarrow> d < b"
proof (induction b n rule: radix_list.induct)
  case (1 b n)
  have "n \<noteq> 0" using 1(3) by (cases "n = 0") (simp_all add: radix_list.simps [of b 0])
  then have c: "\<not> (b < 2 \<or> n = 0)" using 1(2) by simp
  have "d = n mod b \<or> d \<in> set (radix_list b (n div b))" using 1(3) unfolding radix_list.simps [of b n] if_not_P [OF c] by simp
  then show ?case using 1(1) [OF c 1(2)] 1(2) by auto
qed

lemma radix_list_value: "2 \<le> b \<Longrightarrow> foldr (\<lambda>d v. d + b * v) (radix_list b n) 0 = n"
  by (induction b n rule: radix_list.induct) (subst radix_list.simps, auto)

definition hex_code :: "bool \<Rightarrow> nat \<Rightarrow> nat" where
  "hex_code upper d = map of_char (if upper then hex_digits_upper else hex_digits_lower) ! d"

lemma hex_codes: "length (if upper then hex_digits_upper else hex_digits_lower) = 16"
    "\<forall>c \<in> set (if upper then hex_digits_upper else hex_digits_lower). (of_char c :: nat) < 128"
  by (simp_all add: hex_digits_lower_def hex_digits_upper_def)

lemma hex_slice: assumes "d < 16"
  shows "byte_slice (literal (if upper then hex_digits_upper else hex_digits_lower)) d (d + 1) = Inr (mk_str [hex_code upper d])"
proof -
  define t :: "nat list" where "t = map of_char (if upper then hex_digits_upper else hex_digits_lower)"
  have l: "length t = 16" "\<forall>c \<in> set t. c < 128" unfolding t_def using hex_codes [of upper] by auto
  have cut: "take d t @ [t ! d] @ drop (d + 1) t = t" using assms l(1) by (simp add: Cons_nth_drop_Suc)
  have "byte_slice (mk_str (take d t @ [t ! d] @ drop (d + 1) t)) (length (take d t)) (length (take d t) + length [t ! d]) = Inr (mk_str [t ! d])"
    using l assms by (intro slice_ascii) (auto simp: cut dest: in_set_takeD in_set_dropD)
  then have "byte_slice (mk_str t) d (d + 1) = Inr (mk_str [t ! d])" unfolding cut using l(1) assms by simp
  then show ?thesis using literal_mk_str [OF hex_codes(2) [of upper]] unfolding t_def hex_code_def by simp
qed

lemma int_digits_mono: assumes "int_inv a" "int_inv b" "0 \<le> int_value a" "int_value a \<le> int_value b"
  shows "bi_num_digits a \<le> bi_num_digits b"
proof -
  obtain ds where d: "mag a ds" "bi_num_digits a = length ds" using assms(1) int_inv_mag by metis
  obtain es where e: "mag b es" "bi_num_digits b = length es" using assms(2) int_inv_mag by metis
  have "dval ds \<le> dval es"
    using assms(3,4) negative_iff [OF assms(1) d(1)] negative_iff [OF assms(2) e(1)] unfolding mag_value [OF d(1)] mag_value [OF e(1)]
    by (auto split: if_splits)
  then show ?thesis using canonical_le_length [OF magD(1) [OF d(1)] magD(1) [OF e(1)]] d(2) e(2) by simp
qed

lemma is_zero_value: "int_inv a \<Longrightarrow> is_zero a = Inr (int_value a = 0)"
proof -
  assume "int_inv a"
  then obtain ds where d: "mag a ds" using int_inv_mag by metis
  show "is_zero a = Inr (int_value a = 0)" unfolding is_zero_eq [OF d] mag_value [OF d] by simp
qed

lemma radix_loop_eq: assumes r: "int_inv radix" "int_value radix = int b" "2 \<le> b" "b \<le> 16" "bi_num_digits radix < 2 ^ 59"
  shows "int_inv a \<Longrightarrow> int_value a = int n \<Longrightarrow> bi_num_digits a < 2 ^ 59 \<Longrightarrow> length (radix_list b n) < fuel \<Longrightarrow>
    radix_loop fuel radix (literal (if upper then hex_digits_upper else hex_digits_lower)) a
      = Inr (map (\<lambda>d. mk_str [hex_code upper d]) (radix_list b n))"
proof (induction fuel arbitrary: a n)
  case (Suc fuel)
  show ?case
  proof (cases "n = 0")
    case True
    then show ?thesis using is_zero_value [OF Suc.prems(1)] Suc.prems(2) by (simp add: radix_list.simps)
  next
    case False
    have z: "is_zero a = Inr False" using is_zero_value [OF Suc.prems(1)] Suc.prems(2) False by simp
    have nz: "int_value radix \<noteq> 0" using r by simp
    obtain q m where qm: "int_divmod a radix = Inr (q, m)" "int_inv q" "int_inv m" "int_value q = tdiv (int_value a) (int_value radix)"
        "int_value m = tmod (int_value a) (int_value radix)"
      using int_divmod_eq(2) [OF Suc.prems(1) r(1) Suc.prems(3) r(5) nz] by blast
    have v: "int_value q = int (n div b)" "int_value m = int (n mod b)"
      using qm(4,5) False r(2,3) unfolding Suc.prems(2) r(2) tdiv_def tmod_def by (simp_all add: zdiv_int zmod_int sgn_if)
    have "n mod b < b" using r(3) by simp
    then have mb: "n mod b < 16" using r(4) by linarith
    have i32: "to_i32 m = Inr (int (n mod b))" using narrow_eqs(3) [OF qm(3)] v(2) mb unfolding narrowed_def by simp
    have up: "usize_panic msg (int (n mod b)) = Inr (n mod b)" for msg by simp
    have f: "n mod b + 1 < 18446744073709551616" using mb by simp
    have rl: "radix_list b n = n mod b # radix_list b (n div b)" using False r(3) by (subst radix_list.simps) simp
    have "int_value q \<le> int_value a" unfolding v(1) Suc.prems(2) by simp
    then have "bi_num_digits q < 2 ^ 59" using int_digits_mono [OF qm(2) Suc.prems(1)] v(1) Suc.prems(3) by simp
    then have IH: "radix_loop fuel radix (literal (if upper then hex_digits_upper else hex_digits_lower)) q
        = Inr (map (\<lambda>d. mk_str [hex_code upper d]) (radix_list b (n div b)))"
      using Suc.IH [OF qm(2) v(1)] Suc.prems(4) rl by simp
    show ?thesis
      unfolding radix_loop.simps z rbind_simps qm(1) unwrap_Inr prod.case i32 up fits_small [OF f] hex_slice [OF mb] IH rl by simp
  qed
qed simp

lemma join_singletons: "join_on [] (map (\<lambda>d. [f d]) ds) = map f ds"
proof (induction ds)
  case (Cons d ds)
  then show ?case by (cases ds) simp_all
qed simp

lemma to_radix_digits_eq: assumes a: "int_inv a" "bi_num_digits a < 2 ^ 59" and b: "2 \<le> b" "b \<le> 16" and fuel: "4 * bi_num_digits a < fuel"
  shows "to_radix_digits fuel a (int b) upper = Inr (mk_str (if int_value a = 0 then [48]
    else map (hex_code upper) (rev (radix_list b (nat \<bar>int_value a\<bar>)))))"
proof (cases "int_value a = 0")
  case True
  have "literal ''0'' = mk_str [48]" using literal_mk_str [of "''0''"] by simp
  then show ?thesis using True is_zero_value [OF a(1)] unfolding to_radix_digits_def by simp
next
  case False
  obtain ds where d: "mag a ds" "bi_num_digits a = length ds" "int_value a = (if bi_is_negative a then - int (dval ds) else int (dval ds))"
    using a(1) int_inv_mag by metis
  have n: "nat \<bar>int_value a\<bar> = dval ds" unfolding d(3) by simp
  have l: "length ds < 2 ^ 60" using a(2) d(2) by simp
  obtain c where c: "clone a = Inr c" "mag c ds" using clone_mag [OF d(1) l] by metis
  let ?m = "c\<lparr>bi_is_negative := False\<rparr>"
  have m: "mag ?m ds" using c(2) by simp
  then have mi: "int_inv ?m" "int_value ?m = int (dval ds)" "bi_num_digits ?m < 2 ^ 59"
    using mag_inv [OF m] mag_value [OF m] magD(4) [OF m] a(2) d(2) by simp_all
  obtain r where r: "int_new (int b) = Inr r" "int_inv r" "int_value r = int b" "bi_num_digits r \<le> 10"
    using int_new_inv [of "int b"] b(2) by auto
  have r59: "bi_num_digits r < 2 ^ 59" using r(4) by simp
  have "(10 :: nat) ^ length ds \<le> 16 ^ length ds" by (intro power_mono) simp_all
  also have "(16 :: nat) ^ length ds = 2 ^ (4 * length ds)" by (simp add: power_mult)
  finally have "dval ds < 2 ^ (4 * length ds)" using dval_bound [OF magD(3) [OF d(1)]] by linarith
  then have len: "length (radix_list b (dval ds)) \<le> 4 * length ds" using radix_list_length b(1) by blast
  then have fl: "length (radix_list b (dval ds)) < fuel" using fuel d(2) by linarith
  let ?ps = "map (\<lambda>d. mk_str [hex_code upper d]) (radix_list b (dval ds))"
  let ?cs = "map (hex_code upper) (rev (radix_list b (dval ds)))"
  have loop: "radix_loop fuel r (literal (if upper then hex_digits_upper else hex_digits_lower)) ?m = Inr ?ps"
    using radix_loop_eq [OF r(2,3) b r59 mi fl] .
  have small: "d < 16" if mem: "d \<in> set (radix_list b n)" for d n using radix_list_small [OF b(1) mem] b(2) by linarith
  have "hex_code upper d < 128" if d: "d < 16" for d
    using hex_codes [of upper] nth_mem [of d "if upper then hex_digits_upper else hex_digits_lower"] d unfolding hex_code_def by (simp only: nth_map)
  then have asc: "\<forall>x \<in> set ?cs. x < 128" using small by auto
  define ps where "ps = map (\<lambda>d. [hex_code upper d]) (rev (radix_list b (dval ds)))"
  have sc: "list_all scalar p" if p: "p \<in> set ps" for p using p asc unfolding ps_def by (intro scalar_ascii) auto
  have j: "join_on [] ps = ?cs" unfolding ps_def by (rule join_singletons)
  have "length (utf8 (join_on [] ps)) + 1 < 2 ^ 63" unfolding j utf8_ascii [OF asc] using len a(2) d(2) by simp
  then have join: "str_join (mk_str []) (map mk_str ps) = Inr (mk_str ?cs)" using join_utf8 [of "[]" ps, OF _ sc] unfolding j by simp
  have rv: "rev ?ps = map mk_str ps" unfolding ps_def by (simp add: rev_map)
  have em: "literal '''' = mk_str []" using literal_mk_str [of "''''"] by simp
  have z: "is_zero a = Inr False" using is_zero_value [OF a(1)] False by simp
  show ?thesis
    unfolding to_radix_digits_def z rbind_simps c(1) r(1) loop rv em join n using False by simp
qed

subsection \<open>Groups of three\<close>

function group3 :: "'a list \<Rightarrow> 'a list list" where
  "group3 xs = (if length xs > 3 then group3 (take (length xs - 3) xs) @ [drop (length xs - 3) xs] else [xs])"
  by pat_completeness auto
termination by (relation "measure length") auto

declare group3.simps [simp del]

lemma group3_long: "length xs > 3 \<Longrightarrow> group3 xs = group3 (take (length xs - 3) xs) @ [drop (length xs - 3) xs]"
  by (subst group3.simps) simp

lemma group3_short: "length xs \<le> 3 \<Longrightarrow> group3 xs = [xs]"
  by (subst group3.simps) simp

lemma group3_concat: "concat (group3 xs) = xs"
proof (induction xs rule: group3.induct)
  case (1 xs)
  show ?case
  proof (cases "length xs > 3")
    case True
    show ?thesis unfolding group3_long [OF True] using 1 [OF True] by simp
  qed (simp add: group3_short)
qed

lemma group3_sizes: "(\<forall>g \<in> set (tl (group3 xs)). length g = 3) \<and> length (hd (group3 xs)) \<le> 3 \<and> group3 xs \<noteq> []"
proof (induction xs rule: group3.induct)
  case (1 xs)
  show ?case
  proof (cases "length xs > 3")
    case True
    show ?thesis unfolding group3_long [OF True] using 1 [OF True] True by (cases "group3 (take (length xs - 3) xs)") auto
  qed (simp add: group3_short)
qed

lemma group_loop_eq: assumes c: "\<forall>x \<in> set cs. x < 128" "length cs + 1 < 2 ^ 63"
  shows "stop \<le> length cs \<Longrightarrow> group_loop (mk_str cs) stop = Inr (map mk_str (rev (group3 (take stop cs))))"
proof (induction stop rule: less_induct)
  case (less stop)
  have piece: "byte_slice (mk_str cs) i stop = Inr (mk_str (drop i (take stop cs)))" if i: "i \<le> stop" for i
  proof -
    have cut: "take i cs @ drop i (take stop cs) @ drop stop cs = cs"
      using i less.prems by (metis append_assoc append_take_drop_id min.absorb1 take_take)
    have "byte_slice (mk_str (take i cs @ drop i (take stop cs) @ drop stop cs)) (length (take i cs)) (length (take i cs) + length (drop i (take stop cs)))
        = Inr (mk_str (drop i (take stop cs)))"
      using c by (intro slice_ascii) (simp_all add: cut)
    then show ?thesis unfolding cut using i less.prems by simp
  qed
  show ?case
  proof (cases "stop > 3")
    case True
    have s: "sub_panic msg stop 3 = Inr (stop - 3)" for msg using True by (simp add: sub_panic_def)
    have IH: "group_loop (mk_str cs) (stop - 3) = Inr (map mk_str (rev (group3 (take (stop - 3) cs))))" using less True by simp
    have "group3 (take stop cs) = group3 (take (stop - 3) cs) @ [drop (stop - 3) (take stop cs)]"
      using group3_long [of "take stop cs"] True less.prems by (simp add: min_def)
    then show ?thesis
      unfolding group_loop.simps [of "mk_str cs" stop] if_P [OF True] s rbind_simps piece [OF diff_le_self] IH by simp
  next
    case False
    then have "group3 (take stop cs) = [take stop cs]" using less.prems by (intro group3_short) simp
    then show ?thesis using piece [of 0] False unfolding group_loop.simps [of "mk_str cs" stop] if_not_P [OF False] by simp
  qed
qed

lemma decimal_digits_eq: assumes "mag a ds" "length ds < 2 ^ 60"
  shows "rbind (int_str a) (\<lambda>digits. if bi_is_negative a then byte_slice digits 1 (byte_len digits) else Inr digits) = Inr (mk_str (decimal ds))"
proof (cases "bi_is_negative a")
  case True
  note asc = decimal_ascii [OF magD(3) [OF assms(1)], of True]
  have "byte_slice (mk_str ([45] @ decimal ds @ [])) (length [45 :: nat]) (length [45 :: nat] + length (decimal ds)) = Inr (mk_str (decimal ds))"
    using asc assms(2) by (intro slice_ascii) (auto simp: sign_text_def)
  moreover have "byte_len (mk_str ([45] @ decimal ds)) = 1 + length ds" using mk_str_ascii(2) [OF asc] by (simp add: sign_text_def)
  ultimately show ?thesis using int_str_mag [OF assms] True by (simp add: sign_text_def)
qed (use int_str_mag [OF assms] in \<open>simp add: sign_text_def\<close>)

lemma grouping_eq: assumes a: "mag a ds" "length ds < 2 ^ 60" and s: "list_all scalar sep" "length (utf8 (join_on sep (group3 (decimal ds)))) + 1 < 2 ^ 63"
  shows "decimal_digits_with_grouping a (mk_str sep) = Inr (mk_str (join_on sep (group3 (decimal ds))))"
proof -
  have asc: "\<forall>x \<in> set (decimal ds). x < 128" using decimal_ascii [OF magD(3) [OF a(1)], of False] by (simp add: sign_text_def)
  have len: "byte_len (mk_str (decimal ds)) = length ds" using mk_str_ascii(2) [OF asc] by simp
  have R: "decimal_digits_with_grouping a (mk_str sep) = (if length ds \<le> 3 then Inr (mk_str (decimal ds))
      else rbind (group_loop (mk_str (decimal ds)) (length ds)) (\<lambda>groups. str_join (mk_str sep) (rev groups)))"
    using decimal_digits_eq [OF a] len unfolding decimal_digits_with_grouping_def by (auto simp: rbind_def split: sum.splits)
  show ?thesis
  proof (cases "length ds \<le> 3")
    case True
    then have "group3 (decimal ds) = [decimal ds]" by (intro group3_short) simp
    then show ?thesis using R True by simp
  next
    case False
    have sc: "list_all scalar p" if p: "p \<in> set (group3 (decimal ds))" for p
    proof -
      have "set p \<subseteq> set (concat (group3 (decimal ds)))" using p by auto
      then show ?thesis using asc unfolding group3_concat by (intro scalar_ascii) blast
    qed
    have "group_loop (mk_str (decimal ds)) (length ds) = Inr (map mk_str (rev (group3 (decimal ds))))"
      using group_loop_eq [OF asc, of "length ds"] a(2) by simp
    then show ?thesis using R False join_utf8 [OF s(1) sc s(2)] by (simp add: rev_map)
  qed
qed

lemma join_on_length: "length (join_on [c] gs) \<le> length (concat gs) + length gs"
  by (induction "[c]" gs rule: join_on.induct) auto

lemma group3_length: "length (group3 xs) \<le> length xs + 1"
proof (induction xs rule: group3.induct)
  case (1 xs)
  show ?case
  proof (cases "length xs > 3")
    case True
    show ?thesis unfolding group3_long [OF True] using 1 [OF True] True by simp
  qed (simp add: group3_short)
qed

lemma grouping_value: assumes a: "mag a ds" "length ds < 2 ^ 60" and c: "c < 128"
  shows "decimal_digits_with_grouping a (mk_str [c]) = Inr (mk_str (join_on [c] (group3 (decimal ds))))"
proof -
  have asc: "\<forall>x \<in> set (decimal ds). x < 128" using decimal_ascii [OF magD(3) [OF a(1)], of False] by (simp add: sign_text_def)
  have "set (join_on [c] gs) \<subseteq> insert c (set (concat gs))" for gs :: "nat list list"
    by (induction "[c]" gs rule: join_on.induct) auto
  then have "\<forall>x \<in> set (join_on [c] (group3 (decimal ds))). x < 128" using asc c group3_concat [of "decimal ds"] by fastforce
  moreover have "length (join_on [c] (group3 (decimal ds))) \<le> length ds + (length ds + 1)"
    using join_on_length [of c "group3 (decimal ds)"] group3_length [of "decimal ds"] unfolding group3_concat by simp
  ultimately have "length (utf8 (join_on [c] (group3 (decimal ds)))) + 1 < 2 ^ 63" using utf8_ascii a(2) by simp
  then show ?thesis using grouping_eq [OF a] scalar_ascii [of "[c]"] c by simp
qed

subsection \<open>Properties\<close>

text \<open>An object with the given digits, for the examples.\<close>

definition demo_int :: "bool \<Rightarrow> nat list \<Rightarrow> bigint" where
  "demo_int neg ds = \<lparr>bi_digits = map Some ds, bi_num_digits = length ds, bi_num_allocated = length ds, bi_is_negative = neg\<rparr>"

lemma demo_int: assumes "canonical ds" "neg \<longrightarrow> dval ds \<noteq> 0"
  shows "int_inv (demo_int neg ds)" "int_value (demo_int neg ds) = (if neg then - int (dval ds) else int (dval ds))"
    "bi_num_digits (demo_int neg ds) = length ds" "bi_is_negative (demo_int neg ds) = neg"
proof -
  have m: "mag (demo_int neg ds) ds" unfolding mag_def demo_int_def holds_def using assms(1) by simp
  show "int_inv (demo_int neg ds)" using mag_inv [OF m] assms(2) by (simp add: demo_int_def)
  show "int_value (demo_int neg ds) = (if neg then - int (dval ds) else int (dval ds))" unfolding mag_value [OF m] by (simp add: demo_int_def)
qed (simp_all add: demo_int_def)

text \<open>
  C37.  \<^verbatim>\<open>int\<close> implements the integers: construction from a machine integer, sum, difference, negation and
  product have the value they should, keep the digits canonical -- no leading zero, no negative zero --
  and never panic or leave their block, and the comparisons compare the values, also between numbers that
  were computed in different ways.
\<close>

theorem int_arithmetic:
  assumes "int_inv a" "int_inv b" "bi_num_digits a < 2 ^ 59" "bi_num_digits b < 2 ^ 59" "- (2 ^ 31) \<le> v" "v < 2 ^ 31"
  shows "(\<exists>r. int_new v = Inr r \<and> int_inv r \<and> int_value r = v)
    \<and> (\<exists>r. int_add a b = Inr r \<and> int_inv r \<and> int_value r = int_value a + int_value b)
    \<and> (\<exists>r. int_sub a b = Inr r \<and> int_inv r \<and> int_value r = int_value a - int_value b)
    \<and> (\<exists>r. int_mul a b = Inr r \<and> int_inv r \<and> int_value r = int_value a * int_value b)
    \<and> (\<exists>r. int_neg a = Inr r \<and> int_inv r \<and> int_value r = - int_value a)
    \<and> compare a b = Inr (sgn (int_value a - int_value b))
    \<and> int_eq a b = Inr (int_value a = int_value b) \<and> int_eq_i32 a v = Inr (int_value a = v)
    \<and> int_lt a b = Inr (int_value a < int_value b) \<and> int_le a b = Inr (int_value a \<le> int_value b)
    \<and> (int_value a = int_value b \<longrightarrow> take (bi_num_digits a) (bi_digits a) = take (bi_num_digits b) (bi_digits b))"
proof -
  have l: "bi_num_digits a < 2 ^ 60" "bi_num_digits b < 2 ^ 60" using assms(3,4) by simp_all
  obtain n where n: "int_new v = Inr n" "int_inv n" "int_value n = v" using int_new_inv [OF assms(5,6)] by metis
  have i32: "int_eq_i32 a v = Inr (int_value a = v)" unfolding int_eq_i32_def n(1) rbind_simps using comparisons(1) [OF assms(1) n(2)] n(3) by simp
  have add: "\<exists>r. int_add a b = Inr r \<and> int_inv r \<and> int_value r = int_value a + int_value b" using int_add_eq [OF assms(1,2) l] by metis
  have sub: "\<exists>r. int_sub a b = Inr r \<and> int_inv r \<and> int_value r = int_value a - int_value b" using int_sub_eq [OF assms(1,2) l] by metis
  have mul: "\<exists>r. int_mul a b = Inr r \<and> int_inv r \<and> int_value r = int_value a * int_value b" using int_mul_eq [OF assms(1,2) l] by metis
  have neg: "\<exists>r. int_neg a = Inr r \<and> int_inv r \<and> int_value r = - int_value a" using int_neg_eq [OF assms(1) l(1)] by metis
  show ?thesis
    using n add sub mul neg compare_eq [OF assms(1,2)] comparisons [OF assms(1,2)] i32 int_value_unique [OF assms(1,2)]
    by (intro conjI) blast+
qed

theorem int_arithmetic_witness:
  "\<exists>r. int_mul (demo_int False [9, 9]) (demo_int True [2]) = Inr r \<and> int_value r = - 198"
proof -
  have c: "canonical [9, 9]" "canonical [2]" by (simp_all add: canonical_def)
  have d: "int_inv (demo_int False [9, 9])" "int_value (demo_int False [9, 9]) = 99" "int_inv (demo_int True [2])"
    "int_value (demo_int True [2]) = - 2" "bi_num_digits (demo_int False [9, 9]) < 2 ^ 59" "bi_num_digits (demo_int True [2]) < 2 ^ 59"
    using demo_int [OF c(1), of False] demo_int [OF c(2), of True] by simp_all
  have "\<exists>r. int_mul (demo_int False [9, 9]) (demo_int True [2]) = Inr r \<and> int_inv r
      \<and> int_value r = int_value (demo_int False [9, 9]) * int_value (demo_int True [2])"
    using int_arithmetic [OF d(1,3,5,6), of 0] by simp
  then show ?thesis using d(2,4) by auto
qed

text \<open>
  C38.  Division of \<^verbatim>\<open>int\<close> returns: a zero divisor is a \<^verbatim>\<open>ZeroDivisionError\<close>, and otherwise quotient and
  remainder are those of division that truncates towards zero, with the remainder smaller than the
  divisor and of the sign of the dividend; \<^verbatim>\<open>//\<close> and \<^verbatim>\<open>%\<close> are its two parts.
\<close>

theorem int_division:
  assumes "int_inv a" "int_inv b" "bi_num_digits a < 2 ^ 59" "bi_num_digits b < 2 ^ 59"
  shows "if int_value b = 0
    then int_divmod a b = Inl ZeroDivisionError \<and> int_floordiv a b = Inl ZeroDivisionError \<and> int_mod a b = Inl ZeroDivisionError
    else \<exists>q r. int_divmod a b = Inr (q, r) \<and> int_floordiv a b = Inr q \<and> int_mod a b = Inr r \<and> int_inv q \<and> int_inv r
      \<and> int_value a = int_value q * int_value b + int_value r \<and> \<bar>int_value r\<bar> < \<bar>int_value b\<bar>
      \<and> (int_value r = 0 \<or> sgn (int_value r) = sgn (int_value a))"
proof (cases "int_value b = 0")
  case True
  then show ?thesis using int_divmod_eq(1) [OF assms] unfolding int_floordiv_def int_mod_def by simp
next
  case False
  obtain q r where qr: "int_divmod a b = Inr (q, r)" "int_inv q" "int_inv r" "int_value q = tdiv (int_value a) (int_value b)"
      "int_value r = tmod (int_value a) (int_value b)" using int_divmod_eq(2) [OF assms False] by blast
  have "int_floordiv a b = Inr q" "int_mod a b = Inr r" unfolding int_floordiv_def int_mod_def qr(1) by simp_all
  then show ?thesis
    using qr False tdiv_tmod(1) [of "int_value a" "int_value b"] tdiv_tmod(2) [OF False, of "int_value a"] tdiv_tmod(3) [of "int_value a" "int_value b"]
    by auto
qed

theorem int_division_witness:
  "int_divmod (demo_int True [7]) (demo_int False [0]) = Inl ZeroDivisionError \<and>
   (\<exists>q r. int_divmod (demo_int True [7]) (demo_int False [2]) = Inr (q, r) \<and> int_value q = - 3 \<and> int_value r = - 1)"
proof -
  have c: "canonical [7]" "canonical [0]" "canonical [2]" by (simp_all add: canonical_def)
  have d: "int_inv (demo_int True [7])" "int_value (demo_int True [7]) = - 7" "int_inv (demo_int False [0])" "int_value (demo_int False [0]) = 0"
    "int_inv (demo_int False [2])" "int_value (demo_int False [2]) = 2" "bi_num_digits (demo_int True [7]) < 2 ^ 59"
    "bi_num_digits (demo_int False [0]) < 2 ^ 59" "bi_num_digits (demo_int False [2]) < 2 ^ 59"
    using demo_int [OF c(1), of True] demo_int [OF c(2), of False] demo_int [OF c(3), of False] by simp_all
  obtain q r where qr: "int_divmod (demo_int True [7]) (demo_int False [2]) = Inr (q, r)" "- 7 = int_value q * 2 + int_value r"
      "\<bar>int_value r\<bar> < 2" "int_value r = 0 \<or> sgn (int_value r) = - 1"
    using int_division [OF d(1,5,7,9)] unfolding d(2,6) by auto
  have "int_value r \<le> 0" using qr(4) by (auto simp: sgn_if split: if_splits)
  then have "int_value q = - 3 \<and> int_value r = - 1" using qr(2,3) by presburger
  then show ?thesis using qr(1) int_division [OF d(1,3,7,8)] d(4) by auto
qed

text \<open>
  C39.  The checked conversions give the value if the type has it and \<^verbatim>\<open>OverflowError\<close> otherwise, and the
  saturating ones clamp -- except that the smallest \<^verbatim>\<open>i64\<close> panics in every signed or narrow conversion,
  checked or saturating, and the smallest \<^verbatim>\<open>i128\<close> in the two conversions to \<^verbatim>\<open>i128\<close>, because the magnitude
  is accumulated in the signed type before it is negated.
\<close>

theorem int_conversions:
  assumes "int_inv a"
  shows "to_i8 a = narrowed (- 128) 127 (int_value a) \<and> to_i16 a = narrowed (- 32768) 32767 (int_value a)
    \<and> to_i32 a = narrowed (- 2147483648) 2147483647 (int_value a) \<and> to_i64 a = narrowed (- (2 ^ 63)) (2 ^ 63 - 1) (int_value a)
    \<and> to_u8 a = narrowed 0 255 (int_value a) \<and> to_u16 a = narrowed 0 65535 (int_value a) \<and> to_u32 a = narrowed 0 4294967295 (int_value a)
    \<and> to_u64 a = (if 0 \<le> int_value a \<and> int_value a < 2 ^ 64 then Inr (int_value a) else Inl OverflowError)
    \<and> to_u128 a = (if 0 \<le> int_value a \<and> int_value a < 2 ^ 128 then Inr (int_value a) else Inl OverflowError)
    \<and> to_i128 a = (if int_value a = - (2 ^ 127) then Inl (Panic i128_msg)
        else if - (2 ^ 127) < int_value a \<and> int_value a < 2 ^ 127 then Inr (int_value a) else Inl OverflowError)
    \<and> (int_value a \<noteq> - (2 ^ 63) \<longrightarrow>
        saturated_i8 a = Inr (clamped (- 128) 127 (int_value a)) \<and> saturated_i32 a = Inr (clamped (- 2147483648) 2147483647 (int_value a))
        \<and> saturated_i64 a = Inr (clamped (- 9223372036854775808) 9223372036854775807 (int_value a))
        \<and> saturated_u8 a = Inr (clamped 0 255 (int_value a)) \<and> saturated_u32 a = Inr (clamped 0 4294967295 (int_value a)))
    \<and> (int_value a = - (2 ^ 63) \<longrightarrow> saturated_i64 a = Inl (Panic i64_msg) \<and> saturated_u8 a = Inl (Panic i64_msg))
    \<and> saturated_u64 a = Inr (clamped 0 18446744073709551615 (int_value a))
    \<and> saturated_u128 a = Inr (clamped 0 340282366920938463463374607431768211455 (int_value a))
    \<and> saturated_i128 a = (if int_value a = - (2 ^ 127) then Inl (Panic i128_msg)
        else Inr (clamped (- 170141183460469231731687303715884105728) 170141183460469231731687303715884105727 (int_value a)))"
proof (intro conjI impI)
  assume v: "int_value a \<noteq> - (2 ^ 63)"
  show "saturated_i8 a = Inr (clamped (- 128) 127 (int_value a))" "saturated_i32 a = Inr (clamped (- 2147483648) 2147483647 (int_value a))"
    "saturated_i64 a = Inr (clamped (- 9223372036854775808) 9223372036854775807 (int_value a))"
    "saturated_u8 a = Inr (clamped 0 255 (int_value a))" "saturated_u32 a = Inr (clamped 0 4294967295 (int_value a))"
    using saturated_eqs [OF assms v] by blast+
next
  assume v: "int_value a = - (2 ^ 63)"
  show "saturated_i64 a = Inl (Panic i64_msg)"
    using saturate_i64_eq [OF assms, of "- 9223372036854775808" 9223372036854775807] v unfolding saturated_i64_def by simp
  show "saturated_u8 a = Inl (Panic i64_msg)" using saturate_i64_eq [OF assms, of 0 255] v unfolding saturated_u8_def by simp
qed (use narrow_eqs [OF assms] to_u64_eq [OF assms] to_u128_eq [OF assms] to_i128_eq [OF assms] saturated_unsigned [OF assms] saturated_i128_eq [OF assms] in blast)+

theorem int_conversions_witness:
  "to_i8 (demo_int True [8, 2, 1]) = Inr (- 128) \<and> to_u8 (demo_int False [6, 5, 2]) = Inl OverflowError \<and>
   to_i64 (demo_int True [8, 0, 8, 5, 7, 7, 4, 5, 8, 6, 3, 0, 2, 7, 3, 3, 2, 2, 9]) = Inl (Panic i64_msg)"
proof -
  have c: "canonical [8, 2, 1]" "canonical [6, 5, 2]" "canonical [8, 0, 8, 5, 7, 7, 4, 5, 8, 6, 3, 0, 2, 7, 3, 3, 2, 2, 9]"
    by (simp_all add: canonical_def)
  note d1 = demo_int [OF c(1), of True] and d2 = demo_int [OF c(2), of False] and d3 = demo_int [OF c(3), of True]
  have "to_i8 (demo_int True [8, 2, 1]) = narrowed (- 128) 127 (int_value (demo_int True [8, 2, 1]))"
    using int_conversions [of "demo_int True [8, 2, 1]"] d1(1) by simp
  moreover have "to_u8 (demo_int False [6, 5, 2]) = narrowed 0 255 (int_value (demo_int False [6, 5, 2]))"
    using int_conversions [of "demo_int False [6, 5, 2]"] d2(1) by simp
  moreover have "to_i64 (demo_int True [8, 0, 8, 5, 7, 7, 4, 5, 8, 6, 3, 0, 2, 7, 3, 3, 2, 2, 9])
      = narrowed (- (2 ^ 63)) (2 ^ 63 - 1) (int_value (demo_int True [8, 0, 8, 5, 7, 7, 4, 5, 8, 6, 3, 0, 2, 7, 3, 3, 2, 2, 9]))"
    using int_conversions [of "demo_int True [8, 0, 8, 5, 7, 7, 4, 5, 8, 6, 3, 0, 2, 7, 3, 3, 2, 2, 9]"] d3(1) by simp
  ultimately show ?thesis using d1(2) d2(2) d3(2) by (simp add: narrowed_def)
qed



end
