(* ===== verification/Spec2Isabelle.thy ===== *)
theory Spec2Isabelle
  imports Cfg_Findings Overload_Examples Lib_Dict_Correct Emit_Arith_Results Lib_Base64_Results Lib_Huffman_Results
    Lib_Inflate_Safe Lib_Str_Results Lib_Int_Results
begin

text \<open>
  MetalPy: a verification of the core of the compiler, of its run-time containers and of its codecs.

  \<^bold>\<open>The program.\<close>  MetalPy compiles a statically typed subset of Python to C.  A module is read by
  \<^verbatim>\<open>src/discovery.py\<close>, typed by \<^verbatim>\<open>src/type_resolver.py\<close>, instantiated by \<^verbatim>\<open>src/monomorphize.py\<close> and
  lowered by \<^verbatim>\<open>src/lowering*.py\<close> to the instructions of \<^verbatim>\<open>src/ir.py\<close>, which \<^verbatim>\<open>src/emitter_c.py\<close> prints
  as C.  Values are reference counted.  While it lowers a function, the lowering pass calls the
  ownership state machine of \<^verbatim>\<open>src/cfg.py\<close>, which decides where to retain and release, which names
  are live, what a union is narrowed to and which results were not checked; an overloaded call goes
  through \<^verbatim>\<open>src/overload_resolution.py\<close>; an arithmetic operator asks \<^verbatim>\<open>src/arithmetic_mode.py\<close> for its
  opcode.  The program runs on the containers of \<^verbatim>\<open>src/lib\<close>, which are MetalPy code themselves, and so are the
  codecs built on them: base64, and the DEFLATE stack, where \<^verbatim>\<open>deflate.py\<close> writes the tokens of \<^verbatim>\<open>lz77.py\<close> with
  the codes of \<^verbatim>\<open>huffman.py\<close> through the bit streams of \<^verbatim>\<open>bitstream.py\<close>, and reads them back.  A \<^verbatim>\<open>str\<close> is validated
  UTF-8 with an index of every 256th code point, its codecs convert to and from bytes, and \<^verbatim>\<open>int\<close> is a number of
  any size in decimal digits.

  \<^bold>\<open>Theories and sources.\<close>

  \<^item> \<^verbatim>\<open>Mpy_Prelude\<close>: shared lemmas on lists, options and association lists.
  \<^item> \<^verbatim>\<open>Mpy_Types\<close> (\<^verbatim>\<open>src/mpy_types.py\<close>): variables and the type kinds as one datatype, leaves of a union,
    what is reference counted.
  \<^item> \<^verbatim>\<open>Mpy_IR\<close> (\<^verbatim>\<open>src/ir.py\<close>): operands, instructions and labels that the state machine builds, and a
    small-step meaning of the code: the events (retain, release, call) it performs.
  \<^item> \<^verbatim>\<open>Cfg_Refcount\<close>, \<^verbatim>\<open>Cfg_State\<close>, \<^verbatim>\<open>Cfg_Assign\<close>, \<^verbatim>\<open>Cfg_Epilogue\<close>, \<^verbatim>\<open>Cfg_Control\<close> (\<^verbatim>\<open>src/cfg.py\<close>): the class
    \<^verbatim>\<open>CFGState\<close> as the record \<open>cfg_state\<close>, one definition per method, in state-passing style.  Epilogue
    entries are shared mutable objects in Python; here they live in a store, and the stack,
    the bindings and the snapshots hold their addresses, so that the aliasing is that of the code.
    The callbacks handed to the constructor (union storage, label and temporary supply) are fields
    of the environment \<open>cenv\<close>.
  \<^item> \<^verbatim>\<open>Cfg_Lower\<close> (\<^verbatim>\<open>src/lowering_stmt.py\<close>, \<^verbatim>\<open>src/lowering_loop.py\<close>): the order in which the lowering of \<^verbatim>\<open>if\<close>, \<^verbatim>\<open>while\<close>,
    \<^verbatim>\<open>break\<close>, \<^verbatim>\<open>continue\<close>, \<^verbatim>\<open>return\<close>, \<^verbatim>\<open>del\<close>, assignments and inspections calls the state machine, as the relation
    \<open>lowers\<close> of accepted lowerings, and the ways such statements can be run.
  \<^item> \<^verbatim>\<open>Cfg_Exec\<close>, \<^verbatim>\<open>Cfg_Wf\<close>, \<^verbatim>\<open>Cfg_Run\<close>, \<^verbatim>\<open>Cfg_Balance\<close>, \<^verbatim>\<open>Cfg_Join\<close>, \<^verbatim>\<open>Cfg_Results\<close>, \<^verbatim>\<open>Cfg_Findings\<close>: their
    properties.
  \<^item> \<^verbatim>\<open>Overload_Resolution\<close> (\<^verbatim>\<open>src/overload_resolution.py\<close>, and the tests the lowering pass emits from a
    dispatch plan), \<^verbatim>\<open>Overload_Correct\<close>, \<^verbatim>\<open>Overload_Examples\<close>.
  \<^item> \<^verbatim>\<open>Lib_Base\<close>, \<^verbatim>\<open>Lib_List\<close>, \<^verbatim>\<open>Lib_List_Correct\<close> (\<^verbatim>\<open>src/lib/builtins/__list.py\<close>, index rules of
    \<^verbatim>\<open>src/lib/builtins/__init__.py\<close>), \<^verbatim>\<open>Lib_Dict\<close>, \<^verbatim>\<open>Lib_Dict_Correct\<close> (\<^verbatim>\<open>src/lib/bisect.py\<close>,
    \<^verbatim>\<open>src/lib/builtins/__RawDict.py\<close>, the dictionary of \<^verbatim>\<open>src/lib/builtins/__init__.py\<close>): buffers as lists
    of slots with a capacity, an access outside the buffer is an error value.
  \<^item> \<^verbatim>\<open>Emit_Arith\<close> (\<^verbatim>\<open>src/arithmetic_mode.py\<close>, the integer part of \<^verbatim>\<open>src/emitter_c.py\<close>): the opcode of an
    operator in a mode, and the emitted C as a syntax tree with the C rules for it -- promotion,
    usual conversions, undefined behaviour as \<open>None\<close> -- for both families of C compilers;
    \<^verbatim>\<open>Emit_Arith_Correct\<close>, \<^verbatim>\<open>Emit_Cast_Correct\<close>, \<^verbatim>\<open>Emit_Arith_Results\<close>.
  \<^item> \<^verbatim>\<open>Lib_Bytes\<close> (casts, wrapping and panicking arithmetic, accesses through pointers), \<^verbatim>\<open>Lib_Base64\<close>
    (\<^verbatim>\<open>src/lib/base64.py\<close>), \<^verbatim>\<open>Lib_Base64_Correct\<close>, \<^verbatim>\<open>Lib_Base64_Results\<close>.
  \<^item> \<^verbatim>\<open>Lib_Bitstream\<close> (\<^verbatim>\<open>src/lib/bitstream.py\<close>): writer and reader as records with their bit buffers;
    \<^verbatim>\<open>Lib_Bitstream_Correct\<close> says which bits a writer has written and a reader has left.  \<^verbatim>\<open>Lib_Huffman\<close>
    (\<^verbatim>\<open>src/lib/huffman.py\<close>), \<^verbatim>\<open>Lib_Huffman_Correct\<close> (the locales \<open>huffman_code\<close> and \<open>huffman_decoding\<close>),
    \<^verbatim>\<open>Lib_Huffman_Build\<close> (the forest as trees), \<^verbatim>\<open>Lib_Huffman_Results\<close>.  \<^verbatim>\<open>Lib_Lz77\<close>, \<^verbatim>\<open>Lib_Lz77_Correct\<close>
    (\<^verbatim>\<open>src/lib/lz77.py\<close>).  \<^verbatim>\<open>Lib_Deflate\<close> and \<^verbatim>\<open>Lib_Inflate\<close> (\<^verbatim>\<open>src/lib/deflate.py\<close>, compression and decompression),
    \<^verbatim>\<open>Lib_Deflate_Tokens\<close> (the locale \<open>symbol_table\<close>, and that tokens are read as they were written),
    \<^verbatim>\<open>Lib_Deflate_Header\<close> (frequencies and the header of a dynamic block), \<^verbatim>\<open>Lib_Deflate_Results\<close>, \<^verbatim>\<open>Lib_Inflate_Safe\<close>.
  \<^item> \<^verbatim>\<open>Lib_Mem\<close> (blocks of bytes: allocation, \<^verbatim>\<open>memcpy\<close>, \<^verbatim>\<open>memcmp\<close>), \<^verbatim>\<open>Lib_Str\<close> and \<^verbatim>\<open>Lib_Str_Ops\<close> (\<^verbatim>\<open>str\<close> of
    \<^verbatim>\<open>src/lib/builtins/__init__.py\<close> and the helpers of \<^verbatim>\<open>__str.py\<close>): a string as its block, its length, its number of code
    points and its index.  \<^verbatim>\<open>Lib_Utf8\<close> is the abstract UTF-8 encoding; \<^verbatim>\<open>Lib_Str_Correct\<close> (validation, indexing),
    \<^verbatim>\<open>Lib_Str_Search\<close> (search and rebuilding).  \<^verbatim>\<open>Lib_Codecs\<close> (\<^verbatim>\<open>src/lib/codecs\<close>), \<^verbatim>\<open>Lib_Codecs_Correct\<close> (the locale
    \<open>codec\<close>, interpreted for UTF-8 and for UTF-16 of either byte order), \<^verbatim>\<open>Lib_Str_Results\<close>.
  \<^item> \<^verbatim>\<open>Lib_Int\<close>, \<^verbatim>\<open>Lib_Int_Text\<close> (\<^verbatim>\<open>src/lib/builtins/__int.py\<close>): a number as its sign, its block of digits, least
    significant first, and the sizes used and allocated.  \<^verbatim>\<open>Lib_Int_Digits\<close> (lists of digits and their value),
    \<^verbatim>\<open>Lib_Int_Magnitude\<close> (the loops over digits), \<^verbatim>\<open>Lib_Int_Correct\<close> (the invariant and the abstract value),
    \<^verbatim>\<open>Lib_Int_Products\<close>, \<^verbatim>\<open>Lib_Int_Parse\<close>, \<^verbatim>\<open>Lib_Int_Convert\<close>, \<^verbatim>\<open>Lib_Int_Results\<close>.

  \<^bold>\<open>What the theorems show.\<close>

  \<^item> C1--C3, code that runs: the retain/release code of a value of any type touches exactly the references
    it carries; an unwind replays exactly the live entries; a jump to the shared epilogue label has the
    events of the inline unwind while the entries are unchanged.
  \<^item> C4--C6, the state machine: an inductive invariant of all reachable states, no jump to a label that
    is not declared, and \<^verbatim>\<open>hard_restore\<close> as the inverse of any part of a run, jumps, nested snapshots and inline scopes included.  The contract of an
    operation is the locale \<open>cfg_operation\<close>, interpreted for each operation.
  \<^item> C7, balance: straight-line code followed by a return releases or gives away exactly what it
    owned, received and retained.
  \<^item> C8--C12, joins, loops, results, construction: exactly which joins are accepted, that what is
    assumed afterwards holds on every path, and that an accepted body loses no result on any way through it.
  \<^item> C13, a finding: in every state, a local deleted after an early return through a shared label is leaked by that
    return; \<^verbatim>\<open>Cfg_Findings\<close> also runs small functions with other orders of \<^verbatim>\<open>return\<close>, move and reassignment on which the
    shared epilogue leaks or releases twice.
  \<^item> C14--C17, overloads: the sweep partitions the argument types, an accepted call has a target for every
    combination, also where protocol bounds decide between members; the emitted dispatch refines the first-match rule
    when one argument distinguishes the overloads; and plain implementations that each take several leaves are never told
    apart, so that the first is always called.
  \<^item> C18--C21, containers: lists refine sequences (locale \<open>sequence_impl\<close>) and follow the index and slice
    rules of Python, binary search terminates at the insertion point without overflow, dictionaries
    refine maps in insertion order for keys that satisfy the locale \<open>hashed_key\<close> (interpreted
    for \<^verbatim>\<open>str\<close> with FNV-1a), all with balanced references; a list of capacity 0 overflows.
  \<^item> C22--C26, arithmetic: what every integer operator, shift, negation and conversion yields in each mode, with the
    operands on which it departs from the mode or is undefined behaviour stated exactly; the MSVC functions equal the
    builtins, and the operands on which they do not.
  \<^item> C27, base64: the round trip, and exactly which texts the strict decoder accepts.
  \<^item> C28--C32, DEFLATE: what is compressed is decompressed to the same bytes, by way of the round trips of
    Huffman codes, LZ77 tokens and bit streams; decompressing arbitrary bytes, into a buffer of at least one byte, never panics, never leaves the
    buffer and ends; which code lengths are built from frequencies.
  \<^item> C33--C36, strings: exactly which bytes become a string, indexing and searching as on the sequence of code
    points, and the round trips of the codecs.
  \<^item> C37--C40, \<^verbatim>\<open>int\<close>: arithmetic and comparison refine the integers, division truncates, conversions follow
    the ranges of the machine integers except at the smallest \<^verbatim>\<open>i64\<close> and \<^verbatim>\<open>i128\<close>, and texts are read back.

  \<^bold>\<open>Bounds and fuel.\<close>  Recursion over types and code is structural or has a measure.  The loop of
  the binary search has a termination measure.  Ladders and code
  blocks are finite lists run by structural recursion.  Every loop of the decompressor reads at least one bit per
  round, which is its measure.  There are two uses of fuel.  \<open>depth_loop\<close>, the walk over the
  Huffman tree, gets as many steps as the tree has nodes, each of which is popped once, and C31 shows that this
  is enough.  \<open>radix_loop\<close> divides until the quotient is 0; C40 shows that four rounds per decimal digit and one more are
  enough for every base.  Data of 2 gigabytes and more is outside C28 and C32, because the match finder keeps positions in
  32 bits; strings have less than \<open>2 ^ 63\<close> bytes and numbers less than \<open>2 ^ 59\<close> digits, so that their sizes fit
  \<^verbatim>\<open>usize\<close>.
  \<^verbatim>\<open>_MAX_TRACKED_STATES\<close> of the overload analysis is the constant of the source.

  \<^bold>\<open>Not modelled.\<close>  Parsing, discovery and name resolution, type inference and
  monomorphization (walks over the Python syntax tree); the lowering of expressions and calls, of \<^verbatim>\<open>for\<close>, \<^verbatim>\<open>try\<close>,
  \<^verbatim>\<open>with\<close> and \<^verbatim>\<open>raise\<close> (the step relation of \<^verbatim>\<open>Cfg_Run\<close> allows the calls of the state machine in any order;
  in \<^verbatim>\<open>Cfg_Lower\<close> every step of an expression runs, so conditional expressions with inspections are outside C10); floating
  point; C text outside integer
  arithmetic; the C toolchain; locks of the thread-safe containers;
  the cached UTF-16 copy of a string, lossy UTF-16, case mapping, padding and the format helpers of \<^verbatim>\<open>str\<close>; operating system and
  network parts of the library, and the archive formats on top of DEFLATE.
\<close>

end
